(* ===== verification/Achat_Prelude.thy ===== *)
theory Achat_Prelude
  imports Main "HOL-Library.Word" "HOL-Library.Char_ord"
begin

text \<open>
  Shared vocabulary of the development: bytes and byte strings, memory copies into a
  vector (\<open>copy_at\<close>), sub-ranges of a vector (\<open>subrange\<close>), the library's substring search,
  big-endian encodings of machine words, and decimal numerals as the C library prints
  and reads them. The lemmas here carry no program content; every component theory uses
  them through the simplifier or through the collections declared below.
\<close>

unbundle bit_operations_syntax

named_theorems subrange_simps \<open>rewriting of sub-ranges and copies of vectors\<close>
named_theorems wf_intros \<open>preservation of the data-structure invariants\<close>
named_theorems abs_simps \<open>effect of concrete operations on the abstract content\<close>

type_synonym byte = "8 word"

abbreviation CR :: char where "CR \<equiv> CHR 0x0D"
abbreviation LF :: char where "LF \<equiv> CHR 0x0A"
abbreviation NUL :: char where "NUL \<equiv> CHR 0x00"
abbreviation TAB :: char where "TAB \<equiv> CHR 0x09"
abbreviation DQUOTE :: char where "DQUOTE \<equiv> CHR 0x22"
abbreviation SQUOTE :: char where "SQUOTE \<equiv> CHR 0x27"
abbreviation BACKSLASH :: char where "BACKSLASH \<equiv> CHR 0x5C"

section \<open>Copies into and ranges of a vector\<close>

text \<open>\<open>copy_at i ys xs\<close> is \<open>memcpy(xs + i, ys, length ys)\<close> for a destination inside \<open>xs\<close>.\<close>

definition copy_at :: "nat \<Rightarrow> 'a list \<Rightarrow> 'a list \<Rightarrow> 'a list" where
  "copy_at i ys xs = take i xs @ ys @ drop (i + length ys) xs"

definition subrange :: "nat \<Rightarrow> nat \<Rightarrow> 'a list \<Rightarrow> 'a list" where
  "subrange i j xs = take (j - i) (drop i xs)"

lemma length_copy_at [simp]:
  "i + length ys \<le> length xs \<Longrightarrow> length (copy_at i ys xs) = length xs"
  by (simp add: copy_at_def)

lemma length_subrange [simp]: "j \<le> length xs \<Longrightarrow> length (subrange i j xs) = j - i"
  by (simp add: subrange_def)

lemma subrange_empty [simp]: "j \<le> i \<Longrightarrow> subrange i j xs = []"
  by (simp add: subrange_def)

lemma subrange_append_split [subrange_simps]:
  "i \<le> j \<Longrightarrow> j \<le> k \<Longrightarrow> subrange i k xs = subrange i j xs @ subrange j k xs"
proof -
  assume ij: "i \<le> j" and jk: "j \<le> k"
  have "take (k - i) (drop i xs) = take (j - i + (k - j)) (drop i xs)"
    using ij jk by simp
  also have "\<dots> = take (j - i) (drop i xs) @ take (k - j) (drop (j - i) (drop i xs))"
    by (rule take_add)
  finally show ?thesis using ij by (simp add: subrange_def add.commute)
qed

lemma subrange_copy_at_same [subrange_simps]:
  "i + length ys \<le> length xs \<Longrightarrow> subrange i (i + length ys) (copy_at i ys xs) = ys"
  by (simp add: subrange_def copy_at_def)

lemma subrange_copy_at_before [subrange_simps]:
  "j \<le> k \<Longrightarrow> k \<le> length xs \<Longrightarrow> subrange i j (copy_at k ys xs) = subrange i j xs"
  by (simp add: subrange_def copy_at_def drop_take)

lemma subrange_copy_at_after [subrange_simps]:
  "k + length ys \<le> i \<Longrightarrow> k + length ys \<le> length xs \<Longrightarrow>
   subrange i j (copy_at k ys xs) = subrange i j xs"
  by (simp add: subrange_def copy_at_def)

lemma subrange_grow [subrange_simps]:
  "j \<le> length xs \<Longrightarrow> subrange i j (xs @ ys) = subrange i j xs"
  by (cases "i \<le> length xs") (simp_all add: subrange_def)

lemma drop_subrange [subrange_simps]: "drop n (subrange i j xs) = subrange (i + n) j xs"
  by (simp add: subrange_def drop_take add.commute)

lemma take_subrange [subrange_simps]: "i + n \<le> j \<Longrightarrow> take n (subrange i j xs) = subrange i (i + n) xs"
  by (simp add: subrange_def min_def)

lemma subrange_whole [simp]: "subrange 0 (length xs) xs = xs"
  by (simp add: subrange_def)

lemma nth_subrange: "k < j - i \<Longrightarrow> i + k < length xs \<Longrightarrow> subrange i j xs ! k = xs ! (i + k)"
  by (simp add: subrange_def)

section \<open>Substring search\<close>

text \<open>
  \<open>std::search\<close> on the range \<open>xs\<close>: the offset of the first occurrence of \<open>pat\<close>, or the
  offset of the end of the range. \<open>memchr\<close> for one byte returns a null pointer instead.
\<close>

fun std_search :: "'a list \<Rightarrow> 'a list \<Rightarrow> nat" where
  "std_search [] pat = 0"
| "std_search (x # xs) pat =
     (if take (length pat) (x # xs) = pat then 0 else Suc (std_search xs pat))"

fun memchr :: "'a list \<Rightarrow> 'a \<Rightarrow> nat option" where
  "memchr [] c = None"
| "memchr (x # xs) c = (if x = c then Some 0 else map_option Suc (memchr xs c))"

lemma std_search_le: "std_search xs pat \<le> length xs"
  by (induction xs) auto

lemma std_search_found:
  "std_search xs pat < length xs \<Longrightarrow> take (length pat) (drop (std_search xs pat) xs) = pat"
  by (induction xs) auto

lemma std_search_first:
  "k < std_search xs pat \<Longrightarrow> take (length pat) (drop k xs) \<noteq> pat"
proof (induction xs arbitrary: k)
  case (Cons x xs)
  then show ?case by (cases k) (auto split: if_splits)
qed simp

lemma std_search_exists:
  "take (length pat) (drop k xs) = pat \<Longrightarrow> k < length xs \<Longrightarrow> std_search xs pat \<le> k"
  using std_search_first [of k xs pat] by (meson not_le)

lemma take2_drop_eq:
  "take (length [a, c]) (drop k xs) = [a, c] \<longleftrightarrow> Suc k < length xs \<and> xs ! k = a \<and> xs ! Suc k = c"
proof (cases "Suc k < length xs")
  case True
  then have "drop k xs = xs ! k # xs ! Suc k # drop (Suc (Suc k)) xs"
    by (simp add: Cons_nth_drop_Suc)
  with True show ?thesis by simp
next
  case False
  then have "length (take (length [a, c]) (drop k xs)) < 2" by simp
  with False show ?thesis by (metis length_Cons list.size(3) numeral_2_eq_2 less_irrefl)
qed

lemma memchr_Some:
  "memchr xs c = Some k \<longleftrightarrow> k < length xs \<and> xs ! k = c \<and> c \<notin> set (take k xs)"
proof (induction xs arbitrary: k)
  case (Cons x xs)
  then show ?case by (cases k) (auto simp: Cons.IH)
qed simp

lemma memchr_None: "memchr xs c = None \<longleftrightarrow> c \<notin> set xs"
  by (induction xs) auto

section \<open>Big-endian words\<close>

text \<open>
  \<open>be_bytes n w\<close> is the low \<open>n\<close> bytes of \<open>w\<close>, most significant byte first: what
  \<open>htobe16/32/64\<close> followed by \<open>memcpy\<close> puts in memory. \<open>be_word\<close> reads it back.
\<close>

primrec be_bytes :: "nat \<Rightarrow> 'a::len word \<Rightarrow> byte list" where
  "be_bytes 0 w = []"
| "be_bytes (Suc n) w = ucast (drop_bit (8 * n) w) # be_bytes n w"

primrec be_word :: "byte list \<Rightarrow> 'a::len word" where
  "be_word [] = 0"
| "be_word (b # bs) = push_bit (8 * length bs) (ucast b) OR be_word bs"

lemma length_be_bytes [simp]: "length (be_bytes n w) = n"
  by (induction n) auto

lemma be_word_be_bytes: "be_word (be_bytes n w) = take_bit (8 * n) w"
proof (induction n)
  case (Suc n)
  have "push_bit (8 * n) (ucast (ucast (drop_bit (8 * n) w) :: byte)) OR take_bit (8 * n) w
      = take_bit (8 * Suc n) w"
  proof (rule bit_word_eqI)
    fix i assume "i < LENGTH('a)"
    then show "bit (push_bit (8 * n) (ucast (ucast (drop_bit (8 * n) w) :: byte)) OR
        take_bit (8 * n) w) i = bit (take_bit (8 * Suc n) w) i"
      by (cases "8 * n \<le> i") (auto simp: bit_simps)
  qed
  with Suc show ?case by simp
qed simp

lemma be_word_full [simp]:
  "8 * n = LENGTH('a) \<Longrightarrow> be_word (be_bytes n (w :: 'a::len word)) = w"
  by (simp add: be_word_be_bytes)

lemma unat_byte_less: "unat (b :: byte) < 256"
proof -
  have "unat b < 2 ^ LENGTH(8)" by (rule unsigned_less)
  then show ?thesis by simp
qed

section \<open>Decimal numerals\<close>

text \<open>The decimal numeral \<open>printf\<close> writes for a natural number (\<open>%u\<close>, \<open>%lu\<close>, \<open>%zu\<close>).\<close>

definition digit_char :: "nat \<Rightarrow> char" where
  "digit_char d = char_of (48 + d)"

fun dec :: "nat \<Rightarrow> string" where
  "dec n = (if n < 10 then [digit_char n] else dec (n div 10) @ [digit_char (n mod 10)])"

declare dec.simps [simp del]

definition dec_int :: "int \<Rightarrow> string" where
  "dec_int i = (if i < 0 then CHR ''-'' # dec (nat (- i)) else dec (nat i))"

definition char_val :: "char \<Rightarrow> int" where
  "char_val c = int (of_char c)"

abbreviation is_digit :: "char \<Rightarrow> bool" where
  "is_digit c \<equiv> 48 \<le> (of_char c :: nat) \<and> (of_char c :: nat) \<le> 57"

lemma of_char_digit: "d < 10 \<Longrightarrow> (of_char (digit_char d) :: nat) = 48 + d"
  by (simp add: digit_char_def)

lemma digit_char_is_digit: "d < 10 \<Longrightarrow> is_digit (digit_char d)"
  by (simp add: of_char_digit)

lemma dec_digits: "c \<in> set (dec n) \<Longrightarrow> is_digit c"
proof (induction n rule: dec.induct)
  case (1 n)
  show ?case
  proof (cases "n < 10")
    case True
    with 1 show ?thesis by (simp add: dec.simps [of n] digit_char_is_digit)
  next
    case False
    with 1 show ?thesis
      by (auto simp: dec.simps [of n] of_char_digit)
  qed
qed

lemma dec_nonempty [simp]: "dec n \<noteq> []"
  by (subst dec.simps) simp

text \<open>The value a digit string denotes when read from the left, as every loop
  \<open>v = v * 10 + (c - '0')\<close> of the program computes it.\<close>

definition dec_val :: "string \<Rightarrow> nat" where
  "dec_val s = foldl (\<lambda>v c. v * 10 + (of_char c - 48)) 0 s"

lemma dec_val_dec [simp]: "dec_val (dec n) = n"
proof (induction n rule: dec.induct)
  case (1 n)
  show ?case
  proof (cases "n < 10")
    case True
    then show ?thesis by (simp add: dec.simps [of n] dec_val_def of_char_digit)
  next
    case False
    with 1 have "dec_val (dec (n div 10)) = n div 10" by simp
    with False show ?thesis by (simp add: dec.simps [of n] dec_val_def of_char_digit)
  qed
qed

lemma length_dec_le: "n < 10 ^ Suc k \<Longrightarrow> length (dec n) \<le> Suc k"
proof (induction k arbitrary: n)
  case 0
  then show ?case by (simp add: dec.simps [of n])
next
  case (Suc k)
  show ?case
  proof (cases "n < 10")
    case False
    have "n div 10 < 10 ^ Suc k" using Suc.prems by (simp add: less_mult_imp_div_less mult.commute)
    from Suc.IH [OF this] False show ?thesis by (simp add: dec.simps [of n])
  qed (simp add: dec.simps [of n])
qed

lemma unat_of_char: "unat (of_char c :: byte) = of_char c"
proof -
  have "(of_char c :: byte) = of_nat (of_char c)" by (rule of_nat_of_char [symmetric])
  then have "unat (of_char c :: byte) = of_char c mod 256" by (simp add: unat_of_nat)
  then show ?thesis by simp
qed

end
