(* ===== verification/Net_Buffer.thy ===== *)
theory Net_Buffer
  imports Achat_Prelude
begin

text \<open>
  \<open>net::Buffer\<close> (src/AChat/net/Buffer.h, Buffer.cpp, Endian.h): the byte buffer every
  connection reads into and writes from. The vector and its two indices are a record;
  pointers into the vector are offsets from \<open>begin()\<close>. The abstract content of a buffer
  is the byte string between the two indices; the locale \<open>byte_queue\<close> states the queue
  contract its clients rely on and is interpreted by the model at the end.

  Sizes are natural numbers: no vector reaches \<open>2^63\<close> bytes, so no sum of sizes in this
  file wraps in \<open>size_t\<close>.
\<close>

section \<open>State and accessors\<close>

record Buffer =
  buffer :: "byte list"
  readerIndex :: nat
  writerIndex :: nat

definition kCheapPrepend :: nat where "kCheapPrepend = 8"
definition kInitialSize :: nat where "kInitialSize = 1024"
definition kCRLF :: "byte list" where "kCRLF = [13, 10]"

definition mkBuffer :: "nat \<Rightarrow> Buffer" where
  "mkBuffer initialSize =
     \<lparr>buffer = replicate (kCheapPrepend + initialSize) 0,
      readerIndex = kCheapPrepend, writerIndex = kCheapPrepend\<rparr>"

definition swapBuffer :: "Buffer \<Rightarrow> Buffer \<Rightarrow> Buffer \<times> Buffer" where
  "swapBuffer b rhs =
     (b\<lparr>buffer := buffer rhs, readerIndex := readerIndex rhs, writerIndex := writerIndex rhs\<rparr>,
      rhs\<lparr>buffer := buffer b, readerIndex := readerIndex b, writerIndex := writerIndex b\<rparr>)"

definition readableBytes :: "Buffer \<Rightarrow> nat" where
  "readableBytes b = writerIndex b - readerIndex b"

definition writableBytes :: "Buffer \<Rightarrow> nat" where
  "writableBytes b = length (buffer b) - writerIndex b"

definition prependableBytes :: "Buffer \<Rightarrow> nat" where
  "prependableBytes b = readerIndex b"

definition peek :: "Buffer \<Rightarrow> nat" where "peek b = readerIndex b"
definition beginWrite :: "Buffer \<Rightarrow> nat" where "beginWrite b = writerIndex b"

section \<open>Searching\<close>

definition findString :: "Buffer \<Rightarrow> byte list \<Rightarrow> nat option" where
  "findString b targetStr =
     (let found = peek b + std_search (subrange (peek b) (beginWrite b) (buffer b)) targetStr
      in if found = beginWrite b then None else Some found)"

definition findCRLF :: "Buffer \<Rightarrow> nat option" where
  "findCRLF b =
     (let crlf = peek b + std_search (subrange (peek b) (beginWrite b) (buffer b)) kCRLF
      in if crlf = beginWrite b then None else Some crlf)"

definition findCRLF_from :: "Buffer \<Rightarrow> nat \<Rightarrow> nat option" where
  "findCRLF_from b start =
     (if peek b > start then None
      else if start > beginWrite b then None
      else let crlf = start + std_search (subrange start (beginWrite b) (buffer b)) kCRLF
           in if crlf = beginWrite b then None else Some crlf)"

definition findEOL :: "Buffer \<Rightarrow> nat option" where
  "findEOL b =
     map_option (\<lambda>k. peek b + k)
       (memchr (take (readableBytes b) (drop (peek b) (buffer b))) (10 :: byte))"

definition findEOL_from :: "Buffer \<Rightarrow> nat \<Rightarrow> nat option" where
  "findEOL_from b start =
     (if peek b > start then None
      else if start > beginWrite b then None
      else map_option (\<lambda>k. start + k)
             (memchr (take (beginWrite b - start) (drop start (buffer b))) (10 :: byte)))"

section \<open>Consuming\<close>

definition retrieveAll :: "Buffer \<Rightarrow> Buffer" where
  "retrieveAll b = b\<lparr>readerIndex := kCheapPrepend, writerIndex := kCheapPrepend\<rparr>"

definition retrieve :: "nat \<Rightarrow> Buffer \<Rightarrow> bool \<times> Buffer" where
  "retrieve len b =
     (if len > readableBytes b then (False, b)
      else if len < readableBytes b then (True, b\<lparr>readerIndex := readerIndex b + len\<rparr>)
      else (True, retrieveAll b))"

definition retrieveUntil :: "nat \<Rightarrow> Buffer \<Rightarrow> bool \<times> Buffer" where
  "retrieveUntil end' b =
     (if peek b > end' then (False, b)
      else if end' > beginWrite b then (False, b)
      else (True, snd (retrieve (end' - peek b) b)))"

definition retrieveInt64 :: "Buffer \<Rightarrow> Buffer" where "retrieveInt64 b = snd (retrieve 8 b)"
definition retrieveInt32 :: "Buffer \<Rightarrow> Buffer" where "retrieveInt32 b = snd (retrieve 4 b)"
definition retrieveInt16 :: "Buffer \<Rightarrow> Buffer" where "retrieveInt16 b = snd (retrieve 2 b)"
definition retrieveInt8 :: "Buffer \<Rightarrow> Buffer" where "retrieveInt8 b = snd (retrieve 1 b)"

definition retrieveAsString :: "nat \<Rightarrow> Buffer \<Rightarrow> byte list \<times> Buffer" where
  "retrieveAsString len b =
     (if len > readableBytes b then ([], b)
      else (take len (drop (peek b) (buffer b)), snd (retrieve len b)))"

definition retrieveAllAsString :: "Buffer \<Rightarrow> byte list \<times> Buffer" where
  "retrieveAllAsString b = retrieveAsString (readableBytes b) b"

text \<open>\<open>toStringPiece\<close> converts the length through \<open>int\<close>: a negative result is a huge
  \<open>size_t\<close> and the string constructor throws (\<open>None\<close>).\<close>

definition toStringPiece :: "Buffer \<Rightarrow> byte list option" where
  "toStringPiece b =
     (let n = sint (word_of_nat (readableBytes b) :: 32 word)
      in if n < 0 then None else Some (take (nat n) (drop (peek b) (buffer b))))"

section \<open>Producing\<close>

definition hasWritten :: "nat \<Rightarrow> Buffer \<Rightarrow> bool \<times> Buffer" where
  "hasWritten len b =
     (if len > writableBytes b then (False, b)
      else (True, b\<lparr>writerIndex := writerIndex b + len\<rparr>))"

definition unwrite :: "nat \<Rightarrow> Buffer \<Rightarrow> bool \<times> Buffer" where
  "unwrite len b =
     (if len > readableBytes b then (False, b)
      else (True, b\<lparr>writerIndex := writerIndex b - len\<rparr>))"

definition vector_resize :: "nat \<Rightarrow> byte list \<Rightarrow> byte list" where
  "vector_resize n xs = take n xs @ replicate (n - length xs) 0"

definition makeSpace :: "nat \<Rightarrow> Buffer \<Rightarrow> Buffer" where
  "makeSpace len b =
     (if writableBytes b + prependableBytes b < len + kCheapPrepend
      then b\<lparr>buffer := vector_resize (writerIndex b + len) (buffer b)\<rparr>
      else if kCheapPrepend \<ge> readerIndex b then b
      else let readable = readableBytes b
           in b\<lparr>buffer := copy_at kCheapPrepend
                            (subrange (readerIndex b) (writerIndex b) (buffer b)) (buffer b),
                readerIndex := kCheapPrepend,
                writerIndex := kCheapPrepend + readable\<rparr>)"

definition ensureWritableBytes :: "nat \<Rightarrow> Buffer \<Rightarrow> bool \<times> Buffer" where
  "ensureWritableBytes len b =
     (True, if writableBytes b < len then makeSpace len b else b)"

definition append_data :: "byte list \<Rightarrow> Buffer \<Rightarrow> Buffer" where
  "append_data data b =
     (let b1 = snd (ensureWritableBytes (length data) b);
          b2 = b1\<lparr>buffer := copy_at (beginWrite b1) data (buffer b1)\<rparr>
      in snd (hasWritten (length data) b2))"

definition prepend :: "byte list \<Rightarrow> Buffer \<Rightarrow> bool \<times> Buffer" where
  "prepend data b =
     (if length data > prependableBytes b then (False, b)
      else let r = readerIndex b - length data
           in (True, b\<lparr>readerIndex := r, buffer := copy_at r data (buffer b)\<rparr>))"

definition shrink :: "nat \<Rightarrow> Buffer \<Rightarrow> Buffer option" where
  "shrink reserve b =
     (let other = snd (ensureWritableBytes (readableBytes b + reserve) (mkBuffer kInitialSize))
      in case toStringPiece b of
           None \<Rightarrow> None
         | Some piece \<Rightarrow> Some (fst (swapBuffer b (append_data piece other))))"

section \<open>Integers in network order\<close>

text \<open>
  \<open>hostToNetwork\<close> followed by a copy of the object representation is the big-endian
  byte string of the value; \<open>networkToHost\<close> after a copy reads it back. A signed value
  is its two's complement word.
\<close>

definition appendInt64 :: "64 word \<Rightarrow> Buffer \<Rightarrow> Buffer" where
  "appendInt64 x b = append_data (be_bytes 8 x) b"
definition appendInt32 :: "32 word \<Rightarrow> Buffer \<Rightarrow> Buffer" where
  "appendInt32 x b = append_data (be_bytes 4 x) b"
definition appendInt16 :: "16 word \<Rightarrow> Buffer \<Rightarrow> Buffer" where
  "appendInt16 x b = append_data (be_bytes 2 x) b"
definition appendInt8 :: "8 word \<Rightarrow> Buffer \<Rightarrow> Buffer" where
  "appendInt8 x b = append_data [x] b"

definition peekInt64 :: "Buffer \<Rightarrow> 64 word" where
  "peekInt64 b = (if readableBytes b < 8 then -1
                  else be_word (take 8 (drop (peek b) (buffer b))))"
definition peekInt32 :: "Buffer \<Rightarrow> 32 word" where
  "peekInt32 b = (if readableBytes b < 4 then -1
                  else be_word (take 4 (drop (peek b) (buffer b))))"
definition peekInt16 :: "Buffer \<Rightarrow> 16 word" where
  "peekInt16 b = (if readableBytes b < 2 then -1
                  else be_word (take 2 (drop (peek b) (buffer b))))"
definition peekInt8 :: "Buffer \<Rightarrow> 8 word" where
  "peekInt8 b = (if readableBytes b < 1 then -1 else buffer b ! peek b)"

definition readInt64 :: "Buffer \<Rightarrow> 64 word \<times> Buffer" where
  "readInt64 b = (peekInt64 b, retrieveInt64 b)"
definition readInt32 :: "Buffer \<Rightarrow> 32 word \<times> Buffer" where
  "readInt32 b = (peekInt32 b, retrieveInt32 b)"
definition readInt16 :: "Buffer \<Rightarrow> 16 word \<times> Buffer" where
  "readInt16 b = (peekInt16 b, retrieveInt16 b)"
definition readInt8 :: "Buffer \<Rightarrow> 8 word \<times> Buffer" where
  "readInt8 b = (peekInt8 b, retrieveInt8 b)"

definition prependInt64 :: "64 word \<Rightarrow> Buffer \<Rightarrow> Buffer" where
  "prependInt64 x b = snd (prepend (be_bytes 8 x) b)"
definition prependInt32 :: "32 word \<Rightarrow> Buffer \<Rightarrow> Buffer" where
  "prependInt32 x b = snd (prepend (be_bytes 4 x) b)"
definition prependInt16 :: "16 word \<Rightarrow> Buffer \<Rightarrow> Buffer" where
  "prependInt16 x b = snd (prepend (be_bytes 2 x) b)"
definition prependInt8 :: "8 word \<Rightarrow> Buffer \<Rightarrow> Buffer" where
  "prependInt8 x b = snd (prepend [x] b)"

section \<open>Reading from a socket\<close>

text \<open>
  \<open>readFd\<close> calls \<open>sockets::read(fd, extrabuf, 65536)\<close>. Its outcome is an argument: the
  return value \<open>n\<close> and the bytes left in \<open>extrabuf\<close>. The statements after the call are
  translated one by one; the branch for \<open>n \<le> writable\<close> moves the index only.
\<close>

definition readFd :: "int \<Rightarrow> byte list \<Rightarrow> Buffer \<Rightarrow> int \<times> Buffer" where
  "readFd n extrabuf b =
     (let writable = writableBytes b
      in (n, if n \<le> 0 then b
             else if nat n \<le> writable then b\<lparr>writerIndex := writerIndex b + nat n\<rparr>
             else append_data (take (nat n - writable) extrabuf)
                    (b\<lparr>writerIndex := length (buffer b)\<rparr>)))"

section \<open>Invariant and abstract content\<close>

text \<open>\<open>0 <= readerIndex <= writerIndex <= size\<close>, as the picture in Buffer.h has it; the
  vector never becomes shorter than the reserved prefix.\<close>

definition buffer_ok :: "Buffer \<Rightarrow> bool" where
  "buffer_ok b \<longleftrightarrow> readerIndex b \<le> writerIndex b \<and> writerIndex b \<le> length (buffer b) \<and>
     kCheapPrepend \<le> length (buffer b)"

definition content :: "Buffer \<Rightarrow> byte list" where
  "content b = subrange (readerIndex b) (writerIndex b) (buffer b)"

lemmas size_defs = readableBytes_def writableBytes_def prependableBytes_def
  peek_def beginWrite_def

lemma length_buffer_content: "buffer_ok b \<Longrightarrow> length (content b) = readableBytes b"
  by (simp add: content_def buffer_ok_def size_defs)

lemma take_drop_content:
  "buffer_ok b \<Longrightarrow> n \<le> readableBytes b \<Longrightarrow>
   take n (drop (peek b) (buffer b)) = take n (content b)"
  by (simp add: content_def subrange_def size_defs min_def)

lemma mkBuffer_ok [wf_intros]: "buffer_ok (mkBuffer n)"
  by (simp add: buffer_ok_def mkBuffer_def)

lemma content_mkBuffer [abs_simps]: "content (mkBuffer n) = []"
  by (simp add: content_def mkBuffer_def)

subsection \<open>Consuming\<close>

lemma retrieveAll_ok [wf_intros]: "buffer_ok b \<Longrightarrow> buffer_ok (retrieveAll b)"
  by (simp add: buffer_ok_def retrieveAll_def)

lemma content_retrieveAll [abs_simps]: "content (retrieveAll b) = []"
  by (simp add: content_def retrieveAll_def)

lemma retrieve_ok [wf_intros]: "buffer_ok b \<Longrightarrow> buffer_ok (snd (retrieve len b))"
  by (auto simp: retrieve_def retrieveAll_ok) (auto simp: buffer_ok_def size_defs)

lemma retrieve_fst: "fst (retrieve len b) \<longleftrightarrow> len \<le> readableBytes b"
  by (auto simp: retrieve_def)

lemma retrieve_refused: "len > readableBytes b \<Longrightarrow> retrieve len b = (False, b)"
  by (simp add: retrieve_def)

lemma content_retrieve [abs_simps]:
  "buffer_ok b \<Longrightarrow> len \<le> readableBytes b \<Longrightarrow>
   content (snd (retrieve len b)) = drop len (content b)"
proof -
  assume ok: "buffer_ok b" and len: "len \<le> readableBytes b"
  show ?thesis
  proof (cases "len < readableBytes b")
    case True
    then show ?thesis by (simp add: retrieve_def content_def drop_subrange)
  next
    case False
    with len ok have "drop len (content b) = []" by (simp add: length_buffer_content)
    with False len show ?thesis by (simp add: retrieve_def content_retrieveAll)
  qed
qed

lemma retrieveUntil_ok [wf_intros]: "buffer_ok b \<Longrightarrow> buffer_ok (snd (retrieveUntil e b))"
  by (simp add: retrieveUntil_def retrieve_ok)

lemma content_retrieveUntil:
  "buffer_ok b \<Longrightarrow> peek b \<le> e \<Longrightarrow> e \<le> beginWrite b \<Longrightarrow>
   content (snd (retrieveUntil e b)) = drop (e - peek b) (content b)"
  by (simp add: retrieveUntil_def content_retrieve size_defs)

lemma retrieveAsString_content:
  "buffer_ok b \<Longrightarrow> len \<le> readableBytes b \<Longrightarrow>
   fst (retrieveAsString len b) = take len (content b) \<and>
   content (snd (retrieveAsString len b)) = drop len (content b)"
  by (simp add: retrieveAsString_def take_drop_content content_retrieve)

lemma retrieveAsString_ok [wf_intros]: "buffer_ok b \<Longrightarrow> buffer_ok (snd (retrieveAsString len b))"
  by (simp add: retrieveAsString_def retrieve_ok)

lemma retrieveAllAsString_content:
  "buffer_ok b \<Longrightarrow> fst (retrieveAllAsString b) = content b \<and>
   content (snd (retrieveAllAsString b)) = []"
  by (simp add: retrieveAllAsString_def retrieveAsString_content length_buffer_content)

subsection \<open>Producing\<close>

text \<open>The guard \<open>kCheapPrepend >= readerIndex_\<close> inside the moving branch never holds
  there: the comment's assertion \<open>kCheapPrepend < readerIndex_\<close> is a consequence of the
  two tests before it.\<close>

lemma makeSpace_move_guard:
  "writableBytes b < len \<Longrightarrow> \<not> writableBytes b + prependableBytes b < len + kCheapPrepend \<Longrightarrow>
   kCheapPrepend < readerIndex b"
  by (simp add: size_defs)

lemma makeSpace_grow:
  assumes "buffer_ok b" and "writableBytes b < len"
    and "writableBytes b + prependableBytes b < len + kCheapPrepend"
  shows "buffer_ok (makeSpace len b)" and "content (makeSpace len b) = content b"
    and "len \<le> writableBytes (makeSpace len b)"
  using assms
  by (auto simp: makeSpace_def buffer_ok_def content_def vector_resize_def size_defs subrange_grow)

lemma makeSpace_move:
  assumes ok: "buffer_ok b" and w: "writableBytes b < len"
    and g: "\<not> writableBytes b + prependableBytes b < len + kCheapPrepend"
  shows "buffer_ok (makeSpace len b)" and "content (makeSpace len b) = content b"
    and "len \<le> writableBytes (makeSpace len b)"
proof -
  let ?c = "subrange (readerIndex b) (writerIndex b) (buffer b)"
  have r: "kCheapPrepend < readerIndex b" using makeSpace_move_guard [OF w g] .
  have lc: "length ?c = writerIndex b - readerIndex b"
    using ok by (simp add: buffer_ok_def)
  have fits: "kCheapPrepend + length ?c \<le> length (buffer b)"
    using r ok lc by (auto simp: buffer_ok_def)
  show "buffer_ok (makeSpace len b)" "len \<le> writableBytes (makeSpace len b)"
    using r g ok lc fits by (auto simp: makeSpace_def buffer_ok_def size_defs)
  show "content (makeSpace len b) = content b"
    using r g lc subrange_copy_at_same [OF fits]
    by (simp add: makeSpace_def content_def size_defs)
qed

lemmas makeSpace_facts =
  makeSpace_grow(1) makeSpace_move(1) makeSpace_grow(2) makeSpace_move(2)
  makeSpace_grow(3) makeSpace_move(3)

lemma ensureWritableBytes_facts:
  assumes "buffer_ok b"
  shows "buffer_ok (snd (ensureWritableBytes len b))"
    and "content (snd (ensureWritableBytes len b)) = content b"
    and "len \<le> writableBytes (snd (ensureWritableBytes len b))"
  using assms makeSpace_facts [of b len] by (auto simp: ensureWritableBytes_def)

lemma write_in_place:
  assumes "buffer_ok b" and "length d \<le> writableBytes b"
  shows "buffer_ok (b\<lparr>buffer := copy_at (writerIndex b) d (buffer b),
                       writerIndex := writerIndex b + length d\<rparr>)"
    and "content (b\<lparr>buffer := copy_at (writerIndex b) d (buffer b),
                     writerIndex := writerIndex b + length d\<rparr>) = content b @ d"
proof -
  have fits: "writerIndex b + length d \<le> length (buffer b)"
    using assms by (auto simp: buffer_ok_def size_defs)
  show "buffer_ok (b\<lparr>buffer := copy_at (writerIndex b) d (buffer b),
                       writerIndex := writerIndex b + length d\<rparr>)"
    using assms fits by (simp add: buffer_ok_def)
  have "subrange (readerIndex b) (writerIndex b + length d) (copy_at (writerIndex b) d (buffer b))
      = subrange (readerIndex b) (writerIndex b) (copy_at (writerIndex b) d (buffer b))
        @ subrange (writerIndex b) (writerIndex b + length d) (copy_at (writerIndex b) d (buffer b))"
    using assms by (intro subrange_append_split) (auto simp: buffer_ok_def)
  then show "content (b\<lparr>buffer := copy_at (writerIndex b) d (buffer b),
                     writerIndex := writerIndex b + length d\<rparr>) = content b @ d"
    using assms fits by (simp add: content_def subrange_simps buffer_ok_def)
qed

lemma append_data_eq:
  fixes b :: Buffer and d :: "byte list"
  assumes "buffer_ok b"
  defines "b1 \<equiv> snd (ensureWritableBytes (length d) b)"
  shows "append_data d b = b1\<lparr>buffer := copy_at (writerIndex b1) d (buffer b1),
                               writerIndex := writerIndex b1 + length d\<rparr>"
proof -
  have "length d \<le> writableBytes b1" "buffer_ok b1"
    using assms ensureWritableBytes_facts by auto
  then show ?thesis
    by (auto simp: append_data_def b1_def [symmetric] hasWritten_def beginWrite_def
        writableBytes_def buffer_ok_def Let_def)
qed

lemma append_data_ok [wf_intros]: "buffer_ok b \<Longrightarrow> buffer_ok (append_data d b)"
  by (simp add: append_data_eq write_in_place(1) ensureWritableBytes_facts)

lemma content_append_data [abs_simps]:
  "buffer_ok b \<Longrightarrow> content (append_data d b) = content b @ d"
  by (simp add: append_data_eq write_in_place(2) ensureWritableBytes_facts)

lemma unwrite_content:
  "buffer_ok b \<Longrightarrow> len \<le> readableBytes b \<Longrightarrow>
   buffer_ok (snd (unwrite len b)) \<and>
   content (snd (unwrite len b)) = take (readableBytes b - len) (content b)"
  by (auto simp: unwrite_def buffer_ok_def content_def size_defs take_subrange)

lemma prepend_ok [wf_intros]: "buffer_ok b \<Longrightarrow> buffer_ok (snd (prepend d b))"
  by (auto simp: prepend_def buffer_ok_def prependableBytes_def Let_def)

lemma content_prepend [abs_simps]:
  assumes ok: "buffer_ok b" and len: "length d \<le> prependableBytes b"
  shows "content (snd (prepend d b)) = d @ content b"
proof -
  let ?r = "readerIndex b - length d" and ?buf = "copy_at (readerIndex b - length d) d (buffer b)"
  have r: "?r + length d = readerIndex b" using len by (simp add: prependableBytes_def)
  have fits: "?r + length d \<le> length (buffer b)" using ok r by (simp add: buffer_ok_def)
  have "subrange ?r (writerIndex b) ?buf
      = subrange ?r (?r + length d) ?buf @ subrange (?r + length d) (writerIndex b) ?buf"
    using ok r by (intro subrange_append_split) (auto simp: buffer_ok_def)
  also have "subrange ?r (?r + length d) ?buf = d" by (rule subrange_copy_at_same [OF fits])
  also have "subrange (?r + length d) (writerIndex b) ?buf = content b"
    using subrange_copy_at_after [OF _ fits] r by (simp add: content_def)
  finally show ?thesis using len by (simp add: prepend_def content_def Let_def)
qed

lemma toStringPiece_small:
  "buffer_ok b \<Longrightarrow> readableBytes b < 2 ^ 31 \<Longrightarrow> toStringPiece b = Some (content b)"
proof -
  assume ok: "buffer_ok b" and small: "readableBytes b < 2 ^ 31"
  have "sint (word_of_nat (readableBytes b) :: 32 word) = int (readableBytes b)"
    using small by (simp add: sint_uint unat_of_nat uint_nat signed_take_bit_int_eq_self)
  with ok show ?thesis
    by (simp add: toStringPiece_def take_drop_content length_buffer_content)
qed

lemma writableBytes_append_data:
  "buffer_ok b \<Longrightarrow> length d + k \<le> writableBytes b \<Longrightarrow> k \<le> writableBytes (append_data d b)"
  by (auto simp: append_data_def ensureWritableBytes_def hasWritten_def writableBytes_def
      beginWrite_def buffer_ok_def Let_def)

lemma shrink_facts:
  assumes ok: "buffer_ok b" and small: "readableBytes b < 2 ^ 31"
  shows "\<exists>b'. shrink reserve b = Some b' \<and> buffer_ok b' \<and> content b' = content b \<and>
    reserve \<le> writableBytes b'"
proof -
  let ?o = "snd (ensureWritableBytes (readableBytes b + reserve) (mkBuffer kInitialSize))"
  let ?r = "append_data (content b) ?o"
  note o = ensureWritableBytes_facts [OF mkBuffer_ok, of "readableBytes b + reserve" kInitialSize]
  have "reserve \<le> writableBytes ?r"
    using o by (intro writableBytes_append_data) (simp_all add: length_buffer_content [OF ok])
  moreover have "fst (swapBuffer b ?r) = b\<lparr>buffer := buffer ?r,
      readerIndex := readerIndex ?r, writerIndex := writerIndex ?r\<rparr>"
    by (simp add: swapBuffer_def)
  moreover have "buffer_ok ?r" "content ?r = content b"
    using o by (simp_all add: append_data_ok content_append_data content_mkBuffer)
  ultimately show ?thesis
    by (simp add: shrink_def toStringPiece_small [OF ok small] buffer_ok_def content_def
        writableBytes_def)
qed

subsection \<open>Integers\<close>

lemma peek_prefix:
  assumes "buffer_ok b" and "content b = xs @ rest"
  shows "take (length xs) (drop (peek b) (buffer b)) = xs" and "length xs \<le> readableBytes b"
proof -
  show le: "length xs \<le> readableBytes b"
    using assms length_buffer_content [of b] by simp
  show "take (length xs) (drop (peek b) (buffer b)) = xs"
    using assms take_drop_content [OF assms(1) le] by simp
qed

lemma retrieve_prefix:
  "buffer_ok b \<Longrightarrow> content b = xs @ rest \<Longrightarrow> content (snd (retrieve (length xs) b)) = rest"
  using peek_prefix(2) [of b xs rest] by (simp add: content_retrieve)

lemma peekInt8_prefix:
  "buffer_ok b \<Longrightarrow> content b = x # rest \<Longrightarrow> peekInt8 b = x"
  using peek_prefix [of b "[x]" rest]
  by (auto simp: peekInt8_def buffer_ok_def size_defs take_Suc_conv_app_nth hd_drop_conv_nth
      take_Suc)

lemmas peekInt_defs = peekInt64_def peekInt32_def peekInt16_def
lemmas readInt_defs = readInt64_def readInt32_def readInt16_def readInt8_def
  retrieveInt64_def retrieveInt32_def retrieveInt16_def retrieveInt8_def

lemma readInt64_prefix:
  "buffer_ok b \<Longrightarrow> content b = be_bytes 8 x @ rest \<Longrightarrow>
   fst (readInt64 b) = x \<and> content (snd (readInt64 b)) = rest"
  using peek_prefix [of b "be_bytes 8 x" rest] retrieve_prefix [of b "be_bytes 8 x" rest]
  by (simp add: readInt_defs peekInt_defs)

lemma readInt32_prefix:
  "buffer_ok b \<Longrightarrow> content b = be_bytes 4 x @ rest \<Longrightarrow>
   fst (readInt32 b) = x \<and> content (snd (readInt32 b)) = rest"
  using peek_prefix [of b "be_bytes 4 x" rest] retrieve_prefix [of b "be_bytes 4 x" rest]
  by (simp add: readInt_defs peekInt_defs)

lemma readInt16_prefix:
  "buffer_ok b \<Longrightarrow> content b = be_bytes 2 x @ rest \<Longrightarrow>
   fst (readInt16 b) = x \<and> content (snd (readInt16 b)) = rest"
  using peek_prefix [of b "be_bytes 2 x" rest] retrieve_prefix [of b "be_bytes 2 x" rest]
  by (simp add: readInt_defs peekInt_defs)

lemma readInt8_prefix:
  "buffer_ok b \<Longrightarrow> content b = x # rest \<Longrightarrow>
   fst (readInt8 b) = x \<and> content (snd (readInt8 b)) = rest"
  using retrieve_prefix [of b "[x]" rest] peekInt8_prefix by (simp add: readInt_defs)

lemmas readInt_prefix = readInt64_prefix readInt32_prefix readInt16_prefix readInt8_prefix

section \<open>The queue contract\<close>

text \<open>
  What a connection relies on: bytes come out in the order they went in, a request for
  more than there is changes nothing, and only the concatenation of the chunks matters,
  not how the network cut them.
\<close>

locale byte_queue =
  fixes put :: "byte list \<Rightarrow> 'q \<Rightarrow> 'q"
    and get :: "nat \<Rightarrow> 'q \<Rightarrow> bool \<times> 'q"
    and cont :: "'q \<Rightarrow> byte list"
    and invar :: "'q \<Rightarrow> bool"
  assumes invar_put: "invar q \<Longrightarrow> invar (put d q)"
    and cont_put: "invar q \<Longrightarrow> cont (put d q) = cont q @ d"
    and invar_get: "invar q \<Longrightarrow> invar (snd (get n q))"
    and get_ok: "invar q \<Longrightarrow> n \<le> length (cont q) \<Longrightarrow>
                 fst (get n q) \<and> cont (snd (get n q)) = drop n (cont q)"
    and get_short: "invar q \<Longrightarrow> n > length (cont q) \<Longrightarrow> get n q = (False, q)"
begin

lemma invar_puts: "invar q \<Longrightarrow> invar (fold put ds q)"
  by (induction ds arbitrary: q) (simp_all add: invar_put)

lemma cont_puts: "invar q \<Longrightarrow> cont (fold put ds q) = cont q @ concat ds"
  by (induction ds arbitrary: q) (simp_all add: invar_put cont_put)

lemma chunking_irrelevant:
  "invar q \<Longrightarrow> concat ds = concat es \<Longrightarrow> cont (fold put ds q) = cont (fold put es q)"
  by (simp add: cont_puts)

lemma get_after_puts:
  "invar q \<Longrightarrow> cont q = [] \<Longrightarrow> n \<le> length (concat ds) \<Longrightarrow>
   cont (snd (get n (fold put ds q))) = drop n (concat ds)"
  using get_ok [of "fold put ds q" n] by (simp add: invar_puts cont_puts)

lemma get_split:
  "invar q \<Longrightarrow> m + n \<le> length (cont q) \<Longrightarrow>
   cont (snd (get n (snd (get m q)))) = cont (snd (get (m + n) q))"
  using get_ok [of q m] get_ok [of q "m + n"] get_ok [of "snd (get m q)" n]
  by (simp add: invar_get add.commute)

end

interpretation netbuf: byte_queue append_data retrieve content buffer_ok
  by unfold_locales
    (simp_all add: append_data_ok content_append_data retrieve_ok content_retrieve retrieve_fst
      retrieve_refused length_buffer_content)

section \<open>Properties\<close>

text \<open>A run of the operations a connection performs on its buffers, on the model and on
  plain byte strings.\<close>

datatype buffer_op = OpAppend "byte list" | OpRetrieve nat | OpUnwrite nat | OpRetrieveAll
  | OpEnsure nat

fun buffer_step :: "buffer_op \<Rightarrow> Buffer \<Rightarrow> Buffer" where
  "buffer_step (OpAppend d) b = append_data d b"
| "buffer_step (OpRetrieve n) b = snd (retrieve n b)"
| "buffer_step (OpUnwrite n) b = snd (unwrite n b)"
| "buffer_step OpRetrieveAll b = retrieveAll b"
| "buffer_step (OpEnsure n) b = snd (ensureWritableBytes n b)"

fun string_step :: "buffer_op \<Rightarrow> byte list \<Rightarrow> byte list" where
  "string_step (OpAppend d) c = c @ d"
| "string_step (OpRetrieve n) c = (if n \<le> length c then drop n c else c)"
| "string_step (OpUnwrite n) c = (if n \<le> length c then take (length c - n) c else c)"
| "string_step OpRetrieveAll c = []"
| "string_step (OpEnsure n) c = c"

lemma buffer_step_refines:
  "buffer_ok b \<Longrightarrow> buffer_ok (buffer_step op b) \<and>
   content (buffer_step op b) = string_step op (content b)"
proof (cases op)
  case (OpRetrieve n)
  assume ok: "buffer_ok b"
  then show ?thesis
    using OpRetrieve retrieve_ok [OF ok] content_retrieve [OF ok]
    by (auto simp: retrieve_refused length_buffer_content)
next
  case (OpUnwrite n)
  assume ok: "buffer_ok b"
  then show ?thesis
    using OpUnwrite unwrite_content [OF ok] by (auto simp: unwrite_def length_buffer_content)
qed (simp_all add: append_data_ok content_append_data retrieveAll_ok content_retrieveAll
      ensureWritableBytes_facts)

text \<open>C38: every run of appends, retrieves, unwrites and space reservations on a buffer keeps
  the index invariant and has exactly the effect of the same run on plain byte strings:
  moving the readable bytes to the front or growing the vector is never visible.\<close>

theorem buffer_run_refines:
  assumes "buffer_ok b"
  shows "buffer_ok (fold buffer_step ops b) \<and>
    content (fold buffer_step ops b) = fold string_step ops (content b)"
  using assms
proof (induction ops arbitrary: b)
  case (Cons op ops)
  then show ?case using buffer_step_refines [of b op] by simp
qed simp

theorem buffer_run_refines_witness:
  "buffer_ok (mkBuffer 2) \<and>
   content (fold buffer_step [OpAppend [1, 2, 3], OpRetrieve 2, OpAppend [4, 5]] (mkBuffer 2))
     = [3, 4, 5]"
proof -
  have h: "buffer_ok (mkBuffer 2)" by (rule mkBuffer_ok)
  show ?thesis
    using h buffer_run_refines [OF h, of "[OpAppend [1, 2, 3], OpRetrieve 2, OpAppend [4, 5]]"]
    by (simp add: content_mkBuffer)
qed

text \<open>Integers appended in network order are read back unchanged at every width, in
  order, whatever bytes follow them and however the buffer was reallocated in between.\<close>

theorem buffer_int_roundtrip:
  assumes "buffer_ok b" and "content b = []"
  shows "let b1 = append_data rest (appendInt8 w (appendInt16 z (appendInt32 y (appendInt64 x b))));
             (x', b2) = readInt64 b1; (y', b3) = readInt32 b2;
             (z', b4) = readInt16 b3; (w', b5) = readInt8 b4
         in x' = x \<and> y' = y \<and> z' = z \<and> w' = w \<and> content b5 = rest"
proof -
  let ?b1 = "append_data rest (appendInt8 w (appendInt16 z (appendInt32 y (appendInt64 x b))))"
  have "buffer_ok ?b1"
    using assms by (simp add: appendInt8_def appendInt16_def appendInt32_def appendInt64_def
        append_data_ok)
  moreover have "content ?b1 = be_bytes 8 x @ be_bytes 4 y @ be_bytes 2 z @ w # rest"
    using assms by (simp add: appendInt8_def appendInt16_def appendInt32_def appendInt64_def
        append_data_ok content_append_data)
  moreover have "buffer_ok q \<Longrightarrow> buffer_ok (snd (readInt64 q)) \<and> buffer_ok (snd (readInt32 q)) \<and>
      buffer_ok (snd (readInt16 q))" for q
    by (simp add: readInt_defs retrieve_ok)
  ultimately show ?thesis
    by (simp add: case_prod_beta Let_def readInt_prefix)
qed

theorem buffer_int_roundtrip_witness:
  "let b1 = append_data [9] (appendInt8 1 (appendInt16 2 (appendInt32 3 (appendInt64 4 (mkBuffer 0)))));
       (x', b2) = readInt64 b1; (y', b3) = readInt32 b2;
       (z', b4) = readInt16 b3; (w', b5) = readInt8 b4
   in x' = 4 \<and> y' = 3 \<and> z' = 2 \<and> w' = 1 \<and> content b5 = [9]"
  by (rule buffer_int_roundtrip [OF mkBuffer_ok content_mkBuffer])

text \<open>A length header prepended into the reserved prefix of a buffer (four bytes at
  most eight are reserved) is the first thing read back, and the payload behind it is
  untouched.\<close>

theorem buffer_prepend_header:
  assumes "buffer_ok b" and "4 \<le> prependableBytes b"
  shows "content (prependInt32 x b) = be_bytes 4 x @ content b \<and>
    fst (readInt32 (prependInt32 x b)) = x \<and>
    content (snd (readInt32 (prependInt32 x b))) = content b"
proof -
  have c: "content (prependInt32 x b) = be_bytes 4 x @ content b"
    using assms by (simp add: prependInt32_def content_prepend)
  moreover have "buffer_ok (prependInt32 x b)"
    using assms by (simp add: prependInt32_def prepend_ok)
  ultimately show ?thesis using readInt32_prefix by blast
qed

theorem buffer_prepend_header_witness:
  "content (prependInt32 7 (append_data [1, 2] (mkBuffer 0))) = [0, 0, 0, 7, 1, 2]"
proof -
  have h1: "buffer_ok (append_data [1, 2] (mkBuffer 0))"
    by (simp add: append_data_ok mkBuffer_ok)
  have h2: "4 \<le> prependableBytes (append_data [1, 2] (mkBuffer 0))"
    by code_simp
  have c: "content (append_data [1, 2] (mkBuffer 0)) = [1, 2]"
    by (simp add: content_append_data mkBuffer_ok content_mkBuffer)
  have e: "be_bytes 4 (7 :: 32 word) = [0, 0, 0, 7]" by code_simp
  show ?thesis using buffer_prepend_header [OF h1 h2, of 7] c e by simp
qed

text \<open>\<open>findCRLF\<close> returns the first line end of the readable bytes: the two bytes at the
  returned position are carriage return and line feed, no earlier position has them, and
  it returns nothing only when no position has them.\<close>

theorem findCRLF_first:
  assumes "buffer_ok b"
  shows "(case findCRLF b of
      Some p \<Rightarrow> readerIndex b \<le> p \<and> p + 1 < writerIndex b \<and>
        buffer b ! p = 13 \<and> buffer b ! (p + 1) = 10 \<and>
        (\<forall>q. readerIndex b \<le> q \<and> q < p \<longrightarrow> \<not> (buffer b ! q = 13 \<and> buffer b ! (q + 1) = 10))
    | None \<Rightarrow> \<forall>q. readerIndex b \<le> q \<and> q + 1 < writerIndex b \<longrightarrow>
        \<not> (buffer b ! q = 13 \<and> buffer b ! (q + 1) = 10))"
proof -
  let ?k = "std_search (content b) kCRLF"
  have crlf: "take (length kCRLF) (drop k (content b)) = kCRLF \<longleftrightarrow>
      readerIndex b + k + 1 < writerIndex b \<and> buffer b ! (readerIndex b + k) = 13 \<and>
      buffer b ! (readerIndex b + k + 1) = 10" for k
    using assms take2_drop_eq [of 13 10 k "content b"]
    by (auto simp: kCRLF_def content_def nth_subrange buffer_ok_def less_diff_conv)
  have len: "length (content b) = writerIndex b - readerIndex b"
    using assms by (simp add: length_buffer_content size_defs)
  have eq: "findCRLF b = (if ?k = length (content b) then None else Some (readerIndex b + ?k))"
    using assms len by (auto simp: findCRLF_def Let_def size_defs content_def buffer_ok_def)
  show ?thesis
  proof (cases "?k = length (content b)")
    case True
    have "\<not> (buffer b ! q = 13 \<and> buffer b ! (q + 1) = 10)"
      if "readerIndex b \<le> q" "q + 1 < writerIndex b" for q
      using std_search_first [of "q - readerIndex b" "content b" kCRLF] crlf [of "q - readerIndex b"]
        True len that by auto
    with True eq show ?thesis by simp
  next
    case False
    then have "?k < length (content b)"
      using std_search_le [of "content b" kCRLF] by simp
    then have "readerIndex b + ?k + 1 < writerIndex b \<and> buffer b ! (readerIndex b + ?k) = 13 \<and>
      buffer b ! (readerIndex b + ?k + 1) = 10"
      using std_search_found crlf by blast
    moreover have "\<not> (buffer b ! q = 13 \<and> buffer b ! (q + 1) = 10)"
      if "readerIndex b \<le> q" "q < readerIndex b + ?k" for q
      using std_search_first [of "q - readerIndex b" "content b" kCRLF] crlf [of "q - readerIndex b"]
        that calculation by auto
    ultimately show ?thesis using False eq by simp
  qed
qed

theorem findCRLF_first_witness:
  "let b = append_data [65, 13, 13, 10, 66] (mkBuffer 0)
   in findCRLF b = Some 10 \<and> 11 < writerIndex b \<and> buffer b ! 10 = 13 \<and> buffer b ! 11 = 10"
proof -
  let ?b = "append_data [65, 13, 13, 10, 66] (mkBuffer 0)"
  have h: "buffer_ok ?b" by (simp add: append_data_ok mkBuffer_ok)
  have e: "findCRLF ?b = Some 10" by code_simp
  show ?thesis using findCRLF_first [OF h] e by (simp add: Let_def)
qed

text \<open>When the socket delivers no more bytes than there is free space, \<open>readFd\<close> advances
  the write index without copying them from its local array: the readable bytes grow by
  whatever the vector held there before, and the received data has no influence on the
  buffer at all.\<close>

theorem readFd_ignores_received_bytes:
  assumes "buffer_ok b" and "0 < n" and "nat n \<le> writableBytes b"
  shows "readFd n received b = readFd n other b \<and>
    content (snd (readFd n received b))
      = content b @ take (nat n) (drop (writerIndex b) (buffer b))"
proof -
  have "content (b\<lparr>writerIndex := writerIndex b + nat n\<rparr>)
      = content b @ subrange (writerIndex b) (writerIndex b + nat n) (buffer b)"
    using assms subrange_append_split [of "readerIndex b" "writerIndex b" "writerIndex b + nat n"]
    by (simp add: content_def buffer_ok_def)
  with assms show ?thesis by (simp add: readFd_def Let_def subrange_def)
qed

theorem readFd_ignores_received_bytes_witness:
  "content (snd (readFd 3 [72, 105, 33] (mkBuffer 16))) = [0, 0, 0]"
proof -
  have h: "nat 3 \<le> writableBytes (mkBuffer 16)" by code_simp
  have "take (nat 3) (drop (writerIndex (mkBuffer 16)) (buffer (mkBuffer 16))) = [0, 0, 0]"
    by code_simp
  then show ?thesis
    using readFd_ignores_received_bytes
        [OF mkBuffer_ok _ h, of "[72, 105, 33]" "[]", THEN conjunct2]
    by (simp add: content_mkBuffer)
qed

end
