(* ===== verification/Protocol_Stream.thy ===== *)
theory Protocol_Stream
  imports Achat_Prelude
begin

text \<open>
  The binary protocol between the servers (src/AChat/net/ProtocolStream.h and
  ProtocolStream.cpp): the 16-bit checksum, the 7-bit variable-length integers, and the
  classes \<open>BinaryStreamReader\<close> and \<open>BinaryStreamWriter\<close>.

  A C++ expression with undefined behaviour (a read outside the accessible memory, a
  shift by the width of the type or more) is the value \<open>None\<close>; a function that can do
  neither returns its result directly. The accessible memory of a reader is the byte list
  \<open>rmem\<close>, of which the first \<open>rlen\<close> bytes are the packet.
\<close>

section \<open>Constants\<close>

definition BINARY_PACKLEN_LEN_2 :: nat where "BINARY_PACKLEN_LEN_2 = 4"
definition CHECKSUM_LEN :: nat where "CHECKSUM_LEN = 2"

section \<open>Checksum\<close>

text \<open>The argument is the memory the \<open>size\<close> bytes occupy; an \<open>unsigned short\<close> is read in
  the byte order of the (little-endian) host.\<close>

fun cksum_words :: "32 word \<Rightarrow> byte list \<Rightarrow> 32 word" where
  "cksum_words cksum (a # b # buf) = cksum_words (cksum + (ucast a + push_bit 8 (ucast b))) buf"
| "cksum_words cksum [a] = cksum + ucast a"
| "cksum_words cksum [] = cksum"

lemma unat_high_low:
  "unat (drop_bit 16 (s :: 32 word)) = unat s div 65536"
  "unat (s AND 0xffff) = unat s mod 65536"
proof -
  show "unat (drop_bit 16 s) = unat s div 65536"
    using unat_drop_bit_eq [of 16 s] by (simp add: drop_bit_eq_div)
  have "s AND 0xffff = take_bit 16 s"
    by (simp add: take_bit_eq_mask mask_eq_exp_minus_1)
  then have "unat (s AND 0xffff) = take_bit 16 (unat s)"
    by (simp only: unsigned_take_bit_eq)
  then show "unat (s AND 0xffff) = unat s mod 65536"
    by (simp only: take_bit_eq_mod) simp
qed

lemma unat_fold_step:
  "unat (drop_bit 16 s + (s AND 0xffff) :: 32 word) = unat s div 65536 + unat s mod 65536"
proof -
  have "unat s < 4294967296" using unsigned_less [of s] by simp
  moreover have "unat s = unat s div 65536 * 65536 + unat s mod 65536" by simp
  ultimately have "unat s div 65536 + unat s mod 65536 < 4294967296" by linarith
  then show ?thesis
    by (simp only: unat_word_ariths unat_high_low) simp
qed

function cksum_fold :: "32 word \<Rightarrow> 32 word" where
  "cksum_fold cksum =
     (if drop_bit 16 cksum \<noteq> 0 then cksum_fold (drop_bit 16 cksum + (cksum AND 0xffff)) else cksum)"
  by pat_completeness auto
termination
proof (relation "measure unat")
  fix s :: "32 word"
  assume "drop_bit 16 s \<noteq> 0"
  then have "unat s div 65536 \<noteq> 0" by (metis unat_high_low(1) unat_eq_zero)
  moreover have "unat s = unat s div 65536 * 65536 + unat s mod 65536" by simp
  ultimately have "unat s div 65536 + unat s mod 65536 < unat s" by linarith
  then show "(drop_bit 16 s + (s AND 0xffff), s) \<in> measure unat"
    using unat_fold_step [of s] by simp
qed simp

declare cksum_fold.simps [simp del]

definition checksum :: "byte list \<Rightarrow> 16 word" where
  "checksum buf = ucast (NOT (cksum_fold (cksum_words 0 buf)))"

section \<open>Variable-length integers\<close>

lemma and_127: "v AND 127 = take_bit 7 (v :: 'a::len word)"
proof -
  have "(127 :: 'a word) = mask 7" by (simp add: mask_eq_exp_minus_1)
  then show ?thesis by (simp only: take_bit_eq_mask)
qed

lemma bit_128: "bit (128 :: int) n \<longleftrightarrow> n = 7"
  using bit_exp_iff [of 7 n, where 'a = int] by auto

lemma unat_drop7: "unat (drop_bit 7 v) = unat v div 128"
proof -
  have "unat (drop_bit 7 v) = drop_bit 7 (unat v)" by (rule unat_drop_bit_eq)
  also have "\<dots> = unat v div 128" by (simp add: drop_bit_eq_div)
  finally show ?thesis .
qed

lemma drop7_ge: "drop_bit 7 v \<noteq> 0 \<Longrightarrow> 128 \<le> unat v"
  using unat_drop7 [of v] by (metis div_less linorder_not_less unat_eq_zero)

text \<open>The two overloads of \<open>write7BitEncoded\<close> (and of \<open>read7BitEncoded\<close>) differ only in the
  width of the value: the width is a type parameter here.\<close>

function write7 :: "'a::len word \<Rightarrow> byte list" where
  "write7 v =
     (let c = ucast (v AND 0x7F); v' = drop_bit 7 v
      in if v' \<noteq> 0 then (c OR 0x80) # write7 v' else [c])"
  by pat_completeness auto
termination
proof (relation "measure unat")
  fix v :: "'a word" and c v'
  assume "v' = drop_bit 7 v" and "v' \<noteq> 0"
  then show "(v', v) \<in> measure unat" using drop7_ge [of v] by (simp add: unat_drop7)
qed simp

declare write7.simps [simp del]

fun read7_from :: "nat \<Rightarrow> 'a::len word \<Rightarrow> byte list \<Rightarrow> 'a word option" where
  "read7_from bitCount v [] = None"
| "read7_from bitCount v (c # buf) =
     (if bitCount \<ge> LENGTH('a) then None
      else let x = push_bit bitCount (ucast (c AND 0x7F)); v' = v + x
           in if c AND 0x80 \<noteq> 0 then read7_from (bitCount + 7) v' buf else Some v')"

definition write7BitEncoded32 :: "32 word \<Rightarrow> byte list \<Rightarrow> byte list" where
  "write7BitEncoded32 v buf = buf @ write7 v"

definition write7BitEncoded64 :: "64 word \<Rightarrow> byte list \<Rightarrow> byte list" where
  "write7BitEncoded64 v buf = buf @ write7 v"

definition read7BitEncoded32 :: "byte list \<Rightarrow> 32 word option" where
  "read7BitEncoded32 buf = read7_from 0 0 buf"

definition read7BitEncoded64 :: "byte list \<Rightarrow> 64 word option" where
  "read7BitEncoded64 buf = read7_from 0 0 buf"

section \<open>The C library on byte strings\<close>

definition ascii :: "string \<Rightarrow> byte list" where
  "ascii s = map of_char s"

abbreviation digit_byte :: "byte \<Rightarrow> bool" where
  "digit_byte c \<equiv> 48 \<le> c \<and> c \<le> 57"

definition isspace_byte :: "byte \<Rightarrow> bool" where
  "isspace_byte c \<longleftrightarrow> c = 32 \<or> (9 \<le> c \<and> c \<le> 13)"

fun digits_value :: "int \<Rightarrow> byte list \<Rightarrow> int" where
  "digits_value v [] = v"
| "digits_value v (c # cs) =
     (if digit_byte c then digits_value (v * 10 + (int (unat c) - 48)) cs else v)"

text \<open>\<open>atoll\<close>: leading white space, a sign, digits up to the first other byte; a value
  outside the range of \<open>long long\<close> is clamped to it, as \<open>strtoll\<close> does.\<close>

definition clamp64 :: "int \<Rightarrow> int" where
  "clamp64 v = max (- (2 ^ 63)) (min (2 ^ 63 - 1) v)"

definition atoll :: "byte list \<Rightarrow> int" where
  "atoll s =
     (case dropWhile isspace_byte s of
        [] \<Rightarrow> 0
      | c # cs \<Rightarrow> if c = 45 then clamp64 (- digits_value 0 cs)
                 else if c = 43 then clamp64 (digits_value 0 cs)
                 else clamp64 (digits_value 0 (c # cs)))"

section \<open>BinaryStreamReader\<close>

record BinaryStreamReader =
  rmem :: "byte list"
  rlen :: nat
  cur :: nat

definition mkReader :: "byte list \<Rightarrow> nat \<Rightarrow> BinaryStreamReader" where
  "mkReader mem len = \<lparr>rmem = mem, rlen = len, cur = BINARY_PACKLEN_LEN_2 + CHECKSUM_LEN\<rparr>"

definition IsEmpty :: "BinaryStreamReader \<Rightarrow> bool" where
  "IsEmpty r \<longleftrightarrow> rlen r \<le> BINARY_PACKLEN_LEN_2"

definition GetSize :: "BinaryStreamReader \<Rightarrow> nat" where
  "GetSize r = rlen r"

text \<open>The bytes of the length prefix: at most five, up to and including the first one
  without the continuation bit. They are read before any bound is checked.\<close>

fun read_head :: "nat \<Rightarrow> byte list \<Rightarrow> byte list option" where
  "read_head 0 mem = Some []"
| "read_head (Suc n) [] = None"
| "read_head (Suc n) (c # mem) =
     (if c AND 0x80 = 0 then Some [c] else map_option (Cons c) (read_head n mem))"

datatype length_result = LengthFalse | LengthTrue (headlen: nat) (outlen: nat)

definition ReadLengthWithoutOffset :: "BinaryStreamReader \<Rightarrow> length_result option" where
  "ReadLengthWithoutOffset r =
     (case read_head 5 (drop (cur r) (rmem r)) of
        None \<Rightarrow> None
      | Some buf \<Rightarrow>
          if cur r + length buf > rlen r then Some LengthFalse
          else case read7BitEncoded32 buf of
                 None \<Rightarrow> None
               | Some v \<Rightarrow> Some (LengthTrue (length buf) (unat v)))"

definition ReadLength :: "BinaryStreamReader \<Rightarrow> (nat option \<times> BinaryStreamReader) option" where
  "ReadLength r =
     (case ReadLengthWithoutOffset r of
        None \<Rightarrow> None
      | Some LengthFalse \<Rightarrow> Some (None, r)
      | Some (LengthTrue h n) \<Rightarrow> Some (Some n, r\<lparr>cur := cur r + h\<rparr>))"

text \<open>The common tail of \<open>ReadCString\<close>, \<open>ReadString\<close> and \<open>ReadCCString\<close>: skip the prefix,
  check the end, take the field. The position has already moved when the check fails.\<close>

definition read_field :: "nat \<Rightarrow> nat \<Rightarrow> BinaryStreamReader \<Rightarrow> (byte list option \<times> BinaryStreamReader)" where
  "read_field h fieldlen r =
     (let r1 = r\<lparr>cur := cur r + h\<rparr>
      in if cur r1 + fieldlen > rlen r1 then (None, r1)
         else (Some (take fieldlen (drop (cur r1) (rmem r1))), r1\<lparr>cur := cur r1 + fieldlen\<rparr>))"

definition ReadCString :: "nat \<Rightarrow> BinaryStreamReader \<Rightarrow> (byte list option \<times> BinaryStreamReader) option" where
  "ReadCString strlen r =
     (case ReadLengthWithoutOffset r of
        None \<Rightarrow> None
      | Some LengthFalse \<Rightarrow> Some (None, r)
      | Some (LengthTrue h fieldlen) \<Rightarrow>
          if fieldlen > strlen then Some (None, r) else Some (read_field h fieldlen r))"

definition ReadString :: "nat \<Rightarrow> BinaryStreamReader \<Rightarrow> (byte list option \<times> BinaryStreamReader) option" where
  "ReadString maxlen r =
     (case ReadLengthWithoutOffset r of
        None \<Rightarrow> None
      | Some LengthFalse \<Rightarrow> Some (None, r)
      | Some (LengthTrue h fieldlen) \<Rightarrow>
          if maxlen \<noteq> 0 \<and> fieldlen > maxlen then Some (None, r)
          else Some (read_field h fieldlen r))"

text \<open>\<open>ReadCCString\<close> hands out a pointer into the packet: its offset and the length.\<close>

definition ReadCCString :: "nat \<Rightarrow> BinaryStreamReader \<Rightarrow> ((nat \<times> nat) option \<times> BinaryStreamReader) option" where
  "ReadCCString maxlen r =
     (case ReadLengthWithoutOffset r of
        None \<Rightarrow> None
      | Some LengthFalse \<Rightarrow> Some (None, r)
      | Some (LengthTrue h fieldlen) \<Rightarrow>
          if maxlen \<noteq> 0 \<and> fieldlen > maxlen then Some (None, r)
          else let r1 = r\<lparr>cur := cur r + h\<rparr>
               in if cur r1 + fieldlen > rlen r1 then Some (None, r1)
                  else Some (Some (cur r1, fieldlen), r1\<lparr>cur := cur r1 + fieldlen\<rparr>))"

definition ReadInt32 :: "BinaryStreamReader \<Rightarrow> 32 word option \<times> BinaryStreamReader" where
  "ReadInt32 r =
     (if cur r + 4 > rlen r then (None, r)
      else (Some (be_word (take 4 (drop (cur r) (rmem r)))), r\<lparr>cur := cur r + 4\<rparr>))"

text \<open>\<open>ReadInt64\<close> copies the field into a local array of 128 bytes and calls \<open>atoll\<close> on it.
  The array is neither initialised nor terminated after the field: what it held before is
  the argument \<open>stack\<close>.\<close>

definition ReadInt64 :: "byte list \<Rightarrow> BinaryStreamReader \<Rightarrow> (int option \<times> BinaryStreamReader) option" where
  "ReadInt64 stack r =
     (case ReadCString 128 r of
        None \<Rightarrow> None
      | Some (None, r') \<Rightarrow> Some (None, r')
      | Some (Some field, r') \<Rightarrow> Some (Some (atoll (copy_at 0 field stack)), r'))"

definition ReadShort :: "BinaryStreamReader \<Rightarrow> 16 word option \<times> BinaryStreamReader" where
  "ReadShort r =
     (if cur r + 2 > rlen r then (None, r)
      else (Some (be_word (take 2 (drop (cur r) (rmem r)))), r\<lparr>cur := cur r + 2\<rparr>))"

definition ReadChar :: "BinaryStreamReader \<Rightarrow> byte option \<times> BinaryStreamReader" where
  "ReadChar r =
     (if cur r + 1 > rlen r then (None, r)
      else (Some (rmem r ! cur r), r\<lparr>cur := cur r + 1\<rparr>))"

text \<open>\<open>IsEnd\<close> aborts (\<open>None\<close>) when the position is behind the end of the packet.\<close>

definition IsEnd :: "BinaryStreamReader \<Rightarrow> bool option" where
  "IsEnd r = (if cur r \<le> rlen r then Some (cur r = rlen r) else None)"

definition GetData :: "BinaryStreamReader \<Rightarrow> byte list" where
  "GetData r = rmem r"

definition ReadAll :: "nat \<Rightarrow> BinaryStreamReader \<Rightarrow> byte list" where
  "ReadAll iLen r = take (min iLen (rlen r)) (rmem r)"

section \<open>BinaryStreamWriter\<close>

text \<open>The writer is the string \<open>m_data\<close>. The constructor and \<open>Clear\<close> append an uninitialised
  local array of six bytes, the argument \<open>stack\<close>.\<close>

definition mkWriter :: "byte list \<Rightarrow> byte list" where
  "mkWriter stack = take (BINARY_PACKLEN_LEN_2 + CHECKSUM_LEN) stack"

definition WriteCString :: "byte list \<Rightarrow> byte list \<Rightarrow> byte list" where
  "WriteCString str m_data = m_data @ write7BitEncoded64 (word_of_nat (length str)) [] @ str"

definition WriteString :: "byte list \<Rightarrow> byte list \<Rightarrow> byte list" where
  "WriteString str m_data = WriteCString str m_data"

text \<open>A null \<open>int32\<close> is the constant 999999999 in the host's (little-endian) byte order.\<close>

definition WriteInt32 :: "32 word \<Rightarrow> bool \<Rightarrow> byte list \<Rightarrow> byte list" where
  "WriteInt32 i isNULL m_data =
     m_data @ (if isNULL then rev (be_bytes 4 (999999999 :: 32 word)) else be_bytes 4 i)"

definition WriteInt64 :: "64 word \<Rightarrow> bool \<Rightarrow> byte list \<Rightarrow> byte list" where
  "WriteInt64 v isNULL m_data =
     (if isNULL then WriteCString [] m_data else WriteCString (ascii (dec_int (sint v))) m_data)"

definition WriteShort :: "16 word \<Rightarrow> bool \<Rightarrow> byte list \<Rightarrow> byte list" where
  "WriteShort i isNULL m_data = m_data @ (if isNULL then [0, 0] else be_bytes 2 i)"

definition WriteChar :: "byte \<Rightarrow> bool \<Rightarrow> byte list \<Rightarrow> byte list" where
  "WriteChar c isNULL m_data = m_data @ [if isNULL then 0 else c]"

text \<open>\<open>WriteDouble\<close> prints with \<open>%f\<close>; the text is its argument.\<close>

definition WriteDouble :: "byte list \<Rightarrow> bool \<Rightarrow> byte list \<Rightarrow> byte list" where
  "WriteDouble doublestr isNULL m_data =
     (if isNULL then WriteCString [] m_data else WriteCString doublestr m_data)"

definition Flush :: "byte list \<Rightarrow> byte list" where
  "Flush m_data = copy_at 0 (be_bytes 4 (word_of_nat (length m_data) :: 32 word)) m_data"

definition Clear :: "byte list \<Rightarrow> byte list" where
  "Clear stack = mkWriter stack"

section \<open>Lemmas on the variable-length integers\<close>

lemma low7_byte: "ucast (ucast (take_bit 7 v :: 'a::len word) :: byte) = take_bit 7 v"
  by (rule bit_word_eqI) (auto simp: bit_simps)

lemma low7_byte': "ucast (take_bit 7 (ucast (take_bit 7 v :: 'a::len word) :: byte)) = take_bit 7 v"
  by (rule bit_word_eqI) (auto simp: bit_simps)

lemma low7_cont:
  "take_bit 7 (ucast (take_bit 7 v :: 'a::len word) OR 0x80 :: byte) = ucast (take_bit 7 v)"
  by (rule bit_word_eqI) (auto simp: bit_simps bit_128)

lemma and_128: "(x :: byte) AND 0x80 = (if bit x 7 then 0x80 else 0)"
  by (rule bit_word_eqI) (auto simp: bit_simps bit_128)

lemma low7_last: "(ucast (take_bit 7 v :: 'a::len word) :: byte) AND 0x80 = 0"
  unfolding and_128 by (simp add: bit_simps)

lemma high_bit_cont: "(x OR 0x80 :: byte) AND 0x80 \<noteq> 0"
  by (simp add: bit_eq_iff bit_simps bit_128) (rule exI [of _ 7], simp)

lemma split7:
  "push_bit k (v :: 'a::len word) = push_bit k (take_bit 7 v) + push_bit (k + 7) (drop_bit 7 v)"
proof -
  have "push_bit k v = push_bit k (take_bit 7 v + push_bit 7 (drop_bit 7 v))"
    by (metis add.commute bits_ident)
  then show ?thesis by (simp add: push_bit_eq_mult algebra_simps power_add)
qed

lemma write7_small:
  assumes "drop_bit 7 (v :: 'a::len word) = 0"
  shows "write7 v = [ucast v]" and "(ucast v :: byte) AND 0x80 = 0"
    and "ucast (take_bit 7 (ucast v :: byte)) = v"
proof -
  have v: "take_bit 7 v = v" using assms by (metis bits_ident add_0 push_bit_of_0)
  show "write7 v = [ucast v]"
    using assms v by (subst write7.simps) (simp add: and_127)
  show "(ucast v :: byte) AND 0x80 = 0" "ucast (take_bit 7 (ucast v :: byte)) = v"
    using low7_last [of v] low7_byte' [of v] v by simp_all
qed

lemma write7_large:
  "drop_bit 7 v \<noteq> 0 \<Longrightarrow> write7 v = (ucast (take_bit 7 v) OR 0x80) # write7 (drop_bit 7 v)"
  by (subst write7.simps) (simp add: Let_def and_127)

lemma read7_from_write7:
  "unat v * 2 ^ k < 2 ^ LENGTH('a) \<Longrightarrow> k < LENGTH('a) \<Longrightarrow>
   read7_from k acc (write7 v @ rest) = Some (acc + push_bit k (v :: 'a::len word))"
proof (induction v arbitrary: k acc rule: write7.induct)
  case (1 v)
  show ?case
  proof (cases "drop_bit 7 v = 0")
    case True
    with 1(3) show ?thesis by (simp add: write7_small Let_def and_127)
  next
    case False
    have "2 ^ (k + 7) \<le> unat v * 2 ^ k" using drop7_ge [OF False] by (simp add: power_add)
    with 1(2) have "(2::nat) ^ (k + 7) < 2 ^ LENGTH('a)" by linarith
    then have k7: "k + 7 < LENGTH('a)" by simp
    have "unat (drop_bit 7 v) * 2 ^ (k + 7) \<le> unat v * 2 ^ k"
      by (simp add: unat_drop7 power_add)
    with 1(2) have lt: "unat (drop_bit 7 v) * 2 ^ (k + 7) < 2 ^ LENGTH('a)" by linarith
    from False k7 1(1) [OF refl refl False lt k7] 1(3) show ?thesis
      by (simp add: write7_large [OF False] Let_def and_127 low7_byte low7_byte' low7_cont
          high_bit_cont split7 [of k v] add.assoc)
  qed
qed

lemma read7_write7: "read7_from 0 0 (write7 v @ rest) = Some v"
  using read7_from_write7 [of v 0 0 rest] by simp

lemma length_write7: "unat v < 128 ^ Suc n \<Longrightarrow> length (write7 v) \<le> Suc n"
proof (induction n arbitrary: v)
  case 0
  then have "drop_bit 7 v = 0" using drop7_ge [of v] by fastforce
  then show ?case by (simp add: write7_small)
next
  case (Suc n)
  show ?case
  proof (cases "drop_bit 7 v = 0")
    case False
    have "unat (drop_bit 7 v) < 128 ^ Suc n"
      using Suc.prems by (simp add: unat_drop7 less_mult_imp_div_less mult.commute)
    then show ?thesis using Suc.IH [of "drop_bit 7 v"] by (simp add: write7_large [OF False])
  qed (simp add: write7_small)
qed

lemma write7_nonempty: "write7 v \<noteq> []"
  by (subst write7.simps) (simp add: Let_def)

lemma length_write7_pos: "1 \<le> length (write7 v)"
  using write7_nonempty [of v] by (cases "write7 v") simp_all

lemma read_head_write7:
  "length (write7 v) \<le> n \<Longrightarrow> read_head n (write7 v @ rest) = Some (write7 v)"
proof (induction v arbitrary: n rule: write7.induct)
  case (1 v)
  show ?case
  proof (cases "drop_bit 7 v = 0")
    case True
    then show ?thesis using 1(2) by (cases n) (simp_all add: write7_small)
  next
    case False
    from 1(2) obtain m where n: "n = Suc m" by (cases n) (simp_all add: write7_nonempty)
    with 1(2) False have "length (write7 (drop_bit 7 v)) \<le> m" by (simp add: write7_large)
    with 1(1) [OF refl refl False] n show ?thesis
      by (simp add: write7_large [OF False] high_bit_cont)
  qed
qed

text \<open>The prefix of a length below \<open>2^32\<close> is the same from the 64-bit encoder the writer uses
  and from the 32-bit encoder the reader's decoder inverts.\<close>

lemma write7_width:
  fixes v :: "'a::len word" and w :: "'b::len word"
  shows "unat v = unat w \<Longrightarrow> write7 v = write7 w"
proof (induction v arbitrary: w rule: write7.induct)
  case (1 v)
  have z: "drop_bit 7 v = 0 \<longleftrightarrow> drop_bit 7 w = 0"
    using 1(2) unat_drop7 [of v] unat_drop7 [of w] by (metis unat_eq_zero)
  have c: "ucast v = (ucast w :: byte)"
    using 1(2) by (simp add: word_unat_eq_iff unsigned_ucast_eq)
  have c7: "ucast (take_bit 7 v) = (ucast (take_bit 7 w) :: byte)"
    using 1(2) by (simp add: word_unat_eq_iff unsigned_ucast_eq unsigned_take_bit_eq)
  show ?case
  proof (cases "drop_bit 7 v = 0")
    case True
    with z c show ?thesis by (simp add: write7_small)
  next
    case False
    moreover have "write7 (drop_bit 7 v) = write7 (drop_bit 7 w)"
      using 1(1) [OF refl refl False] 1(2) by (simp add: unat_drop7)
    ultimately show ?thesis using z c7 by (simp add: write7_large)
  qed
qed

section \<open>Packets as sequences of typed fields\<close>

definition reader_ok :: "BinaryStreamReader \<Rightarrow> bool" where
  "reader_ok r \<longleftrightarrow> cur r \<le> rlen r \<and> rlen r \<le> length (rmem r)"

definition unread :: "BinaryStreamReader \<Rightarrow> byte list" where
  "unread r = subrange (cur r) (rlen r) (rmem r)"

lemma length_stream_unread: "reader_ok r \<Longrightarrow> length (unread r) = rlen r - cur r"
  by (simp add: reader_ok_def unread_def)

lemma memory_unread: "reader_ok r \<Longrightarrow> drop (cur r) (rmem r) = unread r @ drop (rlen r) (rmem r)"
  by (simp add: reader_ok_def unread_def subrange_def)
    (metis append_take_drop_id drop_drop le_add_diff_inverse2)

lemma unread_step:
  assumes "reader_ok r" and "unread r = xs @ rest"
  shows "cur r + length xs \<le> rlen r" and "reader_ok (r\<lparr>cur := cur r + length xs\<rparr>)"
    and "unread (r\<lparr>cur := cur r + length xs\<rparr>) = rest"
    and "take (length xs) (drop (cur r) (rmem r)) = xs"
proof -
  have le: "length xs + length rest = rlen r - cur r"
    using length_stream_unread [OF assms(1)] assms(2) by simp
  then show bound: "cur r + length xs \<le> rlen r"
    using assms(1) by (auto simp: reader_ok_def)
  then show "reader_ok (r\<lparr>cur := cur r + length xs\<rparr>)"
    using assms(1) by (simp add: reader_ok_def)
  have "unread (r\<lparr>cur := cur r + length xs\<rparr>) = drop (length xs) (unread r)"
    by (simp add: unread_def drop_subrange)
  then show "unread (r\<lparr>cur := cur r + length xs\<rparr>) = rest" using assms(2) by simp
  show "take (length xs) (drop (cur r) (rmem r)) = xs"
    using memory_unread [OF assms(1)] assms(2) by simp
qed

definition wire_string :: "byte list \<Rightarrow> byte list" where
  "wire_string str = write7 (word_of_nat (length str) :: 32 word) @ str"

lemma WriteCString_wire:
  assumes "length str < 2 ^ 32"
  shows "WriteCString str d = d @ wire_string str"
proof -
  have "unat (word_of_nat (length str) :: 64 word) = unat (word_of_nat (length str) :: 32 word)"
    using assms by (simp add: unat_of_nat)
  then have "write7 (word_of_nat (length str) :: 64 word) = write7 (word_of_nat (length str) :: 32 word)"
    by (rule write7_width)
  then show ?thesis by (simp add: WriteCString_def write7BitEncoded64_def wire_string_def)
qed

lemma length_write7_32: "length (write7 (v :: 32 word)) \<le> 5"
proof -
  have "unat v < 4294967296" using unsigned_less [of v] by simp
  then have "unat v < 128 ^ Suc 4" by simp
  then show ?thesis using length_write7 [of v 4] by simp
qed

lemma ReadLengthWithoutOffset_prefix:
  assumes "reader_ok r" and "unread r = write7 (v :: 32 word) @ rest"
  shows "ReadLengthWithoutOffset r = Some (LengthTrue (length (write7 v)) (unat v))"
proof -
  have "drop (cur r) (rmem r) = write7 v @ (rest @ drop (rlen r) (rmem r))"
    using memory_unread [OF assms(1)] assms(2) by simp
  then have "read_head 5 (drop (cur r) (rmem r)) = Some (write7 v)"
    by (simp add: read_head_write7 length_write7_32)
  moreover have "read7BitEncoded32 (write7 v) = Some v"
    using read7_write7 [of v "[]"] by (simp add: read7BitEncoded32_def)
  ultimately show ?thesis
    using unread_step(1) [OF assms] by (simp add: ReadLengthWithoutOffset_def)
qed

lemma read_string_wire:
  assumes "reader_ok r" and "unread r = wire_string str @ rest" and "length str < 2 ^ 32"
  defines "h \<equiv> length (write7 (word_of_nat (length str) :: 32 word))"
  shows "ReadLengthWithoutOffset r = Some (LengthTrue h (length str))"
    and "\<exists>r'. read_field h (length str) r = (Some str, r') \<and> reader_ok r' \<and> unread r' = rest"
proof -
  let ?v = "word_of_nat (length str) :: 32 word"
  have u: "unread r = write7 ?v @ str @ rest" using assms(2) by (simp add: wire_string_def)
  have v: "unat ?v = length str" using assms(3) by (simp add: unat_of_nat)
  show "ReadLengthWithoutOffset r = Some (LengthTrue h (length str))"
    using ReadLengthWithoutOffset_prefix [OF assms(1) u] v by (simp add: h_def)
  note s1 = unread_step [OF assms(1) u, folded h_def]
  note s2 = unread_step [OF s1(2) s1(3)]
  show "\<exists>r'. read_field h (length str) r = (Some str, r') \<and> reader_ok r' \<and> unread r' = rest"
    using s2 by (simp add: read_field_def Let_def)
qed

datatype field = FString "byte list" | FInt32 "32 word" | FShort "16 word" | FChar byte
datatype field_kind = KString | KInt32 | KShort | KChar

fun kind_of :: "field \<Rightarrow> field_kind" where
  "kind_of (FString _) = KString"
| "kind_of (FInt32 _) = KInt32"
| "kind_of (FShort _) = KShort"
| "kind_of (FChar _) = KChar"

fun put_field :: "field \<Rightarrow> byte list \<Rightarrow> byte list" where
  "put_field (FString s) d = WriteString s d"
| "put_field (FInt32 i) d = WriteInt32 i False d"
| "put_field (FShort i) d = WriteShort i False d"
| "put_field (FChar c) d = WriteChar c False d"

fun get_field :: "field_kind \<Rightarrow> BinaryStreamReader \<Rightarrow> (field \<times> BinaryStreamReader) option" where
  "get_field KString r =
     (case ReadString 0 r of Some (Some s, r') \<Rightarrow> Some (FString s, r') | _ \<Rightarrow> None)"
| "get_field KInt32 r = (case ReadInt32 r of (Some i, r') \<Rightarrow> Some (FInt32 i, r') | _ \<Rightarrow> None)"
| "get_field KShort r = (case ReadShort r of (Some i, r') \<Rightarrow> Some (FShort i, r') | _ \<Rightarrow> None)"
| "get_field KChar r = (case ReadChar r of (Some c, r') \<Rightarrow> Some (FChar c, r') | _ \<Rightarrow> None)"

fun valid_field :: "field \<Rightarrow> bool" where
  "valid_field (FString s) \<longleftrightarrow> length s < 2 ^ 32"
| "valid_field _ \<longleftrightarrow> True"

fun wire :: "field \<Rightarrow> byte list" where
  "wire (FString s) = wire_string s"
| "wire (FInt32 i) = be_bytes 4 i"
| "wire (FShort i) = be_bytes 2 i"
| "wire (FChar c) = [c]"

primrec read_fields ::
  "('k \<Rightarrow> 'r \<Rightarrow> ('f \<times> 'r) option) \<Rightarrow> 'k list \<Rightarrow> 'r \<Rightarrow> ('f list \<times> 'r) option" where
  "read_fields get [] r = Some ([], r)"
| "read_fields get (k # ks) r =
     (case get k r of
        None \<Rightarrow> None
      | Some (f, r') \<Rightarrow>
          (case read_fields get ks r' of None \<Rightarrow> None | Some (fs, r'') \<Rightarrow> Some (f # fs, r'')))"

text \<open>What a packet format has to promise per field for whole packets to survive the trip:
  writing appends the field's wire form, and reading at that form returns the field and
  stops right behind it.\<close>

locale field_codec =
  fixes put :: "'f \<Rightarrow> byte list \<Rightarrow> byte list"
    and get :: "'k \<Rightarrow> 'r \<Rightarrow> ('f \<times> 'r) option"
    and kind :: "'f \<Rightarrow> 'k"
    and form :: "'f \<Rightarrow> byte list"
    and valid :: "'f \<Rightarrow> bool"
    and avail :: "'r \<Rightarrow> byte list"
    and good :: "'r \<Rightarrow> bool"
  assumes put_form: "valid f \<Longrightarrow> put f d = d @ form f"
    and get_form: "valid f \<Longrightarrow> good r \<Longrightarrow> avail r = form f @ rest \<Longrightarrow>
      \<exists>r'. get (kind f) r = Some (f, r') \<and> good r' \<and> avail r' = rest"
begin

lemma put_all: "\<forall>f \<in> set fs. valid f \<Longrightarrow> fold put fs d = d @ concat (map form fs)"
  by (induction fs arbitrary: d) (simp_all add: put_form)

lemma get_all:
  "\<forall>f \<in> set fs. valid f \<Longrightarrow> good r \<Longrightarrow> avail r = concat (map form fs) @ rest \<Longrightarrow>
   \<exists>r'. read_fields get (map kind fs) r = Some (fs, r') \<and> good r' \<and> avail r' = rest"
proof (induction fs arbitrary: r)
  case (Cons f fs)
  have "\<exists>r'. get (kind f) r = Some (f, r') \<and> good r' \<and> avail r' = concat (map form fs) @ rest"
    using Cons.prems by (intro get_form) simp_all
  then show ?case using Cons.IH Cons.prems(1) by fastforce
qed simp

end

lemma put_field_wire: "valid_field f \<Longrightarrow> put_field f d = d @ wire f"
  by (cases f) (simp_all add: WriteString_def WriteCString_wire WriteInt32_def WriteShort_def
      WriteChar_def)

lemma get_field_wire:
  assumes v: "valid_field f" and ok: "reader_ok r" and u: "unread r = wire f @ rest"
  shows "\<exists>r'. get_field (kind_of f) r = Some (f, r') \<and> reader_ok r' \<and> unread r' = rest"
proof (cases f)
  case (FString s)
  then have v': "length s < 2 ^ 32" and u': "unread r = wire_string s @ rest" using v u by simp_all
  from read_string_wire [OF ok u' v'] show ?thesis
    using FString by (auto simp: ReadString_def)
next
  case (FInt32 i)
  then show ?thesis using unread_step [OF ok u] by (simp add: ReadInt32_def)
next
  case (FShort i)
  then show ?thesis using unread_step [OF ok u] by (simp add: ReadShort_def)
next
  case (FChar c)
  then have "unread r = [c] @ rest" using u by simp
  note st = unread_step [OF ok this]
  have "rmem r ! cur r = c" using st(1,4) ok
    by (simp add: reader_ok_def take_Suc_conv_app_nth hd_drop_conv_nth take_Suc)
  then show ?thesis using FChar st by (simp add: ReadChar_def)
qed

interpretation stream: field_codec put_field get_field kind_of wire valid_field unread reader_ok
  by unfold_locales (simp_all add: put_field_wire get_field_wire)

section \<open>Decimal fields\<close>

lemma digits_value_digits:
  "\<forall>c \<in> set s. is_digit c \<Longrightarrow>
   digits_value v (ascii s @ junk)
     = digits_value (foldl (\<lambda>v c. v * 10 + (int (of_char c) - 48)) v s) junk"
  by (induction s arbitrary: v)
    (simp_all add: ascii_def word_le_nat_alt unat_of_char)

lemma foldl_dec_val:
  "\<forall>c \<in> set s. is_digit c \<Longrightarrow>
   foldl (\<lambda>v c. v * 10 + (int (of_char c) - 48)) (int v) s
     = int (foldl (\<lambda>v c. v * 10 + (of_char c - 48)) v s)"
proof (induction s arbitrary: v)
  case (Cons c s)
  then have c: "int v * 10 + (int (of_char c) - 48) = int (v * 10 + (of_char c - 48))" by auto
  have "foldl (\<lambda>v c. v * 10 + (int (of_char c) - 48)) (int v) (c # s)
      = foldl (\<lambda>v c. v * 10 + (int (of_char c) - 48)) (int (v * 10 + (of_char c - 48))) s"
    by (simp only: foldl_Cons c)
  also have "\<dots> = int (foldl (\<lambda>v c. v * 10 + (of_char c - 48)) (v * 10 + (of_char c - 48)) s)"
    using Cons by (intro Cons.IH) simp
  finally show ?case by (simp only: foldl_Cons)
qed simp

lemma digits_value_dec:
  "junk = [] \<or> \<not> digit_byte (hd junk) \<Longrightarrow> digits_value 0 (ascii (dec n) @ junk) = int n"
  using digits_value_digits [of "dec n" 0 junk] foldl_dec_val [of "dec n" 0] dec_digits [of _ n]
    dec_val_dec [of n]
  by (cases junk) (auto simp: dec_val_def)

lemma dec_head:
  obtains c cs where "dec n = c # cs" and "is_digit c"
  using dec_digits [of _ n] by (cases "dec n") auto

lemma atoll_dec_int:
  assumes "junk = [] \<or> \<not> digit_byte (hd junk)" and "- (2 ^ 63) \<le> i" and "i < 2 ^ 63"
  shows "atoll (ascii (dec_int i) @ junk) = i"
proof (cases "i < 0")
  case True
  have "atoll (ascii (dec_int i) @ junk) = clamp64 (- digits_value 0 (ascii (dec (nat (- i))) @ junk))"
    using True by (simp add: atoll_def dec_int_def ascii_def isspace_byte_def)
  then show ?thesis using assms True by (simp add: digits_value_dec clamp64_def)
next
  case False
  obtain c cs where d: "dec (nat i) = c # cs" and c: "is_digit c" by (rule dec_head)
  let ?b = "of_char c :: byte"
  have "48 \<le> unat ?b" "unat ?b \<le> 57" using c by (simp_all add: unat_of_char)
  then have b: "\<not> isspace_byte ?b" "?b \<noteq> 45" "?b \<noteq> 43"
    by (auto simp: isspace_byte_def word_le_nat_alt word_unat_eq_iff)
  have "atoll (ascii (dec_int i) @ junk) = clamp64 (digits_value 0 (ascii (dec (nat i)) @ junk))"
    using False b d by (simp add: atoll_def dec_int_def ascii_def)
  then show ?thesis using assms False by (simp add: digits_value_dec clamp64_def)
qed

lemma length_dec_sint: "length (dec_int (sint (v :: 64 word))) \<le> 20"
proof -
  have "\<bar>sint v\<bar> \<le> 2 ^ 63" using sint_ge [of v] sint_lt [of v] by simp
  then have "nat \<bar>sint v\<bar> < 10 ^ Suc 18" by simp
  from length_dec_le [OF this] show ?thesis by (simp add: dec_int_def abs_if split: if_splits)
qed

section \<open>Properties\<close>

text \<open>C39: a packet written field by field (strings shorter than 4 GiB, 32-bit and 16-bit
  integers, single bytes) and flushed is read back field by field unchanged, whatever the
  uninitialised header bytes were and whatever memory follows the packet; the reader ends
  exactly at the end, and the first four bytes are the packet's length.\<close>

theorem stream_roundtrip:
  assumes "\<forall>f \<in> set fs. valid_field f" and "length stack = 6"
  defines "pkt \<equiv> Flush (fold put_field fs (mkWriter stack))"
  shows "\<exists>r'. read_fields get_field (map kind_of fs) (mkReader (pkt @ tail) (length pkt))
           = Some (fs, r') \<and> IsEnd r' = Some True \<and>
         be_word (take 4 pkt) = (word_of_nat (length pkt) :: 32 word)"
proof -
  let ?d = "stack @ concat (map wire fs)"
  have d: "fold put_field fs (mkWriter stack) = ?d"
    using stream.put_all [OF assms(1)] assms(2)
    by (simp add: mkWriter_def BINARY_PACKLEN_LEN_2_def CHECKSUM_LEN_def)
  let ?h = "be_bytes 4 (word_of_nat (length ?d) :: 32 word) @ drop 4 stack"
  have pkt: "pkt = ?h @ concat (map wire fs)" and lpkt: "length pkt = length ?d"
    using assms(2) by (simp_all add: pkt_def d Flush_def copy_at_def)
  let ?r = "mkReader (pkt @ tail) (length pkt)"
  have c: "cur ?r = length ?h" "rlen ?r = length pkt" "rmem ?r = pkt @ tail"
    using assms(2) by (simp_all add: mkReader_def BINARY_PACKLEN_LEN_2_def CHECKSUM_LEN_def)
  have ok: "reader_ok ?r" using c pkt by (simp add: reader_ok_def)
  have "unread ?r = subrange (length ?h) (length pkt) pkt"
    using c by (simp add: unread_def subrange_grow)
  then have u: "unread ?r = concat (map wire fs) @ []"
    by (simp add: subrange_def pkt)
  from stream.get_all [OF assms(1) ok u] obtain r' where
    r': "read_fields get_field (map kind_of fs) ?r = Some (fs, r')" "reader_ok r'" "unread r' = []"
    by blast
  moreover have "IsEnd r' = Some True"
    using r'(2,3) length_stream_unread [of r'] by (auto simp: IsEnd_def reader_ok_def)
  moreover have "be_word (take 4 pkt) = (word_of_nat (length pkt) :: 32 word)"
    using lpkt by (simp add: pkt)
  ultimately show ?thesis by blast
qed

theorem stream_roundtrip_witness:
  "\<exists>r'. read_fields get_field [KInt32, KString, KShort, KChar]
      (mkReader (Flush (fold put_field [FInt32 7, FString [104, 105], FShort 3, FChar 1]
         (mkWriter [9, 9, 9, 9, 9, 9])) @ [255])
        (length (Flush (fold put_field [FInt32 7, FString [104, 105], FShort 3, FChar 1]
         (mkWriter [9, 9, 9, 9, 9, 9])))))
    = Some ([FInt32 7, FString [104, 105], FShort 3, FChar 1], r') \<and> IsEnd r' = Some True"
proof -
  have h: "\<forall>f \<in> set [FInt32 7, FString [104, 105], FShort 3, FChar 1]. valid_field f" by simp
  have l: "length [9, 9, 9, 9, 9, 9 :: byte] = 6" by simp
  show ?thesis using stream_roundtrip [OF h l, of "[255]"] by auto
qed

text \<open>The variable-length encoding of every 32-bit (64-bit) value takes one to five
  (one to ten) bytes and decodes to the value again, ignoring whatever follows it.\<close>

theorem varint_roundtrip:
  "read7BitEncoded32 (write7BitEncoded32 v [] @ rest) = Some v \<and>
   length (write7BitEncoded32 v []) \<in> {1..5} \<and>
   read7BitEncoded64 (write7BitEncoded64 w [] @ rest') = Some w \<and>
   length (write7BitEncoded64 w []) \<in> {1..10}"
proof -
  have "unat w < 18446744073709551616" using unsigned_less [of w] by simp
  then have "unat w < 128 ^ Suc 9" by simp
  then have w: "length (write7 w) \<le> 10" using length_write7 [of w 9] by simp
  show ?thesis
    using w length_write7_pos [of w] length_write7_pos [of v] length_write7_32 [of v]
    by (simp add: read7BitEncoded32_def read7BitEncoded64_def write7BitEncoded32_def
        write7BitEncoded64_def read7_write7)
qed

text \<open>The sum the checksum loop accumulates, as a natural number.\<close>

fun word_sum :: "byte list \<Rightarrow> nat" where
  "word_sum (a # b # buf) = unat a + 256 * unat b + word_sum buf"
| "word_sum [a] = unat a"
| "word_sum [] = 0"

lemma unat_add_small: "unat s + unat w < 2 ^ 32 \<Longrightarrow> unat (s + w) = unat s + unat w"
  for s w :: "32 word"
  by (simp add: unat_word_ariths)

lemma unat_ucast_byte: "unat (ucast a :: 32 word) = unat a" for a :: byte
  using unat_byte_less [of a] by (simp add: unsigned_ucast_eq take_bit_nat_eq_self)

lemma unat_le16: "unat (ucast a + push_bit 8 (ucast b) :: 32 word) = unat a + 256 * unat b"
  for a b :: byte
proof -
  have lt: "unat a < 256" "unat b < 256" by (rule unat_byte_less)+
  have "unat (ucast b * 256 :: 32 word) = unat b * 256"
    using lt by (simp add: unat_word_ariths unat_ucast_byte)
  then have "unat (push_bit 8 (ucast b) :: 32 word) = 256 * unat b"
    by (simp add: push_bit_eq_mult)
  with lt show ?thesis
    using unat_add_small [of "ucast a" "push_bit 8 (ucast b)"] by (simp add: unat_ucast_byte)
qed

lemma unat_cksum_words:
  "unat s + word_sum buf < 2 ^ 32 \<Longrightarrow> unat (cksum_words s buf) = unat s + word_sum buf"
proof (induction s buf rule: cksum_words.induct)
  case (1 s a b buf)
  let ?w = "ucast a + push_bit 8 (ucast b) :: 32 word"
  have "unat s + unat ?w < 2 ^ 32" using 1(2) by (simp only: unat_le16) simp
  then have "unat (s + ?w) = unat s + (unat a + 256 * unat b)"
    by (simp only: unat_add_small unat_le16)
  with 1 show ?case by simp
next
  case (2 s a)
  then show ?case using unat_add_small [of s "ucast a"] by (simp add: unat_ucast_byte)
qed simp

lemma word_sum_bound: "even (length buf) \<Longrightarrow> word_sum buf \<le> 65535 * (length buf div 2)"
proof (induction buf rule: word_sum.induct)
  case (1 a b buf)
  have "unat a < 256" "unat b < 256" by (rule unat_byte_less)+
  with 1 show ?case by simp
qed simp_all

lemma word_sum_append: "even (length buf) \<Longrightarrow> word_sum (buf @ xs) = word_sum buf + word_sum xs"
  by (induction buf rule: word_sum.induct) simp_all

lemma cksum_fold_facts:
  "unat (cksum_fold s) < 65536 \<and> unat (cksum_fold s) mod 65535 = unat s mod 65535 \<and>
   (unat (cksum_fold s) = 0 \<longleftrightarrow> unat s = 0)"
proof (induction s rule: cksum_fold.induct)
  case (1 s)
  let ?q = "unat s div 65536" and ?r = "unat s mod 65536"
  have split: "unat s = ?q * 65536 + ?r" by simp
  show ?case
  proof (cases "drop_bit 16 s = 0")
    case True
    then have "?q = 0" by (metis unat_high_low(1) unsigned_0)
    then have "unat s < 65536" using split by (metis mod_less_divisor add_0 mult_0 zero_less_numeral)
    with True show ?thesis by (simp add: cksum_fold.simps [of s])
  next
    case False
    have "unat s = 65535 * ?q + (?q + ?r)" using split by linarith
    then have "unat s mod 65535 = (?q + ?r) mod 65535" by (metis mod_mult_self4)
    moreover have "?q + ?r = 0 \<longleftrightarrow> unat s = 0" using split by linarith
    ultimately show ?thesis
      using 1 [OF False] False by (simp only: cksum_fold.simps [of s] unat_fold_step) simp
  qed
qed

lemma unat_not16: "unat (NOT c :: 16 word) = 65535 - unat c"
proof -
  have "NOT c = 65535 - c" by (simp add: not_eq_complement)
  moreover have "c \<le> 65535"
  proof -
    have "unat c < 2 ^ LENGTH(16)" by (rule unsigned_less)
    then show ?thesis by (simp add: word_le_nat_alt)
  qed
  ultimately show ?thesis by (simp add: unat_sub)
qed

lemma checksum_unat: "unat (checksum buf) = 65535 - unat (cksum_fold (cksum_words 0 buf))"
proof -
  let ?f = "cksum_fold (cksum_words 0 buf)"
  have "ucast (NOT ?f) = (NOT (ucast ?f) :: 16 word)"
    by (rule bit_word_eqI) (simp add: bit_simps)
  moreover have "unat (ucast ?f :: 16 word) = unat ?f"
    using cksum_fold_facts [of "cksum_words 0 buf"]
    by (simp add: unsigned_ucast_eq take_bit_nat_eq_self)
  ultimately show ?thesis by (simp add: checksum_def unat_not16)
qed

text \<open>The checksum verifies: appending the checksum of a packet of even length (less than
  128 KiB, so that the 32-bit accumulator cannot wrap) in host byte order makes the
  checksum of the whole zero.\<close>

theorem checksum_verifies:
  assumes "even (length buf)" and "length buf < 2 ^ 17"
  shows "checksum (buf @ [ucast (checksum buf), ucast (drop_bit 8 (checksum buf))]) = 0"
proof -
  let ?c = "checksum buf" and ?f = "cksum_fold (cksum_words 0 buf)"
  let ?t = "[ucast ?c, ucast (drop_bit 8 ?c)] :: byte list"
  have small: "word_sum buf \<le> 65535 * 65535"
  proof -
    have "length buf div 2 \<le> 65535" using assms(2) by simp
    then have "65535 * (length buf div 2) \<le> 65535 * 65535" by (rule mult_le_mono2)
    then show ?thesis using word_sum_bound [OF assms(1)] by (rule le_trans [rotated])
  qed
  have f: "unat ?f < 65536" "unat ?f mod 65535 = word_sum buf mod 65535"
    using cksum_fold_facts [of "cksum_words 0 buf"] unat_cksum_words [of 0 buf] small by simp_all
  have lt: "unat ?c < 65536" by (simp add: checksum_unat)
  have "unat (drop_bit 8 ?c) = drop_bit 8 (unat ?c)" by (rule unat_drop_bit_eq)
  then have hi: "unat (ucast (drop_bit 8 ?c) :: byte) = unat ?c div 256 mod 256"
    by (simp only: unsigned_ucast_eq take_bit_eq_mod drop_bit_eq_div) simp
  have lo: "unat (ucast ?c :: byte) = unat ?c mod 256"
    by (simp add: unsigned_ucast_eq take_bit_eq_mod)
  have "word_sum ?t = unat ?c mod 256 + 256 * (unat ?c div 256 mod 256)"
    by (simp only: word_sum.simps lo hi)
  then have "word_sum ?t = unat ?c" using lt by simp
  then have sum: "word_sum (buf @ ?t) = word_sum buf + (65535 - unat ?f)"
    using assms(1) by (simp add: word_sum_append checksum_unat)
  let ?g = "cksum_fold (cksum_words 0 (buf @ ?t))"
  have tot: "unat (cksum_words 0 (buf @ ?t)) = word_sum (buf @ ?t)"
    using unat_cksum_words [of 0 "buf @ ?t"] sum small by simp
  have "(word_sum buf + (65535 - unat ?f)) mod 65535
      = (word_sum buf mod 65535 + (65535 - unat ?f)) mod 65535"
    by (simp add: mod_add_left_eq)
  also have "\<dots> = (unat ?f + (65535 - unat ?f)) mod 65535"
    using f(2) by (metis mod_add_left_eq)
  also have "\<dots> = 0" using f(1) by simp
  finally have "unat ?g mod 65535 = 0"
    using cksum_fold_facts [of "cksum_words 0 (buf @ ?t)"] tot sum by simp
  moreover have "unat ?g \<noteq> 0"
  proof
    assume "unat ?g = 0"
    then have "word_sum buf = 0" "unat ?f = 65535"
      using cksum_fold_facts [of "cksum_words 0 (buf @ ?t)"] tot sum f(1) by simp_all
    then show False
      using cksum_fold_facts [of "cksum_words 0 buf"] unat_cksum_words [of 0 buf] by simp
  qed
  moreover have "unat ?g < 65536"
    using cksum_fold_facts [of "cksum_words 0 (buf @ ?t)"] by simp
  ultimately have "unat ?g = 65535" by (auto simp: mod_eq_0_iff_dvd elim!: dvdE)
  then have "unat (checksum (buf @ ?t)) = 0" by (simp add: checksum_unat)
  then show ?thesis by (simp only: unat_eq_zero)
qed

theorem checksum_verifies_witness: "checksum [1, 2, 3, 4, 251, 249] = 0"
proof -
  have c: "ucast (checksum [1, 2, 3, 4]) = (251 :: byte)"
    "ucast (drop_bit 8 (checksum [1, 2, 3, 4])) = (249 :: byte)" by code_simp+
  have h: "even (length [1, 2, 3, 4 :: byte])" "length [1, 2, 3, 4 :: byte] < 2 ^ 17" by simp_all
  show ?thesis using checksum_verifies [OF h] by (simp only: c append.simps)
qed

text \<open>A 64-bit integer written as a decimal field is read back unchanged when the first
  stack byte behind the copied digits is not itself a digit; the reader never terminates
  the copy, so this is a condition on memory the code does not control.\<close>

theorem int64_roundtrip:
  assumes "reader_ok r" and "length stack = 128"
    and "unread r = WriteInt64 v False [] @ rest"
    and "\<not> digit_byte (stack ! length (dec_int (sint v)))"
  shows "\<exists>r'. ReadInt64 stack r = Some (Some (sint v), r') \<and> reader_ok r' \<and> unread r' = rest"
proof -
  let ?s = "ascii (dec_int (sint v))"
  have l: "length ?s \<le> 20" using length_dec_sint [of v] by (simp add: ascii_def)
  then have l32: "length ?s < 2 ^ 32" by simp
  have "unread r = wire_string ?s @ rest"
    using assms(3) WriteCString_wire [OF l32, of "[]"] by (simp add: WriteInt64_def)
  from read_string_wire [OF assms(1) this l32] obtain r' where
    r': "ReadCString 128 r = Some (Some ?s, r')" "reader_ok r'" "unread r' = rest"
    using l by (auto simp: ReadCString_def)
  have "drop (length ?s) stack \<noteq> []" using l assms(2) by simp
  moreover have "hd (drop (length ?s) stack) = stack ! length (dec_int (sint v))"
    using l assms(2) by (simp add: hd_drop_conv_nth ascii_def)
  ultimately have "atoll (copy_at 0 ?s stack) = sint v"
    using assms(4) sint_ge [of v] sint_lt [of v] by (simp add: copy_at_def atoll_dec_int)
  with r' show ?thesis by (simp add: ReadInt64_def)
qed

theorem int64_roundtrip_witness:
  "let d = WriteInt64 (-42) False [1, 2, 3, 4, 5, 6]
   in \<exists>r'. ReadInt64 (replicate 128 0) (mkReader d (length d)) = Some (Some (-42), r')"
proof -
  let ?d = "WriteInt64 (-42) False [1, 2, 3, 4, 5, 6]"
  let ?r = "mkReader ?d (length ?d)"
  have h: "reader_ok ?r" "length (replicate 128 (0 :: byte)) = 128"
    "unread ?r = WriteInt64 (-42) False [] @ []"
    "\<not> digit_byte (replicate 128 0 ! length (dec_int (sint (-42 :: 64 word))))"
    by code_simp+
  have "sint (-42 :: 64 word) = -42" by simp
  with int64_roundtrip [OF h] show ?thesis by (auto simp: Let_def)
qed

lemma read_head_terminated:
  "(n \<le> length xs \<and> (\<forall>i < n. xs ! i AND 0x80 \<noteq> 0) \<and> read_head n (xs @ [0]) = Some (take n xs)) \<or>
   (\<not> (n \<le> length xs \<and> (\<forall>i < n. xs ! i AND 0x80 \<noteq> 0)) \<and>
    (\<exists>ys c. read_head n (xs @ [0]) = Some (ys @ [c]) \<and> c AND 0x80 = 0 \<and>
       (\<forall>y \<in> set ys. y AND 0x80 \<noteq> 0) \<and> length ys < n))"
proof (induction n arbitrary: xs)
  case (Suc n)
  show ?case
  proof (cases xs)
    case Nil
    then show ?thesis by (auto intro!: exI [of _ "[] :: byte list"])
  next
    case (Cons x xs')
    show ?thesis
    proof (cases "x AND 0x80 = 0")
      case True
      with Cons show ?thesis by (auto simp: All_less_Suc2 intro!: exI [of _ "[] :: byte list"])
    next
      case False
      from Suc.IH [of xs'] show ?thesis
      proof (elim disjE conjE exE)
        fix ys c
        assume "read_head n (xs' @ [0]) = Some (ys @ [c])" "c AND 0x80 = 0"
          "\<forall>y \<in> set ys. y AND 0x80 \<noteq> 0" "length ys < n"
          "\<not> (n \<le> length xs' \<and> (\<forall>i < n. xs' ! i AND 0x80 \<noteq> 0))"
        with False Cons show ?thesis
          by (auto simp: All_less_Suc2 intro!: exI [of _ "x # ys"])
      qed (use False Cons in \<open>simp add: All_less_Suc2\<close>)
    qed
  qed
qed simp

lemma read7_from_all_cont: "\<forall>y \<in> set ys. y AND 0x80 \<noteq> 0 \<Longrightarrow> read7_from k v ys = None"
  by (induction ys arbitrary: k v) (simp_all add: Let_def)

lemma read7_from_terminated:
  "\<forall>y \<in> set ys. y AND 0x80 \<noteq> 0 \<Longrightarrow> c AND 0x80 = 0 \<Longrightarrow> k + 7 * length ys < LENGTH('a) \<Longrightarrow>
   \<exists>w. read7_from k (v :: 'a::len word) (ys @ [c]) = Some w"
  by (induction ys arbitrary: k v) (simp_all add: Let_def)

text \<open>For a packet held in a terminated string the length prefix is read safely at every
  position, except that five bytes with the continuation bit set make the decoder run off
  its five-byte array: the undefined case is exactly that one.\<close>

theorem length_prefix_overread:
  assumes "rmem r = pkt @ [0]" and "rlen r = length pkt" and "cur r \<le> length pkt"
  shows "ReadLengthWithoutOffset r = None \<longleftrightarrow>
    cur r + 5 \<le> length pkt \<and> (\<forall>i < 5. pkt ! (cur r + i) AND 0x80 \<noteq> 0)"
proof -
  let ?xs = "drop (cur r) pkt"
  have mem: "drop (cur r) (rmem r) = ?xs @ [0]" using assms(1,3) by simp
  have iff: "5 \<le> length ?xs \<and> (\<forall>i < 5. ?xs ! i AND 0x80 \<noteq> 0) \<longleftrightarrow>
      cur r + 5 \<le> length pkt \<and> (\<forall>i < 5. pkt ! (cur r + i) AND 0x80 \<noteq> 0)"
    using assms(3) by auto
  from read_head_terminated [of 5 ?xs] show ?thesis
  proof (elim disjE conjE exE)
    assume full: "5 \<le> length ?xs" "\<forall>i < 5. ?xs ! i AND 0x80 \<noteq> 0"
      and hd: "read_head 5 (?xs @ [0]) = Some (take 5 ?xs)"
    then have "\<forall>y \<in> set (take 5 ?xs). y AND 0x80 \<noteq> 0" by (auto simp: in_set_conv_nth)
    then have "read7BitEncoded32 (take 5 ?xs) = None"
      by (simp add: read7BitEncoded32_def read7_from_all_cont)
    with full hd iff mem assms(2) show ?thesis by (simp add: ReadLengthWithoutOffset_def)
  next
    fix ys c
    assume not: "\<not> (5 \<le> length ?xs \<and> (\<forall>i < 5. ?xs ! i AND 0x80 \<noteq> 0))"
      and hd: "read_head 5 (?xs @ [0]) = Some (ys @ [c])"
      and "c AND 0x80 = 0" "\<forall>y \<in> set ys. y AND 0x80 \<noteq> 0" "length ys < 5"
    then obtain w where "read7BitEncoded32 (ys @ [c]) = Some w"
      using read7_from_terminated [of ys c 0 "0 :: 32 word"] by (auto simp: read7BitEncoded32_def)
    with not hd iff mem show ?thesis by (auto simp: ReadLengthWithoutOffset_def)
  qed
qed

theorem length_prefix_overread_witness:
  "ReadLengthWithoutOffset \<lparr>rmem = [255, 255, 255, 255, 255, 1, 0], rlen = 6, cur = 0\<rparr> = None"
proof -
  let ?r = "\<lparr>rmem = [255, 255, 255, 255, 255, 1, 0], rlen = 6, cur = 0\<rparr>"
  have h: "rmem ?r = [255, 255, 255, 255, 255, 1] @ [0]" "rlen ?r = length [255, 255, 255, 255, 255, 1 :: byte]"
    "cur ?r \<le> length [255, 255, 255, 255, 255, 1 :: byte]" by simp_all
  have "\<forall>i < 5. [255, 255, 255, 255, 255, 1 :: byte] ! i AND 0x80 \<noteq> 0" by code_simp
  then show ?thesis using length_prefix_overread [OF h] by simp
qed

end
