(* ===== verification/Hiredis_Sds.thy ===== *)
theory Hiredis_Sds
  imports Achat_Prelude "HOL-Library.Monad_Syntax" "HOL-Library.Code_Target_Nat"
begin

text \<open>
  The dynamic strings of the Redis client, \<open>hiredis-master/sds.h\<close> and the storage part of
  \<open>hiredis-master/sds.c\<close>. A string is the header \<open>sdshdr\<close> in front of its bytes: \<open>len\<close> bytes of
  content, a terminating NUL and \<open>free\<close> spare bytes. The C library's allocator is the argument
  \<open>a\<close> of every operation that allocates: \<open>can_alloc a n\<close> says whether a request of \<open>n\<close> bytes
  succeeds and \<open>fresh a\<close> gives the unspecified bytes of fresh memory. \<open>None\<close> is the null pointer
  (or an operation applied to it). The fields \<open>len\<close> and \<open>free\<close> are C \<open>int\<close>s; they are naturals
  here, so that the operations model the code only while the block of the string has less than 2 GiB
  (\<open>sdsAllocSize s < 2 ^ 31\<close>; then no store into the fields is cut). This bound is not left to the reader:
  \<open>sds_int_fields_fit\<close> shows it for every run with an allocator that refuses requests of 2 GiB, and the theorem on the reply
  reader, \<open>reader_reads_pipeline\<close>, bounds its input so that the bound holds, and concludes it.

  The results are stated with \<open>yields a c r\<close>: the call either ran out of memory, and then the
  allocator did refuse a request, or returned a well-formed string with content \<open>c\<close>.
\<close>

section \<open>The header and the allocator\<close>

record allocator =
  can_alloc :: "nat \<Rightarrow> bool"
  fresh :: "nat \<Rightarrow> char"

record sdshdr =
  sh_len :: nat
  sh_free :: nat
  sh_buf :: string

definition SDS_MAX_PREALLOC :: nat where
  "SDS_MAX_PREALLOC = 1024 * 1024"

definition sizeof_sdshdr :: nat where
  "sizeof_sdshdr = 8"

definition fresh_bytes :: "allocator \<Rightarrow> nat \<Rightarrow> string" where
  "fresh_bytes a n = map (fresh a) [0..<n]"

text \<open>\<open>realloc\<close> of the byte part of a block to \<open>n\<close> bytes: the common prefix is kept.\<close>

definition realloc_buf :: "allocator \<Rightarrow> nat \<Rightarrow> string \<Rightarrow> string" where
  "realloc_buf a n xs = take n xs @ fresh_bytes a (n - length xs)"

text \<open>\<open>strlen\<close> of a C string held in a list of bytes.\<close>

definition strlen :: "string \<Rightarrow> nat" where
  "strlen t = length (takeWhile (\<lambda>c. c \<noteq> NUL) t)"

section \<open>Operations\<close>

definition sdslen :: "sdshdr \<Rightarrow> nat" where
  "sdslen s = sh_len s"

definition sdsavail :: "sdshdr \<Rightarrow> nat" where
  "sdsavail s = sh_free s"

text \<open>The \<open>init\<close> pointer is \<open>None\<close> when it is null.\<close>

definition sdsnewlen :: "allocator \<Rightarrow> string option \<Rightarrow> nat \<Rightarrow> sdshdr option" where
  "sdsnewlen a init initlen =
     (if \<not> can_alloc a (sizeof_sdshdr + initlen + 1) then None
      else
        let block = (case init of Some t \<Rightarrow> fresh_bytes a (initlen + 1)
                                | None \<Rightarrow> replicate (initlen + 1) NUL);
            filled = (case init of Some t \<Rightarrow> if initlen \<noteq> 0 then copy_at 0 (take initlen t) block
                                             else block
                                 | None \<Rightarrow> block)
        in Some \<lparr>sh_len = initlen, sh_free = 0, sh_buf = filled[initlen := NUL]\<rparr>)"

definition sdsempty :: "allocator \<Rightarrow> sdshdr option" where
  "sdsempty a = sdsnewlen a (Some '''') 0"

definition sdsnew :: "allocator \<Rightarrow> string option \<Rightarrow> sdshdr option" where
  "sdsnew a init = sdsnewlen a init (case init of None \<Rightarrow> 0 | Some t \<Rightarrow> strlen t)"

definition sdsdup :: "allocator \<Rightarrow> sdshdr \<Rightarrow> sdshdr option" where
  "sdsdup a s = sdsnewlen a (Some (sh_buf s)) (sdslen s)"

definition sdsupdatelen :: "sdshdr \<Rightarrow> sdshdr" where
  "sdsupdatelen s =
     (let reallen = strlen (sh_buf s)
      in s\<lparr>sh_free := sh_free s + sh_len s - reallen, sh_len := reallen\<rparr>)"

definition sdsclear :: "sdshdr \<Rightarrow> sdshdr" where
  "sdsclear s = s\<lparr>sh_free := sh_free s + sh_len s, sh_len := 0, sh_buf := (sh_buf s)[0 := NUL]\<rparr>"

definition sdsMakeRoomFor :: "allocator \<Rightarrow> sdshdr \<Rightarrow> nat \<Rightarrow> sdshdr option" where
  "sdsMakeRoomFor a s addlen =
     (if sdsavail s \<ge> addlen then Some s
      else
        let len = sdslen s;
            newlen = len + addlen;
            newlen = (if newlen < SDS_MAX_PREALLOC then newlen * 2 else newlen + SDS_MAX_PREALLOC)
        in if \<not> can_alloc a (sizeof_sdshdr + newlen + 1) then None
           else Some (s\<lparr>sh_free := newlen - len, sh_buf := realloc_buf a (newlen + 1) (sh_buf s)\<rparr>))"

text \<open>The result of this \<open>realloc\<close> is not tested in the source; a refusal is the null
  dereference that follows.\<close>

definition sdsRemoveFreeSpace :: "allocator \<Rightarrow> sdshdr \<Rightarrow> sdshdr option" where
  "sdsRemoveFreeSpace a s =
     (if \<not> can_alloc a (sizeof_sdshdr + sh_len s + 1) then None
      else Some (s\<lparr>sh_buf := realloc_buf a (sh_len s + 1) (sh_buf s), sh_free := 0\<rparr>))"

definition sdsAllocSize :: "sdshdr \<Rightarrow> nat" where
  "sdsAllocSize s = sizeof_sdshdr + sh_len s + sh_free s + 1"

text \<open>Both assertions abort; so does, in the model, a decrement below length zero, which in C
  writes in front of the string.\<close>

definition sdsIncrLen :: "sdshdr \<Rightarrow> int \<Rightarrow> sdshdr option" where
  "sdsIncrLen s incr =
     (if \<not> (int (sh_free s) \<ge> incr) then None
      else
        let len = int (sh_len s) + incr; free = int (sh_free s) - incr
        in if \<not> (free \<ge> 0) then None
           else if len < 0 then None
           else Some (s\<lparr>sh_len := nat len, sh_free := nat free,
                       sh_buf := (sh_buf s)[nat len := NUL]\<rparr>))"

definition sdsgrowzero :: "allocator \<Rightarrow> sdshdr \<Rightarrow> nat \<Rightarrow> sdshdr option" where
  "sdsgrowzero a s len =
     (let curlen = sh_len s
      in if len \<le> curlen then Some s
         else do {
           s \<leftarrow> sdsMakeRoomFor a s (len - curlen);
           let buf = copy_at curlen (replicate (len - curlen + 1) NUL) (sh_buf s);
           let totlen = sh_len s + sh_free s;
           Some (s\<lparr>sh_buf := buf, sh_len := len, sh_free := totlen - len\<rparr>)
         })"

text \<open>The pointer \<open>t\<close> and the byte count \<open>len\<close> of the source are the byte string \<open>t\<close>.\<close>

definition sdscatlen :: "allocator \<Rightarrow> sdshdr \<Rightarrow> string \<Rightarrow> sdshdr option" where
  "sdscatlen a s t =
     (let curlen = sdslen s
      in do {
        s \<leftarrow> sdsMakeRoomFor a s (length t);
        Some (s\<lparr>sh_len := curlen + length t,
                sh_free := sh_free s - length t,
                sh_buf := (copy_at curlen t (sh_buf s))[curlen + length t := NUL]\<rparr>)
      })"

definition sdscat :: "allocator \<Rightarrow> sdshdr \<Rightarrow> string \<Rightarrow> sdshdr option" where
  "sdscat a s t = sdscatlen a s (take (strlen t) t)"

definition sdscatsds :: "allocator \<Rightarrow> sdshdr \<Rightarrow> sdshdr \<Rightarrow> sdshdr option" where
  "sdscatsds a s t = sdscatlen a s (take (sdslen t) (sh_buf t))"

definition sdscpylen :: "allocator \<Rightarrow> sdshdr \<Rightarrow> string \<Rightarrow> sdshdr option" where
  "sdscpylen a s t =
     (let len = length t; totlen = sh_free s + sh_len s
      in do {
        (s, totlen) \<leftarrow>
          (if totlen < len then do {
             s \<leftarrow> sdsMakeRoomFor a s (len - sh_len s);
             Some (s, sh_free s + sh_len s)
           } else Some (s, totlen));
        Some (s\<lparr>sh_buf := (copy_at 0 t (sh_buf s))[len := NUL],
                sh_len := len, sh_free := totlen - len\<rparr>)
      })"

definition sdscpy :: "allocator \<Rightarrow> sdshdr \<Rightarrow> string \<Rightarrow> sdshdr option" where
  "sdscpy a s t = sdscpylen a s (take (strlen t) t)"

text \<open>
  The loop of \<open>sdscatvprintf\<close> over the scratch buffer size, for the text \<open>out\<close> that the format
  expands to: \<open>vsnprintf\<close> stores at most \<open>buflen - 1\<close> bytes of it and a NUL, and the loop tests
  the last byte but one.
\<close>

definition vsnprintf_buf :: "nat \<Rightarrow> string \<Rightarrow> string \<Rightarrow> string" where
  "vsnprintf_buf buflen out buf = copy_at 0 (take (buflen - 1) out @ [NUL]) buf"

function vprintf_loop :: "allocator \<Rightarrow> string \<Rightarrow> nat \<Rightarrow> string option" where
  "vprintf_loop a out buflen =
     (if \<not> can_alloc a buflen then None
      else
        let buf = vsnprintf_buf buflen out ((fresh_bytes a buflen)[buflen - 2 := NUL])
        in if buf ! (buflen - 2) \<noteq> NUL then vprintf_loop a out (buflen * 2)
           else Some buf)"
  by pat_completeness auto

lemma vsnprintf_probe:
  assumes "vsnprintf_buf n out ((fresh_bytes a n)[n - 2 := NUL]) ! (n - 2) \<noteq> NUL"
  shows "2 \<le> n \<and> n \<le> Suc (length out)"
proof -
  have len: "length ((fresh_bytes a n)[n - 2 := NUL]) = n" by (simp add: fresh_bytes_def)
  have "2 \<le> n"
  proof (rule ccontr)
    assume "\<not> 2 \<le> n"
    then have "n - 2 = 0" "n - 1 = 0" by auto
    with assms show False by (simp add: vsnprintf_buf_def copy_at_def)
  qed
  moreover have "n \<le> Suc (length out)"
  proof (rule ccontr)
    assume big: "\<not> n \<le> Suc (length out)"
    define k where "k = n - 2 - length out"
    with big have n: "n = Suc (Suc (length out + k))" by simp
    from assms show False
      by (cases k) (auto simp: n vsnprintf_buf_def copy_at_def nth_append fresh_bytes_def)
  qed
  ultimately show ?thesis by simp
qed

termination vprintf_loop
  by (relation "measure (\<lambda>(a, out, n). length out + 2 - n)")
     (use vsnprintf_probe in \<open>fastforce simp: Let_def\<close>)+

declare vprintf_loop.simps [simp del]

definition sdscatvprintf :: "allocator \<Rightarrow> sdshdr \<Rightarrow> string \<Rightarrow> sdshdr option" where
  "sdscatvprintf a s out = do { buf \<leftarrow> vprintf_loop a out 16; sdscat a s buf }"

text \<open>
  Decimal conversion: the digits are produced in reverse and the string is then reversed in
  place by swapping from both ends.
\<close>

function ull_digits :: "nat \<Rightarrow> string" where
  "ull_digits v = digit_char (v mod 10) # (if v div 10 = 0 then [] else ull_digits (v div 10))"
  by pat_completeness auto
termination by (relation "measure id") auto

declare ull_digits.simps [simp del]

function reverse_loop :: "'a list \<Rightarrow> nat \<Rightarrow> nat \<Rightarrow> 'a list" where
  "reverse_loop xs s p =
     (if s < p then reverse_loop (xs[s := xs ! p, p := xs ! s]) (s + 1) (p - 1) else xs)"
  by pat_completeness auto
termination by (relation "measure (\<lambda>(xs, s, p). p - s)") auto

declare reverse_loop.simps [simp del]

definition sdsll2str :: "64 word \<Rightarrow> string" where
  "sdsll2str val =
     (let v = unat (if val <s 0 then - val else val);
          s = ull_digits v;
          s = (if val <s 0 then s @ ''-'' else s)
      in reverse_loop s 0 (length s - 1))"

definition sdsull2str :: "64 word \<Rightarrow> string" where
  "sdsull2str v = (let s = ull_digits (unat v) in reverse_loop s 0 (length s - 1))"

text \<open>
  The variadic arguments of \<open>sdscatfmt\<close>. A specifier that meets an argument of another type, or
  none, is undefined in C and \<open>None\<close> here; so is a format that ends in a lone percent sign, where
  the source steps over the terminator of the format.
\<close>

datatype sdsarg = ArgStr string | ArgSds sdshdr | ArgInt "32 word" | ArgLL "64 word"
  | ArgUInt "32 word" | ArgULL "64 word" | ArgSize "64 word"

definition catfmt_put :: "allocator \<Rightarrow> sdshdr \<Rightarrow> nat \<Rightarrow> string \<Rightarrow> (sdshdr \<times> nat) option" where
  "catfmt_put a s i str =
     (let l = length str
      in do {
        s \<leftarrow> (if sh_free s < l then sdsMakeRoomFor a s l else Some s);
        Some (s\<lparr>sh_buf := copy_at i str (sh_buf s), sh_len := sh_len s + l,
                sh_free := sh_free s - l\<rparr>, i + l)
      })"

definition catfmt_char :: "sdshdr \<Rightarrow> nat \<Rightarrow> char \<Rightarrow> sdshdr \<times> nat" where
  "catfmt_char s i c =
     (s\<lparr>sh_buf := (sh_buf s)[i := c], sh_len := sh_len s + 1, sh_free := sh_free s - 1\<rparr>, i + 1)"

definition catfmt_arg :: "char \<Rightarrow> sdsarg list \<Rightarrow> (string \<times> sdsarg list) option" where
  "catfmt_arg nxt args =
     (if nxt = CHR ''s'' then
        (case args of ArgStr str # rest \<Rightarrow> Some (take (strlen str) str, rest) | _ \<Rightarrow> None)
      else if nxt = CHR ''S'' then
        (case args of ArgSds str # rest \<Rightarrow> Some (take (sdslen str) (sh_buf str), rest) | _ \<Rightarrow> None)
      else if nxt = CHR ''i'' then
        (case args of ArgInt num # rest \<Rightarrow> Some (sdsll2str (scast num), rest) | _ \<Rightarrow> None)
      else if nxt = CHR ''I'' then
        (case args of ArgLL num # rest \<Rightarrow> Some (sdsll2str num, rest) | _ \<Rightarrow> None)
      else if nxt = CHR ''u'' then
        (case args of ArgUInt unum # rest \<Rightarrow> Some (sdsull2str (ucast unum), rest) | _ \<Rightarrow> None)
      else if nxt = CHR ''U'' then
        (case args of ArgULL unum # rest \<Rightarrow> Some (sdsull2str unum, rest) | _ \<Rightarrow> None)
      else if nxt = CHR ''T'' then
        (case args of ArgSize unum # rest \<Rightarrow> Some (sdsull2str unum, rest) | _ \<Rightarrow> None)
      else None)"

abbreviation fmt_specifiers :: string where
  "fmt_specifiers \<equiv> ''sSiIuUT''"

fun catfmt_loop :: "allocator \<Rightarrow> sdshdr \<Rightarrow> nat \<Rightarrow> string \<Rightarrow> sdsarg list \<Rightarrow> (sdshdr \<times> nat) option" where
  "catfmt_loop a s i [] args = Some (s, i)"
| "catfmt_loop a s i (c # f) args = do {
     s \<leftarrow> (if sh_free s = 0 then sdsMakeRoomFor a s 1 else Some s);
     (if c = CHR ''%'' then
        (case f of
           [] \<Rightarrow> None
         | nxt # f' \<Rightarrow>
             if nxt \<in> set fmt_specifiers then do {
               (str, rest) \<leftarrow> catfmt_arg nxt args;
               (s, i) \<leftarrow> catfmt_put a s i str;
               catfmt_loop a s i f' rest
             } else case catfmt_char s i nxt of (s, i) \<Rightarrow> catfmt_loop a s i f' args)
      else case catfmt_char s i c of (s, i) \<Rightarrow> catfmt_loop a s i f args)
   }"

definition sdscatfmt :: "allocator \<Rightarrow> sdshdr \<Rightarrow> string \<Rightarrow> sdsarg list \<Rightarrow> sdshdr option" where
  "sdscatfmt a s fmt args = do {
     (s, i) \<leftarrow> catfmt_loop a s (sdslen s) (take (strlen fmt) fmt) args;
     Some (s\<lparr>sh_buf := (sh_buf s)[i := NUL]\<rparr>)
   }"

text \<open>\<open>strchr(cset, c)\<close> also finds the terminator, so a NUL byte is always trimmed.\<close>

definition strchr_hit :: "string \<Rightarrow> char \<Rightarrow> bool" where
  "strchr_hit cset c = (c = NUL \<or> c \<in> set (take (strlen cset) cset))"

function trim_left :: "(char \<Rightarrow> bool) \<Rightarrow> string \<Rightarrow> int \<Rightarrow> int \<Rightarrow> int" where
  "trim_left hit b end sp =
     (if sp \<le> end \<and> hit (b ! nat sp) then trim_left hit b end (sp + 1) else sp)"
  by pat_completeness auto
termination by (relation "measure (\<lambda>(hit, b, end, sp). nat (end + 1 - sp))") auto

function trim_right :: "(char \<Rightarrow> bool) \<Rightarrow> string \<Rightarrow> int \<Rightarrow> int \<Rightarrow> int" where
  "trim_right hit b start ep =
     (if ep > start \<and> hit (b ! nat ep) then trim_right hit b start (ep - 1) else ep)"
  by pat_completeness auto
termination by (relation "measure (\<lambda>(hit, b, start, ep). nat (ep - start))") auto

declare trim_left.simps [simp del] trim_right.simps [simp del]

definition sdstrim :: "sdshdr \<Rightarrow> string \<Rightarrow> sdshdr" where
  "sdstrim s cset =
     (let end = int (sdslen s) - 1;
          sp = trim_left (strchr_hit cset) (sh_buf s) end 0;
          ep = trim_right (strchr_hit cset) (sh_buf s) 0 end;
          len = (if sp > ep then 0 else nat (ep - sp + 1));
          buf = (if sp \<noteq> 0 then copy_at 0 (subrange (nat sp) (nat sp + len) (sh_buf s)) (sh_buf s)
                 else sh_buf s)
      in s\<lparr>sh_buf := buf[len := NUL], sh_free := sh_free s + (sh_len s - len), sh_len := len\<rparr>)"

definition sdsrange :: "sdshdr \<Rightarrow> int \<Rightarrow> int \<Rightarrow> sdshdr" where
  "sdsrange s start end =
     (let len = int (sdslen s)
      in if len = 0 then s
      else
        let start = (if start < 0 then (if len + start < 0 then 0 else len + start) else start);
            end = (if end < 0 then (if len + end < 0 then 0 else len + end) else end);
            newlen = (if start > end then 0 else end - start + 1);
            (start, newlen) =
              (if newlen \<noteq> 0 then
                 (if start \<ge> len then (start, 0)
                  else if end \<ge> len then
                    (start, if start > len - 1 then 0 else len - 1 - start + 1)
                  else (start, newlen))
               else (0, newlen));
            buf = (if start \<noteq> 0 \<and> newlen \<noteq> 0
                   then copy_at 0 (subrange (nat start) (nat start + nat newlen) (sh_buf s)) (sh_buf s)
                   else sh_buf s)
        in s\<lparr>sh_buf := buf[nat newlen := NUL],
             sh_free := sh_free s + (sh_len s - nat newlen), sh_len := nat newlen\<rparr>)"

definition tolower :: "char \<Rightarrow> char" where
  "tolower c = (if 65 \<le> (of_char c :: nat) \<and> (of_char c :: nat) \<le> 90
                then char_of (of_char c + 32 :: nat) else c)"

definition toupper :: "char \<Rightarrow> char" where
  "toupper c = (if 97 \<le> (of_char c :: nat) \<and> (of_char c :: nat) \<le> 122
                then char_of (of_char c - 32 :: nat) else c)"

definition map_prefix :: "(char \<Rightarrow> char) \<Rightarrow> nat \<Rightarrow> string \<Rightarrow> string" where
  "map_prefix g n b = fold (\<lambda>j b. b[j := g (b ! j)]) [0..<n] b"

definition sdstolower :: "sdshdr \<Rightarrow> sdshdr" where
  "sdstolower s = s\<lparr>sh_buf := map_prefix tolower (sdslen s) (sh_buf s)\<rparr>"

definition sdstoupper :: "sdshdr \<Rightarrow> sdshdr" where
  "sdstoupper s = s\<lparr>sh_buf := map_prefix toupper (sdslen s) (sh_buf s)\<rparr>"

text \<open>\<open>memcmp\<close>: the difference of the first two bytes that differ, as unsigned bytes.\<close>

fun memcmp :: "string \<Rightarrow> string \<Rightarrow> nat \<Rightarrow> int" where
  "memcmp xs ys 0 = 0"
| "memcmp xs ys (Suc n) =
     (if hd xs = hd ys then memcmp (tl xs) (tl ys) n else char_val (hd xs) - char_val (hd ys))"

definition sdscmp :: "sdshdr \<Rightarrow> sdshdr \<Rightarrow> int" where
  "sdscmp s1 s2 =
     (let l1 = sdslen s1; l2 = sdslen s2;
          minlen = (if l1 < l2 then l1 else l2);
          cmp = memcmp (sh_buf s1) (sh_buf s2) minlen
      in if cmp = 0 then int l1 - int l2 else cmp)"

section \<open>Invariant and content\<close>

text \<open>\<open>sds_open\<close> is the storage invariant alone; \<open>sds_wf\<close> adds the terminator.\<close>

definition sds_open :: "sdshdr \<Rightarrow> bool" where
  "sds_open s \<longleftrightarrow> length (sh_buf s) = sh_len s + sh_free s + 1"

definition sds_wf :: "sdshdr \<Rightarrow> bool" where
  "sds_wf s \<longleftrightarrow> sds_open s \<and> sh_buf s ! sh_len s = NUL"

definition content :: "sdshdr \<Rightarrow> string" where
  "content s = take (sh_len s) (sh_buf s)"

definition yields :: "allocator \<Rightarrow> string \<Rightarrow> sdshdr option \<Rightarrow> bool" where
  "yields a c r = (case r of None \<Rightarrow> (\<exists>n. \<not> can_alloc a n) | Some s \<Rightarrow> sds_wf s \<and> content s = c)"

lemma yields_Some [simp]: "yields a c (Some s) \<longleftrightarrow> sds_wf s \<and> content s = c"
  by (simp add: yields_def)

lemma yields_None: "\<not> can_alloc a n \<Longrightarrow> yields a c None"
  by (auto simp: yields_def)

lemma yields_bind:
  assumes "yields a c r" "\<And>s. sds_wf s \<Longrightarrow> content s = c \<Longrightarrow> yields a c' (f s)"
  shows "yields a c' (r \<bind> f)"
  using assms by (cases r) (auto simp: yields_def)

lemma length_content: "sds_open s \<Longrightarrow> length (content s) = sh_len s"
  by (simp add: content_def sds_open_def)

text \<open>The buffer seen as content, terminator byte and spare bytes.\<close>

lemma sds_openE:
  assumes "sds_open s"
  obtains x r where "sh_buf s = content s @ x # r" "length r = sh_free s" "length (content s) = sh_len s"
proof -
  have "sh_len s < length (sh_buf s)" using assms by (simp add: sds_open_def)
  then have "sh_buf s = content s @ sh_buf s ! sh_len s # drop (Suc (sh_len s)) (sh_buf s)"
    by (simp add: content_def id_take_nth_drop [symmetric])
  then show thesis using that assms by (simp add: sds_open_def content_def)
qed

lemma sds_wfI:
  assumes "sh_buf s = c @ NUL # r" "length c = sh_len s" "length r = sh_free s"
  shows "sds_wf s \<and> content s = c"
  using assms by (simp add: sds_wf_def sds_open_def content_def nth_append)

lemma store_end:
  assumes "length t \<le> length r"
  shows "(copy_at (length c) t (c @ x # r))[length c + length t := NUL]
         = c @ t @ NUL # drop (length t) r"
proof (cases "drop (length t) (x # r)")
  case Nil
  with assms show ?thesis by simp
next
  case (Cons y ys)
  then have "ys = drop (length t) r" by (metis drop_Suc_Cons drop_drop drop_Suc tl_drop list.sel(3) drop0)
  with Cons show ?thesis by (simp add: copy_at_def list_update_append)
qed

lemma length_fresh_bytes [simp]: "length (fresh_bytes a n) = n"
  by (simp add: fresh_bytes_def)

lemma length_realloc_buf [simp]: "length (realloc_buf a n xs) = n"
  by (simp add: realloc_buf_def)

lemma take_realloc_buf: "m \<le> n \<Longrightarrow> m \<le> length xs \<Longrightarrow> take m (realloc_buf a n xs) = take m xs"
  by (simp add: realloc_buf_def min_def)

lemma nth_realloc_buf: "m < n \<Longrightarrow> m < length xs \<Longrightarrow> realloc_buf a n xs ! m = xs ! m"
  by (simp add: realloc_buf_def nth_append)

lemma take_strlen: "take (strlen t) t = takeWhile (\<lambda>c. c \<noteq> NUL) t"
  unfolding strlen_def by (rule takeWhile_eq_take [symmetric])

lemma cstring_prefix: "NUL \<notin> set t \<Longrightarrow> takeWhile (\<lambda>c. c \<noteq> NUL) (t @ NUL # r) = t"
  by (induction t) auto

lemma strlen_less: "NUL \<in> set t \<Longrightarrow> strlen t < length t"
  by (induction t) (auto simp: strlen_def)

lemma sdsMakeRoomFor_cases:
  assumes "sds_open s"
  obtains (oom) n where "\<not> can_alloc a n" "sdsMakeRoomFor a s addlen = None"
  | (room) s' where "sdsMakeRoomFor a s addlen = Some s'" "sds_open s'" "addlen \<le> sh_free s'"
      "sh_len s' = sh_len s" "content s' = content s" "sds_wf s \<longrightarrow> sds_wf s'"
proof (cases "sh_free s \<ge> addlen")
  case True
  then show thesis using assms room [of s] by (simp add: sdsMakeRoomFor_def sdsavail_def)
next
  case False
  define newlen where "newlen = (if sh_len s + addlen < SDS_MAX_PREALLOC then (sh_len s + addlen) * 2
    else sh_len s + addlen + SDS_MAX_PREALLOC)"
  define s' where "s' = s\<lparr>sh_free := newlen - sh_len s, sh_buf := realloc_buf a (newlen + 1) (sh_buf s)\<rparr>"
  have eq: "sdsMakeRoomFor a s addlen
      = (if \<not> can_alloc a (sizeof_sdshdr + newlen + 1) then None else Some s')"
    using False by (simp add: sdsMakeRoomFor_def sdsavail_def sdslen_def newlen_def s'_def Let_def)
  have ge: "sh_len s + addlen \<le> newlen" by (simp add: newlen_def)
  have len: "sh_len s < length (sh_buf s)" using assms by (simp add: sds_open_def)
  have "sds_open s'" "addlen \<le> sh_free s'" "sh_len s' = sh_len s" "content s' = content s"
    "sds_wf s \<longrightarrow> sds_wf s'"
    using ge len by (auto simp: s'_def sds_open_def content_def sds_wf_def take_realloc_buf nth_realloc_buf)
  then show thesis using eq oom room by (cases "can_alloc a (sizeof_sdshdr + newlen + 1)") auto
qed

section \<open>Effect of the operations\<close>

lemma sdsnewlen_yields [wf_intros]:
  "initlen \<le> length t \<Longrightarrow> yields a (take initlen t) (sdsnewlen a (Some t) initlen)"
  by (auto simp: sdsnewlen_def Let_def sds_wf_def sds_open_def content_def copy_at_def intro: yields_None)

lemma sdsnewlen_null_yields [wf_intros]: "yields a (replicate initlen NUL) (sdsnewlen a None initlen)"
  by (simp add: sdsnewlen_def Let_def sds_wf_def sds_open_def content_def yields_None
      del: replicate.simps replicate_Suc)

lemma sdsempty_yields [wf_intros]: "yields a '''' (sdsempty a)"
  using sdsnewlen_yields [of 0 "''''" a] by (simp add: sdsempty_def)

lemma sdsnew_yields [wf_intros]: "yields a (takeWhile (\<lambda>c. c \<noteq> NUL) t) (sdsnew a (Some t))"
  using sdsnewlen_yields [of "strlen t" t a]
  by (simp add: sdsnew_def take_strlen) (simp add: strlen_def length_takeWhile_le)

lemma sdsdup_yields [wf_intros]: "sds_wf s \<Longrightarrow> yields a (content s) (sdsdup a s)"
  using sdsnewlen_yields [of "sh_len s" "sh_buf s" a]
  by (simp add: sdsdup_def sdslen_def content_def sds_wf_def sds_open_def)

lemma sdscatlen_yields [wf_intros]:
  assumes "sds_wf s"
  shows "yields a (content s @ t) (sdscatlen a s t)"
proof -
  have "sds_open s" using assms by (simp add: sds_wf_def)
  then show ?thesis
  proof (cases rule: sdsMakeRoomFor_cases [where a = a and addlen = "length t"])
    case (oom n)
    then show ?thesis by (simp add: sdscatlen_def yields_None)
  next
    case (room s')
    from sds_openE [OF \<open>sds_open s'\<close>] obtain x r where
      b: "sh_buf s' = content s' @ x # r" "length r = sh_free s'" "length (content s') = sh_len s'" .
    have "(copy_at (sh_len s) t (sh_buf s'))[sh_len s + length t := NUL]
        = (content s @ t) @ NUL # drop (length t) r"
      using store_end [of t r "content s'" x] b room by simp
    then show ?thesis
      using b room sds_wfI [of _ "content s @ t" "drop (length t) r"]
      by (simp add: sdscatlen_def Let_def sdslen_def)
  qed
qed

lemma sdscat_yields [wf_intros]:
  "sds_wf s \<Longrightarrow> yields a (content s @ takeWhile (\<lambda>c. c \<noteq> NUL) t) (sdscat a s t)"
  by (simp add: sdscat_def take_strlen sdscatlen_yields)

lemma sdscatsds_yields [wf_intros]:
  "sds_wf s \<Longrightarrow> yields a (content s @ content t) (sdscatsds a s t)"
  by (simp add: sdscatsds_def sdslen_def content_def [of t, symmetric] sdscatlen_yields)

lemma overwrite:
  assumes "sds_open s" "length t \<le> sh_free s + sh_len s"
  shows "sds_wf (s\<lparr>sh_buf := (copy_at 0 t (sh_buf s))[length t := NUL], sh_len := length t,
      sh_free := sh_free s + sh_len s - length t\<rparr>)
    \<and> content (s\<lparr>sh_buf := (copy_at 0 t (sh_buf s))[length t := NUL], sh_len := length t,
      sh_free := sh_free s + sh_len s - length t\<rparr>) = t"
proof -
  obtain x r where "sh_buf s = x # r" "length r = sh_free s + sh_len s"
    using assms(1) by (cases "sh_buf s") (auto simp: sds_open_def)
  then show ?thesis
    using store_end [of t r "[]" x] assms(2)
    by (intro sds_wfI [of _ t "drop (length t) r"]) simp_all
qed

lemma sdscpylen_yields [wf_intros]:
  assumes "sds_wf s"
  shows "yields a t (sdscpylen a s t)"
proof (cases "sh_free s + sh_len s < length t")
  case False
  have "sds_open s" using assms by (simp add: sds_wf_def)
  with False show ?thesis
    by (simp add: sdscpylen_def Let_def) (rule overwrite, simp_all)
next
  case True
  have "sds_open s" using assms by (simp add: sds_wf_def)
  then show ?thesis
  proof (cases rule: sdsMakeRoomFor_cases [where a = a and addlen = "length t - sh_len s"])
    case (oom n)
    with True show ?thesis by (simp add: sdscpylen_def yields_None)
  next
    case (room s')
    with True show ?thesis
      using overwrite [of s' t] by (simp add: sdscpylen_def Let_def)
  qed
qed

lemma sdscpy_yields [wf_intros]:
  "sds_wf s \<Longrightarrow> yields a (takeWhile (\<lambda>c. c \<noteq> NUL) t) (sdscpy a s t)"
  by (simp add: sdscpy_def take_strlen sdscpylen_yields)

lemma sdsgrowzero_yields [wf_intros]:
  assumes "sds_wf s"
  shows "yields a (content s @ replicate (len - sh_len s) NUL) (sdsgrowzero a s len)"
proof (cases "len \<le> sh_len s")
  case True
  with assms show ?thesis by (simp add: sdsgrowzero_def)
next
  case False
  have "sds_open s" using assms by (simp add: sds_wf_def)
  then show ?thesis
  proof (cases rule: sdsMakeRoomFor_cases [where a = a and addlen = "len - sh_len s"])
    case (oom n)
    with False show ?thesis by (simp add: sdsgrowzero_def yields_None)
  next
    case (room s')
    from sds_openE [OF \<open>sds_open s'\<close>] obtain x r where
      b: "sh_buf s' = content s' @ x # r" "length r = sh_free s'" "length (content s') = sh_len s'" .
    have "copy_at (sh_len s) (replicate (len - sh_len s + 1) NUL) (sh_buf s')
        = (content s @ replicate (len - sh_len s) NUL) @ NUL # drop (len - sh_len s) r"
      using b room by (simp add: copy_at_def replicate_append_same [symmetric] del: replicate_append_same)
    with False show ?thesis
      using b room sds_wfI [of _ "content s @ replicate (len - sh_len s) NUL" "drop (len - sh_len s) r"]
      by (simp add: sdsgrowzero_def Let_def del: replicate_Suc)
  qed
qed

lemma sdsMakeRoomFor_yields [wf_intros]:
  assumes "sds_wf s" shows "yields a (content s) (sdsMakeRoomFor a s n)"
proof -
  have "sds_open s" using assms by (simp add: sds_wf_def)
  then show ?thesis
    by (cases rule: sdsMakeRoomFor_cases [where a = a and addlen = n]) (use assms in \<open>auto intro: yields_None\<close>)
qed

lemma sdsRemoveFreeSpace_yields [wf_intros]:
  "sds_wf s \<Longrightarrow> yields a (content s) (sdsRemoveFreeSpace a s)"
  by (auto simp: sdsRemoveFreeSpace_def sds_wf_def sds_open_def content_def take_realloc_buf
      nth_realloc_buf intro: yields_None)

lemma sdsclear_wf [wf_intros]: "sds_wf s \<Longrightarrow> sds_wf (sdsclear s)"
  by (cases "sh_buf s") (auto simp: sdsclear_def sds_wf_def sds_open_def)

lemma content_sdsclear [abs_simps]: "content (sdsclear s) = []"
  by (simp add: sdsclear_def content_def)

lemma sdsupdatelen_wf [wf_intros]:
  assumes wf: "sds_wf s" shows "sds_wf (sdsupdatelen s)"
proof -
  have "NUL \<in> set (sh_buf s)"
    using wf nth_mem [of "sh_len s" "sh_buf s"] by (simp add: sds_wf_def sds_open_def)
  then have lt: "strlen (sh_buf s) < length (sh_buf s)" by (rule strlen_less)
  moreover have "sh_buf s ! strlen (sh_buf s) = NUL"
    using lt nth_length_takeWhile [of "\<lambda>c. c \<noteq> NUL" "sh_buf s"] by (simp add: strlen_def)
  ultimately show ?thesis using wf by (auto simp: sdsupdatelen_def Let_def sds_wf_def sds_open_def)
qed

lemma content_sdsupdatelen [abs_simps]:
  "content (sdsupdatelen s) = takeWhile (\<lambda>c. c \<noteq> NUL) (sh_buf s)"
  by (simp add: content_def sdsupdatelen_def Let_def take_strlen)

lemma sdsIncrLen_wf [wf_intros]:
  "sds_open s \<Longrightarrow> sdsIncrLen s incr = Some s' \<Longrightarrow> sds_wf s' \<and> int (sh_len s') = int (sh_len s) + incr"
  by (auto simp: sdsIncrLen_def Let_def sds_wf_def sds_open_def split: if_splits)

lemma sdsAllocSize_wf: "sds_open s \<Longrightarrow> sdsAllocSize s = sizeof_sdshdr + length (sh_buf s)"
  by (simp add: sdsAllocSize_def sds_open_def)

section \<open>Decimal conversion\<close>

lemma length_reverse_loop [simp]: "length (reverse_loop xs s p) = length xs"
  by (induction xs s p rule: reverse_loop.induct) (subst reverse_loop.simps, simp)

lemma nth_reverse_loop:
  "p < length xs \<Longrightarrow> i < length xs \<Longrightarrow>
   reverse_loop xs s p ! i = (if s \<le> i \<and> i \<le> p then xs ! (s + p - i) else xs ! i)"
proof (induction xs s p rule: reverse_loop.induct)
  case (1 xs s p)
  show ?case
  proof (cases "s < p")
    case True
    then have "reverse_loop xs s p ! i
        = (if s + 1 \<le> i \<and> i \<le> p - 1 then (xs[s := xs ! p, p := xs ! s]) ! (s + 1 + (p - 1) - i)
           else (xs[s := xs ! p, p := xs ! s]) ! i)"
      using 1 by (simp add: reverse_loop.simps [of xs s p])
    with True 1(2,3) show ?thesis by (auto simp: nth_list_update)
  next
    case False
    then have "s \<le> i \<and> i \<le> p \<Longrightarrow> s + p - i = i" by auto
    with False show ?thesis by (auto simp: reverse_loop.simps [of xs s p])
  qed
qed

lemma reverse_loop_rev: "xs \<noteq> [] \<Longrightarrow> reverse_loop xs 0 (length xs - 1) = rev xs"
  by (rule nth_equalityI) (auto simp: nth_reverse_loop rev_nth Suc_diff_Suc)

lemma rev_ull_digits: "rev (ull_digits v) = dec v"
proof (induction v rule: less_induct)
  case (less v)
  show ?case
  proof (cases "v < 10")
    case False
    then have "v div 10 \<noteq> 0" by (simp add: div_eq_0_iff)
    with False less [of "v div 10"] show ?thesis by (simp add: ull_digits.simps [of v] dec.simps [of v])
  qed (simp add: ull_digits.simps [of v] dec.simps [of v])
qed

lemma ull_digits_nonempty [simp]: "ull_digits v \<noteq> []"
  by (simp add: ull_digits.simps [of v])

lemma sdsull2str_dec: "sdsull2str v = dec (unat v)"
  by (simp add: sdsull2str_def reverse_loop_rev rev_ull_digits del: One_nat_def)

lemma uint_sint64:
  fixes w :: "64 word"
  shows "uint w = (if sint w < 0 then sint w + 2 ^ 64 else sint w)"
proof -
  have "uint w = sint w mod 2 ^ 64" by (simp add: uint_sint take_bit_eq_mod)
  moreover have "- (2 ^ 63) \<le> sint w" "sint w < 2 ^ 63" using sint_ge [of w] sint_lt [of w] by simp_all
  ultimately show ?thesis
    using mod_pos_pos_trivial [of "sint w" "2 ^ 64"] mod_pos_pos_trivial [of "sint w + 2 ^ 64" "2 ^ 64"]
    by (auto simp: not_less)
qed

lemma abs_sint64:
  fixes w :: "64 word"
  shows "w <s 0 \<Longrightarrow> unat (- w) = nat (- sint w)" "\<not> w <s 0 \<Longrightarrow> unat w = nat (sint w)"
proof -
  assume "w <s 0"
  then have neg: "sint w < 0" by (simp add: word_sless_alt)
  have "uint (- w) = - uint w mod 2 ^ 64" by (simp add: uint_word_ariths)
  also have "\<dots> = (- uint w + 2 ^ 64) mod 2 ^ 64" by simp
  also have "- uint w + 2 ^ 64 = - sint w" using neg by (simp add: uint_sint64)
  also have "(- sint w) mod 2 ^ 64 = - sint w"
    using neg sint_ge [of w] by (intro mod_pos_pos_trivial) simp_all
  finally show "unat (- w) = nat (- sint w)" by (simp add: unat_eq_nat_uint)
next
  assume "\<not> w <s 0"
  then show "unat w = nat (sint w)" by (simp add: unat_eq_nat_uint uint_sint64 word_sless_alt)
qed

lemma reverse_loop_snoc: "reverse_loop (xs @ [c]) 0 (length xs) = c # rev xs"
  using reverse_loop_rev [of "xs @ [c]"] by simp

lemma sdsll2str_dec: "sdsll2str val = dec_int (sint val)"
  by (cases "val <s 0")
     (auto simp: sdsll2str_def Let_def reverse_loop_rev reverse_loop_snoc rev_ull_digits abs_sint64
       dec_int_def word_sless_alt simp del: One_nat_def)

lemma length_dec_sint64: "length (dec_int (sint (v :: 64 word))) \<le> 20"
proof -
  have "\<bar>sint v\<bar> \<le> 2 ^ 63" using sint_ge [of v] sint_lt [of v] by simp
  then have "nat \<bar>sint v\<bar> < 10 ^ Suc 18" by simp
  then have "length (dec (nat \<bar>sint v\<bar>)) \<le> 19" using length_dec_le [of _ 18] by simp
  then show ?thesis by (auto simp: dec_int_def)
qed

text \<open>\<open>sdsll2str\<close>, which converts by repeated division and an in-place reversal, writes the
  decimal numeral of every signed 64-bit value, the most negative one included, in at most 20
  characters, so the 21-byte buffers of its callers hold it with its terminator.\<close>

theorem sdsll2str_decimal:
  "sdsll2str val = dec_int (sint val) \<and> length (sdsll2str val) < 21"
  using length_dec_sint64 [of val] by (simp add: sdsll2str_dec)

section \<open>Formatted appends\<close>

text \<open>What \<open>sdscatfmt\<close> is specified to append.\<close>

definition fmt_arg :: "char \<Rightarrow> sdsarg list \<Rightarrow> (string \<times> sdsarg list) option" where
  "fmt_arg c args =
     (case args of
        [] \<Rightarrow> None
      | arg # rest \<Rightarrow> map_option (\<lambda>t. (t, rest))
          (case arg of
             ArgStr t \<Rightarrow> if c = CHR ''s'' then Some (takeWhile (\<lambda>c. c \<noteq> NUL) t) else None
           | ArgSds t \<Rightarrow> if c = CHR ''S'' then Some (content t) else None
           | ArgInt w \<Rightarrow> if c = CHR ''i'' then Some (dec_int (sint w)) else None
           | ArgLL w \<Rightarrow> if c = CHR ''I'' then Some (dec_int (sint w)) else None
           | ArgUInt w \<Rightarrow> if c = CHR ''u'' then Some (dec (unat w)) else None
           | ArgULL w \<Rightarrow> if c = CHR ''U'' then Some (dec (unat w)) else None
           | ArgSize w \<Rightarrow> if c = CHR ''T'' then Some (dec (unat w)) else None))"

fun fmt_text :: "string \<Rightarrow> sdsarg list \<Rightarrow> string option" where
  "fmt_text [] args = Some []"
| "fmt_text (c # f) args =
     (if c \<noteq> CHR ''%'' then map_option ((#) c) (fmt_text f args)
      else case f of
        [] \<Rightarrow> None
      | d # f' \<Rightarrow>
          if d \<in> set fmt_specifiers
          then do { (t, rest) \<leftarrow> fmt_arg d args; u \<leftarrow> fmt_text f' rest; Some (t @ u) }
          else map_option ((#) d) (fmt_text f' args))"

lemma catfmt_arg_spec: "catfmt_arg c args = fmt_arg c args"
proof (cases args)
  case (Cons x rest)
  have "sint (scast w :: 64 word) = sint w" for w :: "32 word"
    by (simp add: sint_up_scast is_up)
  moreover have "unat (ucast w :: 64 word) = unat w" for w :: "32 word"
  proof -
    have "unat w < 2 ^ LENGTH(32)" by (rule unsigned_less)
    then show ?thesis by (simp add: unsigned_ucast_eq take_bit_nat_eq_self)
  qed
  ultimately show ?thesis using Cons
    by (cases x) (auto simp: catfmt_arg_def fmt_arg_def take_strlen sdslen_def content_def
        sdsll2str_dec sdsull2str_dec simp del: unsigned_ucast_eq)
qed (simp add: catfmt_arg_def fmt_arg_def)

lemma catfmt_put_cases:
  assumes "sds_open s"
  obtains (oom) n where "\<not> can_alloc a n" "catfmt_put a s (sh_len s) t = None"
  | (put) s' where "catfmt_put a s (sh_len s) t = Some (s', sh_len s')" "sds_open s'"
      "content s' = content s @ t"
proof -
  let ?g = "if sh_free s < length t then sdsMakeRoomFor a s (length t) else Some s"
  have put1: thesis
    if g: "?g = Some s1" and s1: "sds_open s1" "length t \<le> sh_free s1" "sh_len s1 = sh_len s"
      "content s1 = content s" for s1
  proof (rule put)
    let ?s2 = "s1\<lparr>sh_buf := copy_at (sh_len s) t (sh_buf s1), sh_len := sh_len s1 + length t,
        sh_free := sh_free s1 - length t\<rparr>"
    show "catfmt_put a s (sh_len s) t = Some (?s2, sh_len ?s2)"
      using g s1(3) by (simp add: catfmt_put_def Let_def)
    show "sds_open ?s2" "content ?s2 = content s @ t"
      using s1 assms by (auto simp: sds_open_def content_def copy_at_def)
  qed
  show thesis
  proof (cases "sh_free s < length t")
    case True
    show thesis
    proof (cases rule: sdsMakeRoomFor_cases [OF assms, where a = a and addlen = "length t"])
      case 1
      with True oom show thesis by (simp add: catfmt_put_def)
    next
      case (2 s1)
      with True put1 [of s1] show thesis by simp
    qed
  qed (use assms put1 [of s] in simp)
qed

lemma catfmt_char_open:
  assumes "sds_open s" "0 < sh_free s"
  shows "\<exists>s'. catfmt_char s (sh_len s) c = (s', sh_len s') \<and> sds_open s' \<and> content s' = content s @ [c]"
  using assms by (auto simp: catfmt_char_def sds_open_def content_def take_Suc_conv_app_nth)

definition yields_open :: "allocator \<Rightarrow> string \<Rightarrow> (sdshdr \<times> nat) option \<Rightarrow> bool" where
  "yields_open a c r = (case r of None \<Rightarrow> (\<exists>n. \<not> can_alloc a n)
     | Some (s, i) \<Rightarrow> sds_open s \<and> i = sh_len s \<and> content s = c)"

lemma ensure_room_cases:
  assumes "sds_open s"
  obtains (oom) n where "\<not> can_alloc a n" "sh_free s = 0" "sdsMakeRoomFor a s 1 = None"
  | (room) s' where "(if sh_free s = 0 then sdsMakeRoomFor a s 1 else Some s) = Some s'"
      "sds_open s'" "0 < sh_free s'" "sh_len s' = sh_len s" "content s' = content s"
proof (cases "sh_free s = 0")
  case True
  show thesis
    by (cases rule: sdsMakeRoomFor_cases [OF assms, where a = a and addlen = 1])
       (use True oom room in \<open>auto simp: Suc_le_eq\<close>)
next
  case False
  with assms room [of s] show thesis by simp
qed

lemma catfmt_loop_text:
  "sds_open s \<Longrightarrow> fmt_text f args = Some t \<Longrightarrow>
   yields_open a (content s @ t) (catfmt_loop a s (sh_len s) f args)"
proof (induction f args arbitrary: s t rule: fmt_text.induct)
  case (1 args)
  then show ?case by (simp add: yields_open_def)
next
  case (2 c f args)
  from \<open>sds_open s\<close> show ?case
  proof (cases rule: ensure_room_cases [where a = a])
    case (oom n)
    then show ?thesis by (auto simp: yields_open_def)
  next
    case (room s1)
    have chr: "\<exists>s'. catfmt_char s1 (sh_len s) d = (s', sh_len s') \<and> sds_open s' \<and>
        content s' = content s @ [d]" for d
      using catfmt_char_open [of s1 d] room by simp
    show ?thesis
    proof (cases "c = CHR ''%''")
      case False
      from 2(5) False obtain u where u: "fmt_text f args = Some u" "t = c # u" by auto
      from chr [of c] obtain s' where s': "catfmt_char s1 (sh_len s) c = (s', sh_len s')"
        "sds_open s'" "content s' = content s @ [c]" by auto
      from 2(1) [OF False s'(2) u(1)] False room u(2) s' show ?thesis by simp
    next
      case True
      with 2(5) obtain d f' where f: "f = d # f'" by (cases f) auto
      show ?thesis
      proof (cases "d \<in> set fmt_specifiers")
        case no: False
        with 2(5) True f obtain u where u: "fmt_text f' args = Some u" "t = d # u" by auto
        from chr [of d] obtain s' where s': "catfmt_char s1 (sh_len s) d = (s', sh_len s')"
          "sds_open s'" "content s' = content s @ [d]" by auto
        have "yields_open a (content s' @ u) (catfmt_loop a s' (sh_len s') f' args)"
          using 2(3) [of d f'] True f no s'(2) u(1) by simp
        with True f no room u(2) s' show ?thesis by simp
      next
        case yes: True
        from 2(5) True f yes obtain v rest u where
          u: "fmt_arg d args = Some (v, rest)" "fmt_text f' rest = Some u" "t = v @ u"
          by (auto simp del: set_simps split: bind_splits)
        show ?thesis
        proof (cases rule: catfmt_put_cases [OF \<open>sds_open s1\<close>, where a = a and t = v])
          case (1 n)
          with True f yes room u(1) show ?thesis by (auto simp: yields_open_def catfmt_arg_spec)
        next
          case (2 s')
          have "yields_open a (content s' @ u) (catfmt_loop a s' (sh_len s') f' rest)"
            using "2.IH"(2) [of d f' "(v, rest)" v rest s' u] True f yes u 2 by simp
          with True f yes room u 2 show ?thesis by (simp add: catfmt_arg_spec)
        qed
      qed
    qed
  qed
qed

lemma close_open:
  assumes "sds_open s"
  shows "sds_wf (s\<lparr>sh_buf := (sh_buf s)[sh_len s := NUL]\<rparr>)
    \<and> content (s\<lparr>sh_buf := (sh_buf s)[sh_len s := NUL]\<rparr>) = content s"
  using assms by (simp add: sds_wf_def sds_open_def content_def)

lemma sdscatfmt_yields [wf_intros]:
  assumes "sds_wf s" "fmt_text (takeWhile (\<lambda>c. c \<noteq> NUL) fmt) args = Some t"
  shows "yields a (content s @ t) (sdscatfmt a s fmt args)"
proof -
  have "yields_open a (content s @ t)
      (catfmt_loop a s (sh_len s) (takeWhile (\<lambda>c. c \<noteq> NUL) fmt) args)"
    using assms by (intro catfmt_loop_text) (simp_all add: sds_wf_def)
  then show ?thesis
    by (cases "catfmt_loop a s (sh_len s) (takeWhile (\<lambda>c. c \<noteq> NUL) fmt) args")
       (auto simp: sdscatfmt_def sdslen_def take_strlen yields_open_def yields_def close_open)
qed

text \<open>\<open>sdscatfmt\<close> appends exactly the text its format and arguments denote (\<open>fmt_text\<close>: C
  strings, sds strings, signed and unsigned numbers, other percent escapes verbatim), keeping the
  string well formed across every reallocation, unless memory runs out.\<close>

theorem sdscatfmt_appends_text:
  assumes "sds_wf s" "fmt_text (takeWhile (\<lambda>c. c \<noteq> NUL) fmt) args = Some t"
  shows "yields a (content s @ t) (sdscatfmt a s fmt args)"
  using assms by (rule sdscatfmt_yields)

theorem sdscatfmt_appends_text_witness:
  "yields \<lparr>can_alloc = \<lambda>n. n \<le> 100, fresh = \<lambda>i. CHR ''?''\<rparr> ''x=-12 ab%''
     (sdscatfmt \<lparr>can_alloc = \<lambda>n. n \<le> 100, fresh = \<lambda>i. CHR ''?''\<rparr>
        \<lparr>sh_len = 1, sh_free = 0, sh_buf = [CHR ''x'', NUL]\<rparr>
        ''=%i %s%%'' [ArgInt (-12), ArgStr ''ab''])"
proof -
  have d: "dec 12 = ''12''" by (simp add: dec.simps digit_char_def) code_simp
  have "fmt_text (takeWhile (\<lambda>c. c \<noteq> NUL) ''=%i %s%%'') [ArgInt (-12), ArgStr ''ab'']
      = Some ''=-12 ab%''"
    by (simp add: fmt_arg_def dec_int_def d)
  then show ?thesis
    using sdscatfmt_appends_text [of "\<lparr>sh_len = 1, sh_free = 0, sh_buf = [CHR ''x'', NUL]\<rparr>"
      "''=%i %s%%''" "[ArgInt (-12), ArgStr ''ab'']" "''=-12 ab%''"
      "\<lparr>can_alloc = \<lambda>n. n \<le> 100, fresh = \<lambda>i. CHR ''?''\<rparr>"]
    by (simp add: sds_wf_def sds_open_def content_def)
qed

lemma vprintf_loop_out:
  "NUL \<notin> set out \<Longrightarrow> 2 \<le> n \<Longrightarrow>
   (case vprintf_loop a out n of None \<Rightarrow> \<exists>n. \<not> can_alloc a n
    | Some buf \<Rightarrow> takeWhile (\<lambda>c. c \<noteq> NUL) buf = out)"
proof (induction a out n rule: vprintf_loop.induct)
  case (1 a out n)
  let ?b = "vsnprintf_buf n out ((fresh_bytes a n)[n - 2 := NUL])"
  consider "\<not> can_alloc a n" | "can_alloc a n" "?b ! (n - 2) \<noteq> NUL" | "can_alloc a n" "?b ! (n - 2) = NUL"
    by blast
  then show ?case
  proof cases
    case 1
    then show ?thesis by (subst vprintf_loop.simps) auto
  next
    case 2
    then show ?thesis using "1.IH" [OF _ refl] "1.prems" by (subst vprintf_loop.simps) (simp add: Let_def)
  next
    case 3
    have "length out \<le> n - 2"
    proof (rule ccontr)
      assume "\<not> length out \<le> n - 2"
      then have "n - 2 < length (take (n - 1) out)" "n - 2 < length out" using "1.prems" by auto
      then have "?b ! (n - 2) = out ! (n - 2)" by (simp add: vsnprintf_buf_def copy_at_def nth_append)
      with 3 \<open>n - 2 < length out\<close> "1.prems" show False by (metis nth_mem)
    qed
    then have "take (n - 1) out = out" using "1.prems" by simp
    then have "takeWhile (\<lambda>c. c \<noteq> NUL) ?b = out"
      using "1.prems"(1) by (auto simp: vsnprintf_buf_def copy_at_def takeWhile_append)
    with 3 show ?thesis by (subst vprintf_loop.simps) (simp add: Let_def)
  qed
qed

lemma sdscatvprintf_yields [wf_intros]:
  assumes "sds_wf s" "NUL \<notin> set out"
  shows "yields a (content s @ out) (sdscatvprintf a s out)"
proof (cases "vprintf_loop a out 16")
  case None
  then show ?thesis using vprintf_loop_out [OF assms(2), of 16 a] by (auto simp: sdscatvprintf_def yields_def)
next
  case (Some buf)
  then show ?thesis using vprintf_loop_out [OF assms(2), of 16 a] sdscat_yields [OF assms(1), of a buf]
    by (simp add: sdscatvprintf_def)
qed

text \<open>\<open>sdscatvprintf\<close> grows its scratch buffer until the formatted text fits: it terminates
  and appends the whole text, however long, unless memory runs out.\<close>

theorem sdscatvprintf_appends:
  assumes "sds_wf s" "NUL \<notin> set out"
  shows "yields a (content s @ out) (sdscatvprintf a s out)"
  using assms by (rule sdscatvprintf_yields)

theorem sdscatvprintf_appends_witness:
  "yields \<lparr>can_alloc = \<lambda>n. n \<le> 100, fresh = \<lambda>i. CHR ''?''\<rparr> ''x = 12345678901234567890''
     (sdscatvprintf \<lparr>can_alloc = \<lambda>n. n \<le> 100, fresh = \<lambda>i. CHR ''?''\<rparr>
        \<lparr>sh_len = 1, sh_free = 0, sh_buf = [CHR ''x'', NUL]\<rparr> '' = 12345678901234567890'')"
  using sdscatvprintf_appends [of "\<lparr>sh_len = 1, sh_free = 0, sh_buf = [CHR ''x'', NUL]\<rparr>"
      "'' = 12345678901234567890''" "\<lparr>can_alloc = \<lambda>n. n \<le> 100, fresh = \<lambda>i. CHR ''?''\<rparr>"]
  by (simp add: sds_wf_def sds_open_def content_def)

section \<open>In-place transformations\<close>

lemma trim_left_spec:
  assumes "n \<le> length b" "sp \<le> n"
  shows "trim_left hit b (int n - 1) (int sp)
       = int (sp + length (takeWhile hit (drop sp (take n b))))"
  using assms(2)
proof (induction "n - sp" arbitrary: sp)
  case 0
  then show ?case by (simp add: trim_left.simps)
next
  case (Suc k)
  then have "sp < n" by simp
  with assms(1) have d: "drop sp (take n b) = b ! sp # drop (Suc sp) (take n b)"
    by (simp add: Cons_nth_drop_Suc [symmetric])
  have "trim_left hit b (int n - 1) (int sp)
      = (if hit (b ! sp) then trim_left hit b (int n - 1) (int (Suc sp)) else int sp)"
    using \<open>sp < n\<close> by (subst trim_left.simps) (simp add: add.commute)
  moreover have "k = n - Suc sp" "Suc sp \<le> n" using Suc.hyps(2) \<open>sp < n\<close> by simp_all
  ultimately show ?case using Suc.hyps(1) [of "Suc sp"] d by simp
qed

lemma trim_right_spec:
  assumes "Suc e \<le> length b"
  shows "trim_right hit b 0 (int e)
       = int (e - length (takeWhile hit (rev (drop 1 (take (Suc e) b)))))"
  using assms
proof (induction e)
  case 0
  then show ?case by (simp add: trim_right.simps)
next
  case (Suc e)
  have t: "take (Suc (Suc e)) b = take (Suc e) b @ [b ! Suc e]"
    using Suc.prems by (simp add: take_Suc_conv_app_nth)
  have "trim_right hit b 0 (int (Suc e))
      = (if hit (b ! Suc e) then trim_right hit b 0 (int e) else int (Suc e))"
    by (subst trim_right.simps) (simp add: nat_add_distrib)
  moreover have "drop 1 (take (Suc (Suc e)) b) = drop 1 (take (Suc e) b) @ [b ! Suc e]"
    using Suc.prems by (subst t) simp
  ultimately show ?case using Suc by simp
qed

lemma length_map_prefix [simp]: "length (map_prefix g n b) = length b"
  by (induction n) (simp_all add: map_prefix_def)

lemma map_prefix_map: "n \<le> length b \<Longrightarrow> map_prefix g n b = map g (take n b) @ drop n b"
proof (induction n)
  case 0
  then show ?case by (simp add: map_prefix_def)
next
  case (Suc n)
  then have ih: "map_prefix g n b = map g (take n b) @ drop n b" by simp
  have d: "drop n b = b ! n # drop (Suc n) b" using Suc.prems by (simp add: Cons_nth_drop_Suc)
  have "map_prefix g (Suc n) b = (map_prefix g n b)[n := g (map_prefix g n b ! n)]"
    by (simp add: map_prefix_def)
  also have "\<dots> = map g (take n b) @ g (b ! n) # drop (Suc n) b"
    using Suc.prems by (simp add: ih d list_update_append nth_append)
  finally show ?case using Suc.prems by (simp add: take_Suc_conv_app_nth)
qed

definition strip :: "('a \<Rightarrow> bool) \<Rightarrow> 'a list \<Rightarrow> 'a list" where
  "strip P xs = rev (dropWhile P (rev (dropWhile P xs)))"

lemma strip_decomp:
  assumes "\<exists>x\<in>set xs. \<not> P x"
  obtains p m q where "xs = p @ m @ q" "m \<noteq> []" "strip P xs = m"
    "takeWhile P xs = p" "takeWhile P (rev xs) = rev q"
proof -
  define p d where "p = takeWhile P xs" and "d = dropWhile P xs"
  have xs: "xs = p @ d" by (simp add: p_def d_def)
  have d: "d \<noteq> []" "\<not> P (hd d)"
    using assms hd_dropWhile [of P xs] by (auto simp: d_def dropWhile_eq_Nil_conv)
  define m q where "m = rev (dropWhile P (rev d))" and "q = rev (takeWhile P (rev d))"
  have "rev d = takeWhile P (rev d) @ dropWhile P (rev d)" by simp
  then have dq: "d = m @ q" unfolding m_def q_def by (metis rev_append rev_rev_ident)
  have ex: "\<exists>x\<in>set (rev d). \<not> P x" using d by (metis hd_in_set set_rev)
  then have "m \<noteq> []" by (auto simp: m_def dropWhile_eq_Nil_conv)
  moreover have "takeWhile P (rev xs) = rev q" using ex by (auto simp: xs q_def takeWhile_append1)
  ultimately show thesis
  proof (intro that [of p m q])
    show "strip P xs = m" by (simp add: strip_def m_def d_def)
    show "takeWhile P xs = p" by (simp add: p_def)
  qed (use xs dq in simp_all)
qed

lemma takeWhile_rev_tl:
  assumes "\<exists>x\<in>set xs. \<not> P x"
  shows "takeWhile P (rev (tl xs)) = takeWhile P (rev xs)"
proof (cases xs)
  case (Cons y ys)
  with assms show ?thesis by (cases "\<exists>x\<in>set ys. \<not> P x") (auto simp: takeWhile_append)
qed simp

lemma shrink_front:
  assumes "sds_open s" "k + n \<le> sh_len s"
  shows "sds_wf (s\<lparr>sh_buf := (if k \<noteq> 0 then copy_at 0 (subrange k (k + n) (sh_buf s)) (sh_buf s)
        else sh_buf s)[n := NUL], sh_free := sh_free s + (sh_len s - n), sh_len := n\<rparr>)
    \<and> content (s\<lparr>sh_buf := (if k \<noteq> 0 then copy_at 0 (subrange k (k + n) (sh_buf s)) (sh_buf s)
        else sh_buf s)[n := NUL], sh_free := sh_free s + (sh_len s - n), sh_len := n\<rparr>)
      = take n (drop k (content s))"
  using assms by (auto simp: sds_wf_def sds_open_def content_def copy_at_def subrange_def drop_take min_def)

lemma sdstrim_strip:
  assumes "sds_wf s"
  shows "sds_wf (sdstrim s cset) \<and> content (sdstrim s cset) = strip (strchr_hit cset) (content s)"
proof -
  let ?P = "strchr_hit cset" and ?b = "sh_buf s" and ?n = "sh_len s"
  have op: "sds_open s" and ln: "?n < length ?b" and tk: "take ?n ?b = content s"
    using assms by (simp_all add: sds_wf_def sds_open_def content_def)
  have lc: "length (content s) = ?n" using op by (rule length_content)
  define sp where "sp = length (takeWhile ?P (content s))"
  have sp: "trim_left ?P ?b (int ?n - 1) 0 = int sp"
    using trim_left_spec [of ?n ?b 0 ?P] ln by (simp add: tk sp_def)
  define ep where "ep = trim_right ?P ?b 0 (int ?n - 1)"
  show ?thesis
  proof (cases "\<exists>x\<in>set (content s). \<not> ?P x")
    case False
    then have dt: "dropWhile ?P (content s) = []" "takeWhile ?P (content s) = content s"
      unfolding dropWhile_eq_Nil_conv takeWhile_eq_all_conv by blast+
    have all: "strip ?P (content s) = []" "sp = ?n"
      by (simp_all only: strip_def sp_def dt lc rev.simps dropWhile.simps)
    have "ep < int ?n"
      unfolding ep_def using ln trim_right_spec [of "?n - 1" ?b ?P]
      by (cases ?n) (auto simp: trim_right.simps)
    then show ?thesis
      using shrink_front [OF op, of sp 0] all sp
      by (auto simp: sdstrim_def sdslen_def Let_def ep_def [symmetric])
  next
    case True
    then obtain p m q where c: "content s = p @ m @ q" "m \<noteq> []" "strip ?P (content s) = m"
      "takeWhile ?P (content s) = p" "takeWhile ?P (rev (content s)) = rev q"
      by (rule strip_decomp)
    then have n: "?n = length p + length m + length q" "0 < length m" using lc by auto
    then have n0: "0 < ?n" by simp
    have "ep = int (?n - 1 - length q)"
      unfolding ep_def using n0 ln trim_right_spec [of "?n - 1" ?b ?P] takeWhile_rev_tl [OF True]
      by (simp add: tk c(5) drop_Suc of_nat_diff)
    then have ep: "ep - int sp + 1 = int (length m)" using n by (simp add: sp_def c(4) of_nat_diff)
    have le: "sp + length m \<le> ?n" using n by (simp add: sp_def c(4))
    have m: "take (length m) (drop sp (content s)) = strip ?P (content s)"
      by (simp only: c(3) sp_def c(4)) (simp add: c(1))
    have "int sp \<le> ep" using ep n(2) by linarith
    then have len_m: "(if ep < int sp then 0 else nat (ep - int sp + 1)) = length m" using ep by simp
    have "sdstrim s cset = s\<lparr>sh_buf := (if sp \<noteq> 0 then copy_at 0 (subrange sp (sp + length m) ?b) ?b
        else ?b)[length m := NUL], sh_free := sh_free s + (?n - length m), sh_len := length m\<rparr>"
      by (simp only: sdstrim_def sdslen_def Let_def sp ep_def [symmetric] len_m nat_int) simp
    then show ?thesis using shrink_front [OF op le] m by simp
  qed
qed

text \<open>The slice \<open>sdsrange\<close> keeps: inclusive bounds, negative ones counted from the end.\<close>

definition clamp_index :: "nat \<Rightarrow> int \<Rightarrow> nat" where
  "clamp_index n i = nat (if i < 0 then int n + i else i)"

definition slice_spec :: "string \<Rightarrow> int \<Rightarrow> int \<Rightarrow> string" where
  "slice_spec xs i j = subrange (clamp_index (length xs) i) (Suc (clamp_index (length xs) j)) xs"

lemma sdsrange_eq:
  fixes i j :: int
  assumes "sds_wf s" "0 < sh_len s"
  defines "k \<equiv> \<lambda>i. nat (if i < 0 then int (sh_len s) + i else i)"
  defines "n \<equiv> min (sh_len s) (Suc (k j)) - k i"
  shows "sdsrange s i j = s\<lparr>sh_buf := (if k i \<noteq> 0 \<and> n \<noteq> 0
      then copy_at 0 (subrange (k i) (k i + n) (sh_buf s)) (sh_buf s) else sh_buf s)[n := NUL],
      sh_free := sh_free s + (sh_len s - n), sh_len := n\<rparr>"
proof -
  define st en where "st = int (k i)" and "en = int (k j)"
  have st: "(if i < 0 then (if int (sh_len s) + i < 0 then 0 else int (sh_len s) + i) else i) = st"
    and en: "(if j < 0 then (if int (sh_len s) + j < 0 then 0 else int (sh_len s) + j) else j) = en"
    by (auto simp: st_def en_def k_def)
  have st0: "0 \<le> st" "0 \<le> en" by (simp_all add: st_def en_def)
  have n: "int n = (if st > en then 0 else if st \<ge> int (sh_len s) then 0
      else if en \<ge> int (sh_len s) then int (sh_len s) - st else en - st + 1)"
    by (auto simp: n_def st_def en_def min_def of_nat_diff)
  have ki: "k i = nat st" by (simp add: st_def)
  have "sdsrange s i j = (let (st, newlen) = (if st > en then (0, 0) else (st, int n));
      buf = (if st \<noteq> 0 \<and> newlen \<noteq> 0
        then copy_at 0 (subrange (nat st) (nat st + nat newlen) (sh_buf s)) (sh_buf s) else sh_buf s)
      in s\<lparr>sh_buf := buf[nat newlen := NUL], sh_free := sh_free s + (sh_len s - nat newlen),
           sh_len := nat newlen\<rparr>)"
    using assms(2) st0 unfolding sdsrange_def sdslen_def Let_def st en n
    by (cases "en < st"; cases "int (sh_len s) \<le> st"; cases "int (sh_len s) \<le> en") simp_all
  moreover have "en < st \<Longrightarrow> n = 0" using n by simp
  ultimately show ?thesis using st0 by (cases "en < st") (simp_all add: Let_def ki)
qed

lemma sdsrange_slice:
  assumes "sds_wf s"
  shows "sds_wf (sdsrange s i j) \<and> content (sdsrange s i j) = slice_spec (content s) i j"
proof (cases "sh_len s = 0")
  case True
  with assms show ?thesis by (simp add: sdsrange_def sdslen_def content_def slice_spec_def subrange_def)
next
  case False
  have op: "sds_open s" using assms by (simp add: sds_wf_def)
  let ?k = "\<lambda>i. clamp_index (sh_len s) i" and ?n = "min (sh_len s) (Suc (clamp_index (sh_len s) j)) - clamp_index (sh_len s) i"
  have eq: "sdsrange s i j = s\<lparr>sh_buf := (if ?k i \<noteq> 0 \<and> ?n \<noteq> 0
      then copy_at 0 (subrange (?k i) (?k i + ?n) (sh_buf s)) (sh_buf s) else sh_buf s)[?n := NUL],
      sh_free := sh_free s + (sh_len s - ?n), sh_len := ?n\<rparr>"
    using sdsrange_eq [OF assms, of i j] False by (simp add: clamp_index_def)
  show ?thesis
  proof (cases "?n = 0")
    case True
    then have "slice_spec (content s) i j = []"
      using length_content [OF op] by (auto simp: slice_spec_def subrange_def min_def split: if_splits)
    with True show ?thesis using shrink_front [OF op, of 0 0] eq by simp
  next
    case nz: False
    then have "?k i + ?n \<le> sh_len s" by simp
    moreover have "take ?n (drop (?k i) (content s)) = slice_spec (content s) i j"
      using length_content [OF op] by (auto simp: slice_spec_def subrange_def min_def)
    ultimately show ?thesis using shrink_front [OF op, of "?k i" ?n] eq nz by simp
  qed
qed

lemma sdstolower_spec: "sds_wf s \<Longrightarrow> sds_wf (sdstolower s) \<and> content (sdstolower s) = map tolower (content s)"
  by (simp add: sdstolower_def sds_wf_def sds_open_def content_def sdslen_def map_prefix_map nth_append)

lemma sdstoupper_spec: "sds_wf s \<Longrightarrow> sds_wf (sdstoupper s) \<and> content (sdstoupper s) = map toupper (content s)"
  by (simp add: sdstoupper_def sds_wf_def sds_open_def content_def sdslen_def map_prefix_map nth_append)

lemma memcmp_zero:
  "n \<le> length xs \<Longrightarrow> n \<le> length ys \<Longrightarrow> memcmp xs ys n = 0 \<longleftrightarrow> take n xs = take n ys"
proof (induction xs ys n rule: memcmp.induct)
  case (2 xs ys n)
  then show ?case by (cases xs; cases ys) (auto simp: char_val_def)
qed simp

lemma sdscmp_zero_iff:
  assumes "sds_wf s1" "sds_wf s2"
  shows "sdscmp s1 s2 = 0 \<longleftrightarrow> content s1 = content s2"
proof -
  have l: "length (content s1) = sh_len s1" "length (content s2) = sh_len s2"
    "sh_len s1 \<le> length (sh_buf s1)" "sh_len s2 \<le> length (sh_buf s2)"
    using assms by (simp_all add: sds_wf_def length_content sds_open_def)
  show ?thesis
  proof (cases "sh_len s1 = sh_len s2")
    case True
    then show ?thesis
      using l memcmp_zero [of "sh_len s2" "sh_buf s1" "sh_buf s2"]
      by (auto simp: sdscmp_def sdslen_def Let_def content_def)
  next
    case False
    then have "content s1 \<noteq> content s2" using l by metis
    with False show ?thesis by (auto simp: sdscmp_def sdslen_def Let_def)
  qed
qed

section \<open>The interface of a string store and its runs\<close>

text \<open>
  A store whose operations may fail for a reason of their own (\<open>excuse\<close>) and otherwise act on
  the abstract value as \<open>astep\<close> does. Runs of such a store refine runs of the abstract value.
\<close>

locale fallible_store =
  fixes step :: "'op \<Rightarrow> 's \<Rightarrow> 's option"
    and wf :: "'s \<Rightarrow> bool"
    and absv :: "'s \<Rightarrow> 'v"
    and astep :: "'op \<Rightarrow> 'v \<Rightarrow> 'v"
    and excuse :: bool
  assumes step_refines: "wf s \<Longrightarrow>
    (case step op s of None \<Rightarrow> excuse | Some s' \<Rightarrow> wf s' \<and> absv s' = astep op (absv s))"
begin

primrec run :: "'op list \<Rightarrow> 's \<Rightarrow> 's option" where
  "run [] s = Some s"
| "run (op # ops) s = step op s \<bind> run ops"

lemma run_refines:
  "wf s \<Longrightarrow> (case run ops s of None \<Rightarrow> excuse
     | Some s' \<Rightarrow> wf s' \<and> absv s' = fold astep ops (absv s))"
proof (induction ops arbitrary: s)
  case (Cons op ops)
  show ?case
  proof (cases "step op s")
    case None
    then show ?thesis using step_refines [OF Cons.prems, of op] by simp
  next
    case (Some s')
    then have "wf s'" "absv s' = astep op (absv s)" using step_refines [OF Cons.prems, of op] by auto
    then show ?thesis using Cons.IH [of s'] Some by (simp split: option.splits)
  qed
qed simp

end

datatype sds_op = OpCat string | OpCpy string | OpClear | OpRange int int | OpTrim string
  | OpGrow nat | OpLower | OpUpper | OpRoom nat | OpShrink

fun sds_step :: "allocator \<Rightarrow> sds_op \<Rightarrow> sdshdr \<Rightarrow> sdshdr option" where
  "sds_step a (OpCat t) s = sdscatlen a s t"
| "sds_step a (OpCpy t) s = sdscpylen a s t"
| "sds_step a OpClear s = Some (sdsclear s)"
| "sds_step a (OpRange i j) s = Some (sdsrange s i j)"
| "sds_step a (OpTrim cset) s = Some (sdstrim s cset)"
| "sds_step a (OpGrow n) s = sdsgrowzero a s n"
| "sds_step a OpLower s = Some (sdstolower s)"
| "sds_step a OpUpper s = Some (sdstoupper s)"
| "sds_step a (OpRoom n) s = sdsMakeRoomFor a s n"
| "sds_step a OpShrink s = sdsRemoveFreeSpace a s"

fun string_step :: "sds_op \<Rightarrow> string \<Rightarrow> string" where
  "string_step (OpCat t) c = c @ t"
| "string_step (OpCpy t) c = t"
| "string_step OpClear c = []"
| "string_step (OpRange i j) c = slice_spec c i j"
| "string_step (OpTrim cset) c = strip (strchr_hit cset) c"
| "string_step (OpGrow n) c = c @ replicate (n - length c) NUL"
| "string_step OpLower c = map tolower c"
| "string_step OpUpper c = map toupper c"
| "string_step (OpRoom n) c = c"
| "string_step OpShrink c = c"

primrec sds_run :: "allocator \<Rightarrow> sds_op list \<Rightarrow> sdshdr \<Rightarrow> sdshdr option" where
  "sds_run a [] s = Some s"
| "sds_run a (op # ops) s = sds_step a op s \<bind> sds_run a ops"

lemma sds_step_yields:
  assumes "sds_wf s"
  shows "yields a (string_step op (content s)) (sds_step a op s)"
proof -
  have "length (content s) = sh_len s" using assms by (simp add: sds_wf_def length_content)
  then show ?thesis using assms
    by (cases op) (simp_all add: wf_intros abs_simps sdsrange_slice sdstrim_strip sdstolower_spec
        sdstoupper_spec)
qed

text \<open>The size of the block of a string was granted by the allocator; every step keeps this.\<close>

definition granted :: "allocator \<Rightarrow> sdshdr \<Rightarrow> bool" where
  "granted a s \<longleftrightarrow> can_alloc a (sdsAllocSize s)"

lemma room_granted:
  "sds_open s \<Longrightarrow> granted a s \<Longrightarrow> sdsMakeRoomFor a s n = Some s' \<Longrightarrow> granted a s'"
  by (auto simp: sdsMakeRoomFor_def sdsavail_def sdslen_def granted_def sdsAllocSize_def Let_def
      algebra_simps split: if_splits)

lemma room_ge: "sds_open s \<Longrightarrow> sdsMakeRoomFor a s n = Some s' \<Longrightarrow> sh_len s' = sh_len s \<and> n \<le> sh_free s'"
  by (auto simp: sdsMakeRoomFor_def sdsavail_def sdslen_def Let_def split: if_splits)

lemma alloc_size_cong: "sh_len s' + sh_free s' = sh_len s + sh_free s \<Longrightarrow> granted a s' = granted a s"
  by (simp add: granted_def sdsAllocSize_def add.assoc)

lemma sdsrange_total: "sds_wf s \<Longrightarrow> sh_len (sdsrange s i j) + sh_free (sdsrange s i j) = sh_len s + sh_free s"
  by (cases "sh_len s = 0") (simp_all add: sdsrange_def sdslen_def sdsrange_eq Let_def split: prod.splits)

lemma sdstrim_total:
  assumes "sds_wf s"
  shows "sh_len (sdstrim s cset) + sh_free (sdstrim s cset) = sh_len s + sh_free s"
proof -
  have op: "sds_open s" using assms by (simp add: sds_wf_def)
  have "length (strip P xs) \<le> length xs" for P and xs :: string
    by (metis strip_def length_dropWhile_le length_rev order_trans)
  then have "length (content (sdstrim s cset)) \<le> sh_len s"
    using sdstrim_strip [OF assms, of cset] length_content [OF op] by metis
  then have "sh_len (sdstrim s cset) \<le> sh_len s"
    using sdstrim_strip [OF assms, of cset] length_content [of "sdstrim s cset"] by (simp add: sds_wf_def)
  then show ?thesis by (simp add: sdstrim_def sdslen_def Let_def)
qed

lemma sdscatlen_granted:
  assumes "sds_open s" "granted a s" "sdscatlen a s t = Some s'"
  shows "granted a s'"
proof -
  from assms(3) obtain s1 where s1: "sdsMakeRoomFor a s (length t) = Some s1"
    "sh_len s' = sh_len s + length t" "sh_free s' = sh_free s1 - length t"
    by (auto simp: sdscatlen_def sdslen_def Let_def split: bind_splits)
  have "sh_len s' + sh_free s' = sh_len s1 + sh_free s1" using s1 room_ge [OF assms(1) s1(1)] by simp
  then show ?thesis using room_granted [OF assms(1,2) s1(1)] alloc_size_cong by blast
qed

lemma sdscpylen_granted:
  assumes "sds_open s" "granted a s" "sdscpylen a s t = Some s'"
  shows "granted a s'"
proof (cases "sh_free s + sh_len s < length t")
  case True
  with assms(3) obtain s1 where s1: "sdsMakeRoomFor a s (length t - sh_len s) = Some s1"
    "sh_len s' = length t" "sh_free s' = sh_free s1 + sh_len s1 - length t"
    by (auto simp: sdscpylen_def Let_def split: bind_splits)
  have "sh_len s' + sh_free s' = sh_len s1 + sh_free s1"
    using s1 room_ge [OF assms(1) s1(1)] True by auto
  then show ?thesis using room_granted [OF assms(1,2) s1(1)] alloc_size_cong by blast
next
  case False
  with assms(3) have "sh_len s' = length t" "sh_free s' = sh_free s + sh_len s - length t"
    by (auto simp: sdscpylen_def Let_def)
  then have "sh_len s' + sh_free s' = sh_len s + sh_free s" using False by simp
  then show ?thesis using assms(2) alloc_size_cong by blast
qed

lemma sdsgrowzero_granted:
  assumes "sds_open s" "granted a s" "sdsgrowzero a s n = Some s'"
  shows "granted a s'"
proof (cases "n \<le> sh_len s")
  case True
  with assms show ?thesis by (simp add: sdsgrowzero_def)
next
  case False
  with assms(3) obtain s1 where s1: "sdsMakeRoomFor a s (n - sh_len s) = Some s1"
    "sh_len s' = n" "sh_free s' = sh_len s1 + sh_free s1 - n"
    by (auto simp: sdsgrowzero_def Let_def split: bind_splits)
  have "sh_len s' + sh_free s' = sh_len s1 + sh_free s1"
    using s1 room_ge [OF assms(1) s1(1)] False by auto
  then show ?thesis using room_granted [OF assms(1,2) s1(1)] alloc_size_cong by blast
qed

lemma inplace_total:
  "sh_len (sdsclear s) + sh_free (sdsclear s) = sh_len s + sh_free s"
  "sh_len (sdstolower s) + sh_free (sdstolower s) = sh_len s + sh_free s"
  "sh_len (sdstoupper s) + sh_free (sdstoupper s) = sh_len s + sh_free s"
  by (simp_all add: sdsclear_def sdstolower_def sdstoupper_def)

lemma sds_step_granted:
  assumes "sds_wf s" "granted a s" "sds_step a op s = Some s'"
  shows "granted a s'"
proof -
  have o: "sds_open s" using assms(1) by (simp add: sds_wf_def)
  show ?thesis
  proof (cases op)
    case OpShrink
    with assms(3) show ?thesis
      by (simp add: sdsRemoveFreeSpace_def granted_def sdsAllocSize_def split: if_splits) auto
  next
    case OpClear
    with assms show ?thesis using alloc_size_cong [OF inplace_total(1)] by auto
  next
    case OpLower
    with assms show ?thesis using alloc_size_cong [OF inplace_total(2)] by auto
  next
    case OpUpper
    with assms show ?thesis using alloc_size_cong [OF inplace_total(3)] by auto
  next
    case (OpRange i j)
    with assms show ?thesis using alloc_size_cong [OF sdsrange_total [OF assms(1)]] by auto
  next
    case (OpTrim cset)
    with assms show ?thesis using alloc_size_cong [OF sdstrim_total [OF assms(1)]] by auto
  qed (use assms o in \<open>auto intro: sdscatlen_granted sdscpylen_granted sdsgrowzero_granted room_granted\<close>)
qed

interpretation sds: fallible_store "sds_step a" "\<lambda>s. sds_wf s \<and> granted a s" content string_step
  "\<exists>n. \<not> can_alloc a n" for a
proof unfold_locales
  fix s op
  assume s: "sds_wf s \<and> granted a s"
  then show "case sds_step a op s of None \<Rightarrow> \<exists>n. \<not> can_alloc a n
      | Some s' \<Rightarrow> (sds_wf s' \<and> granted a s') \<and> content s' = string_step op (content s)"
    using sds_step_yields [of s a op] sds_step_granted [of s a op]
    by (auto simp: yields_def split: option.splits)
qed

lemma sds_run_is_run: "sds_run a ops s = sds.run a ops s"
proof (induction ops arbitrary: s)
  case (Cons op ops)
  then have "sds_run a ops = sds.run a ops" by blast
  then show ?case by simp
qed simp

text \<open>A run of appends, copies, clears, slices, trims, zero-fills, case changes and capacity
  changes on an sds string acts on its content exactly as the same run on a plain byte string,
  keeps the buffer terminated and its header consistent, and fails only if the allocator refused
  a request.\<close>

theorem sds_run_refines:
  assumes "sds_wf s" "granted a s"
  shows "case sds_run a ops s of
      None \<Rightarrow> \<exists>n. \<not> can_alloc a n
    | Some s' \<Rightarrow> sds_wf s' \<and> content s' = fold string_step ops (content s)"
  using sds.run_refines [of s a ops] assms by (auto simp: sds_run_is_run split: option.splits)

theorem sds_run_refines_witness:
  "content (the (sds_run \<lparr>can_alloc = \<lambda>n. n < 64, fresh = \<lambda>i. CHR ''?''\<rparr>
      [OpCat ''WORLD  '', OpTrim '' '', OpLower, OpRange 1 (-2)]
      \<lparr>sh_len = 3, sh_free = 0, sh_buf = [CHR '' '', CHR ''o'', CHR ''_'', NUL]\<rparr>)) = ''_worl''"
proof -
  let ?a = "\<lparr>can_alloc = \<lambda>n. n < 64, fresh = \<lambda>i. CHR ''?''\<rparr>"
  let ?s = "\<lparr>sh_len = 3, sh_free = 0, sh_buf = [CHR '' '', CHR ''o'', CHR ''_'', NUL]\<rparr>"
  let ?ops = "[OpCat ''WORLD  '', OpTrim '' '', OpLower, OpRange 1 (-2)]"
  have wf: "sds_wf ?s" "granted ?a ?s"
    by (simp_all add: sds_wf_def sds_open_def granted_def sdsAllocSize_def sizeof_sdshdr_def)
  have ok: "sds_run ?a ?ops ?s \<noteq> None" by code_simp
  have "fold string_step ?ops (content ?s) = ''_worl''" by code_simp
  then show ?thesis using sds_run_refines [OF wf, of ?ops] ok by (auto split: option.splits)
qed

text \<open>When the allocator refuses requests of \<open>2 ^ 31\<close> bytes or more, the \<open>int\<close> fields
  \<open>len\<close> and \<open>free\<close> of the header never overflow, whatever the run.\<close>

theorem sds_int_fields_fit:
  assumes "\<And>n. can_alloc a n \<Longrightarrow> n < 2 ^ 31" "sds_wf s" "granted a s" "sds_run a ops s = Some s'"
  shows "sh_len s' + sh_free s' + 9 < 2 ^ 31"
  using sds.run_refines [of s a ops] assms(1) [of "sdsAllocSize s'"] assms(2-)
  by (simp add: sds_run_is_run granted_def sdsAllocSize_def sizeof_sdshdr_def)

theorem sds_int_fields_fit_witness:
  "sh_len (the (sds_run \<lparr>can_alloc = \<lambda>n. n < 64, fresh = \<lambda>i. CHR ''?''\<rparr> [OpCat ''abc'', OpRoom 20]
      \<lparr>sh_len = 0, sh_free = 0, sh_buf = [NUL]\<rparr>)) + 9 < 2 ^ 31"
proof -
  let ?a = "\<lparr>can_alloc = \<lambda>n. n < 64, fresh = \<lambda>i. CHR ''?''\<rparr>"
  let ?s = "\<lparr>sh_len = 0, sh_free = 0, sh_buf = [NUL]\<rparr>"
  have "sds_run ?a [OpCat ''abc'', OpRoom 20] ?s \<noteq> None" by code_simp
  then obtain s' where s': "sds_run ?a [OpCat ''abc'', OpRoom 20] ?s = Some s'" by auto
  have "sh_len s' + sh_free s' + 9 < 2 ^ 31"
  proof (rule sds_int_fields_fit [where a = ?a and s = ?s])
    show "can_alloc ?a n \<Longrightarrow> n < 2 ^ 31" for n by simp
    show "sds_wf ?s" "granted ?a ?s"
      by (simp_all add: sds_wf_def sds_open_def granted_def sdsAllocSize_def sizeof_sdshdr_def)
  qed (rule s')
  then show ?thesis unfolding s' by simp
qed

end
