(* ===== verification/Hiredis_Sds_Text.thy ===== *)
theory Hiredis_Sds_Text
  imports Hiredis_Sds
begin

text \<open>
  The text utilities of \<open>hiredis-master/sds.c\<close>: splitting by a separator, joining, quoting
  (\<open>sdscatrepr\<close>), splitting a command line with quotes (\<open>sdssplitargs\<close>), character mapping and
  decimal construction. The arrays of sds strings of the source are lists; \<open>None\<close> is a null
  result. The two main results are that \<open>sdssplitargs\<close> reads back what \<open>sdscatrepr\<close> writes, and
  that joining the tokens of \<open>sdssplitlen\<close> with the separator restores the input.
\<close>

section \<open>Splitting by a separator\<close>

text \<open>
  The loop of \<open>sdssplitlen\<close>: position \<open>j\<close>, start of the current token, tokens so far. The token
  array has \<open>slots\<close> entries and is doubled when the next two do not fit. The separator is not
  empty: the caller has tested it.
\<close>

function splitlen_loop ::
  "allocator \<Rightarrow> string \<Rightarrow> string \<Rightarrow> nat \<Rightarrow> nat \<Rightarrow> nat \<Rightarrow> sdshdr list \<Rightarrow> (nat \<times> sdshdr list) option" where
  "splitlen_loop a s sep slots j start tokens =
     (if 1 \<le> length sep \<and> int j < int (length s) - (int (length sep) - 1) then
        let slots' = (if slots < length tokens + 2 then slots * 2 else slots)
        in if slots < length tokens + 2 \<and> \<not> can_alloc a (8 * slots') then None
           else if (length sep = 1 \<and> s ! j = sep ! 0) \<or> memcmp (drop j s) sep (length sep) = 0 then
             do {
               tok \<leftarrow> sdsnewlen a (Some (drop start s)) (j - start);
               splitlen_loop a s sep slots' (j + length sep - 1 + 1) (j + length sep) (tokens @ [tok])
             }
           else splitlen_loop a s sep slots' (j + 1) start tokens
      else Some (start, tokens))"
  by pat_completeness auto
termination by (relation "measure (\<lambda>(a, s, sep, slots, j, start, tokens). length s + 1 - j)") auto

declare splitlen_loop.simps [simp del]

definition sdssplitlen :: "allocator \<Rightarrow> string \<Rightarrow> string \<Rightarrow> sdshdr list option" where
  "sdssplitlen a s sep =
     (if length sep < 1 then None
      else if \<not> can_alloc a (8 * 5) then None
      else if length s = 0 then Some []
      else do {
        (start, tokens) \<leftarrow> splitlen_loop a s sep 5 0 0 [];
        tok \<leftarrow> sdsnewlen a (Some (drop start s)) (length s - start);
        Some (tokens @ [tok])
      })"

section \<open>Joining\<close>

fun join_loop :: "(sdshdr \<Rightarrow> 'a \<Rightarrow> sdshdr option) \<Rightarrow> (sdshdr \<Rightarrow> sdshdr option) \<Rightarrow> sdshdr \<Rightarrow> 'a list
    \<Rightarrow> sdshdr option" where
  "join_loop cat sep join [] = Some join"
| "join_loop cat sep join (x # xs) = do {
     join \<leftarrow> cat join x;
     join \<leftarrow> (if xs \<noteq> [] then sep join else Some join);
     join_loop cat sep join xs
   }"

definition sdsjoin :: "allocator \<Rightarrow> string list \<Rightarrow> string \<Rightarrow> sdshdr option" where
  "sdsjoin a argv sep = do {
     join \<leftarrow> sdsempty a;
     join_loop (sdscat a) (\<lambda>s. sdscatlen a s sep) join argv
   }"

definition sdsjoinsds :: "allocator \<Rightarrow> sdshdr list \<Rightarrow> string \<Rightarrow> sdshdr option" where
  "sdsjoinsds a argv sep = do {
     join \<leftarrow> sdsempty a;
     join_loop (sdscatsds a) (\<lambda>s. sdscatlen a s sep) join argv
   }"

section \<open>Decimal construction and character mapping\<close>

text \<open>The 32-byte scratch buffer is filled from its last byte downwards.\<close>

function fromll_loop :: "nat \<Rightarrow> string \<Rightarrow> nat \<Rightarrow> string \<times> nat" where
  "fromll_loop v b p =
     (let b = b[p := digit_char (v mod 10)]; v = v div 10
      in if v \<noteq> 0 then fromll_loop v b (p - 1) else (b, p - 1))"
  by pat_completeness auto
termination by (relation "measure (\<lambda>(v, b, p). v)") auto

declare fromll_loop.simps [simp del]

definition sdsfromlonglong :: "allocator \<Rightarrow> 64 word \<Rightarrow> sdshdr option" where
  "sdsfromlonglong a val =
     (let v = unat (if val <s 0 then - val else val);
          (b, p) = fromll_loop v (fresh_bytes a 32) 31;
          (b, p) = (if val <s 0 then (b[p := CHR ''-''], p - 1) else (b, p));
          p = p + 1
      in sdsnewlen a (Some (drop p b)) (32 - p))"

fun mapchar :: "string \<Rightarrow> string \<Rightarrow> nat \<Rightarrow> char \<Rightarrow> char" where
  "mapchar from to 0 c = c"
| "mapchar from to (Suc n) c = (if c = hd from then hd to else mapchar (tl from) (tl to) n c)"

definition sdsmapchars :: "sdshdr \<Rightarrow> string \<Rightarrow> string \<Rightarrow> nat \<Rightarrow> sdshdr" where
  "sdsmapchars s from to setlen =
     s\<lparr>sh_buf := map_prefix (mapchar from to setlen) (sdslen s) (sh_buf s)\<rparr>"

section \<open>Quoting\<close>

definition isprint :: "char \<Rightarrow> bool" where
  "isprint c \<longleftrightarrow> 32 \<le> (of_char c :: nat) \<and> (of_char c :: nat) \<le> 126"

definition isspace :: "char \<Rightarrow> bool" where
  "isspace c \<longleftrightarrow> c = CHR '' '' \<or> (9 \<le> (of_char c :: nat) \<and> (of_char c :: nat) \<le> 13)"

definition hex_char :: "nat \<Rightarrow> char" where
  "hex_char d = (if d < 10 then char_of (48 + d) else char_of (87 + d))"

abbreviation BELL :: char where "BELL \<equiv> CHR 0x07"
abbreviation BACKSPACE :: char where "BACKSPACE \<equiv> CHR 0x08"

definition repr_char :: "allocator \<Rightarrow> char \<Rightarrow> sdshdr \<Rightarrow> sdshdr option" where
  "repr_char a c s =
     (if c = BACKSLASH \<or> c = DQUOTE then sdscatvprintf a s [BACKSLASH, c]
      else if c = LF then sdscatlen a s [BACKSLASH, CHR ''n'']
      else if c = CR then sdscatlen a s [BACKSLASH, CHR ''r'']
      else if c = TAB then sdscatlen a s [BACKSLASH, CHR ''t'']
      else if c = BELL then sdscatlen a s [BACKSLASH, CHR ''a'']
      else if c = BACKSPACE then sdscatlen a s [BACKSLASH, CHR ''b'']
      else if isprint c then sdscatvprintf a s [c]
      else sdscatvprintf a s
        [BACKSLASH, CHR ''x'', hex_char (of_char c div 16), hex_char (of_char c mod 16)])"

fun repr_loop :: "allocator \<Rightarrow> string \<Rightarrow> sdshdr \<Rightarrow> sdshdr option" where
  "repr_loop a [] s = Some s"
| "repr_loop a (c # p) s = do { s \<leftarrow> repr_char a c s; repr_loop a p s }"

definition sdscatrepr :: "allocator \<Rightarrow> sdshdr \<Rightarrow> string \<Rightarrow> sdshdr option" where
  "sdscatrepr a s p = do {
     s \<leftarrow> sdscatlen a s [DQUOTE];
     s \<leftarrow> repr_loop a p s;
     sdscatlen a s [DQUOTE]
   }"

section \<open>Splitting a command line\<close>

definition is_hex_digit :: "char \<Rightarrow> bool" where
  "is_hex_digit c \<longleftrightarrow>
     (48 \<le> (of_char c :: nat) \<and> (of_char c :: nat) \<le> 57) \<or>
     (97 \<le> (of_char c :: nat) \<and> (of_char c :: nat) \<le> 102) \<or>
     (65 \<le> (of_char c :: nat) \<and> (of_char c :: nat) \<le> 70)"

definition hex_digit_to_int :: "char \<Rightarrow> nat" where
  "hex_digit_to_int c =
     (let n = of_char c :: nat
      in if 48 \<le> n \<and> n \<le> 57 then n - 48
         else if 97 \<le> n \<and> n \<le> 102 then n - 87
         else if 65 \<le> n \<and> n \<le> 70 then n - 55
         else 0)"

definition unescape :: "char \<Rightarrow> char" where
  "unescape c =
     (if c = CHR ''n'' then LF else if c = CHR ''r'' then CR else if c = CHR ''t'' then TAB
      else if c = CHR ''b'' then BACKSPACE else if c = CHR ''a'' then BELL else c)"

text \<open>
  The line is the C string \<open>p\<close> without its terminator: \<open>at p i\<close> is the byte \<open>*(p+i)\<close>, and the
  terminator beyond the end. \<open>splitarg\<close> is one iteration of the inner loop together with the
  \<open>if (*p) p++\<close> that ends it; the mode is the pair of flags \<open>inq\<close> and \<open>insq\<close>.
\<close>

datatype quote_mode = Unquoted | InDouble | InSingle

datatype arg_step = ArgErr | ArgDone string | ArgMore quote_mode "string" "string"

definition at :: "string \<Rightarrow> nat \<Rightarrow> char" where
  "at p i = (if i < length p then p ! i else NUL)"

definition bad_close :: "string \<Rightarrow> bool" where
  "bad_close p \<longleftrightarrow> at p 1 \<noteq> NUL \<and> \<not> isspace (at p 1)"

definition splitarg :: "quote_mode \<Rightarrow> string \<Rightarrow> arg_step" where
  "splitarg m p =
     (case m of
        InDouble \<Rightarrow>
          if at p 0 = BACKSLASH \<and> at p 1 = CHR ''x'' \<and> is_hex_digit (at p 2) \<and> is_hex_digit (at p 3)
          then ArgMore InDouble
                 [char_of (hex_digit_to_int (at p 2) * 16 + hex_digit_to_int (at p 3))] (drop 4 p)
          else if at p 0 = BACKSLASH \<and> at p 1 \<noteq> NUL
          then ArgMore InDouble [unescape (at p 1)] (drop 2 p)
          else if at p 0 = DQUOTE then (if bad_close p then ArgErr else ArgDone (drop 1 p))
          else if at p 0 = NUL then ArgErr
          else ArgMore InDouble [at p 0] (drop 1 p)
      | InSingle \<Rightarrow>
          if at p 0 = BACKSLASH \<and> at p 1 = SQUOTE then ArgMore InSingle [SQUOTE] (drop 2 p)
          else if at p 0 = SQUOTE then (if bad_close p then ArgErr else ArgDone (drop 1 p))
          else if at p 0 = NUL then ArgErr
          else ArgMore InSingle [at p 0] (drop 1 p)
      | Unquoted \<Rightarrow>
          if at p 0 = CHR '' '' \<or> at p 0 = LF \<or> at p 0 = CR \<or> at p 0 = TAB \<or> at p 0 = NUL
          then ArgDone (drop 1 p)
          else if at p 0 = DQUOTE then ArgMore InDouble [] (drop 1 p)
          else if at p 0 = SQUOTE then ArgMore InSingle [] (drop 1 p)
          else ArgMore Unquoted [at p 0] (drop 1 p))"

lemma splitarg_shorter:
  "splitarg m p = ArgMore m' t p' \<Longrightarrow> length p' < length p"
  by (auto simp: splitarg_def at_def split: quote_mode.splits if_splits)

lemma splitarg_done: "splitarg m p = ArgDone p' \<Longrightarrow> length p' \<le> length p - 1"
  by (auto simp: splitarg_def split: quote_mode.splits if_splits)

text \<open>A token: its bytes and what is left of the line, or the error exit.\<close>

function get_token :: "allocator \<Rightarrow> quote_mode \<Rightarrow> sdshdr \<Rightarrow> string \<Rightarrow> (sdshdr \<times> string) option" where
  "get_token a m current p =
     (case splitarg m p of
        ArgErr \<Rightarrow> None
      | ArgDone p' \<Rightarrow> Some (current, p')
      | ArgMore m' t p' \<Rightarrow>
          (if t = [] then get_token a m' current p'
           else do { current \<leftarrow> sdscatlen a current t; get_token a m' current p' }))"
  by pat_completeness auto
termination by (relation "measure (\<lambda>(a, m, s, p). length p)") (auto dest: splitarg_shorter)

declare get_token.simps [simp del]

lemma get_token_shorter: "get_token a m s p = Some (s', p') \<Longrightarrow> length p' \<le> length p - 1"
proof (induction a m s p rule: get_token.induct)
  case (1 a m s p)
  show ?case
  proof (cases "splitarg m p")
    case ArgErr
    with "1.prems" show ?thesis by (simp add: get_token.simps [of a m s p])
  next
    case (ArgDone q)
    with "1.prems" splitarg_done show ?thesis by (simp add: get_token.simps [of a m s p])
  next
    case (ArgMore m' t q)
    have q: "length q < length p" using ArgMore by (rule splitarg_shorter)
    have "length p' \<le> length q - 1"
      using "1.IH"(1) [OF ArgMore] "1.IH"(2) [OF ArgMore] "1.prems" ArgMore
      by (auto simp: get_token.simps [of a m s p] split: if_splits bind_splits)
    with q show ?thesis by simp
  qed
qed

lemma token_progress:
  assumes "dropWhile isspace p \<noteq> []" "get_token a m s (dropWhile isspace p) = Some (s', p')"
  shows "length p' < length p"
proof -
  have "0 < length (dropWhile isspace p)" using assms(1) by blast
  then show ?thesis
    using get_token_shorter [OF assms(2)] length_dropWhile_le [of isspace p] by linarith
qed

function splitargs_loop :: "allocator \<Rightarrow> string \<Rightarrow> sdshdr list \<Rightarrow> sdshdr list option" where
  "splitargs_loop a p vector =
     (let p = dropWhile isspace p
      in if p = [] then Some vector
         else case sdsempty a of
           None \<Rightarrow> None
         | Some current \<Rightarrow>
             (case get_token a Unquoted current p of
                None \<Rightarrow> None
              | Some (current, p') \<Rightarrow> splitargs_loop a p' (vector @ [current])))"
  by pat_completeness auto
termination by (relation "measure (\<lambda>(a, p, v). length p)") (auto intro: token_progress)

declare splitargs_loop.simps [simp del]

definition sdssplitargs :: "allocator \<Rightarrow> string \<Rightarrow> sdshdr list option" where
  "sdssplitargs a line = splitargs_loop a (take (strlen line) line) []"

section \<open>Split and join\<close>

fun join_text :: "string \<Rightarrow> string list \<Rightarrow> string" where
  "join_text sep [] = []"
| "join_text sep [x] = x"
| "join_text sep (x # y # xs) = x @ sep @ join_text sep (y # xs)"

definition occurs_in :: "string \<Rightarrow> string \<Rightarrow> bool" where
  "occurs_in sep t \<longleftrightarrow> (\<exists>k. k + length sep \<le> length t \<and> take (length sep) (drop k t) = sep)"

definition yields_all :: "allocator \<Rightarrow> string list \<Rightarrow> sdshdr list option \<Rightarrow> bool" where
  "yields_all a cs r = (case r of None \<Rightarrow> (\<exists>n. \<not> can_alloc a n)
     | Some ss \<Rightarrow> (\<forall>s\<in>set ss. sds_wf s) \<and> map content ss = cs)"

lemma join_text_snoc: "join_text sep (xs @ [x]) = concat (map (\<lambda>t. t @ sep) xs) @ x"
proof (induction xs)
  case (Cons y xs)
  then show ?case by (cases "xs @ [x]") (auto simp: Cons_eq_append_conv)
qed simp

lemma join_loop_yields:
  assumes cat: "\<And>s x. sds_wf s \<Longrightarrow> x \<in> set xs \<Longrightarrow> yields a (content s @ txt x) (cat s x)"
    and sep: "\<And>s. sds_wf s \<Longrightarrow> yields a (content s @ sep) (addsep s)"
  shows "sds_wf s \<Longrightarrow> yields a (content s @ join_text sep (map txt xs)) (join_loop cat addsep s xs)"
  using cat
proof (induction xs arbitrary: s)
  case (Cons x xs)
  show ?case
  proof (cases xs)
    case Nil
    show ?thesis using Cons.prems(2) [of s x] Cons.prems(1) Nil by (cases "cat s x") simp_all
  next
    case c: (Cons y ys)
    have step: "yields a (content s @ txt x @ sep @ join_text sep (map txt xs)) (join_loop cat addsep s2 xs)"
      if "sds_wf s2" "content s2 = content s @ txt x @ sep" for s2
      using Cons.IH [OF that(1)] Cons.prems(2) that(2) by simp
    have "yields a (content s @ txt x @ sep @ join_text sep (map txt xs))
        (cat s x \<bind> (\<lambda>j. addsep j \<bind> (\<lambda>j. join_loop cat addsep j xs)))"
      by (rule yields_bind [OF Cons.prems(2) [OF Cons.prems(1)]], simp)
         (rule yields_bind [OF sep], simp, rule step, simp_all)
    then show ?thesis using c by simp
  qed
qed simp

lemma sdsjoinsds_yields:
  "\<forall>t\<in>set ts. sds_wf t \<Longrightarrow> yields a (join_text sep (map content ts)) (sdsjoinsds a ts sep)"
  unfolding sdsjoinsds_def
  by (rule yields_bind [OF sdsempty_yields])
     (use join_loop_yields [of ts a content "sdscatsds a" sep "\<lambda>s. sdscatlen a s sep"]
       in \<open>force simp: sdscatsds_yields sdscatlen_yields\<close>)

lemma sdsjoin_yields:
  "yields a (join_text sep (map (takeWhile (\<lambda>c. c \<noteq> NUL)) ts)) (sdsjoin a ts sep)"
  unfolding sdsjoin_def
  by (rule yields_bind [OF sdsempty_yields])
     (use join_loop_yields [of ts a "takeWhile (\<lambda>c. c \<noteq> NUL)" "sdscat a" sep "\<lambda>s. sdscatlen a s sep"]
       in \<open>force simp: sdscat_yields sdscatlen_yields\<close>)

definition split_inv :: "string \<Rightarrow> string \<Rightarrow> nat \<Rightarrow> nat \<Rightarrow> sdshdr list \<Rightarrow> bool" where
  "split_inv s sep j start tokens \<longleftrightarrow>
     start \<le> length s \<and> start \<le> j \<and>
     (\<forall>t\<in>set tokens. sds_wf t \<and> \<not> occurs_in sep (content t)) \<and>
     concat (map (\<lambda>t. content t @ sep) tokens) = take start s \<and>
     (\<forall>k. start \<le> k \<and> k < j \<longrightarrow> take (length sep) (drop k s) \<noteq> sep)"

lemma not_occurs_between:
  assumes "\<forall>k. start \<le> k \<and> k < j \<longrightarrow> take (length sep) (drop k s) \<noteq> sep" "sep \<noteq> []"
    "e \<le> j + (length sep - 1)" "e \<le> length s"
  shows "\<not> occurs_in sep (take (e - start) (drop start s))"
proof
  assume "occurs_in sep (take (e - start) (drop start s))"
  then obtain k where k: "k + length sep \<le> min (e - start) (length s - start)"
    "take (length sep) (drop k (take (e - start) (drop start s))) = sep"
    by (auto simp: occurs_in_def min.commute)
  then have "take (length sep) (drop (start + k) s) = sep"
    by (simp add: drop_take min_def add.commute split: if_splits)
  moreover have "start + k < j" using k(1) assms(2,3) by (cases sep) auto
  ultimately show False using assms(1) by simp
qed

lemma memcmp_sep:
  "j + length sep \<le> length s \<Longrightarrow>
   memcmp (drop j s) sep (length sep) = 0 \<longleftrightarrow> take (length sep) (drop j s) = sep"
  using memcmp_zero [of "length sep" "drop j s" sep] by simp

lemma splitlen_loop_inv:
  "sep \<noteq> [] \<Longrightarrow> split_inv s sep j start tokens \<Longrightarrow>
   (case splitlen_loop a s sep slots j start tokens of None \<Rightarrow> \<exists>n. \<not> can_alloc a n
    | Some (start', tokens') \<Rightarrow> split_inv s sep (max start' (Suc (length s) - length sep)) start' tokens')"
proof (induction a s sep slots j start tokens rule: splitlen_loop.induct)
  case (1 a s sep slots j start tokens)
  let ?slots = "if slots < length tokens + 2 then slots * 2 else slots"
  have sep1: "1 \<le> length sep" using "1.prems"(1) by (cases sep) auto
  show ?case
  proof (cases "int j < int (length s) - (int (length sep) - 1)")
    case False
    then have "Suc (length s) - length sep \<le> j" using sep1 by linarith
    with False "1.prems"(2) show ?thesis
      by (subst splitlen_loop.simps) (auto simp: split_inv_def)
  next
    case True
    then have fit: "j + length sep \<le> length s" by linarith
    show ?thesis
    proof (cases "slots < length tokens + 2 \<and> \<not> can_alloc a (8 * ?slots)")
      case True
      with \<open>int j < _\<close> sep1 show ?thesis by (subst splitlen_loop.simps) auto
    next
      case ok: False
      let ?hit = "(length sep = 1 \<and> s ! j = sep ! 0) \<or> memcmp (drop j s) sep (length sep) = 0"
      have hit: "?hit \<longleftrightarrow> take (length sep) (drop j s) = sep"
      proof -
        have "take (length sep) (drop j s) = sep" if "length sep = 1" "s ! j = sep ! 0"
          using that fit by (cases sep) (auto simp: take_Suc_conv_app_nth hd_drop_conv_nth take_Suc)
        then show ?thesis using memcmp_sep [OF fit] by blast
      qed
      show ?thesis
      proof (cases ?hit)
        case nohit: False
        have "split_inv s sep (j + 1) start tokens"
          using "1.prems"(2) nohit hit unfolding split_inv_def
          by (metis Suc_eq_plus1 le_SucI less_SucE)
        moreover have "splitlen_loop a s sep slots j start tokens
            = splitlen_loop a s sep ?slots (j + 1) start tokens"
          using ok nohit True sep1
          by (subst splitlen_loop.simps) (simp only: Let_def if_True if_False simp_thms)
        ultimately show ?thesis
          using "1.IH"(2) [OF conjI [OF sep1 True] refl ok nohit "1.prems"(1)] by simp
      next
        case yes: True
        have st: "start \<le> j" using "1.prems"(2) by (simp add: split_inv_def)
        let ?c = "take (j - start) (drop start s)"
        have y: "yields a ?c (sdsnewlen a (Some (drop start s)) (j - start))"
          using fit st by (intro sdsnewlen_yields) simp
        have eq: "splitlen_loop a s sep slots j start tokens
            = sdsnewlen a (Some (drop start s)) (j - start) \<bind>
              (\<lambda>tok. splitlen_loop a s sep ?slots (j + length sep - 1 + 1) (j + length sep) (tokens @ [tok]))"
          using ok yes True sep1 by (subst splitlen_loop.simps) (simp only: Let_def if_True if_False simp_thms)
        show ?thesis
        proof (cases "sdsnewlen a (Some (drop start s)) (j - start)")
          case None
          then show ?thesis using y eq by (simp add: yields_def)
        next
          case (Some tok)
          then have tok: "sds_wf tok" "content tok = ?c" using y by simp_all
          have no: "\<not> occurs_in sep ?c"
            by (rule not_occurs_between [of start j])
               (use "1.prems" fit in \<open>auto simp: split_inv_def\<close>)
          have "take (j + length sep) s = take start s @ ?c @ sep"
            using yes [unfolded hit] st by (metis le_add_diff_inverse take_add append.assoc)
          then have "split_inv s sep (j + length sep - 1 + 1) (j + length sep) (tokens @ [tok])"
            using "1.prems"(2) tok no fit sep1 by (auto simp: split_inv_def)
          from "1.IH"(1) [OF conjI [OF sep1 True] refl ok yes Some "1.prems"(1) this] Some eq
          show ?thesis by simp
        qed
      qed
    qed
  qed
qed

lemma sdssplitlen_spec:
  assumes "sep \<noteq> []" "s \<noteq> []"
  shows "case sdssplitlen a s sep of None \<Rightarrow> \<exists>n. \<not> can_alloc a n
    | Some toks \<Rightarrow> (\<forall>t\<in>set toks. sds_wf t \<and> \<not> occurs_in sep (content t))
        \<and> join_text sep (map content toks) = s"
proof (cases "can_alloc a 40")
  case False
  with assms show ?thesis by (auto simp: sdssplitlen_def not_less_eq_eq Suc_le_eq)
next
  case True
  have "split_inv s sep 0 0 []" by (simp add: split_inv_def)
  note inv = splitlen_loop_inv [OF assms(1) this, of a 5]
  have eq: "sdssplitlen a s sep = splitlen_loop a s sep 5 0 0 [] \<bind> (\<lambda>(start, tokens).
      sdsnewlen a (Some (drop start s)) (length s - start) \<bind> (\<lambda>tok. Some (tokens @ [tok])))"
    using assms True by (simp add: sdssplitlen_def not_less_eq_eq Suc_le_eq)
  show ?thesis
  proof (cases "splitlen_loop a s sep 5 0 0 []")
    case None
    then show ?thesis using inv eq by simp
  next
    case (Some r)
    obtain start tokens where r: "r = (start, tokens)" by (cases r)
    let ?j = "max start (Suc (length s) - length sep)"
    have si: "split_inv s sep ?j start tokens" using inv Some r by simp
    have y: "yields a (drop start s) (sdsnewlen a (Some (drop start s)) (length s - start))"
      using sdsnewlen_yields [of "length s - start" "drop start s" a] by simp
    have "\<not> occurs_in sep (take (length s - start) (drop start s))"
      by (rule not_occurs_between [of start ?j]) (use si assms(1) in \<open>auto simp: split_inv_def\<close>)
    then have no: "\<not> occurs_in sep (drop start s)" by simp
    have "concat (map (\<lambda>t. content t @ sep) tokens) @ drop start s = s"
      using si by (simp add: split_inv_def)
    with y no si show ?thesis
      by (auto simp: eq Some r yields_def split_inv_def join_text_snoc comp_def split: option.splits bind_splits)
  qed
qed

text \<open>Splitting a non-empty byte string by a non-empty separator yields well-formed tokens none
  of which contains the separator, and joining them with the separator restores the string;
  neither call fails unless memory runs out.\<close>

theorem sdssplitlen_join_roundtrip:
  assumes "sep \<noteq> []" "s \<noteq> []"
  shows "(case sdssplitlen a s sep of None \<Rightarrow> \<exists>n. \<not> can_alloc a n
           | Some toks \<Rightarrow> \<forall>t\<in>set toks. sds_wf t \<and> \<not> occurs_in sep (content t))
     \<and> yields a s (sdssplitlen a s sep \<bind> (\<lambda>toks. sdsjoinsds a toks sep))"
proof (cases "sdssplitlen a s sep")
  case None
  with sdssplitlen_spec [OF assms, of a] show ?thesis by (simp add: yields_def)
next
  case (Some toks)
  with sdssplitlen_spec [OF assms, of a] sdsjoinsds_yields [of toks a sep] show ?thesis by simp
qed

theorem sdssplitlen_join_roundtrip_witness:
  "yields \<lparr>can_alloc = \<lambda>n. n \<le> 100, fresh = \<lambda>i. CHR ''?''\<rparr> ''foo_-_bar_-_''
     (sdssplitlen \<lparr>can_alloc = \<lambda>n. n \<le> 100, fresh = \<lambda>i. CHR ''?''\<rparr> ''foo_-_bar_-_'' ''_-_'' \<bind>
       (\<lambda>toks. sdsjoinsds \<lparr>can_alloc = \<lambda>n. n \<le> 100, fresh = \<lambda>i. CHR ''?''\<rparr> toks ''_-_''))
   \<and> map_option (map content)
       (sdssplitlen \<lparr>can_alloc = \<lambda>n. n \<le> 100, fresh = \<lambda>i. CHR ''?''\<rparr> ''foo_-_bar_-_'' ''_-_'')
     = Some [''foo'', ''bar'', '''']"
proof
  show "map_option (map content)
       (sdssplitlen \<lparr>can_alloc = \<lambda>n. n \<le> 100, fresh = \<lambda>i. CHR ''?''\<rparr> ''foo_-_bar_-_'' ''_-_'')
     = Some [''foo'', ''bar'', '''']" by code_simp
qed (use sdssplitlen_join_roundtrip [of "''_-_''" "''foo_-_bar_-_''"] in simp)

section \<open>Quote and split\<close>

definition repr_text1 :: "char \<Rightarrow> string" where
  "repr_text1 c =
     (if c = BACKSLASH \<or> c = DQUOTE then [BACKSLASH, c]
      else if c = LF then [BACKSLASH, CHR ''n''] else if c = CR then [BACKSLASH, CHR ''r'']
      else if c = TAB then [BACKSLASH, CHR ''t''] else if c = BELL then [BACKSLASH, CHR ''a'']
      else if c = BACKSPACE then [BACKSLASH, CHR ''b''] else if isprint c then [c]
      else [BACKSLASH, CHR ''x'', hex_char (of_char c div 16), hex_char (of_char c mod 16)])"

definition repr_text :: "string \<Rightarrow> string" where
  "repr_text p = DQUOTE # concat (map repr_text1 p) @ [DQUOTE]"

lemma of_char_hex_char: "d < 16 \<Longrightarrow> (of_char (hex_char d) :: nat) = (if d < 10 then 48 + d else 87 + d)"
  by (simp add: hex_char_def)

lemma hex_char_ok:
  assumes "d < 16"
  shows "is_hex_digit (hex_char d)" "hex_digit_to_int (hex_char d) = d" "hex_char d \<noteq> NUL"
proof -
  show "is_hex_digit (hex_char d)" "hex_digit_to_int (hex_char d) = d"
    using assms by (auto simp: is_hex_digit_def hex_digit_to_int_def of_char_hex_char Let_def)
  have "(of_char (hex_char d) :: nat) \<noteq> of_char NUL" using assms by (simp add: of_char_hex_char)
  then show "hex_char d \<noteq> NUL" by metis
qed

lemma of_char_less_256: "(of_char c :: nat) < 256"
  by (rule nat_of_char_less_256)

lemma of_char_div16: "(of_char c :: nat) div 16 < 16"
  using of_char_less_256 [of c] by (simp add: less_mult_imp_div_less)

lemma nul_notin_repr1: "NUL \<notin> set (repr_text1 c)"
proof -
  have "isprint c \<Longrightarrow> c \<noteq> NUL" by (auto simp: isprint_def)
  then show ?thesis using hex_char_ok(3) of_char_div16 [of c] by (auto simp: repr_text1_def dest: sym)
qed

lemma nul_notin_repr: "NUL \<notin> set (repr_text p)"
  using nul_notin_repr1 by (auto simp: repr_text_def)

lemma repr_char_yields: "sds_wf s \<Longrightarrow> yields a (content s @ repr_text1 c) (repr_char a c s)"
proof -
  assume wf: "sds_wf s"
  have "repr_char a c s = sdscatlen a s (repr_text1 c) \<or> repr_char a c s = sdscatvprintf a s (repr_text1 c)"
    by (auto simp: repr_char_def repr_text1_def)
  then show ?thesis using sdscatlen_yields [OF wf] sdscatvprintf_yields [OF wf nul_notin_repr1] by metis
qed

lemma repr_loop_yields:
  "sds_wf s \<Longrightarrow> yields a (content s @ concat (map repr_text1 p)) (repr_loop a p s)"
proof (induction p arbitrary: s)
  case (Cons c p)
  have "yields a (content s @ repr_text1 c @ concat (map repr_text1 p))
      (repr_char a c s \<bind> repr_loop a p)"
    by (rule yields_bind [OF repr_char_yields [OF Cons.prems]]) (metis Cons.IH append.assoc)
  then show ?case by simp
qed simp

lemma sdscatrepr_yields:
  assumes "sds_wf s"
  shows "yields a (content s @ repr_text p) (sdscatrepr a s p)"
  unfolding sdscatrepr_def
proof (rule yields_bind [OF sdscatlen_yields [OF assms]], rule yields_bind [OF repr_loop_yields], assumption)
  fix s1 s2
  assume "sds_wf s2" "content s1 = content s @ [DQUOTE]"
    "content s2 = content s1 @ concat (map repr_text1 p)"
  then show "yields a (content s @ repr_text p) (sdscatlen a s2 [DQUOTE])"
    using sdscatlen_yields [of s2 a "[DQUOTE]"] by (simp add: repr_text_def)
qed

lemma splitarg_repr1: "splitarg InDouble (repr_text1 c @ q) = ArgMore InDouble [c] q"
proof -
  have h: "is_hex_digit (hex_char (of_char c div 16))" "is_hex_digit (hex_char (of_char c mod 16))"
    "hex_digit_to_int (hex_char (of_char c div 16)) = of_char c div 16"
    "hex_digit_to_int (hex_char (of_char c mod 16)) = of_char c mod 16"
    using hex_char_ok of_char_div16 [of c] by simp_all
  have "char_of (of_char c div 16 * 16 + of_char c mod 16 :: nat) = c"
    by (simp only: div_mult_mod_eq char_of_char)
  moreover have "isprint c \<Longrightarrow> c \<noteq> NUL" by (auto simp: isprint_def)
  ultimately show ?thesis
    using h by (auto simp: splitarg_def repr_text1_def at_def unescape_def numeral_2_eq_2 numeral_3_eq_3)
qed

definition arg_break :: "string \<Rightarrow> bool" where
  "arg_break q \<longleftrightarrow> q = [] \<or> isspace (hd q)"

lemma get_token_close:
  assumes "arg_break q"
  shows "get_token a InDouble s (DQUOTE # q) = Some (s, q)"
proof -
  have "\<not> bad_close (DQUOTE # q)" using assms by (cases q) (auto simp: bad_close_def arg_break_def at_def)
  then show ?thesis by (simp add: get_token.simps splitarg_def at_def)
qed

definition yields_token :: "allocator \<Rightarrow> string \<Rightarrow> string \<Rightarrow> (sdshdr \<times> string) option \<Rightarrow> bool" where
  "yields_token a c q r = (case r of None \<Rightarrow> (\<exists>n. \<not> can_alloc a n)
     | Some (s, q') \<Rightarrow> sds_wf s \<and> content s = c \<and> q' = q)"

lemma get_token_repr:
  assumes "arg_break q"
  shows "sds_wf s \<Longrightarrow> yields_token a (content s @ p) q
    (get_token a InDouble s (concat (map repr_text1 p) @ DQUOTE # q))"
proof (induction p arbitrary: s)
  case Nil
  then show ?case using get_token_close [OF assms] by (simp add: yields_token_def)
next
  case (Cons c p)
  have step: "get_token a InDouble s (concat (map repr_text1 (c # p)) @ DQUOTE # q)
      = sdscatlen a s [c] \<bind> (\<lambda>s. get_token a InDouble s (concat (map repr_text1 p) @ DQUOTE # q))"
    using splitarg_repr1 [of c "concat (map repr_text1 p) @ DQUOTE # q"]
    by (subst get_token.simps) simp
  show ?case
  proof (cases "sdscatlen a s [c]")
    case None
    then show ?thesis using sdscatlen_yields [OF Cons.prems, of a "[c]"] step
      by (simp add: yields_def yields_token_def)
  next
    case (Some s')
    then have "sds_wf s'" "content s' = content s @ [c]"
      using sdscatlen_yields [OF Cons.prems, of a "[c]"] by simp_all
    with Cons.IH [of s'] Some step show ?thesis by simp
  qed
qed

lemma get_token_quoted:
  assumes "arg_break q" "sds_wf s"
  shows "yields_token a (content s @ p) q (get_token a Unquoted s (repr_text p @ q))"
proof -
  have "splitarg Unquoted (repr_text p @ q) = ArgMore InDouble [] (concat (map repr_text1 p) @ DQUOTE # q)"
    by (simp add: splitarg_def at_def repr_text_def)
  then show ?thesis using get_token_repr [OF assms] by (subst get_token.simps) simp
qed

lemma join_space_cases:
  "arg_break (case ps of [] \<Rightarrow> [] | _ \<Rightarrow> CHR '' '' # join_text '' '' (map repr_text ps))"
  by (cases ps) (simp_all add: arg_break_def isspace_def)

lemma dropWhile_isspace_repr: "dropWhile isspace (join_text '' '' (map repr_text ps)) = join_text '' '' (map repr_text ps)"
proof (cases ps)
  case (Cons p qs)
  then have "\<exists>t. join_text '' '' (map repr_text ps) = DQUOTE # t"
    by (cases qs) (simp_all add: repr_text_def)
  then show ?thesis by (auto simp: isspace_def)
qed simp

lemma splitargs_loop_repr:
  assumes "\<forall>s\<in>set vec. sds_wf s" "\<forall>c\<in>set pre. isspace c"
  shows "yields_all a (map content vec @ ps)
    (splitargs_loop a (case ps of [] \<Rightarrow> [] | _ \<Rightarrow> pre @ join_text '' '' (map repr_text ps)) vec)"
  using assms
proof (induction ps arbitrary: vec pre)
  case Nil
  then show ?case by (subst splitargs_loop.simps) (simp add: yields_all_def)
next
  case (Cons p ps)
  let ?rest = "case ps of [] \<Rightarrow> [] | _ \<Rightarrow> '' '' @ join_text '' '' (map repr_text ps)"
  let ?line = "pre @ join_text '' '' (map repr_text (p # ps))"
  have line: "join_text '' '' (map repr_text (p # ps)) = repr_text p @ ?rest" by (cases ps) simp_all
  have drop: "dropWhile isspace ?line = repr_text p @ ?rest"
    using Cons.prems(2) dropWhile_isspace_repr [of "p # ps"] line by (simp add: dropWhile_append2)
  have ne: "repr_text p @ ?rest \<noteq> []" by (simp add: repr_text_def)
  show ?case
  proof (cases "sdsempty a")
    case None
    then show ?thesis using sdsempty_yields [of a] drop ne
      by (subst splitargs_loop.simps) (simp add: yields_def yields_all_def Let_def del: append_is_Nil_conv)
  next
    case (Some e)
    then have e: "sds_wf e" "content e = []" using sdsempty_yields [of a] by simp_all
    have br: "arg_break ?rest" by (cases ps) (simp_all add: arg_break_def isspace_def)
    note tk = get_token_quoted [OF br e(1), of a p, unfolded e(2) append_Nil]
    have eq: "splitargs_loop a ?line vec = (case get_token a Unquoted e (repr_text p @ ?rest) of
        None \<Rightarrow> None | Some (current, p') \<Rightarrow> splitargs_loop a p' (vec @ [current]))"
      by (subst splitargs_loop.simps) (simp only: drop Let_def ne if_False Some option.case)
    show ?thesis
    proof (cases "get_token a Unquoted e (repr_text p @ ?rest)")
      case None
      then show ?thesis using tk eq by (simp add: yields_token_def yields_all_def)
    next
      case (Some r)
      then obtain s where r: "r = (s, ?rest)" "sds_wf s" "content s = p"
        using tk by (cases r) (auto simp: yields_token_def)
      have "yields_all a (map content (vec @ [s]) @ ps) (splitargs_loop a ?rest (vec @ [s]))"
        using Cons.prems(1) r(2) by (intro Cons.IH) (auto simp: isspace_def)
      then show ?thesis using eq Some r by simp
    qed
  qed
qed

text \<open>\<open>sdssplitargs\<close> reads back what \<open>sdscatrepr\<close> writes. Quoting any byte strings (NUL bytes,
  quotes, backslashes and unprintable bytes included), one after the other with a blank between
  them, gives a command line that splits into exactly those strings; a null result means that
  memory ran out.\<close>

theorem sdssplitargs_sdscatrepr:
  assumes "sds_wf s" "content s = []"
  shows "yields_all a [p, q]
    (sdscatrepr a s p \<bind> (\<lambda>s. sdscatlen a s '' '' \<bind> (\<lambda>s. sdscatrepr a s q)) \<bind>
       (\<lambda>s. sdssplitargs a (sh_buf s)))"
proof -
  let ?line = "repr_text p @ '' '' @ repr_text q"
  let ?w = "sdscatrepr a s p \<bind> (\<lambda>s. sdscatlen a s '' '' \<bind> (\<lambda>s. sdscatrepr a s q))"
  have "yields a ?line ?w"
    by (rule yields_bind [OF sdscatrepr_yields [OF assms(1)]], rule yields_bind [OF sdscatlen_yields], assumption)
       (metis sdscatrepr_yields append.assoc append_Nil assms(2))
  moreover have "yields_all a [p, q] (sdssplitargs a (sh_buf s'))" if "sds_wf s'" "content s' = ?line" for s'
  proof -
    have "sds_open s'" using that by (simp add: sds_wf_def)
    then obtain x r where "sh_buf s' = content s' @ x # r" "length (content s') = sh_len s'"
      by (rule sds_openE)
    then have "sh_buf s' = ?line @ NUL # r"
      using that by (metis sds_wf_def nth_append_length)
    then have "take (strlen (sh_buf s')) (sh_buf s') = ?line"
      using nul_notin_repr cstring_prefix [of ?line r] by (simp only: take_strlen) simp
    then show ?thesis
      using splitargs_loop_repr [of "[]" "[]" a "[p, q]"] by (simp add: sdssplitargs_def)
  qed
  ultimately show ?thesis by (cases ?w) (auto simp: yields_def yields_all_def)
qed

theorem sdssplitargs_sdscatrepr_witness:
  "yields_all \<lparr>can_alloc = \<lambda>n. n \<le> 100, fresh = \<lambda>i. CHR ''?''\<rparr> [[CHR ''a'', NUL, DQUOTE], [LF]]
     (sdscatrepr \<lparr>can_alloc = \<lambda>n. n \<le> 100, fresh = \<lambda>i. CHR ''?''\<rparr>
        \<lparr>sh_len = 0, sh_free = 0, sh_buf = [NUL]\<rparr> [CHR ''a'', NUL, DQUOTE] \<bind>
      (\<lambda>s. sdscatlen \<lparr>can_alloc = \<lambda>n. n \<le> 100, fresh = \<lambda>i. CHR ''?''\<rparr> s '' '' \<bind>
      (\<lambda>s. sdscatrepr \<lparr>can_alloc = \<lambda>n. n \<le> 100, fresh = \<lambda>i. CHR ''?''\<rparr> s [LF])) \<bind>
      (\<lambda>s. sdssplitargs \<lparr>can_alloc = \<lambda>n. n \<le> 100, fresh = \<lambda>i. CHR ''?''\<rparr> (sh_buf s)))"
  using sdssplitargs_sdscatrepr [of "\<lparr>sh_len = 0, sh_free = 0, sh_buf = [NUL]\<rparr>"]
  by (simp add: sds_wf_def sds_open_def content_def)

section \<open>Decimal construction\<close>

lemma fromll_loop_spec:
  "length (dec v) \<le> Suc p \<Longrightarrow> p < length b \<Longrightarrow>
   (case fromll_loop v b p of (b', p') \<Rightarrow>
      length b' = length b \<and>
      drop (Suc p - length (dec v)) b' = dec v @ drop (Suc p) b \<and>
      p' = p - length (dec v))"
proof (induction v b p rule: fromll_loop.induct)
  case (1 v b p)
  let ?b = "b[p := digit_char (v mod 10)]"
  have d: "drop p ?b = digit_char (v mod 10) # drop (Suc p) b"
    using "1.prems"(2) by (simp add: drop_update_swap Cons_nth_drop_Suc [symmetric])
  show ?case
  proof (cases "v < 10")
    case True
    then have "dec v = [digit_char v]" by (simp add: dec.simps)
    with True d show ?thesis by (subst fromll_loop.simps) (simp add: Let_def)
  next
    case False
    then have v: "v div 10 \<noteq> 0" by (simp add: div_eq_0_iff)
    from False have dv: "dec v = dec (v div 10) @ [digit_char (v mod 10)]" by (subst dec.simps) simp
    have p: "0 < p" "length (dec (v div 10)) \<le> Suc (p - 1)"
      using "1.prems"(1) by (cases "dec (v div 10)"; simp add: dv)+
    have "fromll_loop v b p = fromll_loop (v div 10) ?b (p - 1)"
      using v by (subst fromll_loop.simps) (simp add: Let_def)
    moreover have "p - 1 < length ?b" using "1.prems"(2) by simp
    ultimately show ?thesis
      using "1.IH" [OF refl refl v p(2)] p(1) d
      by (simp add: dv split: prod.splits)
  qed
qed

lemma sdsfromlonglong_yields: "yields a (dec_int (sint val)) (sdsfromlonglong a val)"
proof -
  define v where "v = unat (if val <s 0 then - val else val)"
  have v: "v = nat \<bar>sint val\<bar>" by (auto simp: v_def abs_sint64 word_sless_alt)
  have l: "length (dec v) \<le> 20"
    using length_dec_sint64 [of val] by (auto simp: v dec_int_def split: if_splits)
  obtain b p where bp: "fromll_loop v (fresh_bytes a 32) 31 = (b, p)" by (cases "fromll_loop v (fresh_bytes a 32) 31")
  have b: "length b = 32" "drop (32 - length (dec v)) b = dec v" "p = 31 - length (dec v)"
    using fromll_loop_spec [of v 31 "fresh_bytes a 32"] l bp by simp_all
  show ?thesis
  proof (cases "val <s 0")
    case False
    have p1: "Suc p = 32 - length (dec v)" "32 - (32 - length (dec v)) = length (dec v)"
      using b(3) l by simp_all
    have "sdsfromlonglong a val = sdsnewlen a (Some (drop (p + 1) b)) (32 - (p + 1))"
      using False bp by (simp add: sdsfromlonglong_def v_def)
    then show ?thesis
      using sdsnewlen_yields [of "length (dec v)" "dec v" a] b(2) False
      by (simp add: p1) (simp add: v dec_int_def word_sless_alt)
  next
    case True
    have p1: "Suc p = 32 - length (dec v)" "p < 32" "32 - p = Suc (length (dec v))" using b(3) l by simp_all
    have ne: "length (dec v) \<noteq> 0" by simp
    have "drop p (b[p := CHR ''-'']) = CHR ''-'' # dec v"
      using p1 b by (simp add: drop_update_swap Cons_nth_drop_Suc [symmetric])
    moreover have "p - 1 + 1 = p" using b(3) l by simp
    ultimately have "sdsfromlonglong a val = sdsnewlen a (Some (CHR ''-'' # dec v)) (Suc (length (dec v)))"
      using True bp p1(3) by (simp add: sdsfromlonglong_def v_def Let_def)
    then show ?thesis
      using sdsnewlen_yields [of "Suc (length (dec v))" "CHR ''-'' # dec v" a] True
      by (simp add: v dec_int_def word_sless_alt)
  qed
qed

lemma sdsmapchars_spec:
  "sds_wf s \<Longrightarrow> sds_wf (sdsmapchars s from to n)
     \<and> content (sdsmapchars s from to n) = map (mapchar from to n) (content s)"
  by (simp add: sdsmapchars_def sds_wf_def sds_open_def content_def sdslen_def map_prefix_map nth_append)

end
