(* ===== verification/Hiredis_Dict.thy ===== *)
theory Hiredis_Dict
  imports Hiredis_Sds "HOL-Library.Multiset"
begin

text \<open>
  The chained hash table of the Redis client, \<open>hiredis-master/dict.h\<close> and \<open>dict.c\<close>. A chain of
  entries linked by \<open>next\<close> is a list, the null pointer the empty list; the table is a list of
  chains. The table of functions \<open>dictType\<close> is a record of HOL functions, optional where the code
  tests them against null; the keys and values handed to the destructors are recorded in
  \<open>freed_keys\<close> and \<open>freed_vals\<close>. \<open>None\<close> as the result of an operation is a failed assertion.
  Sizes are \<open>unsigned long\<close> in C and naturals here. Memory for entries and tables is assumed to be
  granted, as the source does.

  The invariant is \<open>dict_wf\<close>; the abstraction is the finite map \<open>dict_map\<close>. The laws of a finite map
  are stated once as the locale \<open>finite_map\<close>, and the table is shown to satisfy them for every key
  type whose comparison is equality, in particular for the callback tables of \<open>async.c\<close>.
\<close>

section \<open>Data\<close>

type_synonym ('k, 'v) chain = "('k \<times> 'v) list"

record ('k, 'v) dictType =
  hashFunction :: "'k \<Rightarrow> 32 word"
  keyDup :: "('k \<Rightarrow> 'k) option"
  valDup :: "('v \<Rightarrow> 'v) option"
  keyCompare :: "('k \<Rightarrow> 'k \<Rightarrow> bool) option"
  keyDestructor :: bool
  valDestructor :: bool

record ('k, 'v) dict =
  dtable :: "('k, 'v) chain list"
  dsize :: nat
  sizemask :: nat
  used :: nat
  freed_keys :: "'k list"
  freed_vals :: "'v list"

datatype dict_status = DICT_OK | DICT_ERR

definition DICT_HT_INITIAL_SIZE :: nat where
  "DICT_HT_INITIAL_SIZE = 4"

definition LONG_MAX :: nat where
  "LONG_MAX = 2 ^ 63 - 1"

section \<open>The macros of dict.h\<close>

definition dictFreeEntryVal :: "('k, 'v) dictType \<Rightarrow> 'k \<times> 'v \<Rightarrow> ('k, 'v) dict \<Rightarrow> ('k, 'v) dict" where
  "dictFreeEntryVal ty entry ht =
     (if valDestructor ty then ht\<lparr>freed_vals := freed_vals ht @ [snd entry]\<rparr> else ht)"

definition dictFreeEntryKey :: "('k, 'v) dictType \<Rightarrow> 'k \<times> 'v \<Rightarrow> ('k, 'v) dict \<Rightarrow> ('k, 'v) dict" where
  "dictFreeEntryKey ty entry ht =
     (if keyDestructor ty then ht\<lparr>freed_keys := freed_keys ht @ [fst entry]\<rparr> else ht)"

definition dictSetHashVal :: "('k, 'v) dictType \<Rightarrow> 'v \<Rightarrow> 'v" where
  "dictSetHashVal ty v = (case valDup ty of Some dup \<Rightarrow> dup v | None \<Rightarrow> v)"

definition dictSetHashKey :: "('k, 'v) dictType \<Rightarrow> 'k \<Rightarrow> 'k" where
  "dictSetHashKey ty k = (case keyDup ty of Some dup \<Rightarrow> dup k | None \<Rightarrow> k)"

definition dictCompareHashKeys :: "('k, 'v) dictType \<Rightarrow> 'k \<Rightarrow> 'k \<Rightarrow> bool" where
  "dictCompareHashKeys ty k1 k2 = (case keyCompare ty of Some cmp \<Rightarrow> cmp k1 k2 | None \<Rightarrow> k1 = k2)"

definition dictHashKey :: "('k, 'v) dictType \<Rightarrow> 'k \<Rightarrow> 32 word" where
  "dictHashKey ty k = hashFunction ty k"

definition slot :: "('k, 'v) dictType \<Rightarrow> nat \<Rightarrow> 'k \<Rightarrow> nat" where
  "slot ty msk k = unat (dictHashKey ty k) AND msk"

section \<open>Operations\<close>

definition dictGenHashFunction :: "byte list \<Rightarrow> 32 word" where
  "dictGenHashFunction buf = fold (\<lambda>c hash. (push_bit 5 hash + hash) + ucast c) buf 5381"

definition dictReset :: "('k, 'v) dict \<Rightarrow> ('k, 'v) dict" where
  "dictReset ht = ht\<lparr>dtable := [], dsize := 0, sizemask := 0, used := 0\<rparr>"

definition dictCreate :: "('k, 'v) dict" where
  "dictCreate = dictReset \<lparr>dtable = [], dsize = 0, sizemask = 0, used = 0, freed_keys = [], freed_vals = []\<rparr>"

text \<open>The doubling loop starts at the initial size; the test for zero only makes it total.\<close>

function next_power :: "nat \<Rightarrow> nat \<Rightarrow> nat" where
  "next_power i sz = (if sz \<le> i \<or> i = 0 then i else next_power (i * 2) sz)"
  by pat_completeness auto
termination by (relation "measure (\<lambda>(i, sz). sz - i)") auto

declare next_power.simps [simp del]

definition dictNextPower :: "nat \<Rightarrow> nat" where
  "dictNextPower sz = (if sz \<ge> LONG_MAX then LONG_MAX else next_power DICT_HT_INITIAL_SIZE sz)"

text \<open>Moving one chain: every entry goes to the front of its new chain, and \<open>used\<close> counts down.\<close>

fun move_chain :: "('k, 'v) dictType \<Rightarrow> nat \<Rightarrow> ('k, 'v) chain \<Rightarrow> ('k, 'v) chain list \<times> nat
    \<Rightarrow> ('k, 'v) chain list \<times> nat" where
  "move_chain ty msk [] st = st"
| "move_chain ty msk (e # es) (tab, cnt) =
     (let h = slot ty msk (fst e)
      in move_chain ty msk es (tab[h := e # tab ! h], cnt - 1))"

fun move_chains :: "('k, 'v) dictType \<Rightarrow> nat \<Rightarrow> ('k, 'v) chain list \<Rightarrow> ('k, 'v) chain list \<times> nat
    \<Rightarrow> ('k, 'v) chain list \<times> nat" where
  "move_chains ty msk [] st = st"
| "move_chains ty msk (c # cs) (tab, cnt) =
     (if cnt > 0 then move_chains ty msk cs (if c = [] then (tab, cnt) else move_chain ty msk c (tab, cnt))
      else (tab, cnt))"

definition dictExpand :: "('k, 'v) dictType \<Rightarrow> ('k, 'v) dict \<Rightarrow> nat \<Rightarrow> (dict_status \<times> ('k, 'v) dict) option" where
  "dictExpand ty ht sz =
     (let realsize = dictNextPower sz
      in if used ht > sz then Some (DICT_ERR, ht)
         else
           let (tab, cnt) = move_chains ty (realsize - 1) (take (dsize ht) (dtable ht))
                              (replicate realsize [], used ht)
           in if cnt \<noteq> 0 then None
              else Some (DICT_OK, ht\<lparr>dtable := tab, dsize := realsize, sizemask := realsize - 1,
                                    used := used ht\<rparr>))"

definition dictExpandIfNeeded :: "('k, 'v) dictType \<Rightarrow> ('k, 'v) dict \<Rightarrow> (dict_status \<times> ('k, 'v) dict) option" where
  "dictExpandIfNeeded ty ht =
     (if dsize ht = 0 then dictExpand ty ht DICT_HT_INITIAL_SIZE
      else if used ht = dsize ht then dictExpand ty ht (dsize ht * 2)
      else Some (DICT_OK, ht))"

fun chain_find :: "('k, 'v) dictType \<Rightarrow> 'k \<Rightarrow> ('k, 'v) chain \<Rightarrow> ('k \<times> 'v) option" where
  "chain_find ty key [] = None"
| "chain_find ty key (he # rest) =
     (if dictCompareHashKeys ty key (fst he) then Some he else chain_find ty key rest)"

text \<open>The index is \<open>-1\<close> (here \<open>None\<close>) if the key exists or the table could not be expanded.\<close>

definition dictKeyIndex :: "('k, 'v) dictType \<Rightarrow> ('k, 'v) dict \<Rightarrow> 'k \<Rightarrow> (nat option \<times> ('k, 'v) dict) option" where
  "dictKeyIndex ty ht key = do {
     (st, ht) \<leftarrow> dictExpandIfNeeded ty ht;
     (if st = DICT_ERR then Some (None, ht)
      else
        let h = slot ty (sizemask ht) key
        in Some (case chain_find ty key (dtable ht ! h) of Some e \<Rightarrow> None | None \<Rightarrow> Some h, ht))
   }"

definition dictAdd :: "('k, 'v) dictType \<Rightarrow> ('k, 'v) dict \<Rightarrow> 'k \<Rightarrow> 'v \<Rightarrow> (dict_status \<times> ('k, 'v) dict) option" where
  "dictAdd ty ht key val = do {
     (index, ht) \<leftarrow> dictKeyIndex ty ht key;
     (case index of
        None \<Rightarrow> Some (DICT_ERR, ht)
      | Some i \<Rightarrow>
          let entry = (dictSetHashKey ty key, dictSetHashVal ty val)
          in Some (DICT_OK, ht\<lparr>dtable := (dtable ht)[i := entry # dtable ht ! i], used := used ht + 1\<rparr>))
   }"

definition dictFind :: "('k, 'v) dictType \<Rightarrow> ('k, 'v) dict \<Rightarrow> 'k \<Rightarrow> ('k \<times> 'v) option" where
  "dictFind ty ht key =
     (if dsize ht = 0 then None else chain_find ty key (dtable ht ! slot ty (sizemask ht) key))"

text \<open>Storing through the entry pointer that \<open>dictFind\<close> returned.\<close>

fun chain_store :: "('k, 'v) dictType \<Rightarrow> 'k \<Rightarrow> 'v \<Rightarrow> ('k, 'v) chain \<Rightarrow> ('k, 'v) chain" where
  "chain_store ty key v [] = []"
| "chain_store ty key v (he # rest) =
     (if dictCompareHashKeys ty key (fst he) then (fst he, v) # rest else he # chain_store ty key v rest)"

definition dictReplace :: "('k, 'v) dictType \<Rightarrow> ('k, 'v) dict \<Rightarrow> 'k \<Rightarrow> 'v \<Rightarrow> (bool \<times> ('k, 'v) dict) option" where
  "dictReplace ty ht key val = do {
     (st, ht) \<leftarrow> dictAdd ty ht key val;
     (if st = DICT_OK then Some (True, ht)
      else do {
        auxentry \<leftarrow> dictFind ty ht key;
        let h = slot ty (sizemask ht) key;
        let ht = ht\<lparr>dtable := (dtable ht)[h := chain_store ty key (dictSetHashVal ty val) (dtable ht ! h)]\<rparr>;
        Some (False, dictFreeEntryVal ty auxentry ht)
      })
   }"

fun chain_unlink :: "('k, 'v) dictType \<Rightarrow> 'k \<Rightarrow> ('k, 'v) chain \<Rightarrow> (('k \<times> 'v) \<times> ('k, 'v) chain) option" where
  "chain_unlink ty key [] = None"
| "chain_unlink ty key (de # rest) =
     (if dictCompareHashKeys ty key (fst de) then Some (de, rest)
      else map_option (\<lambda>(e, r). (e, de # r)) (chain_unlink ty key rest))"

definition dictDelete :: "('k, 'v) dictType \<Rightarrow> ('k, 'v) dict \<Rightarrow> 'k \<Rightarrow> dict_status \<times> ('k, 'v) dict" where
  "dictDelete ty ht key =
     (if dsize ht = 0 then (DICT_ERR, ht)
      else
        let h = slot ty (sizemask ht) key
        in case chain_unlink ty key (dtable ht ! h) of
             None \<Rightarrow> (DICT_ERR, ht)
           | Some (de, rest) \<Rightarrow>
               let ht = ht\<lparr>dtable := (dtable ht)[h := rest]\<rparr>;
                   ht = dictFreeEntryVal ty de (dictFreeEntryKey ty de ht)
               in (DICT_OK, ht\<lparr>used := used ht - 1\<rparr>))"

fun clear_chain :: "('k, 'v) dictType \<Rightarrow> ('k, 'v) chain \<Rightarrow> ('k, 'v) dict \<Rightarrow> ('k, 'v) dict" where
  "clear_chain ty [] ht = ht"
| "clear_chain ty (he # rest) ht =
     (let ht = dictFreeEntryVal ty he (dictFreeEntryKey ty he ht)
      in clear_chain ty rest (ht\<lparr>used := used ht - 1\<rparr>))"

fun clear_chains :: "('k, 'v) dictType \<Rightarrow> ('k, 'v) chain list \<Rightarrow> ('k, 'v) dict \<Rightarrow> ('k, 'v) dict" where
  "clear_chains ty [] ht = ht"
| "clear_chains ty (c # cs) ht =
     (if used ht > 0 then clear_chains ty cs (clear_chain ty c ht) else ht)"

definition dictClear :: "('k, 'v) dictType \<Rightarrow> ('k, 'v) dict \<Rightarrow> dict_status \<times> ('k, 'v) dict" where
  "dictClear ty ht = (DICT_OK, dictReset (clear_chains ty (take (dsize ht) (dtable ht)) ht))"

text \<open>The iterator: the entry it stands on and the saved next entry are the remaining chains.\<close>

record ('k, 'v) dictIterator =
  it_index :: int
  it_entry :: "('k, 'v) chain"
  it_nextEntry :: "('k, 'v) chain"

definition dictGetIterator :: "('k, 'v) dictIterator" where
  "dictGetIterator = \<lparr>it_index = - 1, it_entry = [], it_nextEntry = []\<rparr>"

function dictNext :: "('k, 'v) dict \<Rightarrow> ('k, 'v) dictIterator \<Rightarrow> ('k \<times> 'v) option \<times> ('k, 'v) dictIterator" where
  "dictNext ht it =
     (if it_entry it = [] then
        let it = it\<lparr>it_index := it_index it + 1\<rparr>
        in if it_index it \<ge> int (dsize ht) then (None, it)
           else
             let it = it\<lparr>it_entry := dtable ht ! nat (it_index it)\<rparr>
             in case it_entry it of
                  [] \<Rightarrow> dictNext ht it
                | e # nxt \<Rightarrow> (Some e, it\<lparr>it_nextEntry := nxt\<rparr>)
      else
        let it = it\<lparr>it_entry := it_nextEntry it\<rparr>
        in case it_entry it of
             [] \<Rightarrow> dictNext ht it
           | e # nxt \<Rightarrow> (Some e, it\<lparr>it_nextEntry := nxt\<rparr>))"
  by pat_completeness auto
termination
  by (relation "measure (\<lambda>(ht, it). 2 * nat (int (dsize ht) - it_index it)
       + (if it_entry it = [] then 0 else 1))") auto

declare dictNext.simps [simp del]

section \<open>Invariant and abstraction\<close>

definition placed :: "('k, 'v) dictType \<Rightarrow> nat \<Rightarrow> ('k, 'v) chain list \<Rightarrow> bool" where
  "placed ty msk tab \<longleftrightarrow> (\<forall>i<length tab. \<forall>e\<in>set (tab ! i). slot ty msk (fst e) = i)"

definition dict_wf :: "('k, 'v) dictType \<Rightarrow> ('k, 'v) dict \<Rightarrow> bool" where
  "dict_wf ty ht \<longleftrightarrow>
     length (dtable ht) = dsize ht \<and> (dsize ht \<noteq> 0 \<longrightarrow> sizemask ht = dsize ht - 1) \<and>
     placed ty (sizemask ht) (dtable ht) \<and> distinct (map fst (concat (dtable ht))) \<and>
     used ht = length (concat (dtable ht))"

definition dict_map :: "('k, 'v) dict \<Rightarrow> 'k \<rightharpoonup> 'v" where
  "dict_map ht = map_of (concat (dtable ht))"

lemma and_nat_le: "(x AND y :: nat) \<le> y"
proof -
  have "int (x AND y) \<le> int y" using AND_upper2 [of "int y" "int x"] by (simp add: of_nat_and_eq)
  then show ?thesis by simp
qed

lemma slot_less: "0 < n \<Longrightarrow> slot ty (n - 1) k < n"
  using and_nat_le [of "unat (dictHashKey ty k)" "n - 1"] by (simp add: slot_def less_le_trans)

lemma concat_update:
  assumes "h < length tab"
  shows "concat (tab[h := c]) = concat (take h tab) @ c @ concat (drop (Suc h) tab)"
    and "concat tab = concat (take h tab) @ tab ! h @ concat (drop (Suc h) tab)"
proof -
  show "concat (tab[h := c]) = concat (take h tab) @ c @ concat (drop (Suc h) tab)"
    using assms by (simp add: upd_conv_take_nth_drop)
  have "tab = take h tab @ tab ! h # drop (Suc h) tab" using assms by (rule id_take_nth_drop)
  then have "concat tab = concat (take h tab @ tab ! h # drop (Suc h) tab)" by simp
  then show "concat tab = concat (take h tab) @ tab ! h @ concat (drop (Suc h) tab)" by simp
qed

lemma mset_concat_push:
  "h < length tab \<Longrightarrow> mset (concat (tab[h := e # tab ! h])) = add_mset e (mset (concat tab))"
  using concat_update(1) [of h tab "e # tab ! h"] concat_update(2) [of h tab] by simp

lemma placed_push:
  "placed ty msk tab \<Longrightarrow> slot ty msk (fst e) = h \<Longrightarrow> placed ty msk (tab[h := e # tab ! h])"
  by (cases "h < length tab") (auto simp: placed_def nth_list_update)

lemma placed_update:
  "placed ty msk tab \<Longrightarrow> h < length tab \<Longrightarrow> fst ` set c \<subseteq> fst ` set (tab ! h) \<Longrightarrow> placed ty msk (tab[h := c])"
proof -
  assume p: "placed ty msk tab" and h: "h < length tab" and c: "fst ` set c \<subseteq> fst ` set (tab ! h)"
  have "slot ty msk (fst e) = h" if "e \<in> set c" for e
  proof -
    from that c obtain e' where "e' \<in> set (tab ! h)" "fst e = fst e'" by blast
    with p h show ?thesis unfolding placed_def by metis
  qed
  with p h show ?thesis by (simp add: placed_def nth_list_update)
qed

section \<open>Rehashing\<close>

lemma move_chain_spec:
  assumes "\<And>k. slot ty msk k < length tab" "placed ty msk tab" "move_chain ty msk c (tab, cnt) = (tab', cnt')"
  shows "length tab' = length tab \<and> placed ty msk tab' \<and> mset (concat tab') = mset (concat tab) + mset c
    \<and> cnt' = cnt - length c"
  using assms
proof (induction c arbitrary: tab cnt)
  case (Cons e es)
  let ?h = "slot ty msk (fst e)"
  have "move_chain ty msk es (tab[?h := e # tab ! ?h], cnt - 1) = (tab', cnt')"
    using Cons.prems(3) by (simp add: Let_def)
  from Cons.IH [OF _ _ this] show ?case
    using Cons.prems placed_push [OF Cons.prems(2) refl, of e] mset_concat_push [OF Cons.prems(1), of "fst e" e]
    by simp
qed simp

lemma move_chains_spec:
  assumes "\<And>k. slot ty msk k < length tab" "placed ty msk tab" "cnt = length (concat cs)"
    "move_chains ty msk cs (tab, cnt) = (tab', cnt')"
  shows "length tab' = length tab \<and> placed ty msk tab' \<and> mset (concat tab') = mset (concat tab) + mset (concat cs)
    \<and> cnt' = 0"
  using assms
proof (induction cs arbitrary: tab cnt)
  case (Cons c cs)
  show ?case
  proof (cases "cnt > 0")
    case False
    then have "concat (c # cs) = []" using Cons.prems(3) by (metis length_0_conv not_gr_zero)
    moreover have "tab' = tab" "cnt' = 0" using False Cons.prems(4) by simp_all
    ultimately show ?thesis using Cons.prems(2) by simp
  next
    case True
    obtain tab1 cnt1 where m: "(if c = [] then (tab, cnt) else move_chain ty msk c (tab, cnt)) = (tab1, cnt1)"
      by (cases "if c = [] then (tab, cnt) else move_chain ty msk c (tab, cnt)")
    have one: "length tab1 = length tab \<and> placed ty msk tab1 \<and> mset (concat tab1) = mset (concat tab) + mset c
        \<and> cnt1 = cnt - length c"
    proof (cases "c = []")
      case False
      with m show ?thesis using move_chain_spec [OF Cons.prems(1,2)] by simp
    qed (use m Cons.prems(2) in auto)
    have "move_chains ty msk cs (tab1, cnt1) = (tab', cnt')" using Cons.prems(4) True m by simp
    from Cons.IH [OF _ _ _ this] one Cons.prems(1,3) show ?thesis by simp
  qed
qed simp

lemma next_power_ge: "0 < i \<Longrightarrow> sz \<le> next_power i sz \<and> i \<le> next_power i sz"
proof (induction i sz rule: next_power.induct)
  case (1 i sz)
  then show ?case by (subst (1 2) next_power.simps) force
qed

lemma next_power_power: "0 < i \<Longrightarrow> \<exists>j. next_power i sz = i * 2 ^ j"
proof (induction i sz rule: next_power.induct)
  case (1 i sz)
  show ?case
  proof (cases "sz \<le> i")
    case True
    then show ?thesis by (subst next_power.simps) (auto intro: exI [of _ 0])
  next
    case False
    with 1 obtain j where "next_power (i * 2) sz = i * 2 * 2 ^ j" by auto
    with False 1 show ?thesis by (subst next_power.simps) (auto intro: exI [of _ "Suc j"])
  qed
qed

lemma dictNextPower_pos: "0 < dictNextPower sz"
  using next_power_ge [of 4 sz] by (simp add: dictNextPower_def LONG_MAX_def DICT_HT_INITIAL_SIZE_def)

lemma dictExpand_spec:
  assumes wf: "dict_wf ty ht" and "used ht \<le> sz"
  obtains ht' where "dictExpand ty ht sz = Some (DICT_OK, ht')" "dict_wf ty ht'" "dict_map ht' = dict_map ht"
    "dsize ht' = dictNextPower sz" "freed_keys ht' = freed_keys ht" "freed_vals ht' = freed_vals ht"
    "mset (concat (dtable ht')) = mset (concat (dtable ht))"
proof -
  let ?n = "dictNextPower sz"
  obtain tab cnt where m: "move_chains ty (?n - 1) (take (dsize ht) (dtable ht)) (replicate ?n [], used ht) = (tab, cnt)"
    by (cases "move_chains ty (?n - 1) (take (dsize ht) (dtable ht)) (replicate ?n [], used ht)")
  have t: "take (dsize ht) (dtable ht) = dtable ht" using wf by (simp add: dict_wf_def)
  have tab: "length tab = ?n" "placed ty (?n - 1) tab" "mset (concat tab) = mset (concat (dtable ht))" "cnt = 0"
  proof -
    have sl: "slot ty (?n - 1) k < length (replicate ?n [])" for k
      unfolding length_replicate by (rule slot_less [OF dictNextPower_pos])
    have "placed ty (?n - 1) (replicate ?n [])" by (simp add: placed_def)
    moreover have "used ht = length (concat (dtable ht))" using wf by (simp add: dict_wf_def)
    ultimately show "length tab = ?n" "placed ty (?n - 1) tab" "mset (concat tab) = mset (concat (dtable ht))"
      "cnt = 0"
      using move_chains_spec [OF sl _ _ m [unfolded t]] by (simp_all add: mset_concat)
  qed
  let ?ht = "ht\<lparr>dtable := tab, dsize := ?n, sizemask := ?n - 1, used := used ht\<rparr>"
  have d: "distinct (map fst (concat tab)) = distinct (map fst (concat (dtable ht)))"
    using tab(3) by (metis mset_map mset_eq_imp_distinct_iff)
  have "dict_wf ty ?ht"
    using wf tab d mset_eq_length [OF tab(3)] by (simp add: dict_wf_def)
  moreover have "dict_map ?ht = dict_map ht"
  proof -
    have "distinct (map fst (concat (dtable ht)))" using wf by (simp add: dict_wf_def)
    then have "map_of (concat tab) = map_of (concat (dtable ht))"
      using d mset_eq_setD [OF tab(3)] by (intro map_of_inject_set [THEN iffD2]) simp_all
    then show ?thesis by (simp add: dict_map_def)
  qed
  ultimately show thesis
    using that [of ?ht] m tab(3,4) assms(2) by (simp add: dictExpand_def Let_def)
qed

lemma filter_key_id:
  assumes "key \<notin> fst ` set c" shows "filter (\<lambda>e. fst e \<noteq> key) c = c"
  using assms by (intro filter_True) (metis image_eqI)

lemma map_of_middle:
  "map_of xs k = None \<Longrightarrow> map_of zs k = None \<Longrightarrow> map_of (xs @ ys @ zs) k = map_of ys k"
  by (simp add: map_add_def split: option.splits)

lemma distinct_middle:
  "distinct (xs @ ys @ zs) \<Longrightarrow> distinct ys' \<Longrightarrow> set ys' \<subseteq> set ys \<Longrightarrow> distinct (xs @ ys' @ zs)"
  by auto

lemma length_filter_key:
  "distinct (map fst c) \<Longrightarrow> map_of c key = Some w \<Longrightarrow> length (filter (\<lambda>e. fst e \<noteq> key) c) + 1 = length c"
proof (induction c)
  case (Cons e c)
  show ?case
  proof (cases "fst e = key")
    case True
    then have "key \<notin> fst ` set c" using Cons.prems(1) by auto
    with True show ?thesis by (simp add: filter_key_id)
  next
    case False
    with Cons show ?thesis by (cases e) auto
  qed
qed simp

lemma map_of_filter_key: "map_of (filter (\<lambda>e. fst e \<noteq> key) c) = (map_of c)(key := None)"
  by (induction c) (auto simp: fun_eq_iff)

section \<open>The contract of a key type and of a finite map\<close>

text \<open>What the table relies on in a \<open>dictType\<close>: keys are compared by equality and duplication
  yields an equal key and value.\<close>

locale dict_type =
  fixes ty :: "('k, 'v) dictType"
  assumes compare_eq: "dictCompareHashKeys ty k1 k2 \<longleftrightarrow> k1 = k2"
    and key_dup: "dictSetHashKey ty k = k"
    and val_dup: "dictSetHashVal ty v = v"
begin

lemma chain_find_map_of: "chain_find ty key c = map_option (Pair key) (map_of c key)"
  by (induction c) (auto simp: compare_eq)

lemma map_of_slot:
  assumes "dict_wf ty ht" "dsize ht \<noteq> 0"
  shows "dict_map ht key = map_of (dtable ht ! slot ty (sizemask ht) key) key"
proof -
  let ?h = "slot ty (sizemask ht) key" and ?t = "dtable ht"
  have h: "?h < length ?t" using assms slot_less [of "dsize ht"] by (simp add: dict_wf_def)
  have p: "placed ty (sizemask ht) ?t" using assms(1) by (simp add: dict_wf_def)
  have none: "map_of (concat cs) key = None" if "\<forall>c\<in>set cs. \<forall>e\<in>set c. fst e \<noteq> key"
    for cs :: "('k, 'v) chain list"
    using that by (auto simp: map_of_eq_None_iff)
  have other: "\<forall>e\<in>set (?t ! j). fst e \<noteq> key" if "j < length ?t" "j \<noteq> ?h" for j
    using p that by (auto simp: placed_def)
  moreover have "\<forall>c\<in>set (take ?h ?t). \<forall>e\<in>set c. fst e \<noteq> key"
  proof
    fix c assume "c \<in> set (take ?h ?t)"
    then obtain j where "j < ?h" "c = ?t ! j" using h by (auto simp: in_set_conv_nth)
    then show "\<forall>e\<in>set c. fst e \<noteq> key" using other [of j] h by simp
  qed
  moreover have "\<forall>c\<in>set (drop (Suc ?h) ?t). \<forall>e\<in>set c. fst e \<noteq> key"
  proof
    fix c assume "c \<in> set (drop (Suc ?h) ?t)"
    then obtain j where j: "j < length (drop (Suc ?h) ?t)" "c = drop (Suc ?h) ?t ! j"
      by (auto simp only: in_set_conv_nth)
    then show "\<forall>e\<in>set c. fst e \<noteq> key" using other [of "Suc ?h + j"] by simp
  qed
  ultimately show ?thesis
    using concat_update(2) [OF h] map_of_middle [OF none none] by (simp add: dict_map_def)
qed

lemma dictFind_map:
  assumes "dict_wf ty ht"
  shows "dictFind ty ht key = map_option (Pair key) (dict_map ht key)"
proof (cases "dsize ht = 0")
  case True
  with assms show ?thesis by (simp add: dictFind_def dict_wf_def dict_map_def)
next
  case False
  with map_of_slot [OF assms False] show ?thesis by (simp add: dictFind_def chain_find_map_of)
qed

lemma dictExpandIfNeeded_spec:
  assumes "dict_wf ty ht"
  obtains ht' where "dictExpandIfNeeded ty ht = Some (DICT_OK, ht')" "dict_wf ty ht'"
    "dict_map ht' = dict_map ht" "dsize ht' \<noteq> 0" "freed_keys ht' = freed_keys ht" "freed_vals ht' = freed_vals ht"
proof -
  consider "dsize ht = 0" | "dsize ht \<noteq> 0" "used ht = dsize ht" | "dsize ht \<noteq> 0" "used ht \<noteq> dsize ht" by blast
  then show thesis
  proof cases
    case 1
    then have "used ht \<le> DICT_HT_INITIAL_SIZE" using assms by (simp add: dict_wf_def)
    then obtain ht' where "dictExpand ty ht DICT_HT_INITIAL_SIZE = Some (DICT_OK, ht')" "dict_wf ty ht'"
      "dict_map ht' = dict_map ht" "dsize ht' = dictNextPower DICT_HT_INITIAL_SIZE"
      "freed_keys ht' = freed_keys ht" "freed_vals ht' = freed_vals ht"
      by (rule dictExpand_spec [OF assms])
    with 1 that dictNextPower_pos show thesis by (simp add: dictExpandIfNeeded_def)
  next
    case 2
    then have "used ht \<le> dsize ht * 2" by simp
    then obtain ht' where "dictExpand ty ht (dsize ht * 2) = Some (DICT_OK, ht')" "dict_wf ty ht'"
      "dict_map ht' = dict_map ht" "dsize ht' = dictNextPower (dsize ht * 2)"
      "freed_keys ht' = freed_keys ht" "freed_vals ht' = freed_vals ht"
      by (rule dictExpand_spec [OF assms])
    with 2 that dictNextPower_pos show thesis by (simp add: dictExpandIfNeeded_def)
  next
    case 3
    with that [of ht] assms show thesis by (simp add: dictExpandIfNeeded_def)
  qed
qed

lemma dictAdd_spec:
  assumes wf: "dict_wf ty ht"
  obtains ht' where
    "dictAdd ty ht key v = Some (if dict_map ht key = None then DICT_OK else DICT_ERR, ht')"
    "dict_wf ty ht'" "dict_map ht' = (if dict_map ht key = None then (dict_map ht)(key \<mapsto> v) else dict_map ht)"
    "freed_keys ht' = freed_keys ht" "freed_vals ht' = freed_vals ht" "dsize ht' \<noteq> 0"
proof -
  obtain h1 where h1: "dictExpandIfNeeded ty ht = Some (DICT_OK, h1)" "dict_wf ty h1"
    "dict_map h1 = dict_map ht" "dsize h1 \<noteq> 0" "freed_keys h1 = freed_keys ht" "freed_vals h1 = freed_vals ht"
    by (rule dictExpandIfNeeded_spec [OF wf])
  let ?s = "slot ty (sizemask h1) key" and ?t = "dtable h1"
  have find: "chain_find ty key (?t ! ?s) = map_option (Pair key) (dict_map ht key)"
    using map_of_slot [OF h1(2,4), of key] h1(3) by (simp add: chain_find_map_of)
  have s: "?s < length ?t" using h1 slot_less [of "dsize h1"] by (simp add: dict_wf_def)
  show thesis
  proof (cases "dict_map ht key")
    case (Some w)
    with that [of h1] find h1 show thesis by (simp add: dictAdd_def dictKeyIndex_def Let_def)
  next
    case None
    let ?h2 = "h1\<lparr>dtable := ?t[?s := (key, v) # ?t ! ?s], used := used h1 + 1\<rparr>"
    have m: "mset (concat (?t[?s := (key, v) # ?t ! ?s])) = mset ((key, v) # concat ?t)"
      using mset_concat_push [OF s] by simp
    have "dict_map h1 key = None" using None h1(3) by simp
    then have "key \<notin> fst ` set (concat ?t)" by (simp add: dict_map_def map_of_eq_None_iff)
    then have d: "distinct (map fst ((key, v) # concat ?t))" using h1(2) by (simp add: dict_wf_def)
    then have d2: "distinct (map fst (concat (?t[?s := (key, v) # ?t ! ?s])))"
      using m by (metis mset_map mset_eq_imp_distinct_iff)
    have "map_of (concat (?t[?s := (key, v) # ?t ! ?s])) = map_of ((key, v) # concat ?t)"
      using d d2 mset_eq_setD [OF m] by (intro map_of_inject_set [THEN iffD2]) simp_all
    then have "dict_map ?h2 = (dict_map ht)(key \<mapsto> v)" using h1(3) by (simp add: dict_map_def)
    moreover have "dict_wf ty ?h2"
    proof -
      have "placed ty (sizemask h1) ?t" using h1(2) by (simp add: dict_wf_def)
      then have "placed ty (sizemask h1) (?t[?s := (key, v) # ?t ! ?s])" by (rule placed_push) simp
      then show ?thesis using h1(2) d2 mset_eq_length [OF m] by (simp add: dict_wf_def)
    qed
    ultimately show thesis
      using that [of ?h2] None find h1
      by (simp add: dictAdd_def dictKeyIndex_def Let_def key_dup val_dup)
  qed
qed

lemma chain_store_spec:
  "map_of c key = Some w \<Longrightarrow> distinct (map fst c) \<Longrightarrow>
   map fst (chain_store ty key v c) = map fst c \<and> map_of (chain_store ty key v c) = (map_of c)(key \<mapsto> v)"
  by (induction c) (auto simp: compare_eq split: if_splits)

lemma chain_unlink_spec:
  assumes "distinct (map fst c)"
  shows "chain_unlink ty key c = (case map_of c key of None \<Rightarrow> None
     | Some w \<Rightarrow> Some ((key, w), filter (\<lambda>e. fst e \<noteq> key) c))"
  using assms
proof (induction c)
  case (Cons e c)
  obtain a b where e: "e = (a, b)" by (cases e)
  show ?case
  proof (cases "a = key")
    case True
    then have "key \<notin> fst ` set c" using Cons.prems e by auto
    with True e show ?thesis by (simp add: compare_eq filter_key_id)
  next
    case False
    with Cons e show ?thesis by (auto simp: compare_eq split: option.splits)
  qed
qed simp

lemma chain_distinct: "dict_wf ty ht \<Longrightarrow> h < length (dtable ht) \<Longrightarrow> distinct (map fst (dtable ht ! h))"
  using concat_update(2) [of h "dtable ht"] by (simp add: dict_wf_def)

text \<open>Replacing the chain of a key's slot by one that maps the key to \<open>new\<close> and agrees elsewhere.\<close>

lemma chain_change:
  assumes wf: "dict_wf ty ht" "dsize ht \<noteq> 0"
    and ht': "dtable ht' = (dtable ht)[slot ty (sizemask ht) key := c]" "dsize ht' = dsize ht"
      "sizemask ht' = sizemask ht" "used ht' = used ht + length c - length (dtable ht ! slot ty (sizemask ht) key)"
    and c: "fst ` set c \<subseteq> fst ` set (dtable ht ! slot ty (sizemask ht) key)" "distinct (map fst c)"
      "map_of c = (map_of (dtable ht ! slot ty (sizemask ht) key))(key := new)"
  shows "dict_wf ty ht' \<and> dict_map ht' = (dict_map ht)(key := new)"
proof -
  let ?h = "slot ty (sizemask ht) key" and ?t = "dtable ht"
  have h: "?h < length ?t" using wf slot_less [of "dsize ht"] by (simp add: dict_wf_def)
  note cu = concat_update(1) [OF h, of c] concat_update(2) [OF h]
  have "distinct (map fst (concat ?t))" using wf(1) by (simp add: dict_wf_def)
  then have "distinct (map fst (concat (?t[?h := c])))"
    unfolding cu map_append by (rule distinct_middle) (use c(1,2) in simp_all)
  moreover have "placed ty (sizemask ht) (?t[?h := c])"
    by (rule placed_update [OF _ h c(1)]) (use wf(1) in \<open>simp add: dict_wf_def\<close>)
  moreover have "used ht' = length (concat (?t[?h := c]))"
  proof -
    have "used ht = length (concat ?t)" using wf(1) by (simp add: dict_wf_def)
    then show ?thesis unfolding cu using ht'(4) by simp
  qed
  ultimately have wf': "dict_wf ty ht'" using wf(1) ht' by (simp add: dict_wf_def)
  have "dict_map ht' k = ((dict_map ht)(key := new)) k" for k
  proof (cases "slot ty (sizemask ht) k = ?h")
    case True
    then show ?thesis
      using map_of_slot [OF wf' , of k] map_of_slot [OF wf, of k] wf(2) ht' c(3) h by simp
  next
    case False
    then have "k \<noteq> key" by auto
    with False show ?thesis
      using map_of_slot [OF wf', of k] map_of_slot [OF wf, of k] wf(2) ht' by simp
  qed
  with wf' show ?thesis by blast
qed

lemma dictReplace_spec:
  assumes wf: "dict_wf ty ht"
  obtains ht' where "dictReplace ty ht key v = Some (dict_map ht key = None, ht')"
    "dict_wf ty ht'" "dict_map ht' = (dict_map ht)(key \<mapsto> v)"
proof -
  obtain h1 where h1: "dictAdd ty ht key v = Some (if dict_map ht key = None then DICT_OK else DICT_ERR, h1)"
    "dict_wf ty h1" "dict_map h1 = (if dict_map ht key = None then (dict_map ht)(key \<mapsto> v) else dict_map ht)"
    "dsize h1 \<noteq> 0"
    by (rule dictAdd_spec [OF wf])
  show thesis
  proof (cases "dict_map ht key")
    case None
    with h1 that [of h1] show thesis by (simp add: dictReplace_def)
  next
    case (Some w)
    let ?s = "slot ty (sizemask h1) key"
    let ?c = "chain_store ty key v (dtable h1 ! ?s)"
    let ?h2 = "dictFreeEntryVal ty (key, w) (h1\<lparr>dtable := (dtable h1)[?s := ?c]\<rparr>)"
    have s: "?s < length (dtable h1)" using h1(2,4) slot_less [of "dsize h1"] by (simp add: dict_wf_def)
    have mo: "map_of (dtable h1 ! ?s) key = Some w"
      using map_of_slot [OF h1(2,4), of key] h1(3) Some by simp
    note cs = chain_store_spec [OF mo chain_distinct [OF h1(2) s], of v]
    have "length ?c = length (dtable h1 ! ?s)" using cs by (metis length_map)
    then have "dict_wf ty ?h2 \<and> dict_map ?h2 = (dict_map h1)(key := Some v)"
      using cs chain_distinct [OF h1(2) s]
      by (intro chain_change [OF h1(2,4), where c = ?c])
         (auto simp: dictFreeEntryVal_def simp flip: set_map)
    moreover have "dictReplace ty ht key v = Some (False, ?h2)"
      using h1 Some by (simp add: dictReplace_def dictFind_map val_dup Let_def)
    ultimately show thesis using that [of ?h2] h1(3) Some by simp
  qed
qed

lemma dictDelete_spec:
  assumes wf: "dict_wf ty ht"
  shows "fst (dictDelete ty ht key) = (if dict_map ht key = None then DICT_ERR else DICT_OK)"
    "dict_wf ty (snd (dictDelete ty ht key))" "dict_map (snd (dictDelete ty ht key)) = (dict_map ht)(key := None)"
proof -
  have "fst (dictDelete ty ht key) = (if dict_map ht key = None then DICT_ERR else DICT_OK)
    \<and> dict_wf ty (snd (dictDelete ty ht key)) \<and> dict_map (snd (dictDelete ty ht key)) = (dict_map ht)(key := None)"
  proof (cases "dsize ht = 0")
    case True
    with wf show ?thesis by (auto simp: dictDelete_def dict_wf_def dict_map_def)
  next
    case False
    let ?s = "slot ty (sizemask ht) key"
    have s: "?s < length (dtable ht)" using wf False slot_less [of "dsize ht"] by (simp add: dict_wf_def)
    note cd = chain_distinct [OF wf s] and mo = map_of_slot [OF wf False, of key]
    show ?thesis
    proof (cases "dict_map ht key")
      case None
      with mo have "chain_unlink ty key (dtable ht ! ?s) = None" by (simp add: chain_unlink_spec [OF cd])
      with False None wf show ?thesis by (auto simp: dictDelete_def Let_def)
    next
      case (Some w)
      let ?c = "filter (\<lambda>e. fst e \<noteq> key) (dtable ht ! ?s)"
      have mw: "map_of (dtable ht ! ?s) key = Some w" using mo Some by simp
      have u: "chain_unlink ty key (dtable ht ! ?s) = Some ((key, w), ?c)"
        by (simp add: chain_unlink_spec [OF cd] mw)
      have "length ?c + 1 = length (dtable ht ! ?s)"
        using length_filter_key [OF cd mw] by simp
      then have "dict_wf ty (snd (dictDelete ty ht key)) \<and>
          dict_map (snd (dictDelete ty ht key)) = (dict_map ht)(key := None)"
        using False u wf cd
        by (intro chain_change [OF wf False, where c = ?c])
           (auto simp: dictDelete_def Let_def dictFreeEntryVal_def dictFreeEntryKey_def distinct_map_filter
             map_of_filter_key)
      moreover have "fst (dictDelete ty ht key) = DICT_OK" using u False by (simp add: dictDelete_def Let_def)
      ultimately show ?thesis using Some by simp
    qed
  qed
  then show "fst (dictDelete ty ht key) = (if dict_map ht key = None then DICT_ERR else DICT_OK)"
    "dict_wf ty (snd (dictDelete ty ht key))" "dict_map (snd (dictDelete ty ht key)) = (dict_map ht)(key := None)"
    by simp_all
qed

end

text \<open>A finite map with updates that must not fail, as its clients see it.\<close>

locale finite_map =
  fixes invar :: "'d \<Rightarrow> bool"
    and lookup :: "'d \<Rightarrow> 'k \<Rightarrow> 'v option"
    and update :: "'k \<Rightarrow> 'v \<Rightarrow> 'd \<Rightarrow> 'd option"
    and remove :: "'k \<Rightarrow> 'd \<Rightarrow> 'd"
  assumes update_law: "invar d \<Longrightarrow> \<exists>d'. update k v d = Some d' \<and> invar d' \<and> lookup d' = (lookup d)(k \<mapsto> v)"
    and remove_law: "invar d \<Longrightarrow> invar (remove k d) \<and> lookup (remove k d) = (lookup d)(k := None)"
begin

fun apply_ops :: "('k \<times> 'v option) list \<Rightarrow> 'd \<Rightarrow> 'd option" where
  "apply_ops [] d = Some d"
| "apply_ops ((k, Some v) # ops) d = update k v d \<bind> apply_ops ops"
| "apply_ops ((k, None) # ops) d = apply_ops ops (remove k d)"

lemma apply_ops_refines:
  "invar d \<Longrightarrow> \<exists>d'. apply_ops ops d = Some d' \<and> invar d' \<and>
     lookup d' = fold (\<lambda>(k, r) m. m(k := r)) ops (lookup d)"
proof (induction ops d rule: apply_ops.induct)
  case (2 k v ops d)
  from update_law [OF 2(2)] obtain d1 where "update k v d = Some d1" "invar d1"
    "lookup d1 = (lookup d)(k \<mapsto> v)" by blast
  then show ?case using 2(1) [of d1] by auto
next
  case (3 k ops d)
  note r = remove_law [OF 3(2), of k]
  from 3(1) [OF r [THEN conjunct1]] r show ?case by simp
qed simp

end

section \<open>Clearing and iterating\<close>

lemma clear_chain_fields:
  "dtable (clear_chain ty c ht) = dtable ht \<and> used (clear_chain ty c ht) = used ht - length c \<and>
   freed_keys (clear_chain ty c ht) = freed_keys ht @ (if keyDestructor ty then map fst c else []) \<and>
   freed_vals (clear_chain ty c ht) = freed_vals ht @ (if valDestructor ty then map snd c else [])"
  by (induction c arbitrary: ht) (auto simp: Let_def dictFreeEntryVal_def dictFreeEntryKey_def)

lemma clear_chains_freed:
  "used ht = length (concat cs) \<Longrightarrow>
   freed_keys (clear_chains ty cs ht) = freed_keys ht @ (if keyDestructor ty then map fst (concat cs) else []) \<and>
   freed_vals (clear_chains ty cs ht) = freed_vals ht @ (if valDestructor ty then map snd (concat cs) else [])"
proof (induction cs arbitrary: ht)
  case (Cons c cs)
  show ?case
  proof (cases "used ht > 0")
    case True
    then show ?thesis using Cons.IH [of "clear_chain ty c ht"] Cons.prems by (simp add: clear_chain_fields)
  next
    case False
    then have "concat (c # cs) = []" using Cons.prems by (metis length_0_conv not_gr_zero)
    with False show ?thesis by simp
  qed
qed simp

lemma dictClear_spec:
  assumes "dict_wf ty ht"
  shows "dict_wf ty (snd (dictClear ty ht)) \<and> dict_map (snd (dictClear ty ht)) = Map.empty \<and>
    freed_keys (snd (dictClear ty ht)) = freed_keys ht @ (if keyDestructor ty then map fst (concat (dtable ht)) else []) \<and>
    freed_vals (snd (dictClear ty ht)) = freed_vals ht @ (if valDestructor ty then map snd (concat (dtable ht)) else [])"
  using clear_chains_freed [of ht "dtable ht" ty] assms
  by (auto simp: dictClear_def dictReset_def dict_wf_def placed_def dict_map_def)

text \<open>Draining an iterator: the loop \<open>while ((de = dictNext(it)) != NULL)\<close> of the clients.\<close>

function drain :: "('k, 'v) dict \<Rightarrow> nat \<Rightarrow> ('k, 'v) dictIterator \<Rightarrow> ('k \<times> 'v) list option" where
  "drain ht 0 it = None"
| "drain ht (Suc fuel) it =
     (case dictNext ht it of
        (None, it') \<Rightarrow> Some []
      | (Some de, it') \<Rightarrow> map_option ((#) de) (drain ht fuel it'))"
  by pat_completeness auto
termination by (relation "measure (\<lambda>(ht, fuel, it). fuel)") auto

declare drain.simps(2) [simp del]

text \<open>What an iterator has still to deliver.\<close>

definition pending :: "('k, 'v) dict \<Rightarrow> ('k, 'v) dictIterator \<Rightarrow> ('k \<times> 'v) list" where
  "pending ht it = (if it_entry it = [] then [] else it_nextEntry it)
     @ concat (drop (nat (it_index it + 1)) (dtable ht))"

definition iter_ok :: "('k, 'v) dict \<Rightarrow> ('k, 'v) dictIterator \<Rightarrow> bool" where
  "iter_ok ht it \<longleftrightarrow> length (dtable ht) = dsize ht \<and> - 1 \<le> it_index it"

lemma drop_index:
  assumes "length t = n" "- 1 \<le> i" "i + 1 < int n"
  shows "concat (drop (nat (i + 1)) t) = t ! nat (i + 1) @ concat (drop (nat (i + 2)) t)"
proof -
  have "nat (i + 2) = Suc (nat (i + 1))" using assms(2) by simp
  moreover have "nat (i + 1) < length t" using assms by simp
  ultimately show ?thesis by (simp add: Cons_nth_drop_Suc [symmetric] add.commute)
qed

lemma dictNext_pending:
  "iter_ok ht it \<Longrightarrow>
   (case dictNext ht it of
      (None, it') \<Rightarrow> pending ht it = []
    | (Some de, it') \<Rightarrow> pending ht it = de # pending ht it' \<and> iter_ok ht it')"
proof (induction ht it rule: dictNext.induct)
  case (1 ht it)
  note ok = "1.prems"
  let ?i = "it\<lparr>it_index := it_index it + 1\<rparr>"
  let ?e = "dtable ht ! nat (it_index it + 1)"
  consider (stop) "it_entry it = []" "int (dsize ht) \<le> it_index it + 1"
    | (bucket) "it_entry it = []" "\<not> int (dsize ht) \<le> it_index it + 1"
    | (chain) "it_entry it \<noteq> []" by blast
  then show ?case
  proof cases
    case stop
    then have "dictNext ht it = (None, ?i)" by (subst dictNext.simps) simp
    moreover have "length (dtable ht) \<le> nat (it_index it + 1)" using stop ok by (simp add: iter_ok_def)
    ultimately show ?thesis using stop by (simp add: pending_def)
  next
    case bucket
    let ?it = "?i\<lparr>it_entry := ?e\<rparr>"
    have p: "pending ht it = ?e @ concat (drop (nat (it_index it + 2)) (dtable ht))"
      using bucket ok drop_index [of "dtable ht" "dsize ht" "it_index it"] by (simp add: pending_def iter_ok_def)
    have ok': "iter_ok ht ?it" "iter_ok ht (?it\<lparr>it_nextEntry := ns\<rparr>)" for ns
      using ok by (simp_all add: iter_ok_def)
    show ?thesis
    proof (cases ?e)
      case Nil
      then have "dictNext ht it = dictNext ht ?it" using bucket by (subst dictNext.simps) (simp add: Let_def)
      moreover have "pending ht ?it = pending ht it" using p Nil by (simp add: pending_def add.commute)
      moreover have "case dictNext ht ?it of (None, it') \<Rightarrow> pending ht ?it = []
          | (Some de, it') \<Rightarrow> pending ht ?it = de # pending ht it' \<and> iter_ok ht it'"
        using "1.IH"(1) [OF bucket(1) refl _ refl] bucket Nil ok'(1)
        by (simp split: prod.splits option.splits)
      ultimately show ?thesis by (simp only:)
    next
      case (Cons e ns)
      then have "dictNext ht it = (Some e, ?it\<lparr>it_nextEntry := ns\<rparr>)"
        using bucket by (subst dictNext.simps) (simp add: Let_def)
      with p Cons ok'(2) show ?thesis by (simp add: pending_def add.commute)
    qed
  next
    case chain
    let ?it = "it\<lparr>it_entry := it_nextEntry it\<rparr>"
    have ok': "iter_ok ht ?it" "iter_ok ht (?it\<lparr>it_nextEntry := ns\<rparr>)" for ns
      using ok by (simp_all add: iter_ok_def)
    show ?thesis
    proof (cases "it_nextEntry it")
      case Nil
      then have "dictNext ht it = dictNext ht ?it" using chain by (subst dictNext.simps) (simp add: Let_def)
      moreover have "pending ht ?it = pending ht it" using chain Nil by (simp add: pending_def)
      moreover have "case dictNext ht ?it of (None, it') \<Rightarrow> pending ht ?it = []
          | (Some de, it') \<Rightarrow> pending ht ?it = de # pending ht it' \<and> iter_ok ht it'"
        by (rule "1.IH"(2) [OF chain refl _ ok'(1)]) (use Nil in simp)
      ultimately show ?thesis by (simp only:)
    next
      case (Cons e ns)
      then have "dictNext ht it = (Some e, ?it\<lparr>it_nextEntry := ns\<rparr>)"
        using chain by (subst dictNext.simps) (simp add: Let_def)
      with chain Cons ok'(2) show ?thesis by (simp add: pending_def)
    qed
  qed
qed

lemma drain_pending:
  "iter_ok ht it \<Longrightarrow> length (pending ht it) < fuel \<Longrightarrow> drain ht fuel it = Some (pending ht it)"
proof (induction fuel arbitrary: it)
  case (Suc fuel)
  obtain r it' where n: "dictNext ht it = (r, it')" by (cases "dictNext ht it")
  show ?case using dictNext_pending [OF Suc.prems(1)] Suc n by (cases r) (auto simp: drain.simps(2))
qed simp

section \<open>The callback tables of async.c\<close>

text \<open>Keys are sds strings, here their contents; values are the callback structures.\<close>

definition callbackHash :: "string \<Rightarrow> 32 word" where
  "callbackHash key = dictGenHashFunction (map of_char key)"

definition callbackValDup :: "'v \<Rightarrow> 'v" where
  "callbackValDup src = src"

definition callbackKeyCompare :: "string \<Rightarrow> string \<Rightarrow> bool" where
  "callbackKeyCompare key1 key2 =
     (let l1 = length key1; l2 = length key2
      in if l1 \<noteq> l2 then False else memcmp key1 key2 l1 = 0)"

definition callbackDict :: "(string, 'v) dictType" where
  "callbackDict = \<lparr>hashFunction = callbackHash, keyDup = None, valDup = Some callbackValDup,
     keyCompare = Some callbackKeyCompare, keyDestructor = True, valDestructor = True\<rparr>"

lemma callbackKeyCompare_eq: "callbackKeyCompare k1 k2 \<longleftrightarrow> k1 = k2"
  using memcmp_zero [of "length k1" k1 k2] by (auto simp: callbackKeyCompare_def Let_def)

interpretation cb: dict_type callbackDict
  by unfold_locales
     (simp_all add: callbackDict_def dictCompareHashKeys_def dictSetHashKey_def dictSetHashVal_def
       callbackValDup_def callbackKeyCompare_eq)

definition cb_update :: "string \<Rightarrow> 'v \<Rightarrow> (string, 'v) dict \<Rightarrow> (string, 'v) dict option" where
  "cb_update key v ht = map_option snd (dictReplace callbackDict ht key v)"

definition cb_remove :: "string \<Rightarrow> (string, 'v) dict \<Rightarrow> (string, 'v) dict" where
  "cb_remove key ht = snd (dictDelete callbackDict ht key)"

interpretation cbmap: finite_map "dict_wf callbackDict" dict_map cb_update cb_remove
proof
  fix d :: "(string, 'v) dict" and k v
  assume "dict_wf callbackDict d"
  then obtain d' where "dictReplace callbackDict d k v = Some (dict_map d k = None, d')"
    "dict_wf callbackDict d'" "dict_map d' = (dict_map d)(k \<mapsto> v)"
    by (rule cb.dictReplace_spec)
  then show "\<exists>d'. cb_update k v d = Some d' \<and> dict_wf callbackDict d' \<and> dict_map d' = (dict_map d)(k \<mapsto> v)"
    by (simp add: cb_update_def)
next
  fix d :: "(string, 'v) dict" and k
  assume "dict_wf callbackDict d"
  then show "dict_wf callbackDict (cb_remove k d) \<and> dict_map (cb_remove k d) = (dict_map d)(k := None)"
    by (simp add: cb_remove_def cb.dictDelete_spec)
qed

fun dict_run :: "(string \<times> 'v option) list \<Rightarrow> (string, 'v) dict \<Rightarrow> (string, 'v) dict option" where
  "dict_run [] ht = Some ht"
| "dict_run ((k, Some v) # ops) ht = cb_update k v ht \<bind> dict_run ops"
| "dict_run ((k, None) # ops) ht = dict_run ops (cb_remove k ht)"

lemma dict_run_apply: "dict_run ops ht = cbmap.apply_ops ops ht"
proof (induction ops ht rule: dict_run.induct)
  case (2 k v ops ht)
  then show ?case by (cases "cb_update k v ht") simp_all
qed simp_all

lemma dictCreate_wf: "dict_wf ty dictCreate" and dictCreate_map: "dict_map dictCreate = Map.empty"
  by (simp_all add: dictCreate_def dictReset_def dict_wf_def placed_def dict_map_def)

text \<open>The subscription tables behave as finite maps. Any sequence of replacements and deletions
  on a fresh table, with all the rehashing it triggers, runs to its end without a failed
  assertion, and afterwards \<open>dictFind\<close> returns for every key exactly the entry the same sequence
  leaves in a mathematical map.\<close>

theorem dict_run_is_map:
  "\<exists>ht. dict_run ops dictCreate = Some ht \<and>
     (\<forall>key. dictFind callbackDict ht key
        = map_option (Pair key) (fold (\<lambda>(k, r) m. m(k := r)) ops Map.empty key)) \<and>
     used ht = card (dom (fold (\<lambda>(k, r) m. m(k := r)) ops Map.empty))"
proof -
  obtain ht where ht: "dict_run ops dictCreate = Some ht" "dict_wf callbackDict ht"
    "dict_map ht = fold (\<lambda>(k, r) m. m(k := r)) ops Map.empty"
    using cbmap.apply_ops_refines [OF dictCreate_wf, of ops] by (auto simp: dict_run_apply dictCreate_map)
  have "used ht = card (dom (dict_map ht))"
    using ht(2) distinct_card [of "map fst (concat (dtable ht))"]
    by (simp add: dict_wf_def dict_map_def dom_map_of_conv_image_fst)
  with ht show ?thesis by (auto simp: cb.dictFind_map)
qed

text \<open>Draining an iterator over a table, the loop by which the client visits its callbacks,
  ends and delivers every binding of the table exactly once.\<close>

theorem dict_iteration_complete:
  assumes "dict_wf ty ht"
  shows "\<exists>es. drain ht (Suc (used ht)) dictGetIterator = Some es \<and> distinct (map fst es) \<and>
     map_of es = dict_map ht \<and> length es = used ht"
proof -
  have "pending ht dictGetIterator = concat (dtable ht)" by (simp add: pending_def dictGetIterator_def)
  moreover have "iter_ok ht dictGetIterator" using assms by (simp add: iter_ok_def dictGetIterator_def dict_wf_def)
  ultimately have "drain ht (Suc (used ht)) dictGetIterator = Some (concat (dtable ht))"
    using drain_pending [of ht dictGetIterator "Suc (used ht)"] assms by (simp add: dict_wf_def)
  then show ?thesis using assms by (auto simp: dict_wf_def dict_map_def)
qed

theorem dict_iteration_complete_witness:
  "\<exists>es. drain (cb_remove ''b'' (the (dict_run [(''a'', Some 1), (''b'', Some 2), (''c'', Some (3 :: nat)),
       (''d'', Some 4), (''e'', Some 5)] dictCreate))) 5 dictGetIterator = Some es \<and> length es = 4"
proof -
  let ?ops = "[(''a'', Some 1), (''b'', Some 2), (''c'', Some (3 :: nat)), (''d'', Some 4), (''e'', Some 5)]"
  let ?ht = "cb_remove ''b'' (the (dict_run ?ops dictCreate))"
  have "dict_wf callbackDict (the (dict_run ?ops dictCreate))"
    using cbmap.apply_ops_refines [OF dictCreate_wf, of ?ops] by (auto simp: dict_run_apply simp del: cbmap.apply_ops.simps)
  then have "dict_wf callbackDict ?ht" by (simp only: cbmap.remove_law)
  moreover have "used ?ht = 4" by code_simp
  ultimately show ?thesis using dict_iteration_complete [of callbackDict ?ht] by (simp only:) fastforce
qed

end
