(* ===== verification/Hiredis_Reader.thy ===== *)
theory Hiredis_Reader
  imports Hiredis_Sds
begin

text \<open>
  The incremental reply parser of the Redis client: \<open>hiredis-master/read.h\<close>, \<open>read.c\<close> and the
  default reply object functions of \<open>hiredis.c\<close>. The reader keeps an sds buffer with a cursor, a
  stack of nine read tasks and the reply under construction.

  A reply under construction is a tree of C structs whose nodes are reached both from the tasks
  (\<open>obj\<close>) and from their parent's \<open>element\<close> array. The tree is the value \<open>rreply\<close>; a task's \<open>obj\<close>
  pointer is the path of its node, and storing into \<open>parent->element[idx]\<close> replaces the node at
  the path of the parent extended by \<open>idx\<close> (\<open>set_at\<close>). \<open>rfn\<close> says whether the reader has object
  functions (then the default ones) or none, in which case the object is only a type tag.
  \<open>None\<close> as the result of a step is a failed assertion or an access through a null pointer.
\<close>

section \<open>Data\<close>

definition REDIS_ERR_IO :: int where "REDIS_ERR_IO = 1"
definition REDIS_ERR_OTHER :: int where "REDIS_ERR_OTHER = 2"
definition REDIS_ERR_EOF :: int where "REDIS_ERR_EOF = 3"
definition REDIS_ERR_PROTOCOL :: int where "REDIS_ERR_PROTOCOL = 4"
definition REDIS_ERR_OOM :: int where "REDIS_ERR_OOM = 5"

definition REDIS_REPLY_STRING :: int where "REDIS_REPLY_STRING = 1"
definition REDIS_REPLY_ARRAY :: int where "REDIS_REPLY_ARRAY = 2"
definition REDIS_REPLY_INTEGER :: int where "REDIS_REPLY_INTEGER = 3"
definition REDIS_REPLY_NIL :: int where "REDIS_REPLY_NIL = 4"
definition REDIS_REPLY_STATUS :: int where "REDIS_REPLY_STATUS = 5"
definition REDIS_REPLY_ERROR :: int where "REDIS_REPLY_ERROR = 6"

lemmas reply_types = REDIS_REPLY_STRING_def REDIS_REPLY_ARRAY_def REDIS_REPLY_INTEGER_def
  REDIS_REPLY_NIL_def REDIS_REPLY_STATUS_def REDIS_REPLY_ERROR_def

definition REDIS_READER_MAX_BUF :: nat where "REDIS_READER_MAX_BUF = 1024 * 16"

datatype redis_status = REDIS_OK | REDIS_ERR

text \<open>\<open>struct redisReply\<close>: type, integer, len (an \<open>int\<close>), str, elements, element; \<open>Tag\<close> is the object of a
  reader without object functions.\<close>

datatype redisReply =
    Reply (rtype: int) (rinteger: "64 word") (rlength: int) (rstr: "string option")
      (relements: "64 word") (relement: "redisReply option list option")
  | Tag int

record redisReadTask =
  ttype :: int
  telements :: int
  tidx :: int
  tobj :: "nat list option"
  tparent :: "nat option"

record redisReader =
  rerr :: int
  rerrstr :: string
  rbuf :: "sdshdr option"
  rpos :: nat
  rlen :: nat
  rmaxbuf :: nat
  rstack :: "redisReadTask list"
  ridx :: int
  rreply :: "redisReply option"
  rfn :: bool

definition blank_task :: redisReadTask where
  "blank_task = \<lparr>ttype = 0, telements = 0, tidx = 0, tobj = None, tparent = None\<rparr>"

section \<open>Errors\<close>

definition redisReaderSetError :: "redisReader \<Rightarrow> int \<Rightarrow> string \<Rightarrow> redisReader" where
  "redisReaderSetError r typ str =
     (let r = (if rreply r \<noteq> None \<and> rfn r then r\<lparr>rreply := None\<rparr> else r);
          r = (if rbuf r \<noteq> None then r\<lparr>rbuf := None, rpos := 0, rlen := 0\<rparr> else r)
      in r\<lparr>ridx := - 1, rerr := typ, rerrstr := take (128 - 1) (take (strlen str) str)\<rparr>)"

definition chrtos :: "char \<Rightarrow> string" where
  "chrtos c =
     (let esc = (if c = BACKSLASH \<or> c = DQUOTE then [BACKSLASH, c]
                 else if c = LF then [BACKSLASH, CHR ''n''] else if c = CR then [BACKSLASH, CHR ''r'']
                 else if c = TAB then [BACKSLASH, CHR ''t''] else if c = CHR 0x07 then [BACKSLASH, CHR ''a'']
                 else if c = CHR 0x08 then [BACKSLASH, CHR ''b'']
                 else if 32 \<le> (of_char c :: nat) \<and> (of_char c :: nat) \<le> 126 then [c]
                 else let hex = (\<lambda>d. if d < 10 then char_of (48 + d) else char_of (87 + d))
                      in [BACKSLASH, CHR ''x'', hex (of_char c div (16 :: nat)), hex (of_char c mod 16)])
      in DQUOTE # esc @ [DQUOTE])"

definition redisReaderSetErrorProtocolByte :: "redisReader \<Rightarrow> char \<Rightarrow> redisReader" where
  "redisReaderSetErrorProtocolByte r c =
     redisReaderSetError r REDIS_ERR_PROTOCOL
       (''Protocol error, got '' @ chrtos c @ '' as reply type byte'')"

definition redisReaderSetErrorOOM :: "redisReader \<Rightarrow> redisReader" where
  "redisReaderSetErrorOOM r = redisReaderSetError r REDIS_ERR_OOM ''Out of memory''"

section \<open>Lines and numbers\<close>

text \<open>The bytes at the cursor: \<open>r->buf + r->pos\<close>, the terminator of the sds string included.\<close>

definition at_cursor :: "redisReader \<Rightarrow> string" where
  "at_cursor r = (case rbuf r of Some b \<Rightarrow> drop (rpos r) (sh_buf b) | None \<Rightarrow> [])"

definition readBytes :: "redisReader \<Rightarrow> nat \<Rightarrow> (string \<times> redisReader) option" where
  "readBytes r bytes =
     (if rlen r - rpos r \<ge> bytes then Some (at_cursor r, r\<lparr>rpos := rpos r + bytes\<rparr>) else None)"

function skip_to_cr :: "string \<Rightarrow> nat \<Rightarrow> nat \<Rightarrow> nat" where
  "skip_to_cr s len1 pos = (if pos < len1 \<and> s ! pos \<noteq> CR then skip_to_cr s len1 (pos + 1) else pos)"
  by pat_completeness auto
termination by (relation "measure (\<lambda>(s, len1, pos). len1 - pos)") auto

declare skip_to_cr.simps [simp del]

lemma skip_to_cr_ge: "pos \<le> skip_to_cr s len1 pos"
proof (induction s len1 pos rule: skip_to_cr.induct)
  case (1 s len1 pos)
  then show ?case by (subst skip_to_cr.simps) auto
qed

function seek_loop :: "string \<Rightarrow> nat \<Rightarrow> nat \<Rightarrow> nat option" where
  "seek_loop s len1 pos =
     (if pos < len1 then
        let pos = skip_to_cr s len1 pos
        in if s ! pos \<noteq> CR then None
           else if s ! (pos + 1) = LF then Some pos
           else seek_loop s len1 (pos + 1)
      else None)"
  by pat_completeness auto
termination
proof (relation "measure (\<lambda>(s, len1, pos). len1 - pos)", simp, clarsimp)
  fix s :: string and len1 pos :: nat
  assume "pos < len1"
  then show "len1 - Suc (skip_to_cr s len1 pos) < len1 - pos" using skip_to_cr_ge [of pos s len1] by linarith
qed

declare seek_loop.simps [simp del]

text \<open>The conversion of a 64-bit integer, a \<open>size_t\<close> or a \<open>long\<close>, to an \<open>int\<close>.\<close>

definition to_int32 :: "64 word \<Rightarrow> int" where
  "to_int32 w = sint (ucast w :: 32 word)"

text \<open>\<open>int _len = len-1\<close> is computed as a \<open>size_t\<close> and cut to 32 bits. The loop does not start when it is
  negative or zero, and \<open>pos\<close>, which starts at zero, never passes it, so that both are natural numbers in the loop. A result is
  therefore below \<open>2 ^ 31\<close>, and the \<open>int len\<close> of \<open>readLine\<close> holds it.\<close>

definition seekNewline :: "string \<Rightarrow> nat \<Rightarrow> nat option" where
  "seekNewline s len = seek_loop s (nat (to_int32 (of_nat len - 1))) 0"

text \<open>
  The accumulator wraps at 64 bits; running off the end of the bytes is excluded by the callers,
  which pass a line that has a carriage return.
\<close>

fun readll_loop :: "64 word \<Rightarrow> string \<Rightarrow> 64 word option" where
  "readll_loop v [] = None"
| "readll_loop v (c # s) =
     (if c = CR then Some v
      else if is_digit c then readll_loop (v * 10 + of_nat (of_char c - 48)) s
      else None)"

definition readLongLong :: "string \<Rightarrow> 64 word" where
  "readLongLong s =
     (let (mult, s) = (case s of
          c # t \<Rightarrow> if c = CHR ''-'' then (- 1, t) else if c = CHR ''+'' then (1, t) else (1, s)
        | [] \<Rightarrow> (1, s))
      in case readll_loop 0 s of None \<Rightarrow> - 1 | Some v \<Rightarrow> mult * v)"

definition readLine :: "redisReader \<Rightarrow> (string \<times> nat \<times> redisReader) option" where
  "readLine r =
     (let p = at_cursor r
      in case seekNewline p (rlen r - rpos r) of
           None \<Rightarrow> None
         | Some len \<Rightarrow> Some (p, len, r\<lparr>rpos := rpos r + (len + 2)\<rparr>))"

section \<open>The task stack\<close>

function moveToNextTask :: "redisReader \<Rightarrow> redisReader option" where
  "moveToNextTask r =
     (if ridx r \<ge> 0 then
        if ridx r = 0 then Some (r\<lparr>ridx := ridx r - 1\<rparr>)
        else
          let i = nat (ridx r); cur = rstack r ! i; prv = rstack r ! (i - 1)
          in if ttype prv \<noteq> REDIS_REPLY_ARRAY then None
             else if tidx cur = telements prv - 1 then moveToNextTask (r\<lparr>ridx := ridx r - 1\<rparr>)
             else if \<not> (tidx cur < telements prv) then None
             else Some (r\<lparr>rstack := (rstack r)[i := cur\<lparr>ttype := - 1, telements := - 1, tidx := tidx cur + 1\<rparr>]\<rparr>)
      else Some r)"
  by pat_completeness auto
termination by (relation "measure (\<lambda>r. nat (ridx r + 1))") auto

declare moveToNextTask.simps [simp del]

section \<open>Reply objects\<close>

fun set_at :: "nat list \<Rightarrow> redisReply \<Rightarrow> redisReply \<Rightarrow> redisReply option" where
  "set_at [] new r = Some new"
| "set_at (i # p) new (Reply t n l s e (Some els)) =
     (if t = REDIS_REPLY_ARRAY \<and> i < length els then
        if p = [] then Some (Reply t n l s e (Some (els[i := Some new])))
        else case els ! i of
               None \<Rightarrow> None
             | Some child \<Rightarrow>
                 map_option (\<lambda>c. Reply t n l s e (Some (els[i := Some c]))) (set_at p new child)
      else None)"
| "set_at (i # p) new r = None"

definition task_path :: "redisReader \<Rightarrow> redisReadTask \<Rightarrow> nat list option" where
  "task_path r task =
     (case tparent task of
        None \<Rightarrow> Some []
      | Some p \<Rightarrow> map_option (\<lambda>path. path @ [nat (tidx task)]) (tobj (rstack r ! p)))"

text \<open>The tail of the four creating functions: \<open>parent->element[task->idx] = r\<close>.\<close>

definition link_reply :: "redisReader \<Rightarrow> redisReadTask \<Rightarrow> redisReply \<Rightarrow> redisReader option" where
  "link_reply r task obj =
     (case tparent task of
        None \<Rightarrow> Some r
      | Some p \<Rightarrow> do {
          path \<leftarrow> task_path r task;
          root \<leftarrow> rreply r;
          root \<leftarrow> set_at path obj root;
          Some (r\<lparr>rreply := Some root\<rparr>)
        })"

definition sizeof_redisReply :: nat where
  "sizeof_redisReply = 48"

definition createReplyObject :: "allocator \<Rightarrow> int \<Rightarrow> redisReply option" where
  "createReplyObject a typ =
     (if can_alloc a sizeof_redisReply then Some (Reply typ 0 0 None 0 None) else None)"

text \<open>A creating function yields an object (and the linked tree), runs out of memory, or fails an
  assertion.\<close>

datatype creation = Created redisReply redisReader | NoMemory | Failed

definition finish_create :: "redisReader \<Rightarrow> redisReadTask \<Rightarrow> redisReply \<Rightarrow> creation" where
  "finish_create r task obj = (case link_reply r task obj of None \<Rightarrow> Failed | Some r \<Rightarrow> Created obj r)"

definition createStringObject :: "allocator \<Rightarrow> redisReader \<Rightarrow> redisReadTask \<Rightarrow> string \<Rightarrow> nat \<Rightarrow> creation" where
  "createStringObject a r task str len =
     (if createReplyObject a (ttype task) = None then NoMemory
      else if \<not> can_alloc a (len + 1) then NoMemory
      else if \<not> (ttype task = REDIS_REPLY_ERROR \<or> ttype task = REDIS_REPLY_STATUS \<or>
                 ttype task = REDIS_REPLY_STRING) then Failed
      else finish_create r task (Reply (ttype task) 0 (to_int32 (of_nat len)) (Some (take len str)) 0 None))"

definition createArrayObject :: "allocator \<Rightarrow> redisReader \<Rightarrow> redisReadTask \<Rightarrow> int \<Rightarrow> creation" where
  "createArrayObject a r task elements =
     (if createReplyObject a REDIS_REPLY_ARRAY = None then NoMemory
      else if elements > 0 \<and> \<not> can_alloc a (nat elements * 8) then NoMemory
      else finish_create r task
        (Reply REDIS_REPLY_ARRAY 0 0 None (of_int elements)
          (if elements > 0 then Some (replicate (nat elements) None) else None)))"

definition createIntegerObject :: "allocator \<Rightarrow> redisReader \<Rightarrow> redisReadTask \<Rightarrow> 64 word \<Rightarrow> creation" where
  "createIntegerObject a r task val =
     (if createReplyObject a REDIS_REPLY_INTEGER = None then NoMemory
      else finish_create r task (Reply REDIS_REPLY_INTEGER val 0 None 0 None))"

definition createNilObject :: "allocator \<Rightarrow> redisReader \<Rightarrow> redisReadTask \<Rightarrow> creation" where
  "createNilObject a r task =
     (if createReplyObject a REDIS_REPLY_NIL = None then NoMemory
      else finish_create r task (Reply REDIS_REPLY_NIL 0 0 None 0 None))"

section \<open>Processing items\<close>

definition cur_task :: "redisReader \<Rightarrow> redisReadTask" where
  "cur_task r = rstack r ! nat (ridx r)"

definition set_cur :: "redisReadTask \<Rightarrow> redisReader \<Rightarrow> redisReader" where
  "set_cur t r = r\<lparr>rstack := (rstack r)[nat (ridx r) := t]\<rparr>"

text \<open>What follows a creation in every branch: the out-of-memory error, or the reply of the root
  task, followed by the rest of the branch.\<close>

definition after_create :: "redisReader \<Rightarrow> creation \<Rightarrow> (redisReply \<Rightarrow> redisReader \<Rightarrow> redisReader option)
    \<Rightarrow> (redis_status \<times> redisReader) option" where
  "after_create r0 c k =
     (case c of
        NoMemory \<Rightarrow> Some (REDIS_ERR, redisReaderSetErrorOOM r0)
      | Failed \<Rightarrow> None
      | Created obj r \<Rightarrow> map_option (Pair REDIS_OK) (k obj r))"

definition set_root_reply :: "redisReply \<Rightarrow> redisReader \<Rightarrow> redisReader" where
  "set_root_reply obj r = (if ridx r = 0 then r\<lparr>rreply := Some obj\<rparr> else r)"

definition processLineItem :: "allocator \<Rightarrow> redisReader \<Rightarrow> (redis_status \<times> redisReader) option" where
  "processLineItem a r =
     (let cur = cur_task r
      in case readLine r of
           None \<Rightarrow> Some (REDIS_ERR, r)
         | Some (p, len, r) \<Rightarrow>
             after_create r
               (if ttype cur = REDIS_REPLY_INTEGER then
                  if rfn r then createIntegerObject a r cur (readLongLong p) else Created (Tag REDIS_REPLY_INTEGER) r
                else
                  if rfn r then createStringObject a r cur p len else Created (Tag (ttype cur)) r)
               (\<lambda>obj r. moveToNextTask (set_root_reply obj r)))"

definition processBulkItem :: "allocator \<Rightarrow> redisReader \<Rightarrow> (redis_status \<times> redisReader) option" where
  "processBulkItem a r =
     (let cur = cur_task r; p = at_cursor r
      in case seekNewline p (rlen r - rpos r) of
           None \<Rightarrow> Some (REDIS_ERR, r)
         | Some s \<Rightarrow>
             let bytelen = s + 2; len = readLongLong p
             in if sint len < 0 then
                  after_create r (if rfn r then createNilObject a r cur else Created (Tag REDIS_REPLY_NIL) r)
                    (\<lambda>obj r. moveToNextTask (set_root_reply obj (r\<lparr>rpos := rpos r + bytelen\<rparr>)))
                else
                  let bytelen = bytelen + (unat len + 2)
                  in if rpos r + bytelen \<le> rlen r then
                       after_create r
                         (if rfn r then createStringObject a r cur (drop (s + 2) p) (unat len)
                          else Created (Tag REDIS_REPLY_STRING) r)
                         (\<lambda>obj r. moveToNextTask (set_root_reply obj (r\<lparr>rpos := rpos r + bytelen\<rparr>)))
                     else Some (REDIS_ERR, r))"

text \<open>The element count is a \<open>long\<close>; the parameter of \<open>createArray\<close> and the field of the task are
  \<open>int\<close>s, so it is cut to 32 bits there.\<close>

definition set_if_root :: "bool \<Rightarrow> redisReply \<Rightarrow> redisReader \<Rightarrow> redisReader" where
  "set_if_root root obj r = (if root then r\<lparr>rreply := Some obj\<rparr> else r)"

text \<open>The part of the function that follows the creation of an array: a task for the first element
  is pushed, or an empty array is complete.\<close>

definition array_created :: "bool \<Rightarrow> redisReadTask \<Rightarrow> 64 word \<Rightarrow> redisReply \<Rightarrow> redisReader \<Rightarrow> redisReader option" where
  "array_created root cur elements obj r =
     (if sint elements > 0 then do {
        path \<leftarrow> (if rfn r then task_path r cur else Some []);
        let i = nat (ridx r);
        let stack = (rstack r)[i := cur\<lparr>telements := to_int32 elements, tobj := Some path\<rparr>];
        let stack = stack[i + 1 := \<lparr>ttype = - 1, telements = - 1, tidx = 0, tobj = None, tparent = Some i\<rparr>];
        Some (set_if_root root obj (r\<lparr>rstack := stack, ridx := ridx r + 1\<rparr>))
      } else map_option (set_if_root root obj) (moveToNextTask r))"

definition processMultiBulkItem :: "allocator \<Rightarrow> redisReader \<Rightarrow> (redis_status \<times> redisReader) option" where
  "processMultiBulkItem a r =
     (let cur = cur_task r
      in if ridx r = 8 then
           Some (REDIS_ERR, redisReaderSetError r REDIS_ERR_PROTOCOL
             ''No support for nested multi bulk replies with depth > 7'')
         else case readLine r of
           None \<Rightarrow> Some (REDIS_ERR, r)
         | Some (p, len, r) \<Rightarrow>
             let elements = readLongLong p; root = (ridx r = 0)
             in if sint elements = - 1 then
                  after_create r (if rfn r then createNilObject a r cur else Created (Tag REDIS_REPLY_NIL) r)
                    (\<lambda>obj r. map_option (set_if_root root obj) (moveToNextTask r))
                else
                  after_create r
                    (if rfn r then createArrayObject a r cur (to_int32 elements)
                     else Created (Tag REDIS_REPLY_ARRAY) r)
                    (array_created root cur elements))"

definition type_of_byte :: "char \<Rightarrow> int option" where
  "type_of_byte c =
     (if c = CHR ''-'' then Some REDIS_REPLY_ERROR
      else if c = CHR ''+'' then Some REDIS_REPLY_STATUS
      else if c = CHR '':'' then Some REDIS_REPLY_INTEGER
      else if c = CHR ''$'' then Some REDIS_REPLY_STRING
      else if c = CHR ''*'' then Some REDIS_REPLY_ARRAY
      else None)"

definition process_typed :: "allocator \<Rightarrow> redisReader \<Rightarrow> (redis_status \<times> redisReader) option" where
  "process_typed a r =
     (let t = ttype (cur_task r)
      in if t = REDIS_REPLY_ERROR \<or> t = REDIS_REPLY_STATUS \<or> t = REDIS_REPLY_INTEGER then processLineItem a r
         else if t = REDIS_REPLY_STRING then processBulkItem a r
         else if t = REDIS_REPLY_ARRAY then processMultiBulkItem a r
         else None)"

definition processItem :: "allocator \<Rightarrow> redisReader \<Rightarrow> (redis_status \<times> redisReader) option" where
  "processItem a r =
     (let cur = cur_task r
      in if ttype cur < 0 then
           (case readBytes r 1 of
              None \<Rightarrow> Some (REDIS_ERR, r)
            | Some (p, r) \<Rightarrow>
                (case type_of_byte (p ! 0) of
                   None \<Rightarrow> Some (REDIS_ERR, redisReaderSetErrorProtocolByte r (p ! 0))
                 | Some t \<Rightarrow> process_typed a (set_cur (cur\<lparr>ttype := t\<rparr>) r)))
         else process_typed a r)"

section \<open>Progress of one item\<close>

lemma seek_loop_Some: "seek_loop s n p = Some k \<Longrightarrow> p < n \<and> p \<le> k \<and> s ! k = CR \<and> s ! (k + 1) = LF"
proof (induction s n p rule: seek_loop.induct)
  case (1 s n p)
  have ge: "p \<le> skip_to_cr s n p" by (rule skip_to_cr_ge)
  have lt: "p < n" using "1.prems" by (subst (asm) seek_loop.simps) (simp split: if_splits)
  show ?case
  proof (cases "s ! skip_to_cr s n p = CR \<and> s ! (skip_to_cr s n p + 1) \<noteq> LF")
    case True
    then have "seek_loop s n (skip_to_cr s n p + 1) = Some k"
      using "1.prems" lt by (subst (asm) seek_loop.simps) (simp add: Let_def)
    with "1.IH" [OF lt refl] True lt ge show ?thesis by force
  next
    case False
    then show ?thesis using "1.prems" lt ge by (subst (asm) seek_loop.simps) (auto simp: Let_def split: if_splits)
  qed
qed

lemma seekNewline_Some:
  assumes "seekNewline s len = Some k"
  shows "1 < len \<and> s ! k = CR \<and> s ! (k + 1) = LF"
proof -
  have *: "0 < to_int32 (of_nat len - 1)" "s ! k = CR \<and> s ! (k + 1) = LF"
    using seek_loop_Some [OF assms [unfolded seekNewline_def]] by simp_all
  have "to_int32 (- 1) = - 1" "to_int32 0 = 0" by code_simp+
  then have "\<not> (len = 0 \<or> len = 1)" using *(1) by (intro notI) auto
  with *(2) show ?thesis by auto
qed

lemma moveToNextTask_fields:
  "moveToNextTask r = Some r' \<Longrightarrow>
   rpos r' = rpos r \<and> rlen r' = rlen r \<and> rbuf r' = rbuf r \<and> rerr r' = rerr r \<and> rreply r' = rreply r \<and>
   rfn r' = rfn r \<and> rmaxbuf r' = rmaxbuf r \<and> rerrstr r' = rerrstr r \<and> length (rstack r') = length (rstack r)"
proof (induction r rule: moveToNextTask.induct)
  case (1 r)
  let ?i = "nat (ridx r)"
  show ?case
  proof (cases "0 < ridx r \<and> ttype (rstack r ! (?i - 1)) = REDIS_REPLY_ARRAY \<and>
      tidx (rstack r ! ?i) = telements (rstack r ! (?i - 1)) - 1")
    case True
    then have "moveToNextTask (r\<lparr>ridx := ridx r - 1\<rparr>) = Some r'"
      using "1.prems" by (subst (asm) moveToNextTask.simps) (simp add: Let_def)
    with "1.IH" [OF _ _ refl refl refl] True show ?thesis by simp
  next
    case False
    then show ?thesis using "1.prems"
      by (subst (asm) moveToNextTask.simps) (auto simp: Let_def split: if_splits)
  qed
qed

lemma link_reply_fields:
  "link_reply r t obj = Some r' \<Longrightarrow>
   rpos r' = rpos r \<and> rlen r' = rlen r \<and> rbuf r' = rbuf r \<and> rerr r' = rerr r \<and> rstack r' = rstack r \<and>
   ridx r' = ridx r \<and> rfn r' = rfn r \<and> rmaxbuf r' = rmaxbuf r \<and> rerrstr r' = rerrstr r"
  by (auto simp: link_reply_def split: option.splits bind_splits)

lemma finish_create_fields:
  "finish_create r t obj = Created obj' r' \<Longrightarrow>
   obj' = obj \<and> rpos r' = rpos r \<and> rlen r' = rlen r \<and> rbuf r' = rbuf r \<and> rerr r' = rerr r \<and>
   rstack r' = rstack r \<and> ridx r' = ridx r \<and> rfn r' = rfn r"
  by (auto simp: finish_create_def dest: link_reply_fields split: option.splits)

lemma create_pos:
  "createStringObject a r t s n = Created obj r' \<Longrightarrow> rpos r' = rpos r \<and> rlen r' = rlen r \<and> rbuf r' = rbuf r"
  "createArrayObject a r t e = Created obj r' \<Longrightarrow> rpos r' = rpos r \<and> rlen r' = rlen r \<and> rbuf r' = rbuf r"
  "createIntegerObject a r t v = Created obj r' \<Longrightarrow> rpos r' = rpos r \<and> rlen r' = rlen r \<and> rbuf r' = rbuf r"
  "createNilObject a r t = Created obj r' \<Longrightarrow> rpos r' = rpos r \<and> rlen r' = rlen r \<and> rbuf r' = rbuf r"
  by (auto simp: createStringObject_def createArrayObject_def createIntegerObject_def createNilObject_def
      dest: finish_create_fields split: if_splits)

lemma after_create_OK:
  "after_create r0 c k = Some (REDIS_OK, r') \<Longrightarrow> \<exists>obj r1. c = Created obj r1 \<and> k obj r1 = Some r'"
  by (auto simp: after_create_def split: creation.splits)

definition advances :: "redisReader \<Rightarrow> redisReader \<Rightarrow> bool" where
  "advances r r' \<longleftrightarrow> rpos r < rpos r' \<and> rpos r < rlen r \<and> rlen r' = rlen r \<and> rbuf r' = rbuf r"

lemma readLine_Some:
  "readLine r = Some (p, len, r1) \<Longrightarrow> r1 = r\<lparr>rpos := rpos r + (len + 2)\<rparr> \<and> rpos r < rlen r"
  using seekNewline_Some [of "at_cursor r" "rlen r - rpos r" len]
  by (auto simp: readLine_def Let_def split: option.splits)

lemma set_root_fields [simp]:
  "rpos (set_root_reply obj r) = rpos r" "rlen (set_root_reply obj r) = rlen r"
  "rbuf (set_root_reply obj r) = rbuf r" "ridx (set_root_reply obj r) = ridx r"
  "rstack (set_root_reply obj r) = rstack r" "rfn (set_root_reply obj r) = rfn r"
  "rerr (set_root_reply obj r) = rerr r"
  by (simp_all add: set_root_reply_def)

lemma processLineItem_advances: "processLineItem a r = Some (REDIS_OK, r') \<Longrightarrow> advances r r'"
  by (fastforce simp: processLineItem_def Let_def advances_def
      dest!: readLine_Some after_create_OK create_pos moveToNextTask_fields split: option.splits if_splits)

lemma processBulkItem_advances: "processBulkItem a r = Some (REDIS_OK, r') \<Longrightarrow> advances r r'"
  by (fastforce simp: processBulkItem_def Let_def advances_def
      dest!: seekNewline_Some after_create_OK create_pos moveToNextTask_fields split: option.splits if_splits)

lemma set_if_root_fields [simp]:
  "rpos (set_if_root root obj r) = rpos r" "rlen (set_if_root root obj r) = rlen r"
  "rbuf (set_if_root root obj r) = rbuf r" "ridx (set_if_root root obj r) = ridx r"
  "rstack (set_if_root root obj r) = rstack r" "rfn (set_if_root root obj r) = rfn r"
  "rerr (set_if_root root obj r) = rerr r"
  by (simp_all add: set_if_root_def)

lemma move_root_pos:
  "map_option (set_if_root root obj) (moveToNextTask r) = Some r' \<Longrightarrow>
   rpos r' = rpos r \<and> rlen r' = rlen r \<and> rbuf r' = rbuf r"
  by (auto dest: moveToNextTask_fields)

lemma array_created_pos:
  "array_created root cur e obj r = Some r' \<Longrightarrow> rpos r' = rpos r \<and> rlen r' = rlen r \<and> rbuf r' = rbuf r"
  by (auto simp: array_created_def Let_def dest: moveToNextTask_fields split: if_splits bind_splits)

lemma processMultiBulkItem_advances:
  assumes "processMultiBulkItem a r = Some (REDIS_OK, r')"
  shows "advances r r'"
proof -
  from assms obtain p len r1 where rl: "readLine r = Some (p, len, r1)" and ne: "ridx r \<noteq> 8"
    by (auto simp: processMultiBulkItem_def Let_def split: if_splits option.splits)
  let ?e = "readLongLong p"
  obtain obj r2 where r2: "rpos r2 = rpos r1" "rlen r2 = rlen r1" "rbuf r2 = rbuf r1" and k:
    "map_option (set_if_root (ridx r1 = 0) obj) (moveToNextTask r2) = Some r' \<or>
     array_created (ridx r1 = 0) (cur_task r) ?e obj r2 = Some r'"
  proof (cases "sint ?e = - 1")
    case True
    with assms rl ne have "after_create r1 (if rfn r1 then createNilObject a r1 (cur_task r)
        else Created (Tag REDIS_REPLY_NIL) r1)
        (\<lambda>obj r. map_option (set_if_root (ridx r1 = 0) obj) (moveToNextTask r)) = Some (REDIS_OK, r')"
      by (simp add: processMultiBulkItem_def Let_def)
    from after_create_OK [OF this] obtain obj r2 where
      c: "(if rfn r1 then createNilObject a r1 (cur_task r) else Created (Tag REDIS_REPLY_NIL) r1) = Created obj r2"
      "map_option (set_if_root (ridx r1 = 0) obj) (moveToNextTask r2) = Some r'" by blast
    from c(1) create_pos(4) [of a r1 "cur_task r" obj r2] have
      "rpos r2 = rpos r1" "rlen r2 = rlen r1" "rbuf r2 = rbuf r1" by (simp_all split: if_splits)
    with c(2) show thesis by (intro that [of r2 obj]) simp_all
  next
    case False
    with assms rl ne have "after_create r1 (if rfn r1 then createArrayObject a r1 (cur_task r) (to_int32 ?e)
        else Created (Tag REDIS_REPLY_ARRAY) r1)
        (array_created (ridx r1 = 0) (cur_task r) ?e) = Some (REDIS_OK, r')"
      by (simp add: processMultiBulkItem_def Let_def)
    from after_create_OK [OF this] obtain obj r2 where
      c: "(if rfn r1 then createArrayObject a r1 (cur_task r) (to_int32 ?e)
        else Created (Tag REDIS_REPLY_ARRAY) r1) = Created obj r2"
      "array_created (ridx r1 = 0) (cur_task r) ?e obj r2 = Some r'" by blast
    from c(1) create_pos(2) [of a r1 "cur_task r" "to_int32 ?e" obj r2] have
      "rpos r2 = rpos r1" "rlen r2 = rlen r1" "rbuf r2 = rbuf r1" by (simp_all split: if_splits)
    with c(2) show thesis by (intro that [of r2 obj]) simp_all
  qed
  then have "rpos r' = rpos r1 \<and> rlen r' = rlen r1 \<and> rbuf r' = rbuf r1"
    using move_root_pos array_created_pos by metis
  with readLine_Some [OF rl] show ?thesis by (auto simp: advances_def)
qed

lemma processItem_advances:
  assumes "processItem a r = Some (REDIS_OK, r')"
  shows "advances r r'"
proof -
  have typed: "process_typed a r1 = Some (REDIS_OK, r') \<Longrightarrow> advances r1 r'" for r1
    using processLineItem_advances processBulkItem_advances processMultiBulkItem_advances
    by (auto simp: process_typed_def Let_def split: if_splits)
  show ?thesis
    using assms typed [of r] typed
    by (fastforce simp: processItem_def Let_def readBytes_def set_cur_def advances_def split: if_splits option.splits)
qed

section \<open>The interface of the reader\<close>

function process_items :: "allocator \<Rightarrow> redisReader \<Rightarrow> redisReader option" where
  "process_items a r =
     (if ridx r \<ge> 0 then
        (case processItem a r of
           None \<Rightarrow> None
         | Some (st, r') \<Rightarrow> if st \<noteq> REDIS_OK then Some r' else process_items a r')
      else Some r)"
  by pat_completeness auto
termination
proof (relation "measure (\<lambda>(a, r). rlen r - rpos r)", simp)
  fix a r x st r'
  assume "processItem a r = Some x" "(st, r') = x" "\<not> st \<noteq> REDIS_OK"
  then have "advances r r'" using processItem_advances by simp
  then show "((a, r'), a, r) \<in> measure (\<lambda>(a, r). rlen r - rpos r)" by (auto simp: advances_def)
qed

declare process_items.simps [simp del]

definition redisReaderCreate :: "allocator \<Rightarrow> bool \<Rightarrow> redisReader option" where
  "redisReaderCreate a fn =
     (case sdsempty a of
        None \<Rightarrow> None
      | Some b \<Rightarrow> Some \<lparr>rerr = 0, rerrstr = [], rbuf = Some b, rpos = 0, rlen = 0,
          rmaxbuf = REDIS_READER_MAX_BUF, rstack = replicate 9 blank_task, ridx = - 1, rreply = None, rfn = fn\<rparr>)"

definition redisReaderFeed :: "allocator \<Rightarrow> redisReader \<Rightarrow> string \<Rightarrow> (redis_status \<times> redisReader) option" where
  "redisReaderFeed a r buf =
     (if rerr r \<noteq> 0 then Some (REDIS_ERR, r)
      else if length buf \<ge> 1 then do {
        b \<leftarrow> rbuf r;
        (r, b) \<leftarrow>
          (if rlen r = 0 \<and> rmaxbuf r \<noteq> 0 \<and> sdsavail b > rmaxbuf r
           then map_option (\<lambda>e. (r\<lparr>rbuf := Some e, rpos := 0\<rparr>, e)) (sdsempty a)
           else Some (r, b));
        (case sdscatlen a b buf of
           None \<Rightarrow> Some (REDIS_ERR, redisReaderSetErrorOOM r)
         | Some newbuf \<Rightarrow> Some (REDIS_OK, r\<lparr>rbuf := Some newbuf, rlen := sdslen newbuf\<rparr>))
      }
      else Some (REDIS_OK, r))"

definition discard_consumed :: "redisReader \<Rightarrow> redisReader option" where
  "discard_consumed r =
     (if rpos r \<ge> 1024 then do {
        b \<leftarrow> rbuf r;
        let b = sdsrange b (int (rpos r)) (- 1);
        Some (r\<lparr>rbuf := Some b, rpos := 0, rlen := sdslen b\<rparr>)
      } else Some r)"

definition redisReaderGetReply :: "allocator \<Rightarrow> redisReader
    \<Rightarrow> (redis_status \<times> redisReply option \<times> redisReader) option" where
  "redisReaderGetReply a r =
     (if rerr r \<noteq> 0 then Some (REDIS_ERR, None, r)
      else if rlen r = 0 then Some (REDIS_OK, None, r)
      else do {
        let r = (if ridx r = - 1 then
                   r\<lparr>rstack := (rstack r)[0 := \<lparr>ttype = - 1, telements = - 1, tidx = - 1, tobj = None,
                                               tparent = None\<rparr>], ridx := 0\<rparr>
                 else r);
        r \<leftarrow> process_items a r;
        (if rerr r \<noteq> 0 then Some (REDIS_ERR, None, r)
         else do {
           r \<leftarrow> discard_consumed r;
           Some (if ridx r = - 1 then (REDIS_OK, rreply r, r\<lparr>rreply := None\<rparr>) else (REDIS_OK, None, r))
         })
      })"

section \<open>Wire format\<close>

datatype resp = Status string | Err string | Num "64 word" | Bulk string | NilBulk | NilArr | Arr "resp list"

fun enc :: "resp \<Rightarrow> string" where
  "enc (Status s) = ''+'' @ s @ [CR, LF]"
| "enc (Err s) = ''-'' @ s @ [CR, LF]"
| "enc (Num w) = '':'' @ dec_int (sint w) @ [CR, LF]"
| "enc (Bulk s) = ''$'' @ dec (length s) @ [CR, LF] @ s @ [CR, LF]"
| "enc NilBulk = ''$-1'' @ [CR, LF]"
| "enc NilArr = ''*-1'' @ [CR, LF]"
| "enc (Arr ts) = ''*'' @ dec (length ts) @ [CR, LF] @ concat (map enc ts)"

fun reply_of :: "resp \<Rightarrow> redisReply" where
  "reply_of (Status s) = Reply REDIS_REPLY_STATUS 0 (int (length s)) (Some s) 0 None"
| "reply_of (Err s) = Reply REDIS_REPLY_ERROR 0 (int (length s)) (Some s) 0 None"
| "reply_of (Num w) = Reply REDIS_REPLY_INTEGER w 0 None 0 None"
| "reply_of (Bulk s) = Reply REDIS_REPLY_STRING 0 (int (length s)) (Some s) 0 None"
| "reply_of NilBulk = Reply REDIS_REPLY_NIL 0 0 None 0 None"
| "reply_of NilArr = Reply REDIS_REPLY_NIL 0 0 None 0 None"
| "reply_of (Arr ts) = Reply REDIS_REPLY_ARRAY 0 0 None (of_nat (length ts))
     (if ts = [] then None else Some (map (\<lambda>t. Some (reply_of t)) ts))"

text \<open>What a server may send: lines without a carriage return, arrays whose vector of pointers is below 2 GiB.\<close>

fun resp_ok :: "resp \<Rightarrow> bool" where
  "resp_ok (Status s) \<longleftrightarrow> CR \<notin> set s"
| "resp_ok (Err s) \<longleftrightarrow> CR \<notin> set s"
| "resp_ok (Arr ts) \<longleftrightarrow> 8 * length ts < 2 ^ 31 \<and> (\<forall>t\<in>set ts. resp_ok t)"
| "resp_ok _ \<longleftrightarrow> True"

fun depth :: "resp \<Rightarrow> nat" where
  "depth (Arr ts) = Suc (fold max (map depth ts) 0)"
| "depth NilArr = 1"
| "depth _ = 0"

lemma fold_max_ge: "(m :: nat) \<le> fold max xs m"
proof (induction xs arbitrary: m)
  case (Cons x xs)
  then show ?case using order_trans [OF max.cobounded2 [of m x] Cons.IH [of "max x m"]] by simp
qed simp

lemma fold_max_mem: "x \<in> set xs \<Longrightarrow> x \<le> fold max xs (m :: nat)"
proof (induction xs arbitrary: m)
  case (Cons y xs)
  then show ?case using order_trans [OF max.cobounded1 [of y m] fold_max_ge [of "max y m" xs]] by auto
qed simp

lemma depth_child: "t \<in> set ts \<Longrightarrow> depth t < depth (Arr ts)"
  using fold_max_mem [of "depth t" "map depth ts" 0] by simp

section \<open>Reading lines and numbers\<close>

lemma skip_to_cr_line:
  assumes "CR \<notin> set l" "i \<le> length l" "length l < n"
  shows "skip_to_cr (l @ CR # rest) n i = length l"
  using assms(2)
proof (induction "length l - i" arbitrary: i)
  case 0
  with assms show ?case by (subst skip_to_cr.simps) (simp add: nth_append)
next
  case (Suc d)
  then have i: "i < length l" by simp
  then have "l ! i \<noteq> CR" using assms(1) by (metis nth_mem)
  with i assms(3) have "skip_to_cr (l @ CR # rest) n i = skip_to_cr (l @ CR # rest) n (i + 1)"
    by (subst skip_to_cr.simps) (simp add: nth_append)
  with Suc i show ?case by simp
qed

lemma sint_of_count:
  assumes "n < 2 ^ 31"
  shows "sint (of_nat n :: 64 word) = int n" "to_int32 (of_nat n) = int n"
proof -
  have "(ucast (of_nat n :: 64 word) :: 32 word) = of_nat n"
    using assms by (simp add: word_unat_eq_iff unsigned_ucast_eq unat_of_nat take_bit_eq_mod)
  then show "sint (of_nat n :: 64 word) = int n" "to_int32 (of_nat n) = int n"
    using assms by (simp_all add: to_int32_def signed_of_nat signed_take_bit_int_eq_self)
qed

lemma seekNewline_line:
  assumes "CR \<notin> set l" "length l + 1 < n" "n < 2 ^ 31"
  shows "seekNewline (l @ CR # LF # rest) n = Some (length l)"
proof -
  have "(of_nat n - 1 :: 64 word) = of_nat (n - 1)" using assms(2) by simp
  then have n: "nat (to_int32 (of_nat n - 1)) = n - 1" using sint_of_count(2) [of "n - 1"] assms(3) by simp
  have "skip_to_cr (l @ CR # LF # rest) (n - 1) 0 = length l"
    using assms by (intro skip_to_cr_line) auto
  then show ?thesis
    using assms unfolding seekNewline_def n by (subst seek_loop.simps) (simp add: Let_def nth_append)
qed

lemma readll_loop_digits:
  "\<forall>c\<in>set ds. is_digit c \<Longrightarrow>
   readll_loop (of_nat v) (ds @ CR # rest) = Some (of_nat (foldl (\<lambda>v c. v * 10 + (of_char c - 48)) v ds))"
proof (induction ds arbitrary: v)
  case (Cons c ds)
  have "c \<noteq> CR" using Cons.prems by auto
  then show ?case using Cons.IH [of "v * 10 + (of_char c - 48)"] Cons.prems
    by (simp add: add_diff_eq)
qed simp

lemma readll_loop_dec: "readll_loop 0 (dec n @ CR # rest) = Some (of_nat n)"
  using readll_loop_digits [of "dec n" 0 rest] dec_digits [of _ n] dec_val_dec [of n] by (simp add: dec_val_def)

lemma readLongLong_dec: "readLongLong (dec n @ CR # rest) = of_nat n"
proof (cases "dec n")
  case (Cons c ds)
  then have "is_digit c" using dec_digits [of c n] by simp
  then have "c \<noteq> CHR ''-''" "c \<noteq> CHR ''+''" by auto
  with Cons readll_loop_dec [of n rest] show ?thesis by (simp add: readLongLong_def)
qed simp

lemma readLongLong_dec_int: "readLongLong (dec_int i @ CR # rest) = of_int i"
proof (cases "i < 0")
  case True
  then have "readLongLong (dec_int i @ CR # rest) = - of_nat (nat (- i))"
    by (simp add: dec_int_def readLongLong_def readll_loop_dec)
  also have "\<dots> = (of_int i :: 64 word)" using True by simp
  finally show ?thesis .
next
  case False
  then show ?thesis by (simp add: dec_int_def readLongLong_dec)
qed

lemma cr_notin_dec: "CR \<notin> set (dec n)" "CR \<notin> set (dec_int i)"
  using dec_digits [of CR] by (auto simp: dec_int_def)

section \<open>Placing objects in the reply under construction\<close>

lemma set_at_defined: "(set_at p x r = None) = (set_at p y r = None)"
  by (induction p x r rule: set_at.induct) (auto split: option.splits)

lemma set_at_compose:
  "set_at p x root = Some r1 \<Longrightarrow> q \<noteq> [] \<Longrightarrow> set_at q v x = Some x' \<Longrightarrow> set_at (p @ q) v r1 = set_at p x' root"
proof (induction p x root arbitrary: r1 rule: set_at.induct)
  case (2 i p new t n l s e els)
  show ?case
  proof (cases "p = []")
    case True
    with 2(2-) show ?thesis by (cases q) (auto split: if_splits)
  next
    case False
    with 2(2) obtain child c where c: "t = REDIS_REPLY_ARRAY" "i < length els" "els ! i = Some child"
      "set_at p new child = Some c" "r1 = Reply t n l s e (Some (els[i := Some c]))"
      by (auto split: if_splits option.splits)
    with 2(1) [OF _ False c(3,4) 2(3,4)] False show ?thesis by simp
  qed
qed simp_all

text \<open>The tree after the current task's object has become \<open>v\<close>.\<close>

definition root_after :: "redisReader \<Rightarrow> redisReply \<Rightarrow> redisReply option" where
  "root_after r v =
     (case tparent (cur_task r) of
        None \<Rightarrow> Some v
      | Some p \<Rightarrow> do { path \<leftarrow> task_path r (cur_task r); root \<leftarrow> rreply r; set_at path v root })"

lemma root_after_defined: "(root_after r x = None) = (root_after r y = None)"
  using set_at_defined by (auto simp: root_after_def split: option.splits bind_splits)

lemma root_after_compose:
  assumes "root_after r x = Some R" "set_at q v x = Some x'" "q \<noteq> []" "task_path r (cur_task r) = Some path"
  shows "set_at (path @ q) v R = root_after r x'"
  using assms set_at_compose [of path x _ R q v x']
  by (auto simp: root_after_def task_path_def split: option.splits bind_splits)

section \<open>Parsing one item\<close>

text \<open>The unread bytes, and a reader about to parse an item that starts with a fresh task. The block of its buffer has less than
  2 GiB, so that the \<open>int\<close> fields of the buffer's header and every \<open>int\<close> position in it are exact.\<close>

definition unread :: "redisReader \<Rightarrow> string" where
  "unread r = (case rbuf r of Some b \<Rightarrow> drop (rpos r) (content b) | None \<Rightarrow> [])"

definition reader_wf :: "redisReader \<Rightarrow> bool" where
  "reader_wf r \<longleftrightarrow> (\<exists>b. rbuf r = Some b \<and> sds_wf b \<and> sdsAllocSize b < 2 ^ 31 \<and> rlen r = sh_len b \<and> rpos r \<le> rlen r) \<and>
     length (rstack r) = 9 \<and> rerr r = 0 \<and> rfn r"

definition fresh_at :: "redisReader \<Rightarrow> nat \<Rightarrow> bool" where
  "fresh_at r k \<longleftrightarrow> reader_wf r \<and> ridx r = int k \<and> k < 9 \<and> ttype (rstack r ! k) = - 1 \<and>
     (tparent (rstack r ! k) = None \<longleftrightarrow> k = 0)"

lemma length_unread: "reader_wf r \<Longrightarrow> length (unread r) = rlen r - rpos r"
  by (auto simp: reader_wf_def unread_def sds_wf_def length_content)

lemma rlen_bound: "reader_wf r \<Longrightarrow> rlen r + 9 < 2 ^ 31"
  by (auto simp: reader_wf_def sdsAllocSize_def sizeof_sdshdr_def)

lemma unread_bound: "reader_wf r \<Longrightarrow> length (unread r) + 9 < 2 ^ 31"
  using length_unread [of r] rlen_bound [of r] by simp

lemma at_cursor_unread:
  assumes "reader_wf r"
  obtains junk where "at_cursor r = unread r @ NUL # junk"
proof -
  from assms obtain b where b: "rbuf r = Some b" "sds_wf b" "rpos r \<le> sh_len b"
    by (auto simp: reader_wf_def)
  have "sds_open b" using b(2) by (simp add: sds_wf_def)
  then obtain x j where "sh_buf b = content b @ x # j" "length (content b) = sh_len b"
    by (rule sds_openE)
  moreover have "x = NUL" using b(2) calculation by (metis nth_append_length sds_wf_def)
  ultimately show thesis using that [of j] b by (simp add: at_cursor_def unread_def)
qed

lemma unread_advance:
  "reader_wf r \<Longrightarrow> unread r = xs @ ys \<Longrightarrow> rpos r' = rpos r + length xs \<Longrightarrow> rbuf r' = rbuf r \<Longrightarrow> unread r' = ys"
proof -
  assume r: "reader_wf r" "unread r = xs @ ys" "rpos r' = rpos r + length xs" "rbuf r' = rbuf r"
  then obtain b where b: "rbuf r = Some b" by (auto simp: reader_wf_def)
  have "drop (length xs) (drop (rpos r) (content b)) = ys" using r(2) b by (simp add: unread_def)
  then show ?thesis using r(3,4) b by (simp add: unread_def add.commute)
qed

lemma reader_wf_cong:
  "reader_wf r \<Longrightarrow> rbuf r' = rbuf r \<Longrightarrow> rlen r' = rlen r \<Longrightarrow> rpos r' \<le> rlen r \<Longrightarrow>
   length (rstack r') = 9 \<Longrightarrow> rerr r' = 0 \<Longrightarrow> rfn r' \<Longrightarrow> reader_wf r'"
  by (auto simp: reader_wf_def)

lemma pos_le:
  "reader_wf r \<Longrightarrow> unread r = xs @ ys \<Longrightarrow> rpos r + length xs \<le> rlen r"
  using length_unread [of r] by (auto simp: reader_wf_def)

text \<open>The reader after an item: the cursor past it, the current task's type set, the object placed.\<close>

definition placed_item :: "redisReader \<Rightarrow> nat \<Rightarrow> redisReply \<Rightarrow> redisReadTask list \<Rightarrow> redisReader" where
  "placed_item r n R stk = r\<lparr>rpos := rpos r + n, rreply := Some R, rstack := stk\<rparr>"

definition typed :: "redisReader \<Rightarrow> int \<Rightarrow> redisReader" where
  "typed r t = set_cur ((cur_task r)\<lparr>ttype := t\<rparr>) (r\<lparr>rpos := rpos r + 1\<rparr>)"

lemma typed_fields:
  assumes "fresh_at r k"
  shows "cur_task (typed r t) = (cur_task r)\<lparr>ttype := t\<rparr>" "ridx (typed r t) = int k"
    "rpos (typed r t) = rpos r + 1" "rlen (typed r t) = rlen r" "rbuf (typed r t) = rbuf r"
    "rreply (typed r t) = rreply r" "rfn (typed r t)" "rerr (typed r t) = 0"
    "rstack (typed r t) = (rstack r)[k := (rstack r ! k)\<lparr>ttype := t\<rparr>]"
  using assms by (simp_all add: typed_def set_cur_def cur_task_def fresh_at_def reader_wf_def)

lemma processItem_typed:
  assumes "fresh_at r k" "unread r = c # xs" "type_of_byte c = Some t"
  shows "processItem a r = process_typed a (typed r t)"
proof -
  have wf: "reader_wf r" using assms(1) by (simp add: fresh_at_def)
  obtain junk where "at_cursor r = unread r @ NUL # junk" using wf by (rule at_cursor_unread)
  moreover have "rlen r - rpos r \<ge> 1" using length_unread [OF wf] assms(2) by simp
  moreover have "ttype (cur_task r) = - 1" using assms(1) by (simp add: fresh_at_def cur_task_def)
  ultimately show ?thesis using assms(2,3)
    by (simp add: processItem_def readBytes_def typed_def set_cur_def cur_task_def)
qed

lemma typed_wf:
  assumes "fresh_at r k" "unread r = c # xs"
  shows "reader_wf (typed r t)" "unread (typed r t) = xs"
proof -
  have wf: "reader_wf r" using assms(1) by (simp add: fresh_at_def)
  note f = typed_fields [OF assms(1), of t]
  show "reader_wf (typed r t)"
  proof (rule reader_wf_cong [OF wf f(5) f(4) _ _ f(8) f(7)])
    show "rpos (typed r t) \<le> rlen r" using pos_le [OF wf, of "[c]" xs] assms(2) f(3) by simp
    show "length (rstack (typed r t)) = 9" using wf f(9) by (simp add: reader_wf_def)
  qed
  show "unread (typed r t) = xs"
    by (rule unread_advance [OF wf, of "[c]"]) (simp_all add: assms(2) f(3,5))
qed

lemma readLine_line:
  assumes "reader_wf r" "unread r = l @ CR # LF # rest" "CR \<notin> set l"
  obtains junk where "readLine r = Some (l @ CR # LF # rest @ NUL # junk, length l, r\<lparr>rpos := rpos r + (length l + 2)\<rparr>)"
proof -
  obtain junk where c: "at_cursor r = unread r @ NUL # junk" using assms(1) by (rule at_cursor_unread)
  have n: "length l + 1 < rlen r - rpos r" using length_unread [OF assms(1)] assms(2) by simp
  have "seekNewline (l @ CR # LF # (rest @ NUL # junk)) (rlen r - rpos r) = Some (length l)"
    by (rule seekNewline_line [OF assms(3) n]) (use rlen_bound [OF assms(1)] in simp)
  then show thesis using that [of junk] c assms(2) by (simp add: readLine_def)
qed

text \<open>Creating the object \<open>v\<close> for the current task, on any reader with that stack and tree.\<close>

lemma finish_create_root:
  assumes "fresh_at r k" "root_after r v = Some R" "rstack r1 = (rstack r)[k := (rstack r ! k)\<lparr>ttype := t\<rparr>]"
    "rreply r1 = rreply r" "ridx r1 = int k"
  shows "\<exists>r2. finish_create r1 (cur_task r1) v = Created v r2 \<and> set_root_reply v r2 = r1\<lparr>rreply := Some R\<rparr>"
proof -
  have k: "k < length (rstack r)" "ridx r = int k" using assms(1) by (simp_all add: fresh_at_def reader_wf_def)
  have ct: "cur_task r1 = (cur_task r)\<lparr>ttype := t\<rparr>" "cur_task r = rstack r ! k"
    using assms k by (simp_all add: cur_task_def)
  show ?thesis
  proof (cases "k = 0")
    case True
    then have "tparent (cur_task r) = None" using assms(1) ct by (simp add: fresh_at_def)
    with assms True ct show ?thesis
      by (simp add: finish_create_def link_reply_def root_after_def set_root_reply_def)
  next
    case False
    then obtain p where p: "tparent (cur_task r) = Some p" using assms(1) ct by (auto simp: fresh_at_def)
    have same: "task_path r1 (cur_task r1) = task_path r (cur_task r)"
      using p ct assms(3) k by (auto simp: task_path_def nth_list_update)
    from assms(2) p obtain path root where pr: "task_path r (cur_task r) = Some path" "rreply r = Some root"
      "set_at path v root = Some R" by (auto simp: root_after_def split: bind_splits)
    have "link_reply r1 (cur_task r1) v = Some (r1\<lparr>rreply := Some R\<rparr>)"
      using p ct pr assms(4) by (simp add: link_reply_def same [unfolded ct] flip: ct(1))
    with False assms(5) show ?thesis by (simp add: finish_create_def set_root_reply_def)
  qed
qed

lemma set_root_pos: "set_root_reply v (r\<lparr>rpos := n\<rparr>) = (set_root_reply v r)\<lparr>rpos := n\<rparr>"
  by (simp add: set_root_reply_def)

abbreviation with_type :: "redisReader \<Rightarrow> nat \<Rightarrow> int \<Rightarrow> redisReadTask list" where
  "with_type r k t \<equiv> (rstack r)[k := (rstack r ! k)\<lparr>ttype := t\<rparr>]"

lemma item_placed:
  assumes "fresh_at r k" "root_after r v = Some R"
  obtains r2 where "finish_create ((typed r t)\<lparr>rpos := n1\<rparr>) ((cur_task r)\<lparr>ttype := t\<rparr>) v = Created v r2"
    "rpos r2 = n1" "\<And>n. set_root_reply v (r2\<lparr>rpos := rpos r + n\<rparr>) = placed_item r n R (with_type r k t)"
proof -
  let ?r1 = "(typed r t)\<lparr>rpos := n1\<rparr>"
  note f = typed_fields [OF assms(1), of t]
  have ct: "cur_task ?r1 = (cur_task r)\<lparr>ttype := t\<rparr>" using f(1) by (simp add: cur_task_def)
  obtain r2 where r2: "finish_create ?r1 (cur_task ?r1) v = Created v r2"
    "set_root_reply v r2 = ?r1\<lparr>rreply := Some R\<rparr>"
    using finish_create_root [OF assms, of ?r1 t] f by auto
  have "rpos (set_root_reply v r2) = n1" using r2(2) by simp
  then have p: "rpos r2 = n1" by simp
  have "set_root_reply v (r2\<lparr>rpos := rpos r + n\<rparr>) = placed_item r n R (with_type r k t)" for n
    using assms(1) by (simp add: set_root_pos r2(2) placed_item_def typed_def set_cur_def cur_task_def fresh_at_def)
  with r2(1) p ct that show thesis by simp
qed

lemma item_placed_here:
  assumes "fresh_at r k" "root_after r v = Some R"
  obtains r2 where "finish_create ((typed r t)\<lparr>rpos := rpos r + n\<rparr>) ((cur_task r)\<lparr>ttype := t\<rparr>) v = Created v r2"
    "set_root_reply v r2 = placed_item r n R (with_type r k t)"
proof -
  obtain r2 where r2: "finish_create ((typed r t)\<lparr>rpos := rpos r + n\<rparr>) ((cur_task r)\<lparr>ttype := t\<rparr>) v = Created v r2"
    "rpos r2 = rpos r + n" "\<And>n. set_root_reply v (r2\<lparr>rpos := rpos r + n\<rparr>) = placed_item r n R (with_type r k t)"
    using item_placed [OF assms, where t = t and ?n1.0 = "rpos r + n"] by blast
  have "r2\<lparr>rpos := rpos r + n\<rparr> = r2" using r2(2) by simp
  with r2 that show thesis by metis
qed

definition item_done :: "allocator \<Rightarrow> redisReader \<Rightarrow> nat \<Rightarrow> nat \<Rightarrow> redisReply \<Rightarrow> int \<Rightarrow> bool" where
  "item_done a r k n v t \<longleftrightarrow> (\<forall>R. root_after r v = Some R \<longrightarrow>
     processItem a r = map_option (Pair REDIS_OK) (moveToNextTask (placed_item r n R (with_type r k t))))"

lemma line_item_done:
  assumes fr: "fresh_at r k" and u: "unread r = c # l @ CR # LF # rest" and t: "type_of_byte c = Some t"
    and cr: "CR \<notin> set l" and mem: "\<And>n. n < 2 ^ 31 \<Longrightarrow> can_alloc a n"
    and v: "t = REDIS_REPLY_INTEGER \<and> v = Reply t (readLongLong (l @ CR # LF # rest)) 0 None 0 None \<or>
            (t = REDIS_REPLY_STATUS \<or> t = REDIS_REPLY_ERROR) \<and> v = Reply t 0 (int (length l)) (Some l) 0 None"
    and num: "\<And>x y. t = REDIS_REPLY_INTEGER \<Longrightarrow> readLongLong (l @ CR # x) = readLongLong (l @ CR # y)"
  shows "item_done a r k (length l + 3) v t"
  unfolding item_done_def
proof (intro allI impI)
  fix R assume R: "root_after r v = Some R"
  note f = typed_fields [OF fr, of t] and w = typed_wf [OF fr u, of t]
  obtain junk where rl: "readLine (typed r t) = Some (l @ CR # LF # rest @ NUL # junk, length l,
      (typed r t)\<lparr>rpos := rpos (typed r t) + (length l + 2)\<rparr>)"
    using readLine_line [OF w cr] by blast
  obtain r2 where r2: "finish_create ((typed r t)\<lparr>rpos := rpos r + (length l + 3)\<rparr>) ((cur_task r)\<lparr>ttype := t\<rparr>) v = Created v r2"
    "set_root_reply v r2 = placed_item r (length l + 3) R (with_type r k t)"
    using item_placed_here [OF fr R, where t = t and n = "length l + 3"] by blast
  have pos: "rpos (typed r t) + (length l + 2) = rpos r + (length l + 3)" using f(3) by simp
  have l31: "length l + 1 < 2 ^ 31" using unread_bound [OF w(1)] w(2) by simp
  have so: "can_alloc a sizeof_redisReply" by (rule mem) (simp add: sizeof_redisReply_def)
  have li: "to_int32 (of_nat (length l)) = int (length l)" by (rule sint_of_count(2)) (use l31 in simp)
  have "processItem a r = processLineItem a (typed r t)"
    using processItem_typed [OF fr u t, of a] v f(1) by (auto simp: process_typed_def reply_types)
  also have "\<dots> = map_option (Pair REDIS_OK) (moveToNextTask (placed_item r (length l + 3) R (with_type r k t)))"
  proof (cases "t = REDIS_REPLY_INTEGER")
    case True
    then have "v = Reply t (readLongLong (l @ CR # LF # rest @ NUL # junk)) 0 None 0 None"
      using v num [OF True, of "LF # rest" "LF # rest @ NUL # junk"] by (auto simp: reply_types)
    then show ?thesis using True r2 so f rl [unfolded pos]
      by (simp add: processLineItem_def after_create_def createIntegerObject_def createReplyObject_def)
  next
    case False
    then have "v = Reply t 0 (int (length l)) (Some l) 0 None" "t = REDIS_REPLY_STATUS \<or> t = REDIS_REPLY_ERROR" using v by auto
    then show ?thesis using False r2 so mem [OF l31] f rl [unfolded pos] li
      by (auto simp add: processLineItem_def after_create_def createStringObject_def createReplyObject_def)
  qed
  finally show "processItem a r = map_option (Pair REDIS_OK) (moveToNextTask (placed_item r (length l + 3) R (with_type r k t)))" .
qed

lemma bulk_item_done:
  assumes fr: "fresh_at r k" and u: "unread r = enc (Bulk s) @ rest" and mem: "\<And>n. n < 2 ^ 31 \<Longrightarrow> can_alloc a n"
  shows "item_done a r k (length (enc (Bulk s))) (reply_of (Bulk s)) REDIS_REPLY_STRING"
  unfolding item_done_def
proof (intro allI impI)
  let ?t = REDIS_REPLY_STRING and ?v = "reply_of (Bulk s)" and ?d = "dec (length s)"
  fix R assume R: "root_after r ?v = Some R"
  have u': "unread r = CHR ''$'' # ?d @ CR # LF # s @ CR # LF # rest" using u by simp
  have tb: "type_of_byte (CHR ''$'') = Some ?t" by (simp add: type_of_byte_def)
  note f = typed_fields [OF fr, of ?t] and w = typed_wf [OF fr u', of ?t]
  obtain junk where cu: "at_cursor (typed r ?t) = unread (typed r ?t) @ NUL # junk" using w(1) by (rule at_cursor_unread)
  have lu: "rlen r - (rpos r + 1) = length (?d @ CR # LF # s @ CR # LF # rest)"
    using length_unread [OF w(1)] w(2) f(3,4) by simp
  have sk: "seekNewline (at_cursor (typed r ?t)) (rlen r - (rpos r + 1)) = Some (length ?d)"
    unfolding cu w(2) using seekNewline_line [OF cr_notin_dec(1), of "length s"] lu unread_bound [OF w(1)] w(2) by simp
  have rn: "readLongLong (at_cursor (typed r ?t)) = of_nat (length s)"
    unfolding cu w(2) by (simp add: readLongLong_dec)
  have len: "length s + 1 < 2 ^ 31" using unread_bound [OF w(1)] w(2) by simp
  then have un: "unat (of_nat (length s) :: 64 word) = length s" by (simp add: unat_of_nat)
  have si: "\<not> sint (of_nat (length s) :: 64 word) < 0" "to_int32 (of_nat (length s)) = int (length s)"
    using sint_of_count [of "length s"] len by simp_all
  have so: "can_alloc a sizeof_redisReply" by (rule mem) (simp add: sizeof_redisReply_def)
  have fit: "rpos r + 1 + (length ?d + 2 + (length s + 2)) \<le> rlen r"
    using lu pos_le [of r "unread r" "[]"] fr length_unread [of r] u' by (auto simp: fresh_at_def)
  obtain r2 where r2: "finish_create ((typed r ?t)\<lparr>rpos := rpos r + 1\<rparr>) ((cur_task r)\<lparr>ttype := ?t\<rparr>) ?v = Created ?v r2"
    "rpos r2 = rpos r + 1" "\<And>n. set_root_reply ?v (r2\<lparr>rpos := rpos r + n\<rparr>) = placed_item r n R (with_type r k ?t)"
    using item_placed [OF fr R, where t = ?t and ?n1.0 = "rpos r + 1"] by blast
  have ty: "(typed r ?t)\<lparr>rpos := rpos r + 1\<rparr> = typed r ?t" using f(3) by simp
  have tk: "take (length s) (drop (length ?d + 2) (at_cursor (typed r ?t))) = s" unfolding cu w(2) by simp
  have "processItem a r = processBulkItem a (typed r ?t)"
    using processItem_typed [OF fr u' tb, of a] f(1) by (simp add: process_typed_def reply_types)
  also have "\<dots> = map_option (Pair REDIS_OK) (moveToNextTask (placed_item r (length (enc (Bulk s))) R (with_type r k ?t)))"
    using f r2(1) [unfolded ty] r2(2) r2(3) [of "1 + (length ?d + 2 + (length s + 2))"] so mem [OF len] fit
      sk tk
    by (simp add: processBulkItem_def rn un si after_create_def createStringObject_def
        createReplyObject_def Let_def add.assoc numeral_eq_Suc)
  finally show "processItem a r = map_option (Pair REDIS_OK)
      (moveToNextTask (placed_item r (length (enc (Bulk s))) R (with_type r k ?t)))" .
qed

lemma nil_bulk_item_done:
  assumes fr: "fresh_at r k" and u: "unread r = enc NilBulk @ rest" and mem: "\<And>n. n < 2 ^ 31 \<Longrightarrow> can_alloc a n"
  shows "item_done a r k (length (enc NilBulk)) (reply_of NilBulk) REDIS_REPLY_STRING"
  unfolding item_done_def
proof (intro allI impI)
  let ?t = REDIS_REPLY_STRING and ?v = "reply_of NilBulk"
  fix R assume R: "root_after r ?v = Some R"
  have u': "unread r = CHR ''$'' # ''-1'' @ CR # LF # rest" using u by simp
  have tb: "type_of_byte (CHR ''$'') = Some ?t" by (simp add: type_of_byte_def)
  note f = typed_fields [OF fr, of ?t] and w = typed_wf [OF fr u', of ?t]
  obtain junk where cu: "at_cursor (typed r ?t) = unread (typed r ?t) @ NUL # junk" using w(1) by (rule at_cursor_unread)
  have lu: "rlen r - (rpos r + 1) = length (''-1'' @ CR # LF # rest)"
    using length_unread [OF w(1)] w(2) f(3,4) by simp
  have sk: "seekNewline (at_cursor (typed r ?t)) (rlen r - (rpos r + 1)) = Some 2"
    unfolding cu w(2) using seekNewline_line [of "''-1''"] lu unread_bound [OF w(1)] w(2) by simp
  have so: "can_alloc a sizeof_redisReply" by (rule mem) (simp add: sizeof_redisReply_def)
  have rn: "readLongLong (at_cursor (typed r ?t)) = - 1"
    unfolding cu w(2) by (simp add: readLongLong_def)
  obtain r2 where r2: "finish_create ((typed r ?t)\<lparr>rpos := rpos r + 1\<rparr>) ((cur_task r)\<lparr>ttype := ?t\<rparr>) ?v = Created ?v r2"
    "rpos r2 = rpos r + 1" "\<And>n. set_root_reply ?v (r2\<lparr>rpos := rpos r + n\<rparr>) = placed_item r n R (with_type r k ?t)"
    using item_placed [OF fr R, where t = ?t and ?n1.0 = "rpos r + 1"] by blast
  have ty: "(typed r ?t)\<lparr>rpos := rpos r + 1\<rparr> = typed r ?t" using f(3) by simp
  have "processItem a r = processBulkItem a (typed r ?t)"
    using processItem_typed [OF fr u' tb, of a] f(1) by (simp add: process_typed_def reply_types)
  also have "\<dots> = map_option (Pair REDIS_OK) (moveToNextTask (placed_item r (length (enc NilBulk)) R (with_type r k ?t)))"
    using f r2(1) [unfolded ty] r2(2) r2(3) [of 5] so sk
    by (simp add: processBulkItem_def rn after_create_def createNilObject_def createReplyObject_def Let_def
        numeral_eq_Suc)
  finally show "processItem a r = map_option (Pair REDIS_OK)
      (moveToNextTask (placed_item r (length (enc NilBulk)) R (with_type r k ?t)))" .
qed

lemma move_root_commute:
  "ridx r = int k \<Longrightarrow>
   map_option (set_if_root (k = 0) obj) (moveToNextTask r) = moveToNextTask (set_root_reply obj r)"
proof (cases "k = 0")
  case True
  assume "ridx r = int k"
  with True show ?thesis
    by (subst (1 2) moveToNextTask.simps) (simp add: set_root_reply_def set_if_root_def)
next
  case False
  assume "ridx r = int k"
  moreover have "set_if_root False obj = id" by (rule ext) (simp add: set_if_root_def)
  ultimately show ?thesis using False by (simp add: set_root_reply_def option.map_id)
qed

lemma multibulk_item:
  assumes fr: "fresh_at r k" and k8: "k < 8" and u: "unread r = CHR ''*'' # d @ CR # LF # rest"
    and cr: "CR \<notin> set d" and e: "\<And>x. readLongLong (d @ CR # x) = e"
  defines "r1 \<equiv> (typed r REDIS_REPLY_ARRAY)\<lparr>rpos := rpos r + (length d + 3)\<rparr>"
    and "cur \<equiv> (cur_task r)\<lparr>ttype := REDIS_REPLY_ARRAY\<rparr>"
  shows "processItem a r =
    (if sint e = - 1 then after_create r1 (createNilObject a r1 cur)
       (\<lambda>obj r. map_option (set_if_root (k = 0) obj) (moveToNextTask r))
     else after_create r1 (createArrayObject a r1 cur (to_int32 e)) (array_created (k = 0) cur e))"
proof -
  let ?t = REDIS_REPLY_ARRAY
  have tb: "type_of_byte (CHR ''*'') = Some ?t" by (simp add: type_of_byte_def)
  note f = typed_fields [OF fr, of ?t] and w = typed_wf [OF fr u, of ?t]
  obtain junk where "readLine (typed r ?t) = Some (d @ CR # LF # rest @ NUL # junk, length d,
      (typed r ?t)\<lparr>rpos := rpos (typed r ?t) + (length d + 2)\<rparr>)"
    using readLine_line [OF w cr] by blast
  moreover have "rpos (typed r ?t) + (length d + 2) = rpos r + (length d + 3)" using f(3) by simp
  ultimately have rl: "readLine (typed r ?t) = Some (d @ CR # LF # rest @ NUL # junk, length d, r1)"
    by (simp add: r1_def)
  have "ridx r1 = int k" "rfn r1" using f by (simp_all add: r1_def)
  moreover have "processItem a r = processMultiBulkItem a (typed r ?t)"
    using processItem_typed [OF fr u tb, of a] f(1) by (simp add: process_typed_def reply_types)
  ultimately show ?thesis
    using k8 f(1,2) rl by (simp add: processMultiBulkItem_def e cur_def Let_def)
qed

lemma empty_multibulk_done:
  assumes fr: "fresh_at r k" and k8: "k < 8" and u: "unread r = enc t @ rest" and mem: "\<And>n. n < 2 ^ 31 \<Longrightarrow> can_alloc a n"
    and t: "t = NilArr \<or> t = Arr []"
  shows "item_done a r k (length (enc t)) (reply_of t) REDIS_REPLY_ARRAY"
  unfolding item_done_def
proof (intro allI impI)
  fix R assume R: "root_after r (reply_of t) = Some R"
  let ?t = REDIS_REPLY_ARRAY
  define d where "d = (if t = NilArr then ''-1'' else dec 0)"
  define e :: "64 word" where "e = (if t = NilArr then - 1 else 0)"
  have n: "length d + 3 = length (enc t)" and u': "unread r = CHR ''*'' # d @ CR # LF # rest"
    using t u by (auto simp: d_def)
  have cr: "CR \<notin> set d" using cr_notin_dec(1) [of 0] by (simp add: d_def)
  have e': "readLongLong (d @ CR # x) = e" for x
    using readLongLong_dec [of 0 x] by (simp add: d_def e_def readLongLong_def)
  obtain r2 where r2: "finish_create ((typed r ?t)\<lparr>rpos := rpos r + (length d + 3)\<rparr>) ((cur_task r)\<lparr>ttype := ?t\<rparr>)
      (reply_of t) = Created (reply_of t) r2"
    "set_root_reply (reply_of t) r2 = placed_item r (length d + 3) R (with_type r k ?t)"
    using item_placed_here [OF fr R, where t = ?t and n = "length d + 3"] by blast
  have "ridx r2 = int k"
    using finish_create_fields [OF r2(1)] typed_fields(2) [OF fr, of ?t] by simp
  then have mv: "map_option (set_if_root (k = 0) (reply_of t)) (moveToNextTask r2)
      = moveToNextTask (placed_item r (length d + 3) R (with_type r k ?t))"
    using move_root_commute [of r2 k "reply_of t"] r2(2) by simp
  show "processItem a r = map_option (Pair REDIS_OK) (moveToNextTask (placed_item r (length (enc t)) R (with_type r k ?t)))"
    unfolding n [symmetric] using t multibulk_item [OF fr k8 u' cr e', of a] r2(1) mv mem [of sizeof_redisReply]
    by (auto simp: sizeof_redisReply_def e_def after_create_def createNilObject_def createArrayObject_def createReplyObject_def
        array_created_def to_int32_def)
qed

section \<open>Parsing nested replies\<close>

text \<open>Parsing an item at level \<open>k\<close> brings the reader to the next task with the item's object in its
  place; the tasks below level \<open>k\<close> are as before.\<close>

definition item_runs :: "allocator \<Rightarrow> redisReader \<Rightarrow> nat \<Rightarrow> resp \<Rightarrow> bool" where
  "item_runs a r k t \<longleftrightarrow> (\<forall>R. root_after r (reply_of t) = Some R \<longrightarrow>
     (\<exists>stk. length stk = 9 \<and> take k stk = take k (rstack r) \<and>
        tidx (stk ! k) = tidx (rstack r ! k) \<and> tparent (stk ! k) = tparent (rstack r ! k) \<and>
        process_items a r = moveToNextTask (placed_item r (length (enc t)) R stk) \<bind> process_items a))"

lemma done_runs:
  assumes "fresh_at r k" "item_done a r k (length (enc t)) (reply_of t) ty"
  shows "item_runs a r k t"
  unfolding item_runs_def
proof (intro allI impI)
  fix R assume R: "root_after r (reply_of t) = Some R"
  let ?stk = "with_type r k ty" and ?p = "placed_item r (length (enc t)) R (with_type r k ty)"
  have k: "k < length (rstack r)" "length (rstack r) = 9" "ridx r = int k"
    using assms(1) by (simp_all add: fresh_at_def reader_wf_def)
  have "processItem a r = map_option (Pair REDIS_OK) (moveToNextTask ?p)"
    using assms(2) R by (simp add: item_done_def)
  then have "process_items a r = moveToNextTask ?p \<bind> process_items a"
    using k by (subst process_items.simps) (cases "moveToNextTask ?p", simp_all)
  then show "\<exists>stk. length stk = 9 \<and> take k stk = take k (rstack r) \<and>
      tidx (stk ! k) = tidx (rstack r ! k) \<and> tparent (stk ! k) = tparent (rstack r ! k) \<and>
      process_items a r = moveToNextTask (placed_item r (length (enc t)) R stk) \<bind> process_items a"
    using k by (intro exI [of _ ?stk]) simp
qed

definition partial_arr :: "resp list \<Rightarrow> nat \<Rightarrow> redisReply" where
  "partial_arr ts i = Reply REDIS_REPLY_ARRAY 0 0 None (of_nat (length ts))
     (Some (map (\<lambda>t. Some (reply_of t)) (take i ts) @ replicate (length ts - i) None))"

lemma partial_arr_full: "ts \<noteq> [] \<Longrightarrow> partial_arr ts (length ts) = reply_of (Arr ts)"
  by (simp add: partial_arr_def)

lemma partial_arr_step:
  assumes "i < length ts"
  shows "set_at [i] (reply_of (ts ! i)) (partial_arr ts i) = Some (partial_arr ts (Suc i))"
proof -
  have "replicate (length ts - i) None = None # replicate (length ts - Suc i) (None :: redisReply option)"
    using assms by (metis Suc_diff_Suc replicate_Suc)
  then show ?thesis using assms
    by (simp add: partial_arr_def list_update_append take_Suc_conv_app_nth)
qed

text \<open>A reader inside the array of the task at level \<open>k\<close> of \<open>r\<close>, about to parse element \<open>i\<close>.\<close>

definition inside :: "redisReader \<Rightarrow> nat \<Rightarrow> nat list \<Rightarrow> resp list \<Rightarrow> nat \<Rightarrow> nat \<Rightarrow> redisReadTask list \<Rightarrow> redisReply \<Rightarrow> redisReader" where
  "inside r k path ts i n stk R = r\<lparr>rpos := rpos r + n, rreply := Some R, rstack := stk, ridx := int k + 1\<rparr>"

definition array_task :: "redisReader \<Rightarrow> nat \<Rightarrow> nat list \<Rightarrow> resp list \<Rightarrow> redisReadTask" where
  "array_task r k path ts = (rstack r ! k)\<lparr>ttype := REDIS_REPLY_ARRAY, telements := int (length ts), tobj := Some path\<rparr>"

lemma elements_run:
  assumes fr: "fresh_at r k" and k8: "k < 8" and path: "task_path r (cur_task r) = Some path"
    and full: "root_after r (reply_of (Arr ts)) = Some RF"
    and IH: "\<And>t s. t \<in> set ts \<Longrightarrow> fresh_at s (Suc k) \<Longrightarrow> \<exists>rest. unread s = enc t @ rest \<Longrightarrow> item_runs a s (Suc k) t"
  shows "i < length ts \<Longrightarrow> root_after r (partial_arr ts i) = Some R \<Longrightarrow>
    length stk = 9 \<Longrightarrow> take k stk = take k (rstack r) \<Longrightarrow> stk ! k = array_task r k path ts \<Longrightarrow>
    ttype (stk ! Suc k) = - 1 \<Longrightarrow> tidx (stk ! Suc k) = int i \<Longrightarrow> tparent (stk ! Suc k) = Some k \<Longrightarrow>
    unread (inside r k path ts i n stk R) = concat (map enc (drop i ts)) @ rest \<Longrightarrow> rpos r + n \<le> rlen r \<Longrightarrow>
    \<exists>stk'. length stk' = 9 \<and> take k stk' = take k (rstack r) \<and>
      tidx (stk' ! k) = tidx (rstack r ! k) \<and> tparent (stk' ! k) = tparent (rstack r ! k) \<and>
      process_items a (inside r k path ts i n stk R)
        = moveToNextTask (placed_item r (n + length (concat (map enc (drop i ts)))) RF stk') \<bind> process_items a"
proof (induction "length ts - i" arbitrary: i R stk n)
  case 0
  then show ?case by simp
next
  case (Suc m)
  let ?s = "inside r k path ts i n stk R" and ?t = "ts ! i"
  have wf: "reader_wf r" and k: "ridx r = int k" "length (rstack r) = 9"
    using fr by (auto simp: fresh_at_def reader_wf_def)
  have dr: "drop i ts = ?t # drop (Suc i) ts" using Suc.prems(1) by (simp add: Cons_nth_drop_Suc)
  have swf: "reader_wf ?s"
    using wf Suc.prems(3,10) by (intro reader_wf_cong [OF wf]) (auto simp: inside_def reader_wf_def)
  have sf: "fresh_at ?s (Suc k)"
    using swf k8 Suc.prems(6,8) by (simp add: fresh_at_def inside_def)
  have su: "unread ?s = enc ?t @ concat (map enc (drop (Suc i) ts)) @ rest" using Suc.prems(9) dr by simp
  have ct: "cur_task ?s = stk ! Suc k" by (simp add: cur_task_def inside_def nat_add_distrib)
  have tp: "task_path ?s (cur_task ?s) = Some (path @ [i])"
    using Suc.prems(5,7,8) by (simp add: task_path_def ct) (simp add: inside_def array_task_def)
  obtain R' where R': "root_after r (partial_arr ts (Suc i)) = Some R'"
    using root_after_defined [of r "partial_arr ts (Suc i)" "reply_of (Arr ts)"] full by fastforce
  have "set_at (path @ [i]) (reply_of ?t) R = Some R'"
    using root_after_compose [OF Suc.prems(2) partial_arr_step [OF Suc.prems(1)] _ path] R' by simp
  then have ra: "root_after ?s (reply_of ?t) = Some R'"
    using tp Suc.prems(8) by (simp add: root_after_def ct) (simp add: inside_def)
  have "item_runs a ?s (Suc k) ?t" using IH [of ?t ?s] sf su Suc.prems(1) by auto
  then obtain st1 where st1: "length st1 = 9" "take (Suc k) st1 = take (Suc k) stk"
    "tidx (st1 ! Suc k) = int i" "tparent (st1 ! Suc k) = Some k"
    "process_items a ?s = moveToNextTask (placed_item ?s (length (enc ?t)) R' st1) \<bind> process_items a"
    using ra Suc.prems(7,8) by (auto simp: item_runs_def inside_def)
  have st1k: "st1 ! k = array_task r k path ts"
    using st1(2) Suc.prems(5) by (metis lessI nth_take)
  have st1t: "take k st1 = take k (rstack r)"
    using st1(2) Suc.prems(4) by (metis le_SucI min.absorb1 nle_le order_refl take_take)
  let ?p = "placed_item ?s (length (enc ?t)) R' st1"
  have pf: "ridx ?p = int k + 1" "rstack ?p = st1" by (simp_all add: placed_item_def inside_def)
  have prv: "ttype (st1 ! k) = REDIS_REPLY_ARRAY" "telements (st1 ! k) = int (length ts)"
    using st1k by (simp_all add: array_task_def)
  have mv: "moveToNextTask ?p =
      (if int i = int (length ts) - 1 then moveToNextTask (?p\<lparr>ridx := int k\<rparr>)
       else Some (?p\<lparr>rstack := st1[Suc k := (st1 ! Suc k)\<lparr>ttype := - 1, telements := - 1, tidx := int i + 1\<rparr>]\<rparr>))"
    using pf prv st1(3) Suc.prems(1)
    by (subst moveToNextTask.simps) (simp add: nat_add_distrib Let_def del: moveToNextTask.simps)
  show ?case
  proof (cases "i = length ts - 1")
    case True
    then have "Suc i = length ts" using Suc.prems(1) by simp
    moreover have ne: "ts \<noteq> []" using Suc.prems(1) by auto
    ultimately have RF: "R' = RF" "drop (Suc i) ts = []"
      using R' full partial_arr_full [OF ne] by (simp_all del: reply_of.simps)
    have "?p\<lparr>ridx := int k\<rparr> = placed_item r (n + length (concat (map enc (drop i ts)))) RF st1"
      using k RF dr by (simp add: placed_item_def inside_def)
    moreover have "int i = int (length ts) - 1" using True Suc.prems(1) by simp
    ultimately show ?thesis
      using st1 st1k st1t mv by (intro exI [of _ st1]) (simp add: array_task_def)
  next
    case False
    let ?st = "st1[Suc k := (st1 ! Suc k)\<lparr>ttype := - 1, telements := - 1, tidx := int i + 1\<rparr>]"
    have lt: "Suc i < length ts" using False Suc.prems(1) by simp
    have eq: "?p\<lparr>rstack := ?st\<rparr> = inside r k path ts (Suc i) (n + length (enc ?t)) ?st R'"
      by (simp add: placed_item_def inside_def)
    have ne: "int i \<noteq> int (length ts) - 1" using lt by simp
    have run: "process_items a ?s = process_items a (inside r k path ts (Suc i) (n + length (enc ?t)) ?st R')"
      using st1(5) mv ne eq by simp
    have u2: "unread (inside r k path ts (Suc i) (n + length (enc ?t)) ?st R') = concat (map enc (drop (Suc i) ts)) @ rest"
      by (rule unread_advance [OF swf su]) (simp_all add: inside_def)
    have p2: "rpos r + (n + length (enc ?t)) \<le> rlen r"
      using pos_le [OF swf su] by (simp add: inside_def)
    have len: "length (concat (map enc (drop i ts))) = length (enc ?t) + length (concat (map enc (drop (Suc i) ts)))"
      using dr by simp
    have "\<exists>stk'. length stk' = 9 \<and> take k stk' = take k (rstack r) \<and>
      tidx (stk' ! k) = tidx (rstack r ! k) \<and> tparent (stk' ! k) = tparent (rstack r ! k) \<and>
      process_items a (inside r k path ts (Suc i) (n + length (enc ?t)) ?st R')
        = moveToNextTask (placed_item r (n + length (enc ?t) + length (concat (map enc (drop (Suc i) ts)))) RF stk')
          \<bind> process_items a"
      using Suc.hyps(2) k8 st1 st1k st1t lt R' u2 p2
      by (intro Suc.hyps(1)) (auto simp: nth_list_update)
    then show ?thesis using run len by (simp add: add.assoc)
  qed
qed

lemma array_enters:
  assumes fr: "fresh_at r k" and k8: "k < 8" and u: "unread r = enc (Arr ts) @ rest" and mem: "\<And>n. n < 2 ^ 31 \<Longrightarrow> can_alloc a n"
    and ts: "ts \<noteq> []" "8 * length ts < 2 ^ 31" and path: "task_path r (cur_task r) = Some path"
    and R: "root_after r (partial_arr ts 0) = Some R"
  defines "stk \<equiv> (rstack r)[k := array_task r k path ts,
      Suc k := \<lparr>ttype = - 1, telements = - 1, tidx = 0, tobj = None, tparent = Some k\<rparr>]"
  shows "processItem a r = Some (REDIS_OK, inside r k path ts 0 (length (dec (length ts)) + 3) stk R)"
proof -
  let ?t = REDIS_REPLY_ARRAY and ?d = "dec (length ts)" and ?e = "of_nat (length ts) :: 64 word"
  let ?cur = "(cur_task r)\<lparr>ttype := ?t\<rparr>" and ?v = "partial_arr ts 0"
  have u': "unread r = CHR ''*'' # ?d @ CR # LF # concat (map enc ts) @ rest" using u by simp
  have k: "ridx r = int k" "k < length (rstack r)" using fr by (simp_all add: fresh_at_def reader_wf_def)
  obtain r2 where r2: "finish_create ((typed r ?t)\<lparr>rpos := rpos r + (length ?d + 3)\<rparr>) ?cur ?v = Created ?v r2"
    "set_root_reply ?v r2 = placed_item r (length ?d + 3) R (with_type r k ?t)"
    using item_placed_here [OF fr R, where t = ?t and n = "length ?d + 3"] by blast
  have f2: "ridx r2 = int k" "rfn r2" "rstack r2 = with_type r k ?t"
    using finish_create_fields [OF r2(1)] typed_fields [OF fr, of ?t] by simp_all
  have tp: "task_path r2 ?cur = Some path"
    using path k f2(3) by (auto simp: task_path_def cur_task_def nth_list_update split: option.splits)
  have cnt: "sint ?e = int (length ts)" "to_int32 ?e = int (length ts)" "0 < length ts"
    using sint_of_count [of "length ts"] ts by simp_all
  have root: "set_if_root (k = 0) ?v (r2\<lparr>rstack := st, ridx := x\<rparr>) = (set_root_reply ?v r2)\<lparr>rstack := st, ridx := x\<rparr>"
    for st x using f2(1) by (simp add: set_if_root_def set_root_reply_def)
  have "array_created (k = 0) ?cur ?e ?v r2 = Some (inside r k path ts 0 (length ?d + 3) stk R)"
    using cnt f2 tp k
    by (simp add: array_created_def root r2(2) placed_item_def inside_def stk_def array_task_def cur_task_def)
  moreover have "createArrayObject a ((typed r ?t)\<lparr>rpos := rpos r + (length ?d + 3)\<rparr>) ?cur (int (length ts)) = Created ?v r2"
    using mem [of sizeof_redisReply] mem [of "length ts * 8"] ts(2) r2(1) cnt(3)
    by (simp add: createArrayObject_def createReplyObject_def partial_arr_def sizeof_redisReply_def)
  moreover have "sint ?e \<noteq> - 1" using cnt(1) by simp
  ultimately show ?thesis
    using multibulk_item [OF fr k8 u' cr_notin_dec(1) readLongLong_dec, of a] cnt(2)
    by (simp add: after_create_def)
qed

lemma root_after_path:
  "fresh_at r k \<Longrightarrow> root_after r v = Some R \<Longrightarrow> \<exists>path. task_path r (cur_task r) = Some path"
  by (auto simp: root_after_def task_path_def split: option.splits bind_splits)

lemma array_runs:
  assumes fr: "fresh_at r k" and k8: "k < 8" and u: "unread r = enc (Arr ts) @ rest" and mem: "\<And>n. n < 2 ^ 31 \<Longrightarrow> can_alloc a n"
    and ts: "ts \<noteq> []" "8 * length ts < 2 ^ 31"
    and IH: "\<And>t s. t \<in> set ts \<Longrightarrow> fresh_at s (Suc k) \<Longrightarrow> \<exists>rest. unread s = enc t @ rest \<Longrightarrow> item_runs a s (Suc k) t"
  shows "item_runs a r k (Arr ts)"
  unfolding item_runs_def
proof (intro allI impI)
  fix RF assume RF: "root_after r (reply_of (Arr ts)) = Some RF"
  obtain path where path: "task_path r (cur_task r) = Some path" using root_after_path [OF fr RF] by blast
  obtain R where R: "root_after r (partial_arr ts 0) = Some R"
    using root_after_defined [of r "partial_arr ts 0" "reply_of (Arr ts)"] RF by fastforce
  let ?n = "length (dec (length ts)) + 3"
  let ?stk = "(rstack r)[k := array_task r k path ts,
      Suc k := \<lparr>ttype = - 1, telements = - 1, tidx = 0, tobj = None, tparent = Some k\<rparr>]"
  let ?s = "inside r k path ts 0 ?n ?stk R"
  have wf: "reader_wf r" and k: "ridx r = int k" "length (rstack r) = 9"
    using fr by (auto simp: fresh_at_def reader_wf_def)
  have uu: "unread r = (CHR ''*'' # dec (length ts) @ [CR, LF]) @ concat (map enc ts) @ rest" using u by simp
  have us: "unread ?s = concat (map enc (drop 0 ts)) @ rest"
    using unread_advance [OF wf uu, of ?s] by (simp add: inside_def)
  have "\<exists>stk'. length stk' = 9 \<and> take k stk' = take k (rstack r) \<and>
      tidx (stk' ! k) = tidx (rstack r ! k) \<and> tparent (stk' ! k) = tparent (rstack r ! k) \<and>
      process_items a ?s = moveToNextTask (placed_item r (?n + length (concat (map enc (drop 0 ts)))) RF stk') \<bind> process_items a"
    by (rule elements_run [OF fr k8 path RF IH _ R])
       (use ts k k8 us pos_le [OF wf uu] in \<open>simp_all add: nth_list_update\<close>)
  moreover have len: "length (enc (Arr ts)) = ?n + length (concat (map enc (drop 0 ts)))" by simp
  moreover have "process_items a r = process_items a ?s"
    using array_enters [OF fr k8 u mem ts path R] k by (subst process_items.simps) simp
  ultimately show "\<exists>stk. length stk = 9 \<and> take k stk = take k (rstack r) \<and>
      tidx (stk ! k) = tidx (rstack r ! k) \<and> tparent (stk ! k) = tparent (rstack r ! k) \<and>
      process_items a r = moveToNextTask (placed_item r (length (enc (Arr ts))) RF stk) \<bind> process_items a"
    unfolding len by (simp only:)
qed

lemma resp_runs:
  assumes mem: "\<And>n. n < 2 ^ 31 \<Longrightarrow> can_alloc a n"
  shows "fresh_at r k \<Longrightarrow> unread r = enc t @ rest \<Longrightarrow> resp_ok t \<Longrightarrow> k + depth t \<le> 8 \<Longrightarrow> item_runs a r k t"
proof (induction t arbitrary: r k rest)
  case (Status s)
  have "item_done a r k (length s + 3) (reply_of (Status s)) REDIS_REPLY_STATUS"
    using line_item_done [OF Status(1), of "CHR ''+''" s rest REDIS_REPLY_STATUS a] Status mem
    by (simp add: type_of_byte_def reply_types)
  moreover have "length s + 3 = length (enc (Status s))" by simp
  ultimately show ?case by (metis done_runs [OF Status(1)])
next
  case (Err s)
  have "item_done a r k (length s + 3) (reply_of (Err s)) REDIS_REPLY_ERROR"
    using line_item_done [OF Err(1), of "CHR ''-''" s rest REDIS_REPLY_ERROR a] Err mem
    by (simp add: type_of_byte_def reply_types)
  moreover have "length s + 3 = length (enc (Err s))" by simp
  ultimately show ?case by (metis done_runs [OF Err(1)])
next
  case (Num w)
  have "item_done a r k (length (dec_int (sint w)) + 3) (reply_of (Num w)) REDIS_REPLY_INTEGER"
    using Num mem cr_notin_dec(2) [of "sint w"]
    by (intro line_item_done [OF Num(1), where c = "CHR '':''" and rest = rest])
       (simp_all add: type_of_byte_def reply_types readLongLong_dec_int)
  moreover have "length (dec_int (sint w)) + 3 = length (enc (Num w))" by simp
  ultimately show ?case by (metis done_runs [OF Num(1)])
next
  case (Bulk s)
  then show ?case using bulk_item_done [OF Bulk(1,2) mem] by (intro done_runs [OF Bulk(1)]) simp
next
  case NilBulk
  then show ?case using nil_bulk_item_done [OF NilBulk(1,2) mem] by (intro done_runs [OF NilBulk(1)])
next
  case NilArr
  have "k < 8" using NilArr(4) by simp
  then show ?case using empty_multibulk_done [OF NilArr(1) _ NilArr(2) mem] by (intro done_runs [OF NilArr(1)]) simp
next
  case (Arr ts)
  have k8: "k < 8" using Arr.prems(4) by simp
  show ?case
  proof (cases "ts = []")
    case True
    show ?thesis
      using empty_multibulk_done [OF Arr.prems(1) k8 Arr.prems(2) mem] True
      by (intro done_runs [OF Arr.prems(1)]) simp
  next
    case False
    show ?thesis
    proof (rule array_runs [OF Arr.prems(1) k8 Arr.prems(2) mem False])
      show "8 * length ts < 2 ^ 31" using Arr.prems(3) by simp
      fix t s
      assume t: "t \<in> set ts" and s: "fresh_at s (Suc k)" "\<exists>rest. unread s = enc t @ rest"
      then obtain rest' where "unread s = enc t @ rest'" by blast
      moreover have "resp_ok t" using Arr.prems(3) t by simp
      moreover have "Suc k + depth t \<le> 8" using depth_child [OF t] Arr.prems(4) by simp
      ultimately show "item_runs a s (Suc k) t" using Arr.IH [OF t s(1)] by blast
    qed
  qed
qed

section \<open>The parser reads back what is on the wire\<close>

text \<open>A reader between two replies.\<close>

definition reader_idle :: "redisReader \<Rightarrow> bool" where
  "reader_idle r \<longleftrightarrow> reader_wf r \<and> ridx r = - 1 \<and> rreply r = None"

lemma discard_consumed_idle:
  assumes "reader_wf r"
  obtains r' where "discard_consumed r = Some r'" "reader_wf r'" "unread r' = unread r" "ridx r' = ridx r"
    "rreply r' = rreply r"
proof -
  from assms obtain b where b: "rbuf r = Some b" "sds_wf b" "rlen r = sh_len b" "rpos r \<le> sh_len b"
      "sdsAllocSize b < 2 ^ 31"
    by (auto simp: reader_wf_def)
  show thesis
  proof (cases "rpos r \<ge> 1024")
    case True
    let ?b = "sdsrange b (int (rpos r)) (- 1)"
    have sl: "sds_wf ?b" "content ?b = slice_spec (content b) (int (rpos r)) (- 1)"
      using sdsrange_slice [OF b(2)] by blast+
    have "slice_spec (content b) (int (rpos r)) (- 1) = drop (rpos r) (content b)"
      using b(2) True b(4) length_content [of b]
      by (auto simp: slice_spec_def clamp_index_def subrange_def sds_wf_def nat_diff_distrib')
    with sl have "content ?b = unread r" using b(1) by (simp add: unread_def)
    moreover have "sdsAllocSize ?b = sdsAllocSize b"
      using sdsrange_total [OF b(2), of "int (rpos r)" "- 1"] by (simp add: sdsAllocSize_def)
    ultimately show thesis using True b sl(1) assms that [of "r\<lparr>rbuf := Some ?b, rpos := 0, rlen := sdslen ?b\<rparr>"]
      by (simp add: discard_consumed_def reader_wf_def unread_def sdslen_def Let_def)
  next
    case False
    with assms that [of r] show thesis by (simp add: discard_consumed_def)
  qed
qed

lemma get_reply_reads:
  assumes idle: "reader_idle r" and u: "unread r = enc t @ rest" and ok: "resp_ok t" "depth t \<le> 8"
    and mem: "\<And>n. n < 2 ^ 31 \<Longrightarrow> can_alloc a n"
  shows "\<exists>r'. redisReaderGetReply a r = Some (REDIS_OK, Some (reply_of t), r') \<and> reader_idle r' \<and> unread r' = rest"
proof -
  let ?r = "r\<lparr>rstack := (rstack r)[0 := \<lparr>ttype = - 1, telements = - 1, tidx = - 1, tobj = None, tparent = None\<rparr>],
      ridx := 0\<rparr>"
  have wf: "reader_wf r" "ridx r = - 1" "rerr r = 0" using idle by (simp_all add: reader_idle_def reader_wf_def)
  have "enc t \<noteq> []" by (cases t) simp_all
  then have "0 < length (unread r)" using u by simp
  then have "rlen r \<noteq> 0" using length_unread [OF wf(1)] by linarith
  have wf': "reader_wf ?r" using wf(1) by (auto simp: reader_wf_def)
  have fr: "fresh_at ?r 0" using wf' by (auto simp: fresh_at_def reader_wf_def)
  have u': "unread ?r = enc t @ rest" using u by (simp add: unread_def split: option.splits)
  have ra: "root_after ?r (reply_of t) = Some (reply_of t)"
    using wf(1) by (simp add: root_after_def cur_task_def reader_wf_def)
  obtain stk where stk: "length stk = 9" and
    run: "process_items a ?r = moveToNextTask (placed_item ?r (length (enc t)) (reply_of t) stk) \<bind> process_items a"
    using resp_runs [OF mem fr u' ok(1)] ok(2) ra by (auto simp: item_runs_def)
  let ?p = "(placed_item ?r (length (enc t)) (reply_of t) stk)\<lparr>ridx := - 1\<rparr>"
  have "moveToNextTask (placed_item ?r (length (enc t)) (reply_of t) stk) = Some ?p"
    by (subst moveToNextTask.simps) (simp add: placed_item_def)
  then have run: "process_items a ?r = Some ?p"
    using run by (simp add: process_items.simps [of a ?p])
  have pwf: "reader_wf ?p"
    using pos_le [OF wf' u'] stk wf(1)
    by (intro reader_wf_cong [OF wf']) (auto simp: placed_item_def reader_wf_def)
  have pu: "unread ?p = rest" by (rule unread_advance [OF wf' u']) (simp_all add: placed_item_def)
  obtain q where q: "discard_consumed ?p = Some q" "reader_wf q" "unread q = rest" "ridx q = - 1"
    "rreply q = Some (reply_of t)"
    using discard_consumed_idle [OF pwf] pu by (auto simp: placed_item_def)
  have "rerr ?p = 0" using wf(3) by (simp add: placed_item_def)
  then have "redisReaderGetReply a r = Some (REDIS_OK, Some (reply_of t), q\<lparr>rreply := None\<rparr>)"
    using wf \<open>rlen r \<noteq> 0\<close> run q by (simp add: redisReaderGetReply_def Let_def)
  moreover have "reader_idle (q\<lparr>rreply := None\<rparr>)" "unread (q\<lparr>rreply := None\<rparr>) = rest"
    using q by (auto simp: reader_idle_def reader_wf_def unread_def)
  ultimately show ?thesis by blast
qed

text \<open>The client's loop: take the next \<open>n\<close> replies.\<close>

fun read_replies :: "allocator \<Rightarrow> nat \<Rightarrow> redisReader \<Rightarrow> (redisReply list \<times> redisReader) option" where
  "read_replies a 0 r = Some ([], r)"
| "read_replies a (Suc n) r =
     (case redisReaderGetReply a r of
        Some (REDIS_OK, Some v, r') \<Rightarrow> map_option (\<lambda>(vs, r). (v # vs, r)) (read_replies a n r')
      | _ \<Rightarrow> None)"

lemma read_replies_all:
  "(\<And>n. n < 2 ^ 31 \<Longrightarrow> can_alloc a n) \<Longrightarrow> reader_idle r \<Longrightarrow> unread r = concat (map enc ts) @ rest \<Longrightarrow>
   \<forall>t\<in>set ts. resp_ok t \<and> depth t \<le> 8 \<Longrightarrow>
   \<exists>r'. read_replies a (length ts) r = Some (map reply_of ts, r') \<and> reader_idle r' \<and> unread r' = rest"
proof (induction ts arbitrary: r)
  case (Cons t ts)
  have u: "unread r = enc t @ concat (map enc ts) @ rest" using Cons.prems(3) by simp
  obtain r1 where r1: "redisReaderGetReply a r = Some (REDIS_OK, Some (reply_of t), r1)" "reader_idle r1"
    "unread r1 = concat (map enc ts) @ rest"
    using get_reply_reads [OF Cons.prems(2) u _ _ Cons.prems(1)] Cons.prems(4) by auto
  then show ?case using Cons.IH [OF Cons.prems(1) r1(2,3)] Cons.prems(4) by auto
qed simp

text \<open>Appending needs a block of the new content with at most one MiB to spare.\<close>

lemma append_small:
  assumes mem: "\<And>n. n < 2 ^ 31 \<Longrightarrow> can_alloc a n" and b: "sds_wf b" "sdsAllocSize b < 2 ^ 31"
    and small: "sh_len b + length t + 2 ^ 20 + 9 < 2 ^ 31"
  obtains s where "sdscatlen a b t = Some s" "sds_wf s" "content s = content b @ t" "sdsAllocSize s < 2 ^ 31"
proof -
  obtain s1 where s1: "sdsMakeRoomFor a b (length t) = Some s1" "sdsAllocSize s1 < 2 ^ 31"
  proof (cases "length t \<le> sh_free b")
    case True
    with that b(2) show thesis by (simp add: sdsMakeRoomFor_def sdsavail_def)
  next
    case False
    define n where "n = sh_len b + length t"
    define m where "m = (if n < SDS_MAX_PREALLOC then n * 2 else n + SDS_MAX_PREALLOC)"
    have m: "sizeof_sdshdr + m + 1 < 2 ^ 31" "sh_len b \<le> m"
      using small by (simp_all add: n_def m_def SDS_MAX_PREALLOC_def sizeof_sdshdr_def)
    have "sdsMakeRoomFor a b (length t) = Some (b\<lparr>sh_free := m - sh_len b, sh_buf := realloc_buf a (m + 1) (sh_buf b)\<rparr>)"
      unfolding sdsMakeRoomFor_def sdsavail_def sdslen_def Let_def n_def [symmetric] m_def [symmetric]
      using False mem [OF m(1)] by simp
    with that m show thesis by (simp add: sdsAllocSize_def)
  qed
  then obtain s where s: "sdscatlen a b t = Some s" by (simp add: sdscatlen_def Let_def)
  have "sds_open b" using b(1) by (simp add: sds_wf_def)
  from room_ge [OF this s1(1)] have "sdsAllocSize s = sdsAllocSize s1"
    using s s1(1) by (auto simp: sdscatlen_def Let_def sdslen_def sdsAllocSize_def)
  then show thesis
    using that s s1(2) sdscatlen_yields [OF b(1), of a t] by (auto simp: yields_def)
qed

lemma create_feed_idle:
  assumes mem: "\<And>n. n < 2 ^ 31 \<Longrightarrow> can_alloc a n" and small: "length s + 2 ^ 20 + 9 < 2 ^ 31"
  obtains r0 r1 where "redisReaderCreate a True = Some r0" "redisReaderFeed a r0 s = Some (REDIS_OK, r1)"
    "reader_idle r1" "unread r1 = s"
proof -
  obtain b where b: "sdsempty a = Some b" "sds_wf b" "content b = []"
    using sdsempty_yields [of a] mem [of 9]
    by (auto simp: yields_def sdsempty_def sdsnewlen_def sizeof_sdshdr_def Let_def split: option.splits)
  have len: "sh_len b = 0" using b length_content [of b] by (simp add: sds_wf_def)
  have free: "sh_free b = 0" using b(1) by (auto simp: sdsempty_def sdsnewlen_def Let_def split: if_splits)
  have alloc: "sdsAllocSize b < 2 ^ 31" by (simp add: sdsAllocSize_def len free sizeof_sdshdr_def)
  define r0 where "r0 = \<lparr>rerr = 0, rerrstr = [], rbuf = Some b, rpos = 0, rlen = 0,
      rmaxbuf = REDIS_READER_MAX_BUF, rstack = replicate 9 blank_task, ridx = - 1, rreply = None, rfn = True\<rparr>"
  have r0: "redisReaderCreate a True = Some r0" using b(1) by (simp add: redisReaderCreate_def r0_def)
  show thesis
  proof (cases "s = []")
    case True
    have "reader_idle r0" "unread r0 = []"
      using b len alloc by (simp_all add: reader_idle_def reader_wf_def r0_def unread_def)
    with True r0 that [of r0 r0] show thesis by (simp add: redisReaderFeed_def) (simp add: r0_def)
  next
    case False
    obtain nb where nb: "sdscatlen a b s = Some nb" "sds_wf nb" "content nb = s" "sdsAllocSize nb < 2 ^ 31"
      using append_small [OF mem b(2) alloc, of s] small len b(3) by auto
    let ?r1 = "r0\<lparr>rbuf := Some nb, rlen := sdslen nb\<rparr>"
    have "redisReaderFeed a r0 s = Some (REDIS_OK, ?r1)"
      using False nb(1) free by (simp add: redisReaderFeed_def r0_def sdsavail_def Suc_le_eq)
    moreover have "reader_idle ?r1" "unread ?r1 = s"
      using nb by (simp_all add: reader_idle_def reader_wf_def r0_def unread_def sdslen_def)
    ultimately show thesis using that r0 by blast
  qed
qed

lemma idle_fits: "reader_idle r \<Longrightarrow> \<exists>b. rbuf r = Some b \<and> sdsAllocSize b < 2 ^ 31"
  by (auto simp: reader_idle_def reader_wf_def)

text \<open>C40: the parser reads back the wire format. A fresh reader fed the encodings of any replies, with
  arrays nested up to eight levels deep, delivers exactly those replies, in order, and has then
  consumed all its input. The input, with the MiB that the buffer may have to spare, and the vector of each array are below 2 GiB,
  and the allocator grants requests below 2 GiB: then the block of the buffer stays below 2 GiB, and the \<open>int\<close> fields of
  its header, the \<open>int\<close> positions of the search for line ends and the \<open>int len\<close> of the replies are exact.\<close>

theorem reader_reads_pipeline:
  assumes "\<And>n. n < 2 ^ 31 \<Longrightarrow> can_alloc a n" "length (concat (map enc ts)) + 2 ^ 20 + 9 < 2 ^ 31"
    "\<forall>t\<in>set ts. resp_ok t \<and> depth t \<le> 8"
  shows "\<exists>r0 r1 r2. redisReaderCreate a True = Some r0 \<and>
    redisReaderFeed a r0 (concat (map enc ts)) = Some (REDIS_OK, r1) \<and>
    read_replies a (length ts) r1 = Some (map reply_of ts, r2) \<and> unread r2 = [] \<and>
    (\<exists>b. rbuf r1 = Some b \<and> sdsAllocSize b < 2 ^ 31) \<and> (\<exists>b. rbuf r2 = Some b \<and> sdsAllocSize b < 2 ^ 31)"
proof -
  obtain r0 r1 where r: "redisReaderCreate a True = Some r0"
    "redisReaderFeed a r0 (concat (map enc ts)) = Some (REDIS_OK, r1)" "reader_idle r1"
    "unread r1 = concat (map enc ts)"
    by (rule create_feed_idle [OF assms(1,2)])
  then have "unread r1 = concat (map enc ts) @ []" by simp
  from read_replies_all [OF assms(1) r(3) this assms(3)] r idle_fits show ?thesis by (metis (no_types, lifting))
qed

theorem reader_reads_pipeline_witness:
  "\<exists>r0 r1 r2. redisReaderCreate \<lparr>can_alloc = \<lambda>n. n < 2 ^ 31, fresh = \<lambda>i. CHR ''?''\<rparr> True = Some r0 \<and>
    redisReaderFeed \<lparr>can_alloc = \<lambda>n. n < 2 ^ 31, fresh = \<lambda>i. CHR ''?''\<rparr> r0
      (concat (map enc [Status ''OK'', Arr [Bulk ''a'', Arr [Num (- 7), NilBulk]]])) = Some (REDIS_OK, r1) \<and>
    read_replies \<lparr>can_alloc = \<lambda>n. n < 2 ^ 31, fresh = \<lambda>i. CHR ''?''\<rparr> 2 r1 =
      Some (map reply_of [Status ''OK'', Arr [Bulk ''a'', Arr [Num (- 7), NilBulk]]], r2) \<and> unread r2 = []"
proof -
  let ?ts = "[Status ''OK'', Arr [Bulk ''a'', Arr [Num (- 7), NilBulk]]]"
  have ok: "\<forall>t\<in>set ?ts. resp_ok t \<and> depth t \<le> 8" by simp
  have "length (concat (map enc ?ts)) = 30" by code_simp
  then have small: "length (concat (map enc ?ts)) + 2 ^ 20 + 9 < 2 ^ 31" by simp
  from reader_reads_pipeline [OF _ small ok, of "\<lparr>can_alloc = \<lambda>n. n < 2 ^ 31, fresh = \<lambda>i. CHR ''?''\<rparr>"] show ?thesis
    by (auto simp add: numeral_2_eq_2 simp del: enc.simps reply_of.simps read_replies.simps)
qed

section \<open>Malformed input\<close>

lemma get_reply_first_item:
  assumes idle: "reader_idle r" and ne: "unread r \<noteq> []"
  obtains r0 where "fresh_at r0 0" "unread r0 = unread r" "tparent (cur_task r0) = None"
    "redisReaderGetReply a r = (process_items a r0 \<bind> (\<lambda>r. if rerr r \<noteq> 0 then Some (REDIS_ERR, None, r)
       else do { r \<leftarrow> discard_consumed r;
         Some (if ridx r = - 1 then (REDIS_OK, rreply r, r\<lparr>rreply := None\<rparr>) else (REDIS_OK, None, r)) }))"
proof -
  let ?r = "r\<lparr>rstack := (rstack r)[0 := \<lparr>ttype = - 1, telements = - 1, tidx = - 1, tobj = None, tparent = None\<rparr>],
      ridx := 0\<rparr>"
  have wf: "reader_wf r" "ridx r = - 1" "rerr r = 0" using idle by (simp_all add: reader_idle_def reader_wf_def)
  have "0 < length (unread r)" using ne by simp
  then have l: "rlen r \<noteq> 0" using length_unread [OF wf(1)] by linarith
  have "fresh_at ?r 0" using wf(1) by (auto simp: fresh_at_def reader_wf_def)
  moreover have "unread ?r = unread r" by (simp add: unread_def split: option.splits)
  moreover have "tparent (cur_task ?r) = None" using wf(1) by (simp add: cur_task_def reader_wf_def)
  ultimately show thesis using that [of ?r] wf l by (simp add: redisReaderGetReply_def Let_def)
qed

text \<open>A byte that starts no reply is a protocol error: the call fails, the buffer and any partial
  reply are dropped, and from then on both feeding and reading fail.\<close>

theorem reader_protocol_error:
  assumes "reader_idle r" "unread r = c # rest" "c \<notin> set ''+-:$*''"
  shows "\<exists>r'. redisReaderGetReply a r = Some (REDIS_ERR, None, r') \<and> rerr r' = REDIS_ERR_PROTOCOL \<and>
    rbuf r' = None \<and> rreply r' = None \<and>
    (\<forall>s. redisReaderFeed a r' s = Some (REDIS_ERR, r')) \<and>
    redisReaderGetReply a r' = Some (REDIS_ERR, None, r')"
proof -
  obtain r0 where r0: "fresh_at r0 0" "unread r0 = c # rest"
    "redisReaderGetReply a r = (process_items a r0 \<bind> (\<lambda>r. if rerr r \<noteq> 0 then Some (REDIS_ERR, None, r)
       else do { r \<leftarrow> discard_consumed r;
         Some (if ridx r = - 1 then (REDIS_OK, rreply r, r\<lparr>rreply := None\<rparr>) else (REDIS_OK, None, r)) }))"
    using get_reply_first_item [OF assms(1), of a] assms(2) by auto
  have wf: "reader_wf r0" "ridx r0 = 0" "ttype (cur_task r0) = - 1"
    using r0(1) by (simp_all add: fresh_at_def cur_task_def)
  obtain junk where cu: "at_cursor r0 = unread r0 @ NUL # junk" using wf(1) by (rule at_cursor_unread)
  have "rlen r0 - rpos r0 \<ge> 1" using length_unread [OF wf(1)] r0(2) by simp
  moreover have "type_of_byte c = None" using assms(3) by (simp add: type_of_byte_def)
  ultimately have it: "processItem a r0 = Some (REDIS_ERR, redisReaderSetErrorProtocolByte (r0\<lparr>rpos := rpos r0 + 1\<rparr>) c)"
    using wf(3) cu r0(2) by (simp add: processItem_def readBytes_def Let_def)
  let ?e = "redisReaderSetErrorProtocolByte (r0\<lparr>rpos := rpos r0 + 1\<rparr>) c"
  have e: "rerr ?e = REDIS_ERR_PROTOCOL" "rbuf ?e = None" "rreply ?e = None"
    using wf(1) by (auto simp: redisReaderSetErrorProtocolByte_def redisReaderSetError_def Let_def reader_wf_def)
  have ne: "rerr ?e \<noteq> 0" using e(1) by (simp add: REDIS_ERR_PROTOCOL_def)
  have "process_items a r0 = Some ?e" using it wf(2) by (subst process_items.simps) simp
  then have "redisReaderGetReply a r = Some (REDIS_ERR, None, ?e)" using r0(3) ne by simp
  then show ?thesis using e ne by (auto simp: redisReaderFeed_def redisReaderGetReply_def)
qed

theorem reader_protocol_error_witness:
  "\<exists>r r'. redisReaderGetReply \<lparr>can_alloc = \<lambda>n. True, fresh = \<lambda>i. CHR ''?''\<rparr> r = Some (REDIS_ERR, None, r') \<and>
     unread r = ''@foo'' \<and> rerr r' = REDIS_ERR_PROTOCOL"
proof -
  let ?a = "\<lparr>can_alloc = \<lambda>n. True, fresh = \<lambda>i. CHR ''?''\<rparr>"
  have mem: "\<And>n. can_alloc ?a n" by simp
  have small: "length ''@foo'' + 2 ^ 20 + 9 < 2 ^ 31" by simp
  obtain r0 r1 where "redisReaderCreate ?a True = Some r0" "redisReaderFeed ?a r0 ''@foo'' = Some (REDIS_OK, r1)"
    "reader_idle r1" "unread r1 = ''@foo''" by (rule create_feed_idle [OF mem small])
  then show ?thesis using reader_protocol_error [of r1 "CHR ''@''" "''foo''" ?a] by auto
qed

lemma int32_conv:
  assumes "- (2 ^ 31) \<le> i" "i < 2 ^ 31"
  shows "sint (of_int i :: 64 word) = i" "to_int32 (of_int i) = i"
proof -
  have "(ucast (of_int i :: 64 word) :: 32 word) = of_int i"
    by (simp add: word_uint_eq_iff unsigned_ucast_eq unsigned_of_int)
  then show "sint (of_int i :: 64 word) = i" "to_int32 (of_int i) = i"
    using assms by (simp_all add: to_int32_def signed_of_int signed_take_bit_int_eq_self)
qed

text \<open>An array header with a count below \<open>-1\<close> is accepted: the client receives an array reply
  without an element vector whose element count, converted to \<open>size_t\<close>, is close to \<open>2 ^ 64\<close>.\<close>

theorem reader_negative_array_count:
  assumes "reader_idle r" "unread r = ''*'' @ dec_int i @ [CR, LF] @ rest" "- (2 ^ 31) \<le> i" "i < - 1"
    "\<And>n. can_alloc a n"
  shows "\<exists>r'. redisReaderGetReply a r = Some (REDIS_OK, Some (Reply REDIS_REPLY_ARRAY 0 0 None (of_int i) None), r') \<and>
    uint (of_int i :: 64 word) = 2 ^ 64 + i"
proof -
  let ?v = "Reply REDIS_REPLY_ARRAY 0 0 None (of_int i) None" and ?d = "dec_int i" and ?t = REDIS_REPLY_ARRAY
  obtain r0 where r0: "fresh_at r0 0" "unread r0 = unread r" "tparent (cur_task r0) = None"
    "redisReaderGetReply a r = (process_items a r0 \<bind> (\<lambda>r. if rerr r \<noteq> 0 then Some (REDIS_ERR, None, r)
       else do { r \<leftarrow> discard_consumed r;
         Some (if ridx r = - 1 then (REDIS_OK, rreply r, r\<lparr>rreply := None\<rparr>) else (REDIS_OK, None, r)) }))"
    using get_reply_first_item [OF assms(1), of a] assms(2) by auto
  have u: "unread r0 = CHR ''*'' # ?d @ CR # LF # rest" using r0(2) assms(2) by simp
  have ra: "root_after r0 ?v = Some ?v" using r0(3) by (simp add: root_after_def)
  obtain r2 where r2: "finish_create ((typed r0 ?t)\<lparr>rpos := rpos r0 + (length ?d + 3)\<rparr>) ((cur_task r0)\<lparr>ttype := ?t\<rparr>) ?v
      = Created ?v r2" "set_root_reply ?v r2 = placed_item r0 (length ?d + 3) ?v (with_type r0 0 ?t)"
    using item_placed_here [OF r0(1) ra, where t = ?t and n = "length ?d + 3"] by blast
  have s64: "sint (of_int i :: 64 word) = i" and t32: "to_int32 (of_int i) = i"
    using int32_conv [OF assms(3)] assms(4) by simp_all
  let ?p = "(placed_item r0 (length ?d + 3) ?v (with_type r0 0 ?t))\<lparr>ridx := - 1\<rparr>"
  have "ridx r2 = 0" using finish_create_fields [OF r2(1)] typed_fields(2) [OF r0(1), of ?t] by simp
  then have "array_created True ((cur_task r0)\<lparr>ttype := ?t\<rparr>) (of_int i) ?v r2 = moveToNextTask (set_root_reply ?v r2)"
    using move_root_commute [of r2 0 ?v] s64 assms(4) by (simp add: array_created_def)
  also have "\<dots> = Some ?p"
    unfolding r2(2) using r0(1) by (subst moveToNextTask.simps) (simp add: placed_item_def fresh_at_def)
  finally have "processItem a r0 = Some (REDIS_OK, ?p)"
    using multibulk_item [OF r0(1) _ u cr_notin_dec(2) readLongLong_dec_int, of a] s64 t32 assms(4,5) r2(1)
    by (simp add: after_create_def createArrayObject_def createReplyObject_def)
  moreover have "ridx r0 = 0" "rerr ?p = 0" "ridx ?p = - 1"
    using r0(1) by (simp_all add: fresh_at_def placed_item_def reader_wf_def)
  ultimately have run: "process_items a r0 = Some ?p"
    by (subst process_items.simps) (simp add: process_items.simps [of a ?p])
  have wf: "reader_wf r0" using r0(1) by (simp add: fresh_at_def)
  have uu: "unread r0 = (CHR ''*'' # ?d @ [CR, LF]) @ rest" using u by simp
  have "reader_wf ?p"
    using pos_le [OF wf uu] wf by (intro reader_wf_cong [OF wf]) (auto simp: placed_item_def reader_wf_def)
  then obtain q where "discard_consumed ?p = Some q" "ridx q = - 1" "rreply q = Some ?v"
    by (rule discard_consumed_idle) (simp add: placed_item_def)
  then have "redisReaderGetReply a r = Some (REDIS_OK, Some ?v, q\<lparr>rreply := None\<rparr>)"
    using r0(4) run \<open>rerr ?p = 0\<close> by simp
  moreover have "uint (of_int i :: 64 word) = 2 ^ 64 + i"
    using assms(3,4) uint_sint64 [of "of_int i"] s64 by simp
  ultimately show ?thesis by blast
qed

theorem reader_negative_array_count_witness:
  "\<exists>r r'. unread r = ''*-5'' @ [CR, LF] \<and>
     redisReaderGetReply \<lparr>can_alloc = \<lambda>n. True, fresh = \<lambda>i. CHR ''?''\<rparr> r =
       Some (REDIS_OK, Some (Reply REDIS_REPLY_ARRAY 0 0 None (- 5) None), r')"
proof -
  let ?a = "\<lparr>can_alloc = \<lambda>n. True, fresh = \<lambda>i. CHR ''?''\<rparr>"
  have mem: "\<And>n. can_alloc ?a n" by simp
  have small: "length (''*-5'' @ [CR, LF]) + 2 ^ 20 + 9 < 2 ^ 31" by simp
  obtain r0 r1 where r1: "redisReaderCreate ?a True = Some r0"
    "redisReaderFeed ?a r0 (''*-5'' @ [CR, LF]) = Some (REDIS_OK, r1)"
    "reader_idle r1" "unread r1 = ''*-5'' @ [CR, LF]" by (rule create_feed_idle [OF mem small])
  have "dec_int (- 5) = ''-5''" by code_simp
  then show ?thesis using reader_negative_array_count [of r1 "- 5" "[]" ?a] r1(3,4) by auto
qed

end
