(* ===== verification/Hiredis_Format.thy ===== *)
theory Hiredis_Format
  imports Hiredis_Reader
begin

text \<open>
  Command formatting in \<open>hiredis-master/hiredis.c\<close>: \<open>redisvFormatCommand\<close> and the two formatters
  of argument vectors. The variadic arguments of a format are a list; the text the C library prints
  for a numeric conversion is the argument \<open>conv\<close>. \<open>None\<close> is a failed assertion, a null
  dereference, a write past the allocated block or an access past the end of a format.
\<close>

section \<open>Sizes\<close>

function count_digits :: "nat \<Rightarrow> nat \<Rightarrow> nat" where
  "count_digits v result =
     (if v < 10 then result
      else if v < 100 then result + 1
      else if v < 1000 then result + 2
      else if v < 10000 then result + 3
      else count_digits (v div 10000) (result + 4))"
  by pat_completeness auto
termination by (relation "measure fst") auto

declare count_digits.simps [simp del]

definition countDigits :: "nat \<Rightarrow> nat" where
  "countDigits v = count_digits v 1"

definition bulklen :: "nat \<Rightarrow> nat" where
  "bulklen len = 1 + countDigits len + 2 + len + 2"

section \<open>Building a command\<close>

text \<open>\<open>sprintf\<close> and \<open>memcpy\<close> into the allocated block at \<open>pos\<close>; a write past its end aborts.\<close>

definition put_bytes :: "string \<Rightarrow> string \<times> nat \<Rightarrow> (string \<times> nat) option" where
  "put_bytes t st =
     (case st of (cmd, pos) \<Rightarrow>
        if pos + length t \<le> length cmd then Some (copy_at pos t cmd, pos + length t) else None)"

definition put_text :: "string \<Rightarrow> string \<times> nat \<Rightarrow> (string \<times> nat) option" where
  "put_text t st = do { (cmd, pos) \<leftarrow> put_bytes (t @ [NUL]) st; Some (cmd, pos - 1) }"

fun put_args :: "string list \<Rightarrow> string \<times> nat \<Rightarrow> (string \<times> nat) option" where
  "put_args [] st = Some st"
| "put_args (arg # args) st = do {
     st \<leftarrow> put_text (''$'' @ dec (length arg) @ [CR, LF]) st;
     st \<leftarrow> put_bytes arg st;
     st \<leftarrow> put_bytes [CR] st;
     st \<leftarrow> put_bytes [LF] st;
     put_args args st
   }"

datatype fmt_result = FmtOk string | FmtMemErr | FmtInvalid

text \<open>The block of \<open>redisvFormatCommand\<close> and \<open>redisFormatCommandArgv\<close> that allocates \<open>totlen + 1\<close>
  bytes and writes the command. The total is an \<open>int\<close>, converted to \<open>size_t\<close> for \<open>malloc\<close>.\<close>

definition build_command :: "allocator \<Rightarrow> 32 word \<Rightarrow> string list \<Rightarrow> fmt_result option" where
  "build_command a totlen argv =
     (let n = unat (scast (totlen + 1) :: 64 word)
      in if \<not> can_alloc a n then Some FmtMemErr
         else do {
           st \<leftarrow> put_text (''*'' @ dec (length argv) @ [CR, LF]) (fresh_bytes a n, 0);
           (cmd, pos) \<leftarrow> put_args argv st;
           (if of_nat pos \<noteq> totlen \<or> n \<le> pos then None else Some (FmtOk (take pos (cmd[pos := NUL]))))
         })"

text \<open>An argument with its optional length: \<open>argvlen ? argvlen[j] : strlen(argv[j])\<close>.\<close>

definition arg_bytes :: "string \<times> nat option \<Rightarrow> string" where
  "arg_bytes arg = (case arg of (s, Some len) \<Rightarrow> take len s | (s, None) \<Rightarrow> take (strlen s) s)"

definition redisFormatCommandArgv :: "allocator \<Rightarrow> (string \<times> nat option) list \<Rightarrow> fmt_result option" where
  "redisFormatCommandArgv a argv =
     (let totlen = foldl (\<lambda>n arg. n + of_nat (bulklen (length (arg_bytes arg))))
                    (of_nat (1 + countDigits (length argv) + 2)) argv
      in build_command a totlen (map arg_bytes argv))"

fun sds_args :: "allocator \<Rightarrow> (string \<times> nat option) list \<Rightarrow> sdshdr \<Rightarrow> sdshdr option" where
  "sds_args a [] cmd = Some cmd"
| "sds_args a (arg # argv) cmd = do {
     cmd \<leftarrow> sdscatfmt a cmd (''$%T'' @ [CR, LF]) [ArgSize (of_nat (length (arg_bytes arg)))];
     cmd \<leftarrow> sdscatlen a cmd (arg_bytes arg);
     cmd \<leftarrow> sdscatlen a cmd [CR, LF];
     sds_args a argv cmd
   }"

text \<open>\<open>Some (Some (cmd, totlen))\<close> is the string left in \<open>*target\<close> and the returned \<open>int\<close>.\<close>

definition redisFormatSdsCommandArgv :: "allocator \<Rightarrow> (string \<times> nat option) list
    \<Rightarrow> ((sdshdr \<times> 32 word) option) option" where
  "redisFormatSdsCommandArgv a argv =
     (let totlen = foldl (\<lambda>n arg. n + bulklen (length (arg_bytes arg))) (1 + countDigits (length argv) + 2) argv
      in case sdsempty a of
           None \<Rightarrow> Some None
         | Some cmd \<Rightarrow>
             (case sdsMakeRoomFor a cmd totlen of
                None \<Rightarrow> Some None
              | Some cmd \<Rightarrow> do {
                  cmd \<leftarrow> sdscatfmt a cmd (''*%i'' @ [CR, LF]) [ArgInt (of_nat (length argv))];
                  cmd \<leftarrow> sds_args a argv cmd;
                  (if sdslen cmd \<noteq> totlen then None else Some (Some (cmd, of_nat totlen)))
                }))"

section \<open>printf-like formats\<close>

text \<open>\<open>VBuf\<close> is the pair of a pointer and a size that \<open>%b\<close> takes.\<close>

datatype vararg = VStr string | VBuf string | VInt "32 word" | VDouble "64 word"
  | VLongLong "64 word" | VLong "64 word"

datatype conv_kind = KInt | KDouble | KLongLong | KLong

definition kind_of :: "vararg \<Rightarrow> conv_kind option" where
  "kind_of v = (case v of VInt _ \<Rightarrow> Some KInt | VDouble _ \<Rightarrow> Some KDouble | VLongLong _ \<Rightarrow> Some KLongLong
     | VLong _ \<Rightarrow> Some KLong | _ \<Rightarrow> None)"

text \<open>Flags, width and precision of a conversion, then its kind. The empty rest of a format is the
  terminator, which \<open>strchr\<close> finds in every set.\<close>

definition skip_spec :: "string \<Rightarrow> string" where
  "skip_spec p =
     (let p = dropWhile (\<lambda>c. c \<in> set ''#0-+ '') p;
          p = dropWhile is_digit p
      in if p \<noteq> [] \<and> hd p = CHR ''.'' then dropWhile is_digit (tl p) else p)"

definition int_conv :: "string \<Rightarrow> bool" where
  "int_conv p \<longleftrightarrow> p \<noteq> [] \<and> hd p \<in> set ''diouxX''"

definition conversion :: "string \<Rightarrow> (conv_kind \<times> string) option" where
  "conversion p =
     (if p = [] \<or> hd p \<in> set ''diouxX'' then Some (KInt, p)
      else if hd p \<in> set ''eEfFgGaA'' then Some (KDouble, p)
      else if take 2 p = ''hh'' then (if int_conv (drop 2 p) then Some (KInt, drop 2 p) else None)
      else if take 1 p = ''h'' then (if int_conv (drop 1 p) then Some (KInt, drop 1 p) else None)
      else if take 2 p = ''ll'' then (if int_conv (drop 2 p) then Some (KLongLong, drop 2 p) else None)
      else if take 1 p = ''l'' then (if int_conv (drop 1 p) then Some (KLong, drop 1 p) else None)
      else None)"

text \<open>
  One conversion at \<open>c\<close> (which starts with the percent sign): the new argument and the rest of the
  format after the two increments of \<open>c\<close>. \<open>Inl\<close> is an error result, \<open>None\<close> undefined behaviour.
\<close>

definition numeric_conv :: "allocator \<Rightarrow> (string \<Rightarrow> vararg \<Rightarrow> string) \<Rightarrow> string \<Rightarrow> sdshdr \<Rightarrow> vararg list
    \<Rightarrow> (fmt_result + sdshdr \<times> string \<times> vararg list) option" where
  "numeric_conv a conv c curarg ap =
     (case conversion (skip_spec (drop 1 c)) of
        None \<Rightarrow> Some (Inl FmtInvalid)
      | Some (k, p) \<Rightarrow>
          (case ap of
             [] \<Rightarrow> None
           | v # rest \<Rightarrow>
               if kind_of v \<noteq> Some k then None
               else
                 let l = length c - length p + 1
                 in if l < 16 - 2 then
                      (case sdscatvprintf a curarg (conv (take l c) v) of
                         None \<Rightarrow> Some (Inl FmtMemErr)
                       | Some newarg \<Rightarrow> if p = [] then None else Some (Inr (newarg, drop 1 p, rest)))
                    else Some (Inr (curarg, drop 2 c, rest))))"

definition percent_step :: "allocator \<Rightarrow> (string \<Rightarrow> vararg \<Rightarrow> string) \<Rightarrow> string \<Rightarrow> sdshdr \<Rightarrow> vararg list
    \<Rightarrow> (fmt_result + sdshdr \<times> string \<times> vararg list) option" where
  "percent_step a conv c curarg ap =
     (let append = (\<lambda>t rest. case (if t = [] then Some curarg else sdscatlen a curarg t) of
                       None \<Rightarrow> Some (Inl FmtMemErr)
                     | Some newarg \<Rightarrow> Some (Inr (newarg, drop 2 c, rest)))
      in if c ! 1 = CHR ''s'' then
           (case ap of VStr arg # rest \<Rightarrow> append (take (strlen arg) arg) rest | _ \<Rightarrow> None)
         else if c ! 1 = CHR ''b'' then
           (case ap of VBuf arg # rest \<Rightarrow> append arg rest | _ \<Rightarrow> None)
         else if c ! 1 = CHR ''%'' then append ''%'' ap
         else numeric_conv a conv c curarg ap)"

lemma skip_spec_shorter: "length (skip_spec p) \<le> length p"
proof -
  let ?q = "dropWhile is_digit (dropWhile (\<lambda>c. c \<in> set ''#0-+ '') p)"
  have q: "length ?q \<le> length p" by (rule order_trans [OF length_dropWhile_le length_dropWhile_le])
  have "length (dropWhile is_digit (tl ?q)) \<le> length (tl ?q)" by (rule length_dropWhile_le)
  then have r: "length (dropWhile is_digit (tl ?q)) \<le> length p" using q by simp
  show ?thesis unfolding skip_spec_def Let_def by (rule if_split [THEN iffD2]) (use q r in simp)
qed

lemma conversion_shorter: "conversion p = Some (k, q) \<Longrightarrow> length q \<le> length p"
  by (auto simp: conversion_def split: if_splits)

lemma percent_step_shorter:
  assumes "percent_step a conv c s ap = Some (Inr (s', c', ap'))" "2 \<le> length c"
  shows "length c' < length c"
proof -
  have "length c' < length c" if "numeric_conv a conv c s ap = Some (Inr (s', c', ap'))"
  proof -
    from that obtain k p where p: "conversion (skip_spec (drop 1 c)) = Some (k, p)" "c' = drop 1 p \<or> c' = drop 2 c"
      by (auto simp: numeric_conv_def Let_def split: option.splits list.splits if_splits)
    have "length p \<le> length c - 1"
      using conversion_shorter [OF p(1)] skip_spec_shorter [of "drop 1 c"] by simp
    with p(2) assms(2) show ?thesis by auto
  qed
  with assms show ?thesis
    by (auto simp: percent_step_def Let_def split: if_splits list.splits option.splits vararg.splits)
qed

lemma percent_rest_shorter:
  "percent_step a conv (x # cs) s ap = Some (Inr (s', c', ap')) \<Longrightarrow> cs \<noteq> [] \<Longrightarrow> length c' < Suc (length cs)"
  using percent_step_shorter [of a conv "x # cs" s ap s' c' ap'] by (cases cs) auto

function format_loop :: "allocator \<Rightarrow> (string \<Rightarrow> vararg \<Rightarrow> string) \<Rightarrow> string \<Rightarrow> sdshdr \<Rightarrow> bool \<Rightarrow> sdshdr list
    \<Rightarrow> vararg list \<Rightarrow> (fmt_result + sdshdr \<times> bool \<times> sdshdr list) option" where
  "format_loop a conv c curarg touched argv ap =
     (case c of
        [] \<Rightarrow> Some (Inr (curarg, touched, argv))
      | x # cs \<Rightarrow>
          if x \<noteq> CHR ''%'' \<or> cs = [] then
            if x = CHR '' '' then
              if touched then
                if \<not> can_alloc a (8 * (length argv + 1)) then Some (Inl FmtMemErr)
                else (case sdsempty a of
                        None \<Rightarrow> Some (Inl FmtMemErr)
                      | Some e \<Rightarrow> format_loop a conv cs e False (argv @ [curarg]) ap)
              else format_loop a conv cs curarg touched argv ap
            else
              (case sdscatlen a curarg [x] of
                 None \<Rightarrow> Some (Inl FmtMemErr)
               | Some newarg \<Rightarrow> format_loop a conv cs newarg True argv ap)
          else
            (case percent_step a conv c curarg ap of
               None \<Rightarrow> None
             | Some (Inl e) \<Rightarrow> Some (Inl e)
             | Some (Inr (newarg, c', ap')) \<Rightarrow> format_loop a conv c' newarg True argv ap'))"
  by pat_completeness auto
termination
  by (relation "measure (\<lambda>(a, conv, c, curarg, touched, argv, ap). length c)") (auto intro: percent_rest_shorter)

declare format_loop.simps [simp del]

definition redisvFormatCommand :: "allocator \<Rightarrow> (string \<Rightarrow> vararg \<Rightarrow> string) \<Rightarrow> string \<Rightarrow> vararg list
    \<Rightarrow> fmt_result option" where
  "redisvFormatCommand a conv format ap =
     (case sdsempty a of
        None \<Rightarrow> Some FmtMemErr
      | Some curarg \<Rightarrow>
          (case format_loop a conv (take (strlen format) format) curarg False [] ap of
             None \<Rightarrow> None
           | Some (Inl e) \<Rightarrow> Some e
           | Some (Inr (curarg, touched, argv)) \<Rightarrow>
               if touched \<and> \<not> can_alloc a (8 * (length argv + 1)) then Some FmtMemErr
               else
                 let argv = (if touched then argv @ [curarg] else argv);
                     totlen = foldl (\<lambda>n arg. n + of_nat (bulklen (sdslen arg))) 0 argv + of_nat (1 + countDigits (length argv) + 2)
                 in build_command a totlen (map (\<lambda>arg. take (sdslen arg) (sh_buf arg)) argv)))"

section \<open>Sizes are exact\<close>

lemma length_dec_ge10: "10 \<le> v \<Longrightarrow> length (dec v) = Suc (length (dec (v div 10)))"
  by (subst dec.simps) simp

lemma length_dec_small: "n < 10 \<Longrightarrow> length (dec n) = 1"
  by (subst dec.simps) simp

lemma length_dec_bounds:
  "10 \<le> n \<Longrightarrow> n < 100 \<Longrightarrow> length (dec n) = 2"
  "100 \<le> n \<Longrightarrow> n < 1000 \<Longrightarrow> length (dec n) = 3"
  "1000 \<le> n \<Longrightarrow> n < 10000 \<Longrightarrow> length (dec n) = 4"
  by (simp_all add: length_dec_ge10 length_dec_small)

lemma length_dec_ge10000: "10000 \<le> n \<Longrightarrow> length (dec n) = 4 + length (dec (n div 10000))"
proof -
  assume n: "10000 \<le> n"
  have d: "n div 10 div 10 = n div 100" "n div 100 div 10 = n div 1000" "n div 1000 div 10 = n div 10000"
    by (simp_all add: div_mult2_eq [symmetric])
  from n have "10 \<le> n" "10 \<le> n div 10" "10 \<le> n div 100" "10 \<le> n div 1000" by linarith+
  then show ?thesis
    using length_dec_ge10 [of n] length_dec_ge10 [of "n div 10"] length_dec_ge10 [of "n div 100"]
      length_dec_ge10 [of "n div 1000"] by (simp add: d)
qed

lemma count_digits_dec: "Suc (count_digits v r) = r + length (dec v)"
proof (induction v r rule: count_digits.induct)
  case (1 v r)
  consider "v < 10" | "10 \<le> v" "v < 100" | "100 \<le> v" "v < 1000" | "1000 \<le> v" "v < 10000" | "10000 \<le> v"
    by linarith
  then show ?case
    by cases (subst count_digits.simps, simp add: 1 length_dec_small length_dec_bounds length_dec_ge10000)+
qed

lemma countDigits_dec: "countDigits v = length (dec v)"
  using count_digits_dec [of v 1] by (simp add: countDigits_def)

lemma bulklen_enc: "bulklen (length s) = length (enc (Bulk s))"
  by (simp add: bulklen_def countDigits_dec)

section \<open>The command is the encoding of its arguments\<close>

definition wire_command :: "string list \<Rightarrow> string" where
  "wire_command args = enc (Arr (map Bulk args))"

lemma length_wire_command:
  "length (wire_command args) = 1 + countDigits (length args) + 2 + sum_list (map (\<lambda>s. bulklen (length s)) args)"
  by (induction args) (simp_all add: wire_command_def bulklen_enc countDigits_dec del: enc.simps(4))

text \<open>A command under construction: \<open>t\<close> has been written to a block of \<open>n\<close> bytes.\<close>

definition written :: "nat \<Rightarrow> string \<Rightarrow> string \<times> nat \<Rightarrow> bool" where
  "written n t st \<longleftrightarrow> length (fst st) = n \<and> snd st = length t \<and> take (length t) (fst st) = t"

lemma put_bytes_written:
  assumes "written n t st" "length t + length u \<le> n"
  shows "\<exists>st'. put_bytes u st = Some st' \<and> written n (t @ u) st'"
proof -
  obtain cmd pos where st: "st = (cmd, pos)" by (cases st)
  then have "take pos cmd = t" "pos = length t" "length cmd = n" using assms(1) by (simp_all add: written_def)
  then show ?thesis using assms(2) by (simp add: put_bytes_def st written_def copy_at_def)
qed

lemma put_text_written:
  assumes "written n t st" "length t + length u < n"
  shows "\<exists>st'. put_text u st = Some st' \<and> written n (t @ u) st'"
proof -
  obtain st1 where st1: "put_bytes (u @ [NUL]) st = Some st1" "written n (t @ u @ [NUL]) st1"
    using put_bytes_written [OF assms(1), of "u @ [NUL]"] assms(2) by auto
  obtain cmd pos where e: "st1 = (cmd, pos)" by (cases st1)
  with st1(2) have t: "take (length (t @ u @ [NUL])) cmd = t @ u @ [NUL]" "length cmd = n"
      "pos = length (t @ u @ [NUL])"
    by (simp_all only: written_def fst_conv snd_conv)
  have "take (length (t @ u)) cmd = take (length (t @ u)) (take (length (t @ u @ [NUL])) cmd)"
    by (simp add: min_def)
  also have "\<dots> = t @ u" by (simp only: t(1)) simp
  finally have "written n (t @ u) (cmd, pos - 1)" using t(2,3) by (simp add: written_def)
  with st1(1) e show ?thesis by (simp add: put_text_def)
qed

lemma put_args_written:
  "written n t st \<Longrightarrow> length t + length (concat (map (\<lambda>s. enc (Bulk s)) args)) < n \<Longrightarrow>
   \<exists>st'. put_args args st = Some st' \<and> written n (t @ concat (map (\<lambda>s. enc (Bulk s)) args)) st'"
proof (induction args arbitrary: t st)
  case (Cons arg args)
  let ?h = "''$'' @ dec (length arg) @ [CR, LF]"
  have len: "length t + (length ?h + length arg + 2) + length (concat (map (\<lambda>s. enc (Bulk s)) args)) < n"
    using Cons.prems(2) by simp
  obtain s1 where s1: "put_text ?h st = Some s1" "written n (t @ ?h) s1"
    using put_text_written [OF Cons.prems(1), of ?h] len by auto
  obtain s2 where s2: "put_bytes arg s1 = Some s2" "written n ((t @ ?h) @ arg) s2"
    using put_bytes_written [OF s1(2), of arg] len by auto
  obtain s3 where s3: "put_bytes [CR] s2 = Some s3" "written n (((t @ ?h) @ arg) @ [CR]) s3"
    using put_bytes_written [OF s2(2), of "[CR]"] len by auto
  obtain s4 where s4: "put_bytes [LF] s3 = Some s4" "written n ((((t @ ?h) @ arg) @ [CR]) @ [LF]) s4"
    using put_bytes_written [OF s3(2), of "[LF]"] len by auto
  from Cons.IH [OF s4(2)] len s1(1) s2(1) s3(1) s4(1) show ?case by auto
qed simp

lemma malloc_size:
  assumes "n + 1 < 2 ^ 31"
  shows "unat (scast (of_nat n + 1 :: 32 word) :: 64 word) = n + 1"
proof -
  have "sint (of_nat n + 1 :: 32 word) = int (n + 1)"
    using assms signed_of_nat [where 'a = int and n = "n + 1" and 'b = 32] by (simp add: signed_take_bit_int_eq_self add.commute)
  then have "(scast (of_nat n + 1 :: 32 word) :: 64 word) = of_nat (n + 1)"
    by (simp add: scast_eq)
  also have "unat \<dots> = n + 1" by (simp only: unat_of_nat) (use assms in simp)
  finally show ?thesis .
qed

lemma build_command_wire:
  assumes small: "length (wire_command args) + 1 < 2 ^ 31" and totlen: "totlen = of_nat (length (wire_command args))"
  shows "build_command a totlen args =
    Some (if can_alloc a (length (wire_command args) + 1) then FmtOk (wire_command args) else FmtMemErr)"
proof (cases "can_alloc a (length (wire_command args) + 1)")
  case True
  let ?h = "''*'' @ dec (length args) @ [CR, LF]" and ?n = "length (wire_command args) + 1"
  have n: "unat (scast (totlen + 1) :: 64 word) = ?n" using malloc_size [OF small] totlen by simp
  have w: "wire_command args = ?h @ concat (map (\<lambda>s. enc (Bulk s)) args)"
    by (simp add: wire_command_def comp_def)
  have "written ?n [] (fresh_bytes a ?n, 0)" by (simp add: written_def)
  then obtain s1 where s1: "put_text ?h (fresh_bytes a ?n, 0) = Some s1" "written ?n ?h s1"
    using put_text_written [of ?n "[]" "(fresh_bytes a ?n, 0)" ?h] w by auto
  then obtain s2 where s2: "put_args args s1 = Some s2" "written ?n (wire_command args) s2"
    using put_args_written [OF s1(2), of args] w by auto
  then show ?thesis using True s1(1) n totlen
    by (cases s2) (simp add: build_command_def written_def Let_def)
next
  case False
  then show ?thesis using malloc_size [OF small] totlen by (simp add: build_command_def Let_def)
qed

lemma foldl_of_nat: "foldl (\<lambda>n arg. n + of_nat (f arg)) (of_nat m) args = of_nat (m + sum_list (map f args))"
proof (induction args arbitrary: m)
  case (Cons x xs)
  then show ?case using Cons.IH [of "m + f x"] by (simp add: add.assoc)
qed simp

lemma format_argv_wire:
  assumes "length (wire_command (map arg_bytes argv)) + 1 < 2 ^ 31"
  shows "redisFormatCommandArgv a argv =
    Some (if can_alloc a (length (wire_command (map arg_bytes argv)) + 1)
          then FmtOk (wire_command (map arg_bytes argv)) else FmtMemErr)"
proof -
  have "foldl (\<lambda>n arg. n + of_nat (bulklen (length (arg_bytes arg)))) (of_nat (1 + countDigits (length argv) + 2)) argv
      = (of_nat (length (wire_command (map arg_bytes argv))) :: 32 word)"
    by (subst foldl_of_nat) (simp add: length_wire_command comp_def)
  then show ?thesis using build_command_wire [OF assms refl] by (simp add: redisFormatCommandArgv_def)
qed

lemma yields_alloc: "yields a c r \<Longrightarrow> (\<And>n. can_alloc a n) \<Longrightarrow> \<exists>s. r = Some s \<and> sds_wf s \<and> content s = c"
  by (auto simp: yields_def split: option.splits)

lemma sds_args_wire:
  assumes mem: "\<And>n. can_alloc a n"
  shows "sds_wf s \<Longrightarrow> \<forall>arg\<in>set argv. length (arg_bytes arg) < 2 ^ 64 \<Longrightarrow>
    \<exists>s'. sds_args a argv s = Some s' \<and> sds_wf s' \<and>
      content s' = content s @ concat (map (\<lambda>arg. enc (Bulk (arg_bytes arg))) argv)"
proof (induction argv arbitrary: s)
  case (Cons arg argv)
  let ?n = "length (arg_bytes arg)"
  have "fmt_text (takeWhile (\<lambda>c. c \<noteq> NUL) (''$%T'' @ [CR, LF])) [ArgSize (of_nat ?n)]
      = Some (''$'' @ dec ?n @ [CR, LF])"
    using Cons.prems(2) by (simp add: fmt_arg_def unat_of_nat)
  from yields_alloc [OF sdscatfmt_yields [OF Cons.prems(1) this] mem] obtain s1 where
    s1: "sdscatfmt a s (''$%T'' @ [CR, LF]) [ArgSize (of_nat ?n)] = Some s1" "sds_wf s1"
      "content s1 = content s @ ''$'' @ dec ?n @ [CR, LF]" by blast
  from yields_alloc [OF sdscatlen_yields [OF s1(2)] mem] obtain s2 where
    s2: "sdscatlen a s1 (arg_bytes arg) = Some s2" "sds_wf s2" "content s2 = content s1 @ arg_bytes arg" by blast
  from yields_alloc [OF sdscatlen_yields [OF s2(2)] mem] obtain s3 where
    s3: "sdscatlen a s2 [CR, LF] = Some s3" "sds_wf s3" "content s3 = content s2 @ [CR, LF]" by blast
  from Cons.IH [OF s3(2)] Cons.prems(2) s1 s2 s3 show ?case by auto
qed simp

lemma sum_list_bulklen:
  "length argv \<le> sum_list (map (\<lambda>s. bulklen (length s)) argv)"
  "arg \<in> set argv \<Longrightarrow> length arg \<le> sum_list (map (\<lambda>s. bulklen (length s)) argv)"
  by (induction argv) (auto simp: bulklen_def)

lemma wire_command_bounds:
  "length argv \<le> length (wire_command argv)" "arg \<in> set argv \<Longrightarrow> length arg \<le> length (wire_command argv)"
  using sum_list_bulklen(1) [of argv] sum_list_bulklen(2) [of arg argv]
  by (simp_all add: length_wire_command)

lemma format_sds_wire:
  assumes mem: "\<And>n. can_alloc a n" and small: "length (wire_command (map arg_bytes argv)) < 2 ^ 31"
  shows "\<exists>s. redisFormatSdsCommandArgv a argv = Some (Some (s, of_nat (length (wire_command (map arg_bytes argv)))))
    \<and> sds_wf s \<and> content s = wire_command (map arg_bytes argv)"
proof -
  let ?w = "wire_command (map arg_bytes argv)"
  have tot: "foldl (\<lambda>n arg. n + bulklen (length (arg_bytes arg))) (1 + countDigits (length argv) + 2) argv = length ?w"
    using foldl_of_nat [of "\<lambda>arg. bulklen (length (arg_bytes arg))" "1 + countDigits (length argv) + 2" argv,
        where 'a = nat] by (simp add: length_wire_command comp_def)
  have n: "length argv < 2 ^ 31" using wire_command_bounds(1) [of "map arg_bytes argv"] small by simp
  have l: "\<forall>arg\<in>set argv. length (arg_bytes arg) < 2 ^ 64"
  proof
    fix arg assume "arg \<in> set argv"
    then have "length (arg_bytes arg) \<le> length ?w" by (intro wire_command_bounds(2)) simp
    with small show "length (arg_bytes arg) < 2 ^ 64" by simp
  qed
  from n have "sint (of_nat (length argv) :: 32 word) = int (length argv)"
    by (simp add: signed_of_nat signed_take_bit_int_eq_self)
  then have f: "fmt_text (takeWhile (\<lambda>c. c \<noteq> NUL) (''*%i'' @ [CR, LF])) [ArgInt (of_nat (length argv))]
      = Some (''*'' @ dec (length argv) @ [CR, LF])"
    by (simp add: fmt_arg_def dec_int_def)
  from yields_alloc [OF sdsempty_yields mem] obtain s0 where s0: "sdsempty a = Some s0" "sds_wf s0" "content s0 = []"
    by blast
  from yields_alloc [OF sdsMakeRoomFor_yields [OF s0(2)] mem, of "length ?w"] obtain s1 where
    s1: "sdsMakeRoomFor a s0 (length ?w) = Some s1" "sds_wf s1" "content s1 = []" using s0(3) by auto
  from yields_alloc [OF sdscatfmt_yields [OF s1(2) f] mem] obtain s2 where
    s2: "sdscatfmt a s1 (''*%i'' @ [CR, LF]) [ArgInt (of_nat (length argv))] = Some s2" "sds_wf s2"
      "content s2 = ''*'' @ dec (length argv) @ [CR, LF]" using s1(3) by auto
  from sds_args_wire [OF mem s2(2) l] obtain s3 where
    s3: "sds_args a argv s2 = Some s3" "sds_wf s3" "content s3 = ?w"
    using s2(3) by (auto simp: wire_command_def comp_def)
  have "sdslen s3 = length ?w" using s3 length_content [of s3] by (simp add: sdslen_def sds_wf_def)
  then show ?thesis using s0 s1 s2 s3
    unfolding redisFormatSdsCommandArgv_def tot Let_def by (simp del: append.simps)
qed

text \<open>The two formatters of argument vectors, one writing into a block of a size computed in
  advance and one appending to an sds string, return the same bytes and the same length: the
  protocol encoding of the argument vector, whose computed size is exact. The total has to stay
  below 2 GiB because the code keeps it in an \<open>int\<close>.\<close>

theorem command_formatters_agree:
  assumes "\<And>n. can_alloc a n" "length (wire_command (map arg_bytes argv)) + 1 < 2 ^ 31"
  shows "\<exists>s. redisFormatSdsCommandArgv a argv = Some (Some (s, of_nat (length (content s))))
    \<and> sds_wf s \<and> redisFormatCommandArgv a argv = Some (FmtOk (content s))
    \<and> content s = enc (Arr (map (Bulk \<circ> arg_bytes) argv))"
proof -
  have "length (wire_command (map arg_bytes argv)) < 2 ^ 31" using assms(2) by simp
  from format_sds_wire [OF assms(1) this] format_argv_wire [OF assms(2), of a] assms(1)
  show ?thesis by (auto simp: wire_command_def simp del: enc.simps)
qed

theorem command_formatters_agree_witness:
  "\<exists>s. redisFormatSdsCommandArgv \<lparr>can_alloc = \<lambda>n. True, fresh = \<lambda>i. CHR ''?''\<rparr>
      [(''SET'', Some 3), (''k '', Some 2), (''value'', Some 0)] = Some (Some (s, of_nat (length (content s)))) \<and>
    sds_wf s \<and> redisFormatCommandArgv \<lparr>can_alloc = \<lambda>n. True, fresh = \<lambda>i. CHR ''?''\<rparr>
      [(''SET'', Some 3), (''k '', Some 2), (''value'', Some 0)] = Some (FmtOk (content s)) \<and>
    content s = enc (Arr (map (Bulk \<circ> arg_bytes) [(''SET'', Some 3), (''k '', Some 2), (''value'', Some 0)]))"
  by (rule command_formatters_agree)
    (simp_all add: length_wire_command bulklen_def countDigits_def count_digits.simps arg_bytes_def)

section \<open>Formats made of words\<close>

text \<open>A format whose words consist of literal characters, \<open>%s\<close> and \<open>%b\<close>.\<close>

datatype piece = Lit char | StrArg string | BufArg string

fun piece_fmt :: "piece \<Rightarrow> string" where
  "piece_fmt (Lit c) = (if c = CHR ''%'' then ''%%'' else [c])"
| "piece_fmt (StrArg _) = ''%s''"
| "piece_fmt (BufArg _) = ''%b''"

fun piece_args :: "piece \<Rightarrow> vararg list" where
  "piece_args (Lit _) = []"
| "piece_args (StrArg s) = [VStr s]"
| "piece_args (BufArg s) = [VBuf s]"

fun piece_text :: "piece \<Rightarrow> string" where
  "piece_text (Lit c) = [c]"
| "piece_text (StrArg s) = takeWhile (\<lambda>c. c \<noteq> NUL) s"
| "piece_text (BufArg s) = s"

fun template :: "piece list list \<Rightarrow> string" where
  "template [] = []"
| "template [w] = concat (map piece_fmt w)"
| "template (w # v # ws) = concat (map piece_fmt w) @ CHR '' '' # template (v # ws)"

definition template_args :: "piece list list \<Rightarrow> vararg list" where
  "template_args ws = concat (map piece_args (concat ws))"

definition word_text :: "piece list \<Rightarrow> string" where
  "word_text w = concat (map piece_text w)"

definition word_ok :: "piece list \<Rightarrow> bool" where
  "word_ok w \<longleftrightarrow> w \<noteq> [] \<and> Lit NUL \<notin> set w \<and> Lit (CHR '' '') \<notin> set w"

lemma format_loop_piece:
  assumes mem: "\<And>n. can_alloc a n" and wf: "sds_wf s" and ok: "word_ok [p]"
  shows "\<exists>s'. sds_wf s' \<and> content s' = content s @ piece_text p \<and>
    format_loop a conv (piece_fmt p @ rest) s touched argv (piece_args p @ ap) = format_loop a conv rest s' True argv ap"
proof -
  have app: "\<exists>s'. (if t = [] then Some s else sdscatlen a s t) = Some s' \<and> sds_wf s' \<and> content s' = content s @ t"
    for t :: string
    using yields_alloc [OF sdscatlen_yields [OF wf] mem, of t] wf by auto
  show ?thesis
  proof (cases p)
    case (Lit c)
    show ?thesis
    proof (cases "c = CHR ''%''")
      case True
      with Lit app [of "''%''"] show ?thesis
        by (subst format_loop.simps) (auto simp: percent_step_def Let_def)
    next
      case False
      with Lit ok app [of "[c]"] show ?thesis
        by (subst format_loop.simps) (auto simp: word_ok_def)
    qed
  next
    case (StrArg u)
    with app [of "takeWhile (\<lambda>c. c \<noteq> NUL) u"] show ?thesis
      by (subst format_loop.simps) (auto simp: percent_step_def Let_def take_strlen)
  next
    case (BufArg u)
    with app [of u] show ?thesis
      by (subst format_loop.simps) (auto simp: percent_step_def Let_def)
  qed
qed

lemma format_loop_word:
  assumes mem: "\<And>n. can_alloc a n"
  shows "sds_wf s \<Longrightarrow> word_ok w \<Longrightarrow> \<exists>s'. sds_wf s' \<and> content s' = content s @ word_text w \<and>
    format_loop a conv (concat (map piece_fmt w) @ rest) s touched argv (concat (map piece_args w) @ ap)
      = format_loop a conv rest s' True argv ap"
proof (induction w arbitrary: s touched)
  case (Cons p w)
  from Cons.prems(2) have p: "word_ok [p]" by (auto simp: word_ok_def)
  from format_loop_piece [OF mem Cons.prems(1) p] obtain s1 where
    s1: "sds_wf s1" "content s1 = content s @ piece_text p"
      "format_loop a conv (piece_fmt p @ concat (map piece_fmt w) @ rest) s touched argv
         (piece_args p @ concat (map piece_args w) @ ap)
       = format_loop a conv (concat (map piece_fmt w) @ rest) s1 True argv (concat (map piece_args w) @ ap)"
    by blast
  show ?case
  proof (cases "w = []")
    case True
    with s1 show ?thesis by (auto simp: word_text_def)
  next
    case False
    with Cons.prems(2) have "word_ok w" by (auto simp: word_ok_def)
    from Cons.IH [OF s1(1) this, of True] s1 show ?thesis by (auto simp: word_text_def)
  qed
qed (simp add: word_ok_def)

lemma format_loop_template:
  assumes mem: "\<And>n. can_alloc a n"
  shows "ws \<noteq> [] \<Longrightarrow> \<forall>w\<in>set ws. word_ok w \<Longrightarrow> sds_wf s \<Longrightarrow> content s = [] \<Longrightarrow>
    \<exists>s' args. format_loop a conv (template ws) s False argv (template_args ws) = Some (Inr (s', True, argv @ args)) \<and>
      (\<forall>t\<in>set (args @ [s']). sds_wf t) \<and> map content (args @ [s']) = map word_text ws"
proof (induction ws arbitrary: s argv rule: template.induct)
  case (2 w)
  from format_loop_word [OF mem 2(3), of w conv "[]" False argv "[]"] 2 show ?case
    by (auto simp: template_args_def) (subst format_loop.simps, auto)
next
  case (3 w v ws)
  let ?rest = "CHR '' '' # template (v # ws)"
  from format_loop_word [OF mem 3(4), of w conv ?rest False argv "template_args (v # ws)"] 3(3,5)
  obtain s1 where s1: "sds_wf s1" "content s1 = word_text w"
    "format_loop a conv (template (w # v # ws)) s False argv (template_args (w # v # ws))
      = format_loop a conv ?rest s1 True argv (template_args (v # ws))"
    by (auto simp: template_args_def)
  from yields_alloc [OF sdsempty_yields mem] obtain e where e: "sdsempty a = Some e" "sds_wf e" "content e = []"
    by blast
  have "format_loop a conv ?rest s1 True argv (template_args (v # ws))
      = format_loop a conv (template (v # ws)) e False (argv @ [s1]) (template_args (v # ws))"
    by (subst format_loop.simps) (simp add: mem e)
  with 3(1) [OF _ _ e(2,3), of "argv @ [s1]"] 3(3) s1 show ?case by auto
qed simp

lemma NUL_template: "\<forall>w\<in>set ws. word_ok w \<Longrightarrow> NUL \<notin> set (template ws)"
proof -
  have p: "NUL \<in> set (piece_fmt p) \<Longrightarrow> p = Lit NUL" for p by (cases p) (auto split: if_splits)
  show "\<forall>w\<in>set ws. word_ok w \<Longrightarrow> NUL \<notin> set (template ws)"
    by (induction ws rule: template.induct) (auto simp: word_ok_def dest: p)
qed

lemma format_loop_finish:
  assumes mem: "\<And>n. can_alloc a n" and e: "sdsempty a = Some e" and fmt: "NUL \<notin> set fmt"
    and l: "format_loop a conv fmt e False [] ap = Some (Inr (s', True, args))"
      "\<forall>t\<in>set (args @ [s']). sds_wf t" "map content (args @ [s']) = ws"
    and small: "length (wire_command ws) + 1 < 2 ^ 31"
  shows "redisvFormatCommand a conv fmt ap = Some (FmtOk (wire_command ws))"
proof -
  let ?w = "wire_command ws"
  have f: "take (strlen fmt) fmt = fmt"
    using fmt by (simp add: take_strlen) (metis takeWhile_eq_all_conv)
  have c: "map (\<lambda>arg. take (sdslen arg) (sh_buf arg)) (args @ [s']) = ws"
    using l(3) by (simp add: sdslen_def content_def [abs_def])
  have len: "sdslen t = length (content t)" if "t \<in> set (args @ [s'])" for t
  proof -
    have "sds_wf t" using l(2) that by blast
    then show ?thesis using length_content [of t] by (simp add: sdslen_def sds_wf_def)
  qed
  have "map (\<lambda>t. bulklen (sdslen t)) (args @ [s']) = map (bulklen \<circ> length) (map content (args @ [s']))"
    using len by simp
  also have "\<dots> = map (\<lambda>s. bulklen (length s)) ws" by (simp only: l(3)) simp
  finally have b: "map (\<lambda>t. bulklen (sdslen t)) (args @ [s']) = map (\<lambda>s. bulklen (length s)) ws" .
  have n: "length (args @ [s']) = length ws" using arg_cong [OF l(3), of length] by simp
  have tot: "foldl (\<lambda>n arg. n + of_nat (bulklen (sdslen arg))) 0 (args @ [s']) + of_nat (1 + countDigits (length (args @ [s'])) + 2)
      = (of_nat (length ?w) :: 32 word)"
    using foldl_of_nat [of "\<lambda>t. bulklen (sdslen t)" 0 "args @ [s']", where 'a = "32 word"]
    by (simp only: b n length_wire_command) simp
  from build_command_wire [OF small refl, of a] show ?thesis
    unfolding redisvFormatCommand_def f e l(1) option.case sum.case prod.case Let_def
    by (simp only: mem simp_thms if_True if_False c tot)
qed

text \<open>Words followed by one more word, and a word that is an integer conversion.\<close>

lemma format_loop_prefix:
  assumes mem: "\<And>n. can_alloc a n"
  shows "ws \<noteq> [] \<Longrightarrow> \<forall>w\<in>set ws. word_ok w \<Longrightarrow> sds_wf s \<Longrightarrow> content s = [] \<Longrightarrow>
    \<exists>e args. format_loop a conv (template ws @ CHR '' '' # rest) s False argv (template_args ws @ ap)
        = format_loop a conv rest e False (argv @ args) ap \<and> sds_wf e \<and> content e = [] \<and>
      (\<forall>t\<in>set args. sds_wf t) \<and> map content args = map word_text ws"
proof (induction ws arbitrary: s argv rule: template.induct)
  case (2 w)
  from format_loop_word [OF mem 2(3), of w conv "CHR '' '' # rest" False argv ap] 2
  obtain s1 where s1: "sds_wf s1" "content s1 = word_text w"
    "format_loop a conv (template [w] @ CHR '' '' # rest) s False argv (template_args [w] @ ap)
      = format_loop a conv (CHR '' '' # rest) s1 True argv ap" by (auto simp: template_args_def)
  from yields_alloc [OF sdsempty_yields mem] obtain e where e: "sdsempty a = Some e" "sds_wf e" "content e = []"
    by blast
  have "format_loop a conv (CHR '' '' # rest) s1 True argv ap = format_loop a conv rest e False (argv @ [s1]) ap"
    by (subst format_loop.simps) (simp add: mem e)
  with s1 e show ?case by (intro exI [of _ e] exI [of _ "[s1]"]) simp
next
  case (3 w v ws)
  let ?rest = "CHR '' '' # template (v # ws) @ CHR '' '' # rest"
  from format_loop_word [OF mem 3(4), of w conv ?rest False argv "template_args (v # ws) @ ap"] 3(3,5)
  obtain s1 where s1: "sds_wf s1" "content s1 = word_text w"
    "format_loop a conv (template (w # v # ws) @ CHR '' '' # rest) s False argv (template_args (w # v # ws) @ ap)
      = format_loop a conv ?rest s1 True argv (template_args (v # ws) @ ap)"
    by (auto simp: template_args_def)
  from yields_alloc [OF sdsempty_yields mem] obtain e where e: "sdsempty a = Some e" "sds_wf e" "content e = []"
    by blast
  have "format_loop a conv ?rest s1 True argv (template_args (v # ws) @ ap)
      = format_loop a conv (template (v # ws) @ CHR '' '' # rest) e False (argv @ [s1]) (template_args (v # ws) @ ap)"
    by (subst format_loop.simps) (simp add: mem e)
  moreover from 3(1) [OF _ _ e(2,3), of "argv @ [s1]"] 3(3) obtain e' args where
    "format_loop a conv (template (v # ws) @ CHR '' '' # rest) e False (argv @ [s1]) (template_args (v # ws) @ ap)
       = format_loop a conv rest e' False (argv @ [s1] @ args) ap"
    "sds_wf e'" "content e' = []" "\<forall>t\<in>set args. sds_wf t" "map content args = map word_text (v # ws)" by auto
  ultimately show ?case using s1 by (intro exI [of _ e'] exI [of _ "s1 # args"]) auto
qed simp

lemma integer_conversion:
  "conversion (skip_spec (''ld'' @ rest)) = Some (KLong, CHR ''d'' # rest)"
  "conversion (skip_spec (''d'' @ rest)) = Some (KInt, CHR ''d'' # rest)"
  by (simp_all add: conversion_def skip_spec_def Let_def int_conv_def)

lemma format_loop_number:
  assumes mem: "\<And>n. can_alloc a n" and wf: "sds_wf s"
    and spec: "spec = ''%ld'' \<and> kind_of v = Some KLong \<or> spec = ''%d'' \<and> kind_of v = Some KInt"
    and out: "NUL \<notin> set (conv spec v)"
  shows "\<exists>s'. sds_wf s' \<and> content s' = content s @ conv spec v \<and>
    format_loop a conv (spec @ rest) s touched argv (v # ap) = format_loop a conv rest s' True argv ap"
proof -
  obtain s' where s': "sdscatvprintf a s (conv spec v) = Some s'" "sds_wf s'" "content s' = content s @ conv spec v"
    using yields_alloc [OF sdscatvprintf_yields [OF wf out] mem] by blast
  from spec have "percent_step a conv (spec @ rest) s (v # ap) = Some (Inr (s', rest, ap))"
  proof
    assume v: "spec = ''%ld'' \<and> kind_of v = Some KLong"
    then have "numeric_conv a conv (''%ld'' @ rest) s (v # ap) = Some (Inr (s', rest, ap))"
      using s'(1) integer_conversion(1) [of rest] by (simp add: numeric_conv_def Suc_diff_le numeral_3_eq_3)
    with v show ?thesis by (simp add: percent_step_def Let_def)
  next
    assume v: "spec = ''%d'' \<and> kind_of v = Some KInt"
    then have "numeric_conv a conv (''%d'' @ rest) s (v # ap) = Some (Inr (s', rest, ap))"
      using s'(1) integer_conversion(2) [of rest] by (simp add: numeric_conv_def Suc_diff_le)
    with v show ?thesis by (simp add: percent_step_def Let_def)
  qed
  moreover obtain c cs where "spec = CHR ''%'' # c # cs" using spec by auto
  ultimately have "format_loop a conv (spec @ rest) s touched argv (v # ap) = format_loop a conv rest s' True argv ap"
    by (subst format_loop.simps) simp
  with s'(2,3) show ?thesis by blast
qed

lemma command_with_number:
  assumes mem: "\<And>n. can_alloc a n" and ws: "ws \<noteq> []" "\<forall>w\<in>set ws. word_ok w"
    and spec: "spec = ''%ld'' \<and> kind_of v = Some KLong \<or> spec = ''%d'' \<and> kind_of v = Some KInt"
    and out: "NUL \<notin> set (conv spec v)"
    and small: "length (wire_command (map word_text ws @ [conv spec v])) + 1 < 2 ^ 31"
  shows "redisvFormatCommand a conv (template ws @ CHR '' '' # spec) (template_args ws @ [v])
    = Some (FmtOk (wire_command (map word_text ws @ [conv spec v])))"
proof -
  from yields_alloc [OF sdsempty_yields mem] obtain e where e: "sdsempty a = Some e" "sds_wf e" "content e = []"
    by blast
  from format_loop_prefix [OF mem ws e(2,3), of conv spec "[]" "[v]"] obtain e' args where
    p: "format_loop a conv (template ws @ CHR '' '' # spec) e False [] (template_args ws @ [v]) = format_loop a conv spec e' False args [v]"
      "sds_wf e'" "content e' = []" "\<forall>t\<in>set args. sds_wf t" "map content args = map word_text ws" by auto
  from format_loop_number [OF mem p(2) spec, where conv = conv and rest = "[]" and touched = False and argv = args and ap = "[]"] out
  obtain s' where s': "sds_wf s'" "content s' = conv spec v"
    "format_loop a conv spec e' False args [v] = format_loop a conv [] s' True args []" by (auto simp: p(3))
  have nul: "NUL \<notin> set (template ws @ CHR '' '' # spec)" using NUL_template [OF ws(2)] spec by auto
  show ?thesis
    by (rule format_loop_finish [OF mem e(1) nul _ _ _ small])
      (use p s' in \<open>auto simp: format_loop.simps [of a conv "[]"]\<close>)
qed

lemma command_with_inner_number:
  assumes mem: "\<And>n. can_alloc a n" and ws: "ws \<noteq> []" "\<forall>w\<in>set ws. word_ok w" and us: "us \<noteq> []" "\<forall>w\<in>set us. word_ok w"
    and spec: "spec = ''%ld'' \<and> kind_of v = Some KLong \<or> spec = ''%d'' \<and> kind_of v = Some KInt"
    and out: "NUL \<notin> set (conv spec v)"
    and small: "length (wire_command (map word_text ws @ conv spec v # map word_text us)) + 1 < 2 ^ 31"
  shows "redisvFormatCommand a conv (template ws @ CHR '' '' # spec @ CHR '' '' # template us) (template_args ws @ v # template_args us)
    = Some (FmtOk (wire_command (map word_text ws @ conv spec v # map word_text us)))"
proof -
  let ?rest = "CHR '' '' # template us"
  from yields_alloc [OF sdsempty_yields mem] obtain e where e: "sdsempty a = Some e" "sds_wf e" "content e = []"
    by blast
  from format_loop_prefix [OF mem ws e(2,3), of conv "spec @ ?rest" "[]" "v # template_args us"] obtain e' args where
    p: "format_loop a conv (template ws @ CHR '' '' # spec @ ?rest) e False [] (template_args ws @ v # template_args us)
        = format_loop a conv (spec @ ?rest) e' False args (v # template_args us)"
      "sds_wf e'" "content e' = []" "\<forall>t\<in>set args. sds_wf t" "map content args = map word_text ws" by auto
  from format_loop_number [OF mem p(2) spec, where conv = conv and rest = ?rest and touched = False and argv = args and ap = "template_args us"] out
  obtain s' where s': "sds_wf s'" "content s' = conv spec v"
    "format_loop a conv (spec @ ?rest) e' False args (v # template_args us) = format_loop a conv ?rest s' True args (template_args us)"
    by (auto simp: p(3))
  have "format_loop a conv ?rest s' True args (template_args us)
      = format_loop a conv (template us) e False (args @ [s']) (template_args us)"
    by (subst format_loop.simps) (simp add: mem e)
  moreover from format_loop_template [OF mem us e(2,3), of conv "args @ [s']"] obtain t bs where
    "format_loop a conv (template us) e False (args @ [s']) (template_args us) = Some (Inr (t, True, (args @ [s']) @ bs))"
    "\<forall>x\<in>set (bs @ [t]). sds_wf x" "map content (bs @ [t]) = map word_text us" by blast
  moreover have nul: "NUL \<notin> set (template ws @ CHR '' '' # spec @ ?rest)"
    using NUL_template [OF ws(2)] NUL_template [OF us(2)] spec by auto
  ultimately show ?thesis
    using p s' by (intro format_loop_finish [OF mem e(1) nul _ _ _ small, where args = "args @ s' # bs" and s' = t]) auto
qed

text \<open>A command format made of words of literal characters, \<open>%s\<close> and \<open>%b\<close> produces
  exactly one protocol argument per word, whatever bytes the interpolated arguments hold: spaces,
  line ends and percent signs in the data cannot start another argument or another command.\<close>

theorem format_words_are_arguments:
  assumes "\<And>n. can_alloc a n" "ws \<noteq> []" "\<forall>w\<in>set ws. word_ok w"
    and "length (enc (Arr (map (Bulk \<circ> word_text) ws))) + 1 < 2 ^ 31"
  shows "redisvFormatCommand a conv (template ws) (template_args ws)
    = Some (FmtOk (enc (Arr (map (Bulk \<circ> word_text) ws))))"
proof -
  from yields_alloc [OF sdsempty_yields assms(1)] obtain e where e: "sdsempty a = Some e" "sds_wf e" "content e = []"
    by blast
  from format_loop_template [OF assms(1-3) e(2,3), of conv "[]"] obtain s' args where
    l: "format_loop a conv (template ws) e False [] (template_args ws) = Some (Inr (s', True, args))"
      "\<forall>t\<in>set (args @ [s']). sds_wf t" "map content (args @ [s']) = map word_text ws" by auto
  have w: "enc (Arr (map (Bulk \<circ> word_text) ws)) = wire_command (map word_text ws)"
    by (simp add: wire_command_def comp_def)
  show ?thesis
    unfolding w using format_loop_finish [OF assms(1) e(1) NUL_template [OF assms(3)] l] assms(4) by (simp only: w)
qed

theorem format_words_are_arguments_witness:
  "redisvFormatCommand \<lparr>can_alloc = \<lambda>n. True, fresh = \<lambda>i. CHR ''?''\<rparr> (\<lambda>f v. [])
     (template [[Lit (CHR ''G'')], [Lit (CHR ''%''), BufArg (''x'' @ [CR, LF] @ ''DEL k'')], [StrArg ''a b'']])
     (template_args [[Lit (CHR ''G'')], [Lit (CHR ''%''), BufArg (''x'' @ [CR, LF] @ ''DEL k'')], [StrArg ''a b'']])
   = Some (FmtOk (enc (Arr (map (Bulk \<circ> word_text)
      [[Lit (CHR ''G'')], [Lit (CHR ''%''), BufArg (''x'' @ [CR, LF] @ ''DEL k'')], [StrArg ''a b'']]))))"
  by (rule format_words_are_arguments) (simp_all add: word_ok_def word_text_def dec.simps)

end
