(* ===== verification/Hiredis_Context.thy ===== *)
theory Hiredis_Context
  imports Hiredis_Format
begin

text \<open>
  The blocking client of \<open>hiredis-master/hiredis.c\<close> (\<open>redisContext\<close>): appending commands to the
  output buffer, writing it, feeding what was read to the reply reader, and waiting for a reply.
  The operating system is a record of the outcomes that \<open>read\<close> and \<open>write\<close> will have on the
  connection and of the bytes written so far; \<open>strerr\<close> is \<open>strerror_r\<close>. \<open>None\<close> is a null
  dereference or an exhausted list of outcomes (the call still blocks).
\<close>

section \<open>State\<close>

datatype io_in = InData string | InErr nat
datatype io_out = OutCount nat | OutErr nat

record socket_io =
  reads :: "io_in list"
  writes :: "io_out list"
  sent :: string

record redisContext =
  cerr :: int
  cerrstr :: string
  cfd :: int
  cflags :: "32 word"
  cobuf :: sdshdr
  creader :: redisReader

definition REDIS_BLOCK :: "32 word" where "REDIS_BLOCK = 1"
definition REDIS_CONNECTED :: "32 word" where "REDIS_CONNECTED = 2"
definition EINTR :: nat where "EINTR = 4"
definition EAGAIN :: nat where "EAGAIN = 11"

definition blocking :: "redisContext \<Rightarrow> bool" where
  "blocking c \<longleftrightarrow> and (cflags c) REDIS_BLOCK \<noteq> 0"

text \<open>The description is cut to the 127 characters that fit \<open>errstr\<close>.\<close>

definition redisSetError :: "redisContext \<Rightarrow> int \<Rightarrow> string \<Rightarrow> redisContext" where
  "redisSetError c type str = c\<lparr>cerr := type, cerrstr := take (min (strlen str) (128 - 1)) str\<rparr>"

definition redisSetErrorIO :: "(nat \<Rightarrow> string) \<Rightarrow> redisContext \<Rightarrow> nat \<Rightarrow> redisContext" where
  "redisSetErrorIO strerr c errno = c\<lparr>cerr := REDIS_ERR_IO, cerrstr := take (128 - 1) (strerr errno)\<rparr>"

definition redisContextInit :: "allocator \<Rightarrow> redisContext option" where
  "redisContextInit a =
     (if \<not> can_alloc a 160 then None
      else do {
        obuf \<leftarrow> sdsempty a;
        reader \<leftarrow> redisReaderCreate a True;
        Some \<lparr>cerr = 0, cerrstr = [], cfd = 0, cflags = 0, cobuf = obuf, creader = reader\<rparr>
      })"

definition redisConnectFd :: "allocator \<Rightarrow> int \<Rightarrow> redisContext option" where
  "redisConnectFd a fd = do {
     c \<leftarrow> redisContextInit a;
     Some (c\<lparr>cfd := fd, cflags := or (cflags c) (or REDIS_BLOCK REDIS_CONNECTED)\<rparr>)
   }"

section \<open>Reading and writing\<close>

text \<open>\<open>EAGAIN\<close> on a non-blocking connection and \<open>EINTR\<close> mean "try again later".\<close>

definition try_later :: "redisContext \<Rightarrow> nat \<Rightarrow> bool" where
  "try_later c errno \<longleftrightarrow> errno = EAGAIN \<and> \<not> blocking c \<or> errno = EINTR"

definition redisBufferRead :: "allocator \<Rightarrow> (nat \<Rightarrow> string) \<Rightarrow> redisContext \<times> socket_io
    \<Rightarrow> (redis_status \<times> redisContext \<times> socket_io) option" where
  "redisBufferRead a strerr st =
     (case st of (c, io) \<Rightarrow>
        if cerr c \<noteq> 0 then Some (REDIS_ERR, c, io)
        else case reads io of
          [] \<Rightarrow> None
        | InErr errno # rs \<Rightarrow>
            if try_later c errno then Some (REDIS_OK, c, io\<lparr>reads := rs\<rparr>)
            else Some (REDIS_ERR, redisSetErrorIO strerr c errno, io\<lparr>reads := rs\<rparr>)
        | InData d # rs \<Rightarrow>
            if length d > 1024 * 16 then None
            else if d = [] then Some (REDIS_ERR, redisSetError c REDIS_ERR_EOF ''Server closed the connection'', io\<lparr>reads := rs\<rparr>)
            else do {
              (ok, r) \<leftarrow> redisReaderFeed a (creader c) d;
              let c = c\<lparr>creader := r\<rparr>;
              Some (if ok \<noteq> REDIS_OK then (REDIS_ERR, redisSetError c (rerr r) (rerrstr r), io\<lparr>reads := rs\<rparr>)
                    else (REDIS_OK, c, io\<lparr>reads := rs\<rparr>))
            })"

text \<open>The kernel transfers at most \<open>0x7ffff000\<close> bytes per call. The result holds \<open>*done\<close>.\<close>

definition redisBufferWrite :: "allocator \<Rightarrow> (nat \<Rightarrow> string) \<Rightarrow> redisContext \<times> socket_io
    \<Rightarrow> (redis_status \<times> bool \<times> redisContext \<times> socket_io) option" where
  "redisBufferWrite a strerr st =
     (case st of (c, io) \<Rightarrow>
        if cerr c \<noteq> 0 then Some (REDIS_ERR, False, c, io)
        else if sdslen (cobuf c) > 0 then
          (case writes io of
             [] \<Rightarrow> None
           | OutErr errno # ws \<Rightarrow>
               if try_later c errno then Some (REDIS_OK, False, c, io\<lparr>writes := ws\<rparr>)
               else Some (REDIS_ERR, False, redisSetErrorIO strerr c errno, io\<lparr>writes := ws\<rparr>)
           | OutCount n # ws \<Rightarrow>
               if n > min (sdslen (cobuf c)) 0x7ffff000 then None
               else
                 let io = io\<lparr>writes := ws, sent := sent io @ take n (sh_buf (cobuf c))\<rparr>
                 in if n > 0 then
                      if (of_nat n :: 32 word) = of_nat (sdslen (cobuf c)) then
                        map_option (\<lambda>e. (REDIS_OK, sdslen e = 0, c\<lparr>cobuf := e\<rparr>, io)) (sdsempty a)
                      else
                        let b = sdsrange (cobuf c) (int n) (- 1)
                        in Some (REDIS_OK, sdslen b = 0, c\<lparr>cobuf := b\<rparr>, io)
                    else Some (REDIS_OK, False, c, io))
        else Some (REDIS_OK, True, c, io))"

definition redisGetReplyFromReader :: "allocator \<Rightarrow> redisContext
    \<Rightarrow> (redis_status \<times> redisReply option \<times> redisContext) option" where
  "redisGetReplyFromReader a c = do {
     (ok, reply, r) \<leftarrow> redisReaderGetReply a (creader c);
     let c = c\<lparr>creader := r\<rparr>;
     Some (if ok = REDIS_ERR then (REDIS_ERR, None, redisSetError c (rerr r) (rerrstr r)) else (REDIS_OK, reply, c))
   }"

lemma redisBufferWrite_shorter:
  "redisBufferWrite a strerr (c, io) = Some (REDIS_OK, False, c', io') \<Longrightarrow> length (writes io') < length (writes io)"
  by (auto simp: redisBufferWrite_def Let_def split: if_splits list.splits io_out.splits)

lemma redisBufferRead_shorter:
  "redisBufferRead a strerr (c, io) = Some (REDIS_OK, c', io') \<Longrightarrow> length (reads io') < length (reads io)"
  by (auto simp: redisBufferRead_def Let_def split: if_splits list.splits io_in.splits bind_splits)

text \<open>The two loops of \<open>redisGetReply\<close>. Each iteration that goes on uses up an outcome.\<close>

function write_until_done :: "allocator \<Rightarrow> (nat \<Rightarrow> string) \<Rightarrow> redisContext \<times> socket_io
    \<Rightarrow> (redis_status \<times> redisContext \<times> socket_io) option" where
  "write_until_done a strerr (c, io) =
     (case redisBufferWrite a strerr (c, io) of
        None \<Rightarrow> None
      | Some (REDIS_ERR, _, st) \<Rightarrow> Some (REDIS_ERR, st)
      | Some (REDIS_OK, True, st) \<Rightarrow> Some (REDIS_OK, st)
      | Some (REDIS_OK, False, st) \<Rightarrow> write_until_done a strerr st)"
  by pat_completeness auto
termination
  by (relation "measure (\<lambda>(a, strerr, c, io). length (writes io))") (auto dest: redisBufferWrite_shorter)

function read_until_reply :: "allocator \<Rightarrow> (nat \<Rightarrow> string) \<Rightarrow> redisContext \<times> socket_io
    \<Rightarrow> (redis_status \<times> redisReply option \<times> redisContext \<times> socket_io) option" where
  "read_until_reply a strerr (c, io) =
     (case redisBufferRead a strerr (c, io) of
        None \<Rightarrow> None
      | Some (REDIS_ERR, c, io) \<Rightarrow> Some (REDIS_ERR, None, c, io)
      | Some (REDIS_OK, c, io) \<Rightarrow>
          (case redisGetReplyFromReader a c of
             None \<Rightarrow> None
           | Some (REDIS_ERR, _, c) \<Rightarrow> Some (REDIS_ERR, None, c, io)
           | Some (REDIS_OK, Some reply, c) \<Rightarrow> Some (REDIS_OK, Some reply, c, io)
           | Some (REDIS_OK, None, c) \<Rightarrow> read_until_reply a strerr (c, io)))"
  by pat_completeness auto
termination
  by (relation "measure (\<lambda>(a, strerr, c, io). length (reads io))") (auto dest: redisBufferRead_shorter)

declare write_until_done.simps [simp del] read_until_reply.simps [simp del]

definition redisGetReply :: "allocator \<Rightarrow> (nat \<Rightarrow> string) \<Rightarrow> redisContext \<times> socket_io
    \<Rightarrow> (redis_status \<times> redisReply option \<times> redisContext \<times> socket_io) option" where
  "redisGetReply a strerr st =
     (case st of (c, io) \<Rightarrow> do {
        (ok, aux, c) \<leftarrow> redisGetReplyFromReader a c;
        (if ok = REDIS_ERR then Some (REDIS_ERR, None, c, io)
         else if aux = None \<and> blocking c then do {
           (ok, c, io) \<leftarrow> write_until_done a strerr (c, io);
           (if ok = REDIS_ERR then Some (REDIS_ERR, None, c, io) else read_until_reply a strerr (c, io))
         }
         else Some (REDIS_OK, aux, c, io))
      })"

section \<open>Commands\<close>

definition append_command :: "allocator \<Rightarrow> redisContext \<Rightarrow> string \<Rightarrow> redis_status \<times> redisContext" where
  "append_command a c cmd =
     (case sdscatlen a (cobuf c) cmd of
        None \<Rightarrow> (REDIS_ERR, redisSetError c REDIS_ERR_OOM ''Out of memory'')
      | Some newbuf \<Rightarrow> (REDIS_OK, c\<lparr>cobuf := newbuf\<rparr>))"

definition redisAppendFormattedCommand :: "allocator \<Rightarrow> redisContext \<Rightarrow> string \<Rightarrow> redis_status \<times> redisContext" where
  "redisAppendFormattedCommand a c cmd =
     (case append_command a c cmd of (ok, c) \<Rightarrow> if ok \<noteq> REDIS_OK then (REDIS_ERR, c) else (REDIS_OK, c))"

definition redisvAppendCommand :: "allocator \<Rightarrow> (string \<Rightarrow> vararg \<Rightarrow> string) \<Rightarrow> redisContext \<Rightarrow> string
    \<Rightarrow> vararg list \<Rightarrow> (redis_status \<times> redisContext) option" where
  "redisvAppendCommand a conv c format ap = do {
     r \<leftarrow> redisvFormatCommand a conv format ap;
     Some (case r of
       FmtMemErr \<Rightarrow> (REDIS_ERR, redisSetError c REDIS_ERR_OOM ''Out of memory'')
     | FmtInvalid \<Rightarrow> (REDIS_ERR, redisSetError c REDIS_ERR_OTHER ''Invalid format string'')
     | FmtOk cmd \<Rightarrow> append_command a c cmd)
   }"

text \<open>The length that reaches \<open>sdscatlen\<close> is the returned \<open>int\<close>, sign-extended to \<open>size_t\<close>; a
  command whose size does not fit is read past its end.\<close>

definition redisAppendCommandArgv :: "allocator \<Rightarrow> redisContext \<Rightarrow> (string \<times> nat option) list
    \<Rightarrow> (redis_status \<times> redisContext) option" where
  "redisAppendCommandArgv a c argv = do {
     r \<leftarrow> redisFormatSdsCommandArgv a argv;
     (case r of
        None \<Rightarrow> Some (REDIS_ERR, redisSetError c REDIS_ERR_OOM ''Out of memory'')
      | Some (cmd, len) \<Rightarrow>
          if len = - 1 then Some (REDIS_ERR, redisSetError c REDIS_ERR_OOM ''Out of memory'')
          else
            let n = unat (scast len :: 64 word)
            in if n > length (sh_buf cmd) then None else Some (append_command a c (take n (sh_buf cmd))))
   }"

definition redisBlockForReply :: "allocator \<Rightarrow> (nat \<Rightarrow> string) \<Rightarrow> redisContext \<times> socket_io
    \<Rightarrow> (redisReply option \<times> redisContext \<times> socket_io) option" where
  "redisBlockForReply a strerr st =
     (case st of (c, io) \<Rightarrow>
        if blocking c then do {
          (ok, reply, c, io) \<leftarrow> redisGetReply a strerr (c, io);
          Some (if ok \<noteq> REDIS_OK then (None, c, io) else (reply, c, io))
        }
        else Some (None, c, io))"

definition redisvCommand :: "allocator \<Rightarrow> (nat \<Rightarrow> string) \<Rightarrow> (string \<Rightarrow> vararg \<Rightarrow> string)
    \<Rightarrow> redisContext \<times> socket_io \<Rightarrow> string \<Rightarrow> vararg list \<Rightarrow> (redisReply option \<times> redisContext \<times> socket_io) option" where
  "redisvCommand a strerr conv st format ap =
     (case st of (c, io) \<Rightarrow> do {
        (ok, c) \<leftarrow> redisvAppendCommand a conv c format ap;
        (if ok \<noteq> REDIS_OK then Some (None, c, io) else redisBlockForReply a strerr (c, io))
      })"

definition redisCommandArgv :: "allocator \<Rightarrow> (nat \<Rightarrow> string) \<Rightarrow> redisContext \<times> socket_io
    \<Rightarrow> (string \<times> nat option) list \<Rightarrow> (redisReply option \<times> redisContext \<times> socket_io) option" where
  "redisCommandArgv a strerr st argv =
     (case st of (c, io) \<Rightarrow> do {
        (ok, c) \<leftarrow> redisAppendCommandArgv a c argv;
        (if ok \<noteq> REDIS_OK then Some (None, c, io) else redisBlockForReply a strerr (c, io))
      })"

section \<open>A reader between replies\<close>

text \<open>Between two replies the reader is idle, or it has already started a root task for the next one; at most 1023 bytes before
  the cursor are kept.\<close>

definition reader_ready :: "redisReader \<Rightarrow> bool" where
  "reader_ready r \<longleftrightarrow> reader_wf r \<and> rpos r < 1024 \<and> rreply r = None \<and> (ridx r = - 1 \<or> ridx r = 0 \<and> rstack r ! 0 =
     \<lparr>ttype = - 1, telements = - 1, tidx = - 1, tobj = None, tparent = None\<rparr>)"

lemma reader_ready_idle: "reader_ready r \<Longrightarrow> reader_idle (r\<lparr>ridx := - 1\<rparr>)"
  by (auto simp: reader_ready_def reader_idle_def reader_wf_def)

lemma unread_ridx [simp]: "unread (r\<lparr>ridx := i\<rparr>) = unread r"
  by (simp add: unread_def split: option.split)

lemma discard_consumed_frame: "discard_consumed r = Some q \<Longrightarrow> rstack q = rstack r \<and> rerr q = rerr r \<and> rpos q < 1024"
  by (auto simp: discard_consumed_def Let_def split: if_splits bind_splits)

lemma get_reply_pos: "redisReaderGetReply a r = Some (REDIS_OK, Some v, r') \<Longrightarrow> rpos r' < 1024"
  by (auto simp: redisReaderGetReply_def Let_def dest: discard_consumed_frame split: if_splits bind_splits)

lemma ready_get_reply:
  assumes "reader_ready r" "rlen r \<noteq> 0"
  shows "redisReaderGetReply a r = redisReaderGetReply a (r\<lparr>ridx := - 1\<rparr>)"
proof (cases "ridx r = - 1")
  case False
  then have "(rstack r)[0 := \<lparr>ttype = - 1, telements = - 1, tidx = - 1, tobj = None, tparent = None\<rparr>] = rstack r"
    "ridx r = 0" using assms(1) by (auto simp: reader_ready_def list_update_same_conv reader_wf_def)
  then have "r\<lparr>rstack := (rstack r)[0 := \<lparr>ttype = - 1, telements = - 1, tidx = - 1, tobj = None, tparent = None\<rparr>],
      ridx := 0\<rparr> = r" by simp
  then show ?thesis using assms \<open>ridx r = 0\<close> by (simp add: redisReaderGetReply_def Let_def reader_ready_def reader_wf_def)
next
  case True
  then have "r\<lparr>ridx := - 1\<rparr> = r" by simp
  then show ?thesis by simp
qed

lemma ready_reads:
  assumes "reader_ready r" "unread r = enc t @ rest" "resp_ok t" "depth t \<le> 8" "\<And>n. can_alloc a n"
  shows "\<exists>r'. redisReaderGetReply a r = Some (REDIS_OK, Some (reply_of t), r') \<and> reader_ready r' \<and> unread r' = rest"
proof -
  have "enc t \<noteq> []" by (cases t) simp_all
  then have "0 < length (unread r)" using assms(2) by simp
  moreover have "reader_wf r" using assms(1) by (simp add: reader_ready_def)
  ultimately have "rlen r \<noteq> 0" using length_unread [of r] by linarith
  then have g: "redisReaderGetReply a r = redisReaderGetReply a (r\<lparr>ridx := - 1\<rparr>)" by (rule ready_get_reply [OF assms(1)])
  obtain r' where r': "redisReaderGetReply a (r\<lparr>ridx := - 1\<rparr>) = Some (REDIS_OK, Some (reply_of t), r')" "reader_idle r'"
    "unread r' = rest"
    using get_reply_reads [OF reader_ready_idle [OF assms(1)], of t rest a] assms by auto
  then have "rpos r' < 1024" using get_reply_pos by blast
  with r' g show ?thesis by (auto simp: reader_ready_def reader_idle_def)
qed

lemma ready_waits:
  assumes "reader_ready r" "unread r = []"
  shows "\<exists>r'. redisReaderGetReply a r = Some (REDIS_OK, None, r') \<and> reader_ready r' \<and> unread r' = []"
proof (cases "rlen r = 0")
  case True
  then show ?thesis using assms by (auto simp: redisReaderGetReply_def reader_ready_def reader_wf_def)
next
  case False
  let ?r = "r\<lparr>rstack := (rstack r)[0 := \<lparr>ttype = - 1, telements = - 1, tidx = - 1, tobj = None, tparent = None\<rparr>],
      ridx := 0\<rparr>"
  have wf: "reader_wf r" "rerr r = 0" "rreply r = None" using assms(1) by (auto simp: reader_ready_def reader_wf_def)
  then have wf': "reader_wf ?r" by (auto simp: reader_wf_def)
  have "rlen ?r - rpos ?r = 0" using length_unread [OF wf(1)] assms(2) by simp
  then have "processItem a ?r = Some (REDIS_ERR, ?r)"
    using wf(1) by (simp add: processItem_def cur_task_def readBytes_def reader_wf_def)
  then have p: "process_items a ?r = Some ?r" by (simp add: process_items.simps [of a ?r])
  obtain q where q: "discard_consumed ?r = Some q" "reader_wf q" "unread q = unread ?r" "ridx q = ridx ?r"
    "rreply q = rreply ?r" by (rule discard_consumed_idle [OF wf'])
  have fq: "rstack q = rstack ?r" "rpos q < 1024" using discard_consumed_frame [OF q(1)] by simp_all
  have "redisReaderGetReply a r = Some (REDIS_OK, None, q)"
    using ready_get_reply [OF assms(1) False, of a] wf(2) False p q by (simp add: redisReaderGetReply_def Let_def wf(3))
  moreover have "unread q = []" using q(3) assms(2) by (simp add: unread_def split: option.splits)
  moreover have "reader_ready q" using q fq wf by (simp add: reader_ready_def reader_wf_def)
  ultimately show ?thesis by blast
qed

lemma ready_feed:
  assumes "reader_ready r" "unread r = []" "d \<noteq> []" "\<And>n. can_alloc a n" "length d \<le> 1024 * 16"
  shows "\<exists>r'. redisReaderFeed a r d = Some (REDIS_OK, r') \<and> reader_ready r' \<and> unread r' = d"
proof -
  obtain b where b: "rbuf r = Some b" "sds_wf b" "rlen r = sh_len b" "rpos r \<le> sh_len b" "rpos r < 1024"
    "sdsAllocSize b < 2 ^ 31"
    using assms(1) by (auto simp: reader_ready_def reader_wf_def)
  obtain e where e: "sdsempty a = Some e" "sds_wf e" "content e = []"
    using yields_alloc [OF sdsempty_yields assms(4)] by blast
  have le: "sh_len e = 0" using e length_content [of e] by (simp add: sds_wf_def)
  have lb: "length (content b) = sh_len b" using b(2) length_content [of b] by (simp add: sds_wf_def)
  have app: "redisReaderFeed a r d = Some (REDIS_OK, q\<lparr>rbuf := Some s, rlen := sdslen s\<rparr>)"
    if "(if rlen r = 0 \<and> rmaxbuf r \<noteq> 0 \<and> sdsavail b > rmaxbuf r
         then map_option (\<lambda>e. (r\<lparr>rbuf := Some e, rpos := 0\<rparr>, e)) (sdsempty a) else Some (r, b)) = Some (q, b')"
      "sdscatlen a b' d = Some s" for q b' s
  proof -
    have "rerr r = 0" "length d \<ge> 1" using assms(1,3) by (auto simp: reader_ready_def reader_wf_def Suc_le_eq)
    then show ?thesis unfolding redisReaderFeed_def b(1) bind.simps that(1) by (simp add: that(2))
  qed
  have res: "reader_ready (q\<lparr>rbuf := Some s, rlen := sdslen s\<rparr>) \<and> unread (q\<lparr>rbuf := Some s, rlen := sdslen s\<rparr>) = d"
    if "q = r\<lparr>rbuf := x, rpos := p\<rparr>" "sds_wf s" "content s = c @ d" "length c = p" "p < 1024" "sdsAllocSize s < 2 ^ 31" for q x p c s
  proof -
    have "sh_len s = length c + length d" using that(2,3) length_content [of s] by (simp add: sds_wf_def)
    then show ?thesis using that assms(1) by (simp add: reader_ready_def reader_wf_def unread_def sdslen_def)
  qed
  show ?thesis
  proof (cases "rlen r = 0 \<and> rmaxbuf r \<noteq> 0 \<and> sdsavail b > rmaxbuf r")
    case True
    have ea: "sdsAllocSize e < 2 ^ 31"
      using e(1) by (auto simp: sdsempty_def sdsnewlen_def Let_def sdsAllocSize_def sizeof_sdshdr_def split: if_splits)
    obtain s where s: "sdscatlen a e d = Some s" "sds_wf s" "content s = d" "sdsAllocSize s < 2 ^ 31"
      using append_small [OF assms(4) e(2) ea, of d] e(3) le assms(5) by auto
    have "redisReaderFeed a r d = Some (REDIS_OK, (r\<lparr>rbuf := Some e, rpos := 0\<rparr>)\<lparr>rbuf := Some s, rlen := sdslen s\<rparr>)"
      by (rule app [OF _ s(1)]) (use True e(1) in simp)
    with res [where x = "Some e" and p = 0 and c = "[]", OF refl s(2)] s(3,4) show ?thesis by auto
  next
    case False
    have rp: "rpos r = length (content b)"
      using assms(1,2) lb b length_unread [of r] by (simp add: reader_ready_def)
    then have "sh_len b < 1024" using b(5) lb by simp
    then obtain s where s: "sdscatlen a b d = Some s" "sds_wf s" "content s = content b @ d" "sdsAllocSize s < 2 ^ 31"
      using append_small [OF assms(4) b(2,6), of d] assms(5) by auto
    have "reader_ready (r\<lparr>rbuf := Some s, rlen := sdslen s\<rparr>) \<and> unread (r\<lparr>rbuf := Some s, rlen := sdslen s\<rparr>) = d"
      by (intro res [where x = "rbuf r" and p = "rpos r" and c = "content b"] s) (simp_all add: rp [symmetric] b(5))
    moreover have "redisReaderFeed a r d = Some (REDIS_OK, r\<lparr>rbuf := Some s, rlen := sdslen s\<rparr>)"
      by (rule app [OF _ s(1)]) (simp only: False if_False)
    ultimately show ?thesis by blast
  qed
qed

section \<open>What reaches the socket\<close>

text \<open>The operations of a client with respect to its output, and the bytes they append.\<close>

datatype client_op = Append string | Flush

fun client_run :: "allocator \<Rightarrow> (nat \<Rightarrow> string) \<Rightarrow> client_op list \<Rightarrow> redisContext \<times> socket_io
    \<Rightarrow> (redisContext \<times> socket_io) option" where
  "client_run a strerr [] st = Some st"
| "client_run a strerr (Append cmd # ops) (c, io) =
     client_run a strerr ops (snd (redisAppendFormattedCommand a c cmd), io)"
| "client_run a strerr (Flush # ops) (c, io) = do {
     (ok, done, c, io) \<leftarrow> redisBufferWrite a strerr (c, io);
     client_run a strerr ops (c, io)
   }"

fun appended :: "client_op list \<Rightarrow> string" where
  "appended [] = []"
| "appended (Append cmd # ops) = cmd @ appended ops"
| "appended (Flush # ops) = appended ops"

lemma append_command_ok:
  assumes "sds_wf (cobuf c)" "\<And>n. can_alloc a n"
  shows "\<exists>b. append_command a c cmd = (REDIS_OK, c\<lparr>cobuf := b\<rparr>) \<and> sds_wf b \<and> content b = content (cobuf c) @ cmd"
  using yields_alloc [OF sdscatlen_yields [OF assms(1)] assms(2), of cmd] by (auto simp: append_command_def)

lemma of_nat_word_inj: "x < 2 ^ LENGTH('w) \<Longrightarrow> y < 2 ^ LENGTH('w) \<Longrightarrow> (of_nat x :: 'w::len word) = of_nat y \<longleftrightarrow> x = y"
  by (simp add: word_unat_eq_iff unat_of_nat)

lemma BufferWrite_conserves:
  assumes "redisBufferWrite a strerr (c, io) = Some (ok, done, c', io')" "sds_wf (cobuf c)"
    and "length (content (cobuf c)) < 2 ^ 32" "\<And>n. can_alloc a n"
  shows "sds_wf (cobuf c') \<and> sent io' @ content (cobuf c') = sent io @ content (cobuf c)"
proof -
  have l: "length (content (cobuf c)) = sh_len (cobuf c)" using assms(2) length_content by (simp add: sds_wf_def)
  have t: "take n (sh_buf (cobuf c)) = take n (content (cobuf c))" if "n \<le> sh_len (cobuf c)" for n
    using that by (simp add: content_def min_def)
  have drop: "sds_wf (sdsrange (cobuf c) (int n) (- 1)) \<and> content (sdsrange (cobuf c) (int n) (- 1)) = drop n (content (cobuf c))"
    if "0 < n" "n < sh_len (cobuf c)" for n
    using sdsrange_slice [OF assms(2), of "int n" "- 1"] that l
    by (simp add: slice_spec_def clamp_index_def subrange_def nat_diff_distrib')
  obtain e where e: "sdsempty a = Some e" "sds_wf e" "content e = []"
    using yields_alloc [OF sdsempty_yields assms(4)] by blast
  have "of_nat n = (of_nat (sh_len (cobuf c)) :: 32 word) \<longleftrightarrow> n = sh_len (cobuf c)" if "n \<le> sh_len (cobuf c)" for n
    using of_nat_word_inj [where 'w = 32, of n "sh_len (cobuf c)"] that assms(3) l by simp
  note eq = this
  show ?thesis
    using assms(1,2) e l drop
    by (auto simp: redisBufferWrite_def Let_def sdslen_def redisSetErrorIO_def eq t
        split: if_splits list.splits io_out.splits simp del: of_nat_eq_iff)
qed

lemma client_run_conserves:
  assumes mem: "\<And>n. can_alloc a n"
  shows "client_run a strerr ops (c, io) = Some (c', io') \<Longrightarrow> sds_wf (cobuf c) \<Longrightarrow>
    length (content (cobuf c) @ appended ops) < 2 ^ 32 \<Longrightarrow>
    sds_wf (cobuf c') \<and> sent io' @ content (cobuf c') = sent io @ content (cobuf c) @ appended ops"
proof (induction ops arbitrary: c io)
  case (Cons op ops)
  show ?case
  proof (cases op)
    case (Append cmd)
    obtain b where b: "append_command a c cmd = (REDIS_OK, c\<lparr>cobuf := b\<rparr>)" "sds_wf b" "content b = content (cobuf c) @ cmd"
      using append_command_ok [OF Cons.prems(2) mem] by blast
    with Cons.IH [of "c\<lparr>cobuf := b\<rparr>" io] Cons.prems Append show ?thesis
      by (simp add: redisAppendFormattedCommand_def)
  next
    case Flush
    with Cons.prems(1) obtain ok fin c1 io1 where w: "redisBufferWrite a strerr (c, io) = Some (ok, fin, c1, io1)"
      and r: "client_run a strerr ops (c1, io1) = Some (c', io')" by (auto split: bind_splits)
    have "length (content (cobuf c)) < 2 ^ 32" using Cons.prems(3) by simp
    from BufferWrite_conserves [OF w Cons.prems(2) this mem] have
      k: "sds_wf (cobuf c1)" "sent io1 @ content (cobuf c1) = sent io @ content (cobuf c)" by blast+
    have "length (sent io1) \<ge> length (sent io)"
      using w by (auto simp: redisBufferWrite_def Let_def split: if_splits list.splits io_out.splits)
    with arg_cong [OF k(2), of length] have "length (content (cobuf c1)) \<le> length (content (cobuf c))" by simp
    with Cons.IH [OF r k(1)] Cons.prems(3) k(2) Flush show ?thesis by (simp flip: append_assoc)
  qed
qed simp

text \<open>Output is neither lost, duplicated nor reordered. In every run of appended commands and
  calls of \<open>redisBufferWrite\<close>, whatever part of the buffer each \<open>write\<close> accepted and however it
  failed, the bytes written to the socket followed by the bytes still buffered are the bytes
  appended, in order.\<close>

theorem output_is_conserved:
  assumes "\<And>n. can_alloc a n" "client_run a strerr ops (c, io) = Some (c', io')" "sds_wf (cobuf c)"
    and "length (content (cobuf c) @ appended ops) < 2 ^ 32"
  shows "sent io' @ content (cobuf c') = sent io @ content (cobuf c) @ appended ops"
  using client_run_conserves [OF assms] by blast

definition sample_client :: redisContext where
  "sample_client = \<lparr>cerr = 0, cerrstr = [], cfd = 3, cflags = REDIS_BLOCK, cobuf = \<lparr>sh_len = 0, sh_free = 0, sh_buf = [NUL]\<rparr>,
     creader = \<lparr>rerr = 0, rerrstr = [], rbuf = Some \<lparr>sh_len = 0, sh_free = 0, sh_buf = [NUL]\<rparr>, rpos = 0, rlen = 0,
       rmaxbuf = REDIS_READER_MAX_BUF, rstack = replicate 9 blank_task, ridx = - 1, rreply = None, rfn = True\<rparr>\<rparr>"

theorem output_is_conserved_witness:
  "\<exists>c' io'. client_run \<lparr>can_alloc = \<lambda>n. True, fresh = \<lambda>i. CHR ''?''\<rparr> (\<lambda>e. ''error'')
      [Append ''abc'', Flush, Append ''de'', Flush, Flush]
      (sample_client, \<lparr>reads = [], writes = [OutCount 2, OutErr EINTR, OutCount 1], sent = []\<rparr>) = Some (c', io') \<and>
    sent io' = ''abc'' \<and> sent io' @ content (cobuf c') = ''abcde''"
proof -
  let ?a = "\<lparr>can_alloc = \<lambda>n. True, fresh = \<lambda>i. CHR ''?''\<rparr>"
  let ?ops = "[Append ''abc'', Flush, Append ''de'', Flush, Flush]"
  let ?io = "\<lparr>reads = [], writes = [OutCount 2, OutErr EINTR, OutCount 1], sent = []\<rparr> :: socket_io"
  have "map_option (\<lambda>st. sent (snd st)) (client_run ?a (\<lambda>e. ''error'') ?ops (sample_client, ?io)) = Some ''abc''"
    by code_simp
  then obtain c' io' where r: "client_run ?a (\<lambda>e. ''error'') ?ops (sample_client, ?io) = Some (c', io')" "sent io' = ''abc''"
    by auto
  have "sent io' @ content (cobuf c') = sent ?io @ content (cobuf sample_client) @ appended ?ops"
    by (rule output_is_conserved [OF _ r(1)]) (simp_all add: sample_client_def sds_wf_def sds_open_def content_def)
  with r show ?thesis by (simp add: sample_client_def content_def)
qed

section \<open>A command and its reply\<close>

text \<open>Outcomes of \<open>write\<close> that send \<open>n\<close> pending bytes: interruptions and partial writes.\<close>

fun accepts :: "nat \<Rightarrow> io_out list \<Rightarrow> bool" where
  "accepts n [] \<longleftrightarrow> n = 0"
| "accepts n (OutErr e # ws) \<longleftrightarrow> 0 < n \<and> e = EINTR \<and> accepts n ws"
| "accepts n (OutCount k # ws) \<longleftrightarrow> 0 < n \<and> k \<le> n \<and> k \<le> 0x7ffff000 \<and> accepts (n - k) ws"

lemma BufferWrite_accepts:
  assumes mem: "\<And>n. can_alloc a n" and wf: "sds_wf (cobuf c)" "cerr c = 0"
    and acc: "accepts (length (content (cobuf c))) (w # ws)" "writes io = w # ws"
    and small: "length (content (cobuf c)) < 2 ^ 32"
  shows "\<exists>b io'. redisBufferWrite a strerr (c, io) = Some (REDIS_OK, content b = [], c\<lparr>cobuf := b\<rparr>, io') \<and> sds_wf b \<and>
    sent io' @ content b = sent io @ content (cobuf c) \<and> writes io' = ws \<and> reads io' = reads io \<and>
    accepts (length (content b)) ws \<and> length (content b) \<le> length (content (cobuf c))"
proof -
  let ?n = "length (content (cobuf c))"
  have l: "?n = sh_len (cobuf c)" using wf(1) length_content by (simp add: sds_wf_def)
  have pos: "0 < ?n" using acc(1) by (cases w) simp_all
  have fin: "sdslen b = 0 \<longleftrightarrow> content b = []" if "sds_wf b" for b
    using that length_content [of b] by (auto simp: sdslen_def sds_wf_def)
  show ?thesis
  proof (cases w)
    case (OutErr e)
    then show ?thesis using acc pos wf l
      by (intro exI [of _ "cobuf c"]) (auto simp: redisBufferWrite_def sdslen_def try_later_def)
  next
    case (OutCount k)
    obtain e where e: "sdsempty a = Some e" "sds_wf e" "content e = []"
      using yields_alloc [OF sdsempty_yields mem] by blast
    let ?io = "io\<lparr>writes := ws, sent := sent io @ take k (content (cobuf c))\<rparr>"
    have k: "k \<le> ?n" "k \<le> 0x7ffff000" "accepts (?n - k) ws" using OutCount acc(1) by simp_all
    have t: "take k (sh_buf (cobuf c)) = take k (content (cobuf c))" using k(1) l by (simp add: content_def min_def)
    have eq: "(of_nat k :: 32 word) = of_nat ?n \<longleftrightarrow> k = ?n"
      using of_nat_word_inj [where 'w = 32, of k ?n] k(1) small by simp
    consider "k = 0" | "0 < k" "k < ?n" | "k = ?n" using k(1) by linarith
    then show ?thesis
    proof cases
      case 1
      then show ?thesis using OutCount acc pos wf l
        by (intro exI [of _ "cobuf c"]) (auto simp: redisBufferWrite_def sdslen_def Let_def)
    next
      case 2
      let ?b = "sdsrange (cobuf c) (int k) (- 1)"
      have b: "sds_wf ?b" "content ?b = drop k (content (cobuf c))"
        using sdsrange_slice [OF wf(1), of "int k" "- 1"] 2
        by (simp_all add: slice_spec_def clamp_index_def subrange_def nat_diff_distrib')
      have "redisBufferWrite a strerr (c, io) = Some (REDIS_OK, content ?b = [], c\<lparr>cobuf := ?b\<rparr>, ?io)"
        using OutCount acc(2) pos wf l k 2 eq fin [OF b(1)] t by (simp add: redisBufferWrite_def sdslen_def Let_def)
      then show ?thesis using b k(3) by auto
    next
      case 3
      have "redisBufferWrite a strerr (c, io) = Some (REDIS_OK, content e = [], c\<lparr>cobuf := e\<rparr>, ?io)"
        using OutCount acc(2) pos wf l k 3 eq fin [OF e(2)] t e(1) by (simp add: redisBufferWrite_def sdslen_def Let_def)
      then show ?thesis using e k(3) 3 by auto
    qed
  qed
qed

lemma write_until_done_accepts:
  assumes mem: "\<And>n. can_alloc a n"
  shows "sds_wf (cobuf c) \<Longrightarrow> cerr c = 0 \<Longrightarrow> accepts (length (content (cobuf c))) (writes io) \<Longrightarrow>
    length (content (cobuf c)) < 2 ^ 32 \<Longrightarrow>
    \<exists>b io'. write_until_done a strerr (c, io) = Some (REDIS_OK, c\<lparr>cobuf := b\<rparr>, io') \<and> sds_wf b \<and> content b = [] \<and>
      sent io' = sent io @ content (cobuf c) \<and> reads io' = reads io"
proof (induction "writes io" arbitrary: c io)
  case Nil
  then have z: "content (cobuf c) = []" by simp
  then have "sdslen (cobuf c) = 0" using Nil.prems(1) length_content [of "cobuf c"] by (simp add: sdslen_def sds_wf_def)
  then show ?case using Nil.prems z
    by (subst write_until_done.simps) (auto simp: redisBufferWrite_def intro!: exI [of _ "cobuf c"])
next
  case (Cons w ws)
  obtain b io1 where w: "redisBufferWrite a strerr (c, io) = Some (REDIS_OK, content b = [], c\<lparr>cobuf := b\<rparr>, io1)"
    "sds_wf b" "sent io1 @ content b = sent io @ content (cobuf c)" "writes io1 = ws" "reads io1 = reads io"
    "accepts (length (content b)) ws" "length (content b) \<le> length (content (cobuf c))"
    using BufferWrite_accepts [OF mem Cons.prems(1,2), of w ws io strerr] Cons.prems(3,4) Cons.hyps(2) by metis
  show ?case
  proof (cases "content b = []")
    case True
    with w show ?thesis by (subst write_until_done.simps) auto
  next
    case False
    have "length (content b) < 2 ^ 32" using w(7) Cons.prems(4) by simp
    with Cons.hyps(1) [of io1 "c\<lparr>cobuf := b\<rparr>"] w Cons.prems(2) False show ?thesis
      by (subst write_until_done.simps) auto
  qed
qed

lemma read_until_reply_reads:
  assumes mem: "\<And>n. can_alloc a n" and t: "resp_ok t" "depth t \<le> 8" "length (enc t) \<le> 1024 * 16"
  shows "cerr c = 0 \<Longrightarrow> reader_ready (creader c) \<Longrightarrow> unread (creader c) = [] \<Longrightarrow>
    reads io = replicate k (InErr EINTR) @ InData (enc t) # rs \<Longrightarrow>
    \<exists>r io'. read_until_reply a strerr (c, io) = Some (REDIS_OK, Some (reply_of t), c\<lparr>creader := r\<rparr>, io') \<and>
      reader_ready r \<and> unread r = [] \<and> reads io' = rs \<and> sent io' = sent io"
proof (induction k arbitrary: c io)
  case 0
  have ne: "enc t \<noteq> []" by (cases t) simp_all
  obtain r where r: "redisReaderFeed a (creader c) (enc t) = Some (REDIS_OK, r)" "reader_ready r" "unread r = enc t"
    using ready_feed [OF 0(2,3) ne mem t(3)] by blast
  obtain r' where r': "redisReaderGetReply a r = Some (REDIS_OK, Some (reply_of t), r')" "reader_ready r'" "unread r' = []"
    using ready_reads [OF r(2) _ t(1,2) mem, of "[]"] r(3) by auto
  have "redisBufferRead a strerr (c, io) = Some (REDIS_OK, c\<lparr>creader := r\<rparr>, io\<lparr>reads := rs\<rparr>)"
    using 0(1,4) t(3) ne r(1) by (simp add: redisBufferRead_def)
  then show ?case using r' by (subst read_until_reply.simps) (auto simp: redisGetReplyFromReader_def)
next
  case (Suc k)
  let ?io = "io\<lparr>reads := replicate k (InErr EINTR) @ InData (enc t) # rs\<rparr>"
  obtain r where r: "redisReaderGetReply a (creader c) = Some (REDIS_OK, None, r)" "reader_ready r" "unread r = []"
    using ready_waits [OF Suc.prems(2,3)] by blast
  have "redisBufferRead a strerr (c, io) = Some (REDIS_OK, c, ?io)"
    using Suc.prems(1,4) by (simp add: redisBufferRead_def try_later_def)
  then have "read_until_reply a strerr (c, io) = read_until_reply a strerr (c\<lparr>creader := r\<rparr>, ?io)"
    using r(1) by (subst read_until_reply.simps) (simp add: redisGetReplyFromReader_def)
  with Suc.IH [of "c\<lparr>creader := r\<rparr>" ?io] Suc.prems(1) r(2,3) show ?case by auto
qed

text \<open>A connection on which nothing is pending in either direction.\<close>

definition quiet :: "redisContext \<Rightarrow> bool" where
  "quiet c \<longleftrightarrow> cerr c = 0 \<and> blocking c \<and> sds_wf (cobuf c) \<and> content (cobuf c) = [] \<and>
     reader_ready (creader c) \<and> unread (creader c) = []"

lemma append_argv_ok:
  assumes mem: "\<And>n. can_alloc a n" and "sds_wf (cobuf c)"
    and small: "length (wire_command (map arg_bytes argv)) < 2 ^ 31"
  shows "\<exists>b. redisAppendCommandArgv a c argv = Some (REDIS_OK, c\<lparr>cobuf := b\<rparr>) \<and> sds_wf b \<and>
    content b = content (cobuf c) @ wire_command (map arg_bytes argv)"
proof -
  let ?w = "wire_command (map arg_bytes argv)"
  obtain s where s: "redisFormatSdsCommandArgv a argv = Some (Some (s, of_nat (length ?w)))" "sds_wf s" "content s = ?w"
    using format_sds_wire [OF mem small] by blast
  have "length (content s) = sh_len s" "sh_len s < length (sh_buf s)"
    using s(2) length_content [of s] by (simp_all add: sds_wf_def sds_open_def)
  then have l: "length ?w = sh_len s" "length ?w < length (sh_buf s)" "take (length ?w) (sh_buf s) = ?w"
    by (simp_all only: s(3) [symmetric]) (simp only: content_def)
  have n: "sint (of_nat (length ?w) :: 32 word) = int (length ?w)"
    using small by (simp add: signed_of_nat signed_take_bit_int_eq_self)
  then have "(scast (of_nat (length ?w) :: 32 word) :: 64 word) = of_nat (length ?w)" by (simp add: scast_eq)
  moreover have "unat (of_nat (length ?w) :: 64 word) = length ?w"
    using small by (simp only: unat_of_nat) simp
  ultimately have u: "unat (scast (of_nat (length ?w) :: 32 word) :: 64 word) = length ?w" by simp
  have "(of_nat (length ?w) :: 32 word) \<noteq> - 1"
  proof
    assume "(of_nat (length ?w) :: 32 word) = - 1"
    then have "sint (of_nat (length ?w) :: 32 word) = - 1" by simp
    then show False using n by simp
  qed
  with append_command_ok [OF assms(2) mem, of ?w] s(1) u l(2,3) show ?thesis
    by (auto simp: redisAppendCommandArgv_def Let_def)
qed

lemma command_gets_reply:
  assumes mem: "\<And>n. can_alloc a n" and q: "quiet c"
    and small: "length (wire_command (map arg_bytes argv)) < 2 ^ 31"
    and w: "accepts (length (wire_command (map arg_bytes argv))) (writes io)"
    and t: "resp_ok t" "depth t \<le> 8" "length (enc t) \<le> 1024 * 16"
    and rd: "reads io = replicate k (InErr EINTR) @ InData (enc t) # rs"
  shows "\<exists>c' io'. redisCommandArgv a strerr (c, io) argv = Some (Some (reply_of t), c', io') \<and> quiet c' \<and>
    sent io' = sent io @ wire_command (map arg_bytes argv) \<and> reads io' = rs"
proof -
  let ?w = "wire_command (map arg_bytes argv)"
  have c: "cerr c = 0" "blocking c" "sds_wf (cobuf c)" "content (cobuf c) = []" "reader_ready (creader c)"
    "unread (creader c) = []" using q by (simp_all add: quiet_def)
  obtain b where b: "redisAppendCommandArgv a c argv = Some (REDIS_OK, c\<lparr>cobuf := b\<rparr>)" "sds_wf b" "content b = ?w"
    using append_argv_ok [OF mem c(3) small] c(4) by auto
  obtain r where r: "redisReaderGetReply a (creader c) = Some (REDIS_OK, None, r)" "reader_ready r" "unread r = []"
    using ready_waits [OF c(5,6)] by blast
  let ?c1 = "c\<lparr>cobuf := b, creader := r\<rparr>"
  have "sds_wf (cobuf ?c1)" "cerr ?c1 = 0" "accepts (length (content (cobuf ?c1))) (writes io)"
    "length (content (cobuf ?c1)) < 2 ^ 32" using b c w small by simp_all
  from write_until_done_accepts [OF mem this, of strerr] b(3) obtain b' io1 where
    wd: "write_until_done a strerr (?c1, io) = Some (REDIS_OK, ?c1\<lparr>cobuf := b'\<rparr>, io1)" "sds_wf b'" "content b' = []"
      "sent io1 = sent io @ ?w" "reads io1 = reads io" by auto
  let ?c2 = "?c1\<lparr>cobuf := b'\<rparr>"
  have "cerr ?c2 = 0" "reader_ready (creader ?c2)" "unread (creader ?c2) = []"
    "reads io1 = replicate k (InErr EINTR) @ InData (enc t) # rs" using c(1) r wd(5) rd by simp_all
  from read_until_reply_reads [OF mem t this, of strerr] obtain r' io2 where
    rr: "read_until_reply a strerr (?c2, io1) = Some (REDIS_OK, Some (reply_of t), ?c2\<lparr>creader := r'\<rparr>, io2)"
      "reader_ready r'" "unread r' = []" "reads io2 = rs" "sent io2 = sent io1" by blast
  have bl: "blocking (c\<lparr>cobuf := b\<rparr>)" "blocking (c\<lparr>cobuf := b, creader := r\<rparr>)" "blocking (?c2\<lparr>creader := r'\<rparr>)"
    using c(2) by (simp_all add: blocking_def)
  have "redisGetReply a strerr (c\<lparr>cobuf := b\<rparr>, io) = Some (REDIS_OK, Some (reply_of t), ?c2\<lparr>creader := r'\<rparr>, io2)"
    using r(1) bl(2) wd(1) rr(1) by (simp add: redisGetReply_def redisGetReplyFromReader_def)
  then have "redisCommandArgv a strerr (c, io) argv = Some (Some (reply_of t), ?c2\<lparr>creader := r'\<rparr>, io2)"
    using b(1) bl(1) by (simp add: redisCommandArgv_def redisBlockForReply_def)
  moreover have "quiet (?c2\<lparr>creader := r'\<rparr>)" using c(1) bl(3) wd(2,3) rr(2,3) by (simp add: quiet_def)
  ultimately show ?thesis using wd(4) rr(4,5) by auto
qed

text \<open>On a quiet blocking connection a command is answered. However the operating system splits
  or interrupts the writes, and however often the read is interrupted before the reply arrives,
  \<open>redisCommandArgv\<close> sends exactly the encoded command, returns the server's reply, and leaves the
  connection quiet, so that the next command can follow.\<close>

theorem command_is_answered:
  assumes "\<And>n. can_alloc a n" "quiet c"
    and "length (enc (Arr (map (Bulk \<circ> arg_bytes) argv))) < 2 ^ 31"
    and "accepts (length (enc (Arr (map (Bulk \<circ> arg_bytes) argv)))) (writes io)"
    and "resp_ok t" "depth t \<le> 8" "length (enc t) \<le> 1024 * 16"
    and "reads io = replicate k (InErr EINTR) @ InData (enc t) # rs"
  shows "\<exists>c' io'. redisCommandArgv a strerr (c, io) argv = Some (Some (reply_of t), c', io') \<and> quiet c' \<and>
    sent io' = sent io @ enc (Arr (map (Bulk \<circ> arg_bytes) argv)) \<and> reads io' = rs"
proof -
  have w: "enc (Arr (map (Bulk \<circ> arg_bytes) argv)) = wire_command (map arg_bytes argv)"
    by (simp only: wire_command_def map_map)
  show ?thesis using assms unfolding w by (intro command_gets_reply)
qed

theorem command_is_answered_witness:
  "\<exists>c' io'. redisCommandArgv \<lparr>can_alloc = \<lambda>n. True, fresh = \<lambda>i. CHR ''?''\<rparr> (\<lambda>e. ''error'')
      (sample_client, \<lparr>reads = [InErr EINTR, InData (enc (Bulk ''v''))],
         writes = [OutCount 4, OutErr EINTR, OutCount 9], sent = []\<rparr>) [(''GETk'', Some 3)] = Some (Some (reply_of (Bulk ''v'')), c', io') \<and>
    quiet c' \<and> sent io' = enc (Arr [Bulk ''GET'']) \<and> reads io' = []"
proof -
  let ?a = "\<lparr>can_alloc = \<lambda>n. True, fresh = \<lambda>i. CHR ''?''\<rparr>"
  let ?io = "\<lparr>reads = [InErr EINTR, InData (enc (Bulk ''v''))], writes = [OutCount 4, OutErr EINTR, OutCount 9], sent = []\<rparr> :: socket_io"
  let ?w = "enc (Arr (map (Bulk \<circ> arg_bytes) [(''GETk'', Some 3)]))"
  have w: "?w = enc (Arr [Bulk ''GET''])" by (simp add: arg_bytes_def)
  have l: "length ?w = 13" unfolding w by (simp add: dec.simps)
  have t: "length (enc (Bulk ''v'')) \<le> 1024 * 16" by (simp add: dec.simps)
  have q: "quiet sample_client"
    by (simp add: quiet_def sample_client_def blocking_def REDIS_BLOCK_def sds_wf_def sds_open_def content_def
        reader_ready_def reader_wf_def unread_def sdsAllocSize_def sizeof_sdshdr_def)
  have acc: "accepts (length ?w) (writes ?io)" and len: "length ?w < 2 ^ 31" unfolding l by simp_all
  have rd: "reads ?io = replicate 1 (InErr EINTR) @ InData (enc (Bulk ''v'')) # []" by simp
  have "\<exists>c' io'. redisCommandArgv ?a (\<lambda>e. ''error'') (sample_client, ?io) [(''GETk'', Some 3)]
      = Some (Some (reply_of (Bulk ''v'')), c', io') \<and> quiet c' \<and> sent io' = sent ?io @ ?w \<and> reads io' = []"
    by (rule command_is_answered [OF _ q len acc _ _ t rd]) simp_all
  then show ?thesis unfolding w by simp
qed

end
