(* ===== verification/Std_Map.thy ===== *)
theory Std_Map
  imports Achat_Prelude
begin

text \<open>
  The ordered containers of the C++ standard library as the servers use them: a \<open>std::map\<close> is its
  list of bindings in key order, which is the order in which iterators visit it, and a
  \<open>std::set\<close> is a strictly sorted list. The locale \<open>ordered_map\<close> states what the clients rely on.
\<close>

section \<open>Maps\<close>

type_synonym ('k, 'v) std_map = "('k \<times> 'v) list"

text \<open>\<open>m[k] = v\<close>, \<open>m.erase(k)\<close>, \<open>m.find(k)\<close>, \<open>m.insert(make_pair(k, v))\<close>.\<close>

fun map_put :: "'k::linorder \<Rightarrow> 'v \<Rightarrow> ('k, 'v) std_map \<Rightarrow> ('k, 'v) std_map" where
  "map_put k v [] = [(k, v)]"
| "map_put k v ((k', v') # m) =
     (if k < k' then (k, v) # (k', v') # m else if k = k' then (k, v) # m else (k', v') # map_put k v m)"

definition map_erase :: "'k \<Rightarrow> ('k, 'v) std_map \<Rightarrow> ('k, 'v) std_map" where
  "map_erase k m = filter (\<lambda>e. fst e \<noteq> k) m"

abbreviation map_find :: "('k, 'v) std_map \<Rightarrow> 'k \<Rightarrow> 'v option" where
  "map_find \<equiv> map_of"

definition map_insert :: "'k::linorder \<Rightarrow> 'v \<Rightarrow> ('k, 'v) std_map \<Rightarrow> ('k, 'v) std_map" where
  "map_insert k v m = (case map_find m k of None \<Rightarrow> map_put k v m | Some _ \<Rightarrow> m)"

definition map_ok :: "('k::linorder, 'v) std_map \<Rightarrow> bool" where
  "map_ok m \<longleftrightarrow> sorted (map fst m) \<and> distinct (map fst m)"

locale ordered_map =
  fixes ok :: "'m \<Rightarrow> bool" and find :: "'m \<Rightarrow> 'k::linorder \<Rightarrow> 'v option" and put :: "'k \<Rightarrow> 'v \<Rightarrow> 'm \<Rightarrow> 'm"
    and erase :: "'k \<Rightarrow> 'm \<Rightarrow> 'm" and entries :: "'m \<Rightarrow> ('k \<times> 'v) list"
  assumes put_ok: "ok m \<Longrightarrow> ok (put k v m)"
    and erase_ok: "ok m \<Longrightarrow> ok (erase k m)"
    and find_put: "ok m \<Longrightarrow> find (put k v m) = (find m)(k \<mapsto> v)"
    and find_erase: "ok m \<Longrightarrow> find (erase k m) = (find m)(k := None)"
    and find_entries: "ok m \<Longrightarrow> (k, v) \<in> set (entries m) \<longleftrightarrow> find m k = Some v"
    and keys_distinct: "ok m \<Longrightarrow> distinct (map fst (entries m))"
begin

lemma entries_put:
  assumes "ok m"
  shows "set (entries (put k v m)) = insert (k, v) {e \<in> set (entries m). fst e \<noteq> k}"
proof -
  have "(k', v') \<in> set (entries (put k v m)) \<longleftrightarrow> (k', v') = (k, v) \<or> (k', v') \<in> set (entries m) \<and> k' \<noteq> k" for k' v'
    using assms by (auto simp: find_entries put_ok find_put)
  then show ?thesis by auto
qed

lemma entries_erase:
  assumes "ok m"
  shows "set (entries (erase k m)) = {e \<in> set (entries m). fst e \<noteq> k}"
proof -
  have "(k', v') \<in> set (entries (erase k m)) \<longleftrightarrow> (k', v') \<in> set (entries m) \<and> k' \<noteq> k" for k' v'
    using assms by (auto simp: find_entries erase_ok find_erase)
  then show ?thesis by auto
qed

lemma find_unique:
  assumes "ok m" "(k, v) \<in> set (entries m)" "(k, v') \<in> set (entries m)"
  shows "v = v'"
  using assms by (simp add: find_entries)

lemma entries_length:
  assumes "ok m"
  shows "length (entries m) = card (set (entries m))"
  using distinct_map [of fst "entries m"] keys_distinct [OF assms] by (metis distinct_card)

end

lemma set_map_put: "map_ok m \<Longrightarrow> set (map_put k v m) = insert (k, v) {e \<in> set m. fst e \<noteq> k}"
  by (induction k v m rule: map_put.induct) (auto simp: map_ok_def)

lemma map_put_ok: "map_ok m \<Longrightarrow> map_ok (map_put k v m)"
proof (induction k v m rule: map_put.induct)
  case (2 k v k' v' m)
  have m: "map_ok m" using 2(2) by (simp add: map_ok_def)
  show ?case
  proof (cases "k < k' \<or> k = k'")
    case True
    with 2(2) show ?thesis by (auto simp: map_ok_def)
  next
    case False
    with 2(1) m have "map_ok (map_put k v m)" by auto
    moreover have "\<forall>x\<in>fst ` set (map_put k v m). k' \<le> x \<and> x \<noteq> k'"
    proof
      fix x assume "x \<in> fst ` set (map_put k v m)"
      then have "x = k \<or> x \<in> fst ` set m" using set_map_put [OF m, of k v] by auto
      then show "k' \<le> x \<and> x \<noteq> k'" using 2(2) False by (auto simp: map_ok_def)
    qed
    ultimately show ?thesis using False by (auto simp: map_ok_def)
  qed
qed (simp add: map_ok_def)

lemma map_erase_ok: "map_ok m \<Longrightarrow> map_ok (map_erase k m)"
  by (induction m) (auto simp: map_ok_def map_erase_def)

interpretation smap: ordered_map map_ok map_find map_put map_erase "\<lambda>m. m"
proof
  fix m :: "('k::linorder, 'v) std_map" and k v
  assume ok: "map_ok m"
  show "map_ok (map_put k v m)" by (rule map_put_ok [OF ok])
  show "map_ok (map_erase k m)" by (rule map_erase_ok [OF ok])
  show "map_find (map_put k v m) = (map_find m)(k \<mapsto> v)"
    using ok by (induction k v m rule: map_put.induct) (auto simp: map_ok_def fun_eq_iff)
  show "map_find (map_erase k m) = (map_find m)(k := None)"
    by (induction m) (auto simp: map_erase_def fun_eq_iff)
  show "(k, v) \<in> set m \<longleftrightarrow> map_find m k = Some v" using ok by (simp add: map_ok_def)
  show "distinct (map fst m)" using ok by (simp add: map_ok_def)
qed

lemma map_ok_Nil [simp]: "map_ok []"
  by (simp add: map_ok_def)

lemma map_erase_Nil [simp]: "map_erase k [] = []"
  by (simp add: map_erase_def)

section \<open>Sets\<close>

text \<open>\<open>s.insert(x)\<close> and \<open>s.erase(x)\<close>.\<close>

definition set_put :: "'a::linorder \<Rightarrow> 'a list \<Rightarrow> 'a list" where
  "set_put x s = (if x \<in> set s then s else insort x s)"

definition set_erase :: "'a \<Rightarrow> 'a list \<Rightarrow> 'a list" where
  "set_erase x s = filter (\<lambda>y. y \<noteq> x) s"

lemma set_set_put [simp]: "set (set_put x s) = insert x (set s)"
  by (auto simp: set_put_def set_insort_key)

lemma set_set_erase [simp]: "set (set_erase x s) = set s - {x}"
  by (auto simp: set_erase_def)

lemma set_put_ok: "sorted s \<Longrightarrow> distinct s \<Longrightarrow> sorted (set_put x s) \<and> distinct (set_put x s)"
  by (simp add: set_put_def distinct_insort sorted_insort)

end
