(* ===== verification/Msg_Types.thy ===== *)
theory Msg_Types
  imports Std_Map
begin

text \<open>
  Data of the message server (\<open>msgserver\<close>): the numbers of \<open>base/public_define.h\<close>,
  \<open>base/ImConn.h\<close> and of the generated \<open>IM.BaseDefine.pb.h\<close>, the messages that its handlers
  read and write, the packets that carry them, and what a handler finds in its environment.

  A message is its parsed content, one constructor per protobuf message whose fields a handler
  looks at; \<open>Plain\<close> is a message of which only the user id and the attached data matter, with
  all its other fields as one opaque string. Parsing a body as another message fails, and so does
  a body that is no message (\<open>Garbage\<close>). Attached data is what was put into it; the classes that
  encode it are not part of the repository, and what they read from an empty field is
  \<open>empty_handle\<close>.
\<close>

section \<open>Constants\<close>

type_synonym u32 = "32 word"
type_synonym u16 = "16 word"
type_synonym uid = u32
type_synonym handle = u32

abbreviation (input) "NETLIB_INVALID_HANDLE \<equiv> (- 1 :: handle)"

abbreviation "CLIENT_TIMEOUT \<equiv> (120000 :: nat)"
abbreviation "MOBILE_CLIENT_TIMEOUT \<equiv> (60000 * 5 :: nat)"
abbreviation "TIMEOUT_WATI_LOGIN_RESPONSE \<equiv> (15000 :: nat)"
abbreviation "TIMEOUT_WAITING_MSG_DATA_ACK \<equiv> (15000 :: nat)"
abbreviation "MAX_MSG_CNT_PER_SECOND \<equiv> (20 :: u32)"

abbreviation "USER_CNT_INC \<equiv> (1 :: u32)"
abbreviation "USER_CNT_DEC \<equiv> (2 :: u32)"
abbreviation "USER_STATUS_ONLINE \<equiv> (1 :: u32)"
abbreviation "USER_STATUS_OFFLINE \<equiv> (2 :: u32)"
abbreviation "USER_STATUS_LEAVE \<equiv> (3 :: u32)"
abbreviation "CLIENT_TYPE_MAC \<equiv> (2 :: u32)"
abbreviation "KICK_REASON_DUPLICATE_USER \<equiv> (1 :: u32)"
abbreviation "KICK_REASON_MOBILE_KICK \<equiv> (2 :: u32)"
abbreviation "REFUSE_REASON_NONE \<equiv> (0 :: u32)"
abbreviation "REFUSE_REASON_NO_DB_SERVER \<equiv> (3 :: u32)"
abbreviation "REFUSE_REASON_NO_LOGIN_SERVER \<equiv> (4 :: u32)"
abbreviation "REFUSE_REASON_NO_ROUTE_SERVER \<equiv> (5 :: u32)"
abbreviation "REFUSE_REASON_DB_VALIDATE_FAILED \<equiv> (6 :: u32)"
abbreviation "SESSION_TYPE_SINGLE \<equiv> (1 :: u32)"
abbreviation "SESSION_TYPE_GROUP \<equiv> (2 :: u32)"
abbreviation "MSG_TYPE_SINGLE_TEXT \<equiv> (1 :: u32)"
abbreviation "MSG_TYPE_SINGLE_AUDIO \<equiv> (2 :: u32)"
abbreviation "MSG_TYPE_GROUP_TEXT \<equiv> (17 :: u32)"
abbreviation "MSG_TYPE_GROUP_AUDIO \<equiv> (18 :: u32)"
abbreviation "GROUP_TYPE_NORMAL \<equiv> (1 :: u32)"
abbreviation "IM_PC_LOGIN_STATUS_ON \<equiv> (1 :: u32)"
abbreviation "IM_PUSH_TYPE_NORMAL \<equiv> (1 :: u32)"
abbreviation "IM_PUSH_TYPE_SILENT \<equiv> (2 :: u32)"
abbreviation "CLIENT_TYPE_FLAG_PC \<equiv> (1 :: u32)"
abbreviation "CLIENT_TYPE_FLAG_MOBILE \<equiv> (2 :: u32)"
abbreviation "CLIENT_TYPE_FLAG_BOTH \<equiv> (3 :: u32)"

abbreviation "SID_LOGIN \<equiv> (1 :: u16)"
abbreviation "SID_BUDDY_LIST \<equiv> (2 :: u16)"
abbreviation "SID_MSG \<equiv> (3 :: u16)"
abbreviation "SID_GROUP \<equiv> (4 :: u16)"
abbreviation "SID_OTHER \<equiv> (7 :: u16)"

abbreviation "CID_LOGIN_REQ_USERLOGIN \<equiv> (259 :: u16)"
abbreviation "CID_LOGIN_RES_USERLOGIN \<equiv> (260 :: u16)"
abbreviation "CID_LOGIN_REQ_LOGINOUT \<equiv> (261 :: u16)"
abbreviation "CID_LOGIN_RES_LOGINOUT \<equiv> (262 :: u16)"
abbreviation "CID_LOGIN_KICK_USER \<equiv> (263 :: u16)"
abbreviation "CID_LOGIN_REQ_DEVICETOKEN \<equiv> (264 :: u16)"
abbreviation "CID_LOGIN_RES_DEVICETOKEN \<equiv> (265 :: u16)"
abbreviation "CID_LOGIN_REQ_KICKPCCLIENT \<equiv> (266 :: u16)"
abbreviation "CID_LOGIN_RES_KICKPCCLIENT \<equiv> (267 :: u16)"
abbreviation "CID_LOGIN_REQ_PUSH_SHIELD \<equiv> (268 :: u16)"
abbreviation "CID_LOGIN_RES_PUSH_SHIELD \<equiv> (269 :: u16)"
abbreviation "CID_LOGIN_REQ_QUERY_PUSH_SHIELD \<equiv> (270 :: u16)"
abbreviation "CID_LOGIN_RES_QUERY_PUSH_SHIELD \<equiv> (271 :: u16)"
abbreviation "CID_BUDDY_LIST_RECENT_CONTACT_SESSION_REQUEST \<equiv> (513 :: u16)"
abbreviation "CID_BUDDY_LIST_RECENT_CONTACT_SESSION_RESPONSE \<equiv> (514 :: u16)"
abbreviation "CID_BUDDY_LIST_USER_INFO_REQUEST \<equiv> (516 :: u16)"
abbreviation "CID_BUDDY_LIST_USER_INFO_RESPONSE \<equiv> (517 :: u16)"
abbreviation "CID_BUDDY_LIST_REMOVE_SESSION_REQ \<equiv> (518 :: u16)"
abbreviation "CID_BUDDY_LIST_REMOVE_SESSION_RES \<equiv> (519 :: u16)"
abbreviation "CID_BUDDY_LIST_ALL_USER_REQUEST \<equiv> (520 :: u16)"
abbreviation "CID_BUDDY_LIST_ALL_USER_RESPONSE \<equiv> (521 :: u16)"
abbreviation "CID_BUDDY_LIST_USERS_STATUS_REQUEST \<equiv> (522 :: u16)"
abbreviation "CID_BUDDY_LIST_CHANGE_AVATAR_REQUEST \<equiv> (524 :: u16)"
abbreviation "CID_BUDDY_LIST_CHANGE_AVATAR_RESPONSE \<equiv> (525 :: u16)"
abbreviation "CID_BUDDY_LIST_REMOVE_SESSION_NOTIFY \<equiv> (527 :: u16)"
abbreviation "CID_BUDDY_LIST_DEPARTMENT_REQUEST \<equiv> (528 :: u16)"
abbreviation "CID_BUDDY_LIST_DEPARTMENT_RESPONSE \<equiv> (529 :: u16)"
abbreviation "CID_BUDDY_LIST_CHANGE_SIGN_INFO_REQUEST \<equiv> (531 :: u16)"
abbreviation "CID_BUDDY_LIST_CHANGE_SIGN_INFO_RESPONSE \<equiv> (532 :: u16)"
abbreviation "CID_BUDDY_LIST_SIGN_INFO_CHANGED_NOTIFY \<equiv> (533 :: u16)"
abbreviation "CID_MSG_DATA \<equiv> (769 :: u16)"
abbreviation "CID_MSG_DATA_ACK \<equiv> (770 :: u16)"
abbreviation "CID_MSG_READ_ACK \<equiv> (771 :: u16)"
abbreviation "CID_MSG_READ_NOTIFY \<equiv> (772 :: u16)"
abbreviation "CID_MSG_TIME_REQUEST \<equiv> (773 :: u16)"
abbreviation "CID_MSG_TIME_RESPONSE \<equiv> (774 :: u16)"
abbreviation "CID_MSG_UNREAD_CNT_REQUEST \<equiv> (775 :: u16)"
abbreviation "CID_MSG_UNREAD_CNT_RESPONSE \<equiv> (776 :: u16)"
abbreviation "CID_MSG_LIST_REQUEST \<equiv> (777 :: u16)"
abbreviation "CID_MSG_LIST_RESPONSE \<equiv> (778 :: u16)"
abbreviation "CID_MSG_GET_LATEST_MSG_ID_REQ \<equiv> (779 :: u16)"
abbreviation "CID_MSG_GET_LATEST_MSG_ID_RSP \<equiv> (780 :: u16)"
abbreviation "CID_MSG_GET_BY_MSG_ID_REQ \<equiv> (781 :: u16)"
abbreviation "CID_MSG_GET_BY_MSG_ID_RES \<equiv> (782 :: u16)"
abbreviation "CID_GROUP_NORMAL_LIST_REQUEST \<equiv> (1025 :: u16)"
abbreviation "CID_GROUP_NORMAL_LIST_RESPONSE \<equiv> (1026 :: u16)"
abbreviation "CID_GROUP_INFO_REQUEST \<equiv> (1027 :: u16)"
abbreviation "CID_GROUP_INFO_RESPONSE \<equiv> (1028 :: u16)"
abbreviation "CID_GROUP_CREATE_REQUEST \<equiv> (1029 :: u16)"
abbreviation "CID_GROUP_CREATE_RESPONSE \<equiv> (1030 :: u16)"
abbreviation "CID_GROUP_CHANGE_MEMBER_REQUEST \<equiv> (1031 :: u16)"
abbreviation "CID_GROUP_CHANGE_MEMBER_RESPONSE \<equiv> (1032 :: u16)"
abbreviation "CID_GROUP_SHIELD_GROUP_REQUEST \<equiv> (1033 :: u16)"
abbreviation "CID_GROUP_SHIELD_GROUP_RESPONSE \<equiv> (1034 :: u16)"
abbreviation "CID_GROUP_CHANGE_MEMBER_NOTIFY \<equiv> (1035 :: u16)"
abbreviation "CID_FILE_REQUEST \<equiv> (1286 :: u16)"
abbreviation "CID_FILE_HAS_OFFLINE_REQ \<equiv> (1289 :: u16)"
abbreviation "CID_FILE_HAS_OFFLINE_RES \<equiv> (1290 :: u16)"
abbreviation "CID_FILE_ADD_OFFLINE_REQ \<equiv> (1291 :: u16)"
abbreviation "CID_FILE_DEL_OFFLINE_REQ \<equiv> (1292 :: u16)"
abbreviation "CID_SWITCH_P2P_CMD \<equiv> (1537 :: u16)"
abbreviation "CID_OTHER_HEARTBEAT \<equiv> (1793 :: u16)"
abbreviation "CID_OTHER_STOP_RECV_PACKET \<equiv> (1794 :: u16)"
abbreviation "CID_OTHER_VALIDATE_REQ \<equiv> (1795 :: u16)"
abbreviation "CID_OTHER_VALIDATE_RSP \<equiv> (1796 :: u16)"
abbreviation "CID_OTHER_GET_DEVICE_TOKEN_REQ \<equiv> (1797 :: u16)"
abbreviation "CID_OTHER_GET_DEVICE_TOKEN_RSP \<equiv> (1798 :: u16)"
abbreviation "CID_OTHER_USER_STATUS_UPDATE \<equiv> (1802 :: u16)"
abbreviation "CID_OTHER_USER_CNT_UPDATE \<equiv> (1803 :: u16)"
abbreviation "CID_OTHER_SERVER_KICK_USER \<equiv> (1805 :: u16)"
abbreviation "CID_OTHER_PUSH_TO_USER_REQ \<equiv> (1807 :: u16)"
abbreviation "CID_OTHER_GET_SHIELD_REQ \<equiv> (1809 :: u16)"
abbreviation "CID_OTHER_GET_SHIELD_RSP \<equiv> (1810 :: u16)"

definition CHECK_CLIENT_TYPE_PC :: "u32 \<Rightarrow> bool" where
  "CHECK_CLIENT_TYPE_PC t \<longleftrightarrow> and t 0x10 = 0"

definition CHECK_CLIENT_TYPE_MOBILE :: "u32 \<Rightarrow> bool" where
  "CHECK_CLIENT_TYPE_MOBILE t \<longleftrightarrow> and t 0x10 = 0x10"

definition CHECK_MSG_TYPE_SINGLE :: "u32 \<Rightarrow> bool" where
  "CHECK_MSG_TYPE_SINGLE t \<longleftrightarrow> MSG_TYPE_SINGLE_TEXT = t \<or> MSG_TYPE_SINGLE_AUDIO = t"

definition CHECK_MSG_TYPE_GROUP :: "u32 \<Rightarrow> bool" where
  "CHECK_MSG_TYPE_GROUP t \<longleftrightarrow> MSG_TYPE_GROUP_TEXT = t \<or> MSG_TYPE_GROUP_AUDIO = t"

section \<open>Messages\<close>

datatype (plugins only: code size) pb_kind = IMRecentContactSessionReq | IMRecentContactSessionRsp | IMGetMsgListReq | IMGetMsgListRsp
  | IMGetMsgByIdReq | IMGetMsgByIdRsp | IMUnreadMsgCntReq | IMUnreadMsgCntRsp | IMGetLatestMsgIdReq
  | IMGetLatestMsgIdRsp | IMUsersInfoReq | IMUsersInfoRsp | IMAllUserReq | IMAllUserRsp | IMChangeAvatarReq
  | IMChangeAvatarRsp | IMDepartmentReq | IMDepartmentRsp | IMChangeSignInfoReq | IMPushShieldReq
  | IMPushShieldRsp | IMQueryPushShieldReq | IMQueryPushShieldRsp | IMNormalGroupListReq
  | IMNormalGroupListRsp | IMGroupShieldReq | IMGroupShieldRsp | IMRemoveSessionRsp | IMGroupCreateRsp

record user_info =
  ui_user_id :: uid
  ui_nick_name :: string
  ui_details :: string

record token_info =
  ut_user_id :: uid
  ut_user_type :: u32
  ut_token :: string
  ut_push_count :: u32
  ut_push_type :: u32

record group_info =
  gi_group_id :: u32
  gi_members :: "uid list"
  gi_details :: string

record shield_status =
  sh_user_id :: uid
  sh_group_id :: u32
  sh_shield_status :: u32

record msg_data =
  md_from :: uid
  md_to_session :: u32
  md_msg_id :: u32
  md_create_time :: u32
  md_type :: u32
  md_data :: string

datatype (plugins only: code size) attach = AttNone | AttHandle handle | AttPdu handle body
  and body = Garbage | IMHeartBeat
  | Plain pb_kind uid attach string
  | RefusedRsp pb_kind uid u32 string
  | IMLoginReq string string u32 string u32
  | IMLoginRes u32 u32 string "u32 option" "user_info option"
  | IMLogoutRsp u32
  | IMKickUser uid u32
  | IMKickPCClientReq
  | IMKickPCClientRsp uid u32
  | IMDeviceTokenReq uid string "u32 option"
  | IMDeviceTokenRsp "uid option" "u32 option"
  | IMValidateReq string string attach
  | IMValidateRsp string u32 string user_info attach
  | IMServerKickUser uid u32 u32
  | IMUserCntUpdate u32 uid
  | IMUserStatusUpdate u32 uid u32
  | IMMsgData msg_data attach
  | IMMsgDataAck uid u32 u32 u32
  | IMMsgDataReadAck uid u32 u32 u32
  | IMMsgDataReadNotify uid u32 u32 u32
  | IMClientTimeRsp u32
  | IMP2PCmdMsg uid uid string
  | IMRemoveSessionReq uid u32 u32 attach
  | IMRemoveSessionNotify uid u32 u32
  | IMUsersStatReq uid "uid list" attach
  | IMGetDeviceTokenReq "uid list" body
  | IMGetDeviceTokenRsp body "token_info list"
  | IMPushToUserReq string string "token_info list"
  | IMChangeSignInfoRsp uid u32 string attach
  | IMSignInfoChangedNotify uid string
  | IMGroupInfoListReq uid "(u32 \<times> u32) list" attach
  | IMGroupInfoListRsp uid "group_info list" attach
  | IMGroupGetShieldReq u32 "uid list" body
  | IMGroupGetShieldRsp "shield_status list" body
  | IMGroupCreateReq uid string u32 attach string
  | IMGroupChangeMemberReq uid u32 u32 attach string
  | IMGroupChangeMemberRsp uid u32 u32 u32 "uid list" "uid list" attach
  | IMGroupChangeMemberNotify uid u32 u32 "uid list" "uid list"

record pdu =
  p_sid :: u16
  p_cid :: u16
  p_seq :: u16
  p_body :: body

text \<open>\<open>ImPdu pdu; pdu.SetPBMsg(..); pdu.SetServiceId(..); pdu.SetCommandId(..); pdu.SetSeqNum(..)\<close>.\<close>

definition mk_pdu :: "u16 \<Rightarrow> u16 \<Rightarrow> u16 \<Rightarrow> body \<Rightarrow> pdu" where
  "mk_pdu sid cid seq b = \<lparr>p_sid = sid, p_cid = cid, p_seq = seq, p_body = b\<rparr>"

section \<open>Output and environment\<close>

text \<open>Connections to clients are numbered in the order of their creation; the connections to other
  servers are numbers as well.\<close>

datatype out = ToClient nat pdu | ToDb nat pdu | ToRoute nat pdu | ToPush nat pdu | ToAllLogin pdu
  | ToAllRoute pdu | CloseSocket nat | FileOut nat pdu

text \<open>
  What a handler finds: the clock in seconds and in ticks, the connection that
  \<open>get_db_serv_conn_for_login\<close> and \<open>get_db_serv_conn\<close> return, whether login and route servers
  are available, \<open>get_route_serv_conn\<close> and \<open>get_push_serv_conn\<close> (both not in the repository), the
  text cipher, and the push text builders.
\<close>

record env =
  now :: u32
  tick :: nat
  db_for_login :: "nat option"
  db_other :: "nat option"
  login_server_up :: bool
  route_server_up :: bool
  route_conn :: "nat option"
  push_conn :: "nat option"
  empty_handle :: handle
  aes_decrypt :: "string \<Rightarrow> string option"
  push_flash :: "string \<Rightarrow> u32 \<Rightarrow> uid \<Rightarrow> string"
  push_json :: "u32 \<Rightarrow> uid \<Rightarrow> u32 option \<Rightarrow> string"

text \<open>\<open>GetHandle()\<close> of the attached data of a response, and the packet in it.\<close>

definition att_handle :: "env \<Rightarrow> attach \<Rightarrow> handle" where
  "att_handle e a = (case a of AttNone \<Rightarrow> empty_handle e | AttHandle h \<Rightarrow> h | AttPdu h _ \<Rightarrow> h)"

definition att_pdu :: "attach \<Rightarrow> body option" where
  "att_pdu a = (case a of AttPdu _ b \<Rightarrow> Some b | _ \<Rightarrow> None)"

end
