(* ===== verification/Msg_Users.thy ===== *)
theory Msg_Users
  imports "HOL-Library.Monad_Syntax" Msg_Types
begin

text \<open>
  Users and connections of the message server: \<open>msgserver/ImUser.h\<close> and \<open>ImUser.cpp\<close>, the data
  of \<open>MsgConn.h\<close>, and the operations of \<open>MsgConn.cpp\<close> that the users need. Connections are never
  freed, so a \<open>MsgConn*\<close> is a number and \<open>conns\<close> a total store; users are freed, so an \<open>ImUser*\<close>
  is a number that \<open>users\<close> maps to an object or to nothing. An operation on a freed user has no
  result (\<open>None\<close>). \<open>sent\<close> logs what the server wrote to its sockets, in order.
\<close>

section \<open>State\<close>

record msg_ack =
  ack_msg_id :: u32
  ack_from_id :: uid
  ack_timestamp :: nat

record msg_conn =
  c_handle :: handle
  c_login_name :: string
  c_user_id :: uid
  c_open :: bool
  c_kick_off :: bool
  c_login_time :: nat
  c_client_version :: string
  c_send_msg_list :: "msg_ack list"
  c_msg_cnt_per_sec :: u32
  c_client_type :: u32
  c_online_status :: u32
  c_last_recv_tick :: nat

record im_user =
  u_user_id :: uid
  u_login_name :: string
  u_nick_name :: string
  u_validate :: bool
  u_pc_login_status :: u32
  u_conn_map :: "(handle, nat) std_map"
  u_unvalidate_conn_set :: "nat list"

record server =
  conns :: "nat \<Rightarrow> msg_conn"
  next_conn :: nat
  users :: "nat \<Rightarrow> im_user option"
  next_user :: nat
  user_map :: "(uid, nat) std_map"
  user_map_by_name :: "(string \<times> nat) list"
  msg_conn_map :: "(handle, nat) std_map"
  down_msg_total_cnt :: u32
  down_msg_miss_cnt :: u32
  sent :: "out list"

definition emit :: "out \<Rightarrow> server \<Rightarrow> server" where
  "emit x s = s\<lparr>sent := sent s @ [x]\<rparr>"

definition upd_conn :: "nat \<Rightarrow> (msg_conn \<Rightarrow> msg_conn) \<Rightarrow> server \<Rightarrow> server" where
  "upd_conn c f s = s\<lparr>conns := (conns s)(c := f (conns s c))\<rparr>"

definition upd_user :: "nat \<Rightarrow> (im_user \<Rightarrow> im_user) \<Rightarrow> server \<Rightarrow> server option" where
  "upd_user u f s = map_option (\<lambda>usr. s\<lparr>users := (users s)(u \<mapsto> f usr)\<rparr>) (users s u)"

section \<open>Connections\<close>

definition new_conn :: "handle \<Rightarrow> u32 \<Rightarrow> nat \<Rightarrow> msg_conn" where
  "new_conn h ctype t =
     \<lparr>c_handle = h, c_login_name = [], c_user_id = 0, c_open = False, c_kick_off = False, c_login_time = t,
      c_client_version = [], c_send_msg_list = [], c_msg_cnt_per_sec = 0, c_client_type = ctype,
      c_online_status = USER_STATUS_OFFLINE, c_last_recv_tick = t\<rparr>"

definition AddToSendList :: "env \<Rightarrow> nat \<Rightarrow> u32 \<Rightarrow> uid \<Rightarrow> server \<Rightarrow> server" where
  "AddToSendList e c msg_id from_id s =
     (let s = upd_conn c (\<lambda>m. m\<lparr>c_send_msg_list := c_send_msg_list m @
                [\<lparr>ack_msg_id = msg_id, ack_from_id = from_id, ack_timestamp = tick e\<rparr>]\<rparr>) s
      in s\<lparr>down_msg_total_cnt := down_msg_total_cnt s + 1\<rparr>)"

fun del_ack :: "u32 \<Rightarrow> uid \<Rightarrow> msg_ack list \<Rightarrow> msg_ack list" where
  "del_ack msg_id from_id [] = []"
| "del_ack msg_id from_id (m # ms) =
     (if ack_msg_id m = msg_id \<and> ack_from_id m = from_id then ms else m # del_ack msg_id from_id ms)"

definition DelFromSendList :: "nat \<Rightarrow> u32 \<Rightarrow> uid \<Rightarrow> server \<Rightarrow> server" where
  "DelFromSendList c msg_id from_id s =
     upd_conn c (\<lambda>m. m\<lparr>c_send_msg_list := del_ack msg_id from_id (c_send_msg_list m)\<rparr>) s"

definition GetClientTypeFlag :: "msg_conn \<Rightarrow> u32" where
  "GetClientTypeFlag m =
     (if CHECK_CLIENT_TYPE_PC (c_client_type m) then CLIENT_TYPE_FLAG_PC
      else if CHECK_CLIENT_TYPE_MOBILE (c_client_type m) then CLIENT_TYPE_FLAG_MOBILE else 0)"

section \<open>Users\<close>

definition new_user :: "string \<Rightarrow> im_user" where
  "new_user name =
     \<lparr>u_user_id = 0, u_login_name = name, u_nick_name = [], u_validate = False,
      u_pc_login_status = USER_STATUS_OFFLINE, u_conn_map = [], u_unvalidate_conn_set = []\<rparr>"

text \<open>The first connection of the set, in the order of its elements, that has the handle.\<close>

definition GetUnValidateMsgConn :: "server \<Rightarrow> im_user \<Rightarrow> handle \<Rightarrow> nat option" where
  "GetUnValidateMsgConn s usr h = find (\<lambda>c. c_handle (conns s c) = h) (u_unvalidate_conn_set usr)"

definition GetMsgConn :: "im_user \<Rightarrow> handle \<Rightarrow> nat option" where
  "GetMsgConn usr h = map_find (u_conn_map usr) h"

definition IsMsgConnEmpty :: "im_user \<Rightarrow> bool" where
  "IsMsgConnEmpty usr \<longleftrightarrow> u_conn_map usr = []"

definition AddMsgConn :: "handle \<Rightarrow> nat \<Rightarrow> im_user \<Rightarrow> im_user" where
  "AddMsgConn h c usr = usr\<lparr>u_conn_map := map_put h c (u_conn_map usr)\<rparr>"

definition DelMsgConn :: "handle \<Rightarrow> im_user \<Rightarrow> im_user" where
  "DelMsgConn h usr = usr\<lparr>u_conn_map := map_erase h (u_conn_map usr)\<rparr>"

definition AddUnValidateMsgConn :: "nat \<Rightarrow> im_user \<Rightarrow> im_user" where
  "AddUnValidateMsgConn c usr = usr\<lparr>u_unvalidate_conn_set := set_put c (u_unvalidate_conn_set usr)\<rparr>"

definition DelUnValidateMsgConn :: "nat \<Rightarrow> im_user \<Rightarrow> im_user" where
  "DelUnValidateMsgConn c usr = usr\<lparr>u_unvalidate_conn_set := set_erase c (u_unvalidate_conn_set usr)\<rparr>"

definition ValidateMsgConn :: "handle \<Rightarrow> nat \<Rightarrow> im_user \<Rightarrow> im_user" where
  "ValidateMsgConn h c usr = DelUnValidateMsgConn c (AddMsgConn h c usr)"

definition GetUserConn :: "server \<Rightarrow> im_user \<Rightarrow> uid \<times> u32" where
  "GetUserConn s usr =
     (u_user_id usr, of_nat (length (filter (\<lambda>(h, c). c_open (conns s c)) (u_conn_map usr))))"

text \<open>The broadcasts visit the connections in handle order and skip the given one.\<close>

definition send_where :: "(nat \<Rightarrow> bool) \<Rightarrow> pdu \<Rightarrow> im_user \<Rightarrow> server \<Rightarrow> server" where
  "send_where ok p usr s = fold (\<lambda>(h, c) s. if ok c then emit (ToClient c p) s else s) (u_conn_map usr) s"

definition BroadcastPdu :: "pdu \<Rightarrow> nat option \<Rightarrow> im_user \<Rightarrow> server \<Rightarrow> server" where
  "BroadcastPdu p from usr s = send_where (\<lambda>c. Some c \<noteq> from) p usr s"

definition BroadcastPduWithOutMobile :: "pdu \<Rightarrow> nat option \<Rightarrow> im_user \<Rightarrow> server \<Rightarrow> server" where
  "BroadcastPduWithOutMobile p from usr s =
     send_where (\<lambda>c. Some c \<noteq> from \<and> CHECK_CLIENT_TYPE_PC (c_client_type (conns s c))) p usr s"

definition BroadcastPduToMobile :: "pdu \<Rightarrow> nat option \<Rightarrow> im_user \<Rightarrow> server \<Rightarrow> server" where
  "BroadcastPduToMobile p from usr s =
     send_where (\<lambda>c. Some c \<noteq> from \<and> CHECK_CLIENT_TYPE_MOBILE (c_client_type (conns s c))) p usr s"

definition BroadcastClientMsgData :: "env \<Rightarrow> pdu \<Rightarrow> u32 \<Rightarrow> nat option \<Rightarrow> uid \<Rightarrow> im_user \<Rightarrow> server \<Rightarrow> server" where
  "BroadcastClientMsgData e p msg_id from from_id usr s =
     fold (\<lambda>(h, c) s. if Some c \<noteq> from then AddToSendList e c msg_id from_id (emit (ToClient c p) s) else s)
       (u_conn_map usr) s"

definition BroadcastData :: "pdu \<Rightarrow> nat option \<Rightarrow> im_user \<Rightarrow> server \<Rightarrow> server" where
  "BroadcastData p from usr s = send_where (\<lambda>c. Some c \<noteq> from) p usr s"

definition HandleKickUser :: "nat \<Rightarrow> u32 \<Rightarrow> im_user \<Rightarrow> server \<Rightarrow> server" where
  "HandleKickUser c reason usr s =
     (case map_find (u_conn_map usr) (c_handle (conns s c)) of
        None \<Rightarrow> s
      | Some c \<Rightarrow>
          let p = mk_pdu SID_LOGIN CID_LOGIN_KICK_USER 0 (IMKickUser (u_user_id usr) reason)
          in upd_conn c (\<lambda>m. m\<lparr>c_kick_off := True\<rparr>) (emit (ToClient c p) s))"

definition KickOutSameClientType :: "u32 \<Rightarrow> u32 \<Rightarrow> nat option \<Rightarrow> im_user \<Rightarrow> server \<Rightarrow> server" where
  "KickOutSameClientType client_type reason from usr s =
     (case find (\<lambda>(h, c). drop_bit 4 (xor (c_client_type (conns s c)) client_type) = 0 \<and> Some c \<noteq> from)
             (u_conn_map usr) of
        None \<Rightarrow> s
      | Some (h, c) \<Rightarrow> HandleKickUser c reason usr s)"

definition UserClientTypeFlag :: "server \<Rightarrow> im_user \<Rightarrow> u32" where
  "UserClientTypeFlag s usr =
     fold (\<lambda>(h, c) flag.
       if CHECK_CLIENT_TYPE_PC (c_client_type (conns s c)) then or flag CLIENT_TYPE_FLAG_PC
       else if CHECK_CLIENT_TYPE_MOBILE (c_client_type (conns s c)) then or flag CLIENT_TYPE_FLAG_MOBILE
       else flag) (u_conn_map usr) 0"

section \<open>The user manager\<close>

definition GetImUserByLoginName :: "server \<Rightarrow> string \<Rightarrow> nat option" where
  "GetImUserByLoginName s name = map_of (user_map_by_name s) name"

definition GetImUserById :: "server \<Rightarrow> uid \<Rightarrow> nat option" where
  "GetImUserById s i = map_find (user_map s) i"

text \<open>The result of a lookup that dereferences the user it finds.\<close>

definition GetMsgConnByHandle :: "server \<Rightarrow> uid \<Rightarrow> handle \<Rightarrow> nat option option" where
  "GetMsgConnByHandle s i h =
     (case GetImUserById s i of
        None \<Rightarrow> Some None
      | Some u \<Rightarrow> map_option (\<lambda>usr. GetMsgConn usr h) (users s u))"

definition AddImUserByLoginName :: "string \<Rightarrow> nat \<Rightarrow> server \<Rightarrow> bool \<times> server" where
  "AddImUserByLoginName name u s =
     (if GetImUserByLoginName s name = None
      then (True, s\<lparr>user_map_by_name := (name, u) # user_map_by_name s\<rparr>) else (False, s))"

definition RemoveImUserByLoginName :: "string \<Rightarrow> server \<Rightarrow> server" where
  "RemoveImUserByLoginName name s = s\<lparr>user_map_by_name := map_erase name (user_map_by_name s)\<rparr>"

definition AddImUserById :: "uid \<Rightarrow> nat \<Rightarrow> server \<Rightarrow> bool \<times> server" where
  "AddImUserById i u s =
     (if GetImUserById s i = None then (True, s\<lparr>user_map := map_put i u (user_map s)\<rparr>) else (False, s))"

definition RemoveImUserById :: "uid \<Rightarrow> server \<Rightarrow> server" where
  "RemoveImUserById i s = s\<lparr>user_map := map_erase i (user_map s)\<rparr>"

definition delete_user :: "nat \<Rightarrow> server \<Rightarrow> server option" where
  "delete_user u s = map_option (\<lambda>_. s\<lparr>users := (users s)(u := None)\<rparr>) (users s u)"

definition RemoveImUser :: "nat \<Rightarrow> server \<Rightarrow> server option" where
  "RemoveImUser u s =
     (case users s u of
        None \<Rightarrow> None
      | Some usr \<Rightarrow> delete_user u (RemoveImUserByLoginName (u_login_name usr) (RemoveImUserById (u_user_id usr) s)))"

fun delete_users :: "nat list \<Rightarrow> server \<Rightarrow> server option" where
  "delete_users [] s = Some s"
| "delete_users (u # us) s = (case delete_user u s of None \<Rightarrow> None | Some s \<Rightarrow> delete_users us s)"

definition RemoveAll :: "server \<Rightarrow> server option" where
  "RemoveAll s = map_option (\<lambda>s. s\<lparr>user_map_by_name := [], user_map := []\<rparr>)
     (delete_users (map snd (user_map_by_name s)) s)"

text \<open>The statistics walk over the users in id order. \<open>user_stat_t\<close> is (user id, status, client type).\<close>

fun online_info :: "server \<Rightarrow> (uid \<times> nat) list \<Rightarrow> (uid \<times> u32 \<times> u32) list option" where
  "online_info s [] = Some []"
| "online_info s ((i, u) # us) =
     (case (users s u, online_info s us) of
        (Some usr, Some rest) \<Rightarrow>
          Some ((if u_validate usr
                 then map (\<lambda>(h, c). (u_user_id usr, c_online_status (conns s c), c_client_type (conns s c)))
                   (filter (\<lambda>(h, c). c_open (conns s c)) (u_conn_map usr))
                 else []) @ rest)
      | _ \<Rightarrow> None)"

definition GetOnlineUserInfo :: "server \<Rightarrow> (uid \<times> u32 \<times> u32) list option" where
  "GetOnlineUserInfo s = online_info s (user_map s)"

fun user_conn_cnt :: "server \<Rightarrow> (uid \<times> nat) list \<Rightarrow> ((uid \<times> u32) list \<times> u32) option" where
  "user_conn_cnt s [] = Some ([], 0)"
| "user_conn_cnt s ((i, u) # us) =
     (case (users s u, user_conn_cnt s us) of
        (Some usr, Some (l, n)) \<Rightarrow>
          Some (if u_validate usr then (GetUserConn s usr # l, snd (GetUserConn s usr) + n) else (l, n))
      | _ \<Rightarrow> None)"

definition GetUserConnCnt :: "server \<Rightarrow> ((uid \<times> u32) list \<times> u32) option" where
  "GetUserConnCnt s = user_conn_cnt s (user_map s)"

fun broadcast_users :: "pdu \<Rightarrow> u32 \<Rightarrow> (uid \<times> nat) list \<Rightarrow> server \<Rightarrow> server option" where
  "broadcast_users p flag [] s = Some s"
| "broadcast_users p flag ((i, u) # us) s =
     (case users s u of
        None \<Rightarrow> None
      | Some usr \<Rightarrow>
          broadcast_users p flag us
            (if \<not> u_validate usr then s
             else if flag = CLIENT_TYPE_FLAG_PC then BroadcastPduWithOutMobile p None usr s
             else if flag = CLIENT_TYPE_FLAG_MOBILE then BroadcastPduToMobile p None usr s
             else if flag = CLIENT_TYPE_FLAG_BOTH then BroadcastPdu p None usr s
             else s))"

definition ManagerBroadcastPdu :: "pdu \<Rightarrow> u32 \<Rightarrow> server \<Rightarrow> server option" where
  "ManagerBroadcastPdu p flag s = broadcast_users p flag (user_map s) s"

end
