(* ===== verification/Msg_Group.thy ===== *)
theory Msg_Group
  imports Msg_Users
begin

text \<open>
  Group chat of the message server: \<open>msgserver/GroupChat.cpp\<close>. Requests of clients go to the
  database server with the handle of their connection attached; its responses are routed back by
  that handle. A group message is stored first, then the members are asked for, with the message
  attached to the question, and the answer distributes it.
\<close>

type_synonym client_handler = "env \<Rightarrow> nat \<Rightarrow> pdu \<Rightarrow> server \<Rightarrow> server option"
type_synonym db_handler = "env \<Rightarrow> pdu \<Rightarrow> server \<Rightarrow> server option"

section \<open>Sending\<close>

definition to_db :: "nat option \<Rightarrow> pdu \<Rightarrow> server \<Rightarrow> server" where
  "to_db d p s = (case d of None \<Rightarrow> s | Some d \<Rightarrow> emit (ToDb d p) s)"

definition to_route :: "env \<Rightarrow> pdu \<Rightarrow> server \<Rightarrow> server" where
  "to_route e p s = (case route_conn e of None \<Rightarrow> s | Some r \<Rightarrow> emit (ToRoute r p) s)"

definition to_client :: "nat option \<Rightarrow> pdu \<Rightarrow> server \<Rightarrow> server" where
  "to_client c p s = (case c of None \<Rightarrow> s | Some c \<Rightarrow> emit (ToClient c p) s)"

definition SendPduToUser :: "pdu \<Rightarrow> uid \<Rightarrow> nat option \<Rightarrow> server \<Rightarrow> server option" where
  "SendPduToUser p i from s =
     (case GetImUserById s i of
        None \<Rightarrow> Some s
      | Some u \<Rightarrow> map_option (\<lambda>usr. BroadcastPdu p from usr s) (users s u))"

fun SendPduToUsers :: "pdu \<Rightarrow> uid list \<Rightarrow> nat option \<Rightarrow> server \<Rightarrow> server option" where
  "SendPduToUsers p [] from s = Some s"
| "SendPduToUsers p (i # is) from s = do { s \<leftarrow> SendPduToUser p i from s; SendPduToUsers p is from s }"

section \<open>Requests of clients\<close>

definition HandleClientGroupNormalRequest :: client_handler where
  "HandleClientGroupNormalRequest e c p s =
     (case p_body p of
        Plain k i a r \<Rightarrow>
          Some (if k \<noteq> IMNormalGroupListReq then s
                else case db_other e of
                  Some d \<Rightarrow> emit (ToDb d (p\<lparr>p_body := Plain k (c_user_id (conns s c)) (AttHandle (c_handle (conns s c))) r\<rparr>)) s
                | None \<Rightarrow> emit (ToClient c (mk_pdu SID_GROUP CID_GROUP_NORMAL_LIST_RESPONSE (p_seq p)
                            (Plain IMNormalGroupListRsp 0 AttNone []))) s)
      | _ \<Rightarrow> Some s)"

definition HandleClientGroupInfoRequest :: client_handler where
  "HandleClientGroupInfoRequest e c p s =
     (case p_body p of
        IMGroupInfoListReq i gs a \<Rightarrow>
          Some (case db_other e of
                  Some d \<Rightarrow> emit (ToDb d (p\<lparr>p_body := IMGroupInfoListReq (c_user_id (conns s c)) gs
                              (AttHandle (c_handle (conns s c)))\<rparr>)) s
                | None \<Rightarrow> emit (ToClient c (mk_pdu SID_GROUP CID_GROUP_INFO_RESPONSE (p_seq p)
                            (IMGroupInfoListRsp (c_user_id (conns s c)) [] AttNone))) s)
      | _ \<Rightarrow> Some s)"

definition HandleClientGroupCreateRequest :: client_handler where
  "HandleClientGroupCreateRequest e c p s =
     (case p_body p of
        IMGroupCreateReq i name gtype a r \<Rightarrow>
          Some (if gtype = GROUP_TYPE_NORMAL then s
                else case db_other e of
                  Some d \<Rightarrow> emit (ToDb d (p\<lparr>p_body := IMGroupCreateReq (c_user_id (conns s c)) name gtype
                              (AttHandle (c_handle (conns s c))) r\<rparr>)) s
                | None \<Rightarrow> emit (ToClient c (mk_pdu SID_GROUP CID_GROUP_CREATE_RESPONSE (p_seq p)
                            (RefusedRsp IMGroupCreateRsp (c_user_id (conns s c)) 1 name))) s)
      | _ \<Rightarrow> Some s)"

definition HandleClientGroupChangeMemberRequest :: client_handler where
  "HandleClientGroupChangeMemberRequest e c p s =
     (case p_body p of
        IMGroupChangeMemberReq i ctype gid a r \<Rightarrow>
          Some (case db_other e of
                  Some d \<Rightarrow> emit (ToDb d (p\<lparr>p_body := IMGroupChangeMemberReq (c_user_id (conns s c)) ctype gid
                              (AttHandle (c_handle (conns s c))) r\<rparr>)) s
                | None \<Rightarrow> emit (ToClient c (mk_pdu SID_GROUP CID_GROUP_CHANGE_MEMBER_RESPONSE (p_seq p)
                            (IMGroupChangeMemberRsp (c_user_id (conns s c)) ctype 1 gid [] [] AttNone))) s)
      | _ \<Rightarrow> Some s)"

definition HandleClientGroupShieldGroupRequest :: client_handler where
  "HandleClientGroupShieldGroupRequest e c p s =
     (case p_body p of
        Plain k i a r \<Rightarrow>
          Some (if k \<noteq> IMGroupShieldReq then s
                else case db_other e of
                  Some d \<Rightarrow> emit (ToDb d (p\<lparr>p_body := Plain k (c_user_id (conns s c)) (AttHandle (c_handle (conns s c))) r\<rparr>)) s
                | None \<Rightarrow> emit (ToClient c (mk_pdu SID_GROUP CID_GROUP_SHIELD_GROUP_RESPONSE (p_seq p)
                            (RefusedRsp IMGroupShieldRsp (c_user_id (conns s c)) 1 []))) s)
      | _ \<Rightarrow> Some s)"

section \<open>Responses of the database server\<close>

text \<open>A response without the attached data goes to the connection it names, when that still exists.\<close>

definition respond :: "env \<Rightarrow> pdu \<Rightarrow> uid \<Rightarrow> attach \<Rightarrow> body \<Rightarrow> server \<Rightarrow> server option" where
  "respond e p i a b s =
     map_option (\<lambda>c. to_client c (p\<lparr>p_body := b\<rparr>) s) (GetMsgConnByHandle s i (att_handle e a))"

definition HandleGroupNormalResponse :: db_handler where
  "HandleGroupNormalResponse e p s =
     (case p_body p of
        Plain k i a r \<Rightarrow> if k = IMNormalGroupListRsp then respond e p i a (Plain k i AttNone r) s else Some s
      | _ \<Rightarrow> Some s)"

definition HandleGroupCreateResponse :: db_handler where
  "HandleGroupCreateResponse e p s =
     (case p_body p of
        Plain k i a r \<Rightarrow> if k = IMGroupCreateRsp then respond e p i a (Plain k i AttNone r) s else Some s
      | _ \<Rightarrow> Some s)"

definition HandleGroupShieldGroupResponse :: db_handler where
  "HandleGroupShieldGroupResponse e p s =
     (case p_body p of
        Plain k i a r \<Rightarrow> if k = IMGroupShieldRsp then respond e p i a (Plain k i AttNone r) s else Some s
      | _ \<Rightarrow> Some s)"

text \<open>The distribution loop of \<open>HandleGroupInfoResponse\<close>.\<close>

fun distribute :: "pdu \<Rightarrow> uid \<Rightarrow> handle \<Rightarrow> uid list \<Rightarrow> server \<Rightarrow> server option" where
  "distribute p i req_handle [] s = Some s"
| "distribute p i req_handle (m # ms) s =
     (case GetImUserById s m of
        None \<Rightarrow> distribute p i req_handle ms s
      | Some u \<Rightarrow> do {
          from \<leftarrow> (if m = i \<and> req_handle \<noteq> 0 then GetMsgConnByHandle s i req_handle else Some None);
          usr \<leftarrow> users s u;
          distribute p i req_handle ms (BroadcastData p from usr s)
        })"

definition HandleGroupInfoResponse :: db_handler where
  "HandleGroupInfoResponse e p s =
     (case p_body p of
        IMGroupInfoListRsp i gs a \<Rightarrow>
          (case (att_pdu a, gs) of
             (Some b, g # _) \<Rightarrow>
               if i \<notin> set (gi_members g) then Some s
               else (case b of
                 IMMsgData md ma \<Rightarrow> do {
                   s \<leftarrow> distribute (mk_pdu SID_MSG CID_MSG_DATA 0 (IMMsgData md ma)) i (att_handle e a) (gi_members g) s;
                   Some (to_db (db_other e) (mk_pdu SID_OTHER CID_OTHER_GET_SHIELD_REQ 0
                           (IMGroupGetShieldReq (gi_group_id g) (gi_members g) (IMMsgData md ma))) s)
                 }
               | _ \<Rightarrow> Some s)
           | (Some b, []) \<Rightarrow> Some s
           | (None, _) \<Rightarrow> respond e p i a (IMGroupInfoListRsp i gs AttNone) s)
      | _ \<Rightarrow> Some s)"

definition HandleGroupMessage :: db_handler where
  "HandleGroupMessage e p s =
     (case p_body p of
        IMMsgData md a \<Rightarrow>
          if md_msg_id md = 0 then Some s
          else do {
            c \<leftarrow> GetMsgConnByHandle s (md_from md) (att_handle e a);
            let s = to_client c (mk_pdu SID_MSG CID_MSG_DATA_ACK (p_seq p)
                      (IMMsgDataAck (md_from md) (md_msg_id md) (md_to_session md) SESSION_TYPE_GROUP)) s;
            let s = to_route e p s;
            Some (to_db (db_other e) (mk_pdu SID_GROUP CID_GROUP_INFO_REQUEST 0
              (IMGroupInfoListReq (md_from md) [(md_to_session md, 0)] (AttPdu (att_handle e a) (p_body p)))) s)
          }
      | _ \<Rightarrow> Some s)"

definition HandleGroupMessageBroadcast :: db_handler where
  "HandleGroupMessageBroadcast e p s =
     (case p_body p of
        IMMsgData md a \<Rightarrow>
          Some (to_db (db_other e) (mk_pdu SID_GROUP CID_GROUP_INFO_REQUEST 0
            (IMGroupInfoListReq (md_from md) [(md_to_session md, 0)] (AttPdu 0 (p_body p)))) s)
      | _ \<Rightarrow> Some s)"

definition HandleGroupChangeMemberResponse :: db_handler where
  "HandleGroupChangeMemberResponse e p s =
     (case p_body p of
        IMGroupChangeMemberRsp i ctype result gid chg cur a \<Rightarrow> do {
          c \<leftarrow> GetMsgConnByHandle s i (att_handle e a);
          let s = to_client c (p\<lparr>p_body := IMGroupChangeMemberRsp i ctype result gid chg cur AttNone\<rparr>) s;
          (if result \<noteq> 0 then Some s
           else do {
             let q = mk_pdu SID_GROUP CID_GROUP_CHANGE_MEMBER_NOTIFY 0 (IMGroupChangeMemberNotify i ctype gid chg cur);
             let s = to_route e q s;
             s \<leftarrow> SendPduToUsers q chg c s;
             SendPduToUsers q cur c s
           })
        }
      | _ \<Rightarrow> Some s)"

definition HandleGroupChangeMemberBroadcast :: db_handler where
  "HandleGroupChangeMemberBroadcast e p s =
     (case p_body p of
        IMGroupChangeMemberNotify i ctype gid chg cur \<Rightarrow> do {
          s \<leftarrow> SendPduToUsers p chg None s;
          SendPduToUsers p cur None s
        }
      | _ \<Rightarrow> Some s)"

definition HandleGroupGetShieldByGroupResponse :: db_handler where
  "HandleGroupGetShieldByGroupResponse e p s =
     (case p_body p of
        IMGroupGetShieldRsp sts b \<Rightarrow>
          Some (to_db (db_other e) (mk_pdu SID_OTHER CID_OTHER_GET_DEVICE_TOKEN_REQ 0
            (IMGetDeviceTokenReq (map sh_user_id (filter (\<lambda>st. sh_shield_status st = 0) sts)) b)) s)
      | _ \<Rightarrow> Some s)"

end
