(* ===== verification/Msg_Conn.thy ===== *)
theory Msg_Conn
  imports Msg_Group
begin

text \<open>
  A client connection of the message server: \<open>msgserver/MsgConn.cpp\<close> and the part of
  \<open>base/ImConn.cpp\<close> that hands packets to it. Each handler of a client packet is a function of the
  environment, the connection, the packet and the server.
\<close>

section \<open>Status updates and closing\<close>

definition SendUserStatusUpdate :: "nat \<Rightarrow> u32 \<Rightarrow> server \<Rightarrow> server option" where
  "SendUserStatusUpdate c status s =
     (if \<not> c_open (conns s c) then Some s
      else case GetImUserById s (c_user_id (conns s c)) of
        None \<Rightarrow> Some s
      | Some u \<Rightarrow> do {
          usr \<leftarrow> users s u;
          let update = (\<lambda>action. emit (ToAllRoute (mk_pdu SID_OTHER CID_OTHER_USER_STATUS_UPDATE 0
                           (IMUserStatusUpdate status (u_user_id usr) (c_client_type (conns s c)))))
                         (emit (ToAllLogin (mk_pdu SID_OTHER CID_OTHER_USER_CNT_UPDATE 0
                           (IMUserCntUpdate action (u_user_id usr)))) s));
          Some (if status = USER_STATUS_ONLINE then update USER_CNT_INC
                else if status = USER_STATUS_OFFLINE then update USER_CNT_DEC
                else s)
        })"

definition RemoveIfEmpty :: "nat \<Rightarrow> server \<Rightarrow> server option" where
  "RemoveIfEmpty u s = do { usr \<leftarrow> users s u; (if IsMsgConnEmpty usr then RemoveImUser u s else Some s) }"

definition Close :: "nat \<Rightarrow> server \<Rightarrow> server option" where
  "Close c s =
     (let m = conns s c;
          s = (if c_handle m \<noteq> NETLIB_INVALID_HANDLE
               then (emit (CloseSocket c) s)\<lparr>msg_conn_map := map_erase (c_handle m) (msg_conn_map s)\<rparr> else s)
      in do {
        s \<leftarrow> (case GetImUserById s (c_user_id m) of
               None \<Rightarrow> Some s
             | Some u \<Rightarrow> do {
                 s \<leftarrow> upd_user u (DelMsgConn (c_handle m)) s;
                 s \<leftarrow> upd_user u (DelUnValidateMsgConn c) s;
                 s \<leftarrow> SendUserStatusUpdate c USER_STATUS_OFFLINE s;
                 RemoveIfEmpty u s
               });
        (case GetImUserByLoginName s (c_login_name m) of
           None \<Rightarrow> Some s
         | Some u \<Rightarrow> do {
             s \<leftarrow> upd_user u (DelUnValidateMsgConn c) s;
             RemoveIfEmpty u s
           })
      })"

section \<open>Timer\<close>

fun purge_acks :: "nat \<Rightarrow> msg_ack list \<Rightarrow> nat \<times> msg_ack list" where
  "purge_acks t [] = (0, [])"
| "purge_acks t (m # ms) =
     (if t \<ge> ack_timestamp m + TIMEOUT_WAITING_MSG_DATA_ACK
      then (case purge_acks t ms of (n, ms) \<Rightarrow> (Suc n, ms)) else (0, m # ms))"

definition conn_timed_out :: "nat \<Rightarrow> msg_conn \<Rightarrow> bool" where
  "conn_timed_out t m \<longleftrightarrow>
     (if CHECK_CLIENT_TYPE_MOBILE (c_client_type m) then t > c_last_recv_tick m + MOBILE_CLIENT_TIMEOUT
      else t > c_last_recv_tick m + CLIENT_TIMEOUT) \<or>
     \<not> c_open m \<and> t > c_login_time m + TIMEOUT_WATI_LOGIN_RESPONSE"

definition OnTimer :: "nat \<Rightarrow> nat \<Rightarrow> server \<Rightarrow> server option" where
  "OnTimer t c s =
     (let s = upd_conn c (\<lambda>m. m\<lparr>c_msg_cnt_per_sec := 0\<rparr>) s
      in if conn_timed_out t (conns s c) then Close c s
         else
           let (n, acks) = purge_acks t (c_send_msg_list (conns s c));
               s = upd_conn c (\<lambda>m. m\<lparr>c_send_msg_list := acks\<rparr>) s
           in Some (s\<lparr>down_msg_miss_cnt := down_msg_miss_cnt s + of_nat n\<rparr>))"

fun timer_each :: "nat \<Rightarrow> (handle \<times> nat) list \<Rightarrow> server \<Rightarrow> server option" where
  "timer_each t [] s = Some s"
| "timer_each t ((h, c) # cs) s = do { s \<leftarrow> OnTimer t c s; timer_each t cs s }"

text \<open>\<open>connMap\<close> is a hash map: the order in which its entries are visited is a parameter.\<close>

definition msg_conn_timer_callback :: "nat \<Rightarrow> ((handle \<times> nat) list \<Rightarrow> (handle \<times> nat) list) \<Rightarrow> server \<Rightarrow> server option" where
  "msg_conn_timer_callback t order s = timer_each t (order (msg_conn_map s)) s"

section \<open>Requests of clients\<close>

definition server_exception :: string where
  "server_exception = map char_of [0xE6, 0x9C, 0x8D, 0xE5, 0x8A, 0xA1, 0xE7, 0xAB, 0xAF, 0xE5, 0xBC, 0x82, 0xE5, 0xB8, 0xB8 :: nat]"

definition HandleHeartBeat :: client_handler where
  "HandleHeartBeat e c p s = Some (emit (ToClient c p) s)"

definition login_refusal :: "env \<Rightarrow> u32" where
  "login_refusal e =
     (if db_for_login e = None then REFUSE_REASON_NO_DB_SERVER
      else if \<not> login_server_up e then REFUSE_REASON_NO_LOGIN_SERVER
      else if \<not> route_server_up e then REFUSE_REASON_NO_ROUTE_SERVER else 0)"

definition login_user :: "string \<Rightarrow> server \<Rightarrow> nat \<times> server" where
  "login_user name s =
     (case GetImUserByLoginName s name of
        Some u \<Rightarrow> (u, s)
      | None \<Rightarrow> (next_user s, snd (AddImUserByLoginName name (next_user s)
          (s\<lparr>users := (users s)(next_user s \<mapsto> new_user name), next_user := next_user s + 1\<rparr>))))"

definition HandleLoginRequest :: client_handler where
  "HandleLoginRequest e c p s =
     (if c_login_name (conns s c) \<noteq> [] then Some s
      else if login_refusal e \<noteq> 0 then
        Close c (emit (ToClient c (mk_pdu SID_LOGIN CID_LOGIN_RES_USERLOGIN (p_seq p)
          (IMLoginRes (now e) (login_refusal e) server_exception None None))) s)
      else case p_body p of
        IMLoginReq name password status version ctype \<Rightarrow> do {
          let status = (if status < USER_STATUS_ONLINE \<or> status > USER_STATUS_LEAVE then USER_STATUS_ONLINE else status);
          let s = upd_conn c (\<lambda>m. m\<lparr>c_login_name := name, c_client_version := version, c_client_type := ctype,
                    c_online_status := status\<rparr>) s;
          let (u, s) = login_user name s;
          s \<leftarrow> upd_user u (AddUnValidateMsgConn c) s;
          Some (to_db (db_for_login e) (mk_pdu SID_OTHER CID_OTHER_VALIDATE_REQ (p_seq p)
            (IMValidateReq name password (AttHandle (c_handle (conns s c))))) s)
        }
      | _ \<Rightarrow> Some s)"

definition HandleLoginOutRequest :: client_handler where
  "HandleLoginOutRequest e c p s =
     (let s = to_db (db_other e) (mk_pdu SID_LOGIN CID_LOGIN_REQ_DEVICETOKEN (p_seq p)
                (IMDeviceTokenReq (c_user_id (conns s c)) [] None)) s;
          s = emit (ToClient c (mk_pdu SID_LOGIN CID_LOGIN_RES_LOGINOUT (p_seq p) (IMLogoutRsp 0))) s
      in Close c s)"

definition HandleKickPCClient :: client_handler where
  "HandleKickPCClient e c p s =
     (case p_body p of
        IMKickPCClientReq \<Rightarrow>
          if \<not> CHECK_CLIENT_TYPE_MOBILE (c_client_type (conns s c)) then Some s
          else do {
            let i = c_user_id (conns s c);
            s \<leftarrow> (case GetImUserById s i of
                   None \<Rightarrow> Some s
                 | Some u \<Rightarrow> map_option (\<lambda>usr. KickOutSameClientType CLIENT_TYPE_MAC KICK_REASON_MOBILE_KICK (Some c) usr s)
                     (users s u));
            let s = to_route e (mk_pdu SID_OTHER CID_OTHER_SERVER_KICK_USER 0
                      (IMServerKickUser i CLIENT_TYPE_MAC KICK_REASON_MOBILE_KICK)) s;
            Some (emit (ToClient c (mk_pdu SID_LOGIN CID_LOGIN_RES_KICKPCCLIENT (p_seq p) (IMKickPCClientRsp i 0))) s)
          }
      | _ \<Rightarrow> Some s)"

text \<open>The common shape of a request that is passed on: the user id, and usually the attached data,
  are overwritten.\<close>

definition pass_on :: "pb_kind \<Rightarrow> (pdu \<Rightarrow> server \<Rightarrow> server) \<Rightarrow> (handle \<Rightarrow> attach \<Rightarrow> attach) \<Rightarrow> nat \<Rightarrow> pdu
    \<Rightarrow> server \<Rightarrow> server option" where
  "pass_on kind send att c p s =
     (case p_body p of
        Plain k i a r \<Rightarrow>
          Some (if k = kind
                then send (p\<lparr>p_body := Plain k (c_user_id (conns s c)) (att (c_handle (conns s c)) a) r\<rparr>) s
                else s)
      | _ \<Rightarrow> Some s)"

definition HandleClientRecentContactSessionRequest :: client_handler where
  "HandleClientRecentContactSessionRequest e = pass_on IMRecentContactSessionReq (to_db (db_for_login e)) (\<lambda>h a. AttHandle h)"

definition HandleClientGetMsgListRequest :: client_handler where
  "HandleClientGetMsgListRequest e = pass_on IMGetMsgListReq (to_db (db_for_login e)) (\<lambda>h a. AttHandle h)"

definition HandleClientGetMsgByMsgIdRequest :: client_handler where
  "HandleClientGetMsgByMsgIdRequest e = pass_on IMGetMsgByIdReq (to_db (db_for_login e)) (\<lambda>h a. AttHandle h)"

definition HandleClientUnreadMsgCntRequest :: client_handler where
  "HandleClientUnreadMsgCntRequest e = pass_on IMUnreadMsgCntReq (to_db (db_for_login e)) (\<lambda>h a. AttHandle h)"

definition HandleClientGetLatestMsgIDReq :: client_handler where
  "HandleClientGetLatestMsgIDReq e = pass_on IMGetLatestMsgIdReq (to_db (db_other e)) (\<lambda>h a. AttHandle h)"

definition HandleClientUserInfoRequest :: client_handler where
  "HandleClientUserInfoRequest e = pass_on IMUsersInfoReq (to_db (db_for_login e)) (\<lambda>h a. AttHandle h)"

definition HandleClientAllUserRequest :: client_handler where
  "HandleClientAllUserRequest e = pass_on IMAllUserReq (to_db (db_other e)) (\<lambda>h a. AttHandle h)"

definition HandleChangeAvatarRequest :: client_handler where
  "HandleChangeAvatarRequest e = pass_on IMChangeAvatarReq (to_db (db_other e)) (\<lambda>h a. a)"

definition HandleClientDepartmentRequest :: client_handler where
  "HandleClientDepartmentRequest e = pass_on IMDepartmentReq (to_db (db_other e)) (\<lambda>h a. AttHandle h)"

definition HandleChangeSignInfoRequest :: client_handler where
  "HandleChangeSignInfoRequest e = pass_on IMChangeSignInfoReq (to_db (db_other e)) (\<lambda>h a. AttHandle h)"

definition HandlePushShieldRequest :: client_handler where
  "HandlePushShieldRequest e = pass_on IMPushShieldReq (to_db (db_other e)) (\<lambda>h a. AttHandle h)"

definition HandleQueryPushShieldRequest :: client_handler where
  "HandleQueryPushShieldRequest e = pass_on IMQueryPushShieldReq (to_db (db_other e)) (\<lambda>h a. AttHandle h)"

definition HandleClientMsgData :: client_handler where
  "HandleClientMsgData e c p s =
     (case p_body p of
        IMMsgData md a \<Rightarrow>
          Some (if md_data md = [] then s
                else if c_msg_cnt_per_sec (conns s c) \<ge> MAX_MSG_CNT_PER_SECOND then s
                else if md_from md = md_to_session md \<and> CHECK_MSG_TYPE_SINGLE (md_type md) then s
                else
                  let s = upd_conn c (\<lambda>m. m\<lparr>c_msg_cnt_per_sec := c_msg_cnt_per_sec m + 1\<rparr>) s
                  in to_db (db_other e) (p\<lparr>p_body := IMMsgData (md\<lparr>md_from := c_user_id (conns s c), md_create_time := now e\<rparr>)
                       (AttHandle (c_handle (conns s c)))\<rparr>) s)
      | _ \<Rightarrow> Some s)"

definition HandleClientMsgDataAck :: client_handler where
  "HandleClientMsgDataAck e c p s =
     (case p_body p of
        IMMsgDataAck i msg_id session_id session_type \<Rightarrow>
          Some (if session_type = SESSION_TYPE_SINGLE then DelFromSendList c msg_id session_id s else s)
      | _ \<Rightarrow> Some s)"

definition HandleClientTimeRequest :: client_handler where
  "HandleClientTimeRequest e c p s =
     Some (emit (ToClient c (mk_pdu SID_MSG CID_MSG_TIME_RESPONSE (p_seq p) (IMClientTimeRsp (now e)))) s)"

text \<open>\<open>GetImUserById(i)\<close> and, when there is one, \<open>BroadcastPdu\<close>.\<close>

definition notify_user :: "uid \<Rightarrow> pdu \<Rightarrow> nat option \<Rightarrow> server \<Rightarrow> server option" where
  "notify_user i p from s = SendPduToUser p i from s"

definition HandleClientMsgReadAck :: client_handler where
  "HandleClientMsgReadAck e c p s =
     (case p_body p of
        IMMsgDataReadAck i session_id msg_id session_type \<Rightarrow> do {
          let i = c_user_id (conns s c);
          let s = to_db (db_other e) (p\<lparr>p_body := IMMsgDataReadAck i session_id msg_id session_type\<rparr>) s;
          let q = mk_pdu SID_MSG CID_MSG_READ_NOTIFY 0 (IMMsgDataReadNotify i session_id msg_id session_type);
          s \<leftarrow> notify_user i q (Some c) s;
          let s = to_route e q s;
          Some (if session_type = SESSION_TYPE_SINGLE then DelFromSendList c msg_id session_id s else s)
        }
      | _ \<Rightarrow> Some s)"

definition HandleClientP2PCmdMsg :: client_handler where
  "HandleClientP2PCmdMsg e c p s =
     (case p_body p of
        IMP2PCmdMsg from_id to_id cmd \<Rightarrow> do {
          s \<leftarrow> notify_user (c_user_id (conns s c)) p (Some c) s;
          s \<leftarrow> notify_user to_id p None s;
          Some (to_route e p s)
        }
      | _ \<Rightarrow> Some s)"

definition HandleClientRemoveSessionRequest :: client_handler where
  "HandleClientRemoveSessionRequest e c p s =
     (case p_body p of
        IMRemoveSessionReq i session_type session_id a \<Rightarrow> do {
          let i = c_user_id (conns s c);
          let s = to_db (db_other e) (p\<lparr>p_body := IMRemoveSessionReq i session_type session_id
                    (AttHandle (c_handle (conns s c)))\<rparr>) s;
          (if session_type = SESSION_TYPE_SINGLE then do {
             let q = mk_pdu SID_BUDDY_LIST CID_BUDDY_LIST_REMOVE_SESSION_NOTIFY 0
                       (IMRemoveSessionNotify i session_id session_type);
             s \<leftarrow> notify_user i q (Some c) s;
             Some (to_route e q s)
           }
           else Some s)
        }
      | _ \<Rightarrow> Some s)"

definition HandleClientUsersStatusRequest :: client_handler where
  "HandleClientUsersStatusRequest e c p s =
     (case p_body p of
        IMUsersStatReq i ids a \<Rightarrow>
          Some (to_route e (p\<lparr>p_body := IMUsersStatReq (c_user_id (conns s c)) ids (AttHandle (c_handle (conns s c)))\<rparr>) s)
      | _ \<Rightarrow> Some s)"

text \<open>The response is built from \<open>msg2\<close>, whose fields are never set.\<close>

definition HandleClientDeviceToken :: client_handler where
  "HandleClientDeviceToken e c p s =
     (if \<not> CHECK_CLIENT_TYPE_MOBILE (c_client_type (conns s c)) then Some s
      else case p_body p of
        IMDeviceTokenReq i token t \<Rightarrow>
          let s = emit (ToClient c (mk_pdu SID_LOGIN CID_LOGIN_RES_DEVICETOKEN (p_seq p) (IMDeviceTokenRsp None None))) s
          in Some (to_db (db_other e) (p\<lparr>p_body := IMDeviceTokenReq (c_user_id (conns s c)) token
                (Some (c_client_type (conns s c)))\<rparr>) s)
      | _ \<Rightarrow> Some s)"

text \<open>The file handler is not part of the repository: the packet is handed to it.\<close>

definition HandleFileRequest :: client_handler where
  "HandleFileRequest e c p s = Some (emit (FileOut c p) s)"

section \<open>Dispatch\<close>

definition dispatch :: "u16 \<Rightarrow> client_handler" where
  "dispatch cid =
     (if cid = CID_OTHER_HEARTBEAT then HandleHeartBeat
      else if cid = CID_LOGIN_REQ_USERLOGIN then HandleLoginRequest
      else if cid = CID_LOGIN_REQ_LOGINOUT then HandleLoginOutRequest
      else if cid = CID_LOGIN_REQ_DEVICETOKEN then HandleClientDeviceToken
      else if cid = CID_LOGIN_REQ_KICKPCCLIENT then HandleKickPCClient
      else if cid = CID_LOGIN_REQ_PUSH_SHIELD then HandlePushShieldRequest
      else if cid = CID_LOGIN_REQ_QUERY_PUSH_SHIELD then HandleQueryPushShieldRequest
      else if cid = CID_MSG_DATA then HandleClientMsgData
      else if cid = CID_MSG_DATA_ACK then HandleClientMsgDataAck
      else if cid = CID_MSG_TIME_REQUEST then HandleClientTimeRequest
      else if cid = CID_MSG_LIST_REQUEST then HandleClientGetMsgListRequest
      else if cid = CID_MSG_GET_BY_MSG_ID_REQ then HandleClientGetMsgByMsgIdRequest
      else if cid = CID_MSG_UNREAD_CNT_REQUEST then HandleClientUnreadMsgCntRequest
      else if cid = CID_MSG_READ_ACK then HandleClientMsgReadAck
      else if cid = CID_MSG_GET_LATEST_MSG_ID_REQ then HandleClientGetLatestMsgIDReq
      else if cid = CID_SWITCH_P2P_CMD then HandleClientP2PCmdMsg
      else if cid = CID_BUDDY_LIST_RECENT_CONTACT_SESSION_REQUEST then HandleClientRecentContactSessionRequest
      else if cid = CID_BUDDY_LIST_USER_INFO_REQUEST then HandleClientUserInfoRequest
      else if cid = CID_BUDDY_LIST_REMOVE_SESSION_REQ then HandleClientRemoveSessionRequest
      else if cid = CID_BUDDY_LIST_ALL_USER_REQUEST then HandleClientAllUserRequest
      else if cid = CID_BUDDY_LIST_CHANGE_AVATAR_REQUEST then HandleChangeAvatarRequest
      else if cid = CID_BUDDY_LIST_CHANGE_SIGN_INFO_REQUEST then HandleChangeSignInfoRequest
      else if cid = CID_BUDDY_LIST_USERS_STATUS_REQUEST then HandleClientUsersStatusRequest
      else if cid = CID_BUDDY_LIST_DEPARTMENT_REQUEST then HandleClientDepartmentRequest
      else if cid = CID_GROUP_NORMAL_LIST_REQUEST then HandleClientGroupNormalRequest
      else if cid = CID_GROUP_INFO_REQUEST then HandleClientGroupInfoRequest
      else if cid = CID_GROUP_CREATE_REQUEST then HandleClientGroupCreateRequest
      else if cid = CID_GROUP_CHANGE_MEMBER_REQUEST then HandleClientGroupChangeMemberRequest
      else if cid = CID_GROUP_SHIELD_GROUP_REQUEST then HandleClientGroupShieldGroupRequest
      else if cid = CID_FILE_REQUEST \<or> cid = CID_FILE_HAS_OFFLINE_REQ \<or> cid = CID_FILE_ADD_OFFLINE_REQ
          \<or> cid = CID_FILE_DEL_OFFLINE_REQ then HandleFileRequest
      else (\<lambda>e c p s. Some s))"

datatype pdu_error = ERROR_CODE_WRONG_SERVICE_ID

definition HandlePdu :: "env \<Rightarrow> nat \<Rightarrow> pdu \<Rightarrow> server \<Rightarrow> (pdu_error + server) option" where
  "HandlePdu e c p s =
     (if p_cid p \<noteq> CID_LOGIN_REQ_USERLOGIN \<and> \<not> c_open (conns s c) \<and> c_kick_off (conns s c)
      then Some (Inl ERROR_CODE_WRONG_SERVICE_ID)
      else map_option Inr (dispatch (p_cid p) e c p s))"

text \<open>One round of \<open>ImConn::onRead\<close>: an exception of the handler closes the connection.\<close>

definition on_client_pdu :: "env \<Rightarrow> nat \<Rightarrow> pdu \<Rightarrow> server \<Rightarrow> server option" where
  "on_client_pdu e c p s = do { r \<leftarrow> HandlePdu e c p s; (case r of Inl _ \<Rightarrow> Close c s | Inr s \<Rightarrow> Some s) }"

text \<open>
  \<open>ImConn::onRead\<close> on the packets that the input buffer holds, each with what its handler finds;
  \<open>None\<close> is a header that \<open>ReadPdu\<close> refuses with an exception. The loop does not look whether the
  connection has been closed: it goes on with the packets behind the one that closed it.
\<close>

type_synonym input = "(env \<times> pdu option) list"

fun on_read :: "nat \<Rightarrow> input \<Rightarrow> server \<Rightarrow> server option" where
  "on_read c [] s = Some s"
| "on_read c ((e, None) # ps) s = Close c s"
| "on_read c ((e, Some p) # ps) s = do {
     r \<leftarrow> HandlePdu e c p s;
     (case r of Inl _ \<Rightarrow> Close c s | Inr s \<Rightarrow> on_read c ps s)
   }"

definition OnConnect :: "env \<Rightarrow> handle \<Rightarrow> u32 \<Rightarrow> server \<Rightarrow> server" where
  "OnConnect e h ctype s =
     s\<lparr>conns := (conns s)(next_conn s := new_conn h ctype (tick e)), next_conn := next_conn s + 1,
       msg_conn_map := map_insert h (next_conn s) (msg_conn_map s)\<rparr>"

end
