(* ===== verification/Msg_Db.thy ===== *)
theory Msg_Db
  imports Msg_Conn
begin

text \<open>
  Packets from the database server: \<open>msgserver/DBServConn.cpp\<close>. Most answer a request of a client
  and go back to the connection whose handle they carry; \<open>HandleValidateResponse\<close> ends a login and
  \<open>HandleMsgData\<close> delivers a stored message. Of the database connections themselves
  (\<open>Msg_Serv\<close>) only the open flag matters here.
\<close>

section \<open>Login\<close>

text \<open>The successful branch of \<open>_HandleValidateResponse\<close>: connection \<open>c\<close> of user \<open>u\<close> becomes a
  connection of the user with the id of the response, who may be another object.\<close>

definition adopt_conn :: "nat \<Rightarrow> nat \<Rightarrow> string \<Rightarrow> uid \<Rightarrow> server \<Rightarrow> (nat \<times> server) option" where
  "adopt_conn u c name i s =
     (case GetImUserById s i of
        None \<Rightarrow> Some (u, s)
      | Some v \<Rightarrow> do {
          s \<leftarrow> upd_user v (AddUnValidateMsgConn c) s;
          s \<leftarrow> upd_user u (DelUnValidateMsgConn c) s;
          usr \<leftarrow> users s u;
          s \<leftarrow> (if IsMsgConnEmpty usr then delete_user u (RemoveImUserByLoginName name s) else Some s);
          Some (v, s)
        })"

definition login_success :: "env \<Rightarrow> u16 \<Rightarrow> nat \<Rightarrow> nat \<Rightarrow> string \<Rightarrow> string \<Rightarrow> user_info \<Rightarrow> server \<Rightarrow> server option" where
  "login_success e seq u c name result_string info s = do {
     let i = ui_user_id info;
     (v, s) \<leftarrow> adopt_conn u c name i s;
     s \<leftarrow> upd_user v (\<lambda>x. x\<lparr>u_user_id := i, u_nick_name := ui_nick_name info, u_validate := True\<rparr>) s;
     let s = snd (AddImUserById i v s);
     usr \<leftarrow> users s v;
     let s = KickOutSameClientType (c_client_type (conns s c)) KICK_REASON_DUPLICATE_USER (Some c) usr s;
     let s = to_route e (mk_pdu SID_OTHER CID_OTHER_SERVER_KICK_USER 0
               (IMServerKickUser i (c_client_type (conns s c)) 1)) s;
     let s = upd_conn c (\<lambda>m. m\<lparr>c_user_id := i, c_open := True\<rparr>) s;
     s \<leftarrow> SendUserStatusUpdate c USER_STATUS_ONLINE s;
     s \<leftarrow> upd_user v (ValidateMsgConn (c_handle (conns s c)) c) s;
     Some (emit (ToClient c (mk_pdu SID_LOGIN CID_LOGIN_RES_USERLOGIN seq
       (IMLoginRes (now e) REFUSE_REASON_NONE result_string (Some (c_online_status (conns s c))) (Some info)))) s)
   }"

definition HandleValidateResponse :: db_handler where
  "HandleValidateResponse e p s =
     (case p_body p of
        IMValidateRsp name result result_string info a \<Rightarrow>
          (case GetImUserByLoginName s name of
             None \<Rightarrow> Some s
           | Some u \<Rightarrow> do {
               usr \<leftarrow> users s u;
               (case GetUnValidateMsgConn s usr (att_handle e a) of
                  None \<Rightarrow> Some s
                | Some c \<Rightarrow>
                    if c_open (conns s c) then Some s
                    else if result = 0 then login_success e (p_seq p) u c name result_string info s
                    else Close c (emit (ToClient c (mk_pdu SID_LOGIN CID_LOGIN_RES_USERLOGIN (p_seq p)
                      (IMLoginRes (now e) REFUSE_REASON_DB_VALIDATE_FAILED result_string None None))) s))
             })
      | _ \<Rightarrow> Some s)"

section \<open>Answers to requests\<close>

text \<open>The answer goes, without its attached data, to an open connection of the user.\<close>

definition answer :: "env \<Rightarrow> pdu \<Rightarrow> uid \<Rightarrow> attach \<Rightarrow> body \<Rightarrow> server \<Rightarrow> server option" where
  "answer e p i a b s =
     map_option (\<lambda>c. case c of
         None \<Rightarrow> s
       | Some c \<Rightarrow> if c_open (conns s c) then emit (ToClient c (p\<lparr>p_body := b\<rparr>)) s else s)
       (GetMsgConnByHandle s i (att_handle e a))"

definition answer_plain :: "pb_kind \<Rightarrow> db_handler" where
  "answer_plain kind e p s =
     (case p_body p of
        Plain k i a r \<Rightarrow> if k = kind then answer e p i a (Plain k i AttNone r) s else Some s
      | _ \<Rightarrow> Some s)"

definition HandleRecentSessionResponse :: db_handler where
  "HandleRecentSessionResponse = answer_plain IMRecentContactSessionRsp"

definition HandleAllUserResponse :: db_handler where
  "HandleAllUserResponse = answer_plain IMAllUserRsp"

definition HandleGetMsgListResponse :: db_handler where
  "HandleGetMsgListResponse = answer_plain IMGetMsgListRsp"

definition HandleGetMsgByIdResponse :: db_handler where
  "HandleGetMsgByIdResponse = answer_plain IMGetMsgByIdRsp"

definition HandleGetLatestMsgIDRsp :: db_handler where
  "HandleGetLatestMsgIDRsp = answer_plain IMGetLatestMsgIdRsp"

definition HandleUnreadMsgCountResponse :: db_handler where
  "HandleUnreadMsgCountResponse = answer_plain IMUnreadMsgCntRsp"

definition HandleUsersInfoResponse :: db_handler where
  "HandleUsersInfoResponse = answer_plain IMUsersInfoRsp"

definition HandleRemoveSessionResponse :: db_handler where
  "HandleRemoveSessionResponse = answer_plain IMRemoveSessionRsp"

definition HandleDepartmentResponse :: db_handler where
  "HandleDepartmentResponse = answer_plain IMDepartmentRsp"

definition HandlePushShieldResponse :: db_handler where
  "HandlePushShieldResponse = answer_plain IMPushShieldRsp"

definition HandleQueryPushShieldResponse :: db_handler where
  "HandleQueryPushShieldResponse = answer_plain IMQueryPushShieldRsp"

definition HandleChangeAvatarResponse :: db_handler where
  "HandleChangeAvatarResponse e p s =
     (case p_body p of
        Plain k i a r \<Rightarrow>
          if k = IMChangeAvatarRsp then SendPduToUser (p\<lparr>p_body := Plain k i AttNone r\<rparr>) i None s else Some s
      | _ \<Rightarrow> Some s)"

definition HandleSetDeviceTokenResponse :: db_handler where
  "HandleSetDeviceTokenResponse e p s = Some s"

definition HandleChangeSignInfoResponse :: db_handler where
  "HandleChangeSignInfoResponse e p s =
     (case p_body p of
        IMChangeSignInfoRsp i result sign a \<Rightarrow> do {
          s \<leftarrow> answer e p i a (IMChangeSignInfoRsp i result sign AttNone) s;
          Some (if result = 0
                then to_route e (mk_pdu SID_BUDDY_LIST CID_BUDDY_LIST_SIGN_INFO_CHANGED_NOTIFY 0
                       (IMSignInfoChangedNotify i sign)) s
                else s)
        }
      | _ \<Rightarrow> Some s)"

section \<open>Messages\<close>

text \<open>\<open>pUser->BroadcastClientMsgData(..)\<close> for a user that may be missing.\<close>

definition deliver :: "env \<Rightarrow> pdu \<Rightarrow> u32 \<Rightarrow> nat option \<Rightarrow> uid \<Rightarrow> nat option \<Rightarrow> server \<Rightarrow> server option" where
  "deliver e p msg_id from from_id target s =
     (case target of
        None \<Rightarrow> Some s
      | Some u \<Rightarrow> map_option (\<lambda>usr. BroadcastClientMsgData e p msg_id from from_id usr s) (users s u))"

definition HandleMsgData :: "nat \<Rightarrow> db_handler" where
  "HandleMsgData d e p s =
     (case p_body p of
        IMMsgData md a \<Rightarrow>
          if CHECK_MSG_TYPE_GROUP (md_type md) then HandleGroupMessage e p s
          else if md_msg_id md = 0 then Some s
          else do {
            c \<leftarrow> GetMsgConnByHandle s (md_from md) (att_handle e a);
            let s = to_client c (mk_pdu SID_MSG CID_MSG_DATA_ACK (p_seq p)
                      (IMMsgDataAck (md_from md) (md_msg_id md) (md_to_session md) SESSION_TYPE_SINGLE)) s;
            let s = to_route e p s;
            let q = p\<lparr>p_body := IMMsgData md AttNone, p_seq := 0\<rparr>;
            let from_user = GetImUserById s (md_from md);
            let to_user = GetImUserById s (md_to_session md);
            s \<leftarrow> deliver e q (md_msg_id md) c (md_from md) from_user s;
            s \<leftarrow> deliver e q (md_msg_id md) None (md_from md) to_user s;
            Some (emit (ToDb d (mk_pdu SID_OTHER CID_OTHER_GET_DEVICE_TOKEN_REQ 0
              (IMGetDeviceTokenReq [md_to_session md] (IMMsgData md AttNone)))) s)
          }
      | _ \<Rightarrow> Some s)"

section \<open>Push notifications\<close>

text \<open>The loop over the device tokens: tokens of users of this server are collected with the kind of
  push, for the others the route servers are asked first.\<close>

fun push_tokens :: "env \<Rightarrow> string \<Rightarrow> string \<Rightarrow> uid \<Rightarrow> token_info list \<Rightarrow> server \<Rightarrow> (token_info list \<times> server) option" where
  "push_tokens e flash json from_id [] s = Some ([], s)"
| "push_tokens e flash json from_id (t # ts) s =
     (if from_id = ut_user_id t then push_tokens e flash json from_id ts s
      else case GetImUserById s (ut_user_id t) of
        Some u \<Rightarrow> do {
          usr \<leftarrow> users s u;
          let t = t\<lparr>ut_push_type := if u_pc_login_status usr = IM_PC_LOGIN_STATUS_ON then IM_PUSH_TYPE_SILENT
                                   else IM_PUSH_TYPE_NORMAL\<rparr>;
          (ts, s) \<leftarrow> push_tokens e flash json from_id ts s;
          Some (t # ts, s)
        }
      | None \<Rightarrow>
          push_tokens e flash json from_id ts
            (to_route e (mk_pdu SID_BUDDY_LIST CID_BUDDY_LIST_USERS_STATUS_REQUEST 0
               (IMUsersStatReq 0 [ut_user_id t]
                 (AttPdu 0 (IMPushToUserReq flash json [t\<lparr>ut_push_type := IM_PUSH_TYPE_NORMAL\<rparr>])))) s))"

definition push_to_users :: "env \<Rightarrow> string \<Rightarrow> msg_data \<Rightarrow> token_info list \<Rightarrow> server \<Rightarrow> server option" where
  "push_to_users e plain md ts s = do {
     let flash = push_flash e plain (md_type md) (md_from md);
     let json = push_json e (md_type md) (md_from md)
                  (if CHECK_MSG_TYPE_GROUP (md_type md) then Some (md_to_session md) else None);
     (ts, s) \<leftarrow> push_tokens e flash json (md_from md) ts s;
     Some (case push_conn e of
         None \<Rightarrow> s
       | Some q \<Rightarrow> if ts = [] then s
           else emit (ToPush q (mk_pdu SID_OTHER CID_OTHER_PUSH_TO_USER_REQ 0 (IMPushToUserReq flash json ts))) s)
   }"

definition HandleGetDeviceTokenResponse :: db_handler where
  "HandleGetDeviceTokenResponse e p s =
     (case p_body p of
        IMGetDeviceTokenRsp (IMMsgData md a) ts \<Rightarrow>
          if md_type md = MSG_TYPE_SINGLE_TEXT \<or> md_type md = MSG_TYPE_GROUP_TEXT
          then (case aes_decrypt e (md_data md) of
                  None \<Rightarrow> Some s
                | Some plain \<Rightarrow> push_to_users e plain md ts s)
          else push_to_users e (md_data md) md ts s
      | _ \<Rightarrow> Some s)"

section \<open>Dispatch\<close>

text \<open>\<open>d\<close> is the database connection the packet came from. The file handler is not part of
  the repository: the packet is handed to it; \<open>_HandleStopReceivePacket\<close> changes only the database connection
  (\<open>Msg_Serv.stop_receive\<close>).\<close>

definition db_dispatch :: "nat \<Rightarrow> u16 \<Rightarrow> db_handler" where
  "db_dispatch d cid =
     (if cid = CID_OTHER_HEARTBEAT then (\<lambda>e p s. Some s)
      else if cid = CID_OTHER_VALIDATE_RSP then HandleValidateResponse
      else if cid = CID_LOGIN_RES_DEVICETOKEN then HandleSetDeviceTokenResponse
      else if cid = CID_LOGIN_RES_PUSH_SHIELD then HandlePushShieldResponse
      else if cid = CID_LOGIN_RES_QUERY_PUSH_SHIELD then HandleQueryPushShieldResponse
      else if cid = CID_MSG_UNREAD_CNT_RESPONSE then HandleUnreadMsgCountResponse
      else if cid = CID_MSG_LIST_RESPONSE then HandleGetMsgListResponse
      else if cid = CID_MSG_GET_BY_MSG_ID_RES then HandleGetMsgByIdResponse
      else if cid = CID_MSG_DATA then HandleMsgData d
      else if cid = CID_MSG_GET_LATEST_MSG_ID_RSP then HandleGetLatestMsgIDRsp
      else if cid = CID_BUDDY_LIST_RECENT_CONTACT_SESSION_RESPONSE then HandleRecentSessionResponse
      else if cid = CID_BUDDY_LIST_ALL_USER_RESPONSE then HandleAllUserResponse
      else if cid = CID_BUDDY_LIST_USER_INFO_RESPONSE then HandleUsersInfoResponse
      else if cid = CID_BUDDY_LIST_REMOVE_SESSION_RES then HandleRemoveSessionResponse
      else if cid = CID_BUDDY_LIST_CHANGE_AVATAR_RESPONSE then HandleChangeAvatarResponse
      else if cid = CID_BUDDY_LIST_CHANGE_SIGN_INFO_RESPONSE then HandleChangeSignInfoResponse
      else if cid = CID_BUDDY_LIST_DEPARTMENT_RESPONSE then HandleDepartmentResponse
      else if cid = CID_OTHER_GET_DEVICE_TOKEN_RSP then HandleGetDeviceTokenResponse
      else if cid = CID_OTHER_GET_SHIELD_RSP then HandleGroupGetShieldByGroupResponse
      else if cid = CID_GROUP_NORMAL_LIST_RESPONSE then HandleGroupNormalResponse
      else if cid = CID_GROUP_INFO_RESPONSE then HandleGroupInfoResponse
      else if cid = CID_GROUP_CREATE_RESPONSE then HandleGroupCreateResponse
      else if cid = CID_GROUP_CHANGE_MEMBER_RESPONSE then HandleGroupChangeMemberResponse
      else if cid = CID_GROUP_SHIELD_GROUP_RESPONSE then HandleGroupShieldGroupResponse
      else if cid = CID_FILE_HAS_OFFLINE_RES then (\<lambda>e p s. Some (emit (FileOut d p) s))
      else (\<lambda>e p s. Some s))"

definition HandleDbPdu :: "nat \<Rightarrow> db_handler" where
  "HandleDbPdu d e p s = db_dispatch d (p_cid p) e p s"

end
