(* ===== verification/Msg_Effects.thy ===== *)
theory Msg_Effects
  imports Msg_Db
begin

text \<open>
  What the handlers of the message server leave alone. Most of them change nothing but the log of
  sent packets and the bookkeeping of single connections: they are \<open>quiet\<close>, up to a view \<open>K\<close> of a
  connection that they preserve and a predicate \<open>P\<close> on what they send. The lemmas of this theory
  give that frame for every handler that does not open or close a connection.
\<close>

section \<open>Frames\<close>

definition quiet :: "(msg_conn \<Rightarrow> 'k) \<Rightarrow> (out \<Rightarrow> bool) \<Rightarrow> server \<Rightarrow> server \<Rightarrow> bool" where
  "quiet K P s s' \<longleftrightarrow>
     users s' = users s \<and> user_map s' = user_map s \<and> user_map_by_name s' = user_map_by_name s \<and>
     msg_conn_map s' = msg_conn_map s \<and> next_conn s' = next_conn s \<and> next_user s' = next_user s \<and>
     (\<forall>c. K (conns s' c) = K (conns s c)) \<and> (\<exists>xs. sent s' = sent s @ xs \<and> list_all P xs)"

definition ok_quiet :: "(msg_conn \<Rightarrow> 'k) \<Rightarrow> (out \<Rightarrow> bool) \<Rightarrow> server \<Rightarrow> server option \<Rightarrow> bool" where
  "ok_quiet K P s r \<longleftrightarrow> (\<exists>s'. r = Some s' \<and> quiet K P s s')"

text \<open>The user table has no entry for a freed user.\<close>

definition ids_live :: "server \<Rightarrow> bool" where
  "ids_live s \<longleftrightarrow> (\<forall>i u. map_find (user_map s) i = Some u \<longrightarrow> users s u \<noteq> None)"

named_theorems quiet_intros

lemma quiet_refl [simp, quiet_intros]: "quiet K P s s"
  by (simp add: quiet_def)

lemma quiet_trans: "quiet K P s s' \<Longrightarrow> quiet K P s' s'' \<Longrightarrow> quiet K P s s''"
  unfolding quiet_def by (metis append.assoc list_all_append)

lemma quiet_mono: "quiet K P s s' \<Longrightarrow> (\<And>x. P x \<Longrightarrow> Q x) \<Longrightarrow> quiet (\<lambda>m. f (K m)) Q s s'"
  unfolding quiet_def by (metis list.pred_mono_strong)

lemma ok_quiet_mono: "ok_quiet K P s r \<Longrightarrow> (\<And>x. P x \<Longrightarrow> Q x) \<Longrightarrow> ok_quiet (\<lambda>m. f (K m)) Q s r"
  unfolding ok_quiet_def by (metis quiet_mono)

lemma quiet_ids_live: "quiet K P s s' \<Longrightarrow> ids_live s \<Longrightarrow> ids_live s'"
  by (simp add: quiet_def ids_live_def)

lemma ok_quiet_Some [quiet_intros]: "quiet K P s s' \<Longrightarrow> ok_quiet K P s (Some s')"
  by (simp add: ok_quiet_def)

lemma ok_quiet_bind:
  assumes "ok_quiet K P s r" "\<And>s'. quiet K P s s' \<Longrightarrow> ok_quiet K P s (f s')"
  shows "ok_quiet K P s (r \<bind> f)"
  using assms by (auto simp: ok_quiet_def)

lemma quiet_emit: "P x \<Longrightarrow> quiet K P s s' \<Longrightarrow> quiet K P s (emit x s')"
  unfolding quiet_def emit_def by auto

lemma quiet_upd_conn: "(\<And>m. K (f m) = K m) \<Longrightarrow> quiet K P s s' \<Longrightarrow> quiet K P s (upd_conn c f s')"
  unfolding quiet_def upd_conn_def by auto

lemma quiet_fold:
  assumes "\<And>x s. x \<in> set xs \<Longrightarrow> quiet K P s (f x s)"
  shows "quiet K P s (fold f xs s)"
  using assms by (induction xs arbitrary: s) (auto intro: quiet_trans)

section \<open>What is preserved and what is sent\<close>

text \<open>The view of a connection: handle, login name, user and state; in the finer one also the number of
  messages forwarded since the last timer, and the kick mark.\<close>

definition conn_key :: "msg_conn \<Rightarrow> handle \<times> string \<times> uid \<times> bool" where
  "conn_key m = (c_handle m, c_login_name m, c_user_id m, c_open m)"

definition conn_core :: "msg_conn \<Rightarrow> (handle \<times> string \<times> uid \<times> bool) \<times> u32 \<times> bool" where
  "conn_core m = (conn_key m, c_msg_cnt_per_sec m, c_kick_off m)"

text \<open>The user that a packet names as the one who makes the request.\<close>

definition requester :: "body \<Rightarrow> uid option" where
  "requester b = (case b of
       Plain k i a r \<Rightarrow> Some i
     | IMDeviceTokenReq i t c \<Rightarrow> Some i
     | IMServerKickUser i c r \<Rightarrow> Some i
     | IMMsgData md a \<Rightarrow> Some (md_from md)
     | IMMsgDataReadAck i x m t \<Rightarrow> Some i
     | IMMsgDataReadNotify i x m t \<Rightarrow> Some i
     | IMRemoveSessionReq i t x a \<Rightarrow> Some i
     | IMRemoveSessionNotify i x t \<Rightarrow> Some i
     | IMUsersStatReq i us a \<Rightarrow> Some i
     | IMGroupInfoListReq i gs a \<Rightarrow> Some i
     | IMGroupCreateReq i n t a r \<Rightarrow> Some i
     | IMGroupChangeMemberReq i t g a r \<Rightarrow> Some i
     | _ \<Rightarrow> None)"

definition is_msg_data :: "body \<Rightarrow> bool" where
  "is_msg_data b = (case b of IMMsgData md a \<Rightarrow> True | _ \<Rightarrow> False)"

definition forwards :: "out \<Rightarrow> bool" where
  "forwards x = (case x of ToDb d q \<Rightarrow> is_msg_data (p_body q) | _ \<Rightarrow> False)"

definition on_behalf :: "uid \<Rightarrow> out \<Rightarrow> bool" where
  "on_behalf i x = (case x of
       ToDb d q \<Rightarrow> requester (p_body q) \<in> {None, Some i}
     | ToRoute r q \<Rightarrow> requester (p_body q) \<in> {None, Some i}
     | _ \<Rightarrow> True)"

definition announces :: "out \<Rightarrow> bool" where
  "announces x = (case x of ToAllLogin q \<Rightarrow> True | ToAllRoute q \<Rightarrow> True | _ \<Rightarrow> False)"

definition client_out :: "uid \<Rightarrow> out \<Rightarrow> bool" where
  "client_out i x \<longleftrightarrow> on_behalf i x \<and> \<not> forwards x \<and> \<not> announces x"

definition db_out :: "out \<Rightarrow> bool" where
  "db_out x \<longleftrightarrow> \<not> announces x"

lemmas out_defs = client_out_def db_out_def on_behalf_def forwards_def announces_def requester_def is_msg_data_def mk_pdu_def

lemmas key_defs = conn_core_def conn_key_def

section \<open>Sending is quiet\<close>

lemma quiet_to_client [quiet_intros]: "(\<And>c. P (ToClient c p)) \<Longrightarrow> quiet K P s s' \<Longrightarrow> quiet K P s (to_client c p s')"
  by (auto simp: to_client_def split: option.split intro: quiet_emit)

lemma quiet_to_db [quiet_intros]: "(\<And>d. P (ToDb d p)) \<Longrightarrow> quiet K P s s' \<Longrightarrow> quiet K P s (to_db d p s')"
  by (auto simp: to_db_def split: option.split intro: quiet_emit)

lemma quiet_to_route [quiet_intros]: "(\<And>r. P (ToRoute r p)) \<Longrightarrow> quiet K P s s' \<Longrightarrow> quiet K P s (to_route e p s')"
  by (auto simp: to_route_def split: option.split intro: quiet_emit)

lemma quiet_send_where [quiet_intros]:
  assumes "\<And>c. P (ToClient c p)" "quiet K P s s'"
  shows "quiet K P s (send_where ok p usr s')"
proof -
  have "quiet K P s' (send_where ok p usr s')"
    unfolding send_where_def by (rule quiet_fold) (auto simp: assms(1) intro!: quiet_emit)
  with assms(2) show ?thesis by (rule quiet_trans)
qed

lemma quiet_AddToSendList:
  assumes "\<And>m a. K (m\<lparr>c_send_msg_list := a\<rparr>) = K m" "quiet K P s s'"
  shows "quiet K P s (AddToSendList e c i j s')"
proof -
  have "quiet K P s (upd_conn c (\<lambda>m. m\<lparr>c_send_msg_list := c_send_msg_list m @
      [\<lparr>ack_msg_id = i, ack_from_id = j, ack_timestamp = tick e\<rparr>]\<rparr>) s')"
    by (rule quiet_upd_conn) (simp_all add: assms)
  then show ?thesis by (simp add: AddToSendList_def Let_def quiet_def)
qed

lemma quiet_BroadcastClientMsgData:
  assumes "\<And>m a. K (m\<lparr>c_send_msg_list := a\<rparr>) = K m" "\<And>c. P (ToClient c p)" "quiet K P s s'"
  shows "quiet K P s (BroadcastClientMsgData e p i from j usr s')"
proof -
  have "quiet K P s' (BroadcastClientMsgData e p i from j usr s')"
    unfolding BroadcastClientMsgData_def
    by (rule quiet_fold) (auto simp: assms(1,2) intro!: quiet_AddToSendList quiet_emit)
  with assms(3) show ?thesis by (rule quiet_trans)
qed

lemma quiet_DelFromSendList:
  "(\<And>m a. K (m\<lparr>c_send_msg_list := a\<rparr>) = K m) \<Longrightarrow> quiet K P s s' \<Longrightarrow> quiet K P s (DelFromSendList c i j s')"
  unfolding DelFromSendList_def by (rule quiet_upd_conn) auto

lemma quiet_KickOutSameClientType:
  assumes "\<And>m a. K (m\<lparr>c_kick_off := a\<rparr>) = K m" "\<And>c p. P (ToClient c p)" "quiet K P s s'"
  shows "quiet K P s (KickOutSameClientType t reason from usr s')"
  using assms
  by (auto simp: KickOutSameClientType_def HandleKickUser_def Let_def split: option.split
      intro!: quiet_upd_conn quiet_emit)

lemma ok_quiet_lookup:
  assumes "ids_live s" "quiet K P s s'" "\<And>usr. quiet K P s (g usr)"
  shows "ok_quiet K P s (case GetImUserById s' i of None \<Rightarrow> Some s' | Some u \<Rightarrow> map_option g (users s' u))"
proof (cases "map_find (user_map s') i")
  case (Some u)
  with quiet_ids_live [OF assms(2,1)] obtain usr where "users s' u = Some usr" by (auto simp: ids_live_def)
  with Some show ?thesis by (simp add: GetImUserById_def assms(3) ok_quiet_Some)
qed (simp add: GetImUserById_def assms(2) ok_quiet_Some)

lemma ok_quiet_SendPduToUser:
  assumes "ids_live s" "\<And>c. P (ToClient c p)" "quiet K P s s'"
  shows "ok_quiet K P s (SendPduToUser p i from s')"
  unfolding SendPduToUser_def BroadcastPdu_def
  by (rule ok_quiet_lookup) (auto intro!: quiet_send_where assms)

lemma ok_quiet_SendPduToUsers:
  assumes "ids_live s" "\<And>c. P (ToClient c p)" "quiet K P s s'"
  shows "ok_quiet K P s (SendPduToUsers p is from s')"
  using assms(3)
proof (induction "is" arbitrary: s')
  case (Cons i "is")
  show ?case unfolding SendPduToUsers.simps
    by (rule ok_quiet_bind) (auto intro!: ok_quiet_SendPduToUser Cons.IH Cons.prems assms(1,2))
qed (simp add: quiet_intros)

lemma lookup_conn_ok: "ids_live s \<Longrightarrow> \<exists>c. GetMsgConnByHandle s i h = Some c"
  unfolding GetMsgConnByHandle_def ids_live_def GetImUserById_def
  by (cases "map_find (user_map s) i") auto

section \<open>Requests of clients\<close>

lemma emit_frame [simp]:
  "conns (emit x s) = conns s" "user_map (emit x s) = user_map s" "users (emit x s) = users s"
  "conns (to_db d q s) = conns s" "conns (to_route e q s) = conns s" "conns (to_client k q s) = conns s"
  by (auto simp: emit_def to_db_def to_route_def to_client_def split: option.split)

abbreviation "client_quiet s c \<equiv> ok_quiet conn_core (client_out (c_user_id (conns s c))) s"

lemma pass_on_quiet:
  assumes "\<And>q s. requester (p_body q) \<in> {None, Some (c_user_id (conns s c))} \<Longrightarrow> \<not> is_msg_data (p_body q)
             \<Longrightarrow> quiet conn_core (client_out (c_user_id (conns s c))) s (send q s)"
  shows "client_quiet s c (pass_on kind send att c p s)"
  by (cases "p_body p") (auto simp: pass_on_def requester_def is_msg_data_def intro!: ok_quiet_Some assms)

lemma to_db_quiet:
  "requester (p_body q) \<in> {None, Some i} \<Longrightarrow> \<not> is_msg_data (p_body q) \<Longrightarrow> quiet K (client_out i) s (to_db d q s)"
  by (rule quiet_to_db) (auto simp: out_defs)

lemmas passing_handlers =
  HandleClientRecentContactSessionRequest_def HandleClientGetMsgListRequest_def HandleClientGetMsgByMsgIdRequest_def
  HandleClientUnreadMsgCntRequest_def HandleClientGetLatestMsgIDReq_def HandleClientUserInfoRequest_def
  HandleClientAllUserRequest_def HandleChangeAvatarRequest_def HandleClientDepartmentRequest_def
  HandleChangeSignInfoRequest_def HandlePushShieldRequest_def HandleQueryPushShieldRequest_def

lemma passing_handlers_quiet:
  "h \<in> {HandleClientRecentContactSessionRequest, HandleClientGetMsgListRequest, HandleClientGetMsgByMsgIdRequest,
    HandleClientUnreadMsgCntRequest, HandleClientGetLatestMsgIDReq, HandleClientUserInfoRequest,
    HandleClientAllUserRequest, HandleChangeAvatarRequest, HandleClientDepartmentRequest,
    HandleChangeSignInfoRequest, HandlePushShieldRequest, HandleQueryPushShieldRequest} \<Longrightarrow>
   client_quiet s c (h e c p s)"
  by (elim insertE emptyE; simp only: passing_handlers; rule pass_on_quiet; rule to_db_quiet; assumption)

lemma group_handlers_quiet:
  "h \<in> {HandleClientGroupNormalRequest, HandleClientGroupInfoRequest, HandleClientGroupCreateRequest,
    HandleClientGroupChangeMemberRequest, HandleClientGroupShieldGroupRequest} \<Longrightarrow>
   client_quiet s c (h e c p s)"
  by (cases "p_body p"; cases "db_other e")
    (auto simp: HandleClientGroupNormalRequest_def HandleClientGroupInfoRequest_def HandleClientGroupCreateRequest_def
      HandleClientGroupChangeMemberRequest_def HandleClientGroupShieldGroupRequest_def out_defs
      intro!: ok_quiet_Some quiet_emit)

lemma own_handlers_quiet:
  "h \<in> {HandleHeartBeat, HandleClientTimeRequest, HandleFileRequest, HandleClientDeviceToken,
    HandleClientUsersStatusRequest, HandleClientMsgDataAck} \<Longrightarrow>
   client_quiet s c (h e c p s)"
  by (cases "p_body p")
    (auto simp: HandleHeartBeat_def HandleClientTimeRequest_def HandleFileRequest_def HandleClientDeviceToken_def
      HandleClientUsersStatusRequest_def HandleClientMsgDataAck_def Let_def out_defs key_defs
      intro!: ok_quiet_Some quiet_emit quiet_to_db quiet_to_route quiet_DelFromSendList)

lemmas monadic_intros = ok_quiet_bind ok_quiet_Some ok_quiet_SendPduToUser ok_quiet_SendPduToUsers
  quiet_emit quiet_to_db quiet_to_route quiet_to_client quiet_DelFromSendList quiet_KickOutSameClientType

lemma HandleClientMsgReadAck_quiet:
  assumes "ids_live s"
  shows "client_quiet s c (HandleClientMsgReadAck e c p s)"
  by (cases "p_body p")
    (auto simp: HandleClientMsgReadAck_def notify_user_def Let_def out_defs key_defs assms intro!: monadic_intros)

lemma HandleClientP2PCmdMsg_quiet:
  assumes "ids_live s"
  shows "client_quiet s c (HandleClientP2PCmdMsg e c p s)"
  by (cases "p_body p")
    (auto simp: HandleClientP2PCmdMsg_def notify_user_def out_defs key_defs assms intro!: monadic_intros)

lemma HandleClientRemoveSessionRequest_quiet:
  assumes "ids_live s"
  shows "client_quiet s c (HandleClientRemoveSessionRequest e c p s)"
  by (cases "p_body p")
    (auto simp: HandleClientRemoveSessionRequest_def notify_user_def Let_def out_defs key_defs assms intro!: monadic_intros)

lemma HandleKickPCClient_quiet:
  assumes "ids_live s"
  shows "ok_quiet (\<lambda>m. (conn_key m, c_msg_cnt_per_sec m)) (client_out (c_user_id (conns s c))) s (HandleKickPCClient e c p s)"
  by (cases "p_body p")
    (auto simp: HandleKickPCClient_def Let_def out_defs key_defs assms intro!: monadic_intros ok_quiet_lookup)

text \<open>A forwarded message changes the count of messages, and nothing else of the connection.\<close>

lemma HandleClientMsgData_quiet:
  "ok_quiet conn_key (\<lambda>x. on_behalf (c_user_id (conns s c)) x \<and> \<not> announces x) s (HandleClientMsgData e c p s)"
  by (cases "p_body p")
    (auto simp: HandleClientMsgData_def Let_def out_defs key_defs upd_conn_def [of c _ s] intro!: ok_quiet_Some quiet_to_db,
     auto simp: quiet_def key_defs)

lemma client_quiet_if:
  "(b \<Longrightarrow> client_quiet s c (f e c p s)) \<Longrightarrow> (\<not> b \<Longrightarrow> client_quiet s c (g e c p s)) \<Longrightarrow>
   client_quiet s c ((if b then f else g) e c p s)"
  by simp

lemma dispatch_quiet:
  assumes "ids_live s" "cid \<notin> {CID_LOGIN_REQ_USERLOGIN, CID_LOGIN_REQ_LOGINOUT, CID_LOGIN_REQ_KICKPCCLIENT, CID_MSG_DATA}"
  shows "client_quiet s c (dispatch cid e c p s)"
  unfolding dispatch_def
  by (intro client_quiet_if)
    ((rule passing_handlers_quiet group_handlers_quiet own_handlers_quiet, (simp only: insert_iff simp_thms; fail)) |
     (rule HandleClientMsgReadAck_quiet HandleClientP2PCmdMsg_quiet HandleClientRemoveSessionRequest_quiet, rule assms(1)) |
     (use assms(2) in \<open>simp add: ok_quiet_Some; fail\<close>))+

text \<open>Only connections of the user are kicked.\<close>

lemma kicked_conns:
  assumes "c_kick_off (conns (KickOutSameClientType t reason from usr s) k)"
  shows "c_kick_off (conns s k) \<or> (\<exists>h. map_find (u_conn_map usr) h = Some k)"
  using assms by (auto simp: KickOutSameClientType_def HandleKickUser_def upd_conn_def Let_def split: option.splits if_splits)

lemma HandleKickPCClient_kicked:
  assumes "HandleKickPCClient e c p s = Some s'" "c_kick_off (conns s' k)"
  shows "c_kick_off (conns s k) \<or> (\<exists>u usr h. users s u = Some usr \<and> map_find (u_conn_map usr) h = Some k)"
proof (cases "p_body p = IMKickPCClientReq \<and> CHECK_CLIENT_TYPE_MOBILE (c_client_type (conns s c))")
  case True
  show ?thesis
  proof (cases "GetImUserById s (c_user_id (conns s c))")
    case None
    with True assms show ?thesis by (auto simp: HandleKickPCClient_def Let_def)
  next
    case (Some u)
    with True assms obtain usr where "users s u = Some usr"
      "c_kick_off (conns (KickOutSameClientType CLIENT_TYPE_MAC KICK_REASON_MOBILE_KICK (Some c) usr s) k)"
      by (auto simp: HandleKickPCClient_def Let_def bind_eq_Some_conv)
    with kicked_conns show ?thesis by blast
  qed
next
  case False
  with assms have "s' = s" by (cases "p_body p") (auto simp: HandleKickPCClient_def split: if_splits)
  with assms(2) show ?thesis by simp
qed

section \<open>Packets of the database server\<close>

abbreviation "db_quiet s \<equiv> ok_quiet conn_core db_out s"

lemma ok_quiet_map_lookup:
  assumes "ids_live s" "quiet K P s s'" "\<And>c. quiet K P s (g c)"
  shows "ok_quiet K P s (map_option g (GetMsgConnByHandle s' i h))"
  using lookup_conn_ok [OF quiet_ids_live [OF assms(2,1)], of i h] assms(3) by (auto simp: ok_quiet_def)

lemma ok_quiet_bind_lookup:
  assumes "ids_live s" "quiet K P s s'" "\<And>c. ok_quiet K P s (g c)"
  shows "ok_quiet K P s (GetMsgConnByHandle s' i h \<bind> g)"
  using lookup_conn_ok [OF quiet_ids_live [OF assms(2,1)]] assms(3) by (metis Option.bind.bind_lunit)

lemma ok_quiet_respond:
  assumes "ids_live s" "quiet K P s s'" "\<And>c q. P (ToClient c q)"
  shows "ok_quiet K P s (respond e p i a b s')"
  unfolding respond_def by (intro ok_quiet_map_lookup quiet_to_client assms)

lemma ok_quiet_answer:
  assumes "ids_live s" "quiet K P s s'" "\<And>c q. P (ToClient c q)"
  shows "ok_quiet K P s (answer e p i a b s')"
  unfolding answer_def
  by (intro ok_quiet_map_lookup assms) (auto split: option.split intro!: quiet_emit assms)

lemma answer_plain_quiet: "ids_live s \<Longrightarrow> db_quiet s (answer_plain k e p s)"
  by (cases "p_body p") (auto simp: answer_plain_def out_defs intro!: ok_quiet_answer ok_quiet_Some)

lemma ok_quiet_distribute:
  assumes "ids_live s" "\<And>c. P (ToClient c p)" "quiet K P s s'"
  shows "ok_quiet K P s (distribute p i h ms s')"
  using assms(3)
proof (induction ms arbitrary: s')
  case (Cons m ms)
  show ?case
  proof (cases "map_find (user_map s') m")
    case None
    with Cons show ?thesis by (simp add: GetImUserById_def)
  next
    case (Some u)
    have live: "ids_live s'" by (rule quiet_ids_live [OF Cons.prems assms(1)])
    with Some obtain usr where usr: "users s' u = Some usr" by (auto simp: ids_live_def)
    obtain fc where "(if m = i \<and> h \<noteq> 0 then GetMsgConnByHandle s' i h else Some None) = Some fc"
      using lookup_conn_ok [OF live, of i h] by (cases "m = i \<and> h \<noteq> 0") auto
    with Some usr show ?thesis
      by (auto simp: GetImUserById_def BroadcastData_def intro!: Cons.IH quiet_send_where assms(2) Cons.prems)
  qed
qed (simp add: ok_quiet_Some)

lemma ok_quiet_deliver:
  assumes "ids_live s" "quiet K P s s'" "\<And>m a. K (m\<lparr>c_send_msg_list := a\<rparr>) = K m" "\<And>c. P (ToClient c p)"
    "target = GetImUserById s i"
  shows "ok_quiet K P s (deliver e p msg_id from from_id target s')"
proof (cases "map_find (user_map s) i")
  case (Some u)
  with assms(1,2) obtain usr where "users s' u = Some usr" by (fastforce simp: ids_live_def quiet_def)
  with Some assms(5) show ?thesis
    by (auto simp: deliver_def GetImUserById_def intro!: ok_quiet_Some quiet_BroadcastClientMsgData assms)
qed (auto simp: deliver_def GetImUserById_def assms intro!: ok_quiet_Some)

lemma ok_quiet_push_tokens:
  assumes "ids_live s" "\<And>r q. P (ToRoute r q)" "quiet K P s s'"
  shows "\<exists>us s''. push_tokens e flash json i ts s' = Some (us, s'') \<and> quiet K P s s''"
  using assms(3)
proof (induction ts arbitrary: s')
  case (Cons t ts)
  show ?case
  proof (cases "map_find (user_map s') (ut_user_id t)")
    case None
    with Cons show ?thesis by (auto simp: GetImUserById_def intro!: Cons.IH quiet_to_route assms(2))
  next
    case (Some u)
    with quiet_ids_live [OF Cons.prems assms(1)] obtain usr where "users s' u = Some usr" by (auto simp: ids_live_def)
    with Some Cons.IH [OF Cons.prems] Cons.IH [OF Cons.prems] show ?thesis by (auto simp: GetImUserById_def)
  qed
qed simp

lemma push_to_users_quiet:
  assumes "ids_live s"
  shows "db_quiet s (push_to_users e plain md ts s)"
proof -
  obtain us s' where "push_tokens e (push_flash e plain (md_type md) (md_from md))
      (push_json e (md_type md) (md_from md) (if CHECK_MSG_TYPE_GROUP (md_type md) then Some (md_to_session md) else None))
      (md_from md) ts s = Some (us, s')" "quiet conn_core db_out s s'"
    using ok_quiet_push_tokens [where K = conn_core, OF assms _ quiet_refl, of db_out] by (fastforce simp: out_defs)
  then show ?thesis
    by (auto simp: push_to_users_def Let_def out_defs split: option.split intro!: ok_quiet_Some quiet_emit)
qed

lemma group_responses_quiet:
  assumes "ids_live s"
    "h \<in> {HandleGroupNormalResponse, HandleGroupCreateResponse, HandleGroupShieldGroupResponse,
      HandleGroupGetShieldByGroupResponse, HandleGroupMessage, HandleGroupChangeMemberResponse}"
  shows "db_quiet s (h e p s)"
  using assms(2)
  by (cases "p_body p")
    (auto simp: HandleGroupNormalResponse_def HandleGroupCreateResponse_def HandleGroupShieldGroupResponse_def
      HandleGroupGetShieldByGroupResponse_def HandleGroupMessage_def HandleGroupChangeMemberResponse_def
      Let_def out_defs assms(1)
      intro!: ok_quiet_respond ok_quiet_bind_lookup monadic_intros)

lemma HandleGroupInfoResponse_quiet:
  assumes "ids_live s"
  shows "db_quiet s (HandleGroupInfoResponse e p s)"
proof (cases "\<exists>i gs a. p_body p = IMGroupInfoListRsp i gs a")
  case True
  then obtain i gs a where p: "p_body p = IMGroupInfoListRsp i gs a" by blast
  show ?thesis
  proof (cases "att_pdu a")
    case None
    with p show ?thesis
      by (auto simp: HandleGroupInfoResponse_def out_defs assms split: list.split intro!: ok_quiet_respond)
  next
    case (Some b)
    have "db_quiet s (case b of IMMsgData md ma \<Rightarrow>
        distribute (mk_pdu SID_MSG CID_MSG_DATA 0 (IMMsgData md ma)) i (att_handle e a) (gi_members g) s \<bind>
        (\<lambda>s. Some (to_db (db_other e) (mk_pdu SID_OTHER CID_OTHER_GET_SHIELD_REQ 0
           (IMGroupGetShieldReq (gi_group_id g) (gi_members g) (IMMsgData md ma))) s))
      | _ \<Rightarrow> Some s)" for g
      by (cases b) (auto simp: out_defs assms intro!: ok_quiet_distribute monadic_intros)
    with p Some show ?thesis by (auto simp: HandleGroupInfoResponse_def intro: ok_quiet_Some split: list.split)
  qed
qed (cases "p_body p"; simp add: HandleGroupInfoResponse_def quiet_intros)

lemma HandleMsgData_quiet:
  assumes "ids_live s"
  shows "db_quiet s (HandleMsgData d e p s)"
proof (cases "\<exists>md a. p_body p = IMMsgData md a")
  case True
  then obtain md a where p: "p_body p = IMMsgData md a" by blast
  show ?thesis
    using group_responses_quiet [OF assms, of HandleGroupMessage]
    by (auto simp: HandleMsgData_def p Let_def out_defs key_defs assms GetImUserById_def to_client_def to_route_def
        intro!: ok_quiet_bind_lookup ok_quiet_bind ok_quiet_deliver ok_quiet_Some quiet_emit split: option.split)
qed (cases "p_body p"; simp add: HandleMsgData_def quiet_intros)

lemmas plain_answers =
  HandleRecentSessionResponse_def HandleAllUserResponse_def HandleGetMsgListResponse_def HandleGetMsgByIdResponse_def
  HandleGetLatestMsgIDRsp_def HandleUnreadMsgCountResponse_def HandleUsersInfoResponse_def
  HandleRemoveSessionResponse_def HandleDepartmentResponse_def HandlePushShieldResponse_def
  HandleQueryPushShieldResponse_def

lemma plain_answers_quiet:
  "ids_live s \<Longrightarrow> h \<in> {HandleRecentSessionResponse, HandleAllUserResponse, HandleGetMsgListResponse,
    HandleGetMsgByIdResponse, HandleGetLatestMsgIDRsp, HandleUnreadMsgCountResponse, HandleUsersInfoResponse,
    HandleRemoveSessionResponse, HandleDepartmentResponse, HandlePushShieldResponse, HandleQueryPushShieldResponse}
   \<Longrightarrow> db_quiet s (h e p s)"
  by (elim insertE emptyE; simp only: plain_answers; rule answer_plain_quiet; assumption)

lemma notices_quiet:
  assumes "ids_live s" "h \<in> {HandleChangeAvatarResponse, HandleSetDeviceTokenResponse, HandleChangeSignInfoResponse}"
  shows "db_quiet s (h e p s)"
  using assms(2)
  by (cases "p_body p")
    (auto simp: HandleChangeAvatarResponse_def HandleSetDeviceTokenResponse_def HandleChangeSignInfoResponse_def
      out_defs assms(1) intro!: ok_quiet_answer monadic_intros)

lemma HandleGetDeviceTokenResponse_quiet:
  assumes "ids_live s"
  shows "db_quiet s (HandleGetDeviceTokenResponse e p s)"
proof (cases "\<exists>md a ts. p_body p = IMGetDeviceTokenRsp (IMMsgData md a) ts")
  case True
  then show ?thesis
    by (auto simp: HandleGetDeviceTokenResponse_def push_to_users_quiet assms ok_quiet_Some split: option.split)
next
  case False
  then have "HandleGetDeviceTokenResponse e p s = Some s"
    by (simp add: HandleGetDeviceTokenResponse_def split: body.split)
  then show ?thesis by (simp add: ok_quiet_Some)
qed

lemma db_quiet_if:
  "(b \<Longrightarrow> db_quiet s (f e p s)) \<Longrightarrow> (\<not> b \<Longrightarrow> db_quiet s (g e p s)) \<Longrightarrow> db_quiet s ((if b then f else g) e p s)"
  by simp

lemma db_dispatch_quiet:
  assumes "ids_live s" "cid \<noteq> CID_OTHER_VALIDATE_RSP"
  shows "db_quiet s (db_dispatch d cid e p s)"
  unfolding db_dispatch_def
  by (intro db_quiet_if)
    ((rule plain_answers_quiet [OF assms(1)] notices_quiet [OF assms(1)] group_responses_quiet [OF assms(1)],
      (simp only: insert_iff simp_thms; fail)) |
     (rule HandleGroupInfoResponse_quiet [OF assms(1)] HandleMsgData_quiet [OF assms(1)]
        HandleGetDeviceTokenResponse_quiet [OF assms(1)]) |
     (use assms(2) in \<open>simp add: ok_quiet_Some quiet_emit out_defs; fail\<close>))+

end
