(* ===== verification/Msg_Server.thy ===== *)
theory Msg_Server
  imports Msg_Effects
begin

text \<open>
  The message server as a state machine: its clients connect, send packets and disconnect, the
  database server answers, and the timer fires. A client step is one call of \<open>ImConn::onRead\<close>, which
  handles all packets that have come, also those behind one that closed the connection. This theory
  has the steps, and the invariant of the orderly runs, in which no packet stands behind such a one: it
  ties users, connections and the three maps together. \<open>Msg_Reads\<close> has the weaker invariant that
  holds in all runs.
\<close>

section \<open>Steps\<close>

definition init_server :: server where
  "init_server = \<lparr>conns = (\<lambda>_. new_conn 0 0 0), next_conn = 0, users = (\<lambda>_. None), next_user = 0, user_map = [],
     user_map_by_name = [], msg_conn_map = [], down_msg_total_cnt = 0, down_msg_miss_cnt = 0, sent = []\<rparr>"

text \<open>A connection that has not been closed: \<open>FindImConn\<close> finds it in \<open>g_msg_conn_map\<close>.\<close>

definition live :: "server \<Rightarrow> nat \<Rightarrow> bool" where
  "live s c \<longleftrightarrow> map_find (msg_conn_map s) (c_handle (conns s c)) = Some c \<and> c < next_conn s"

text \<open>What the database answers: one and the same id, not 0, for a login name.\<close>

definition honest :: "(string \<Rightarrow> uid) \<Rightarrow> pdu \<Rightarrow> bool" where
  "honest ident p \<longleftrightarrow> (case p_body p of
     IMValidateRsp name result rs info a \<Rightarrow> result = 0 \<longrightarrow> ui_user_id info = ident name \<and> ident name \<noteq> 0
   | _ \<Rightarrow> True)"

text \<open>A login names its user.\<close>

definition named :: "pdu \<Rightarrow> bool" where
  "named p \<longleftrightarrow> (case p_body p of IMLoginReq name pw status v t \<Rightarrow> name \<noteq> [] | _ \<Rightarrow> True)"

text \<open>Which reads may happen: all, or only the orderly ones, where the connection is still open whenever
  a packet is taken from the buffer.\<close>

definition any_read :: "nat \<Rightarrow> input \<Rightarrow> server \<Rightarrow> bool" where
  "any_read c ps s \<longleftrightarrow> True"

fun in_order :: "nat \<Rightarrow> input \<Rightarrow> server \<Rightarrow> bool" where
  "in_order c [] s \<longleftrightarrow> True"
| "in_order c ((e, None) # ps) s \<longleftrightarrow> live s c"
| "in_order c ((e, Some p) # ps) s \<longleftrightarrow> live s c \<and>
     (case HandlePdu e c p s of Some (Inr s') \<Rightarrow> in_order c ps s' | _ \<Rightarrow> True)"

text \<open>A step and its result, which is nothing when the step touches a freed user. The kernel hands out
  only handles that are not in use; \<open>imconn_callback\<close> passes a read or a disconnection only to a
  connection that is in the map when the event is served.\<close>

inductive srv_step :: "(string \<Rightarrow> uid) \<Rightarrow> (nat \<Rightarrow> input \<Rightarrow> server \<Rightarrow> bool) \<Rightarrow> server \<Rightarrow> server option \<Rightarrow> bool"
  for ident reads where
  connect: "map_find (msg_conn_map s) h = None \<Longrightarrow> h \<noteq> NETLIB_INVALID_HANDLE \<Longrightarrow>
    srv_step ident reads s (Some (OnConnect e h ctype s))"
| client: "live s c \<Longrightarrow> \<forall>e p. (e, Some p) \<in> set ps \<longrightarrow> named p \<Longrightarrow> reads c ps s \<Longrightarrow>
    srv_step ident reads s (on_read c ps s)"
| database: "honest ident p \<Longrightarrow> srv_step ident reads s (HandleDbPdu d e p s)"
| timer: "set (order (msg_conn_map s)) = set (msg_conn_map s) \<Longrightarrow> distinct (order (msg_conn_map s)) \<Longrightarrow>
    srv_step ident reads s (msg_conn_timer_callback t order s)"
| peer_close: "live s c \<Longrightarrow> srv_step ident reads s (Close c s)"

inductive reachable :: "(string \<Rightarrow> uid) \<Rightarrow> server \<Rightarrow> bool" for ident where
  start: "reachable ident init_server"
| step: "reachable ident s \<Longrightarrow> srv_step ident any_read s (Some s') \<Longrightarrow> reachable ident s'"

inductive orderly :: "(string \<Rightarrow> uid) \<Rightarrow> server \<Rightarrow> bool" for ident where
  start: "orderly ident init_server"
| step: "orderly ident s \<Longrightarrow> srv_step ident in_order s (Some s') \<Longrightarrow> orderly ident s'"

lemma any_read_step: "srv_step ident reads s r \<Longrightarrow> srv_step ident any_read s r"
  by (induction rule: srv_step.induct) (auto simp: any_read_def intro: srv_step.intros)

lemma orderly_reachable: "orderly ident s \<Longrightarrow> reachable ident s"
  by (induction rule: orderly.induct) (auto intro: reachable.intros any_read_step)

text \<open>A read is packet after packet.\<close>

lemma on_read_Some:
  "on_read c ((e, Some p) # ps) s = (case HandlePdu e c p s of None \<Rightarrow> None
     | Some (Inl x) \<Rightarrow> Close c s | Some (Inr s') \<Rightarrow> on_read c ps s')"
  by (simp split: option.split sum.split)

lemma on_client_pdu_cases:
  "on_client_pdu e c p s = (case HandlePdu e c p s of None \<Rightarrow> None | Some (Inl x) \<Rightarrow> Close c s | Some (Inr s') \<Rightarrow> Some s')"
  by (simp add: on_client_pdu_def split: option.split sum.split)

lemma on_read_one: "on_read c [(e, Some p)] s = on_client_pdu e c p s"
  by (simp only: on_read_Some on_client_pdu_cases on_read.simps(1))

section \<open>The invariant\<close>

text \<open>Well-formed tables. \<open>X\<close> are users that may be left without a connection for the moment.\<close>

definition conns_ok :: "server \<Rightarrow> bool" where
  "conns_ok s \<longleftrightarrow> map_ok (msg_conn_map s) \<and>
     (\<forall>h c. map_find (msg_conn_map s) h = Some c \<longrightarrow> c_handle (conns s c) = h \<and> c < next_conn s \<and> h \<noteq> NETLIB_INVALID_HANDLE) \<and>
     (\<forall>c. live s c \<and> \<not> c_open (conns s c) \<longrightarrow> c_user_id (conns s c) = 0) \<and>
     (\<forall>c. live s c \<and> c_open (conns s c) \<longrightarrow> c_login_name (conns s c) \<noteq> [])"

definition user_ok :: "(string \<Rightarrow> uid) \<Rightarrow> nat set \<Rightarrow> server \<Rightarrow> nat \<Rightarrow> im_user \<Rightarrow> bool" where
  "user_ok ident X s u usr \<longleftrightarrow>
     u < next_user s \<and> GetImUserByLoginName s (u_login_name usr) = Some u \<and> u_login_name usr \<noteq> [] \<and> map_ok (u_conn_map usr) \<and>
     (\<forall>h c. map_find (u_conn_map usr) h = Some c \<longrightarrow>
        live s c \<and> c_handle (conns s c) = h \<and> c_open (conns s c) \<and> c_user_id (conns s c) = u_user_id usr) \<and>
     (\<forall>c\<in>set (u_unvalidate_conn_set usr).
        live s c \<and> \<not> c_open (conns s c) \<and> c_login_name (conns s c) = u_login_name usr) \<and>
     (if u_user_id usr = 0 then u_conn_map usr = []
      else GetImUserById s (u_user_id usr) = Some u \<and> u_user_id usr = ident (u_login_name usr) \<and> (u_conn_map usr \<noteq> [] \<or> u \<in> X))"

definition tables_ok :: "server \<Rightarrow> bool" where
  "tables_ok s \<longleftrightarrow> map_ok (user_map s) \<and> distinct (map fst (user_map_by_name s)) \<and>
     (\<forall>i u. GetImUserById s i = Some u \<longrightarrow> i \<noteq> 0 \<and> (\<exists>usr. users s u = Some usr \<and> u_user_id usr = i)) \<and>
     (\<forall>n u. GetImUserByLoginName s n = Some u \<longrightarrow> (\<exists>usr. users s u = Some usr \<and> u_login_name usr = n)) \<and>
     (\<forall>c. live s c \<and> c_open (conns s c) \<longrightarrow>
        (\<exists>u usr. GetImUserById s (c_user_id (conns s c)) = Some u \<and> users s u = Some usr \<and>
          map_find (u_conn_map usr) (c_handle (conns s c)) = Some c))"

definition srv_inv :: "(string \<Rightarrow> uid) \<Rightarrow> nat set \<Rightarrow> server \<Rightarrow> bool" where
  "srv_inv ident X s \<longleftrightarrow> conns_ok s \<and> tables_ok s \<and> (\<forall>u usr. users s u = Some usr \<longrightarrow> user_ok ident X s u usr)"

lemmas inv_defs = conns_ok_def tables_ok_def user_ok_def

lemma quiet_live: "quiet conn_key P s s' \<Longrightarrow> live s' c = live s c"
  by (simp add: quiet_def live_def conn_key_def)

text \<open>The invariant depends on the tables and on the keys of the connections only.\<close>

lemma inv_same_tables:
  assumes inv: "srv_inv ident X s" and tables [simp]: "users s' = users s" "user_map s' = user_map s"
      "user_map_by_name s' = user_map_by_name s" "msg_conn_map s' = msg_conn_map s" "next_conn s' = next_conn s" "next_user s' = next_user s"
    and key: "\<And>k. conn_key (conns s' k) = conn_key (conns s k)"
  shows "srv_inv ident X s'"
proof -
  have [simp]: "c_handle (conns s' c) = c_handle (conns s c)" "c_login_name (conns s' c) = c_login_name (conns s c)"
    "c_user_id (conns s' c) = c_user_id (conns s c)" "c_open (conns s' c) = c_open (conns s c)" for c
    using key [of c] by (simp_all add: conn_key_def)
  have [simp]: "live s' c = live s c" for c by (simp add: live_def)
  have "srv_inv ident X s' = srv_inv ident X s"
    by (simp add: srv_inv_def inv_defs GetImUserById_def GetImUserByLoginName_def)
  with inv show ?thesis by simp
qed

lemma inv_quiet: "srv_inv ident X s \<Longrightarrow> quiet conn_key P s s' \<Longrightarrow> srv_inv ident X s'"
  by (erule inv_same_tables) (simp_all add: quiet_def)

lemma inv_by_id:
  assumes "srv_inv ident X s" "GetImUserById s i = Some u"
  obtains usr where "users s u = Some usr" "u_user_id usr = i" "i \<noteq> 0"
  using assms unfolding srv_inv_def tables_ok_def by blast

lemma inv_by_name:
  assumes "srv_inv ident X s" "GetImUserByLoginName s n = Some u"
  obtains usr where "users s u = Some usr" "u_login_name usr = n"
  using assms unfolding srv_inv_def tables_ok_def by blast

lemma inv_owner:
  assumes "srv_inv ident X s" "live s c" "c_open (conns s c)"
  obtains u usr where "GetImUserById s (c_user_id (conns s c)) = Some u" "users s u = Some usr"
    "map_find (u_conn_map usr) (c_handle (conns s c)) = Some c"
  using assms unfolding srv_inv_def tables_ok_def by blast

lemma inv_user: "srv_inv ident X s \<Longrightarrow> users s u = Some usr \<Longrightarrow> user_ok ident X s u usr"
  by (simp add: srv_inv_def)

lemma user_ok_id: "user_ok ident X s u usr \<Longrightarrow> u_user_id usr \<noteq> 0 \<Longrightarrow> GetImUserById s (u_user_id usr) = Some u"
  unfolding user_ok_def by metis

lemma user_ok_name: "user_ok ident X s u usr \<Longrightarrow> GetImUserByLoginName s (u_login_name usr) = Some u"
  by (simp add: user_ok_def)

lemma user_ok_conn:
  assumes "user_ok ident X s u usr" "map_find (u_conn_map usr) h = Some c"
  shows "live s c" "c_handle (conns s c) = h" "c_open (conns s c)" "c_user_id (conns s c) = u_user_id usr" "u_user_id usr \<noteq> 0"
  using assms by (auto simp: user_ok_def)

lemma user_ok_pending:
  assumes "user_ok ident X s u usr" "c \<in> set (u_unvalidate_conn_set usr)"
  shows "live s c" "\<not> c_open (conns s c)" "c_login_name (conns s c) = u_login_name usr"
  using assms by (auto simp: user_ok_def)

lemma user_ok_transfer:
  assumes ok: "user_ok ident X s u usr"
    and conn: "\<And>c. live s c \<Longrightarrow> c_open (conns s c) \<or> c \<in> set (u_unvalidate_conn_set usr) \<Longrightarrow>
      live s' c \<and> conn_key (conns s' c) = conn_key (conns s c)"
    and id: "\<And>i. GetImUserById s i = Some u \<Longrightarrow> GetImUserById s' i = Some u"
    and name: "\<And>n. GetImUserByLoginName s n = Some u \<Longrightarrow> GetImUserByLoginName s' n = Some u"
    and nxt: "next_user s \<le> next_user s'"
  shows "user_ok ident X s' u usr"
proof -
  have key: "live s' c" "c_open (conns s' c) = c_open (conns s c)" "c_handle (conns s' c) = c_handle (conns s c)"
    "c_user_id (conns s' c) = c_user_id (conns s c)" "c_login_name (conns s' c) = c_login_name (conns s c)"
    if "live s c" "c_open (conns s c) \<or> c \<in> set (u_unvalidate_conn_set usr)" for c
    using conn [OF that] by (simp_all add: conn_key_def)
  have last: "if u_user_id usr = 0 then u_conn_map usr = []
      else GetImUserById s (u_user_id usr) = Some u \<and> u_user_id usr = ident (u_login_name usr) \<and> (u_conn_map usr \<noteq> [] \<or> u \<in> X)"
    using ok unfolding user_ok_def by blast
  show ?thesis
    unfolding user_ok_def
  proof (intro conjI allI impI ballI)
    show "u < next_user s'" "GetImUserByLoginName s' (u_login_name usr) = Some u" "u_login_name usr \<noteq> []" "map_ok (u_conn_map usr)"
      using ok nxt name unfolding user_ok_def by auto
  next
    fix h c assume "map_find (u_conn_map usr) h = Some c"
    from user_ok_conn [OF ok this] key
    show "live s' c" "c_handle (conns s' c) = h" "c_open (conns s' c)" "c_user_id (conns s' c) = u_user_id usr" by auto
  next
    fix c assume c: "c \<in> set (u_unvalidate_conn_set usr)"
    from user_ok_pending [OF ok c] key c
    show "live s' c" "\<not> c_open (conns s' c)" "c_login_name (conns s' c) = u_login_name usr" by auto
  next
    show "if u_user_id usr = 0 then u_conn_map usr = []
      else GetImUserById s' (u_user_id usr) = Some u \<and> u_user_id usr = ident (u_login_name usr) \<and> (u_conn_map usr \<noteq> [] \<or> u \<in> X)"
      using last id by (cases "u_user_id usr = 0") auto
  qed
qed

lemma inv_ids_live: "srv_inv ident X s \<Longrightarrow> ids_live s"
  unfolding ids_live_def by (metis GetImUserById_def inv_by_id option.distinct(1))

lemma map_find_erase [simp]: "map_find (map_erase k m) j = (if j = k then None else map_find m j)"
  by (induction m) (auto simp: map_erase_def)

lemma map_erase_absent: "map_find m k = None \<Longrightarrow> map_erase k m = m"
  by (induction m) (auto simp: map_erase_def split: if_splits)

lemma set_erase_absent: "c \<notin> set m \<Longrightarrow> set_erase c m = m"
  by (induction m) (auto simp: set_erase_def)

lemma distinct_map_erase: "distinct (map fst m) \<Longrightarrow> distinct (map fst (map_erase k m))"
  by (simp add: map_erase_def distinct_map_filter)

subsection \<open>Removing a user\<close>

definition without_user :: "nat \<Rightarrow> im_user \<Rightarrow> server \<Rightarrow> server" where
  "without_user u usr s = s\<lparr>users := (users s)(u := None), user_map := map_erase (u_user_id usr) (user_map s),
     user_map_by_name := map_erase (u_login_name usr) (user_map_by_name s)\<rparr>"

lemma RemoveImUser_eq: "users s u = Some usr \<Longrightarrow> RemoveImUser u s = Some (without_user u usr s)"
  by (simp add: RemoveImUser_def delete_user_def RemoveImUserByLoginName_def RemoveImUserById_def without_user_def)

lemma inv_without_user:
  assumes inv: "srv_inv ident X s" and u: "users s u = Some usr" "u_conn_map usr = []"
  shows "srv_inv ident (X - {u}) (without_user u usr s)"
proof -
  let ?s = "without_user u usr s"
  have [simp]: "live ?s c = live s c" "conns ?s = conns s" "next_conn ?s = next_conn s" "next_user ?s = next_user s"
    "msg_conn_map ?s = msg_conn_map s" for c by (simp_all add: without_user_def live_def)
  have uok: "user_ok ident X s u usr" using inv u by (simp add: srv_inv_def)
  have tab: "tables_ok s" using inv by (simp add: srv_inv_def)
  have id: "GetImUserById ?s i = (if i = u_user_id usr then None else GetImUserById s i)" for i
    by (simp add: GetImUserById_def without_user_def)
  have name: "GetImUserByLoginName ?s n = (if n = u_login_name usr then None else GetImUserByLoginName s n)" for n
    by (simp add: GetImUserByLoginName_def without_user_def)
  have id_u: "GetImUserById s i = Some u \<longleftrightarrow> i = u_user_id usr \<and> u_user_id usr \<noteq> 0" for i
    using user_ok_id [OF uok] u by (auto elim!: inv_by_id [OF inv])
  have users: "users ?s v = Some w \<longleftrightarrow> v \<noteq> u \<and> users s v = Some w" for v w by (simp add: without_user_def)
  have other: "w_id \<noteq> u_user_id usr" if "GetImUserById s w_id = Some v" "v \<noteq> u" "w_id \<noteq> 0" for w_id v
    using that user_ok_id [OF uok] by auto
  have "conns_ok ?s" using inv by (simp add: srv_inv_def conns_ok_def)
  moreover have "tables_ok ?s"
    unfolding tables_ok_def
  proof (intro conjI allI impI)
    show "map_ok (user_map ?s)" using tab by (simp add: without_user_def tables_ok_def map_erase_ok)
    show "distinct (map fst (user_map_by_name ?s))"
      using tab by (simp add: without_user_def tables_ok_def distinct_map_erase)
  next
    fix i v assume "GetImUserById ?s i = Some v"
    then have *: "i \<noteq> u_user_id usr" "GetImUserById s i = Some v" by (simp_all add: id split: if_splits)
    with tab show "i \<noteq> 0" by (auto simp: tables_ok_def)
    from * tab id_u show "\<exists>w. users ?s v = Some w \<and> u_user_id w = i" by (auto simp: tables_ok_def users)
  next
    fix n v assume "GetImUserByLoginName ?s n = Some v"
    then have *: "n \<noteq> u_login_name usr" "GetImUserByLoginName s n = Some v" by (simp_all add: name split: if_splits)
    with tab u show "\<exists>w. users ?s v = Some w \<and> u_login_name w = n" by (force simp: tables_ok_def users)
  next
    fix c assume "live ?s c \<and> c_open (conns ?s c)"
    with tab obtain v w where *: "GetImUserById s (c_user_id (conns s c)) = Some v" "users s v = Some w"
      "map_find (u_conn_map w) (c_handle (conns s c)) = Some c" by (auto simp: tables_ok_def)
    with u have "v \<noteq> u" by auto
    moreover from * tab have "c_user_id (conns s c) \<noteq> 0" by (auto simp: tables_ok_def)
    ultimately have "c_user_id (conns s c) \<noteq> u_user_id usr" using other * by auto
    with * \<open>v \<noteq> u\<close> show "\<exists>v w. GetImUserById ?s (c_user_id (conns ?s c)) = Some v \<and> users ?s v = Some w \<and>
        map_find (u_conn_map w) (c_handle (conns ?s c)) = Some c"
      by (auto simp: id users)
  qed
  moreover have "user_ok ident (X - {u}) ?s v w" if "users ?s v = Some w" for v w
  proof -
    have v: "v \<noteq> u" "users s v = Some w" using that by (simp_all add: users)
    with inv have "user_ok ident X s v w" by (simp add: srv_inv_def)
    with v uok other show ?thesis
      by (auto simp: user_ok_def id name split: if_splits)
  qed
  ultimately show ?thesis by (simp add: srv_inv_def)
qed

lemma RemoveIfEmpty_ok:
  assumes inv: "srv_inv ident X s" and u: "users s u = Some usr"
  obtains s' where "RemoveIfEmpty u s = Some s'" "srv_inv ident (X - {u}) s'" "conns s' = conns s"
    "msg_conn_map s' = msg_conn_map s" "next_conn s' = next_conn s" "sent s' = sent s"
proof (cases "u_conn_map usr = []")
  case True
  with u have "RemoveIfEmpty u s = Some (without_user u usr s)"
    by (simp add: RemoveIfEmpty_def IsMsgConnEmpty_def RemoveImUser_eq)
  with True inv u show ?thesis
    by (intro that [of "without_user u usr s"] inv_without_user) (simp_all add: without_user_def)
next
  case False
  with u have eq: "RemoveIfEmpty u s = Some s" by (simp add: RemoveIfEmpty_def IsMsgConnEmpty_def)
  have "user_ok ident (X - {u}) s v w" if "users s v = Some w" for v w
  proof -
    have "user_ok ident X s v w" using inv that by (simp add: srv_inv_def)
    with that u False show ?thesis by (cases "v = u") (auto simp: user_ok_def split: if_splits)
  qed
  then have "srv_inv ident (X - {u}) s" using inv by (simp add: srv_inv_def)
  then show ?thesis using eq by (intro that) simp_all
qed

subsection \<open>Closing a connection\<close>

definition detach :: "nat \<Rightarrow> nat \<Rightarrow> server \<Rightarrow> server" where
  "detach c u s = s\<lparr>msg_conn_map := map_erase (c_handle (conns s c)) (msg_conn_map s),
     users := (users s)(u := map_option (\<lambda>usr. DelUnValidateMsgConn c (DelMsgConn (c_handle (conns s c)) usr)) (users s u))\<rparr>"

lemma live_detach: "live s c \<Longrightarrow> live (detach c u s) c' \<longleftrightarrow> live s c' \<and> c' \<noteq> c"
  by (auto simp: live_def detach_def)

lemma detach_simps [simp]:
  "conns (detach c u s) = conns s" "next_conn (detach c u s) = next_conn s" "next_user (detach c u s) = next_user s"
  "user_map (detach c u s) = user_map s" "user_map_by_name (detach c u s) = user_map_by_name s"
  "GetImUserById (detach c u s) i = GetImUserById s i" "GetImUserByLoginName (detach c u s) n = GetImUserByLoginName s n"
  "sent (detach c u s) = sent s" "msg_conn_map (detach c u s) = map_erase (c_handle (conns s c)) (msg_conn_map s)"
  by (simp_all add: detach_def GetImUserById_def GetImUserByLoginName_def)

lemma user_ok_detach:
  assumes live: "live s c" and u: "user_ok ident {} s u usr"
  shows "user_ok ident {u} (detach c u s) u (DelUnValidateMsgConn c (DelMsgConn (c_handle (conns s c)) usr))"
proof -
  have "c' \<noteq> c" if "map_find (u_conn_map usr) h = Some c'" "h \<noteq> c_handle (conns s c)" for h c'
    using user_ok_conn(2) [OF u that(1)] that(2) by auto
  then show ?thesis using u live
    by (auto simp: user_ok_def DelUnValidateMsgConn_def DelMsgConn_def live_detach map_erase_ok)
qed

lemma user_ok_detach_other:
  assumes live: "live s c" and v: "user_ok ident {} s v w"
    and "c \<notin> set (u_unvalidate_conn_set w)" "map_find (u_conn_map w) (c_handle (conns s c)) \<noteq> Some c"
  shows "user_ok ident {u} (detach c u s) v w"
proof -
  have "c' \<noteq> c" if "map_find (u_conn_map w) h = Some c'" for h c'
    using user_ok_conn(2) [OF v that] assms(4) that by auto
  moreover have "c' \<noteq> c" if "c' \<in> set (u_unvalidate_conn_set w)" for c' using that assms(3) by auto
  ultimately show ?thesis using v live by (auto simp: user_ok_def live_detach)
qed

lemma inv_detach:
  assumes inv: "srv_inv ident {} s" and live: "live s c"
    and others: "\<And>v w. users s v = Some w \<Longrightarrow> v \<noteq> u \<Longrightarrow>
      c \<notin> set (u_unvalidate_conn_set w) \<and> map_find (u_conn_map w) (c_handle (conns s c)) \<noteq> Some c"
  shows "srv_inv ident {u} (detach c u s)"
proof -
  let ?s = "detach c u s"
  have "conns_ok ?s"
    using inv by (auto simp: srv_inv_def conns_ok_def live_detach live map_erase_ok)
  moreover have "tables_ok ?s"
    unfolding tables_ok_def
  proof (intro conjI allI impI)
    show "map_ok (user_map ?s)" "distinct (map fst (user_map_by_name ?s))"
      using inv by (simp_all add: srv_inv_def tables_ok_def)
  next
    fix i v assume "GetImUserById ?s i = Some v"
    then have "GetImUserById s i = Some v" by simp
    then show "i \<noteq> 0" "\<exists>w. users ?s v = Some w \<and> u_user_id w = i"
      by (auto elim!: inv_by_id [OF inv] simp: detach_def DelUnValidateMsgConn_def DelMsgConn_def)
  next
    fix n v assume "GetImUserByLoginName ?s n = Some v"
    then have "GetImUserByLoginName s n = Some v" by simp
    then show "\<exists>w. users ?s v = Some w \<and> u_login_name w = n"
      by (auto elim!: inv_by_name [OF inv] simp: detach_def DelUnValidateMsgConn_def DelMsgConn_def)
  next
    fix c' assume "live ?s c' \<and> c_open (conns ?s c')"
    then have c': "live s c'" "c_open (conns s c')" "c' \<noteq> c" by (simp_all add: live_detach live)
    obtain v w where vw: "GetImUserById s (c_user_id (conns s c')) = Some v" "users s v = Some w"
      "map_find (u_conn_map w) (c_handle (conns s c')) = Some c'" by (rule inv_owner [OF inv c'(1,2)])
    have "c_handle (conns s c') \<noteq> c_handle (conns s c)" using c'(1,3) live by (auto simp: live_def)
    with vw show "\<exists>v w. GetImUserById ?s (c_user_id (conns ?s c')) = Some v \<and> users ?s v = Some w \<and>
        map_find (u_conn_map w) (c_handle (conns ?s c')) = Some c'"
      by (auto simp: detach_def DelUnValidateMsgConn_def DelMsgConn_def GetImUserById_def)
  qed
  moreover have "user_ok ident {u} ?s v w" if "users ?s v = Some w" for v w
  proof (cases "v = u")
    case True
    with that obtain usr where "users s u = Some usr"
      "w = DelUnValidateMsgConn c (DelMsgConn (c_handle (conns s c)) usr)" by (auto simp: detach_def)
    with True show ?thesis using user_ok_detach [OF live inv_user [OF inv]] by simp
  next
    case False
    with that have "users s v = Some w" by (simp add: detach_def)
    with False show ?thesis using user_ok_detach_other [OF live inv_user [OF inv]] others by blast
  qed
  ultimately show ?thesis by (simp add: srv_inv_def)
qed

text \<open>The counts announced to the login servers.\<close>

definition cnt_action :: "u32 \<Rightarrow> out \<Rightarrow> bool" where
  "cnt_action a x = (case x of ToAllLogin q \<Rightarrow> (case p_body q of IMUserCntUpdate b i \<Rightarrow> a = b | _ \<Rightarrow> False) | _ \<Rightarrow> False)"

definition announced :: "u32 \<Rightarrow> server \<Rightarrow> nat" where
  "announced a s = length (filter (cnt_action a) (sent s))"

lemma announced_emit: "announced a (emit x s) = announced a s + (if cnt_action a x then 1 else 0)"
  by (simp add: announced_def emit_def)

lemma emit_tables [simp]:
  "msg_conn_map (emit x s) = msg_conn_map s" "next_conn (emit x s) = next_conn s" "next_user (emit x s) = next_user s"
  "user_map_by_name (emit x s) = user_map_by_name s"
  by (simp_all add: emit_def)

lemma cnt_action_announces: "cnt_action a x \<Longrightarrow> announces x"
  by (cases x) (auto simp: cnt_action_def announces_def)

lemma quiet_announced:
  assumes "quiet K P s s'" "\<And>x. P x \<Longrightarrow> \<not> announces x"
  shows "announced a s' = announced a s"
proof -
  obtain xs where "sent s' = sent s @ xs" "list_all P xs" using assms(1) by (auto simp: quiet_def)
  moreover from this(2) have "filter (cnt_action a) xs = []"
    using assms(2) cnt_action_announces by (auto simp: filter_empty_conv list_all_iff)
  ultimately show ?thesis by (simp add: announced_def)
qed

definition online :: "server \<Rightarrow> nat set" where
  "online s = {c. live s c \<and> c_open (conns s c)}"

lemma finite_online: "finite (online s)"
  by (rule finite_subset [of _ "{..<next_conn s}"]) (auto simp: online_def live_def)

lemma bind_step: "r \<bind> f = Some s \<Longrightarrow> r \<bind> (\<lambda>x. f x \<bind> g) = g s"
  by (cases r) auto

lemma Close_open:
  assumes inv: "srv_inv ident {} s" and live: "live s c" and op: "c_open (conns s c)"
  obtains s' where "Close c s = Some s'" "srv_inv ident {} s'" "conns s' = conns s" "next_conn s' = next_conn s"
    "msg_conn_map s' = map_erase (c_handle (conns s c)) (msg_conn_map s)"
    "announced USER_CNT_INC s' = announced USER_CNT_INC s" "announced USER_CNT_DEC s' = announced USER_CNT_DEC s + 1"
proof -
  let ?h = "c_handle (conns s c)"
  obtain u usr where u: "GetImUserById s (c_user_id (conns s c)) = Some u" "users s u = Some usr"
    "map_find (u_conn_map usr) ?h = Some c" by (rule inv_owner [OF inv live op])
  have h: "?h \<noteq> NETLIB_INVALID_HANDLE" using inv live by (auto simp: srv_inv_def conns_ok_def live_def)
  have others: "c \<notin> set (u_unvalidate_conn_set w) \<and> map_find (u_conn_map w) ?h \<noteq> Some c"
    if "users s v = Some w" "v \<noteq> u" for v w
  proof -
    have vok: "user_ok ident {} s v w" by (rule inv_user [OF inv that(1)])
    have "v = u" if "map_find (u_conn_map w) ?h = Some c"
      using user_ok_conn(4,5) [OF vok that] user_ok_id [OF vok] u(1) by simp
    with that op user_ok_pending(2) [OF vok] show ?thesis by blast
  qed
  define s1 where "s1 = emit (ToAllRoute (mk_pdu SID_OTHER CID_OTHER_USER_STATUS_UPDATE 0
       (IMUserStatusUpdate USER_STATUS_OFFLINE (u_user_id usr) (c_client_type (conns s c)))))
     (emit (ToAllLogin (mk_pdu SID_OTHER CID_OTHER_USER_CNT_UPDATE 0 (IMUserCntUpdate USER_CNT_DEC (u_user_id usr))))
       (emit (CloseSocket c) (detach c u s)))"
  have "quiet conn_key (\<lambda>x. True) (detach c u s) s1"
    unfolding s1_def by (intro quiet_emit quiet_refl) auto
  moreover have "srv_inv ident {u} (detach c u s)" by (rule inv_detach [OF inv live]) (rule others)
  ultimately have inv1: "srv_inv ident {u} s1" by (rule inv_quiet [rotated])
  obtain usr1 where usr1: "users s1 u = Some usr1" using u(2) by (simp add: s1_def detach_def)
  obtain s2 where s2: "RemoveIfEmpty u s1 = Some s2" "srv_inv ident ({u} - {u}) s2" "conns s2 = conns s1"
    "msg_conn_map s2 = msg_conn_map s1" "next_conn s2 = next_conn s1" "sent s2 = sent s1"
    by (rule RemoveIfEmpty_ok [OF inv1 usr1])
  have inv2: "srv_inv ident {} s2" using s2(2) by simp
  have dead: "\<not> live s2 c" using s2(3,4) by (simp add: s1_def live_def)
  have run: "Close c s = (case GetImUserByLoginName s2 (c_login_name (conns s c)) of
       None \<Rightarrow> Some s2
     | Some w \<Rightarrow> upd_user w (DelUnValidateMsgConn c) s2 \<bind> RemoveIfEmpty w)"
  proof -
    let ?s0 = "(emit (CloseSocket c) s)\<lparr>msg_conn_map := map_erase ?h (msg_conn_map s)\<rparr>"
    have del: "upd_user u (DelMsgConn ?h) ?s0 \<bind> upd_user u (DelUnValidateMsgConn c) = Some (emit (CloseSocket c) (detach c u s))"
      by (simp add: upd_user_def u emit_def detach_def)
    have upd: "SendUserStatusUpdate c USER_STATUS_OFFLINE (emit (CloseSocket c) (detach c u s)) = Some s1"
      using u by (simp add: SendUserStatusUpdate_def op s1_def) (simp add: GetImUserById_def detach_def DelUnValidateMsgConn_def DelMsgConn_def)
    have "GetImUserById ?s0 (c_user_id (conns s c)) = Some u" using u by (simp add: GetImUserById_def)
    then show ?thesis
      unfolding Close_def Let_def by (simp only: h not_False_eq_True if_True option.case bind_step [OF del] upd s2(1) Option.bind.bind_lunit)
  qed
  have fin: "announced a s2 = announced a s + (if a = USER_CNT_DEC then 1 else 0)" for a
    using s2(6) by (simp add: announced_def s1_def emit_def cnt_action_def mk_pdu_def)
  show ?thesis
  proof (cases "GetImUserByLoginName s2 (c_login_name (conns s c))")
    case None
    with run inv2 s2 fin show ?thesis by (intro that [of s2]) (simp_all add: s1_def)
  next
    case (Some w)
    obtain wusr where w: "users s2 w = Some wusr" by (rule inv_by_name [OF inv2 Some])
    have "c \<notin> set (u_unvalidate_conn_set wusr)" using user_ok_pending(1) [OF inv_user [OF inv2 w]] dead by blast
    then have "upd_user w (DelUnValidateMsgConn c) s2 = Some s2"
      by (simp add: upd_user_def w DelUnValidateMsgConn_def set_erase_absent fun_upd_idem)
    moreover obtain s3 where s3: "RemoveIfEmpty w s2 = Some s3" "srv_inv ident ({} - {w}) s3" "conns s3 = conns s2"
      "msg_conn_map s3 = msg_conn_map s2" "next_conn s3 = next_conn s2" "sent s3 = sent s2"
      by (rule RemoveIfEmpty_ok [OF inv2 w])
    moreover have "announced a s3 = announced a s2" for a using s3 by (simp add: announced_def)
    ultimately show ?thesis using run Some s2 fin by (intro that [of s3]) (simp_all add: s1_def)
  qed
qed

lemma user_ok_mono:
  assumes "user_ok ident X s u usr" "u \<in> X \<Longrightarrow> u \<in> Y"
  shows "user_ok ident Y s u usr"
proof (cases "u_user_id usr = 0")
  case True
  with assms(1) show ?thesis unfolding user_ok_def if_P [OF True] by blast
next
  case False
  with assms show ?thesis unfolding user_ok_def if_not_P [OF False] by blast
qed

lemma inv_no_user: "srv_inv ident {u} s \<Longrightarrow> users s u = None \<Longrightarrow> srv_inv ident {} s"
  unfolding srv_inv_def by (metis option.distinct(1) singletonD user_ok_mono)

lemma Close_pending:
  assumes inv: "srv_inv ident {} s" and live: "live s c" and op: "\<not> c_open (conns s c)"
  obtains s' where "Close c s = Some s'" "srv_inv ident {} s'" "conns s' = conns s" "next_conn s' = next_conn s"
    "msg_conn_map s' = map_erase (c_handle (conns s c)) (msg_conn_map s)" "announced a s' = announced a s"
proof -
  let ?h = "c_handle (conns s c)" and ?n = "c_login_name (conns s c)"
  have h: "?h \<noteq> NETLIB_INVALID_HANDLE" and i: "c_user_id (conns s c) = 0"
    using inv live op by (auto simp: srv_inv_def conns_ok_def live_def)
  have none: "GetImUserById s 0 = None"
    by (metis inv inv_by_id not_Some_eq)
  have pend: "map_find (u_conn_map w) ?h \<noteq> Some c" if "users s v = Some w" for v w
    using user_ok_conn(3) [OF inv_user [OF inv that]] op by blast
  have owner: "GetImUserByLoginName s ?n = Some v" if "users s v = Some w" "c \<in> set (u_unvalidate_conn_set w)" for v w
    using user_ok_pending(3) [OF inv_user [OF inv that(1)] that(2)] user_ok_name [OF inv_user [OF inv that(1)]] by simp
  let ?s0 = "(emit (CloseSocket c) s)\<lparr>msg_conn_map := map_erase ?h (msg_conn_map s)\<rparr>"
  have run: "Close c s = (case GetImUserByLoginName s ?n of None \<Rightarrow> Some ?s0
      | Some u \<Rightarrow> upd_user u (DelUnValidateMsgConn c) ?s0 \<bind> RemoveIfEmpty u)"
    using none by (simp add: Close_def Let_def h i GetImUserById_def GetImUserByLoginName_def)
  have cnt: "announced a (s'\<lparr>msg_conn_map := m, users := us\<rparr>) = announced a s'" for s' m us by (simp add: announced_def)
  show ?thesis
  proof (cases "GetImUserByLoginName s ?n")
    case None
    let ?u = "next_user s"
    have fresh: "users s ?u = None"
      using inv by (cases "users s ?u") (auto simp: srv_inv_def user_ok_def)
    have others: "c \<notin> set (u_unvalidate_conn_set w) \<and> map_find (u_conn_map w) ?h \<noteq> Some c" if "users s v = Some w" for v w
      using owner [OF that] pend [OF that] None by auto
    have "srv_inv ident {?u} (detach c ?u s)" by (rule inv_detach [OF inv live]) (rule others)
    moreover have "quiet conn_key (\<lambda>x. True) (detach c ?u s) (emit (CloseSocket c) (detach c ?u s))"
      by (intro quiet_emit quiet_refl) simp
    ultimately have "srv_inv ident {?u} (emit (CloseSocket c) (detach c ?u s))" by (rule inv_quiet)
    moreover have "emit (CloseSocket c) (detach c ?u s) = ?s0"
      using fresh by (simp add: detach_def emit_def fun_upd_idem)
    ultimately have "srv_inv ident {?u} ?s0" by simp
    then have "srv_inv ident {} ?s0" by (rule inv_no_user) (simp add: fresh)
    then show ?thesis using run None
      by (intro that [of ?s0]) (simp_all add: announced_def emit_def cnt_action_def)
  next
    case (Some u)
    obtain usr where u: "users s u = Some usr" by (rule inv_by_name [OF inv Some])
    let ?s1 = "emit (CloseSocket c) (detach c u s)"
    have others: "c \<notin> set (u_unvalidate_conn_set w) \<and> map_find (u_conn_map w) ?h \<noteq> Some c"
      if "users s v = Some w" "v \<noteq> u" for v w
      using owner [OF that(1)] pend [OF that(1)] that(2) Some by auto
    have "srv_inv ident {u} (detach c u s)" by (rule inv_detach [OF inv live]) (rule others)
    moreover have "quiet conn_key (\<lambda>x. True) (detach c u s) ?s1" by (intro quiet_emit quiet_refl) simp
    ultimately have inv1: "srv_inv ident {u} ?s1" by (rule inv_quiet)
    have "map_find (u_conn_map usr) ?h = None"
    proof (cases "map_find (u_conn_map usr) ?h")
      case (Some c')
      from user_ok_conn(1,2) [OF inv_user [OF inv u] Some] live have "c' = c" by (simp add: live_def)
      with pend [OF u] Some show ?thesis by simp
    qed simp
    then have "DelMsgConn ?h usr = usr" by (simp add: DelMsgConn_def map_erase_absent)
    then have "upd_user u (DelUnValidateMsgConn c) ?s0 = Some ?s1"
      by (simp add: upd_user_def u detach_def emit_def)
    moreover have "users ?s1 u \<noteq> None" using u by (simp add: detach_def)
    then obtain usr1 where "users ?s1 u = Some usr1" by blast
    then obtain s2 where s2: "RemoveIfEmpty u ?s1 = Some s2" "srv_inv ident ({u} - {u}) s2" "conns s2 = conns ?s1"
      "msg_conn_map s2 = msg_conn_map ?s1" "next_conn s2 = next_conn ?s1" "sent s2 = sent ?s1"
      by (rule RemoveIfEmpty_ok [OF inv1])
    ultimately show ?thesis using run Some
      by (intro that [of s2]) (simp_all add: announced_def emit_def cnt_action_def)
  qed
qed

definition balanced :: "server \<Rightarrow> bool" where
  "balanced s \<longleftrightarrow> announced USER_CNT_INC s = announced USER_CNT_DEC s + card (online s)"

definition good :: "(string \<Rightarrow> uid) \<Rightarrow> server \<Rightarrow> bool" where
  "good ident s \<longleftrightarrow> srv_inv ident {} s \<and> balanced s"

lemma Close_good:
  assumes "good ident s" and live: "live s c"
  obtains s' where "Close c s = Some s'" "good ident s'" "conns s' = conns s"
    "msg_conn_map s' = map_erase (c_handle (conns s c)) (msg_conn_map s)" "next_conn s' = next_conn s"
proof -
  have inv: "srv_inv ident {} s" and bal: "balanced s" using assms(1) by (simp_all add: good_def)
  have gone: "live s' c' \<longleftrightarrow> live s c' \<and> c' \<noteq> c"
    if "conns s' = conns s" "next_conn s' = next_conn s"
      "msg_conn_map s' = map_erase (c_handle (conns s c)) (msg_conn_map s)" for s' c'
    using that live by (auto simp: live_def)
  show ?thesis
  proof (cases "c_open (conns s c)")
    case True
    obtain s' where s': "Close c s = Some s'" "srv_inv ident {} s'" "conns s' = conns s" "next_conn s' = next_conn s"
      "msg_conn_map s' = map_erase (c_handle (conns s c)) (msg_conn_map s)"
      "announced USER_CNT_INC s' = announced USER_CNT_INC s" "announced USER_CNT_DEC s' = announced USER_CNT_DEC s + 1"
      by (rule Close_open [OF inv live True])
    have "online s = insert c (online s')" "c \<notin> online s'"
      using gone [OF s'(3,4,5)] True live s'(3) by (auto simp: online_def)
    with finite_online [of s'] s' bal have "balanced s'" by (simp add: balanced_def)
    with s' that show ?thesis by (auto simp: good_def)
  next
    case False
    obtain s' where s': "Close c s = Some s'" "srv_inv ident {} s'" "conns s' = conns s" "next_conn s' = next_conn s"
      "msg_conn_map s' = map_erase (c_handle (conns s c)) (msg_conn_map s)" "announced USER_CNT_INC s' = announced USER_CNT_INC s"
      by (rule Close_pending [OF inv live False, where a = USER_CNT_INC])
    moreover obtain s'' where "Close c s = Some s''" "announced USER_CNT_DEC s'' = announced USER_CNT_DEC s"
      by (rule Close_pending [OF inv live False, where a = USER_CNT_DEC])
    ultimately have dec: "announced USER_CNT_DEC s' = announced USER_CNT_DEC s" by simp
    have "online s' = online s" using gone [OF s'(3,4,5)] False s'(3) by (auto simp: online_def)
    with s' dec bal have "balanced s'" by (simp add: balanced_def)
    with s' that show ?thesis by (auto simp: good_def)
  qed
qed

lemma good_quiet:
  assumes "good ident s" "quiet conn_key P s s'" "\<And>x. P x \<Longrightarrow> \<not> announces x"
  shows "good ident s'"
proof -
  have "c_open (conns s' c) = c_open (conns s c)" for c using assms(2) by (simp add: quiet_def conn_key_def)
  then have "online s' = online s" using quiet_live [OF assms(2)] by (simp add: online_def)
  then have "balanced s'" using assms quiet_announced [OF assms(2,3)] by (simp add: good_def balanced_def)
  then show ?thesis using assms inv_quiet by (auto simp: good_def)
qed

lemma good_same:
  assumes "good ident s" "srv_inv ident {} s'" "\<And>c. live s' c = live s c" "\<And>c. c_open (conns s' c) = c_open (conns s c)"
    "sent s' = sent s"
  shows "good ident s'"
proof -
  have "online s' = online s" using assms(3,4) by (simp add: online_def)
  with assms show ?thesis by (simp add: good_def balanced_def announced_def)
qed

subsection \<open>Connecting\<close>

lemma good_OnConnect:
  assumes good: "good ident s" and h: "map_find (msg_conn_map s) h = None" "h \<noteq> NETLIB_INVALID_HANDLE"
  shows "good ident (OnConnect e h ctype s)"
proof -
  let ?s = "OnConnect e h ctype s" and ?k = "next_conn s"
  have inv: "srv_inv ident {} s" using good by (simp add: good_def)
  then have ok: "map_ok (msg_conn_map s)" by (simp add: srv_inv_def conns_ok_def)
  have cm: "map_find (msg_conn_map ?s) = (map_find (msg_conn_map s))(h \<mapsto> ?k)"
    using h by (simp add: OnConnect_def map_insert_def smap.find_put [OF ok])
  have conn: "conns ?s c = (if c = ?k then new_conn h ctype (tick e) else conns s c)" for c by (simp add: OnConnect_def)
  have lv: "live ?s c \<longleftrightarrow> c = ?k \<or> live s c" for c
    using h by (auto simp: live_def cm conn new_conn_def) (auto simp: OnConnect_def)
  have old: "live s c \<Longrightarrow> c \<noteq> ?k" for c by (simp add: live_def)
  have [simp]: "users ?s = users s" "user_map ?s = user_map s" "user_map_by_name ?s = user_map_by_name s" "next_user ?s = next_user s"
    "GetImUserById ?s i = GetImUserById s i" "GetImUserByLoginName ?s n = GetImUserByLoginName s n" "sent ?s = sent s" for i n
    by (simp_all add: OnConnect_def GetImUserById_def GetImUserByLoginName_def)
  have "conns_ok ?s"
    unfolding conns_ok_def
  proof (intro conjI allI impI)
    show "map_ok (msg_conn_map ?s)" using h by (simp add: OnConnect_def map_insert_def map_put_ok [OF ok])
  next
    fix j c assume "map_find (msg_conn_map ?s) j = Some c"
    then have "j = h \<and> c = ?k \<or> map_find (msg_conn_map s) j = Some c" by (auto simp: cm split: if_splits)
    moreover have "c_handle (conns s c) = j \<and> c < ?k \<and> j \<noteq> NETLIB_INVALID_HANDLE" if "map_find (msg_conn_map s) j = Some c"
      using inv that by (simp add: srv_inv_def conns_ok_def)
    ultimately show "c_handle (conns ?s c) = j" "c < next_conn ?s" "j \<noteq> NETLIB_INVALID_HANDLE"
      using h by (auto simp: conn new_conn_def OnConnect_def)
  next
    fix c assume "live ?s c \<and> \<not> c_open (conns ?s c)"
    then show "c_user_id (conns ?s c) = 0" using inv by (auto simp: lv conn new_conn_def srv_inv_def conns_ok_def split: if_splits)
  next
    fix c assume "live ?s c \<and> c_open (conns ?s c)"
    then show "c_login_name (conns ?s c) \<noteq> []" using inv by (auto simp: lv conn new_conn_def srv_inv_def conns_ok_def split: if_splits)
  qed
  moreover have "tables_ok ?s"
  proof -
    have "\<exists>u usr. GetImUserById s (c_user_id (conns ?s c)) = Some u \<and> users s u = Some usr \<and>
        map_find (u_conn_map usr) (c_handle (conns ?s c)) = Some c" if "live ?s c \<and> c_open (conns ?s c)" for c
    proof -
      have "c \<noteq> ?k" using that by (auto simp: conn new_conn_def)
      with that have "live s c" "c_open (conns s c)" "conns ?s c = conns s c" by (auto simp: lv conn)
      with inv_owner [OF inv this(1,2)] show ?thesis by metis
    qed
    then show ?thesis using inv by (simp add: srv_inv_def tables_ok_def)
  qed
  moreover have "user_ok ident {} ?s u usr" if "users s u = Some usr" for u usr
    by (rule user_ok_transfer [OF inv_user [OF inv that]]) (use old in \<open>simp_all add: lv conn\<close>)
  ultimately have "srv_inv ident {} ?s" by (simp add: srv_inv_def)
  moreover have "online ?s = online s"
    using old by (auto simp: online_def lv conn new_conn_def)
  ultimately show ?thesis using good by (simp add: good_def balanced_def announced_def)
qed

subsection \<open>Updating a user\<close>

lemma inv_upd_user:
  assumes inv: "srv_inv ident X s" and u: "users s u = Some usr" and ok: "user_ok ident X s u usr'"
    and same: "u_user_id usr' = u_user_id usr" "u_login_name usr' = u_login_name usr" "u_conn_map usr' = u_conn_map usr"
  shows "srv_inv ident X (s\<lparr>users := (users s)(u \<mapsto> usr')\<rparr>)"
proof -
  let ?s = "s\<lparr>users := (users s)(u \<mapsto> usr')\<rparr>"
  have [simp]: "live ?s c = live s c" "GetImUserById ?s i = GetImUserById s i"
    "GetImUserByLoginName ?s n = GetImUserByLoginName s n" for c i n
    by (simp_all add: live_def GetImUserById_def GetImUserByLoginName_def)
  have "conns_ok ?s" using inv by (simp add: srv_inv_def conns_ok_def)
  moreover have "tables_ok ?s"
    unfolding tables_ok_def
  proof (intro conjI allI impI)
    show "map_ok (user_map ?s)" "distinct (map fst (user_map_by_name ?s))" using inv by (simp_all add: srv_inv_def tables_ok_def)
  next
    fix i v assume "GetImUserById ?s i = Some v"
    then have v: "GetImUserById s i = Some v" by simp
    show "i \<noteq> 0" "\<exists>w. users ?s v = Some w \<and> u_user_id w = i" by (rule inv_by_id [OF inv v]; use u same in auto)+
  next
    fix n v assume "GetImUserByLoginName ?s n = Some v"
    then have v: "GetImUserByLoginName s n = Some v" by simp
    show "\<exists>w. users ?s v = Some w \<and> u_login_name w = n" by (rule inv_by_name [OF inv v]) (use u same in auto)
  next
    fix c assume "live ?s c \<and> c_open (conns ?s c)"
    then have c: "live s c" "c_open (conns s c)" by simp_all
    show "\<exists>v w. GetImUserById ?s (c_user_id (conns ?s c)) = Some v \<and> users ?s v = Some w \<and>
        map_find (u_conn_map w) (c_handle (conns ?s c)) = Some c"
      by (rule inv_owner [OF inv c]) (use u same in auto)
  qed
  moreover have "user_ok ident X ?s v w" if "users ?s v = Some w" for v w
  proof -
    have "user_ok ident X s v w" using that ok inv_user [OF inv] by (auto split: if_splits)
    then show ?thesis by (rule user_ok_transfer) simp_all
  qed
  ultimately show ?thesis by (simp add: srv_inv_def)
qed

lemma user_ok_set_pending:
  assumes ok: "user_ok ident X s u usr"
    and cs: "\<And>c. c \<in> set cs \<Longrightarrow> live s c \<and> \<not> c_open (conns s c) \<and> c_login_name (conns s c) = u_login_name usr"
  shows "user_ok ident X s u (usr\<lparr>u_unvalidate_conn_set := cs\<rparr>)"
  using ok cs unfolding user_ok_def by (auto split: if_splits)

lemma inv_drop_pending:
  assumes inv: "srv_inv ident X s" and u: "users s u = Some usr"
  shows "srv_inv ident X (s\<lparr>users := (users s)(u \<mapsto> DelUnValidateMsgConn c usr)\<rparr>)"
proof (rule inv_upd_user [OF inv u])
  show "user_ok ident X s u (DelUnValidateMsgConn c usr)"
    unfolding DelUnValidateMsgConn_def
    by (rule user_ok_set_pending [OF inv_user [OF inv u]]) (use user_ok_pending [OF inv_user [OF inv u]] in auto)
qed (simp_all add: DelUnValidateMsgConn_def)

subsection \<open>Login requests\<close>

lemma inv_name_conn:
  assumes inv: "srv_inv ident {} s" and c: "live s c" "c_login_name (conns s c) = []"
    and f: "\<And>m. c_handle (f m) = c_handle m" "\<And>m. c_user_id (f m) = c_user_id m" "\<And>m. c_open (f m) = c_open m"
  shows "srv_inv ident {} (upd_conn c f s)"
proof -
  let ?s = "upd_conn c f s"
  have conn: "conns ?s k = (if k = c then f (conns s c) else conns s k)" for k by (simp add: upd_conn_def)
  have [simp]: "users ?s = users s" "user_map ?s = user_map s" "user_map_by_name ?s = user_map_by_name s" "next_user ?s = next_user s"
    "next_conn ?s = next_conn s" "msg_conn_map ?s = msg_conn_map s"
    "GetImUserById ?s i = GetImUserById s i" "GetImUserByLoginName ?s n = GetImUserByLoginName s n" for i n
    by (simp_all add: upd_conn_def GetImUserById_def GetImUserByLoginName_def)
  have [simp]: "c_handle (conns ?s k) = c_handle (conns s k)" "c_user_id (conns ?s k) = c_user_id (conns s k)"
    "c_open (conns ?s k) = c_open (conns s k)" for k by (simp_all add: conn f)
  have [simp]: "live ?s k = live s k" for k by (simp add: live_def)
  have op: "\<not> c_open (conns s c)" using inv c by (auto simp: srv_inv_def conns_ok_def)
  have "conns_ok ?s" using inv op unfolding srv_inv_def conns_ok_def by (auto simp: conn f)
  moreover have "tables_ok ?s" using inv unfolding srv_inv_def tables_ok_def by simp
  moreover have "user_ok ident {} ?s u usr" if "users s u = Some usr" for u usr
  proof (rule user_ok_transfer [OF inv_user [OF inv that]])
    fix k assume "live s k" "c_open (conns s k) \<or> k \<in> set (u_unvalidate_conn_set usr)"
    moreover have "u_login_name usr \<noteq> []" using inv_user [OF inv that] by (simp add: user_ok_def)
    ultimately have "k \<noteq> c" using op c(2) user_ok_pending(3) [OF inv_user [OF inv that], of k] by auto
    with \<open>live s k\<close> show "live ?s k \<and> conn_key (conns ?s k) = conn_key (conns s k)" by (simp add: conn)
  qed simp_all
  ultimately show ?thesis by (simp add: srv_inv_def)
qed

lemma inv_new_user:
  assumes inv: "srv_inv ident {} s" and n: "GetImUserByLoginName s n = None" "n \<noteq> []"
  shows "srv_inv ident {} (s\<lparr>users := (users s)(next_user s \<mapsto> new_user n), next_user := Suc (next_user s),
    user_map_by_name := (n, next_user s) # user_map_by_name s\<rparr>)" (is "srv_inv ident {} ?s")
proof -
  let ?u = "next_user s"
  have fresh: "users s ?u = None"
    using inv_user [OF inv, of ?u] by (cases "users s ?u") (auto simp: user_ok_def)
  have [simp]: "live ?s k = live s k" "GetImUserById ?s i = GetImUserById s i" for k i by (simp_all add: live_def GetImUserById_def)
  have name: "GetImUserByLoginName ?s m = (if m = n then Some ?u else GetImUserByLoginName s m)" for m
    by (simp add: GetImUserByLoginName_def)
  have keep: "users ?s v = Some w" if "users s v = Some w" for v w using that fresh by auto
  have "conns_ok ?s" using inv unfolding srv_inv_def conns_ok_def by simp
  moreover have "tables_ok ?s"
    unfolding tables_ok_def
  proof (intro conjI allI impI)
    show "map_ok (user_map ?s)" using inv by (simp add: srv_inv_def tables_ok_def)
    have "n \<notin> fst ` set (user_map_by_name s)" using n(1) by (simp add: GetImUserByLoginName_def map_of_eq_None_iff)
    then show "distinct (map fst (user_map_by_name ?s))" using inv by (simp add: srv_inv_def tables_ok_def)
  next
    fix i v assume "GetImUserById ?s i = Some v"
    then have v: "GetImUserById s i = Some v" by simp
    show "i \<noteq> 0" "\<exists>w. users ?s v = Some w \<and> u_user_id w = i" by (rule inv_by_id [OF inv v]; use keep in blast)+
  next
    fix m v assume "GetImUserByLoginName ?s m = Some v"
    then have "m = n \<and> v = ?u \<or> GetImUserByLoginName s m = Some v" by (auto simp: name split: if_splits)
    then show "\<exists>w. users ?s v = Some w \<and> u_login_name w = m"
    proof
      assume v: "GetImUserByLoginName s m = Some v"
      show ?thesis by (rule inv_by_name [OF inv v]) (use keep in blast)
    qed (simp add: new_user_def)
  next
    fix c assume "live ?s c \<and> c_open (conns ?s c)"
    then have c: "live s c" "c_open (conns s c)" by simp_all
    obtain v w where vw: "GetImUserById s (c_user_id (conns s c)) = Some v" "users s v = Some w"
      "map_find (u_conn_map w) (c_handle (conns s c)) = Some c" by (rule inv_owner [OF inv c])
    from vw keep [OF vw(2)] show "\<exists>v w. GetImUserById ?s (c_user_id (conns ?s c)) = Some v \<and> users ?s v = Some w \<and>
        map_find (u_conn_map w) (c_handle (conns ?s c)) = Some c" by auto
  qed
  moreover have "user_ok ident {} ?s v w" if "users ?s v = Some w" for v w
  proof (cases "v = ?u")
    case True
    have new: "u_user_id (new_user n) = 0" "u_login_name (new_user n) = n" "u_conn_map (new_user n) = []"
      "u_unvalidate_conn_set (new_user n) = []" by (simp_all add: new_user_def)
    from True that show ?thesis by (auto simp: user_ok_def new name n(2))
  next
    case False
    with that have "user_ok ident {} s v w" by (intro inv_user [OF inv]) simp
    then show ?thesis by (rule user_ok_transfer) (auto simp: name n(1))
  qed
  ultimately show ?thesis by (simp add: srv_inv_def)
qed

lemma good_add_pending:
  assumes good: "good ident s" and u: "users s u = Some usr" "c_login_name (conns s c) = u_login_name usr"
    and c: "live s c" "\<not> c_open (conns s c)"
  shows "good ident (s\<lparr>users := (users s)(u \<mapsto> AddUnValidateMsgConn c usr)\<rparr>)"
proof (rule good_same [OF good])
  have inv: "srv_inv ident {} s" using good by (simp add: good_def)
  have "user_ok ident {} s u (AddUnValidateMsgConn c usr)"
    unfolding AddUnValidateMsgConn_def
    by (rule user_ok_set_pending [OF inv_user [OF inv u(1)]])
      (use user_ok_pending [OF inv_user [OF inv u(1)]] c u(2) in auto)
  then show "srv_inv ident {} (s\<lparr>users := (users s)(u \<mapsto> AddUnValidateMsgConn c usr)\<rparr>)"
    by (rule inv_upd_user [OF inv u(1)]) (simp_all add: AddUnValidateMsgConn_def)
qed (simp_all add: live_def)

lemma good_to_db: "good ident s \<Longrightarrow> good ident (to_db d q s)"
  by (rule good_quiet [where P = "\<lambda>x. \<not> announces x"]) (auto intro!: quiet_to_db simp: announces_def)

lemma good_emit: "good ident s \<Longrightarrow> \<not> announces x \<Longrightarrow> good ident (emit x s)"
  by (rule good_quiet [where P = "\<lambda>x. \<not> announces x"]) (auto intro!: quiet_emit)

lemma live_emit [simp]: "live (emit x s) c = live s c"
  by (simp add: live_def)

lemma good_HandleLoginRequest:
  assumes good: "good ident s" and live: "live s c" and named: "named p"
  obtains s' where "HandleLoginRequest e c p s = Some s'" "good ident s'"
proof -
  let ?refuse = "emit (ToClient c (mk_pdu SID_LOGIN CID_LOGIN_RES_USERLOGIN (p_seq p)
    (IMLoginRes (now e) (login_refusal e) server_exception None None))) s"
  consider "c_login_name (conns s c) \<noteq> []" | "c_login_name (conns s c) = []" "login_refusal e \<noteq> 0"
    | n pw st v t where "c_login_name (conns s c) = []" "login_refusal e = 0" "p_body p = IMLoginReq n pw st v t"
    | "c_login_name (conns s c) = []" "login_refusal e = 0" "\<forall>n pw st v t. p_body p \<noteq> IMLoginReq n pw st v t"
    by blast
  then show ?thesis
  proof cases
    case 1
    then show ?thesis using good by (intro that [of s]) (simp_all add: HandleLoginRequest_def)
  next
    case 2
    have "good ident ?refuse" by (rule good_emit [OF good]) (simp add: announces_def)
    moreover have "live ?refuse c" using live by simp
    ultimately obtain s' where "Close c ?refuse = Some s'" "good ident s'" by (rule Close_good)
    with 2 show ?thesis by (intro that [of s']) (simp_all add: HandleLoginRequest_def)
  next
    case 4
    then show ?thesis using good
      by (intro that [of s]) (cases "p_body p"; simp add: HandleLoginRequest_def)+
  next
    case (3 n pw st v t)
    have n: "n \<noteq> []" using named 3(3) by (simp add: named_def)
    have inv: "srv_inv ident {} s" using good by (simp add: good_def)
    define f where "f = (\<lambda>m :: msg_conn. m\<lparr>c_login_name := n, c_client_version := v, c_client_type := t,
      c_online_status := (if st < USER_STATUS_ONLINE \<or> st > USER_STATUS_LEAVE then USER_STATUS_ONLINE else st)\<rparr>)"
    define s1 where "s1 = upd_conn c f s"
    have inv1: "srv_inv ident {} s1" unfolding s1_def
      by (rule inv_name_conn [OF inv live 3(1)]) (simp_all add: f_def)
    have good1: "good ident s1"
      by (rule good_same [OF good inv1]) (auto simp: s1_def upd_conn_def f_def live_def)
    have c1: "live s1 c" "\<not> c_open (conns s1 c)" "c_login_name (conns s1 c) = n"
      using live inv 3(1) by (auto simp: s1_def upd_conn_def f_def live_def srv_inv_def conns_ok_def)
    obtain u s2 where us: "login_user n s1 = (u, s2)" by (cases "login_user n s1")
    have "\<exists>usr. users s2 u = Some usr \<and> u_login_name usr = n" and good2: "good ident s2"
      and c2: "live s2 c" "conns s2 = conns s1"
    proof -
      have "(\<exists>usr. users s2 u = Some usr \<and> u_login_name usr = n) \<and> good ident s2 \<and> live s2 c \<and> conns s2 = conns s1"
      proof (cases "GetImUserByLoginName s1 n")
        case None
        then have s2: "u = next_user s1" "s2 = s1\<lparr>users := (users s1)(next_user s1 \<mapsto> new_user n), next_user := Suc (next_user s1),
            user_map_by_name := (n, next_user s1) # user_map_by_name s1\<rparr>"
          using us by (auto simp: login_user_def AddImUserByLoginName_def GetImUserByLoginName_def)
        have "good ident s2"
          by (rule good_same [OF good1]) (use inv_new_user [OF inv1 None n] in \<open>simp_all add: s2 live_def\<close>)
        moreover have "live s2 c" using c1(1) by (simp add: s2 live_def)
        ultimately show ?thesis by (simp add: s2 new_user_def)
      next
        case (Some w)
        then have "u = w" "s2 = s1" using us by (simp_all add: login_user_def)
        with Some good1 c1 show ?thesis by (auto elim: inv_by_name [OF inv1])
      qed
      then show "\<exists>usr. users s2 u = Some usr \<and> u_login_name usr = n" "good ident s2" "live s2 c" "conns s2 = conns s1" by simp_all
    qed
    then obtain usr where usr: "users s2 u = Some usr" "u_login_name usr = n" by blast
    let ?s3 = "s2\<lparr>users := (users s2)(u \<mapsto> AddUnValidateMsgConn c usr)\<rparr>"
    have "good ident ?s3" by (rule good_add_pending [OF good2 usr(1)]) (use c1 c2 usr in auto)
    then have "good ident (to_db (db_for_login e) (mk_pdu SID_OTHER CID_OTHER_VALIDATE_REQ (p_seq p)
      (IMValidateReq n pw (AttHandle (c_handle (conns ?s3 c))))) ?s3)" by (rule good_to_db)
    moreover have "HandleLoginRequest e c p s = Some (to_db (db_for_login e) (mk_pdu SID_OTHER CID_OTHER_VALIDATE_REQ (p_seq p)
      (IMValidateReq n pw (AttHandle (c_handle (conns ?s3 c))))) ?s3)"
    proof -
      have "HandleLoginRequest e c p s = (let (u, s) = login_user n s1 in
          upd_user u (AddUnValidateMsgConn c) s \<bind> (\<lambda>s. Some (to_db (db_for_login e)
            (mk_pdu SID_OTHER CID_OTHER_VALIDATE_REQ (p_seq p) (IMValidateReq n pw (AttHandle (c_handle (conns s c))))) s)))"
        using 3 by (simp add: HandleLoginRequest_def s1_def f_def Let_def)
      then show ?thesis using us usr(1) by (simp add: upd_user_def)
    qed
    ultimately show ?thesis by (intro that)
  qed
qed

subsection \<open>Validated logins\<close>

definition attach :: "uid \<Rightarrow> string \<Rightarrow> nat \<Rightarrow> im_user \<Rightarrow> nat \<Rightarrow> server \<Rightarrow> server" where
  "attach i nick v vusr c s = s\<lparr>conns := (conns s)(c := (conns s c)\<lparr>c_user_id := i, c_open := True\<rparr>),
     users := (users s)(v \<mapsto> vusr\<lparr>u_user_id := i, u_nick_name := nick, u_validate := True,
       u_conn_map := map_put (c_handle (conns s c)) c (u_conn_map vusr)\<rparr>),
     user_map := map_put i v (user_map s)\<rparr>"

text \<open>\<open>v\<close> has the id, or is new and nobody has it.\<close>

definition takes_id :: "(string \<Rightarrow> uid) \<Rightarrow> uid \<Rightarrow> im_user \<Rightarrow> server \<Rightarrow> bool" where
  "takes_id ident i vusr s \<longleftrightarrow> i \<noteq> 0 \<and> (u_user_id vusr = i \<or>
     u_user_id vusr = 0 \<and> GetImUserById s i = None \<and> ident (u_login_name vusr) = i)"

lemma inv_attach:
  assumes inv: "srv_inv ident {} s" and v: "users s v = Some vusr"
    and c: "live s c" "\<not> c_open (conns s c)" "c_login_name (conns s c) \<noteq> []"
    and free: "\<And>w wusr. users s w = Some wusr \<Longrightarrow> c \<notin> set (u_unvalidate_conn_set wusr)"
    and takes: "takes_id ident i vusr s"
  shows "srv_inv ident {} (attach i nick v vusr c s)"
proof -
  let ?s = "attach i nick v vusr c s" and ?h = "c_handle (conns s c)"
  have vok: "user_ok ident {} s v vusr" by (rule inv_user [OF inv v])
  have okm: "map_ok (user_map s)" using inv by (simp add: srv_inv_def tables_ok_def)
  have okc: "map_ok (u_conn_map vusr)" using vok by (simp add: user_ok_def)
  have key: "c_handle (conns ?s k) = c_handle (conns s k)" "c_login_name (conns ?s k) = c_login_name (conns s k)"
    "k \<noteq> c \<Longrightarrow> conns ?s k = conns s k" "c_open (conns ?s c)" "c_user_id (conns ?s c) = i" for k
    by (simp_all add: attach_def)
  have lv: "live ?s k = live s k" for k by (simp add: live_def key) (simp add: attach_def)
  have id: "GetImUserById ?s j = (if j = i then Some v else GetImUserById s j)" for j
    by (simp add: GetImUserById_def attach_def smap.find_put [OF okm])
  have name: "GetImUserByLoginName ?s n = GetImUserByLoginName s n" for n by (simp add: GetImUserByLoginName_def attach_def)
  have usr: "users ?s w = (if w = v then Some (vusr\<lparr>u_user_id := i, u_nick_name := nick, u_validate := True,
       u_conn_map := map_put ?h c (u_conn_map vusr)\<rparr>) else users s w)" for w by (simp add: attach_def)
  have cm: "map_find (map_put ?h c (u_conn_map vusr)) = (map_find (u_conn_map vusr))(?h \<mapsto> c)"
    by (rule smap.find_put [OF okc])
  have i0: "i \<noteq> 0" using takes by (simp add: takes_id_def)
  have owner: "w = v" if "GetImUserById s i = Some w" for w
    using takes that user_ok_id [OF vok] i0 by (auto simp: takes_id_def)
  have idv: "u_user_id vusr = i \<or> u_user_id vusr = 0 \<and> u_conn_map vusr = []"
    using takes vok by (auto simp: takes_id_def user_ok_def)
  have idv': "j = i" if "GetImUserById s j = Some v" for j
    using inv_by_id [OF inv that] v idv by auto
  have ident: "i = ident (u_login_name vusr)"
    using takes vok by (auto simp: takes_id_def user_ok_def split: if_splits)
  have "conns_ok ?s"
    unfolding conns_ok_def
  proof (intro conjI allI impI)
    show "map_ok (msg_conn_map ?s)" using inv by (simp add: srv_inv_def conns_ok_def attach_def)
  next
    fix h k assume "map_find (msg_conn_map ?s) h = Some k"
    then have "map_find (msg_conn_map s) h = Some k" by (simp add: attach_def)
    then show "c_handle (conns ?s k) = h" "k < next_conn ?s" "h \<noteq> NETLIB_INVALID_HANDLE"
      using inv unfolding key by (auto simp: srv_inv_def conns_ok_def attach_def)
  next
    fix k assume "live ?s k \<and> \<not> c_open (conns ?s k)"
    then have "k \<noteq> c" "live s k" "\<not> c_open (conns ?s k)" using key(4) by (auto simp: lv)
    then show "c_user_id (conns ?s k) = 0" using inv by (simp add: key(3) srv_inv_def conns_ok_def)
  next
    fix k assume "live ?s k \<and> c_open (conns ?s k)"
    then show "c_login_name (conns ?s k) \<noteq> []"
      using inv c(3) by (cases "k = c") (auto simp: key lv srv_inv_def conns_ok_def)
  qed
  moreover have "tables_ok ?s"
    unfolding tables_ok_def
  proof (intro conjI allI impI)
    show "map_ok (user_map ?s)" by (simp add: attach_def map_put_ok [OF okm])
    show "distinct (map fst (user_map_by_name ?s))" using inv by (simp add: attach_def srv_inv_def tables_ok_def)
  next
    fix j w assume "GetImUserById ?s j = Some w"
    then have "j = i \<and> w = v \<or> j \<noteq> i \<and> GetImUserById s j = Some w" by (auto simp: id split: if_splits)
    then have "j \<noteq> 0 \<and> (\<exists>x. users ?s w = Some x \<and> u_user_id x = j)"
    proof
      assume j: "j \<noteq> i \<and> GetImUserById s j = Some w"
      then have "w \<noteq> v" using idv' by auto
      with j show ?thesis using inv_by_id [OF inv, of j w] by (auto simp: usr)
    qed (simp add: usr i0)
    then show "j \<noteq> 0" "\<exists>x. users ?s w = Some x \<and> u_user_id x = j" by simp_all
  next
    fix n w assume "GetImUserByLoginName ?s n = Some w"
    then have w: "GetImUserByLoginName s n = Some w" by (simp add: name)
    show "\<exists>x. users ?s w = Some x \<and> u_login_name x = n"
      by (rule inv_by_name [OF inv w]) (use v in \<open>auto simp: usr\<close>)
  next
    fix k assume "live ?s k \<and> c_open (conns ?s k)"
    then have k: "live s k" "c_open (conns ?s k)" by (simp_all add: lv)
    show "\<exists>w x. GetImUserById ?s (c_user_id (conns ?s k)) = Some w \<and> users ?s w = Some x \<and>
        map_find (u_conn_map x) (c_handle (conns ?s k)) = Some k"
    proof (cases "k = c")
      case True
      then show ?thesis by (simp add: key id usr cm)
    next
      case False
      with k have op: "c_open (conns s k)" by (simp add: key)
      obtain w x where w: "GetImUserById s (c_user_id (conns s k)) = Some w" "users s w = Some x"
        "map_find (u_conn_map x) (c_handle (conns s k)) = Some k" by (rule inv_owner [OF inv k(1) op])
      have h: "c_handle (conns s k) \<noteq> ?h" using False k(1) c(1) by (auto simp: live_def)
      have "GetImUserById ?s (c_user_id (conns s k)) = Some w" using w(1) owner by (auto simp: id)
      moreover have "\<exists>y. users ?s w = Some y \<and> map_find (u_conn_map y) (c_handle (conns s k)) = Some k"
      proof (cases "w = v")
        case True
        with w(2,3) v have "map_find (u_conn_map vusr) (c_handle (conns s k)) = Some k" by simp
        with True h show ?thesis by (simp add: usr cm)
      qed (use w in \<open>simp add: usr\<close>)
      ultimately show ?thesis unfolding key(3) [OF False] by blast
    qed
  qed
  moreover have "user_ok ident {} ?s w x" if x: "users ?s w = Some x" for w x
  proof (cases "w = v")
    case True
    have "user_ok ident {} ?s v (vusr\<lparr>u_user_id := i, u_nick_name := nick, u_validate := True,
       u_conn_map := map_put ?h c (u_conn_map vusr)\<rparr>)"
      unfolding user_ok_def
    proof (intro conjI allI impI ballI)
      show "v < next_user ?s" using vok by (simp add: user_ok_def attach_def)
    next
      fix h k assume "map_find (u_conn_map (vusr\<lparr>u_user_id := i, u_nick_name := nick, u_validate := True,
          u_conn_map := map_put ?h c (u_conn_map vusr)\<rparr>)) h = Some k"
      then have "h = ?h \<and> k = c \<or> map_find (u_conn_map vusr) h = Some k" by (auto simp: cm split: if_splits)
      then have "live s k \<and> c_handle (conns s k) = h \<and> c_open (conns ?s k) \<and> c_user_id (conns ?s k) = i"
      proof
        assume h: "map_find (u_conn_map vusr) h = Some k"
        then have "k \<noteq> c" using user_ok_conn(3) [OF vok h] c(2) by auto
        with user_ok_conn [OF vok h] idv h show ?thesis by (auto simp: key)
      qed (simp add: c(1) key)
      then show "live ?s k" "c_handle (conns ?s k) = h" "c_open (conns ?s k)"
        "c_user_id (conns ?s k) = u_user_id (vusr\<lparr>u_user_id := i, u_nick_name := nick, u_validate := True,
          u_conn_map := map_put ?h c (u_conn_map vusr)\<rparr>)" by (simp_all add: lv key)
    next
      fix k assume "k \<in> set (u_unvalidate_conn_set (vusr\<lparr>u_user_id := i, u_nick_name := nick, u_validate := True,
          u_conn_map := map_put ?h c (u_conn_map vusr)\<rparr>))"
      then have k: "k \<in> set (u_unvalidate_conn_set vusr)" by simp
      then have "k \<noteq> c" using free [OF v] by auto
      with user_ok_pending [OF vok k] show "live ?s k" "\<not> c_open (conns ?s k)"
        "c_login_name (conns ?s k) = u_login_name (vusr\<lparr>u_user_id := i, u_nick_name := nick, u_validate := True,
          u_conn_map := map_put ?h c (u_conn_map vusr)\<rparr>)" by (simp_all add: lv key)
    qed (use vok in \<open>auto simp: user_ok_def name id map_put_ok [OF okc] ident [symmetric] i0 split: if_splits\<close>,
        use set_map_put [OF okc, of ?h c] in auto)
    with True x show ?thesis by (auto simp: usr)
  next
    case False
    with x have wx: "users s w = Some x" by (simp add: usr)
    show ?thesis
    proof (rule user_ok_transfer [OF inv_user [OF inv wx]])
      fix k assume k: "live s k" "c_open (conns s k) \<or> k \<in> set (u_unvalidate_conn_set x)"
      then have "k \<noteq> c" using free [OF wx] c(2) by auto
      with k show "live ?s k \<and> conn_key (conns ?s k) = conn_key (conns s k)" by (simp add: lv key(3))
    next
      show "next_user s \<le> next_user ?s" by (simp add: attach_def)
    qed (use False owner in \<open>auto simp: id name\<close>)
  qed
  ultimately show ?thesis by (simp add: srv_inv_def)
qed

lemma filter_insort_absent: "c \<notin> set xs \<Longrightarrow> filter (\<lambda>y. y \<noteq> c) (insort c xs) = xs"
  by (induction xs) (auto simp: filter_id_conv)

lemma set_erase_put: "c \<notin> set xs \<Longrightarrow> set_erase c (set_put c xs) = xs"
  by (simp add: set_erase_def set_put_def filter_insort_absent)

lemma set_erase_twice: "set_erase c (set_erase c xs) = set_erase c xs"
  by (simp add: set_erase_def)

lemma pending_owner:
  assumes "srv_inv ident X s" "users s u = Some usr" "users s v = Some w"
    "c \<in> set (u_unvalidate_conn_set usr)" "c \<in> set (u_unvalidate_conn_set w)"
  shows "v = u"
  using user_ok_pending(3) [OF inv_user [OF assms(1,2)] assms(4)] user_ok_pending(3) [OF inv_user [OF assms(1,3)] assms(5)]
    user_ok_name [OF inv_user [OF assms(1,2)]] user_ok_name [OF inv_user [OF assms(1,3)]] by simp

text \<open>\<open>t\<close> is the state without the pending connection; in the real one it is still or again among the
  pending ones of \<open>v\<close>.\<close>

definition adopted :: "(string \<Rightarrow> uid) \<Rightarrow> uid \<Rightarrow> nat \<Rightarrow> server \<Rightarrow> nat \<Rightarrow> server \<Rightarrow> im_user \<Rightarrow> bool" where
  "adopted ident i c s v t vusr \<longleftrightarrow> good ident t \<and> live t c \<and> conns t = conns s \<and> users t v = Some vusr \<and>
     (\<forall>w wusr. users t w = Some wusr \<longrightarrow> c \<notin> set (u_unvalidate_conn_set wusr)) \<and> takes_id ident i vusr t"

lemma good_drop_pending:
  assumes "good ident s" "users s u = Some usr"
  shows "good ident (s\<lparr>users := (users s)(u \<mapsto> DelUnValidateMsgConn c usr)\<rparr>)"
  using assms by (intro good_same [OF assms(1)] inv_drop_pending) (simp_all add: good_def live_def)

lemma adopt_conn_ok:
  assumes good: "good ident s" and u: "users s u = Some usr" "u_login_name usr = name"
    and c: "c \<in> set (u_unvalidate_conn_set usr)" and i: "i = ident name" "i \<noteq> 0"
  obtains v t vusr xs where
    "adopt_conn u c name i s = Some (v, t\<lparr>users := (users t)(v \<mapsto> vusr\<lparr>u_unvalidate_conn_set := xs\<rparr>)\<rparr>)"
    "set_erase c xs = u_unvalidate_conn_set vusr" "adopted ident i c s v t vusr"
proof -
  have inv: "srv_inv ident {} s" using good by (simp add: good_def)
  have uok: "user_ok ident {} s u usr" by (rule inv_user [OF inv u(1)])
  have live: "live s c" by (rule user_ok_pending(1) [OF uok c])
  let ?usr = "DelUnValidateMsgConn c usr"
  let ?t = "s\<lparr>users := (users s)(u \<mapsto> ?usr)\<rparr>"
  have goodt: "good ident ?t" by (rule good_drop_pending [OF good u(1)])
  have livet: "live ?t c" using live by (simp add: live_def)
  have free: "c \<notin> set (u_unvalidate_conn_set w)" if "users ?t v = Some w" for v w
    using that pending_owner [OF inv u(1) _ c, of v w] by (auto simp: DelUnValidateMsgConn_def split: if_splits)
  have idu: "u_user_id usr = 0 \<or> u_user_id usr = i \<and> GetImUserById s i = Some u"
    using uok u(2) i by (auto simp: user_ok_def split: if_splits)
  show ?thesis
  proof (cases "GetImUserById s i")
    case None
    have "takes_id ident i ?usr ?t"
      using None idu i u(2) by (auto simp: takes_id_def DelUnValidateMsgConn_def GetImUserById_def)
    then have "adopted ident i c s u ?t ?usr" using goodt livet free by (auto simp: adopted_def)
    moreover have "adopt_conn u c name i s = Some (u, ?t\<lparr>users := (users ?t)(u \<mapsto> ?usr\<lparr>u_unvalidate_conn_set := u_unvalidate_conn_set usr\<rparr>)\<rparr>)"
      using None u(1) by (simp add: adopt_conn_def DelUnValidateMsgConn_def fun_upd_idem)
    ultimately show ?thesis
      by (intro that [where v = u and t = ?t and vusr = ?usr and xs = "u_unvalidate_conn_set usr"])
        (simp_all add: DelUnValidateMsgConn_def)
  next
    case (Some v)
    obtain vusr where v: "users s v = Some vusr" "u_user_id vusr = i" by (rule inv_by_id [OF inv Some])
    show ?thesis
    proof (cases "v = u")
      case True
      with v u have eq: "vusr = usr" by simp
      have ne: "u_conn_map usr \<noteq> []" using uok v(2) i(2) eq by (auto simp: user_ok_def split: if_splits)
      have put: "set_put c (u_unvalidate_conn_set usr) = u_unvalidate_conn_set usr" using c by (simp add: set_put_def)
      have "takes_id ident i ?usr ?t" using v(2) eq i by (simp add: takes_id_def DelUnValidateMsgConn_def)
      then have "adopted ident i c s u ?t ?usr" using goodt livet free by (auto simp: adopted_def)
      moreover have "adopt_conn u c name i s = Some (u, ?t\<lparr>users := (users ?t)(u \<mapsto> ?usr\<lparr>u_unvalidate_conn_set :=
          set_erase c (u_unvalidate_conn_set usr)\<rparr>)\<rparr>)"
        using Some True u(1) ne
        by (simp add: adopt_conn_def upd_user_def AddUnValidateMsgConn_def DelUnValidateMsgConn_def IsMsgConnEmpty_def put)
      ultimately show ?thesis
        by (intro that [where v = u and t = ?t and vusr = ?usr and xs = "set_erase c (u_unvalidate_conn_set usr)"])
          (simp_all add: DelUnValidateMsgConn_def set_erase_twice)
    next
      case False
      have id0: "u_user_id usr = 0" using idu Some False by auto
      have empty: "u_conn_map usr = []" using uok id0 by (simp add: user_ok_def)
      have none: "GetImUserById s 0 = None" by (metis inv inv_by_id not_Some_eq)
      let ?t2 = "without_user u ?usr ?t"
      have "users ?t u = Some ?usr" "u_conn_map ?usr = []" using empty by (simp_all add: DelUnValidateMsgConn_def)
      then have "srv_inv ident ({} - {u}) ?t2" using goodt by (intro inv_without_user) (simp_all add: good_def)
      then have "good ident ?t2"
        by (intro good_same [OF goodt]) (simp_all add: without_user_def live_def)
      moreover have vt: "users ?t2 v = Some vusr" using v(1) False by (simp add: without_user_def)
      moreover have "c \<notin> set (u_unvalidate_conn_set w)" if "users ?t2 k = Some w" for k w
        using free [of k w] that by (simp add: without_user_def split: if_splits)
      moreover have "takes_id ident i vusr ?t2" using v(2) i by (simp add: takes_id_def)
      moreover have "live ?t2 c" using livet by (simp add: without_user_def live_def)
      ultimately have ad: "adopted ident i c s v ?t2 vusr" by (auto simp: adopted_def without_user_def)
      have cv: "c \<notin> set (u_unvalidate_conn_set vusr)" using ad vt by (auto simp: adopted_def)
      have "map_erase 0 (user_map s) = user_map s" using none by (intro map_erase_absent) (simp add: GetImUserById_def)
      then have "adopt_conn u c name i s = Some (v, ?t2\<lparr>users := (users ?t2)(v \<mapsto> vusr\<lparr>u_unvalidate_conn_set :=
          set_put c (u_unvalidate_conn_set vusr)\<rparr>)\<rparr>)"
        using Some False u v empty id0
        by (simp add: adopt_conn_def upd_user_def AddUnValidateMsgConn_def DelUnValidateMsgConn_def IsMsgConnEmpty_def
            delete_user_def RemoveImUserByLoginName_def without_user_def fun_upd_twist)
      with ad show ?thesis
        by (intro that [where v = v and t = ?t2 and vusr = vusr and xs = "set_put c (u_unvalidate_conn_set vusr)"])
          (simp_all add: set_erase_put cv)
    qed
  qed
qed

lemma map_put_same: "map_ok m \<Longrightarrow> map_find m k = Some v \<Longrightarrow> map_put k v m = m"
proof (induction k v m rule: map_put.induct)
  case (2 k v k' v' m)
  have "map_ok m" using 2(2) by (simp add: map_ok_def)
  moreover have "k \<in> fst ` set m" if "k \<noteq> k'" using 2(3) that by (auto simp: image_iff dest!: map_of_SomeD) force
  ultimately show ?case using 2 by (fastforce simp: map_ok_def)
qed simp

lemma takes_id_add:
  assumes "srv_inv ident X s" "users s v = Some vusr" "takes_id ident i vusr s" and that: "user_map s' = user_map s"
  shows "user_map (snd (AddImUserById i v s')) = map_put i v (user_map s')"
proof (cases "u_user_id vusr = i")
  case True
  then have "map_find (user_map s) i = Some v"
    using assms(3) user_ok_id [OF inv_user [OF assms(1,2)]] by (simp add: takes_id_def GetImUserById_def)
  moreover have "map_ok (user_map s)" using assms(1) by (simp add: srv_inv_def tables_ok_def)
  ultimately show ?thesis using that by (simp add: AddImUserById_def GetImUserById_def map_put_same)
next
  case False
  with assms(3) that show ?thesis by (simp add: AddImUserById_def GetImUserById_def takes_id_def)
qed

lemma AddImUserById_frame [simp]:
  "users (snd (AddImUserById i v s)) = users s" "conns (snd (AddImUserById i v s)) = conns s"
  "user_map_by_name (snd (AddImUserById i v s)) = user_map_by_name s" "msg_conn_map (snd (AddImUserById i v s)) = msg_conn_map s"
  "next_conn (snd (AddImUserById i v s)) = next_conn s" "next_user (snd (AddImUserById i v s)) = next_user s"
  "sent (snd (AddImUserById i v s)) = sent s"
  by (simp_all add: AddImUserById_def)

text \<open>The last part of a successful login, from the state where the user has its id on.\<close>

definition login_tail :: "env \<Rightarrow> u16 \<Rightarrow> nat \<Rightarrow> string \<Rightarrow> user_info \<Rightarrow> nat \<Rightarrow> server \<Rightarrow> server option" where
  "login_tail e seq c rs info v s = do {
     let i = ui_user_id info;
     usr \<leftarrow> users s v;
     let s = KickOutSameClientType (c_client_type (conns s c)) KICK_REASON_DUPLICATE_USER (Some c) usr s;
     let s = to_route e (mk_pdu SID_OTHER CID_OTHER_SERVER_KICK_USER 0
               (IMServerKickUser i (c_client_type (conns s c)) 1)) s;
     let s = upd_conn c (\<lambda>m. m\<lparr>c_user_id := i, c_open := True\<rparr>) s;
     s \<leftarrow> SendUserStatusUpdate c USER_STATUS_ONLINE s;
     s \<leftarrow> upd_user v (ValidateMsgConn (c_handle (conns s c)) c) s;
     Some (emit (ToClient c (mk_pdu SID_LOGIN CID_LOGIN_RES_USERLOGIN seq
       (IMLoginRes (now e) REFUSE_REASON_NONE rs (Some (c_online_status (conns s c))) (Some info)))) s)
   }"

lemma login_success_tail:
  "login_success e seq u c name rs info s = adopt_conn u c name (ui_user_id info) s \<bind> (\<lambda>(v, s).
     upd_user v (\<lambda>x. x\<lparr>u_user_id := ui_user_id info, u_nick_name := ui_nick_name info, u_validate := True\<rparr>) s \<bind> (\<lambda>s.
     login_tail e seq c rs info v (snd (AddImUserById (ui_user_id info) v s))))"
  by (simp add: login_success_def login_tail_def Let_def)

lemma login_tail_ok:
  assumes v: "users s v = Some vusr" "GetImUserById s (ui_user_id info) = Some v"
  obtains s' where "login_tail e seq c rs info v s = Some s'"
    "users s' = (users s)(v \<mapsto> ValidateMsgConn (c_handle (conns s c)) c vusr)" "user_map s' = user_map s"
    "user_map_by_name s' = user_map_by_name s" "msg_conn_map s' = msg_conn_map s" "next_conn s' = next_conn s" "next_user s' = next_user s"
    "\<And>k. conn_key (conns s' k) = (if k = c then conn_key ((conns s c)\<lparr>c_user_id := ui_user_id info, c_open := True\<rparr>) else conn_key (conns s k))"
    "announced USER_CNT_INC s' = announced USER_CNT_INC s + 1" "announced USER_CNT_DEC s' = announced USER_CNT_DEC s"
proof -
  let ?i = "ui_user_id info" and ?t = "c_client_type (conns s c)" and ?P = "\<lambda>x. \<not> announces x"
  define s1 where "s1 = KickOutSameClientType ?t KICK_REASON_DUPLICATE_USER (Some c) vusr s"
  define s2 where "s2 = to_route e (mk_pdu SID_OTHER CID_OTHER_SERVER_KICK_USER 0 (IMServerKickUser ?i (c_client_type (conns s1 c)) 1)) s1"
  have q: "quiet conn_key ?P s s2" unfolding s1_def s2_def
    by (intro quiet_to_route quiet_KickOutSameClientType quiet_refl) (simp_all add: announces_def conn_key_def)
  have key: "conn_key (conns s2 k) = conn_key (conns s k)" for k using q by (simp add: quiet_def)
  then have h: "c_handle (conns s2 c) = c_handle (conns s c)" by (simp add: conn_key_def)
  have tab: "users s2 = users s" "user_map s2 = user_map s" "user_map_by_name s2 = user_map_by_name s"
    "msg_conn_map s2 = msg_conn_map s" "next_conn s2 = next_conn s" "next_user s2 = next_user s"
    using q by (simp_all add: quiet_def)
  have ann: "announced a s2 = announced a s" for a by (rule quiet_announced [OF q]) simp
  define s3 where "s3 = upd_conn c (\<lambda>m. m\<lparr>c_user_id := ?i, c_open := True\<rparr>) s2"
  have c3: "c_open (conns s3 c)" "c_user_id (conns s3 c) = ?i" "c_handle (conns s3 c) = c_handle (conns s c)"
    by (simp_all add: s3_def upd_conn_def h)
  have tab3: "users s3 = users s" "user_map s3 = user_map s" "user_map_by_name s3 = user_map_by_name s"
    "msg_conn_map s3 = msg_conn_map s" "next_conn s3 = next_conn s" "next_user s3 = next_user s" "sent s3 = sent s2"
    by (simp_all add: s3_def upd_conn_def tab)
  have v3: "GetImUserById s3 ?i = Some v" using v(2) by (simp add: GetImUserById_def tab3)
  define s4 where "s4 = emit (ToAllRoute (mk_pdu SID_OTHER CID_OTHER_USER_STATUS_UPDATE 0
       (IMUserStatusUpdate USER_STATUS_ONLINE (u_user_id vusr) (c_client_type (conns s3 c)))))
     (emit (ToAllLogin (mk_pdu SID_OTHER CID_OTHER_USER_CNT_UPDATE 0 (IMUserCntUpdate USER_CNT_INC (u_user_id vusr)))) s3)"
  have st: "SendUserStatusUpdate c USER_STATUS_ONLINE s3 = Some s4"
    by (simp add: SendUserStatusUpdate_def c3 v3 tab3 v(1) s4_def)
  define s5 where "s5 = s4\<lparr>users := (users s)(v \<mapsto> ValidateMsgConn (c_handle (conns s c)) c vusr)\<rparr>"
  define s6 where "s6 = emit (ToClient c (mk_pdu SID_LOGIN CID_LOGIN_RES_USERLOGIN seq
       (IMLoginRes (now e) REFUSE_REASON_NONE rs (Some (c_online_status (conns s5 c))) (Some info)))) s5"
  have "upd_user v (ValidateMsgConn (c_handle (conns s4 c)) c) s4 = Some s5"
    by (simp add: upd_user_def s5_def s4_def tab3 v(1) c3)
  then have run: "login_tail e seq c rs info v s = Some s6"
    using st v(1) by (simp add: login_tail_def Let_def s1_def [symmetric] s2_def [symmetric] s3_def [symmetric] s6_def)
  have ann6: "announced a s6 = announced a s + (if a = USER_CNT_INC then 1 else 0)" for a
  proof -
    have "announced a s6 = announced a s3 + (if a = USER_CNT_INC then 1 else 0)"
      by (simp add: s6_def s5_def s4_def announced_def emit_def cnt_action_def mk_pdu_def)
    moreover have "announced a s3 = announced a s2" by (simp add: announced_def tab3)
    ultimately show ?thesis by (simp add: ann)
  qed
  have key6: "conn_key (conns s6 k) = (if k = c then conn_key ((conns s c)\<lparr>c_user_id := ?i, c_open := True\<rparr>) else conn_key (conns s k))" for k
    by (simp add: s6_def s5_def s4_def s3_def upd_conn_def key) (use key [of c] in \<open>simp add: conn_key_def\<close>)
  show ?thesis
    by (rule that [OF run]) (simp_all add: key6 ann6, simp_all add: s6_def s5_def s4_def tab3)
qed

lemma good_login_success:
  assumes good: "good ident s" and u: "users s u = Some usr" "u_login_name usr = name"
    and c: "c \<in> set (u_unvalidate_conn_set usr)" and i: "ui_user_id info = ident name" "ident name \<noteq> 0"
  obtains s' where "login_success e seq u c name rs info s = Some s'" "good ident s'"
proof -
  let ?i = "ui_user_id info"
  have inv: "srv_inv ident {} s" using good by (simp add: good_def)
  have cs: "live s c" "\<not> c_open (conns s c)" "c_login_name (conns s c) = name" "name \<noteq> []"
    using user_ok_pending [OF inv_user [OF inv u(1)] c] u(2) inv_user [OF inv u(1)] by (auto simp: user_ok_def)
  obtain v t vusr xs where run1: "adopt_conn u c name ?i s = Some (v, t\<lparr>users := (users t)(v \<mapsto> vusr\<lparr>u_unvalidate_conn_set := xs\<rparr>)\<rparr>)"
    and xs: "set_erase c xs = u_unvalidate_conn_set vusr" and ad: "adopted ident ?i c s v t vusr"
    by (rule adopt_conn_ok [OF good u c i(1)]) (use i in auto)
  have t: "good ident t" "live t c" "conns t = conns s" "users t v = Some vusr" "takes_id ident ?i vusr t"
    and free: "\<And>w wusr. users t w = Some wusr \<Longrightarrow> c \<notin> set (u_unvalidate_conn_set wusr)"
    using ad by (auto simp: adopted_def)
  have invt: "srv_inv ident {} t" using t(1) by (simp add: good_def)
  define w where "w = vusr\<lparr>u_unvalidate_conn_set := xs, u_user_id := ?i, u_nick_name := ui_nick_name info, u_validate := True\<rparr>"
  define t1 where "t1 = t\<lparr>users := (users t)(v \<mapsto> w)\<rparr>"
  define t2 where "t2 = snd (AddImUserById ?i v t1)"
  have run2: "login_success e seq u c name rs info s = login_tail e seq c rs info v t2"
    unfolding login_success_tail run1 by (simp add: upd_user_def t2_def t1_def w_def)
  have um: "user_map t2 = map_put ?i v (user_map t)"
    unfolding t2_def using takes_id_add [OF invt t(4,5), of t1] by (simp add: t1_def)
  have "map_ok (user_map t)" using invt by (simp add: srv_inv_def tables_ok_def)
  then have idv: "GetImUserById t2 ?i = Some v" by (simp add: GetImUserById_def um smap.find_put)
  have wv: "users t2 v = Some w" by (simp add: t2_def t1_def)
  obtain s' where s': "login_tail e seq c rs info v t2 = Some s'"
    "users s' = (users t2)(v \<mapsto> ValidateMsgConn (c_handle (conns t2 c)) c w)" "user_map s' = user_map t2"
    "user_map_by_name s' = user_map_by_name t2" "msg_conn_map s' = msg_conn_map t2" "next_conn s' = next_conn t2" "next_user s' = next_user t2"
    "\<And>k. conn_key (conns s' k) = (if k = c then conn_key ((conns t2 c)\<lparr>c_user_id := ?i, c_open := True\<rparr>) else conn_key (conns t2 k))"
    "announced USER_CNT_INC s' = announced USER_CNT_INC t2 + 1" "announced USER_CNT_DEC s' = announced USER_CNT_DEC t2"
    by (rule login_tail_ok [OF wv idv, where e = e and seq = seq and c = c and rs = rs]) (rule that)
  let ?a = "attach ?i (ui_nick_name info) v vusr c t"
  have inva: "srv_inv ident {} ?a"
    by (rule inv_attach [OF invt t(4,2)]) (use cs t(3) free t(5) in auto)
  have inv': "srv_inv ident {} s'"
  proof (rule inv_same_tables [OF inva])
    show "users s' = users ?a"
      by (simp add: s'(2) attach_def t2_def t1_def w_def ValidateMsgConn_def DelUnValidateMsgConn_def AddMsgConn_def xs)
    show "conn_key (conns s' k) = conn_key (conns ?a k)" for k
      by (simp add: s'(8) attach_def t2_def t1_def)
  qed (simp_all add: s' um, simp_all add: attach_def t2_def t1_def)
  have "conns s' k = conns s' k \<and> c_handle (conns s' k) = c_handle (conns t k) \<and> c_open (conns s' k) = (k = c \<or> c_open (conns t k))" for k
    using s'(8) [of k] by (auto simp: conn_key_def t2_def t1_def split: if_splits)
  moreover have "msg_conn_map s' = msg_conn_map t" "next_conn s' = next_conn t" by (simp_all add: s' t2_def t1_def)
  ultimately have "online s' = insert c (online t)" using t(2) by (auto simp: online_def live_def)
  moreover have "c \<notin> online t" using cs(2) t(3) by (simp add: online_def)
  moreover have "announced a t2 = announced a t" for a by (simp add: announced_def t2_def t1_def)
  ultimately have "balanced s'" using t(1) finite_online [of t] by (simp add: balanced_def good_def s'(9,10))
  with inv' s'(1) run2 show ?thesis by (intro that [of s']) (simp_all add: good_def)
qed

lemma good_HandleValidateResponse:
  assumes good: "good ident s" and honest: "honest ident p"
  obtains s' where "HandleValidateResponse e p s = Some s'" "good ident s'"
proof (cases "\<exists>name result rs info a u usr c. p_body p = IMValidateRsp name result rs info a \<and>
    GetImUserByLoginName s name = Some u \<and> users s u = Some usr \<and> GetUnValidateMsgConn s usr (att_handle e a) = Some c \<and> \<not> c_open (conns s c)")
  case True
  then obtain name result rs info a u usr c where p: "p_body p = IMValidateRsp name result rs info a"
    and u: "GetImUserByLoginName s name = Some u" "users s u = Some usr"
    and c: "GetUnValidateMsgConn s usr (att_handle e a) = Some c" "\<not> c_open (conns s c)" by blast
  have inv: "srv_inv ident {} s" using good by (simp add: good_def)
  have cu: "c \<in> set (u_unvalidate_conn_set usr)" using c(1) by (auto simp: GetUnValidateMsgConn_def find_Some_iff)
  have name: "u_login_name usr = name" using inv_by_name [OF inv u(1)] u(2) by auto
  show ?thesis
  proof (cases "result = 0")
    case True
    obtain s' where "login_success e (p_seq p) u c name rs info s = Some s'" "good ident s'"
      by (rule good_login_success [OF good u(2) name cu]) (use honest p True in \<open>auto simp: honest_def\<close>)
    with p u c True show ?thesis by (intro that [of s']) (simp_all add: HandleValidateResponse_def)
  next
    case False
    let ?s = "emit (ToClient c (mk_pdu SID_LOGIN CID_LOGIN_RES_USERLOGIN (p_seq p)
                      (IMLoginRes (now e) REFUSE_REASON_DB_VALIDATE_FAILED rs None None))) s"
    have "good ident ?s" by (rule good_emit [OF good]) (simp add: announces_def)
    moreover have "live ?s c" using user_ok_pending(1) [OF inv_user [OF inv u(2)] cu] by simp
    ultimately obtain s' where "Close c ?s = Some s'" "good ident s'" by (rule Close_good)
    with p u c False show ?thesis by (intro that [of s']) (simp_all add: HandleValidateResponse_def)
  qed
next
  case False
  have inv: "srv_inv ident {} s" using good by (simp add: good_def)
  have "HandleValidateResponse e p s = Some s"
  proof (cases "p_body p")
    case (IMValidateRsp name result rs info a)
    show ?thesis
    proof (cases "GetImUserByLoginName s name")
      case (Some u)
      obtain usr where "users s u = Some usr" by (rule inv_by_name [OF inv Some])
      with False IMValidateRsp Some show ?thesis
        by (auto simp: HandleValidateResponse_def split: option.split)
    qed (simp add: HandleValidateResponse_def IMValidateRsp)
  qed (simp_all add: HandleValidateResponse_def)
  then show ?thesis using good by (intro that)
qed

subsection \<open>The timer\<close>

lemma good_OnTimer:
  assumes good: "good ident s" and live: "live s c"
  obtains s' where "OnTimer t c s = Some s'" "good ident s'" "\<And>k. k \<noteq> c \<Longrightarrow> live s k \<Longrightarrow> live s' k"
    "\<And>k. c_handle (conns s' k) = c_handle (conns s k)"
proof -
  let ?P = "\<lambda>x. \<not> announces x"
  define s1 where "s1 = upd_conn c (\<lambda>m. m\<lparr>c_msg_cnt_per_sec := 0\<rparr>) s"
  have q1: "quiet conn_key ?P s s1" unfolding s1_def by (rule quiet_upd_conn) (simp_all add: conn_key_def)
  have good1: "good ident s1" by (rule good_quiet [OF good q1])
  have h1: "c_handle (conns s1 k) = c_handle (conns s k)" for k using q1 by (simp add: quiet_def conn_key_def)
  have live1: "live s1 k = live s k" for k by (rule quiet_live [OF q1])
  show ?thesis
  proof (cases "conn_timed_out t (conns s1 c)")
    case True
    have "live s1 c" using live live1 by simp
    then obtain s' where s': "Close c s1 = Some s'" "good ident s'" "conns s' = conns s1"
      "msg_conn_map s' = map_erase (c_handle (conns s1 c)) (msg_conn_map s1)" "next_conn s' = next_conn s1"
      by (rule Close_good [OF good1])
    have "OnTimer t c s = Some s'" using s'(1) True by (simp add: OnTimer_def Let_def s1_def [symmetric])
    moreover have "live s' k" if "k \<noteq> c" "live s k" for k
    proof -
      have "live s1 k" "live s1 c" using that live live1 by simp_all
      then have "c_handle (conns s1 k) \<noteq> c_handle (conns s1 c)" using that(1) by (auto simp: live_def)
      with \<open>live s1 k\<close> show ?thesis by (simp add: live_def s')
    qed
    ultimately show ?thesis using s'(2,3) h1 by (intro that [of s']) simp_all
  next
    case False
    obtain n acks where pa: "purge_acks t (c_send_msg_list (conns s1 c)) = (n, acks)" by (cases "purge_acks t (c_send_msg_list (conns s1 c))")
    define s2 where "s2 = upd_conn c (\<lambda>m. m\<lparr>c_send_msg_list := acks\<rparr>) s1"
    define s3 where "s3 = s2\<lparr>down_msg_miss_cnt := down_msg_miss_cnt s2 + of_nat n\<rparr>"
    have "quiet conn_key ?P s1 s2" unfolding s2_def by (rule quiet_upd_conn) (simp_all add: conn_key_def)
    then have q: "quiet conn_key ?P s1 s3" by (simp add: quiet_def s3_def)
    have "OnTimer t c s = Some s3" using False pa by (simp add: OnTimer_def Let_def s1_def [symmetric] s2_def s3_def)
    moreover have "good ident s3" by (rule good_quiet [OF good1 q])
    moreover have "live s3 k" if "live s k" for k using that quiet_live [OF q] live1 by simp
    moreover have "c_handle (conns s3 k) = c_handle (conns s k)" for k using q h1 by (simp add: quiet_def conn_key_def)
    ultimately show ?thesis by (intro that [of s3])
  qed
qed

lemma good_timer_each:
  assumes "good ident s" "\<And>h c. (h, c) \<in> set cs \<Longrightarrow> live s c \<and> c_handle (conns s c) = h" "distinct cs"
  shows "\<exists>s'. timer_each t cs s = Some s' \<and> good ident s'"
  using assms
proof (induction cs arbitrary: s)
  case (Cons e cs)
  obtain h c where e: "e = (h, c)" by (cases e)
  have c: "live s c" "c_handle (conns s c) = h" using Cons.prems(2) [of h c] by (simp_all add: e)
  obtain s1 where s1: "OnTimer t c s = Some s1" "good ident s1" "\<And>k. k \<noteq> c \<Longrightarrow> live s k \<Longrightarrow> live s1 k"
    "\<And>k. c_handle (conns s1 k) = c_handle (conns s k)"
    by (rule good_OnTimer [OF Cons.prems(1) c(1), where t = t]) (rule that)
  have "live s1 k \<and> c_handle (conns s1 k) = j" if "(j, k) \<in> set cs" for j k
  proof -
    have "live s k" "c_handle (conns s k) = j" using Cons.prems(2) [of j k] that by simp_all
    moreover have "k \<noteq> c" using Cons.prems(3) that calculation(2) c(2) by (auto simp: e)
    ultimately show ?thesis using s1(3,4) by simp
  qed
  then have "\<exists>s'. timer_each t cs s1 = Some s' \<and> good ident s'"
    using Cons.IH [OF s1(2)] Cons.prems(3) by simp
  then show ?case by (simp add: e s1(1))
qed simp

section \<open>Every step\<close>

lemma good_dispatch:
  assumes good: "good ident s" and live: "live s c" and named: "named p"
  shows "\<exists>s'. dispatch (p_cid p) e c p s = Some s' \<and> good ident s'"
proof -
  have ids: "ids_live s" using good inv_ids_live by (auto simp: good_def)
  consider "p_cid p = CID_LOGIN_REQ_USERLOGIN" | "p_cid p = CID_LOGIN_REQ_LOGINOUT" | "p_cid p = CID_MSG_DATA"
    | "p_cid p = CID_LOGIN_REQ_KICKPCCLIENT"
    | "p_cid p \<notin> {CID_LOGIN_REQ_USERLOGIN, CID_LOGIN_REQ_LOGINOUT, CID_LOGIN_REQ_KICKPCCLIENT, CID_MSG_DATA}" by auto
  then show ?thesis
  proof cases
    case 1
    then have "dispatch (p_cid p) = HandleLoginRequest" by (simp add: dispatch_def)
    then show ?thesis using good_HandleLoginRequest [OF good live named] by metis
  next
    case 2
    let ?s = "emit (ToClient c (mk_pdu SID_LOGIN CID_LOGIN_RES_LOGINOUT (p_seq p) (IMLogoutRsp 0)))
      (to_db (db_other e) (mk_pdu SID_LOGIN CID_LOGIN_REQ_DEVICETOKEN (p_seq p) (IMDeviceTokenReq (c_user_id (conns s c)) [] None)) s)"
    have "good ident ?s" by (rule good_emit [OF good_to_db [OF good]]) (simp add: announces_def)
    moreover have "live ?s c" using live by (simp add: to_db_def split: option.split)
    ultimately obtain s' where "Close c ?s = Some s'" "good ident s'" by (rule Close_good)
    moreover have "dispatch (p_cid p) e c p s = Close c ?s" using 2 by (simp add: dispatch_def HandleLoginOutRequest_def Let_def)
    ultimately show ?thesis by auto
  next
    case 3
    then have "dispatch (p_cid p) = HandleClientMsgData" by (simp add: dispatch_def)
    moreover obtain s' where "HandleClientMsgData e c p s = Some s'"
      "quiet conn_key (\<lambda>x. on_behalf (c_user_id (conns s c)) x \<and> \<not> announces x) s s'"
      using HandleClientMsgData_quiet [of s c e p] by (auto simp: ok_quiet_def)
    moreover from good this(2) have "good ident s'" by (rule good_quiet) simp
    ultimately show ?thesis by simp
  next
    case 4
    then have "dispatch (p_cid p) = HandleKickPCClient" by (simp add: dispatch_def)
    moreover have "ok_quiet conn_key (\<lambda>x. \<not> announces x) s (HandleKickPCClient e c p s)"
      using ok_quiet_mono [OF HandleKickPCClient_quiet [OF ids, of c e p], of "\<lambda>x. \<not> announces x" fst]
      by (simp add: client_out_def)
    ultimately show ?thesis using good_quiet [OF good] by (auto simp: ok_quiet_def)
  next
    case 5
    have "ok_quiet conn_key (\<lambda>x. \<not> announces x) s (dispatch (p_cid p) e c p s)"
      using ok_quiet_mono [OF dispatch_quiet [OF ids 5, of c e p], of "\<lambda>x. \<not> announces x" fst]
      by (simp add: conn_core_def client_out_def)
    then obtain s' where "dispatch (p_cid p) e c p s = Some s'" "quiet conn_key (\<lambda>x. \<not> announces x) s s'"
      by (auto simp: ok_quiet_def)
    then show ?thesis using good_quiet [OF good] by blast
  qed
qed

lemma good_client:
  assumes good: "good ident s" and live: "live s c" and named: "named p"
  shows "\<exists>s'. on_client_pdu e c p s = Some s' \<and> good ident s'"
proof (cases "p_cid p \<noteq> CID_LOGIN_REQ_USERLOGIN \<and> \<not> c_open (conns s c) \<and> c_kick_off (conns s c)")
  case True
  then show ?thesis using Close_good [OF good live] by (auto simp: on_client_pdu_def HandlePdu_def)
next
  case False
  then show ?thesis using good_dispatch [OF good live named, of e] by (auto simp: on_client_pdu_def HandlePdu_def)
qed

lemma good_database:
  assumes good: "good ident s" and honest: "honest ident p"
  shows "\<exists>s'. HandleDbPdu d e p s = Some s' \<and> good ident s'"
proof (cases "p_cid p = CID_OTHER_VALIDATE_RSP")
  case True
  then have "HandleDbPdu d e p s = HandleValidateResponse e p s" by (simp add: HandleDbPdu_def db_dispatch_def)
  then show ?thesis using good_HandleValidateResponse [OF good honest] by metis
next
  case False
  have ids: "ids_live s" using good inv_ids_live by (auto simp: good_def)
  have "ok_quiet conn_key (\<lambda>x. \<not> announces x) s (HandleDbPdu d e p s)"
    using ok_quiet_mono [OF db_dispatch_quiet [OF ids False, of d e p], of "\<lambda>x. \<not> announces x" fst]
    by (simp add: conn_core_def db_out_def HandleDbPdu_def)
  then show ?thesis using good_quiet [OF good] by (auto simp: ok_quiet_def)
qed

lemma good_read:
  assumes "good ident s" "in_order c ps s" "\<forall>e p. (e, Some p) \<in> set ps \<longrightarrow> named p"
  shows "\<exists>s'. on_read c ps s = Some s' \<and> good ident s'"
  using assms
proof (induction ps arbitrary: s)
  case (Cons x ps)
  obtain e q where x: "x = (e, q)" by (cases x)
  have live: "live s c" using Cons.prems(2) by (cases q) (simp_all add: x)
  show ?case
  proof (cases q)
    case None
    obtain s' where "Close c s = Some s'" "good ident s'" by (rule Close_good [OF Cons.prems(1) live])
    then show ?thesis by (simp add: x None)
  next
    case (Some p)
    have "named p" using Cons.prems(3) by (simp add: x Some)
    then obtain s1 where s1: "on_client_pdu e c p s = Some s1" "good ident s1"
      using good_client [OF Cons.prems(1) live] by blast
    show ?thesis
    proof (cases "HandlePdu e c p s = Some (Inr s1)")
      case True
      then have "in_order c ps s1" "\<forall>e p. (e, Some p) \<in> set ps \<longrightarrow> named p" using Cons.prems(2,3) by (simp_all add: x Some)
      from Cons.IH [OF s1(2) this] show ?thesis unfolding x Some on_read_Some True by simp
    next
      case False
      then have "on_read c (x # ps) s = on_client_pdu e c p s"
        using s1(1) unfolding x Some on_read_Some on_client_pdu_cases by (simp split: option.splits sum.splits)
      with s1 show ?thesis by simp
    qed
  qed
qed simp

lemma good_step: "srv_step ident in_order s r \<Longrightarrow> good ident s \<Longrightarrow> \<exists>s'. r = Some s' \<and> good ident s'"
proof (induction rule: srv_step.induct)
  case (connect s h e ctype)
  then show ?case using good_OnConnect by blast
next
  case (client s c ps)
  then show ?case using good_read by blast
next
  case (database p d e s)
  then show ?case using good_database by blast
next
  case (timer order s t)
  have inv: "srv_inv ident {} s" using timer by (simp add: good_def)
  then have cs: "conns_ok s" by (simp add: srv_inv_def)
  then have ok: "map_ok (msg_conn_map s)" by (simp add: conns_ok_def)
  have "live s c \<and> c_handle (conns s c) = h" if "(h, c) \<in> set (order (msg_conn_map s))" for h c
  proof -
    have "map_find (msg_conn_map s) h = Some c" using that timer(1) smap.find_entries [OF ok] by simp
    then show ?thesis using cs by (auto simp: conns_ok_def live_def)
  qed
  then show ?case unfolding msg_conn_timer_callback_def
    using good_timer_each [OF timer(3) _ timer(2)] by (metis (no_types, lifting))
next
  case (peer_close s c)
  then show ?case using Close_good by metis
qed

lemma good_init: "good ident init_server"
  by (simp add: good_def srv_inv_def inv_defs init_server_def live_def balanced_def announced_def online_def
      GetImUserById_def GetImUserByLoginName_def)

lemma orderly_good: "orderly ident s \<Longrightarrow> good ident s"
proof (induction rule: orderly.induct)
  case start
  show ?case by (rule good_init)
next
  case (step s s')
  then show ?case using good_step by blast
qed

end
