(* ===== verification/Msg_Reads.thy ===== *)
theory Msg_Reads
  imports Msg_Server
begin

text \<open>
  All runs of the message server, those included where packets stand behind one that closed their
  connection. A connection may then be pending or even logged in without being in the map of
  connections; what still holds is the invariant of this theory, which never asks whether a connection
  is open as a socket. It suffices to show that no handler touches a freed user.
\<close>

section \<open>The invariant of all runs\<close>

text \<open>As in \<open>Msg_Server\<close>, \<open>X\<close> are users that may be left without a connection for the moment.\<close>

definition core_user :: "(string \<Rightarrow> uid) \<Rightarrow> nat set \<Rightarrow> server \<Rightarrow> nat \<Rightarrow> im_user \<Rightarrow> bool" where
  "core_user ident X s u usr \<longleftrightarrow>
     u < next_user s \<and> GetImUserByLoginName s (u_login_name usr) = Some u \<and> u_login_name usr \<noteq> [] \<and> map_ok (u_conn_map usr) \<and>
     (\<forall>h c. map_find (u_conn_map usr) h = Some c \<longrightarrow>
        c < next_conn s \<and> c_handle (conns s c) = h \<and> c_open (conns s c) \<and> c_user_id (conns s c) = u_user_id usr) \<and>
     (\<forall>c\<in>set (u_unvalidate_conn_set usr).
        c < next_conn s \<and> \<not> c_open (conns s c) \<and> c_login_name (conns s c) = u_login_name usr) \<and>
     (if u_user_id usr = 0 then u_conn_map usr = []
      else GetImUserById s (u_user_id usr) = Some u \<and> u_user_id usr = ident (u_login_name usr) \<and> (u_conn_map usr \<noteq> [] \<or> u \<in> X))"

definition core_conns :: "server \<Rightarrow> bool" where
  "core_conns s \<longleftrightarrow> map_ok (msg_conn_map s) \<and>
     (\<forall>h c. map_find (msg_conn_map s) h = Some c \<longrightarrow> c_handle (conns s c) = h \<and> c < next_conn s \<and> h \<noteq> NETLIB_INVALID_HANDLE) \<and>
     (\<forall>c. if c_open (conns s c) then c_login_name (conns s c) \<noteq> [] else c_user_id (conns s c) = 0)"

definition core_tables :: "server \<Rightarrow> bool" where
  "core_tables s \<longleftrightarrow> map_ok (user_map s) \<and> distinct (map fst (user_map_by_name s)) \<and>
     (\<forall>i u. GetImUserById s i = Some u \<longrightarrow> i \<noteq> 0 \<and> (\<exists>usr. users s u = Some usr \<and> u_user_id usr = i)) \<and>
     (\<forall>n u. GetImUserByLoginName s n = Some u \<longrightarrow> (\<exists>usr. users s u = Some usr \<and> u_login_name usr = n))"

definition core_inv :: "(string \<Rightarrow> uid) \<Rightarrow> nat set \<Rightarrow> server \<Rightarrow> bool" where
  "core_inv ident X s \<longleftrightarrow> core_conns s \<and> core_tables s \<and> (\<forall>u usr. users s u = Some usr \<longrightarrow> core_user ident X s u usr)"

lemma core_invI:
  "core_conns s \<Longrightarrow> core_tables s \<Longrightarrow> (\<And>u usr. users s u = Some usr \<Longrightarrow> core_user ident X s u usr) \<Longrightarrow> core_inv ident X s"
  by (simp add: core_inv_def)

lemma core_invD:
  assumes "core_inv ident X s"
  shows "core_conns s" "core_tables s" "users s u = Some usr \<Longrightarrow> core_user ident X s u usr"
  using assms by (simp_all add: core_inv_def)

lemma core_by_id:
  assumes "core_inv ident X s" "GetImUserById s i = Some u"
  obtains usr where "users s u = Some usr" "u_user_id usr = i" "i \<noteq> 0"
  using assms unfolding core_inv_def core_tables_def by blast

lemma core_by_name:
  assumes "core_inv ident X s" "GetImUserByLoginName s n = Some u"
  obtains usr where "users s u = Some usr" "u_login_name usr = n"
  using assms unfolding core_inv_def core_tables_def by blast

lemma core_user_id: "core_user ident X s u usr \<Longrightarrow> u_user_id usr \<noteq> 0 \<Longrightarrow> GetImUserById s (u_user_id usr) = Some u"
  unfolding core_user_def by metis

lemma core_user_name: "core_user ident X s u usr \<Longrightarrow> GetImUserByLoginName s (u_login_name usr) = Some u \<and> u_login_name usr \<noteq> []"
  by (simp add: core_user_def)

lemma core_user_conn:
  assumes "core_user ident X s u usr" "map_find (u_conn_map usr) h = Some c"
  shows "c < next_conn s" "c_handle (conns s c) = h" "c_open (conns s c)" "c_user_id (conns s c) = u_user_id usr"
  using assms by (auto simp: core_user_def)

lemma core_user_pending:
  assumes "core_user ident X s u usr" "c \<in> set (u_unvalidate_conn_set usr)"
  shows "c < next_conn s" "\<not> c_open (conns s c)" "c_login_name (conns s c) = u_login_name usr"
  using assms by (auto simp: core_user_def)

lemma core_closed_id: "core_inv ident X s \<Longrightarrow> \<not> c_open (conns s c) \<Longrightarrow> c_user_id (conns s c) = 0"
  unfolding core_inv_def core_conns_def by presburger

lemma core_open_name: "core_inv ident X s \<Longrightarrow> c_open (conns s c) \<Longrightarrow> c_login_name (conns s c) \<noteq> []"
  unfolding core_inv_def core_conns_def by presburger

lemma core_no_zero: "core_inv ident X s \<Longrightarrow> GetImUserById s 0 = None"
  by (metis core_by_id not_Some_eq)

lemma core_ids_live: "core_inv ident X s \<Longrightarrow> ids_live s"
  unfolding ids_live_def by (metis GetImUserById_def core_by_id option.distinct(1))

lemma core_user_transfer:
  assumes ok: "core_user ident X s u usr"
    and conn: "\<And>c. c < next_conn s \<Longrightarrow> c_open (conns s c) \<or> c \<in> set (u_unvalidate_conn_set usr) \<Longrightarrow>
      conn_key (conns s' c) = conn_key (conns s c)"
    and id: "\<And>i. GetImUserById s i = Some u \<Longrightarrow> GetImUserById s' i = Some u"
    and name: "\<And>n. GetImUserByLoginName s n = Some u \<Longrightarrow> GetImUserByLoginName s' n = Some u"
    and nxt: "next_user s \<le> next_user s'" "next_conn s \<le> next_conn s'" and X: "u \<in> X \<Longrightarrow> u \<in> Y"
  shows "core_user ident Y s' u usr"
proof -
  have key: "c_open (conns s' c) = c_open (conns s c)" "c_handle (conns s' c) = c_handle (conns s c)"
    "c_user_id (conns s' c) = c_user_id (conns s c)" "c_login_name (conns s' c) = c_login_name (conns s c)"
    if "c < next_conn s" "c_open (conns s c) \<or> c \<in> set (u_unvalidate_conn_set usr)" for c
    using conn [OF that] by (simp_all add: conn_key_def)
  have last: "if u_user_id usr = 0 then u_conn_map usr = []
      else GetImUserById s (u_user_id usr) = Some u \<and> u_user_id usr = ident (u_login_name usr) \<and> (u_conn_map usr \<noteq> [] \<or> u \<in> X)"
    using ok unfolding core_user_def by blast
  show ?thesis
    unfolding core_user_def
  proof (intro conjI allI impI ballI)
    show "u < next_user s'" "GetImUserByLoginName s' (u_login_name usr) = Some u" "u_login_name usr \<noteq> []" "map_ok (u_conn_map usr)"
      using ok nxt name unfolding core_user_def by auto
  next
    fix h c assume "map_find (u_conn_map usr) h = Some c"
    from core_user_conn [OF ok this] key nxt(2)
    show "c < next_conn s'" "c_handle (conns s' c) = h" "c_open (conns s' c)" "c_user_id (conns s' c) = u_user_id usr" by auto
  next
    fix c assume c: "c \<in> set (u_unvalidate_conn_set usr)"
    from core_user_pending [OF ok c] key c nxt(2)
    show "c < next_conn s'" "\<not> c_open (conns s' c)" "c_login_name (conns s' c) = u_login_name usr" by auto
  next
    show "if u_user_id usr = 0 then u_conn_map usr = []
      else GetImUserById s' (u_user_id usr) = Some u \<and> u_user_id usr = ident (u_login_name usr) \<and> (u_conn_map usr \<noteq> [] \<or> u \<in> Y)"
      using last id X by (cases "u_user_id usr = 0") auto
  qed
qed

text \<open>The invariant depends on the tables and on the keys of the connections only.\<close>

lemma core_same_tables:
  assumes inv: "core_inv ident X s" and tables [simp]: "users s' = users s" "user_map s' = user_map s"
      "user_map_by_name s' = user_map_by_name s" "msg_conn_map s' = msg_conn_map s" "next_conn s' = next_conn s" "next_user s' = next_user s"
    and key: "\<And>k. conn_key (conns s' k) = conn_key (conns s k)"
  shows "core_inv ident X s'"
proof -
  have [simp]: "c_handle (conns s' c) = c_handle (conns s c)" "c_login_name (conns s' c) = c_login_name (conns s c)"
    "c_user_id (conns s' c) = c_user_id (conns s c)" "c_open (conns s' c) = c_open (conns s c)" for c
    using key [of c] by (simp_all add: conn_key_def)
  have "core_inv ident X s' = core_inv ident X s"
    by (simp add: core_inv_def core_conns_def core_tables_def core_user_def GetImUserById_def GetImUserByLoginName_def)
  with inv show ?thesis by simp
qed

lemma core_quiet: "core_inv ident X s \<Longrightarrow> quiet conn_key P s s' \<Longrightarrow> core_inv ident X s'"
  by (erule core_same_tables) (simp_all add: quiet_def)

lemma core_emit: "core_inv ident X s \<Longrightarrow> core_inv ident X (emit x s)"
  by (rule core_quiet [where P = "\<lambda>x. True"]) (auto intro: quiet_emit)

lemma core_to_db: "core_inv ident X s \<Longrightarrow> core_inv ident X (to_db d q s)"
  by (rule core_quiet [where P = "\<lambda>x. True"]) (auto intro: quiet_to_db)

section \<open>Removing a user, closing a connection\<close>

lemma core_forget_handle:
  assumes inv: "core_inv ident X s"
  shows "core_inv ident X (s\<lparr>msg_conn_map := map_erase h (msg_conn_map s)\<rparr>)" (is "core_inv ident X ?s")
proof (rule core_invI)
  show "core_conns ?s" using core_invD(1) [OF inv] by (auto simp: core_conns_def map_erase_ok)
  show "core_tables ?s" using core_invD(2) [OF inv] by (simp add: core_tables_def GetImUserById_def GetImUserByLoginName_def)
  show "core_user ident X ?s u usr" if "users ?s u = Some usr" for u usr
  proof -
    have "core_user ident X s u usr" using that core_invD(3) [OF inv] by simp
    then show ?thesis by (rule core_user_transfer) (simp_all add: GetImUserById_def GetImUserByLoginName_def)
  qed
qed

lemma core_upd_user:
  assumes inv: "core_inv ident X s" and u: "users s u = Some usr" and ok: "core_user ident Y s u usr'"
    and same: "u_user_id usr' = u_user_id usr" "u_login_name usr' = u_login_name usr" and XY: "X \<subseteq> Y"
  shows "core_inv ident Y (s\<lparr>users := (users s)(u \<mapsto> usr')\<rparr>)" (is "core_inv ident Y ?s")
proof (rule core_invI)
  show "core_conns ?s" using core_invD(1) [OF inv] by (simp add: core_conns_def)
  have same_user: "\<exists>w'. users ?s v = Some w' \<and> u_user_id w' = u_user_id w \<and> u_login_name w' = u_login_name w"
    if "users s v = Some w" for v w
    using that u same by auto
  show "core_tables ?s"
    using core_invD(2) [OF inv] same_user
    by (fastforce simp: core_tables_def GetImUserById_def GetImUserByLoginName_def simp del: fun_upd_apply)
  show "core_user ident Y ?s v w" if "users ?s v = Some w" for v w
  proof (cases "v = u")
    case True
    with that ok have "core_user ident Y s v w" by simp
    then show ?thesis by (rule core_user_transfer) (simp_all add: GetImUserById_def GetImUserByLoginName_def)
  next
    case False
    with that have "core_user ident X s v w" using core_invD(3) [OF inv] by simp
    then show ?thesis by (rule core_user_transfer) (use XY in \<open>auto simp: GetImUserById_def GetImUserByLoginName_def\<close>)
  qed
qed

lemma core_drop_pending:
  assumes inv: "core_inv ident X s" and u: "users s u = Some usr"
  shows "core_inv ident X (s\<lparr>users := (users s)(u \<mapsto> DelUnValidateMsgConn c usr)\<rparr>)"
  by (rule core_upd_user [OF inv u])
    (use core_invD(3) [OF inv u] in \<open>auto simp: core_user_def DelUnValidateMsgConn_def split: if_splits\<close>)

lemma core_drop_conn:
  assumes inv: "core_inv ident {} s" and u: "users s u = Some usr"
  shows "core_inv ident {u} (s\<lparr>users := (users s)(u \<mapsto> DelMsgConn h usr)\<rparr>)"
proof (rule core_upd_user [OF inv u])
  have [simp]: "map_erase h [] = []" by (simp add: map_erase_def)
  show "core_user ident {u} s u (DelMsgConn h usr)"
    using core_invD(3) [OF inv u] by (auto simp: core_user_def DelMsgConn_def map_erase_ok split: if_splits)
qed (simp_all add: DelMsgConn_def)

lemma core_without_user:
  assumes inv: "core_inv ident X s" and u: "users s u = Some usr"
  shows "core_inv ident (X - {u}) (without_user u usr s)" (is "core_inv _ _ ?s")
proof (rule core_invI)
  have uok: "core_user ident X s u usr" by (rule core_invD(3) [OF inv u])
  have id: "GetImUserById ?s i = (if i = u_user_id usr then None else GetImUserById s i)" for i
    by (simp add: GetImUserById_def without_user_def)
  have name: "GetImUserByLoginName ?s n = (if n = u_login_name usr then None else GetImUserByLoginName s n)" for n
    by (simp add: GetImUserByLoginName_def without_user_def)
  have users: "users ?s v = Some w \<longleftrightarrow> v \<noteq> u \<and> users s v = Some w" for v w by (simp add: without_user_def)
  have other_id: "i \<noteq> u_user_id usr" if "GetImUserById s i = Some v" "v \<noteq> u" for i v
  proof -
    have "i \<noteq> 0" using core_by_id [OF inv that(1)] by blast
    then show ?thesis using core_user_id [OF uok] that by auto
  qed
  have other_name: "n \<noteq> u_login_name usr" if "GetImUserByLoginName s n = Some v" "v \<noteq> u" for n v
    using that core_user_name [OF uok] by auto
  show "core_conns ?s" using core_invD(1) [OF inv] by (simp add: core_conns_def without_user_def)
  show "core_tables ?s"
    unfolding core_tables_def
  proof (intro conjI allI impI)
    show "map_ok (user_map ?s)" "distinct (map fst (user_map_by_name ?s))"
      using core_invD(2) [OF inv] by (simp_all add: without_user_def core_tables_def map_erase_ok distinct_map_erase)
  next
    fix i v assume "GetImUserById ?s i = Some v"
    then have *: "i \<noteq> u_user_id usr" "GetImUserById s i = Some v" by (simp_all add: id split: if_splits)
    obtain w where "users s v = Some w" "u_user_id w = i" "i \<noteq> 0" by (rule core_by_id [OF inv *(2)])
    with * u show "i \<noteq> 0" "\<exists>w. users ?s v = Some w \<and> u_user_id w = i" by (auto simp: users)
  next
    fix n v assume "GetImUserByLoginName ?s n = Some v"
    then have *: "n \<noteq> u_login_name usr" "GetImUserByLoginName s n = Some v" by (simp_all add: name split: if_splits)
    obtain w where "users s v = Some w" "u_login_name w = n" by (rule core_by_name [OF inv *(2)])
    with * u show "\<exists>w. users ?s v = Some w \<and> u_login_name w = n" by (auto simp: users)
  qed
  show "core_user ident (X - {u}) ?s v w" if "users ?s v = Some w" for v w
  proof -
    have v: "v \<noteq> u" "users s v = Some w" using that by (simp_all add: users)
    show ?thesis
      by (rule core_user_transfer [OF core_invD(3) [OF inv v(2)]])
        (use v other_id other_name in \<open>auto simp: id name\<close>, auto simp: without_user_def)
  qed
qed

lemma core_RemoveIfEmpty:
  assumes inv: "core_inv ident X s" and u: "users s u = Some usr"
  obtains s' where "RemoveIfEmpty u s = Some s'" "core_inv ident (X - {u}) s'"
proof (cases "u_conn_map usr = []")
  case True
  with u have "RemoveIfEmpty u s = Some (without_user u usr s)"
    by (simp add: RemoveIfEmpty_def IsMsgConnEmpty_def RemoveImUser_eq)
  with core_without_user [OF inv u] that show ?thesis by blast
next
  case False
  with u have eq: "RemoveIfEmpty u s = Some s" by (simp add: RemoveIfEmpty_def IsMsgConnEmpty_def)
  have "core_user ident (X - {u}) s v w" if "users s v = Some w" for v w
  proof -
    have "core_user ident X s v w" by (rule core_invD(3) [OF inv that])
    with that u False show ?thesis by (cases "v = u") (auto simp: core_user_def split: if_splits)
  qed
  then have "core_inv ident (X - {u}) s" using inv by (simp add: core_inv_def)
  then show ?thesis using eq by (intro that) simp_all
qed

lemma core_status:
  assumes inv: "core_inv ident X s"
  obtains s' where "SendUserStatusUpdate c st s = Some s'" "core_inv ident X s'" "users s' = users s"
proof (cases "c_open (conns s c) \<and> GetImUserById s (c_user_id (conns s c)) \<noteq> None")
  case True
  then obtain u where u: "GetImUserById s (c_user_id (conns s c)) = Some u" by auto
  obtain usr where usr: "users s u = Some usr" by (rule core_by_id [OF inv u])
  have "quiet conn_key (\<lambda>x. True) s s'" if "SendUserStatusUpdate c st s = Some s'" for s'
    using that True u usr by (auto simp: SendUserStatusUpdate_def Let_def quiet_emit split: if_splits)
  then have "core_inv ident X s' \<and> users s' = users s" if "SendUserStatusUpdate c st s = Some s'" for s'
    using that core_quiet [OF inv] by (simp add: quiet_def)
  moreover have "SendUserStatusUpdate c st s \<noteq> None" using True u usr by (simp add: SendUserStatusUpdate_def Let_def)
  ultimately show ?thesis using that by blast
next
  case False
  then have "SendUserStatusUpdate c st s = Some s" by (auto simp: SendUserStatusUpdate_def)
  with inv that show ?thesis by blast
qed

lemma core_Close:
  assumes inv: "core_inv ident {} s"
  obtains s' where "Close c s = Some s'" "core_inv ident {} s'"
proof -
  define s0 where "s0 = (if c_handle (conns s c) \<noteq> NETLIB_INVALID_HANDLE
    then (emit (CloseSocket c) s)\<lparr>msg_conn_map := map_erase (c_handle (conns s c)) (msg_conn_map s)\<rparr> else s)"
  have inv0: "core_inv ident {} s0"
    using core_forget_handle [OF core_emit [OF inv, of "CloseSocket c"], of "c_handle (conns s c)"] inv by (simp add: s0_def)
  have "\<exists>s1. (case GetImUserById s0 (c_user_id (conns s c)) of None \<Rightarrow> Some s0
      | Some u \<Rightarrow> upd_user u (DelMsgConn (c_handle (conns s c))) s0 \<bind> (\<lambda>s. upd_user u (DelUnValidateMsgConn c) s \<bind>
          (\<lambda>s. SendUserStatusUpdate c USER_STATUS_OFFLINE s \<bind> RemoveIfEmpty u))) = Some s1 \<and> core_inv ident {} s1"
  proof (cases "GetImUserById s0 (c_user_id (conns s c))")
    case (Some u)
    obtain usr where u: "users s0 u = Some usr" by (rule core_by_id [OF inv0 Some])
    let ?usr = "DelMsgConn (c_handle (conns s c)) usr"
    let ?s1 = "s0\<lparr>users := (users s0)(u \<mapsto> ?usr)\<rparr>"
    let ?s2 = "?s1\<lparr>users := (users ?s1)(u \<mapsto> DelUnValidateMsgConn c ?usr)\<rparr>"
    have inv1: "core_inv ident {u} ?s1" by (rule core_drop_conn [OF inv0 u])
    have inv2: "core_inv ident {u} ?s2" by (rule core_drop_pending [OF inv1]) simp
    obtain s3 where s3: "SendUserStatusUpdate c USER_STATUS_OFFLINE ?s2 = Some s3" "core_inv ident {u} s3" "users s3 = users ?s2"
      by (rule core_status [OF inv2])
    have "users s3 u = Some (DelUnValidateMsgConn c ?usr)" by (simp add: s3)
    then obtain s4 where "RemoveIfEmpty u s3 = Some s4" "core_inv ident ({u} - {u}) s4" by (rule core_RemoveIfEmpty [OF s3(2)])
    then show ?thesis using Some u s3(1) by (simp add: upd_user_def)
  qed (use inv0 in simp)
  then obtain s1 where s1: "(case GetImUserById s0 (c_user_id (conns s c)) of None \<Rightarrow> Some s0
      | Some u \<Rightarrow> upd_user u (DelMsgConn (c_handle (conns s c))) s0 \<bind> (\<lambda>s. upd_user u (DelUnValidateMsgConn c) s \<bind>
          (\<lambda>s. SendUserStatusUpdate c USER_STATUS_OFFLINE s \<bind> RemoveIfEmpty u))) = Some s1" "core_inv ident {} s1" by blast
  have run: "Close c s = (case GetImUserByLoginName s1 (c_login_name (conns s c)) of
       None \<Rightarrow> Some s1
     | Some u \<Rightarrow> upd_user u (DelUnValidateMsgConn c) s1 \<bind> RemoveIfEmpty u)"
    unfolding Close_def Let_def s0_def [symmetric] s1(1) by simp
  show ?thesis
  proof (cases "GetImUserByLoginName s1 (c_login_name (conns s c))")
    case None
    with run s1(2) that show ?thesis by simp
  next
    case (Some w)
    obtain wusr where w: "users s1 w = Some wusr" by (rule core_by_name [OF s1(2) Some])
    let ?s2 = "s1\<lparr>users := (users s1)(w \<mapsto> DelUnValidateMsgConn c wusr)\<rparr>"
    have inv2: "core_inv ident {} ?s2" by (rule core_drop_pending [OF s1(2) w])
    have "users ?s2 w = Some (DelUnValidateMsgConn c wusr)" by simp
    then obtain s3 where "RemoveIfEmpty w ?s2 = Some s3" "core_inv ident ({} - {w}) s3" by (rule core_RemoveIfEmpty [OF inv2])
    with run Some w that [of s3] show ?thesis by (simp add: upd_user_def)
  qed
qed

section \<open>Connecting and asking to log in\<close>

lemma core_OnConnect:
  assumes inv: "core_inv ident {} s" and h: "map_find (msg_conn_map s) h = None" "h \<noteq> NETLIB_INVALID_HANDLE"
  shows "core_inv ident {} (OnConnect e h ctype s)" (is "core_inv _ _ ?s")
proof (rule core_invI)
  let ?k = "next_conn s"
  have cc: "core_conns s" by (rule core_invD(1) [OF inv])
  then have ok: "map_ok (msg_conn_map s)" by (simp add: core_conns_def)
  have cm: "map_find (msg_conn_map ?s) = (map_find (msg_conn_map s))(h \<mapsto> ?k)"
    using h by (simp add: OnConnect_def map_insert_def smap.find_put [OF ok])
  have conn: "conns ?s c = (if c = ?k then new_conn h ctype (tick e) else conns s c)" for c by (simp add: OnConnect_def)
  have nxt: "next_conn ?s = Suc ?k" by (simp add: OnConnect_def)
  show "core_conns ?s"
    unfolding core_conns_def
  proof (intro conjI allI impI)
    show "map_ok (msg_conn_map ?s)" using h by (simp add: OnConnect_def map_insert_def map_put_ok [OF ok])
  next
    fix j c assume "map_find (msg_conn_map ?s) j = Some c"
    then have "j = h \<and> c = ?k \<or> map_find (msg_conn_map s) j = Some c" by (auto simp: cm split: if_splits)
    then show "c_handle (conns ?s c) = j" "c < next_conn ?s" "j \<noteq> NETLIB_INVALID_HANDLE"
      using h cc by (auto simp: conn new_conn_def nxt core_conns_def intro: less_SucI)
  next
    fix c show "if c_open (conns ?s c) then c_login_name (conns ?s c) \<noteq> [] else c_user_id (conns ?s c) = 0"
      using cc by (auto simp: conn new_conn_def core_conns_def split: if_splits)
  qed
  show "core_tables ?s"
    using core_invD(2) [OF inv] by (simp add: core_tables_def OnConnect_def GetImUserById_def GetImUserByLoginName_def)
  show "core_user ident {} ?s u usr" if "users ?s u = Some usr" for u usr
  proof -
    have "core_user ident {} s u usr" using that core_invD(3) [OF inv] by (simp add: OnConnect_def)
    then show ?thesis
      by (rule core_user_transfer) (simp_all add: OnConnect_def GetImUserById_def GetImUserByLoginName_def)
  qed
qed

lemma core_name_conn:
  assumes inv: "core_inv ident {} s" and c: "c_login_name (conns s c) = []"
    and f: "\<And>m. c_handle (f m) = c_handle m" "\<And>m. c_user_id (f m) = c_user_id m" "\<And>m. c_open (f m) = c_open m"
  shows "core_inv ident {} (upd_conn c f s)" (is "core_inv _ _ ?s")
proof (rule core_invI)
  have op: "\<not> c_open (conns s c)" using core_open_name [OF inv] c by blast
  have conn: "conns ?s k = (if k = c then f (conns s c) else conns s k)" for k by (simp add: upd_conn_def)
  show "core_conns ?s"
    using core_invD(1) [OF inv] op unfolding core_conns_def by (auto simp: upd_conn_def f)
  show "core_tables ?s"
    using core_invD(2) [OF inv] by (simp add: core_tables_def upd_conn_def GetImUserById_def GetImUserByLoginName_def)
  show "core_user ident {} ?s u usr" if "users ?s u = Some usr" for u usr
  proof (rule core_user_transfer)
    show ok: "core_user ident {} s u usr" using that core_invD(3) [OF inv] by (simp add: upd_conn_def)
    fix k assume "k < next_conn s" "c_open (conns s k) \<or> k \<in> set (u_unvalidate_conn_set usr)"
    then have "k \<noteq> c" using op c core_user_pending(3) [OF ok, of k] core_user_name [OF ok] by auto
    then show "conn_key (conns ?s k) = conn_key (conns s k)" by (simp add: conn)
  qed (simp_all add: upd_conn_def GetImUserById_def GetImUserByLoginName_def)
qed

lemma core_fresh: "core_inv ident X s \<Longrightarrow> users s (next_user s) = None"
  using core_invD(3) [of ident X s "next_user s"] by (cases "users s (next_user s)") (auto simp: core_user_def)

lemma core_new_user:
  assumes inv: "core_inv ident {} s" and n: "GetImUserByLoginName s n = None" "n \<noteq> []"
  shows "core_inv ident {} (s\<lparr>users := (users s)(next_user s \<mapsto> new_user n), next_user := Suc (next_user s),
    user_map_by_name := (n, next_user s) # user_map_by_name s\<rparr>)" (is "core_inv ident {} ?s")
proof (rule core_invI)
  let ?u = "next_user s"
  have fresh: "users s ?u = None" by (rule core_fresh [OF inv])
  have id: "GetImUserById ?s i = GetImUserById s i" for i by (simp add: GetImUserById_def)
  have name: "GetImUserByLoginName ?s m = (if m = n then Some ?u else GetImUserByLoginName s m)" for m
    by (simp add: GetImUserByLoginName_def)
  have keep: "users ?s v = Some w" if "users s v = Some w" for v w using that fresh by auto
  show "core_conns ?s" using core_invD(1) [OF inv] by (simp add: core_conns_def)
  show "core_tables ?s"
    unfolding core_tables_def
  proof (intro conjI allI impI)
    show "map_ok (user_map ?s)" using core_invD(2) [OF inv] by (simp add: core_tables_def)
    have "n \<notin> fst ` set (user_map_by_name s)" using n(1) by (simp add: GetImUserByLoginName_def map_of_eq_None_iff)
    then show "distinct (map fst (user_map_by_name ?s))" using core_invD(2) [OF inv] by (simp add: core_tables_def)
  next
    fix i v assume "GetImUserById ?s i = Some v"
    then have v: "GetImUserById s i = Some v" by (simp only: id)
    show "i \<noteq> 0" "\<exists>w. users ?s v = Some w \<and> u_user_id w = i" by (rule core_by_id [OF inv v]; use keep in blast)+
  next
    fix m v assume "GetImUserByLoginName ?s m = Some v"
    then have "m = n \<and> v = ?u \<or> GetImUserByLoginName s m = Some v" unfolding name by (auto split: if_splits)
    then show "\<exists>w. users ?s v = Some w \<and> u_login_name w = m"
    proof
      assume v: "GetImUserByLoginName s m = Some v"
      show ?thesis by (rule core_by_name [OF inv v]) (use keep in blast)
    qed (simp add: new_user_def)
  qed
  show "core_user ident {} ?s v w" if "users ?s v = Some w" for v w
  proof (cases "v = ?u")
    case True
    with that have "w = new_user n" by simp
    then show ?thesis using True n(2) unfolding core_user_def name by (simp add: new_user_def)
  next
    case False
    with that have "core_user ident {} s v w" by (intro core_invD(3) [OF inv]) simp
    then show ?thesis by (rule core_user_transfer) (use n(1) in \<open>auto simp: id name simp del: fun_upd_apply\<close>)
  qed
qed

lemma core_add_pending:
  assumes inv: "core_inv ident {} s" and u: "users s u = Some usr" "c_login_name (conns s c) = u_login_name usr"
    and c: "c < next_conn s" "\<not> c_open (conns s c)"
  shows "core_inv ident {} (s\<lparr>users := (users s)(u \<mapsto> AddUnValidateMsgConn c usr)\<rparr>)"
  by (rule core_upd_user [OF inv u(1)])
    (use core_invD(3) [OF inv u(1)] u(2) c in \<open>auto simp: core_user_def AddUnValidateMsgConn_def\<close>)

lemma core_login_user:
  assumes inv: "core_inv ident {} s" and n: "n \<noteq> []" and us: "login_user n s = (u, s')"
  shows "core_inv ident {} s'" "\<exists>usr. users s' u = Some usr \<and> u_login_name usr = n"
    "conns s' = conns s" "next_conn s' = next_conn s"
proof -
  have "core_inv ident {} s' \<and> (\<exists>usr. users s' u = Some usr \<and> u_login_name usr = n) \<and> conns s' = conns s \<and> next_conn s' = next_conn s"
  proof (cases "GetImUserByLoginName s n")
    case None
    then have "u = next_user s" "s' = s\<lparr>users := (users s)(next_user s \<mapsto> new_user n), next_user := Suc (next_user s),
        user_map_by_name := (n, next_user s) # user_map_by_name s\<rparr>"
      using us by (auto simp: login_user_def AddImUserByLoginName_def GetImUserByLoginName_def)
    then show ?thesis using core_new_user [OF inv None n] by (simp add: new_user_def)
  next
    case (Some w)
    then have "u = w" "s' = s" using us by (simp_all add: login_user_def)
    with Some inv show ?thesis by (auto elim: core_by_name [OF inv])
  qed
  then show "core_inv ident {} s'" "\<exists>usr. users s' u = Some usr \<and> u_login_name usr = n"
    "conns s' = conns s" "next_conn s' = next_conn s" by simp_all
qed

lemma core_HandleLoginRequest:
  assumes inv: "core_inv ident {} s" and c: "c < next_conn s" and named: "named p"
  obtains s' where "HandleLoginRequest e c p s = Some s'" "core_inv ident {} s'"
proof -
  let ?refuse = "emit (ToClient c (mk_pdu SID_LOGIN CID_LOGIN_RES_USERLOGIN (p_seq p)
    (IMLoginRes (now e) (login_refusal e) server_exception None None))) s"
  consider "c_login_name (conns s c) \<noteq> []" | "c_login_name (conns s c) = []" "login_refusal e \<noteq> 0"
    | n pw st v t where "c_login_name (conns s c) = []" "login_refusal e = 0" "p_body p = IMLoginReq n pw st v t"
    | "c_login_name (conns s c) = []" "login_refusal e = 0" "\<forall>n pw st v t. p_body p \<noteq> IMLoginReq n pw st v t"
    by blast
  then show ?thesis
  proof cases
    case 1
    then show ?thesis using inv by (intro that [of s]) (simp_all add: HandleLoginRequest_def)
  next
    case 2
    obtain s' where "Close c ?refuse = Some s'" "core_inv ident {} s'" by (rule core_Close [OF core_emit [OF inv]])
    with 2 show ?thesis by (intro that [of s']) (simp_all add: HandleLoginRequest_def)
  next
    case 4
    then show ?thesis using inv
      by (intro that [of s]) (cases "p_body p"; simp add: HandleLoginRequest_def)+
  next
    case (3 n pw st v t)
    have n: "n \<noteq> []" using named 3(3) by (simp add: named_def)
    define f where "f = (\<lambda>m :: msg_conn. m\<lparr>c_login_name := n, c_client_version := v, c_client_type := t,
      c_online_status := (if st < USER_STATUS_ONLINE \<or> st > USER_STATUS_LEAVE then USER_STATUS_ONLINE else st)\<rparr>)"
    define s1 where "s1 = upd_conn c f s"
    have inv1: "core_inv ident {} s1" unfolding s1_def by (rule core_name_conn [OF inv 3(1)]) (simp_all add: f_def)
    have c1: "c < next_conn s1" "\<not> c_open (conns s1 c)" "c_login_name (conns s1 c) = n"
      using c core_open_name [OF inv, of c] 3(1) by (auto simp: s1_def upd_conn_def f_def)
    obtain u s2 where us: "login_user n s1 = (u, s2)" by (cases "login_user n s1")
    note u = core_login_user [OF inv1 n us]
    obtain usr where usr: "users s2 u = Some usr" "u_login_name usr = n" using u(2) by blast
    let ?s3 = "s2\<lparr>users := (users s2)(u \<mapsto> AddUnValidateMsgConn c usr)\<rparr>"
    have "core_inv ident {} ?s3" by (rule core_add_pending [OF u(1) usr(1)]) (use c1 u(3,4) usr in auto)
    then have "core_inv ident {} (to_db (db_for_login e) (mk_pdu SID_OTHER CID_OTHER_VALIDATE_REQ (p_seq p)
      (IMValidateReq n pw (AttHandle (c_handle (conns ?s3 c))))) ?s3)" by (rule core_to_db)
    moreover have "HandleLoginRequest e c p s = (let (u, s) = login_user n s1 in
        upd_user u (AddUnValidateMsgConn c) s \<bind> (\<lambda>s. Some (to_db (db_for_login e)
          (mk_pdu SID_OTHER CID_OTHER_VALIDATE_REQ (p_seq p) (IMValidateReq n pw (AttHandle (c_handle (conns s c))))) s)))"
      using 3 by (simp add: HandleLoginRequest_def s1_def f_def Let_def)
    then have "HandleLoginRequest e c p s = Some (to_db (db_for_login e) (mk_pdu SID_OTHER CID_OTHER_VALIDATE_REQ (p_seq p)
      (IMValidateReq n pw (AttHandle (c_handle (conns ?s3 c))))) ?s3)"
      using us usr(1) by (simp add: upd_user_def)
    ultimately show ?thesis by (intro that)
  qed
qed

section \<open>Validated logins\<close>

lemma core_attach:
  assumes inv: "core_inv ident {} s" and v: "users s v = Some vusr"
    and c: "c < next_conn s" "\<not> c_open (conns s c)" "c_login_name (conns s c) \<noteq> []"
    and free: "\<And>w wusr. users s w = Some wusr \<Longrightarrow> c \<notin> set (u_unvalidate_conn_set wusr)"
    and takes: "takes_id ident i vusr s"
  shows "core_inv ident {} (attach i nick v vusr c s)" (is "core_inv _ _ ?s")
proof (rule core_invI)
  let ?h = "c_handle (conns s c)"
  let ?v = "vusr\<lparr>u_user_id := i, u_nick_name := nick, u_validate := True, u_conn_map := map_put ?h c (u_conn_map vusr)\<rparr>"
  have vok: "core_user ident {} s v vusr" by (rule core_invD(3) [OF inv v])
  have okm: "map_ok (user_map s)" using core_invD(2) [OF inv] by (simp add: core_tables_def)
  have okc: "map_ok (u_conn_map vusr)" using vok by (simp add: core_user_def)
  have key: "c_handle (conns ?s k) = c_handle (conns s k)" "c_login_name (conns ?s k) = c_login_name (conns s k)"
    "k \<noteq> c \<Longrightarrow> conns ?s k = conns s k" "c_open (conns ?s c)" "c_user_id (conns ?s c) = i" for k
    by (simp_all add: attach_def)
  have id: "GetImUserById ?s j = (if j = i then Some v else GetImUserById s j)" for j
    by (simp add: GetImUserById_def attach_def smap.find_put [OF okm])
  have name: "GetImUserByLoginName ?s n = GetImUserByLoginName s n" for n by (simp add: GetImUserByLoginName_def attach_def)
  have usr: "users ?s w = (if w = v then Some ?v else users s w)" for w by (simp add: attach_def)
  have cm: "map_find (map_put ?h c (u_conn_map vusr)) = (map_find (u_conn_map vusr))(?h \<mapsto> c)"
    by (rule smap.find_put [OF okc])
  have nxt: "next_conn ?s = next_conn s" "next_user ?s = next_user s" by (simp_all add: attach_def)
  have i0: "i \<noteq> 0" using takes by (simp add: takes_id_def)
  have owner: "w = v" if "GetImUserById s i = Some w" for w
    using takes that core_user_id [OF vok] i0 by (auto simp: takes_id_def)
  have idv: "u_user_id vusr = i \<or> u_user_id vusr = 0 \<and> u_conn_map vusr = []"
    using takes vok by (auto simp: takes_id_def core_user_def)
  have idv': "j = i" if "GetImUserById s j = Some v" for j
    using core_by_id [OF inv that] v idv by auto
  have ident: "ident (u_login_name vusr) = i"
    using takes vok by (auto simp: takes_id_def core_user_def split: if_splits)
  show "core_conns ?s"
    using core_invD(1) [OF inv] c unfolding core_conns_def by (auto simp: attach_def)
  show "core_tables ?s"
    unfolding core_tables_def
  proof (intro conjI allI impI)
    show "map_ok (user_map ?s)" by (simp add: attach_def map_put_ok [OF okm])
    show "distinct (map fst (user_map_by_name ?s))" using core_invD(2) [OF inv] by (simp add: attach_def core_tables_def)
  next
    fix j w assume "GetImUserById ?s j = Some w"
    then have "j = i \<and> w = v \<or> j \<noteq> i \<and> GetImUserById s j = Some w" by (auto simp: id split: if_splits)
    then have "j \<noteq> 0 \<and> (\<exists>x. users ?s w = Some x \<and> u_user_id x = j)"
    proof
      assume j: "j \<noteq> i \<and> GetImUserById s j = Some w"
      then have "w \<noteq> v" using idv' by auto
      with j show ?thesis using core_by_id [OF inv, of j w] by (auto simp: usr)
    qed (simp add: usr i0)
    then show "j \<noteq> 0" "\<exists>x. users ?s w = Some x \<and> u_user_id x = j" by simp_all
  next
    fix n w assume "GetImUserByLoginName ?s n = Some w"
    then have w: "GetImUserByLoginName s n = Some w" by (simp add: name)
    show "\<exists>x. users ?s w = Some x \<and> u_login_name x = n"
      by (rule core_by_name [OF inv w]) (use v in \<open>auto simp: usr\<close>)
  qed
  have new: "core_user ident {} ?s v ?v"
    unfolding core_user_def
  proof (intro conjI allI impI ballI)
    fix h k assume "map_find (u_conn_map ?v) h = Some k"
    then have "h = ?h \<and> k = c \<or> map_find (u_conn_map vusr) h = Some k" by (auto simp: cm split: if_splits)
    then have "k < next_conn s \<and> c_handle (conns s k) = h \<and> c_open (conns ?s k) \<and> c_user_id (conns ?s k) = i"
    proof
      assume h: "map_find (u_conn_map vusr) h = Some k"
      then have "k \<noteq> c" using core_user_conn(3) [OF vok h] c(2) by auto
      with core_user_conn [OF vok h] idv h show ?thesis by (auto simp: key)
    qed (simp add: c(1) key)
    then show "k < next_conn ?s" "c_handle (conns ?s k) = h" "c_open (conns ?s k)" "c_user_id (conns ?s k) = u_user_id ?v"
      by (simp_all add: key nxt)
  next
    fix k assume "k \<in> set (u_unvalidate_conn_set ?v)"
    then have k: "k \<in> set (u_unvalidate_conn_set vusr)" by simp
    then have "k \<noteq> c" using free [OF v] by auto
    with core_user_pending [OF vok k] show "k < next_conn ?s" "\<not> c_open (conns ?s k)" "c_login_name (conns ?s k) = u_login_name ?v"
      by (simp_all add: key nxt)
  qed (use vok in \<open>auto simp: core_user_def name id map_put_ok [OF okc] ident i0 nxt split: if_splits\<close>,
      use set_map_put [OF okc, of ?h c] in auto)
  show "core_user ident {} ?s w x" if x: "users ?s w = Some x" for w x
  proof (cases "w = v")
    case True
    with x new show ?thesis by (simp add: usr)
  next
    case False
    with x have wx: "users s w = Some x" by (simp add: usr)
    show ?thesis
    proof (rule core_user_transfer [OF core_invD(3) [OF inv wx]])
      fix k assume "k < next_conn s" "c_open (conns s k) \<or> k \<in> set (u_unvalidate_conn_set x)"
      then have "k \<noteq> c" using free [OF wx] c(2) by auto
      then show "conn_key (conns ?s k) = conn_key (conns s k)" by (simp add: key(3))
    qed (use False owner in \<open>auto simp: id name nxt\<close>)
  qed
qed

definition core_adopted :: "(string \<Rightarrow> uid) \<Rightarrow> uid \<Rightarrow> nat \<Rightarrow> server \<Rightarrow> nat \<Rightarrow> server \<Rightarrow> im_user \<Rightarrow> bool" where
  "core_adopted ident i c s v t vusr \<longleftrightarrow> core_inv ident {} t \<and> next_conn t = next_conn s \<and> conns t = conns s \<and> users t v = Some vusr \<and>
     (\<forall>w wusr. users t w = Some wusr \<longrightarrow> c \<notin> set (u_unvalidate_conn_set wusr)) \<and> takes_id ident i vusr t"

lemma core_pending_owner:
  assumes inv: "core_inv ident X s" and "users s u = Some usr" "users s v = Some w"
    "c \<in> set (u_unvalidate_conn_set usr)" "c \<in> set (u_unvalidate_conn_set w)"
  shows "v = u"
  using core_user_pending(3) [OF core_invD(3) [OF inv assms(2)] assms(4)] core_user_pending(3) [OF core_invD(3) [OF inv assms(3)] assms(5)]
    core_user_name [OF core_invD(3) [OF inv assms(2)]] core_user_name [OF core_invD(3) [OF inv assms(3)]] by simp

lemma core_adopt_conn:
  assumes inv: "core_inv ident {} s" and u: "users s u = Some usr" "u_login_name usr = name"
    and c: "c \<in> set (u_unvalidate_conn_set usr)" and i: "i = ident name" "i \<noteq> 0"
  obtains v t vusr xs where
    "adopt_conn u c name i s = Some (v, t\<lparr>users := (users t)(v \<mapsto> vusr\<lparr>u_unvalidate_conn_set := xs\<rparr>)\<rparr>)"
    "set_erase c xs = u_unvalidate_conn_set vusr" "core_adopted ident i c s v t vusr"
proof -
  have uok: "core_user ident {} s u usr" by (rule core_invD(3) [OF inv u(1)])
  let ?usr = "DelUnValidateMsgConn c usr"
  let ?t = "s\<lparr>users := (users s)(u \<mapsto> ?usr)\<rparr>"
  have invt: "core_inv ident {} ?t" by (rule core_drop_pending [OF inv u(1)])
  have free: "c \<notin> set (u_unvalidate_conn_set w)" if "users ?t v = Some w" for v w
    using that core_pending_owner [OF inv u(1) _ c, of v w] by (auto simp: DelUnValidateMsgConn_def split: if_splits)
  have idu: "u_user_id usr = 0 \<or> u_user_id usr = i \<and> GetImUserById s i = Some u"
    using uok u(2) i by (auto simp: core_user_def split: if_splits)
  show ?thesis
  proof (cases "GetImUserById s i")
    case None
    have "takes_id ident i ?usr ?t"
      using None idu i u(2) by (auto simp: takes_id_def DelUnValidateMsgConn_def GetImUserById_def)
    then have "core_adopted ident i c s u ?t ?usr" using invt free by (auto simp: core_adopted_def)
    moreover have "adopt_conn u c name i s = Some (u, ?t\<lparr>users := (users ?t)(u \<mapsto> ?usr\<lparr>u_unvalidate_conn_set := u_unvalidate_conn_set usr\<rparr>)\<rparr>)"
      using None u(1) by (simp add: adopt_conn_def DelUnValidateMsgConn_def fun_upd_idem)
    ultimately show ?thesis
      by (intro that [where v = u and t = ?t and vusr = ?usr and xs = "u_unvalidate_conn_set usr"])
        (simp_all add: DelUnValidateMsgConn_def)
  next
    case (Some v)
    obtain vusr where v: "users s v = Some vusr" "u_user_id vusr = i" by (rule core_by_id [OF inv Some])
    show ?thesis
    proof (cases "v = u")
      case True
      with v u have eq: "vusr = usr" by simp
      have ne: "u_conn_map usr \<noteq> []" using uok v(2) i(2) eq by (auto simp: core_user_def split: if_splits)
      have put: "set_put c (u_unvalidate_conn_set usr) = u_unvalidate_conn_set usr" using c by (simp add: set_put_def)
      have "takes_id ident i ?usr ?t" using v(2) eq i by (simp add: takes_id_def DelUnValidateMsgConn_def)
      then have "core_adopted ident i c s u ?t ?usr" using invt free by (auto simp: core_adopted_def)
      moreover have "adopt_conn u c name i s = Some (u, ?t\<lparr>users := (users ?t)(u \<mapsto> ?usr\<lparr>u_unvalidate_conn_set :=
          set_erase c (u_unvalidate_conn_set usr)\<rparr>)\<rparr>)"
        using Some True u(1) ne
        by (simp add: adopt_conn_def upd_user_def AddUnValidateMsgConn_def DelUnValidateMsgConn_def IsMsgConnEmpty_def put)
      ultimately show ?thesis
        by (intro that [where v = u and t = ?t and vusr = ?usr and xs = "set_erase c (u_unvalidate_conn_set usr)"])
          (simp_all add: DelUnValidateMsgConn_def set_erase_twice)
    next
      case False
      have id0: "u_user_id usr = 0" using idu Some False by auto
      have empty: "u_conn_map usr = []" using uok id0 by (simp add: core_user_def)
      let ?t2 = "without_user u ?usr ?t"
      have "users ?t u = Some ?usr" by simp
      then have inv2: "core_inv ident {} ?t2" using core_without_user [OF invt] by fastforce
      have vt: "users ?t2 v = Some vusr" using v(1) False by (simp add: without_user_def)
      moreover have "c \<notin> set (u_unvalidate_conn_set w)" if "users ?t2 k = Some w" for k w
        using free [of k w] that by (simp add: without_user_def split: if_splits)
      moreover have "takes_id ident i vusr ?t2" using v(2) i by (simp add: takes_id_def)
      ultimately have ad: "core_adopted ident i c s v ?t2 vusr" using inv2 by (auto simp: core_adopted_def without_user_def)
      have cv: "c \<notin> set (u_unvalidate_conn_set vusr)" using ad vt by (auto simp: core_adopted_def)
      have "map_erase 0 (user_map s) = user_map s"
        using core_no_zero [OF inv] by (intro map_erase_absent) (simp add: GetImUserById_def)
      then have "adopt_conn u c name i s = Some (v, ?t2\<lparr>users := (users ?t2)(v \<mapsto> vusr\<lparr>u_unvalidate_conn_set :=
          set_put c (u_unvalidate_conn_set vusr)\<rparr>)\<rparr>)"
        using Some False u v empty id0
        by (simp add: adopt_conn_def upd_user_def AddUnValidateMsgConn_def DelUnValidateMsgConn_def IsMsgConnEmpty_def
            delete_user_def RemoveImUserByLoginName_def without_user_def fun_upd_twist)
      with ad show ?thesis
        by (intro that [where v = v and t = ?t2 and vusr = vusr and xs = "set_put c (u_unvalidate_conn_set vusr)"])
          (simp_all add: set_erase_put cv)
    qed
  qed
qed

lemma core_takes_id_add:
  assumes inv: "core_inv ident X s" "users s v = Some vusr" and takes: "takes_id ident i vusr s" and same: "user_map s' = user_map s"
  shows "user_map (snd (AddImUserById i v s')) = map_put i v (user_map s')"
proof (cases "u_user_id vusr = i")
  case True
  then have "map_find (user_map s) i = Some v"
    using takes core_user_id [OF core_invD(3) [OF inv]] by (simp add: takes_id_def GetImUserById_def)
  moreover have "map_ok (user_map s)" using core_invD(2) [OF inv(1)] by (simp add: core_tables_def)
  ultimately show ?thesis using same by (simp add: AddImUserById_def GetImUserById_def map_put_same)
next
  case False
  with takes same show ?thesis by (simp add: AddImUserById_def GetImUserById_def takes_id_def)
qed

lemma core_login_success:
  assumes inv: "core_inv ident {} s" and u: "users s u = Some usr" "u_login_name usr = name"
    and c: "c \<in> set (u_unvalidate_conn_set usr)" and i: "ui_user_id info = ident name" "ident name \<noteq> 0"
  obtains s' where "login_success e seq u c name rs info s = Some s'" "core_inv ident {} s'"
proof -
  let ?i = "ui_user_id info"
  have cs: "c < next_conn s" "\<not> c_open (conns s c)" "c_login_name (conns s c) \<noteq> []"
    using core_user_pending [OF core_invD(3) [OF inv u(1)] c] core_user_name [OF core_invD(3) [OF inv u(1)]] by simp_all
  obtain v t vusr xs where run1: "adopt_conn u c name ?i s = Some (v, t\<lparr>users := (users t)(v \<mapsto> vusr\<lparr>u_unvalidate_conn_set := xs\<rparr>)\<rparr>)"
    and xs: "set_erase c xs = u_unvalidate_conn_set vusr" and ad: "core_adopted ident ?i c s v t vusr"
    by (rule core_adopt_conn [OF inv u c i(1)]) (use i in auto)
  have t: "core_inv ident {} t" "conns t = conns s" "next_conn t = next_conn s" "users t v = Some vusr" "takes_id ident ?i vusr t"
    and free: "\<And>w wusr. users t w = Some wusr \<Longrightarrow> c \<notin> set (u_unvalidate_conn_set wusr)"
    using ad by (auto simp: core_adopted_def)
  define w where "w = vusr\<lparr>u_unvalidate_conn_set := xs, u_user_id := ?i, u_nick_name := ui_nick_name info, u_validate := True\<rparr>"
  define t1 where "t1 = t\<lparr>users := (users t)(v \<mapsto> w)\<rparr>"
  define t2 where "t2 = snd (AddImUserById ?i v t1)"
  have run2: "login_success e seq u c name rs info s = login_tail e seq c rs info v t2"
    unfolding login_success_tail run1 by (simp add: upd_user_def t2_def t1_def w_def)
  have um: "user_map t2 = map_put ?i v (user_map t)"
    unfolding t2_def using core_takes_id_add [OF t(1,4,5), of t1] by (simp add: t1_def)
  have "map_ok (user_map t)" using core_invD(2) [OF t(1)] by (simp add: core_tables_def)
  then have idv: "GetImUserById t2 ?i = Some v" by (simp add: GetImUserById_def um smap.find_put)
  have wv: "users t2 v = Some w" by (simp add: t2_def t1_def)
  obtain s' where s': "login_tail e seq c rs info v t2 = Some s'"
    "users s' = (users t2)(v \<mapsto> ValidateMsgConn (c_handle (conns t2 c)) c w)" "user_map s' = user_map t2"
    "user_map_by_name s' = user_map_by_name t2" "msg_conn_map s' = msg_conn_map t2" "next_conn s' = next_conn t2" "next_user s' = next_user t2"
    "\<And>k. conn_key (conns s' k) = (if k = c then conn_key ((conns t2 c)\<lparr>c_user_id := ?i, c_open := True\<rparr>) else conn_key (conns t2 k))"
    "announced USER_CNT_INC s' = announced USER_CNT_INC t2 + 1" "announced USER_CNT_DEC s' = announced USER_CNT_DEC t2"
    by (rule login_tail_ok [OF wv idv, where e = e and seq = seq and c = c and rs = rs]) (rule that)
  let ?a = "attach ?i (ui_nick_name info) v vusr c t"
  have "core_inv ident {} ?a"
    by (rule core_attach [OF t(1,4)]) (use cs t(2,3,5) free in auto)
  then have "core_inv ident {} s'"
  proof (rule core_same_tables)
    show "users s' = users ?a"
      by (simp add: s'(2) attach_def t2_def t1_def w_def ValidateMsgConn_def DelUnValidateMsgConn_def AddMsgConn_def xs)
    show "conn_key (conns s' k) = conn_key (conns ?a k)" for k
      by (simp add: s'(8) attach_def t2_def t1_def)
  qed (simp_all add: s' um, simp_all add: attach_def t2_def t1_def)
  with s'(1) run2 that show ?thesis by simp
qed

lemma core_HandleValidateResponse:
  assumes inv: "core_inv ident {} s" and honest: "honest ident p"
  obtains s' where "HandleValidateResponse e p s = Some s'" "core_inv ident {} s'"
proof (cases "\<exists>name result rs info a u usr c. p_body p = IMValidateRsp name result rs info a \<and>
    GetImUserByLoginName s name = Some u \<and> users s u = Some usr \<and> GetUnValidateMsgConn s usr (att_handle e a) = Some c \<and> \<not> c_open (conns s c)")
  case True
  then obtain name result rs info a u usr c where p: "p_body p = IMValidateRsp name result rs info a"
    and u: "GetImUserByLoginName s name = Some u" "users s u = Some usr"
    and c: "GetUnValidateMsgConn s usr (att_handle e a) = Some c" "\<not> c_open (conns s c)" by blast
  have cu: "c \<in> set (u_unvalidate_conn_set usr)" using c(1) by (auto simp: GetUnValidateMsgConn_def find_Some_iff)
  have name: "u_login_name usr = name" using core_by_name [OF inv u(1)] u(2) by auto
  show ?thesis
  proof (cases "result = 0")
    case True
    obtain s' where "login_success e (p_seq p) u c name rs info s = Some s'" "core_inv ident {} s'"
      by (rule core_login_success [OF inv u(2) name cu]) (use honest p True in \<open>auto simp: honest_def\<close>)
    with p u c True show ?thesis by (intro that [of s']) (simp_all add: HandleValidateResponse_def)
  next
    case False
    obtain s' where "Close c (emit (ToClient c (mk_pdu SID_LOGIN CID_LOGIN_RES_USERLOGIN (p_seq p)
        (IMLoginRes (now e) REFUSE_REASON_DB_VALIDATE_FAILED rs None None))) s) = Some s'" "core_inv ident {} s'"
      by (rule core_Close [OF core_emit [OF inv]])
    with p u c False show ?thesis by (intro that [of s']) (simp_all add: HandleValidateResponse_def)
  qed
next
  case False
  have "HandleValidateResponse e p s = Some s"
  proof (cases "p_body p")
    case (IMValidateRsp name result rs info a)
    show ?thesis
    proof (cases "GetImUserByLoginName s name")
      case (Some u)
      obtain usr where "users s u = Some usr" by (rule core_by_name [OF inv Some])
      with False IMValidateRsp Some show ?thesis
        by (auto simp: HandleValidateResponse_def split: option.split)
    qed (simp add: HandleValidateResponse_def IMValidateRsp)
  qed (simp_all add: HandleValidateResponse_def)
  then show ?thesis using inv by (intro that)
qed

section \<open>Every step\<close>

lemma core_OnTimer:
  assumes inv: "core_inv ident {} s"
  obtains s' where "OnTimer t c s = Some s'" "core_inv ident {} s'"
proof -
  define s1 where "s1 = upd_conn c (\<lambda>m. m\<lparr>c_msg_cnt_per_sec := 0\<rparr>) s"
  have "quiet conn_key (\<lambda>x. True) s s1" unfolding s1_def by (rule quiet_upd_conn) (simp_all add: conn_key_def)
  then have inv1: "core_inv ident {} s1" by (rule core_quiet [OF inv])
  show ?thesis
  proof (cases "conn_timed_out t (conns s1 c)")
    case True
    obtain s' where "Close c s1 = Some s'" "core_inv ident {} s'" by (rule core_Close [OF inv1])
    with True show ?thesis by (intro that [of s']) (simp_all add: OnTimer_def Let_def s1_def [symmetric])
  next
    case False
    obtain n acks where pa: "purge_acks t (c_send_msg_list (conns s1 c)) = (n, acks)" by (cases "purge_acks t (c_send_msg_list (conns s1 c))")
    define s2 where "s2 = upd_conn c (\<lambda>m. m\<lparr>c_send_msg_list := acks\<rparr>) s1"
    define s3 where "s3 = s2\<lparr>down_msg_miss_cnt := down_msg_miss_cnt s2 + of_nat n\<rparr>"
    have "quiet conn_key (\<lambda>x. True) s1 s2" unfolding s2_def by (rule quiet_upd_conn) (simp_all add: conn_key_def)
    then have "quiet conn_key (\<lambda>x. True) s1 s3" by (simp add: quiet_def s3_def)
    then have "core_inv ident {} s3" by (rule core_quiet [OF inv1])
    moreover have "OnTimer t c s = Some s3" using False pa by (simp add: OnTimer_def Let_def s1_def [symmetric] s2_def s3_def)
    ultimately show ?thesis by (intro that [of s3])
  qed
qed

lemma core_timer_each: "core_inv ident {} s \<Longrightarrow> \<exists>s'. timer_each t cs s = Some s' \<and> core_inv ident {} s'"
proof (induction cs arbitrary: s)
  case (Cons x cs)
  obtain h c where x: "x = (h, c)" by (cases x)
  obtain s1 where "OnTimer t c s = Some s1" "core_inv ident {} s1" by (rule core_OnTimer [OF Cons.prems])
  then show ?case using Cons.IH by (simp add: x)
qed simp

lemma core_dispatch:
  assumes inv: "core_inv ident {} s" and c: "c < next_conn s" and named: "named p"
  shows "\<exists>s'. dispatch (p_cid p) e c p s = Some s' \<and> core_inv ident {} s'"
proof -
  have ids: "ids_live s" by (rule core_ids_live [OF inv])
  have quiet: ?thesis if q: "ok_quiet K P s (dispatch (p_cid p) e c p s)" and K: "\<And>m. conn_key m = f (K m)"
    for K :: "msg_conn \<Rightarrow> 'z" and P f
  proof -
    obtain s' where s': "dispatch (p_cid p) e c p s = Some s'" "quiet K P s s'" using q by (auto simp: ok_quiet_def)
    have "quiet (\<lambda>m. f (K m)) P s s'" by (rule quiet_mono [OF s'(2)])
    moreover have "conn_key = (\<lambda>m. f (K m))" using K by (simp add: fun_eq_iff)
    ultimately show ?thesis using s'(1) core_quiet [OF inv] by simp
  qed
  consider "p_cid p = CID_LOGIN_REQ_USERLOGIN" | "p_cid p = CID_LOGIN_REQ_LOGINOUT" | "p_cid p = CID_MSG_DATA"
    | "p_cid p = CID_LOGIN_REQ_KICKPCCLIENT"
    | "p_cid p \<notin> {CID_LOGIN_REQ_USERLOGIN, CID_LOGIN_REQ_LOGINOUT, CID_LOGIN_REQ_KICKPCCLIENT, CID_MSG_DATA}" by auto
  then show ?thesis
  proof cases
    case 1
    then have "dispatch (p_cid p) = HandleLoginRequest" by (simp add: dispatch_def)
    then show ?thesis using core_HandleLoginRequest [OF inv c named] by metis
  next
    case 2
    let ?s = "emit (ToClient c (mk_pdu SID_LOGIN CID_LOGIN_RES_LOGINOUT (p_seq p) (IMLogoutRsp 0)))
      (to_db (db_other e) (mk_pdu SID_LOGIN CID_LOGIN_REQ_DEVICETOKEN (p_seq p) (IMDeviceTokenReq (c_user_id (conns s c)) [] None)) s)"
    obtain s' where "Close c ?s = Some s'" "core_inv ident {} s'" by (rule core_Close [OF core_emit [OF core_to_db [OF inv]]])
    moreover have "dispatch (p_cid p) e c p s = Close c ?s" using 2 by (simp add: dispatch_def HandleLoginOutRequest_def Let_def)
    ultimately show ?thesis by auto
  next
    case 3
    then have "dispatch (p_cid p) = HandleClientMsgData" by (simp add: dispatch_def)
    then show ?thesis using quiet [of conn_key _ "\<lambda>k. k"] HandleClientMsgData_quiet [of s c e p] by simp
  next
    case 4
    then have "dispatch (p_cid p) = HandleKickPCClient" by (simp add: dispatch_def)
    then show ?thesis using quiet [of "\<lambda>m. (conn_key m, c_msg_cnt_per_sec m)" _ fst] HandleKickPCClient_quiet [OF ids, of c e p] by simp
  next
    case 5
    show ?thesis by (rule quiet [OF dispatch_quiet [OF ids 5], of fst]) (simp add: conn_core_def)
  qed
qed

lemma core_client:
  assumes inv: "core_inv ident {} s" and c: "c < next_conn s" and named: "named p"
  obtains s' where "on_client_pdu e c p s = Some s'" "core_inv ident {} s'"
proof (cases "p_cid p \<noteq> CID_LOGIN_REQ_USERLOGIN \<and> \<not> c_open (conns s c) \<and> c_kick_off (conns s c)")
  case True
  then show ?thesis using core_Close [OF inv, of c] that by (auto simp: on_client_pdu_def HandlePdu_def)
next
  case False
  then show ?thesis using core_dispatch [OF inv c named, of e] that by (auto simp: on_client_pdu_def HandlePdu_def)
qed

lemma core_database:
  assumes inv: "core_inv ident {} s" and honest: "honest ident p"
  obtains s' where "HandleDbPdu d e p s = Some s'" "core_inv ident {} s'"
proof (cases "p_cid p = CID_OTHER_VALIDATE_RSP")
  case True
  then have "HandleDbPdu d e p s = HandleValidateResponse e p s" by (simp add: HandleDbPdu_def db_dispatch_def)
  then show ?thesis using core_HandleValidateResponse [OF inv honest] that by metis
next
  case False
  have "ok_quiet conn_key (\<lambda>x. \<not> announces x) s (HandleDbPdu d e p s)"
    using ok_quiet_mono [OF db_dispatch_quiet [OF core_ids_live [OF inv] False, of d e p], of "\<lambda>x. \<not> announces x" fst]
    by (simp add: conn_core_def db_out_def HandleDbPdu_def)
  then show ?thesis using core_quiet [OF inv] that by (auto simp: ok_quiet_def)
qed

text \<open>No handler creates or forgets a connection object.\<close>

lemma upd_user_next: "upd_user u f s = Some s' \<Longrightarrow> next_conn s' = next_conn s"
  by (auto simp: upd_user_def)

lemma RemoveIfEmpty_next: "RemoveIfEmpty u s = Some s' \<Longrightarrow> next_conn s' = next_conn s"
  by (auto simp: RemoveIfEmpty_def RemoveImUser_def RemoveImUserByLoginName_def RemoveImUserById_def delete_user_def
      bind_eq_Some_conv split: option.splits if_splits)

lemma SendUserStatusUpdate_next: "SendUserStatusUpdate c st s = Some s' \<Longrightarrow> next_conn s' = next_conn s"
  by (auto simp: SendUserStatusUpdate_def Let_def bind_eq_Some_conv split: option.splits if_splits)

lemma Close_next: "Close c s = Some s' \<Longrightarrow> next_conn s' = next_conn s"
  by (auto simp: Close_def Let_def bind_eq_Some_conv split: option.splits if_splits
      dest!: RemoveIfEmpty_next SendUserStatusUpdate_next upd_user_next)

lemma login_user_next: "login_user n s = (u, s') \<Longrightarrow> next_conn s' = next_conn s"
  by (auto simp: login_user_def AddImUserByLoginName_def split: option.splits if_splits)

lemma HandleLoginRequest_next:
  assumes "HandleLoginRequest e c p s = Some s'"
  shows "next_conn s' = next_conn s"
proof (cases "c_login_name (conns s c) = [] \<and> login_refusal e = 0 \<and> (\<exists>n pw st v t. p_body p = IMLoginReq n pw st v t)")
  case True
  then obtain n pw st v t where "c_login_name (conns s c) = []" "login_refusal e = 0" "p_body p = IMLoginReq n pw st v t" by blast
  with assms show ?thesis
    by (auto simp: HandleLoginRequest_def Let_def bind_eq_Some_conv to_db_def upd_conn_def split: prod.splits option.splits
        dest!: upd_user_next login_user_next)
next
  case False
  with assms show ?thesis
    by (cases "p_body p") (auto simp: HandleLoginRequest_def split: if_splits dest!: Close_next)
qed

lemma ok_quiet_next: "ok_quiet K P s r \<Longrightarrow> r = Some s' \<Longrightarrow> next_conn s' = next_conn s"
  by (auto simp: ok_quiet_def quiet_def)

lemma dispatch_next:
  assumes ids: "ids_live s" and run: "dispatch (p_cid p) e c p s = Some s'"
  shows "next_conn s' = next_conn s"
proof -
  consider "p_cid p = CID_LOGIN_REQ_USERLOGIN" | "p_cid p = CID_LOGIN_REQ_LOGINOUT" | "p_cid p = CID_MSG_DATA"
    | "p_cid p = CID_LOGIN_REQ_KICKPCCLIENT"
    | "p_cid p \<notin> {CID_LOGIN_REQ_USERLOGIN, CID_LOGIN_REQ_LOGINOUT, CID_LOGIN_REQ_KICKPCCLIENT, CID_MSG_DATA}" by auto
  then show ?thesis
  proof cases
    case 1
    with run show ?thesis by (intro HandleLoginRequest_next [of e c p]) (simp add: dispatch_def)
  next
    case 2
    with run show ?thesis
      by (auto simp: dispatch_def HandleLoginOutRequest_def Let_def to_db_def split: option.splits dest!: Close_next)
  next
    case 3
    with run show ?thesis by (intro ok_quiet_next [OF HandleClientMsgData_quiet [of s c e p]]) (simp add: dispatch_def)
  next
    case 4
    with run show ?thesis by (intro ok_quiet_next [OF HandleKickPCClient_quiet [OF ids, of c e p]]) (simp add: dispatch_def)
  next
    case 5
    show ?thesis by (rule ok_quiet_next [OF dispatch_quiet [OF ids 5] run])
  qed
qed

lemma client_next: "ids_live s \<Longrightarrow> on_client_pdu e c p s = Some s' \<Longrightarrow> next_conn s' = next_conn s"
  by (auto simp: on_client_pdu_cases HandlePdu_def split: if_splits option.splits dest!: Close_next dispatch_next)

lemma on_read_Cons:
  "on_read c ((e, Some p) # ps) s = on_client_pdu e c p s \<and> (\<exists>x. HandlePdu e c p s = Some (Inl x)) \<or>
   on_read c ((e, Some p) # ps) s = on_client_pdu e c p s \<bind> on_read c ps"
  by (auto simp: on_read_Some on_client_pdu_cases split: option.splits sum.splits)

lemma core_read:
  assumes "core_inv ident {} s" "c < next_conn s" "\<forall>e p. (e, Some p) \<in> set ps \<longrightarrow> named p"
  shows "\<exists>s'. on_read c ps s = Some s' \<and> core_inv ident {} s'"
  using assms
proof (induction ps arbitrary: s)
  case (Cons x ps)
  obtain e q where x: "x = (e, q)" by (cases x)
  show ?case
  proof (cases q)
    case None
    obtain s' where "Close c s = Some s'" "core_inv ident {} s'" by (rule core_Close [OF Cons.prems(1)])
    then show ?thesis by (simp add: x None)
  next
    case (Some p)
    have "named p" using Cons.prems(3) by (simp add: x Some)
    then obtain s1 where s1: "on_client_pdu e c p s = Some s1" "core_inv ident {} s1"
      using core_client [OF Cons.prems(1,2)] by blast
    have "c < next_conn s1" using client_next [OF core_ids_live [OF Cons.prems(1)] s1(1)] Cons.prems(2) by simp
    then obtain s2 where "on_read c ps s1 = Some s2" "core_inv ident {} s2" using Cons.IH [OF s1(2)] Cons.prems(3) by auto
    then show ?thesis using on_read_Cons [of c e p ps s] s1 by (auto simp: x Some)
  qed
qed simp

lemma core_step: "srv_step ident reads s r \<Longrightarrow> core_inv ident {} s \<Longrightarrow> \<exists>s'. r = Some s' \<and> core_inv ident {} s'"
proof (induction rule: srv_step.induct)
  case (connect s h e ctype)
  then show ?case using core_OnConnect by blast
next
  case (client s c ps)
  then show ?case using core_read by (simp add: live_def)
next
  case (database p s d e)
  then show ?case using core_database by metis
next
  case (timer order s t)
  then show ?case using core_timer_each by (simp add: msg_conn_timer_callback_def)
next
  case (peer_close s c)
  then show ?case using core_Close by metis
qed

lemma reachable_core: "reachable ident s \<Longrightarrow> core_inv ident {} s"
proof (induction rule: reachable.induct)
  case start
  show ?case
    by (simp add: core_inv_def core_conns_def core_tables_def init_server_def new_conn_def GetImUserById_def GetImUserByLoginName_def)
next
  case (step s s')
  then show ?case using core_step by blast
qed

lemma reachable_ids: "reachable ident s \<Longrightarrow> ids_live s"
  by (rule core_ids_live [OF reachable_core])

end
