(* ===== verification/Msg_Props.thy ===== *)
theory Msg_Props
  imports Msg_Reads
begin

text \<open>
  Properties of the message server: what holds in every reachable state, what a packet of a client
  can make the server send and in whose name, how a message is delivered, and where the code loses
  logins or fails to check them.
\<close>

section \<open>What handlers send\<close>

text \<open>The weaker frame for handlers that open and close connections: a view of every connection is
  kept, and what is sent satisfies a predicate.\<close>

definition frame :: "(msg_conn \<Rightarrow> 'k) \<Rightarrow> (out \<Rightarrow> bool) \<Rightarrow> server \<Rightarrow> server \<Rightarrow> bool" where
  "frame V P s s' \<longleftrightarrow> (\<forall>k. V (conns s' k) = V (conns s k)) \<and> (\<exists>xs. sent s' = sent s @ xs \<and> list_all P xs)"

definition framed :: "(msg_conn \<Rightarrow> 'k) \<Rightarrow> (out \<Rightarrow> bool) \<Rightarrow> server \<Rightarrow> server option \<Rightarrow> bool" where
  "framed V P s r \<longleftrightarrow> (\<forall>s'. r = Some s' \<longrightarrow> frame V P s s')"

lemma frame_refl [simp]: "frame V P s s"
  by (simp add: frame_def)

lemma frame_emit: "P x \<Longrightarrow> frame V P s s' \<Longrightarrow> frame V P s (emit x s')"
  by (auto simp: frame_def emit_def)

lemma frame_same: "conns s'' = conns s' \<Longrightarrow> sent s'' = sent s' \<Longrightarrow> frame V P s s' \<Longrightarrow> frame V P s s''"
  by (simp add: frame_def)

lemma frame_upd_conn: "(\<And>m. V (f m) = V m) \<Longrightarrow> frame V P s s' \<Longrightarrow> frame V P s (upd_conn c f s')"
  by (auto simp: frame_def upd_conn_def)

lemma frame_to_db: "(\<And>d. P (ToDb d q)) \<Longrightarrow> frame V P s s' \<Longrightarrow> frame V P s (to_db d q s')"
  by (auto simp: to_db_def split: option.split intro: frame_emit)

lemma frame_to_route: "(\<And>r. P (ToRoute r q)) \<Longrightarrow> frame V P s s' \<Longrightarrow> frame V P s (to_route e q s')"
  by (auto simp: to_route_def split: option.split intro: frame_emit)

lemma frame_quiet: "quiet K P s s' \<Longrightarrow> frame K P s s'"
  by (simp add: quiet_def frame_def)

lemma frame_mono: "frame V P s s' \<Longrightarrow> (\<And>x. P x \<Longrightarrow> Q x) \<Longrightarrow> frame (\<lambda>m. f (V m)) Q s s'"
  unfolding frame_def by (metis list.pred_mono_strong)

lemma frame_trans: "frame V P s s' \<Longrightarrow> frame V P s' s'' \<Longrightarrow> frame V P s s''"
  unfolding frame_def by (metis append.assoc list_all_append)

lemma framed_Some [simp]: "framed V P s (Some s') = frame V P s s'"
  by (simp add: framed_def)

lemma framed_bind:
  "framed V P s r \<Longrightarrow> (\<And>s'. frame V P s s' \<Longrightarrow> framed V P s (f s')) \<Longrightarrow> framed V P s (r \<bind> f)"
  by (auto simp: framed_def bind_eq_Some_conv)

lemma framed_bind_any: "(\<And>x. framed V P s (f x)) \<Longrightarrow> framed V P s (r \<bind> f)"
  by (auto simp: framed_def bind_eq_Some_conv)

lemma framed_upd_user: "frame V P s s' \<Longrightarrow> framed V P s (upd_user u f s')"
  by (auto simp: framed_def upd_user_def elim: frame_same [rotated 2])

lemma framed_delete_user: "frame V P s s' \<Longrightarrow> framed V P s (delete_user u s')"
  by (auto simp: framed_def delete_user_def elim: frame_same [rotated 2])

lemma framed_RemoveIfEmpty: "frame V P s s' \<Longrightarrow> framed V P s (RemoveIfEmpty u s')"
  by (auto simp: RemoveIfEmpty_def RemoveImUser_def RemoveImUserByLoginName_def RemoveImUserById_def framed_def
      delete_user_def bind_eq_Some_conv frame_def split: option.splits if_splits)

lemma framed_SendUserStatusUpdate:
  assumes "\<And>q. P (ToAllLogin q)" "\<And>q. P (ToAllRoute q)" "frame V P s s'"
  shows "framed V P s (SendUserStatusUpdate c st s')"
  using assms by (auto simp: SendUserStatusUpdate_def Let_def split: option.split intro!: framed_bind_any frame_emit)

lemma framed_Close:
  assumes P: "\<And>q. P (ToAllLogin q)" "\<And>q. P (ToAllRoute q)" "\<And>c. P (CloseSocket c)" and s: "frame V P s s'"
  shows "framed V P s (Close c s')"
proof -
  define t where "t = (if c_handle (conns s' c) \<noteq> NETLIB_INVALID_HANDLE
      then (emit (CloseSocket c) s')\<lparr>msg_conn_map := map_erase (c_handle (conns s' c)) (msg_conn_map s')\<rparr> else s')"
  have "frame V P s (emit (CloseSocket c) s')" by (rule frame_emit [OF P(3) s])
  then have t: "frame V P s t" using s by (auto simp: t_def elim: frame_same [rotated 2])
  show ?thesis
    unfolding Close_def Let_def t_def [symmetric]
    by (intro framed_bind)
      (auto split: option.split intro!: framed_bind framed_upd_user framed_SendUserStatusUpdate framed_RemoveIfEmpty P t)
qed

definition own_out :: "uid \<Rightarrow> out \<Rightarrow> bool" where
  "own_out i x \<longleftrightarrow> on_behalf i x \<and> \<not> forwards x"

text \<open>The part of a connection that only logins and messages change.\<close>

definition conn_state :: "msg_conn \<Rightarrow> bool \<times> u32" where
  "conn_state m = (c_open m, c_msg_cnt_per_sec m)"

lemma framed_login_user: "frame V P s s' \<Longrightarrow> frame V P s (snd (login_user n s'))"
  by (auto simp: login_user_def AddImUserByLoginName_def frame_def split: option.split)

lemma framed_HandleLoginRequest:
  assumes V: "\<And>m a b c d. V (m\<lparr>c_login_name := a, c_client_version := b, c_client_type := c, c_online_status := d\<rparr>) = V m"
  shows "framed V (own_out i) s (HandleLoginRequest e c p s)"
proof (cases "\<exists>n pw st v t. c_login_name (conns s c) = [] \<and> login_refusal e = 0 \<and> p_body p = IMLoginReq n pw st v t")
  case True
  then obtain n pw st v t where *: "c_login_name (conns s c) = []" "login_refusal e = 0" "p_body p = IMLoginReq n pw st v t" by blast
  define s1 where "s1 = upd_conn c (\<lambda>m. m\<lparr>c_login_name := n, c_client_version := v, c_client_type := t,
      c_online_status := (if st < USER_STATUS_ONLINE \<or> st > USER_STATUS_LEAVE then USER_STATUS_ONLINE else st)\<rparr>) s"
  obtain u s2 where us: "login_user n s1 = (u, s2)" by (cases "login_user n s1")
  have "frame V (own_out i) s s1" unfolding s1_def by (rule frame_upd_conn) (simp_all add: V)
  then have f2: "frame V (own_out i) s s2" using framed_login_user [of V "own_out i" s s1 n] us by simp
  have "HandleLoginRequest e c p s = (let (u, s) = login_user n s1 in
      upd_user u (AddUnValidateMsgConn c) s \<bind> (\<lambda>s. Some (to_db (db_for_login e)
        (mk_pdu SID_OTHER CID_OTHER_VALIDATE_REQ (p_seq p) (IMValidateReq n pw (AttHandle (c_handle (conns s c))))) s)))"
    using * by (simp add: HandleLoginRequest_def s1_def Let_def)
  then show ?thesis
    using f2 us by (auto simp: own_out_def out_defs intro!: framed_bind framed_upd_user frame_to_db)
next
  case False
  then show ?thesis
    by (cases "p_body p") (auto simp: HandleLoginRequest_def own_out_def out_defs intro!: framed_Close frame_emit)
qed

lemma framed_client:
  assumes ids: "ids_live s" and cid: "p_cid p \<noteq> CID_MSG_DATA"
  shows "framed conn_state (own_out (c_user_id (conns s c))) s (on_client_pdu e c p s)"
proof -
  let ?P = "own_out (c_user_id (conns s c))"
  have close: "framed conn_state ?P s (Close c s')" if "frame conn_state ?P s s'" for s'
    by (rule framed_Close [OF _ _ _ that]) (simp_all add: own_out_def out_defs)
  have quiet: "framed conn_state ?P s r" if "ok_quiet K (client_out (c_user_id (conns s c))) s r" "\<And>m. conn_state m = f (K m)"
    for K :: "msg_conn \<Rightarrow> 'z" and f r
  proof -
    from that(1) obtain s' where r: "r = Some s'" and q: "quiet K (client_out (c_user_id (conns s c))) s s'" by (auto simp: ok_quiet_def)
    have "frame (\<lambda>m. f (K m)) ?P s s'"
      by (rule frame_mono [OF frame_quiet [OF q]]) (simp add: client_out_def own_out_def)
    moreover have "conn_state = (\<lambda>m. f (K m))" using that(2) by (simp add: fun_eq_iff)
    ultimately show ?thesis using r by simp
  qed
  have "framed conn_state ?P s (dispatch (p_cid p) e c p s)"
  proof -
    consider "p_cid p = CID_LOGIN_REQ_USERLOGIN" | "p_cid p = CID_LOGIN_REQ_LOGINOUT" | "p_cid p = CID_LOGIN_REQ_KICKPCCLIENT"
      | "p_cid p \<notin> {CID_LOGIN_REQ_USERLOGIN, CID_LOGIN_REQ_LOGINOUT, CID_LOGIN_REQ_KICKPCCLIENT, CID_MSG_DATA}" using cid by auto
    then show ?thesis
    proof cases
      case 1
      then have "dispatch (p_cid p) = HandleLoginRequest" by (simp add: dispatch_def)
      then show ?thesis using framed_HandleLoginRequest [of conn_state] by (simp add: conn_state_def)
    next
      case 2
      then have "dispatch (p_cid p) = HandleLoginOutRequest" by (simp add: dispatch_def)
      then show ?thesis
        by (auto simp: HandleLoginOutRequest_def Let_def own_out_def out_defs intro!: close frame_emit frame_to_db)
    next
      case 3
      then have "dispatch (p_cid p) = HandleKickPCClient" by (simp add: dispatch_def)
      then show ?thesis
        using quiet [OF HandleKickPCClient_quiet [OF ids, of c e p], of "\<lambda>(k, n). (snd (snd (snd k)), n)"]
        by (simp add: conn_state_def conn_key_def)
    next
      case 4
      show ?thesis
        by (rule quiet [OF dispatch_quiet [OF ids 4], of "\<lambda>(k, n, x). (snd (snd (snd k)), n)"])
          (simp add: conn_state_def key_defs)
    qed
  qed
  then show ?thesis
    by (auto simp: on_client_pdu_def HandlePdu_def framed_def bind_eq_Some_conv close [OF frame_refl, unfolded framed_def, rule_format])
qed

lemma orderly_inv: "orderly ident s \<Longrightarrow> srv_inv ident {} s"
  using orderly_good by (simp add: good_def)

lemma on_client_msg_data:
  assumes "p_cid p = CID_MSG_DATA" "on_client_pdu e c p s = Some s'"
  shows "HandleClientMsgData e c p s = Some s' \<or> Close c s = Some s'"
  using assms by (auto simp: on_client_pdu_def HandlePdu_def dispatch_def bind_eq_Some_conv split: if_splits)

lemma client_on_behalf:
  assumes ids: "ids_live s" and run: "on_client_pdu e c p s = Some s'"
  shows "\<exists>xs. sent s' = sent s @ xs \<and> list_all (on_behalf (c_user_id (conns s c))) xs"
proof (cases "p_cid p = CID_MSG_DATA")
  case True
  from on_client_msg_data [OF True run]
  have "frame (\<lambda>m. ()) (on_behalf (c_user_id (conns s c))) s s'"
  proof
    assume "HandleClientMsgData e c p s = Some s'"
    then have "quiet conn_key (\<lambda>x. on_behalf (c_user_id (conns s c)) x \<and> \<not> announces x) s s'"
      using HandleClientMsgData_quiet [of s c e p] by (auto simp: ok_quiet_def)
    from frame_mono [OF frame_quiet [OF this], of "on_behalf (c_user_id (conns s c))" "\<lambda>x. ()"] show ?thesis by simp
  next
    assume "Close c s = Some s'"
    then show ?thesis
      using framed_Close [of "on_behalf (c_user_id (conns s c))" "\<lambda>m. ()" s s c] by (simp add: framed_def on_behalf_def)
  qed
  then show ?thesis by (simp add: frame_def)
next
  case False
  then show ?thesis using framed_client [OF ids False, of c e] run
    by (auto simp: framed_def frame_def own_out_def list_all_iff)
qed

section \<open>The ration of messages\<close>

text \<open>The messages of a connection that are forwarded between two timer ticks; all other steps of the
  server may happen in between, packet by packet, also on connections that have been closed. A new
  connection is another object.\<close>

inductive between_ticks :: "(string \<Rightarrow> uid) \<Rightarrow> nat \<Rightarrow> server \<Rightarrow> nat \<Rightarrow> server \<Rightarrow> bool" for ident c s where
  start: "between_ticks ident c s 0 s"
| own: "between_ticks ident c s n t \<Longrightarrow> c < next_conn t \<Longrightarrow> named p \<Longrightarrow> on_client_pdu e c p t = Some t' \<Longrightarrow>
    between_ticks ident c s (n + length (filter forwards (drop (length (sent t)) (sent t')))) t'"
| other: "between_ticks ident c s n t \<Longrightarrow> k < next_conn t \<Longrightarrow> k \<noteq> c \<Longrightarrow> named p \<Longrightarrow> on_client_pdu e k p t = Some t' \<Longrightarrow>
    between_ticks ident c s n t'"
| connect: "between_ticks ident c s n t \<Longrightarrow> next_conn t \<noteq> c \<Longrightarrow> map_find (msg_conn_map t) h = None \<Longrightarrow> h \<noteq> NETLIB_INVALID_HANDLE \<Longrightarrow>
    between_ticks ident c s n (OnConnect e h ctype t)"
| database: "between_ticks ident c s n t \<Longrightarrow> honest ident p \<Longrightarrow> HandleDbPdu d e p t = Some t' \<Longrightarrow> between_ticks ident c s n t'"
| close: "between_ticks ident c s n t \<Longrightarrow> Close k t = Some t' \<Longrightarrow> between_ticks ident c s n t'"

lemma between_ticks_core: "between_ticks ident c s n t \<Longrightarrow> reachable ident s \<Longrightarrow> core_inv ident {} t"
proof (induction rule: between_ticks.induct)
  case start
  then show ?case by (rule reachable_core)
next
  case (own n t p e t')
  then show ?case using core_client [of ident t c p e] by auto
next
  case (other n t k p e t')
  then show ?case using core_client [of ident t k p e] by auto
next
  case (connect n t h e ctype)
  then show ?case using core_OnConnect by blast
next
  case (database n t p d e t')
  then show ?case using core_database [of ident t p d e] by auto
next
  case (close n t k t')
  then show ?case using core_Close [of ident t k] by auto
qed

lemma between_ticks_ids: "between_ticks ident c s n t \<Longrightarrow> reachable ident s \<Longrightarrow> ids_live t"
  by (rule core_ids_live [OF between_ticks_core])

abbreviation "msg_cnt s c \<equiv> c_msg_cnt_per_sec (conns s c)"

lemma HandleClientMsgData_cnt:
  assumes "HandleClientMsgData e k p s = Some s'"
  shows "msg_cnt s' c = msg_cnt s c \<and> sent s' = sent s \<or>
    c = k \<and> msg_cnt s c < 20 \<and> msg_cnt s' c = msg_cnt s c + 1 \<and> length (sent s') \<le> length (sent s) + 1 \<or>
    c \<noteq> k \<and> msg_cnt s' c = msg_cnt s c"
  using assms
  by (cases "p_body p")
    (auto simp: HandleClientMsgData_def upd_conn_def emit_def to_db_def Let_def split: if_splits option.splits)

lemma Close_conns: "Close k s = Some s' \<Longrightarrow> conns s' = conns s"
  using framed_Close [of "\<lambda>x. True" "\<lambda>m. m" s s k] by (auto simp: framed_def frame_def)

lemma client_cnt:
  assumes ids: "ids_live s" and run: "on_client_pdu e k p s = Some s'"
  shows "msg_cnt s' c = msg_cnt s c \<and> (k = c \<longrightarrow> filter forwards (drop (length (sent s)) (sent s')) = []) \<or>
    k = c \<and> msg_cnt s c < 20 \<and> msg_cnt s' c = msg_cnt s c + 1 \<and> length (sent s') \<le> length (sent s) + 1"
proof (cases "p_cid p = CID_MSG_DATA")
  case True
  from on_client_msg_data [OF True run] show ?thesis
  proof
    assume "HandleClientMsgData e k p s = Some s'"
    from HandleClientMsgData_cnt [OF this, of c] show ?thesis by auto
  next
    assume close: "Close k s = Some s'"
    then obtain xs where "sent s' = sent s @ xs" "list_all (\<lambda>x. \<not> forwards x) xs"
      using framed_Close [of "\<lambda>x. \<not> forwards x" "\<lambda>m. m" s s k] by (auto simp: framed_def frame_def forwards_def)
    then show ?thesis using Close_conns [OF close] by (simp add: filter_empty_conv list_all_iff)
  qed
next
  case False
  obtain xs where "sent s' = sent s @ xs" "list_all (own_out (c_user_id (conns s k))) xs" "conn_state (conns s' c) = conn_state (conns s c)"
    using framed_client [OF ids False, of k e] run by (auto simp: framed_def frame_def)
  then show ?thesis by (simp add: filter_empty_conv list_all_iff own_out_def conn_state_def)
qed

section \<open>Connections across a login\<close>

lemma SendUserStatusUpdate_conns: "SendUserStatusUpdate c st s = Some s' \<Longrightarrow> conns s' = conns s"
  using framed_SendUserStatusUpdate [of "\<lambda>x. True" "\<lambda>m. m" s s c st] by (auto simp: framed_def frame_def)

lemma adopt_conn_conns:
  assumes "adopt_conn u c name i s = Some (v, s')"
  shows "conns s' = conns s" "users s' v = Some w \<Longrightarrow> \<exists>w0. users s v = Some w0 \<and> u_conn_map w = u_conn_map w0"
  using assms
  by (auto simp: adopt_conn_def upd_user_def delete_user_def RemoveImUserByLoginName_def AddUnValidateMsgConn_def
      DelUnValidateMsgConn_def bind_eq_Some_conv split: option.splits if_splits)

lemma login_tail_conns:
  assumes "login_tail e seq c rs info v s = Some s'"
  obtains usr t where "users s v = Some usr"
    "conns s' = (conns t)(c := (conns t c)\<lparr>c_user_id := ui_user_id info, c_open := True\<rparr>)"
    "t = KickOutSameClientType (c_client_type (conns s c)) KICK_REASON_DUPLICATE_USER (Some c) usr s"
  using assms
  by (auto simp: login_tail_def Let_def bind_eq_Some_conv upd_user_def upd_conn_def dest!: SendUserStatusUpdate_conns)

lemma KickOut_conns:
  "c_open (conns (KickOutSameClientType t reason from usr s) k) = c_open (conns s k)"
  "msg_cnt (KickOutSameClientType t reason from usr s) k = msg_cnt s k"
  by (auto simp: KickOutSameClientType_def HandleKickUser_def upd_conn_def Let_def split: option.splits)

lemma login_success_conns:
  assumes "login_success e seq u c name rs info s = Some s'"
  shows "msg_cnt s' k = msg_cnt s k" "c_open (conns s k) \<Longrightarrow> c_open (conns s' k)"
    "c_kick_off (conns s' k) \<Longrightarrow> c_kick_off (conns s k) \<or> (\<exists>v w h. users s v = Some w \<and> map_find (u_conn_map w) h = Some k)"
proof -
  from assms obtain v s1 s2 where ad: "adopt_conn u c name (ui_user_id info) s = Some (v, s1)"
    and up: "upd_user v (\<lambda>x. x\<lparr>u_user_id := ui_user_id info, u_nick_name := ui_nick_name info, u_validate := True\<rparr>) s1 = Some s2"
    and tail: "login_tail e seq c rs info v (snd (AddImUserById (ui_user_id info) v s2)) = Some s'"
    by (auto simp: login_success_tail bind_eq_Some_conv)
  from up obtain w where w: "users s1 v = Some w" and s2: "conns s2 = conns s1"
    "users s2 v = Some (w\<lparr>u_user_id := ui_user_id info, u_nick_name := ui_nick_name info, u_validate := True\<rparr>)"
    by (auto simp: upd_user_def)
  obtain w0 where w0: "users s v = Some w0" "u_conn_map w = u_conn_map w0" using adopt_conn_conns(2) [OF ad w] by blast
  obtain usr t where usr: "users (snd (AddImUserById (ui_user_id info) v s2)) v = Some usr"
    and conns: "conns s' = (conns t)(c := (conns t c)\<lparr>c_user_id := ui_user_id info, c_open := True\<rparr>)"
    and t: "t = KickOutSameClientType (c_client_type (conns (snd (AddImUserById (ui_user_id info) v s2)) c))
      KICK_REASON_DUPLICATE_USER (Some c) usr (snd (AddImUserById (ui_user_id info) v s2))"
    by (rule login_tail_conns [OF tail])
  have um: "u_conn_map usr = u_conn_map w0" using usr s2(2) w0(2) by auto
  have start: "conns (snd (AddImUserById (ui_user_id info) v s2)) = conns s" using s2(1) adopt_conn_conns(1) [OF ad] by simp
  show "msg_cnt s' k = msg_cnt s k" by (simp add: conns t KickOut_conns start del: AddImUserById_frame)
  show "c_open (conns s' k)" if "c_open (conns s k)" using that by (simp add: conns t KickOut_conns start del: AddImUserById_frame)
  show "c_kick_off (conns s k) \<or> (\<exists>v w h. users s v = Some w \<and> map_find (u_conn_map w) h = Some k)" if "c_kick_off (conns s' k)"
  proof -
    have "c_kick_off (conns t k)" using that by (auto simp: conns split: if_splits)
    from kicked_conns [OF this [unfolded t]] show ?thesis using um w0(1) start by auto
  qed
qed

lemma validate_conns:
  assumes "HandleValidateResponse e p s = Some s'"
  shows "msg_cnt s' k = msg_cnt s k" "c_open (conns s k) \<Longrightarrow> c_open (conns s' k)"
    "c_kick_off (conns s' k) \<Longrightarrow> c_kick_off (conns s k) \<or> (\<exists>v w h. users s v = Some w \<and> map_find (u_conn_map w) h = Some k)"
proof -
  have "s' = s \<or> (\<exists>x c. Close c (emit x s) = Some s') \<or>
      (\<exists>seq u c name rs info. login_success e seq u c name rs info s = Some s')"
  proof (cases "\<exists>name result rs info a u usr c. p_body p = IMValidateRsp name result rs info a \<and>
      GetImUserByLoginName s name = Some u \<and> users s u = Some usr \<and> GetUnValidateMsgConn s usr (att_handle e a) = Some c \<and> \<not> c_open (conns s c)")
    case True
    then show ?thesis using assms
      by (elim exE) (auto simp: HandleValidateResponse_def split: if_splits)
  next
    case False
    then show ?thesis using assms
      by (cases "p_body p") (auto simp: HandleValidateResponse_def bind_eq_Some_conv split: option.splits if_splits)
  qed
  then have "s' = s \<or> conns s' = conns s \<or> (\<exists>seq u c name rs info. login_success e seq u c name rs info s = Some s')"
    using Close_conns by fastforce
  then show "msg_cnt s' k = msg_cnt s k" "c_open (conns s k) \<Longrightarrow> c_open (conns s' k)"
    "c_kick_off (conns s' k) \<Longrightarrow> c_kick_off (conns s k) \<or> (\<exists>v w h. users s v = Some w \<and> map_find (u_conn_map w) h = Some k)"
    using login_success_conns by metis+
qed

lemma database_cnt:
  assumes "ids_live s" "HandleDbPdu d e p s = Some s'"
  shows "msg_cnt s' k = msg_cnt s k"
proof (cases "p_cid p = CID_OTHER_VALIDATE_RSP")
  case True
  with assms(2) have "HandleValidateResponse e p s = Some s'" by (simp add: HandleDbPdu_def db_dispatch_def)
  then show ?thesis by (rule validate_conns)
next
  case False
  then show ?thesis using db_dispatch_quiet [OF assms(1) False, of d e p] assms(2)
    by (auto simp: ok_quiet_def quiet_def HandleDbPdu_def conn_core_def)
qed

lemma ration:
  assumes "between_ticks ident c s n t" "reachable ident s"
  shows "msg_cnt t c = msg_cnt s c \<and> n = 0 \<or> unat (msg_cnt s c) + n \<le> unat (msg_cnt t c) \<and> unat (msg_cnt t c) \<le> 20"
  using assms(1)
proof (induction rule: between_ticks.induct)
  case start
  then show ?case by simp
next
  case (own n t p e t')
  let ?new = "filter forwards (drop (length (sent t)) (sent t'))"
  have ids: "ids_live t" by (rule between_ticks_ids [OF own.hyps(1) assms(2)])
  from client_cnt [OF ids own.hyps(4), of c] show ?case
  proof
    assume "msg_cnt t' c = msg_cnt t c \<and> (c = c \<longrightarrow> ?new = [])"
    then show ?thesis using own.IH by simp
  next
    assume *: "c = c \<and> msg_cnt t c < 20 \<and> msg_cnt t' c = msg_cnt t c + 1 \<and> length (sent t') \<le> length (sent t) + 1"
    then have lt: "unat (msg_cnt t c) < 20" by (simp add: word_less_nat_alt)
    then have cnt: "unat (msg_cnt t' c) = unat (msg_cnt t c) + 1" using * by (simp add: unat_word_ariths)
    have "length ?new \<le> length (drop (length (sent t)) (sent t'))" by (rule length_filter_le)
    moreover have "length (drop (length (sent t)) (sent t')) \<le> 1" using * by (simp add: le_diff_conv)
    ultimately have "length ?new \<le> 1" by simp
    then show ?thesis using own.IH lt cnt by auto
  qed
next
  case (other n t k p e t')
  have ids: "ids_live t" by (rule between_ticks_ids [OF other.hyps(1) assms(2)])
  from client_cnt [OF ids other.hyps(5), of c] other.hyps(3) have "msg_cnt t' c = msg_cnt t c" by auto
  then show ?case using other.IH by simp
next
  case (connect n t h e ctype)
  then show ?case by (simp add: OnConnect_def)
next
  case (database n t p d e t')
  have ids: "ids_live t" by (rule between_ticks_ids [OF database.hyps(1) assms(2)])
  from database_cnt [OF ids database.hyps(3), of c] show ?case using database.IH by simp
next
  case (close n t k t')
  then show ?case by (simp add: Close_conns)
qed

section \<open>The kick mark\<close>

text \<open>Only open connections are ever marked as kicked.\<close>

definition kick_ok :: "server \<Rightarrow> bool" where
  "kick_ok s \<longleftrightarrow> (\<forall>k. c_kick_off (conns s k) \<longrightarrow> c_open (conns s k))"

lemma kick_ok_frame: "kick_ok s \<Longrightarrow> frame (\<lambda>m. (c_open m, c_kick_off m)) P s s' \<Longrightarrow> kick_ok s'"
  by (simp add: kick_ok_def frame_def)

lemma kick_ok_quiet: "kick_ok s \<Longrightarrow> ok_quiet conn_core P s r \<Longrightarrow> r = Some s' \<Longrightarrow> kick_ok s'"
  by (auto simp: kick_ok_def ok_quiet_def quiet_def key_defs)

lemma kick_ok_client:
  assumes inv: "core_inv ident {} s" and ok: "kick_ok s" and run: "on_client_pdu e c p s = Some s'"
  shows "kick_ok s'"
proof -
  let ?V = "\<lambda>m. (c_open m, c_kick_off m)"
  have ids: "ids_live s" by (rule core_ids_live [OF inv])
  have close: "kick_ok s'" if "Close c s0 = Some s'" "conns s0 = conns s" for s0
    using ok that Close_conns by (simp add: kick_ok_def)
  have "Close c s = Some s' \<or> dispatch (p_cid p) e c p s = Some s'"
    using run by (auto simp: on_client_pdu_def HandlePdu_def bind_eq_Some_conv split: if_splits)
  then show ?thesis
  proof
    assume d: "dispatch (p_cid p) e c p s = Some s'"
    consider "p_cid p = CID_LOGIN_REQ_USERLOGIN" | "p_cid p = CID_LOGIN_REQ_LOGINOUT" | "p_cid p = CID_MSG_DATA"
      | "p_cid p = CID_LOGIN_REQ_KICKPCCLIENT"
      | "p_cid p \<notin> {CID_LOGIN_REQ_USERLOGIN, CID_LOGIN_REQ_LOGINOUT, CID_LOGIN_REQ_KICKPCCLIENT, CID_MSG_DATA}" by auto
    then show ?thesis
    proof cases
      case 1
      then have "HandleLoginRequest e c p s = Some s'" using d by (simp add: dispatch_def)
      then have "frame ?V (own_out 0) s s'" using framed_HandleLoginRequest [of ?V 0 s e c p] by (simp add: framed_def)
      then show ?thesis by (rule kick_ok_frame [OF ok])
    next
      case 2
      then show ?thesis using d close by (simp add: dispatch_def HandleLoginOutRequest_def Let_def)
    next
      case 3
      then have "HandleClientMsgData e c p s = Some s'" using d by (simp add: dispatch_def)
      then have "frame ?V (\<lambda>x. True) s s'"
        by (cases "p_body p") (auto simp: HandleClientMsgData_def Let_def split: if_splits intro!: frame_to_db frame_upd_conn)
      then show ?thesis by (rule kick_ok_frame [OF ok])
    next
      case 4
      then have run: "HandleKickPCClient e c p s = Some s'" using d by (simp add: dispatch_def)
      have op: "c_open (conns s' k) = c_open (conns s k)" for k
        using HandleKickPCClient_quiet [OF ids, of c e p] run by (auto simp: ok_quiet_def quiet_def conn_key_def)
      show ?thesis
        unfolding kick_ok_def
      proof (intro allI impI)
        fix k assume "c_kick_off (conns s' k)"
        from HandleKickPCClient_kicked [OF run this] show "c_open (conns s' k)"
          using ok core_user_conn(3) [OF core_invD(3) [OF inv]] by (auto simp: kick_ok_def op)
      qed
    next
      case 5
      show ?thesis by (rule kick_ok_quiet [OF ok dispatch_quiet [OF ids 5] d])
    qed
  qed (use close in blast)
qed

lemma kick_ok_database:
  assumes inv: "core_inv ident {} s" and ok: "kick_ok s" and run: "HandleDbPdu d e p s = Some s'"
  shows "kick_ok s'"
proof (cases "p_cid p = CID_OTHER_VALIDATE_RSP")
  case True
  have v: "HandleValidateResponse e p s = Some s'" using True run by (simp add: HandleDbPdu_def db_dispatch_def)
  show ?thesis
    unfolding kick_ok_def
  proof (intro allI impI)
    fix k assume "c_kick_off (conns s' k)"
    from validate_conns(3) [OF v this] have "c_open (conns s k)"
      using ok core_user_conn(3) [OF core_invD(3) [OF inv]] by (auto simp: kick_ok_def)
    then show "c_open (conns s' k)" by (rule validate_conns(2) [OF v])
  qed
next
  case False
  have ids: "ids_live s" by (rule core_ids_live [OF inv])
  show ?thesis by (rule kick_ok_quiet [OF ok db_dispatch_quiet [OF ids False] run [unfolded HandleDbPdu_def]])
qed

lemma kick_ok_OnTimer: "kick_ok s \<Longrightarrow> OnTimer t c s = Some s' \<Longrightarrow> kick_ok s'"
  by (auto simp: OnTimer_def Let_def kick_ok_def upd_conn_def Close_conns split: if_splits prod.splits)

lemma kick_ok_timer_each: "kick_ok s \<Longrightarrow> timer_each t cs s = Some s' \<Longrightarrow> kick_ok s'"
  by (induction t cs s rule: timer_each.induct) (auto simp: bind_eq_Some_conv intro: kick_ok_OnTimer)

lemma kick_ok_read:
  assumes "core_inv ident {} s" "kick_ok s" "c < next_conn s" "\<forall>e p. (e, Some p) \<in> set ps \<longrightarrow> named p" "on_read c ps s = Some s'"
  shows "kick_ok s'"
  using assms
proof (induction ps arbitrary: s)
  case (Cons x ps)
  obtain e q where x: "x = (e, q)" by (cases x)
  show ?case
  proof (cases q)
    case None
    with Cons.prems(2,5) Close_conns show ?thesis unfolding x kick_ok_def by simp
  next
    case (Some p)
    have "named p" using Cons.prems(4) by (simp add: x Some)
    then obtain s1 where s1: "on_client_pdu e c p s = Some s1" "core_inv ident {} s1"
      using core_client [OF Cons.prems(1,3)] by blast
    have "kick_ok s1" "c < next_conn s1"
      using kick_ok_client [OF Cons.prems(1,2) s1(1)] client_next [OF core_ids_live [OF Cons.prems(1)] s1(1)] Cons.prems(3) by simp_all
    then show ?thesis
      using on_read_Cons [of c e p ps s] s1(1) Cons.IH [OF s1(2)] Cons.prems(4,5) by (auto simp: x Some)
  qed
qed simp

lemma reachable_kick_ok: "reachable ident s \<Longrightarrow> kick_ok s"
proof (induction rule: reachable.induct)
  case start
  show ?case by (simp add: kick_ok_def init_server_def new_conn_def)
next
  case (step s s')
  have inv: "core_inv ident {} s" by (rule reachable_core [OF step.hyps(1)])
  from step.hyps(2) step.IH show ?case
  proof (cases rule: srv_step.cases)
    case (connect h e ctype)
    then show ?thesis using step.IH by (auto simp: kick_ok_def OnConnect_def new_conn_def)
  next
    case (client c ps)
    have "on_read c ps s = Some s'" "c < next_conn s" using client by (simp_all add: live_def)
    then show ?thesis using kick_ok_read [OF inv step.IH _ client(3)] by blast
  next
    case (database p d e)
    then show ?thesis using kick_ok_database [OF inv step.IH] by metis
  next
    case (timer order t)
    then show ?thesis using kick_ok_timer_each [OF step.IH] unfolding msg_conn_timer_callback_def by metis
  next
    case (peer_close c)
    then show ?thesis using step.IH Close_conns unfolding kick_ok_def by metis
  qed
qed

section \<open>A sample run\<close>

text \<open>Two connections, both asking to log in as the same user, who has the id 7.\<close>

definition sample_env :: env where
  "sample_env = \<lparr>now = 100, tick = 5, db_for_login = Some 0, db_other = Some 1, login_server_up = True, route_server_up = True,
     route_conn = Some 2, push_conn = Some 3, empty_handle = 0, aes_decrypt = Some, push_flash = (\<lambda>x t i. x),
     push_json = (\<lambda>t i g. [])\<rparr>"

definition sample_login :: pdu where
  "sample_login = mk_pdu SID_LOGIN CID_LOGIN_REQ_USERLOGIN 1 (IMLoginReq ''ann'' ''pw'' 1 ''v'' 17)"

definition sample_validated :: "handle \<Rightarrow> pdu" where
  "sample_validated h = mk_pdu SID_OTHER CID_OTHER_VALIDATE_RSP 1 (IMValidateRsp ''ann'' 0 ''ok''
     \<lparr>ui_user_id = 7, ui_nick_name = ''Ann'', ui_details = []\<rparr> (AttHandle h))"

definition sample_two :: server where
  "sample_two = OnConnect sample_env 6 0 (OnConnect sample_env 5 0 init_server)"

definition sample_pending :: "server option" where
  "sample_pending = on_client_pdu sample_env 0 sample_login sample_two \<bind> on_client_pdu sample_env 1 sample_login"

definition sample_online :: "server option" where
  "sample_online = sample_pending \<bind> HandleDbPdu 0 sample_env (sample_validated 5)"

abbreviation "sample_ident \<equiv> (\<lambda>n :: string. 7 :: uid)"

lemma sample_two_orderly: "orderly sample_ident sample_two"
  unfolding sample_two_def
  by (intro orderly.step [OF orderly.step [OF orderly.start srv_step.connect] srv_step.connect])
    (simp_all add: init_server_def OnConnect_def map_insert_def)

lemma sample_two_reachable: "reachable sample_ident sample_two"
  by (rule orderly_reachable [OF sample_two_orderly])

lemma step_orderly: "orderly ident s \<Longrightarrow> srv_step ident in_order s r \<Longrightarrow> \<exists>s'. r = Some s' \<and> orderly ident s'"
  by (metis good_step orderly.step orderly_good)

lemma sample_client_step: "live s c \<Longrightarrow> named p \<Longrightarrow> srv_step ident in_order s (on_client_pdu e c p s)"
  unfolding on_read_one [symmetric] by (rule srv_step.client) (auto split: option.split sum.split)

lemma sample_named: "named sample_login"
  by (simp add: named_def sample_login_def mk_pdu_def)

lemma sample_pending_orderly:
  obtains s where "sample_pending = Some s" "orderly sample_ident s"
proof -
  have "map_option (\<lambda>s. live s 1) (on_client_pdu sample_env 0 sample_login sample_two) = Some True"
    by code_simp
  then obtain s1 where s1: "on_client_pdu sample_env 0 sample_login sample_two = Some s1" "live s1 1" by auto
  have "live sample_two 0" by code_simp
  from step_orderly [OF sample_two_orderly sample_client_step [OF this sample_named], of sample_env] s1(1)
  have r1: "orderly sample_ident s1" by simp
  obtain s2 where "on_client_pdu sample_env 1 sample_login s1 = Some s2" "orderly sample_ident s2"
    using step_orderly [OF r1 sample_client_step [OF s1(2) sample_named]] by blast
  with s1 show ?thesis by (intro that [of s2]) (simp_all add: sample_pending_def)
qed

lemma sample_validated_step:
  assumes "orderly sample_ident s"
  obtains s' where "HandleDbPdu 0 sample_env (sample_validated h) s = Some s'" "orderly sample_ident s'"
proof -
  have "honest sample_ident (sample_validated h)" by (simp add: honest_def sample_validated_def mk_pdu_def)
  then show ?thesis using step_orderly [OF assms srv_step.database] that by blast
qed

lemma sample_online_orderly:
  obtains s where "sample_online = Some s" "orderly sample_ident s"
proof -
  obtain s1 where s1: "sample_pending = Some s1" "orderly sample_ident s1" by (rule sample_pending_orderly)
  obtain s2 where "HandleDbPdu 0 sample_env (sample_validated 5) s1 = Some s2" "orderly sample_ident s2"
    by (rule sample_validated_step [OF s1(2)])
  moreover have "sample_online = HandleDbPdu 0 sample_env (sample_validated 5) s1"
    unfolding sample_online_def s1(1) by simp
  ultimately show ?thesis by (intro that) simp_all
qed

lemma sample_online_reachable:
  obtains s where "sample_online = Some s" "reachable sample_ident s"
  by (rule sample_online_orderly) (rule that, assumption, erule orderly_reachable)

text \<open>Both connections logged in, and what connection 0 may send in one read.\<close>

definition sample_both :: "server option" where
  "sample_both = sample_online \<bind> HandleDbPdu 0 sample_env (sample_validated 6)"

lemma sample_both_orderly:
  obtains s where "sample_both = Some s" "orderly sample_ident s"
proof -
  obtain s1 where s1: "sample_online = Some s1" "orderly sample_ident s1" by (rule sample_online_orderly)
  obtain s2 where "HandleDbPdu 0 sample_env (sample_validated 6) s1 = Some s2" "orderly sample_ident s2"
    by (rule sample_validated_step [OF s1(2)])
  moreover have "sample_both = HandleDbPdu 0 sample_env (sample_validated 6) s1"
    unfolding sample_both_def s1(1) by simp
  ultimately show ?thesis by (intro that) simp_all
qed

definition sample_logout :: pdu where
  "sample_logout = mk_pdu SID_LOGIN CID_LOGIN_REQ_LOGINOUT 9 Garbage"

definition logout_twice :: input where
  "logout_twice = [(sample_env, Some sample_logout), (sample_env, Some sample_logout)]"

definition logout_login :: input where
  "logout_login = [(sample_env, Some sample_logout), (sample_env, Some sample_login)]"

lemma logout_reads: "srv_step ident any_read s (on_read c logout_twice s)" "srv_step ident any_read s (on_read c logout_login s)"
  if "live s c"
  by (rule srv_step.client [OF that];
      simp add: any_read_def logout_twice_def logout_login_def named_def sample_logout_def sample_login_def mk_pdu_def)+

section \<open>Reachable states\<close>

text \<open>C1: No sequence of connections, reads, database answers, timer ticks and disconnections makes the
  server use a user object that it has freed: every step from a reachable state has a result. A read hands
  over any packets at once, also behind one that closed the connection. Assumed are that the database maps
  a login name to one id, not 0, (\<open>honest\<close>) and that a login request has a name (\<open>named\<close>).\<close>

theorem no_freed_user: "reachable ident s \<Longrightarrow> srv_step ident any_read s r \<Longrightarrow> r \<noteq> None"
  using core_step [OF _ reachable_core] by blast

lemma no_freed_user_witness: "\<exists>s. sample_both = Some s \<and> on_read 0 logout_twice s \<noteq> None"
proof -
  obtain s where s: "sample_both = Some s" "orderly sample_ident s" by (rule sample_both_orderly)
  have "map_option (\<lambda>s. live s 0) sample_both = Some True" by code_simp
  from this [unfolded s(1)] have "live s 0" by simp
  from no_freed_user [OF orderly_reachable [OF s(2)] logout_reads(1) [OF this]] s(1) show ?thesis by blast
qed

text \<open>C2: In every reachable state, whatever packets came behind one that closed its connection, the
  tables are well typed: the maps are sorted without duplicates, an id leads to the live user object that
  carries it and has a connection, a login name to the live object with that name, every user object is
  found under its name, and the connections of a user are logged in with its id and stand under their own
  handle. Assumed are an honest database and login requests with a name, as for C1.\<close>

theorem tables_wellformed:
  assumes "reachable ident s"
  shows "map_ok (msg_conn_map s) \<and> map_ok (user_map s) \<and> distinct (map fst (user_map_by_name s)) \<and>
    (\<forall>i u. GetImUserById s i = Some u \<longrightarrow> (\<exists>usr. users s u = Some usr \<and> u_user_id usr = i \<and> u_conn_map usr \<noteq> [])) \<and>
    (\<forall>n u. GetImUserByLoginName s n = Some u \<longrightarrow> (\<exists>usr. users s u = Some usr \<and> u_login_name usr = n)) \<and>
    (\<forall>u usr. users s u = Some usr \<longrightarrow> GetImUserByLoginName s (u_login_name usr) = Some u \<and> map_ok (u_conn_map usr)) \<and>
    (\<forall>u usr h c. users s u = Some usr \<and> GetMsgConn usr h = Some c \<longrightarrow>
       c_handle (conns s c) = h \<and> c_open (conns s c) \<and> c_user_id (conns s c) = u_user_id usr)"
proof (intro conjI allI impI)
  have inv: "core_inv ident {} s" by (rule reachable_core [OF assms])
  show "map_ok (msg_conn_map s)" "map_ok (user_map s)" "distinct (map fst (user_map_by_name s))"
    using core_invD(1,2) [OF inv] by (simp_all add: core_conns_def core_tables_def)
  show "\<exists>usr. users s u = Some usr \<and> u_login_name usr = n" if "GetImUserByLoginName s n = Some u" for n u
    using core_by_name [OF inv that] by blast
  show "GetImUserByLoginName s (u_login_name usr) = Some u" "map_ok (u_conn_map usr)" if "users s u = Some usr" for u usr
    using core_invD(3) [OF inv that] by (simp_all add: core_user_def)
  show "c_handle (conns s c) = h" "c_open (conns s c)" "c_user_id (conns s c) = u_user_id usr"
    if "users s u = Some usr \<and> GetMsgConn usr h = Some c" for u usr h c
    using core_user_conn [OF core_invD(3) [OF inv]] that by (auto simp: GetMsgConn_def)
  fix i u assume i: "GetImUserById s i = Some u"
  obtain usr where u: "users s u = Some usr" "u_user_id usr = i" "i \<noteq> 0" by (rule core_by_id [OF inv i])
  with core_invD(3) [OF inv u(1)] have "u_conn_map usr \<noteq> []" unfolding core_user_def by auto
  with u show "\<exists>usr. users s u = Some usr \<and> u_user_id usr = i \<and> u_conn_map usr \<noteq> []" by blast
qed

lemma tables_wellformed_witness:
  "\<exists>s u usr. sample_online = Some s \<and> GetImUserById s 7 = Some u \<and> users s u = Some usr \<and> u_user_id usr = 7 \<and> u_conn_map usr \<noteq> []"
proof -
  obtain s where s: "sample_online = Some s" "reachable sample_ident s" by (rule sample_online_reachable)
  have "map_option (\<lambda>s. GetImUserById s 7) sample_online = Some (Some 0)" by code_simp
  from this [unfolded s(1)] have "GetImUserById s 7 = Some 0" by simp
  with tables_wellformed [OF s(2)] s(1) show ?thesis by blast
qed

text \<open>C3: In every state of an orderly run, one in which no read holds packets behind one that closed
  its connection, the counts announced to the login servers are right: the increments sent exceed the
  decrements sent by the number of connections that are logged in and not closed. Assumed are an honest
  database and login requests with a name; without the order the counts go wrong
  (\<open>pipelined_logouts_miscount\<close>).\<close>

theorem login_counts_balance:
  "orderly ident s \<Longrightarrow> announced USER_CNT_INC s = announced USER_CNT_DEC s + card (online s)"
  using orderly_good by (simp add: good_def balanced_def)

lemma login_counts_balance_witness:
  "\<exists>s. sample_both = Some s \<and> announced USER_CNT_INC s = 2 \<and> announced USER_CNT_DEC s = 0 \<and> card (online s) = 2"
proof -
  obtain s where s: "sample_both = Some s" "orderly sample_ident s" by (rule sample_both_orderly)
  have "map_option (\<lambda>s. announced USER_CNT_INC s = 2 \<and> announced USER_CNT_DEC s = 0) sample_both = Some True" by code_simp
  from this [unfolded s(1)] have "announced USER_CNT_INC s = 2" "announced USER_CNT_DEC s = 0" by simp_all
  moreover from login_counts_balance [OF s(2)] this have "card (online s) = 2" by simp
  ultimately show ?thesis using s(1) by blast
qed

text \<open>Two logouts in one read: the connection is closed twice, and its logout announced twice while the
  user has another connection. The count is one too low from then on.\<close>

theorem pipelined_logouts_miscount:
  "\<exists>s s'. sample_both = Some s \<and> orderly sample_ident s \<and> on_read 0 logout_twice s = Some s' \<and> reachable sample_ident s' \<and>
     announced USER_CNT_INC s' = 2 \<and> announced USER_CNT_DEC s' = 2 \<and> online s' = {1}"
proof -
  obtain s where s: "sample_both = Some s" "orderly sample_ident s" by (rule sample_both_orderly)
  have "map_option (\<lambda>s. live s 0) sample_both = Some True" by code_simp
  from this [unfolded s(1)] have live: "live s 0" by simp
  have "map_option (\<lambda>s. announced USER_CNT_INC s = 2 \<and> announced USER_CNT_DEC s = 2 \<and> next_conn s = 2 \<and>
      \<not> live s 0 \<and> live s 1 \<and> c_open (conns s 1)) (sample_both \<bind> on_read 0 logout_twice) = Some True" by code_simp
  from this [unfolded s(1)] obtain s' where s': "on_read 0 logout_twice s = Some s'" "announced USER_CNT_INC s' = 2"
    "announced USER_CNT_DEC s' = 2" "next_conn s' = 2" "\<not> live s' 0" "live s' 1" "c_open (conns s' 1)" by auto
  have "k < 2" if "live s' k" for k using that s'(4) by (simp add: live_def)
  then have "online s' = {1}" using s'(5-7) by (force simp: online_def less_2_cases_iff)
  moreover have "reachable sample_ident s'"
    using logout_reads(1) [OF live] s'(1) reachable.step [OF orderly_reachable [OF s(2)]] by metis
  ultimately show ?thesis using s s' by blast
qed

text \<open>C4: In every state of an orderly run a connection that is logged in and not closed is registered
  with the user of its id under its handle, and the connections registered with a user are exactly such
  connections with the id of the user; the pending ones are open sockets not yet logged in. Assumed are an
  honest database and login requests with a name; a login request behind a logout in one read registers a
  closed connection (\<open>pipelined_login_is_registered\<close>).\<close>

theorem online_iff_registered:
  assumes "orderly ident s"
  shows "(live s c \<and> c_open (conns s c) \<longleftrightarrow>
      (\<exists>u usr. GetImUserById s (c_user_id (conns s c)) = Some u \<and> users s u = Some usr \<and>
        GetMsgConn usr (c_handle (conns s c)) = Some c)) \<and>
    (\<forall>u usr. users s u = Some usr \<and> c \<in> set (u_unvalidate_conn_set usr) \<longrightarrow> live s c \<and> \<not> c_open (conns s c))"
proof -
  have inv: "srv_inv ident {} s" by (rule orderly_inv [OF assms])
  have "\<exists>u usr. GetImUserById s (c_user_id (conns s c)) = Some u \<and> users s u = Some usr \<and>
        GetMsgConn usr (c_handle (conns s c)) = Some c" if "live s c" "c_open (conns s c)"
    using inv_owner [OF inv that] unfolding GetMsgConn_def by metis
  moreover have "live s c \<and> c_open (conns s c)" if "users s u = Some usr" "GetMsgConn usr (c_handle (conns s c)) = Some c" for u usr
    using user_ok_conn(1,3) [OF inv_user [OF inv that(1)]] that(2) by (auto simp: GetMsgConn_def)
  moreover have "live s c \<and> \<not> c_open (conns s c)" if "users s u = Some usr" "c \<in> set (u_unvalidate_conn_set usr)" for u usr
    using user_ok_pending(1,2) [OF inv_user [OF inv that(1)] that(2)] by simp
  ultimately show ?thesis by blast
qed

lemma online_iff_registered_witness:
  "\<exists>s u usr. sample_online = Some s \<and> GetImUserById s 7 = Some u \<and> users s u = Some usr \<and> GetMsgConn usr 5 = Some 0"
proof -
  obtain s where s: "sample_online = Some s" "orderly sample_ident s" by (rule sample_online_orderly)
  have "map_option (\<lambda>s. live s 0 \<and> c_open (conns s 0) \<and> c_user_id (conns s 0) = 7 \<and> c_handle (conns s 0) = 5) sample_online = Some True"
    by code_simp
  from this [unfolded s(1)] have "live s 0 \<and> c_open (conns s 0)" "c_user_id (conns s 0) = 7" "c_handle (conns s 0) = 5" by simp_all
  with online_iff_registered [OF s(2), of 0] s(1) show ?thesis by auto
qed

text \<open>A login request behind a logout in one read: the connection has not asked for a login before, so the
  request is taken up, and the answer of the database logs a closed connection in. It stays with its user.\<close>

theorem pipelined_login_is_registered:
  "\<exists>s s'' u usr. on_read 0 logout_login sample_two = Some s \<and> HandleDbPdu 0 sample_env (sample_validated 5) s = Some s'' \<and>
     reachable sample_ident s'' \<and> \<not> live s'' 0 \<and> GetImUserById s'' 7 = Some u \<and> users s'' u = Some usr \<and>
     GetMsgConn usr 5 = Some 0"
proof -
  have live: "live sample_two 0" by code_simp
  have "map_option (\<lambda>s. \<not> live s 0 \<and> GetImUserById s 7 = Some 0 \<and> map_option (\<lambda>usr. GetMsgConn usr 5) (users s 0) = Some (Some 0))
      (on_read 0 logout_login sample_two \<bind> HandleDbPdu 0 sample_env (sample_validated 5)) = Some True" by code_simp
  then obtain s s'' usr where s: "on_read 0 logout_login sample_two = Some s" "HandleDbPdu 0 sample_env (sample_validated 5) s = Some s''"
    "\<not> live s'' 0" "GetImUserById s'' 7 = Some 0" "users s'' 0 = Some usr" "GetMsgConn usr 5 = Some 0"
    by (auto simp: bind_eq_Some_conv)
  have "reachable sample_ident s"
    using logout_reads(2) [OF live] s(1) reachable.step [OF sample_two_reachable] by metis
  moreover have "honest sample_ident (sample_validated 5)" by (simp add: honest_def sample_validated_def mk_pdu_def)
  ultimately have "reachable sample_ident s''" using srv_step.database s(2) reachable.step by metis
  with s show ?thesis by blast
qed

section \<open>What a client can make the server do\<close>

text \<open>C7: Whatever packet a client sends, every request that the server passes on to the database or to
  the route servers names the user of that connection as the one who makes it: the id in the packet is
  overwritten. (A P2P command names nobody in this sense: its sender field is passed on as it came.)\<close>

theorem requests_carry_own_id:
  assumes "reachable ident s" "on_client_pdu e c p s = Some s'"
  shows "\<exists>xs. sent s' = sent s @ xs \<and> (\<forall>x\<in>set xs. on_behalf (c_user_id (conns s c)) x)"
  using client_on_behalf [OF reachable_ids [OF assms(1)] assms(2)] by (simp add: list_all_iff)

definition sample_spoof :: pdu where
  "sample_spoof = mk_pdu SID_MSG CID_MSG_DATA 4 (IMMsgData \<lparr>md_from = 99, md_to_session = 8, md_msg_id = 0, md_create_time = 0,
     md_type = MSG_TYPE_SINGLE_TEXT, md_data = ''hi''\<rparr> AttNone)"

lemma requests_carry_own_id_witness:
  "\<exists>s s'. on_client_pdu sample_env 0 sample_spoof s = Some s' \<and> s' \<noteq> s \<and>
     (\<exists>xs. sent s' = sent s @ xs \<and> (\<forall>x\<in>set xs. on_behalf 0 x))"
proof -
  have c: "c_user_id (conns sample_two 0) = 0" by code_simp
  have "map_option (\<lambda>s. length (sent s) = length (sent sample_two)) (on_client_pdu sample_env 0 sample_spoof sample_two) = Some False"
    by code_simp
  then obtain s' where s': "on_client_pdu sample_env 0 sample_spoof sample_two = Some s'" "length (sent s') \<noteq> length (sent sample_two)" by auto
  then have "s' \<noteq> sample_two" by metis
  from requests_carry_own_id [OF sample_two_reachable s'(1)] s'(1) \<open>s' \<noteq> sample_two\<close> show ?thesis unfolding c by blast
qed

text \<open>C8: Between two timer ticks the server forwards at most 20 messages of a connection to the
  database, whatever that client sends and whatever else happens at the server in between.\<close>

theorem messages_are_rationed:
  assumes "reachable ident s" "between_ticks ident c s n t"
  shows "n \<le> 20"
  using ration [OF assms(2,1)] by auto

lemma messages_are_rationed_witness: "\<exists>n s t. n \<noteq> 0 \<and> between_ticks sample_ident 0 s n t \<and> n \<le> 20"
proof -
  have "map_option (\<lambda>s. length (filter forwards (drop (length (sent sample_two)) (sent s))))
      (on_client_pdu sample_env 0 sample_spoof sample_two) = Some 1" by code_simp
  then obtain t where t: "on_client_pdu sample_env 0 sample_spoof sample_two = Some t"
    "length (filter forwards (drop (length (sent sample_two)) (sent t))) = 1" by auto
  have "0 < next_conn sample_two" by code_simp
  moreover have "named sample_spoof" by (simp add: named_def sample_spoof_def mk_pdu_def)
  ultimately have "between_ticks sample_ident 0 sample_two (0 + 1) t"
    using between_ticks.own [OF between_ticks.start _ _ t(1)] t(2) by metis
  with messages_are_rationed [OF sample_two_reachable this] show ?thesis by (intro exI conjI) auto
qed

section \<open>Where the login check fails\<close>

text \<open>The authorization check of \<open>HandlePdu\<close> never rejects a packet: it asks that the
  connection is not open and kicked, but only open connections are ever kicked. So a client that has
  not logged in can use every service; in particular its message is forwarded to the database, in
  the name of user 0.\<close>

theorem authorization_never_rejects:
  assumes "reachable ident s" "live s c" "\<not> c_open (conns s c)"
    and "p_cid p = CID_MSG_DATA" "p_body p = IMMsgData md a" "md_data md \<noteq> []" "\<not> CHECK_MSG_TYPE_SINGLE (md_type md) \<or> md_from md \<noteq> md_to_session md"
    and "c_msg_cnt_per_sec (conns s c) < MAX_MSG_CNT_PER_SECOND" "db_other e = Some d"
  shows "(\<forall>q k err. HandlePdu e k q s \<noteq> Some (Inl err)) \<and>
    (\<exists>s'. on_client_pdu e c p s = Some s' \<and> sent s' = sent s @ [ToDb d (p\<lparr>p_body :=
       IMMsgData (md\<lparr>md_from := 0, md_create_time := now e\<rparr>) (AttHandle (c_handle (conns s c)))\<rparr>)])"
proof -
  have k: "\<not> (\<not> c_open (conns s k) \<and> c_kick_off (conns s k))" for k
    using reachable_kick_ok [OF assms(1)] by (auto simp: kick_ok_def)
  have zero: "c_user_id (conns s c) = 0"
    by (rule core_closed_id [OF reachable_core [OF assms(1)] assms(3)])
  have "HandlePdu e c p s = map_option Inr (HandleClientMsgData e c p s)"
    using assms(4) k [of c] by (auto simp: HandlePdu_def dispatch_def)
  moreover have "\<exists>s'. HandleClientMsgData e c p s = Some s' \<and> sent s' = sent s @ [ToDb d (p\<lparr>p_body :=
       IMMsgData (md\<lparr>md_from := 0, md_create_time := now e\<rparr>) (AttHandle (c_handle (conns s c)))\<rparr>)]"
    using assms(5-) zero
    by (auto simp: HandleClientMsgData_def Let_def to_db_def emit_def upd_conn_def not_le)
  ultimately show ?thesis using k by (auto simp: HandlePdu_def on_client_pdu_def)
qed

lemma authorization_never_rejects_witness:
  "\<exists>s'. on_client_pdu sample_env 0 sample_spoof sample_two = Some s' \<and> sent s' \<noteq> []"
proof -
  obtain md where p: "p_cid sample_spoof = CID_MSG_DATA" "p_body sample_spoof = IMMsgData md AttNone" "md_data md \<noteq> []"
    "\<not> CHECK_MSG_TYPE_SINGLE (md_type md) \<or> md_from md \<noteq> md_to_session md"
    by (simp add: sample_spoof_def mk_pdu_def)
  have s: "live sample_two 0" "\<not> c_open (conns sample_two 0)" "c_msg_cnt_per_sec (conns sample_two 0) < MAX_MSG_CNT_PER_SECOND"
    by code_simp+
  have "db_other sample_env = Some 1" by (simp add: sample_env_def)
  from authorization_never_rejects [OF sample_two_reachable s(1,2) p s(3) this] show ?thesis by auto
qed

text \<open>C9: When two open connections wait for the validation of the same login name and one of them closes,
  for whatever reason, the user object goes with it: the other connection stays open, but the answer of
  the database to its login is ignored, whatever it is.\<close>

theorem close_loses_pending_login:
  assumes reach: "reachable ident s" and c: "live s c" "\<not> c_open (conns s c)" and live_k: "live s k"
    and u: "GetImUserByLoginName s (c_login_name (conns s c)) = Some u" "users s u = Some usr" "u_conn_map usr = []"
    and k: "k \<in> set (u_unvalidate_conn_set usr)" "k \<noteq> c"
  shows "\<exists>s'. Close c s = Some s' \<and> live s' k \<and> \<not> c_open (conns s' k) \<and>
    (\<forall>e p result rs info a. p_body p = IMValidateRsp (c_login_name (conns s k)) result rs info a \<longrightarrow> HandleValidateResponse e p s' = Some s')"
proof -
  let ?h = "c_handle (conns s c)" and ?n = "c_login_name (conns s c)"
  have inv: "core_inv ident {} s" by (rule reachable_core [OF reach])
  have h: "?h \<noteq> NETLIB_INVALID_HANDLE" using core_invD(1) [OF inv] c by (auto simp: core_conns_def live_def)
  have i: "c_user_id (conns s c) = 0" by (rule core_closed_id [OF inv c(2)])
  have none: "GetImUserById s 0 = None" by (rule core_no_zero [OF inv])
  have uname: "u_login_name usr = ?n" using core_by_name [OF inv u(1)] u(2) by auto
  have live: "live s k" "\<not> c_open (conns s k)" "c_login_name (conns s k) = ?n"
    using live_k core_user_pending [OF core_invD(3) [OF inv u(2)] k(1)] uname by simp_all
  let ?s0 = "(emit (CloseSocket c) s)\<lparr>msg_conn_map := map_erase ?h (msg_conn_map s)\<rparr>"
  let ?usr = "DelUnValidateMsgConn c usr"
  let ?s1 = "?s0\<lparr>users := (users s)(u \<mapsto> ?usr)\<rparr>"
  let ?s2 = "without_user u ?usr ?s1"
  have "upd_user u (DelUnValidateMsgConn c) ?s0 = Some ?s1" by (simp add: upd_user_def u(2))
  moreover have "RemoveIfEmpty u ?s1 = Some ?s2"
    using u(3) by (simp add: RemoveIfEmpty_def IsMsgConnEmpty_def DelUnValidateMsgConn_def RemoveImUser_eq)
  ultimately have close: "Close c s = Some ?s2"
    using none u(1) by (simp add: Close_def Let_def h i GetImUserById_def GetImUserByLoginName_def)
  have "c_handle (conns s k) \<noteq> ?h" using live(1) c(1) k(2) by (auto simp: live_def)
  then have "live ?s2 k" using live(1) by (simp add: live_def without_user_def)
  moreover have "GetImUserByLoginName ?s2 ?n = None"
    by (simp add: GetImUserByLoginName_def without_user_def DelUnValidateMsgConn_def uname)
  ultimately show ?thesis using close live
    by (intro exI [of _ ?s2]) (auto simp: HandleValidateResponse_def without_user_def)
qed

lemma close_loses_pending_login_witness:
  "\<exists>s s'. sample_pending = Some s \<and> Close 0 s = Some s' \<and> live s' 1 \<and>
     HandleValidateResponse sample_env (sample_validated 6) s' = Some s'"
proof -
  obtain s where s: "sample_pending = Some s" "orderly sample_ident s" by (rule sample_pending_orderly)
  have "map_option (\<lambda>s. live s 1 \<and> live s 0 \<and> \<not> c_open (conns s 0) \<and> c_login_name (conns s 0) = ''ann'' \<and> c_login_name (conns s 1) = ''ann'' \<and>
      GetImUserByLoginName s ''ann'' = Some 0 \<and>
      map_option (\<lambda>usr. length (u_conn_map usr) = 0 \<and> 1 \<in> set (u_unvalidate_conn_set usr)) (users s 0) = Some True) sample_pending = Some True"
    by code_simp
  from this [unfolded s(1)] obtain usr where usr: "live s 0" "\<not> c_open (conns s 0)" "live s 1" "c_login_name (conns s 0) = ''ann''" "c_login_name (conns s 1) = ''ann''"
    "GetImUserByLoginName s ''ann'' = Some 0" "users s 0 = Some usr" "u_conn_map usr = []" "1 \<in> set (u_unvalidate_conn_set usr)" by auto
  have "GetImUserByLoginName s (c_login_name (conns s 0)) = Some 0" using usr by simp
  from close_loses_pending_login [OF orderly_reachable [OF s(2)] usr(1-3) this usr(7-9)] usr(5)
  obtain s' where "Close 0 s = Some s'" "live s' 1"
    "\<forall>e p result rs info a. p_body p = IMValidateRsp ''ann'' result rs info a \<longrightarrow> HandleValidateResponse e p s' = Some s'" by auto
  with s(1) show ?thesis by (auto simp: sample_validated_def mk_pdu_def)
qed

section \<open>Delivery\<close>

text \<open>The connections of a user in the order in which a broadcast visits them.\<close>

definition conns_of :: "server \<Rightarrow> uid \<Rightarrow> nat list" where
  "conns_of s i = (case GetImUserById s i of None \<Rightarrow> []
     | Some u \<Rightarrow> (case users s u of None \<Rightarrow> [] | Some usr \<Rightarrow> map snd (u_conn_map usr)))"

definition copies :: "pdu \<Rightarrow> nat list \<Rightarrow> out list" where
  "copies p cs = map (\<lambda>c. ToClient c p) cs"

definition route_copy :: "env \<Rightarrow> pdu \<Rightarrow> out list" where
  "route_copy e p = (case route_conn e of None \<Rightarrow> [] | Some r \<Rightarrow> [ToRoute r p])"

lemma sent_emit [simp]: "sent (emit x s) = sent s @ [x]"
  by (simp add: emit_def)

lemma sent_send_where: "sent (send_where ok p usr s) = sent s @ copies p (filter ok (map snd (u_conn_map usr)))"
proof -
  have "sent (fold (\<lambda>(h, c) s. if ok c then emit (ToClient c p) s else s) m s) = sent s @ copies p (filter ok (map snd m))" for m
    by (induction m arbitrary: s) (auto simp: copies_def)
  then show ?thesis by (simp add: send_where_def)
qed

lemma sent_AddToSendList [simp]: "sent (AddToSendList e c i j s) = sent s"
  by (simp add: AddToSendList_def upd_conn_def Let_def)

lemma sent_BroadcastClientMsgData:
  "sent (BroadcastClientMsgData e p i from j usr s) = sent s @ copies p (filter (\<lambda>c. Some c \<noteq> from) (map snd (u_conn_map usr)))"
proof -
  have "sent (fold (\<lambda>(h, c) s. if Some c \<noteq> from then AddToSendList e c i j (emit (ToClient c p) s) else s) m s)
      = sent s @ copies p (filter (\<lambda>c. Some c \<noteq> from) (map snd m))" for m
    by (induction m arbitrary: s) (auto simp: copies_def)
  then show ?thesis by (simp add: BroadcastClientMsgData_def)
qed

lemma BroadcastClientMsgData_tables:
  "users (BroadcastClientMsgData e p i from j usr s) = users s" "user_map (BroadcastClientMsgData e p i from j usr s) = user_map s"
  using quiet_BroadcastClientMsgData [of "\<lambda>m. ()" "\<lambda>x. True" p s s e i "from" j usr] by (simp_all add: quiet_def)

lemma sent_to_route: "sent (to_route e p s) = sent s @ route_copy e p"
  by (simp add: to_route_def route_copy_def split: option.split)

lemma deliver_sent:
  assumes "ids_live s" "target = GetImUserById s i" "users s' = users s"
  obtains s'' where "deliver e p m fc j target s' = Some s''" "users s'' = users s"
    "sent s'' = sent s' @ copies p (filter (\<lambda>c. Some c \<noteq> fc) (conns_of s i))"
proof (cases "GetImUserById s i")
  case None
  with assms that [of s'] show ?thesis by (simp add: deliver_def conns_of_def copies_def)
next
  case (Some u)
  with assms(1) obtain usr where "users s u = Some usr" by (auto simp: ids_live_def GetImUserById_def)
  with Some assms show ?thesis
    by (intro that [of "BroadcastClientMsgData e p m fc j usr s'"])
      (simp_all add: deliver_def conns_of_def sent_BroadcastClientMsgData BroadcastClientMsgData_tables)
qed

text \<open>C5: A stored message to a user is acknowledged to the connection it came from, passed to the
  route servers, and delivered to every connection of its sender but that one and to every connection of
  its receiver; then the device tokens of the receiver are asked for. Nothing else is sent.\<close>

theorem message_is_delivered:
  assumes "reachable ident s" "p_body p = IMMsgData md a" "\<not> CHECK_MSG_TYPE_GROUP (md_type md)" "md_msg_id md \<noteq> 0"
  shows "\<exists>s' c. HandleMsgData d e p s = Some s' \<and> GetMsgConnByHandle s (md_from md) (att_handle e a) = Some c \<and>
    sent s' = sent s
      @ (case c of None \<Rightarrow> [] | Some k \<Rightarrow> [ToClient k (mk_pdu SID_MSG CID_MSG_DATA_ACK (p_seq p)
          (IMMsgDataAck (md_from md) (md_msg_id md) (md_to_session md) SESSION_TYPE_SINGLE))])
      @ route_copy e p
      @ copies (p\<lparr>p_body := IMMsgData md AttNone, p_seq := 0\<rparr>) (filter (\<lambda>k. Some k \<noteq> c) (conns_of s (md_from md)))
      @ copies (p\<lparr>p_body := IMMsgData md AttNone, p_seq := 0\<rparr>) (conns_of s (md_to_session md))
      @ [ToDb d (mk_pdu SID_OTHER CID_OTHER_GET_DEVICE_TOKEN_REQ 0 (IMGetDeviceTokenReq [md_to_session md] (IMMsgData md AttNone)))]"
proof -
  let ?q = "p\<lparr>p_body := IMMsgData md AttNone, p_seq := 0\<rparr>"
  have ids: "ids_live s" by (rule reachable_ids [OF assms(1)])
  obtain c where c: "GetMsgConnByHandle s (md_from md) (att_handle e a) = Some c" using lookup_conn_ok [OF ids] by blast
  define s1 where "s1 = to_route e p (to_client c (mk_pdu SID_MSG CID_MSG_DATA_ACK (p_seq p)
          (IMMsgDataAck (md_from md) (md_msg_id md) (md_to_session md) SESSION_TYPE_SINGLE)) s)"
  have tab: "users s1 = users s" "user_map s1 = user_map s"
    by (auto simp: s1_def to_route_def to_client_def split: option.split)
  then have id: "GetImUserById s1 i = GetImUserById s i" for i by (simp add: GetImUserById_def)
  obtain s2 where s2: "deliver e ?q (md_msg_id md) c (md_from md) (GetImUserById s (md_from md)) s1 = Some s2" "users s2 = users s"
    "sent s2 = sent s1 @ copies ?q (filter (\<lambda>k. Some k \<noteq> c) (conns_of s (md_from md)))"
    by (rule deliver_sent [OF ids refl tab(1), where e = e and p = ?q and m = "md_msg_id md" and fc = c and j = "md_from md" and i = "md_from md"]) (rule that)
  obtain s3 where s3: "deliver e ?q (md_msg_id md) None (md_from md) (GetImUserById s (md_to_session md)) s2 = Some s3"
    "sent s3 = sent s2 @ copies ?q (filter (\<lambda>k. Some k \<noteq> None) (conns_of s (md_to_session md)))"
    by (rule deliver_sent [OF ids refl s2(2), where e = e and p = ?q and m = "md_msg_id md" and fc = None and j = "md_from md" and i = "md_to_session md"]) (rule that)
  have "HandleMsgData d e p s = Some (emit (ToDb d (mk_pdu SID_OTHER CID_OTHER_GET_DEVICE_TOKEN_REQ 0
      (IMGetDeviceTokenReq [md_to_session md] (IMMsgData md AttNone)))) s3)"
    using assms(2-4) c s2(1) s3(1) by (simp add: HandleMsgData_def Let_def id s1_def [symmetric])
  moreover have "sent s1 = sent s @ (case c of None \<Rightarrow> [] | Some k \<Rightarrow> [ToClient k (mk_pdu SID_MSG CID_MSG_DATA_ACK (p_seq p)
          (IMMsgDataAck (md_from md) (md_msg_id md) (md_to_session md) SESSION_TYPE_SINGLE))]) @ route_copy e p"
    by (simp add: s1_def sent_to_route to_client_def split: option.split)
  ultimately show ?thesis using c s2(3) s3(2) by auto
qed

lemma message_is_delivered_witness:
  "\<exists>s s' c. sample_online = Some s \<and> conns_of s 7 = [0] \<and> HandleMsgData 3 sample_env
      (mk_pdu SID_MSG CID_MSG_DATA 4 (IMMsgData \<lparr>md_from = 9, md_to_session = 7, md_msg_id = 1, md_create_time = 0,
         md_type = MSG_TYPE_SINGLE_TEXT, md_data = ''hi''\<rparr> AttNone)) s = Some s' \<and>
     GetMsgConnByHandle s 9 (att_handle sample_env AttNone) = Some c \<and> (\<exists>q. ToClient 0 q \<in> set (sent s'))"
proof -
  obtain s where s: "sample_online = Some s" "reachable sample_ident s" by (rule sample_online_reachable)
  have "map_option (\<lambda>s. conns_of s 7 = [0]) sample_online = Some True" by code_simp
  from this [unfolded s(1)] have c: "conns_of s 7 = [0]" by simp
  let ?md = "\<lparr>md_from = 9, md_to_session = 7, md_msg_id = 1, md_create_time = 0, md_type = MSG_TYPE_SINGLE_TEXT, md_data = ''hi''\<rparr>"
  have single: "\<not> CHECK_MSG_TYPE_GROUP (md_type ?md)" by (simp add: CHECK_MSG_TYPE_GROUP_def)
  have body: "p_body (mk_pdu SID_MSG CID_MSG_DATA 4 (IMMsgData ?md AttNone)) = IMMsgData ?md AttNone" and stored: "md_msg_id ?md \<noteq> 0"
    by (simp_all add: mk_pdu_def)
  from message_is_delivered [OF s(2) body single stored, of 3 sample_env]
  have "\<exists>s' k. HandleMsgData 3 sample_env (mk_pdu SID_MSG CID_MSG_DATA 4 (IMMsgData ?md AttNone)) s = Some s' \<and>
      GetMsgConnByHandle s (md_from ?md) (att_handle sample_env AttNone) = Some k \<and>
      (\<forall>c\<in>set (conns_of s (md_to_session ?md)). \<exists>q. ToClient c q \<in> set (sent s'))"
    by (elim exE conjE) (intro exI conjI, assumption, assumption, simp only:, auto simp: copies_def)
  then show ?thesis using s(1) c by auto
qed

lemma distribute_sent:
  assumes "ids_live s" "users s' = users s" "user_map s' = user_map s"
  shows "\<exists>s''. distribute q i h ms s' = Some s'' \<and> sent s'' = sent s' @ concat (map (\<lambda>m. copies q (filter (\<lambda>k.
      \<not> (m = i \<and> h \<noteq> 0 \<and> GetMsgConnByHandle s i h = Some (Some k))) (conns_of s m))) ms)"
  using assms(2,3)
proof (induction ms arbitrary: s')
  case (Cons m ms)
  have id: "GetImUserById s' j = GetImUserById s j" for j using Cons.prems by (simp add: GetImUserById_def)
  have by_handle: "GetMsgConnByHandle s' j k = GetMsgConnByHandle s j k" for j k
    unfolding GetMsgConnByHandle_def id Cons.prems(1) by (rule refl)
  show ?case
  proof (cases "GetImUserById s m")
    case None
    with Cons.IH [OF Cons.prems] show ?thesis by (simp add: id conns_of_def copies_def)
  next
    case (Some u)
    with assms(1) obtain usr where usr: "users s u = Some usr" by (auto simp: ids_live_def GetImUserById_def)
    obtain fc where fc: "(if m = i \<and> h \<noteq> 0 then GetMsgConnByHandle s' i h else Some None) = Some fc"
      using lookup_conn_ok [OF assms(1), of i h] by_handle by (cases "m = i \<and> h \<noteq> 0") auto
    have filt: "Some k \<noteq> fc \<longleftrightarrow> \<not> (m = i \<and> h \<noteq> 0 \<and> GetMsgConnByHandle s i h = Some (Some k))" for k
      using fc by_handle by (auto split: if_splits)
    let ?s = "BroadcastData q fc usr s'"
    have "quiet (\<lambda>m. ()) (\<lambda>x. True) s' ?s" unfolding BroadcastData_def by (rule quiet_send_where) simp_all
    then have "users ?s = users s" "user_map ?s = user_map s" using Cons.prems by (simp_all add: quiet_def)
    from Cons.IH [OF this] obtain s'' where s'': "distribute q i h ms ?s = Some s''"
      "sent s'' = sent ?s @ concat (map (\<lambda>m. copies q (filter (\<lambda>k.
        \<not> (m = i \<and> h \<noteq> 0 \<and> GetMsgConnByHandle s i h = Some (Some k))) (conns_of s m))) ms)" by blast
    have "distribute q i h (m # ms) s' = Some s''"
      using Some usr fc s''(1) Cons.prems(1) by (simp add: id)
    moreover have "conns_of s m = map snd (u_conn_map usr)" using Some usr by (simp add: conns_of_def)
    ultimately show ?thesis using s''(2) by (simp add: BroadcastData_def sent_send_where filt del: filter_map)
  qed
qed simp

text \<open>C6: When the members of a group are known, a message to it is delivered to all connections of all
  its members and of nobody else, except the connection it was sent from, and then the shield settings
  of the members are asked for; a message of someone who is no member is delivered to nobody.\<close>

theorem group_message_reaches_members:
  assumes "reachable ident s" "p_body p = IMGroupInfoListRsp i (g # gs) a" "att_pdu a = Some (IMMsgData md ma)"
  shows "\<exists>s'. HandleGroupInfoResponse e p s = Some s' \<and> sent s' = sent s @
    (if i \<notin> set (gi_members g) then []
     else concat (map (\<lambda>m. copies (mk_pdu SID_MSG CID_MSG_DATA 0 (IMMsgData md ma)) (filter (\<lambda>k.
            \<not> (m = i \<and> att_handle e a \<noteq> 0 \<and> GetMsgConnByHandle s i (att_handle e a) = Some (Some k))) (conns_of s m))) (gi_members g))
        @ (case db_other e of None \<Rightarrow> [] | Some d \<Rightarrow> [ToDb d (mk_pdu SID_OTHER CID_OTHER_GET_SHIELD_REQ 0
            (IMGroupGetShieldReq (gi_group_id g) (gi_members g) (IMMsgData md ma)))]))"
proof (cases "i \<in> set (gi_members g)")
  case True
  obtain s' where "distribute (mk_pdu SID_MSG CID_MSG_DATA 0 (IMMsgData md ma)) i (att_handle e a) (gi_members g) s = Some s'"
    "sent s' = sent s @ concat (map (\<lambda>m. copies (mk_pdu SID_MSG CID_MSG_DATA 0 (IMMsgData md ma)) (filter (\<lambda>k.
        \<not> (m = i \<and> att_handle e a \<noteq> 0 \<and> GetMsgConnByHandle s i (att_handle e a) = Some (Some k))) (conns_of s m))) (gi_members g))"
    using distribute_sent [OF reachable_ids [OF assms(1)] refl refl] by blast
  with True assms(2,3) show ?thesis by (auto simp: HandleGroupInfoResponse_def to_db_def split: option.split)
next
  case False
  with assms(2,3) show ?thesis by (simp add: HandleGroupInfoResponse_def)
qed

lemma group_message_reaches_members_witness:
  "\<exists>s s' q. sample_online = Some s \<and> HandleGroupInfoResponse sample_env
      (mk_pdu SID_GROUP CID_GROUP_INFO_RESPONSE 0 (IMGroupInfoListRsp 9 [\<lparr>gi_group_id = 2, gi_members = [9, 7], gi_details = []\<rparr>]
        (AttPdu 0 (IMMsgData \<lparr>md_from = 9, md_to_session = 2, md_msg_id = 1, md_create_time = 0, md_type = MSG_TYPE_GROUP_TEXT,
          md_data = ''hi''\<rparr> AttNone)))) s = Some s' \<and> ToClient 0 q \<in> set (sent s')"
proof -
  obtain s where s: "sample_online = Some s" "reachable sample_ident s" by (rule sample_online_reachable)
  have "map_option (\<lambda>s. conns_of s 7 = [0]) sample_online = Some True" by code_simp
  from this [unfolded s(1)] have c: "conns_of s 7 = [0]" by simp
  let ?m = "IMMsgData \<lparr>md_from = 9, md_to_session = 2, md_msg_id = 1, md_create_time = 0, md_type = MSG_TYPE_GROUP_TEXT, md_data = ''hi''\<rparr> AttNone"
  let ?p = "mk_pdu SID_GROUP CID_GROUP_INFO_RESPONSE 0 (IMGroupInfoListRsp 9 [\<lparr>gi_group_id = 2, gi_members = [9, 7], gi_details = []\<rparr>] (AttPdu 0 ?m))"
  have "att_pdu (AttPdu 0 ?m) = Some ?m" "p_body ?p = IMGroupInfoListRsp 9 [\<lparr>gi_group_id = 2, gi_members = [9, 7], gi_details = []\<rparr>] (AttPdu 0 ?m)"
    by (simp_all add: att_pdu_def mk_pdu_def)
  from group_message_reaches_members [OF s(2) this(2,1), of sample_env]
  obtain s' where "HandleGroupInfoResponse sample_env ?p s = Some s'" "ToClient 0 (mk_pdu SID_MSG CID_MSG_DATA 0 ?m) \<in> set (sent s')"
    by (auto simp: c copies_def)
  with s(1) show ?thesis by blast
qed

end
