(* ===== verification/Msg_Serv.thy ===== *)
theory Msg_Serv
  imports "HOL-Library.Monad_Syntax" Msg_Types
begin

text \<open>
  The connections of the message server to other servers: the reconnecting server list of
  \<open>base/ServInfo.h\<close>, its use for login servers (\<open>msgserver/LoginServConn.cpp\<close>) and for database
  servers (\<open>msgserver/DBServConn.cpp\<close>), and the choice of a database connection. A connection
  object is stored in the slot of its server; the connection map takes handles to slots. It is a
  hash map, so the order in which a timer visits it is a parameter. What
  \<open>netlib_connect\<close> returns for a slot is a parameter as well.
\<close>

section \<open>State\<close>

abbreviation "MAX_RECONNECT_CNT \<equiv> (64 :: u32)"
abbreviation "MIN_RECONNECT_CNT \<equiv> (4 :: u32)"
abbreviation "SERVER_HEARTBEAT_INTERVAL \<equiv> (5000 :: nat)"
abbreviation "SERVER_TIMEOUT \<equiv> (30000 :: nat)"

record serv_conn =
  sc_open :: bool
  sc_handle :: handle
  sc_last_send :: nat
  sc_last_recv :: nat

record serv_info =
  si_idle_cnt :: u32
  si_reconnect_cnt :: u32
  si_conn :: "serv_conn option"

record servers =
  server_list :: "serv_info list"
  serv_conn_map :: "(handle, nat) std_map"
  heartbeats :: "nat list"

section \<open>The reconnecting server list\<close>

definition upd_slot :: "nat \<Rightarrow> (serv_info \<Rightarrow> serv_info) \<Rightarrow> servers \<Rightarrow> servers" where
  "upd_slot i f st =
     (if i < length (server_list st) then st\<lparr>server_list := (server_list st)[i := f (server_list st ! i)]\<rparr> else st)"

definition slot_conn :: "servers \<Rightarrow> nat \<Rightarrow> serv_conn option" where
  "slot_conn st i = (if i < length (server_list st) then si_conn (server_list st ! i) else None)"

definition upd_serv_conn :: "nat \<Rightarrow> (serv_conn \<Rightarrow> serv_conn) \<Rightarrow> servers \<Rightarrow> servers" where
  "upd_serv_conn i f = upd_slot i (\<lambda>x. x\<lparr>si_conn := map_option f (si_conn x)\<rparr>)"

text \<open>\<open>new T()\<close>, \<open>Connect\<close> and the assignment to the slot.\<close>

definition Connect :: "nat \<Rightarrow> handle \<Rightarrow> nat \<Rightarrow> servers \<Rightarrow> servers" where
  "Connect t h i st =
     (let st = (if h \<noteq> NETLIB_INVALID_HANDLE then st\<lparr>serv_conn_map := map_insert h i (serv_conn_map st)\<rparr> else st)
      in upd_slot i (\<lambda>x. x\<lparr>si_conn := Some \<lparr>sc_open = False, sc_handle = h, sc_last_send = t, sc_last_recv = t\<rparr>\<rparr>) st)"

fun serv_init :: "nat \<Rightarrow> (nat \<Rightarrow> handle) \<Rightarrow> nat list \<Rightarrow> servers \<Rightarrow> servers" where
  "serv_init t net [] st = st"
| "serv_init t net (i # is) st =
     serv_init t net is
       (upd_slot i (\<lambda>x. x\<lparr>si_idle_cnt := 0, si_reconnect_cnt := MIN_RECONNECT_CNT div 2\<rparr>) (Connect t (net i) i st))"

definition check_slot :: "nat \<Rightarrow> (nat \<Rightarrow> handle) \<Rightarrow> nat \<Rightarrow> servers \<Rightarrow> servers" where
  "check_slot t net i st =
     (if i < length (server_list st) \<and> si_conn (server_list st ! i) = None then
        (let st = upd_slot i (\<lambda>x. x\<lparr>si_idle_cnt := si_idle_cnt x + 1\<rparr>) st
         in if si_idle_cnt (server_list st ! i) \<ge> si_reconnect_cnt (server_list st ! i)
            then Connect t (net i) i st else st)
      else st)"

definition serv_check_reconnect :: "nat \<Rightarrow> (nat \<Rightarrow> handle) \<Rightarrow> servers \<Rightarrow> servers" where
  "serv_check_reconnect t net st = fold (check_slot t net) [0..<length (server_list st)] st"

definition next_reconnect :: "u32 \<Rightarrow> u32" where
  "next_reconnect n = (if n * 2 > MAX_RECONNECT_CNT then MIN_RECONNECT_CNT else n * 2)"

definition serv_reset :: "nat \<Rightarrow> servers \<Rightarrow> servers" where
  "serv_reset i = upd_slot i (\<lambda>x. x\<lparr>si_conn := None, si_idle_cnt := 0, si_reconnect_cnt := next_reconnect (si_reconnect_cnt x)\<rparr>)"

section \<open>Connections\<close>

definition serv_close :: "nat \<Rightarrow> servers \<Rightarrow> servers" where
  "serv_close i st =
     (case slot_conn st i of
        None \<Rightarrow> st
      | Some c \<Rightarrow>
          let st = serv_reset i st
          in if sc_handle c \<noteq> NETLIB_INVALID_HANDLE
             then st\<lparr>serv_conn_map := map_erase (sc_handle c) (serv_conn_map st)\<rparr> else st)"

definition OnConfirm :: "nat \<Rightarrow> servers \<Rightarrow> servers" where
  "OnConfirm i st =
     upd_slot i (\<lambda>x. x\<lparr>si_reconnect_cnt := MIN_RECONNECT_CNT div 2\<rparr>) (upd_serv_conn i (\<lambda>c. c\<lparr>sc_open := True\<rparr>) st)"

definition stop_receive :: "nat \<Rightarrow> servers \<Rightarrow> servers" where
  "stop_receive i = upd_serv_conn i (\<lambda>c. c\<lparr>sc_open := False\<rparr>)"

definition serv_on_timer :: "nat \<Rightarrow> nat \<Rightarrow> servers \<Rightarrow> servers" where
  "serv_on_timer t i st =
     (case slot_conn st i of
        None \<Rightarrow> st
      | Some c \<Rightarrow>
          let st = (if t > sc_last_send c + SERVER_HEARTBEAT_INTERVAL
                    then (upd_serv_conn i (\<lambda>c. c\<lparr>sc_last_send := t\<rparr>) st)\<lparr>heartbeats := heartbeats st @ [i]\<rparr>
                    else st)
          in if t > sc_last_recv c + SERVER_TIMEOUT then serv_close i st else st)"

definition slot_open :: "servers \<Rightarrow> nat \<Rightarrow> bool" where
  "slot_open st i \<longleftrightarrow> (case slot_conn st i of None \<Rightarrow> False | Some c \<Rightarrow> sc_open c)"

definition login_server_conn_timer_callback ::
    "nat \<Rightarrow> (nat \<Rightarrow> handle) \<Rightarrow> ((handle \<times> nat) list \<Rightarrow> (handle \<times> nat) list) \<Rightarrow> servers \<Rightarrow> servers" where
  "login_server_conn_timer_callback t net order st =
     serv_check_reconnect t net (fold (\<lambda>(h, i). serv_on_timer t i) (order (serv_conn_map st)) st)"

definition db_server_conn_timer_callback ::
    "nat \<Rightarrow> (nat \<Rightarrow> handle) \<Rightarrow> ((handle \<times> nat) list \<Rightarrow> (handle \<times> nat) list) \<Rightarrow> servers \<Rightarrow> servers" where
  "db_server_conn_timer_callback t net order st =
     serv_check_reconnect t net
       (fold (\<lambda>(h, i) st. if slot_open st i then serv_on_timer t i st else st) (order (serv_conn_map st)) st)"

definition is_login_server_available :: "servers \<Rightarrow> bool" where
  "is_login_server_available st \<longleftrightarrow> list_ex (slot_open st) [0..<length (server_list st)]"

definition send_to_all_login_server :: "servers \<Rightarrow> nat list" where
  "send_to_all_login_server st = filter (slot_open st) [0..<length (server_list st)]"

section \<open>Choice of a database connection\<close>

text \<open>The loop draws random numbers until one hits an open connection; \<open>rs\<close> are the numbers that
  \<open>rand\<close> returns, and no result means that they ran out. The outer option is that, the inner one
  the null pointer.\<close>

fun draw :: "servers \<Rightarrow> nat \<Rightarrow> nat \<Rightarrow> nat list \<Rightarrow> nat option" where
  "draw st start stop [] = None"
| "draw st start stop (r # rs) =
     (let i = r mod (stop - start) + start in if slot_open st i then Some i else draw st start stop rs)"

definition get_db_server_conn_in_range :: "servers \<Rightarrow> nat \<Rightarrow> nat \<Rightarrow> nat list \<Rightarrow> nat option option" where
  "get_db_server_conn_in_range st start stop rs =
     (if list_ex (slot_open st) [start..<stop] then map_option Some (draw st start stop rs) else Some None)"

definition db_server_login_count :: "nat \<Rightarrow> nat \<Rightarrow> nat" where
  "db_server_login_count server_count concur_conn_cnt = server_count div concur_conn_cnt div 2 * concur_conn_cnt"

definition get_db_serv_conn_for_login :: "servers \<Rightarrow> nat \<Rightarrow> nat list \<Rightarrow> nat option option" where
  "get_db_serv_conn_for_login st login_count rs = do {
     d \<leftarrow> get_db_server_conn_in_range st 0 login_count rs;
     (if d = None then get_db_server_conn_in_range st login_count (length (server_list st)) rs else Some d)
   }"

definition get_db_serv_conn :: "servers \<Rightarrow> nat \<Rightarrow> nat list \<Rightarrow> nat option option" where
  "get_db_serv_conn st login_count rs = do {
     d \<leftarrow> get_db_server_conn_in_range st login_count (length (server_list st)) rs;
     (if d = None then get_db_server_conn_in_range st 0 login_count rs else Some d)
   }"

section \<open>Reconnecting\<close>

text \<open>One round of \<open>serv_check_reconnect\<close>, seen from one slot.\<close>

definition check_info :: "nat \<Rightarrow> handle \<Rightarrow> serv_info \<Rightarrow> serv_info" where
  "check_info t h x =
     (if si_conn x = None then
        (let x = x\<lparr>si_idle_cnt := si_idle_cnt x + 1\<rparr>
         in if si_idle_cnt x \<ge> si_reconnect_cnt x
            then x\<lparr>si_conn := Some \<lparr>sc_open = False, sc_handle = h, sc_last_send = t, sc_last_recv = t\<rparr>\<rparr> else x)
      else x)"

lemma upd_slot_simps [simp]:
  "length (server_list (upd_slot i f st)) = length (server_list st)"
  "serv_conn_map (upd_slot i f st) = serv_conn_map st"
  "i < length (server_list st) \<Longrightarrow> server_list (upd_slot i f st) = (server_list st)[i := f (server_list st ! i)]"
  by (simp_all add: upd_slot_def)

lemma upd_slot_other: "j \<noteq> i \<Longrightarrow> server_list (upd_slot i f st) ! j = server_list st ! j"
  by (simp add: upd_slot_def)

lemma Connect_list:
  "server_list (Connect t h i st) = server_list (upd_slot i (\<lambda>x. x\<lparr>si_conn :=
     Some \<lparr>sc_open = False, sc_handle = h, sc_last_send = t, sc_last_recv = t\<rparr>\<rparr>) st)"
  by (simp add: Connect_def upd_slot_def Let_def)

lemma check_slot_list:
  assumes "i < length (server_list st)"
  shows "server_list (check_slot t net i st) = (server_list st)[i := check_info t (net i) (server_list st ! i)]"
  using assms by (simp add: check_slot_def check_info_def Connect_list Let_def)

lemma serv_check_reconnect_slot:
  assumes "i < length (server_list st)"
  shows "length (server_list (serv_check_reconnect t net st)) = length (server_list st)"
    "server_list (serv_check_reconnect t net st) ! i = check_info t (net i) (server_list st ! i)"
proof -
  have "length (server_list (fold (check_slot t net) [0..<n] st)) = length (server_list st) \<and>
      (\<forall>j<length (server_list st). server_list (fold (check_slot t net) [0..<n] st) ! j =
        (if j < n then check_info t (net j) (server_list st ! j) else server_list st ! j))"
    if "n \<le> length (server_list st)" for n
    using that by (induction n) (auto simp: check_slot_list nth_list_update less_Suc_eq)
  from this [OF order_refl] assms show
    "length (server_list (serv_check_reconnect t net st)) = length (server_list st)"
    "server_list (serv_check_reconnect t net st) ! i = check_info t (net i) (server_list st ! i)"
    by (simp_all add: serv_check_reconnect_def)
qed

abbreviation check_rounds :: "(nat \<times> (nat \<Rightarrow> handle)) list \<Rightarrow> servers \<Rightarrow> servers" where
  "check_rounds rounds st \<equiv> fold (\<lambda>(t, net). serv_check_reconnect t net) rounds st"

lemma check_rounds_append: "check_rounds (xs @ ys) st = check_rounds ys (check_rounds xs st)"
  by simp

lemma check_rounds_slot:
  assumes i: "i < length (server_list st)" and x: "si_conn (server_list st ! i) = None" "si_idle_cnt (server_list st ! i) = 0"
    and r: "si_reconnect_cnt (server_list st ! i) = r"
  shows "length (server_list (check_rounds rounds st)) = length (server_list st) \<and>
    (if length rounds < unat r
     then si_conn (server_list (check_rounds rounds st) ! i) = None \<and>
       si_idle_cnt (server_list (check_rounds rounds st) ! i) = of_nat (length rounds) \<and>
       si_reconnect_cnt (server_list (check_rounds rounds st) ! i) = r
     else rounds = [] \<or> si_conn (server_list (check_rounds rounds st) ! i) \<noteq> None)"
proof (induction rounds rule: rev_induct)
  case Nil
  then show ?case using x r by simp
next
  case (snoc q rounds)
  obtain t net where q: "q = (t, net)" by (cases q)
  let ?st = "check_rounds rounds st"
  have len: "length (server_list ?st) = length (server_list st)" using snoc by simp
  with i have "i < length (server_list ?st)" by simp
  note slot = serv_check_reconnect_slot [OF this, of t net]
  have step: "check_rounds (rounds @ [q]) st = serv_check_reconnect t net ?st" by (simp add: q)
  show ?case
  proof (cases "length rounds < unat r")
    case True
    with snoc have y: "si_conn (server_list ?st ! i) = None" "si_idle_cnt (server_list ?st ! i) = of_nat (length rounds)"
      "si_reconnect_cnt (server_list ?st ! i) = r" by simp_all
    have "unat r < 2 ^ LENGTH(32)" by (rule unsigned_less)
    with True have small: "length rounds + 1 < 2 ^ 32" by simp
    have le: "r \<le> of_nat (length rounds) + 1 \<longleftrightarrow> unat r \<le> length rounds + 1"
    proof -
      have "unat (of_nat (length rounds + 1) :: u32) = length rounds + 1" unfolding unat_of_nat using small by simp
      then have "unat (of_nat (length rounds) + 1 :: u32) = length rounds + 1" by (simp add: add.commute)
      then show ?thesis by (simp add: word_le_nat_alt)
    qed
    show ?thesis
      unfolding step slot(1) len
      using True y le by (auto simp: slot(2) check_info_def Let_def)
  next
    case False
    show ?thesis
    proof (cases "rounds = []")
      case True
      with False have r0: "r = 0" by (simp add: unat_eq_0)
      with slot(2) x r show ?thesis unfolding step slot(1) len using True by (simp add: check_info_def Let_def)
    next
      case nonempty: False
      with False snoc have "si_conn (server_list ?st ! i) \<noteq> None" by simp
      then show ?thesis unfolding step slot(1) len using False by (auto simp: slot(2) check_info_def)
    qed
  qed
qed

text \<open>The reconnect counts that occur.\<close>

definition counts_ok :: "servers \<Rightarrow> bool" where
  "counts_ok st \<longleftrightarrow> (\<forall>x\<in>set (server_list st). si_reconnect_cnt x \<in> {2, 4, 8, 16, 32, 64})"

lemma next_reconnect_ok: "n \<in> {2, 4, 8, 16, 32, 64} \<Longrightarrow> next_reconnect n \<in> {4, 8, 16, 32, 64}"
  by (auto simp: next_reconnect_def)

lemma serv_close_slot:
  assumes "i < length (server_list st)" "si_conn (server_list st ! i) = Some c"
  shows "length (server_list (serv_close i st)) = length (server_list st)"
    "server_list (serv_close i st) ! i = (server_list st ! i)\<lparr>si_conn := None, si_idle_cnt := 0,
       si_reconnect_cnt := next_reconnect (si_reconnect_cnt (server_list st ! i))\<rparr>"
  using assms by (simp_all add: serv_close_def slot_conn_def serv_reset_def Let_def)

text \<open>C10: A connection to a database or login server that closes is opened again, after exactly as many
  timer rounds as the reconnect count of its slot says, which is then one of 4, 8, 16, 32 and 64; the
  counts double from one failure to the next and start again at 4 after 64.\<close>

theorem closed_server_is_retried:
  assumes "counts_ok st" "slot_conn st i = Some c"
  shows "let st' = serv_close i st; r = si_reconnect_cnt (server_list st' ! i)
    in r = next_reconnect (si_reconnect_cnt (server_list st ! i)) \<and> r \<in> {4, 8, 16, 32, 64} \<and>
       (\<forall>rounds. slot_conn (check_rounds rounds st') i = None \<longleftrightarrow> length rounds < unat r) \<and>
       map (\<lambda>k. (next_reconnect ^^ k) 2) [1, 2, 3, 4, 5, 6, 7] = [4, 8, 16, 32, 64, 4, 8]"
proof -
  let ?st = "serv_close i st"
  have i: "i < length (server_list st)" "si_conn (server_list st ! i) = Some c"
    using assms(2) by (simp_all add: slot_conn_def split: if_splits)
  note close = serv_close_slot [OF i]
  let ?r = "next_reconnect (si_reconnect_cnt (server_list st ! i))"
  have r: "?r \<in> {4, 8, 16, 32, 64}"
    using assms(1) i(1) by (intro next_reconnect_ok) (auto simp: counts_ok_def)
  have i': "i < length (server_list ?st)" using i(1) close(1) by simp
  have slot: "si_conn (server_list ?st ! i) = None" "si_idle_cnt (server_list ?st ! i) = 0" "si_reconnect_cnt (server_list ?st ! i) = ?r"
    by (simp_all add: close(2))
  have pos: "unat ?r \<noteq> 0" using r by auto
  have "slot_conn (check_rounds rounds ?st) i = None \<longleftrightarrow> length rounds < unat ?r" for rounds
    using check_rounds_slot [OF i' slot, of rounds] i' pos by (auto simp: slot_conn_def split: if_splits)
  moreover have "map (\<lambda>k. (next_reconnect ^^ k) 2) [1, 2, 3, 4, 5, 6, 7] = [4, 8, 16, 32, 64, 4, 8]"
    by code_simp
  ultimately show ?thesis using r slot(3) by (simp add: Let_def)
qed

definition sample_servers :: servers where
  "sample_servers = \<lparr>server_list = [\<lparr>si_idle_cnt = 0, si_reconnect_cnt = 2, si_conn =
     Some \<lparr>sc_open = True, sc_handle = 9, sc_last_send = 0, sc_last_recv = 0\<rparr>\<rparr>], serv_conn_map = [(9, 0)], heartbeats = []\<rparr>"

lemma closed_server_is_retried_witness:
  "slot_conn (check_rounds (replicate 3 (1, \<lambda>i. 5)) (serv_close 0 sample_servers)) 0 = None \<and>
   slot_conn (check_rounds (replicate 4 (1, \<lambda>i. 5)) (serv_close 0 sample_servers)) 0 \<noteq> None"
proof -
  have "counts_ok sample_servers" by (simp add: counts_ok_def sample_servers_def)
  moreover have "slot_conn sample_servers 0 = Some \<lparr>sc_open = True, sc_handle = 9, sc_last_send = 0, sc_last_recv = 0\<rparr>"
    by (simp add: slot_conn_def sample_servers_def)
  ultimately have "let st' = serv_close 0 sample_servers; r = si_reconnect_cnt (server_list st' ! 0)
    in r = next_reconnect (si_reconnect_cnt (server_list sample_servers ! 0)) \<and> r \<in> {4, 8, 16, 32, 64} \<and>
       (\<forall>rounds. slot_conn (check_rounds rounds st') 0 = None \<longleftrightarrow> length rounds < unat r) \<and>
       map (\<lambda>k. (next_reconnect ^^ k) 2) [1, 2, 3, 4, 5, 6, 7] = [4, 8, 16, 32, 64, 4, 8]"
    by (rule closed_server_is_retried)
  moreover have "si_reconnect_cnt (server_list (serv_close 0 sample_servers) ! 0) = 4" by code_simp
  ultimately have retried: "slot_conn (check_rounds rounds (serv_close 0 sample_servers)) 0 = None \<longleftrightarrow> length rounds < 4" for rounds
    by (simp add: Let_def)
  show ?thesis unfolding retried by simp
qed

section \<open>A connection that never came up\<close>

text \<open>\<open>i\<close> has a connection object without a handle, and no entry of the connection map leads to it.\<close>

definition stuck :: "nat \<Rightarrow> serv_info \<Rightarrow> servers \<Rightarrow> bool" where
  "stuck i x st \<longleftrightarrow> i < length (server_list st) \<and> server_list st ! i = x \<and>
     (\<exists>c. si_conn x = Some c \<and> sc_handle c = NETLIB_INVALID_HANDLE \<and> \<not> sc_open c) \<and> i \<notin> snd ` set (serv_conn_map st)"

lemma stuck_upd_slot: "stuck i x st \<Longrightarrow> j \<noteq> i \<Longrightarrow> stuck i x (upd_slot j f st)"
  by (simp add: stuck_def upd_slot_other)

lemma snd_map_put: "snd ` set (map_put k v m) \<subseteq> insert v (snd ` set m)"
  by (induction k v m rule: map_put.induct) auto

lemma snd_map_erase: "snd ` set (map_erase k m) \<subseteq> snd ` set m"
  by (auto simp: map_erase_def)

lemma stuck_put:
  assumes "stuck i x st" "j \<noteq> i"
  shows "stuck i x (st\<lparr>serv_conn_map := map_insert h j (serv_conn_map st)\<rparr>)"
proof -
  have "i \<notin> snd ` set (map_insert h j (serv_conn_map st))"
    using assms snd_map_put [of h j "serv_conn_map st"] by (auto simp: stuck_def map_insert_def split: option.split)
  with assms(1) show ?thesis by (simp add: stuck_def)
qed

lemma stuck_erase: "stuck i x st \<Longrightarrow> stuck i x (st\<lparr>serv_conn_map := map_erase h (serv_conn_map st)\<rparr>)"
  using snd_map_erase [of h "serv_conn_map st"] by (auto simp: stuck_def)

lemma stuck_Connect: "stuck i x st \<Longrightarrow> j \<noteq> i \<Longrightarrow> stuck i x (Connect t h j st)"
  by (auto simp: Connect_def Let_def intro: stuck_upd_slot stuck_put)

lemma stuck_check_slot:
  assumes "stuck i x st"
  shows "stuck i x (check_slot t net j st)"
proof (cases "j = i")
  case True
  then have "check_slot t net j st = st" using assms by (auto simp: check_slot_def stuck_def)
  with assms show ?thesis by simp
next
  case False
  with assms show ?thesis by (auto simp: check_slot_def Let_def intro!: stuck_Connect stuck_upd_slot)
qed

lemma stuck_serv_close:
  assumes "stuck i x st" "j \<noteq> i"
  shows "stuck i x (serv_close j st)"
proof -
  have r: "stuck i x (serv_reset j st)" unfolding serv_reset_def by (rule stuck_upd_slot [OF assms])
  have "serv_conn_map (serv_reset j st) = serv_conn_map st" by (simp add: serv_reset_def)
  with assms(1) r stuck_erase [OF r] show ?thesis by (auto simp: serv_close_def Let_def split: option.split)
qed

lemma stuck_on_timer:
  assumes "stuck i x st" "j \<noteq> i"
  shows "stuck i x (serv_on_timer t j st)"
proof -
  have "stuck i x ((upd_serv_conn j (\<lambda>c. c\<lparr>sc_last_send := t\<rparr>) st)\<lparr>heartbeats := hs\<rparr>)" for hs
    using stuck_upd_slot [OF assms] by (simp add: upd_serv_conn_def stuck_def)
  with assms show ?thesis
    by (auto simp: serv_on_timer_def Let_def split: option.split intro: stuck_serv_close)
qed

lemma stuck_fold:
  assumes "stuck i x st" "\<And>h j. (h, j) \<in> set m \<Longrightarrow> j \<noteq> i"
    and "\<And>h j st. stuck i x st \<Longrightarrow> j \<noteq> i \<Longrightarrow> stuck i x (f (h, j) st)"
  shows "stuck i x (fold f m st)"
  using assms(1,2)
proof (induction m arbitrary: st)
  case (Cons e m)
  obtain h j where e: "e = (h, j)" by (cases e)
  have "stuck i x (f e st)" unfolding e using Cons.prems e by (intro assms(3)) auto
  then have "stuck i x (fold f m (f e st))" by (rule Cons.IH) (use Cons.prems(2) in auto)
  then show ?case by simp
qed simp

text \<open>A timer callback for login servers (\<open>True\<close>) or for database servers.\<close>

definition timer_round :: "((handle \<times> nat) list \<Rightarrow> (handle \<times> nat) list) \<Rightarrow> bool \<times> nat \<times> (nat \<Rightarrow> handle) \<Rightarrow> servers \<Rightarrow> servers" where
  "timer_round order q = (case q of (login, t, net) \<Rightarrow>
     if login then login_server_conn_timer_callback t net order else db_server_conn_timer_callback t net order)"

lemma stuck_timer_round:
  assumes "stuck i x st" "\<And>m. set (order m) = set m"
  shows "stuck i x (timer_round order q st)"
proof -
  obtain login t net where q: "q = (login, t, net)" by (cases q)
  have j: "j \<noteq> i" if "(h, j) \<in> set (order (serv_conn_map st))" for h j
    using assms that by (force simp: stuck_def)
  have check: "stuck i x (serv_check_reconnect t net st')" if "stuck i x st'" for st'
  proof -
    have "stuck i x (fold (check_slot t net) js st')" for js
      using that by (induction js arbitrary: st') (auto intro: stuck_check_slot)
    then show ?thesis by (simp add: serv_check_reconnect_def)
  qed
  have "stuck i x (fold (\<lambda>(h, i). serv_on_timer t i) (order (serv_conn_map st)) st)"
    by (rule stuck_fold [OF assms(1) j]) (auto intro: stuck_on_timer)
  moreover have "stuck i x (fold (\<lambda>(h, i) st. if slot_open st i then serv_on_timer t i st else st) (order (serv_conn_map st)) st)"
    by (rule stuck_fold [OF assms(1) j]) (auto intro: stuck_on_timer)
  ultimately show ?thesis
    by (simp add: q timer_round_def login_server_conn_timer_callback_def db_server_conn_timer_callback_def check)
qed

text \<open>When \<open>netlib_connect\<close> fails at once, the slot keeps a connection object that is in no
  connection map: however many timer rounds follow, the server is never tried again.\<close>

theorem failed_connect_is_never_retried:
  assumes i: "i < length (server_list st)" "si_conn (server_list st ! i) = None" "i \<notin> snd ` set (serv_conn_map st)"
    and order: "\<And>m. set (order m) = set m"
  shows "slot_conn (fold (timer_round order) rounds (Connect t NETLIB_INVALID_HANDLE i st)) i =
    Some \<lparr>sc_open = False, sc_handle = NETLIB_INVALID_HANDLE, sc_last_send = t, sc_last_recv = t\<rparr>"
proof -
  let ?c = "\<lparr>sc_open = False, sc_handle = NETLIB_INVALID_HANDLE, sc_last_send = t, sc_last_recv = t\<rparr>"
  let ?x = "(server_list st ! i)\<lparr>si_conn := Some ?c\<rparr>"
  have "stuck i ?x (Connect t NETLIB_INVALID_HANDLE i st)"
    using i by (simp add: stuck_def Connect_def)
  then have "stuck i ?x (fold (timer_round order) rounds (Connect t NETLIB_INVALID_HANDLE i st))"
    by (induction rounds rule: rev_induct) (simp_all add: stuck_timer_round order)
  then show ?thesis by (simp add: stuck_def slot_conn_def)
qed

lemma failed_connect_is_never_retried_witness:
  "slot_conn (fold (timer_round (\<lambda>m. m)) (replicate 500 (False, 9, \<lambda>i. 5))
     (Connect 3 NETLIB_INVALID_HANDLE 0 (serv_close 0 sample_servers))) 0 =
   Some \<lparr>sc_open = False, sc_handle = NETLIB_INVALID_HANDLE, sc_last_send = 3, sc_last_recv = 3\<rparr>"
proof (rule failed_connect_is_never_retried)
  show "0 < length (server_list (serv_close 0 sample_servers))"
    "si_conn (server_list (serv_close 0 sample_servers) ! 0) = None"
    "0 \<notin> snd ` set (serv_conn_map (serv_close 0 sample_servers))"
    by (simp_all add: serv_close_def slot_conn_def serv_reset_def sample_servers_def upd_slot_def map_erase_def)
qed simp

section \<open>Which database connection is chosen\<close>

lemma draw_open: "draw st start stop rs = Some d \<Longrightarrow> start < stop \<Longrightarrow> slot_open st d \<and> start \<le> d \<and> d < stop"
proof (induction rs)
  case (Cons r rs)
  have "r mod (stop - start) + start < stop" using Cons.prems(2) mod_less_divisor [of "stop - start" r] by linarith
  with Cons show ?case by (auto simp: Let_def split: if_splits)
qed simp

lemma draw_hits:
  "slot_open st d \<Longrightarrow> start \<le> d \<Longrightarrow> d < stop \<Longrightarrow> d - start \<in> set rs \<Longrightarrow> draw st start stop rs \<noteq> None"
  by (induction rs) (auto simp: Let_def)

lemma in_range:
  "get_db_server_conn_in_range st start stop rs = Some (Some d) \<Longrightarrow> slot_open st d \<and> start \<le> d \<and> d < stop"
  "get_db_server_conn_in_range st start stop rs = Some None \<Longrightarrow> start \<le> d \<Longrightarrow> d < stop \<Longrightarrow> \<not> slot_open st d"
  "{..<stop} \<subseteq> set rs \<Longrightarrow> get_db_server_conn_in_range st start stop rs \<noteq> None"
proof -
  show "get_db_server_conn_in_range st start stop rs = Some (Some d) \<Longrightarrow> slot_open st d \<and> start \<le> d \<and> d < stop"
    using draw_open [of st start stop rs d]
    by (auto simp: get_db_server_conn_in_range_def list_ex_iff split: if_splits)
  show "get_db_server_conn_in_range st start stop rs = Some None \<Longrightarrow> start \<le> d \<Longrightarrow> d < stop \<Longrightarrow> \<not> slot_open st d"
    by (auto simp: get_db_server_conn_in_range_def list_ex_iff split: if_splits)
  assume "{..<stop} \<subseteq> set rs"
  then have "d - start \<in> set rs" if "start \<le> d" "d < stop" for d using that by (auto simp: subset_iff)
  then show "get_db_server_conn_in_range st start stop rs \<noteq> None"
    using draw_hits [of st _ start stop rs] by (auto simp: get_db_server_conn_in_range_def list_ex_iff)
qed

text \<open>A login goes to an open database connection, to one reserved for logins when one of these is
  open, and the other requests likewise to the others; there is none only when no connection at all is
  open; and the draw ends when the random numbers take every value below the number of connections.\<close>

theorem database_connection_chosen:
  assumes n: "n \<le> length (server_list st)" and rs: "{..<length (server_list st)} \<subseteq> set rs"
  shows "\<exists>login other. get_db_serv_conn_for_login st n rs = Some login \<and> get_db_serv_conn st n rs = Some other \<and>
    (case login of
       None \<Rightarrow> \<forall>d<length (server_list st). \<not> slot_open st d
     | Some d \<Rightarrow> slot_open st d \<and> (n \<le> d \<longrightarrow> (\<forall>k<n. \<not> slot_open st k))) \<and>
    (case other of
       None \<Rightarrow> \<forall>d<length (server_list st). \<not> slot_open st d
     | Some d \<Rightarrow> slot_open st d \<and> (d < n \<longrightarrow> (\<forall>k. n \<le> k \<and> k < length (server_list st) \<longrightarrow> \<not> slot_open st k)))"
proof -
  let ?N = "length (server_list st)"
  have low: "{..<n} \<subseteq> set rs" using n rs by (auto simp: subset_iff)
  obtain a where a: "get_db_server_conn_in_range st 0 n rs = Some a" using in_range(3) [OF low] by blast
  obtain b where b: "get_db_server_conn_in_range st n ?N rs = Some b" using in_range(3) [OF rs] by blast
  have none_a: "a = None \<Longrightarrow> d < n \<Longrightarrow> \<not> slot_open st d" for d using in_range(2) [of st 0 n rs d] a by simp
  have none_b: "b = None \<Longrightarrow> n \<le> d \<Longrightarrow> d < ?N \<Longrightarrow> \<not> slot_open st d" for d using in_range(2) [of st n ?N rs d] b by simp
  have some_a: "a = Some d \<Longrightarrow> slot_open st d \<and> d < n" for d using in_range(1) [of st 0 n rs d] a by simp
  have some_b: "b = Some d \<Longrightarrow> slot_open st d \<and> n \<le> d \<and> d < ?N" for d using in_range(1) [of st n ?N rs d] b by simp
  have "get_db_serv_conn_for_login st n rs = Some (if a = None then b else a)"
    "get_db_serv_conn st n rs = Some (if b = None then a else b)"
    using a b by (simp_all add: get_db_serv_conn_for_login_def get_db_serv_conn_def)
  moreover have "\<not> slot_open st d" if "a = None" "b = None" "d < ?N" for d
    using none_a [OF that(1), of d] none_b [OF that(2) _ that(3)] by (cases "d < n") auto
  ultimately show ?thesis using none_a none_b some_a some_b
    by (cases a; cases b) fastforce+
qed

lemma database_connection_chosen_witness: "\<exists>d. get_db_serv_conn_for_login sample_servers 0 [0] = Some (Some d)"
proof -
  have "0 \<le> length (server_list sample_servers)" "{..<length (server_list sample_servers)} \<subseteq> set [0]"
    by (auto simp: sample_servers_def)
  moreover have "slot_open sample_servers 0" by (simp add: sample_servers_def slot_open_def slot_conn_def)
  ultimately show ?thesis using database_connection_chosen [of 0 sample_servers "[0]"]
    by (auto simp: sample_servers_def split: option.splits)
qed

end
