(* ===== verification/Login_Dispatch.thy ===== *)
theory Login_Dispatch
  imports Msg_Serv Msg_Props
begin

text \<open>
  The login dispatch server: the connections of message servers and of clients
  (\<open>login_dispatch_server/LoginConn.cpp\<close>), the table of message servers with their user counts, and the
  choice of the server a client is sent to. A connection is named by its handle. A packet is what
  its handler reads from it; whether the body parses is not looked at by the code. The order in which
  a timer visits a hash map is a parameter. Receiving a packet leaves \<open>lastRecvTick\<close> as it is: no code
  of the repository assigns it after the constructor of \<open>ImConn\<close>.
\<close>

section \<open>State\<close>

record msg_serv =
  ms_ip1 :: string
  ms_ip2 :: string
  ms_port :: u16
  ms_max :: u32
  ms_cur :: u32
  ms_host :: string

datatype dispatch_msg = HeartBeat | MsgServInfo string string u32 u32 u32 string | UserCntUpdate u32 | OtherMsg

datatype dispatch_out = SendHeartBeat | ForceClose | MsgServRsp u32 "(string \<times> string \<times> u16) option" u16

record login_conn =
  lc_client :: bool
  lc_last_send :: nat
  lc_last_recv :: nat

record dispatch_server =
  g_client_conn_map :: "(handle, login_conn) std_map"
  g_msg_serv_conn_map :: "(handle, login_conn) std_map"
  g_msg_serv_info :: "(handle, msg_serv) std_map"
  g_total_online_user_cnt :: u32
  dispatched :: "(handle \<times> dispatch_out) list"

definition no_servers :: dispatch_server where
  "no_servers = \<lparr>g_client_conn_map = [], g_msg_serv_conn_map = [], g_msg_serv_info = [],
     g_total_online_user_cnt = 0, dispatched = []\<rparr>"

definition put_out :: "handle \<Rightarrow> dispatch_out \<Rightarrow> dispatch_server \<Rightarrow> dispatch_server" where
  "put_out h x s = s\<lparr>dispatched := dispatched s @ [(h, x)]\<rparr>"

definition find_conn :: "dispatch_server \<Rightarrow> handle \<Rightarrow> login_conn option" where
  "find_conn s h =
     (case map_find (g_client_conn_map s) h of
        Some c \<Rightarrow> Some c | None \<Rightarrow> map_find (g_msg_serv_conn_map s) h)"

definition put_conn :: "handle \<Rightarrow> login_conn \<Rightarrow> dispatch_server \<Rightarrow> dispatch_server" where
  "put_conn h c s = (if lc_client c then s\<lparr>g_client_conn_map := map_put h c (g_client_conn_map s)\<rparr>
                     else s\<lparr>g_msg_serv_conn_map := map_put h c (g_msg_serv_conn_map s)\<rparr>)"

lemma find_conn_fields [simp]: "find_conn (s\<lparr>g_msg_serv_info := m, g_total_online_user_cnt := n\<rparr>) h = find_conn s h"
  by (auto simp: find_conn_def split: option.split)

section \<open>Connections\<close>

definition OnConnect2 :: "nat \<Rightarrow> handle \<Rightarrow> bool \<Rightarrow> dispatch_server \<Rightarrow> dispatch_server" where
  "OnConnect2 t h client s =
     (let c = \<lparr>lc_client = client, lc_last_send = t, lc_last_recv = t\<rparr>
      in if client then s\<lparr>g_client_conn_map := map_insert h c (g_client_conn_map s)\<rparr>
         else s\<lparr>g_msg_serv_conn_map := map_insert h c (g_msg_serv_conn_map s)\<rparr>)"

definition login_Close :: "handle \<Rightarrow> login_conn \<Rightarrow> dispatch_server \<Rightarrow> dispatch_server" where
  "login_Close h c s =
     (if h = NETLIB_INVALID_HANDLE then s
      else
        let s = put_out h ForceClose s
        in if lc_client c then s\<lparr>g_client_conn_map := map_erase h (g_client_conn_map s)\<rparr>
           else
             let s = s\<lparr>g_msg_serv_conn_map := map_erase h (g_msg_serv_conn_map s)\<rparr>
             in case map_find (g_msg_serv_info s) h of
                  None \<Rightarrow> s
                | Some x \<Rightarrow> s\<lparr>g_total_online_user_cnt := g_total_online_user_cnt s - ms_cur x,
                              g_msg_serv_info := map_erase h (g_msg_serv_info s)\<rparr>)"

definition login_checkTimeout :: "nat \<Rightarrow> handle \<Rightarrow> login_conn \<Rightarrow> dispatch_server \<Rightarrow> dispatch_server" where
  "login_checkTimeout t h c s =
     (if lc_client c then
        (if t > lc_last_recv c + CLIENT_TIMEOUT then login_Close h c s else s)
      else
        let s = (if t > lc_last_send c + SERVER_HEARTBEAT_INTERVAL
                 then put_out h SendHeartBeat (put_conn h (c\<lparr>lc_last_send := t\<rparr>) s) else s)
        in if t > lc_last_recv c + SERVER_TIMEOUT then login_Close h c s else s)"

definition login_conn_timer_callback ::
    "nat \<Rightarrow> ((handle \<times> login_conn) list \<Rightarrow> (handle \<times> login_conn) list) \<Rightarrow> dispatch_server \<Rightarrow> dispatch_server" where
  "login_conn_timer_callback t order s =
     (let s = fold (\<lambda>(h, c). login_checkTimeout t h c) (order (g_client_conn_map s)) s
      in fold (\<lambda>(h, c). login_checkTimeout t h c) (order (g_msg_serv_conn_map s)) s)"

section \<open>Messages of the message servers\<close>

definition login_HandleMsgServInfo :: "handle \<Rightarrow> string \<Rightarrow> string \<Rightarrow> u32 \<Rightarrow> u32 \<Rightarrow> u32 \<Rightarrow> string \<Rightarrow> dispatch_server \<Rightarrow> dispatch_server" where
  "login_HandleMsgServInfo h ip1 ip2 port mx cur host s =
     (let x = \<lparr>ms_ip1 = ip1, ms_ip2 = ip2, ms_port = ucast port, ms_max = mx, ms_cur = cur, ms_host = host\<rparr>
      in s\<lparr>g_msg_serv_info := map_insert h x (g_msg_serv_info s),
           g_total_online_user_cnt := g_total_online_user_cnt s + cur\<rparr>)"

definition login_HandleUserCntUpdate :: "handle \<Rightarrow> u32 \<Rightarrow> dispatch_server \<Rightarrow> dispatch_server" where
  "login_HandleUserCntUpdate h action s =
     (case map_find (g_msg_serv_info s) h of
        None \<Rightarrow> s
      | Some x \<Rightarrow>
          if action = USER_CNT_INC
          then s\<lparr>g_msg_serv_info := map_put h (x\<lparr>ms_cur := ms_cur x + 1\<rparr>) (g_msg_serv_info s),
                 g_total_online_user_cnt := g_total_online_user_cnt s + 1\<rparr>
          else s\<lparr>g_msg_serv_info := map_put h (x\<lparr>ms_cur := ms_cur x - 1\<rparr>) (g_msg_serv_info s),
                 g_total_online_user_cnt := g_total_online_user_cnt s - 1\<rparr>)"

definition login_HandlePdu :: "handle \<Rightarrow> dispatch_msg \<Rightarrow> dispatch_server \<Rightarrow> dispatch_server" where
  "login_HandlePdu h m s =
     (case m of
        HeartBeat \<Rightarrow> s
      | MsgServInfo ip1 ip2 port mx cur host \<Rightarrow> login_HandleMsgServInfo h ip1 ip2 port mx cur host s
      | UserCntUpdate action \<Rightarrow> login_HandleUserCntUpdate h action s
      | OtherMsg \<Rightarrow> s)"

section \<open>The choice of a message server\<close>

fun min_conn :: "(handle, msg_serv) std_map \<Rightarrow> u32 \<Rightarrow> msg_serv option \<Rightarrow> msg_serv option" where
  "min_conn [] min_user_cnt best = best"
| "min_conn ((h, x) # es) min_user_cnt best =
     (if ms_cur x < ms_max x \<and> ms_cur x < min_user_cnt then min_conn es (ms_cur x) (Some x)
      else min_conn es min_user_cnt best)"

definition choose_server :: "(handle, msg_serv) std_map \<Rightarrow> msg_serv option" where
  "choose_server es = min_conn es (- 1) None"

abbreviation (input) "REFUSE_REASON_NO_MSG_SERVER \<equiv> (1 :: u32)"
abbreviation (input) "REFUSE_REASON_MSG_SERVER_FULL \<equiv> (2 :: u32)"

definition login_HandleMsgServRequest :: "handle \<Rightarrow> login_conn \<Rightarrow> u16 \<Rightarrow> dispatch_server \<Rightarrow> dispatch_server" where
  "login_HandleMsgServRequest h c seq s =
     login_Close h c (put_out h
       (if g_msg_serv_info s = [] then MsgServRsp REFUSE_REASON_NO_MSG_SERVER None seq
        else case choose_server (g_msg_serv_info s) of
               None \<Rightarrow> MsgServRsp REFUSE_REASON_MSG_SERVER_FULL None seq
             | Some x \<Rightarrow> MsgServRsp REFUSE_REASON_NONE (Some (ms_ip1 x, ms_ip2 x, ms_port x)) seq) s)"

section \<open>Runs\<close>

datatype dispatch_event =
    Connects nat handle bool
  | Receives handle dispatch_msg
  | Closes handle
  | Ticks nat

text \<open>An event for a handle that no connection has reaches nobody.\<close>

definition dispatch_step :: "((handle \<times> login_conn) list \<Rightarrow> (handle \<times> login_conn) list) \<Rightarrow> dispatch_event \<Rightarrow> dispatch_server \<Rightarrow> dispatch_server" where
  "dispatch_step order ev s =
     (case ev of
        Connects t h client \<Rightarrow> OnConnect2 t h client s
      | Receives h m \<Rightarrow> (case find_conn s h of None \<Rightarrow> s | Some c \<Rightarrow> login_HandlePdu h m s)
      | Closes h \<Rightarrow> (case find_conn s h of None \<Rightarrow> s | Some c \<Rightarrow> login_Close h c s)
      | Ticks t \<Rightarrow> login_conn_timer_callback t order s)"

definition dispatch_run :: "((handle \<times> login_conn) list \<Rightarrow> (handle \<times> login_conn) list) \<Rightarrow> dispatch_event list \<Rightarrow> dispatch_server \<Rightarrow> dispatch_server" where
  "dispatch_run order evs s = fold (dispatch_step order) evs s"

section \<open>The total is the sum\<close>

definition user_sum :: "(handle, msg_serv) std_map \<Rightarrow> u32" where
  "user_sum m = sum_list (map (ms_cur \<circ> snd) m)"

definition cur_of :: "(handle, msg_serv) std_map \<Rightarrow> handle \<Rightarrow> u32" where
  "cur_of m h = (case map_find m h of None \<Rightarrow> 0 | Some x \<Rightarrow> ms_cur x)"

lemma map_find_less: "map_ok ((k', v') # m) \<Longrightarrow> k < k' \<Longrightarrow> map_find m k = None"
  by (force simp: map_ok_def map_of_eq_None_iff)

lemma user_sum_put: "map_ok m \<Longrightarrow> user_sum (map_put h x m) = user_sum m - cur_of m h + ms_cur x"
proof (induction h x m rule: map_put.induct)
  case (2 h x k y m)
  then have "map_ok m" by (simp add: map_ok_def)
  with 2 show ?case using map_find_less [OF 2(2), of h] by (auto simp: user_sum_def cur_of_def)
qed (simp add: user_sum_def cur_of_def)

lemma user_sum_erase: "map_ok m \<Longrightarrow> user_sum (map_erase h m) = user_sum m - cur_of m h"
proof (induction m)
  case (Cons e m)
  then have m: "map_ok m" by (simp add: map_ok_def)
  show ?case
  proof (cases "fst e = h")
    case True
    from Cons(2) True have "h \<notin> fst ` set m" by (auto simp: map_ok_def)
    then have "map_erase h m = m" by (auto simp: map_erase_def filter_id_conv image_iff)
    with True show ?thesis by (cases e) (simp add: user_sum_def cur_of_def map_erase_def)
  next
    case False
    with Cons(1) [OF m] show ?thesis by (cases e) (simp add: user_sum_def cur_of_def map_erase_def)
  qed
qed (simp add: user_sum_def cur_of_def)

definition counts_right :: "u32 \<Rightarrow> dispatch_server \<Rightarrow> bool" where
  "counts_right extra s \<longleftrightarrow> map_ok (g_msg_serv_info s) \<and> g_total_online_user_cnt s = user_sum (g_msg_serv_info s) + extra"

lemma counts_right_fields [simp]:
  "counts_right n (put_out h x s) = counts_right n s" "counts_right n (put_conn h c s) = counts_right n s"
  "counts_right n (s\<lparr>g_client_conn_map := m\<rparr>) = counts_right n s"
  "counts_right n (s\<lparr>g_msg_serv_conn_map := m\<rparr>) = counts_right n s"
  by (simp_all add: counts_right_def put_out_def put_conn_def)

lemma counts_right_Close: "counts_right n s \<Longrightarrow> counts_right n (login_Close h c s)"
  by (auto simp: counts_right_def login_Close_def Let_def put_out_def map_erase_ok user_sum_erase cur_of_def split: option.split)

lemma counts_right_timeout: "counts_right n s \<Longrightarrow> counts_right n (login_checkTimeout t h c s)"
  by (simp add: login_checkTimeout_def Let_def counts_right_Close)

lemma counts_right_timer: "counts_right n s \<Longrightarrow> counts_right n (login_conn_timer_callback t order s)"
proof -
  have "counts_right n s \<Longrightarrow> counts_right n (fold (\<lambda>(h, c). login_checkTimeout t h c) xs s)" for xs s
    by (induction xs arbitrary: s) (auto simp: counts_right_timeout)
  then show "counts_right n s \<Longrightarrow> ?thesis" by (simp add: login_conn_timer_callback_def Let_def)
qed

lemma counts_right_update: "counts_right n s \<Longrightarrow> counts_right n (login_HandleUserCntUpdate h a s)"
  by (auto simp: login_HandleUserCntUpdate_def counts_right_def map_put_ok user_sum_put cur_of_def split: option.split)

text \<open>What a second announcement on the same connection adds to the total.\<close>

definition repeated :: "dispatch_server \<Rightarrow> dispatch_event \<Rightarrow> u32" where
  "repeated s ev =
     (case ev of Receives h (MsgServInfo _ _ _ _ cur _) \<Rightarrow>
        (if find_conn s h \<noteq> None \<and> map_find (g_msg_serv_info s) h \<noteq> None then cur else 0) | _ \<Rightarrow> 0)"

fun surplus :: "((handle \<times> login_conn) list \<Rightarrow> (handle \<times> login_conn) list) \<Rightarrow> dispatch_event list \<Rightarrow> dispatch_server \<Rightarrow> u32" where
  "surplus order [] s = 0"
| "surplus order (ev # evs) s = repeated s ev + surplus order evs (dispatch_step order ev s)"

lemma counts_right_info:
  "counts_right n s \<Longrightarrow> counts_right (n + (if map_find (g_msg_serv_info s) h \<noteq> None then cur else 0))
     (login_HandleMsgServInfo h a b p mx cur host s)"
  by (auto simp: counts_right_def login_HandleMsgServInfo_def Let_def map_insert_def map_put_ok user_sum_put cur_of_def
      split: option.split)

lemma counts_right_step: "counts_right n s \<Longrightarrow> counts_right (n + repeated s ev) (dispatch_step order ev s)"
proof (cases ev)
  case (Receives h m)
  assume c: "counts_right n s"
  show ?thesis
  proof (cases m)
    case (MsgServInfo a b p mx cur host)
    with Receives c counts_right_info [OF c, of h cur a b p mx host] show ?thesis
      by (auto simp: dispatch_step_def repeated_def login_HandlePdu_def split: option.split)
  qed (use Receives c in \<open>auto simp: dispatch_step_def repeated_def login_HandlePdu_def counts_right_update split: option.split\<close>)
qed (auto simp: dispatch_step_def repeated_def OnConnect2_def Let_def counts_right_Close counts_right_timer split: option.split)

lemma counts_right_run: "counts_right n s \<Longrightarrow> counts_right (n + surplus order evs s) (dispatch_run order evs s)"
proof (induction evs arbitrary: n s)
  case (Cons ev evs)
  from Cons(1) [OF counts_right_step [OF Cons(2)]] show ?case by (simp add: dispatch_run_def add.assoc)
qed (simp add: dispatch_run_def)

text \<open>C29: After any sequence of connects, packets, closes and timer ticks, the total number of online
  users is the sum of the counts of the registered message servers, plus the counts of all repeated
  announcements: \<open>insert\<close> ignores an announcement on a connection that made one before, the
  total takes it, and nothing ever takes it off again.\<close>

theorem total_is_sum_of_servers:
  "g_total_online_user_cnt (dispatch_run order evs no_servers)
     = user_sum (g_msg_serv_info (dispatch_run order evs no_servers)) + surplus order evs no_servers"
  using counts_right_run [of 0 no_servers order evs] by (simp add: counts_right_def no_servers_def user_sum_def)

section \<open>The server with the fewest users\<close>

abbreviation has_room :: "msg_serv \<Rightarrow> bool" where
  "has_room x \<equiv> ms_cur x < ms_max x"

lemma min_conn_char:
  "(min_conn es m best = best \<and> (\<forall>y\<in>snd ` set es. has_room y \<longrightarrow> m \<le> ms_cur y)) \<or>
   (\<exists>pre h x post. es = pre @ (h, x) # post \<and> min_conn es m best = Some x \<and> has_room x \<and> ms_cur x < m \<and>
     (\<forall>y\<in>snd ` set pre. has_room y \<longrightarrow> ms_cur x < ms_cur y) \<and> (\<forall>y\<in>snd ` set post. has_room y \<longrightarrow> ms_cur x \<le> ms_cur y))"
proof (induction es m best rule: min_conn.induct)
  case (2 h x es m best)
  show ?case
  proof (cases "has_room x \<and> ms_cur x < m")
    case True
    then have eq: "min_conn ((h, x) # es) m best = min_conn es (ms_cur x) (Some x)" by simp
    from 2(1) [OF True] show ?thesis
    proof (elim disjE exE conjE)
      assume "min_conn es (ms_cur x) (Some x) = Some x" "\<forall>y\<in>snd ` set es. has_room y \<longrightarrow> ms_cur x \<le> ms_cur y"
      with True show ?thesis unfolding eq by (intro disjI2 exI [of _ "[]"]) auto
    next
      fix pre k y post
      assume "es = pre @ (k, y) # post" "min_conn es (ms_cur x) (Some x) = Some y" "has_room y" "ms_cur y < ms_cur x"
        "\<forall>z\<in>snd ` set pre. has_room z \<longrightarrow> ms_cur y < ms_cur z" "\<forall>z\<in>snd ` set post. has_room z \<longrightarrow> ms_cur y \<le> ms_cur z"
      with True show ?thesis unfolding eq
        by (intro disjI2 exI [of _ "(h, x) # pre"] exI [of _ k] exI [of _ y] exI [of _ post]) auto
    qed
  next
    case False
    then have eq: "min_conn ((h, x) # es) m best = min_conn es m best" by (simp only: min_conn.simps if_not_P if_False)
    from 2(2) [OF False] show ?thesis
    proof (elim disjE exE conjE)
      assume "min_conn es m best = best" "\<forall>y\<in>snd ` set es. has_room y \<longrightarrow> m \<le> ms_cur y"
      with False show ?thesis unfolding eq by (intro disjI1) auto
    next
      fix pre k y post
      assume "es = pre @ (k, y) # post" "min_conn es m best = Some y" "has_room y" "ms_cur y < m"
        "\<forall>z\<in>snd ` set pre. has_room z \<longrightarrow> ms_cur y < ms_cur z" "\<forall>z\<in>snd ` set post. has_room z \<longrightarrow> ms_cur y \<le> ms_cur z"
      with False show ?thesis unfolding eq
        by (intro disjI2 exI [of _ "(h, x) # pre"] exI [of _ k] exI [of _ y] exI [of _ post]) auto
    qed
  qed
qed simp

text \<open>C30: A client is sent to a message server that has room and whose user count no other server with
  room undercuts, the one with the lowest handle among equals; it is told that the servers are full
  exactly when none has room.\<close>

theorem least_loaded_server_is_chosen:
  "case choose_server es of
     None \<Rightarrow> \<forall>y\<in>snd ` set es. \<not> has_room y
   | Some x \<Rightarrow> \<exists>pre h post. es = pre @ (h, x) # post \<and> has_room x \<and>
       (\<forall>y\<in>snd ` set pre. has_room y \<longrightarrow> ms_cur x < ms_cur y) \<and> (\<forall>y\<in>snd ` set post. has_room y \<longrightarrow> ms_cur x \<le> ms_cur y)"
proof -
  have "\<not> (- 1 \<le> ms_cur y \<and> has_room y)" for y
    using word_order.extremum [of "ms_max y"] by (metis leD order_trans)
  then show ?thesis
    using min_conn_char [of es "- 1" None] unfolding choose_server_def by (fastforce split: option.split)
qed

definition four_servers :: "(handle, msg_serv) std_map" where
  "four_servers =
     [(1, \<lparr>ms_ip1 = [], ms_ip2 = [], ms_port = 80, ms_max = 5, ms_cur = 5, ms_host = ''a''\<rparr>),
      (2, \<lparr>ms_ip1 = [], ms_ip2 = [], ms_port = 80, ms_max = 9, ms_cur = 7, ms_host = ''b''\<rparr>),
      (3, \<lparr>ms_ip1 = [], ms_ip2 = [], ms_port = 80, ms_max = 9, ms_cur = 6, ms_host = ''c''\<rparr>),
      (4, \<lparr>ms_ip1 = [], ms_ip2 = [], ms_port = 80, ms_max = 9, ms_cur = 6, ms_host = ''d''\<rparr>)]"

lemma least_loaded_server_is_chosen_witness:
  "\<exists>pre x h post. choose_server four_servers = Some x \<and> ms_host x = ''c'' \<and> four_servers = pre @ (h, x) # post \<and> has_room x"
proof -
  have "map_option ms_host (choose_server four_servers) = Some ''c''" by code_simp
  then obtain x where "choose_server four_servers = Some x" "ms_host x = ''c''" by auto
  then show ?thesis using least_loaded_server_is_chosen [of four_servers] by auto
qed

section \<open>Anyone can register\<close>

text \<open>A packet is handled without looking at the kind of its connection. A client connection that
  announces itself as a message server with room is sent to other clients, and when it closes
  its entry stays: with no connection left, clients are still sent to it.\<close>

theorem client_connection_registers_as_server:
  assumes "h \<noteq> NETLIB_INVALID_HANDLE" "cur < mx"
  shows "let s = dispatch_run order [Connects t h True, Receives h (MsgServInfo ip1 ip2 port mx cur host), Closes h] no_servers
    in g_client_conn_map s = [] \<and> g_msg_serv_conn_map s = [] \<and> g_total_online_user_cnt s = cur \<and>
       choose_server (g_msg_serv_info s) =
         Some \<lparr>ms_ip1 = ip1, ms_ip2 = ip2, ms_port = ucast port, ms_max = mx, ms_cur = cur, ms_host = host\<rparr>"
proof -
  have "cur < - 1" using assms(2) word_order.extremum [of mx] by (metis order_less_le_trans)
  with assms show ?thesis
    by (simp add: dispatch_run_def dispatch_step_def no_servers_def OnConnect2_def find_conn_def login_HandlePdu_def
        login_HandleMsgServInfo_def map_insert_def login_Close_def put_out_def map_erase_def choose_server_def)
qed

lemma client_connection_registers_as_server_witness:
  "let s = dispatch_run (\<lambda>m. m) [Connects 1 7 True, Receives 7 (MsgServInfo ''6.6.6.6'' [] 8000 100 0 ''x''), Closes 7] no_servers
    in g_client_conn_map s = [] \<and> g_msg_serv_conn_map s = [] \<and> g_total_online_user_cnt s = 0 \<and>
       choose_server (g_msg_serv_info s) =
         Some \<lparr>ms_ip1 = ''6.6.6.6'', ms_ip2 = [], ms_port = ucast (8000 :: u32), ms_max = 100, ms_cur = 0, ms_host = ''x''\<rparr>"
  by (rule client_connection_registers_as_server) simp_all

section \<open>The counts are those of the message servers\<close>

text \<open>The actions of the user count updates among packets that a message server sent.\<close>

definition cnt_updates :: "out list \<Rightarrow> u32 list" where
  "cnt_updates xs = concat (map (\<lambda>x. filter (\<lambda>a. cnt_action a x) [USER_CNT_INC, USER_CNT_DEC]) xs)"

lemma cnt_updates_count:
  "length (filter (\<lambda>a. a = USER_CNT_INC) (cnt_updates xs)) = length (filter (cnt_action USER_CNT_INC) xs)"
  "length (filter (\<lambda>a. a \<noteq> USER_CNT_INC) (cnt_updates xs)) = length (filter (cnt_action USER_CNT_DEC) xs)"
  by (induction xs) (auto simp: cnt_updates_def)

lemma updates_run:
  assumes "find_conn d h \<noteq> None" "map_ok (g_msg_serv_info d)" "map_find (g_msg_serv_info d) h = Some x"
  shows "let d' = dispatch_run order (map (Receives h \<circ> UserCntUpdate) acts) d;
      change = of_nat (length (filter (\<lambda>a. a = USER_CNT_INC) acts)) - of_nat (length (filter (\<lambda>a. a \<noteq> USER_CNT_INC) acts))
    in map_find (g_msg_serv_info d') h = Some (x\<lparr>ms_cur := ms_cur x + change\<rparr>) \<and>
       g_total_online_user_cnt d' = g_total_online_user_cnt d + change"
  using assms
proof (induction acts arbitrary: d x)
  case (Cons a acts)
  let ?n = "if a = USER_CNT_INC then 1 else - 1 :: u32"
  let ?d = "dispatch_step order (Receives h (UserCntUpdate a)) d"
  have d: "?d = d\<lparr>g_msg_serv_info := map_put h (x\<lparr>ms_cur := ms_cur x + ?n\<rparr>) (g_msg_serv_info d),
      g_total_online_user_cnt := g_total_online_user_cnt d + ?n\<rparr>"
    using Cons.prems by (auto simp: dispatch_step_def login_HandlePdu_def login_HandleUserCntUpdate_def)
  have "find_conn ?d h \<noteq> None" using Cons.prems(1) unfolding d by simp
  moreover have "map_ok (g_msg_serv_info ?d)" using Cons.prems(2) by (simp add: d map_put_ok)
  moreover have "map_find (g_msg_serv_info ?d) h = Some (x\<lparr>ms_cur := ms_cur x + ?n\<rparr>)"
    by (simp add: d smap.find_put [OF Cons.prems(2)])
  ultimately have IH: "let d' = dispatch_run order (map (Receives h \<circ> UserCntUpdate) acts) ?d;
      change = of_nat (length (filter (\<lambda>a. a = USER_CNT_INC) acts)) - of_nat (length (filter (\<lambda>a. a \<noteq> USER_CNT_INC) acts))
    in map_find (g_msg_serv_info d') h = Some (x\<lparr>ms_cur := ms_cur x + ?n\<rparr>\<lparr>ms_cur := ms_cur (x\<lparr>ms_cur := ms_cur x + ?n\<rparr>) + change\<rparr>) \<and>
       g_total_online_user_cnt d' = g_total_online_user_cnt ?d + change"
    by (rule Cons.IH)
  have run: "dispatch_run order (map (Receives h \<circ> UserCntUpdate) (a # acts)) d =
      dispatch_run order (map (Receives h \<circ> UserCntUpdate) acts) ?d"
    by (simp add: dispatch_run_def)
  have "g_total_online_user_cnt ?d = g_total_online_user_cnt d + ?n" by (simp add: d)
  with IH [unfolded Let_def] show ?case unfolding run Let_def by (simp add: algebra_simps split: if_splits)
qed (simp add: dispatch_run_def)

text \<open>C31: A message server that announces the number of its users when it connects and then sends the
  packets it sends keeps its entry right, as long as its run is orderly (no read holds packets behind one
  that closed its connection; database and clients as for the message server): the entry of its
  connection then counts its logged in connections, and the total has grown by as much. The connection
  is open at the dispatch server and has no entry yet.\<close>

theorem entry_counts_online_users:
  assumes "orderly ident s\<^sub>0" "orderly ident s" "sent s = sent s\<^sub>0 @ xs"
    and d: "find_conn d h \<noteq> None" "map_ok (g_msg_serv_info d)" "map_find (g_msg_serv_info d) h = None"
  shows "let d' = dispatch_run order (Receives h (MsgServInfo ip1 ip2 port mx (of_nat (card (online s\<^sub>0))) host)
        # map (Receives h \<circ> UserCntUpdate) (cnt_updates xs)) d
    in map_find (g_msg_serv_info d') h =
         Some \<lparr>ms_ip1 = ip1, ms_ip2 = ip2, ms_port = ucast port, ms_max = mx, ms_cur = of_nat (card (online s)), ms_host = host\<rparr> \<and>
       g_total_online_user_cnt d' = g_total_online_user_cnt d + of_nat (card (online s))"
proof -
  let ?x = "\<lparr>ms_ip1 = ip1, ms_ip2 = ip2, ms_port = ucast port, ms_max = mx, ms_cur = of_nat (card (online s\<^sub>0)), ms_host = host\<rparr>"
  let ?d = "dispatch_step order (Receives h (MsgServInfo ip1 ip2 port mx (of_nat (card (online s\<^sub>0))) host)) d"
  have dd: "?d = d\<lparr>g_msg_serv_info := map_put h ?x (g_msg_serv_info d),
      g_total_online_user_cnt := g_total_online_user_cnt d + of_nat (card (online s\<^sub>0))\<rparr>"
    using d by (auto simp: dispatch_step_def login_HandlePdu_def login_HandleMsgServInfo_def map_insert_def)
  have bal: "announced USER_CNT_INC s\<^sub>0 = announced USER_CNT_DEC s\<^sub>0 + card (online s\<^sub>0)"
      "announced USER_CNT_INC s = announced USER_CNT_DEC s + card (online s)"
    using orderly_good [OF assms(1)] orderly_good [OF assms(2)] by (simp_all add: good_def balanced_def)
  let ?up = "length (filter (cnt_action USER_CNT_INC) xs)" and ?down = "length (filter (cnt_action USER_CNT_DEC) xs)"
  have "card (online s\<^sub>0) + ?up = card (online s) + ?down"
    using bal assms(3) by (simp add: announced_def)
  then have "of_nat (card (online s\<^sub>0)) + of_nat ?up = (of_nat (card (online s)) + of_nat ?down :: u32)"
    by (metis of_nat_add)
  then have sum: "of_nat (card (online s\<^sub>0)) + (of_nat ?up - of_nat ?down) = (of_nat (card (online s)) :: u32)"
    by (simp add: algebra_simps)
  have "find_conn ?d h \<noteq> None" using d(1) unfolding dd by simp
  moreover have "map_ok (g_msg_serv_info ?d)" using d(2) by (simp add: dd map_put_ok)
  moreover have "map_find (g_msg_serv_info ?d) h = Some ?x" by (simp add: dd smap.find_put [OF d(2)])
  ultimately have r: "let d' = dispatch_run order (map (Receives h \<circ> UserCntUpdate) (cnt_updates xs)) ?d;
      change = of_nat ?up - of_nat ?down
    in map_find (g_msg_serv_info d') h = Some (?x\<lparr>ms_cur := ms_cur ?x + change\<rparr>) \<and>
       g_total_online_user_cnt d' = g_total_online_user_cnt ?d + change"
    by (rule updates_run [where acts = "cnt_updates xs", unfolded cnt_updates_count])
  have "g_total_online_user_cnt ?d = g_total_online_user_cnt d + of_nat (card (online s\<^sub>0))" by (simp add: dd)
  with r sum show ?thesis by (auto simp: dispatch_run_def Let_def add.assoc)
qed

lemma entry_counts_online_users_witness:
  "\<exists>s. sample_both = Some s \<and> card (online s) = 2 \<and>
    (let d' = dispatch_run (\<lambda>m. m) (Receives 4 (MsgServInfo ''10.0.0.1'' ''10.0.0.2'' 8000 100 (of_nat (card (online init_server))) ''m'')
        # map (Receives 4 \<circ> UserCntUpdate) (cnt_updates (sent s))) (OnConnect2 0 4 False no_servers)
    in map_find (g_msg_serv_info d') 4 =
         Some \<lparr>ms_ip1 = ''10.0.0.1'', ms_ip2 = ''10.0.0.2'', ms_port = ucast (8000 :: u32), ms_max = 100,
           ms_cur = of_nat (card (online s)), ms_host = ''m''\<rparr> \<and>
       g_total_online_user_cnt d' = g_total_online_user_cnt (OnConnect2 0 4 False no_servers) + of_nat (card (online s)))"
proof -
  obtain s where s: "sample_both = Some s" "orderly sample_ident s" by (rule sample_both_orderly)
  have "map_option (\<lambda>s. announced USER_CNT_INC s = 2 \<and> announced USER_CNT_DEC s = 0) sample_both = Some True" by code_simp
  from this [unfolded s(1)] have two: "card (online s) = 2" using orderly_good [OF s(2)] by (simp add: good_def balanced_def)
  have "let d' = dispatch_run (\<lambda>m. m) (Receives 4 (MsgServInfo ''10.0.0.1'' ''10.0.0.2'' 8000 100 (of_nat (card (online init_server))) ''m'')
        # map (Receives 4 \<circ> UserCntUpdate) (cnt_updates (sent s))) (OnConnect2 0 4 False no_servers)
    in map_find (g_msg_serv_info d') 4 =
         Some \<lparr>ms_ip1 = ''10.0.0.1'', ms_ip2 = ''10.0.0.2'', ms_port = ucast (8000 :: u32), ms_max = 100,
           ms_cur = of_nat (card (online s)), ms_host = ''m''\<rparr> \<and>
       g_total_online_user_cnt d' = g_total_online_user_cnt (OnConnect2 0 4 False no_servers) + of_nat (card (online s))"
    by (rule entry_counts_online_users [OF orderly.start s(2)])
      (simp_all add: init_server_def no_servers_def OnConnect2_def find_conn_def map_insert_def)
  with s(1) two show ?thesis by blast
qed

section \<open>How long a server stays connected\<close>

text \<open>The connection maps hold the kinds of connections they are for.\<close>

definition conns_wf :: "dispatch_server \<Rightarrow> bool" where
  "conns_wf s \<longleftrightarrow> map_ok (g_client_conn_map s) \<and> map_ok (g_msg_serv_conn_map s) \<and> map_ok (g_msg_serv_info s) \<and>
     (\<forall>(h, c)\<in>set (g_client_conn_map s). lc_client c) \<and> (\<forall>(h, c)\<in>set (g_msg_serv_conn_map s). \<not> lc_client c)"

text \<open>The connection \<open>h\<close> of a message server, opened at \<open>t\<^sub>0\<close>, as it is until it is closed and after.\<close>

definition tracked :: "handle \<Rightarrow> nat \<Rightarrow> dispatch_server \<Rightarrow> bool" where
  "tracked h t\<^sub>0 s \<longleftrightarrow> conns_wf s \<and> map_find (g_client_conn_map s) h = None \<and>
     (map_find (g_msg_serv_conn_map s) h = None \<longrightarrow> map_find (g_msg_serv_info s) h = None) \<and>
     (\<forall>c. map_find (g_msg_serv_conn_map s) h = Some c \<longrightarrow> lc_last_recv c = t\<^sub>0)"

abbreviation gone :: "handle \<Rightarrow> dispatch_server \<Rightarrow> bool" where
  "gone h s \<equiv> map_find (g_msg_serv_conn_map s) h = None"

lemma map_insert_find: "map_ok m \<Longrightarrow> map_find (map_insert k v m) j = (if j = k \<and> map_find m k = None then Some v else map_find m j)"
  by (auto simp: map_insert_def smap.find_put split: option.split)

lemma map_insert_ok: "map_ok m \<Longrightarrow> map_ok (map_insert k v m)"
  by (auto simp: map_insert_def map_put_ok split: option.split)

lemma set_map_insert: "map_ok m \<Longrightarrow> set (map_insert k v m) \<subseteq> insert (k, v) (set m)"
  by (auto simp: map_insert_def set_map_put split: option.split)

lemma set_map_erase: "set (map_erase k m) \<subseteq> set m"
  by (auto simp: map_erase_def)

lemmas wf_simps = conns_wf_def map_put_ok map_erase_ok map_insert_ok set_map_put

lemma wf_put_out [simp]: "conns_wf (put_out h x s) = conns_wf s"
  by (simp add: conns_wf_def put_out_def)

lemma wf_Close: "conns_wf s \<Longrightarrow> conns_wf (login_Close h c s)"
  by (auto simp: login_Close_def Let_def conns_wf_def put_out_def map_erase_ok split: option.split dest: subsetD [OF set_map_erase])

lemma wf_put_conn: "conns_wf s \<Longrightarrow> conns_wf (put_conn h c s)"
  by (auto simp: put_conn_def wf_simps)

lemma wf_timeout: "conns_wf s \<Longrightarrow> conns_wf (login_checkTimeout t h c s)"
  by (simp add: login_checkTimeout_def Let_def wf_Close wf_put_conn)

lemma wf_HandlePdu: "conns_wf s \<Longrightarrow> conns_wf (login_HandlePdu h m s)"
  by (auto simp: login_HandlePdu_def login_HandleMsgServInfo_def login_HandleUserCntUpdate_def Let_def conns_wf_def
      map_put_ok map_insert_ok split: dispatch_msg.split option.split)

lemma wf_Connect: "conns_wf s \<Longrightarrow> conns_wf (OnConnect2 t h k s)"
  using set_map_insert [of "g_client_conn_map s" h] set_map_insert [of "g_msg_serv_conn_map s" h]
  by (fastforce simp: OnConnect2_def Let_def conns_wf_def map_insert_ok)

lemma Close_other:
  assumes "conns_wf s" "k \<noteq> h"
  shows "map_find (g_client_conn_map (login_Close k c s)) h = map_find (g_client_conn_map s) h"
    "map_find (g_msg_serv_conn_map (login_Close k c s)) h = map_find (g_msg_serv_conn_map s) h"
    "map_find (g_msg_serv_info (login_Close k c s)) h = map_find (g_msg_serv_info s) h"
  using assms by (auto simp: login_Close_def Let_def put_out_def conns_wf_def smap.find_erase split: option.split)

lemma tracked_Close_other: "tracked h t\<^sub>0 s \<Longrightarrow> k \<noteq> h \<Longrightarrow> tracked h t\<^sub>0 (login_Close k c s)"
  by (simp add: tracked_def Close_other wf_Close)

lemma tracked_Close:
  assumes "tracked h t\<^sub>0 s" "h \<noteq> NETLIB_INVALID_HANDLE" "\<not> lc_client c"
  shows "tracked h t\<^sub>0 (login_Close h c s)" "gone h (login_Close h c s)"
proof -
  have "conns_wf (login_Close h c s)" using assms by (simp add: tracked_def wf_Close)
  then show "tracked h t\<^sub>0 (login_Close h c s)" "gone h (login_Close h c s)"
    using assms by (auto simp: tracked_def login_Close_def Let_def put_out_def conns_wf_def smap.find_erase split: option.split)
qed

lemma tracked_put_out [simp]: "tracked h t\<^sub>0 (put_out k x s) = tracked h t\<^sub>0 s"
  by (simp add: tracked_def put_out_def conns_wf_def)

lemma put_conn_other:
  "conns_wf s \<Longrightarrow> k \<noteq> h \<Longrightarrow> map_find (g_client_conn_map (put_conn k c s)) h = map_find (g_client_conn_map s) h \<and>
     map_find (g_msg_serv_conn_map (put_conn k c s)) h = map_find (g_msg_serv_conn_map s) h \<and>
     g_msg_serv_info (put_conn k c s) = g_msg_serv_info s"
  by (auto simp: put_conn_def conns_wf_def smap.find_put)

lemma timeout_other:
  assumes "tracked h t\<^sub>0 s" "k \<noteq> h"
  shows "tracked h t\<^sub>0 (login_checkTimeout t k c s)"
    "gone h s \<Longrightarrow> gone h (login_checkTimeout t k c s)"
proof -
  have put: "tracked h t\<^sub>0 (put_conn k x s)" for x
    using assms put_conn_other [of s k h x] by (simp add: tracked_def wf_put_conn)
  then show "tracked h t\<^sub>0 (login_checkTimeout t k c s)"
    using assms tracked_Close_other by (simp add: login_checkTimeout_def Let_def)
  have wf: "conns_wf s" using assms(1) by (simp add: tracked_def)
  show "gone h s \<Longrightarrow> gone h (login_checkTimeout t k c s)"
    using Close_other(2) [OF _ assms(2)] put_conn_other [OF wf assms(2)] wf
    by (simp add: login_checkTimeout_def Let_def wf_put_conn) (simp add: put_out_def)
qed

lemma timeout_self:
  assumes "tracked h t\<^sub>0 s" "h \<noteq> NETLIB_INVALID_HANDLE" "\<not> lc_client c" "lc_last_recv c = t\<^sub>0"
  shows "tracked h t\<^sub>0 (login_checkTimeout t h c s)"
    "t > t\<^sub>0 + SERVER_TIMEOUT \<Longrightarrow> gone h (login_checkTimeout t h c s)"
proof -
  have "tracked h t\<^sub>0 (put_conn h (c\<lparr>lc_last_send := t\<rparr>) s)"
    using assms by (auto simp: tracked_def wf_put_conn put_conn_def conns_wf_def smap.find_put set_map_put map_put_ok)
  with assms show "tracked h t\<^sub>0 (login_checkTimeout t h c s)"
    "t > t\<^sub>0 + SERVER_TIMEOUT \<Longrightarrow> gone h (login_checkTimeout t h c s)"
    by (simp_all add: login_checkTimeout_def Let_def tracked_Close)
qed

lemma timeouts:
  assumes "tracked h t\<^sub>0 s" "h \<noteq> NETLIB_INVALID_HANDLE"
    and "\<forall>(k, c)\<in>set xs. k = h \<longrightarrow> \<not> lc_client c \<and> lc_last_recv c = t\<^sub>0"
  shows "tracked h t\<^sub>0 (fold (\<lambda>(k, c). login_checkTimeout t k c) xs s) \<and>
    (t > t\<^sub>0 + SERVER_TIMEOUT \<and> (gone h s \<or> h \<in> fst ` set xs) \<longrightarrow> gone h (fold (\<lambda>(k, c). login_checkTimeout t k c) xs s))"
  using assms
proof (induction xs arbitrary: s)
  case (Cons e xs)
  obtain k c where e: "e = (k, c)" by (cases e)
  have rest: "\<forall>(k, c)\<in>set xs. k = h \<longrightarrow> \<not> lc_client c \<and> lc_last_recv c = t\<^sub>0" using Cons.prems(3) by simp
  show ?case
  proof (cases "k = h")
    case True
    with Cons.prems(3) e have c: "\<not> lc_client c" "lc_last_recv c = t\<^sub>0" by auto
    from Cons.IH [OF timeout_self(1) [OF Cons.prems(1,2) c] Cons.prems(2) rest]
      timeout_self(2) [OF Cons.prems(1,2) c] show ?thesis by (auto simp: e True)
  next
    case False
    from Cons.IH [OF timeout_other(1) [OF Cons.prems(1) False] Cons.prems(2) rest]
      timeout_other(2) [OF Cons.prems(1) False] False show ?thesis by (auto simp: e)
  qed
qed simp

lemma tracked_timer:
  assumes s: "tracked h t\<^sub>0 s" and h: "h \<noteq> NETLIB_INVALID_HANDLE" and order: "\<And>m. set (order m) = set m"
  shows "tracked h t\<^sub>0 (login_conn_timer_callback t order s)"
    "t > t\<^sub>0 + SERVER_TIMEOUT \<Longrightarrow> gone h (login_conn_timer_callback t order s)"
proof -
  let ?s = "fold (\<lambda>(h, c). login_checkTimeout t h c) (order (g_client_conn_map s)) s"
  have "(h, c) \<notin> set (order (g_client_conn_map s))" for c
    using s unfolding tracked_def order map_of_eq_None_iff image_iff by force
  then have s': "tracked h t\<^sub>0 ?s" by (intro conjunct1 [OF timeouts [OF s h]]) auto
  then have m: "map_ok (g_msg_serv_conn_map ?s)" by (simp add: tracked_def conns_wf_def)
  have typed: "\<forall>(k, c)\<in>set (order (g_msg_serv_conn_map ?s)). k = h \<longrightarrow> \<not> lc_client c \<and> lc_last_recv c = t\<^sub>0"
    using s' by (auto simp: tracked_def conns_wf_def order smap.find_entries)
  have "gone h ?s \<or> h \<in> fst ` set (order (g_msg_serv_conn_map ?s))"
    by (simp add: order map_of_eq_None_iff)
  with timeouts [OF s' h typed, of t] show "tracked h t\<^sub>0 (login_conn_timer_callback t order s)"
    "t > t\<^sub>0 + SERVER_TIMEOUT \<Longrightarrow> gone h (login_conn_timer_callback t order s)"
    by (simp_all add: login_conn_timer_callback_def Let_def)
qed

lemma wf_timer: "conns_wf s \<Longrightarrow> conns_wf (login_conn_timer_callback t order s)"
proof -
  have "conns_wf s \<Longrightarrow> conns_wf (fold (\<lambda>(h, c). login_checkTimeout t h c) xs s)" for xs s
    by (induction xs arbitrary: s) (auto simp: wf_timeout)
  then show "conns_wf s \<Longrightarrow> ?thesis" by (simp add: login_conn_timer_callback_def Let_def)
qed

lemma wf_step: "conns_wf s \<Longrightarrow> conns_wf (dispatch_step order ev s)"
  by (auto simp: dispatch_step_def wf_Connect wf_HandlePdu wf_Close wf_timer split: dispatch_event.split option.split)

lemma wf_run: "conns_wf s \<Longrightarrow> conns_wf (dispatch_run order evs s)"
  unfolding dispatch_run_def by (induction evs arbitrary: s) (auto simp: wf_step)

lemma HandlePdu_conns:
  "g_client_conn_map (login_HandlePdu k m s) = g_client_conn_map s"
  "g_msg_serv_conn_map (login_HandlePdu k m s) = g_msg_serv_conn_map s"
  "conns_wf s \<Longrightarrow> k \<noteq> h \<Longrightarrow> map_find (g_msg_serv_info (login_HandlePdu k m s)) h = map_find (g_msg_serv_info s) h"
  by (auto simp: login_HandlePdu_def login_HandleMsgServInfo_def login_HandleUserCntUpdate_def Let_def
      conns_wf_def smap.find_put map_insert_find split: dispatch_msg.split option.split)

lemma Connect_other:
  "conns_wf s \<Longrightarrow> k \<noteq> h \<Longrightarrow> map_find (g_client_conn_map (OnConnect2 t k b s)) h = map_find (g_client_conn_map s) h \<and>
     map_find (g_msg_serv_conn_map (OnConnect2 t k b s)) h = map_find (g_msg_serv_conn_map s) h \<and>
     g_msg_serv_info (OnConnect2 t k b s) = g_msg_serv_info s"
  by (auto simp: OnConnect2_def Let_def conns_wf_def map_insert_find)

lemma tracked_step:
  assumes s: "tracked h t\<^sub>0 s" and h: "h \<noteq> NETLIB_INVALID_HANDLE" and order: "\<And>m. set (order m) = set m"
    and ev: "\<forall>t k. ev \<noteq> Connects t h k"
  shows "tracked h t\<^sub>0 (dispatch_step order ev s)"
proof -
  have wf: "conns_wf s" "conns_wf (dispatch_step order ev s)" using s wf_step by (auto simp: tracked_def)
  show ?thesis
  proof (cases ev)
    case (Connects t k client)
    with ev have "k \<noteq> h" by auto
    with s wf Connect_other [OF wf(1) this] show ?thesis by (simp add: Connects tracked_def dispatch_step_def)
  next
    case (Receives k m)
    have "find_conn s h = None \<Longrightarrow> map_find (g_msg_serv_info s) h = None"
      using s by (auto simp: tracked_def find_conn_def split: option.splits)
    moreover have "find_conn s h \<noteq> None \<Longrightarrow> \<not> gone h s" using s by (auto simp: tracked_def find_conn_def)
    ultimately show ?thesis using s wf HandlePdu_conns(3) [OF wf(1), of k h m]
      by (cases "k = h") (auto simp: Receives tracked_def dispatch_step_def HandlePdu_conns(1,2) split: option.splits)
  next
    case (Closes k)
    show ?thesis
    proof (cases "k = h")
      case True
      have "\<not> lc_client c" if "find_conn s h = Some c" for c
        using that s by (auto simp: tracked_def find_conn_def conns_wf_def dest!: map_of_SomeD)
      with s h True show ?thesis by (auto simp: Closes dispatch_step_def tracked_Close split: option.split)
    next
      case False
      with s show ?thesis by (auto simp: Closes dispatch_step_def tracked_Close_other split: option.split)
    qed
  next
    case (Ticks t)
    then show ?thesis using tracked_timer(1) [OF s h order] by (simp add: dispatch_step_def)
  qed
qed

lemma tracked_run:
  assumes "h \<noteq> NETLIB_INVALID_HANDLE" "\<And>m. set (order m) = set m"
  shows "tracked h t\<^sub>0 s \<Longrightarrow> \<forall>t k. Connects t h k \<notin> set evs \<Longrightarrow> tracked h t\<^sub>0 (dispatch_run order evs s)"
proof (induction evs arbitrary: s)
  case (Cons ev evs)
  have "tracked h t\<^sub>0 (dispatch_step order ev s)" using Cons.prems by (intro tracked_step assms) auto
  with Cons show ?case by (simp add: dispatch_run_def)
qed (simp add: dispatch_run_def)

text \<open>The time of the last packet is never updated after a connection is made. So whatever a message
  server sends in between, the first timer tick more than 30 seconds after it connected closes its
  connection and takes it out of the table of servers.\<close>

theorem server_connection_lives_30_seconds:
  assumes h: "h \<noteq> NETLIB_INVALID_HANDLE" and order: "\<And>m. set (order m) = set m"
    and new: "find_conn (dispatch_run order evs\<^sub>0 no_servers) h = None"
    and evs: "\<forall>t k. Connects t h k \<notin> set evs" and late: "t > t\<^sub>0 + SERVER_TIMEOUT"
  shows "let s = dispatch_run order (evs\<^sub>0 @ [Connects t\<^sub>0 h False] @ evs @ [Ticks t]) no_servers
    in find_conn s h = None \<and> map_find (g_msg_serv_info s) h = None"
proof -
  let ?s0 = "dispatch_run order evs\<^sub>0 no_servers" and ?s1 = "dispatch_run order (evs\<^sub>0 @ [Connects t\<^sub>0 h False]) no_servers"
  have "conns_wf no_servers" by (simp add: conns_wf_def no_servers_def)
  from wf_run [OF this] have wf: "conns_wf ?s0" "conns_wf ?s1" by blast+
  have none: "map_find (g_client_conn_map ?s0) h = None" "map_find (g_msg_serv_conn_map ?s0) h = None"
    using new by (auto simp: find_conn_def split: option.splits)
  have s1: "?s1 = OnConnect2 t\<^sub>0 h False ?s0" by (simp add: dispatch_run_def dispatch_step_def)
  have "tracked h t\<^sub>0 ?s1"
    using wf none unfolding tracked_def s1 by (simp add: OnConnect2_def conns_wf_def map_insert_find)
  from tracked_run [OF h order this evs]
  have tr: "tracked h t\<^sub>0 (dispatch_run order evs ?s1)" .
  have run: "dispatch_run order (evs\<^sub>0 @ [Connects t\<^sub>0 h False] @ evs @ [Ticks t]) no_servers
      = login_conn_timer_callback t order (dispatch_run order evs ?s1)"
    by (simp add: dispatch_run_def dispatch_step_def)
  from tracked_timer [OF tr h order] late show ?thesis
    unfolding run Let_def by (simp add: tracked_def find_conn_def)
qed

lemma server_connection_lives_30_seconds_witness:
  "let s = dispatch_run (\<lambda>m. m) ([] @ [Connects 0 3 False] @
      [Receives 3 (MsgServInfo ''10.0.0.1'' [] 8000 100 0 ''m''), Receives 3 (UserCntUpdate 1), Ticks 30000, Receives 3 HeartBeat] @
      [Ticks 31000]) no_servers
    in find_conn s 3 = None \<and> map_find (g_msg_serv_info s) 3 = None"
  by (rule server_connection_lives_30_seconds [where t\<^sub>0 = 0])
    (simp_all add: dispatch_run_def no_servers_def find_conn_def)

end
