(* ===== verification/Std_Text.thy ===== *)
theory Std_Text
  imports Achat_Prelude
begin

text \<open>
  Numbers as text in the servers: \<open>atoi\<close> of the C library and the functions \<open>int2string\<close> and
  \<open>string2int\<close> of \<open>base/util.cpp\<close>. \<open>atoi\<close> is \<open>(int)strtol(s, NULL, 10)\<close>, as the C library implements
  it: saturated at the bounds of \<open>long\<close>, then cut to 32 bits.
\<close>

text \<open>What a C function sees of a string.\<close>

definition c_str :: "string \<Rightarrow> string" where
  "c_str s = takeWhile (\<lambda>c. c \<noteq> NUL) s"

definition is_space :: "char \<Rightarrow> bool" where
  "is_space c \<longleftrightarrow> c = CHR '' '' \<or> 9 \<le> (of_char c :: nat) \<and> (of_char c :: nat) \<le> 13"

definition strtol10 :: "string \<Rightarrow> int" where
  "strtol10 s =
     (let s = dropWhile is_space s;
          neg = (take 1 s = ''-'');
          s = (if take 1 s = ''-'' \<or> take 1 s = ''+'' then drop 1 s else s);
          v = int (dec_val (takeWhile is_digit s))
      in max (- (2 ^ 63)) (min (2 ^ 63 - 1) (if neg then - v else v)))"

definition atoi :: "string \<Rightarrow> 32 word" where
  "atoi s = word_of_int (strtol10 s)"

definition int2string :: "32 word \<Rightarrow> string" where
  "int2string w = dec (unat w)"

definition string2int :: "string \<Rightarrow> 32 word" where
  "string2int s = atoi s"

lemma digit_not_space: "is_digit c \<Longrightarrow> \<not> is_space c"
  by (auto simp: is_space_def)

lemma unat_u32: "unat (w :: 32 word) < 4294967296"
  using unsigned_less [of w, where 'a = nat] by simp

lemma strtol10_dec: "n < 2 ^ 63 \<Longrightarrow> strtol10 (dec n) = int n"
proof -
  assume n: "n < 2 ^ 63"
  obtain c cs where dec: "dec n = c # cs" by (cases "dec n") auto
  have digits: "\<forall>x\<in>set (dec n). is_digit x" using dec_digits by blast
  then have c: "is_digit c" using dec by simp
  then have signs: "c \<noteq> CHR ''-''" "c \<noteq> CHR ''+''" by auto
  have tw: "takeWhile is_digit cs = cs" using digits dec by (simp add: takeWhile_eq_all_conv)
  have "strtol10 (dec n) = max (- (2 ^ 63)) (min (2 ^ 63 - 1) (int (dec_val (dec n))))"
    using c signs by (simp only: strtol10_def dec) (simp add: digit_not_space Let_def tw)
  then show ?thesis using n by simp
qed

text \<open>Every unsigned number survives the way through text, though \<open>atoi\<close> returns a signed one.\<close>

lemma string2int_int2string [simp]: "string2int (int2string w) = w"
proof -
  have "unat w < 2 ^ 63" using unat_u32 [of w] by simp
  then show ?thesis by (simp add: string2int_def atoi_def int2string_def strtol10_dec)
qed

lemma int2string_inject [simp]: "int2string v = int2string w \<longleftrightarrow> v = w"
  by (metis string2int_int2string)

lemma int2string_digits: "c \<in> set (int2string w) \<Longrightarrow> is_digit c"
  by (simp add: int2string_def dec_digits)

lemma length_int2string: "length (int2string w) \<le> 10"
proof -
  have "unat w < 10 ^ Suc 9" using unat_u32 [of w] by simp
  from length_dec_le [OF this] show ?thesis by (simp add: int2string_def)
qed

lemma dec_int_no_NUL: "NUL \<notin> set (dec_int i)"
  by (auto simp: dec_int_def dest: dec_digits)

lemma c_str_no_NUL: "NUL \<notin> set s \<Longrightarrow> c_str s = s"
  by (simp add: c_str_def takeWhile_eq_all_conv) metis

end
