(* ===== verification/Login_Http.thy ===== *)
theory Login_Http
  imports Login_Dispatch Std_Text
begin

text \<open>
  The HTTP side of the login dispatch server: \<open>HttpParserWrapper.cpp\<close>, \<open>HttpConn.cpp\<close> and
  \<open>ipparser.cpp\<close>. The HTTP parser itself is a parameter: from the bytes received it makes the sequence
  of callbacks of one request, each with the text that starts where its pointer points and a length. What
  \<open>netlib_send\<close> returns is a parameter of each step that calls it, and so is the JSON printer.
\<close>

section \<open>\<open>CHttpParserWrapper\<close>\<close>

datatype callback = OnUrl string nat | OnHeaderField string nat | OnHeaderValue string nat
  | OnHeadersComplete u32 u32 | OnBody string nat | OnMessageComplete

record http_wrapper =
  m_read_all :: bool
  m_read_referer :: bool
  m_read_forward_ip :: bool
  m_read_user_agent :: bool
  m_read_content_type :: bool
  m_read_content_len :: bool
  m_read_host :: bool
  m_total_length :: u32
  m_url :: string
  m_body_content :: string
  m_referer :: string
  m_forward_ip :: string
  m_user_agent :: string
  m_content_type :: string
  m_content_len :: u32
  m_host :: string

definition wrapper_start :: http_wrapper where
  "wrapper_start = \<lparr>m_read_all = False, m_read_referer = False, m_read_forward_ip = False, m_read_user_agent = False,
     m_read_content_type = False, m_read_content_len = False, m_read_host = False, m_total_length = 0, m_url = [],
     m_body_content = [], m_referer = [], m_forward_ip = [], m_user_agent = [], m_content_type = [], m_content_len = 0,
     m_host = []\<rparr>"

definition lower :: "char \<Rightarrow> char" where
  "lower c = (if 65 \<le> (of_char c :: nat) \<and> (of_char c :: nat) \<le> 90 then char_of ((of_char c :: nat) + 32) else c)"

text \<open>\<open>strncasecmp(at, name, strlen(name)) == 0\<close>.\<close>

definition starts_with_name :: "string \<Rightarrow> string \<Rightarrow> bool" where
  "starts_with_name name at = (map lower (take (length name) at) = map lower name)"

definition MAX_REFERER_LEN :: nat where
  "MAX_REFERER_LEN = 32"

text \<open>A flag is set when its header has no value yet and the name matches; the value of the header is
  then appended and the flag cleared.\<close>

definition wrapper_field :: "string \<Rightarrow> http_wrapper \<Rightarrow> http_wrapper" where
  "wrapper_field at w = w\<lparr>
     m_read_referer := m_read_referer w \<or> m_referer w = [] \<and> starts_with_name ''Referer'' at,
     m_read_forward_ip := m_read_forward_ip w \<or> m_forward_ip w = [] \<and> starts_with_name ''X-Forwarded-For'' at,
     m_read_user_agent := m_read_user_agent w \<or> m_user_agent w = [] \<and> starts_with_name ''User-Agent'' at,
     m_read_content_type := m_read_content_type w \<or> m_content_type w = [] \<and> starts_with_name ''Content-Type'' at,
     m_read_content_len := m_read_content_len w \<or> m_content_len w = 0 \<and> starts_with_name ''Content-Length'' at,
     m_read_host := m_read_host w \<or> m_host w = [] \<and> starts_with_name ''Host'' at\<rparr>"

definition append_if :: "bool \<Rightarrow> string \<Rightarrow> string \<Rightarrow> string" where
  "append_if b v old = (if b then old @ v else old)"

definition wrapper_value :: "string \<Rightarrow> http_wrapper \<Rightarrow> http_wrapper" where
  "wrapper_value v w = w\<lparr>
     m_referer := append_if (m_read_referer w) (take MAX_REFERER_LEN v) (m_referer w), m_read_referer := False,
     m_forward_ip := append_if (m_read_forward_ip w) v (m_forward_ip w), m_read_forward_ip := False,
     m_user_agent := append_if (m_read_user_agent w) v (m_user_agent w), m_read_user_agent := False,
     m_content_type := append_if (m_read_content_type w) v (m_content_type w), m_read_content_type := False,
     m_content_len := (if m_read_content_len w then atoi v else m_content_len w), m_read_content_len := False,
     m_host := append_if (m_read_host w) v (m_host w), m_read_host := False\<rparr>"

definition wrapper_callback :: "callback \<Rightarrow> http_wrapper \<Rightarrow> http_wrapper" where
  "wrapper_callback cb w =
     (case cb of
        OnUrl at n \<Rightarrow> w\<lparr>m_url := m_url w @ take n at\<rparr>
      | OnHeaderField at n \<Rightarrow> wrapper_field at w
      | OnHeaderValue at n \<Rightarrow> wrapper_value (take n at) w
      | OnHeadersComplete nread content_length \<Rightarrow> w\<lparr>m_total_length := nread + content_length\<rparr>
      | OnBody at n \<Rightarrow> w\<lparr>m_body_content := m_body_content w @ take n at\<rparr>
      | OnMessageComplete \<Rightarrow> w\<lparr>m_read_all := True\<rparr>)"

definition ParseHttpContent :: "(string \<Rightarrow> callback list) \<Rightarrow> string \<Rightarrow> http_wrapper" where
  "ParseHttpContent http_parser_execute buf = fold (wrapper_callback) (http_parser_execute buf) wrapper_start"

section \<open>\<open>IpParser\<close>\<close>

text \<open>\<open>CStrExplode(s, c).GetItemCnt()\<close>.\<close>

definition explode_count :: "string \<Rightarrow> char \<Rightarrow> nat" where
  "explode_count s c = 1 + length (filter (\<lambda>x. x = c) s)"

definition isTelcome :: "string \<Rightarrow> bool" where
  "isTelcome ip \<longleftrightarrow> explode_count ip CHR ''.'' = 4"

section \<open>\<open>HttpConn\<close>\<close>

datatype http_state = CONN_STATE_IDLE | CONN_STATE_CONNECTED | CONN_STATE_OPEN | CONN_STATE_CLOSED

text \<open>\<open>hc_wire\<close> are the bytes that \<open>netlib_send\<close> took.\<close>

record http_conn =
  hc_busy :: bool
  hc_state :: http_state
  hc_peer_ip :: string
  hc_in :: string
  hc_out :: string
  hc_last_recv :: nat
  hc_wire :: string

datatype json = JInt nat | JStr string

record http_env =
  he_parse :: "string \<Rightarrow> callback list"
  he_json :: "(string \<times> json) list \<Rightarrow> string"
  he_msfs_url :: string
  he_discovery :: string

text \<open>The constructor leaves \<open>lastRecvTick\<close> unset: it assigns \<open>lastSendTick\<close> twice. \<open>junk\<close> is what is there.\<close>

definition http_new :: "nat \<Rightarrow> http_conn" where
  "http_new junk = \<lparr>hc_busy = False, hc_state = CONN_STATE_IDLE, hc_peer_ip = [], hc_in = [], hc_out = [],
     hc_last_recv = junk, hc_wire = []\<rparr>"

definition http_OnConnect :: "http_conn \<Rightarrow> http_conn" where
  "http_OnConnect c = c\<lparr>hc_state := CONN_STATE_CONNECTED\<rparr>"

definition http_Close :: "http_conn \<Rightarrow> http_conn" where
  "http_Close c = c\<lparr>hc_state := CONN_STATE_CLOSED\<rparr>"

definition http_OnWriteComlete :: "http_conn \<Rightarrow> http_conn" where
  "http_OnWriteComlete c = http_Close c"

definition http_Send :: "int \<Rightarrow> string \<Rightarrow> http_conn \<Rightarrow> http_conn" where
  "http_Send ret data c =
     (if hc_busy c then c\<lparr>hc_out := hc_out c @ data\<rparr>
      else
        let ret = nat ret;
            c = c\<lparr>hc_wire := hc_wire c @ take ret data\<rparr>
        in if ret < length data then c\<lparr>hc_out := hc_out c @ drop ret data, hc_busy := True\<rparr>
           else http_OnWriteComlete c)"

definition http_OnWrite :: "int \<Rightarrow> http_conn \<Rightarrow> http_conn" where
  "http_OnWrite ret c =
     (if \<not> hc_busy c then c
      else
        let ret = nat ret;
            out_buf_size = length (hc_out c);
            c = c\<lparr>hc_wire := hc_wire c @ take ret (hc_out c), hc_out := drop ret (hc_out c)\<rparr>
        in if ret < out_buf_size then c\<lparr>hc_busy := True\<rparr>
           else (http_OnWriteComlete c)\<lparr>hc_busy := False\<rparr>)"

definition HTTP_CONN_TIMEOUT :: nat where
  "HTTP_CONN_TIMEOUT = 60000"

definition http_OnTimer :: "nat \<Rightarrow> http_conn \<Rightarrow> http_conn" where
  "http_OnTimer t c = (if t > hc_last_recv c + HTTP_CONN_TIMEOUT then http_Close c else c)"

definition HTTP_RESPONSE_HTML_MAX :: nat where
  "HTTP_RESPONSE_HTML_MAX = 1024"

definition http_header :: "string \<Rightarrow> string" where
  "http_header content =
     ''HTTP/1.1 200 OK'' @ [CR, LF] @ ''Connection:close'' @ [CR, LF] @
     ''Content-Length:'' @ dec_int (sint (of_nat (length content) :: u32)) @ [CR, LF] @
     ''Content-Type:text/html;charset=utf-8'' @ [CR, LF, CR, LF]"

text \<open>\<open>snprintf\<close> keeps what fits, \<open>Send\<close> takes it up to its NUL.\<close>

definition http_response :: "string \<Rightarrow> string" where
  "http_response content = c_str (take (HTTP_RESPONSE_HTML_MAX - 1) (http_header content @ c_str content))"

definition no_msg_server :: string where
  "no_msg_server = [CHR 0xE6, CHR 0xB2, CHR 0xA1, CHR 0xE6, CHR 0x9C, CHR 0x89] @ ''msg_server''"

definition load_too_high :: string where
  "load_too_high = [CHR 0xE8, CHR 0xB4, CHR 0x9F, CHR 0xE8, CHR 0xBD, CHR 0xBD, CHR 0xE8, CHR 0xBF, CHR 0x87, CHR 0xE9, CHR 0xAB, CHR 0x98]"

definition http_answer :: "http_env \<Rightarrow> string \<Rightarrow> (handle, msg_serv) std_map \<Rightarrow> (string \<times> json) list" where
  "http_answer e peer servers =
     (if servers = [] then [(''code'', JInt 1), (''msg'', JStr no_msg_server)]
      else case choose_server servers of
        None \<Rightarrow> [(''code'', JInt 2), (''msg'', JStr load_too_high)]
      | Some x \<Rightarrow>
          [(''code'', JInt 0), (''msg'', JStr [])] @
          (if isTelcome peer
           then [(''priorIP'', JStr (ms_ip1 x)), (''backupIP'', JStr (ms_ip2 x))]
           else [(''priorIP'', JStr (ms_ip2 x)), (''backupIP'', JStr (ms_ip1 x))]) @
          [(''msfsPrior'', JStr (he_msfs_url e)), (''msfsBackup'', JStr (he_msfs_url e)),
           (''discovery'', JStr (he_discovery e)), (''port'', JStr (int2string (ucast (ms_port x))))])"

definition http_HandleMsgServRequest :: "http_env \<Rightarrow> (handle, msg_serv) std_map \<Rightarrow> int \<Rightarrow> http_conn \<Rightarrow> http_conn" where
  "http_HandleMsgServRequest e servers ret c =
     http_Send ret (http_response (he_json e (http_answer e (hc_peer_ip c) servers))) c"

definition http_OnRead :: "http_env \<Rightarrow> (handle, msg_serv) std_map \<Rightarrow> nat \<Rightarrow> string \<Rightarrow> int \<Rightarrow> http_conn \<Rightarrow> http_conn" where
  "http_OnRead e servers t received ret c =
     (let c = c\<lparr>hc_in := hc_in c @ received, hc_last_recv := (if received = [] then hc_last_recv c else t)\<rparr>
      in if length (hc_in c) > 1024 then http_Close c
         else
           let w = ParseHttpContent (he_parse e) (hc_in c)
           in if m_read_all w
              then if take 11 (c_str (m_url w)) = ''/msg_server''
                   then http_HandleMsgServRequest e servers ret c
                   else http_Close c
              else c)"

section \<open>The connections of the server\<close>

record httpd =
  g_http_conn_map :: "(u32, http_conn) std_map"
  g_conn_handle_generator :: u32

datatype http_event = HAccept nat | HRead u32 nat string int | HWrite u32 int | HClosed u32 | HTimer nat

definition next_conn_handle :: "u32 \<Rightarrow> u32" where
  "next_conn_handle g = (if g + 1 = 0 then 1 else g + 1)"

text \<open>\<open>httpconn_callback\<close> finds the connection by its number; \<open>Close\<close> takes it out of the map.\<close>

definition http_on :: "u32 \<Rightarrow> (http_conn \<Rightarrow> http_conn) \<Rightarrow> httpd \<Rightarrow> httpd" where
  "http_on h f s =
     (case map_find (g_http_conn_map s) h of
        None \<Rightarrow> s
      | Some c \<Rightarrow>
          if hc_state (f c) = CONN_STATE_CLOSED then s\<lparr>g_http_conn_map := map_erase h (g_http_conn_map s)\<rparr>
          else s\<lparr>g_http_conn_map := map_put h (f c) (g_http_conn_map s)\<rparr>)"

definition http_step :: "http_env \<Rightarrow> (handle, msg_serv) std_map \<Rightarrow> http_event \<Rightarrow> httpd \<Rightarrow> httpd" where
  "http_step e servers ev s =
     (case ev of
        HAccept junk \<Rightarrow>
          (let h = next_conn_handle (g_conn_handle_generator s)
           in s\<lparr>g_conn_handle_generator := h,
                g_http_conn_map := map_insert h (http_OnConnect (http_new junk)) (g_http_conn_map s)\<rparr>)
      | HRead h t received ret \<Rightarrow> http_on h (http_OnRead e servers t received ret) s
      | HWrite h ret \<Rightarrow> http_on h (http_OnWrite ret) s
      | HClosed h \<Rightarrow> http_on h http_Close s
      | HTimer t \<Rightarrow> fold (\<lambda>(h, c). http_on h (http_OnTimer t)) (g_http_conn_map s) s)"

section \<open>Headers\<close>

text \<open>A request with the given headers, as the parser calls back: each name and value in full.\<close>

definition header_calls :: "(string \<times> string) list \<Rightarrow> callback list" where
  "header_calls hs = concat (map (\<lambda>(n, v). [OnHeaderField (n @ '':'' @ v) (length n), OnHeaderValue v (length v)]) hs)"

definition matching :: "string \<Rightarrow> (string \<times> string) list \<Rightarrow> (string \<times> string) list" where
  "matching name hs = filter (\<lambda>(n, v). starts_with_name name (n @ '':'' @ v) \<and> v \<noteq> []) hs"

definition first_value :: "string \<Rightarrow> (string \<times> string) list \<Rightarrow> string" where
  "first_value name hs = (case matching name hs of [] \<Rightarrow> [] | (n, v) # _ \<Rightarrow> v)"

definition reads_nothing :: "http_wrapper \<Rightarrow> bool" where
  "reads_nothing w \<longleftrightarrow> \<not> m_read_referer w \<and> \<not> m_read_forward_ip w \<and> \<not> m_read_user_agent w \<and> \<not> m_read_content_type w \<and>
     \<not> m_read_content_len w \<and> \<not> m_read_host w"

lemma one_header:
  assumes "reads_nothing w" "w' = wrapper_value v (wrapper_field at w)"
  shows "reads_nothing w'" "m_url w' = m_url w" "m_body_content w' = m_body_content w" "m_read_all w' = m_read_all w"
    "m_host w' = (if m_host w = [] \<and> starts_with_name ''Host'' at then v else m_host w)"
    "m_referer w' = (if m_referer w = [] \<and> starts_with_name ''Referer'' at then take MAX_REFERER_LEN v else m_referer w)"
    "m_user_agent w' = (if m_user_agent w = [] \<and> starts_with_name ''User-Agent'' at then v else m_user_agent w)"
    "m_forward_ip w' = (if m_forward_ip w = [] \<and> starts_with_name ''X-Forwarded-For'' at then v else m_forward_ip w)"
    "m_content_type w' = (if m_content_type w = [] \<and> starts_with_name ''Content-Type'' at then v else m_content_type w)"
  using assms by (simp_all add: reads_nothing_def wrapper_value_def wrapper_field_def append_if_def)

definition keep :: "string \<Rightarrow> string \<Rightarrow> string" where
  "keep old v = (if old = [] then v else old)"

lemma headers_run:
  "reads_nothing w \<Longrightarrow>
   (let w' = fold wrapper_callback (header_calls hs) w
    in reads_nothing w' \<and> m_url w' = m_url w \<and> m_body_content w' = m_body_content w \<and> m_read_all w' = m_read_all w \<and>
       m_host w' = keep (m_host w) (first_value ''Host'' hs) \<and>
       m_referer w' = keep (m_referer w) (take MAX_REFERER_LEN (first_value ''Referer'' hs)) \<and>
       m_user_agent w' = keep (m_user_agent w) (first_value ''User-Agent'' hs) \<and>
       m_forward_ip w' = keep (m_forward_ip w) (first_value ''X-Forwarded-For'' hs) \<and>
       m_content_type w' = keep (m_content_type w) (first_value ''Content-Type'' hs))"
proof (induction hs arbitrary: w)
  case (Cons h hs)
  obtain n v where h: "h = (n, v)" by (cases h)
  have run: "fold wrapper_callback (header_calls (h # hs)) w =
      fold wrapper_callback (header_calls hs) (wrapper_value v (wrapper_field (n @ '':'' @ v) w))"
    by (simp add: header_calls_def h wrapper_callback_def)
  have step: "first_value name (h # hs) = (if starts_with_name name (n @ '':'' @ v) then keep v (first_value name hs) else first_value name hs)" for name
    by (auto simp: first_value_def matching_def h keep_def)
  note one = one_header [OF Cons.prems refl, of v "n @ '':'' @ v"]
  have ref: "keep (take MAX_REFERER_LEN v) (take MAX_REFERER_LEN x) = take MAX_REFERER_LEN (keep v x)" for x
    by (auto simp: keep_def MAX_REFERER_LEN_def)
  from Cons.IH [OF one(1), unfolded Let_def one(2-)] show ?case
    unfolding run step Let_def by (simp add: keep_def MAX_REFERER_LEN_def)
qed (simp add: header_calls_def first_value_def matching_def keep_def)

text \<open>Whatever was parsed before, parsing a request yields its URL, its body, and for each header the
  server looks at the first value that is not empty among the headers whose name starts with the
  header's name in any case; of the referer only the first 32 bytes.\<close>

theorem request_is_parsed:
  assumes "he_parse e buf = OnUrl url (length url) # header_calls hs @ [OnHeadersComplete n len, OnBody body (length body), OnMessageComplete]"
  shows "let w = ParseHttpContent (he_parse e) buf
    in m_read_all w \<and> m_url w = url \<and> m_body_content w = body \<and> m_host w = first_value ''Host'' hs \<and>
       m_referer w = take MAX_REFERER_LEN (first_value ''Referer'' hs) \<and> m_user_agent w = first_value ''User-Agent'' hs \<and>
       m_forward_ip w = first_value ''X-Forwarded-For'' hs \<and> m_content_type w = first_value ''Content-Type'' hs"
proof -
  have "reads_nothing (wrapper_start\<lparr>m_url := url\<rparr>)" by (simp add: reads_nothing_def wrapper_start_def)
  from headers_run [OF this, of hs] show ?thesis
    by (simp add: ParseHttpContent_def assms wrapper_callback_def Let_def keep_def wrapper_start_def)
qed

lemma request_is_parsed_witness:
  "let w = ParseHttpContent (he_parse \<lparr>he_parse = \<lambda>_. OnUrl ''/msg_server'' (length ''/msg_server'') #
        header_calls [(''hOST'', ''a.b''), (''Host'', ''c'')] @ [OnHeadersComplete 60 2, OnBody ''{}'' (length ''{}''), OnMessageComplete],
      he_json = \<lambda>_. [], he_msfs_url = [], he_discovery = []\<rparr>) []
    in m_read_all w \<and> m_url w = ''/msg_server'' \<and> m_body_content w = ''{}'' \<and>
       m_host w = first_value ''Host'' [(''hOST'', ''a.b''), (''Host'', ''c'')] \<and>
       m_referer w = take MAX_REFERER_LEN (first_value ''Referer'' [(''hOST'', ''a.b''), (''Host'', ''c'')]) \<and>
       m_user_agent w = first_value ''User-Agent'' [(''hOST'', ''a.b''), (''Host'', ''c'')] \<and>
       m_forward_ip w = first_value ''X-Forwarded-For'' [(''hOST'', ''a.b''), (''Host'', ''c'')] \<and>
       m_content_type w = first_value ''Content-Type'' [(''hOST'', ''a.b''), (''Host'', ''c'')]"
  by (rule request_is_parsed) simp

lemma request_host_example: "first_value ''Host'' [(''hOST'', ''a.b''), (''Host'', ''c'')] = ''a.b''"
  by code_simp

section \<open>The response\<close>

text \<open>The writes that follow a response; a closed connection gets none.\<close>

fun http_writes :: "int list \<Rightarrow> http_conn \<Rightarrow> http_conn" where
  "http_writes [] c = c"
| "http_writes (r # rs) c = (if hc_state c = CONN_STATE_CLOSED then c else http_writes rs (http_OnWrite r c))"

definition taken :: "int list \<Rightarrow> nat" where
  "taken rs = sum_list (map nat rs)"

lemma http_writes_busy:
  assumes "hc_busy c" "hc_out c \<noteq> []" "hc_state c \<noteq> CONN_STATE_CLOSED"
  shows "hc_wire (http_writes rs c) = hc_wire c @ take (taken rs) (hc_out c) \<and>
    (hc_state (http_writes rs c) = CONN_STATE_CLOSED \<longleftrightarrow> length (hc_out c) \<le> taken rs) \<and>
    hc_out (http_writes rs c) = drop (taken rs) (hc_out c)"
  using assms
proof (induction rs arbitrary: c)
  case (Cons r rs)
  let ?c = "http_OnWrite r c"
  show ?case
  proof (cases "nat r < length (hc_out c)")
    case True
    with Cons.prems have c: "?c = c\<lparr>hc_wire := hc_wire c @ take (nat r) (hc_out c), hc_out := drop (nat r) (hc_out c), hc_busy := True\<rparr>"
      by (simp add: http_OnWrite_def Let_def)
    have "hc_busy ?c" "hc_out ?c \<noteq> []" "hc_state ?c \<noteq> CONN_STATE_CLOSED" using True Cons.prems by (simp_all add: c)
    note IH = Cons.IH [OF this]
    show ?thesis using IH Cons.prems(3) True by (simp add: c taken_def take_add add.commute le_diff_conv2) linarith
  next
    case False
    with Cons.prems have "hc_state ?c = CONN_STATE_CLOSED" "hc_wire ?c = hc_wire c @ hc_out c" "hc_out ?c = []"
      by (simp_all add: http_OnWrite_def Let_def http_OnWriteComlete_def http_Close_def)
    with False Cons.prems(3) show ?thesis by (cases rs) (simp_all add: taken_def)
  qed
qed (simp add: taken_def)

text \<open>C32: However the socket cuts a response into pieces, the bytes that leave are a prefix of the response
  of as many bytes as the socket took, each byte once and in order, and the connection is closed
  exactly when the last byte has left.\<close>

theorem response_sent_then_closed:
  assumes "\<not> hc_busy c" "hc_out c = []" "hc_state c \<noteq> CONN_STATE_CLOSED"
  shows "let c' = http_writes rs (http_Send r resp c)
    in hc_wire c' = hc_wire c @ take (taken (r # rs)) resp \<and>
       (hc_state c' = CONN_STATE_CLOSED \<longleftrightarrow> length resp \<le> taken (r # rs)) \<and> hc_out c' = drop (taken (r # rs)) resp"
proof (cases "nat r < length resp")
  case True
  let ?c = "http_Send r resp c"
  have c: "?c = c\<lparr>hc_wire := hc_wire c @ take (nat r) resp, hc_out := drop (nat r) resp, hc_busy := True\<rparr>"
    using True assms by (simp add: http_Send_def Let_def)
  have "hc_busy ?c" "hc_out ?c \<noteq> []" "hc_state ?c \<noteq> CONN_STATE_CLOSED" using True assms(3) by (simp_all add: c)
  from http_writes_busy [OF this, of rs] True show ?thesis
    by (simp add: c Let_def taken_def take_add add.commute le_diff_conv2) linarith
next
  case False
  then have "hc_state (http_Send r resp c) = CONN_STATE_CLOSED" "hc_wire (http_Send r resp c) = hc_wire c @ resp"
    "hc_out (http_Send r resp c) = []"
    using assms by (simp_all add: http_Send_def Let_def http_OnWriteComlete_def http_Close_def)
  with False show ?thesis by (cases rs) (simp_all add: taken_def Let_def)
qed

lemma response_sent_then_closed_witness:
  "let c' = http_writes [2, -1, 1] (http_Send 3 ''response'' (http_OnConnect (http_new 0)))
    in hc_wire c' = hc_wire (http_OnConnect (http_new 0)) @ take (taken (3 # [2, -1, 1])) ''response'' \<and>
       (hc_state c' = CONN_STATE_CLOSED \<longleftrightarrow> length ''response'' \<le> taken (3 # [2, -1, 1])) \<and>
       hc_out c' = drop (taken (3 # [2, -1, 1])) ''response''"
  by (rule response_sent_then_closed) (simp_all add: http_OnConnect_def http_new_def)

lemma sint_length: "n < 2 ^ 31 \<Longrightarrow> sint (of_nat n :: u32) = int n"
  by (simp add: signed_of_nat signed_take_bit_int_eq_self)

lemma http_header_plain: "c \<in> set (http_header content) \<Longrightarrow> c \<noteq> NUL"
  using dec_int_no_NUL by (auto simp: http_header_def)

text \<open>A response has at most 1023 bytes: its header announces the full length of the content, but of
  a content that is longer than the room the header leaves only what fits is sent.\<close>

theorem response_is_cut_at_1023_bytes:
  assumes "NUL \<notin> set content" "length content < 2 ^ 31"
  shows "length (http_header content) \<le> 103 \<and>
    http_response content = http_header content @ take (1023 - length (http_header content)) content \<and>
    (http_response content = http_header content @ content \<longleftrightarrow> length (http_header content) + length content \<le> 1023)"
proof -
  have "length content < 10 ^ Suc 9" using assms(2) by simp
  from length_dec_le [OF this] have len: "length (http_header content) \<le> 103"
    by (simp add: http_header_def sint_length [OF assms(2)] dec_int_def)
  have "NUL \<notin> set (take 1023 (http_header content @ content))"
    using assms(1) http_header_plain [of _ content] by (auto dest!: in_set_takeD)
  from c_str_no_NUL [OF this]
  have r: "http_response content = http_header content @ take (1023 - length (http_header content)) content"
    using len by (simp add: http_response_def HTTP_RESPONSE_HTML_MAX_def c_str_no_NUL [OF assms(1)])
  have "take (1023 - length (http_header content)) content = content \<longleftrightarrow> length (http_header content) + length content \<le> 1023"
    using len by auto
  with r len show ?thesis by simp
qed

lemma response_is_cut_at_1023_bytes_witness:
  "length (http_header (replicate 1000 CHR ''x'')) \<le> 103 \<and>
    http_response (replicate 1000 CHR ''x'') = http_header (replicate 1000 CHR ''x'') @
      take (1023 - length (http_header (replicate 1000 CHR ''x''))) (replicate 1000 CHR ''x'') \<and>
    (http_response (replicate 1000 CHR ''x'') = http_header (replicate 1000 CHR ''x'') @ replicate 1000 CHR ''x''
      \<longleftrightarrow> length (http_header (replicate 1000 CHR ''x'')) + length (replicate 1000 CHR ''x'') \<le> 1023)"
  by (rule response_is_cut_at_1023_bytes) simp_all

text \<open>A client that asks over HTTP and one that asks over the binary protocol are sent to the same
  server, but their two addresses are exchanged: the peer address that \<open>isTelcome\<close> looks at is never
  set, so no HTTP client counts as one.\<close>

theorem http_exchanges_the_addresses:
  assumes x: "choose_server (g_msg_serv_info s) = Some x"
    and req: "m_read_all (ParseHttpContent (he_parse e) received)" "length received \<le> 1024"
      "take 11 (c_str (m_url (ParseHttpContent (he_parse e) received))) = ''/msg_server''"
    and client: "lc_client c" "h \<noteq> NETLIB_INVALID_HANDLE"
  shows "(h, MsgServRsp REFUSE_REASON_NONE (Some (ms_ip1 x, ms_ip2 x, ms_port x)) seq) \<in> set (dispatched (login_HandleMsgServRequest h c seq s)) \<and>
    http_OnRead e (g_msg_serv_info s) t received ret (http_OnConnect (http_new junk)) =
       http_Send ret (http_response (he_json e
         [(''code'', JInt 0), (''msg'', JStr []), (''priorIP'', JStr (ms_ip2 x)), (''backupIP'', JStr (ms_ip1 x)),
          (''msfsPrior'', JStr (he_msfs_url e)), (''msfsBackup'', JStr (he_msfs_url e)),
          (''discovery'', JStr (he_discovery e)), (''port'', JStr (int2string (ucast (ms_port x))))]))
         ((http_OnConnect (http_new junk))\<lparr>hc_in := received, hc_last_recv := (if received = [] then junk else t)\<rparr>)"
proof
  have some: "g_msg_serv_info s \<noteq> []" using x by (auto simp: choose_server_def)
  with x client show "(h, MsgServRsp REFUSE_REASON_NONE (Some (ms_ip1 x, ms_ip2 x, ms_port x)) seq)
      \<in> set (dispatched (login_HandleMsgServRequest h c seq s))"
    by (simp add: login_HandleMsgServRequest_def login_Close_def put_out_def Let_def)
  have "\<not> isTelcome []" by (simp add: isTelcome_def explode_count_def)
  with some x req show "http_OnRead e (g_msg_serv_info s) t received ret (http_OnConnect (http_new junk)) =
       http_Send ret (http_response (he_json e
         [(''code'', JInt 0), (''msg'', JStr []), (''priorIP'', JStr (ms_ip2 x)), (''backupIP'', JStr (ms_ip1 x)),
          (''msfsPrior'', JStr (he_msfs_url e)), (''msfsBackup'', JStr (he_msfs_url e)),
          (''discovery'', JStr (he_discovery e)), (''port'', JStr (int2string (ucast (ms_port x))))]))
         ((http_OnConnect (http_new junk))\<lparr>hc_in := received, hc_last_recv := (if received = [] then junk else t)\<rparr>)"
    by (simp add: http_OnRead_def http_OnConnect_def http_new_def http_HandleMsgServRequest_def http_answer_def Let_def)
qed

definition one_server :: dispatch_server where
  "one_server = no_servers\<lparr>g_msg_serv_info := [(4, \<lparr>ms_ip1 = ''10.0.0.1'', ms_ip2 = ''10.0.0.2'', ms_port = 8000,
     ms_max = 100, ms_cur = 0, ms_host = ''m''\<rparr>)]\<rparr>"

definition one_request :: http_env where
  "one_request = \<lparr>he_parse = \<lambda>_. [OnUrl ''/msg_server'' 11, OnMessageComplete],
     he_json = \<lambda>_. ''{}'', he_msfs_url = [], he_discovery = []\<rparr>"

lemma http_exchanges_the_addresses_witness:
  "http_OnRead one_request (g_msg_serv_info one_server) 5 ''GET'' 1000 (http_OnConnect (http_new 0)) =
     http_Send 1000 (http_response (he_json one_request
         [(''code'', JInt 0), (''msg'', JStr []), (''priorIP'', JStr ''10.0.0.2''), (''backupIP'', JStr ''10.0.0.1''),
          (''msfsPrior'', JStr []), (''msfsBackup'', JStr []), (''discovery'', JStr []), (''port'', JStr (int2string (ucast (8000 :: u16))))]))
       ((http_OnConnect (http_new 0))\<lparr>hc_in := ''GET'', hc_last_recv := 5\<rparr>) \<and>
   (9, MsgServRsp REFUSE_REASON_NONE (Some (''10.0.0.1'', ''10.0.0.2'', 8000)) 1) \<in>
     set (dispatched (login_HandleMsgServRequest 9 \<lparr>lc_client = True, lc_last_send = 0, lc_last_recv = 0\<rparr> 1 one_server))"
proof -
  let ?x = "\<lparr>ms_ip1 = ''10.0.0.1'', ms_ip2 = ''10.0.0.2'', ms_port = 8000, ms_max = 100, ms_cur = 0, ms_host = ''m''\<rparr>"
  have x: "choose_server (g_msg_serv_info one_server) = Some ?x" by code_simp
  have r: "m_read_all (ParseHttpContent (he_parse one_request) ''GET'')" by code_simp
  have u: "take 11 (c_str (m_url (ParseHttpContent (he_parse one_request) ''GET''))) = ''/msg_server''" by code_simp
  show ?thesis
    using http_exchanges_the_addresses [OF x r _ u, where c = "\<lparr>lc_client = True, lc_last_send = 0, lc_last_recv = 0\<rparr>" and h = 9
      and seq = 1 and t = 5 and ret = 1000 and junk = 0]
    by (simp add: one_request_def)
qed

end
