(* ===== verification/Db_Pool.thy ===== *)
theory Db_Pool
  imports "HOL-Library.Multiset"
begin

text \<open>
  The connection pools of the database proxy: \<open>CachePool\<close> of \<open>dbproxyserver/CachePool.cpp\<close> and
  \<open>DBPool\<close> of \<open>DBPool.cpp\<close>, which share their code but for the names. A connection is a number;
  \<open>free_list\<close> is the list of idle connections. The body of \<open>getCacheConn\<close> runs under the mutex of
  the pool until it returns or waits for the condition variable; \<open>ok\<close> says whether a new connection
  can be opened. The threads of the proxy are workers with the pool operations they still have
  to do; a schedule says who runs next.
\<close>

section \<open>The pool\<close>

record pool =
  free_list :: "nat list"
  cur_conn_cnt :: int
  max_conn_cnt :: int
  next_id :: nat

abbreviation (input) "MIN_CONN_CNT \<equiv> (2 :: int)"

datatype got = Got nat | Waits | Failed

definition new_connection :: "pool \<Rightarrow> pool" where
  "new_connection p =
     p\<lparr>free_list := free_list p @ [next_id p], cur_conn_cnt := cur_conn_cnt p + 1, next_id := next_id p + 1\<rparr>"

definition pop_front :: "pool \<Rightarrow> got \<times> pool" where
  "pop_front p = (Got (hd (free_list p)), p\<lparr>free_list := tl (free_list p)\<rparr>)"

definition getPoolConn :: "bool \<Rightarrow> pool \<Rightarrow> got \<times> pool" where
  "getPoolConn ok p =
     (if free_list p \<noteq> [] then pop_front p
      else if cur_conn_cnt p \<ge> max_conn_cnt p then (Waits, p)
      else if \<not> ok then (Failed, p)
      else pop_front (new_connection p))"

definition relPoolConn :: "nat \<Rightarrow> pool \<Rightarrow> pool" where
  "relPoolConn c p = (if c \<in> set (free_list p) then p else p\<lparr>free_list := free_list p @ [c]\<rparr>)"

text \<open>The constructor counts the two connections that \<open>init\<close> opens afterwards.\<close>

definition init_pool :: "int \<Rightarrow> pool" where
  "init_pool m = \<lparr>free_list = [0, 1], cur_conn_cnt = MIN_CONN_CNT, max_conn_cnt = m, next_id = 2\<rparr>"

section \<open>Workers\<close>

text \<open>\<open>Rel\<close> releases the connection got last and forgets it; \<open>RelKeep\<close> releases it while the
  thread goes on using it. A thread that gets no connection releases what it holds and gives up.\<close>

datatype action = Get | Rel | RelKeep

record worker =
  todo :: "action list"
  holds :: "nat list"

record pool_sys =
  the_pool :: pool
  workers :: "worker list"

definition worker_step :: "bool \<Rightarrow> pool \<Rightarrow> worker \<Rightarrow> pool \<times> worker" where
  "worker_step ok p w =
     (case todo w of
        [] \<Rightarrow> (p, w)
      | Get # as \<Rightarrow>
          (case getPoolConn ok p of
             (Got c, p) \<Rightarrow> (p, w\<lparr>todo := as, holds := c # holds w\<rparr>)
           | (Waits, p) \<Rightarrow> (p, w)
           | (Failed, p) \<Rightarrow> (p, w\<lparr>todo := map (\<lambda>_. Rel) (holds w)\<rparr>))
      | Rel # as \<Rightarrow>
          (case holds w of
             [] \<Rightarrow> (p, w\<lparr>todo := as\<rparr>)
           | c # cs \<Rightarrow> (relPoolConn c p, w\<lparr>todo := as, holds := cs\<rparr>))
      | RelKeep # as \<Rightarrow>
          (case holds w of
             [] \<Rightarrow> (p, w\<lparr>todo := as\<rparr>)
           | c # cs \<Rightarrow> (relPoolConn c p, w\<lparr>todo := as\<rparr>)))"

definition run_one :: "nat \<times> bool \<Rightarrow> pool_sys \<Rightarrow> pool_sys" where
  "run_one x s =
     (case x of (i, ok) \<Rightarrow>
        if i < length (workers s) then
          (case worker_step ok (the_pool s) (workers s ! i) of
             (p, w) \<Rightarrow> \<lparr>the_pool = p, workers = (workers s)[i := w]\<rparr>)
        else s)"

definition pool_run :: "(nat \<times> bool) list \<Rightarrow> pool_sys \<Rightarrow> pool_sys" where
  "pool_run sched s = fold run_one sched s"

definition pool_start :: "int \<Rightarrow> action list list \<Rightarrow> pool_sys" where
  "pool_start m scripts = \<lparr>the_pool = init_pool m, workers = map (\<lambda>as. \<lparr>todo = as, holds = []\<rparr>) scripts\<rparr>"

text \<open>The pool operations of the model functions: a function with one connection; \<open>sendMessage\<close> of
  \<open>GroupMessageModel\<close>, which calls \<open>updateGroupChat\<close> while it holds a connection of the same pool;
  and \<open>removeRepeatUser\<close> of \<open>GroupModel\<close> on \<open>n\<close> users.\<close>

definition plain_script :: "action list" where
  "plain_script = [Get, Rel]"

definition group_send_script :: "action list" where
  "group_send_script = [Get, Get, Rel, Rel]"

definition remove_repeat_script :: "nat \<Rightarrow> action list" where
  "remove_repeat_script n = Get # replicate n RelKeep"

section \<open>Connections are conserved\<close>

definition held :: "worker list \<Rightarrow> nat list" where
  "held ws = concat (map holds ws)"

lemma mset_held_update:
  "i < length ws \<Longrightarrow> mset (held (ws[i := w])) + mset (holds (ws ! i)) = mset (held ws) + mset (holds w)"
proof (induction ws arbitrary: i)
  case (Cons v ws)
  then show ?case
  proof (cases i)
    case (Suc j)
    then have "mset (held (ws[j := w])) + mset (holds (ws ! j)) = mset (held ws) + mset (holds w)"
      using Cons by simp
    with Suc show ?thesis by (simp add: held_def ac_simps)
  qed (simp add: held_def ac_simps)
qed simp

text \<open>\<open>h\<close> is the bag of the connections that are in use.\<close>

definition pool_ok :: "pool \<Rightarrow> nat multiset \<Rightarrow> bool" where
  "pool_ok p h \<longleftrightarrow> (\<forall>c. count (mset (free_list p) + h) c \<le> 1) \<and> int (size (mset (free_list p) + h)) = cur_conn_cnt p \<and>
     cur_conn_cnt p \<le> max MIN_CONN_CNT (max_conn_cnt p) \<and> (\<forall>c\<in>#mset (free_list p) + h. c < next_id p)"

lemma pool_ok_moved:
  assumes "pool_ok p h" "mset (free_list q) + h' = mset (free_list p) + h"
    "cur_conn_cnt q = cur_conn_cnt p" "max_conn_cnt q = max_conn_cnt p" "next_id q = next_id p"
  shows "pool_ok q h'"
  using assms(1) unfolding pool_ok_def assms(2-5) .

lemma pool_ok_new:
  assumes "pool_ok p h" "cur_conn_cnt p < max_conn_cnt p"
  shows "pool_ok (new_connection p) h"
proof -
  have "next_id p \<notin># mset (free_list p) + h" using assms(1) by (auto simp: pool_ok_def)
  then have "count (mset (free_list p) + h) (next_id p) = 0" by (simp add: count_eq_zero_iff)
  then show ?thesis using assms by (auto simp: pool_ok_def new_connection_def less_Suc_eq)
qed

lemma pop_front_ok:
  assumes "pool_ok p h" "free_list p \<noteq> []"
  shows "\<exists>c q. pop_front p = (Got c, q) \<and> pool_ok q (add_mset c h) \<and> max_conn_cnt q = max_conn_cnt p"
  using assms
  by (cases "free_list p") (auto simp: pop_front_def intro!: pool_ok_moved [OF assms(1)])

lemma get_ok:
  assumes "pool_ok p h" "getPoolConn ok p = (r, q)"
  shows "pool_ok q (case r of Got c \<Rightarrow> add_mset c h | _ \<Rightarrow> h) \<and> max_conn_cnt q = max_conn_cnt p"
proof -
  have new: "free_list (new_connection p) \<noteq> []" "max_conn_cnt (new_connection p) = max_conn_cnt p"
    by (simp_all add: new_connection_def)
  show ?thesis
    using assms pop_front_ok [OF assms(1)] pop_front_ok [OF pool_ok_new new(1)] new(2)
    by (fastforce simp: getPoolConn_def split: if_splits got.split)
qed

lemma rel_ok:
  assumes "pool_ok p (add_mset c h)"
  shows "pool_ok (relPoolConn c p) h \<and> max_conn_cnt (relPoolConn c p) = max_conn_cnt p"
proof -
  have "count (mset (free_list p) + add_mset c h) c \<le> 1" using assms by (simp only: pool_ok_def)
  then have "c \<notin> set (free_list p)" by (simp add: count_eq_zero_iff [of "mset (free_list p)" c, symmetric])
  then show ?thesis by (auto simp: relPoolConn_def intro!: pool_ok_moved [OF assms])
qed

lemma worker_step_ok:
  assumes "worker_step ok p w = (q, v)" "pool_ok p (mset (holds w) + h)" "RelKeep \<notin> set (todo w)"
  shows "pool_ok q (mset (holds v) + h) \<and> max_conn_cnt q = max_conn_cnt p \<and> RelKeep \<notin> set (todo v)"
proof (cases "todo w")
  case (Cons a as)
  then show ?thesis
  proof (cases a)
    case Get
    obtain r q' where r: "getPoolConn ok p = (r, q')" by fastforce
    show ?thesis
      using assms Cons Get r get_ok [OF assms(2) r] by (cases r) (auto simp: worker_step_def)
  next
    case Rel
    show ?thesis
    proof (cases "holds w")
      case (Cons c cs)
      then have "pool_ok p (add_mset c (mset cs + h))" using assms(2) by simp
      from rel_ok [OF this] show ?thesis
        using assms \<open>todo w = a # as\<close> Rel Cons by (auto simp: worker_step_def)
    qed (use assms \<open>todo w = a # as\<close> Rel in \<open>auto simp: worker_step_def\<close>)
  qed (use assms in auto)
qed (use assms in \<open>auto simp: worker_step_def\<close>)

definition sys_ok :: "int \<Rightarrow> pool_sys \<Rightarrow> bool" where
  "sys_ok m s \<longleftrightarrow> pool_ok (the_pool s) (mset (held (workers s))) \<and> max_conn_cnt (the_pool s) = m \<and>
     (\<forall>w\<in>set (workers s). RelKeep \<notin> set (todo w))"

lemma run_one_ok:
  assumes "sys_ok m s"
  shows "sys_ok m (run_one x s)"
proof -
  obtain i ok where x: "x = (i, ok)" by (cases x)
  show ?thesis
  proof (cases "i < length (workers s)")
    case True
    let ?w = "workers s ! i"
    obtain q v where step: "worker_step ok (the_pool s) ?w = (q, v)" by fastforce
    define h where "h = mset (held ((workers s)[i := \<lparr>todo = [], holds = []\<rparr>]))"
    have h: "mset (held (workers s)) = mset (holds ?w) + h"
      using mset_held_update [OF True, of "\<lparr>todo = [], holds = []\<rparr>"] by (simp add: h_def add.commute)
    have "mset (held ((workers s)[i := v])) + mset (holds ?w) = (mset (holds v) + h) + mset (holds ?w)"
      using mset_held_update [OF True, of v] unfolding h by (simp only: ac_simps)
    then have "mset (held ((workers s)[i := v])) = mset (holds v) + h" by (rule add_right_imp_eq)
    moreover have "pool_ok q (mset (holds v) + h) \<and> max_conn_cnt q = max_conn_cnt (the_pool s) \<and> RelKeep \<notin> set (todo v)"
      using worker_step_ok [OF step, of h] assms True unfolding sys_ok_def h by simp
    moreover have "\<forall>u\<in>set ((workers s)[i := v]). RelKeep \<notin> set (todo u)"
      using assms calculation(2) set_update_subset_insert [of "workers s" i v] by (auto simp: sys_ok_def)
    ultimately show ?thesis
      using assms True by (simp add: sys_ok_def run_one_def x step)
  qed (use assms in \<open>simp add: run_one_def x\<close>)
qed

lemma pool_run_ok: "sys_ok m s \<Longrightarrow> sys_ok m (pool_run sched s)"
  by (induction sched arbitrary: s) (simp_all add: pool_run_def run_one_ok)

lemma pool_start_ok: "\<forall>as\<in>set scripts. RelKeep \<notin> set as \<Longrightarrow> sys_ok m (pool_start m scripts)"
proof -
  have "held (map (\<lambda>as. \<lparr>todo = as, holds = []\<rparr>) scripts) = []" by (induction scripts) (simp_all add: held_def)
  then show "\<forall>as\<in>set scripts. RelKeep \<notin> set as \<Longrightarrow> sys_ok m (pool_start m scripts)"
    by (auto simp: sys_ok_def pool_start_def pool_ok_def init_pool_def)
qed

text \<open>C22: However the threads of the proxy are scheduled, a connection of a pool is never given to two
  threads: idle connections and connections in use are all different, their number is the number the
  pool counts, and it stays within the larger of the configured maximum and the two connections opened at
  the start. Assumed is that no thread goes on using a connection that it has released (no \<open>RelKeep\<close> in the
  scripts); \<open>removeRepeatUser\<close> (\<open>GroupModel.cpp:673\<close>) and \<open>GroupMessageModel.cpp:176\<close> do that, and then two
  threads can hold one connection (\<open>repeated_release_shares_connection\<close>).\<close>

theorem connections_not_shared:
  assumes "\<forall>as\<in>set scripts. RelKeep \<notin> set as"
  shows "let s = pool_run sched (pool_start m scripts); p = the_pool s
    in distinct (free_list p @ held (workers s)) \<and>
       int (length (free_list p @ held (workers s))) = cur_conn_cnt p \<and> cur_conn_cnt p \<le> max 2 m"
proof -
  let ?s = "pool_run sched (pool_start m scripts)"
  have ok: "pool_ok (the_pool ?s) (mset (held (workers ?s)))" "max_conn_cnt (the_pool ?s) = m"
    using pool_run_ok [OF pool_start_ok [OF assms]] by (simp_all add: sys_ok_def)
  have "count (mset (free_list (the_pool ?s) @ held (workers ?s))) c \<le> 1" for c
    using ok(1) by (simp add: pool_ok_def)
  then have "distinct (free_list (the_pool ?s) @ held (workers ?s))"
    unfolding distinct_count_atmost_1
    by (metis One_nat_def count_mset_0_iff le_SucE le_zero_eq)
  then show ?thesis using ok by (simp add: pool_ok_def Let_def)
qed

lemma connections_not_shared_witness:
  "let s = pool_run [(0, True), (1, True), (2, True), (1, True)] (pool_start 3 [plain_script, group_send_script, plain_script]); p = the_pool s
    in distinct (free_list p @ held (workers s)) \<and>
       int (length (free_list p @ held (workers s))) = cur_conn_cnt p \<and> cur_conn_cnt p \<le> max 2 3"
  by (rule connections_not_shared) (simp add: plain_script_def group_send_script_def)

section \<open>Waiting for a second connection of the same pool\<close>

abbreviation stuck_sender :: "nat \<Rightarrow> worker" where
  "stuck_sender i \<equiv> \<lparr>todo = [Get, Rel, Rel], holds = [i]\<rparr>"

definition senders :: "nat \<Rightarrow> nat \<Rightarrow> pool_sys" where
  "senders m k =
     \<lparr>the_pool = \<lparr>free_list = drop k [0, 1], cur_conn_cnt = int (max 2 k), max_conn_cnt = int m, next_id = max 2 k\<rparr>,
      workers = map stuck_sender [0..<k] @ replicate (m - k) \<lparr>todo = group_send_script, holds = []\<rparr>\<rparr>"

lemma senders_step:
  assumes "k < m"
  shows "run_one (k, True) (senders m k) = senders m (Suc k)"
proof -
  have "getPoolConn True (the_pool (senders m k)) = (Got k, the_pool (senders m (Suc k)))"
  proof -
    consider "k = 0" | "k = 1" | "2 \<le> k" by linarith
    then show ?thesis
      using assms by cases (auto simp: senders_def getPoolConn_def pop_front_def new_connection_def max_def)
  qed
  moreover obtain n where "m - k = Suc n" "m - Suc k = n" using assms by (metis Suc_diff_Suc)
  ultimately show ?thesis
    using assms by (simp add: run_one_def senders_def worker_step_def group_send_script_def nth_append list_update_append)
qed

lemma senders_run: "k \<le> m \<Longrightarrow> pool_run (map (\<lambda>i. (i, True)) [0..<k]) (pool_start (int m) (replicate m group_send_script)) = senders m k"
proof (induction k)
  case (Suc k)
  then show ?case using senders_step [of k m] by (simp add: pool_run_def)
qed (simp add: pool_run_def senders_def pool_start_def init_pool_def map_replicate)

lemma senders_stuck: "2 \<le> m \<Longrightarrow> run_one x (senders m m) = senders m m"
  by (cases x) (auto simp: run_one_def senders_def worker_step_def getPoolConn_def list_update_same_conv)

text \<open>C23: When as many threads as the pool has connections execute \<open>GroupMessageModel::sendMessage\<close>, they can
  block for ever: once each of them holds its first connection, no schedule lets any thread take
  a further step, and none releases its connection.\<close>

theorem nested_acquire_deadlocks:
  assumes "2 \<le> m"
  shows "let s = pool_run (map (\<lambda>i. (i, True)) [0..<m]) (pool_start (int m) (replicate m group_send_script))
    in (\<forall>sched. pool_run sched s = s) \<and> workers s = map stuck_sender [0..<m]"
proof -
  have "pool_run sched (senders m m) = senders m m" for sched
    by (induction sched) (simp_all add: pool_run_def senders_stuck [OF assms])
  then show ?thesis by (simp add: senders_run Let_def) (simp add: senders_def)
qed

lemma nested_acquire_deadlocks_witness:
  "let s = pool_run (map (\<lambda>i. (i, True)) [0..<16]) (pool_start (int 16) (replicate 16 group_send_script))
    in (\<forall>sched. pool_run sched s = s) \<and> workers s = map stuck_sender [0..<16]"
  by (rule nested_acquire_deadlocks) simp

text \<open>A released connection that is released again while another thread uses it is handed out a second
  time: \<open>removeRepeatUser\<close> on two users lets two other threads hold the same connection.\<close>

theorem repeated_release_shares_connection:
  "let s = pool_run [(0, True), (0, True), (1, True), (2, True), (0, True), (3, True)]
             (pool_start m [remove_repeat_script 2, plain_script, plain_script, plain_script])
    in holds (workers s ! 2) = [0] \<and> holds (workers s ! 3) = [0]"
  by (simp add: pool_run_def pool_start_def init_pool_def remove_repeat_script_def plain_script_def run_one_def
      worker_step_def getPoolConn_def pop_front_def relPoolConn_def numeral_2_eq_2 numeral_3_eq_3)

section \<open>Functions with one connection\<close>

definition plain_worker :: "worker \<Rightarrow> bool" where
  "plain_worker w \<longleftrightarrow> (\<exists>n. holds w = [] \<and> todo w = concat (replicate n plain_script) \<or>
     (\<exists>c. holds w = [c] \<and> todo w = Rel # concat (replicate n plain_script)))"

lemma plain_worker_step:
  assumes "plain_worker w"
  shows "plain_worker (snd (worker_step ok p w))"
proof -
  from assms obtain n where n: "holds w = [] \<and> todo w = concat (replicate n plain_script) \<or>
     (\<exists>c. holds w = [c] \<and> todo w = Rel # concat (replicate n plain_script))" by (auto simp: plain_worker_def)
  show ?thesis
  proof (cases "holds w")
    case Nil
    have none: "plain_worker (w\<lparr>todo := []\<rparr>)" using Nil by (auto simp: plain_worker_def intro: exI [of _ 0])
    obtain r q where r: "getPoolConn ok p = (r, q)" by fastforce
    show ?thesis
    proof (cases n)
      case 0
      then show ?thesis using n Nil assms by (simp add: worker_step_def)
    next
      case (Suc k)
      have got: "plain_worker (w\<lparr>todo := Rel # concat (replicate k plain_script), holds := [c]\<rparr>)" for c
        by (auto simp: plain_worker_def)
      show ?thesis using n Nil Suc r none got assms by (cases r) (simp_all add: worker_step_def plain_script_def)
    qed
  next
    case (Cons c cs)
    then show ?thesis using n by (auto simp: worker_step_def plain_worker_def)
  qed
qed

definition work_left :: "pool_sys \<Rightarrow> nat" where
  "work_left s = sum_list (map (length \<circ> todo) (workers s))"

lemma work_left_update:
  "i < length ws \<Longrightarrow> length (todo v) < length (todo (ws ! i)) \<Longrightarrow>
   sum_list (map (length \<circ> todo) (ws[i := v])) < sum_list (map (length \<circ> todo) ws)"
  by (induction ws arbitrary: i) (auto split: nat.split)

definition plain_sys :: "pool_sys \<Rightarrow> bool" where
  "plain_sys s \<longleftrightarrow> (\<exists>m\<ge>1. sys_ok m s) \<and> (\<forall>w\<in>set (workers s). plain_worker w)"

lemma plain_run_one: "plain_sys s \<Longrightarrow> plain_sys (run_one x s)"
proof -
  assume s: "plain_sys s"
  obtain i ok where x: "x = (i, ok)" by (cases x)
  have "plain_worker w" if "w \<in> set (workers (run_one x s))" for w
  proof (cases "i < length (workers s)")
    case True
    obtain q v where v: "worker_step ok (the_pool s) (workers s ! i) = (q, v)" by fastforce
    have "plain_worker v" using plain_worker_step [of "workers s ! i" ok "the_pool s"] s True v by (simp add: plain_sys_def)
    moreover have "w \<in> insert v (set (workers s))"
      using that True v set_update_subset_insert [of "workers s" i v] by (auto simp: run_one_def x)
    ultimately show ?thesis using s by (auto simp: plain_sys_def)
  qed (use that s in \<open>simp add: run_one_def x plain_sys_def\<close>)
  with s show ?thesis using run_one_ok [of _ s x] by (auto simp: plain_sys_def)
qed

lemma plain_pool_run: "plain_sys s \<Longrightarrow> plain_sys (pool_run sched s)"
  by (induction sched arbitrary: s) (simp_all add: pool_run_def plain_run_one)

lemma some_worker_proceeds:
  assumes "plain_sys s" "work_left s \<noteq> 0"
  shows "\<exists>i. work_left (run_one (i, True) s) < work_left s"
proof -
  from assms(1) obtain m where m: "1 \<le> m" "sys_ok m s" by (auto simp: plain_sys_def)
  have step: "\<exists>i. work_left (run_one (i, True) s) < work_left s"
    if "w \<in> set (workers s)" "length (todo (snd (worker_step True (the_pool s) w))) < length (todo w)" for w
  proof -
    from that(1) obtain i where i: "i < length (workers s)" "w = workers s ! i" by (auto simp: in_set_conv_nth)
    then show ?thesis using work_left_update [OF i(1), of "snd (worker_step True (the_pool s) w)"] that(2)
      by (intro exI [of _ i]) (simp add: work_left_def run_one_def case_prod_unfold)
  qed
  show ?thesis
  proof (cases "held (workers s) = []")
    case False
    then obtain w c cs where w: "w \<in> set (workers s)" "holds w = c # cs" by (auto simp: held_def neq_Nil_conv)
    with assms(1) obtain n where "todo w = Rel # concat (replicate n plain_script)" by (auto simp: plain_sys_def plain_worker_def)
    with w show ?thesis by (intro step [of w]) (simp_all add: worker_step_def)
  next
    case True
    from assms(2) obtain w where w: "w \<in> set (workers s)" "todo w \<noteq> []" by (auto simp: work_left_def)
    have "holds w = []" using True w(1) by (auto simp: held_def)
    then obtain n where "todo w = concat (replicate n plain_script)" using assms(1) w(1) by (auto simp: plain_sys_def plain_worker_def)
    with w(2) obtain k where k: "todo w = Get # Rel # concat (replicate k plain_script)" by (cases n) (auto simp: plain_script_def)
    have "\<exists>c q. getPoolConn True (the_pool s) = (Got c, q)"
      using m True by (auto simp: sys_ok_def pool_ok_def getPoolConn_def pop_front_def)
    with w k show ?thesis by (intro step [of w]) (auto simp: worker_step_def)
  qed
qed

lemma plain_start:
  assumes "1 \<le> m" "\<forall>as\<in>set scripts. \<exists>n. as = concat (replicate n plain_script)"
  shows "plain_sys (pool_start m scripts)"
proof -
  have "RelKeep \<notin> set (concat (replicate n plain_script))" for n by (auto simp: plain_script_def)
  then have "RelKeep \<notin> set as" if "as \<in> set scripts" for as using assms(2) that by metis
  then have "sys_ok m (pool_start m scripts)" by (intro pool_start_ok) blast
  then show ?thesis using assms by (auto simp: plain_sys_def pool_start_def plain_worker_def)
qed

text \<open>C24: Functions that hold at most one connection of a pool never block each other for ever: from whatever
  state a schedule leads to, all threads can finish.\<close>

theorem single_acquire_finishes:
  assumes "1 \<le> m" "\<forall>as\<in>set scripts. \<exists>n. as = concat (replicate n plain_script)"
  shows "\<exists>more. \<forall>w\<in>set (workers (pool_run (sched @ more) (pool_start m scripts))). todo w = []"
proof -
  have "\<exists>more. work_left (pool_run more s) = 0" if "plain_sys s" for s
    using that
  proof (induction "work_left s" arbitrary: s rule: less_induct)
    case less
    show ?case
    proof (cases "work_left s = 0")
      case False
      from some_worker_proceeds [OF less.prems False] obtain i where i: "work_left (run_one (i, True) s) < work_left s" by blast
      from less.hyps [OF i plain_run_one [OF less.prems]] obtain more where "work_left (pool_run more (run_one (i, True) s)) = 0"
        by blast
      then show ?thesis by (intro exI [of _ "(i, True) # more"]) (simp add: pool_run_def)
    qed (auto simp: pool_run_def intro: exI [of _ "[]"])
  qed
  from this [OF plain_pool_run [OF plain_start [OF assms]], of sched] obtain more
    where "work_left (pool_run more (pool_run sched (pool_start m scripts))) = 0" by blast
  then show ?thesis by (intro exI [of _ more]) (simp add: pool_run_def work_left_def)
qed

lemma single_acquire_finishes_witness:
  "\<exists>more. \<forall>w\<in>set (workers (pool_run ([(0, False), (1, True), (2, True)] @ more)
     (pool_start 2 (replicate 5 (concat (replicate 3 plain_script)))))). todo w = []"
  by (rule single_acquire_finishes) auto

end
