(* ===== verification/Db_Cache.thy ===== *)
theory Db_Cache
  imports "HOL-Library.Monad_Syntax" "HOL-Library.Char_ord" "HOL-Library.List_Lexorder" Hiredis_Format Std_Map Std_Text Db_Pool
begin

text \<open>
  The Redis connections of the database proxy: \<open>CacheConn\<close>, \<open>CachePool\<close> and \<open>CacheManager\<close> of
  \<open>dbproxyserver/CachePool.cpp\<close>. A connection is named by its pool and its number there; a command is
  formatted by hiredis and its bytes go to the server, which is a parameter: it takes the pool
  whose server is meant, whether the connection has selected the configured database, and the
  bytes. \<open>None\<close> as the result of an operation is undefined behaviour (a null or dangling context,
  a malformed reply) or a wait for a connection that never ends.
\<close>

section \<open>State\<close>

type_synonym i64 = "64 word"
type_synonym cache_ref = "string \<times> nat"

datatype context_ptr = NoContext | Connected | Dangling

record cache_conn =
  cc_context :: context_ptr
  cc_selected :: bool
  cc_last_connect :: nat

record 'r caches =
  redis :: 'r
  cache_conns :: "cache_ref \<Rightarrow> cache_conn"
  cache_pools :: "string \<Rightarrow> pool option"

text \<open>The services: memory and number printing of the C library, the clock, whether a connection to
  the server of a pool can be opened, the number of its database, and the server.\<close>

record 'r cache_env =
  ce_alloc :: allocator
  ce_printf :: "string \<Rightarrow> vararg \<Rightarrow> string"
  ce_time :: nat
  ce_connect :: "string \<Rightarrow> 'r \<Rightarrow> bool"
  ce_db_num :: "string \<Rightarrow> 32 word"
  ce_exec :: "string \<Rightarrow> bool \<Rightarrow> string \<Rightarrow> 'r \<Rightarrow> redisReply option \<times> 'r"

definition upd_cache_conn :: "cache_ref \<Rightarrow> (cache_conn \<Rightarrow> cache_conn) \<Rightarrow> ('r, 'z) caches_scheme \<Rightarrow> ('r, 'z) caches_scheme" where
  "upd_cache_conn c f s = s\<lparr>cache_conns := (cache_conns s)(c := f (cache_conns s c))\<rparr>"

definition new_cache_conn :: cache_conn where
  "new_cache_conn = \<lparr>cc_context = NoContext, cc_selected = False, cc_last_connect = 0\<rparr>"

section \<open>Commands and replies\<close>

definition send_command :: "'r cache_env \<Rightarrow> cache_ref \<Rightarrow> fmt_result option \<Rightarrow> ('r, 'z) caches_scheme
    \<Rightarrow> (redisReply option \<times> ('r, 'z) caches_scheme) option" where
  "send_command e c fmt s =
     (if cc_context (cache_conns s c) \<noteq> Connected then None
      else case fmt of
        None \<Rightarrow> None
      | Some (FmtOk cmd) \<Rightarrow>
          (case ce_exec e (fst c) (cc_selected (cache_conns s c)) cmd (redis s) of (r, st) \<Rightarrow> Some (r, s\<lparr>redis := st\<rparr>))
      | Some _ \<Rightarrow> Some (None, s))"

definition redis_command :: "'r cache_env \<Rightarrow> cache_ref \<Rightarrow> string \<Rightarrow> vararg list \<Rightarrow> ('r, 'z) caches_scheme
    \<Rightarrow> (redisReply option \<times> ('r, 'z) caches_scheme) option" where
  "redis_command e c fmt args = send_command e c (redisvFormatCommand (ce_alloc e) (ce_printf e) fmt args)"

definition redis_commandv :: "'r cache_env \<Rightarrow> cache_ref \<Rightarrow> string list \<Rightarrow> ('r, 'z) caches_scheme
    \<Rightarrow> (redisReply option \<times> ('r, 'z) caches_scheme) option" where
  "redis_commandv e c args = send_command e c (redisFormatCommandArgv (ce_alloc e) (map (\<lambda>s. (s, None)) args))"

text \<open>\<open>string(reply->str, reply->len)\<close>. A \<open>len\<close> below zero, the cut length of a text of 2 GiB or more, makes the constructor
  throw, which is not modelled.\<close>

definition reply_text :: "redisReply \<Rightarrow> string" where
  "reply_text r = (case rstr r of None \<Rightarrow> [] | Some t \<Rightarrow> take (nat (rlength r)) t)"

text \<open>The elements that the loop over \<open>reply->element\<close> visits.\<close>

definition reply_elements :: "redisReply \<Rightarrow> redisReply list option" where
  "reply_elements r =
     (if relements r = 0 then Some []
      else case relement r of
        None \<Rightarrow> None
      | Some l \<Rightarrow>
          let l = take (unat (relements r)) l
          in if length l = unat (relements r) \<and> None \<notin> set l then Some (map the l) else None)"

fun pair_up :: "redisReply list \<Rightarrow> (string, string) std_map \<Rightarrow> (string, string) std_map" where
  "pair_up (f # v # rs) m = pair_up rs (map_insert (reply_text f) (reply_text v) m)"
| "pair_up _ m = m"

section \<open>\<open>CacheConn\<close>\<close>

text \<open>\<open>init\<close>: 0 is success. A failed \<open>SELECT\<close> leaves the context connected.\<close>

definition cache_init :: "'r cache_env \<Rightarrow> cache_ref \<Rightarrow> ('r, 'z) caches_scheme \<Rightarrow> (nat \<times> ('r, 'z) caches_scheme) option" where
  "cache_init e c s =
     (let cc = cache_conns s c
      in if cc_context cc \<noteq> NoContext then Some (0, s)
         else if ce_time e < cc_last_connect cc + 4 then Some (1, s)
         else
           let s = upd_cache_conn c (\<lambda>x. x\<lparr>cc_last_connect := ce_time e\<rparr>) s
           in if \<not> ce_connect e (fst c) (redis s) then Some (1, s)
              else do {
                let s = upd_cache_conn c (\<lambda>x. x\<lparr>cc_context := Connected, cc_selected := False\<rparr>) s;
                (r, s) \<leftarrow> redis_command e c ''SELECT %d'' [VInt (ce_db_num e (fst c))] s;
                Some (case r of
                    Some r \<Rightarrow> if rtype r = REDIS_REPLY_STATUS \<and> take 2 (reply_text r) = ''OK''
                              then (0, upd_cache_conn c (\<lambda>x. x\<lparr>cc_selected := True\<rparr>) s) else (2, s)
                  | None \<Rightarrow> (2, s))
              })"

text \<open>The common shape of the operations: \<open>init\<close>, the command, and without a reply the context is
  freed (\<open>gone\<close> is what is left of the pointer).\<close>

definition cache_op :: "'r cache_env \<Rightarrow> cache_ref \<Rightarrow> context_ptr \<Rightarrow> 'a
    \<Rightarrow> (('r, 'z) caches_scheme \<Rightarrow> (redisReply option \<times> ('r, 'z) caches_scheme) option)
    \<Rightarrow> (redisReply \<Rightarrow> 'a option) \<Rightarrow> ('r, 'z) caches_scheme \<Rightarrow> ('a \<times> ('r, 'z) caches_scheme) option" where
  "cache_op e c gone fail cmd result s = do {
     (n, s) \<leftarrow> cache_init e c s;
     (if n \<noteq> 0 then Some (fail, s)
      else do {
        (r, s) \<leftarrow> cmd s;
        (case r of
           None \<Rightarrow> Some (fail, upd_cache_conn c (\<lambda>x. x\<lparr>cc_context := gone\<rparr>) s)
         | Some r \<Rightarrow> map_option (\<lambda>v. (v, s)) (result r))
      })
   }"

definition cache_get :: "'r cache_env \<Rightarrow> cache_ref \<Rightarrow> string \<Rightarrow> ('r, 'z) caches_scheme \<Rightarrow> (string \<times> ('r, 'z) caches_scheme) option" where
  "cache_get e c key = cache_op e c NoContext [] (redis_command e c ''GET %s'' [VStr key])
     (\<lambda>r. Some (if rtype r = REDIS_REPLY_STRING then reply_text r else []))"

definition cache_setex :: "'r cache_env \<Rightarrow> cache_ref \<Rightarrow> string \<Rightarrow> 32 word \<Rightarrow> string \<Rightarrow> ('r, 'z) caches_scheme
    \<Rightarrow> (string \<times> ('r, 'z) caches_scheme) option" where
  "cache_setex e c key timeout val = cache_op e c NoContext []
     (redis_command e c ''SETEX %s %d %s'' [VStr key, VInt timeout, VStr val]) (\<lambda>r. Some (reply_text r))"

definition cache_set :: "'r cache_env \<Rightarrow> cache_ref \<Rightarrow> string \<Rightarrow> string \<Rightarrow> ('r, 'z) caches_scheme
    \<Rightarrow> (string \<times> ('r, 'z) caches_scheme) option" where
  "cache_set e c key val = cache_op e c NoContext []
     (redis_command e c ''SET %s %s'' [VStr key, VStr val]) (\<lambda>r. Some (reply_text r))"

fun join_keys :: "string list \<Rightarrow> string" where
  "join_keys [] = []"
| "join_keys [k] = k"
| "join_keys (k # ks) = k @ '' '' @ join_keys ks"

fun mget_values :: "string list \<Rightarrow> redisReply list \<Rightarrow> (string, string) std_map \<Rightarrow> (string, string) std_map option" where
  "mget_values keys [] m = Some m"
| "mget_values [] (r # rs) m = (if rtype r = REDIS_REPLY_STRING then None else mget_values [] rs m)"
| "mget_values (k # ks) (r # rs) m =
     mget_values ks rs (if rtype r = REDIS_REPLY_STRING then map_put k (c_str (reply_text r)) m else m)"

definition cache_mget :: "'r cache_env \<Rightarrow> cache_ref \<Rightarrow> string list \<Rightarrow> ('r, 'z) caches_scheme
    \<Rightarrow> ((bool \<times> (string, string) std_map) \<times> ('r, 'z) caches_scheme) option" where
  "cache_mget e c keys s = do {
     (n, s) \<leftarrow> cache_init e c s;
     (if n \<noteq> 0 \<or> keys = [] \<or> join_keys keys = [] then Some ((False, []), s)
      else cache_op e c NoContext (False, []) (redis_command e c (''MGET '' @ c_str (join_keys keys)) [])
        (\<lambda>r. if rtype r = REDIS_REPLY_ARRAY
             then do { rs \<leftarrow> reply_elements r; m \<leftarrow> mget_values keys rs []; Some (True, m) }
             else Some (True, [])) s)
   }"

definition cache_isExists :: "'r cache_env \<Rightarrow> cache_ref \<Rightarrow> string \<Rightarrow> ('r, 'z) caches_scheme \<Rightarrow> (bool \<times> ('r, 'z) caches_scheme) option" where
  "cache_isExists e c key = cache_op e c Dangling False
     (redis_command e c ''EXISTS %s'' [VStr key]) (\<lambda>r. Some (rinteger r \<noteq> 0))"

definition cache_hdel :: "'r cache_env \<Rightarrow> cache_ref \<Rightarrow> string \<Rightarrow> string \<Rightarrow> ('r, 'z) caches_scheme \<Rightarrow> (i64 \<times> ('r, 'z) caches_scheme) option" where
  "cache_hdel e c key field = cache_op e c NoContext 0
     (redis_command e c ''HDEL %s %s'' [VStr key, VStr field]) (\<lambda>r. Some (rinteger r))"

definition cache_hget :: "'r cache_env \<Rightarrow> cache_ref \<Rightarrow> string \<Rightarrow> string \<Rightarrow> ('r, 'z) caches_scheme \<Rightarrow> (string \<times> ('r, 'z) caches_scheme) option" where
  "cache_hget e c key field = cache_op e c NoContext []
     (redis_command e c ''HGET %s %s'' [VStr key, VStr field])
     (\<lambda>r. Some (if rtype r = REDIS_REPLY_STRING then reply_text r else []))"

definition cache_hgetAll :: "'r cache_env \<Rightarrow> cache_ref \<Rightarrow> string \<Rightarrow> ('r, 'z) caches_scheme
    \<Rightarrow> ((bool \<times> (string, string) std_map) \<times> ('r, 'z) caches_scheme) option" where
  "cache_hgetAll e c key = cache_op e c NoContext (False, []) (redis_command e c ''HGETALL %s'' [VStr key])
     (\<lambda>r. if rtype r = REDIS_REPLY_ARRAY \<and> relements r mod 2 = 0
          then map_option (\<lambda>rs. (True, pair_up rs [])) (reply_elements r) else Some (True, []))"

definition cache_hset :: "'r cache_env \<Rightarrow> cache_ref \<Rightarrow> string \<Rightarrow> string \<Rightarrow> string \<Rightarrow> ('r, 'z) caches_scheme
    \<Rightarrow> (i64 \<times> ('r, 'z) caches_scheme) option" where
  "cache_hset e c key field val = cache_op e c NoContext (- 1)
     (redis_command e c ''HSET %s %s %s'' [VStr key, VStr field, VStr val]) (\<lambda>r. Some (rinteger r))"

definition cache_hincrBy :: "'r cache_env \<Rightarrow> cache_ref \<Rightarrow> string \<Rightarrow> string \<Rightarrow> i64 \<Rightarrow> ('r, 'z) caches_scheme
    \<Rightarrow> (i64 \<times> ('r, 'z) caches_scheme) option" where
  "cache_hincrBy e c key field val = cache_op e c NoContext (- 1)
     (redis_command e c ''HINCRBY %s %s %ld'' [VStr key, VStr field, VLong val]) (\<lambda>r. Some (rinteger r))"

definition cache_incrBy :: "'r cache_env \<Rightarrow> cache_ref \<Rightarrow> string \<Rightarrow> i64 \<Rightarrow> ('r, 'z) caches_scheme \<Rightarrow> (i64 \<times> ('r, 'z) caches_scheme) option" where
  "cache_incrBy e c key val = cache_op e c NoContext (- 1)
     (redis_command e c ''INCRBY %s %ld'' [VStr key, VLong val]) (\<lambda>r. Some (rinteger r))"

definition cache_hmset :: "'r cache_env \<Rightarrow> cache_ref \<Rightarrow> string \<Rightarrow> (string, string) std_map \<Rightarrow> ('r, 'z) caches_scheme
    \<Rightarrow> (string \<times> ('r, 'z) caches_scheme) option" where
  "cache_hmset e c key hash = cache_op e c NoContext []
     (redis_commandv e c (''HMSET'' # key # concat (map (\<lambda>(f, v). [f, v]) hash))) (\<lambda>r. Some (reply_text r))"

definition cache_hmget :: "'r cache_env \<Rightarrow> cache_ref \<Rightarrow> string \<Rightarrow> string list \<Rightarrow> ('r, 'z) caches_scheme
    \<Rightarrow> ((bool \<times> string list) \<times> ('r, 'z) caches_scheme) option" where
  "cache_hmget e c key names = cache_op e c NoContext (False, []) (redis_commandv e c (''HMGET'' # key # names))
     (\<lambda>r. if rtype r = REDIS_REPLY_ARRAY
          then map_option (\<lambda>rs. (True, map reply_text rs)) (reply_elements r) else Some (True, []))"

definition cache_incr :: "'r cache_env \<Rightarrow> cache_ref \<Rightarrow> string \<Rightarrow> ('r, 'z) caches_scheme \<Rightarrow> (i64 \<times> ('r, 'z) caches_scheme) option" where
  "cache_incr e c key = cache_op e c NoContext (- 1) (redis_command e c ''INCR %s'' [VStr key]) (\<lambda>r. Some (rinteger r))"

definition cache_decr :: "'r cache_env \<Rightarrow> cache_ref \<Rightarrow> string \<Rightarrow> ('r, 'z) caches_scheme \<Rightarrow> (i64 \<times> ('r, 'z) caches_scheme) option" where
  "cache_decr e c key = cache_op e c NoContext (- 1) (redis_command e c ''DECR %s'' [VStr key]) (\<lambda>r. Some (rinteger r))"

definition cache_lpush :: "'r cache_env \<Rightarrow> cache_ref \<Rightarrow> string \<Rightarrow> string \<Rightarrow> ('r, 'z) caches_scheme \<Rightarrow> (i64 \<times> ('r, 'z) caches_scheme) option" where
  "cache_lpush e c key val = cache_op e c NoContext (- 1)
     (redis_command e c ''LPUSH %s %s'' [VStr key, VStr val]) (\<lambda>r. Some (rinteger r))"

definition cache_rpush :: "'r cache_env \<Rightarrow> cache_ref \<Rightarrow> string \<Rightarrow> string \<Rightarrow> ('r, 'z) caches_scheme \<Rightarrow> (i64 \<times> ('r, 'z) caches_scheme) option" where
  "cache_rpush e c key val = cache_op e c NoContext (- 1)
     (redis_command e c ''RPUSH %s %s'' [VStr key, VStr val]) (\<lambda>r. Some (rinteger r))"

definition cache_llen :: "'r cache_env \<Rightarrow> cache_ref \<Rightarrow> string \<Rightarrow> ('r, 'z) caches_scheme \<Rightarrow> (i64 \<times> ('r, 'z) caches_scheme) option" where
  "cache_llen e c key = cache_op e c NoContext (- 1) (redis_command e c ''LLEN %s'' [VStr key]) (\<lambda>r. Some (rinteger r))"

text \<open>The two \<open>long\<close> arguments meet \<open>%d\<close> conversions, which makes the behaviour undefined in C and the
  result of formatting \<open>None\<close>.\<close>

definition cache_lrange :: "'r cache_env \<Rightarrow> cache_ref \<Rightarrow> string \<Rightarrow> i64 \<Rightarrow> i64 \<Rightarrow> ('r, 'z) caches_scheme
    \<Rightarrow> ((bool \<times> string list) \<times> ('r, 'z) caches_scheme) option" where
  "cache_lrange e c key lo hi = cache_op e c NoContext (False, [])
     (redis_command e c ''LRANGE %s %d %d'' [VStr key, VLong lo, VLong hi])
     (\<lambda>r. if rtype r = REDIS_REPLY_ARRAY
          then map_option (\<lambda>rs. (True, map reply_text rs)) (reply_elements r) else Some (True, []))"

section \<open>\<open>CachePool\<close> and \<open>CacheManager\<close>\<close>

definition getCacheConn :: "'r cache_env \<Rightarrow> string \<Rightarrow> ('r, 'z) caches_scheme \<Rightarrow> (cache_ref option \<times> ('r, 'z) caches_scheme) option" where
  "getCacheConn e name s =
     (case cache_pools s name of
        None \<Rightarrow> Some (None, s)
      | Some p \<Rightarrow> do {
          let c = (name, next_id p);
          (n, s) \<leftarrow> (if free_list p = [] \<and> cur_conn_cnt p < max_conn_cnt p
                   then cache_init e c (upd_cache_conn c (\<lambda>_. new_cache_conn) s) else Some (0, s));
          (case getPoolConn (n = 0) p of
             (Got k, p) \<Rightarrow> Some (Some (name, k), s\<lparr>cache_pools := (cache_pools s)(name \<mapsto> p)\<rparr>)
           | (Waits, p) \<Rightarrow> None
           | (Failed, p) \<Rightarrow> Some (None, s))
        })"

definition relCacheConn :: "cache_ref \<Rightarrow> ('r, 'z) caches_scheme \<Rightarrow> ('r, 'z) caches_scheme" where
  "relCacheConn c s =
     (case cache_pools s (fst c) of
        None \<Rightarrow> s
      | Some p \<Rightarrow> s\<lparr>cache_pools := (cache_pools s)(fst c \<mapsto> relPoolConn (snd c) p)\<rparr>)"

section \<open>What is sent\<close>

text \<open>The hypotheses about the C library: memory is available and \<open>printf\<close> prints decimal numbers.\<close>

definition libc_ok :: "'r cache_env \<Rightarrow> bool" where
  "libc_ok e \<longleftrightarrow> (\<forall>n. can_alloc (ce_alloc e) n) \<and> (\<forall>w. ce_printf e ''%ld'' (VLong w) = dec_int (sint w)) \<and>
     (\<forall>w. ce_printf e ''%d'' (VInt w) = dec_int (sint w))"

definition connected :: "cache_ref \<Rightarrow> ('r, 'z) caches_scheme \<Rightarrow> bool" where
  "connected c s \<longleftrightarrow> cc_context (cache_conns s c) = Connected"

definition small :: "string list \<Rightarrow> bool" where
  "small args \<longleftrightarrow> length (wire_command args) + 1 < 2 ^ 31"

text \<open>The server answers the command with the given arguments.\<close>

definition ask :: "'r cache_env \<Rightarrow> cache_ref \<Rightarrow> string list \<Rightarrow> ('r, 'z) caches_scheme \<Rightarrow> redisReply option \<times> ('r, 'z) caches_scheme" where
  "ask e c args s =
     (case ce_exec e (fst c) (cc_selected (cache_conns s c)) (wire_command args) (redis s) of (r, st) \<Rightarrow> (r, s\<lparr>redis := st\<rparr>))"

definition lit :: "string \<Rightarrow> piece list" where
  "lit w = map Lit w"

lemma word_text_simps [simp]: "word_text (lit w) = w" "word_text [StrArg s] = c_str s"
  by (induction w) (simp_all add: word_text_def lit_def c_str_def)

lemma word_ok_simps [simp]: "word_ok [StrArg s]" "word_ok (lit w) \<longleftrightarrow> w \<noteq> [] \<and> NUL \<notin> set w \<and> CHR '' '' \<notin> set w"
  by (auto simp: word_ok_def lit_def)

lemma send_words:
  assumes e: "libc_ok e" and c: "connected c s" and ws: "ws \<noteq> []" "\<forall>w\<in>set ws. word_ok w"
    and fmt: "fmt = template ws" "args = template_args ws" and small: "small (map word_text ws)"
  shows "redis_command e c fmt args s = Some (ask e c (map word_text ws) s)"
proof -
  have "redisvFormatCommand (ce_alloc e) (ce_printf e) fmt args = Some (FmtOk (wire_command (map word_text ws)))"
  proof -
    have mem: "\<And>n. can_alloc (ce_alloc e) n" using e by (simp add: libc_ok_def)
    from yields_alloc [OF sdsempty_yields mem] obtain z where z: "sdsempty (ce_alloc e) = Some z" "sds_wf z" "content z = []"
      by blast
    from format_loop_template [OF mem ws z(2,3), of "ce_printf e" "[]"] obtain s' as where
      l: "format_loop (ce_alloc e) (ce_printf e) (template ws) z False [] (template_args ws) = Some (Inr (s', True, as))"
        "\<forall>t\<in>set (as @ [s']). sds_wf t" "map content (as @ [s']) = map word_text ws" by auto
    show ?thesis unfolding fmt
      by (rule format_loop_finish [OF mem z(1) NUL_template [OF ws(2)] l small [unfolded small_def]])
  qed
  with c show ?thesis by (simp add: redis_command_def send_command_def connected_def ask_def split: prod.split)
qed

lemma send_words_number:
  assumes e: "libc_ok e" and c: "connected c s" and ws: "ws \<noteq> []" "\<forall>w\<in>set ws. word_ok w"
    and v: "spec = ''%ld'' \<and> v = VLong x \<and> i = sint x \<or> spec = ''%d'' \<and> v = VInt y \<and> i = sint y"
    and fmt: "fmt = template ws @ CHR '' '' # spec" "args = template_args ws @ [v]"
    and small: "small (map word_text ws @ [dec_int i])"
  shows "redis_command e c fmt args s = Some (ask e c (map word_text ws @ [dec_int i]) s)"
proof -
  have mem: "\<And>n. can_alloc (ce_alloc e) n" using e by (simp add: libc_ok_def)
  have p: "ce_printf e spec v = dec_int i" using v e by (auto simp: libc_ok_def)
  have k: "spec = ''%ld'' \<and> kind_of v = Some KLong \<or> spec = ''%d'' \<and> kind_of v = Some KInt"
    using v by (auto simp: kind_of_def)
  have "redisvFormatCommand (ce_alloc e) (ce_printf e) fmt args = Some (FmtOk (wire_command (map word_text ws @ [dec_int i])))"
    unfolding fmt
    by (rule command_with_number [OF mem ws k, where conv = "ce_printf e", unfolded p, OF dec_int_no_NUL small [unfolded small_def]])
  with c show ?thesis by (simp add: redis_command_def send_command_def connected_def ask_def split: prod.split)
qed

lemma send_words_inner_number:
  assumes e: "libc_ok e" and c: "connected c s" and ws: "ws \<noteq> []" "\<forall>w\<in>set ws. word_ok w" and us: "us \<noteq> []" "\<forall>w\<in>set us. word_ok w"
    and fmt: "fmt = template ws @ CHR '' '' # ''%d'' @ CHR '' '' # template us" "args = template_args ws @ VInt y # template_args us"
    and small: "small (map word_text ws @ dec_int (sint y) # map word_text us)"
  shows "redis_command e c fmt args s = Some (ask e c (map word_text ws @ dec_int (sint y) # map word_text us) s)"
proof -
  have mem: "\<And>n. can_alloc (ce_alloc e) n" using e by (simp add: libc_ok_def)
  have p: "ce_printf e ''%d'' (VInt y) = dec_int (sint y)" using e by (simp add: libc_ok_def)
  have k: "''%d'' = ''%ld'' \<and> kind_of (VInt y) = Some KLong \<or> ''%d'' = ''%d'' \<and> kind_of (VInt y) = Some KInt"
    by (simp add: kind_of_def)
  have "redisvFormatCommand (ce_alloc e) (ce_printf e) fmt args
      = Some (FmtOk (wire_command (map word_text ws @ dec_int (sint y) # map word_text us)))"
    unfolding fmt
    by (rule command_with_inner_number [OF mem ws us k, where conv = "ce_printf e", unfolded p, OF dec_int_no_NUL small [unfolded small_def]])
  with c show ?thesis by (simp add: redis_command_def send_command_def connected_def ask_def split: prod.split)
qed

lemma send_argv:
  assumes e: "libc_ok e" and c: "connected c s" and small: "small (map c_str args)"
  shows "redis_commandv e c args s = Some (ask e c (map c_str args) s)"
proof -
  have a: "map arg_bytes (map (\<lambda>s. (s, None)) args) = map c_str args"
    by (simp add: arg_bytes_def c_str_def take_strlen)
  have "redisFormatCommandArgv (ce_alloc e) (map (\<lambda>s. (s, None)) args) = Some (FmtOk (wire_command (map c_str args)))"
    using format_argv_wire [of "map (\<lambda>s. (s, None)) args" "ce_alloc e"] small e unfolding a
    by (simp add: small_def libc_ok_def)
  with c show ?thesis by (simp add: redis_commandv_def send_command_def connected_def ask_def split: prod.split)
qed

lemma connected_init: "connected c s \<Longrightarrow> cache_init e c s = Some (0, s)"
  by (simp add: cache_init_def connected_def)

lemma cache_op_connected:
  assumes "connected c s" "cmd s = Some (Some r, s')"
  shows "cache_op e c gone fail cmd result s = map_option (\<lambda>v. (v, s')) (result r)"
  using assms by (simp add: cache_op_def connected_init)

lemma lit_fmt: "CHR ''%'' \<notin> set w \<Longrightarrow> concat (map piece_fmt (lit w)) = w"
  by (induction w) (auto simp: lit_def)

lemma lit_args: "concat (map piece_args (lit w)) = []"
  by (simp add: lit_def)

lemma str_fmt: "concat (map piece_fmt [StrArg s]) = ''%s''" "concat (map piece_args [StrArg s]) = [VStr s]"
  by simp_all

lemmas command_templates = lit_fmt lit_args template_args_def

text \<open>One rule per operation that the models of the proxy use.\<close>

named_theorems cache_rules \<open>the command that an operation sends on a connected connection\<close>

lemma get_rule [cache_rules]:
  assumes "libc_ok e" "connected c s" "small [''GET'', c_str key]"
  shows "redis_command e c ''GET %s'' [VStr key] s = Some (ask e c [''GET'', c_str key] s)"
  using send_words [OF assms(1,2), of "[lit ''GET'', [StrArg key]]"] assms(3) by (simp add: command_templates)

lemma set_rule [cache_rules]:
  assumes "libc_ok e" "connected c s" "small [''SET'', c_str key, c_str val]"
  shows "redis_command e c ''SET %s %s'' [VStr key, VStr val] s = Some (ask e c [''SET'', c_str key, c_str val] s)"
  using send_words [OF assms(1,2), of "[lit ''SET'', [StrArg key], [StrArg val]]"] assms(3) by (simp add: command_templates)

lemma exists_rule [cache_rules]:
  assumes "libc_ok e" "connected c s" "small [''EXISTS'', c_str key]"
  shows "redis_command e c ''EXISTS %s'' [VStr key] s = Some (ask e c [''EXISTS'', c_str key] s)"
  using send_words [OF assms(1,2), of "[lit ''EXISTS'', [StrArg key]]"] assms(3) by (simp add: command_templates)

lemma hdel_rule [cache_rules]:
  assumes "libc_ok e" "connected c s" "small [''HDEL'', c_str key, c_str field]"
  shows "redis_command e c ''HDEL %s %s'' [VStr key, VStr field] s = Some (ask e c [''HDEL'', c_str key, c_str field] s)"
  using send_words [OF assms(1,2), of "[lit ''HDEL'', [StrArg key], [StrArg field]]"] assms(3) by (simp add: command_templates)

lemma hget_rule [cache_rules]:
  assumes "libc_ok e" "connected c s" "small [''HGET'', c_str key, c_str field]"
  shows "redis_command e c ''HGET %s %s'' [VStr key, VStr field] s = Some (ask e c [''HGET'', c_str key, c_str field] s)"
  using send_words [OF assms(1,2), of "[lit ''HGET'', [StrArg key], [StrArg field]]"] assms(3) by (simp add: command_templates)

lemma hgetAll_rule [cache_rules]:
  assumes "libc_ok e" "connected c s" "small [''HGETALL'', c_str key]"
  shows "redis_command e c ''HGETALL %s'' [VStr key] s = Some (ask e c [''HGETALL'', c_str key] s)"
  using send_words [OF assms(1,2), of "[lit ''HGETALL'', [StrArg key]]"] assms(3) by (simp add: command_templates)

lemma hset_rule [cache_rules]:
  assumes "libc_ok e" "connected c s" "small [''HSET'', c_str key, c_str field, c_str val]"
  shows "redis_command e c ''HSET %s %s %s'' [VStr key, VStr field, VStr val] s
    = Some (ask e c [''HSET'', c_str key, c_str field, c_str val] s)"
  using send_words [OF assms(1,2), of "[lit ''HSET'', [StrArg key], [StrArg field], [StrArg val]]"] assms(3)
  by (simp add: command_templates)

lemma hincrBy_rule [cache_rules]:
  assumes "libc_ok e" "connected c s" "small [''HINCRBY'', c_str key, c_str field, dec_int (sint n)]"
  shows "redis_command e c ''HINCRBY %s %s %ld'' [VStr key, VStr field, VLong n] s
    = Some (ask e c [''HINCRBY'', c_str key, c_str field, dec_int (sint n)] s)"
  using send_words_number [OF assms(1,2), of "[lit ''HINCRBY'', [StrArg key], [StrArg field]]" "''%ld''" "VLong n" n "sint n"] assms(3)
  by (simp add: command_templates)

lemma incrBy_rule [cache_rules]:
  assumes "libc_ok e" "connected c s" "small [''INCRBY'', c_str key, dec_int (sint n)]"
  shows "redis_command e c ''INCRBY %s %ld'' [VStr key, VLong n] s = Some (ask e c [''INCRBY'', c_str key, dec_int (sint n)] s)"
  using send_words_number [OF assms(1,2), of "[lit ''INCRBY'', [StrArg key]]" "''%ld''" "VLong n" n "sint n"] assms(3)
  by (simp add: command_templates)

lemma select_rule [cache_rules]:
  assumes "libc_ok e" "connected c s" "small [''SELECT'', dec_int (sint n)]"
  shows "redis_command e c ''SELECT %d'' [VInt n] s = Some (ask e c [''SELECT'', dec_int (sint n)] s)"
  using send_words_number [OF assms(1,2), of "[lit ''SELECT'']" "''%d''" "VInt n" 0 "sint n" n] assms(3)
  by (simp add: command_templates)

lemma setex_rule [cache_rules]:
  assumes "libc_ok e" "connected c s" "small [''SETEX'', c_str key, dec_int (sint n), c_str val]"
  shows "redis_command e c ''SETEX %s %d %s'' [VStr key, VInt n, VStr val] s
    = Some (ask e c [''SETEX'', c_str key, dec_int (sint n), c_str val] s)"
  using send_words_inner_number [OF assms(1,2), of "[lit ''SETEX'', [StrArg key]]" "[[StrArg val]]"] assms(3)
  by (simp add: command_templates)

lemma incr_rule [cache_rules]:
  assumes "libc_ok e" "connected c s" "small [''INCR'', c_str key]"
  shows "redis_command e c ''INCR %s'' [VStr key] s = Some (ask e c [''INCR'', c_str key] s)"
  using send_words [OF assms(1,2), of "[lit ''INCR'', [StrArg key]]"] assms(3) by (simp add: command_templates)

lemma decr_rule [cache_rules]:
  assumes "libc_ok e" "connected c s" "small [''DECR'', c_str key]"
  shows "redis_command e c ''DECR %s'' [VStr key] s = Some (ask e c [''DECR'', c_str key] s)"
  using send_words [OF assms(1,2), of "[lit ''DECR'', [StrArg key]]"] assms(3) by (simp add: command_templates)

lemma llen_rule [cache_rules]:
  assumes "libc_ok e" "connected c s" "small [''LLEN'', c_str key]"
  shows "redis_command e c ''LLEN %s'' [VStr key] s = Some (ask e c [''LLEN'', c_str key] s)"
  using send_words [OF assms(1,2), of "[lit ''LLEN'', [StrArg key]]"] assms(3) by (simp add: command_templates)

lemma lpush_rule [cache_rules]:
  assumes "libc_ok e" "connected c s" "small [''LPUSH'', c_str key, c_str val]"
  shows "redis_command e c ''LPUSH %s %s'' [VStr key, VStr val] s = Some (ask e c [''LPUSH'', c_str key, c_str val] s)"
  using send_words [OF assms(1,2), of "[lit ''LPUSH'', [StrArg key], [StrArg val]]"] assms(3) by (simp add: command_templates)

lemma rpush_rule [cache_rules]:
  assumes "libc_ok e" "connected c s" "small [''RPUSH'', c_str key, c_str val]"
  shows "redis_command e c ''RPUSH %s %s'' [VStr key, VStr val] s = Some (ask e c [''RPUSH'', c_str key, c_str val] s)"
  using send_words [OF assms(1,2), of "[lit ''RPUSH'', [StrArg key], [StrArg val]]"] assms(3) by (simp add: command_templates)

text \<open>\<open>MGET\<close> builds its format from the keys; keys that are plain words stay one word each.\<close>

definition plain_key :: "string \<Rightarrow> bool" where
  "plain_key k \<longleftrightarrow> k \<noteq> [] \<and> NUL \<notin> set k \<and> CHR '' '' \<notin> set k \<and> CHR ''%'' \<notin> set k"

lemma template_lit: "CHR ''%'' \<notin> set w \<Longrightarrow> template (lit w # ws) = w @ (if ws = [] then [] else CHR '' '' # template ws)"
  by (cases ws) (simp_all add: lit_fmt)

lemma template_keys: "\<forall>k\<in>set keys. plain_key k \<Longrightarrow> template (map lit keys) = join_keys keys"
  by (induction keys rule: join_keys.induct) (simp_all add: lit_fmt plain_key_def)

lemma join_keys_plain: "\<forall>k\<in>set keys. plain_key k \<Longrightarrow> NUL \<notin> set (join_keys keys) \<and> (keys \<noteq> [] \<longrightarrow> join_keys keys \<noteq> [])"
  by (induction keys rule: join_keys.induct) (auto simp: plain_key_def)

lemma mget_rule [cache_rules]:
  assumes e: "libc_ok e" and c: "connected c s" and keys: "keys \<noteq> []" "\<forall>k\<in>set keys. plain_key k" and small: "small (''MGET'' # keys)"
  shows "redis_command e c (''MGET '' @ c_str (join_keys keys)) [] s = Some (ask e c (''MGET'' # keys) s)"
proof -
  have t: "c_str (join_keys keys) = join_keys keys"
    using join_keys_plain [OF keys(2)] by (auto simp: c_str_def intro: takeWhile_eq_all_conv [THEN iffD2])
  have a: "template_args (map lit ws) = []" for ws by (auto simp: template_args_def lit_def)
  have wt: "map word_text (map lit ws) = ws" for ws by (induction ws) simp_all
  have "\<forall>w\<in>set (map lit (''MGET'' # keys)). word_ok w" using keys(2) by (auto simp: plain_key_def)
  from send_words [OF e c _ this _ _, of "''MGET '' @ join_keys keys" "[]"] small
  show ?thesis unfolding t wt a by (simp add: template_lit template_keys [OF keys(2)] keys(1))
qed

lemma lrange_undefined:
  assumes e: "libc_ok e"
  shows "redis_command e c ''LRANGE %s %d %d'' [VStr key, VLong lo, VLong hi] s = None"
proof -
  have mem: "\<And>n. can_alloc (ce_alloc e) n" using e by (simp add: libc_ok_def)
  from yields_alloc [OF sdsempty_yields mem] obtain z where z: "sdsempty (ce_alloc e) = Some z" "sds_wf z" "content z = []"
    by blast
  have w: "[lit ''LRANGE'', [StrArg key]] \<noteq> []" "\<forall>w\<in>set [lit ''LRANGE'', [StrArg key]]. word_ok w" by simp_all
  from format_loop_prefix [OF mem w z(2,3), of "ce_printf e" "''%d %d''" "[]" "[VLong lo, VLong hi]"]
  obtain e' args where p: "format_loop (ce_alloc e) (ce_printf e) ''LRANGE %s %d %d'' z False [] [VStr key, VLong lo, VLong hi]
      = format_loop (ce_alloc e) (ce_printf e) ''%d %d'' e' False args [VLong lo, VLong hi]"
    by (auto simp: command_templates)
  have "numeric_conv (ce_alloc e) (ce_printf e) ''%d %d'' e' [VLong lo, VLong hi] = None"
    using integer_conversion(2) [of "'' %d''"] by (simp add: numeric_conv_def kind_of_def)
  then have "percent_step (ce_alloc e) (ce_printf e) ''%d %d'' e' [VLong lo, VLong hi] = None"
    by (simp add: percent_step_def Let_def)
  then have "format_loop (ce_alloc e) (ce_printf e) ''%d %d'' e' False args [VLong lo, VLong hi] = None"
    by (subst format_loop.simps) simp
  then show ?thesis using p z(1) by (simp add: redis_command_def send_command_def redisvFormatCommand_def strlen_def)
qed

text \<open>At most eight words of less than a gigabyte in total make a command that \<open>int\<close> can measure.\<close>

lemma bulklen_bound: "n < 2 ^ 30 \<Longrightarrow> bulklen n \<le> n + 15"
  using length_dec_le [of n 9] by (simp add: bulklen_def countDigits_dec)

lemma sum_bulklen_bound:
  "sum_list (map length args) < 2 ^ 30 \<Longrightarrow>
   sum_list (map (\<lambda>s. bulklen (length s)) args) \<le> sum_list (map length args) + 15 * length args"
proof (induction args)
  case (Cons a args)
  then show ?case using bulklen_bound [of "length a"] by simp
qed simp

lemma small_words: "length args \<le> 8 \<Longrightarrow> sum_list (map length args) < 2 ^ 30 \<Longrightarrow> small args"
  using sum_bulklen_bound [of args] length_dec_le [of "length args" 0]
  by (simp add: small_def length_wire_command countDigits_dec)

lemma length_dec_int: "\<bar>i\<bar> < 10 ^ Suc k \<Longrightarrow> length (dec_int i) \<le> Suc (Suc k)"
  using length_dec_le [of "nat \<bar>i\<bar>" k] by (auto simp: dec_int_def nat_less_iff abs_if split: if_splits)

lemma length_dec_int_word: "length (dec_int (sint (w :: i64))) \<le> 20"
proof (rule order_trans [OF length_dec_int [of _ 18]])
  show "\<bar>sint w\<bar> < 10 ^ Suc 18" using sint_ge [of w] sint_lt [of w] by simp
qed simp

lemma length_c_str: "length (c_str s) \<le> length s"
  by (simp add: c_str_def length_takeWhile_le)

section \<open>Properties of the connections\<close>

definition sends :: "'r cache_env \<Rightarrow> cache_ref \<Rightarrow> string list \<Rightarrow> ('r, 'z) caches_scheme \<Rightarrow> (redisReply option \<times> ('r, 'z) caches_scheme) option" where
  "sends e c words s = Some (ask e c words s)"

text \<open>C28: Each operation of a connected \<open>CacheConn\<close> sends exactly the command of its name with its
  arguments, each argument one word whatever spaces or line ends it holds, cut at its first NUL; the
  numbers are sent in decimal. There are two exceptions. \<open>mget\<close> writes its keys into the format itself: here
  they are assumed to be plain (without spaces, percent signs and NUL); a key with a space becomes two words.
  \<open>lrange\<close> passes \<open>long\<close> arguments to \<open>%d\<close>, which has no defined result. Assumed are that memory is available,
  that \<open>printf\<close> prints decimal numbers (\<open>libc_ok\<close>), and that a command is shorter than 2 gigabytes.\<close>

theorem operations_send_their_arguments:
  assumes e: "libc_ok e" and c: "connected c s" and size: "length key + length field + length val < 2 ^ 29"
    and many: "small (map c_str (''HMSET'' # key # concat (map (\<lambda>(f, v). [f, v]) hash)))" "small (map c_str (''HMGET'' # key # names))"
    and keys: "keys \<noteq> []" "\<forall>k\<in>set keys. plain_key k" "small (''MGET'' # keys)"
  shows
    "(cache_get e c key s = cache_op e c NoContext [] (sends e c [''GET'', c_str key]) (\<lambda>r. Some (if rtype r = REDIS_REPLY_STRING then reply_text r else [])) s) \<and>
     (cache_set e c key val s = cache_op e c NoContext [] (sends e c [''SET'', c_str key, c_str val]) (\<lambda>r. Some (reply_text r)) s) \<and>
     (cache_setex e c key ttl val s = cache_op e c NoContext [] (sends e c [''SETEX'', c_str key, dec_int (sint ttl), c_str val]) (\<lambda>r. Some (reply_text r)) s) \<and>
     (cache_isExists e c key s = cache_op e c Dangling False (sends e c [''EXISTS'', c_str key]) (\<lambda>r. Some (rinteger r \<noteq> 0)) s) \<and>
     (cache_hdel e c key field s = cache_op e c NoContext 0 (sends e c [''HDEL'', c_str key, c_str field]) (\<lambda>r. Some (rinteger r)) s) \<and>
     (cache_hget e c key field s = cache_op e c NoContext [] (sends e c [''HGET'', c_str key, c_str field]) (\<lambda>r. Some (if rtype r = REDIS_REPLY_STRING then reply_text r else [])) s) \<and>
     (cache_hgetAll e c key s = cache_op e c NoContext (False, []) (sends e c [''HGETALL'', c_str key]) (\<lambda>r. if rtype r = REDIS_REPLY_ARRAY \<and> relements r mod 2 = 0
          then map_option (\<lambda>rs. (True, pair_up rs [])) (reply_elements r) else Some (True, [])) s) \<and>
     (cache_hset e c key field val s = cache_op e c NoContext (- 1) (sends e c [''HSET'', c_str key, c_str field, c_str val]) (\<lambda>r. Some (rinteger r)) s) \<and>
     (cache_hincrBy e c key field n s = cache_op e c NoContext (- 1) (sends e c [''HINCRBY'', c_str key, c_str field, dec_int (sint n)]) (\<lambda>r. Some (rinteger r)) s) \<and>
     (cache_incrBy e c key n s = cache_op e c NoContext (- 1) (sends e c [''INCRBY'', c_str key, dec_int (sint n)]) (\<lambda>r. Some (rinteger r)) s) \<and>
     (cache_incr e c key s = cache_op e c NoContext (- 1) (sends e c [''INCR'', c_str key]) (\<lambda>r. Some (rinteger r)) s) \<and>
     (cache_decr e c key s = cache_op e c NoContext (- 1) (sends e c [''DECR'', c_str key]) (\<lambda>r. Some (rinteger r)) s) \<and>
     (cache_lpush e c key val s = cache_op e c NoContext (- 1) (sends e c [''LPUSH'', c_str key, c_str val]) (\<lambda>r. Some (rinteger r)) s) \<and>
     (cache_rpush e c key val s = cache_op e c NoContext (- 1) (sends e c [''RPUSH'', c_str key, c_str val]) (\<lambda>r. Some (rinteger r)) s) \<and>
     (cache_llen e c key s = cache_op e c NoContext (- 1) (sends e c [''LLEN'', c_str key]) (\<lambda>r. Some (rinteger r)) s) \<and>
     (cache_hmset e c key hash s = cache_op e c NoContext [] (sends e c (map c_str (''HMSET'' # key # concat (map (\<lambda>(f, v). [f, v]) hash)))) (\<lambda>r. Some (reply_text r)) s) \<and>
     (cache_hmget e c key names s = cache_op e c NoContext (False, []) (sends e c (map c_str (''HMGET'' # key # names))) (\<lambda>r. if rtype r = REDIS_REPLY_ARRAY
          then map_option (\<lambda>rs. (True, map reply_text rs)) (reply_elements r) else Some (True, [])) s) \<and>
     (cache_mget e c keys s = cache_op e c NoContext (False, []) (sends e c (''MGET'' # keys)) (\<lambda>r. if rtype r = REDIS_REPLY_ARRAY
             then do { rs \<leftarrow> reply_elements r; m \<leftarrow> mget_values keys rs []; Some (True, m) } else Some (True, [])) s) \<and>
     cache_lrange e c key lo hi s = None"
proof (intro conjI)
  have *: "cache_op e c g f cmd res s = cache_op e c g f (sends e c ws) res s" if "cmd s = Some (ask e c ws s)"
    for g cmd ws and f :: 'x and res :: "redisReply \<Rightarrow> 'x option"
    using that by (simp add: cache_op_def connected_init [OF c] sends_def)
  have len: "length (c_str key) + length (c_str field) + length (c_str val) < 2 ^ 29"
    using size length_c_str [of key] length_c_str [of field] length_c_str [of val] by linarith
  have num: "length (dec_int (sint n)) \<le> 20" "length (dec_int (sint ttl)) \<le> 20"
  proof -
    have "\<bar>sint ttl\<bar> < 10 ^ Suc 9" using sint_ge [of ttl] sint_lt [of ttl] by simp
    from length_dec_int [OF this] show "length (dec_int (sint ttl)) \<le> 20" by simp
  qed (rule length_dec_int_word)
  note sm = small_words [where args = "_ # _"]
  show "cache_get e c key s = cache_op e c NoContext [] (sends e c [''GET'', c_str key]) (\<lambda>r. Some (if rtype r = REDIS_REPLY_STRING then reply_text r else [])) s"
    unfolding cache_get_def by (rule *, rule get_rule [OF e c sm]) (use len num in simp_all)
  show "cache_set e c key val s = cache_op e c NoContext [] (sends e c [''SET'', c_str key, c_str val]) (\<lambda>r. Some (reply_text r)) s"
    unfolding cache_set_def by (rule *, rule set_rule [OF e c sm]) (use len num in simp_all)
  show "cache_setex e c key ttl val s = cache_op e c NoContext [] (sends e c [''SETEX'', c_str key, dec_int (sint ttl), c_str val]) (\<lambda>r. Some (reply_text r)) s"
    unfolding cache_setex_def by (rule *, rule setex_rule [OF e c sm]) (use len num in simp_all)
  show "cache_isExists e c key s = cache_op e c Dangling False (sends e c [''EXISTS'', c_str key]) (\<lambda>r. Some (rinteger r \<noteq> 0)) s"
    unfolding cache_isExists_def by (rule *, rule exists_rule [OF e c sm]) (use len num in simp_all)
  show "cache_hdel e c key field s = cache_op e c NoContext 0 (sends e c [''HDEL'', c_str key, c_str field]) (\<lambda>r. Some (rinteger r)) s"
    unfolding cache_hdel_def by (rule *, rule hdel_rule [OF e c sm]) (use len num in simp_all)
  show "cache_hget e c key field s = cache_op e c NoContext [] (sends e c [''HGET'', c_str key, c_str field]) (\<lambda>r. Some (if rtype r = REDIS_REPLY_STRING then reply_text r else [])) s"
    unfolding cache_hget_def by (rule *, rule hget_rule [OF e c sm]) (use len num in simp_all)
  show "cache_hgetAll e c key s = cache_op e c NoContext (False, []) (sends e c [''HGETALL'', c_str key]) (\<lambda>r. if rtype r = REDIS_REPLY_ARRAY \<and> relements r mod 2 = 0
          then map_option (\<lambda>rs. (True, pair_up rs [])) (reply_elements r) else Some (True, [])) s"
    unfolding cache_hgetAll_def by (rule *, rule hgetAll_rule [OF e c sm]) (use len num in simp_all)
  show "cache_hset e c key field val s = cache_op e c NoContext (- 1) (sends e c [''HSET'', c_str key, c_str field, c_str val]) (\<lambda>r. Some (rinteger r)) s"
    unfolding cache_hset_def by (rule *, rule hset_rule [OF e c sm]) (use len num in simp_all)
  show "cache_hincrBy e c key field n s = cache_op e c NoContext (- 1) (sends e c [''HINCRBY'', c_str key, c_str field, dec_int (sint n)]) (\<lambda>r. Some (rinteger r)) s"
    unfolding cache_hincrBy_def by (rule *, rule hincrBy_rule [OF e c sm]) (use len num in simp_all)
  show "cache_incrBy e c key n s = cache_op e c NoContext (- 1) (sends e c [''INCRBY'', c_str key, dec_int (sint n)]) (\<lambda>r. Some (rinteger r)) s"
    unfolding cache_incrBy_def by (rule *, rule incrBy_rule [OF e c sm]) (use len num in simp_all)
  show "cache_incr e c key s = cache_op e c NoContext (- 1) (sends e c [''INCR'', c_str key]) (\<lambda>r. Some (rinteger r)) s"
    unfolding cache_incr_def by (rule *, rule incr_rule [OF e c sm]) (use len num in simp_all)
  show "cache_decr e c key s = cache_op e c NoContext (- 1) (sends e c [''DECR'', c_str key]) (\<lambda>r. Some (rinteger r)) s"
    unfolding cache_decr_def by (rule *, rule decr_rule [OF e c sm]) (use len num in simp_all)
  show "cache_lpush e c key val s = cache_op e c NoContext (- 1) (sends e c [''LPUSH'', c_str key, c_str val]) (\<lambda>r. Some (rinteger r)) s"
    unfolding cache_lpush_def by (rule *, rule lpush_rule [OF e c sm]) (use len num in simp_all)
  show "cache_rpush e c key val s = cache_op e c NoContext (- 1) (sends e c [''RPUSH'', c_str key, c_str val]) (\<lambda>r. Some (rinteger r)) s"
    unfolding cache_rpush_def by (rule *, rule rpush_rule [OF e c sm]) (use len num in simp_all)
  show "cache_llen e c key s = cache_op e c NoContext (- 1) (sends e c [''LLEN'', c_str key]) (\<lambda>r. Some (rinteger r)) s"
    unfolding cache_llen_def by (rule *, rule llen_rule [OF e c sm]) (use len num in simp_all)
  show "cache_hmset e c key hash s = cache_op e c NoContext [] (sends e c (map c_str (''HMSET'' # key # concat (map (\<lambda>(f, v). [f, v]) hash)))) (\<lambda>r. Some (reply_text r)) s"
    unfolding cache_hmset_def by (rule *, rule send_argv [OF e c many(1)])
  show "cache_hmget e c key names s = cache_op e c NoContext (False, []) (sends e c (map c_str (''HMGET'' # key # names))) (\<lambda>r. if rtype r = REDIS_REPLY_ARRAY
          then map_option (\<lambda>rs. (True, map reply_text rs)) (reply_elements r) else Some (True, [])) s"
    unfolding cache_hmget_def by (rule *, rule send_argv [OF e c many(2)])
  have "join_keys keys \<noteq> []" using join_keys_plain [OF keys(2)] keys(1) by blast
  then have "cache_mget e c keys s = cache_op e c NoContext (False, []) (redis_command e c (''MGET '' @ c_str (join_keys keys)) [])
      (\<lambda>r. if rtype r = REDIS_REPLY_ARRAY
             then do { rs \<leftarrow> reply_elements r; m \<leftarrow> mget_values keys rs []; Some (True, m) } else Some (True, [])) s"
    using keys(1) by (simp add: cache_mget_def connected_init [OF c])
  also have "\<dots> = cache_op e c NoContext (False, []) (sends e c (''MGET'' # keys)) (\<lambda>r. if rtype r = REDIS_REPLY_ARRAY
             then do { rs \<leftarrow> reply_elements r; m \<leftarrow> mget_values keys rs []; Some (True, m) } else Some (True, [])) s"
    by (rule *, rule mget_rule [OF e c keys])
  finally show "cache_mget e c keys s = cache_op e c NoContext (False, []) (sends e c (''MGET'' # keys)) (\<lambda>r. if rtype r = REDIS_REPLY_ARRAY
             then do { rs \<leftarrow> reply_elements r; m \<leftarrow> mget_values keys rs []; Some (True, m) } else Some (True, [])) s" .
  show "cache_lrange e c key lo hi s = None"
    by (simp add: cache_lrange_def cache_op_def connected_init [OF c] lrange_undefined [OF e])
qed

lemma dangling_op:
  assumes "cc_context (cache_conns s c) = Dangling"
  shows "cache_init e c s = Some (0, s)" "cache_op e c g h (redis_command e c fmt args) res s = None"
  using assms by (simp_all add: cache_op_def cache_init_def redis_command_def send_command_def)

text \<open>When the server closes the connection during \<open>isExists\<close>, the context is freed and the
  pointer kept: the operation answers \<open>false\<close>, the connection goes back to the pool looking
  connected, and the next operation on it, whoever gets it, uses the freed context.\<close>

theorem exists_without_reply_dangles:
  assumes e: "libc_ok e" and c: "connected c s" and size: "length key < 2 ^ 29"
    and lost: "fst (ce_exec e (fst c) (cc_selected (cache_conns s c)) (wire_command [''EXISTS'', c_str key]) (redis s)) = None"
  shows "\<exists>s'. cache_isExists e c key s = Some (False, s') \<and> cache_init e c (relCacheConn c s') = Some (0, relCacheConn c s') \<and>
    cache_get e c k (relCacheConn c s') = None \<and> cache_hincrBy e c k f n (relCacheConn c s') = None"
proof -
  have "small [''EXISTS'', c_str key]"
    using size length_c_str [of key] by (intro small_words) simp_all
  note r = exists_rule [OF e c this]
  obtain st where x: "ce_exec e (fst c) (cc_selected (cache_conns s c)) (wire_command [''EXISTS'', c_str key]) (redis s) = (None, st)"
    using lost by (cases "ce_exec e (fst c) (cc_selected (cache_conns s c)) (wire_command [''EXISTS'', c_str key]) (redis s)") auto
  let ?s = "upd_cache_conn c (\<lambda>x. x\<lparr>cc_context := Dangling\<rparr>) (s\<lparr>redis := st\<rparr>)"
  have 1: "cache_isExists e c key s = Some (False, ?s)"
    using c r x by (simp add: cache_isExists_def cache_op_def connected_init ask_def)
  have d: "cc_context (cache_conns (relCacheConn c ?s) c) = Dangling"
    by (simp add: relCacheConn_def upd_cache_conn_def split: option.split)
  from 1 show ?thesis by (auto simp: cache_get_def cache_hincrBy_def dangling_op [OF d])
qed

text \<open>A library and a server for the witnesses.\<close>

definition demo_printf :: "string \<Rightarrow> vararg \<Rightarrow> string" where
  "demo_printf f v = (case v of VLong w \<Rightarrow> dec_int (sint w) | VInt w \<Rightarrow> dec_int (sint w) | _ \<Rightarrow> [])"

definition demo_env :: "(string \<Rightarrow> bool \<Rightarrow> string \<Rightarrow> 'r \<Rightarrow> redisReply option \<times> 'r) \<Rightarrow> 'r cache_env" where
  "demo_env ex = \<lparr>ce_alloc = \<lparr>can_alloc = \<lambda>_. True, fresh = \<lambda>_. CHR ''?''\<rparr>, ce_printf = demo_printf, ce_time = 10,
     ce_connect = \<lambda>_ _. True, ce_db_num = \<lambda>_. 1, ce_exec = ex\<rparr>"

definition demo_caches :: "'r \<Rightarrow> 'r caches" where
  "demo_caches st = \<lparr>redis = st, cache_conns = \<lambda>_. \<lparr>cc_context = Connected, cc_selected = True, cc_last_connect = 0\<rparr>,
     cache_pools = (\<lambda>_. None)(''unread'' \<mapsto> \<lparr>free_list = [], cur_conn_cnt = 1, max_conn_cnt = 1, next_id = 1\<rparr>)\<rparr>"

lemma demo_ok [simp]: "libc_ok (demo_env ex)" "connected c (demo_caches st)"
  by (simp_all add: libc_ok_def demo_env_def demo_printf_def connected_def demo_caches_def)

lemma operations_send_their_arguments_witness:
  "cache_isExists (demo_env (\<lambda>_ _ cmd st. (None, cmd # st))) (''unread'', 0) (''a b'' @ [CR, LF]) (demo_caches [])
     = cache_op (demo_env (\<lambda>_ _ cmd st. (None, cmd # st))) (''unread'', 0) Dangling False
         (sends (demo_env (\<lambda>_ _ cmd st. (None, cmd # st))) (''unread'', 0) [''EXISTS'', c_str (''a b'' @ [CR, LF])])
         (\<lambda>r. Some (rinteger r \<noteq> 0)) (demo_caches [])"
proof -
  have small: "small (map c_str (''HMSET'' # (''a b'' @ [CR, LF]) # concat (map (\<lambda>(f, v). [f, v]) [(''f'', ''v'')])))"
    "small (map c_str (''HMGET'' # (''a b'' @ [CR, LF]) # [''f'']))" "small (''MGET'' # [''k'', ''l''])"
    by (rule small_words; simp add: c_str_def)+
  show ?thesis
    using operations_send_their_arguments
      [of "demo_env (\<lambda>_ _ cmd st. (None, cmd # st))" "(''unread'', 0)" "demo_caches []" "''a b'' @ [CR, LF]" "[]" "[]", OF _ _ _ small(1,2) _ _ small(3)]
    by (simp add: plain_key_def)
qed

lemma exists_without_reply_dangles_witness:
  "\<exists>s'. cache_isExists (demo_env (\<lambda>_ _ _ st. (None, st))) (''unread'', 0) ''k'' (demo_caches ()) = Some (False, s') \<and>
    cache_init (demo_env (\<lambda>_ _ _ st. (None, st))) (''unread'', 0) (relCacheConn (''unread'', 0) s')
      = Some (0, relCacheConn (''unread'', 0) s') \<and>
    cache_get (demo_env (\<lambda>_ _ _ st. (None, st))) (''unread'', 0) ''k'' (relCacheConn (''unread'', 0) s') = None \<and>
    cache_hincrBy (demo_env (\<lambda>_ _ _ st. (None, st))) (''unread'', 0) ''k'' ''f'' 1 (relCacheConn (''unread'', 0) s') = None"
  by (rule exists_without_reply_dangles) (simp_all add: demo_env_def [of "\<lambda>_ _ _ st. (None, st)"] libc_ok_def demo_printf_def)

text \<open>A connection whose \<open>SELECT\<close> was refused makes the operation that opened it fail, but stays
  connected: the next operation finds it initialised and runs in the server's default database
  instead of the configured one.\<close>

theorem refused_select_uses_other_database:
  assumes e: "libc_ok e" and n: "cc_context (cache_conns s c) = NoContext" "cc_last_connect (cache_conns s c) + 4 \<le> ce_time e"
    and open': "ce_connect e (fst c) (redis s)"
    and select: "ce_exec e (fst c) False (wire_command [''SELECT'', dec_int (sint (ce_db_num e (fst c)))]) (redis s) = (Some r, st)"
    and refused: "rtype r = REDIS_REPLY_ERROR"
    and next': "ce_exec e (fst c) False (wire_command [''INCRBY'', c_str key, dec_int (sint i)]) st = (Some r', st')"
    and size: "length key < 2 ^ 28"
  shows "\<exists>s'. cache_incrBy e c key i s = Some (- 1, s') \<and> redis s' = st \<and>
    cache_incrBy e c key i s' = Some (rinteger r', s'\<lparr>redis := st'\<rparr>)"
proof -
  let ?db = "ce_db_num e (fst c)"
  let ?s = "upd_cache_conn c (\<lambda>x. x\<lparr>cc_context := Connected, cc_selected := False\<rparr>)
    (upd_cache_conn c (\<lambda>x. x\<lparr>cc_last_connect := ce_time e\<rparr>) s)"
  have con: "connected c ?s" "connected c (?s\<lparr>redis := st\<rparr>)" by (simp_all add: connected_def upd_cache_conn_def)
  have sel: "redis ?s = redis s" "cc_selected (cache_conns ?s c) = False" by (simp_all add: upd_cache_conn_def)
  have "\<bar>sint ?db\<bar> < 10 ^ Suc 9" using sint_ge [of ?db] sint_lt [of ?db] by simp
  from length_dec_int [OF this] have "small [''SELECT'', dec_int (sint ?db)]" by (intro small_words) simp_all
  from select_rule [OF e con(1) this]
  have "redis_command e c ''SELECT %d'' [VInt ?db] ?s = Some (Some r, ?s\<lparr>redis := st\<rparr>)"
    by (simp add: ask_def sel select)
  then have i: "cache_init e c s = Some (2, ?s\<lparr>redis := st\<rparr>)"
    using n open' refused by (simp add: cache_init_def Let_def upd_cache_conn_def REDIS_REPLY_ERROR_def REDIS_REPLY_STATUS_def)
  then have 1: "cache_incrBy e c key i s = Some (- 1, ?s\<lparr>redis := st\<rparr>)"
    by (simp add: cache_incrBy_def cache_op_def)
  have "small [''INCRBY'', c_str key, dec_int (sint i)]"
    using size length_c_str [of key] length_dec_int_word [of i] by (intro small_words) simp_all
  from incrBy_rule [OF e con(2) this]
  have "cache_incrBy e c key i (?s\<lparr>redis := st\<rparr>) = Some (rinteger r', ?s\<lparr>redis := st'\<rparr>)"
    by (simp add: cache_incrBy_def cache_op_connected [OF con(2)] ask_def sel next')
  with 1 show ?thesis by auto
qed

lemma refused_select_uses_other_database_witness:
  "\<exists>s'. cache_incrBy (demo_env (\<lambda>_ sel _ st. (Some (Reply 6 0 0 None 0 None), sel # st)))
      (''sync'', 0) ''k'' 1 ((demo_caches [])\<lparr>cache_conns := \<lambda>_. new_cache_conn\<rparr>) = Some (- 1, s') \<and> redis s' = [False] \<and>
    cache_incrBy (demo_env (\<lambda>_ sel _ st. (Some (Reply 6 0 0 None 0 None), sel # st))) (''sync'', 0) ''k'' 1 s'
      = Some (0, s'\<lparr>redis := [False, False]\<rparr>)"
proof -
  let ?ex = "\<lambda>(_::string) sel (_::string) st. (Some (Reply 6 0 0 None 0 None), sel # st)"
  show ?thesis
    using refused_select_uses_other_database [of "demo_env ?ex" "(demo_caches [])\<lparr>cache_conns := \<lambda>_. new_cache_conn\<rparr>" "(''sync'', 0)"
      "Reply 6 0 0 None 0 None" "[False]" "''k''" 1 "Reply 6 0 0 None 0 None" "[False, False]"]
    by (simp add: demo_env_def libc_ok_def demo_printf_def demo_caches_def new_cache_conn_def REDIS_REPLY_ERROR_def)
qed

end
