(* ===== verification/Db_Sql.thy ===== *)
theory Db_Sql
  imports Db_Cache
begin

text \<open>
  MySQL as the database proxy uses it: \<open>ResultSet\<close>, \<open>PrepareStatement\<close>, \<open>DBConn\<close> and \<open>DBManager\<close> of
  \<open>dbproxyserver/DBPool.cpp\<close>. The server is a parameter that takes the pool and the statement. The
  state extends that of the Redis connections, so that an operation can use both. \<open>None\<close> is
  undefined behaviour or a wait that never ends, as there.
\<close>

section \<open>State and services\<close>

type_synonym u32 = "32 word"

text \<open>The rows of a result and the names of their columns; \<open>None\<close> is a \<open>NULL\<close>.\<close>

type_synonym result_set = "string list \<times> string option list list"

datatype sql_param = PInt u32 | PStr string
datatype stmt_result = PrepareFailed | ExecuteFailed | Executed nat u32

record ('r, 'q) db = "'r caches" +
  sql :: 'q
  db_pools :: "string \<Rightarrow> pool option"

record ('r, 'q) db_env = "'r cache_env" +
  de_connect :: "string \<Rightarrow> 'q \<Rightarrow> bool"
  de_query :: "string \<Rightarrow> string \<Rightarrow> 'q \<Rightarrow> result_set option \<times> 'q"
  de_update :: "string \<Rightarrow> string \<Rightarrow> 'q \<Rightarrow> nat option \<times> 'q"
  de_stmt :: "string \<Rightarrow> string \<Rightarrow> sql_param list \<Rightarrow> 'q \<Rightarrow> stmt_result \<times> 'q"
  de_audio_enc :: string
  de_download :: "string \<Rightarrow> u32 \<Rightarrow> string option"

text \<open>\<open>time(NULL)\<close> as the proxy stores it.\<close>

definition now :: "('r, 'q) db_env \<Rightarrow> u32" where
  "now e = of_nat (ce_time e)"

section \<open>\<open>ResultSet\<close>\<close>

definition getIndex :: "string list \<Rightarrow> string \<Rightarrow> nat option" where
  "getIndex cols key = map_of (zip cols [0..<length cols]) key"

definition field_at :: "string option list \<Rightarrow> nat \<Rightarrow> string option" where
  "field_at row i = (if i < length row then row ! i else None)"

text \<open>A column that is not there reads as 0; \<open>atoi\<close> of a \<open>NULL\<close> is undefined.\<close>

definition getInt :: "string list \<Rightarrow> string option list \<Rightarrow> string \<Rightarrow> u32 option" where
  "getInt cols row key = (case getIndex cols key of None \<Rightarrow> Some 0 | Some i \<Rightarrow> map_option atoi (field_at row i))"

text \<open>Every caller makes a string of the pointer, which is undefined for a null pointer.\<close>

definition getString :: "string list \<Rightarrow> string option list \<Rightarrow> string \<Rightarrow> string option" where
  "getString cols row key = (case getIndex cols key of None \<Rightarrow> None | Some i \<Rightarrow> map_option c_str (field_at row i))"

text \<open>\<open>while (next()) v = getInt(key);\<close>\<close>

fun last_int :: "string list \<Rightarrow> string option list list \<Rightarrow> string \<Rightarrow> u32 \<Rightarrow> u32 option" where
  "last_int cols [] key v = Some v"
| "last_int cols (row # rows) key v = do { v \<leftarrow> getInt cols row key; last_int cols rows key v }"

section \<open>\<open>DBConn\<close> and \<open>DBManager\<close>\<close>

definition getDBConn :: "('r, 'q) db_env \<Rightarrow> string \<Rightarrow> ('r, 'q) db \<Rightarrow> (nat option \<times> ('r, 'q) db) option" where
  "getDBConn e name s =
     (case db_pools s name of
        None \<Rightarrow> Some (None, s)
      | Some p \<Rightarrow>
          (case getPoolConn (de_connect e name (sql s)) p of
             (Got k, p) \<Rightarrow> Some (Some k, s\<lparr>db_pools := (db_pools s)(name \<mapsto> p)\<rparr>)
           | (Waits, p) \<Rightarrow> None
           | (Failed, p) \<Rightarrow> Some (None, s)))"

definition relDBConn :: "string \<Rightarrow> nat \<Rightarrow> ('r, 'q) db \<Rightarrow> ('r, 'q) db" where
  "relDBConn name k s =
     (case db_pools s name of None \<Rightarrow> s | Some p \<Rightarrow> s\<lparr>db_pools := (db_pools s)(name \<mapsto> relPoolConn k p)\<rparr>)"

definition executeQuery :: "('r, 'q) db_env \<Rightarrow> string \<Rightarrow> string \<Rightarrow> ('r, 'q) db \<Rightarrow> result_set option \<times> ('r, 'q) db" where
  "executeQuery e name q s = (case de_query e name (c_str q) (sql s) of (r, st) \<Rightarrow> (r, s\<lparr>sql := st\<rparr>))"

definition executeUpdate :: "('r, 'q) db_env \<Rightarrow> string \<Rightarrow> string \<Rightarrow> ('r, 'q) db \<Rightarrow> bool \<times> ('r, 'q) db" where
  "executeUpdate e name q s =
     (case de_update e name (c_str q) (sql s) of (r, st) \<Rightarrow> (case r of None \<Rightarrow> False | Some n \<Rightarrow> 0 < n, s\<lparr>sql := st\<rparr>))"

text \<open>\<open>PrepareStatement\<close>: \<open>init\<close>, the \<open>setParam\<close> calls and \<open>executeUpdate\<close>, with the insert id.\<close>

definition execute_stmt :: "('r, 'q) db_env \<Rightarrow> string \<Rightarrow> string \<Rightarrow> sql_param list \<Rightarrow> ('r, 'q) db \<Rightarrow> u32 option \<times> ('r, 'q) db" where
  "execute_stmt e name q ps s =
     (case de_stmt e name q ps (sql s) of
        (r, st) \<Rightarrow> (case r of Executed n i \<Rightarrow> if n = 0 then None else Some i | _ \<Rightarrow> None, s\<lparr>sql := st\<rparr>))"

text \<open>The code between taking a connection from a pool and giving it back.\<close>

definition with_db :: "('r, 'q) db_env \<Rightarrow> string \<Rightarrow> 'a \<Rightarrow> (('r, 'q) db \<Rightarrow> ('a \<times> ('r, 'q) db) option) \<Rightarrow> ('r, 'q) db
    \<Rightarrow> ('a \<times> ('r, 'q) db) option" where
  "with_db e name fail body s = do {
     (c, s) \<leftarrow> getDBConn e name s;
     (case c of
        None \<Rightarrow> Some (fail, s)
      | Some k \<Rightarrow> do { (x, s) \<leftarrow> body s; Some (x, relDBConn name k s) })
   }"

definition with_cache :: "('r, 'q) db_env \<Rightarrow> string \<Rightarrow> 'a \<Rightarrow> (cache_ref \<Rightarrow> ('r, 'q) db \<Rightarrow> ('a \<times> ('r, 'q) db) option) \<Rightarrow> ('r, 'q) db
    \<Rightarrow> ('a \<times> ('r, 'q) db) option" where
  "with_cache e name fail body s = do {
     (c, s) \<leftarrow> getCacheConn (cache_env.truncate e) name s;
     (case c of
        None \<Rightarrow> Some (fail, s)
      | Some c \<Rightarrow> do { (x, s) \<leftarrow> body c s; Some (x, relCacheConn c s) })
   }"

section \<open>Rules\<close>

text \<open>A pool from which a connection can be had.\<close>

definition db_free :: "string \<Rightarrow> ('r, 'q) db \<Rightarrow> bool" where
  "db_free name s \<longleftrightarrow> (\<exists>p. db_pools s name = Some p \<and> free_list p \<noteq> [])"

lemma getIndex_first: "distinct cols \<Longrightarrow> i < length cols \<Longrightarrow> getIndex cols (cols ! i) = Some i"
  by (simp add: getIndex_def in_set_zip) (rule exI [of _ i], simp)

end
