(* ===== verification/Db_Models.thy ===== *)
theory Db_Models
  imports Db_Sql
begin

text \<open>
  The data access objects of the database proxy (\<open>dbproxyserver/bussiness/DAO\<close>) that handle
  messages: \<open>RelationModel\<close>, \<open>SessionModel\<close>, \<open>MessageModel\<close>, \<open>GroupMessageModel\<close> and the parts of
  \<open>GroupModel\<close> and \<open>UserModel\<close> that they need. Each operation is the sequence of its database and cache
  accesses, in the order of the code, on the connections it takes from the pools.
\<close>

abbreviation (input) "INVALID_VALUE \<equiv> (0 :: u32)"
abbreviation (input) "SESSION_SINGLE \<equiv> (1 :: u32)"
abbreviation (input) "SESSION_GROUP \<equiv> (2 :: u32)"

definition SessionType_IsValid :: "u32 \<Rightarrow> bool" where
  "SessionType_IsValid t \<longleftrightarrow> t = 1 \<or> t = 2"

definition MsgType_IsValid :: "u32 \<Rightarrow> bool" where
  "MsgType_IsValid t \<longleftrightarrow> t = 1 \<or> t = 2 \<or> t = 17 \<or> t = 18"

section \<open>Keys\<close>

definition unread_key :: "u32 \<Rightarrow> string" where
  "unread_key u = ''unread_'' @ int2string u"

definition msg_id_key :: "u32 \<Rightarrow> string" where
  "msg_id_key r = ''msg_id_'' @ int2string r"

definition group_msg_id_key :: "u32 \<Rightarrow> string" where
  "group_msg_id_key g = ''group_msg_id_'' @ int2string g"

definition group_key :: "u32 \<Rightarrow> string" where
  "group_key g = int2string g @ ''_im_group_msg''"

definition user_group_key :: "u32 \<Rightarrow> u32 \<Rightarrow> string" where
  "user_group_key u g = int2string u @ ''_'' @ int2string g @ ''_im_user_group''"

definition group_member_key :: "u32 \<Rightarrow> string" where
  "group_member_key g = ''group_member_'' @ int2string g"

section \<open>Counters in Redis\<close>

text \<open>\<open>MessageModel::resetMsgId\<close> and \<open>GroupMessageModel::resetMsgId\<close>, on the key of each.\<close>

definition reset_id :: "('r, 'q) db_env \<Rightarrow> string \<Rightarrow> ('r, 'q) db \<Rightarrow> (bool \<times> ('r, 'q) db) option" where
  "reset_id e key = with_cache e ''unread'' False (\<lambda>c s. do {
     (reply, s) \<leftarrow> cache_set (cache_env.truncate e) c key ''0'' s;
     Some (reply = ''0'', s) })"

definition resetMsgId :: "('r, 'q) db_env \<Rightarrow> u32 \<Rightarrow> ('r, 'q) db \<Rightarrow> (bool \<times> ('r, 'q) db) option" where
  "resetMsgId e r = reset_id e (msg_id_key r)"

definition group_resetMsgId :: "('r, 'q) db_env \<Rightarrow> u32 \<Rightarrow> ('r, 'q) db \<Rightarrow> (bool \<times> ('r, 'q) db) option" where
  "group_resetMsgId e g = reset_id e (group_msg_id_key g)"

definition next_id_of :: "('r, 'q) db_env \<Rightarrow> string \<Rightarrow> ('r, 'q) db \<Rightarrow> (u32 \<times> ('r, 'q) db) option" where
  "next_id_of e key = with_cache e ''unread'' 0 (\<lambda>c s. do {
     (n, s) \<leftarrow> cache_incrBy (cache_env.truncate e) c key 1 s;
     Some (ucast n, s) })"

definition getMsgId :: "('r, 'q) db_env \<Rightarrow> u32 \<Rightarrow> ('r, 'q) db \<Rightarrow> (u32 \<times> ('r, 'q) db) option" where
  "getMsgId e r = next_id_of e (msg_id_key r)"

definition group_getMsgId :: "('r, 'q) db_env \<Rightarrow> u32 \<Rightarrow> ('r, 'q) db \<Rightarrow> (u32 \<times> ('r, 'q) db) option" where
  "group_getMsgId e g = next_id_of e (group_msg_id_key g)"

definition incMsgCount :: "('r, 'q) db_env \<Rightarrow> u32 \<Rightarrow> u32 \<Rightarrow> ('r, 'q) db \<Rightarrow> (unit \<times> ('r, 'q) db) option" where
  "incMsgCount e from to = with_cache e ''unread'' () (\<lambda>c s. do {
     (_, s) \<leftarrow> cache_hincrBy (cache_env.truncate e) c (unread_key to) (int2string from) 1 s;
     Some ((), s) })"

definition getUnReadCntAll :: "('r, 'q) db_env \<Rightarrow> u32 \<Rightarrow> u32 \<Rightarrow> ('r, 'q) db \<Rightarrow> (u32 \<times> ('r, 'q) db) option" where
  "getUnReadCntAll e user cnt = with_cache e ''unread'' cnt (\<lambda>c s. do {
     ((ok, m), s) \<leftarrow> cache_hgetAll (cache_env.truncate e) c (unread_key user) s;
     Some (if ok then cnt + sum_list (map (atoi \<circ> snd) m) else cnt, s) })"

text \<open>The counters of a group are copied to those of the user.\<close>

definition copy_group_count :: "('r, 'q) db_env \<Rightarrow> cache_ref \<Rightarrow> u32 \<Rightarrow> u32 \<Rightarrow> (string, string) std_map \<Rightarrow> ('r, 'q) db
    \<Rightarrow> (unit \<times> ('r, 'q) db) option" where
  "copy_group_count e c user grp m s = do {
     (_, s) \<leftarrow> cache_hmset (cache_env.truncate e) c (user_group_key user grp) m s;
     Some ((), s) }"

definition clearUserCounter :: "('r, 'q) db_env \<Rightarrow> u32 \<Rightarrow> u32 \<Rightarrow> u32 \<Rightarrow> ('r, 'q) db \<Rightarrow> (unit \<times> ('r, 'q) db) option" where
  "clearUserCounter e user peer t s =
     (if \<not> SessionType_IsValid t then Some ((), s)
      else with_cache e ''unread'' () (\<lambda>c s.
        if t = SESSION_SINGLE then do {
          (_, s) \<leftarrow> cache_hdel (cache_env.truncate e) c (unread_key user) (int2string peer) s;
          Some ((), s) }
        else do {
          ((ok, m), s) \<leftarrow> cache_hgetAll (cache_env.truncate e) c (group_key peer) s;
          (if ok then copy_group_count e c user peer m s else Some ((), s)) }) s)"

text \<open>The result of both is always \<open>false\<close>: the variable that is set is not the one that is returned.
  \<open>clearMessageCount\<close> gives the connection back before it uses it a second time.\<close>

definition clearMessageCount :: "('r, 'q) db_env \<Rightarrow> u32 \<Rightarrow> u32 \<Rightarrow> ('r, 'q) db \<Rightarrow> (bool \<times> ('r, 'q) db) option" where
  "clearMessageCount e user grp s = do {
     (c, s) \<leftarrow> getCacheConn (cache_env.truncate e) ''unread'' s;
     (case c of
        None \<Rightarrow> Some (False, s)
      | Some c \<Rightarrow> do {
          ((ok, m), s) \<leftarrow> cache_hgetAll (cache_env.truncate e) c (group_key grp) s;
          let s = relCacheConn c s;
          (_, s) \<leftarrow> (if ok then copy_group_count e c user grp m s else Some ((), s));
          Some (False, s) })
   }"

definition incMessageCount :: "('r, 'q) db_env \<Rightarrow> u32 \<Rightarrow> u32 \<Rightarrow> ('r, 'q) db \<Rightarrow> (bool \<times> ('r, 'q) db) option" where
  "incMessageCount e user grp = with_cache e ''unread'' False (\<lambda>c s. do {
     (_, s) \<leftarrow> cache_hincrBy (cache_env.truncate e) c (group_key grp) ''count'' 1 s;
     ((ok, m), s) \<leftarrow> cache_hgetAll (cache_env.truncate e) c (group_key grp) s;
     (_, s) \<leftarrow> (if ok then copy_group_count e c user grp m s else Some ((), s));
     Some (False, s) })"

section \<open>\<open>RelationModel\<close>\<close>

definition relation_where :: "u32 \<Rightarrow> u32 \<Rightarrow> string" where
  "relation_where lo hi = ''select id from IMRelationShip where smallId='' @ int2string lo @ '' and bigId='' @ int2string hi"

definition addRelation :: "('r, 'q) db_env \<Rightarrow> u32 \<Rightarrow> u32 \<Rightarrow> ('r, 'q) db \<Rightarrow> (u32 \<times> ('r, 'q) db) option" where
  "addRelation e lo hi = with_db e ''AChat_master'' INVALID_VALUE (\<lambda>s.
     case executeQuery e ''AChat_master'' (relation_where lo hi) s of
       (Some (cols, row # _), s) \<Rightarrow> do {
         r \<leftarrow> getInt cols row ''id'';
         let (ok, s) = executeUpdate e ''AChat_master''
           (''update IMRelationShip set status=0, updated='' @ int2string (now e) @ '' where id='' @ int2string r) s;
         Some (if ok then r else INVALID_VALUE, s) }
     | (_, s) \<Rightarrow>
         (case execute_stmt e ''AChat_master''
            ''insert into IMRelationShip (`smallId`,`bigId`,`status`,`created`,`updated`) values(?,?,?,?,?)''
            [PInt lo, PInt hi, PInt 0, PInt (now e), PInt (now e)] s of
            (r, s) \<Rightarrow>
              let r = (case r of None \<Rightarrow> INVALID_VALUE | Some i \<Rightarrow> i)
              in if r \<noteq> INVALID_VALUE then do { (_, s) \<leftarrow> resetMsgId e r s; Some (r, s) } else Some (r, s)))"

definition getRelationId :: "('r, 'q) db_env \<Rightarrow> u32 \<Rightarrow> u32 \<Rightarrow> bool \<Rightarrow> ('r, 'q) db \<Rightarrow> (u32 \<times> ('r, 'q) db) option" where
  "getRelationId e a b add s =
     (if a = 0 \<or> b = 0 then Some (INVALID_VALUE, s)
      else
        let hi = (if a > b then a else b); lo = (if a > b then b else a)
        in do {
          (r, s) \<leftarrow> with_db e ''AChat_slave'' None (\<lambda>s.
            case executeQuery e ''AChat_slave'' (relation_where lo hi @ '' and status = 0'') s of
              (None, s) \<Rightarrow> Some (Some INVALID_VALUE, s)
            | (Some (cols, rows), s) \<Rightarrow> do { r \<leftarrow> last_int cols rows ''id'' INVALID_VALUE; Some (Some r, s) }) s;
          (case r of
             None \<Rightarrow> Some (INVALID_VALUE, s)
           | Some r \<Rightarrow> if r = INVALID_VALUE \<and> add then addRelation e lo hi s else Some (r, s)) })"

text \<open>An update that goes to the master.\<close>

definition master_update :: "('r, 'q) db_env \<Rightarrow> string \<Rightarrow> ('r, 'q) db \<Rightarrow> (bool \<times> ('r, 'q) db) option" where
  "master_update e q = with_db e ''AChat_master'' False (\<lambda>s. Some (executeUpdate e ''AChat_master'' q s))"

definition updateRelation :: "('r, 'q) db_env \<Rightarrow> u32 \<Rightarrow> u32 \<Rightarrow> ('r, 'q) db \<Rightarrow> (bool \<times> ('r, 'q) db) option" where
  "updateRelation e r t = master_update e
     (''update IMRelationShip set `updated`='' @ int2string t @ '' where id='' @ int2string r)"

definition removeRelation :: "('r, 'q) db_env \<Rightarrow> u32 \<Rightarrow> ('r, 'q) db \<Rightarrow> (bool \<times> ('r, 'q) db) option" where
  "removeRelation e r = master_update e
     (''update IMRelationShip set status = 1, updated='' @ int2string (now e) @ '' where id='' @ int2string r)"

section \<open>\<open>SessionModel\<close>\<close>

definition getSessionId :: "('r, 'q) db_env \<Rightarrow> u32 \<Rightarrow> u32 \<Rightarrow> u32 \<Rightarrow> bool \<Rightarrow> ('r, 'q) db \<Rightarrow> (u32 \<times> ('r, 'q) db) option" where
  "getSessionId e user peer t isAll = with_db e ''AChat_slave'' INVALID_VALUE (\<lambda>s.
     case executeQuery e ''AChat_slave''
       (''select id from IMRecentSession where userId='' @ int2string user @ '' and peerId='' @ int2string peer @
        '' and type='' @ int2string t @ (if isAll then [] else '' and status=0'')) s of
       (None, s) \<Rightarrow> Some (INVALID_VALUE, s)
     | (Some (cols, rows), s) \<Rightarrow> do { i \<leftarrow> last_int cols rows ''id'' INVALID_VALUE; Some (i, s) })"

definition updateSession :: "('r, 'q) db_env \<Rightarrow> u32 \<Rightarrow> u32 \<Rightarrow> ('r, 'q) db \<Rightarrow> (bool \<times> ('r, 'q) db) option" where
  "updateSession e i t = master_update e
     (''update IMRecentSession set `updated`='' @ int2string t @ '' where id='' @ int2string i)"

definition removeSession :: "('r, 'q) db_env \<Rightarrow> u32 \<Rightarrow> ('r, 'q) db \<Rightarrow> (bool \<times> ('r, 'q) db) option" where
  "removeSession e i = master_update e
     (''update IMRecentSession set status = 1, updated='' @ int2string (now e) @ '' where id='' @ int2string i)"

definition addSession :: "('r, 'q) db_env \<Rightarrow> u32 \<Rightarrow> u32 \<Rightarrow> u32 \<Rightarrow> ('r, 'q) db \<Rightarrow> (u32 \<times> ('r, 'q) db) option" where
  "addSession e user peer t s = do {
     (i, s) \<leftarrow> getSessionId e user peer t True s;
     (r, s) \<leftarrow> with_db e ''AChat_master'' None (\<lambda>s.
       if i \<noteq> INVALID_VALUE then
         (case executeUpdate e ''AChat_master''
            (''update IMRecentSession set status=0, updated='' @ int2string (now e) @ '' where id='' @ int2string i) s of
            (ok, s) \<Rightarrow> Some (Some (if ok then i else INVALID_VALUE), s))
       else
         (case execute_stmt e ''AChat_master''
            ''insert into IMRecentSession (`userId`,`peerId`,`type`,`status`,`created`,`updated`) values(?,?,?,?,?,?)''
            [PInt user, PInt peer, PInt t, PInt 0, PInt (now e), PInt (now e)] s of
            (r, s) \<Rightarrow> Some (Some (case r of None \<Rightarrow> INVALID_VALUE | Some i \<Rightarrow> i), s))) s;
     Some (case r of None \<Rightarrow> i | Some i \<Rightarrow> i, s) }"

section \<open>\<open>AudioModel\<close>\<close>

record msg_info =
  mi_msg_id :: u32
  mi_from :: u32
  mi_create_time :: u32
  mi_type :: u32
  mi_data :: string

text \<open>\<open>CByteStream::WriteUint32\<close>.\<close>

definition be_text :: "u32 \<Rightarrow> string" where
  "be_text w = map (\<lambda>b. char_of (unat b)) (be_bytes 4 w)"

definition readAudioContent :: "('r, 'q) db_env \<Rightarrow> u32 \<Rightarrow> u32 \<Rightarrow> string \<Rightarrow> msg_info \<Rightarrow> msg_info" where
  "readAudioContent e cost sz path m =
     (if path = [] \<or> cost = 0 \<or> sz = 0 then m
      else case de_download e path sz of None \<Rightarrow> m | Some d \<Rightarrow> m\<lparr>mi_data := be_text cost @ d\<rparr>)"

fun read_audio_rows :: "('r, 'q) db_env \<Rightarrow> string list \<Rightarrow> string option list list \<Rightarrow> msg_info \<Rightarrow> msg_info option" where
  "read_audio_rows e cols [] m = Some m"
| "read_audio_rows e cols (row # rows) m = do {
     cost \<leftarrow> getInt cols row ''duration'';
     sz \<leftarrow> getInt cols row ''size'';
     path \<leftarrow> getString cols row ''path'';
     read_audio_rows e cols rows (readAudioContent e cost sz path m) }"

fun read_audio_list :: "('r, 'q) db_env \<Rightarrow> msg_info list \<Rightarrow> ('r, 'q) db \<Rightarrow> (msg_info list \<times> ('r, 'q) db) option" where
  "read_audio_list e [] s = Some ([], s)"
| "read_audio_list e (m # ms) s =
     (if mi_type m = 18 \<or> mi_type m = 2 then
        (case executeQuery e ''AChat_slave'' (''select * from IMAudio where id='' @ mi_data m) s of
           (None, s) \<Rightarrow> read_audio_list e ms s
         | (Some (cols, rows), s) \<Rightarrow> do {
             m \<leftarrow> read_audio_rows e cols rows m;
             (ms, s) \<leftarrow> read_audio_list e ms s;
             Some (m # ms, s) })
      else do { (ms, s) \<leftarrow> read_audio_list e ms s; Some (m # ms, s) })"

definition readAudios :: "('r, 'q) db_env \<Rightarrow> msg_info list \<Rightarrow> ('r, 'q) db \<Rightarrow> (msg_info list \<times> ('r, 'q) db) option" where
  "readAudios e ms s = (if ms = [] then Some (ms, s) else with_db e ''AChat_slave'' ms (read_audio_list e ms) s)"

section \<open>\<open>MessageModel\<close>\<close>

text \<open>The rows of a message table, as the reading loops of both models convert them.\<close>

fun read_msgs :: "string \<Rightarrow> string list \<Rightarrow> string option list list \<Rightarrow> msg_info list option" where
  "read_msgs from_col cols [] = Some []"
| "read_msgs from_col cols (row # rows) = do {
     i \<leftarrow> getInt cols row ''msgId'';
     f \<leftarrow> getInt cols row from_col;
     t \<leftarrow> getInt cols row ''created'';
     ty \<leftarrow> getInt cols row ''type'';
     m \<leftarrow> (if MsgType_IsValid ty
          then map_option (\<lambda>d. [\<lparr>mi_msg_id = i, mi_from = f, mi_create_time = t, mi_type = ty, mi_data = d\<rparr>]) (getString cols row ''content'')
          else Some []);
     ms \<leftarrow> read_msgs from_col cols rows;
     Some (m @ ms) }"

text \<open>The messages a query selects, and the audio contents they refer to.\<close>

definition query_msgs :: "('r, 'q) db_env \<Rightarrow> string \<Rightarrow> string \<Rightarrow> ('r, 'q) db \<Rightarrow> (msg_info list \<times> ('r, 'q) db) option" where
  "query_msgs e from_col q s = (case executeQuery e ''AChat_slave'' q s of
     (None, s) \<Rightarrow> Some ([], s)
   | (Some (cols, rows), s) \<Rightarrow> do { ms \<leftarrow> read_msgs from_col cols rows; Some (ms, s) })"

definition msg_table :: "u32 \<Rightarrow> string" where
  "msg_table r = ''IMMessage_'' @ int2string (r mod 8)"

definition getMessage :: "('r, 'q) db_env \<Rightarrow> u32 \<Rightarrow> u32 \<Rightarrow> u32 \<Rightarrow> u32 \<Rightarrow> ('r, 'q) db \<Rightarrow> (msg_info list \<times> ('r, 'q) db) option" where
  "getMessage e user peer msgId cnt s = do {
     (r, s) \<leftarrow> getRelationId e user peer False s;
     (if r = INVALID_VALUE then Some ([], s)
      else do {
        (ms, s) \<leftarrow> with_db e ''AChat_slave'' [] (query_msgs e ''fromId''
          (''select * from '' @ msg_table r @ '' force index (idx_relateId_status_created) where relateId= '' @ int2string r @
           '' and status = 0'' @ (if msgId = 0 then [] else '' and msgId <='' @ int2string msgId) @
           '' order by created desc, id desc limit '' @ int2string cnt)) s;
        readAudios e ms s }) }"

fun join_ids :: "u32 list \<Rightarrow> string" where
  "join_ids [] = []"
| "join_ids [i] = int2string i"
| "join_ids (i # is) = int2string i @ '','' @ join_ids is"

definition getMsgByMsgId :: "('r, 'q) db_env \<Rightarrow> u32 \<Rightarrow> u32 \<Rightarrow> u32 list \<Rightarrow> ('r, 'q) db \<Rightarrow> (msg_info list \<times> ('r, 'q) db) option" where
  "getMsgByMsgId e user peer ids s =
     (if ids = [] then Some ([], s)
      else do {
        (r, s) \<leftarrow> getRelationId e user peer False s;
        (if r = INVALID_VALUE then Some ([], s)
         else do {
           (ms, s) \<leftarrow> with_db e ''AChat_slave'' [] (query_msgs e ''fromId''
             (''select * from '' @ msg_table r @ '' where relateId='' @ int2string r @ ''  and status=0 and msgId in ('' @
              join_ids ids @ '') order by created desc, id desc limit 100'')) s;
           readAudios e ms s }) })"

definition sendMessage :: "('r, 'q) db_env \<Rightarrow> u32 \<Rightarrow> u32 \<Rightarrow> u32 \<Rightarrow> u32 \<Rightarrow> u32 \<Rightarrow> u32 \<Rightarrow> string \<Rightarrow> ('r, 'q) db
    \<Rightarrow> (bool \<times> ('r, 'q) db) option" where
  "sendMessage e r from to ty created msgId body s =
     (if from = 0 \<or> to = 0 then Some (False, s)
      else do {
        (ok, s) \<leftarrow> with_db e ''AChat_master'' False (\<lambda>s. Some (
          case execute_stmt e ''AChat_master''
            (''insert into '' @ msg_table r @
             '' (`relateId`, `fromId`, `toId`, `msgId`, `content`, `status`, `type`, `created`, `updated`) values(?, ?, ?, ?, ?, ?, ?, ?, ?)'')
            [PInt r, PInt from, PInt to, PInt msgId, PStr body, PInt 0, PInt ty, PInt created, PInt created] s of
            (x, s) \<Rightarrow> (x \<noteq> None, s))) s;
        (if ok then do { (_, s) \<leftarrow> incMsgCount e from to s; Some (True, s) } else Some (False, s)) })"

record last_msg =
  lm_msg_id :: u32
  lm_data :: string
  lm_type :: u32
  lm_from :: u32

fun read_last :: "u32 \<Rightarrow> string \<Rightarrow> string \<Rightarrow> string list \<Rightarrow> string option list list \<Rightarrow> last_msg \<Rightarrow> last_msg option" where
  "read_last audio voice from_col cols [] m = Some m"
| "read_last audio voice from_col cols (row # rows) m = do {
     i \<leftarrow> getInt cols row ''msgId'';
     ty \<leftarrow> getInt cols row ''type'';
     f \<leftarrow> (if from_col = [] then Some (lm_from m) else getInt cols row from_col);
     d \<leftarrow> (if ty = audio then Some voice else getString cols row ''content'');
     read_last audio voice from_col cols rows \<lparr>lm_msg_id = i, lm_data = d, lm_type = ty, lm_from = f\<rparr> }"

text \<open>\<open>m\<close> is what the variables that are passed by reference hold before.\<close>

definition getLastMsg :: "('r, 'q) db_env \<Rightarrow> u32 \<Rightarrow> u32 \<Rightarrow> last_msg \<Rightarrow> ('r, 'q) db \<Rightarrow> (last_msg \<times> ('r, 'q) db) option" where
  "getLastMsg e from to m s = do {
     (r, s) \<leftarrow> getRelationId e from to False s;
     (if r = INVALID_VALUE then Some (m, s)
      else with_db e ''AChat_slave'' m (\<lambda>s.
        case executeQuery e ''AChat_slave''
          (''select msgId,type,content from '' @ msg_table r @ '' force index (idx_relateId_status_created) where relateId= '' @
           int2string r @ '' and status = 0 order by created desc, id desc limit 1'') s of
          (None, s) \<Rightarrow> Some (m, s)
        | (Some (cols, rows), s) \<Rightarrow> do { m \<leftarrow> read_last 2 (de_audio_enc e) [] cols rows m; Some (m, s) }) s) }"

record unread_info =
  un_session :: u32
  un_type :: u32
  un_cnt :: u32
  un_last :: last_msg

text \<open>\<open>junk\<close> is what the uninitialised message type holds.\<close>

fun unread_infos :: "('r, 'q) db_env \<Rightarrow> u32 \<Rightarrow> u32 \<Rightarrow> (string, string) std_map \<Rightarrow> u32 \<Rightarrow> ('r, 'q) db
    \<Rightarrow> ((u32 \<times> unread_info list) \<times> ('r, 'q) db) option" where
  "unread_infos e junk user [] n s = Some ((n, []), s)"
| "unread_infos e junk user ((f, v) # es) n s = do {
     (m, s) \<leftarrow> getLastMsg e (atoi f) user \<lparr>lm_msg_id = 0, lm_data = [], lm_type = junk, lm_from = atoi f\<rparr> s;
     (if MsgType_IsValid (lm_type m) then do {
        ((n, us), s) \<leftarrow> unread_infos e junk user es (n + atoi v) s;
        Some ((n, \<lparr>un_session = atoi f, un_type = SESSION_SINGLE, un_cnt = atoi v, un_last = m\<rparr> # us), s) }
      else unread_infos e junk user es n s) }"

definition getUnreadMsgCount :: "('r, 'q) db_env \<Rightarrow> u32 \<Rightarrow> u32 \<Rightarrow> u32 \<Rightarrow> ('r, 'q) db
    \<Rightarrow> ((u32 \<times> unread_info list) \<times> ('r, 'q) db) option" where
  "getUnreadMsgCount e junk user n s = do {
     (r, s) \<leftarrow> with_cache e ''unread'' None (\<lambda>c s. do {
       ((ok, m), s) \<leftarrow> cache_hgetAll (cache_env.truncate e) c (unread_key user) s;
       Some (if ok then Some m else None, s) }) s;
     (case r of None \<Rightarrow> Some ((n, []), s) | Some m \<Rightarrow> unread_infos e junk user m n s) }"

section \<open>\<open>GroupModel\<close>: membership\<close>

definition isInGroup :: "('r, 'q) db_env \<Rightarrow> u32 \<Rightarrow> u32 \<Rightarrow> ('r, 'q) db \<Rightarrow> (bool \<times> ('r, 'q) db) option" where
  "isInGroup e user grp = with_cache e ''group_member'' False (\<lambda>c s. do {
     (v, s) \<leftarrow> cache_hget (cache_env.truncate e) c (group_member_key grp) (int2string user) s;
     Some (v \<noteq> [], s) })"

definition isValidateGroupId :: "('r, 'q) db_env \<Rightarrow> u32 \<Rightarrow> ('r, 'q) db \<Rightarrow> (bool \<times> ('r, 'q) db) option" where
  "isValidateGroupId e grp = with_cache e ''group_member'' False (\<lambda>c. cache_isExists (cache_env.truncate e) c (group_member_key grp))"

definition getUserJoinTime :: "('r, 'q) db_env \<Rightarrow> u32 \<Rightarrow> u32 \<Rightarrow> ('r, 'q) db \<Rightarrow> (u32 \<times> ('r, 'q) db) option" where
  "getUserJoinTime e grp user = with_cache e ''group_member'' 0 (\<lambda>c s. do {
     (v, s) \<leftarrow> cache_hget (cache_env.truncate e) c (group_member_key grp) (int2string user) s;
     Some (if v = [] then 0 else string2int v, s) })"

definition getGroupUser :: "('r, 'q) db_env \<Rightarrow> u32 \<Rightarrow> ('r, 'q) db \<Rightarrow> (u32 list \<times> ('r, 'q) db) option" where
  "getGroupUser e grp = with_cache e ''group_member'' [] (\<lambda>c s. do {
     ((ok, m), s) \<leftarrow> cache_hgetAll (cache_env.truncate e) c (group_member_key grp) s;
     Some (if ok then map (string2int \<circ> fst) m else [], s) })"

fun int_column :: "string list \<Rightarrow> string option list list \<Rightarrow> string \<Rightarrow> u32 list option" where
  "int_column cols [] key = Some []"
| "int_column cols (row # rows) key = do { v \<leftarrow> getInt cols row key; vs \<leftarrow> int_column cols rows key; Some (v # vs) }"

definition getUserGroupIds :: "('r, 'q) db_env \<Rightarrow> u32 \<Rightarrow> u32 \<Rightarrow> ('r, 'q) db \<Rightarrow> (u32 list \<times> ('r, 'q) db) option" where
  "getUserGroupIds e user limit = with_db e ''AChat_slave'' [] (\<lambda>s.
     case executeQuery e ''AChat_slave''
       (''select groupId from IMGroupMember where userId='' @ int2string user @ '' and status = 0 order by updated desc, id desc'' @
        (if limit \<noteq> 0 then '' limit '' @ int2string limit else [])) s of
       (None, s) \<Rightarrow> Some ([], s)
     | (Some (cols, rows), s) \<Rightarrow> do { gs \<leftarrow> int_column cols rows ''groupId''; Some (gs, s) })"

definition updateGroupChat :: "('r, 'q) db_env \<Rightarrow> u32 \<Rightarrow> ('r, 'q) db \<Rightarrow> (unit \<times> ('r, 'q) db) option" where
  "updateGroupChat e grp s = do {
     (_, s) \<leftarrow> master_update e (''update IMGroup set lastChated='' @ int2string (now e) @ '' where id='' @ int2string grp) s;
     Some ((), s) }"

definition incGroupVersion :: "('r, 'q) db_env \<Rightarrow> u32 \<Rightarrow> ('r, 'q) db \<Rightarrow> (bool \<times> ('r, 'q) db) option" where
  "incGroupVersion e grp = master_update e (''update IMGroup set version=version+1 where id='' @ int2string grp)"

fun group_removeSession :: "('r, 'q) db_env \<Rightarrow> u32 \<Rightarrow> u32 list \<Rightarrow> ('r, 'q) db \<Rightarrow> (unit \<times> ('r, 'q) db) option" where
  "group_removeSession e grp [] s = Some ((), s)"
| "group_removeSession e grp (u # us) s = do {
     (i, s) \<leftarrow> getSessionId e u grp SESSION_GROUP False s;
     (_, s) \<leftarrow> removeSession e i s;
     group_removeSession e grp us s }"

section \<open>\<open>GroupMessageModel\<close>\<close>

definition group_table :: "u32 \<Rightarrow> string" where
  "group_table g = ''IMGroupMessage_'' @ int2string (g mod 8)"

text \<open>The result of the insertion is a variable of its own, so that \<open>false\<close> is returned in any case.\<close>

definition group_sendMessage :: "('r, 'q) db_env \<Rightarrow> u32 \<Rightarrow> u32 \<Rightarrow> u32 \<Rightarrow> u32 \<Rightarrow> u32 \<Rightarrow> string \<Rightarrow> ('r, 'q) db
    \<Rightarrow> (bool \<times> ('r, 'q) db) option" where
  "group_sendMessage e from grp ty created msgId body s = do {
     (inside, s) \<leftarrow> isInGroup e from grp s;
     (if \<not> inside then Some (False, s)
      else with_db e ''AChat_master'' False (\<lambda>s.
        case execute_stmt e ''AChat_master''
          (''insert into '' @ group_table grp @
           '' (`groupId`, `userId`, `msgId`, `content`, `type`, `status`, `updated`, `created`) values(?, ?, ?, ?, ?, ?, ?, ?)'')
          [PInt grp, PInt from, PInt msgId, PStr body, PInt ty, PInt 0, PInt created, PInt created] s of
          (None, s) \<Rightarrow> Some (False, s)
        | (Some _, s) \<Rightarrow> do {
            (_, s) \<leftarrow> updateGroupChat e grp s;
            (_, s) \<leftarrow> incMessageCount e from grp s;
            (_, s) \<leftarrow> clearMessageCount e from grp s;
            Some (False, s) }) s) }"

definition group_getMessage :: "('r, 'q) db_env \<Rightarrow> u32 \<Rightarrow> u32 \<Rightarrow> u32 \<Rightarrow> u32 \<Rightarrow> ('r, 'q) db \<Rightarrow> (msg_info list \<times> ('r, 'q) db) option" where
  "group_getMessage e user grp msgId cnt s = do {
     (ms, s) \<leftarrow> with_db e ''AChat_slave'' [] (\<lambda>s. do {
       (updated, s) \<leftarrow> getUserJoinTime e grp user s;
       query_msgs e ''userId''
         (''select * from '' @ group_table grp @ '' where groupId = '' @ int2string grp @
          (if msgId = 0 then [] else '' and msgId<='' @ int2string msgId) @
          '' and status = 0 and created>='' @ int2string updated @ '' order by created desc, id desc limit '' @ int2string cnt) s }) s;
     readAudios e ms s }"

definition group_getMsgByMsgId :: "('r, 'q) db_env \<Rightarrow> u32 \<Rightarrow> u32 \<Rightarrow> u32 list \<Rightarrow> ('r, 'q) db \<Rightarrow> (msg_info list \<times> ('r, 'q) db) option" where
  "group_getMsgByMsgId e user grp ids s =
     (if ids = [] then Some ([], s)
      else do {
        (inside, s) \<leftarrow> isInGroup e user grp s;
        (if \<not> inside then Some ([], s)
         else do {
           (ms, s) \<leftarrow> with_db e ''AChat_slave'' [] (\<lambda>s. do {
             (updated, s) \<leftarrow> getUserJoinTime e grp user s;
             query_msgs e ''userId''
               (''select * from '' @ group_table grp @ '' where groupId='' @ int2string grp @ '' and msgId in ('' @ join_ids ids @
                '') and status=0 and created >= '' @ int2string updated @ '' order by created desc, id desc limit 100'') s }) s;
           readAudios e ms s }) })"

definition group_getLastMsg :: "('r, 'q) db_env \<Rightarrow> u32 \<Rightarrow> last_msg \<Rightarrow> ('r, 'q) db \<Rightarrow> (last_msg \<times> ('r, 'q) db) option" where
  "group_getLastMsg e grp m = with_db e ''AChat_slave'' m (\<lambda>s.
     case executeQuery e ''AChat_slave''
       (''select msgId, type,userId, content from '' @ group_table grp @ '' where groupId = '' @ int2string grp @
        '' and status = 0 order by created desc, id desc limit 1'') s of
       (None, s) \<Rightarrow> Some (m, s)
     | (Some (cols, rows), s) \<Rightarrow> do { m \<leftarrow> read_last 18 (de_audio_enc e) ''userId'' cols rows m; Some (m, s) })"

text \<open>The unread counter of one group: \<open>None\<close> when the group has none, and otherwise \<open>nCount\<close>, which keeps
  the value of the group before when the user has seen more than the group has.\<close>

definition group_count :: "('r, 'q) db_env \<Rightarrow> cache_ref \<Rightarrow> u32 \<Rightarrow> u32 \<Rightarrow> u32 \<Rightarrow> ('r, 'q) db \<Rightarrow> (u32 option \<times> ('r, 'q) db) option" where
  "group_count e c user grp nCount s = do {
     (g, s) \<leftarrow> cache_hget (cache_env.truncate e) c (group_key grp) ''count'' s;
     (if g = [] then Some (None, s)
      else do {
        (u, s) \<leftarrow> cache_hget (cache_env.truncate e) c (user_group_key user grp) ''count'' s;
        let u = (if u = [] then 0 else atoi u);
        Some (Some (if u \<le> atoi g then atoi g - u else nCount), s) }) }"

fun group_count_all :: "('r, 'q) db_env \<Rightarrow> cache_ref \<Rightarrow> u32 \<Rightarrow> u32 list \<Rightarrow> u32 \<Rightarrow> u32 \<Rightarrow> ('r, 'q) db \<Rightarrow> (u32 \<times> ('r, 'q) db) option" where
  "group_count_all e c user [] nCount n s = Some (n, s)"
| "group_count_all e c user (g # gs) nCount n s = do {
     (k, s) \<leftarrow> group_count e c user g nCount s;
     (case k of
        None \<Rightarrow> group_count_all e c user gs nCount n s
      | Some k \<Rightarrow> group_count_all e c user gs k (n + k) s) }"

definition group_getUnReadCntAll :: "('r, 'q) db_env \<Rightarrow> u32 \<Rightarrow> u32 \<Rightarrow> ('r, 'q) db \<Rightarrow> (u32 \<times> ('r, 'q) db) option" where
  "group_getUnReadCntAll e user n s = do {
     (gs, s) \<leftarrow> getUserGroupIds e user 0 s;
     with_cache e ''unread'' n (\<lambda>c. group_count_all e c user gs 0 n) s }"

fun group_unread_infos :: "('r, 'q) db_env \<Rightarrow> last_msg \<Rightarrow> cache_ref \<Rightarrow> u32 \<Rightarrow> u32 list \<Rightarrow> u32 \<Rightarrow> u32 \<Rightarrow> ('r, 'q) db
    \<Rightarrow> ((u32 \<times> unread_info list) \<times> ('r, 'q) db) option" where
  "group_unread_infos e junk c user [] nCount n s = Some ((n, []), s)"
| "group_unread_infos e junk c user (g # gs) nCount n s = do {
     (k, s) \<leftarrow> group_count e c user g nCount s;
     (case k of
        None \<Rightarrow> group_unread_infos e junk c user gs nCount n s
      | Some k \<Rightarrow>
          if k = 0 then group_unread_infos e junk c user gs k n s
          else do {
            (m, s) \<leftarrow> group_getLastMsg e g junk s;
            ((n, us), s) \<leftarrow> group_unread_infos e junk c user gs k (n + k) s;
            Some ((n, (if MsgType_IsValid (lm_type m)
                       then [\<lparr>un_session = g, un_type = SESSION_GROUP, un_cnt = k, un_last = m\<rparr>] else []) @ us), s) }) }"

definition group_getUnreadMsgCount :: "('r, 'q) db_env \<Rightarrow> last_msg \<Rightarrow> u32 \<Rightarrow> u32 \<Rightarrow> ('r, 'q) db
    \<Rightarrow> ((u32 \<times> unread_info list) \<times> ('r, 'q) db) option" where
  "group_getUnreadMsgCount e junk user n s = do {
     (gs, s) \<leftarrow> getUserGroupIds e user 0 s;
     with_cache e ''unread'' (n, []) (\<lambda>c. group_unread_infos e junk c user gs 0 n) s }"

section \<open>Recent sessions\<close>

record contact =
  co_session :: u32
  co_status :: u32
  co_type :: u32
  co_updated :: u32
  co_last :: last_msg

fun read_contacts :: "last_msg \<Rightarrow> string list \<Rightarrow> string option list list \<Rightarrow> contact list option" where
  "read_contacts junk cols [] = Some []"
| "read_contacts junk cols (row # rows) = do {
     p \<leftarrow> getInt cols row ''peerId'';
     st \<leftarrow> getInt cols row ''status'';
     t \<leftarrow> getInt cols row ''type'';
     u \<leftarrow> (if SessionType_IsValid t then getInt cols row ''updated'' else Some 0);
     cs \<leftarrow> read_contacts junk cols rows;
     Some ((if SessionType_IsValid t
            then [\<lparr>co_session = p, co_status = st, co_type = t, co_updated = u, co_last = junk\<rparr>] else []) @ cs) }"

text \<open>\<open>fillSessionMsg\<close>, with \<open>junk\<close> as the uninitialised message type.\<close>

fun fillSessionMsg :: "('r, 'q) db_env \<Rightarrow> u32 \<Rightarrow> u32 \<Rightarrow> contact list \<Rightarrow> ('r, 'q) db \<Rightarrow> (contact list \<times> ('r, 'q) db) option" where
  "fillSessionMsg e junk user [] s = Some ([], s)"
| "fillSessionMsg e junk user (c # cs) s = do {
     let m = \<lparr>lm_msg_id = 0, lm_data = [], lm_type = junk, lm_from = 0\<rparr>;
     (m, s) \<leftarrow> (if co_type c = SESSION_SINGLE then getLastMsg e (co_session c) user (m\<lparr>lm_from := co_session c\<rparr>) s
              else group_getLastMsg e (co_session c) m s);
     (cs, s) \<leftarrow> fillSessionMsg e junk user cs s;
     Some (if MsgType_IsValid (lm_type m) then c\<lparr>co_last := m\<rparr> # cs else cs, s) }"

definition getRecentSession :: "('r, 'q) db_env \<Rightarrow> u32 \<Rightarrow> u32 \<Rightarrow> u32 \<Rightarrow> ('r, 'q) db \<Rightarrow> (contact list \<times> ('r, 'q) db) option" where
  "getRecentSession e junk user lastTime s = do {
     (cs, s) \<leftarrow> with_db e ''AChat_slave'' [] (\<lambda>s.
       case executeQuery e ''AChat_slave''
         (''select * from IMRecentSession where userId = '' @ int2string user @ '' and status = 0 and updated >'' @
          int2string lastTime @ '' order by updated desc limit 100'') s of
         (None, s) \<Rightarrow> Some ([], s)
       | (Some (cols, rows), s) \<Rightarrow> do {
           cs \<leftarrow> read_contacts \<lparr>lm_msg_id = 0, lm_data = [], lm_type = junk, lm_from = 0\<rparr> cols rows;
           Some (cs, s) }) s;
     fillSessionMsg e junk user cs s }"

end
