(* ===== verification/Redis_Laws.thy ===== *)
theory Redis_Laws
  imports Db_Cache
begin

text \<open>
  The hypotheses about the Redis server: the documented effects of the commands on hashes and
  strings, as replies to the bytes of the command on a connection that has selected its database. \<open>H\<close>
  reads the hashes of a server state and \<open>V\<close> its strings, by pool, key and field. The second half is
  a small server that has these effects, which the witnesses run on.
\<close>

section \<open>The commands\<close>

type_synonym 'r hash_view = "'r \<Rightarrow> string \<Rightarrow> string \<Rightarrow> string \<Rightarrow> string option"
type_synonym 'r string_view = "'r \<Rightarrow> string \<Rightarrow> string \<Rightarrow> string option"

definition pairs :: "(string \<times> string) list \<Rightarrow> string list" where
  "pairs fvs = concat (map (\<lambda>(f, v). [f, v]) fvs)"

definition put_field :: "'r hash_view \<Rightarrow> 'r \<Rightarrow> 'r \<Rightarrow> string \<Rightarrow> string \<Rightarrow> (string \<Rightarrow> string option) \<Rightarrow> bool" where
  "put_field H st st' name k h \<longleftrightarrow>
     (\<forall>n j. H st' n j = (if n = name \<and> j = k then h else H st n j))"

definition integer_reply :: "redisReply \<Rightarrow> int \<Rightarrow> bool" where
  "integer_reply r i \<longleftrightarrow> rtype r = REDIS_REPLY_INTEGER \<and> rinteger r = word_of_int i"

definition in64 :: "int \<Rightarrow> bool" where
  "in64 i \<longleftrightarrow> - (2 ^ 63) \<le> i \<and> i < 2 ^ 63"

lemma in64_sint [simp]: "in64 (sint (w :: i64))"
  using sint_ge [of w] sint_lt [of w] by (simp add: in64_def)

definition redis_hget :: "'r cache_env \<Rightarrow> 'r hash_view \<Rightarrow> bool" where
  "redis_hget e H \<longleftrightarrow> (\<forall>name st k f. \<exists>r. ce_exec e name True (wire_command [''HGET'', k, f]) st = (Some r, st) \<and>
     (case H st name k f of None \<Rightarrow> rtype r = REDIS_REPLY_NIL
      | Some v \<Rightarrow> rtype r = REDIS_REPLY_STRING \<and> reply_text r = v))"

definition redis_hdel :: "'r cache_env \<Rightarrow> 'r hash_view \<Rightarrow> bool" where
  "redis_hdel e H \<longleftrightarrow> (\<forall>name st k f. \<exists>r st'. ce_exec e name True (wire_command [''HDEL'', k, f]) st = (Some r, st') \<and>
     put_field H st st' name k ((H st name k)(f := None)))"

text \<open>A field that is not there counts as 0.\<close>

definition redis_hincrby :: "'r cache_env \<Rightarrow> 'r hash_view \<Rightarrow> bool" where
  "redis_hincrby e H \<longleftrightarrow> (\<forall>name st k f i n. (H st name k f = Some (dec_int i) \<or> H st name k f = None \<and> i = 0) \<longrightarrow>
     in64 i \<longrightarrow> in64 n \<longrightarrow> in64 (i + n) \<longrightarrow>
     (\<exists>r st'. ce_exec e name True (wire_command [''HINCRBY'', k, f, dec_int n]) st = (Some r, st') \<and>
       integer_reply r (i + n) \<and> put_field H st st' name k ((H st name k)(f \<mapsto> dec_int (i + n)))))"

definition redis_hgetall :: "'r cache_env \<Rightarrow> 'r hash_view \<Rightarrow> bool" where
  "redis_hgetall e H \<longleftrightarrow> (\<forall>name st k. card (dom (H st name k)) < 2 ^ 62 \<longrightarrow> finite (dom (H st name k)) \<longrightarrow>
     (\<exists>r rs fvs. ce_exec e name True (wire_command [''HGETALL'', k]) st = (Some r, st) \<and>
       rtype r = REDIS_REPLY_ARRAY \<and> relements r mod 2 = 0 \<and> reply_elements r = Some rs \<and> map reply_text rs = pairs fvs \<and>
       distinct (map fst fvs) \<and> map_of fvs = H st name k))"

definition redis_hmset :: "'r cache_env \<Rightarrow> 'r hash_view \<Rightarrow> bool" where
  "redis_hmset e H \<longleftrightarrow> (\<forall>name st k fvs. distinct (map fst fvs) \<longrightarrow>
     (\<exists>r st'. ce_exec e name True (wire_command (''HMSET'' # k # pairs fvs)) st = (Some r, st') \<and>
       put_field H st st' name k (H st name k ++ map_of fvs)))"

definition redis_set :: "'r cache_env \<Rightarrow> 'r string_view \<Rightarrow> bool" where
  "redis_set e V \<longleftrightarrow> (\<forall>name st k v. \<exists>r st'. ce_exec e name True (wire_command [''SET'', k, v]) st = (Some r, st') \<and>
     rtype r = REDIS_REPLY_STATUS \<and> reply_text r = ''OK'' \<and>
     (\<forall>n j. V st' n j = (if n = name \<and> j = k then Some v else V st n j)))"

definition redis_incrby :: "'r cache_env \<Rightarrow> 'r string_view \<Rightarrow> bool" where
  "redis_incrby e V \<longleftrightarrow> (\<forall>name st k i n. (V st name k = Some (dec_int i) \<or> V st name k = None \<and> i = 0) \<longrightarrow>
     in64 i \<longrightarrow> in64 n \<longrightarrow> in64 (i + n) \<longrightarrow>
     (\<exists>r st'. ce_exec e name True (wire_command [''INCRBY'', k, dec_int n]) st = (Some r, st') \<and>
       integer_reply r (i + n) \<and> (\<forall>m j. V st' m j = (if m = name \<and> j = k then Some (dec_int (i + n)) else V st m j))))"

section \<open>A server with these effects\<close>

definition line :: "string \<Rightarrow> string \<times> string" where
  "line s = (takeWhile (\<lambda>c. c \<noteq> CR) s, drop 2 (dropWhile (\<lambda>c. c \<noteq> CR) s))"

fun read_bulks :: "nat \<Rightarrow> string \<Rightarrow> string list" where
  "read_bulks 0 s = []"
| "read_bulks (Suc n) s =
     (case line s of (h, rest) \<Rightarrow> let l = dec_val (drop 1 h) in take l rest # read_bulks n (drop (l + 2) rest))"

definition parse_command :: "string \<Rightarrow> string list" where
  "parse_command s = (case line s of (h, rest) \<Rightarrow> read_bulks (dec_val (drop 1 h)) rest)"

lemma line_dec: "c \<noteq> CR \<Longrightarrow> line (c # dec n @ CR # LF # rest) = (c # dec n, rest)"
proof -
  have "\<forall>x\<in>set (dec n). x \<noteq> CR" using dec_digits [of CR n] by auto
  moreover assume "c \<noteq> CR"
  ultimately have "takeWhile (\<lambda>c. c \<noteq> CR) ((c # dec n) @ CR # LF # rest) = c # dec n"
    "dropWhile (\<lambda>c. c \<noteq> CR) ((c # dec n) @ CR # LF # rest) = CR # LF # rest"
    by (simp_all add: takeWhile_append2 dropWhile_append2)
  then show ?thesis by (simp add: line_def)
qed

lemma read_bulks_enc: "read_bulks (length args) (concat (map (enc \<circ> Bulk) args) @ rest) = args"
  by (induction args) (simp_all add: line_dec Let_def)

lemma parse_wire [simp]: "parse_command (wire_command args) = args"
  using read_bulks_enc [of args "[]"] by (simp add: parse_command_def wire_command_def line_dec)

text \<open>A state is a list of bindings; a key of a string has an empty field.\<close>

type_synonym store = "((string \<times> string \<times> string) \<times> string) list"

definition store_hash :: "store hash_view" where
  "store_hash st name k f = map_of st (name, k, f)"

definition store_string :: "store string_view" where
  "store_string st name k = map_of st (name, k, [])"

definition store_pairs :: "string \<Rightarrow> string \<Rightarrow> store \<Rightarrow> (string \<times> string) list" where
  "store_pairs name k st = map (\<lambda>f. (f, the (store_hash st name k f)))
     (remdups (map (\<lambda>((n, k, f), v). f) (filter (\<lambda>((n, j, f), v). n = name \<and> j = k) st)))"

fun unpair :: "string list \<Rightarrow> (string \<times> string) list" where
  "unpair (f # v # ws) = (f, v) # unpair ws"
| "unpair _ = []"

definition status :: "string \<Rightarrow> redisReply" where
  "status t = Reply REDIS_REPLY_STATUS 0 (int (length t)) (Some t) 0 None"

definition bulk :: "string \<Rightarrow> redisReply" where
  "bulk t = Reply REDIS_REPLY_STRING 0 (int (length t)) (Some t) 0 None"

definition number :: "int \<Rightarrow> redisReply" where
  "number i = Reply REDIS_REPLY_INTEGER (word_of_int i) 0 None 0 None"

definition incr_store :: "string \<times> string \<times> string \<Rightarrow> string \<Rightarrow> store \<Rightarrow> redisReply \<times> store" where
  "incr_store x n st =
     (let i = (case map_of st x of None \<Rightarrow> 0 | Some v \<Rightarrow> strtol10 v) + strtol10 n in (number i, (x, dec_int i) # st))"

definition run_store :: "string \<Rightarrow> string list \<Rightarrow> store \<Rightarrow> redisReply \<times> store" where
  "run_store name ws st =
     (case ws of
        [w, k] \<Rightarrow>
          if w = ''HGETALL'' then
            (let ts = pairs (store_pairs name k st)
             in (Reply REDIS_REPLY_ARRAY 0 0 None (of_nat (length ts)) (Some (map (Some \<circ> bulk) ts)), st))
          else (status [], st)
      | [w, k, f] \<Rightarrow>
          if w = ''HGET'' then
            (case map_of st (name, k, f) of None \<Rightarrow> Reply REDIS_REPLY_NIL 0 0 None 0 None | Some v \<Rightarrow> bulk v, st)
          else if w = ''HDEL'' then (number 1, filter (\<lambda>e. fst e \<noteq> (name, k, f)) st)
          else if w = ''SET'' then (status ''OK'', ((name, k, []), f) # st)
          else if w = ''INCRBY'' then incr_store (name, k, []) f st
          else (status [], st)
      | [w, k, f, n] \<Rightarrow>
          if w = ''HINCRBY'' then incr_store (name, k, f) n st
          else if w = ''HMSET'' then (status ''OK'', ((name, k, f), n) # st)
          else (status [], st)
      | w # k # ws \<Rightarrow>
          if w = ''HMSET'' then (status ''OK'', map (\<lambda>(f, v). ((name, k, f), v)) (unpair ws) @ st)
          else (status [], st)
      | _ \<Rightarrow> (status [], st))"

definition store_server :: "string \<Rightarrow> bool \<Rightarrow> string \<Rightarrow> store \<Rightarrow> redisReply option \<times> store" where
  "store_server name selected cmd st = (case run_store name (parse_command cmd) st of (r, st) \<Rightarrow> (Some r, st))"

definition store_env :: "store cache_env" where
  "store_env = demo_env store_server"

lemma store_exec [simp]: "ce_exec store_env name True (wire_command ws) st = (case run_store name ws st of (r, st) \<Rightarrow> (Some r, st))"
  by (simp add: store_env_def demo_env_def store_server_def)

lemma strtol10_dec_int: "in64 i \<Longrightarrow> strtol10 (dec_int i) = i"
proof (cases "i < 0")
  case True
  assume i: "in64 i"
  have tw: "takeWhile is_digit (dec n) = dec n" for n by (simp add: takeWhile_eq_all_conv dec_digits)
  have "strtol10 (CHR ''-'' # dec (nat (- i))) = max (- (2 ^ 63)) (min (2 ^ 63 - 1) (- int (dec_val (takeWhile is_digit (dec (nat (- i)))))))"
    by (simp add: strtol10_def is_space_def Let_def)
  also have "\<dots> = max (- (2 ^ 63)) (min (2 ^ 63 - 1) i)" unfolding tw using True by simp
  finally show ?thesis using True i by (simp add: dec_int_def in64_def)
next
  case False
  assume "in64 i"
  with False show ?thesis using strtol10_dec [of "nat i"] by (simp add: dec_int_def nat_less_iff in64_def)
qed

lemma store_hincrby: "redis_hincrby store_env store_hash"
  unfolding redis_hincrby_def
  by (auto simp: run_store_def incr_store_def strtol10_dec_int integer_reply_def number_def put_field_def store_hash_def fun_eq_iff Let_def
      split: option.splits)

lemma store_hget: "redis_hget store_env store_hash"
  unfolding redis_hget_def by (auto simp: run_store_def store_hash_def bulk_def reply_text_def split: option.splits)

lemma find_filter_key: "map_of (filter (\<lambda>e. fst e \<noteq> x) st) y = (if x = y then None else map_of st y)"
  by (induction st) auto

lemma store_hdel: "redis_hdel store_env store_hash"
  unfolding redis_hdel_def by (auto simp: run_store_def put_field_def store_hash_def find_filter_key fun_eq_iff)

lemma store_incrby: "redis_incrby store_env store_string"
  unfolding redis_incrby_def
  by (auto simp: run_store_def incr_store_def strtol10_dec_int integer_reply_def number_def store_string_def Let_def
      split: option.splits)

lemma store_set: "redis_set store_env store_string"
  unfolding redis_set_def by (auto simp: run_store_def store_string_def status_def reply_text_def)

lemma map_of_key_list: "map_of (map (\<lambda>f. (f, g f)) xs) f = (if f \<in> set xs then Some (g f) else None)"
  by (induction xs) auto

lemma store_fields:
  "distinct (map fst (store_pairs name k st))" "map_of (store_pairs name k st) = store_hash st name k"
proof -
  let ?fs = "remdups (map (\<lambda>((n, k, f), v). f) (filter (\<lambda>((n, j, f), v). n = name \<and> j = k) st))"
  have fs: "f \<in> set ?fs \<longleftrightarrow> store_hash st name k f \<noteq> None" for f
    by (induction st) (auto simp: store_hash_def split: if_splits)
  show "distinct (map fst (store_pairs name k st))" by (simp add: store_pairs_def comp_def)
  have "map_of (store_pairs name k st) f = store_hash st name k f" for f
    using fs [of f] unfolding store_pairs_def map_of_key_list by (auto simp del: set_remdups)
  then show "map_of (store_pairs name k st) = store_hash st name k" by (rule ext)
qed

lemma length_pairs: "length (pairs fvs) = 2 * length fvs"
  by (induction fvs) (auto simp: pairs_def)

lemma unpair_pairs [simp]: "unpair (pairs fvs) = fvs"
  by (induction fvs) (auto simp: pairs_def)

lemma reply_bulk [simp]: "reply_text (bulk t) = t"
  by (simp add: reply_text_def bulk_def)

lemma store_hgetall: "redis_hgetall store_env store_hash"
  unfolding redis_hgetall_def
proof (intro allI impI)
  fix name st k
  assume card: "card (dom (store_hash st name k)) < 2 ^ 62"
  let ?fvs = "store_pairs name k st"
  let ?ts = "pairs ?fvs"
  let ?r = "Reply REDIS_REPLY_ARRAY 0 0 None (of_nat (length ?ts)) (Some (map (Some \<circ> bulk) ?ts))"
  have "length ?fvs = card (dom (store_hash st name k))"
    using store_fields [of name k st] distinct_card [of "map fst ?fvs"] by (simp flip: dom_map_of_conv_image_fst)
  with card have n: "length ?ts < 2 ^ 63" by (simp add: length_pairs)
  then have u: "unat (of_nat (length ?ts) :: 64 word) = length ?ts" by (simp add: unat_of_nat)
  have "(of_nat (length ?ts) :: 64 word) mod 2 = 0" by (simp only: word_unat_eq_iff unat_mod u) (simp add: length_pairs)
  moreover have "reply_elements ?r = Some (map bulk ?ts)"
    using u by (auto simp: reply_elements_def Let_def comp_def word_unat_eq_iff)
  moreover have "map reply_text (map bulk ?ts) = ?ts" by (simp add: comp_def)
  moreover have "ce_exec store_env name True (wire_command [''HGETALL'', k]) st = (Some ?r, st)" by (simp add: run_store_def Let_def)
  ultimately show "\<exists>r rs fvs. ce_exec store_env name True (wire_command [''HGETALL'', k]) st = (Some r, st) \<and>
       rtype r = REDIS_REPLY_ARRAY \<and> relements r mod 2 = 0 \<and> reply_elements r = Some rs \<and> map reply_text rs = pairs fvs \<and>
       distinct (map fst fvs) \<and> map_of fvs = store_hash st name k"
    using store_fields [of name k st] by (intro exI [of _ ?r] exI [of _ "map bulk ?ts"] exI [of _ ?fvs]) simp
qed

lemma store_hmset: "redis_hmset store_env store_hash"
  unfolding redis_hmset_def
proof (intro allI impI)
  fix name k :: string and st :: store and fvs :: "(string \<times> string) list"
  assume "distinct (map fst fvs)"
  have lookup: "map_of (map (\<lambda>(f, v). ((name, k, f), v)) fvs @ st) (n, j, g) =
      (if n = name \<and> j = k then (case map_of fvs g of None \<Rightarrow> map_of st (n, j, g) | Some v \<Rightarrow> Some v) else map_of st (n, j, g))" for n j g
    by (induction fvs) auto
  have run: "\<exists>r. run_store name (''HMSET'' # k # pairs fvs) st = (r, map (\<lambda>(f, v). ((name, k, f), v)) fvs @ st)"
  proof (cases fvs rule: remdups_adj.cases)
    case (3 x y xs)
    then have "pairs fvs = fst x # snd x # fst y # snd y # pairs xs" by (simp add: pairs_def case_prod_beta)
    then show ?thesis using unpair_pairs [of fvs] by (simp add: run_store_def 3 case_prod_beta del: unpair_pairs)
  qed (auto simp: run_store_def pairs_def)
  have "put_field store_hash st (map (\<lambda>(f, v). ((name, k, f), v)) fvs @ st) name k (store_hash st name k ++ map_of fvs)"
    unfolding put_field_def fun_eq_iff by (auto simp only: store_hash_def map_add_def lookup split: if_splits)
  then show "\<exists>r st'. ce_exec store_env name True (wire_command (''HMSET'' # k # pairs fvs)) st = (Some r, st') \<and>
       put_field store_hash st st' name k (store_hash st name k ++ map_of fvs)"
    using run by auto
qed

end
