(* ===== verification/Db_Unread.thy ===== *)
theory Db_Unread
  imports Db_Models Redis_Laws
begin

text \<open>
  What the counters of the database proxy promise, under the hypotheses of \<open>Redis_Laws\<close>: the
  connections of a ready pool, the cache operations on them, and the counters of unread messages.
\<close>

section \<open>Connections\<close>

definition conn_ok :: "cache_ref \<Rightarrow> ('r, 'z) caches_scheme \<Rightarrow> bool" where
  "conn_ok c s \<longleftrightarrow> connected c s \<and> cc_selected (cache_conns s c)"

definition pool_ready :: "string \<Rightarrow> ('r, 'z) caches_scheme \<Rightarrow> bool" where
  "pool_ready name s \<longleftrightarrow> (\<exists>p. cache_pools s name = Some p \<and> free_list p \<noteq> [] \<and> (\<forall>k\<in>set (free_list p). conn_ok (name, k) s))"

definition same_conns :: "('r, 'z) caches_scheme \<Rightarrow> ('r, 'z) caches_scheme \<Rightarrow> bool" where
  "same_conns s s' \<longleftrightarrow> (cache_conns s' = cache_conns s \<and> cache_pools s' = cache_pools s)"

text \<open>What an operation on Redis leaves alone.\<close>

definition only_redis :: "('r, 'q) db \<Rightarrow> ('r, 'q) db \<Rightarrow> bool" where
  "only_redis s s' \<longleftrightarrow> (sql s' = sql s \<and> db_pools s' = db_pools s)"

lemma pool_ready_fields:
  "cache_conns s' = cache_conns s \<Longrightarrow> cache_pools s' n = cache_pools s n \<Longrightarrow> pool_ready n s' = pool_ready n s"
  by (simp add: pool_ready_def conn_ok_def connected_def)

text \<open>Taking a connection of a ready pool, using it and giving it back.\<close>

lemma with_cache_ready:
  assumes ready: "pool_ready name s" "\<forall>n\<in>N. pool_ready n s"
  obtains c s1 where "fst c = name" "conn_ok c s1" "redis s1 = redis s" "only_redis s s1"
    "\<And>x s2. body c s1 = Some (x, s2) \<Longrightarrow> same_conns s1 s2 \<Longrightarrow>
      \<exists>s3. with_cache e name fail body s = Some (x, s3) \<and> (\<forall>n\<in>insert name N. pool_ready n s3) \<and> redis s3 = redis s2 \<and> only_redis s2 s3"
proof -
  obtain p k ks where p: "cache_pools s name = Some p" "free_list p = k # ks" "\<forall>k\<in>set (free_list p). conn_ok (name, k) s"
    using ready(1) by (auto simp: pool_ready_def neq_Nil_conv)
  let ?p = "p\<lparr>free_list := ks\<rparr>"
  let ?s1 = "s\<lparr>cache_pools := (cache_pools s)(name \<mapsto> ?p)\<rparr>"
  have get: "getCacheConn (cache_env.truncate e) name s = Some (Some (name, k), ?s1)"
    using p by (simp add: getCacheConn_def getPoolConn_def pop_front_def)
  show ?thesis
  proof (rule that [of "(name, k)" ?s1])
    show "fst (name, k) = name" "redis ?s1 = redis s" "only_redis s ?s1" by (simp_all add: only_redis_def)
    show "conn_ok (name, k) ?s1" using p by (simp add: conn_ok_def connected_def)
    fix x s2 assume b: "body (name, k) ?s1 = Some (x, s2)" and same: "same_conns ?s1 s2"
    let ?s3 = "relCacheConn (name, k) s2"
    have p2: "cache_pools s2 = (cache_pools s)(name \<mapsto> ?p)" "cache_conns s2 = cache_conns s"
      using same by (simp_all add: same_conns_def)
    have s3: "?s3 = s2\<lparr>cache_pools := (cache_pools s2)(name \<mapsto> relPoolConn k ?p)\<rparr>" using p2 by (simp add: relCacheConn_def)
    have "set (free_list (relPoolConn k ?p)) = insert k (set ks)" by (auto simp: relPoolConn_def)
    then have "pool_ready name ?s3" using p p2 by (auto simp: s3 pool_ready_def conn_ok_def connected_def)
    moreover have "pool_ready n ?s3" if "n \<in> N" "n \<noteq> name" for n
      using ready(2) that p2 pool_ready_fields [of ?s3 s n] by (simp add: s3)
    ultimately have "\<forall>n\<in>insert name N. pool_ready n ?s3" by blast
    moreover have "with_cache e name fail body s = Some (x, ?s3)" using get b by (simp add: with_cache_def)
    moreover have "redis ?s3 = redis s2" "only_redis s2 ?s3" by (simp_all add: s3 only_redis_def)
    ultimately show "\<exists>s3. with_cache e name fail body s = Some (x, s3) \<and> (\<forall>n\<in>insert name N. pool_ready n s3) \<and>
        redis s3 = redis s2 \<and> only_redis s2 s3" by blast
  qed
qed

lemma with_one_ready:
  assumes "pool_ready name s"
  obtains c s1 where "fst c = name" "conn_ok c s1" "redis s1 = redis s" "only_redis s s1"
    "\<And>x s2. body c s1 = Some (x, s2) \<Longrightarrow> same_conns s1 s2 \<Longrightarrow>
      \<exists>s3. with_cache e name fail body s = Some (x, s3) \<and> pool_ready name s3 \<and> redis s3 = redis s2 \<and> only_redis s2 s3"
proof (rule with_cache_ready [OF assms, of "{}" body e fail])
  fix c s1
  assume a: "fst c = name" "conn_ok c s1" "redis s1 = redis s" "only_redis s s1"
    and b: "\<And>x s2. body c s1 = Some (x, s2) \<Longrightarrow> same_conns s1 s2 \<Longrightarrow>
      \<exists>s3. with_cache e name fail body s = Some (x, s3) \<and> (\<forall>n\<in>insert name {}. pool_ready n s3) \<and> redis s3 = redis s2 \<and> only_redis s2 s3"
  show thesis by (rule that [OF a]) (drule (1) b, blast)
qed simp

section \<open>Operations on a connection\<close>

lemma ask_answered: "conn_ok c s \<Longrightarrow> ce_exec e (fst c) True (wire_command args) (redis s) = (r, st) \<Longrightarrow> ask e c args s = (r, s\<lparr>redis := st\<rparr>)"
  by (simp add: ask_def conn_ok_def)

lemma same_redis [simp]: "same_conns s (s\<lparr>redis := st\<rparr>)" "only_redis d (d\<lparr>redis := st'\<rparr>)"
  by (simp_all add: same_conns_def only_redis_def)

text \<open>Keys and fields without NUL bytes that are not too long.\<close>

definition short :: "string \<Rightarrow> bool" where
  "short k \<longleftrightarrow> NUL \<notin> set k \<and> length k \<le> 100"

lemma short_c_str [simp]: "short k \<Longrightarrow> c_str k = k"
  by (simp add: short_def c_str_no_NUL)

lemma no_NUL_digits: "NUL \<notin> set (int2string w)"
  using int2string_digits [of NUL w] by auto

lemma short_keys [simp]:
  "short (int2string w)" "short (unread_key w)" "short (msg_id_key w)" "short (group_msg_id_key w)" "short (group_key w)"
  "short (user_group_key v w)" "short (group_member_key w)" "short ''count''" "short ''0''"
  using length_int2string [of w] length_int2string [of v] no_NUL_digits
  by (simp_all add: short_def unread_key_def msg_id_key_def group_msg_id_key_def group_key_def user_group_key_def group_member_key_def)

lemma cache_hget_ok:
  assumes e: "libc_ok e" "redis_hget e H" and c: "conn_ok c s" and k: "short k" "short f"
  shows "cache_hget e c k f s = Some (case H (redis s) (fst c) k f of None \<Rightarrow> [] | Some v \<Rightarrow> v, s)"
proof -
  obtain r where r: "ce_exec e (fst c) True (wire_command [''HGET'', k, f]) (redis s) = (Some r, redis s)"
    "case H (redis s) (fst c) k f of None \<Rightarrow> rtype r = REDIS_REPLY_NIL | Some v \<Rightarrow> rtype r = REDIS_REPLY_STRING \<and> reply_text r = v"
    using e(2) unfolding redis_hget_def by meson
  have con: "connected c s" using c by (simp add: conn_ok_def)
  have "small [''HGET'', c_str k, c_str f]" using k by (intro small_words) (simp_all add: short_def c_str_no_NUL)
  from hget_rule [OF e(1) con this] ask_answered [OF c r(1)]
  have "redis_command e c ''HGET %s %s'' [VStr k, VStr f] s = Some (Some r, s)" using k by simp
  then show ?thesis using r(2)
    by (auto simp: cache_hget_def cache_op_connected [OF con] REDIS_REPLY_NIL_def REDIS_REPLY_STRING_def split: option.splits)
qed

lemma cache_hdel_ok:
  assumes e: "libc_ok e" "redis_hdel e H" and c: "conn_ok c s" and k: "short k" "short f"
  shows "\<exists>i st. cache_hdel e c k f s = Some (i, s\<lparr>redis := st\<rparr>) \<and>
    put_field H (redis s) st (fst c) k ((H (redis s) (fst c) k)(f := None))"
proof -
  obtain r st where r: "ce_exec e (fst c) True (wire_command [''HDEL'', k, f]) (redis s) = (Some r, st)"
    "put_field H (redis s) st (fst c) k ((H (redis s) (fst c) k)(f := None))"
    using e(2) unfolding redis_hdel_def by meson
  have con: "connected c s" using c by (simp add: conn_ok_def)
  have "small [''HDEL'', c_str k, c_str f]" using k by (intro small_words) (simp_all add: short_def c_str_no_NUL)
  from hdel_rule [OF e(1) con this] ask_answered [OF c r(1)]
  have "redis_command e c ''HDEL %s %s'' [VStr k, VStr f] s = Some (Some r, s\<lparr>redis := st\<rparr>)" using k by simp
  with r(2) show ?thesis by (auto simp: cache_hdel_def cache_op_connected [OF con])
qed

lemma cache_hincrBy_ok:
  assumes e: "libc_ok e" "redis_hincrby e H" and c: "conn_ok c s" and k: "short k" "short f"
    and i: "H (redis s) (fst c) k f = Some (dec_int i) \<or> H (redis s) (fst c) k f = None \<and> i = 0"
    and bound: "in64 i" "in64 (i + sint n)"
  shows "\<exists>st. cache_hincrBy e c k f n s = Some (word_of_int (i + sint n), s\<lparr>redis := st\<rparr>) \<and>
    put_field H (redis s) st (fst c) k ((H (redis s) (fst c) k)(f \<mapsto> dec_int (i + sint n)))"
proof -
  obtain r st where r: "ce_exec e (fst c) True (wire_command [''HINCRBY'', k, f, dec_int (sint n)]) (redis s) = (Some r, st)"
    "integer_reply r (i + sint n)"
    "put_field H (redis s) st (fst c) k ((H (redis s) (fst c) k)(f \<mapsto> dec_int (i + sint n)))"
    using e(2) [unfolded redis_hincrby_def, rule_format, OF i bound(1) in64_sint bound(2)] by blast
  have con: "connected c s" using c by (simp add: conn_ok_def)
  have "small [''HINCRBY'', c_str k, c_str f, dec_int (sint n)]"
    using k length_dec_int_word [of n] by (intro small_words) (simp_all add: short_def c_str_no_NUL)
  from hincrBy_rule [OF e(1) con this] ask_answered [OF c r(1)]
  have "redis_command e c ''HINCRBY %s %s %ld'' [VStr k, VStr f, VLong n] s = Some (Some r, s\<lparr>redis := st\<rparr>)" using k by simp
  with r(2,3) show ?thesis by (auto simp: cache_hincrBy_def cache_op_connected [OF con] integer_reply_def)
qed

lemma pair_up_pairs:
  assumes "map_ok m" "distinct (map fst fvs)" "fst ` set fvs \<inter> fst ` set m = {}"
  shows "map reply_text rs = pairs fvs \<Longrightarrow> map_ok (pair_up rs m) \<and> set (pair_up rs m) = set fvs \<union> set m"
  using assms
proof (induction fvs arbitrary: rs m)
  case (Cons fv fvs)
  obtain f v where fv: "fv = (f, v)" by (cases fv)
  with Cons.prems(1) obtain r1 r2 rs' where rs: "rs = r1 # r2 # rs'" "reply_text r1 = f" "reply_text r2 = v" "map reply_text rs' = pairs fvs"
    by (auto simp: pairs_def)
  have new: "map_find m f = None" using Cons.prems(4) by (auto simp: fv map_of_eq_None_iff)
  then have put: "map_insert f v m = map_put f v m" by (simp add: map_insert_def)
  have set: "set (map_put f v m) = insert (f, v) (set m)"
    using set_map_put [OF Cons.prems(2), of f v] new by (auto simp: map_of_eq_None_iff)
  have "fst ` set fvs \<inter> fst ` set (map_put f v m) = {}" using Cons.prems(3,4) unfolding set by (auto simp: fv)
  from Cons.IH [OF rs(4) map_put_ok [OF Cons.prems(2)] _ this] Cons.prems(3) show ?case
    unfolding rs(1) pair_up.simps rs(2,3) put set by (auto simp: fv)
qed (auto simp: pairs_def)

lemma map_of_set_distinct: "distinct (map fst fvs) \<Longrightarrow> set fvs = {(f, v). map_of fvs f = Some v}"
  by auto

text \<open>The map that \<open>hgetAll\<close> returns, and its map when the hash has the given fields.\<close>

lemma cache_hgetAll_ok:
  assumes e: "libc_ok e" "redis_hgetall e H" and c: "conn_ok c s" and k: "short k"
    and fin: "finite (dom (H (redis s) (fst c) k))" "card (dom (H (redis s) (fst c) k)) < 2 ^ 62"
  shows "\<exists>m. cache_hgetAll e c k s = Some ((True, m), s) \<and> map_ok m \<and> map_find m = H (redis s) (fst c) k"
proof -
  obtain r rs fvs where r: "ce_exec e (fst c) True (wire_command [''HGETALL'', k]) (redis s) = (Some r, redis s)"
    "rtype r = REDIS_REPLY_ARRAY" "relements r mod 2 = 0" "reply_elements r = Some rs" "map reply_text rs = pairs fvs"
    "distinct (map fst fvs)" "map_of fvs = H (redis s) (fst c) k"
    using e(2) [unfolded redis_hgetall_def, rule_format, OF fin(2,1)] by (elim exE conjE) (rule that)
  have con: "connected c s" using c by (simp add: conn_ok_def)
  have "small [''HGETALL'', c_str k]" using k by (intro small_words) (simp_all add: short_def c_str_no_NUL)
  from hgetAll_rule [OF e(1) con this] ask_answered [OF c r(1)]
  have "redis_command e c ''HGETALL %s'' [VStr k] s = Some (Some r, s)" using k by simp
  then have get: "cache_hgetAll e c k s = Some ((True, pair_up rs []), s)"
    using r by (simp add: cache_hgetAll_def cache_op_connected [OF con])
  have m: "map_ok (pair_up rs [])" "set (pair_up rs []) = set fvs"
    using pair_up_pairs [OF _ r(6) _ r(5), of "[]"] by auto
  have "map_find (pair_up rs []) f = Some v \<longleftrightarrow> map_of fvs f = Some v" for f v
    using smap.find_entries [OF m(1), of f v] r(6) by (simp add: m(2))
  then have "map_find (pair_up rs []) = map_of fvs" by (metis ext option.exhaust)
  with get m(1) r(7) show ?thesis by auto
qed

lemma cache_hmset_ok:
  assumes e: "libc_ok e" "redis_hmset e H" and c: "conn_ok c s" and k: "short k" and m: "map_ok m"
    and plain: "\<forall>(f, v)\<in>set m. NUL \<notin> set f \<and> NUL \<notin> set v" and small: "small (''HMSET'' # k # pairs m)"
  shows "\<exists>r st. cache_hmset e c k m s = Some (r, s\<lparr>redis := st\<rparr>) \<and>
    put_field H (redis s) st (fst c) k (H (redis s) (fst c) k ++ map_find m)"
proof -
  have "distinct (map fst m)" using m by (simp add: map_ok_def)
  then obtain r st where r: "ce_exec e (fst c) True (wire_command (''HMSET'' # k # pairs m)) (redis s) = (Some r, st)"
    "put_field H (redis s) st (fst c) k (H (redis s) (fst c) k ++ map_find m)"
    using e(2) unfolding redis_hmset_def by meson
  have con: "connected c s" using c by (simp add: conn_ok_def)
  have "map c_str (pairs m) = pairs m" using plain
    by (induction m) (auto simp: pairs_def c_str_no_NUL)
  moreover have "c_str ''HMSET'' = ''HMSET''" by (simp add: c_str_def)
  ultimately have words: "map c_str (''HMSET'' # k # pairs m) = ''HMSET'' # k # pairs m"
    using k by simp
  have "redis_commandv e c (''HMSET'' # k # pairs m) s = Some (Some r, s\<lparr>redis := st\<rparr>)"
    using send_argv [OF e(1) con, of "''HMSET'' # k # pairs m"] small ask_answered [OF c r(1)] unfolding words by simp
  with r(2) show ?thesis
    unfolding cache_hmset_def pairs_def [symmetric] by (auto simp: cache_op_connected [OF con])
qed

section \<open>Unread messages of single chats\<close>

text \<open>The abstract state: how many messages from one user another has not read.\<close>

type_synonym unread = "u32 \<Rightarrow> u32 \<Rightarrow> nat"

datatype unread_op = Sent u32 u32 | Read u32 u32

fun unread_step :: "unread_op \<Rightarrow> unread \<Rightarrow> unread" where
  "unread_step (Sent from to) u = u(to := (u to)(from := u to from + 1))"
| "unread_step (Read from to) u = u(to := (u to)(from := 0))"

definition unread_view :: "'r hash_view \<Rightarrow> 'r \<Rightarrow> unread \<Rightarrow> bool" where
  "unread_view H st u \<longleftrightarrow> (\<forall>to f. H st ''unread'' (unread_key to) f =
     (if f = int2string (string2int f) \<and> 0 < u to (string2int f) then Some (dec (u to (string2int f))) else None))"

definition unread_laws :: "('r, 'q) db_env \<Rightarrow> 'r hash_view \<Rightarrow> bool" where
  "unread_laws e H \<longleftrightarrow> (let e = cache_env.truncate e in
     libc_ok e \<and> redis_hincrby e H \<and> redis_hdel e H \<and> redis_hgetall e H)"

text \<open>The code: a message counts for its receiver, a read acknowledgement clears the counter.\<close>

fun unread_run :: "('r, 'q) db_env \<Rightarrow> unread_op list \<Rightarrow> ('r, 'q) db \<Rightarrow> ('r, 'q) db option" where
  "unread_run e [] s = Some s"
| "unread_run e (Sent from to # ops) s = do { (_, s) \<leftarrow> incMsgCount e from to s; unread_run e ops s }"
| "unread_run e (Read from to # ops) s = do { (_, s) \<leftarrow> clearUserCounter e to from SESSION_SINGLE s; unread_run e ops s }"

lemma dec_int_of_nat [simp]: "dec_int (int n) = dec n"
  by (simp add: dec_int_def)

lemma unread_key_inject [simp]: "unread_key v = unread_key w \<longleftrightarrow> v = w"
  by (simp add: unread_key_def)

lemma unread_view_put:
  assumes "unread_view H st u" "put_field H st st' ''unread'' (unread_key to) ((H st ''unread'' (unread_key to))(int2string from := v))"
    "v = (if 0 < n then Some (dec n) else None)"
  shows "unread_view H st' (u(to := (u to)(from := n)))"
  unfolding unread_view_def
proof (intro allI)
  fix t f
  show "H st' ''unread'' (unread_key t) f =
    (if f = int2string (string2int f) \<and> 0 < (u(to := (u to)(from := n))) t (string2int f)
     then Some (dec ((u(to := (u to)(from := n))) t (string2int f))) else None)"
    using assms unfolding unread_view_def put_field_def by (cases "t = to"; cases "f = int2string from") auto
qed

lemma incMsgCount_ok:
  assumes e: "unread_laws e H" and s: "pool_ready ''unread'' s" "unread_view H (redis s) u" and n: "u to from + 1 < 2 ^ 63"
  shows "\<exists>s'. incMsgCount e from to s = Some ((), s') \<and> pool_ready ''unread'' s' \<and>
    unread_view H (redis s') (u(to := (u to)(from := u to from + 1))) \<and> only_redis s s'"
proof -
  have l: "libc_ok (cache_env.truncate e)" "redis_hincrby (cache_env.truncate e) H" using e by (simp_all add: unread_laws_def Let_def)
  let ?body = "\<lambda>c s. do { (_, s) \<leftarrow> cache_hincrBy (cache_env.truncate e) c (unread_key to) (int2string from) 1 s; Some ((), s) }"
  obtain c s1 where c: "fst c = ''unread''" "conn_ok c s1" "redis s1 = redis s" "only_redis s s1"
    and run: "\<And>x s2. ?body c s1 = Some (x, s2) \<Longrightarrow> same_conns s1 s2 \<Longrightarrow>
      \<exists>s3. with_cache e ''unread'' () ?body s = Some (x, s3) \<and> pool_ready ''unread'' s3 \<and> redis s3 = redis s2 \<and> only_redis s2 s3"
    by (rule with_one_ready [OF s(1), of ?body e "()"]) (rule that)
  have v: "H (redis s1) (fst c) (unread_key to) (int2string from) = Some (dec_int (int (u to from))) \<or>
      H (redis s1) (fst c) (unread_key to) (int2string from) = None \<and> int (u to from) = 0"
    using s(2) by (simp add: c unread_view_def)
  have b: "in64 (int (u to from))" "in64 (int (u to from) + sint (1 :: i64))" using n by (simp_all add: in64_def)
  from cache_hincrBy_ok [OF l c(2) _ _ v b] obtain st where st:
    "cache_hincrBy (cache_env.truncate e) c (unread_key to) (int2string from) 1 s1 = Some (word_of_int (int (u to from) + sint (1 :: i64)), s1\<lparr>redis := st\<rparr>)"
    "put_field H (redis s) st ''unread'' (unread_key to) ((H (redis s) ''unread'' (unread_key to))(int2string from \<mapsto> dec_int (int (u to from) + sint (1 :: i64))))"
    by (auto simp: c)
  have "dec_int (int (u to from) + sint (1 :: i64)) = dec (u to from + 1)" using dec_int_of_nat [of "u to from + 1"] by (simp add: add.commute)
  with st(2) have view: "unread_view H st (u(to := (u to)(from := u to from + 1)))"
    by (intro unread_view_put [OF s(2)]) simp_all
  have "?body c s1 = Some ((), s1\<lparr>redis := st\<rparr>)" using st(1) by simp
  from run [OF this same_redis(1)] view c(4) show ?thesis by (auto simp: incMsgCount_def only_redis_def)
qed

lemma clearUserCounter_ok:
  assumes e: "unread_laws e H" and s: "pool_ready ''unread'' s" "unread_view H (redis s) u"
  shows "\<exists>s'. clearUserCounter e to from SESSION_SINGLE s = Some ((), s') \<and> pool_ready ''unread'' s' \<and>
    unread_view H (redis s') (u(to := (u to)(from := 0))) \<and> only_redis s s'"
proof -
  have l: "libc_ok (cache_env.truncate e)" "redis_hdel (cache_env.truncate e) H" using e by (simp_all add: unread_laws_def Let_def)
  let ?body = "\<lambda>c s. do { (_, s) \<leftarrow> cache_hdel (cache_env.truncate e) c (unread_key to) (int2string from) s; Some ((), s) }"
  obtain c s1 where c: "fst c = ''unread''" "conn_ok c s1" "redis s1 = redis s" "only_redis s s1"
    and run: "\<And>x s2. ?body c s1 = Some (x, s2) \<Longrightarrow> same_conns s1 s2 \<Longrightarrow>
      \<exists>s3. with_cache e ''unread'' () ?body s = Some (x, s3) \<and> pool_ready ''unread'' s3 \<and> redis s3 = redis s2 \<and> only_redis s2 s3"
    by (rule with_one_ready [OF s(1), of ?body e "()"]) (rule that)
  from cache_hdel_ok [OF l c(2), of "unread_key to" "int2string from"] obtain i st where st:
    "cache_hdel (cache_env.truncate e) c (unread_key to) (int2string from) s1 = Some (i, s1\<lparr>redis := st\<rparr>)"
    "put_field H (redis s) st ''unread'' (unread_key to) ((H (redis s) ''unread'' (unread_key to))(int2string from := None))"
    by (auto simp: c)
  have view: "unread_view H st (u(to := (u to)(from := 0)))"
    by (rule unread_view_put [OF s(2) st(2)]) simp
  have "?body c s1 = Some ((), s1\<lparr>redis := st\<rparr>)" using st(1) by simp
  from run [OF this same_redis(1)] view c(4) show ?thesis by (auto simp: clearUserCounter_def SessionType_IsValid_def only_redis_def)
qed

lemma unread_run_ok:
  assumes e: "unread_laws e H"
  shows "pool_ready ''unread'' s \<Longrightarrow> unread_view H (redis s) u \<Longrightarrow> \<forall>t f. u t f + length ops < 2 ^ 63 \<Longrightarrow>
    \<exists>s'. unread_run e ops s = Some s' \<and> pool_ready ''unread'' s' \<and> unread_view H (redis s') (fold unread_step ops u) \<and> only_redis s s'"
proof (induction ops arbitrary: s u)
  case (Cons op ops)
  have "\<forall>t f. unread_step op u t f + length ops < 2 ^ 63"
  proof (intro allI)
    fix t f
    show "unread_step op u t f + length ops < 2 ^ 63" using Cons.prems(3) [rule_format, of t f] by (cases op) auto
  qed
  note IH = Cons.IH [OF _ _ this]
  have "\<exists>s1. unread_run e (op # ops) s = unread_run e ops s1 \<and> pool_ready ''unread'' s1 \<and>
      unread_view H (redis s1) (unread_step op u) \<and> only_redis s s1"
  proof (cases op)
    case (Sent f t)
    have "u t f + 1 < 2 ^ 63" using Cons.prems(3) [rule_format, of t f] by simp
    from incMsgCount_ok [OF e Cons.prems(1,2) this] show ?thesis by (auto simp: Sent)
  next
    case (Read f t)
    from clearUserCounter_ok [OF e Cons.prems(1,2), of t f] show ?thesis by (auto simp: Read)
  qed
  then obtain s1 where s1: "unread_run e (op # ops) s = unread_run e ops s1" "pool_ready ''unread'' s1"
    "unread_view H (redis s1) (unread_step op u)" "only_redis s s1" by blast
  from IH [OF s1(2,3)] s1(1,4) show ?case by (auto simp: only_redis_def)
qed (simp add: only_redis_def)

lemma atoi_dec: "n < 2 ^ 63 \<Longrightarrow> atoi (dec n) = of_nat n"
  by (simp add: atoi_def strtol10_dec)

lemma unread_fields:
  assumes "unread_view H st u"
  shows "dom (H st ''unread'' (unread_key to)) = int2string ` {f. 0 < u to f}"
    "finite (dom (H st ''unread'' (unread_key to)))" "card (dom (H st ''unread'' (unread_key to))) < 2 ^ 62"
proof -
  show dom: "dom (H st ''unread'' (unread_key to)) = int2string ` {f. 0 < u to f}"
    using assms by (force simp: unread_view_def dom_def image_iff split: if_splits)
  have "card {f. 0 < u to f} \<le> card (UNIV :: u32 set)" by (rule card_mono) simp_all
  also have "\<dots> = 2 ^ 32" by (simp add: card_word)
  finally have c: "card {f. 0 < u to f} \<le> 2 ^ 32" .
  have "card (int2string ` {f. 0 < u to f}) \<le> card {f. 0 < u to f}" by (rule card_image_le) simp
  with c show "card (dom (H st ''unread'' (unread_key to))) < 2 ^ 62" unfolding dom by simp
  show "finite (dom (H st ''unread'' (unread_key to)))" unfolding dom by simp
qed

lemma if_Some: "(if P then Some a else None) = Some v \<longleftrightarrow> P \<and> v = a"
  by auto

lemma unread_sum:
  assumes view: "unread_view H st u" and m: "map_ok m" "map_find m = H st ''unread'' (unread_key to)" and small: "\<forall>f. u to f < 2 ^ 63"
  shows "sum_list (map (atoi \<circ> snd) m) = of_nat (\<Sum>f\<in>UNIV. u to f)"
proof -
  let ?e = "\<lambda>f. (int2string f, dec (u to f))"
  have keys: "distinct (map fst m)" using m(1) by (simp add: map_ok_def)
  have set: "set m = ?e ` {f. 0 < u to f}"
  proof (intro equalityI subsetI)
    fix x assume x: "x \<in> set m"
    obtain k v where kv: "x = (k, v)" by (cases x)
    with x have "H st ''unread'' (unread_key to) k = Some v" using keys m(2) by (metis Some_eq_map_of_iff)
    then have "k = int2string (string2int k) \<and> 0 < u to (string2int k) \<and> v = dec (u to (string2int k))"
      unfolding view [unfolded unread_view_def, rule_format, of to k] if_Some by blast
    then obtain f where "k = int2string f" "0 < u to f" "v = dec (u to f)" by blast
    then show "x \<in> ?e ` {f. 0 < u to f}" unfolding kv by blast
  next
    fix x assume "x \<in> ?e ` {f. 0 < u to f}"
    then obtain f where x: "x = ?e f" "0 < u to f" by auto
    then have "map_find m (int2string f) = Some (dec (u to f))" using view by (simp add: m(2) unread_view_def)
    from map_of_SomeD [OF this] show "x \<in> set m" by (simp add: x(1))
  qed
  have "distinct m" using keys by (simp add: distinct_map)
  then have "sum_list (map (atoi \<circ> snd) m) = (\<Sum>x\<in>set m. (atoi \<circ> snd) x)" by (rule sum_list_distinct_conv_sum_set)
  also have "\<dots> = (\<Sum>f\<in>{f. 0 < u to f}. atoi (dec (u to f)))"
    unfolding set by (subst sum.reindex) (auto simp: inj_on_def)
  also have "\<dots> = (\<Sum>f\<in>{f. 0 < u to f}. of_nat (u to f))" using small by (simp add: atoi_dec)
  also have "\<dots> = (\<Sum>f\<in>UNIV. of_nat (u to f))" by (rule sum.mono_neutral_left) (simp_all only: finite subset_UNIV ball_simps, auto)
  finally show ?thesis by (simp only: of_nat_sum)
qed

lemma getUnReadCntAll_ok:
  assumes e: "unread_laws e H" and s: "pool_ready ''unread'' s" "unread_view H (redis s) u" and small: "\<forall>f. u to f < 2 ^ 63"
  shows "\<exists>s'. getUnReadCntAll e to n s = Some (n + of_nat (\<Sum>f\<in>UNIV. u to f), s') \<and> pool_ready ''unread'' s' \<and>
    unread_view H (redis s') u \<and> only_redis s s'"
proof -
  have l: "libc_ok (cache_env.truncate e)" "redis_hgetall (cache_env.truncate e) H" using e by (simp_all add: unread_laws_def Let_def)
  let ?body = "\<lambda>c s. do { ((ok, m), s) \<leftarrow> cache_hgetAll (cache_env.truncate e) c (unread_key to) s;
     Some (if ok then n + sum_list (map (atoi \<circ> snd) m) else n, s) }"
  obtain c s1 where c: "fst c = ''unread''" "conn_ok c s1" "redis s1 = redis s" "only_redis s s1"
    and run: "\<And>x s2. ?body c s1 = Some (x, s2) \<Longrightarrow> same_conns s1 s2 \<Longrightarrow>
      \<exists>s3. with_cache e ''unread'' n ?body s = Some (x, s3) \<and> pool_ready ''unread'' s3 \<and> redis s3 = redis s2 \<and> only_redis s2 s3"
    by (rule with_one_ready [OF s(1), of ?body e n]) (rule that)
  have "unread_view H (redis s1) u" using s(2) c(3) by simp
  note fields = unread_fields [OF this, of to]
  obtain m where m: "cache_hgetAll (cache_env.truncate e) c (unread_key to) s1 = Some ((True, m), s1)"
    "map_ok m" "map_find m = H (redis s) ''unread'' (unread_key to)"
    using cache_hgetAll_ok [OF l c(2) short_keys(2), unfolded c(1), OF fields(2,3)] unfolding c(3) by blast
  define t where "t = n + of_nat (\<Sum>f\<in>UNIV. u to f)"
  have "sum_list (map (atoi \<circ> snd) m) = of_nat (\<Sum>f\<in>UNIV. u to f)" by (rule unread_sum [where u = u and H = H, OF s(2) m(2,3) small])
  then have t: "n + sum_list (map (atoi \<circ> snd) m) = t" by (simp only: t_def)
  have "?body c s1 = Some (n + sum_list (map (atoi \<circ> snd) m), s1)" by (simp add: m(1))
  then have "?body c s1 = Some (t, s1)" unfolding t .
  from run [OF this] obtain s3 where "getUnReadCntAll e to n s = Some (t, s3)" "pool_ready ''unread'' s3" "redis s3 = redis s1" "only_redis s1 s3"
    unfolding getUnReadCntAll_def same_conns_def by blast
  with s(2) c(3,4) show ?thesis unfolding t_def [symmetric] by (auto simp only: only_redis_def)
qed

text \<open>C25: The counters of unread messages in Redis implement one number per pair of users: after any
  sequence of single messages and read acknowledgements, the total that \<open>getUnReadCntAll\<close> adds for a
  user is the sum of the messages sent to them since the last acknowledgement of each sender, cut
  to 32 bits, and nothing but Redis has changed.\<close>

theorem unread_counts_refine:
  assumes "unread_laws e H" "pool_ready ''unread'' s" "unread_view H (redis s) u" "\<forall>t f. u t f + length ops < 2 ^ 63"
  shows "\<exists>s' s''. unread_run e ops s = Some s' \<and> only_redis s s' \<and>
    unread_view H (redis s') (fold unread_step ops u) \<and>
    getUnReadCntAll e to n s' = Some (n + of_nat (\<Sum>f\<in>UNIV. fold unread_step ops u to f), s'') \<and>
    unread_view H (redis s'') (fold unread_step ops u)"
proof -
  obtain s' where s': "unread_run e ops s = Some s'" "pool_ready ''unread'' s'" "unread_view H (redis s') (fold unread_step ops u)"
    "only_redis s s'" using unread_run_ok [OF assms] by blast
  have "u t f + length ops < 2 ^ 63 \<Longrightarrow> fold unread_step ops u t f \<le> u t f + length ops" for t f
  proof (induction ops arbitrary: u)
    case (Cons op ops)
    have "unread_step op u t f \<le> u t f + 1" by (cases op) auto
    with Cons.prems Cons.IH [of "unread_step op u"] show ?case by simp
  qed simp
  then have "\<forall>f. fold unread_step ops u to f < 2 ^ 63" using assms(4) by (meson le_less_trans)
  from getUnReadCntAll_ok [OF assms(1) s'(2,3) this] s' show ?thesis by blast
qed

text \<open>The proxy on the small Redis, with one connection in each pool and a given database.\<close>

definition store_db_env :: "(string \<Rightarrow> string \<Rightarrow> 'q \<Rightarrow> result_set option \<times> 'q) \<Rightarrow> (store, 'q) db_env" where
  "store_db_env q = cache_env.extend store_env
     \<lparr>de_connect = \<lambda>_ _. True, de_query = q, de_update = \<lambda>_ _ st. (Some 1, st),
      de_stmt = \<lambda>_ _ _ st. (Executed 1 7, st), de_audio_enc = [], de_download = \<lambda>_ _. None\<rparr>"

definition store_db :: "store \<Rightarrow> 'q \<Rightarrow> (store, 'q) db" where
  "store_db st q = \<lparr>redis = st, cache_conns = \<lambda>_. \<lparr>cc_context = Connected, cc_selected = True, cc_last_connect = 0\<rparr>,
     cache_pools = \<lambda>_. Some \<lparr>free_list = [0], cur_conn_cnt = 1, max_conn_cnt = 1, next_id = 1\<rparr>, sql = q,
     db_pools = \<lambda>_. Some \<lparr>free_list = [0], cur_conn_cnt = 1, max_conn_cnt = 1, next_id = 1\<rparr>\<rparr>"

lemma truncate_store_env [simp]: "cache_env.truncate (store_db_env q) = store_env"
  by (simp add: cache_env.defs store_db_env_def)

lemma store_libc [simp]: "libc_ok store_env"
  by (simp add: store_env_def)

lemma store_ready [simp]: "pool_ready n (store_db st q)"
  by (simp add: pool_ready_def conn_ok_def connected_def store_db_def)

lemma redis_store_db [simp]: "redis (store_db st q) = st"
  by (simp add: store_db_def)

lemma store_unread_laws: "unread_laws (store_db_env q) store_hash"
  by (simp add: unread_laws_def store_hincrby store_hdel store_hgetall)

lemma unread_counts_refine_witness:
  "\<exists>s' s''. unread_run (store_db_env (\<lambda>_ _ q. (None, q))) [Sent 5 9, Sent 6 9, Sent 5 9, Read 6 9] (store_db [] ()) = Some s' \<and>
    only_redis (store_db [] ()) s' \<and>
    unread_view store_hash (redis s') (fold unread_step [Sent 5 9, Sent 6 9, Sent 5 9, Read 6 9] (\<lambda>_ _. 0)) \<and>
    getUnReadCntAll (store_db_env (\<lambda>_ _ q. (None, q))) 9 0 s'
      = Some (0 + of_nat (\<Sum>f\<in>UNIV. fold unread_step [Sent 5 9, Sent 6 9, Sent 5 9, Read 6 9] (\<lambda>_ _. 0) 9 f), s'') \<and>
    unread_view store_hash (redis s'') (fold unread_step [Sent 5 9, Sent 6 9, Sent 5 9, Read 6 9] (\<lambda>_ _. 0))"
  by (rule unread_counts_refine [OF store_unread_laws store_ready])
    (simp_all add: unread_view_def store_hash_def store_db_def)

end
