(* ===== verification/Db_Counters.thy ===== *)
theory Db_Counters
  imports Db_Unread
begin

text \<open>
  The message numbers and the counters of group chats: what \<open>getMsgId\<close>, \<open>resetMsgId\<close>, \<open>incMessageCount\<close>,
  \<open>clearMessageCount\<close>, \<open>clearUserCounter\<close> and \<open>getUnReadCntAll\<close> of the data access objects do, under the
  hypotheses of \<open>Redis_Laws\<close>.
\<close>

section \<open>Strings in Redis\<close>

lemma cache_set_ok:
  assumes e: "libc_ok e" "redis_set e V" and c: "conn_ok c s" and k: "short k" "short v"
  shows "\<exists>st. cache_set e c k v s = Some (''OK'', s\<lparr>redis := st\<rparr>) \<and>
    (\<forall>n j. V st n j = (if n = fst c \<and> j = k then Some v else V (redis s) n j))"
proof -
  obtain r st where r: "ce_exec e (fst c) True (wire_command [''SET'', k, v]) (redis s) = (Some r, st)" "reply_text r = ''OK''"
    "\<forall>n j. V st n j = (if n = fst c \<and> j = k then Some v else V (redis s) n j)"
    using e(2) unfolding redis_set_def by meson
  have con: "connected c s" using c by (simp add: conn_ok_def)
  have "small [''SET'', c_str k, c_str v]" using k by (intro small_words) (simp_all add: short_def c_str_no_NUL)
  from set_rule [OF e(1) con this] ask_answered [OF c r(1)]
  have "redis_command e c ''SET %s %s'' [VStr k, VStr v] s = Some (Some r, s\<lparr>redis := st\<rparr>)" using k by simp
  with r(2,3) show ?thesis by (auto simp: cache_set_def cache_op_connected [OF con])
qed

lemma cache_incrBy_ok:
  assumes e: "libc_ok e" "redis_incrby e V" and c: "conn_ok c s" and k: "short k"
    and i: "V (redis s) (fst c) k = Some (dec_int i) \<or> V (redis s) (fst c) k = None \<and> i = 0"
    and bound: "in64 i" "in64 (i + sint n)"
  shows "\<exists>st. cache_incrBy e c k n s = Some (word_of_int (i + sint n), s\<lparr>redis := st\<rparr>) \<and>
    (\<forall>m j. V st m j = (if m = fst c \<and> j = k then Some (dec_int (i + sint n)) else V (redis s) m j))"
proof -
  obtain r st where r: "ce_exec e (fst c) True (wire_command [''INCRBY'', k, dec_int (sint n)]) (redis s) = (Some r, st)"
    "integer_reply r (i + sint n)"
    "\<forall>m j. V st m j = (if m = fst c \<and> j = k then Some (dec_int (i + sint n)) else V (redis s) m j)"
    using e(2) [unfolded redis_incrby_def, rule_format, OF i bound(1) in64_sint bound(2)] by blast
  have con: "connected c s" using c by (simp add: conn_ok_def)
  have "small [''INCRBY'', c_str k, dec_int (sint n)]"
    using k length_dec_int_word [of n] by (intro small_words) (simp_all add: short_def c_str_no_NUL)
  from incrBy_rule [OF e(1) con this] ask_answered [OF c r(1)]
  have "redis_command e c ''INCRBY %s %ld'' [VStr k, VLong n] s = Some (Some r, s\<lparr>redis := st\<rparr>)" using k by simp
  with r(2,3) show ?thesis by (auto simp: cache_incrBy_def cache_op_connected [OF con] integer_reply_def)
qed

section \<open>Message numbers\<close>

lemma reset_id_ok:
  assumes e: "libc_ok (cache_env.truncate e)" "redis_set (cache_env.truncate e) V" and s: "pool_ready ''unread'' s" and k: "short k"
  shows "\<exists>s'. reset_id e k s = Some (False, s') \<and> pool_ready ''unread'' s' \<and> only_redis s s' \<and>
    (\<forall>n j. V (redis s') n j = (if n = ''unread'' \<and> j = k then Some ''0'' else V (redis s) n j))"
proof -
  let ?body = "\<lambda>c s. do { (reply, s) \<leftarrow> cache_set (cache_env.truncate e) c k ''0'' s; Some (reply = ''0'', s) }"
  obtain c s1 where c: "fst c = ''unread''" "conn_ok c s1" "redis s1 = redis s" "only_redis s s1"
    and run: "\<And>x s2. ?body c s1 = Some (x, s2) \<Longrightarrow> same_conns s1 s2 \<Longrightarrow>
      \<exists>s3. with_cache e ''unread'' False ?body s = Some (x, s3) \<and> pool_ready ''unread'' s3 \<and> redis s3 = redis s2 \<and> only_redis s2 s3"
    by (rule with_one_ready [OF s(1), of ?body e False]) (rule that)
  obtain st where st: "cache_set (cache_env.truncate e) c k ''0'' s1 = Some (''OK'', s1\<lparr>redis := st\<rparr>)"
    "\<forall>n j. V st n j = (if n = ''unread'' \<and> j = k then Some ''0'' else V (redis s) n j)"
    using cache_set_ok [OF e c(2) k short_keys(9)] unfolding c(1,3) by blast
  have "?body c s1 = Some (False, s1\<lparr>redis := st\<rparr>)" using st(1) by simp
  from run [OF this same_redis(1)] st(2) c(4) show ?thesis by (auto simp: reset_id_def only_redis_def)
qed

text \<open>Resetting the message number of a relation or a group sets its counter in Redis to 0 and reports
  failure: the reply of \<open>SET\<close> is compared with the value that was set, and the reply is \<open>OK\<close>.\<close>

theorem reset_reports_failure:
  assumes "libc_ok (cache_env.truncate e)" "redis_set (cache_env.truncate e) V" "pool_ready ''unread'' s"
  shows "(\<exists>s'. resetMsgId e r s = Some (False, s') \<and> V (redis s') ''unread'' (msg_id_key r) = Some ''0'') \<and>
    (\<exists>s'. group_resetMsgId e r s = Some (False, s') \<and> V (redis s') ''unread'' (group_msg_id_key r) = Some ''0'')"
  using reset_id_ok [OF assms short_keys(3) [of r]] reset_id_ok [OF assms short_keys(4) [of r]]
  unfolding resetMsgId_def group_resetMsgId_def by fastforce

lemma reset_reports_failure_witness:
  "(\<exists>s'. resetMsgId (store_db_env (\<lambda>_ _ q. (None, q))) 3 (store_db [] ()) = Some (False, s') \<and>
      store_string (redis s') ''unread'' (msg_id_key 3) = Some ''0'') \<and>
   (\<exists>s'. group_resetMsgId (store_db_env (\<lambda>_ _ q. (None, q))) 3 (store_db [] ()) = Some (False, s') \<and>
      store_string (redis s') ''unread'' (group_msg_id_key 3) = Some ''0'')"
  by (rule reset_reports_failure) (simp_all add: store_set)

text \<open>A number of requests for the next message number.\<close>

fun next_ids :: "('r, 'q) db_env \<Rightarrow> string \<Rightarrow> nat \<Rightarrow> ('r, 'q) db \<Rightarrow> (u32 list \<times> ('r, 'q) db) option" where
  "next_ids e k 0 s = Some ([], s)"
| "next_ids e k (Suc n) s = do {
     (i, s) \<leftarrow> next_id_of e k s;
     (is, s) \<leftarrow> next_ids e k n s;
     Some (i # is, s) }"

lemma next_id_ok:
  assumes e: "libc_ok (cache_env.truncate e)" "redis_incrby (cache_env.truncate e) V" and s: "pool_ready ''unread'' s" and k: "short k"
    and v: "V (redis s) ''unread'' k = Some (dec i) \<or> V (redis s) ''unread'' k = None \<and> i = 0" and i: "i + 1 < 2 ^ 63"
  shows "\<exists>s'. next_id_of e k s = Some (of_nat (i + 1), s') \<and> pool_ready ''unread'' s' \<and>
    V (redis s') ''unread'' k = Some (dec (i + 1)) \<and> only_redis s s'"
proof -
  let ?body = "\<lambda>c s. do { (n, s) \<leftarrow> cache_incrBy (cache_env.truncate e) c k 1 s; Some (ucast n :: u32, s) }"
  obtain c s1 where c: "fst c = ''unread''" "conn_ok c s1" "redis s1 = redis s" "only_redis s s1"
    and run: "\<And>x s2. ?body c s1 = Some (x, s2) \<Longrightarrow> same_conns s1 s2 \<Longrightarrow>
      \<exists>s3. with_cache e ''unread'' 0 ?body s = Some (x, s3) \<and> pool_ready ''unread'' s3 \<and> redis s3 = redis s2 \<and> only_redis s2 s3"
    by (rule with_one_ready [OF s(1), of ?body e 0]) (rule that)
  have v': "V (redis s1) (fst c) k = Some (dec_int (int i)) \<or> V (redis s1) (fst c) k = None \<and> int i = 0" using v by (simp add: c)
  have b: "in64 (int i)" "in64 (int i + sint (1 :: i64))" using i by (simp_all add: in64_def)
  have d: "dec_int (int i + sint (1 :: i64)) = dec (i + 1)" using dec_int_of_nat [of "i + 1"] by (simp add: add.commute)
  obtain st where st: "cache_incrBy (cache_env.truncate e) c k 1 s1 = Some (word_of_int (int i + sint (1 :: i64)), s1\<lparr>redis := st\<rparr>)"
    "\<forall>m j. V st m j = (if m = ''unread'' \<and> j = k then Some (dec (i + 1)) else V (redis s) m j)"
    using cache_incrBy_ok [OF e c(2) k v' b] unfolding c(1,3) d by blast
  have "(word_of_int (int i + sint (1 :: i64)) :: i64) = of_nat (i + 1)" by simp
  moreover have "take_bit 64 (i + 1) = i + 1" using i by (simp add: take_bit_nat_eq_self_iff)
  ultimately have "(ucast (word_of_int (int i + sint (1 :: i64)) :: i64) :: u32) = of_nat (i + 1)"
    by (simp only: unsigned_of_nat) simp
  then have "?body c s1 = Some (of_nat (i + 1), s1\<lparr>redis := st\<rparr>)" using st(1) by simp
  from run [OF this same_redis(1)] st(2) c(4) show ?thesis by (auto simp: next_id_of_def only_redis_def)
qed

lemma next_ids_ok:
  assumes e: "libc_ok (cache_env.truncate e)" "redis_incrby (cache_env.truncate e) V" and k: "short k"
  shows "pool_ready ''unread'' s \<Longrightarrow> V (redis s) ''unread'' k = Some (dec i) \<or> V (redis s) ''unread'' k = None \<and> i = 0 \<Longrightarrow>
    i + n < 2 ^ 63 \<Longrightarrow> \<exists>s'. next_ids e k n s = Some (map of_nat [i + 1..<i + 1 + n], s')"
proof (induction n arbitrary: i s)
  case (Suc n)
  have "i + 1 < 2 ^ 63" using Suc.prems(3) by simp
  from next_id_ok [OF e Suc.prems(1) k Suc.prems(2) this] obtain s1 where s1: "next_id_of e k s = Some (of_nat (i + 1), s1)"
    "pool_ready ''unread'' s1" "V (redis s1) ''unread'' k = Some (dec (i + 1))" by blast
  have "i + 1 + n < 2 ^ 63" using Suc.prems(3) by simp
  from Suc.IH [OF s1(2) disjI1 [OF s1(3)] this] obtain s2 where
    "next_ids e k n s1 = Some (map of_nat [i + 1 + 1..<i + 1 + 1 + n], s2)" by blast
  moreover have "[i + 1..<i + 1 + Suc n] = (i + 1) # [i + 1 + 1..<i + 1 + 1 + n]" by (simp add: upt_conv_Cons)
  ultimately show ?case using s1(1) by simp
qed simp

lemma of_nat_u32_eq: "m < n + 2 ^ 32 \<Longrightarrow> n < m + 2 ^ 32 \<Longrightarrow> (of_nat m :: u32) = of_nat n \<Longrightarrow> m = n"
proof -
  assume a: "m < n + 2 ^ 32" "n < m + 2 ^ 32" and "(of_nat m :: u32) = of_nat n"
  then have "m mod 2 ^ 32 = n mod 2 ^ 32" by (simp add: word_of_nat_eq_iff take_bit_eq_mod)
  then have "int m mod 2 ^ 32 = int n mod 2 ^ 32" by (metis of_nat_mod of_nat_numeral of_nat_power)
  then have "(2 ^ 32 :: int) dvd int m - int n" by (simp add: mod_eq_dvd_iff)
  then have "(4294967296 :: int) dvd int m - int n" by simp
  then obtain k where k: "int m - int n = 4294967296 * k" by (rule dvdE)
  have "int m - int n < 4294967296" "- 4294967296 < int m - int n" using a by simp_all
  with k have "k < 1" "- 1 < k" by linarith+
  then have "k = 0" by linarith
  with k show "m = n" by simp
qed

text \<open>C27: The message numbers that \<open>getMsgId\<close> draws for a relation count up from the value of its counter
  and are distinct as long as no more than \<open>2^32\<close> are drawn; a 64 bit counter beyond \<open>2^32\<close> is cut.\<close>

theorem message_numbers_count_up:
  assumes "libc_ok (cache_env.truncate e)" "redis_incrby (cache_env.truncate e) V" "pool_ready ''unread'' s"
    and "V (redis s) ''unread'' (msg_id_key r) = Some (dec i) \<or> V (redis s) ''unread'' (msg_id_key r) = None \<and> i = 0"
    and "i + n < 2 ^ 63" "n \<le> 2 ^ 32"
  shows "\<exists>ids s'. next_ids e (msg_id_key r) n s = Some (ids, s') \<and> ids = map of_nat [i + 1..<i + 1 + n] \<and> distinct ids"
proof -
  have "inj_on (of_nat :: nat \<Rightarrow> u32) (set [i + 1..<i + 1 + n])"
    using assms(6) of_nat_u32_eq by (intro inj_onI) auto
  then have "distinct (map of_nat [i + 1..<i + 1 + n] :: u32 list)" by (simp only: distinct_map distinct_upt simp_thms)
  with next_ids_ok [OF assms(1,2) short_keys(3) assms(3,4,5)] show ?thesis by blast
qed

lemma message_numbers_count_up_witness:
  "\<exists>ids s'. next_ids (store_db_env (\<lambda>_ _ q. (None, q))) (msg_id_key 3) 2 (store_db [((''unread'', msg_id_key 3, []), dec 41)] ()) = Some (ids, s') \<and>
    ids = map of_nat [41 + 1..<41 + 1 + 2] \<and> distinct ids"
  by (rule message_numbers_count_up [where V = store_string])
    (simp_all add: store_incrby store_string_def)

text \<open>When Redis does not answer, the number of the next message is 4294967295. It is not the invalid
  number that the callers look for, so that the message is stored under it.\<close>

theorem lost_reply_makes_a_number:
  assumes e: "libc_ok (cache_env.truncate e)" and s: "pool_ready ''unread'' s"
    and lost: "\<forall>st cmd. fst (ce_exec e ''unread'' True cmd st) = None"
  shows "\<exists>s'. getMsgId e r s = Some (4294967295, s') \<and> (4294967295 :: u32) \<noteq> INVALID_VALUE"
proof -
  obtain p k ks where p: "cache_pools s ''unread'' = Some p" "free_list p = k # ks" "\<forall>k\<in>set (free_list p). conn_ok (''unread'', k) s"
    using s by (auto simp: pool_ready_def neq_Nil_conv)
  let ?c = "(''unread'', k)"
  let ?s1 = "s\<lparr>cache_pools := (cache_pools s)(''unread'' \<mapsto> p\<lparr>free_list := ks\<rparr>)\<rparr>"
  have get: "getCacheConn (cache_env.truncate e) ''unread'' s = Some (Some ?c, ?s1)"
    using p by (simp add: getCacheConn_def getPoolConn_def pop_front_def)
  have c: "conn_ok ?c ?s1" using p by (simp add: conn_ok_def connected_def)
  have con: "connected ?c ?s1" using c by (simp add: conn_ok_def)
  have "small [''INCRBY'', c_str (msg_id_key r), dec_int (sint (1 :: i64))]"
    using short_keys(3) [of r] length_dec_int_word [of 1] by (intro small_words) (simp_all add: short_def c_str_no_NUL)
  note rule = incrBy_rule [OF e con this]
  let ?cmd = "wire_command [''INCRBY'', c_str (msg_id_key r), dec_int (sint (1 :: i64))]"
  obtain st where st: "ce_exec (cache_env.truncate e) (fst ?c) True ?cmd (redis ?s1) = (None, st)"
    using lost [rule_format, of ?cmd "redis ?s1"] by (cases "ce_exec e ''unread'' True ?cmd (redis ?s1)") (auto simp: cache_env.defs)
  have "redis_command (cache_env.truncate e) ?c ''INCRBY %s %ld'' [VStr (msg_id_key r), VLong 1] ?s1 = Some (None, ?s1\<lparr>redis := st\<rparr>)"
    using rule ask_answered [OF c st] by simp
  then have "cache_incrBy (cache_env.truncate e) ?c (msg_id_key r) 1 ?s1
      = Some (- 1, upd_cache_conn ?c (\<lambda>x. x\<lparr>cc_context := NoContext\<rparr>) (?s1\<lparr>redis := st\<rparr>))"
    by (simp add: cache_incrBy_def cache_op_def connected_init [OF con])
  moreover have "(ucast (- 1 :: i64) :: u32) = 4294967295" by code_simp
  ultimately show ?thesis using get by (simp add: getMsgId_def next_id_of_def with_cache_def)
qed

lemma lost_reply_makes_a_number_witness:
  "\<exists>s'. getMsgId ((store_db_env (\<lambda>_ _ q. (None, q)))\<lparr>ce_exec := \<lambda>_ _ _ st. (None, st)\<rparr>) 3 (store_db [] ()) = Some (4294967295, s') \<and>
    (4294967295 :: u32) \<noteq> INVALID_VALUE"
  by (rule lost_reply_makes_a_number)
    (simp_all add: libc_ok_def store_db_env_def store_env_def demo_env_def demo_printf_def cache_env.defs)

end
