(* ===== verification/Db_Groups.thy ===== *)
theory Db_Groups
  imports Db_Counters
begin

text \<open>
  The counters of group chats in Redis: a number per group, raised by every message, and a number per
  user and group, which a copy of the former overwrites when the user sends or reads. The unread
  count of a user is the sum of the differences.
\<close>

section \<open>Keys\<close>

lemma digits_underscore:
  assumes "\<forall>c\<in>set xs. is_digit c" "\<forall>c\<in>set ys. is_digit c" "xs @ CHR ''_'' # r = ys @ CHR ''_'' # t"
  shows "xs = ys \<and> r = t"
proof -
  have tw: "takeWhile is_digit (zs @ CHR ''_'' # q) = zs" if "\<forall>c\<in>set zs. is_digit c" for zs q
    using that by (subst takeWhile_append2) simp_all
  have "xs = ys" using tw [OF assms(1), of r] tw [OF assms(2), of t] unfolding assms(3) by (rule trans [OF sym])
  with assms(3) show ?thesis by simp
qed

lemma int2string_all: "\<forall>c\<in>set (int2string w). is_digit c"
  using int2string_digits by blast

lemma group_key_inject [simp]: "group_key g = group_key h \<longleftrightarrow> g = h"
  by (simp add: group_key_def)

lemma user_group_key_inject [simp]: "user_group_key u g = user_group_key v h \<longleftrightarrow> u = v \<and> g = h"
proof
  assume "user_group_key u g = user_group_key v h"
  then have "int2string u @ CHR ''_'' # int2string g @ ''_im_user_group'' = int2string v @ CHR ''_'' # int2string h @ ''_im_user_group''"
    by (simp add: user_group_key_def)
  from digits_underscore [OF int2string_all int2string_all this] show "u = v \<and> g = h" by simp
qed simp

lemma group_key_not_user [simp]: "group_key g \<noteq> user_group_key u h" "user_group_key u h \<noteq> group_key g"
proof -
  have False if "group_key g = user_group_key u h"
  proof -
    have "int2string g @ CHR ''_'' # ''im_group_msg'' = int2string u @ CHR ''_'' # int2string h @ ''_im_user_group''"
      using that by (simp add: group_key_def user_group_key_def)
    from digits_underscore [OF int2string_all int2string_all this]
    have "''im_group_msg'' = int2string h @ ''_im_user_group''" by simp
    moreover obtain c cs where "int2string h = c # cs" "is_digit c"
      using int2string_all [of h] by (cases "int2string h") (auto simp: int2string_def dec_nonempty)
    ultimately show False by simp
  qed
  then show "group_key g \<noteq> user_group_key u h" "user_group_key u h \<noteq> group_key g" by metis+
qed

section \<open>The abstract counters\<close>

record group_counts =
  sent_to :: "u32 \<Rightarrow> nat"
  seen_by :: "u32 \<Rightarrow> u32 \<Rightarrow> nat"

datatype group_op = GroupSent u32 u32 | GroupRead u32 u32

fun group_step :: "group_op \<Rightarrow> group_counts \<Rightarrow> group_counts" where
  "group_step (GroupSent user g) a =
     a\<lparr>sent_to := (sent_to a)(g := sent_to a g + 1), seen_by := (seen_by a)(user := (seen_by a user)(g := sent_to a g + 1))\<rparr>"
| "group_step (GroupRead user g) a = a\<lparr>seen_by := (seen_by a)(user := (seen_by a user)(g := sent_to a g))\<rparr>"

text \<open>The code: \<open>sendMessage\<close> counts with these two calls.\<close>

fun group_run :: "('r, 'q) db_env \<Rightarrow> group_op list \<Rightarrow> ('r, 'q) db \<Rightarrow> ('r, 'q) db option" where
  "group_run e [] s = Some s"
| "group_run e (GroupSent user g # ops) s = do {
     (_, s) \<leftarrow> incMessageCount e user g s;
     (_, s) \<leftarrow> clearMessageCount e user g s;
     group_run e ops s }"
| "group_run e (GroupRead user g # ops) s = do { (_, s) \<leftarrow> clearUserCounter e user g SESSION_GROUP s; group_run e ops s }"

definition count_field :: "nat \<Rightarrow> string \<Rightarrow> string option" where
  "count_field n f = (if f = ''count'' \<and> 0 < n then Some (dec n) else None)"

definition group_view :: "'r hash_view \<Rightarrow> 'r \<Rightarrow> group_counts \<Rightarrow> bool" where
  "group_view H st a \<longleftrightarrow>
     (\<forall>g. H st ''unread'' (group_key g) = count_field (sent_to a g)) \<and>
     (\<forall>u g. H st ''unread'' (user_group_key u g) = count_field (seen_by a u g)) \<and>
     (\<forall>u g. seen_by a u g \<le> sent_to a g)"

definition group_laws :: "('r, 'q) db_env \<Rightarrow> 'r hash_view \<Rightarrow> bool" where
  "group_laws e H \<longleftrightarrow> (let e = cache_env.truncate e in
     libc_ok e \<and> redis_hincrby e H \<and> redis_hgetall e H \<and> redis_hmset e H \<and> redis_hget e H)"

lemma count_field_dom: "finite (dom (count_field n))" "card (dom (count_field n)) < 2 ^ 62"
proof -
  have "dom (count_field n) \<subseteq> {''count''}" by (auto simp: count_field_def split: if_splits)
  then show "finite (dom (count_field n))" by (rule finite_subset) simp
  from card_mono [OF _ \<open>dom (count_field n) \<subseteq> {''count''}\<close>] show "card (dom (count_field n)) < 2 ^ 62" by simp
qed

lemma count_field_map:
  assumes "map_ok m" "map_find m = count_field n"
  shows "m = (if 0 < n then [(''count'', dec n)] else [])"
proof -
  have d: "distinct (map fst m)" using assms(1) by (simp add: map_ok_def)
  have "set m = {(f, v). map_find m f = Some v}" using d by auto
  then have set: "set m = (if 0 < n then {(''count'', dec n)} else {})" by (auto simp: assms(2) count_field_def split: if_splits)
  have "length m = card (set m)" using d by (simp add: distinct_map distinct_card)
  with set show ?thesis by (cases m) (auto split: if_splits)
qed

lemma digits_no_NUL: "NUL \<notin> set (dec n)"
  using dec_digits [of NUL n] by auto

text \<open>Copying the counter of a group to a user.\<close>

lemma read_count_ok:
  assumes e: "group_laws e H" and c: "conn_ok c s" "fst c = ''unread''" and v: "group_view H (redis s) a"
  shows "\<exists>m. cache_hgetAll (cache_env.truncate e) c (group_key g) s = Some ((True, m), s) \<and> map_ok m \<and> map_find m = count_field (sent_to a g)"
proof -
  have l: "libc_ok (cache_env.truncate e)" "redis_hgetall (cache_env.truncate e) H"
    using e by (simp_all add: group_laws_def Let_def)
  have g: "H (redis s) ''unread'' (group_key g) = count_field (sent_to a g)" using v by (simp add: group_view_def)
  show ?thesis using cache_hgetAll_ok [OF l c(1) short_keys(5) [of g], unfolded c(2) g, OF count_field_dom] by blast
qed

lemma write_count_ok:
  assumes e: "group_laws e H" and c: "conn_ok c s" "fst c = ''unread''" and v: "group_view H (redis s) a"
    and m: "map_ok m" "map_find m = count_field (sent_to a g)" and small: "sent_to a g < 2 ^ 63"
  shows "\<exists>st. copy_group_count e c user g m s = Some ((), s\<lparr>redis := st\<rparr>) \<and> group_view H st (group_step (GroupRead user g) a)"
proof -
  have l: "libc_ok (cache_env.truncate e)" "redis_hmset (cache_env.truncate e) H"
    using e by (simp_all add: group_laws_def Let_def)
  note m' = count_field_map [OF m]
  have len: "length (dec (sent_to a g)) \<le> 19" using length_dec_le [of "sent_to a g" 18] small by simp
  have plain: "\<forall>(f, v)\<in>set m. NUL \<notin> set f \<and> NUL \<notin> set v" by (auto simp: m' digits_no_NUL split: if_splits)
  have "small (''HMSET'' # user_group_key user g # pairs m)"
    using len short_keys(6) [of user g] by (intro small_words) (auto simp: m' pairs_def short_def)
  from cache_hmset_ok [OF l c(1) short_keys(6) m(1) plain this] obtain r st where st:
    "cache_hmset (cache_env.truncate e) c (user_group_key user g) m s = Some (r, s\<lparr>redis := st\<rparr>)"
    "put_field H (redis s) st ''unread'' (user_group_key user g) (H (redis s) ''unread'' (user_group_key user g) ++ map_find m)"
    unfolding c(2) by blast
  have le: "0 < sent_to a g" if "0 < seen_by a user g"
    using v that by (auto simp: group_view_def intro: order.strict_trans2)
  have "H (redis s) ''unread'' (user_group_key user g) ++ map_find m = count_field (sent_to a g)"
    using v le by (auto simp: group_view_def m(2) count_field_def map_add_def fun_eq_iff)
  with st(2) v have "group_view H st (group_step (GroupRead user g) a)"
    by (auto simp: group_view_def put_field_def fun_eq_iff)
  with st(1) show ?thesis by (auto simp: copy_group_count_def)
qed

lemma copy_ok:
  assumes "group_laws e H" "conn_ok c s" "fst c = ''unread''" "group_view H (redis s) a" "sent_to a g < 2 ^ 63"
  shows "\<exists>m st. cache_hgetAll (cache_env.truncate e) c (group_key g) s = Some ((True, m), s) \<and>
    copy_group_count e c user g m s = Some ((), s\<lparr>redis := st\<rparr>) \<and> group_view H st (group_step (GroupRead user g) a)"
  using read_count_ok [OF assms(1-4), of g] write_count_ok [OF assms(1-4) _ _ assms(5)] by blast

text \<open>Counting a message and copying the counter, on one connection.\<close>

lemma same_conns_trans: "same_conns s s1 \<Longrightarrow> same_conns s1 s2 \<Longrightarrow> same_conns s s2"
  by (simp add: same_conns_def)

lemma conn_ok_redis [simp]: "conn_ok c (s\<lparr>redis := st\<rparr>) = conn_ok c s"
  by (simp add: conn_ok_def connected_def)

lemma group_read_twice: "group_step (GroupRead user g) (group_step (GroupSent user g) a) = group_step (GroupSent user g) a"
  by simp

lemma count_ok:
  assumes e: "group_laws e H" and c: "conn_ok c s" "fst c = ''unread''" and v: "group_view H (redis s) a" and small: "sent_to a g + 1 < 2 ^ 63"
  shows "\<exists>r st. cache_hincrBy (cache_env.truncate e) c (group_key g) ''count'' 1 s = Some (r, s\<lparr>redis := st\<rparr>) \<and>
    group_view H st (a\<lparr>sent_to := (sent_to a)(g := sent_to a g + 1)\<rparr>)"
proof -
  have l: "libc_ok (cache_env.truncate e)" "redis_hincrby (cache_env.truncate e) H"
    using e by (simp_all add: group_laws_def Let_def)
  have i: "H (redis s) (fst c) (group_key g) ''count'' = Some (dec_int (int (sent_to a g))) \<or>
      H (redis s) (fst c) (group_key g) ''count'' = None \<and> int (sent_to a g) = 0"
    using v by (simp add: c group_view_def count_field_def)
  have b: "in64 (int (sent_to a g))" "in64 (int (sent_to a g) + sint (1 :: i64))" using small by (simp_all add: in64_def)
  have d: "dec_int (int (sent_to a g) + sint (1 :: i64)) = dec (sent_to a g + 1)"
    using dec_int_of_nat [of "sent_to a g + 1"] by (simp add: add.commute)
  obtain r st where st: "cache_hincrBy (cache_env.truncate e) c (group_key g) ''count'' 1 s = Some (r, s\<lparr>redis := st\<rparr>)"
    "put_field H (redis s) st ''unread'' (group_key g) ((H (redis s) ''unread'' (group_key g))(''count'' \<mapsto> dec (sent_to a g + 1)))"
    using cache_hincrBy_ok [OF l c(1) short_keys(5) short_keys(8) i b] unfolding d c(2) by blast
  have f: "(count_field (sent_to a g))(''count'' \<mapsto> dec (sent_to a g + 1)) = count_field (sent_to a g + 1)"
    by (auto simp: count_field_def fun_eq_iff)
  have "H (redis s) ''unread'' (group_key g) = count_field (sent_to a g)" using v by (simp add: group_view_def)
  with st(2) f have "put_field H (redis s) st ''unread'' (group_key g) (count_field (sent_to a g + 1))" by simp
  then have "group_view H st (a\<lparr>sent_to := (sent_to a)(g := sent_to a g + 1)\<rparr>)"
    using v by (auto simp: group_view_def put_field_def intro: le_SucI)
  with st(1) show ?thesis by blast
qed

lemma incMessageCount_ok:
  assumes e: "group_laws e H" and s: "pool_ready ''unread'' s" "group_view H (redis s) a" and small: "sent_to a g + 1 < 2 ^ 63"
  shows "\<exists>s'. incMessageCount e user g s = Some (False, s') \<and> pool_ready ''unread'' s' \<and>
    group_view H (redis s') (group_step (GroupSent user g) a) \<and> only_redis s s'"
proof -
  let ?body = "\<lambda>c s. do {
     (_, s) \<leftarrow> cache_hincrBy (cache_env.truncate e) c (group_key g) ''count'' 1 s;
     ((ok, m), s) \<leftarrow> cache_hgetAll (cache_env.truncate e) c (group_key g) s;
     (_, s) \<leftarrow> (if ok then copy_group_count e c user g m s else Some ((), s));
     Some (False, s) }"
  obtain c s1 where c: "fst c = ''unread''" "conn_ok c s1" "redis s1 = redis s" "only_redis s s1"
    and run: "\<And>x s2. ?body c s1 = Some (x, s2) \<Longrightarrow> same_conns s1 s2 \<Longrightarrow>
      \<exists>s3. with_cache e ''unread'' False ?body s = Some (x, s3) \<and> pool_ready ''unread'' s3 \<and> redis s3 = redis s2 \<and> only_redis s2 s3"
    by (rule with_one_ready [OF s(1), of ?body e False]) (rule that)
  let ?a = "a\<lparr>sent_to := (sent_to a)(g := sent_to a g + 1)\<rparr>"
  have v: "group_view H (redis s1) a" using s(2) c(3) by simp
  from count_ok [OF e c(2,1) v small] obtain r st where st:
    "cache_hincrBy (cache_env.truncate e) c (group_key g) ''count'' 1 s1 = Some (r, s1\<lparr>redis := st\<rparr>)" "group_view H st ?a"
    by blast
  have c2: "conn_ok c (s1\<lparr>redis := st\<rparr>)" using c(2) by simp
  have v2: "group_view H (redis (s1\<lparr>redis := st\<rparr>)) ?a" and n: "sent_to ?a g < 2 ^ 63" using st(2) small by simp_all
  from copy_ok [OF e c2 c(1) v2 n, of user] obtain m st' where st':
    "cache_hgetAll (cache_env.truncate e) c (group_key g) (s1\<lparr>redis := st\<rparr>) = Some ((True, m), s1\<lparr>redis := st\<rparr>)"
    "copy_group_count e c user g m (s1\<lparr>redis := st\<rparr>) = Some ((), s1\<lparr>redis := st'\<rparr>)"
    "group_view H st' (group_step (GroupRead user g) ?a)" by auto
  have "?body c s1 = Some (False, s1\<lparr>redis := st'\<rparr>)" using st(1) st'(1,2) by simp
  from run [OF this same_redis(1)] st'(3) c(4) show ?thesis by (auto simp: incMessageCount_def only_redis_def)
qed

lemma clearUserCounter_group_ok:
  assumes e: "group_laws e H" and s: "pool_ready ''unread'' s" "group_view H (redis s) a" and small: "sent_to a g < 2 ^ 63"
  shows "\<exists>s'. clearUserCounter e user g SESSION_GROUP s = Some ((), s') \<and> pool_ready ''unread'' s' \<and>
    group_view H (redis s') (group_step (GroupRead user g) a) \<and> only_redis s s'"
proof -
  let ?body = "\<lambda>c s. do {
     ((ok, m), s) \<leftarrow> cache_hgetAll (cache_env.truncate e) c (group_key g) s;
     (if ok then copy_group_count e c user g m s else Some ((), s)) }"
  obtain c s1 where c: "fst c = ''unread''" "conn_ok c s1" "redis s1 = redis s" "only_redis s s1"
    and run: "\<And>x s2. ?body c s1 = Some (x, s2) \<Longrightarrow> same_conns s1 s2 \<Longrightarrow>
      \<exists>s3. with_cache e ''unread'' () ?body s = Some (x, s3) \<and> pool_ready ''unread'' s3 \<and> redis s3 = redis s2 \<and> only_redis s2 s3"
    by (rule with_one_ready [OF s(1), of ?body e "()"]) (rule that)
  have v: "group_view H (redis s1) a" using s(2) c(3) by simp
  from copy_ok [OF e c(2,1) v small, of user] obtain m st where st:
    "cache_hgetAll (cache_env.truncate e) c (group_key g) s1 = Some ((True, m), s1)"
    "copy_group_count e c user g m s1 = Some ((), s1\<lparr>redis := st\<rparr>)" "group_view H st (group_step (GroupRead user g) a)"
    by auto
  have "?body c s1 = Some ((), s1\<lparr>redis := st\<rparr>)" using st(1,2) by simp
  from run [OF this same_redis(1)] st(3) c(4) show ?thesis
    by (auto simp: clearUserCounter_def SessionType_IsValid_def only_redis_def)
qed

text \<open>\<open>clearMessageCount\<close> copies the counter on a connection that is back in the pool.\<close>

lemma clearMessageCount_ok:
  assumes e: "group_laws e H" and s: "pool_ready ''unread'' s" "group_view H (redis s) a" and small: "sent_to a g < 2 ^ 63"
  shows "\<exists>s'. clearMessageCount e user g s = Some (False, s') \<and> pool_ready ''unread'' s' \<and>
    group_view H (redis s') (group_step (GroupRead user g) a) \<and> only_redis s s'"
proof -
  obtain p k ks where p: "cache_pools s ''unread'' = Some p" "free_list p = k # ks" "\<forall>k\<in>set (free_list p). conn_ok (''unread'', k) s"
    using s(1) by (auto simp: pool_ready_def neq_Nil_conv)
  let ?c = "(''unread'', k)"
  let ?p = "p\<lparr>free_list := ks\<rparr>"
  let ?s1 = "s\<lparr>cache_pools := (cache_pools s)(''unread'' \<mapsto> ?p)\<rparr>"
  let ?s2 = "relCacheConn ?c ?s1"
  have get: "getCacheConn (cache_env.truncate e) ''unread'' s = Some (Some ?c, ?s1)"
    using p by (simp add: getCacheConn_def getPoolConn_def pop_front_def)
  have s2: "?s2 = ?s1\<lparr>cache_pools := (cache_pools ?s1)(''unread'' \<mapsto> relPoolConn k ?p)\<rparr>" by (simp add: relCacheConn_def)
  have c1: "conn_ok ?c ?s1" and c2: "conn_ok ?c ?s2" using p by (simp_all add: s2 conn_ok_def connected_def)
  have v: "group_view H (redis ?s1) a" "group_view H (redis ?s2) a" using s(2) by (simp_all add: s2)
  obtain m where m: "cache_hgetAll (cache_env.truncate e) ?c (group_key g) ?s1 = Some ((True, m), ?s1)"
    "map_ok m" "map_find m = count_field (sent_to a g)"
    using read_count_ok [OF e c1 fst_conv v(1)] by blast
  from write_count_ok [OF e c2 fst_conv v(2) m(2,3) small] obtain st where st:
    "copy_group_count e ?c user g m ?s2 = Some ((), ?s2\<lparr>redis := st\<rparr>)" "group_view H st (group_step (GroupRead user g) a)" by blast
  let ?s3 = "?s2\<lparr>redis := st\<rparr>"
  have "set (free_list (relPoolConn k ?p)) = insert k (set ks)" by (auto simp: relPoolConn_def)
  then have "pool_ready ''unread'' ?s3" using p by (auto simp: s2 pool_ready_def conn_ok_def connected_def)
  moreover have "clearMessageCount e user g s = Some (False, ?s3)"
    unfolding clearMessageCount_def using get m(1) st(1) by (simp add: Let_def)
  moreover have "only_redis s ?s3" by (simp add: s2 only_redis_def)
  ultimately show ?thesis using st(2) by auto
qed

lemma group_run_ok:
  assumes e: "group_laws e H"
  shows "pool_ready ''unread'' s \<Longrightarrow> group_view H (redis s) a \<Longrightarrow> \<forall>g. sent_to a g + length ops < 2 ^ 63 \<Longrightarrow>
    \<exists>s'. group_run e ops s = Some s' \<and> pool_ready ''unread'' s' \<and> group_view H (redis s') (fold group_step ops a) \<and> only_redis s s'"
proof (induction ops arbitrary: s a)
  case (Cons op ops)
  have "\<forall>g. sent_to (group_step op a) g + length ops < 2 ^ 63"
  proof (intro allI)
    fix g show "sent_to (group_step op a) g + length ops < 2 ^ 63" using Cons.prems(3) [rule_format, of g] by (cases op) auto
  qed
  note IH = Cons.IH [OF _ _ this]
  have "\<exists>s1. group_run e (op # ops) s = group_run e ops s1 \<and> pool_ready ''unread'' s1 \<and>
      group_view H (redis s1) (group_step op a) \<and> only_redis s s1"
  proof (cases op)
    case (GroupSent u g)
    have n: "sent_to a g + 1 < 2 ^ 63" using Cons.prems(3) [rule_format, of g] by simp
    from incMessageCount_ok [OF e Cons.prems(1,2) n, of u] obtain s1 where s1: "incMessageCount e u g s = Some (False, s1)"
      "pool_ready ''unread'' s1" "group_view H (redis s1) (group_step (GroupSent u g) a)" "only_redis s s1" by blast
    have n1: "sent_to (group_step (GroupSent u g) a) g < 2 ^ 63" using n by simp
    from clearMessageCount_ok [OF e s1(2,3) n1, of u] obtain s2 where "clearMessageCount e u g s1 = Some (False, s2)"
      "pool_ready ''unread'' s2" "group_view H (redis s2) (group_step (GroupSent u g) a)" "only_redis s1 s2"
      unfolding group_read_twice by blast
    then show ?thesis using s1(1,4) by (auto simp: GroupSent only_redis_def)
  next
    case (GroupRead u g)
    have "sent_to a g < 2 ^ 63" using Cons.prems(3) [rule_format, of g] by simp
    from clearUserCounter_group_ok [OF e Cons.prems(1,2) this, of u] show ?thesis by (auto simp: GroupRead)
  qed
  then obtain s1 where s1: "group_run e (op # ops) s = group_run e ops s1" "pool_ready ''unread'' s1"
    "group_view H (redis s1) (group_step op a)" "only_redis s s1" by blast
  from IH [OF s1(2,3)] s1(1,4) show ?case by (auto simp: only_redis_def)
qed (simp add: only_redis_def)

section \<open>Unread messages of groups\<close>

lemma group_count_ok:
  assumes e: "group_laws e H" and c: "conn_ok c s" "fst c = ''unread''" and v: "group_view H (redis s) a" and small: "sent_to a g < 2 ^ 32"
  shows "group_count e c user g nCount s =
    Some (if sent_to a g = 0 then None else Some (of_nat (sent_to a g - seen_by a user g)), s)"
proof -
  have l: "libc_ok (cache_env.truncate e)" "redis_hget (cache_env.truncate e) H" using e by (simp_all add: group_laws_def Let_def)
  have h: "H (redis s) ''unread'' (group_key g) ''count'' = count_field (sent_to a g) ''count''"
    "H (redis s) ''unread'' (user_group_key user g) ''count'' = count_field (seen_by a user g) ''count''"
    and le: "seen_by a user g \<le> sent_to a g" using v by (simp_all add: group_view_def)
  have ge: "(of_nat (seen_by a user g) :: u32) \<le> of_nat (sent_to a g)"
    using le small by (simp add: word_le_nat_alt unat_of_nat take_bit_nat_eq_self)
  show ?thesis
    using cache_hget_ok [OF l c(1) short_keys(5) [of g] short_keys(8)] cache_hget_ok [OF l c(1) short_keys(6) [of user g] short_keys(8)]
      small le ge
    by (simp add: group_count_def c(2) h count_field_def atoi_dec of_nat_diff)
qed

lemma group_count_all_ok:
  assumes e: "group_laws e H" and c: "conn_ok c s" "fst c = ''unread''" and v: "group_view H (redis s) a" and small: "\<forall>g. sent_to a g < 2 ^ 32"
  shows "group_count_all e c user gs nCount n s = Some (n + of_nat (\<Sum>g\<leftarrow>gs. sent_to a g - seen_by a user g), s)"
proof (induction gs arbitrary: nCount n)
  case (Cons g gs)
  from group_count_ok [OF e c v small [rule_format, of g], of user nCount] show ?case by (simp add: Cons add.assoc)
qed simp

text \<open>Reading the list of groups changes only the database and its pools.\<close>

lemma getUserGroupIds_keeps:
  assumes "getUserGroupIds e user l s = Some (gs, s')"
  shows "redis s' = redis s" "cache_pools s' = cache_pools s" "cache_conns s' = cache_conns s"
proof -
  have "redis s' = redis s \<and> cache_pools s' = cache_pools s \<and> cache_conns s' = cache_conns s"
    using assms unfolding getUserGroupIds_def with_db_def getDBConn_def relDBConn_def executeQuery_def
    by (auto split: option.splits prod.splits got.splits Option.bind_splits)
  then show "redis s' = redis s" "cache_pools s' = cache_pools s" "cache_conns s' = cache_conns s" by simp_all
qed

lemma group_total_ok:
  assumes e: "group_laws e H" and s: "pool_ready ''unread'' s" "group_view H (redis s) a" and small: "\<forall>g. sent_to a g < 2 ^ 32"
    and gs: "getUserGroupIds e user 0 s = Some (gs, s1)"
  shows "\<exists>s'. group_getUnReadCntAll e user n s = Some (n + of_nat (\<Sum>g\<leftarrow>gs. sent_to a g - seen_by a user g), s')"
proof -
  note k = getUserGroupIds_keeps [OF gs]
  have ready: "pool_ready ''unread'' s1" using s(1) k by (simp add: pool_ready_def conn_ok_def connected_def)
  let ?body = "\<lambda>c. group_count_all e c user gs 0 n"
  obtain c s2 where c: "fst c = ''unread''" "conn_ok c s2" "redis s2 = redis s1"
    and run: "\<And>x s3. ?body c s2 = Some (x, s3) \<Longrightarrow> same_conns s2 s3 \<Longrightarrow> \<exists>s4. with_cache e ''unread'' n ?body s1 = Some (x, s4)"
    by (rule with_one_ready [OF ready, of ?body e n]) (rule that, assumption+, blast)
  have "group_view H (redis s2) a" using s(2) k(1) c(3) by simp
  from run [OF group_count_all_ok [OF e c(2,1) this small]] gs show ?thesis
    by (simp add: group_getUnReadCntAll_def same_conns_def)
qed

text \<open>C26: The counters of group chats in Redis implement one number per group and one per member: after any
  sequence of group messages and read acknowledgements, the total that \<open>getUnReadCntAll\<close> adds for a
  user is the sum, over the groups the database lists for the user, of the messages sent to the
  group since the user last sent or read there, cut to 32 bits. The counting leaves the database alone.\<close>

theorem group_counts_refine:
  assumes "group_laws e H" "pool_ready ''unread'' s" "group_view H (redis s) a" "\<forall>g. sent_to a g + length ops < 2 ^ 32"
  shows "\<exists>s'. group_run e ops s = Some s' \<and> only_redis s s' \<and> group_view H (redis s') (fold group_step ops a) \<and>
    (\<forall>gs s1. getUserGroupIds e user 0 s' = Some (gs, s1) \<longrightarrow>
      (\<exists>s''. group_getUnReadCntAll e user n s' =
        Some (n + of_nat (\<Sum>g\<leftarrow>gs. sent_to (fold group_step ops a) g - seen_by (fold group_step ops a) user g), s'')))"
proof -
  have "\<forall>g. sent_to a g + length ops < 2 ^ 63" using assms(4) by (auto intro: less_trans)
  from group_run_ok [OF assms(1-3) this] obtain s' where s': "group_run e ops s = Some s'" "pool_ready ''unread'' s'"
    "group_view H (redis s') (fold group_step ops a)" "only_redis s s'" by blast
  have "sent_to (fold group_step ops a) g \<le> sent_to a g + length ops" for g
  proof (induction ops arbitrary: a)
    case (Cons op ops)
    have "sent_to (group_step op a) g \<le> sent_to a g + 1" by (cases op) auto
    with Cons [of "group_step op a"] show ?case by simp
  qed simp
  then have "\<forall>g. sent_to (fold group_step ops a) g < 2 ^ 32" using assms(4) by (meson le_less_trans)
  from group_total_ok [OF assms(1) s'(2,3) this, of user] s' show ?thesis by blast
qed

lemma store_group_laws: "group_laws (store_db_env q) store_hash"
  by (simp add: group_laws_def store_hincrby store_hgetall store_hmset store_hget)

definition two_groups :: "string \<Rightarrow> string \<Rightarrow> unit \<Rightarrow> result_set option \<times> unit" where
  "two_groups name q st = (Some ([''groupId''], [[Some ''7''], [Some ''8'']]), st)"

lemma group_counts_refine_witness:
  "\<exists>s' s''. group_run (store_db_env two_groups) [GroupSent 5 7, GroupSent 6 7, GroupSent 6 8, GroupRead 5 8] (store_db [] ()) = Some s' \<and>
    group_getUnReadCntAll (store_db_env two_groups) 5 0 s' = Some (1, s'')"
proof -
  let ?ops = "[GroupSent 5 7, GroupSent 6 7, GroupSent 6 8, GroupRead 5 8]"
  let ?a = "\<lparr>sent_to = \<lambda>_. 0, seen_by = \<lambda>_ _. 0\<rparr>"
  have view: "group_view store_hash (redis (store_db [] ())) ?a"
    by (simp add: group_view_def count_field_def store_hash_def fun_eq_iff)
  have small: "\<forall>g. sent_to ?a g + length ?ops < 2 ^ 32" by simp
  obtain s' where s': "group_run (store_db_env two_groups) ?ops (store_db [] ()) = Some s'" "only_redis (store_db [] ()) s'"
    "\<forall>gs s1. getUserGroupIds (store_db_env two_groups) 5 0 s' = Some (gs, s1) \<longrightarrow>
      (\<exists>s''. group_getUnReadCntAll (store_db_env two_groups) 5 0 s' =
        Some (0 + of_nat (\<Sum>g\<leftarrow>gs. sent_to (fold group_step ?ops ?a) g - seen_by (fold group_step ?ops ?a) 5 g), s''))"
    using group_counts_refine [OF store_group_laws store_ready view small] by blast
  have "\<exists>s1. getUserGroupIds (store_db_env two_groups) 5 0 s' = Some ([7, 8], s1)"
    using s'(2) by (simp add: getUserGroupIds_def with_db_def getDBConn_def getPoolConn_def pop_front_def only_redis_def
      store_db_def store_db_env_def db_env.defs cache_env.defs executeQuery_def two_groups_def getInt_def getIndex_def field_at_def
      atoi_def strtol10_def is_space_def dec_val_def)
  with s'(1,3) show ?thesis by fastforce
qed

end
