(* ===== verification/Net_Timer.thy ===== *)
theory Net_Timer
  imports Achat_Prelude
begin

text \<open>
  The timers of an event loop: \<open>base/Timestamp.h\<close>, \<open>net/Timer.cpp\<close> and \<open>net/TimerQueue.cpp\<close>. A timer
  object is a number, its address; \<open>tq_timer\<close> is the heap, \<open>tq_entries\<close> the \<open>std::set\<close> of pairs of a
  time stamp and a timer, as the sorted list of its elements. Time stamps are signed 64 bit numbers of
  microseconds. A callback is a name, the timers that run are listed; callbacks that change the queue
  while \<open>doTimer\<close> walks over it are not modelled. \<open>addTimer\<close> takes three arguments in the code, so that
  the repeat count is always the default \<open>-1\<close>.
\<close>

section \<open>Timers\<close>

type_synonym i64 = "64 word"

record timer =
  expiration :: i64
  interval :: i64
  repeatCount :: i64
  timer_sequence :: i64
  canceled :: bool

definition addTime :: "i64 \<Rightarrow> i64 \<Rightarrow> i64" where
  "addTime t microseconds = t + microseconds"

text \<open>\<open>run\<close>: whether the callback was called, and the timer afterwards.\<close>

definition timer_run :: "timer \<Rightarrow> bool \<times> timer" where
  "timer_run t =
     (if canceled t then (False, t)
      else
        let t = (if repeatCount t \<noteq> - 1 then t\<lparr>repeatCount := repeatCount t - 1\<rparr> else t)
        in if repeatCount t = 0 then (True, t)
           else (True, t\<lparr>expiration := expiration t + interval t\<rparr>))"

definition timer_cancel :: "bool \<Rightarrow> timer \<Rightarrow> timer" where
  "timer_cancel off t = t\<lparr>canceled := off\<rparr>"

section \<open>The queue\<close>

type_synonym entry = "i64 \<times> nat"

record timer_queue =
  tq_entries :: "entry list"
  tq_timer :: "nat \<Rightarrow> timer"
  numCreated :: i64

definition entry_less :: "entry \<Rightarrow> entry \<Rightarrow> bool" where
  "entry_less e f \<longleftrightarrow> fst e <s fst f \<or> fst e = fst f \<and> snd e < snd f"

fun set_insert :: "entry \<Rightarrow> entry list \<Rightarrow> entry list" where
  "set_insert e [] = [e]"
| "set_insert e (f # fs) = (if entry_less e f then e # f # fs else if entry_less f e then f # set_insert e fs else f # fs)"

text \<open>\<open>addTimer\<close> in the thread of the loop; \<open>a\<close> is the address of the new object.\<close>

definition addTimer :: "nat \<Rightarrow> i64 \<Rightarrow> i64 \<Rightarrow> timer_queue \<Rightarrow> timer_queue" where
  "addTimer a time period q =
     (let t = \<lparr>expiration = time, interval = period, repeatCount = - 1, timer_sequence = numCreated q + 1, canceled = False\<rparr>
      in q\<lparr>numCreated := numCreated q + 1, tq_timer := (tq_timer q)(a := t), tq_entries := set_insert (time, a) (tq_entries q)\<rparr>)"

definition runEvery :: "nat \<Rightarrow> i64 \<Rightarrow> i64 \<Rightarrow> timer_queue \<Rightarrow> timer_queue" where
  "runEvery a now period q = addTimer a (addTime now period) period q"

fun erase_first :: "('a \<Rightarrow> bool) \<Rightarrow> 'a list \<Rightarrow> 'a list" where
  "erase_first P [] = []"
| "erase_first P (x # xs) = (if P x then xs else x # erase_first P xs)"

definition removeTimerInLoop :: "nat \<Rightarrow> timer_queue \<Rightarrow> timer_queue" where
  "removeTimerInLoop a q = q\<lparr>tq_entries := erase_first (\<lambda>e. snd e = a) (tq_entries q)\<rparr>"

definition cancelTimerInLoop :: "nat \<Rightarrow> bool \<Rightarrow> timer_queue \<Rightarrow> timer_queue" where
  "cancelTimerInLoop a off q =
     (if \<exists>e\<in>set (tq_entries q). snd e = a then q\<lparr>tq_timer := (tq_timer q)(a := timer_cancel off (tq_timer q a))\<rparr> else q)"

text \<open>\<open>doTimer\<close>: the timers whose callback was called, the entries and the heap. The loop stops at the first
  timer that is not due. The key of an entry stays what it was when the timer was added.\<close>

fun timer_loop :: "i64 \<Rightarrow> entry list \<Rightarrow> (nat \<Rightarrow> timer) \<Rightarrow> nat list \<times> entry list \<times> (nat \<Rightarrow> timer)" where
  "timer_loop now [] h = ([], [], h)"
| "timer_loop now ((k, a) # es) h =
     (if expiration (h a) \<le>s now then
        case timer_run (h a) of (called, t) \<Rightarrow>
          (case timer_loop now es (h(a := t)) of (fired, es, h) \<Rightarrow>
             ((if called then a # fired else fired), (if repeatCount t = 0 then es else (k, a) # es), h))
      else ([], (k, a) # es, h))"

definition doTimer :: "i64 \<Rightarrow> timer_queue \<Rightarrow> nat list \<times> timer_queue" where
  "doTimer now q = (case timer_loop now (tq_entries q) (tq_timer q) of (fired, es, h) \<Rightarrow> (fired, q\<lparr>tq_entries := es, tq_timer := h\<rparr>))"

section \<open>Runs\<close>

text \<open>Operations in the order in which the loop performs them; a new timer has an address that no entry uses.\<close>

datatype timer_op = Every nat i64 i64 | Remove nat | Cancel nat bool | Tick i64

fun timer_step :: "timer_op \<Rightarrow> timer_queue \<Rightarrow> nat list \<times> timer_queue" where
  "timer_step (Every a now p) q = ([], if a \<in> snd ` set (tq_entries q) then q else runEvery a now p q)"
| "timer_step (Remove a) q = ([], removeTimerInLoop a q)"
| "timer_step (Cancel a off) q = ([], cancelTimerInLoop a off q)"
| "timer_step (Tick now) q = doTimer now q"

fun timer_runs :: "timer_op list \<Rightarrow> timer_queue \<Rightarrow> nat list list \<times> timer_queue" where
  "timer_runs [] q = ([], q)"
| "timer_runs (x # xs) q = (case timer_step x q of (fired, q) \<Rightarrow> case timer_runs xs q of (fs, q) \<Rightarrow> (fired # fs, q))"

definition no_timers :: timer_queue where
  "no_timers = \<lparr>tq_entries = [], tq_timer = \<lambda>_. \<lparr>expiration = 0, interval = 0, repeatCount = 0, timer_sequence = 0, canceled = False\<rparr>,
     numCreated = 0\<rparr>"

section \<open>Invariant\<close>

text \<open>The entries are those of a set, each timer is in at most one of them and repeats.\<close>

definition queue_ok :: "timer_queue \<Rightarrow> bool" where
  "queue_ok q \<longleftrightarrow> sorted_wrt entry_less (tq_entries q) \<and> distinct (map snd (tq_entries q)) \<and>
     (\<forall>e\<in>set (tq_entries q). repeatCount (tq_timer q (snd e)) = - 1)"

lemma set_set_insert: "e \<in> set (set_insert f es) \<Longrightarrow> e = f \<or> e \<in> set es"
  by (induction es) (auto split: if_splits)

lemma entry_less_trans: "entry_less e f \<Longrightarrow> entry_less f g \<Longrightarrow> entry_less e g"
  by (auto simp: entry_less_def word_sless_alt)

lemma sorted_set_insert: "sorted_wrt entry_less es \<Longrightarrow> sorted_wrt entry_less (set_insert e es)"
  by (induction es) (auto dest: set_set_insert intro: entry_less_trans)

lemma distinct_set_insert: "snd e \<notin> snd ` set es \<Longrightarrow> distinct (map snd es) \<Longrightarrow> distinct (map snd (set_insert e es))"
  by (induction es) (auto dest: set_set_insert)

lemma erase_first_subset: "set (erase_first P xs) \<subseteq> set xs"
  by (induction xs) auto

lemma sorted_erase_first: "sorted_wrt R xs \<Longrightarrow> sorted_wrt R (erase_first P xs)"
  using erase_first_subset by (induction xs) fastforce+

lemma distinct_erase_first: "distinct (map f xs) \<Longrightarrow> distinct (map f (erase_first P xs))"
  using erase_first_subset by (induction xs) fastforce+

text \<open>What \<open>doTimer\<close> does, without a loop.\<close>

definition due :: "i64 \<Rightarrow> (nat \<Rightarrow> timer) \<Rightarrow> entry \<Rightarrow> bool" where
  "due now h e \<longleftrightarrow> expiration (h (snd e)) \<le>s now"

definition advance :: "timer \<Rightarrow> timer" where
  "advance t = (if canceled t then t else t\<lparr>expiration := expiration t + interval t\<rparr>)"

lemma timer_loop_due:
  assumes "distinct (map snd es)" "\<forall>e\<in>set es. repeatCount (h (snd e)) = - 1"
  shows "timer_loop now es h =
    (filter (\<lambda>a. \<not> canceled (h a)) (map snd (takeWhile (due now h) es)), es,
     \<lambda>a. if a \<in> snd ` set (takeWhile (due now h) es) then advance (h a) else h a)"
  using assms
proof (induction es arbitrary: h)
  case (Cons e es)
  obtain k a where e: "e = (k, a)" by (cases e)
  show ?case
  proof (cases "expiration (h a) \<le>s now")
    case True
    have run: "timer_run (h a) = (\<not> canceled (h a), advance (h a))" "repeatCount (advance (h a)) = - 1"
      using Cons.prems(2) by (auto simp: timer_run_def advance_def e Let_def)
    have same: "due now (h(a := t)) f = due now h f" if "f \<in> set es" for f t
      using that Cons.prems(1) by (auto simp: due_def e)
    then have tw: "takeWhile (due now (h(a := t))) es = takeWhile (due now h) es" for t
      by (rule takeWhile_cong [OF refl])
    have "\<forall>f\<in>set es. snd f \<noteq> a" using Cons.prems(1) by (auto simp: e)
    with Cons.prems have IH: "timer_loop now es (h(a := t)) =
        (filter (\<lambda>b. \<not> canceled ((h(a := t)) b)) (map snd (takeWhile (due now (h(a := t))) es)), es,
         \<lambda>b. if b \<in> snd ` set (takeWhile (due now (h(a := t))) es) then advance ((h(a := t)) b) else (h(a := t)) b)" for t
      by (intro Cons.IH) (auto simp: e)
    have notin: "a \<notin> snd ` set (takeWhile (due now h) es)" using Cons.prems(1) by (auto simp: e dest: set_takeWhileD)
    have flt: "filter (\<lambda>b. \<not> canceled ((h(a := t)) b)) (map snd (takeWhile (due now h) es)) =
        filter (\<lambda>b. \<not> canceled (h b)) (map snd (takeWhile (due now h) es))" for t
      using notin by (intro filter_cong) auto
    show ?thesis using True notin
      by (simp add: e run IH tw flt [simplified]) (auto simp: due_def fun_eq_iff image_iff)
  qed (simp add: e due_def)
qed simp

lemma queue_ok_doTimer:
  assumes "queue_ok q"
  shows "doTimer now q = (filter (\<lambda>a. \<not> canceled (tq_timer q a)) (map snd (takeWhile (due now (tq_timer q)) (tq_entries q))),
    q\<lparr>tq_timer := \<lambda>a. if a \<in> snd ` set (takeWhile (due now (tq_timer q)) (tq_entries q)) then advance (tq_timer q a) else tq_timer q a\<rparr>)"
    "queue_ok (snd (doTimer now q))"
proof -
  show eq: "doTimer now q = (filter (\<lambda>a. \<not> canceled (tq_timer q a)) (map snd (takeWhile (due now (tq_timer q)) (tq_entries q))),
    q\<lparr>tq_timer := \<lambda>a. if a \<in> snd ` set (takeWhile (due now (tq_timer q)) (tq_entries q)) then advance (tq_timer q a) else tq_timer q a\<rparr>)"
    using assms by (simp add: doTimer_def queue_ok_def timer_loop_due)
  have "repeatCount (advance t) = repeatCount t" for t by (simp add: advance_def)
  with assms show "queue_ok (snd (doTimer now q))" by (simp add: eq queue_ok_def)
qed

lemma queue_ok_step: "queue_ok q \<Longrightarrow> queue_ok (snd (timer_step x q))"
proof (cases x)
  case (Every a now p)
  assume q: "queue_ok q"
  show ?thesis
  proof (cases "a \<in> snd ` set (tq_entries q)")
    case False
    have "\<forall>e\<in>set (set_insert (now + p, a) (tq_entries q)). snd e = a \<or> e \<in> set (tq_entries q)"
      by (auto dest: set_set_insert)
    with q False show ?thesis
      by (auto simp: Every runEvery_def addTimer_def addTime_def queue_ok_def sorted_set_insert image_iff intro!: distinct_set_insert)
  qed (simp add: Every q)
next
  case (Remove a)
  assume "queue_ok q"
  then show ?thesis using erase_first_subset [of "\<lambda>e. snd e = a" "tq_entries q"]
    by (auto simp: Remove removeTimerInLoop_def queue_ok_def sorted_erase_first distinct_erase_first)
next
  case (Cancel a off)
  assume "queue_ok q"
  then show ?thesis by (auto simp: Cancel cancelTimerInLoop_def queue_ok_def timer_cancel_def)
qed (simp add: queue_ok_doTimer(2))

lemma queue_ok_runs: "queue_ok q \<Longrightarrow> queue_ok (snd (timer_runs xs q))"
proof (induction xs arbitrary: q)
  case (Cons x xs)
  from queue_ok_step [OF Cons.prems, of x] Cons.IH [of "snd (timer_step x q)"] show ?case
    by (simp split: prod.split) (metis snd_conv)
qed simp

lemma queue_ok_none: "queue_ok no_timers"
  by (simp add: queue_ok_def no_timers_def)

text \<open>C15: In every state that adding, removing, cancelling and running timers leads to, \<open>doTimer\<close> calls the
  timers of the longest stretch of the set, in its order, of which all are due, except the cancelled
  ones, each once, and moves exactly these on by their interval.\<close>

theorem doTimer_runs_due_stretch:
  "let q = snd (timer_runs ops no_timers); stretch = takeWhile (due now (tq_timer q)) (tq_entries q)
   in fst (doTimer now q) = filter (\<lambda>a. \<not> canceled (tq_timer q a)) (map snd stretch) \<and> distinct (fst (doTimer now q)) \<and>
      tq_entries (snd (doTimer now q)) = tq_entries q \<and>
      tq_timer (snd (doTimer now q)) = (\<lambda>a. if a \<in> snd ` set stretch then advance (tq_timer q a) else tq_timer q a)"
proof -
  define q where "q = snd (timer_runs ops no_timers)"
  have ok: "queue_ok q" unfolding q_def by (rule queue_ok_runs [OF queue_ok_none])
  then have "distinct (map snd (takeWhile (due now (tq_timer q)) (tq_entries q)))"
    by (metis queue_ok_def distinct_take takeWhile_eq_take take_map)
  then show ?thesis unfolding q_def [symmetric] by (simp add: queue_ok_doTimer(1) [OF ok] Let_def)
qed

section \<open>Starvation\<close>

text \<open>The ticks of a loop, one after the other.\<close>

fun ticks :: "i64 list \<Rightarrow> timer_queue \<Rightarrow> nat list \<times> timer_queue" where
  "ticks [] q = ([], q)"
| "ticks (t # ts) q = (case doTimer t q of (fired, q) \<Rightarrow> case ticks ts q of (fs, q) \<Rightarrow> (fired @ fs, q))"

lemma takeWhile_prefix_in:
  assumes "y \<in> set (takeWhile P (xs @ x # ys))" "y \<notin> set xs"
  shows "x \<in> set (takeWhile P (xs @ x # ys))"
  using assms
proof (induction xs)
  case Nil
  then show ?case by (cases "P x") simp_all
next
  case (Cons z xs)
  then show ?case by (cases "P z") auto
qed

lemma distinct_count: "distinct xs \<Longrightarrow> count_list xs x \<le> 1"
  by (induction xs) (auto simp: count_notin)

lemma blocked_count:
  assumes "queue_ok q" "tq_entries q = es @ (k, a) # fs" "(l, b) \<in> set fs" "\<not> canceled (tq_timer q a)"
  shows "count_list (fst (ticks ts q)) b \<le> count_list (fst (ticks ts q)) a"
  using assms
proof (induction ts arbitrary: q)
  case (Cons t ts)
  let ?W = "takeWhile (due t (tq_timer q)) (tq_entries q)" and ?q = "snd (doTimer t q)"
  have d: "distinct (map snd (tq_entries q))" using Cons.prems(1) by (simp add: queue_ok_def)
  have dW: "distinct (map snd ?W)" using d by (metis distinct_take takeWhile_eq_take take_map)
  have once: "count_list (filter P (map snd ?W)) x \<le> 1" for P x
    using dW by (intro distinct_count distinct_filter)
  have fired: "fst (doTimer t q) = filter (\<lambda>a. \<not> canceled (tq_timer q a)) (map snd ?W)"
    by (simp add: queue_ok_doTimer(1) [OF Cons.prems(1)])
  have here: "count_list (fst (doTimer t q)) b \<le> count_list (fst (doTimer t q)) a"
  proof (cases "b \<in> set (fst (doTimer t q))")
    case True
    then obtain m where m: "(m, b) \<in> set ?W" by (auto simp: fired)
    moreover have "(m, b) \<notin> set es"
    proof
      assume "(m, b) \<in> set es"
      with Cons.prems(3) d show False by (force simp: Cons.prems(2))
    qed
    ultimately have "(k, a) \<in> set ?W" unfolding Cons.prems(2) by (rule takeWhile_prefix_in)
    then have "a \<in> set (fst (doTimer t q))" using Cons.prems(4) by (force simp: fired)
    then have "0 < count_list (fst (doTimer t q)) a" by (metis count_list_0_iff neq0_conv)
    moreover have "count_list (fst (doTimer t q)) b \<le> 1" unfolding fired by (rule once)
    ultimately show ?thesis by simp
  qed (simp add: count_notin)
  have "queue_ok ?q" by (rule queue_ok_doTimer(2) [OF Cons.prems(1)])
  moreover have "tq_entries ?q = tq_entries q" "canceled (tq_timer ?q a) = canceled (tq_timer q a)"
    by (simp_all add: queue_ok_doTimer(1) [OF Cons.prems(1)] advance_def)
  ultimately have "count_list (fst (ticks ts ?q)) b \<le> count_list (fst (ticks ts ?q)) a"
    using Cons.prems by (intro Cons.IH) simp_all
  with here show ?case by (simp split: prod.split) (metis add_mono fst_conv snd_conv)
qed simp

lemma sint_plus_small:
  fixes e i :: i64
  assumes "0 < sint i" "sint e + sint i < 2 ^ 63"
  shows "sint (e + i) = sint e + sint i"
  using assms sint_greater_eq [of e] by (simp add: sint_word_ariths signed_take_bit_int_eq_self)

lemma fired_bound:
  assumes "queue_ok q" "\<not> canceled (tq_timer q a)" "0 < sint (interval (tq_timer q a))" "\<forall>t\<in>set ts. sint t \<le> T"
    "T + sint (interval (tq_timer q a)) < 2 ^ 63"
  shows "int (count_list (fst (ticks ts q)) a) \<le> max 0 ((T - sint (expiration (tq_timer q a))) div sint (interval (tq_timer q a)) + 1)"
  using assms
proof (induction ts arbitrary: q)
  case (Cons t ts)
  let ?W = "takeWhile (due t (tq_timer q)) (tq_entries q)" and ?q = "snd (doTimer t q)" and ?t = "tq_timer q a"
  have d: "distinct (map snd ?W)" using Cons.prems(1) by (metis queue_ok_def distinct_take takeWhile_eq_take take_map)
  note run = queue_ok_doTimer [OF Cons.prems(1), of t]
  have split: "count_list (fst (ticks (t # ts) q)) a = count_list (fst (doTimer t q)) a + count_list (fst (ticks ts ?q)) a"
    by (simp split: prod.split)
  have IH: "int (count_list (fst (ticks ts ?q)) a) \<le> max 0 ((T - sint (expiration (tq_timer ?q a))) div sint (interval (tq_timer ?q a)) + 1)"
    by (rule Cons.IH) (use Cons.prems run in \<open>auto simp: advance_def\<close>)
  show ?case
  proof (cases "a \<in> snd ` set ?W")
    case True
    then have e: "sint (expiration ?t) \<le> sint t" by (auto simp: due_def word_sle_eq dest!: set_takeWhileD)
    then have le: "sint (expiration ?t) \<le> T" using Cons.prems(4) by simp
    have new: "tq_timer ?q a = ?t\<lparr>expiration := expiration ?t + interval ?t\<rparr>"
      using True Cons.prems(2) by (simp add: run(1) advance_def)
    have "sint (expiration ?t + interval ?t) = sint (expiration ?t) + sint (interval ?t)"
      using Cons.prems(3,5) le by (intro sint_plus_small) simp_all
    moreover have "(T - (sint (expiration ?t) + sint (interval ?t))) div sint (interval ?t) = (T - sint (expiration ?t)) div sint (interval ?t) - 1"
      using Cons.prems(3) div_add_self2 [of "sint (interval ?t)" "T - sint (expiration ?t) - sint (interval ?t)"] by (simp add: algebra_simps)
    ultimately have "int (count_list (fst (ticks ts ?q)) a) \<le> max 0 ((T - sint (expiration ?t)) div sint (interval ?t))"
      using IH by (simp add: new)
    moreover have "0 \<le> (T - sint (expiration ?t)) div sint (interval ?t)" using le Cons.prems(3) by (simp add: pos_imp_zdiv_nonneg_iff)
    moreover have "count_list (fst (doTimer t q)) a \<le> 1" unfolding run(1) fst_conv using d by (intro distinct_count distinct_filter)
    ultimately show ?thesis unfolding split by simp
  next
    case False
    then have "count_list (fst (doTimer t q)) a = 0" "tq_timer ?q a = ?t" by (auto simp: run(1) count_list_0_iff)
    then show ?thesis using IH unfolding split by simp
  qed
qed simp

text \<open>C16: A timer that stands behind another one in the set is called at most as often as that one, and the
  one in front at most once per interval from its expiration on, so that the interval of the timer behind
  does not matter: behind an hourly timer it is called at most once per hour. The key of a timer is its
  first expiration. The set is one that additions and ticks lead to, the timer in front is not canceled and
  repeats, and the ticks are up to a time \<open>T\<close> that leaves room for the interval in 63 bits.\<close>

theorem long_timer_starves_later_ones:
  assumes q: "q = snd (timer_runs ops no_timers)" and order: "tq_entries q = es @ (k, a) # fs" "(l, b) \<in> set fs"
    and a: "\<not> canceled (tq_timer q a)" "0 < sint (interval (tq_timer q a))"
    and ts: "\<forall>t\<in>set ts. sint t \<le> T" "T + sint (interval (tq_timer q a)) < 2 ^ 63"
  shows "count_list (fst (ticks ts q)) b \<le> count_list (fst (ticks ts q)) a \<and>
    int (count_list (fst (ticks ts q)) a) \<le> max 0 ((T - sint (expiration (tq_timer q a))) div sint (interval (tq_timer q a)) + 1)"
proof -
  have ok: "queue_ok q" unfolding q by (rule queue_ok_runs [OF queue_ok_none])
  from blocked_count [OF ok order a(1), of ts] fired_bound [OF ok a ts] show ?thesis by simp
qed

text \<open>An hourly timer that was just called and a timer of one second that is added then: up to just before
  the next hour the second one is never called.\<close>

lemma long_timer_starves_later_ones_witness:
  "count_list (fst (ticks [3601000000, 3602000000, 5000000000, 7199999999]
      (snd (timer_runs [Every 1 0 3600000000, Tick 3600000000, Every 2 3600000000 1000000] no_timers)))) 2 \<le> 0"
proof -
  let ?q = "snd (timer_runs [Every 1 0 3600000000, Tick 3600000000, Every 2 3600000000 1000000] no_timers)"
  have q: "tq_entries ?q = [(3600000000, 1), (3601000000, 2)]" "\<not> canceled (tq_timer ?q 1)"
    "sint (interval (tq_timer ?q 1)) = 3600000000" "sint (expiration (tq_timer ?q 1)) = 7200000000"
    by (simp_all add: runEvery_def addTimer_def addTime_def no_timers_def doTimer_def timer_run_def entry_less_def word_sless_alt word_sle_eq)
  have "count_list (fst (ticks [3601000000, 3602000000, 5000000000, 7199999999] ?q)) 2 \<le>
      count_list (fst (ticks [3601000000, 3602000000, 5000000000, 7199999999] ?q)) 1 \<and>
    int (count_list (fst (ticks [3601000000, 3602000000, 5000000000, 7199999999] ?q)) 1) \<le>
      max 0 ((7199999999 - sint (expiration (tq_timer ?q 1))) div sint (interval (tq_timer ?q 1)) + 1)"
    by (rule long_timer_starves_later_ones [OF refl, where es = "[]" and fs = "[(3601000000, 2)]"]) (simp_all only: q, simp_all)
  then show ?thesis unfolding q by simp
qed

end
