(* ===== verification/Net_Conn.thy ===== *)
theory Net_Conn
  imports Net_Buffer
begin

text \<open>
  Connections of a server: \<open>net/Channel.cpp\<close>, \<open>net/EpollPoller.cpp\<close>, \<open>net/TcpConnection.cpp\<close>, \<open>net/TcpServer.cpp\<close>
  and the pending functors of \<open>net/EventLoop.cpp\<close>. The server has a loop of its own and one loop that
  serves the connections; each loop runs the functors queued on it. A connection and its channel are a
  number, objects are never freed. Results of system calls come from the outside, one for each
  call. What the user's callbacks are told is recorded in \<open>n_log\<close>; what they do (send, close) are
  steps of their own.
\<close>

section \<open>Channels\<close>

type_synonym u32 = "32 word"

definition kNoneEvent :: u32 where "kNoneEvent = 0"
definition kReadEvent :: u32 where "kReadEvent = 0"
definition kWriteEvent :: u32 where "kWriteEvent = 0"

abbreviation (input) "EPOLLIN \<equiv> (0x001 :: u32)"
abbreviation (input) "EPOLLPRI \<equiv> (0x002 :: u32)"
abbreviation (input) "EPOLLOUT \<equiv> (0x004 :: u32)"
abbreviation (input) "EPOLLERR \<equiv> (0x008 :: u32)"
abbreviation (input) "EPOLLHUP \<equiv> (0x010 :: u32)"
abbreviation (input) "EPOLLRDHUP \<equiv> (0x2000 :: u32)"

record channel =
  ch_fd :: int
  ch_events :: u32
  ch_index :: int
  ch_tied :: bool

definition isNoneEvent :: "channel \<Rightarrow> bool" where
  "isNoneEvent ch \<longleftrightarrow> ch_events ch = kNoneEvent"

definition isWriting :: "channel \<Rightarrow> bool" where
  "isWriting ch \<longleftrightarrow> ch_events ch = kWriteEvent"

abbreviation (input) "kNew \<equiv> (- 1 :: int)"
abbreviation (input) "kAdded \<equiv> (1 :: int)"
abbreviation (input) "kDeleted \<equiv> (2 :: int)"

section \<open>State\<close>

datatype conn_state = kDisconnected | kConnecting | kConnected | kDisconnecting

record tcp_conn =
  tc_state :: conn_state
  inputBuffer :: Buffer
  outputBuffer :: Buffer
  tc_write_complete :: bool
  highWaterMark :: "nat option"

text \<open>Functors of the serving loop, and of the server's loop.\<close>

datatype functor' = Established nat | Destroyed nat | ForceClose nat | SendString nat "byte list" | WriteComplete nat | HighWater nat nat

datatype net_out = ConnectionCallback nat bool | MessageCallback nat | WriteCompleteCallback nat | HighWaterMarkCallback nat nat
  | Sends nat "byte list" | Wrote nat "byte list" | ShutdownWrite nat

record net =
  n_chan :: "nat \<Rightarrow> channel"
  n_channels :: "int \<Rightarrow> nat option option"
  n_conn :: "nat \<Rightarrow> tcp_conn"
  n_connections :: "nat list"
  nextConnId :: nat
  pendingFunctors :: "functor' list"
  n_removals :: "nat list"
  n_calls :: nat
  n_log :: "net_out list"

text \<open>System calls: whether \<open>epoll_ctl\<close> succeeds, what \<open>read\<close> returns and what it stores in the second
  buffer, what \<open>write\<close> returns.\<close>

datatype write_result = Written nat | WouldBlock | ConnReset | OtherError

record net_env =
  ne_ctl :: "nat \<Rightarrow> bool"
  ne_read :: "nat \<Rightarrow> int \<times> byte list"
  ne_write :: "nat \<Rightarrow> write_result"

definition upd_chan :: "nat \<Rightarrow> (channel \<Rightarrow> channel) \<Rightarrow> net \<Rightarrow> net" where
  "upd_chan c f s = s\<lparr>n_chan := (n_chan s)(c := f (n_chan s c))\<rparr>"

definition upd_tcp :: "nat \<Rightarrow> (tcp_conn \<Rightarrow> tcp_conn) \<Rightarrow> net \<Rightarrow> net" where
  "upd_tcp c f s = s\<lparr>n_conn := (n_conn s)(c := f (n_conn s c))\<rparr>"

definition log_out :: "net_out \<Rightarrow> net \<Rightarrow> net" where
  "log_out x s = s\<lparr>n_log := n_log s @ [x]\<rparr>"

definition queueInLoop :: "functor' \<Rightarrow> net \<Rightarrow> net" where
  "queueInLoop f s = s\<lparr>pendingFunctors := pendingFunctors s @ [f]\<rparr>"

definition sys_call :: "net \<Rightarrow> net" where
  "sys_call s = s\<lparr>n_calls := n_calls s + 1\<rparr>"

section \<open>\<open>EpollPoller\<close>\<close>

text \<open>\<open>update\<close> makes a call of \<open>epoll_ctl\<close>.\<close>

definition poller_update :: "net_env \<Rightarrow> net \<Rightarrow> bool \<times> net" where
  "poller_update e s = (ne_ctl e (n_calls s), sys_call s)"

definition updateChannel :: "net_env \<Rightarrow> nat \<Rightarrow> net \<Rightarrow> bool \<times> net" where
  "updateChannel e c s =
     (let ch = n_chan s c; fd = ch_fd ch
      in if ch_index ch = kNew then
           (if n_channels s fd \<noteq> None then (False, s)
            else poller_update e (upd_chan c (\<lambda>ch. ch\<lparr>ch_index := kAdded\<rparr>) (s\<lparr>n_channels := (n_channels s)(fd \<mapsto> Some c)\<rparr>)))
         else if ch_index ch = kDeleted then
           (if n_channels s fd \<noteq> Some (Some c) then (False, s)
            else poller_update e (upd_chan c (\<lambda>ch. ch\<lparr>ch_index := kAdded\<rparr>) s))
         else if n_channels s fd \<noteq> Some (Some c) \<or> ch_index ch \<noteq> kAdded then (False, s)
         else if isNoneEvent ch then
           (case poller_update e s of (ok, s) \<Rightarrow>
              if ok then (True, upd_chan c (\<lambda>ch. ch\<lparr>ch_index := kDeleted\<rparr>) s) else (False, s))
         else poller_update e s)"

text \<open>\<open>channels[fd]\<close> makes an entry with a null pointer where there is none.\<close>

definition poller_removeChannel :: "net_env \<Rightarrow> nat \<Rightarrow> net \<Rightarrow> net" where
  "poller_removeChannel e c s =
     (let ch = n_chan s c; fd = ch_fd ch; i = ch_index ch;
          s = (if n_channels s fd = None then s\<lparr>n_channels := (n_channels s)(fd \<mapsto> None)\<rparr> else s)
      in if n_channels s fd = Some (Some c) \<or> \<not> isNoneEvent ch then s
         else if i \<noteq> kAdded \<and> i \<noteq> kDeleted then s
         else
           let s = s\<lparr>n_channels := (n_channels s)(fd := None)\<rparr>;
               s = (if i = kAdded then snd (poller_update e s) else s)
           in upd_chan c (\<lambda>ch. ch\<lparr>ch_index := kNew\<rparr>) s)"

section \<open>\<open>Channel\<close>\<close>

definition set_events :: "net_env \<Rightarrow> (u32 \<Rightarrow> u32) \<Rightarrow> nat \<Rightarrow> net \<Rightarrow> bool \<times> net" where
  "set_events e f c s = updateChannel e c (upd_chan c (\<lambda>ch. ch\<lparr>ch_events := f (ch_events ch)\<rparr>) s)"

definition enableReading :: "net_env \<Rightarrow> nat \<Rightarrow> net \<Rightarrow> bool \<times> net" where
  "enableReading e = set_events e (\<lambda>ev. ev OR kReadEvent)"

definition disableReading :: "net_env \<Rightarrow> nat \<Rightarrow> net \<Rightarrow> bool \<times> net" where
  "disableReading e = set_events e (\<lambda>ev. ev AND NOT kReadEvent)"

definition enableWriting :: "net_env \<Rightarrow> nat \<Rightarrow> net \<Rightarrow> bool \<times> net" where
  "enableWriting e = set_events e (\<lambda>ev. ev OR kWriteEvent)"

definition disableWriting :: "net_env \<Rightarrow> nat \<Rightarrow> net \<Rightarrow> bool \<times> net" where
  "disableWriting e = set_events e (\<lambda>ev. ev AND NOT kWriteEvent)"

definition disableAll :: "net_env \<Rightarrow> nat \<Rightarrow> net \<Rightarrow> bool \<times> net" where
  "disableAll e = set_events e (\<lambda>ev. kNoneEvent)"

definition channel_remove :: "net_env \<Rightarrow> nat \<Rightarrow> net \<Rightarrow> net" where
  "channel_remove e c s = (if \<not> isNoneEvent (n_chan s c) then s else poller_removeChannel e c s)"

section \<open>\<open>TcpConnection\<close>\<close>

definition setState :: "conn_state \<Rightarrow> nat \<Rightarrow> net \<Rightarrow> net" where
  "setState st c s = upd_tcp c (\<lambda>t. t\<lparr>tc_state := st\<rparr>) s"

definition connectionCallback :: "nat \<Rightarrow> net \<Rightarrow> net" where
  "connectionCallback c s = log_out (ConnectionCallback c (tc_state (n_conn s c) = kConnected)) s"

text \<open>The close callback is \<open>TcpServer::removeConnection\<close>, which queues on the server's loop.\<close>

definition removeConnection :: "nat \<Rightarrow> net \<Rightarrow> net" where
  "removeConnection c s = s\<lparr>n_removals := n_removals s @ [c]\<rparr>"

definition handleClose :: "net_env \<Rightarrow> nat \<Rightarrow> net \<Rightarrow> net" where
  "handleClose e c s =
     (if tc_state (n_conn s c) = kDisconnected then s
      else
        let s = setState kDisconnected c s;
            s = snd (disableAll e c s)
        in removeConnection c (connectionCallback c s))"

definition handleError :: "net_env \<Rightarrow> nat \<Rightarrow> net \<Rightarrow> net" where
  "handleError e c s = handleClose e c s"

definition handleRead :: "net_env \<Rightarrow> nat \<Rightarrow> net \<Rightarrow> net" where
  "handleRead e c s =
     (case ne_read e (n_calls s) of (n, extrabuf) \<Rightarrow>
        case readFd n extrabuf (inputBuffer (n_conn s c)) of (ret, b) \<Rightarrow>
          let s = upd_tcp c (\<lambda>t. t\<lparr>inputBuffer := b\<rparr>) (sys_call s)
          in if ret > 0 then log_out (MessageCallback c) s
             else if ret = 0 then handleClose e c s
             else handleError e c s)"

definition shutdownInLoop :: "nat \<Rightarrow> net \<Rightarrow> net" where
  "shutdownInLoop c s = (if \<not> isWriting (n_chan s c) then log_out (ShutdownWrite c) s else s)"

text \<open>\<open>sockets::write\<close> of a connection: what is written, \<open>None\<close> is an error. It never writes more than asked.\<close>

definition socket_write :: "net_env \<Rightarrow> nat \<Rightarrow> byte list \<Rightarrow> net \<Rightarrow> write_result \<times> net" where
  "socket_write e c d s =
     (case ne_write e (n_calls s) of
        Written n \<Rightarrow> (Written (min n (length d)), log_out (Wrote c (take n d)) (sys_call s))
      | r \<Rightarrow> (r, sys_call s))"

definition handleWrite :: "net_env \<Rightarrow> nat \<Rightarrow> net \<Rightarrow> net" where
  "handleWrite e c s =
     (if isWriting (n_chan s c) then
        (let out = outputBuffer (n_conn s c)
         in case socket_write e c (content out) s of (r, s) \<Rightarrow>
           (case r of
              Written n \<Rightarrow>
                if n > 0 then
                  let s = upd_tcp c (\<lambda>t. t\<lparr>outputBuffer := snd (retrieve n (outputBuffer t))\<rparr>) s
                  in if readableBytes (outputBuffer (n_conn s c)) = 0 then
                       let s = snd (disableWriting e c s);
                           s = (if tc_write_complete (n_conn s c) then queueInLoop (WriteComplete c) s else s)
                       in if tc_state (n_conn s c) = kDisconnecting then shutdownInLoop c s else s
                     else s
                else handleClose e c s
            | _ \<Rightarrow> handleClose e c s))
      else s)"

definition sendInLoop :: "net_env \<Rightarrow> nat \<Rightarrow> byte list \<Rightarrow> net \<Rightarrow> net" where
  "sendInLoop e c d s =
     (let s = log_out (Sends c d) s;
          t = n_conn s c;
          direct = (\<not> isWriting (n_chan s c) \<and> readableBytes (outputBuffer t) = 0)
      in case (if direct then socket_write e c d s else (WouldBlock, s)) of (r, s) \<Rightarrow>
         let nwrote = (case r of Written n \<Rightarrow> n | _ \<Rightarrow> 0);
             remaining = length d - nwrote;
             s = (if direct \<and> r = Written (length d) \<and> tc_write_complete t then queueInLoop (WriteComplete c) s else s)
         in if r \<noteq> ConnReset \<and> remaining > 0 then
              let oldLen = readableBytes (outputBuffer t);
                  s = (case highWaterMark t of
                         Some m \<Rightarrow> if oldLen + remaining \<ge> m \<and> oldLen < m then queueInLoop (HighWater c (oldLen + remaining)) s else s
                       | None \<Rightarrow> s);
                  s = upd_tcp c (\<lambda>t. t\<lparr>outputBuffer := append_data (drop nwrote d) (outputBuffer t)\<rparr>) s
              in if \<not> isWriting (n_chan s c) then snd (enableWriting e c s) else s
            else s)"

text \<open>\<open>send\<close> on a string, in the thread of the loop and in another one.\<close>

definition tcp_send :: "net_env \<Rightarrow> bool \<Rightarrow> nat \<Rightarrow> byte list \<Rightarrow> net \<Rightarrow> net" where
  "tcp_send e in_loop c d s =
     (if tc_state (n_conn s c) = kConnected
      then if in_loop then sendInLoop e c d s else queueInLoop (SendString c d) s
      else s)"

text \<open>\<open>shutdown\<close> binds the member \<open>closeCallback\<close> itself: calling the result reads the member and does
  nothing with it.\<close>

definition tcp_shutdown :: "nat \<Rightarrow> net \<Rightarrow> net" where
  "tcp_shutdown c s = (if tc_state (n_conn s c) = kConnected then setState kDisconnecting c s else s)"

definition forceClose :: "nat \<Rightarrow> net \<Rightarrow> net" where
  "forceClose c s =
     (if tc_state (n_conn s c) = kConnected \<or> tc_state (n_conn s c) = kDisconnecting
      then queueInLoop (ForceClose c) (setState kDisconnecting c s) else s)"

definition forceCloseInLoop :: "net_env \<Rightarrow> nat \<Rightarrow> net \<Rightarrow> net" where
  "forceCloseInLoop e c s =
     (if tc_state (n_conn s c) = kConnected \<or> tc_state (n_conn s c) = kDisconnecting then handleClose e c s else s)"

definition connectEstablished :: "net_env \<Rightarrow> nat \<Rightarrow> net \<Rightarrow> net" where
  "connectEstablished e c s =
     (if tc_state (n_conn s c) \<noteq> kConnecting then s
      else
        let s = setState kConnected c s;
            s = upd_chan c (\<lambda>ch. ch\<lparr>ch_tied := True\<rparr>) s
        in case enableReading e c s of (ok, s) \<Rightarrow>
             if \<not> ok then handleClose e c s else connectionCallback c s)"

definition connectDestroyed :: "net_env \<Rightarrow> nat \<Rightarrow> net \<Rightarrow> net" where
  "connectDestroyed e c s =
     (let s = (if tc_state (n_conn s c) = kConnected
               then connectionCallback c (snd (disableAll e c (setState kDisconnected c s))) else s)
      in channel_remove e c s)"

section \<open>Events of a channel\<close>

text \<open>\<open>Channel::handleEvent\<close> with the callbacks that \<open>TcpConnection\<close> sets.\<close>

definition handleEvent :: "net_env \<Rightarrow> nat \<Rightarrow> u32 \<Rightarrow> net \<Rightarrow> net" where
  "handleEvent e c revents s =
     (let s = (if revents AND EPOLLHUP \<noteq> 0 \<and> revents AND EPOLLIN = 0 then handleClose e c s else s);
          s = (if revents AND EPOLLERR \<noteq> 0 then handleError e c s else s);
          s = (if revents AND (EPOLLIN OR EPOLLPRI OR EPOLLRDHUP) \<noteq> 0 then handleRead e c s else s)
      in if revents AND EPOLLOUT \<noteq> 0 then handleWrite e c s else s)"

text \<open>\<open>fillActiveChannels\<close> passes an event on if the channel is the one in the table.\<close>

definition poll_event :: "net_env \<Rightarrow> nat \<Rightarrow> u32 \<Rightarrow> net \<Rightarrow> net" where
  "poll_event e c revents s =
     (if n_channels s (ch_fd (n_chan s c)) = Some (Some c) then handleEvent e c revents s else s)"

section \<open>\<open>TcpServer\<close> and the loops\<close>

definition newConnection :: "int \<Rightarrow> bool \<Rightarrow> nat option \<Rightarrow> net \<Rightarrow> net" where
  "newConnection fd wc hwm s =
     (let c = nextConnId s
      in queueInLoop (Established c)
           (s\<lparr>nextConnId := c + 1, n_connections := n_connections s @ [c],
             n_conn := (n_conn s)(c := \<lparr>tc_state = kConnecting, inputBuffer = mkBuffer kInitialSize,
               outputBuffer = mkBuffer kInitialSize, tc_write_complete = wc, highWaterMark = hwm\<rparr>),
             n_chan := (n_chan s)(c := \<lparr>ch_fd = fd, ch_events = 0, ch_index = kNew, ch_tied = False\<rparr>)\<rparr>))"

definition removeConnectionInLoop :: "nat \<Rightarrow> net \<Rightarrow> net" where
  "removeConnectionInLoop c s =
     (if c \<in> set (n_connections s)
      then queueInLoop (Destroyed c) (s\<lparr>n_connections := filter (\<lambda>d. d \<noteq> c) (n_connections s)\<rparr>) else s)"

definition run_functor :: "net_env \<Rightarrow> functor' \<Rightarrow> net \<Rightarrow> net" where
  "run_functor e f s =
     (case f of
        Established c \<Rightarrow> connectEstablished e c s
      | Destroyed c \<Rightarrow> connectDestroyed e c s
      | ForceClose c \<Rightarrow> forceCloseInLoop e c s
      | SendString c d \<Rightarrow> sendInLoop e c d s
      | WriteComplete c \<Rightarrow> log_out (WriteCompleteCallback c) s
      | HighWater c n \<Rightarrow> log_out (HighWaterMarkCallback c n) s)"

text \<open>The vector of functors is swapped out first, so that functors queued meanwhile run the next time.\<close>

definition doPendingFunctors :: "net_env \<Rightarrow> net \<Rightarrow> net" where
  "doPendingFunctors e s = fold (run_functor e) (pendingFunctors s) (s\<lparr>pendingFunctors := []\<rparr>)"

definition server_functors :: "net \<Rightarrow> net" where
  "server_functors s = fold removeConnectionInLoop (n_removals s) (s\<lparr>n_removals := []\<rparr>)"

section \<open>Runs\<close>

text \<open>Calls of users are for connections the server has made.\<close>

datatype net_event = Accept int bool "nat option" | Event nat u32 | Functors | ServerFunctors
  | Send bool nat "byte list" | Shutdown nat | Close nat

definition net_step :: "net_env \<Rightarrow> net_event \<Rightarrow> net \<Rightarrow> net" where
  "net_step e ev s =
     (case ev of
        Accept fd wc hwm \<Rightarrow> newConnection fd wc hwm s
      | Event c revents \<Rightarrow> if c < nextConnId s then poll_event e c revents s else s
      | Functors \<Rightarrow> doPendingFunctors e s
      | ServerFunctors \<Rightarrow> server_functors s
      | Send in_loop c d \<Rightarrow> if c < nextConnId s then tcp_send e in_loop c d s else s
      | Shutdown c \<Rightarrow> if c < nextConnId s then tcp_shutdown c s else s
      | Close c \<Rightarrow> if c < nextConnId s then forceClose c s else s)"

definition net_run :: "net_env \<Rightarrow> net_event list \<Rightarrow> net \<Rightarrow> net" where
  "net_run e evs s = fold (net_step e) evs s"

definition net_start :: net where
  "net_start = \<lparr>n_chan = \<lambda>_. \<lparr>ch_fd = 0, ch_events = 0, ch_index = kNew, ch_tied = False\<rparr>, n_channels = \<lambda>_. None,
     n_conn = \<lambda>_. \<lparr>tc_state = kDisconnected, inputBuffer = mkBuffer kInitialSize, outputBuffer = mkBuffer kInitialSize,
       tc_write_complete = False, highWaterMark = None\<rparr>,
     n_connections = [], nextConnId = 0, pendingFunctors = [], n_removals = [], n_calls = 0, n_log = []\<rparr>"

end
