(* ===== verification/Net_Server.thy ===== *)
theory Net_Server
  imports Net_Conn
begin

text \<open>
  What holds in every state of a server that \<open>Net_Conn\<close> models, whatever its clients, its users and the
  system calls do: the table of channels, the order of the bytes, the calls of the callbacks.
\<close>

section \<open>Channels\<close>

text \<open>The event constants are all 0, so that no channel ever asks for an event; a channel that was added
  stays in the table.\<close>

definition chan_ok :: "net \<Rightarrow> bool" where
  "chan_ok s \<longleftrightarrow> (\<forall>c. ch_events (n_chan s c) = 0) \<and>
     (\<forall>c. ch_index (n_chan s c) \<noteq> kNew \<longrightarrow> n_channels s (ch_fd (n_chan s c)) = Some (Some c))"

definition chan_step :: "net \<Rightarrow> net \<Rightarrow> bool" where
  "chan_step s s' \<longleftrightarrow> n_conn s' = n_conn s \<and> n_log s' = n_log s \<and> pendingFunctors s' = pendingFunctors s \<and>
     n_removals s' = n_removals s \<and> n_connections s' = n_connections s \<and> nextConnId s' = nextConnId s \<and> chan_ok s' \<and>
     (\<forall>c. ch_fd (n_chan s' c) = ch_fd (n_chan s c)) \<and>
     (\<forall>c. ch_index (n_chan s c) \<noteq> kNew \<longrightarrow> ch_index (n_chan s' c) \<noteq> kNew) \<and>
     (\<forall>fd. n_channels s fd \<noteq> None \<longrightarrow> n_channels s' fd = n_channels s fd)"

lemmas event_consts = kNoneEvent_def kReadEvent_def kWriteEvent_def
lemmas chan_defs = upd_chan_def sys_call_def poller_update_def isNoneEvent_def isWriting_def event_consts

lemma chan_step_refl: "chan_ok s \<Longrightarrow> chan_step s s"
  by (simp add: chan_step_def)

lemma chan_ok_events: "chan_ok s \<Longrightarrow> ch_events (n_chan s c) = 0"
  by (simp add: chan_ok_def)

lemma writing_always [simp]: "chan_ok s \<Longrightarrow> isWriting (n_chan s c)"
  by (simp add: chan_ok_def isWriting_def event_consts)

lemma chan_ok_events_idem: "chan_ok s \<Longrightarrow> f 0 = 0 \<Longrightarrow> upd_chan c (\<lambda>ch. ch\<lparr>ch_events := f (ch_events ch)\<rparr>) s = s"
  by (simp add: chan_ok_def upd_chan_def fun_upd_idem)

lemma update_step: "chan_ok s \<Longrightarrow> chan_step s (snd (updateChannel e c s))"
  by (auto simp: chan_step_def chan_ok_def updateChannel_def chan_defs Let_def)

lemma update_added: "fst (updateChannel e c s) \<Longrightarrow> ch_index (n_chan (snd (updateChannel e c s)) c) \<noteq> kNew"
  by (auto simp: updateChannel_def chan_defs Let_def split: if_splits)

lemma update_refused:
  "ch_index (n_chan s c) = kNew \<Longrightarrow> n_channels s (ch_fd (n_chan s c)) \<noteq> None \<Longrightarrow> updateChannel e c s = (False, s)"
  by (auto simp: updateChannel_def Let_def)

lemma set_events_eq: "chan_ok s \<Longrightarrow> f 0 = 0 \<Longrightarrow> set_events e f c s = updateChannel e c s"
  by (simp add: set_events_def chan_ok_events_idem)

lemma channel_ops:
  assumes "chan_ok s"
  shows "enableReading e c s = updateChannel e c s" "disableAll e c s = updateChannel e c s"
    "disableWriting e c s = updateChannel e c s" "enableWriting e c s = updateChannel e c s"
  using assms by (simp_all add: enableReading_def disableAll_def disableWriting_def enableWriting_def set_events_eq event_consts)

lemma remove_step: "chan_ok s \<Longrightarrow> chan_step s (channel_remove e c s)"
  by (auto simp: chan_step_def chan_ok_def channel_remove_def poller_removeChannel_def chan_defs Let_def)

section \<open>The log\<close>

fun sends :: "nat \<Rightarrow> net_out list \<Rightarrow> byte list" where
  "sends c [] = []"
| "sends c (x # xs) = (case x of Sends d bs \<Rightarrow> if d = c then bs else [] | _ \<Rightarrow> []) @ sends c xs"

fun wrote :: "nat \<Rightarrow> net_out list \<Rightarrow> byte list" where
  "wrote c [] = []"
| "wrote c (x # xs) = (case x of Wrote d bs \<Rightarrow> if d = c then bs else [] | _ \<Rightarrow> []) @ wrote c xs"

fun callbacks :: "nat \<Rightarrow> net_out list \<Rightarrow> bool list" where
  "callbacks c [] = []"
| "callbacks c (x # xs) = (case x of ConnectionCallback d up \<Rightarrow> if d = c then [up] else [] | _ \<Rightarrow> []) @ callbacks c xs"

lemma log_append [simp]:
  "sends c (xs @ ys) = sends c xs @ sends c ys" "wrote c (xs @ ys) = wrote c xs @ wrote c ys"
  "callbacks c (xs @ ys) = callbacks c xs @ callbacks c ys"
  by (induction xs) auto

section \<open>Invariant\<close>

fun functor_conn :: "functor' \<Rightarrow> nat" where
  "functor_conn (Established c) = c"
| "functor_conn (Destroyed c) = c"
| "functor_conn (ForceClose c) = c"
| "functor_conn (SendString c d) = c"
| "functor_conn (WriteComplete c) = c"
| "functor_conn (HighWater c n) = c"

fun typestate :: "conn_state \<Rightarrow> bool list \<Rightarrow> bool" where
  "typestate kConnecting cs = (cs = [])"
| "typestate kConnected cs = (cs = [True])"
| "typestate kDisconnecting cs = (cs = [True])"
| "typestate kDisconnected cs = (cs = [] \<or> cs = [False] \<or> cs = [True, False])"

text \<open>Everything but the type state of one connection, which is broken for a moment while it closes.\<close>

definition conn_ok :: "net \<Rightarrow> nat \<Rightarrow> bool" where
  "conn_ok s c \<longleftrightarrow> buffer_ok (outputBuffer (n_conn s c)) \<and>
     wrote c (n_log s) @ content (outputBuffer (n_conn s c)) = sends c (n_log s) \<and>
     (True \<in> set (callbacks c (n_log s)) \<longrightarrow> ch_index (n_chan s c) \<noteq> kNew) \<and>
     (nextConnId s \<le> c \<longrightarrow> sends c (n_log s) = [] \<and> wrote c (n_log s) = [] \<and> callbacks c (n_log s) = [] \<and> ch_index (n_chan s c) = kNew)"

definition net_inv :: "net \<Rightarrow> bool" where
  "net_inv s \<longleftrightarrow> chan_ok s \<and> (\<forall>c. conn_ok s c) \<and> (\<forall>f\<in>set (pendingFunctors s). functor_conn f < nextConnId s) \<and>
     (\<forall>c\<in>set (n_removals s). c < nextConnId s)"

definition net_ok :: "net \<Rightarrow> bool" where
  "net_ok s \<longleftrightarrow> net_inv s \<and> (\<forall>c. typestate (tc_state (n_conn s c)) (callbacks c (n_log s)))"

lemma inv_chan: "net_inv s \<Longrightarrow> chan_ok s"
  by (simp add: net_inv_def)

lemma chan_step_inv:
  assumes "net_inv s" "chan_step s s'" "\<forall>c\<ge>nextConnId s. ch_index (n_chan s' c) = kNew"
  shows "net_inv s'"
  using assms by (auto simp: net_inv_def conn_ok_def chan_step_def)

lemma update_fresh: "net_inv s \<Longrightarrow> c < nextConnId s \<Longrightarrow> \<forall>d\<ge>nextConnId s. ch_index (n_chan (snd (updateChannel e c s)) d) = kNew"
  by (auto simp: net_inv_def conn_ok_def updateChannel_def chan_defs Let_def)

lemma remove_fresh: "net_inv s \<Longrightarrow> \<forall>d\<ge>nextConnId s. ch_index (n_chan (channel_remove e c s) d) = kNew"
  by (auto simp: net_inv_def conn_ok_def channel_remove_def poller_removeChannel_def chan_defs Let_def)

lemma inv_update: "net_inv s \<Longrightarrow> c < nextConnId s \<Longrightarrow> net_inv (snd (updateChannel e c s))"
  by (rule chan_step_inv [OF _ update_step [OF inv_chan] update_fresh])

lemma inv_remove: "net_inv s \<Longrightarrow> net_inv (channel_remove e c s)"
  by (rule chan_step_inv [OF _ remove_step [OF inv_chan] remove_fresh])

section \<open>Every operation keeps the invariant\<close>

lemmas net_defs = setState_def connectionCallback_def removeConnection_def upd_tcp_def log_out_def queueInLoop_def sys_call_def

text \<open>A connection may be closed in any state, and at the moment it has become connected.\<close>

definition closable :: "net \<Rightarrow> nat \<Rightarrow> bool" where
  "closable s c \<longleftrightarrow> net_inv s \<and> c < nextConnId s \<and>
     (\<forall>d. d \<noteq> c \<longrightarrow> typestate (tc_state (n_conn s d)) (callbacks d (n_log s))) \<and>
     (if tc_state (n_conn s c) = kDisconnected then typestate kDisconnected (callbacks c (n_log s))
      else callbacks c (n_log s) = [] \<or> callbacks c (n_log s) = [True])"

lemma ok_closable: "net_ok s \<Longrightarrow> c < nextConnId s \<Longrightarrow> closable s c"
  unfolding closable_def net_ok_def by (cases "tc_state (n_conn s c)") (auto dest: spec [where x = c])

lemma inv_tcp:
  "net_inv s \<Longrightarrow> buffer_ok (outputBuffer (f (n_conn s c))) \<Longrightarrow> content (outputBuffer (f (n_conn s c))) = content (outputBuffer (n_conn s c))
   \<Longrightarrow> net_inv (upd_tcp c f s)"
  by (auto simp: net_inv_def conn_ok_def upd_tcp_def chan_ok_def)

lemma inv_buffer: "net_inv s \<Longrightarrow> buffer_ok (outputBuffer (n_conn s c))"
  by (simp add: net_inv_def conn_ok_def)

lemma inv_state: "net_inv s \<Longrightarrow> net_inv (setState st c s)"
  by (simp add: setState_def inv_tcp inv_buffer)

lemma inv_queue: "net_inv s \<Longrightarrow> functor_conn f < nextConnId s \<Longrightarrow> net_inv (queueInLoop f s)"
  by (auto simp: net_inv_def conn_ok_def queueInLoop_def chan_ok_def)

lemma inv_callback:
  "net_inv s \<Longrightarrow> c < nextConnId s \<Longrightarrow> tc_state (n_conn s c) = kConnected \<longrightarrow> ch_index (n_chan s c) \<noteq> kNew
   \<Longrightarrow> net_inv (connectionCallback c s)"
  by (auto simp: net_inv_def conn_ok_def connectionCallback_def log_out_def chan_ok_def)

lemma update_keeps [simp]:
  assumes "chan_ok s"
  shows "n_conn (snd (updateChannel e c s)) = n_conn s" "n_log (snd (updateChannel e c s)) = n_log s"
    "nextConnId (snd (updateChannel e c s)) = nextConnId s" "chan_ok (snd (updateChannel e c s))"
    "pendingFunctors (snd (updateChannel e c s)) = pendingFunctors s" "n_removals (snd (updateChannel e c s)) = n_removals s"
    "n_connections (snd (updateChannel e c s)) = n_connections s"
  using update_step [OF assms] by (simp_all add: chan_step_def)

lemma handleClose_ok:
  assumes "closable s c"
  shows "net_ok (handleClose e c s) \<and> nextConnId (handleClose e c s) = nextConnId s"
proof (cases "tc_state (n_conn s c) = kDisconnected")
  case True
  have "typestate (tc_state (n_conn s d)) (callbacks d (n_log s))" for d
    using assms True unfolding closable_def by (cases "d = c") simp_all
  with assms True show ?thesis by (simp add: handleClose_def net_ok_def closable_def)
next
  case False
  let ?s1 = "setState kDisconnected c s"
  let ?s2 = "snd (updateChannel e c ?s1)"
  have i1: "net_inv ?s1" and c1: "c < nextConnId ?s1" using assms by (auto simp: closable_def intro: inv_state) (simp add: net_defs)
  from i1 c1 have i2: "net_inv ?s2" by (rule inv_update)
  have ch: "chan_ok ?s1" using i1 by (rule inv_chan)
  have eq: "n_conn ?s2 = n_conn ?s1" "n_log ?s2 = n_log ?s1" "nextConnId ?s2 = nextConnId ?s1" using ch by simp_all
  have i3: "net_inv (connectionCallback c ?s2)"
    by (rule inv_callback [OF i2]) (use c1 eq in \<open>simp_all add: net_defs\<close>)
  have "net_inv (removeConnection c (connectionCallback c ?s2))"
    using i3 c1 eq by (auto simp: net_inv_def conn_ok_def removeConnection_def chan_ok_def connectionCallback_def log_out_def)
  moreover have "handleClose e c s = removeConnection c (connectionCallback c ?s2)"
    using False ch by (simp add: handleClose_def channel_ops)
  moreover have "typestate (tc_state (n_conn ?s2 d)) (callbacks d (n_log (connectionCallback c ?s2)))" for d
    using assms False eq by (auto simp: closable_def net_defs)
  moreover have "n_conn (removeConnection c (connectionCallback c ?s2)) = n_conn ?s2"
    "n_log (removeConnection c (connectionCallback c ?s2)) = n_log (connectionCallback c ?s2)"
    "nextConnId (removeConnection c (connectionCallback c ?s2)) = nextConnId s"
    using eq by (simp_all add: net_defs)
  ultimately show ?thesis by (simp add: net_ok_def)
qed

lemma net_ok_inv: "net_ok s \<Longrightarrow> net_inv s"
  by (simp add: net_ok_def)

text \<open>What a handler owes: the invariant, and no new connection.\<close>

definition net_keeps :: "net \<Rightarrow> net \<Rightarrow> bool" where
  "net_keeps s s' \<longleftrightarrow> net_ok s' \<and> nextConnId s' = nextConnId s"

lemma keeps_refl: "net_ok s \<Longrightarrow> net_keeps s s"
  by (simp add: net_keeps_def)

lemma keeps_trans: "net_keeps s t \<Longrightarrow> net_keeps t u \<Longrightarrow> net_keeps s u"
  by (simp add: net_keeps_def)

lemma keeps_ok: "net_keeps s t \<Longrightarrow> net_ok t"
  by (simp add: net_keeps_def)

lemma keeps_next: "net_keeps s t \<Longrightarrow> nextConnId t = nextConnId s"
  by (simp add: net_keeps_def)

lemma handleClose_keeps: "net_ok s \<Longrightarrow> c < nextConnId s \<Longrightarrow> net_keeps s (handleClose e c s)"
  using handleClose_ok [OF ok_closable] by (simp add: net_keeps_def)

lemma update_keeps_ok: "net_ok s \<Longrightarrow> c < nextConnId s \<Longrightarrow> net_keeps s (snd (updateChannel e c s))"
  by (auto simp: net_keeps_def net_ok_def inv_chan intro: inv_update)

lemma remove_keeps_ok: "net_ok s \<Longrightarrow> net_keeps s (channel_remove e c s)"
proof -
  assume ok: "net_ok s"
  have "chan_step s (channel_remove e c s)" using ok by (intro remove_step) (simp add: net_ok_def inv_chan)
  with ok inv_remove [of s e c] show ?thesis by (simp add: net_keeps_def net_ok_def chan_step_def)
qed

lemma queue_keeps: "net_ok s \<Longrightarrow> functor_conn f < nextConnId s \<Longrightarrow> net_keeps s (queueInLoop f s)"
  using inv_queue [of s f] by (simp add: net_keeps_def net_ok_def) (simp add: queueInLoop_def)

lemma call_keeps: "net_ok s \<Longrightarrow> net_keeps s (sys_call s)"
  by (simp add: net_keeps_def net_ok_def net_inv_def conn_ok_def chan_ok_def sys_call_def)

text \<open>Lines of the log that no invariant counts.\<close>

fun uncounted :: "net_out \<Rightarrow> bool" where
  "uncounted (MessageCallback c) = True"
| "uncounted (WriteCompleteCallback c) = True"
| "uncounted (HighWaterMarkCallback c n) = True"
| "uncounted (ShutdownWrite c) = True"
| "uncounted x = False"

lemma uncounted_empty: "uncounted x \<Longrightarrow> sends c [x] = [] \<and> wrote c [x] = [] \<and> callbacks c [x] = []"
  by (cases x) auto

lemma log_keeps: "net_ok s \<Longrightarrow> uncounted x \<Longrightarrow> net_keeps s (log_out x s)"
proof -
  assume ok: "net_ok s" and x: "uncounted x"
  have "sends c (n_log s @ [x]) = sends c (n_log s)" "wrote c (n_log s @ [x]) = wrote c (n_log s)"
    "callbacks c (n_log s @ [x]) = callbacks c (n_log s)" for c
    using uncounted_empty [OF x, of c] by (simp_all only: log_append append_Nil2)
  with ok show ?thesis
    by (simp add: net_keeps_def net_ok_def net_inv_def conn_ok_def chan_ok_def log_out_def del: log_append)
qed

lemma tcp_keeps:
  "net_ok s \<Longrightarrow> tc_state (f (n_conn s c)) = tc_state (n_conn s c) \<Longrightarrow> buffer_ok (outputBuffer (f (n_conn s c)))
   \<Longrightarrow> content (outputBuffer (f (n_conn s c))) = content (outputBuffer (n_conn s c)) \<Longrightarrow> net_keeps s (upd_tcp c f s)"
  using inv_tcp [of s f c] by (auto simp: net_keeps_def net_ok_def upd_tcp_def)

lemma ok_buffer: "net_ok s \<Longrightarrow> buffer_ok (outputBuffer (n_conn s c))"
  by (simp add: net_ok_def inv_buffer)

lemma ok_chan: "net_ok s \<Longrightarrow> chan_ok s"
  by (simp add: net_ok_def inv_chan)

section \<open>The handlers\<close>

lemma handleRead_keeps:
  assumes "net_ok s" "c < nextConnId s"
  shows "net_keeps s (handleRead e c s)"
proof -
  obtain n x where r: "ne_read e (n_calls s) = (n, x)" by force
  obtain ret b where f: "readFd n x (inputBuffer (n_conn s c)) = (ret, b)" by force
  let ?t = "upd_tcp c (\<lambda>t. t\<lparr>inputBuffer := b\<rparr>) (sys_call s)"
  have k: "net_keeps s ?t"
    by (rule keeps_trans [OF call_keeps [OF assms(1)]], rule tcp_keeps)
      (use assms in \<open>simp_all add: keeps_ok [OF call_keeps] ok_buffer\<close>)
  have lt: "c < nextConnId ?t" using assms(2) by (simp add: keeps_next [OF k])
  show ?thesis
    by (simp add: handleRead_def handleError_def r f Let_def keeps_trans [OF k log_keeps] keeps_trans [OF k handleClose_keeps] keeps_ok [OF k] lt)
qed

lemma written_keeps:
  assumes ok: "net_ok s" and c: "c < nextConnId s" and n: "n \<le> readableBytes (outputBuffer (n_conn s c))"
  shows "net_keeps s (upd_tcp c (\<lambda>t. t\<lparr>outputBuffer := snd (retrieve n (outputBuffer t))\<rparr>)
           (log_out (Wrote c (take n (content (outputBuffer (n_conn s c))))) (sys_call s)))"
proof -
  have b: "buffer_ok (outputBuffer (n_conn s c))" by (rule ok_buffer [OF ok])
  have w: "wrote c (n_log s) @ content (outputBuffer (n_conn s c)) = sends c (n_log s)"
    using ok by (simp add: net_ok_def net_inv_def conn_ok_def)
  have "content (snd (retrieve n (outputBuffer (n_conn s c)))) = drop n (content (outputBuffer (n_conn s c)))"
    by (rule content_retrieve [OF b n])
  with ok c w b show ?thesis
    by (auto simp: net_keeps_def net_ok_def net_inv_def conn_ok_def chan_ok_def log_out_def sys_call_def upd_tcp_def retrieve_ok)
qed

lemma wrote_nothing_keeps: "net_ok s \<Longrightarrow> net_keeps s (log_out (Wrote c []) (sys_call s))"
  by (simp add: net_keeps_def net_ok_def net_inv_def conn_ok_def chan_ok_def log_out_def sys_call_def)

lemma handleWrite_keeps:
  assumes ok: "net_ok s" and c: "c < nextConnId s"
  shows "net_keeps s (handleWrite e c s)"
proof -
  have wr: "isWriting (n_chan s c)" using ok by (simp add: ok_chan)
  have cl: "net_keeps s (handleClose e c (sys_call s))"
    by (rule keeps_trans [OF call_keeps [OF ok] handleClose_keeps]) (simp_all add: keeps_ok [OF call_keeps [OF ok]] keeps_next [OF call_keeps [OF ok]] c)
  let ?out = "content (outputBuffer (n_conn s c))"
  have len: "length ?out = readableBytes (outputBuffer (n_conn s c))" by (rule length_buffer_content [OF ok_buffer [OF ok]])
  show ?thesis
  proof (cases "ne_write e (n_calls s)")
    case (Written m)
    define n where "n = min m (length ?out)"
    have tk: "take m ?out = take n ?out" by (simp add: min_def n_def)
    define u where "u = log_out (Wrote c (take n ?out)) (sys_call s)"
    have sw: "socket_write e c ?out s = (Written n, u)" by (simp add: socket_write_def Written u_def n_def [symmetric] tk)
    show ?thesis
    proof (cases "n = 0")
      case True
      note k = wrote_nothing_keeps [OF ok, of c]
      have "net_keeps s (handleClose e c u)"
        using True keeps_trans [OF k handleClose_keeps [OF keeps_ok [OF k]]] c by (simp add: keeps_next [OF k] u_def)
      with True show ?thesis by (simp add: handleWrite_def wr sw)
    next
      case False
      define t where "t = upd_tcp c (\<lambda>t. t\<lparr>outputBuffer := snd (retrieve n (outputBuffer t))\<rparr>) u"
      have k: "net_keeps s t" unfolding t_def u_def by (rule written_keeps [OF ok c]) (simp add: n_def len)
      have kd: "net_keeps s (snd (disableWriting e c t))"
        using keeps_trans [OF k update_keeps_ok [OF keeps_ok [OF k]]] c by (simp add: channel_ops ok_chan keeps_ok [OF k] keeps_next [OF k])
      have kq: "net_keeps s (queueInLoop (WriteComplete c) v)" if "net_keeps s v" for v
        by (rule keeps_trans [OF that queue_keeps [OF keeps_ok [OF that]]]) (simp add: keeps_next [OF that] c)
      have ks: "net_keeps s (shutdownInLoop c v)" if "net_keeps s v" for v
        unfolding shutdownInLoop_def by (simp add: that keeps_trans [OF that log_keeps] keeps_ok [OF that])
      from False show ?thesis by (simp add: handleWrite_def wr sw Let_def t_def [symmetric] k kd kq ks)
    qed
  qed (simp_all add: handleWrite_def wr socket_write_def cl Let_def)
qed

text \<open>A channel always counts as writing: what is sent only goes into the buffer.\<close>

lemma sendInLoop_buffers:
  "net_ok s \<Longrightarrow> sendInLoop e c d s =
   (if d = [] then log_out (Sends c d) s
    else let old = readableBytes (outputBuffer (n_conn s c));
             s1 = log_out (Sends c d) s;
             s2 = (case highWaterMark (n_conn s c) of
                     Some m \<Rightarrow> if old + length d \<ge> m \<and> old < m then queueInLoop (HighWater c (old + length d)) s1 else s1
                   | None \<Rightarrow> s1)
         in upd_tcp c (\<lambda>t. t\<lparr>outputBuffer := append_data d (outputBuffer t)\<rparr>) s2)"
  using writing_always [OF ok_chan, of s c]
  by (auto simp: sendInLoop_def Let_def log_out_def queueInLoop_def upd_tcp_def split: option.splits)

lemma appended_keeps:
  assumes ok: "net_ok s" and c: "c < nextConnId s"
  shows "net_keeps s (upd_tcp c (\<lambda>t. t\<lparr>outputBuffer := append_data d (outputBuffer t)\<rparr>) (log_out (Sends c d) s))"
proof -
  have b: "buffer_ok (outputBuffer (n_conn s c))" by (rule ok_buffer [OF ok])
  have "wrote c (n_log s) @ content (outputBuffer (n_conn s c)) = sends c (n_log s)"
    using ok by (simp add: net_ok_def net_inv_def conn_ok_def)
  with ok c b show ?thesis
    by (auto simp: net_keeps_def net_ok_def net_inv_def conn_ok_def chan_ok_def log_out_def upd_tcp_def append_data_ok
        content_append_data simp flip: append_assoc)
qed

lemma sendInLoop_keeps:
  assumes ok: "net_ok s" and c: "c < nextConnId s"
  shows "net_keeps s (sendInLoop e c d s)"
proof (cases "d = []")
  case True
  have "net_keeps s (log_out (Sends c []) s)"
    using ok by (simp add: net_keeps_def net_ok_def net_inv_def conn_ok_def chan_ok_def log_out_def)
  with True show ?thesis by (simp add: sendInLoop_buffers [OF ok])
next
  case False
  let ?a = "\<lambda>s. upd_tcp c (\<lambda>t. t\<lparr>outputBuffer := append_data d (outputBuffer t)\<rparr>) (log_out (Sends c d) s)"
  have comm: "upd_tcp c (\<lambda>t. t\<lparr>outputBuffer := append_data d (outputBuffer t)\<rparr>) (queueInLoop (HighWater c n) (log_out (Sends c d) s))
      = queueInLoop (HighWater c n) (?a s)" for n
    by (simp add: net_defs)
  note k = appended_keeps [OF ok c, of d]
  have "net_keeps s (queueInLoop (HighWater c n) (?a s))" for n
    by (rule keeps_trans [OF k queue_keeps [OF keeps_ok [OF k]]]) (simp add: keeps_next [OF k] c)
  with k False show ?thesis
    by (simp add: sendInLoop_buffers [OF ok] Let_def comm split: option.splits)
qed

lemma tcp_send_keeps: "net_ok s \<Longrightarrow> c < nextConnId s \<Longrightarrow> net_keeps s (tcp_send e in_loop c d s)"
  by (simp add: tcp_send_def sendInLoop_keeps queue_keeps keeps_refl)

text \<open>Between the two connected states the callbacks stay as they are.\<close>

lemma disconnecting_keeps:
  "net_ok s \<Longrightarrow> tc_state (n_conn s c) = kConnected \<or> tc_state (n_conn s c) = kDisconnecting \<Longrightarrow> net_keeps s (setState kDisconnecting c s)"
  using inv_state [of s kDisconnecting c]
  by (auto simp: net_keeps_def net_ok_def setState_def upd_tcp_def dest: spec [where x = c])

lemma tcp_shutdown_keeps: "net_ok s \<Longrightarrow> net_keeps s (tcp_shutdown c s)"
  by (simp add: tcp_shutdown_def disconnecting_keeps keeps_refl)

lemma forceClose_keeps: "net_ok s \<Longrightarrow> c < nextConnId s \<Longrightarrow> net_keeps s (forceClose c s)"
proof (cases "tc_state (n_conn s c) = kConnected \<or> tc_state (n_conn s c) = kDisconnecting")
  case True
  assume ok: "net_ok s" and c: "c < nextConnId s"
  note k = disconnecting_keeps [OF ok True]
  have "net_keeps s (queueInLoop (ForceClose c) (setState kDisconnecting c s))"
    by (rule keeps_trans [OF k queue_keeps [OF keeps_ok [OF k]]]) (simp add: keeps_next [OF k] c)
  with True show ?thesis by (simp add: forceClose_def)
qed (simp add: forceClose_def keeps_refl)

lemma forceCloseInLoop_keeps: "net_ok s \<Longrightarrow> c < nextConnId s \<Longrightarrow> net_keeps s (forceCloseInLoop e c s)"
  by (simp add: forceCloseInLoop_def handleClose_keeps keeps_refl)

lemma connectEstablished_keeps:
  assumes ok: "net_ok s" and c: "c < nextConnId s"
  shows "net_keeps s (connectEstablished e c s)"
proof (cases "tc_state (n_conn s c) = kConnecting")
  case True
  define t where "t = upd_chan c (\<lambda>ch. ch\<lparr>ch_tied := True\<rparr>) (setState kConnected c s)"
  have i: "net_inv t"
    using inv_state [OF net_ok_inv [OF ok], of kConnected c]
    by (auto simp: t_def net_inv_def conn_ok_def upd_chan_def chan_ok_def)
  have eqs: "n_log t = n_log s" "nextConnId t = nextConnId s" "n_conn t = (n_conn s)(c := (n_conn s c)\<lparr>tc_state := kConnected\<rparr>)"
    by (simp_all add: t_def upd_chan_def net_defs)
  have cb: "callbacks c (n_log s) = []" using ok True by (auto simp: net_ok_def dest: spec [where x = c])
  have oth: "typestate (tc_state (n_conn s d)) (callbacks d (n_log s))" for d using ok by (simp add: net_ok_def)
  obtain b u where r: "updateChannel e c t = (b, u)" by force
  have ch: "chan_ok t" by (rule inv_chan [OF i])
  have iu: "net_inv u" using inv_update [OF i, of c e] c eqs by (simp add: r)
  have equ: "n_log u = n_log s" "nextConnId u = nextConnId s" "n_conn u = n_conn t"
    using update_keeps [OF ch, of e c] eqs by (simp_all add: r)
  have eq: "connectEstablished e c s = (if b then connectionCallback c u else handleClose e c u)"
    using True by (simp add: connectEstablished_def Let_def t_def [symmetric] channel_ops(1) [OF ch] r)
  show ?thesis
  proof (cases b)
    case True
    then have "ch_index (n_chan u c) \<noteq> kNew" using update_added [of e c t] by (simp add: r)
    then have "net_inv (connectionCallback c u)" using c equ by (intro inv_callback [OF iu]) simp_all
    moreover have "typestate (tc_state (n_conn u d)) (callbacks d (n_log (connectionCallback c u)))" for d
      using oth [of d] cb by (auto simp: connectionCallback_def log_out_def equ eqs)
    ultimately show ?thesis
      using True by (simp add: eq net_keeps_def net_ok_def equ) (simp add: connectionCallback_def log_out_def equ)
  next
    case False
    have "closable u c" using iu c cb oth by (auto simp: closable_def equ eqs)
    with False handleClose_ok [of u c e] show ?thesis by (simp add: eq net_keeps_def equ)
  qed
qed (simp add: connectEstablished_def keeps_refl ok)

lemma connectDestroyed_keeps:
  assumes ok: "net_ok s" and c: "c < nextConnId s"
  shows "net_keeps s (connectDestroyed e c s)"
proof (cases "tc_state (n_conn s c) = kConnected")
  case True
  let ?s1 = "setState kDisconnected c s"
  have i1: "net_inv ?s1" by (rule inv_state [OF net_ok_inv [OF ok]])
  have ch: "chan_ok ?s1" by (rule inv_chan [OF i1])
  obtain b u where r: "updateChannel e c ?s1 = (b, u)" by force
  have iu: "net_inv u" using inv_update [OF i1, of c e] c by (simp add: r) (simp add: r net_defs)
  have equ: "n_log u = n_log s" "nextConnId u = nextConnId s" "n_conn u = (n_conn s)(c := (n_conn s c)\<lparr>tc_state := kDisconnected\<rparr>)"
    using update_keeps [OF ch, of e c] unfolding r by (simp_all add: setState_def upd_tcp_def)
  have "net_inv (connectionCallback c u)" using c by (intro inv_callback [OF iu]) (simp_all add: equ)
  moreover have "typestate (tc_state (n_conn u d)) (callbacks d (n_log (connectionCallback c u)))" for d
    using ok True by (auto simp: net_ok_def connectionCallback_def log_out_def equ dest: spec [where x = d])
  ultimately have k: "net_keeps s (connectionCallback c u)"
    by (simp add: net_keeps_def net_ok_def) (simp add: connectionCallback_def log_out_def equ)
  from True have "connectDestroyed e c s = channel_remove e c (connectionCallback c u)"
    by (simp add: connectDestroyed_def channel_ops(2) [OF ch] r)
  with keeps_trans [OF k remove_keeps_ok [OF keeps_ok [OF k]]] show ?thesis by simp
qed (simp add: connectDestroyed_def remove_keeps_ok ok)

lemma handleEvent_keeps:
  assumes ok: "net_ok s" and c: "c < nextConnId s"
  shows "net_keeps s (handleEvent e c revents s)"
proof -
  have step: "net_keeps s (if b then h u else u)"
    if "net_keeps s u" "\<And>v. net_ok v \<Longrightarrow> c < nextConnId v \<Longrightarrow> net_keeps v (h v)" for b h u
    using that keeps_trans [OF that(1) that(2)] c by (simp add: keeps_ok keeps_next)
  show ?thesis
    unfolding handleEvent_def Let_def handleError_def
    by (intro step keeps_refl ok handleClose_keeps handleRead_keeps handleWrite_keeps)
qed

lemma run_functor_keeps: "net_ok s \<Longrightarrow> functor_conn f < nextConnId s \<Longrightarrow> net_keeps s (run_functor e f s)"
  by (cases f) (simp_all add: run_functor_def connectEstablished_keeps connectDestroyed_keeps forceCloseInLoop_keeps sendInLoop_keeps log_keeps)

lemma fold_keeps:
  assumes "\<And>x v. x \<in> set xs \<Longrightarrow> net_keeps s v \<Longrightarrow> net_keeps v (h x v)" "net_keeps s u"
  shows "net_keeps s (fold h xs u)"
  using assms
proof (induction xs arbitrary: u)
  case (Cons x xs)
  from Cons.prems have "net_keeps s (h x u)" by (meson keeps_trans list.set_intros(1))
  with Cons show ?case by simp
qed simp

lemma doPendingFunctors_keeps:
  assumes ok: "net_ok s"
  shows "net_keeps s (doPendingFunctors e s)"
  unfolding doPendingFunctors_def
proof (rule fold_keeps)
  show "net_keeps s (s\<lparr>pendingFunctors := []\<rparr>)"
    using ok by (simp add: net_keeps_def net_ok_def net_inv_def conn_ok_def chan_ok_def)
  show "net_keeps v (run_functor e f v)" if "f \<in> set (pendingFunctors s)" "net_keeps s v" for f v
  proof (rule run_functor_keeps [OF keeps_ok [OF that(2)]])
    show "functor_conn f < nextConnId v" using ok that(1) by (simp add: keeps_next [OF that(2)] net_ok_def net_inv_def)
  qed
qed

lemma removeConnectionInLoop_keeps: "net_ok s \<Longrightarrow> c < nextConnId s \<Longrightarrow> net_keeps s (removeConnectionInLoop c s)"
  by (auto simp: removeConnectionInLoop_def net_keeps_def net_ok_def net_inv_def conn_ok_def chan_ok_def queueInLoop_def)

lemma server_functors_keeps:
  assumes ok: "net_ok s"
  shows "net_keeps s (server_functors s)"
  unfolding server_functors_def
proof (rule fold_keeps)
  show "net_keeps s (s\<lparr>n_removals := []\<rparr>)"
    using ok by (simp add: net_keeps_def net_ok_def net_inv_def conn_ok_def chan_ok_def)
  show "net_keeps v (removeConnectionInLoop c v)" if "c \<in> set (n_removals s)" "net_keeps s v" for c v
  proof (rule removeConnectionInLoop_keeps [OF keeps_ok [OF that(2)]])
    show "c < nextConnId v" using ok that(1) by (simp add: keeps_next [OF that(2)] net_ok_def net_inv_def)
  qed
qed

lemma newConnection_ok:
  assumes ok: "net_ok s"
  shows "net_ok (newConnection fd wc hwm s)"
proof -
  have fresh: "sends (nextConnId s) (n_log s) = []" "wrote (nextConnId s) (n_log s) = []" "callbacks (nextConnId s) (n_log s) = []"
    using ok by (simp_all add: net_ok_def net_inv_def conn_ok_def)
  show ?thesis
    unfolding net_ok_def net_inv_def newConnection_def Let_def
  proof (intro conjI allI)
    show "conn_ok (queueInLoop (Established (nextConnId s)) (s\<lparr>nextConnId := nextConnId s + 1, n_connections := n_connections s @ [nextConnId s],
             n_conn := (n_conn s)(nextConnId s := \<lparr>tc_state = kConnecting, inputBuffer = mkBuffer kInitialSize,
               outputBuffer = mkBuffer kInitialSize, tc_write_complete = wc, highWaterMark = hwm\<rparr>),
             n_chan := (n_chan s)(nextConnId s := \<lparr>ch_fd = fd, ch_events = 0, ch_index = kNew, ch_tied = False\<rparr>)\<rparr>)) c" for c
      using ok fresh by (auto simp: queueInLoop_def conn_ok_def net_ok_def net_inv_def mkBuffer_ok content_mkBuffer)
  qed (use ok fresh in \<open>auto simp: queueInLoop_def chan_ok_def net_ok_def net_inv_def less_Suc_eq\<close>)
qed

lemma net_step_ok: "net_ok s \<Longrightarrow> net_ok (net_step e ev s)"
  unfolding net_step_def poll_event_def
  by (auto split: net_event.split simp: newConnection_ok keeps_ok [OF handleEvent_keeps] keeps_ok [OF doPendingFunctors_keeps]
      keeps_ok [OF server_functors_keeps] keeps_ok [OF tcp_send_keeps] keeps_ok [OF tcp_shutdown_keeps] keeps_ok [OF forceClose_keeps])

lemma net_start_ok: "net_ok net_start"
  by (simp add: net_ok_def net_inv_def conn_ok_def chan_ok_def net_start_def mkBuffer_ok content_mkBuffer)

lemma net_run_from: "net_ok s \<Longrightarrow> net_ok (net_run e evs s)"
  by (induction evs arbitrary: s) (simp_all add: net_run_def net_step_ok)

lemma net_run_ok: "net_ok (net_run e evs net_start)"
  by (rule net_run_from [OF net_start_ok])

section \<open>Silence\<close>

text \<open>\<open>epoll_wait\<close> reports what was asked for, an error or a hang-up.\<close>

fun epoll_honest :: "net_env \<Rightarrow> net_event list \<Rightarrow> net \<Rightarrow> bool" where
  "epoll_honest e [] s = True"
| "epoll_honest e (ev # evs) s =
     ((case ev of Event c revents \<Rightarrow> revents AND NOT (ch_events (n_chan s c) OR EPOLLERR OR EPOLLHUP) = 0 | _ \<Rightarrow> True) \<and>
      epoll_honest e evs (net_step e ev s))"

text \<open>Bytes that went to the socket or came from it, and the end of the writing side.\<close>

fun exchanged :: "net_out \<Rightarrow> bool" where
  "exchanged (Wrote c d) = True"
| "exchanged (MessageCallback c) = True"
| "exchanged (WriteCompleteCallback c) = True"
| "exchanged (ShutdownWrite c) = True"
| "exchanged x = False"

fun write_complete_functor :: "functor' \<Rightarrow> bool" where
  "write_complete_functor (WriteComplete c) = True"
| "write_complete_functor f = False"

lemma wrote_nothing: "\<forall>x\<in>set l. \<not> exchanged x \<Longrightarrow> wrote c l = []"
  by (induction l) (auto split: net_out.split)

definition silent :: "net \<Rightarrow> bool" where
  "silent s \<longleftrightarrow> (\<forall>x\<in>set (n_log s). \<not> exchanged x) \<and> (\<forall>f\<in>set (pendingFunctors s). \<not> write_complete_functor f)"

lemma silent_close: "chan_ok s \<Longrightarrow> silent s \<Longrightarrow> silent (handleClose e c s)"
proof -
  assume ch: "chan_ok s" and si: "silent s"
  have ch1: "chan_ok (setState kDisconnected c s)" using ch by (simp add: chan_ok_def setState_def upd_tcp_def)
  have "n_log (snd (updateChannel e c (setState kDisconnected c s))) = n_log s"
    "pendingFunctors (snd (updateChannel e c (setState kDisconnected c s))) = pendingFunctors s"
    using ch1 by (simp_all add: setState_def upd_tcp_def)
  with si show ?thesis
    by (simp add: handleClose_def Let_def channel_ops(2) [OF ch1])
      (simp add: silent_def removeConnection_def connectionCallback_def log_out_def)
qed

lemma silent_send: "net_ok s \<Longrightarrow> silent s \<Longrightarrow> silent (sendInLoop e c d s)"
  by (simp add: sendInLoop_buffers Let_def split: option.split) (auto simp: silent_def log_out_def queueInLoop_def upd_tcp_def)

lemma silent_remove: "chan_ok s \<Longrightarrow> silent s \<Longrightarrow> silent (channel_remove e c s)"
  using remove_step [of s e c] by (simp add: silent_def chan_step_def)

lemma silent_established: "net_ok s \<Longrightarrow> silent s \<Longrightarrow> silent (connectEstablished e c s)"
proof -
  assume ok: "net_ok s" and si: "silent s"
  define t where "t = upd_chan c (\<lambda>ch. ch\<lparr>ch_tied := True\<rparr>) (setState kConnected c s)"
  have ch: "chan_ok t" using ok_chan [OF ok] by (simp add: t_def chan_ok_def upd_chan_def setState_def upd_tcp_def)
  obtain b u where r: "updateChannel e c t = (b, u)" by force
  have "n_log u = n_log s" "pendingFunctors u = pendingFunctors s" "chan_ok u"
    using update_keeps [OF ch, of e c] unfolding r by (simp_all add: t_def upd_chan_def setState_def upd_tcp_def)
  then have "silent u" "chan_ok u" using si by (simp_all add: silent_def)
  then have "silent (connectionCallback c u)" "silent (handleClose e c u)"
    by (simp_all add: silent_close) (simp add: silent_def connectionCallback_def log_out_def)
  with si show ?thesis
    by (simp add: connectEstablished_def Let_def t_def [symmetric] channel_ops(1) [OF ch] r)
qed

lemma silent_destroyed: "net_ok s \<Longrightarrow> silent s \<Longrightarrow> silent (connectDestroyed e c s)"
proof -
  assume ok: "net_ok s" and si: "silent s"
  have ch: "chan_ok (setState kDisconnected c s)" using ok_chan [OF ok] by (simp add: chan_ok_def setState_def upd_tcp_def)
  obtain b u where r: "updateChannel e c (setState kDisconnected c s) = (b, u)" by force
  have "n_log u = n_log s" "pendingFunctors u = pendingFunctors s" "chan_ok u"
    using update_keeps [OF ch, of e c] unfolding r by (simp_all add: setState_def upd_tcp_def)
  with si have "silent (connectionCallback c u)" "chan_ok (connectionCallback c u)"
    by (simp_all add: silent_def connectionCallback_def log_out_def chan_ok_def)
  with si ok_chan [OF ok] show ?thesis
    by (simp add: connectDestroyed_def channel_ops(2) [OF ch] r silent_remove)
qed

lemma silent_functor: "net_ok s \<Longrightarrow> silent s \<Longrightarrow> \<not> write_complete_functor f \<Longrightarrow> silent (run_functor e f s)"
  by (cases f) (simp_all add: run_functor_def silent_established silent_destroyed silent_send forceCloseInLoop_def silent_close ok_chan,
    simp add: silent_def log_out_def)

lemma silent_functors:
  assumes ok: "net_ok s" and si: "silent s"
  shows "silent (doPendingFunctors e s)"
proof -
  let ?P = "\<lambda>v. net_keeps s v \<and> silent v"
  have run: "?P (fold (run_functor e) fs u)"
    if "\<forall>f\<in>set fs. functor_conn f < nextConnId s \<and> \<not> write_complete_functor f" "?P u" for fs u
    using that
  proof (induction fs arbitrary: u)
    case (Cons f fs)
    then have u: "net_ok u" "functor_conn f < nextConnId u" by (auto dest: keeps_ok keeps_next)
    with Cons.prems have "?P (run_functor e f u)" using keeps_trans [OF _ run_functor_keeps [OF u]] by (simp add: silent_functor)
    with Cons show ?case by simp
  qed simp
  have "?P (s\<lparr>pendingFunctors := []\<rparr>)"
    using ok si by (simp add: net_keeps_def net_ok_def net_inv_def conn_ok_def chan_ok_def silent_def)
  moreover have "\<forall>f\<in>set (pendingFunctors s). functor_conn f < nextConnId s \<and> \<not> write_complete_functor f"
    using ok si by (simp add: net_ok_def net_inv_def silent_def)
  ultimately show ?thesis unfolding doPendingFunctors_def using run by blast
qed

lemma silent_removals: "silent s \<Longrightarrow> silent (server_functors s)"
proof -
  have "silent (fold removeConnectionInLoop cs u)" if "silent u" for cs u
  proof -
    have one: "silent (removeConnectionInLoop c v)" if "silent v" for c v
      using that by (simp add: removeConnectionInLoop_def silent_def queueInLoop_def)
    show ?thesis using that by (induction cs arbitrary: u) (simp_all add: one)
  qed
  moreover assume "silent s"
  then have "silent (s\<lparr>n_removals := []\<rparr>)" by (simp add: silent_def)
  ultimately show ?thesis by (simp add: server_functors_def)
qed

text \<open>A reported event can only be an error or a hang-up, for which the connection is closed.\<close>

lemma only_errors:
  assumes "(r :: 32 word) AND NOT (0 OR EPOLLERR OR EPOLLHUP) = 0"
  shows "r AND EPOLLIN = 0" "r AND (EPOLLIN OR EPOLLPRI OR EPOLLRDHUP) = 0" "r AND EPOLLOUT = 0"
proof -
  have r: "r = r AND 0x18"
    using assms by (simp add: bit_eq_iff bit_simps) blast
  have m: "r AND m = 0" if "0x18 AND m = (0 :: 32 word)" for m
    by (subst r) (simp add: and.assoc that)
  show "r AND EPOLLIN = 0" "r AND (EPOLLIN OR EPOLLPRI OR EPOLLRDHUP) = 0" "r AND EPOLLOUT = 0" by (rule m, simp)+
qed

lemma silent_event:
  assumes ok: "net_ok s" and si: "silent s" and r: "r AND NOT (ch_events (n_chan s c) OR EPOLLERR OR EPOLLHUP) = 0"
    and c: "c < nextConnId s"
  shows "silent (handleEvent e c r s)"
proof -
  note none = only_errors [OF r [unfolded chan_ok_events [OF ok_chan [OF ok], of c]]]
  have cl: "silent (handleClose e c s)" "chan_ok (handleClose e c s)"
    using ok si c by (simp_all add: silent_close ok_chan keeps_ok [OF handleClose_keeps])
  show ?thesis
    unfolding handleEvent_def Let_def handleError_def using none si cl by (simp add: silent_close ok_chan ok)
qed

lemma silent_new: "silent s \<Longrightarrow> silent (newConnection fd wc hwm s)"
  by (simp add: silent_def newConnection_def Let_def queueInLoop_def)

lemma silent_call: "silent s \<Longrightarrow> net_ok s \<Longrightarrow> silent (tcp_send e b c d s)" "silent s \<Longrightarrow> silent (tcp_shutdown c s)" "silent s \<Longrightarrow> silent (forceClose c s)"
  by (simp_all add: tcp_send_def silent_send tcp_shutdown_def forceClose_def)
    (simp_all add: silent_def queueInLoop_def setState_def upd_tcp_def)

lemma silent_step:
  assumes "net_ok s" "silent s" "epoll_honest e [ev] s"
  shows "silent (net_step e ev s)"
  using assms
  by (cases ev) (simp_all add: net_step_def poll_event_def silent_new silent_call silent_functors silent_removals silent_event)

lemma silent_run: "net_ok s \<Longrightarrow> silent s \<Longrightarrow> epoll_honest e evs s \<Longrightarrow> silent (net_run e evs s)"
proof (induction evs arbitrary: s)
  case (Cons ev evs)
  from Cons.prems have "silent (net_step e ev s)" by (intro silent_step) simp_all
  with Cons show ?case by (simp add: net_run_def net_step_ok)
qed (simp add: net_run_def)

lemma silent_start: "silent net_start"
  by (simp add: silent_def net_start_def)

section \<open>Properties\<close>

text \<open>C12: whatever the clients, the users of the server and the system calls do, the bytes of a connection leave in
  the order they were sent: what was written to its socket followed by what waits in its output buffer is what
  was sent on it, nothing lost, doubled or overtaken.\<close>

theorem bytes_leave_in_order:
  "wrote c (n_log (net_run e evs net_start)) @ content (outputBuffer (n_conn (net_run e evs net_start) c))
   = sends c (n_log (net_run e evs net_start))"
  using net_run_ok [of e evs] by (simp add: net_ok_def net_inv_def conn_ok_def)

text \<open>C11: the connection callback follows the type state of the connection in every reachable state: it is told of a
  connection that came up exactly once while the connection is connected or disconnecting, it is told once that the
  connection went down, after it was told that it came up or (when the channel could not be registered)
  instead, and then never again.\<close>

theorem callbacks_follow_the_state:
  "typestate (tc_state (n_conn (net_run e evs net_start) c)) (callbacks c (n_log (net_run e evs net_start)))"
  using net_run_ok [of e evs] by (simp add: net_ok_def)

text \<open>C14: with all event constants 0 the server exchanges no byte: as long as \<open>epoll_wait\<close> reports the events the
  channel asked for, errors and hang-ups only, no message is delivered, nothing is written to any socket and no
  writing side is ever shut down; what the users send stays in the output buffers.\<close>

theorem no_byte_is_exchanged:
  assumes "epoll_honest e evs net_start"
  shows "(\<forall>x\<in>set (n_log (net_run e evs net_start)). \<not> exchanged x) \<and>
    content (outputBuffer (n_conn (net_run e evs net_start) c)) = sends c (n_log (net_run e evs net_start))"
proof -
  have si: "\<forall>x\<in>set (n_log (net_run e evs net_start)). \<not> exchanged x"
    using silent_run [OF net_start_ok silent_start assms] by (simp add: silent_def)
  have "conn_ok (net_run e evs net_start) c" using net_run_ok [of e evs] by (simp add: net_ok_def net_inv_def)
  then have "wrote c (n_log (net_run e evs net_start)) @ content (outputBuffer (n_conn (net_run e evs net_start) c))
      = sends c (n_log (net_run e evs net_start))" by (simp add: conn_ok_def)
  moreover have "wrote c (n_log (net_run e evs net_start)) = []" by (rule wrote_nothing) (rule si)
  ultimately show ?thesis using si by (metis append_Nil)
qed

text \<open>C13: a descriptor serves one connection: \<open>removeChannel\<close> returns early when the channel is in the
  table, so the entry stays for good, and a later connection that gets the same descriptor from the
  kernel is refused by \<open>updateChannel\<close> and never comes up.\<close>

theorem descriptor_serves_once:
  assumes "True \<in> set (callbacks c (n_log (net_run e evs net_start)))" "c \<noteq> d"
    and "ch_fd (n_chan (net_run e evs net_start) d) = ch_fd (n_chan (net_run e evs net_start) c)"
  shows "True \<notin> set (callbacks d (n_log (net_run e evs net_start)))"
proof
  let ?s = "net_run e evs net_start"
  assume d: "True \<in> set (callbacks d (n_log ?s))"
  have "ch_index (n_chan ?s c) \<noteq> kNew" "ch_index (n_chan ?s d) \<noteq> kNew"
    using net_run_ok [of e evs] assms(1) d by (simp_all add: net_ok_def net_inv_def conn_ok_def)
  moreover have "chan_ok ?s" by (rule ok_chan [OF net_run_ok])
  ultimately have "n_channels ?s (ch_fd (n_chan ?s c)) = Some (Some c)" "n_channels ?s (ch_fd (n_chan ?s d)) = Some (Some d)"
    by (simp_all add: chan_ok_def)
  with assms(2,3) show False by simp
qed

text \<open>A server that accepts a connection on descriptor 7, sends on it, sees it hang up, and accepts another one on
  the same descriptor.\<close>

definition calm :: net_env where
  "calm = \<lparr>ne_ctl = \<lambda>_. True, ne_read = \<lambda>_. (0, []), ne_write = \<lambda>_. WouldBlock\<rparr>"

lemmas run_defs = net_run_def net_step_def newConnection_def doPendingFunctors_def run_functor_def connectEstablished_def
  server_functors_def removeConnectionInLoop_def connectDestroyed_def poll_event_def handleEvent_def handleClose_def
  tcp_send_def sendInLoop_def enableReading_def disableAll_def enableWriting_def set_events_def updateChannel_def
  channel_remove_def poller_removeChannel_def net_start_def calm_def net_defs chan_defs Let_def

lemma calm_run:
  defines "s \<equiv> net_run calm [Accept 7 False None, Functors, Event 0 0x10, ServerFunctors, Functors, Accept 7 False None, Functors] net_start"
  shows "n_log s = [ConnectionCallback 0 True, ConnectionCallback 0 False, ConnectionCallback 1 False]"
    "ch_fd (n_chan s 0) = 7" "ch_fd (n_chan s 1) = 7"
  unfolding s_def by (simp_all add: run_defs)

theorem descriptor_serves_once_witness:
  "callbacks 1 (n_log (net_run calm [Accept 7 False None, Functors, Event 0 0x10, ServerFunctors, Functors, Accept 7 False None, Functors] net_start)) = [False]
   \<and> True \<notin> set (callbacks 1 (n_log (net_run calm [Accept 7 False None, Functors, Event 0 0x10, ServerFunctors, Functors, Accept 7 False None, Functors] net_start)))"
  using descriptor_serves_once [of 0 calm "[Accept 7 False None, Functors, Event 0 0x10, ServerFunctors, Functors, Accept 7 False None, Functors]" 1]
  by (simp add: calm_run)

theorem no_byte_is_exchanged_witness:
  "n_log (net_run calm [Accept 7 False None, Functors, Send True 0 [104, 105]] net_start) = [ConnectionCallback 0 True, Sends 0 [104, 105]]
   \<and> content (outputBuffer (n_conn (net_run calm [Accept 7 False None, Functors, Send True 0 [104, 105]] net_start) 0)) = [104, 105]"
proof -
  have h: "epoll_honest calm [Accept 7 False None, Functors, Send True 0 [104, 105]] net_start" by simp
  have l: "n_log (net_run calm [Accept 7 False None, Functors, Send True 0 [104, 105]] net_start) = [ConnectionCallback 0 True, Sends 0 [104, 105]]"
    by (simp add: run_defs)
  show ?thesis using no_byte_is_exchanged [OF h, of 0] l by simp
qed

end
