(* ===== verification/File_Server.thy ===== *)
theory File_Server
  imports Net_Buffer Protocol_Stream
begin

text \<open>
  The file server: \<open>fileserver/FileManager.cpp\<close>, \<open>TcpSession.cpp\<close>, \<open>FileSession.cpp\<close> and \<open>FileServer.cpp\<close>. Clients
  upload a file in packets and download it in pieces; a file is named by the text the client sends as
  its MD5. A path is a byte string, a disk a map from paths to contents. What each call of the C
  library for files returns comes from the outside: \<open>fe_call e n = None\<close> lets the \<open>n\<close>-th call
  succeed where the file system allows it, \<open>Some k\<close> lets it fail, after \<open>k\<close> bytes if it writes. What
  is written is on the disk at once, the code flushes after every write. A result \<open>None\<close> of an
  operation is the end of the process: undefined behaviour, a division by zero or an uncaught exception.
\<close>

section \<open>State\<close>

type_synonym path = "byte list"

text \<open>The disk and the list of \<open>FileManager\<close> are shared, the rest belongs to a session and its connection.\<close>

record open_file =
  of_path :: path
  of_pos :: nat
  of_readable :: bool

record file_store =
  disk :: "path \<Rightarrow> byte list option"
  m_listFiles :: "path list"
  fs_calls :: nat

record file_state = file_store +
  m_seq :: "32 word"
  m_fp :: "open_file option"
  m_currentDownloadFileOffset :: int
  m_currentDownloadFileSize :: int
  m_bFileUploading :: bool
  conn_closing :: bool
  conn_sent :: "byte list list"

record file_env =
  m_basepath :: path
  m_strFileBaseDir :: path
  fe_call :: "nat \<Rightarrow> nat option"
  fe_stack :: "byte list"
  fe_head :: "byte list"

definition FileSession :: "file_store \<Rightarrow> file_state" where
  "FileSession st = \<lparr>disk = disk st, m_listFiles = m_listFiles st, fs_calls = fs_calls st, m_seq = 0, m_fp = None,
     m_currentDownloadFileOffset = 0, m_currentDownloadFileSize = 0, m_bFileUploading = False,
     conn_closing = False, conn_sent = []\<rparr>"

text \<open>The numbers of \<open>FileMsg.h\<close>.\<close>

abbreviation (input) "msg_type_upload_req \<equiv> (1 :: 32 word)"
abbreviation (input) "msg_type_upload_resp \<equiv> (2 :: 32 word)"
abbreviation (input) "msg_type_download_req \<equiv> (3 :: 32 word)"
abbreviation (input) "msg_type_download_resp \<equiv> (4 :: 32 word)"
abbreviation (input) "file_msg_error_progress \<equiv> (1 :: 32 word)"
abbreviation (input) "file_msg_error_complete \<equiv> (2 :: 32 word)"
abbreviation (input) "file_msg_error_not_exist \<equiv> (3 :: 32 word)"
abbreviation (input) "client_net_type_cellular \<equiv> (1 :: 32 word)"
abbreviation (input) "MAX_PACKAGE_SIZE \<equiv> (50 * 1024 * 1024 :: int)"

section \<open>The C library\<close>

text \<open>What a C function sees of a name, and \<open>stdio\<close> on files opened to be written or read.\<close>

definition c_name :: "byte list \<Rightarrow> byte list" where
  "c_name n = takeWhile (\<lambda>b. b \<noteq> 0) n"

definition call_ok :: "file_env \<Rightarrow> file_state \<Rightarrow> bool" where
  "call_ok e s \<longleftrightarrow> fe_call e (fs_calls s) = None"

definition called :: "file_state \<Rightarrow> file_state" where
  "called s = s\<lparr>fs_calls := fs_calls s + 1\<rparr>"

definition fopen_wb :: "file_env \<Rightarrow> path \<Rightarrow> file_state \<Rightarrow> open_file option \<times> file_state" where
  "fopen_wb e p s =
     (if call_ok e s then (Some \<lparr>of_path = p, of_pos = 0, of_readable = False\<rparr>, called (s\<lparr>disk := (disk s)(p \<mapsto> [])\<rparr>))
      else (None, called s))"

definition fopen_rb :: "file_env \<Rightarrow> path \<Rightarrow> file_state \<Rightarrow> open_file option \<times> file_state" where
  "fopen_rb e p s =
     (if call_ok e s \<and> disk s p \<noteq> None then (Some \<lparr>of_path = p, of_pos = 0, of_readable = True\<rparr>, called s)
      else (None, called s))"

definition file_bytes :: "file_state \<Rightarrow> path \<Rightarrow> byte list" where
  "file_bytes s p = (case disk s p of None \<Rightarrow> [] | Some c \<Rightarrow> c)"

text \<open>\<open>fseek\<close> to an offset from the start: whether it succeeded.\<close>

definition fseek_set :: "file_env \<Rightarrow> int \<Rightarrow> open_file \<Rightarrow> file_state \<Rightarrow> bool \<times> file_state" where
  "fseek_set e off f s =
     (if 0 \<le> off \<and> call_ok e s then (True, called (s\<lparr>m_fp := Some (f\<lparr>of_pos := nat off\<rparr>)\<rparr>)) else (False, called s))"

definition write_at :: "nat \<Rightarrow> byte list \<Rightarrow> byte list \<Rightarrow> byte list" where
  "write_at p d c = (if d = [] then c else take p (c @ replicate (p - length c) 0) @ d @ drop (p + length d) c)"

text \<open>\<open>fwrite\<close>: how many bytes were written.\<close>

definition fwrite :: "file_env \<Rightarrow> byte list \<Rightarrow> file_state \<Rightarrow> nat \<times> file_state" where
  "fwrite e d s =
     (case m_fp s of
        None \<Rightarrow> (0, called s)
      | Some f \<Rightarrow>
          let d = (case fe_call e (fs_calls s) of None \<Rightarrow> d | Some k \<Rightarrow> take (min k (length d - 1)) d)
          in (length d, called (s\<lparr>disk := (disk s)(of_path f \<mapsto> write_at (of_pos f) d (file_bytes s (of_path f))),
                m_fp := Some (f\<lparr>of_pos := of_pos f + length d\<rparr>)\<rparr>)))"

definition fflush :: "file_env \<Rightarrow> file_state \<Rightarrow> bool \<times> file_state" where
  "fflush e s = (call_ok e s, called s)"

text \<open>\<open>fread (buffer, n, 1, fp)\<close>: whether it returned 1, and what it stored. A stream opened for writing cannot be read.\<close>

definition fread :: "file_env \<Rightarrow> nat \<Rightarrow> file_state \<Rightarrow> bool \<times> byte list \<times> file_state" where
  "fread e n s =
     (case m_fp s of
        None \<Rightarrow> (False, [], called s)
      | Some f \<Rightarrow>
          if \<not> of_readable f then (False, [], called s)
          else
            let d = take n (drop (of_pos f) (file_bytes s (of_path f)));
                d = (case fe_call e (fs_calls s) of None \<Rightarrow> d | Some k \<Rightarrow> take (min k (n - 1)) d)
            in (length d = n, d, called (s\<lparr>m_fp := Some (f\<lparr>of_pos := of_pos f + length d\<rparr>)\<rparr>)))"

section \<open>\<open>FileManager\<close>\<close>

definition isFileExsit :: "file_env \<Rightarrow> path \<Rightarrow> file_state \<Rightarrow> bool \<times> file_state" where
  "isFileExsit e filename s =
     (if filename \<in> set (m_listFiles s) then (True, s)
      else case fopen_rb e (m_basepath e @ filename) s of
        (None, s) \<Rightarrow> (False, s)
      | (Some _, s) \<Rightarrow> (True, s\<lparr>m_listFiles := m_listFiles s @ [filename]\<rparr>))"

text \<open>\<open>init\<close>: the entries of the directory, or whether it could be made where it cannot be opened.\<close>

definition FileManager_init :: "byte list list option \<Rightarrow> bool \<Rightarrow> file_store \<Rightarrow> bool \<times> file_store" where
  "FileManager_init entries mkdir st =
     (case entries of
        None \<Rightarrow> (mkdir, st)
      | Some ns \<Rightarrow> (True, st\<lparr>m_listFiles := m_listFiles st @ filter (\<lambda>n. n \<noteq> [46] \<and> n \<noteq> [46, 46]) ns\<rparr>))"

definition addFile :: "path \<Rightarrow> file_state \<Rightarrow> file_state" where
  "addFile filename s = s\<lparr>m_listFiles := m_listFiles s @ [filename]\<rparr>"

section \<open>\<open>TcpSession\<close>\<close>

text \<open>The header is the length in the byte order of the host, little endian. A connection that is
  closing sends nothing.\<close>

definition package :: "byte list \<Rightarrow> byte list" where
  "package body = rev (be_bytes 8 (word_of_nat (length body) :: 64 word)) @ body"

definition sendPackage :: "byte list \<Rightarrow> file_state \<Rightarrow> file_state" where
  "sendPackage body s = (if conn_closing s then s else s\<lparr>conn_sent := conn_sent s @ [package body]\<rparr>)"

definition response :: "byte list \<Rightarrow> 32 word \<Rightarrow> 32 word \<Rightarrow> 32 word \<Rightarrow> byte list \<Rightarrow> int \<Rightarrow> int \<Rightarrow> byte list \<Rightarrow> byte list" where
  "response head cmd seq errorcode filemd5 offset filesize filedata =
     Flush (WriteString filedata (WriteInt64 (word_of_int filesize) False (WriteInt64 (word_of_int offset) False
       (WriteString filemd5 (WriteInt32 errorcode False (WriteInt32 seq False (WriteInt32 cmd False (mkWriter head))))))))"

definition TcpSession_send ::
  "file_env \<Rightarrow> 32 word \<Rightarrow> 32 word \<Rightarrow> byte list \<Rightarrow> int \<Rightarrow> int \<Rightarrow> byte list \<Rightarrow> file_state \<Rightarrow> file_state" where
  "TcpSession_send e cmd errorcode filemd5 offset filesize filedata s =
     sendPackage (response (fe_head e) cmd (m_seq s) errorcode filemd5 offset filesize filedata) s"

section \<open>\<open>FileSession\<close>\<close>

definition resetFile :: "file_state \<Rightarrow> file_state" where
  "resetFile s =
     (if m_fp s \<noteq> None
      then s\<lparr>m_fp := None, m_currentDownloadFileOffset := 0, m_currentDownloadFileSize := 0, m_bFileUploading := False\<rparr>
      else s)"

text \<open>The log line of a response divides: whether \<open>offset * 100 / filesize\<close> is defined on \<open>int64_t\<close>.\<close>

definition percent_ok :: "int \<Rightarrow> int \<Rightarrow> bool" where
  "percent_ok offset filesize \<longleftrightarrow> filesize \<noteq> 0 \<and> - (2 ^ 63) \<le> offset * 100 \<and> offset * 100 < 2 ^ 63"

text \<open>The part of an upload behind the choice of the file.\<close>

definition write_upload :: "file_env \<Rightarrow> byte list \<Rightarrow> int \<Rightarrow> int \<Rightarrow> byte list \<Rightarrow> open_file \<Rightarrow> file_state \<Rightarrow> (bool \<times> file_state) option" where
  "write_upload e filemd5 offset filesize filedata f s =
     (case fseek_set e offset f s of
        (False, s) \<Rightarrow> Some (False, resetFile s)
      | (True, s) \<Rightarrow>
          (case fwrite e filedata s of (n, s) \<Rightarrow>
             if n \<noteq> length filedata then Some (False, resetFile s)
             else case fflush e s of
               (False, s) \<Rightarrow> Some (False, s)
             | (True, s) \<Rightarrow>
                 if offset + int (length filedata) \<ge> 2 ^ 63 then None
                 else
                   let complete = (offset + int (length filedata) = filesize);
                       offset = (if complete then filesize else offset);
                       s = (if complete then resetFile (addFile (c_name filemd5) s) else s);
                       s = TcpSession_send e msg_type_upload_resp
                             (if complete then file_msg_error_complete else file_msg_error_progress) filemd5 offset filesize [] s
                   in if percent_ok offset filesize then Some (True, s) else None))"

definition onUploadFileResponse :: "file_env \<Rightarrow> byte list \<Rightarrow> int \<Rightarrow> int \<Rightarrow> byte list \<Rightarrow> file_state \<Rightarrow> (bool \<times> file_state) option" where
  "onUploadFileResponse e filemd5 offset filesize filedata s =
     (if filemd5 = [] then Some (False, s)
      else case isFileExsit e (c_name filemd5) s of (exists, s) \<Rightarrow>
        if exists \<and> \<not> m_bFileUploading s
        then Some (True, TcpSession_send e msg_type_upload_resp file_msg_error_complete filemd5 filesize filesize [] s)
        else if offset = 0 then
          (case fopen_wb e (m_strFileBaseDir e @ c_name filemd5) s of
             (None, s) \<Rightarrow> Some (False, s\<lparr>m_fp := None\<rparr>)
           | (Some f, s) \<Rightarrow> write_upload e filemd5 offset filesize filedata f (s\<lparr>m_fp := Some f, m_bFileUploading := True\<rparr>))
        else
          (case m_fp s of
             None \<Rightarrow> Some (False, resetFile s)
           | Some f \<Rightarrow> write_upload e filemd5 offset filesize filedata f s))"

text \<open>Opening a file for a download; \<open>None\<close> where the code returns false.\<close>

definition open_download :: "file_env \<Rightarrow> byte list \<Rightarrow> file_state \<Rightarrow> bool \<times> file_state" where
  "open_download e filemd5 s =
     (case m_fp s of
        Some _ \<Rightarrow> (True, s)
      | None \<Rightarrow>
          (case fopen_rb e (m_strFileBaseDir e @ c_name filemd5) s of
             (None, s) \<Rightarrow> (False, s)
           | (Some f, s) \<Rightarrow>
               let s = s\<lparr>m_fp := Some f\<rparr>
               in if \<not> call_ok e s then (False, called s)
                  else
                    let n = length (file_bytes s (of_path f));
                        s = called (s\<lparr>m_fp := Some (f\<lparr>of_pos := n\<rparr>), m_currentDownloadFileSize := int n\<rparr>)
                    in if n = 0 then (False, s) else fseek_set e 0 f s))"

definition send_size :: "32 word \<Rightarrow> file_state \<Rightarrow> int" where
  "send_size clientNetType s =
     (let currentSendSize = (if clientNetType = client_net_type_cellular then 64 * 1024 else 512 * 1024)
      in if m_currentDownloadFileSize s \<le> m_currentDownloadFileOffset s + currentSendSize
         then m_currentDownloadFileSize s - m_currentDownloadFileOffset s else currentSendSize)"

text \<open>The piece that is sent is as long as planned, whatever \<open>fread\<close> put into the zeroed buffer; its offset goes
  through an \<open>int\<close>.\<close>

definition send_piece :: "file_env \<Rightarrow> byte list \<Rightarrow> 32 word \<Rightarrow> file_state \<Rightarrow> (bool \<times> file_state) option" where
  "send_piece e filemd5 clientNetType s =
     (let n = send_size clientNetType s
      in case (if n \<le> 0 then (False, [], s) else fread e (nat n) s) of (_, d, s) \<Rightarrow>
         if n < 0 then None
         else
           let sendoffset = signed_take_bit 31 (m_currentDownloadFileOffset s);
               s = s\<lparr>m_currentDownloadFileOffset := m_currentDownloadFileOffset s + n\<rparr>;
               filedata = d @ replicate (nat n - length d) 0;
               complete = (m_currentDownloadFileOffset s = m_currentDownloadFileSize s);
               s = TcpSession_send e msg_type_download_resp
                     (if complete then file_msg_error_complete else file_msg_error_progress)
                     filemd5 sendoffset (m_currentDownloadFileSize s) filedata s
           in if percent_ok (m_currentDownloadFileOffset s) (m_currentDownloadFileSize s)
              then Some (True, if complete then resetFile s else s) else None)"

definition onDownloadFileResponse :: "file_env \<Rightarrow> byte list \<Rightarrow> 32 word \<Rightarrow> file_state \<Rightarrow> (bool \<times> file_state) option" where
  "onDownloadFileResponse e filemd5 clientNetType s =
     (if filemd5 = [] then Some (False, s)
      else case isFileExsit e (c_name filemd5) s of (exists, s) \<Rightarrow>
        if \<not> exists
        then Some (True, TcpSession_send e msg_type_download_resp file_msg_error_not_exist filemd5 0 0 [] s)
        else case open_download e filemd5 s of
          (False, s) \<Rightarrow> Some (False, s)
        | (True, s) \<Rightarrow> send_piece e filemd5 clientNetType s)"

text \<open>A request. The memory of the packet ends with a NUL, as \<open>c_str\<close> has it. The sequence number is
  never counted up: every case of the \<open>switch\<close> returns.\<close>

definition process :: "file_env \<Rightarrow> byte list \<Rightarrow> file_state \<Rightarrow> (bool \<times> file_state) option" where
  "process e inbuf s =
     (case ReadInt32 (mkReader (inbuf @ [0]) (length inbuf)) of
        (None, _) \<Rightarrow> Some (False, s)
      | (Some cmd, r) \<Rightarrow>
     (case ReadInt32 r of
        (None, _) \<Rightarrow> Some (False, s)
      | (Some seq, r) \<Rightarrow>
          let s = s\<lparr>m_seq := seq\<rparr> in
     (case ReadString 0 r of
        None \<Rightarrow> None
      | Some (None, _) \<Rightarrow> Some (False, s)
      | Some (Some filemd5, r) \<Rightarrow>
          if filemd5 = [] then Some (False, s) else
     (case ReadInt64 (fe_stack e) r of
        None \<Rightarrow> None
      | Some (None, _) \<Rightarrow> Some (False, s)
      | Some (Some offset, r) \<Rightarrow>
     (case ReadInt64 (fe_stack e) r of
        None \<Rightarrow> None
      | Some (None, _) \<Rightarrow> Some (False, s)
      | Some (Some filesize, r) \<Rightarrow>
     (case ReadString 0 r of
        None \<Rightarrow> None
      | Some (None, _) \<Rightarrow> Some (False, s)
      | Some (Some filedata, r) \<Rightarrow>
          if cmd = msg_type_upload_req then onUploadFileResponse e filemd5 offset filesize filedata s
          else if cmd = msg_type_download_req then
            (case ReadInt32 r of
               (None, _) \<Rightarrow> Some (False, s)
             | (Some clientNetType, _) \<Rightarrow> onDownloadFileResponse e filemd5 clientNetType s)
          else Some (False, s)))))))"

definition force_close :: "file_state \<Rightarrow> file_state" where
  "force_close s = s\<lparr>conn_closing := True\<rparr>"

definition packagesize :: "byte list \<Rightarrow> int" where
  "packagesize bs = sint (be_word (rev (take 8 bs)) :: 64 word)"

text \<open>The packages that are complete in the buffer are processed one after the other.\<close>

lemma readable_retrieve: "n \<le> readableBytes b \<Longrightarrow> readableBytes (snd (retrieve n b)) \<le> readableBytes b - n"
  by (auto simp: retrieve_def retrieveAll_def readableBytes_def)

function onRead :: "file_env \<Rightarrow> Buffer \<Rightarrow> file_state \<Rightarrow> (Buffer \<times> file_state) option" where
  "onRead e b s =
     (if readableBytes b < 8 then Some (b, s)
      else if packagesize (content b) \<le> 0 \<or> MAX_PACKAGE_SIZE < packagesize (content b) then Some (b, force_close s)
      else if readableBytes b < nat (packagesize (content b)) + 8 then Some (b, s)
      else
        let n = nat (packagesize (content b));
            c = snd (retrieve 8 b)
        in case process e (take n (content c)) s of
             None \<Rightarrow> None
           | Some (ok, s) \<Rightarrow> onRead e (snd (retrieve n c)) (if ok then s else force_close s))"
  by auto
termination
proof (relation "measure (\<lambda>(e, b, s). readableBytes b)", goal_cases)
  case (2 e b s n c r ok s')
  have "readableBytes c \<le> readableBytes b - 8"
    unfolding 2(5) by (rule readable_retrieve) (use 2(1) in simp)
  moreover have "readableBytes (snd (retrieve n c)) \<le> readableBytes c"
    using readable_retrieve [of n c] retrieve_refused [of c n] by (cases "n \<le> readableBytes c") auto
  ultimately show ?case using 2(1) by simp
qed simp

declare onRead.simps [simp del]

section \<open>\<open>FileServer\<close>\<close>

text \<open>The sessions by their connection, and the connections that are gone. A connection calls its session through a
  plain pointer, \<open>None\<close> when the session was destroyed.\<close>

record file_server =
  fsv_store :: file_store
  m_sessions :: "(nat \<times> file_state) list"
  fsv_buffer :: "nat \<Rightarrow> Buffer"
  fsv_gone :: "nat set"

definition onConnected :: "nat \<Rightarrow> file_server \<Rightarrow> file_server" where
  "onConnected c v = v\<lparr>m_sessions := m_sessions v @ [(c, FileSession (fsv_store v))], fsv_buffer := (fsv_buffer v)(c := mkBuffer kInitialSize)\<rparr>"

text \<open>\<open>onDisconnected\<close> looks at the first session only; the connection goes afterwards.\<close>

definition onDisconnected :: "nat \<Rightarrow> file_server \<Rightarrow> file_server" where
  "onDisconnected c v =
     (let v = (case m_sessions v of
                 [] \<Rightarrow> v
               | (d, _) # rest \<Rightarrow> if d \<in> fsv_gone v then v else v\<lparr>m_sessions := rest\<rparr>)
      in v\<lparr>fsv_gone := insert c (fsv_gone v)\<rparr>)"

definition with_store :: "file_store \<Rightarrow> file_state \<Rightarrow> file_state" where
  "with_store st s = s\<lparr>disk := disk st, m_listFiles := m_listFiles st, fs_calls := fs_calls st\<rparr>"

definition onMessage :: "file_env \<Rightarrow> nat \<Rightarrow> byte list \<Rightarrow> file_server \<Rightarrow> file_server option" where
  "onMessage e c data v =
     (case map_of (m_sessions v) c of
        None \<Rightarrow> None
      | Some s \<Rightarrow>
          (case onRead e (append_data data (fsv_buffer v c)) (with_store (fsv_store v) s) of
             None \<Rightarrow> None
           | Some (b, s) \<Rightarrow> Some (v\<lparr>fsv_store := file_store.truncate s, fsv_buffer := (fsv_buffer v)(c := b),
               m_sessions := map (\<lambda>(d, t). (d, if d = c then s else t)) (m_sessions v)\<rparr>)))"

datatype file_event = Connected nat | Disconnected nat | Message nat "byte list"

fun file_step :: "file_env \<Rightarrow> file_event \<Rightarrow> file_server \<Rightarrow> file_server option" where
  "file_step e (Connected c) v = Some (onConnected c v)"
| "file_step e (Disconnected c) v = Some (onDisconnected c v)"
| "file_step e (Message c data) v = onMessage e c data v"

fun file_run :: "file_env \<Rightarrow> file_event list \<Rightarrow> file_server \<Rightarrow> file_server option" where
  "file_run e [] v = Some v"
| "file_run e (x # xs) v = (case file_step e x v of None \<Rightarrow> None | Some v \<Rightarrow> file_run e xs v)"

end
