(* ===== verification/File_Props.thy ===== *)
theory File_Props
  imports File_Server
begin

text \<open>
  Properties of the file server: packages are processed alike however the stream is cut, an uploaded file comes
  back, and three faults: a request for an empty file ends the process, a packet of one file is written into
  another, and a client that leaves destroys the session of another.
\<close>

section \<open>The stream of packages\<close>

text \<open>What \<open>onRead\<close> does on a byte string: the rest that waits for more, and the state.\<close>

function parse :: "file_env \<Rightarrow> byte list \<Rightarrow> file_state \<Rightarrow> (byte list \<times> file_state) option" where
  "parse e bs s =
     (if length bs < 8 then Some (bs, s)
      else if packagesize bs \<le> 0 \<or> MAX_PACKAGE_SIZE < packagesize bs then Some (bs, force_close s)
      else if length bs < nat (packagesize bs) + 8 then Some (bs, s)
      else
        case process e (take (nat (packagesize bs)) (drop 8 bs)) s of
          None \<Rightarrow> None
        | Some (ok, s) \<Rightarrow> parse e (drop (nat (packagesize bs)) (drop 8 bs)) (if ok then s else force_close s))"
  by auto
termination by (relation "measure (\<lambda>(e, bs, s). length bs)") auto

declare parse.simps [simp del]

lemma onRead_parse:
  "buffer_ok b \<Longrightarrow> map_option (apfst content) (onRead e b s) = parse e (content b) s \<and>
    (\<forall>c t. onRead e b s = Some (c, t) \<longrightarrow> buffer_ok c)"
proof (induction e b s rule: onRead.induct)
  case (1 e b s)
  note ok = "1.prems"
  let ?n = "nat (packagesize (content b))"
  let ?c = "snd (retrieve 8 b)"
  have len: "readableBytes b = length (content b)" using ok by (simp add: length_buffer_content)
  show ?case
  proof (cases "length (content b) < 8 \<or> packagesize (content b) \<le> 0 \<or> MAX_PACKAGE_SIZE < packagesize (content b) \<or>
      length (content b) < ?n + 8")
    case True
    then show ?thesis using ok by (auto simp: onRead.simps [of e b] parse.simps [of e "content b"] len)
  next
    case False
    have c: "buffer_ok ?c" "content ?c = drop 8 (content b)" using False ok by (simp_all add: retrieve_ok content_retrieve len)
    have "readableBytes ?c = length (content b) - 8" using length_buffer_content [OF c(1)] by (simp add: c(2))
    with False have "?n \<le> readableBytes ?c" by linarith
    then have d: "buffer_ok (snd (retrieve ?n ?c))" "content (snd (retrieve ?n ?c)) = drop ?n (drop 8 (content b))"
      using c(2) by (simp_all add: retrieve_ok content_retrieve c(1))
    show ?thesis
    proof (cases "process e (take ?n (content ?c)) s")
      case None
      then show ?thesis using False by (simp add: onRead.simps [of e b] parse.simps [of e "content b"] len c(2) Let_def)
    next
      case (Some q)
      obtain r t where q: "q = (r, t)" by (cases q)
      have on: "onRead e b s = onRead e (snd (retrieve ?n ?c)) (if r then t else force_close t)"
        using False Some q by (simp add: onRead.simps [of e b] len Let_def)
      have pa: "parse e (content b) s = parse e (drop ?n (drop 8 (content b))) (if r then t else force_close t)"
        using False Some q c(2) by (simp add: parse.simps [of e "content b"])
      show ?thesis
        unfolding on pa d(2) [symmetric]
        by (rule "1.IH" [OF _ _ _ refl refl Some [unfolded q] refl d(1)]) (use False in \<open>simp_all add: len\<close>)
    qed
  qed
qed

lemma packagesize_append: "8 \<le> length xs \<Longrightarrow> packagesize (xs @ ys) = packagesize xs"
  by (simp add: packagesize_def)

lemma force_close_twice [simp]: "force_close (force_close s) = force_close s"
  by (simp add: force_close_def)

lemma parse_append:
  "parse e (xs @ ys) s = (case parse e xs s of None \<Rightarrow> None | Some (rest, s) \<Rightarrow> parse e (rest @ ys) s)"
proof (induction e xs s rule: parse.induct)
  case (1 e xs s)
  show ?case
  proof (cases "length xs < 8 \<or> packagesize xs \<le> 0 \<or> MAX_PACKAGE_SIZE < packagesize xs \<or> length xs < nat (packagesize xs) + 8")
    case True
    then show ?thesis
      by (auto simp: parse.simps [of e xs] parse.simps [of e "xs @ ys"] packagesize_append)
  next
    case False
    show ?thesis
    proof (cases "process e (take (nat (packagesize xs)) (drop 8 xs)) s")
      case None
      then show ?thesis using False
        by (simp add: parse.simps [of e xs] parse.simps [of e "xs @ ys"] packagesize_append)
    next
      case (Some q)
      obtain r t where q: "q = (r, t)" by (cases q)
      show ?thesis using False Some q "1.IH" [OF _ _ _ Some [unfolded q] refl]
        by (simp add: parse.simps [of e xs] parse.simps [of e "xs @ ys"] packagesize_append)
    qed
  qed
qed

text \<open>The bytes of a connection in the pieces in which they arrive.\<close>

fun feed :: "file_env \<Rightarrow> byte list list \<Rightarrow> Buffer \<Rightarrow> file_state \<Rightarrow> (Buffer \<times> file_state) option" where
  "feed e [] b s = Some (b, s)"
| "feed e (c # cs) b s = (case onRead e (append_data c b) s of None \<Rightarrow> None | Some (b, s) \<Rightarrow> feed e cs b s)"

lemma feed_parse:
  assumes "buffer_ok b" "cs \<noteq> []"
  shows "map_option (apfst content) (feed e cs b s) = parse e (content b @ concat cs) s"
  using assms
proof (induction cs arbitrary: b s)
  case (Cons c cs)
  have b: "buffer_ok (append_data c b)" "content (append_data c b) = content b @ c"
    using Cons.prems(1) by (simp_all add: append_data_ok content_append_data)
  note on = onRead_parse [OF b(1), of e s, unfolded b(2)]
  show ?case
  proof (cases "onRead e (append_data c b) s")
    case None
    with on have "parse e (content b @ c) s = None" by simp
    then show ?thesis using None parse_append [of e "content b @ c" "concat cs" s] by simp
  next
    case (Some q)
    obtain d t where q: "q = (d, t)" by (cases q)
    with on Some have p: "parse e (content b @ c) s = Some (content d, t)" "buffer_ok d" by (metis apfst_conv option.simps(9), blast)
    have "parse e (content b @ concat (c # cs)) s = parse e (content d @ concat cs) t"
      using p(1) parse_append [of e "content b @ c" "concat cs" s] by simp
    then show ?thesis using Some q Cons.IH [OF p(2), of t] p(1) by (cases "cs = []") simp_all
  qed
qed simp

lemma feed_new: "map_option (apfst content) (feed e cs (mkBuffer n) s) = parse e (concat cs) s"
  by (cases "cs = []") (simp_all add: feed_parse mkBuffer_ok content_mkBuffer parse.simps)

section \<open>Requests\<close>

text \<open>What a client sends: the fields that \<open>process\<close> reads, written with the same streams.\<close>

definition upload_request :: "byte list \<Rightarrow> 32 word \<Rightarrow> byte list \<Rightarrow> int \<Rightarrow> int \<Rightarrow> byte list \<Rightarrow> byte list" where
  "upload_request head q md5 off n data =
     Flush (WriteString data (WriteInt64 (word_of_int n) False (WriteInt64 (word_of_int off) False
       (WriteString md5 (WriteInt32 q False (WriteInt32 msg_type_upload_req False (mkWriter head)))))))"

definition download_request :: "byte list \<Rightarrow> 32 word \<Rightarrow> byte list \<Rightarrow> 32 word \<Rightarrow> byte list" where
  "download_request head q md5 net =
     Flush (WriteInt32 net False (WriteString [] (WriteInt64 0 False (WriteInt64 0 False
       (WriteString md5 (WriteInt32 q False (WriteInt32 msg_type_download_req False (mkWriter head))))))))"

text \<open>The memory behind the digits of a number must not look like a digit, \<open>ReadInt64\<close> does not end them.\<close>

definition clean_stack :: "byte list \<Rightarrow> bool" where
  "clean_stack stack \<longleftrightarrow> length stack = 128 \<and> (\<forall>b\<in>set stack. \<not> digit_byte b)"

definition fits64 :: "int \<Rightarrow> bool" where
  "fits64 v \<longleftrightarrow> - (2 ^ 63) \<le> v \<and> v < 2 ^ 63"

definition int_field :: "int \<Rightarrow> byte list" where
  "int_field v = WriteInt64 (word_of_int v) False []"

lemma WriteInt64_field: "WriteInt64 (word_of_int v) False d = d @ int_field v"
  by (simp add: int_field_def WriteInt64_def WriteCString_def)

lemma Flush_head:
  assumes "length head = 6"
  shows "\<exists>h. Flush (mkWriter head @ xs) = h @ xs \<and> length h = 6"
proof -
  have "Flush (mkWriter head @ xs) = (be_bytes 4 (word_of_nat (length (mkWriter head @ xs)) :: 32 word) @ drop 4 head) @ xs"
    using assms by (simp add: Flush_def copy_at_def mkWriter_def BINARY_PACKLEN_LEN_2_def CHECKSUM_LEN_def)
  moreover have "length (be_bytes 4 (word_of_nat (length (mkWriter head @ xs)) :: 32 word) @ drop 4 head) = 6" using assms by simp
  ultimately show ?thesis by blast
qed

lemma upload_request_wire:
  assumes "length head = 6" "length md5 < 2 ^ 32" "length data < 2 ^ 32"
  shows "\<exists>h. upload_request head q md5 off n data = h @ be_bytes 4 msg_type_upload_req @ be_bytes 4 q @ wire_string md5 @ int_field off @
    int_field n @ wire_string data \<and> length h = 6"
  using Flush_head [OF assms(1), of "be_bytes 4 msg_type_upload_req @ be_bytes 4 q @ wire_string md5 @ int_field off @ int_field n @ wire_string data"] assms
  by (simp add: upload_request_def WriteString_def WriteCString_wire WriteInt64_field WriteInt32_def)

lemma download_request_wire:
  assumes "length head = 6" "length md5 < 2 ^ 32"
  shows "\<exists>h. download_request head q md5 net = h @ be_bytes 4 msg_type_download_req @ be_bytes 4 q @ wire_string md5 @ int_field 0 @
    int_field 0 @ wire_string [] @ be_bytes 4 net \<and> length h = 6"
  using Flush_head [OF assms(1), of "be_bytes 4 msg_type_download_req @ be_bytes 4 q @ wire_string md5 @ int_field 0 @ int_field 0 @ wire_string [] @ be_bytes 4 net"] assms
    WriteInt64_field [of 0]
  by (simp add: download_request_def WriteString_def WriteCString_wire WriteInt32_def)

lemma read_int32:
  assumes "reader_ok r" "unread r = be_bytes 4 i @ rest"
  shows "\<exists>r'. ReadInt32 r = (Some i, r') \<and> reader_ok r' \<and> unread r' = rest"
  using unread_step [OF assms] by (simp add: ReadInt32_def)

lemma read_string:
  assumes "reader_ok r" "unread r = wire_string str @ rest" "length str < 2 ^ 32"
  shows "\<exists>r'. ReadString 0 r = Some (Some str, r') \<and> reader_ok r' \<and> unread r' = rest"
  using read_string_wire [OF assms] by (auto simp: ReadString_def)

lemma read_int64:
  assumes "reader_ok r" "unread r = int_field v @ rest" "clean_stack stack" "fits64 v"
  shows "\<exists>r'. ReadInt64 stack r = Some (Some v, r') \<and> reader_ok r' \<and> unread r' = rest"
proof -
  let ?w = "word_of_int v :: 64 word"
  have "length (dec_int (sint ?w)) < length stack" using length_dec_sint [of ?w] assms(3) by (simp add: clean_stack_def)
  then have "\<not> digit_byte (stack ! length (dec_int (sint ?w)))" using assms(3) nth_mem by (auto simp: clean_stack_def)
  moreover have "sint ?w = v" using assms(4) unfolding fits64_def by (subst signed_of_int) (simp add: signed_take_bit_int_eq_self)
  ultimately show ?thesis
    using int64_roundtrip [OF assms(1), of stack ?w rest] assms(2,3) by (simp add: int_field_def clean_stack_def)
qed

lemma request_reader:
  "length h = 6 \<Longrightarrow> reader_ok (mkReader ((h @ xs) @ [0]) (length (h @ xs))) \<and> unread (mkReader ((h @ xs) @ [0]) (length (h @ xs))) = xs"
  by (simp add: reader_ok_def unread_def mkReader_def BINARY_PACKLEN_LEN_2_def CHECKSUM_LEN_def subrange_def)

text \<open>The fields up to the data, whatever the command.\<close>

lemma process_fields:
  assumes h: "length h = 6" and md5: "md5 \<noteq> []" "length md5 < 2 ^ 32" and data: "length data < 2 ^ 32"
    and v: "clean_stack (fe_stack e)" "fits64 off" "fits64 n"
  shows "\<exists>r. reader_ok r \<and> unread r = rest \<and>
    process e (h @ be_bytes 4 cmd @ be_bytes 4 q @ wire_string md5 @ int_field off @ int_field n @ wire_string data @ rest) s =
      (if cmd = msg_type_upload_req then onUploadFileResponse e md5 off n data (s\<lparr>m_seq := q\<rparr>)
       else if cmd = msg_type_download_req then
         (case ReadInt32 r of (None, _) \<Rightarrow> Some (False, s\<lparr>m_seq := q\<rparr>) | (Some net, _) \<Rightarrow> onDownloadFileResponse e md5 net (s\<lparr>m_seq := q\<rparr>))
       else Some (False, s\<lparr>m_seq := q\<rparr>))"
proof -
  let ?xs = "be_bytes 4 cmd @ be_bytes 4 q @ wire_string md5 @ int_field off @ int_field n @ wire_string data @ rest"
  obtain r1 where r1: "ReadInt32 (mkReader ((h @ ?xs) @ [0]) (length (h @ ?xs))) = (Some cmd, r1)" "reader_ok r1"
      "unread r1 = be_bytes 4 q @ wire_string md5 @ int_field off @ int_field n @ wire_string data @ rest"
    using read_int32 [of "mkReader ((h @ ?xs) @ [0]) (length (h @ ?xs))" cmd] request_reader [OF h, of ?xs] by blast
  obtain r2 where r2: "ReadInt32 r1 = (Some q, r2)" "reader_ok r2"
      "unread r2 = wire_string md5 @ int_field off @ int_field n @ wire_string data @ rest"
    using read_int32 [OF r1(2,3)] by blast
  obtain r3 where r3: "ReadString 0 r2 = Some (Some md5, r3)" "reader_ok r3"
      "unread r3 = int_field off @ int_field n @ wire_string data @ rest"
    using read_string [OF r2(2,3) md5(2)] by blast
  obtain r4 where r4: "ReadInt64 (fe_stack e) r3 = Some (Some off, r4)" "reader_ok r4" "unread r4 = int_field n @ wire_string data @ rest"
    using read_int64 [OF r3(2,3) v(1,2)] by blast
  obtain r5 where r5: "ReadInt64 (fe_stack e) r4 = Some (Some n, r5)" "reader_ok r5" "unread r5 = wire_string data @ rest"
    using read_int64 [OF r4(2,3) v(1,3)] by blast
  obtain r6 where r6: "ReadString 0 r5 = Some (Some data, r6)" "reader_ok r6" "unread r6 = rest"
    using read_string [OF r5(2,3) data] by blast
  show ?thesis
    by (rule exI [of _ r6]) (use r6 md5(1) r1(1) r2(1) r3(1) r4(1) r5(1) in \<open>simp add: process_def Let_def\<close>)
qed

lemma process_upload:
  assumes "length head = 6" "md5 \<noteq> []" "length md5 < 2 ^ 32" "length data < 2 ^ 32" "clean_stack (fe_stack e)" "fits64 off" "fits64 n"
  shows "process e (upload_request head q md5 off n data) s = onUploadFileResponse e md5 off n data (s\<lparr>m_seq := q\<rparr>)"
proof -
  obtain h where h: "upload_request head q md5 off n data = h @ be_bytes 4 msg_type_upload_req @ be_bytes 4 q @ wire_string md5 @ int_field off @
      int_field n @ wire_string data @ []" "length h = 6"
    using upload_request_wire [OF assms(1,3,4)] by fastforce
  show ?thesis using process_fields [OF h(2) assms(2-7), of "[]" msg_type_upload_req q s] unfolding h(1) by auto
qed

lemma process_download:
  assumes "length head = 6" "md5 \<noteq> []" "length md5 < 2 ^ 32" "clean_stack (fe_stack e)"
  shows "process e (download_request head q md5 net) s = onDownloadFileResponse e md5 net (s\<lparr>m_seq := q\<rparr>)"
proof -
  obtain h where h: "download_request head q md5 net = h @ be_bytes 4 msg_type_download_req @ be_bytes 4 q @ wire_string md5 @ int_field 0 @
      int_field 0 @ wire_string [] @ be_bytes 4 net" "length h = 6"
    using download_request_wire [OF assms(1,3)] by blast
  have f: "fits64 0" "length ([] :: byte list) < 2 ^ 32" by (simp_all add: fits64_def)
  obtain r where r: "reader_ok r" "unread r = be_bytes 4 net @ []"
      "process e (download_request head q md5 net) s =
        (case ReadInt32 r of (None, _) \<Rightarrow> Some (False, s\<lparr>m_seq := q\<rparr>) | (Some net, _) \<Rightarrow> onDownloadFileResponse e md5 net (s\<lparr>m_seq := q\<rparr>))"
    using process_fields [OF h(2) assms(2,3) f(2) assms(4) f(1) f(1), of "be_bytes 4 net" msg_type_download_req q s] unfolding h(1) by auto
  from read_int32 [OF r(1,2)] r(3) show ?thesis by auto
qed

section \<open>Whole packages\<close>

fun process_all :: "file_env \<Rightarrow> byte list list \<Rightarrow> file_state \<Rightarrow> file_state option" where
  "process_all e [] s = Some s"
| "process_all e (b # bs) s = (case process e b s of None \<Rightarrow> None | Some (ok, s) \<Rightarrow> process_all e bs (if ok then s else force_close s))"

definition sendable :: "byte list \<Rightarrow> bool" where
  "sendable body \<longleftrightarrow> body \<noteq> [] \<and> int (length body) \<le> MAX_PACKAGE_SIZE"

lemma packagesize_package: "length body < 2 ^ 63 \<Longrightarrow> packagesize (package body @ rest) = int (length body)"
  unfolding packagesize_def package_def
  by (simp add: signed_of_nat signed_take_bit_int_eq_self)

lemma parse_package:
  assumes "sendable body"
  shows "parse e (package body @ rest) s =
    (case process e body s of None \<Rightarrow> None | Some (ok, s) \<Rightarrow> parse e rest (if ok then s else force_close s))"
proof -
  have "length body < 2 ^ 63" "0 < length body" using assms by (simp_all add: sendable_def)
  then have n: "packagesize (package body @ rest) = int (length body)" by (simp add: packagesize_package)
  have d: "drop 8 (package body @ rest) = body @ rest" "length (package body @ rest) = 8 + length body + length rest"
    by (simp_all add: package_def)
  define x where "x = package body @ rest"
  note x = n [folded x_def] d [folded x_def]
  have p: "drop (nat (packagesize x)) (drop 8 x) = rest" "take (nat (packagesize x)) (drop 8 x) = body" by (simp_all add: x)
  have "\<not> length x < 8 \<and> \<not> (packagesize x \<le> 0 \<or> MAX_PACKAGE_SIZE < packagesize x) \<and> \<not> length x < nat (packagesize x) + 8"
    using assms by (simp add: x sendable_def)
  then show ?thesis
    unfolding x_def [symmetric] parse.simps [of e x] p by simp
qed

lemma parse_packages:
  "\<forall>b\<in>set bs. sendable b \<Longrightarrow> parse e (concat (map package bs)) s = map_option (Pair []) (process_all e bs s)"
proof (induction bs arbitrary: s)
  case Nil
  then show ?case by (simp add: parse.simps)
next
  case (Cons b bs)
  then show ?case by (auto simp: parse_package split: option.split)
qed

lemma process_all_append:
  "process_all e (xs @ ys) s = (case process_all e xs s of None \<Rightarrow> None | Some s \<Rightarrow> process_all e ys s)"
  by (induction xs arbitrary: s) (auto split: option.split)

lemma length_wire_string: "length (wire_string s) \<le> length s + 5"
  using length_write7_32 by (simp add: wire_string_def)

lemma length_int_field: "length (int_field v) \<le> 25"
proof -
  have l: "length (ascii (dec_int (sint (word_of_int v :: 64 word)))) \<le> 20"
    using length_dec_sint [of "word_of_int v"] by (simp add: ascii_def)
  then have "int_field v = wire_string (ascii (dec_int (sint (word_of_int v :: 64 word))))"
    using WriteCString_wire [of _ "[]"] by (simp add: int_field_def WriteInt64_def)
  then show ?thesis using l length_wire_string [of "ascii (dec_int (sint (word_of_int v :: 64 word)))"] by simp
qed

lemma upload_request_sendable:
  assumes "length head = 6" "length md5 \<le> 1024" "length data \<le> 50 * 1024 * 1024 - 2048"
  shows "sendable (upload_request head q md5 off n data)"
proof -
  have b: "length md5 < 2 ^ 32" "length data < 2 ^ 32" using assms by simp_all
  from upload_request_wire [OF assms(1) b] obtain h where
    h: "upload_request head q md5 off n data = h @ be_bytes 4 msg_type_upload_req @ be_bytes 4 q @ wire_string md5 @ int_field off @
      int_field n @ wire_string data" "length h = 6" by blast
  from h(2) have "h \<noteq> []" by auto
  then show ?thesis
    unfolding sendable_def h(1)
    using h(2) assms length_wire_string [of md5] length_wire_string [of data] length_int_field [of off] length_int_field [of n]
    by (auto simp: h(2))
qed

lemma download_request_sendable:
  assumes "length head = 6" "length md5 \<le> 1024"
  shows "sendable (download_request head q md5 net)"
proof -
  have b: "length md5 < 2 ^ 32" using assms by simp
  from download_request_wire [OF assms(1) b] obtain h where
    h: "download_request head q md5 net = h @ be_bytes 4 msg_type_download_req @ be_bytes 4 q @ wire_string md5 @ int_field 0 @
      int_field 0 @ wire_string [] @ be_bytes 4 net" "length h = 6" by blast
  from h(2) have "h \<noteq> []" by auto
  then show ?thesis
    unfolding sendable_def h(1)
    using h(2) assms length_wire_string [of md5] length_wire_string [of "[]"] length_int_field [of 0]
    by (auto simp: h(2))
qed

section \<open>An upload\<close>

text \<open>A disk on which every call succeeds.\<close>

definition good_disk :: "file_env \<Rightarrow> bool" where
  "good_disk e \<longleftrightarrow> (\<forall>n. fe_call e n = None) \<and> m_basepath e = m_strFileBaseDir e"

definition idle :: "file_state \<Rightarrow> bool" where
  "idle s \<longleftrightarrow> m_fp s = None \<and> \<not> m_bFileUploading s \<and> m_currentDownloadFileOffset s = 0 \<and> m_currentDownloadFileSize s = 0"

definition path_of :: "file_env \<Rightarrow> byte list \<Rightarrow> path" where
  "path_of e md5 = m_strFileBaseDir e @ c_name md5"

definition stored :: "file_env \<Rightarrow> byte list \<Rightarrow> byte list \<Rightarrow> file_state \<Rightarrow> bool" where
  "stored e md5 d s \<longleftrightarrow> disk s (path_of e md5) = Some d \<and> c_name md5 \<in> set (m_listFiles s) \<and> idle s"

definition unknown :: "file_env \<Rightarrow> byte list \<Rightarrow> file_state \<Rightarrow> bool" where
  "unknown e md5 s \<longleftrightarrow> disk s (m_basepath e @ c_name md5) = None \<and> c_name md5 \<notin> set (m_listFiles s)"

text \<open>The state after the bytes \<open>d\<close> of the file.\<close>

definition uploading :: "file_env \<Rightarrow> byte list \<Rightarrow> byte list \<Rightarrow> file_state \<Rightarrow> bool" where
  "uploading e md5 d s \<longleftrightarrow>
     (if d = [] then unknown e md5 s \<and> idle s
      else disk s (path_of e md5) = Some d \<and> m_bFileUploading s \<and> (\<exists>f. m_fp s = Some f \<and> of_path f = path_of e md5))"

definition one_reply :: "file_state \<Rightarrow> file_state \<Rightarrow> bool" where
  "one_reply s s' \<longleftrightarrow> conn_closing s' = conn_closing s \<and> (\<exists>r. conn_sent s' = conn_sent s @ [r])"

lemma write_at_end: "write_at (length d) data d = d @ data"
  by (simp add: write_at_def)

lemma good_call [simp]: "good_disk e \<Longrightarrow> call_ok e s" "good_disk e \<Longrightarrow> fe_call e n = None"
  by (simp_all add: good_disk_def call_ok_def)

lemmas file_defs = fseek_set_def fwrite_def fflush_def called_def addFile_def resetFile_def TcpSession_send_def sendPackage_def
  file_bytes_def

lemma write_upload_end:
  assumes e: "good_disk e" and s: "m_fp s = Some f" "of_path f = path_of e md5" "disk s (path_of e md5) = Some d"
      "m_bFileUploading s" "\<not> conn_closing s"
    and n: "data \<noteq> []" "int (length (d @ data)) \<le> n" "n * 100 < 2 ^ 63"
  shows "\<exists>s'. write_upload e md5 (int (length d)) n data f s = Some (True, s') \<and> one_reply s s' \<and>
    (if int (length (d @ data)) = n then stored e md5 (d @ data) s' else uploading e md5 (d @ data) s')"
proof -
  have p: "percent_ok (int (length d)) n" "percent_ok n n" "int (length d) + int (length data) < 2 ^ 63"
    using n length_greater_0_conv [of data] by (simp_all add: percent_ok_def del: length_greater_0_conv)
  show ?thesis
    using e s n(1) p
    by (simp add: write_upload_def file_defs write_at_end Let_def one_reply_def stored_def uploading_def idle_def)
qed

lemma upload_step:
  assumes e: "good_disk e" and s: "uploading e md5 d s" "\<not> conn_closing s" and md5: "md5 \<noteq> []"
    and n: "data \<noteq> []" "int (length (d @ data)) \<le> n" "n * 100 < 2 ^ 63"
  shows "\<exists>s'. onUploadFileResponse e md5 (int (length d)) n data s = Some (True, s') \<and> one_reply s s' \<and>
    (if int (length (d @ data)) = n then stored e md5 (d @ data) s' else uploading e md5 (d @ data) s')"
proof (cases "d = []")
  case True
  let ?f = "\<lparr>of_path = path_of e md5, of_pos = 0, of_readable = False\<rparr>"
  let ?s = "s\<lparr>disk := (disk s)(path_of e md5 \<mapsto> []), fs_calls := Suc (Suc (fs_calls s)), m_fp := Some ?f, m_bFileUploading := True\<rparr>"
  have "onUploadFileResponse e md5 (int (length ([] :: byte list))) n data s = write_upload e md5 (int (length ([] :: byte list))) n data ?f ?s"
    using True s e md5 by (simp add: onUploadFileResponse_def isFileExsit_def uploading_def unknown_def fopen_rb_def fopen_wb_def called_def path_of_def)
  moreover have "\<exists>s'. write_upload e md5 (int (length ([] :: byte list))) n data ?f ?s = Some (True, s') \<and> one_reply ?s s' \<and>
      (if int (length ([] @ data)) = n then stored e md5 ([] @ data) s' else uploading e md5 ([] @ data) s')"
    by (rule write_upload_end [OF e]) (use n s(2) True in simp_all)
  moreover have "one_reply ?s = one_reply s" by (simp add: one_reply_def fun_eq_iff)
  ultimately show ?thesis unfolding True by simp
next
  case False
  then obtain f where f: "m_fp s = Some f" "of_path f = path_of e md5" "disk s (path_of e md5) = Some d" "m_bFileUploading s"
    using s(1) by (auto simp: uploading_def)
  define t where "t = snd (isFileExsit e (c_name md5) s)"
  have t: "m_fp t = m_fp s" "disk t = disk s" "m_bFileUploading t" "conn_closing t = conn_closing s" "conn_sent t = conn_sent s"
    using f(4) by (simp_all add: t_def isFileExsit_def fopen_rb_def called_def split: option.split)
  have "onUploadFileResponse e md5 (int (length d)) n data s = write_upload e md5 (int (length d)) n data f t"
    using False md5 t f(1) by (simp add: onUploadFileResponse_def t_def case_prod_unfold)
  then show ?thesis
    using write_upload_end [OF e, of t f md5 d data n] f n s(2) t by (simp add: one_reply_def)
qed

fun upload_requests :: "byte list \<Rightarrow> 32 word \<Rightarrow> byte list \<Rightarrow> nat \<Rightarrow> nat \<Rightarrow> byte list list \<Rightarrow> byte list list" where
  "upload_requests head q md5 n off [] = []"
| "upload_requests head q md5 n off (c # cs) =
     upload_request head q md5 (int off) (int n) c # upload_requests head q md5 n (off + length c) cs"

lemma upload_requests_sendable:
  "length head = 6 \<Longrightarrow> length md5 \<le> 1024 \<Longrightarrow> \<forall>c\<in>set cs. c \<noteq> [] \<and> length c \<le> 50 * 1024 * 1024 - 2048 \<Longrightarrow>
    \<forall>b\<in>set (upload_requests head q md5 n off cs). sendable b"
  by (induction cs arbitrary: off) (simp_all add: upload_request_sendable)

lemma uploading_seq [simp]: "uploading e md5 d (s\<lparr>m_seq := q\<rparr>) = uploading e md5 d s"
  by (simp add: uploading_def unknown_def idle_def)

lemma upload_all:
  assumes e: "good_disk e" "clean_stack (fe_stack e)" and head: "length head = 6" and md5: "md5 \<noteq> []" "length md5 \<le> 1024"
    and n: "int n * 100 < 2 ^ 63"
  shows "uploading e md5 d s \<Longrightarrow> \<not> conn_closing s \<Longrightarrow> cs \<noteq> [] \<Longrightarrow> \<forall>c\<in>set cs. c \<noteq> [] \<and> length c \<le> 50 * 1024 * 1024 - 2048 \<Longrightarrow>
      length (d @ concat cs) = n \<Longrightarrow>
    \<exists>s' rs. process_all e (upload_requests head q md5 n (length d) cs) s = Some s' \<and> stored e md5 (d @ concat cs) s' \<and>
      \<not> conn_closing s' \<and> conn_sent s' = conn_sent s @ rs \<and> length rs = length cs"
proof (induction cs arbitrary: d s)
  case (Cons c cs)
  note len = Cons.prems(5)
  have c: "c \<noteq> []" "length c < 2 ^ 32" "length md5 < 2 ^ 32" using Cons.prems(4) md5(2) by auto
  have fits: "fits64 (int (length d))" "fits64 (int n)" using len n by (auto simp: fits64_def)
  have le: "int (length (d @ c)) \<le> int n" using len by auto
  let ?s = "s\<lparr>m_seq := q\<rparr>"
  obtain t where t: "onUploadFileResponse e md5 (int (length d)) (int n) c ?s = Some (True, t)" "one_reply ?s t"
      "if int (length (d @ c)) = int n then stored e md5 (d @ c) t else uploading e md5 (d @ c) t"
    using upload_step [OF e(1) _ _ md5(1) c(1) le n, of ?s] Cons.prems(1,2) by auto
  have p: "process e (upload_request head q md5 (int (length d)) (int n) c) s = Some (True, t)"
    using process_upload [OF head md5(1) c(3,2) e(2) fits] t(1) by simp
  obtain r where r: "conn_sent t = conn_sent s @ [r]" "\<not> conn_closing t"
    using t(2) Cons.prems(2) by (auto simp: one_reply_def)
  show ?case
  proof (cases "cs = []")
    case True
    then show ?thesis using p t(3) r len by (intro exI [of _ t] exI [of _ "[r]"]) (simp del: of_nat_add)
  next
    case False
    then have "concat cs \<noteq> []" using Cons.prems(4) by (cases cs) auto
    then have "0 < length (concat cs)" by (rule length_greater_0_conv [THEN iffD2])
    then have "length (d @ c) \<noteq> n" using len unfolding concat.simps length_append by linarith
    with t(3) have "uploading e md5 (d @ c) t" by (simp del: of_nat_add length_append)
    from Cons.IH [OF this r(2) False] Cons.prems(4) len obtain s' rs where
      "process_all e (upload_requests head q md5 n (length (d @ c)) cs) t = Some s'" "stored e md5 ((d @ c) @ concat cs) s'"
      "\<not> conn_closing s'" "conn_sent s' = conn_sent t @ rs" "length rs = length cs" by auto
    then show ?thesis using p r by (intro exI [of _ s'] exI [of _ "r # rs"]) simp
  qed
qed simp

section \<open>A download\<close>

definition piece_size :: "32 word \<Rightarrow> nat" where
  "piece_size net = (if net = client_net_type_cellular then 64 * 1024 else 512 * 1024)"

definition opened :: "file_env \<Rightarrow> byte list \<Rightarrow> byte list \<Rightarrow> nat \<Rightarrow> file_state \<Rightarrow> bool" where
  "opened e md5 d off s \<longleftrightarrow> m_fp s = Some \<lparr>of_path = path_of e md5, of_pos = off, of_readable = True\<rparr> \<and>
     m_currentDownloadFileOffset s = int off \<and> m_currentDownloadFileSize s = int (length d)"

text \<open>The state when the pieces up to an offset have been sent.\<close>

definition serving :: "file_env \<Rightarrow> byte list \<Rightarrow> byte list \<Rightarrow> nat \<Rightarrow> file_state \<Rightarrow> bool" where
  "serving e md5 d off s \<longleftrightarrow> disk s (path_of e md5) = Some d \<and> c_name md5 \<in> set (m_listFiles s) \<and> \<not> conn_closing s \<and>
     \<not> m_bFileUploading s \<and> off < length d \<and> (if off = 0 then idle s else opened e md5 d off s)"

definition carries :: "byte list \<Rightarrow> 32 word \<Rightarrow> byte list \<Rightarrow> nat \<Rightarrow> byte list \<Rightarrow> byte list \<Rightarrow> bool" where
  "carries head q md5 n p r \<longleftrightarrow> (\<exists>err off. r = package (response head msg_type_download_resp q err md5 off (int n) p))"

lemma open_served:
  assumes e: "good_disk e" and s: "serving e md5 d off s"
  shows "\<exists>t. open_download e md5 s = (True, t) \<and> opened e md5 d off t \<and> disk t = disk s \<and> m_listFiles t = m_listFiles s \<and>
    conn_sent t = conn_sent s \<and> m_seq t = m_seq s \<and> conn_closing t = conn_closing s \<and> m_bFileUploading t = m_bFileUploading s"
proof (cases "off = 0")
  case True
  then have "idle s" "disk s (m_strFileBaseDir e @ c_name md5) = Some d" "d \<noteq> []"
    using s by (auto simp: serving_def path_of_def)
  then show ?thesis
    using e True by (simp add: open_download_def fopen_rb_def called_def idle_def file_bytes_def fseek_set_def opened_def path_of_def Let_def)
next
  case False
  then show ?thesis using s by (simp add: serving_def open_download_def opened_def)
qed

lemma send_opened:
  assumes e: "good_disk e" and t: "opened e md5 d off t" "disk t (path_of e md5) = Some d" "c_name md5 \<in> set (m_listFiles t)"
      "\<not> conn_closing t" "\<not> m_bFileUploading t" "off < length d"
    and n: "int (length d) * 100 < 2 ^ 63" and k: "k = min (piece_size net) (length d - off)"
  shows "\<exists>s' r. send_piece e md5 net t = Some (True, s') \<and> conn_sent s' = conn_sent t @ [r] \<and> \<not> conn_closing s' \<and>
    carries (fe_head e) (m_seq t) md5 (length d) (take k (drop off d)) r \<and>
    (if off + k = length d then stored e md5 d s' else serving e md5 d (off + k) s')"
proof -
  have size: "send_size net t = int k"
  proof -
    have "int k = min (int (piece_size net)) (int (length d) - int off)" using t(6) by (simp add: k of_nat_diff min_def) linarith
    then show ?thesis using t(1) by (auto simp: send_size_def opened_def piece_size_def min_def Let_def)
  qed
  have k0: "0 < k" "off + k \<le> length d" using k t(6) by (auto simp: piece_size_def)
  have p: "percent_ok (int off + int k) (int (length d))" using n k0 t(6) by (auto simp: percent_ok_def)
  have l: "length (take k (drop off d)) = k" using k0 by simp
  show ?thesis
  proof (cases "off + k = length d")
    case True
    then have "int off + int k = int (length d)" by simp
    then show ?thesis
      using e t k0 p l by (simp add: send_piece_def size fread_def opened_def file_defs Let_def carries_def stored_def idle_def) blast
  next
    case False
    then have "int off + int k \<noteq> int (length d)" by linarith
    then show ?thesis
      using e t k0 p l False by (simp add: send_piece_def size fread_def opened_def file_defs Let_def carries_def serving_def) blast
  qed
qed

lemma download_step:
  assumes e: "good_disk e" and s: "serving e md5 d off s" and md5: "md5 \<noteq> []"
    and n: "int (length d) * 100 < 2 ^ 63" and k: "k = min (piece_size net) (length d - off)"
  shows "\<exists>s' r. onDownloadFileResponse e md5 net s = Some (True, s') \<and> conn_sent s' = conn_sent s @ [r] \<and> \<not> conn_closing s' \<and>
    carries (fe_head e) (m_seq s) md5 (length d) (take k (drop off d)) r \<and>
    (if off + k = length d then stored e md5 d s' else serving e md5 d (off + k) s')"
proof -
  obtain t where t: "open_download e md5 s = (True, t)" "opened e md5 d off t" "disk t = disk s" "m_listFiles t = m_listFiles s"
      "conn_sent t = conn_sent s" "m_seq t = m_seq s" "conn_closing t = conn_closing s" "m_bFileUploading t = m_bFileUploading s"
    using open_served [OF e s] by blast
  have "onDownloadFileResponse e md5 net s = send_piece e md5 net t"
    using s md5 t(1) by (simp add: onDownloadFileResponse_def isFileExsit_def serving_def)
  then show ?thesis
    using send_opened [OF e t(2) _ _ _ _ _ n k] s t(3-8) by (simp add: serving_def)
qed

lemma serving_seq [simp]: "serving e md5 d off (s\<lparr>m_seq := q\<rparr>) = serving e md5 d off s"
  by (simp add: serving_def idle_def opened_def)

lemma download_all:
  assumes e: "good_disk e" "clean_stack (fe_stack e)" and head: "length head = 6" and md5: "md5 \<noteq> []" "length md5 \<le> 1024"
    and n: "int (length d) * 100 < 2 ^ 63"
  shows "serving e md5 d off s \<Longrightarrow> nets \<noteq> [] \<Longrightarrow> length d - off \<le> sum_list (map piece_size nets) \<Longrightarrow>
      sum_list (map piece_size (butlast nets)) < length d - off \<Longrightarrow>
    \<exists>s' ps rs. process_all e (map (download_request head q md5) nets) s = Some s' \<and> stored e md5 d s' \<and>
      conn_sent s' = conn_sent s @ rs \<and> concat ps = drop off d \<and> list_all2 (carries (fe_head e) q md5 (length d)) ps rs"
proof (induction nets arbitrary: off s)
  case (Cons net nets)
  define k where "k = min (piece_size net) (length d - off)"
  let ?s = "s\<lparr>m_seq := q\<rparr>"
  have md5': "length md5 < 2 ^ 32" using md5(2) by simp
  obtain t r where t: "onDownloadFileResponse e md5 net ?s = Some (True, t)" "conn_sent t = conn_sent s @ [r]"
      "carries (fe_head e) q md5 (length d) (take k (drop off d)) r"
      "if off + k = length d then stored e md5 d t else serving e md5 d (off + k) t"
    using download_step [OF e(1) _ md5(1) n k_def, of ?s] Cons.prems(1) by auto
  have p: "process e (download_request head q md5 net) s = Some (True, t)"
    using process_download [OF head md5(1) md5' e(2)] t(1) by simp
  have off: "off < length d" using Cons.prems(1) by (simp add: serving_def)
  show ?case
  proof (cases "nets = []")
    case True
    then have "k = length d - off" using Cons.prems(3) by (simp add: k_def)
    then show ?thesis
      using True p t off by (intro exI [of _ t] exI [of _ "[take k (drop off d)]"] exI [of _ "[r]"]) simp
  next
    case False
    then have k: "k = piece_size net" "off + k < length d" using Cons.prems(4) by (simp_all add: k_def)
    then have "serving e md5 d (off + k) t" using t(4) by simp
    moreover have "length d - (off + k) \<le> sum_list (map piece_size nets)" "sum_list (map piece_size (butlast nets)) < length d - (off + k)"
      using Cons.prems(3,4) k False by simp_all
    ultimately obtain s' ps rs where
      "process_all e (map (download_request head q md5) nets) t = Some s'" "stored e md5 d s'"
      "conn_sent s' = conn_sent t @ rs" "concat ps = drop (off + k) d" "list_all2 (carries (fe_head e) q md5 (length d)) ps rs"
      using Cons.IH [OF _ False] by blast
    moreover have "take k (drop off d) @ drop (off + k) d = drop off d"
      by (metis add.commute append_take_drop_id drop_drop)
    ultimately show ?thesis
      using p t by (intro exI [of _ s'] exI [of _ "take k (drop off d) # ps"] exI [of _ "r # rs"]) simp
  qed
qed simp

section \<open>Sessions\<close>

definition has_session :: "nat \<Rightarrow> file_server \<Rightarrow> bool" where
  "has_session c v \<longleftrightarrow> c \<in> fst ` set (m_sessions v)"

lemma step_no_session:
  assumes "file_step e x v = Some w" "\<not> has_session c v" "x \<noteq> Connected c"
  shows "\<not> has_session c w"
  using assms
proof (cases x)
  case (Disconnected d)
  then show ?thesis using assms by (auto simp: has_session_def onDisconnected_def Let_def split: list.splits prod.splits if_splits)
next
  case (Message d data)
  have names: "fst ` set (map (\<lambda>(b, u). (b, f b u)) l) = fst ` set l" for f :: "nat \<Rightarrow> file_state \<Rightarrow> file_state" and l by force
  from assms(1) Message obtain b s where w: "w = v\<lparr>fsv_store := file_store.truncate s, fsv_buffer := (fsv_buffer v)(d := b),
      m_sessions := map (\<lambda>(a, t). (a, if a = d then s else t)) (m_sessions v)\<rparr>"
    by (auto simp: onMessage_def split: option.splits)
  have "has_session c w = has_session c v" using names [of "\<lambda>a t. if a = d then s else t" "m_sessions v"] by (simp add: has_session_def w)
  with assms(2) show ?thesis by simp
qed (auto simp: has_session_def onConnected_def)

lemma run_no_session:
  "\<not> has_session c v \<Longrightarrow> Connected c \<notin> set evs \<Longrightarrow> file_run e (evs @ [Message c data]) v = None"
proof (induction evs arbitrary: v)
  case Nil
  then have "map_of (m_sessions v) c = None" by (simp add: has_session_def map_of_eq_None_iff)
  then show ?case by (simp add: onMessage_def)
next
  case (Cons x evs)
  then show ?case using step_no_session [of e x v _ c] by (auto split: option.split)
qed

section \<open>Properties\<close>

text \<open>C18: However the network cuts the bytes of a connection, the same packages are processed in the same order: the
  state, the responses, the files and the bytes that are left over are those of the whole stream in
  one piece, up to an illegal header or the end of the process.\<close>

theorem packages_survive_any_cut:
  "map_option (apfst content) (feed e cs (mkBuffer m) s) = map_option (apfst content) (feed e [concat cs] (mkBuffer n) s)"
  by (simp only: feed_new) simp

text \<open>C17: An uploaded file comes back: when a client uploads a file under a new name in nonempty pieces and
  then asks for it piece by piece, the responses carry the file, whatever the pieces and however the stream
  is cut when it is appended to the input buffer. Every packet of the upload gets one response.
  Assumed: \<open>good_disk\<close>, every file call succeeds and both base directories are the same; \<open>clean_stack\<close>,
  the memory behind the digits that \<open>ReadInt64\<close> copies holds no further digits (it is never set,
  \<open>ProtocolStream.cpp:207\<close>); the session is idle and the name neither listed nor on the disk; the name has at
  most 1024 bytes, a piece at most 50 MB less 2048 and the file less than \<open>2 ^ 63 / 100\<close>; the requests for the
  pieces just cover the file. How \<open>readFd\<close> fills the buffer is not part of it (\<open>readFd_ignores_received_bytes\<close>).\<close>

theorem uploaded_file_comes_back:
  assumes e: "good_disk e" "clean_stack (fe_stack e)" and head: "length head = 6" and md5: "md5 \<noteq> []" "length md5 \<le> 1024"
    and s: "unknown e md5 s" "idle s" "\<not> conn_closing s"
    and cs: "cs \<noteq> []" "\<forall>c\<in>set cs. c \<noteq> [] \<and> length c \<le> 50 * 1024 * 1024 - 2048" "int (length (concat cs)) * 100 < 2 ^ 63"
    and nets: "length (concat cs) \<le> sum_list (map piece_size nets)" "sum_list (map piece_size (butlast nets)) < length (concat cs)"
    and stream: "concat bs = concat (map package (upload_requests head q md5 (length (concat cs)) 0 cs @ map (download_request head q md5) nets))"
  shows "\<exists>b s' us ps rs. feed e bs (mkBuffer k) s = Some (b, s') \<and> content b = [] \<and> conn_sent s' = conn_sent s @ us @ rs \<and>
    length us = length cs \<and> list_all2 (carries (fe_head e) q md5 (length (concat cs))) ps rs \<and> concat ps = concat cs"
proof -
  let ?n = "length (concat cs)" and ?ups = "upload_requests head q md5 (length (concat cs)) 0 cs"
  let ?downs = "map (download_request head q md5) nets"
  have "uploading e md5 [] s" using s by (simp add: uploading_def)
  then obtain t us where t: "process_all e ?ups s = Some t" "stored e md5 (concat cs) t" "\<not> conn_closing t"
      "conn_sent t = conn_sent s @ us" "length us = length cs"
    using upload_all [OF e head md5 cs(3), of "[]" s cs q] s(3) cs by auto
  have "0 < length (concat cs)" by (rule le_less_trans [OF le0 nets(2)])
  then have ne: "concat cs \<noteq> []" "nets \<noteq> []"
    using nets(1) by (simp_all only: length_greater_0_conv) (auto simp: length_greater_0_conv)
  then have "serving e md5 (concat cs) 0 t" using t(2,3) by (auto simp: serving_def stored_def idle_def)
  then obtain s' ps rs where s': "process_all e ?downs t = Some s'" "conn_sent s' = conn_sent t @ rs"
      "concat ps = drop 0 (concat cs)" "list_all2 (carries (fe_head e) q md5 ?n) ps rs"
    using download_all [OF e head md5 cs(3), of 0 t nets q] ne(2) nets by auto
  have "\<forall>b\<in>set (?ups @ ?downs). sendable b"
    using upload_requests_sendable [OF head md5(2) cs(2)] download_request_sendable [OF head md5(2)] by auto
  then have "parse e (concat bs) s = Some ([], s')"
    unfolding stream using t(1) s'(1) by (simp only: parse_packages) (simp add: process_all_append)
  then have "map_option (apfst content) (feed e bs (mkBuffer k) s) = Some ([], s')" by (simp only: feed_new)
  then obtain b where "feed e bs (mkBuffer k) s = Some (b, s')" "content b = []" by (auto simp: apfst_def map_prod_def)
  then show ?thesis using t(4,5) s'(2-4) by auto
qed

text \<open>A disk with no files and the session of a new connection.\<close>

definition sample_files :: file_env where
  "sample_files = \<lparr>m_basepath = [47], m_strFileBaseDir = [47], fe_call = \<lambda>_. None, fe_stack = replicate 128 0, fe_head = replicate 6 0\<rparr>"

definition no_files :: file_store where
  "no_files = \<lparr>disk = Map.empty, m_listFiles = [], fs_calls = 0\<rparr>"

lemma sample_files_ok: "good_disk sample_files" "clean_stack (fe_stack sample_files)" "unknown sample_files md5 (FileSession no_files)"
    "idle (FileSession no_files)" "\<not> conn_closing (FileSession no_files)"
  by (simp_all add: sample_files_def good_disk_def clean_stack_def unknown_def FileSession_def no_files_def idle_def)

theorem uploaded_file_comes_back_witness:
  "\<exists>b s' us ps rs. feed sample_files (map package (upload_requests (replicate 6 0) 7 [97] 3 0 [[1, 2], [3]] @
      map (download_request (replicate 6 0) 7 [97]) [0])) (mkBuffer 0) (FileSession no_files) = Some (b, s') \<and>
    content b = [] \<and> conn_sent s' = us @ rs \<and> length us = 2 \<and> list_all2 (carries (replicate 6 0) 7 [97] 3) ps rs \<and> concat ps = [1, 2, 3]"
proof -
  have h: "length (replicate 6 0 :: byte list) = 6" "[97 :: byte] \<noteq> []" "length [97 :: byte] \<le> 1024" "[[1, 2], [3 :: byte]] \<noteq> []"
    "\<forall>c\<in>set [[1, 2], [3 :: byte]]. c \<noteq> [] \<and> length c \<le> 50 * 1024 * 1024 - 2048" "int (length (concat [[1, 2], [3 :: byte]])) * 100 < 2 ^ 63"
    "length (concat [[1, 2], [3 :: byte]]) \<le> sum_list (map piece_size [0])"
    "sum_list (map piece_size (butlast [0])) < length (concat [[1, 2], [3 :: byte]])"
    by (simp_all add: piece_size_def)
  have n: "length (concat [[1, 2], [3 :: byte]]) = 3" "concat [[1, 2], [3 :: byte]] = [1, 2, 3]" "length [1, 2, 3 :: byte] = 3" "fe_head sample_files = replicate 6 0"
    "conn_sent (FileSession no_files) = []" "length [[1, 2], [3 :: byte]] = 2"
    by (simp_all add: sample_files_def FileSession_def)
  show ?thesis
    using uploaded_file_comes_back [OF sample_files_ok(1,2) h(1-3) sample_files_ok(3-5) h(4-8) refl, of 7 0] by (simp only: n append_Nil)
qed

text \<open>C20: A single packet of a client ends the server: an upload of an empty file under a new name divides
  by its size in the log line.\<close>

theorem empty_upload_ends_the_server:
  assumes e: "good_disk e" "clean_stack (fe_stack e)" and head: "length head = 6" and md5: "md5 \<noteq> []" "length md5 \<le> 1024"
    and s: "unknown e md5 s"
  shows "feed e [package (upload_request head q md5 0 0 [])] (mkBuffer k) s = None"
proof -
  have b: "length md5 < 2 ^ 32" "length ([] :: byte list) < 2 ^ 32" "fits64 0" using md5(2) by (simp_all add: fits64_def)
  have "sendable (upload_request head q md5 0 0 [])" using upload_request_sendable [OF head md5(2), of "[]"] by simp
  moreover have "onUploadFileResponse e md5 0 0 [] (s\<lparr>m_seq := q\<rparr>) = None"
    using e(1) md5(1) s
    by (simp add: onUploadFileResponse_def isFileExsit_def unknown_def fopen_rb_def fopen_wb_def write_upload_def file_defs percent_ok_def Let_def)
  ultimately have "parse e (package (upload_request head q md5 0 0 []) @ []) s = None"
    by (simp only: parse_package process_upload [OF head md5(1) b(1,2) e(2) b(3,3)]) simp
  then have "map_option (apfst content) (feed e [package (upload_request head q md5 0 0 [])] (mkBuffer k) s) = None"
    by (simp only: feed_new) simp
  then show ?thesis by simp
qed

theorem empty_upload_ends_the_server_witness:
  "feed sample_files [package (upload_request (replicate 6 0) 1 [97] 0 0 [])] (mkBuffer 0) (FileSession no_files) = None"
  by (rule empty_upload_ends_the_server) (simp_all add: sample_files_ok)

text \<open>C19: An upload packet that starts behind offset 0 is written to the file that the session has open, also
  when it names another file: while an existing file is open for an upload or a download, a packet with a
  name that is neither listed nor on the disk changes the open file. The named file does not exist afterwards
  either, but a packet that reaches the announced size lists it. Assumed is that every file call succeeds and
  both base directories are the same (\<open>good_disk\<close>).\<close>

theorem upload_changes_the_open_file:
  assumes e: "good_disk e" and s: "unknown e md5 s" "m_fp s = Some f" "disk s (of_path f) \<noteq> None" and md5: "md5 \<noteq> []"
    and n: "0 < offset" "offset + int (length data) \<le> n" "n * 100 < 2 ^ 63"
  shows "\<exists>s'. onUploadFileResponse e md5 offset n data s = Some (True, s') \<and>
    disk s' = (disk s)(of_path f \<mapsto> write_at (nat offset) data (file_bytes s (of_path f))) \<and>
    disk s' (m_basepath e @ c_name md5) = None \<and>
    (offset + int (length data) = n \<longrightarrow> c_name md5 \<in> set (m_listFiles s'))"
proof -
  have p: "percent_ok offset n" "percent_ok n n" "offset + int (length data) < 2 ^ 63" "offset \<noteq> 0" "0 \<le> offset"
    using n by (auto simp: percent_ok_def)
  have "m_basepath e @ c_name md5 \<noteq> of_path f" using s by (auto simp: unknown_def)
  then show ?thesis
    using e s(1,2) md5 p
    by (simp add: onUploadFileResponse_def isFileExsit_def unknown_def fopen_rb_def write_upload_def file_defs Let_def)
qed

text \<open>While the file \<open>/a\<close> is being sent, a packet that names \<open>b\<close> changes it.\<close>

definition sending_a :: file_state where
  "sending_a = (FileSession \<lparr>disk = [[47, 97] \<mapsto> [1, 2, 3]], m_listFiles = [[97]], fs_calls = 0\<rparr>)
     \<lparr>m_fp := Some \<lparr>of_path = [47, 97], of_pos = 2, of_readable = True\<rparr>, m_currentDownloadFileOffset := 2, m_currentDownloadFileSize := 3\<rparr>"

theorem upload_changes_the_open_file_witness:
  "\<exists>s'. onUploadFileResponse sample_files [98] 1 3 [9, 9] sending_a = Some (True, s') \<and> disk s' [47, 97] = Some [1, 9, 9] \<and>
    disk s' [47, 98] = None \<and> [98] \<in> set (m_listFiles s')"
proof -
  have s: "unknown sample_files [98] sending_a" "m_fp sending_a = Some \<lparr>of_path = [47, 97], of_pos = 2, of_readable = True\<rparr>"
    "disk sending_a (of_path \<lparr>of_path = [47, 97], of_pos = 2, of_readable = True\<rparr>) \<noteq> None"
    by (simp_all add: sending_a_def unknown_def sample_files_def c_name_def FileSession_def)
  have w: "write_at 1 [9, 9] (file_bytes sending_a [47, 97]) = [1, 9, 9]"
    by (simp add: write_at_def file_bytes_def sending_a_def FileSession_def)
  show ?thesis
    using upload_changes_the_open_file [OF sample_files_ok(1) s, of 1 "[9, 9]" 3] w by (auto simp: c_name_def sample_files_def)
qed

text \<open>C21: A client that leaves destroys the session of the one that connected first: while the oldest client is
  still connected, the next message it sends after another client has left runs a session that was freed.\<close>

theorem leaving_client_frees_another_session:
  assumes "m_sessions v = (c, t) # rest" "c \<notin> fst ` set rest" "c \<notin> fsv_gone v" "Connected c \<notin> set evs"
  shows "file_run e (Disconnected d # evs @ [Message c data]) v = None"
proof -
  have "\<not> has_session c (onDisconnected d v)" using assms(1-3) by (simp add: has_session_def onDisconnected_def)
  then show ?thesis using run_no_session [OF _ assms(4)] by simp
qed

definition empty_file_server :: file_server where
  "empty_file_server = \<lparr>fsv_store = no_files, m_sessions = [], fsv_buffer = \<lambda>_. mkBuffer 0, fsv_gone = {}\<rparr>"

theorem leaving_client_frees_another_session_witness:
  "file_run sample_files [Connected 1, Connected 2, Disconnected 2, Message 1 [0]] empty_file_server = None"
proof -
  let ?v = "onConnected 2 (onConnected 1 empty_file_server)"
  have v: "m_sessions ?v = (1, FileSession no_files) # [(2, FileSession no_files)]" "1 \<notin> fsv_gone ?v"
    by (simp_all add: onConnected_def empty_file_server_def)
  have "file_run sample_files (Disconnected 2 # [] @ [Message 1 [0]]) ?v = None"
    by (rule leaving_client_frees_another_session [OF v(1) _ v(2)]) simp_all
  then show ?thesis by simp
qed

end
