(* ===== verification/Sec_Aes.thy ===== *)
theory Sec_Aes
  imports Achat_Prelude Sec_Aes_Tables
begin

text \<open>
  The block cipher of \<open>libsecurity/src/aes_core.cpp\<close>: expansion of the key and encryption and decryption of a block of 16 bytes,
  with the tables of \<open>Sec_Aes_Tables\<close>. An array of words is a list, \<open>rk\<close> moved forward is an offset into
  \<open>rd_key\<close>. The branch of \<open>FULL_UNROLL\<close> is not compiled (\<open>aes_locl.h\<close> undefines it).
\<close>

unbundle bit_operations_syntax

section \<open>Words of four bytes\<close>

type_synonym word32 = "32 word"
type_synonym block = "word32 \<times> word32 \<times> word32 \<times> word32"

definition GETU32 :: "byte list \<Rightarrow> word32" where
  "GETU32 pt = push_bit 24 (ucast (pt ! 0)) XOR push_bit 16 (ucast (pt ! 1)) XOR push_bit 8 (ucast (pt ! 2)) XOR ucast (pt ! 3)"

definition PUTU32 :: "word32 \<Rightarrow> byte list" where
  "PUTU32 st = [ucast (drop_bit 24 st), ucast (drop_bit 16 st), ucast (drop_bit 8 st), ucast st]"

definition lookup :: "word32 list \<Rightarrow> word32 \<Rightarrow> word32" where
  "lookup t i = t ! unat i"

definition b3 :: "word32 \<Rightarrow> word32" where "b3 w = drop_bit 24 w"
definition b2 :: "word32 \<Rightarrow> word32" where "b2 w = drop_bit 16 w AND 0xff"
definition b1 :: "word32 \<Rightarrow> word32" where "b1 w = drop_bit 8 w AND 0xff"
definition b0 :: "word32 \<Rightarrow> word32" where "b0 w = w AND 0xff"

section \<open>The key\<close>

record AES_KEY =
  rd_key :: "word32 list"
  rounds :: nat

text \<open>The four masked table entries that substitute the bytes of a word.\<close>

definition sub_bytes :: "word32 \<Rightarrow> word32 \<Rightarrow> word32 \<Rightarrow> word32 \<Rightarrow> word32" where
  "sub_bytes w x y z = (lookup Te2 w AND 0xff000000) XOR (lookup Te3 x AND 0x00ff0000) XOR
     (lookup Te0 y AND 0x0000ff00) XOR (lookup Te1 z AND 0x000000ff)"

definition key_core :: "word32 \<Rightarrow> nat \<Rightarrow> word32" where
  "key_core temp i = sub_bytes (b2 temp) (b1 temp) (b0 temp) (b3 temp) XOR rcon ! i"

text \<open>One turn of each expansion loop writes the words after those that are there.\<close>

definition expand_128 :: "nat \<Rightarrow> word32 list \<Rightarrow> word32 list" where
  "expand_128 i rk =
     (let j = 4 * i;
          k4 = rk ! j XOR key_core (rk ! (j + 3)) i;
          k5 = rk ! (j + 1) XOR k4;
          k6 = rk ! (j + 2) XOR k5;
          k7 = rk ! (j + 3) XOR k6
      in rk @ [k4, k5, k6, k7])"

definition expand_192 :: "nat \<Rightarrow> word32 list \<Rightarrow> word32 list" where
  "expand_192 i rk =
     (let j = 6 * i;
          k6 = rk ! j XOR key_core (rk ! (j + 5)) i;
          k7 = rk ! (j + 1) XOR k6;
          k8 = rk ! (j + 2) XOR k7;
          k9 = rk ! (j + 3) XOR k8
      in if i + 1 = 8 then rk @ [k6, k7, k8, k9]
         else let k10 = rk ! (j + 4) XOR k9; k11 = rk ! (j + 5) XOR k10
              in rk @ [k6, k7, k8, k9, k10, k11])"

definition expand_256 :: "nat \<Rightarrow> word32 list \<Rightarrow> word32 list" where
  "expand_256 i rk =
     (let j = 8 * i;
          k8 = rk ! j XOR key_core (rk ! (j + 7)) i;
          k9 = rk ! (j + 1) XOR k8;
          k10 = rk ! (j + 2) XOR k9;
          k11 = rk ! (j + 3) XOR k10
      in if i + 1 = 7 then rk @ [k8, k9, k10, k11]
         else let k12 = rk ! (j + 4) XOR sub_bytes (b3 k11) (b2 k11) (b1 k11) (b0 k11);
                  k13 = rk ! (j + 5) XOR k12;
                  k14 = rk ! (j + 6) XOR k13;
                  k15 = rk ! (j + 7) XOR k14
              in rk @ [k8, k9, k10, k11, k12, k13, k14, k15])"

definition key_words :: "byte list \<Rightarrow> nat \<Rightarrow> word32 list" where
  "key_words userKey n = map (\<lambda>i. GETU32 (drop (4 * i) userKey)) [0..<n]"

text \<open>The status that is not 0, or the key.\<close>

definition AES_set_encrypt_key :: "byte list \<Rightarrow> int \<Rightarrow> int + AES_KEY" where
  "AES_set_encrypt_key userKey bits =
     (if bits \<noteq> 128 \<and> bits \<noteq> 192 \<and> bits \<noteq> 256 then Inl (- 2)
      else if bits = 128 then Inr \<lparr>rd_key = fold expand_128 [0..<10] (key_words userKey 4), rounds = 10\<rparr>
      else if bits = 192 then Inr \<lparr>rd_key = fold expand_192 [0..<8] (key_words userKey 6), rounds = 12\<rparr>
      else Inr \<lparr>rd_key = fold expand_256 [0..<7] (key_words userKey 8), rounds = 14\<rparr>)"

definition swap4 :: "nat \<Rightarrow> nat \<Rightarrow> word32 list \<Rightarrow> word32 list" where
  "swap4 i j rk = fold (\<lambda>d rk. rk[i + d := rk ! (j + d), j + d := rk ! (i + d)]) [0..<4] rk"

function invert_keys :: "nat \<Rightarrow> nat \<Rightarrow> word32 list \<Rightarrow> word32 list" where
  "invert_keys i j rk = (if i < j then invert_keys (i + 4) (j - 4) (swap4 i j rk) else rk)"
  by auto
termination by (relation "measure (\<lambda>(i, j, rk). j)") auto

declare invert_keys.simps [simp del]

definition inv_mix :: "word32 \<Rightarrow> word32" where
  "inv_mix w = lookup Td0 (lookup Te1 (b3 w) AND 0xff) XOR lookup Td1 (lookup Te1 (b2 w) AND 0xff) XOR
     lookup Td2 (lookup Te1 (b1 w) AND 0xff) XOR lookup Td3 (lookup Te1 (b0 w) AND 0xff)"

definition inv_mix_key :: "nat \<Rightarrow> word32 list \<Rightarrow> word32 list" where
  "inv_mix_key i rk = fold (\<lambda>d rk. rk[4 * i + d := inv_mix (rk ! (4 * i + d))]) [0..<4] rk"

definition AES_set_decrypt_key :: "byte list \<Rightarrow> int \<Rightarrow> int + AES_KEY" where
  "AES_set_decrypt_key userKey bits =
     (case AES_set_encrypt_key userKey bits of
        Inl status \<Rightarrow> Inl status
      | Inr key \<Rightarrow> Inr (key\<lparr>rd_key := fold inv_mix_key [1..<rounds key] (invert_keys 0 (4 * rounds key) (rd_key key))\<rparr>))"

section \<open>A block\<close>

text \<open>The words of \<open>rk\<close> at an offset.\<close>

definition rk4 :: "word32 list \<Rightarrow> nat \<Rightarrow> block" where
  "rk4 rk j = (rk ! j, rk ! (j + 1), rk ! (j + 2), rk ! (j + 3))"

fun block_xor :: "block \<Rightarrow> block \<Rightarrow> block" where
  "block_xor (s0, s1, s2, s3) (k0, k1, k2, k3) = (s0 XOR k0, s1 XOR k1, s2 XOR k2, s3 XOR k3)"

definition get_block :: "byte list \<Rightarrow> block" where
  "get_block pt = (GETU32 pt, GETU32 (drop 4 pt), GETU32 (drop 8 pt), GETU32 (drop 12 pt))"

fun put_block :: "block \<Rightarrow> byte list" where
  "put_block (s0, s1, s2, s3) = PUTU32 s0 @ PUTU32 s1 @ PUTU32 s2 @ PUTU32 s3"

definition te_word :: "word32 \<Rightarrow> word32 \<Rightarrow> word32 \<Rightarrow> word32 \<Rightarrow> word32" where
  "te_word w x y z = lookup Te0 (b3 w) XOR lookup Te1 (b2 x) XOR lookup Te2 (b1 y) XOR lookup Te3 (b0 z)"

fun te_round :: "block \<Rightarrow> block \<Rightarrow> block" where
  "te_round (s0, s1, s2, s3) k =
     block_xor (te_word s0 s1 s2 s3, te_word s1 s2 s3 s0, te_word s2 s3 s0 s1, te_word s3 s0 s1 s2) k"

fun te_last :: "block \<Rightarrow> block \<Rightarrow> block" where
  "te_last (t0, t1, t2, t3) k =
     block_xor (sub_bytes (b3 t0) (b2 t1) (b1 t2) (b0 t3), sub_bytes (b3 t1) (b2 t2) (b1 t3) (b0 t0),
       sub_bytes (b3 t2) (b2 t3) (b1 t0) (b0 t1), sub_bytes (b3 t3) (b2 t0) (b1 t1) (b0 t2)) k"

text \<open>Two rounds in each turn, with \<open>r\<close> turns left, \<open>r\<close> at least 1: the block and the offset after the last one.\<close>

fun enc_loop :: "word32 list \<Rightarrow> nat \<Rightarrow> nat \<Rightarrow> block \<Rightarrow> block \<times> nat" where
  "enc_loop rk r j s =
     (let t = te_round s (rk4 rk (j + 4))
      in if r \<le> 1 then (t, j + 8) else enc_loop rk (r - 1) (j + 8) (te_round t (rk4 rk (j + 8))))"

definition AES_encrypt :: "byte list \<Rightarrow> AES_KEY \<Rightarrow> byte list" where
  "AES_encrypt inb key =
     (case enc_loop (rd_key key) (rounds key div 2) 0 (block_xor (get_block inb) (rk4 (rd_key key) 0)) of
        (t, j) \<Rightarrow> put_block (te_last t (rk4 (rd_key key) j)))"

definition td_word :: "word32 \<Rightarrow> word32 \<Rightarrow> word32 \<Rightarrow> word32 \<Rightarrow> word32" where
  "td_word w x y z = lookup Td0 (b3 w) XOR lookup Td1 (b2 x) XOR lookup Td2 (b1 y) XOR lookup Td3 (b0 z)"

fun td_round :: "block \<Rightarrow> block \<Rightarrow> block" where
  "td_round (s0, s1, s2, s3) k =
     block_xor (td_word s0 s3 s2 s1, td_word s1 s0 s3 s2, td_word s2 s1 s0 s3, td_word s3 s2 s1 s0) k"

definition lookup4 :: "word32 \<Rightarrow> word32" where
  "lookup4 i = ucast (Td4 ! unat i)"

definition inv_sub :: "word32 \<Rightarrow> word32 \<Rightarrow> word32 \<Rightarrow> word32 \<Rightarrow> word32" where
  "inv_sub w x y z = push_bit 24 (lookup4 (b3 w)) XOR push_bit 16 (lookup4 (b2 x)) XOR push_bit 8 (lookup4 (b1 y)) XOR lookup4 (b0 z)"

fun td_last :: "block \<Rightarrow> block \<Rightarrow> block" where
  "td_last (t0, t1, t2, t3) k =
     block_xor (inv_sub t0 t3 t2 t1, inv_sub t1 t0 t3 t2, inv_sub t2 t1 t0 t3, inv_sub t3 t2 t1 t0) k"

fun dec_loop :: "word32 list \<Rightarrow> nat \<Rightarrow> nat \<Rightarrow> block \<Rightarrow> block \<times> nat" where
  "dec_loop rk r j s =
     (let t = td_round s (rk4 rk (j + 4))
      in if r \<le> 1 then (t, j + 8) else dec_loop rk (r - 1) (j + 8) (td_round t (rk4 rk (j + 8))))"

declare enc_loop.simps [simp del] dec_loop.simps [simp del]

definition AES_decrypt :: "byte list \<Rightarrow> AES_KEY \<Rightarrow> byte list" where
  "AES_decrypt inb key =
     (case dec_loop (rd_key key) (rounds key div 2) 0 (block_xor (get_block inb) (rk4 (rd_key key) 0)) of
        (t, j) \<Rightarrow> put_block (td_last t (rk4 (rd_key key) j)))"

section \<open>What the tables hold\<close>

text \<open>A function of a byte that is linear over exclusive or, given by its values at the eight powers of 2.\<close>

fun lin :: "word32 list \<Rightarrow> word32 \<Rightarrow> word32" where
  "lin [] y = 0"
| "lin (k # ks) y = (if bit y 0 then k else 0) XOR lin ks (drop_bit 1 y)"

text \<open>A byte times (2, 1, 1, 3) in the field of 256 elements, rotated, and times (14, 9, 13, 11).\<close>

definition E0 :: "word32 list" where "E0 = [0x02010103, 0x04020206, 0x0804040c, 0x10080818, 0x20101030, 0x40202060, 0x804040c0, 0x1b80809b]"
definition E1 :: "word32 list" where "E1 = [0x03020101, 0x06040202, 0x0c080404, 0x18100808, 0x30201010, 0x60402020, 0xc0804040, 0x9b1b8080]"
definition E2 :: "word32 list" where "E2 = [0x01030201, 0x02060402, 0x040c0804, 0x08181008, 0x10302010, 0x20604020, 0x40c08040, 0x809b1b80]"
definition E3 :: "word32 list" where "E3 = [0x01010302, 0x02020604, 0x04040c08, 0x08081810, 0x10103020, 0x20206040, 0x4040c080, 0x80809b1b]"
definition F0 :: "word32 list" where "F0 = [0x0e090d0b, 0x1c121a16, 0x3824342c, 0x70486858, 0xe090d0b0, 0xdb3bbb7b, 0xad766df6, 0x41ecdaf7]"
definition F1 :: "word32 list" where "F1 = [0x0b0e090d, 0x161c121a, 0x2c382434, 0x58704868, 0xb0e090d0, 0x7bdb3bbb, 0xf6ad766d, 0xf741ecda]"
definition F2 :: "word32 list" where "F2 = [0x0d0b0e09, 0x1a161c12, 0x342c3824, 0x68587048, 0xd0b0e090, 0xbb7bdb3b, 0x6df6ad76, 0xdaf741ec]"
definition F3 :: "word32 list" where "F3 = [0x090d0b0e, 0x121a161c, 0x24342c38, 0x48685870, 0x90d0b0e0, 0x3bbb7bdb, 0x766df6ad, 0xecdaf741]"

text \<open>The substitution, and the tables in terms of it.\<close>

definition Sbox :: "word32 list" where "Sbox = map (\<lambda>x. x AND 0xff) Te1"

lemma Te0_lin: "Te0 = map (lin E0) Sbox" by (simp add: Te0_def Te1_def E0_def Sbox_def)
lemma Te1_lin: "Te1 = map (lin E1) Sbox" by (simp add: Te1_def E1_def Sbox_def)
lemma Te2_lin: "Te2 = map (lin E2) Sbox" by (simp add: Te2_def Te1_def E2_def Sbox_def)
lemma Te3_lin: "Te3 = map (lin E3) Sbox" by (simp add: Te3_def Te1_def E3_def Sbox_def)
lemma Td0_lin: "Td0 = map (\<lambda>y. lin F0 (ucast y)) Td4" by (simp add: Td0_def Td4_def F0_def)
lemma Td1_lin: "Td1 = map (\<lambda>y. lin F1 (ucast y)) Td4" by (simp add: Td1_def Td4_def F1_def)
lemma Td2_lin: "Td2 = map (\<lambda>y. lin F2 (ucast y)) Td4" by (simp add: Td2_def Td4_def F2_def)
lemma Td3_lin: "Td3 = map (\<lambda>y. lin F3 (ucast y)) Td4" by (simp add: Td3_def Td4_def F3_def)

lemma Te2_mask: "map (\<lambda>x. x AND 0xff000000) Te2 = map (push_bit 24) Sbox" by (simp add: Te2_def Te1_def Sbox_def)
lemma Te3_mask: "map (\<lambda>x. x AND 0x00ff0000) Te3 = map (push_bit 16) Sbox" by (simp add: Te3_def Te1_def Sbox_def)
lemma Te0_mask: "map (\<lambda>x. x AND 0x0000ff00) Te0 = map (push_bit 8) Sbox" by (simp add: Te0_def Te1_def Sbox_def)

lemma Td4_Sbox: "map (\<lambda>s. ucast (Td4 ! unat s)) Sbox = map (\<lambda>n. word_of_nat n :: word32) [0..<256]"
  by (simp add: Te1_def Sbox_def Td4_def upt_rec)

lemma Sbox_bytes: "list_all (\<lambda>x. x < 256) Sbox"
  by (simp add: Te1_def Sbox_def)

lemma Sbox_length: "length Sbox = 256"
  by (simp add: Te1_def Sbox_def)

end
