(* ===== verification/Sec_Aes_Inverse.thy ===== *)
theory Sec_Aes_Inverse
  imports Sec_Aes
begin

text \<open>
  Decryption undoes encryption: the tables are linear functions of the substituted byte, the inverse mixing of columns
  undoes the mixing, and one round of \<open>AES_decrypt\<close> with the inverted key takes back one round of
  \<open>AES_encrypt\<close>.
\<close>

section \<open>Bytes of a word\<close>

lemma and_ff: "(w :: word32) AND 0xff = take_bit 8 w"
  by (simp add: take_bit_eq_mask mask_eq_decr_exp)

lemma bytes_take:
  "b3 w = take_bit 8 (drop_bit 24 w)" "b2 w = take_bit 8 (drop_bit 16 w)"
  "b1 w = take_bit 8 (drop_bit 8 w)" "b0 w = take_bit 8 w"
proof -
  show "b3 w = take_bit 8 (drop_bit 24 w)"
    unfolding b3_def by (rule bit_word_eqI) (auto simp: bit_simps dest: bit_imp_le_length)
qed (simp_all add: b2_def b1_def b0_def and_ff)

lemma take_bit_byte: "take_bit 8 x < (256 :: word32)"
proof -
  have "unat (take_bit 8 x) < 2 ^ 8" by (simp add: unsigned_take_bit_eq take_bit_eq_mod unat_mod)
  then show ?thesis by (simp add: word_less_nat_alt)
qed

lemma bytes_less [simp]: "b3 w < 256" "b2 w < 256" "b1 w < 256" "b0 w < 256"
  by (simp_all add: bytes_take take_bit_byte)

lemma byte_take: "x < 256 \<Longrightarrow> take_bit 8 x = (x :: word32)"
  by (simp add: word_less_nat_alt word_unat_eq_iff unsigned_take_bit_eq take_bit_eq_mod unat_mod)

lemma byte_bit: "x < 256 \<Longrightarrow> bit (x :: word32) n \<Longrightarrow> n < 8"
  using byte_take [of x] by (metis bit_take_bit_iff)

lemma byte_unat: "x < 256 \<Longrightarrow> unat (x :: word32) < 256"
  by (simp add: word_less_nat_alt)

text \<open>A word made of four bytes.\<close>

definition join :: "word32 \<Rightarrow> word32 \<Rightarrow> word32 \<Rightarrow> word32 \<Rightarrow> word32" where
  "join a b c d = push_bit 24 a XOR push_bit 16 b XOR push_bit 8 c XOR d"

lemma bytes_of_join:
  assumes "a < 256" "b < 256" "c < 256" "d < 256"
  shows "b3 (join a b c d) = a" "b2 (join a b c d) = b" "b1 (join a b c d) = c" "b0 (join a b c d) = d"
  unfolding bytes_take join_def
  by (rule bit_word_eqI; use assms in \<open>auto simp: bit_simps dest: byte_bit\<close>)+

lemma join_bytes: "join (b3 w) (b2 w) (b1 w) (b0 w) = w"
  unfolding bytes_take join_def
proof (rule bit_word_eqI)
  fix n assume "n < LENGTH(32)"
  then consider "n < 8" | "8 \<le> n" "n < 16" | "16 \<le> n" "n < 24" | "24 \<le> n" "n < 32" by fastforce
  then show "bit (push_bit 24 (take_bit 8 (drop_bit 24 w)) XOR push_bit 16 (take_bit 8 (drop_bit 16 w)) XOR
      push_bit 8 (take_bit 8 (drop_bit 8 w)) XOR take_bit 8 w) n = bit w n"
    by cases (auto simp: bit_simps)
qed

lemma bytes_xor: "b3 (v XOR w) = b3 v XOR b3 w" "b2 (v XOR w) = b2 v XOR b2 w" "b1 (v XOR w) = b1 v XOR b1 w" "b0 (v XOR w) = b0 v XOR b0 w"
  by (simp_all add: bytes_take drop_bit_xor take_bit_xor)

section \<open>Linear functions of a byte\<close>

definition linear :: "(word32 \<Rightarrow> word32) \<Rightarrow> bool" where
  "linear f \<longleftrightarrow> f 0 = 0 \<and> (\<forall>v w. f (v XOR w) = f v XOR f w)"

lemma lin_zero [simp]: "lin ks 0 = 0"
  by (induction ks) simp_all

lemma lin_xor: "lin ks (v XOR w) = lin ks v XOR lin ks w"
  by (induction ks arbitrary: v w) (auto simp: drop_bit_xor bit_xor_iff ac_simps)

lemma lin_map: "linear f \<Longrightarrow> f (lin ks y) = lin (map f ks) y"
  by (induction ks arbitrary: y) (auto simp: linear_def)

text \<open>Multiplication by 1.\<close>

definition bytes_all :: "word32 list" where "bytes_all = map word_of_nat [0..<256]"

lemma bytes_all_nth: "x < 256 \<Longrightarrow> bytes_all ! unat x = x"
  using byte_unat [of x] by (simp add: bytes_all_def)

lemma lin_units: "map (lin [1, 2, 4, 8, 16, 32, 64, 128]) bytes_all = bytes_all"
  by (simp add: bytes_all_def upt_rec)

lemma lin_unit:
  assumes "x < 256"
  shows "lin [1, 2, 4, 8, 16, 32, 64, 128] x = x"
proof -
  have "map (lin [1, 2, 4, 8, 16, 32, 64, 128]) bytes_all ! unat x = lin [1, 2, 4, 8, 16, 32, 64, 128] x"
    using byte_unat [OF assms] by (subst nth_map) (simp_all add: bytes_all_nth [OF assms], simp add: bytes_all_def)
  then show ?thesis by (simp add: lin_units bytes_all_nth [OF assms])
qed

lemma linear_push: "linear (push_bit n)"
  by (simp add: linear_def push_bit_xor)

section \<open>The tables\<close>

definition Sb :: "word32 \<Rightarrow> word32" where "Sb x = lookup Sbox x"

lemma map_entry:
  assumes "map f t = map g Sbox" "x < 256"
  shows "f (lookup t x) = g (Sb x)"
proof -
  have len: "length t = 256" using assms(1) by (metis length_map Sbox_length)
  then have "map f t ! unat x = f (lookup t x)" using byte_unat [OF assms(2)] by (simp add: lookup_def)
  moreover have "map g Sbox ! unat x = g (Sb x)" using byte_unat [OF assms(2)] by (simp add: lookup_def Sb_def Sbox_length)
  ultimately show ?thesis using assms(1) by simp
qed

lemma Te_entries:
  assumes "x < 256"
  shows "lookup Te0 x = lin E0 (Sb x)" "lookup Te1 x = lin E1 (Sb x)" "lookup Te2 x = lin E2 (Sb x)" "lookup Te3 x = lin E3 (Sb x)"
    "lookup Te2 x AND 0xff000000 = push_bit 24 (Sb x)" "lookup Te3 x AND 0x00ff0000 = push_bit 16 (Sb x)"
    "lookup Te0 x AND 0x0000ff00 = push_bit 8 (Sb x)" "lookup Te1 x AND 0x000000ff = Sb x"
    "lookup4 (Sb x) = x"
proof -
  have e: "lookup t x = g (Sb x)" if "t = map g Sbox" for t g
    using map_entry [of "\<lambda>x. x" t g] that assms by simp
  show "lookup Te0 x = lin E0 (Sb x)" "lookup Te1 x = lin E1 (Sb x)" "lookup Te2 x = lin E2 (Sb x)" "lookup Te3 x = lin E3 (Sb x)"
    by (rule e, rule Te0_lin Te1_lin Te2_lin Te3_lin)+
  show "lookup Te2 x AND 0xff000000 = push_bit 24 (Sb x)" by (rule map_entry [OF Te2_mask assms])
  show "lookup Te3 x AND 0x00ff0000 = push_bit 16 (Sb x)" by (rule map_entry [OF Te3_mask assms])
  show "lookup Te0 x AND 0x0000ff00 = push_bit 8 (Sb x)" by (rule map_entry [OF Te0_mask assms])
  show "lookup Te1 x AND 0x000000ff = Sb x"
    using map_entry [of "\<lambda>x. x AND 0xff" Te1 "\<lambda>x. x" x] assms by (simp add: Sbox_def)
  have "lookup bytes_all x = lookup4 (Sb x)"
    using map_entry [of "\<lambda>x. x" bytes_all "\<lambda>s. lookup4 s" x] assms Td4_Sbox by (simp add: bytes_all_def lookup4_def)
  then show "lookup4 (Sb x) = x" using bytes_all_nth [OF assms] by (simp add: lookup_def)
qed

lemma Sb_less [simp]: "x < 256 \<Longrightarrow> Sb x < 256"
  using Sbox_bytes byte_unat [of x] by (simp add: list_all_length Sbox_length Sb_def lookup_def)

lemma Td_entries:
  assumes "x < 256"
  shows "lookup Td0 (Sb x) = lin F0 x" "lookup Td1 (Sb x) = lin F1 x" "lookup Td2 (Sb x) = lin F2 x" "lookup Td3 (Sb x) = lin F3 x"
proof -
  have len: "length Td4 = 256" by (simp add: Td4_def)
  have "unat (Sb x) < length Td4" unfolding len by (rule byte_unat [OF Sb_less [OF assms]])
  moreover have "lookup4 (Sb x) = x" by (rule Te_entries(9) [OF assms])
  ultimately show "lookup Td0 (Sb x) = lin F0 x" "lookup Td1 (Sb x) = lin F1 x" "lookup Td2 (Sb x) = lin F2 x" "lookup Td3 (Sb x) = lin F3 x"
    by (simp_all add: lookup_def Td0_lin Td1_lin Td2_lin Td3_lin lookup4_def)
qed

section \<open>Rounds\<close>

lemma inv_mix_lin: "inv_mix w = lin F0 (b3 w) XOR lin F1 (b2 w) XOR lin F2 (b1 w) XOR lin F3 (b0 w)"
  by (simp add: inv_mix_def Te_entries(8) Td_entries)

lemma inv_mix_linear: "linear inv_mix"
proof -
  have "b3 0 = 0" "b2 0 = 0" "b1 0 = 0" "b0 0 = 0" by (simp_all add: b3_def b2_def b1_def b0_def)
  then show ?thesis by (simp add: linear_def inv_mix_lin bytes_xor lin_xor ac_simps)
qed

lemma inv_mix_xor: "inv_mix (v XOR w) = inv_mix v XOR inv_mix w"
  using inv_mix_linear by (simp add: linear_def)

lemma inv_mix_columns:
  "map inv_mix E0 = map (push_bit 24) [1, 2, 4, 8, 16, 32, 64, 128]"
  "map inv_mix E1 = map (push_bit 16) [1, 2, 4, 8, 16, 32, 64, 128]"
  "map inv_mix E2 = map (push_bit 8) [1, 2, 4, 8, 16, 32, 64, 128]"
  "map inv_mix E3 = map (push_bit 0) [1, 2, 4, 8, 16, 32, 64, 128]"
  by (simp_all add: inv_mix_lin E0_def E1_def E2_def E3_def F0_def F1_def F2_def F3_def b3_def b2_def b1_def b0_def)

lemma inv_mix_lin_E:
  assumes "x < 256"
  shows "inv_mix (lin E0 x) = push_bit 24 x" "inv_mix (lin E1 x) = push_bit 16 x" "inv_mix (lin E2 x) = push_bit 8 x" "inv_mix (lin E3 x) = x"
proof -
  have "lin (map (push_bit n) [1, 2, 4, 8, 16, 32, 64, 128]) x = push_bit n x" for n
    by (simp only: lin_map [OF linear_push, symmetric] lin_unit [OF assms])
  note this [of 24] this [of 16] this [of 8] this [of 0]
  then show "inv_mix (lin E0 x) = push_bit 24 x" "inv_mix (lin E1 x) = push_bit 16 x" "inv_mix (lin E2 x) = push_bit 8 x" "inv_mix (lin E3 x) = x"
    unfolding lin_map [OF inv_mix_linear] inv_mix_columns by simp_all
qed

lemma sub_bytes_join:
  "w < 256 \<Longrightarrow> x < 256 \<Longrightarrow> y < 256 \<Longrightarrow> z < 256 \<Longrightarrow> sub_bytes w x y z = join (Sb w) (Sb x) (Sb y) (Sb z)"
  by (simp add: sub_bytes_def Te_entries(5-8) join_def)

lemma inv_mix_te_word: "inv_mix (te_word w x y z) = sub_bytes (b3 w) (b2 x) (b1 y) (b0 z)"
  by (simp add: te_word_def Te_entries(1-4) inv_mix_xor inv_mix_lin_E sub_bytes_join join_def)

text \<open>Substitution and shifting of rows, and the inverse mixing, of a block.\<close>

fun sub_shift :: "block \<Rightarrow> block" where
  "sub_shift (t0, t1, t2, t3) = (sub_bytes (b3 t0) (b2 t1) (b1 t2) (b0 t3), sub_bytes (b3 t1) (b2 t2) (b1 t3) (b0 t0),
     sub_bytes (b3 t2) (b2 t3) (b1 t0) (b0 t1), sub_bytes (b3 t3) (b2 t0) (b1 t1) (b0 t2))"

fun inv_mix_block :: "block \<Rightarrow> block" where
  "inv_mix_block (s0, s1, s2, s3) = (inv_mix s0, inv_mix s1, inv_mix s2, inv_mix s3)"

lemma block_xor_cancel [simp]: "block_xor (block_xor s k) k = s"
  by (cases s; cases k) (simp add: xor.assoc)

lemma te_last_sub: "te_last s k = block_xor (sub_shift s) k"
  by (cases s) simp

lemma inv_mix_te_round: "inv_mix_block (te_round s k) = block_xor (sub_shift s) (inv_mix_block k)"
  by (cases s; cases k) (simp add: inv_mix_xor inv_mix_te_word)

lemma td_word_sub:
  "td_word (sub_bytes (b3 v) w' x' y') (sub_bytes w2 (b2 v) x2 y2) (sub_bytes w3 x3 (b1 v) y3) (sub_bytes w4 x4 y4 (b0 v)) = inv_mix v"
  if "w' < 256" "x' < 256" "y' < 256" "w2 < 256" "x2 < 256" "y2 < 256" "w3 < 256" "x3 < 256" "y3 < 256" "w4 < 256" "x4 < 256" "y4 < 256"
  using that by (simp add: td_word_def sub_bytes_join bytes_of_join Td_entries inv_mix_lin)

lemma inv_sub_sub:
  "inv_sub (sub_bytes (b3 v) w' x' y') (sub_bytes w2 (b2 v) x2 y2) (sub_bytes w3 x3 (b1 v) y3) (sub_bytes w4 x4 y4 (b0 v)) = v"
  if "w' < 256" "x' < 256" "y' < 256" "w2 < 256" "x2 < 256" "y2 < 256" "w3 < 256" "x3 < 256" "y3 < 256" "w4 < 256" "x4 < 256" "y4 < 256"
  using that by (simp add: inv_sub_def sub_bytes_join bytes_of_join Te_entries(9)) (simp add: join_bytes flip: join_def)

lemma td_round_sub: "td_round (sub_shift s) (inv_mix_block k) = inv_mix_block (block_xor s k)"
  by (cases s; cases k) (simp add: td_word_sub inv_mix_xor)

lemma td_last_sub: "td_last (sub_shift s) k = block_xor s k"
  by (cases s; cases k) (simp add: inv_sub_sub)

text \<open>A round of decryption takes back a round of encryption.\<close>

lemma td_round_te_round: "td_round (sub_shift (te_round s k)) (inv_mix_block k) = sub_shift s"
proof -
  have "td_round (sub_shift (te_round s k)) (inv_mix_block k) = block_xor (inv_mix_block (te_round s k)) (inv_mix_block k)"
    unfolding td_round_sub by (cases "te_round s k"; cases k) (simp add: inv_mix_xor)
  then show ?thesis by (simp add: inv_mix_te_round)
qed

section \<open>The loops\<close>

fun te_rounds :: "(nat \<Rightarrow> block) \<Rightarrow> nat \<Rightarrow> block \<Rightarrow> block" where
  "te_rounds K 0 s = s"
| "te_rounds K (Suc n) s = te_rounds (\<lambda>i. K (Suc i)) n (te_round s (K 1))"

fun td_rounds :: "(nat \<Rightarrow> block) \<Rightarrow> nat \<Rightarrow> block \<Rightarrow> block" where
  "td_rounds K 0 s = s"
| "td_rounds K (Suc n) s = td_rounds (\<lambda>i. K (Suc i)) n (td_round s (K 1))"

lemma enc_loop_rounds:
  "enc_loop rk (Suc r) j s = (te_rounds (\<lambda>i. rk4 rk (j + 4 * i)) (2 * r + 1) s, j + 8 * (r + 1))"
  by (induction r arbitrary: j s) (simp_all add: enc_loop.simps [of rk "Suc _"] Let_def algebra_simps numeral_eq_Suc)

lemma dec_loop_rounds:
  "dec_loop rk (Suc r) j s = (td_rounds (\<lambda>i. rk4 rk (j + 4 * i)) (2 * r + 1) s, j + 8 * (r + 1))"
  by (induction r arbitrary: j s) (simp_all add: dec_loop.simps [of rk "Suc _"] Let_def algebra_simps numeral_eq_Suc)

lemma te_rounds_last: "te_rounds K (Suc n) s = te_round (te_rounds K n s) (K (Suc n))"
proof (induction n arbitrary: K s)
  case (Suc n)
  have "te_rounds K (Suc (Suc n)) s = te_rounds (\<lambda>i. K (Suc i)) (Suc n) (te_round s (K 1))" by (simp only: te_rounds.simps)
  also have "\<dots> = te_round (te_rounds (\<lambda>i. K (Suc i)) n (te_round s (K 1))) (K (Suc (Suc n)))" by (rule Suc.IH)
  finally show ?case by (simp only: te_rounds.simps)
qed simp

lemma td_rounds_undo:
  assumes "\<And>k. 1 \<le> k \<Longrightarrow> k \<le> n \<Longrightarrow> D k = inv_mix_block (K (Suc n - k))"
  shows "td_rounds D n (sub_shift (te_rounds K n s)) = sub_shift s"
  using assms
proof (induction n arbitrary: D)
  case (Suc n)
  have "D 1 = inv_mix_block (K (Suc n))" using Suc.prems [of 1] by simp
  then have "td_rounds D (Suc n) (sub_shift (te_rounds K (Suc n) s)) = td_rounds (\<lambda>i. D (Suc i)) n (sub_shift (te_rounds K n s))"
    by (simp only: td_rounds.simps te_rounds_last td_round_te_round)
  also have "\<dots> = sub_shift s"
  proof (rule Suc.IH)
    fix k assume "1 \<le> k" "k \<le> n"
    then show "D (Suc k) = inv_mix_block (K (Suc n - k))" using Suc.prems [of "Suc k"] by simp
  qed
  finally show ?case .
qed simp

section \<open>The inverted key\<close>

lemma swap4_nth:
  assumes "i + 4 \<le> j" "j + 4 \<le> length rk" "n < length rk"
  shows "swap4 i j rk ! n = (if i \<le> n \<and> n < i + 4 then rk ! (j + (n - i)) else if j \<le> n \<and> n < j + 4 then rk ! (i + (n - j)) else rk ! n)"
proof -
  consider "n < i" | "n = i" | "n = i + 1" | "n = i + 2" | "n = i + 3" | "i + 4 \<le> n" "n < j"
    | "n = j" | "n = j + 1" | "n = j + 2" | "n = j + 3" | "j + 4 \<le> n" by linarith
  then show ?thesis using assms by cases (simp_all add: swap4_def upt_rec nth_list_update numeral_3_eq_3)
qed

lemma swap4_length [simp]: "length (swap4 i j rk) = length rk"
  by (simp add: swap4_def upt_rec)

lemma rk4_eqI: "(\<And>d. d < 4 \<Longrightarrow> rk ! (i + d) = rk' ! (j + d)) \<Longrightarrow> rk4 rk i = rk4 rk' j"
proof -
  assume e: "\<And>d. d < 4 \<Longrightarrow> rk ! (i + d) = rk' ! (j + d)"
  from e [of 0] e [of 1] e [of 2] e [of 3] show ?thesis by (simp add: rk4_def)
qed

lemma swap4_rk4:
  assumes "a < b" "b \<le> R" "length rk = 4 * (R + 1)" "k \<le> R"
  shows "rk4 (swap4 (4 * a) (4 * b) rk) (4 * k) = rk4 rk (4 * (if k = a then b else if k = b then a else k))"
  by (rule rk4_eqI) (use assms in \<open>auto simp: swap4_nth\<close>)

lemma invert_keys_rk4:
  assumes "a + b = R" "length rk = 4 * (R + 1)" "k \<le> R"
  shows "length (invert_keys (4 * a) (4 * b) rk) = length rk \<and>
    rk4 (invert_keys (4 * a) (4 * b) rk) (4 * k) = (if min a b \<le> k \<and> k \<le> max a b \<and> a < b then rk4 rk (4 * (R - k)) else rk4 rk (4 * k))"
  using assms
proof (induction "4 * a" "4 * b" rk arbitrary: a b rule: invert_keys.induct)
  case (1 rk)
  show ?case
  proof (cases "a < b")
    case True
    have "4 * a + 4 = 4 * (a + 1)" "4 * b - 4 = 4 * (b - 1)" by simp_all
    from "1.hyps" [OF _ this] True "1.prems"
    have ih: "length (invert_keys (4 * (a + 1)) (4 * (b - 1)) (swap4 (4 * a) (4 * b) rk)) = length rk"
      "rk4 (invert_keys (4 * (a + 1)) (4 * (b - 1)) (swap4 (4 * a) (4 * b) rk)) (4 * k)
       = (if a + 1 \<le> k \<and> k \<le> b - 1 \<and> a + 1 < b - 1 then rk4 (swap4 (4 * a) (4 * b) rk) (4 * (R - k))
          else rk4 (swap4 (4 * a) (4 * b) rk) (4 * k))"
      by auto
    have eq: "invert_keys (4 * a) (4 * b) rk = invert_keys (4 * (a + 1)) (4 * (b - 1)) (swap4 (4 * a) (4 * b) rk)"
      using True by (subst invert_keys.simps) (simp add: algebra_simps diff_mult_distrib2)
    have sw: "rk4 (swap4 (4 * a) (4 * b) rk) (4 * m) = rk4 rk (4 * (if m = a then b else if m = b then a else m))" if "m \<le> R" for m
      by (rule swap4_rk4 [OF True _ "1.prems"(2) that]) (use "1.prems"(1) in simp)
    consider "k < a" | "k = a" | "a < k" "k < b" "a + 1 < b - 1" | "k = a + 1" "b = a + 2" | "k = b" | "b < k" by linarith
    then show ?thesis unfolding eq using ih True "1.prems" sw [of k] sw [of "R - k"] by cases auto
  next
    case False
    then show ?thesis by (simp add: invert_keys.simps [of "4 * a"])
  qed
qed

lemma inv_mix_key_length [simp]: "length (inv_mix_key i rk) = length rk"
  by (simp add: inv_mix_key_def upt_rec)

lemma inv_mix_key_nth:
  "4 * i + 4 \<le> length rk \<Longrightarrow> n < length rk \<Longrightarrow> inv_mix_key i rk ! n = (if 4 * i \<le> n \<and> n < 4 * i + 4 then inv_mix (rk ! n) else rk ! n)"
proof -
  assume a: "4 * i + 4 \<le> length rk" "n < length rk"
  consider "n < 4 * i" | "n = 4 * i" | "n = 4 * i + 1" | "n = 4 * i + 2" | "n = 4 * i + 3" | "4 * i + 4 \<le> n" by linarith
  then show ?thesis using a by cases (simp_all add: inv_mix_key_def upt_rec nth_list_update numeral_3_eq_3)
qed

lemma inv_mix_key_rk4:
  assumes "i \<le> R" "length rk = 4 * (R + 1)" "k \<le> R"
  shows "rk4 (inv_mix_key i rk) (4 * k) = (if k = i then inv_mix_block (rk4 rk (4 * k)) else rk4 rk (4 * k))"
  using assms by (simp add: rk4_def inv_mix_key_nth)

lemma inv_mix_keys_rk4:
  assumes "length rk = 4 * (R + 1)" "k \<le> R" "m \<le> R + 1"
  shows "length (fold inv_mix_key [1..<m] rk) = length rk \<and>
    rk4 (fold inv_mix_key [1..<m] rk) (4 * k) = (if 1 \<le> k \<and> k < m then inv_mix_block (rk4 rk (4 * k)) else rk4 rk (4 * k))"
  using assms(3)
proof (induction m)
  case (Suc m)
  show ?case
  proof (cases "m = 0")
    case False
    have ih: "length (fold inv_mix_key [1..<m] rk) = length rk"
      "rk4 (fold inv_mix_key [1..<m] rk) (4 * k) = (if 1 \<le> k \<and> k < m then inv_mix_block (rk4 rk (4 * k)) else rk4 rk (4 * k))"
      using Suc by simp_all
    have "rk4 (inv_mix_key m (fold inv_mix_key [1..<m] rk)) (4 * k)
       = (if k = m then inv_mix_block (rk4 (fold inv_mix_key [1..<m] rk) (4 * k)) else rk4 (fold inv_mix_key [1..<m] rk) (4 * k))"
      by (rule inv_mix_key_rk4) (use Suc.prems assms ih in simp_all)
    with ih False show ?thesis by auto
  qed auto
qed auto

section \<open>The length of the key\<close>

lemma expand_lengths:
  "length (expand_128 i rk) = length rk + 4"
  "length (expand_192 i rk) = length rk + (if i + 1 = 8 then 4 else 6)"
  "length (expand_256 i rk) = length rk + (if i + 1 = 7 then 4 else 8)"
  by (simp_all add: expand_128_def expand_192_def expand_256_def Let_def)

lemma encrypt_key_shape:
  assumes "AES_set_encrypt_key k bits = Inr ek"
  shows "\<exists>r. rounds ek = 2 * Suc r \<and> length (rd_key ek) = 4 * (rounds ek + 1)"
proof -
  consider "bits = 128" | "bits = 192" | "bits = 256" using assms by (auto simp: AES_set_encrypt_key_def split: if_splits)
  then show ?thesis
  proof cases
    case 1
    then have "rounds ek = 2 * Suc 4 \<and> length (rd_key ek) = 4 * (rounds ek + 1)"
      using assms by (auto simp: AES_set_encrypt_key_def upt_rec expand_lengths key_words_def)
    then show ?thesis by blast
  next
    case 2
    then have "rounds ek = 2 * Suc 5 \<and> length (rd_key ek) = 4 * (rounds ek + 1)"
      using assms by (auto simp: AES_set_encrypt_key_def upt_rec expand_lengths key_words_def)
    then show ?thesis by blast
  next
    case 3
    then have "rounds ek = 2 * Suc 6 \<and> length (rd_key ek) = 4 * (rounds ek + 1)"
      using assms by (auto simp: AES_set_encrypt_key_def upt_rec expand_lengths key_words_def)
    then show ?thesis by blast
  qed
qed

text \<open>The round keys of decryption are those of encryption from the last to the first, mixed in between.\<close>

lemma decrypt_key_rounds:
  assumes ek: "AES_set_encrypt_key key bits = Inr ek" and dk: "AES_set_decrypt_key key bits = Inr dk"
    and k: "k \<le> rounds ek"
  shows "rounds dk = rounds ek \<and> rk4 (rd_key dk) (4 * k) =
    (if 1 \<le> k \<and> k < rounds ek then inv_mix_block (rk4 (rd_key ek) (4 * (rounds ek - k))) else rk4 (rd_key ek) (4 * (rounds ek - k)))"
proof -
  let ?R = "rounds ek" and ?rk = "rd_key ek"
  have len: "length ?rk = 4 * (?R + 1)" and pos: "0 < ?R" using encrypt_key_shape [OF ek] by auto
  have inv: "length (invert_keys 0 (4 * ?R) ?rk) = length ?rk"
    "\<And>m. m \<le> ?R \<Longrightarrow> rk4 (invert_keys 0 (4 * ?R) ?rk) (4 * m) = rk4 ?rk (4 * (?R - m))"
    using invert_keys_rk4 [of 0 ?R ?R ?rk] len pos by auto
  have d: "dk = ek\<lparr>rd_key := fold inv_mix_key [1..<?R] (invert_keys 0 (4 * ?R) ?rk)\<rparr>"
    using dk by (simp add: AES_set_decrypt_key_def ek)
  have "rk4 (rd_key dk) (4 * k) = (if 1 \<le> k \<and> k < ?R then inv_mix_block (rk4 (invert_keys 0 (4 * ?R) ?rk) (4 * k))
      else rk4 (invert_keys 0 (4 * ?R) ?rk) (4 * k))"
    using inv_mix_keys_rk4 [of "invert_keys 0 (4 * ?R) ?rk" ?R k ?R] inv(1) len k by (simp add: d)
  with inv(2) [OF k] d show ?thesis by simp
qed

section \<open>Bytes and blocks\<close>

lemma ucast_byte: "(ucast (ucast x :: byte) :: word32) = take_bit 8 x"
  by (rule bit_word_eqI) (auto simp: bit_simps)

lemma GETU32_PUTU32 [simp]: "GETU32 (PUTU32 w @ ps) = w"
proof -
  have "GETU32 (PUTU32 w @ ps) = join (b3 w) (b2 w) (b1 w) (b0 w)"
    by (simp add: GETU32_def PUTU32_def join_def bytes_take ucast_byte)
  then show ?thesis by (simp add: join_bytes)
qed

lemma GETU32_PUTU32_all [simp]: "GETU32 (PUTU32 w) = w"
  using GETU32_PUTU32 [of w "[]"] by simp

lemma PUTU32_length [simp]: "length (PUTU32 w) = 4"
  by (simp add: PUTU32_def)

lemma get_put_block [simp]: "get_block (put_block s) = s"
  by (cases s) (simp add: get_block_def)

lemma put_block_length [simp]: "length (put_block s) = 16"
  by (cases s) simp

lemma PUTU32_GETU32: "4 \<le> length pt \<Longrightarrow> PUTU32 (GETU32 pt) = take 4 pt"
proof -
  assume "4 \<le> length pt"
  then have "take 4 pt = [pt ! 0, pt ! 1, pt ! 2, pt ! 3]"
    by (simp add: list_eq_iff_nth_eq less_Suc_eq numeral_eq_Suc)
  moreover have "PUTU32 (GETU32 pt) = [pt ! 0, pt ! 1, pt ! 2, pt ! 3]"
    unfolding PUTU32_def GETU32_def
    by (simp, intro conjI; rule bit_word_eqI; auto simp: bit_simps dest: bit_imp_le_length)
  ultimately show ?thesis by simp
qed

lemma put_get_block: "length pt = 16 \<Longrightarrow> put_block (get_block pt) = pt"
proof -
  assume "length pt = 16"
  then have "put_block (get_block pt) = take 4 pt @ take 4 (drop 4 pt) @ take 4 (drop 8 pt) @ take 4 (drop 12 pt)"
    by (simp add: get_block_def PUTU32_GETU32)
  also have "\<dots> = take (4 + (4 + (4 + 4))) pt" by (simp only: take_add drop_drop) simp
  finally show ?thesis using \<open>length pt = 16\<close> by simp
qed

section \<open>Decryption takes back encryption\<close>

lemma aes_inverse:
  assumes "AES_set_encrypt_key key bits = Inr ek" "AES_set_decrypt_key key bits = Inr dk"
    and "length b = 16"
  shows "AES_decrypt (AES_encrypt b ek) dk = b"
proof -
  define K where "K = (\<lambda>k. rk4 (rd_key ek) (4 * k))"
  define D where "D = (\<lambda>k. rk4 (rd_key dk) (4 * k))"
  obtain r where r: "rounds ek = 2 * Suc r" using encrypt_key_shape [OF assms(1)] by blast
  let ?n = "2 * r + 1"
  have rd: "rounds dk = 2 * Suc r" using decrypt_key_rounds [OF assms(1,2), of 0] r by simp
  have D: "D k = (if 1 \<le> k \<and> k < Suc ?n then inv_mix_block (K (Suc ?n - k)) else K (Suc ?n - k))" if "k \<le> Suc ?n" for k
    using decrypt_key_rounds [OF assms(1,2), of k] that r by (simp add: K_def D_def)
  let ?s = "te_rounds K ?n (block_xor (get_block b) (K 0))"
  have enc: "AES_encrypt b ek = put_block (block_xor (sub_shift ?s) (K (Suc ?n)))"
    using enc_loop_rounds [of "rd_key ek" r 0 "block_xor (get_block b) (K 0)"]
    by (simp add: AES_encrypt_def r te_last_sub K_def)
  have "td_rounds D ?n (sub_shift ?s) = sub_shift (block_xor (get_block b) (K 0))"
    by (rule td_rounds_undo) (use D in simp)
  then have "AES_decrypt (AES_encrypt b ek) dk = put_block (td_last (sub_shift (block_xor (get_block b) (K 0))) (D (Suc ?n)))"
    using dec_loop_rounds [of "rd_key dk" r 0 "sub_shift ?s"] D [of 0]
    by (simp add: AES_decrypt_def rd enc D_def [symmetric] K_def [symmetric]) (simp add: D_def)
  then show ?thesis using D [of "Suc ?n"] by (simp add: td_last_sub put_get_block assms(3))
qed

section \<open>Properties\<close>

text \<open>C33: \<open>AES_decrypt\<close> with the key that \<open>AES_set_decrypt_key\<close> makes takes back \<open>AES_encrypt\<close> with the key that
  \<open>AES_set_encrypt_key\<close> makes of the same bytes, for each of the three key sizes and every block of 16 bytes.\<close>

theorem AES_decrypt_encrypt:
  assumes "AES_set_encrypt_key key bits = Inr ek" "AES_set_decrypt_key key bits = Inr dk"
    and "bits \<le> 8 * int (length key)" "length b = 16"
  shows "AES_decrypt (AES_encrypt b ek) dk = b"
  by (rule aes_inverse [OF assms(1,2,4)])

text \<open>The example of the standard: the key 00 01 ... 0f and the block 00 11 ... ff.\<close>

definition sample_key :: "byte list" where "sample_key = [0, 1, 2, 3, 4, 5, 6, 7, 8, 9, 10, 11, 12, 13, 14, 15]"

definition sample_block :: "byte list" where
  "sample_block = [0x00, 0x11, 0x22, 0x33, 0x44, 0x55, 0x66, 0x77, 0x88, 0x99, 0xaa, 0xbb, 0xcc, 0xdd, 0xee, 0xff]"

definition sample_cipher :: "byte list" where
  "sample_cipher = [0x69, 0xc4, 0xe0, 0xd8, 0x6a, 0x7b, 0x04, 0x30, 0xd8, 0xcd, 0xb7, 0x80, 0x70, 0xb4, 0xc5, 0x5a]"

definition sample_schedule :: AES_KEY where
  "sample_schedule = \<lparr>rd_key = [
      0x00010203, 0x04050607, 0x08090a0b, 0x0c0d0e0f, 0xd6aa74fd, 0xd2af72fa, 0xdaa678f1, 0xd6ab76fe, 0xb692cf0b,
      0x643dbdf1, 0xbe9bc500, 0x6830b3fe, 0xb6ff744e, 0xd2c2c9bf, 0x6c590cbf, 0x0469bf41, 0x47f7f7bc, 0x95353e03,
      0xf96c32bc, 0xfd058dfd, 0x3caaa3e8, 0xa99f9deb, 0x50f3af57, 0xadf622aa, 0x5e390f7d, 0xf7a69296, 0xa7553dc1,
      0x0aa31f6b, 0x14f9701a, 0xe35fe28c, 0x440adf4d, 0x4ea9c026, 0x47438735, 0xa41c65b9, 0xe016baf4, 0xaebf7ad2,
      0x549932d1, 0xf0855768, 0x1093ed9c, 0xbe2c974e, 0x13111d7f, 0xe3944a17, 0xf307a78b, 0x4d2b30c5], rounds = 10\<rparr>"

lemma sample_key_schedule: "AES_set_encrypt_key sample_key 128 = Inr sample_schedule"
  by (simp add: sample_schedule_def AES_set_encrypt_key_def key_words_def sample_key_def GETU32_def upt_rec expand_128_def key_core_def
      sub_bytes_def lookup_def Te0_def Te1_def Te2_def Te3_def rcon_def b0_def b1_def b2_def b3_def Let_def cong: let_weak_cong)

lemma sample_encrypt: "AES_encrypt sample_block sample_schedule = sample_cipher"
  by code_simp

theorem AES_decrypt_encrypt_witness:
  "AES_set_encrypt_key sample_key 128 = Inr sample_schedule \<and> AES_encrypt sample_block sample_schedule = sample_cipher \<and>
   (case AES_set_decrypt_key sample_key 128 of Inr dk \<Rightarrow> AES_decrypt sample_cipher dk = sample_block | _ \<Rightarrow> False)"
proof -
  obtain dk where dk: "AES_set_decrypt_key sample_key 128 = Inr dk"
    by (simp add: AES_set_decrypt_key_def sample_key_schedule)
  have "length sample_key = 16" "length sample_block = 16" by (simp_all add: sample_key_def sample_block_def)
  then have "AES_decrypt (AES_encrypt sample_block sample_schedule) dk = sample_block"
    by (intro AES_decrypt_encrypt [OF sample_key_schedule dk]) simp_all
  then show ?thesis by (simp add: sample_key_schedule sample_encrypt dk)
qed

end
