(* ===== verification/Sec_Base64.thy ===== *)
theory Sec_Base64
  imports Achat_Prelude
begin

text \<open>
  \<open>libsecurity/src/base64.cpp\<close>: bits are collected in a 32-bit accumulator whose upper bits are never cleared.
  A character is a byte; \<open>size_t\<close> has 64 bits.
\<close>

unbundle bit_operations_syntax

definition b64_table :: "byte list" where
  "b64_table = map of_char ''ABCDEFGHIJKLMNOPQRSTUVWXYZabcdefghijklmnopqrstuvwxyz0123456789+/''"

definition reverse_table :: "byte list" where
  "reverse_table = [
    64, 64, 64, 64, 64, 64, 64, 64, 64, 64, 64, 64, 64, 64, 64, 64,
    64, 64, 64, 64, 64, 64, 64, 64, 64, 64, 64, 64, 64, 64, 64, 64,
    64, 64, 64, 64, 64, 64, 64, 64, 64, 64, 64, 62, 64, 64, 64, 63,
    52, 53, 54, 55, 56, 57, 58, 59, 60, 61, 64, 64, 64, 64, 64, 64,
    64,  0,  1,  2,  3,  4,  5,  6,  7,  8,  9, 10, 11, 12, 13, 14,
    15, 16, 17, 18, 19, 20, 21, 22, 23, 24, 25, 64, 64, 64, 64, 64,
    64, 26, 27, 28, 29, 30, 31, 32, 33, 34, 35, 36, 37, 38, 39, 40,
    41, 42, 43, 44, 45, 46, 47, 48, 49, 50, 51, 64, 64, 64, 64, 64]"

abbreviation (input) "equals_sign \<equiv> (61 :: byte)"

section \<open>Encoding\<close>

text \<open>The number of bits collected, the accumulator and what has been written to \<open>retval\<close>.\<close>

type_synonym enc_state = "nat \<times> 32 word \<times> byte list"

fun emit_sextets :: "nat \<Rightarrow> 32 word \<Rightarrow> byte list \<Rightarrow> nat \<times> byte list" where
  "emit_sextets bits acc out =
     (if 6 \<le> bits then emit_sextets (bits - 6) acc (out @ [b64_table ! unat (drop_bit (bits - 6) acc AND 0x3f)])
      else (bits, out))"

declare emit_sextets.simps [simp del]

fun encode_byte :: "byte \<Rightarrow> enc_state \<Rightarrow> enc_state" where
  "encode_byte c (bits, acc, out) =
     (let acc = push_bit 8 acc OR (ucast c AND 0xff);
          (bits, out) = emit_sextets (bits + 8) acc out
      in (bits, acc, out))"

definition base64_encode :: "byte list \<Rightarrow> byte list" where
  "base64_encode bindata =
     (if length bindata > (2 ^ 64 - 1) div 4 * 3 then []
      else case fold encode_byte bindata (0, 0, []) of (bits, acc, out) \<Rightarrow>
        let out = (if bits > 0 then out @ [b64_table ! unat (push_bit (6 - bits) acc AND 0x3f)] else out)
        in out @ replicate ((length bindata + 2) div 3 * 4 - length out) equals_sign)"

section \<open>Decoding\<close>

definition is_space_byte :: "byte \<Rightarrow> bool" where
  "is_space_byte c \<longleftrightarrow> c = 32 \<or> 9 \<le> c \<and> c \<le> 13"

type_synonym dec_state = "nat \<times> 32 word \<times> byte list"

fun decode_char :: "byte \<Rightarrow> dec_state \<Rightarrow> dec_state option" where
  "decode_char c (bits, acc, ret) =
     (if is_space_byte c \<or> c = equals_sign then Some (bits, acc, ret)
      else if c > 127 \<or> reverse_table ! unat c > 63 then None
      else
        let acc = push_bit 6 acc OR ucast (reverse_table ! unat c); bits = bits + 6
        in if 8 \<le> bits then Some (bits - 8, acc, ret @ [ucast (drop_bit (bits - 8) acc AND 0xff)])
           else Some (bits, acc, ret))"

fun decode_chars :: "byte list \<Rightarrow> dec_state \<Rightarrow> dec_state option" where
  "decode_chars [] st = Some st"
| "decode_chars (c # cs) st = (case decode_char c st of None \<Rightarrow> None | Some st \<Rightarrow> decode_chars cs st)"

definition base64_decode :: "byte list \<Rightarrow> byte list" where
  "base64_decode ascdata = (case decode_chars ascdata (0, 0, []) of None \<Rightarrow> [] | Some (bits, acc, ret) \<Rightarrow> ret)"

section \<open>The tables\<close>

lemma tables: "map (\<lambda>c. reverse_table ! unat c) b64_table = map word_of_nat [0..<64]"
  by (simp add: b64_table_def reverse_table_def upt_rec)

lemma table_chars: "\<forall>c\<in>set b64_table. c \<le> 127 \<and> c \<noteq> equals_sign \<and> \<not> is_space_byte c"
  by (simp add: b64_table_def is_space_byte_def)

lemma table_length [simp]: "length b64_table = 64"
  by (simp add: b64_table_def)

definition sextet :: "32 word \<Rightarrow> byte" where
  "sextet s = b64_table ! unat (s AND 0x3f)"

lemma sextet_less: "unat ((s :: 32 word) AND 0x3f) < 64"
proof -
  have "(s AND 0x3f) \<le> (0x3f :: 32 word)" by (simp add: word_and_le1)
  then have "unat (s AND 0x3f) \<le> unat (0x3f :: 32 word)" by (simp add: word_le_nat_alt)
  then show ?thesis by simp
qed

lemma sextet_reverse: "reverse_table ! unat (sextet s) = ucast (s AND 0x3f)"
proof -
  have "map (\<lambda>c. reverse_table ! unat c) b64_table ! unat (s AND 0x3f) = map word_of_nat [0..<64] ! unat (s AND 0x3f)"
    by (simp only: tables)
  with sextet_less [of s] show ?thesis by (simp add: sextet_def)
qed

lemma sextet_char: "sextet s \<le> 127" "sextet s \<noteq> equals_sign" "\<not> is_space_byte (sextet s)"
  using table_chars sextet_less [of s] by (auto simp: sextet_def)

section \<open>One character\<close>

lemma and_63: "(w :: 32 word) AND 0x3f = take_bit 6 w" and and_255: "(w :: 32 word) AND 0xff = take_bit 8 w"
  by (simp_all add: take_bit_eq_mask mask_eq_decr_exp)

lemma sextet_word: "(ucast (ucast ((s :: 32 word) AND 0x3f) :: byte) :: 32 word) = s AND 0x3f"
  unfolding and_63 by (rule bit_word_eqI) (auto simp: bit_simps)

lemma sextet_small: "\<not> (63 :: byte) < ucast ((s :: 32 word) AND 0x3f)"
proof -
  have "unat (ucast (s AND 0x3f) :: byte) < 64"
    using sextet_less [of s] by (simp add: unsigned_ucast_eq take_bit_nat_eq_self)
  then show ?thesis by (simp add: word_less_nat_alt)
qed

text \<open>The accumulators after six and after eight more bits.\<close>

definition shift6 :: "32 word \<Rightarrow> 32 word \<Rightarrow> 32 word" where
  "shift6 a s = push_bit 6 a OR (s AND 0x3f)"

definition shift8 :: "32 word \<Rightarrow> byte \<Rightarrow> 32 word" where
  "shift8 a x = push_bit 8 a OR (ucast x AND 0xff)"

lemma bit_shift6: "n < 32 \<Longrightarrow> bit (shift6 a s) n \<longleftrightarrow> (if n < 6 then bit s n else bit a (n - 6))"
  unfolding shift6_def and_63 by (auto simp: bit_simps)

lemma bit_shift8: "n < 32 \<Longrightarrow> bit (shift8 a x) n \<longleftrightarrow> (if n < 8 then bit x n else bit a (n - 8))"
  unfolding shift8_def and_255 by (auto simp: bit_simps dest: bit_imp_le_length)

lemma bit_drop: "bit (drop_bit k (w :: 32 word)) n \<longleftrightarrow> bit w (k + n)"
  by (simp add: bit_drop_bit_eq)

definition decode_sextet :: "32 word \<Rightarrow> dec_state \<Rightarrow> dec_state" where
  "decode_sextet s st = (case st of (bits, acc, ret) \<Rightarrow>
     if 2 \<le> bits then (bits - 2, shift6 acc s, ret @ [ucast (drop_bit (bits - 2) (shift6 acc s))])
     else (bits + 6, shift6 acc s, ret))"

lemma ucast_255: "(ucast (w AND 0xff) :: byte) = ucast (w :: 32 word)"
  unfolding and_255 by (rule bit_word_eqI) (auto simp: bit_simps)

lemma decode_char_sextet: "decode_char (sextet s) st = Some (decode_sextet s st)"
proof (cases st)
  case (fields bits acc ret)
  have "\<not> (127 :: byte) < sextet s" using sextet_char(1) [of s] by simp
  then show ?thesis
    unfolding fields using sextet_char(2,3) [of s] sextet_small [of s]
    by (simp only: decode_char.simps sextet_reverse sextet_word if_False simp_thms shift6_def [symmetric] Let_def)
      (simp add: decode_sextet_def ucast_255)
qed

lemma decode_append: "decode_chars (xs @ ys) st = (case decode_chars xs st of None \<Rightarrow> None | Some st \<Rightarrow> decode_chars ys st)"
  by (induction xs arbitrary: st) (auto split: option.split)

lemma decode_snoc: "decode_chars out st = Some st' \<Longrightarrow> decode_chars (out @ [sextet s]) st = Some (decode_sextet s st')"
  by (simp add: decode_append decode_char_sextet)

lemma decode_padding: "decode_chars (replicate n equals_sign) st = Some st"
  by (induction n arbitrary: st) (auto split: prod.split)

lemma emit_cases:
  "emit_sextets 8 acc out = (2, out @ [sextet (drop_bit 2 acc)])"
  "emit_sextets 10 acc out = (4, out @ [sextet (drop_bit 4 acc)])"
  "emit_sextets 12 acc out = (0, out @ [sextet (drop_bit 6 acc), sextet acc])"
  by (simp_all add: emit_sextets.simps sextet_def)

lemma encode_byte_shift8:
  "encode_byte c (bits, acc, out) = (case emit_sextets (bits + 8) (shift8 acc c) out of (bits, out) \<Rightarrow> (bits, shift8 acc c, out))"
  by (simp add: shift8_def Let_def)

section \<open>Encoder and decoder side by side\<close>

text \<open>After the bytes \<open>bs\<close>: what the decoder makes of the characters written so far, and the bits of the last
  byte that each of the two accumulators holds.\<close>

fun in_step :: "byte list \<Rightarrow> enc_state \<Rightarrow> bool" where
  "in_step bs (e, acc, out) \<longleftrightarrow>
     6 * length out + e = 8 * length bs \<and>
     (\<exists>a. (e = 0 \<and> decode_chars out (0, 0, []) = Some (0, a, bs)) \<or>
          (\<exists>ds c. bs = ds @ [c] \<and>
             (e = 2 \<and> decode_chars out (0, 0, []) = Some (6, a, ds) \<and> (\<forall>n<2. bit acc n = bit c n) \<and> (\<forall>n<6. bit a n = bit c (n + 2)) \<or>
              e = 4 \<and> decode_chars out (0, 0, []) = Some (4, a, ds) \<and> (\<forall>n<4. bit acc n = bit c n) \<and> (\<forall>n<4. bit a n = bit c (n + 4)))))"

lemma emitted: "(\<And>n. n < 8 \<Longrightarrow> bit w (k + n) = bit c n) \<Longrightarrow> ucast (drop_bit k (w :: 32 word)) = (c :: byte)"
  by (rule bit_word_eqI) (simp add: bit_simps)

lemma decode_emits:
  assumes "2 \<le> bits" "\<And>n. n < 8 \<Longrightarrow> bit (shift6 a s) (bits - 2 + n) = bit c n"
  shows "decode_sextet s (bits, a, ds) = (bits - 2, shift6 a s, ds @ [c])"
  using assms(1) emitted [OF assms(2)] by (simp add: decode_sextet_def)

lemma pending_6:
  assumes "\<forall>n<6. bit a n = bit (c :: byte) (n + 2)" "\<forall>n<2. bit s (n + 4) = bit c n"
  shows "decode_sextet s (6, a, ds) = (4, shift6 a s, ds @ [c])"
proof -
  have "bit (shift6 a s) (4 + n) = bit c n" if "n < 8" for n
  proof (cases "n < 2")
    case True
    with assms(2) show ?thesis by (simp add: bit_shift6 add.commute)
  next
    case False
    then obtain m where "n = m + 2" by (metis add.commute le_Suc_ex not_less)
    with that assms(1) show ?thesis by (simp add: bit_shift6)
  qed
  then show ?thesis using decode_emits [of 6 a s c ds] by simp
qed

lemma pending_4:
  assumes "\<forall>n<4. bit a n = bit (c :: byte) (n + 4)" "\<forall>n<4. bit s (n + 2) = bit c n"
  shows "decode_sextet s (4, a, ds) = (2, shift6 a s, ds @ [c])"
proof -
  have "bit (shift6 a s) (2 + n) = bit c n" if "n < 8" for n
  proof (cases "n < 4")
    case True
    with assms(2) show ?thesis by (simp add: bit_shift6 add.commute)
  next
    case False
    with that assms(1) [rule_format, of "n - 4"] show ?thesis by (simp add: bit_shift6)
  qed
  then show ?thesis using decode_emits [of 4 a s c ds] by simp
qed

lemma pending_2:
  assumes "\<forall>n<2. bit a n = bit (c :: byte) (n + 6)" "\<forall>n<6. bit s n = bit c n"
  shows "decode_sextet s (2, a, ds) = (0, shift6 a s, ds @ [c])"
proof -
  have "bit (shift6 a s) (0 + n) = bit c n" if "n < 8" for n
  proof (cases "n < 6")
    case True
    with assms(2) show ?thesis by (simp add: bit_shift6)
  next
    case False
    with that assms(1) [rule_format, of "n - 6"] show ?thesis by (simp add: bit_shift6)
  qed
  then show ?thesis using decode_emits [of 2 a s c ds] by simp
qed

lemma encode_in_step: "in_step bs st \<Longrightarrow> in_step (bs @ [x]) (encode_byte x st)"
proof (cases st)
  case (fields e acc out)
  let ?w = "shift8 acc x"
  assume "in_step bs st"
  then obtain a where len: "6 * length out + e = 8 * length bs" and
    "(e = 0 \<and> decode_chars out (0, 0, []) = Some (0, a, bs)) \<or>
          (\<exists>ds c. bs = ds @ [c] \<and>
             (e = 2 \<and> decode_chars out (0, 0, []) = Some (6, a, ds) \<and> (\<forall>n<2. bit acc n = bit c n) \<and> (\<forall>n<6. bit a n = bit c (n + 2)) \<or>
              e = 4 \<and> decode_chars out (0, 0, []) = Some (4, a, ds) \<and> (\<forall>n<4. bit acc n = bit c n) \<and> (\<forall>n<4. bit a n = bit c (n + 4))))"
    unfolding fields in_step.simps by blast
  then consider "e = 0" "decode_chars out (0, 0, []) = Some (0, a, bs)"
    | ds c where "e = 2" "bs = ds @ [c]" "decode_chars out (0, 0, []) = Some (6, a, ds)" "\<forall>n<2. bit acc n = bit c n" "\<forall>n<6. bit a n = bit c (n + 2)"
    | ds c where "e = 4" "bs = ds @ [c]" "decode_chars out (0, 0, []) = Some (4, a, ds)" "\<forall>n<4. bit acc n = bit c n" "\<forall>n<4. bit a n = bit c (n + 4)"
    by blast
  then show ?thesis
  proof cases
    case 1
    let ?s = "drop_bit 2 ?w"
    have "decode_chars (out @ [sextet ?s]) (0, 0, []) = Some (6, shift6 a ?s, bs)"
      using decode_snoc [OF 1(2), of ?s] by (simp add: decode_sextet_def)
    moreover have "\<forall>n<2. bit ?w n = bit x n" "\<forall>n<6. bit (shift6 a ?s) n = bit x (n + 2)"
      by (simp_all add: bit_shift6 bit_drop bit_shift8 add.commute)
    ultimately show ?thesis
      using len 1(1) unfolding fields encode_byte_shift8 by (simp add: emit_cases)
  next
    case (2 ds c)
    let ?s = "drop_bit 4 ?w"
    have "\<forall>n<2. bit ?s (n + 4) = bit c n" using 2(4) by (simp add: bit_drop bit_shift8)
    then have "decode_chars (out @ [sextet ?s]) (0, 0, []) = Some (4, shift6 a ?s, bs)"
      using decode_snoc [OF 2(3), of ?s] pending_6 [OF 2(5)] 2(2) by simp
    moreover have "\<forall>n<4. bit ?w n = bit x n" "\<forall>n<4. bit (shift6 a ?s) n = bit x (n + 4)"
      by (simp_all add: bit_shift6 bit_drop bit_shift8 add.commute)
    ultimately show ?thesis
      using len 2(1) unfolding fields encode_byte_shift8 by (simp add: emit_cases)
  next
    case (3 ds c)
    let ?s = "drop_bit 6 ?w"
    have "\<forall>n<4. bit ?s (n + 2) = bit c n" using 3(4) by (simp add: bit_drop bit_shift8)
    then have "decode_chars (out @ [sextet ?s]) (0, 0, []) = Some (2, shift6 a ?s, bs)"
      using decode_snoc [OF 3(3), of ?s] pending_4 [OF 3(5)] 3(2) by simp
    from decode_snoc [OF this, of ?w]
    have "decode_chars (out @ [sextet ?s, sextet ?w]) (0, 0, []) = Some (decode_sextet ?w (2, shift6 a ?s, bs))" by simp
    also have "decode_sextet ?w (2, shift6 a ?s, bs) = (0, shift6 (shift6 a ?s) ?w, bs @ [x])"
      by (rule pending_2) (simp_all add: bit_shift6 bit_drop bit_shift8 add.commute)
    finally show ?thesis
      using len 3(1) unfolding fields encode_byte_shift8 by (simp add: emit_cases)
  qed
qed

lemma encode_all_in_step: "in_step bs (fold encode_byte bs (0, 0, []))"
  by (induction bs rule: rev_induct) (auto simp: encode_in_step)

text \<open>The last bits are written, and then the padding, which decoding skips.\<close>

lemma decode_flushed:
  assumes "fold encode_byte bs (0, 0, []) = (e, acc, out)"
  shows "\<exists>d a. decode_chars (if e > 0 then out @ [sextet (push_bit (6 - e) acc)] else out) (0, 0, []) = Some (d, a, bs)"
    and "6 * length out + e = 8 * length bs \<and> e \<in> {0, 2, 4}"
proof -
  have i: "in_step bs (e, acc, out)" using encode_all_in_step [of bs] assms by simp
  then show "6 * length out + e = 8 * length bs \<and> e \<in> {0, 2, 4}" by auto
  from i obtain a where
    "(e = 0 \<and> decode_chars out (0, 0, []) = Some (0, a, bs)) \<or>
          (\<exists>ds c. bs = ds @ [c] \<and>
             (e = 2 \<and> decode_chars out (0, 0, []) = Some (6, a, ds) \<and> (\<forall>n<2. bit acc n = bit c n) \<and> (\<forall>n<6. bit a n = bit c (n + 2)) \<or>
              e = 4 \<and> decode_chars out (0, 0, []) = Some (4, a, ds) \<and> (\<forall>n<4. bit acc n = bit c n) \<and> (\<forall>n<4. bit a n = bit c (n + 4))))"
    unfolding in_step.simps by blast
  then consider "e = 0" "decode_chars out (0, 0, []) = Some (0, a, bs)"
    | ds c where "e = 2" "bs = ds @ [c]" "decode_chars out (0, 0, []) = Some (6, a, ds)" "\<forall>n<2. bit acc n = bit c n" "\<forall>n<6. bit a n = bit c (n + 2)"
    | ds c where "e = 4" "bs = ds @ [c]" "decode_chars out (0, 0, []) = Some (4, a, ds)" "\<forall>n<4. bit acc n = bit c n" "\<forall>n<4. bit a n = bit c (n + 4)"
    by blast
  then show "\<exists>d a. decode_chars (if e > 0 then out @ [sextet (push_bit (6 - e) acc)] else out) (0, 0, []) = Some (d, a, bs)"
  proof cases
    case (2 ds c)
    have "\<forall>n<2. bit (push_bit 4 acc) (n + 4) = bit c n" using 2(4) by (simp add: bit_push_bit_iff)
    then show ?thesis using decode_snoc [OF 2(3), of "push_bit 4 acc"] pending_6 [OF 2(5)] 2(1,2) by simp
  next
    case (3 ds c)
    have "\<forall>n<4. bit (push_bit 2 acc) (n + 2) = bit c n" using 3(4) by (simp add: bit_push_bit_iff)
    then show ?thesis using decode_snoc [OF 3(3), of "push_bit 2 acc"] pending_4 [OF 3(5)] 3(1,2) by simp
  qed simp
qed

lemma base64_inverse:
  assumes "length bs \<le> (2 ^ 64 - 1) div 4 * 3"
  shows "base64_decode (base64_encode bs) = bs \<and> length (base64_encode bs) = (length bs + 2) div 3 * 4"
proof -
  obtain e acc out where f: "fold encode_byte bs (0, 0, []) = (e, acc, out)" by (metis prod_cases3)
  let ?out = "if e > 0 then out @ [sextet (push_bit (6 - e) acc)] else out"
  let ?pad = "replicate ((length bs + 2) div 3 * 4 - length ?out) equals_sign"
  have enc: "base64_encode bs = ?out @ ?pad" using assms f by (simp add: base64_encode_def sextet_def)
  obtain d a where "decode_chars ?out (0, 0, []) = Some (d, a, bs)" using decode_flushed(1) [OF f] by blast
  then have "decode_chars (?out @ ?pad) (0, 0, []) = Some (d, a, bs)" by (simp only: decode_append option.case decode_padding)
  moreover have "length ?out \<le> (length bs + 2) div 3 * 4" using decode_flushed(2) [OF f] by auto
  ultimately show ?thesis unfolding enc base64_decode_def by simp
qed

section \<open>Properties\<close>

text \<open>Decoding the text that \<open>base64_encode\<close> makes of any string gives the string back, whatever its length (up to
  the limit of three quarters of the largest size) and whatever bytes it has, and the text has four characters for every three bytes begun.\<close>

theorem base64_round_trip:
  assumes "length bs \<le> (2 ^ 64 - 1) div 4 * 3"
  shows "base64_decode (base64_encode bs) = bs \<and> length (base64_encode bs) = (length bs + 2) div 3 * 4"
  by (rule base64_inverse [OF assms])

theorem base64_round_trip_witness:
  "base64_encode (map of_char ''Man!'') = map of_char ''TWFuIQ=='' \<and> base64_decode (base64_encode (map of_char ''Man!'')) = map of_char ''Man!''"
proof -
  have "base64_encode (map of_char ''Man!'') = map of_char ''TWFuIQ==''"
    by (simp add: base64_encode_def emit_sextets.simps b64_table_def) (simp add: numeral_2_eq_2)
  then show ?thesis using base64_round_trip [of "map of_char ''Man!''"] by simp
qed

end
