(* ===== verification/Sec_EncDec.thy ===== *)
theory Sec_EncDec
  imports Sec_Aes_Inverse Sec_Base64
begin

text \<open>
  Encrypted messages: \<open>EncryptMsg\<close> and \<open>DecryptMsg\<close> of \<open>libsecurity/src/security.cpp\<close> and the class \<open>Aes\<close> of
  \<open>base/EncDec.cpp\<close>, which do the same with another key. The class stores the length with \<open>CByteStream\<close>, which no
  file of the repository declares: its two functions are arguments.

  A message is a pointer, \<open>None\<close> for a null pointer, with as many bytes as \<open>nInLen\<close> says. A result \<open>None\<close> is memory
  written or read outside of its block, \<open>Inl\<close> is a negative status.
\<close>

section \<open>Lengths\<close>

definition ReadUint32 :: "byte list \<Rightarrow> word32" where
  "ReadUint32 buf = push_bit 24 (ucast (buf ! 0)) OR push_bit 16 (ucast (buf ! 1)) OR push_bit 8 (ucast (buf ! 2)) OR ucast (buf ! 3)"

definition WriteUint32 :: "word32 \<Rightarrow> byte list" where
  "WriteUint32 w = [ucast (drop_bit 24 w), ucast (drop_bit 16 w AND 0xff), ucast (drop_bit 8 w AND 0xff), ucast (w AND 0xff)]"

text \<open>The number of blocks: one more where the last one has no room for the length.\<close>

definition enc_blocks :: "word32 \<Rightarrow> word32" where
  "enc_blocks nInLen =
     (let nRemain = nInLen mod 16; nBlocks = (nInLen + 15) div 16
      in if nRemain > 12 \<or> nRemain = 0 then nBlocks + 1 else nBlocks)"

section \<open>Messages\<close>

fun map_blocks :: "nat \<Rightarrow> (byte list \<Rightarrow> byte list) \<Rightarrow> byte list \<Rightarrow> byte list" where
  "map_blocks 0 f bs = []"
| "map_blocks (Suc n) f bs = f (take 16 bs) @ map_blocks n f (drop 16 bs)"

definition encrypt_with :: "(word32 \<Rightarrow> byte list) \<Rightarrow> AES_KEY \<Rightarrow> byte list option \<Rightarrow> word32 \<Rightarrow> (int + byte list) option" where
  "encrypt_with wr key pInData nInLen =
     (case pInData of
        None \<Rightarrow> Some (Inl (- 1))
      | Some inb \<Rightarrow>
          if nInLen = 0 then Some (Inl (- 1))
          else
            let nBlocks = enc_blocks nInLen; nEncryptLen = unat (nBlocks * 16)
            in if nEncryptLen < length inb \<or> nEncryptLen < 4 then None
               else
                 let pData = inb @ replicate (nEncryptLen - length inb) 0;
                     pData = take (nEncryptLen - 4) pData @ wr nInLen;
                     strDec = base64_encode (map_blocks (unat nBlocks) (\<lambda>b. AES_encrypt b key) pData);
                     nOutLen = (word_of_nat (length strDec) :: word32)
                 in Some (Inr (take (unat nOutLen) strDec)))"

text \<open>\<open>pTmp[nOutLen] = 0\<close> in a block of one byte more than was decrypted; the caller reads the bytes before it.\<close>

definition terminate :: "byte list \<Rightarrow> nat \<Rightarrow> byte list option" where
  "terminate pTmp nOutLen = (if nOutLen < length pTmp + 1 then Some (take nOutLen pTmp) else None)"

definition decrypt_with :: "(byte list \<Rightarrow> word32) \<Rightarrow> AES_KEY \<Rightarrow> byte list option \<Rightarrow> word32 \<Rightarrow> (int + byte list) option" where
  "decrypt_with rd key pInData nInLen =
     (case pInData of
        None \<Rightarrow> Some (Inl (- 1))
      | Some inb \<Rightarrow>
          if nInLen = 0 then Some (Inl (- 1))
          else
            let strResult = base64_decode inb; nLen = (word_of_nat (length strResult) :: word32)
            in if nLen = 0 then Some (Inl (- 2))
               else if nLen mod 16 \<noteq> 0 then Some (Inl (- 3))
               else
                 let pTmp = map_blocks (unat (nLen div 16)) (\<lambda>b. AES_decrypt b key) strResult;
                     nOutLen = rd (drop (unat nLen - 4) pTmp)
                 in if nOutLen > nLen then Some (Inl (- 4))
                    else (case terminate pTmp (unat nOutLen) of None \<Rightarrow> None | Some d \<Rightarrow> Some (Inr d)))"

text \<open>The functions of the library, with their key, and of the class, with the keys of the object.\<close>

definition msg_key :: "byte list" where
  "msg_key = map of_char ''12345678901234567890123456789012''"

definition key_or_none :: "(int + AES_KEY) \<Rightarrow> AES_KEY" where
  "key_or_none r = (case r of Inr k \<Rightarrow> k | Inl _ \<Rightarrow> \<lparr>rd_key = [], rounds = 0\<rparr>)"

definition EncryptMsg :: "byte list option \<Rightarrow> word32 \<Rightarrow> (int + byte list) option" where
  "EncryptMsg = encrypt_with WriteUint32 (key_or_none (AES_set_encrypt_key msg_key 256))"

definition DecryptMsg :: "byte list option \<Rightarrow> word32 \<Rightarrow> (int + byte list) option" where
  "DecryptMsg = decrypt_with ReadUint32 (key_or_none (AES_set_decrypt_key msg_key 256))"

record Aes =
  m_cEncKey :: AES_KEY
  m_cDecKey :: AES_KEY

definition mkAes :: "byte list \<Rightarrow> Aes" where
  "mkAes strKey = \<lparr>m_cEncKey = key_or_none (AES_set_encrypt_key strKey 256),
     m_cDecKey = key_or_none (AES_set_decrypt_key strKey 256)\<rparr>"

definition Aes_Encrypt :: "(word32 \<Rightarrow> byte list) \<Rightarrow> Aes \<Rightarrow> byte list option \<Rightarrow> word32 \<Rightarrow> (int + byte list) option" where
  "Aes_Encrypt wr aes = encrypt_with wr (m_cEncKey aes)"

definition Aes_Decrypt :: "(byte list \<Rightarrow> word32) \<Rightarrow> Aes \<Rightarrow> byte list option \<Rightarrow> word32 \<Rightarrow> (int + byte list) option" where
  "Aes_Decrypt rd aes = decrypt_with rd (m_cDecKey aes)"

section \<open>Blocks\<close>

lemma AES_encrypt_length [simp]: "length (AES_encrypt b key) = 16"
  by (simp add: AES_encrypt_def split: prod.split)

lemma AES_decrypt_length [simp]: "length (AES_decrypt b key) = 16"
  by (simp add: AES_decrypt_def split: prod.split)

lemma map_blocks_length: "(\<And>b. length (f b) = 16) \<Longrightarrow> length (map_blocks n f bs) = 16 * n"
  by (induction n arbitrary: bs) simp_all

lemma map_blocks_inverse:
  assumes "\<And>b. length b = 16 \<Longrightarrow> g (f b) = b" "\<And>b. length (f b) = 16" "length bs = 16 * n"
  shows "map_blocks n g (map_blocks n f bs) = bs"
  using assms(3)
proof (induction n arbitrary: bs)
  case (Suc n)
  then have "length (take 16 bs) = 16" "length (drop 16 bs) = 16 * n" by simp_all
  with Suc.IH show ?case by (simp add: assms(1,2))
qed simp

lemma unat_of_len: "n < 2 ^ 32 \<Longrightarrow> unat (word_of_nat n :: word32) = n"
  by (simp add: unat_of_nat)

text \<open>There is room for the message and its length.\<close>

lemma enc_blocks_room:
  assumes "0 < n" "n + 32 < 2 ^ 32"
  defines "k \<equiv> unat (enc_blocks (word_of_nat n))"
  shows "unat (enc_blocks (word_of_nat n) * 16) = 16 * k" "n + 4 \<le> 16 * k" "16 * k \<le> n + 19"
proof -
  let ?w = "word_of_nat n :: word32"
  have w: "unat ?w = n" using assms by (intro unat_of_len) simp
  have rem: "unat (?w mod 16) = n mod 16" by (simp add: unat_mod w)
  have add: "unat (?w + 15) = n + 15" using assms by (simp add: unat_word_ariths w)
  have blocks: "unat ((?w + 15) div 16) = (n + 15) div 16" by (simp add: unat_div add)
  have c: "?w mod 16 > 12 \<longleftrightarrow> n mod 16 > 12" "?w mod 16 = 0 \<longleftrightarrow> n mod 16 = 0"
    using rem by (simp_all add: word_less_nat_alt word_unat_eq_iff)
  have k: "k = (if n mod 16 > 12 \<or> n mod 16 = 0 then (n + 15) div 16 + 1 else (n + 15) div 16)"
    using assms(2) blocks by (simp add: k_def enc_blocks_def c unat_word_ariths)
  show "n + 4 \<le> 16 * k" "16 * k \<le> n + 19" unfolding k by (auto split: if_splits) presburger+
  then show "unat (enc_blocks ?w * 16) = 16 * k" using assms(2) by (simp add: unat_word_ariths k_def)
qed

section \<open>Round trip\<close>

text \<open>What the length needs of the two functions that store and load it.\<close>

locale length_codec =
  fixes wr :: "word32 \<Rightarrow> byte list" and rd :: "byte list \<Rightarrow> word32"
  assumes rd_wr: "rd (wr w) = w" and wr_length: "length (wr w) = 4"
begin

lemma encrypt_text:
  assumes "d \<noteq> []" "length d + 32 \<le> 3 * 2 ^ 30"
  defines "k \<equiv> unat (enc_blocks (word_of_nat (length d)))"
  defines "p \<equiv> d @ replicate (16 * k - 4 - length d) 0 @ wr (word_of_nat (length d))"
  shows "encrypt_with wr key (Some d) (word_of_nat (length d)) = Some (Inr (base64_encode (map_blocks k (\<lambda>b. AES_encrypt b key) p)))"
    and "length p = 16 * k" "length (base64_encode (map_blocks k (\<lambda>b. AES_encrypt b key) p)) < 2 ^ 32"
    and "base64_decode (base64_encode (map_blocks k (\<lambda>b. AES_encrypt b key) p)) = map_blocks k (\<lambda>b. AES_encrypt b key) p"
proof -
  let ?w = "word_of_nat (length d) :: word32"
  have room: "unat (enc_blocks ?w * 16) = 16 * k" "length d + 4 \<le> 16 * k" "16 * k \<le> length d + 19"
    using enc_blocks_room [of "length d"] assms(1,2) by (auto simp: k_def)
  let ?c = "map_blocks k (\<lambda>b. AES_encrypt b key) p"
  show p: "length p = 16 * k" using room(2) by (simp add: p_def wr_length)
  have c: "length ?c = 16 * k" by (rule map_blocks_length) simp
  have "length ?c \<le> (2 ^ 64 - 1) div 4 * 3" using room(3) assms(2) c by simp
  from base64_inverse [OF this]
  have b64: "base64_decode (base64_encode ?c) = ?c" "length (base64_encode ?c) = (16 * k + 2) div 3 * 4" using c by simp_all
  then show "base64_decode (base64_encode ?c) = ?c" by simp
  show lt: "length (base64_encode ?c) < 2 ^ 32" using b64(2) room(3) assms(2) by simp
  have w: "unat ?w = length d" using assms(2) by (intro unat_of_len) simp
  then have "?w \<noteq> 0" using assms(1) by auto
  then show "encrypt_with wr key (Some d) ?w = Some (Inr (base64_encode ?c))"
    using room lt by (simp add: encrypt_with_def Let_def k_def [symmetric] p_def unat_of_nat take_replicate)
qed

lemma decrypt_encrypt:
  assumes "d \<noteq> []" "length d + 32 \<le> 3 * 2 ^ 30"
    and "\<And>b. length b = 16 \<Longrightarrow> AES_decrypt (AES_encrypt b ek) dk = b"
  shows "\<exists>t. encrypt_with wr ek (Some d) (word_of_nat (length d)) = Some (Inr t) \<and> length t < 2 ^ 32 \<and>
    decrypt_with rd dk (Some t) (word_of_nat (length t)) = Some (Inr d)"
proof -
  let ?w = "word_of_nat (length d) :: word32"
  define k where "k = unat (enc_blocks ?w)"
  define p where "p = d @ replicate (16 * k - 4 - length d) 0 @ wr ?w"
  let ?c = "map_blocks k (\<lambda>b. AES_encrypt b ek) p"
  let ?t = "base64_encode ?c"
  note e = encrypt_text(1,3,4) [OF assms(1,2), of ek, folded k_def, folded p_def]
  note pl = encrypt_text(2) [OF assms(1,2), folded k_def, folded p_def]
  have room: "length d + 4 \<le> 16 * k" "16 * k \<le> length d + 19"
    using enc_blocks_room [of "length d"] assms(1,2) by (auto simp: k_def)
  have w: "unat ?w = length d" using assms(2) by (intro unat_of_len) simp
  have c: "length ?c = 16 * k" by (rule map_blocks_length) simp
  have t: "unat (word_of_nat (length ?t) :: word32) = length ?t" by (rule unat_of_len [OF e(2)])
  have "?t \<noteq> []" using e(3) c room by (cases "?t = []") (auto simp: base64_decode_def)
  then have t0: "(word_of_nat (length ?t) :: word32) \<noteq> 0" using t by auto
  have n: "unat (word_of_nat (16 * k) :: word32) = 16 * k" using room assms(2) by (intro unat_of_len) simp
  then have n0: "(word_of_nat (16 * k) :: word32) \<noteq> 0" using room by auto
  have nm: "(word_of_nat (16 * k) :: word32) mod 16 = 0" by (simp add: word_unat_eq_iff unat_mod n del: of_nat_mult)
  have nd: "unat ((word_of_nat (16 * k) :: word32) div 16) = k" by (simp add: unat_div n del: of_nat_mult)
  have dec: "map_blocks k (\<lambda>b. AES_decrypt b dk) ?c = p" by (rule map_blocks_inverse) (simp_all add: assms(3) pl)
  have "drop (16 * k - 4) p = wr ?w" using room by (simp add: p_def wr_length)
  then have len: "rd (drop (16 * k - 4) p) = ?w" by (simp add: rd_wr)
  have le: "\<not> ?w > word_of_nat (16 * k)" using room by (simp add: word_less_nat_alt w n del: of_nat_mult)
  have "take (length d) p = d" by (simp add: p_def)
  then have "decrypt_with rd dk (Some ?t) (word_of_nat (length ?t)) = Some (Inr d)"
    using t0 n0 nm le room by (simp add: decrypt_with_def terminate_def pl e(3) c Let_def n nd dec len w del: of_nat_mult)
  with e(1,2) show ?thesis by blast
qed

end

lemma ReadUint32_get: "ReadUint32 bs = GETU32 bs"
  unfolding ReadUint32_def GETU32_def by (rule bit_word_eqI) (auto simp: bit_simps dest: bit_imp_le_length)

lemma WriteUint32_put: "WriteUint32 w = PUTU32 w"
  unfolding WriteUint32_def PUTU32_def and_ff by (simp, intro conjI; rule bit_word_eqI; auto simp: bit_simps)

interpretation uint32: length_codec WriteUint32 ReadUint32
  by unfold_locales (simp_all add: ReadUint32_get WriteUint32_put)

lemma both_keys:
  assumes "bits \<in> {128, 192, 256}" "length b = 16"
  shows "AES_decrypt (AES_encrypt b (key_or_none (AES_set_encrypt_key key bits))) (key_or_none (AES_set_decrypt_key key bits)) = b"
proof -
  obtain ek where ek: "AES_set_encrypt_key key bits = Inr ek" using assms(1) by (auto simp: AES_set_encrypt_key_def)
  then obtain dk where dk: "AES_set_decrypt_key key bits = Inr dk" by (simp add: AES_set_decrypt_key_def)
  show ?thesis using aes_inverse [OF ek dk assms(2)] by (simp add: ek dk key_or_none_def)
qed

text \<open>The same for the class, with any key and any two functions that store and load a length.\<close>

context length_codec
begin

lemma Aes_inverse:
  assumes "d \<noteq> []" "length d + 32 \<le> 3 * 2 ^ 30"
  shows "\<exists>t. Aes_Encrypt wr (mkAes key) (Some d) (word_of_nat (length d)) = Some (Inr t) \<and> length t < 2 ^ 32 \<and>
    Aes_Decrypt rd (mkAes key) (Some t) (word_of_nat (length t)) = Some (Inr d)"
  unfolding Aes_Encrypt_def Aes_Decrypt_def mkAes_def Aes.select_convs
  by (rule decrypt_encrypt [OF assms both_keys]) simp_all

end

lemma decode_size: "decode_chars cs (bits, acc, ret) = Some (bits', acc', ret') \<Longrightarrow> 8 * length ret' + bits' \<le> 8 * length ret + bits + 6 * length cs"
proof (induction cs arbitrary: bits acc ret)
  case (Cons c cs)
  then obtain b a r where st: "decode_char c (bits, acc, ret) = Some (b, a, r)" "decode_chars cs (b, a, r) = Some (bits', acc', ret')"
    by (auto simp del: decode_char.simps split: option.splits)
  have "8 * length r + b \<le> 8 * length ret + bits + 6"
    using st(1) by (auto simp: Let_def split: if_splits)
  with Cons.IH [OF st(2)] show ?case by simp
qed simp

lemma base64_decode_size: "4 * length (base64_decode t) \<le> 3 * length t"
proof (cases "decode_chars t (0, 0, [])")
  case (Some st)
  then obtain b a r where st: "decode_chars t (0, 0, []) = Some (b, a, r)" by (cases st) simp
  then have "8 * length r + b \<le> 6 * length t" using decode_size [of t 0 0 "[]" b a r] by simp
  with st show ?thesis by (simp add: base64_decode_def)
qed (simp add: base64_decode_def)

text \<open>Near the end of the range of \<open>uint32_t\<close> the number of blocks wraps around: the block allocated has 0 or 16 bytes.\<close>

lemma encrypt_overruns:
  assumes "unat n = length d" "2 ^ 32 - 15 \<le> length d"
  shows "encrypt_with wr key (Some d) n = None"
proof -
  have n: "unat n < 2 ^ 32" using unsigned_less [of n, where 'a = nat] by simp
  have "unat (n + 15) = (unat n + 15) mod 2 ^ 32" by (simp add: unat_word_ariths)
  also have "\<dots> = unat n + 15 - 2 ^ 32" using n assms by (simp add: mod_if)
  finally have add: "unat (n + 15) < 15" using n by simp
  then have "unat ((n + 15) div 16) = 0" by (simp add: unat_div)
  then have z: "(n + 15) div 16 = 0" by (simp add: unat_eq_zero)
  then have "enc_blocks n = 0 \<or> enc_blocks n = 1" by (simp add: enc_blocks_def Let_def)
  then have "unat (enc_blocks n * 16) \<le> 16" by auto
  moreover have "n \<noteq> 0" using assms by auto
  ultimately show ?thesis using assms by (simp add: encrypt_with_def Let_def)
qed

section \<open>Properties\<close>

text \<open>C34: a message that \<open>EncryptMsg\<close> makes text of comes out of \<open>DecryptMsg\<close> as it went in: padding, the length
  in the last block, the cipher and base64 are all undone, for every message that is not empty and has less than 3 GiB.\<close>

theorem DecryptMsg_EncryptMsg:
  assumes "d \<noteq> []" "length d + 32 \<le> 3 * 2 ^ 30"
  shows "\<exists>t. EncryptMsg (Some d) (word_of_nat (length d)) = Some (Inr t) \<and> length t < 2 ^ 32 \<and>
    DecryptMsg (Some t) (word_of_nat (length t)) = Some (Inr d)"
  unfolding EncryptMsg_def DecryptMsg_def
  by (rule uint32.decrypt_encrypt [OF assms both_keys]) simp_all

theorem DecryptMsg_EncryptMsg_witness:
  "\<exists>t. EncryptMsg (Some [104, 105]) 2 = Some (Inr t) \<and> DecryptMsg (Some t) (word_of_nat (length t)) = Some (Inr [104, 105])"
  using DecryptMsg_EncryptMsg [of "[104, 105]"] by auto

text \<open>C35: whatever text a peer sends, \<open>DecryptMsg\<close> neither writes nor hands out a byte outside of the block it allocated (a
  result \<open>None\<close>): it ends with one of its four statuses or with a message of at most three quarters of the size of the text. The
  length that the last block claims is never believed beyond what was decrypted.\<close>

theorem DecryptMsg_bounded:
  "\<exists>r. DecryptMsg (Some t) (word_of_nat (length t)) = Some r \<and>
     (case r of
        Inl st \<Rightarrow> st \<in> {- 1, - 2, - 3, - 4}
      | Inr d \<Rightarrow> length d \<le> length (base64_decode t) \<and> 4 * length d \<le> 3 * length t)"
proof -
  let ?n = "word_of_nat (length (base64_decode t)) :: word32"
  have le: "unat ?n \<le> length (base64_decode t)" by (simp add: unat_of_nat)
  have out: "\<exists>d. terminate (map_blocks (unat (?n div 16)) f (base64_decode t)) (unat m) = Some d \<and>
      length d \<le> length (base64_decode t) \<and> 4 * length d \<le> 3 * length t"
    if f: "\<And>b. length (f b) = 16" and m: "?n mod 16 = 0" "\<not> m > ?n" for f and m :: word32
  proof -
    have "unat ?n mod 16 = 0" using arg_cong [OF m(1), of unat] by (simp add: unat_mod)
    then have "16 * unat (?n div 16) = unat ?n" by (simp add: unat_div) presburger
    moreover have "unat m \<le> unat ?n" using m(2) by (simp add: word_le_nat_alt not_less)
    ultimately show ?thesis
      using le base64_decode_size [of t] by (simp add: terminate_def map_blocks_length [of f] f)
  qed
  let ?f = "\<lambda>b. AES_decrypt b (key_or_none (AES_set_decrypt_key msg_key 256))"
  let ?m = "ReadUint32 (drop (unat ?n - 4) (map_blocks (unat (?n div 16)) ?f (base64_decode t)))"
  show ?thesis
  proof (cases "?n mod 16 = 0 \<and> \<not> ?m > ?n")
    case True
    with out [of ?f ?m] show ?thesis by (auto simp: DecryptMsg_def decrypt_with_def Let_def)
  next
    case False
    then show ?thesis by (simp add: DecryptMsg_def decrypt_with_def Let_def)
  qed
qed

end
