(* ===== verification/Sec_Md5.thy ===== *)
theory Sec_Md5
  imports Achat_Prelude
begin

text \<open>
  \<open>libsecurity/src/md5.cpp\<close>. The macros \<open>FF\<close>, \<open>GG\<close>, \<open>HH\<close> and \<open>II\<close> are called with the four variables rotated
  from call to call; here the tuple is rotated. A buffer handed to \<open>MD5_Update\<close> has \<open>len\<close> bytes, and
  \<open>len\<close> is at most \<open>2 ^ 32 - 64\<close>, so that \<open>i + 63\<close> does not wrap around.
\<close>

unbundle bit_operations_syntax

type_synonym md5_word = "32 word"
type_synonym md5_state = "md5_word \<times> md5_word \<times> md5_word \<times> md5_word"

record MD5Context =
  md5_state :: md5_state
  md5_count :: "md5_word \<times> md5_word"
  md5_buffer :: "byte list"

section \<open>One block\<close>

datatype md5_op = F_op | G_op | H_op | I_op

fun md5_fun :: "md5_op \<Rightarrow> md5_word \<Rightarrow> md5_word \<Rightarrow> md5_word \<Rightarrow> md5_word" where
  "md5_fun F_op x y z = (x AND y) OR (NOT x AND z)"
| "md5_fun G_op x y z = (x AND z) OR (y AND NOT z)"
| "md5_fun H_op x y z = x XOR y XOR z"
| "md5_fun I_op x y z = y XOR (x OR NOT z)"

definition ROTATE_LEFT :: "md5_word \<Rightarrow> nat \<Rightarrow> md5_word" where
  "ROTATE_LEFT x n = push_bit n x OR drop_bit (32 - n) x"

fun md5_step :: "md5_word list \<Rightarrow> md5_op \<times> nat \<times> nat \<times> md5_word \<Rightarrow> md5_state \<Rightarrow> md5_state" where
  "md5_step x (f, k, s, ac) (a, b, c, d) =
     (let a = a + (md5_fun f b c d + x ! k + ac); a = ROTATE_LEFT a s; a = a + b in (d, a, b, c))"

definition md5_steps :: "(md5_op \<times> nat \<times> nat \<times> md5_word) list" where
  "md5_steps = [
    (F_op, 0, 7, 0xd76aa478), (F_op, 1, 12, 0xe8c7b756), (F_op, 2, 17, 0x242070db), (F_op, 3, 22, 0xc1bdceee),
    (F_op, 4, 7, 0xf57c0faf), (F_op, 5, 12, 0x4787c62a), (F_op, 6, 17, 0xa8304613), (F_op, 7, 22, 0xfd469501),
    (F_op, 8, 7, 0x698098d8), (F_op, 9, 12, 0x8b44f7af), (F_op, 10, 17, 0xffff5bb1), (F_op, 11, 22, 0x895cd7be),
    (F_op, 12, 7, 0x6b901122), (F_op, 13, 12, 0xfd987193), (F_op, 14, 17, 0xa679438e), (F_op, 15, 22, 0x49b40821),
    (G_op, 1, 5, 0xf61e2562), (G_op, 6, 9, 0xc040b340), (G_op, 11, 14, 0x265e5a51), (G_op, 0, 20, 0xe9b6c7aa),
    (G_op, 5, 5, 0xd62f105d), (G_op, 10, 9, 0x2441453), (G_op, 15, 14, 0xd8a1e681), (G_op, 4, 20, 0xe7d3fbc8),
    (G_op, 9, 5, 0x21e1cde6), (G_op, 14, 9, 0xc33707d6), (G_op, 3, 14, 0xf4d50d87), (G_op, 8, 20, 0x455a14ed),
    (G_op, 13, 5, 0xa9e3e905), (G_op, 2, 9, 0xfcefa3f8), (G_op, 7, 14, 0x676f02d9), (G_op, 12, 20, 0x8d2a4c8a),
    (H_op, 5, 4, 0xfffa3942), (H_op, 8, 11, 0x8771f681), (H_op, 11, 16, 0x6d9d6122), (H_op, 14, 23, 0xfde5380c),
    (H_op, 1, 4, 0xa4beea44), (H_op, 4, 11, 0x4bdecfa9), (H_op, 7, 16, 0xf6bb4b60), (H_op, 10, 23, 0xbebfbc70),
    (H_op, 13, 4, 0x289b7ec6), (H_op, 0, 11, 0xeaa127fa), (H_op, 3, 16, 0xd4ef3085), (H_op, 6, 23, 0x4881d05),
    (H_op, 9, 4, 0xd9d4d039), (H_op, 12, 11, 0xe6db99e5), (H_op, 15, 16, 0x1fa27cf8), (H_op, 2, 23, 0xc4ac5665),
    (I_op, 0, 6, 0xf4292244), (I_op, 7, 10, 0x432aff97), (I_op, 14, 15, 0xab9423a7), (I_op, 5, 21, 0xfc93a039),
    (I_op, 12, 6, 0x655b59c3), (I_op, 3, 10, 0x8f0ccc92), (I_op, 10, 15, 0xffeff47d), (I_op, 1, 21, 0x85845dd1),
    (I_op, 8, 6, 0x6fa87e4f), (I_op, 15, 10, 0xfe2ce6e0), (I_op, 6, 15, 0xa3014314), (I_op, 13, 21, 0x4e0811a1),
    (I_op, 4, 6, 0xf7537e82), (I_op, 11, 10, 0xbd3af235), (I_op, 2, 15, 0x2ad7d2bb), (I_op, 9, 21, 0xeb86d391)]"

definition MD5_Encode :: "md5_word list \<Rightarrow> byte list" where
  "MD5_Encode input = concat (map (\<lambda>w. [ucast (w AND 0xff), ucast (drop_bit 8 w AND 0xff),
     ucast (drop_bit 16 w AND 0xff), ucast (drop_bit 24 w AND 0xff)]) input)"

definition MD5_Decode :: "byte list \<Rightarrow> nat \<Rightarrow> md5_word list" where
  "MD5_Decode input n = map (\<lambda>i. ucast (input ! (4 * i)) OR push_bit 8 (ucast (input ! (4 * i + 1))) OR
     push_bit 16 (ucast (input ! (4 * i + 2))) OR push_bit 24 (ucast (input ! (4 * i + 3)))) [0..<n div 4]"

definition MD5_Transform :: "md5_state \<Rightarrow> byte list \<Rightarrow> md5_state" where
  "MD5_Transform state block =
     (case fold (md5_step (MD5_Decode block 64)) md5_steps state of (a, b, c, d) \<Rightarrow>
        case state of (s0, s1, s2, s3) \<Rightarrow> (s0 + a, s1 + b, s2 + c, s3 + d))"

section \<open>A message\<close>

definition MD5_Init :: MD5Context where
  "MD5_Init = \<lparr>md5_state = (0x67452301, 0xefcdab89, 0x98badcfe, 0x10325476), md5_count = (0, 0), md5_buffer = replicate 64 0\<rparr>"

text \<open>\<open>memcpy\<close> into the buffer.\<close>

definition copy_at :: "nat \<Rightarrow> byte list \<Rightarrow> byte list \<Rightarrow> byte list" where
  "copy_at i src dst = take i dst @ src @ drop (i + length src) dst"

function transform_loop :: "byte list \<Rightarrow> nat \<Rightarrow> md5_state \<Rightarrow> nat \<times> md5_state" where
  "transform_loop buf i state =
     (if i + 63 < length buf then transform_loop buf (i + 64) (MD5_Transform state (take 64 (drop i buf))) else (i, state))"
  by auto
termination by (relation "measure (\<lambda>(buf, i, state). length buf - i)") auto

declare transform_loop.simps [simp del]

definition count_index :: "md5_word \<Rightarrow> nat" where
  "count_index c0 = unat (drop_bit 3 c0 AND 0x3f)"

definition MD5_Update :: "byte list \<Rightarrow> MD5Context \<Rightarrow> MD5Context" where
  "MD5_Update buf context =
     (let len = word_of_nat (length buf) :: md5_word;
          (c0, c1) = md5_count context;
          index = count_index c0;
          c0 = c0 + push_bit 3 len;
          c1 = (if c0 < push_bit 3 len then c1 + 1 else c1);
          c1 = c1 + drop_bit 29 len;
          partLen = 64 - index
      in if length buf \<ge> partLen then
           let buffer = copy_at index (take partLen buf) (md5_buffer context);
               state = MD5_Transform (md5_state context) buffer;
               (i, state) = transform_loop buf partLen state
           in \<lparr>md5_state = state, md5_count = (c0, c1), md5_buffer = copy_at 0 (drop i buf) buffer\<rparr>
         else context\<lparr>md5_count := (c0, c1), md5_buffer := copy_at index buf (md5_buffer context)\<rparr>)"

definition PADDING :: "byte list" where
  "PADDING = 0x80 # replicate 63 0"

definition state_words :: "md5_state \<Rightarrow> md5_word list" where
  "state_words s = (case s of (a, b, c, d) \<Rightarrow> [a, b, c, d])"

definition MD5_Final :: "MD5Context \<Rightarrow> byte list" where
  "MD5_Final context =
     (let bits = MD5_Encode [fst (md5_count context), snd (md5_count context)];
          index = count_index (fst (md5_count context));
          padLen = (if index < 56 then 56 - index else 120 - index);
          context = MD5_Update (take padLen PADDING) context;
          context = MD5_Update bits context
      in MD5_Encode (state_words (md5_state context)))"

text \<open>\<open>sprintf\<close> with \<open>%x\<close> of one half of a byte.\<close>

definition hex_digit :: "byte \<Rightarrow> char" where
  "hex_digit n = ''0123456789abcdef'' ! unat n"

definition MD5_Calculate :: "byte list \<Rightarrow> string" where
  "MD5_Calculate pContent =
     (let buff = MD5_Final (MD5_Update pContent MD5_Init)
      in concat (map (\<lambda>b. [hex_digit (drop_bit 4 (b AND 0xF0)), hex_digit (b AND 0x0F)]) buff))"

text \<open>\<open>EncryptPass\<close> of \<open>security.cpp\<close>: a status or 32 characters.\<close>

definition EncryptPass :: "byte list option \<Rightarrow> int + string" where
  "EncryptPass pInData =
     (case pInData of
        None \<Rightarrow> Inl (- 1)
      | Some inb \<Rightarrow> if length inb = 0 then Inl (- 1) else Inr (MD5_Calculate inb))"

section \<open>The standard\<close>

text \<open>The digest as RFC 1321 writes it, independently of the code: the table \<open>T\<close> of 64 constants, the order in which the words of a
  block are read and the rotations are given by round (\<open>i div 16\<close>) and step, a word is its four bytes with the low-order
  byte first, a step replaces \<open>a\<close> by \<open>b + ((a + f b c d + X[k] + T[i]) <<< s)\<close>.\<close>

definition rfc_T :: "md5_word list" where
  "rfc_T = [
    0xd76aa478, 0xe8c7b756, 0x242070db, 0xc1bdceee, 0xf57c0faf, 0x4787c62a, 0xa8304613, 0xfd469501,
    0x698098d8, 0x8b44f7af, 0xffff5bb1, 0x895cd7be, 0x6b901122, 0xfd987193, 0xa679438e, 0x49b40821,
    0xf61e2562, 0xc040b340, 0x265e5a51, 0xe9b6c7aa, 0xd62f105d, 0x2441453, 0xd8a1e681, 0xe7d3fbc8,
    0x21e1cde6, 0xc33707d6, 0xf4d50d87, 0x455a14ed, 0xa9e3e905, 0xfcefa3f8, 0x676f02d9, 0x8d2a4c8a,
    0xfffa3942, 0x8771f681, 0x6d9d6122, 0xfde5380c, 0xa4beea44, 0x4bdecfa9, 0xf6bb4b60, 0xbebfbc70,
    0x289b7ec6, 0xeaa127fa, 0xd4ef3085, 0x4881d05, 0xd9d4d039, 0xe6db99e5, 0x1fa27cf8, 0xc4ac5665,
    0xf4292244, 0x432aff97, 0xab9423a7, 0xfc93a039, 0x655b59c3, 0x8f0ccc92, 0xffeff47d, 0x85845dd1,
    0x6fa87e4f, 0xfe2ce6e0, 0xa3014314, 0x4e0811a1, 0xf7537e82, 0xbd3af235, 0x2ad7d2bb, 0xeb86d391]"

definition rfc_shift :: "nat \<Rightarrow> nat" where
  "rfc_shift i = [[7, 12, 17, 22], [5, 9, 14, 20], [4, 11, 16, 23], [6, 10, 15, 21]] ! (i div 16) ! (i mod 4)"

definition rfc_index :: "nat \<Rightarrow> nat" where
  "rfc_index i = [i, 5 * i + 1, 3 * i + 5, 7 * i] ! (i div 16) mod 16"

definition rfc_fun :: "nat \<Rightarrow> md5_word \<Rightarrow> md5_word \<Rightarrow> md5_word \<Rightarrow> md5_word" where
  "rfc_fun i x y z = [x AND y OR NOT x AND z, x AND z OR y AND NOT z, x XOR y XOR z, y XOR (x OR NOT z)] ! (i div 16)"

definition rfc_word :: "byte list \<Rightarrow> md5_word" where
  "rfc_word bs = word_of_nat (horner_sum unat 256 bs)"

fun rfc_step :: "md5_word list \<Rightarrow> nat \<Rightarrow> md5_state \<Rightarrow> md5_state" where
  "rfc_step X i (a, b, c, d) = (d, b + word_rotl (rfc_shift i) (a + rfc_fun i b c d + X ! rfc_index i + rfc_T ! i), b, c)"

definition rfc_compress :: "byte list \<Rightarrow> md5_state \<Rightarrow> md5_state" where
  "rfc_compress block s =
     (let X = map (\<lambda>j. rfc_word (take 4 (drop (4 * j) block))) [0..<16];
          (a, b, c, d) = s;
          (a', b', c', d') = fold (rfc_step X) [0..<64] s
      in (a + a', b + b', c + c', d + d'))"

function rfc_blocks :: "md5_state \<Rightarrow> byte list \<Rightarrow> md5_state" where
  "rfc_blocks s bs = (if length bs < 64 then s else rfc_blocks (rfc_compress (take 64 bs) s) (drop 64 bs))"
  by auto
termination by (relation "measure (\<lambda>(s, bs). length bs)") auto

declare rfc_blocks.simps [simp del]

definition rfc_init :: md5_state where
  "rfc_init = (rfc_word [0x01, 0x23, 0x45, 0x67], rfc_word [0x89, 0xab, 0xcd, 0xef],
     rfc_word [0xfe, 0xdc, 0xba, 0x98], rfc_word [0x76, 0x54, 0x32, 0x10])"

definition length_64 :: "nat \<Rightarrow> byte list" where
  "length_64 n = map (\<lambda>i. word_of_nat (8 * n div 256 ^ i)) [0..<8]"

text \<open>A single 1 bit, then 0 bits up to 56 bytes modulo 64, then the length in bits.\<close>

definition md5_pad :: "byte list \<Rightarrow> byte list" where
  "md5_pad d = d @ [0x80] @ replicate ((119 - length d mod 64) mod 64) 0 @ length_64 (length d)"

definition rfc_bytes :: "md5_word \<Rightarrow> byte list" where
  "rfc_bytes w = map (\<lambda>i. word_of_nat (unat w div 256 ^ i)) [0..<4]"

definition md5_reference :: "byte list \<Rightarrow> byte list" where
  "md5_reference d = (case rfc_blocks rfc_init (md5_pad d) of (A, B, C, D) \<Rightarrow> rfc_bytes A @ rfc_bytes B @ rfc_bytes C @ rfc_bytes D)"

text \<open>A byte in lower-case hexadecimal.\<close>

definition hex_of_byte :: "byte \<Rightarrow> string" where
  "hex_of_byte b = [''0123456789abcdef'' ! (unat b div 16), ''0123456789abcdef'' ! (unat b mod 16)]"

section \<open>The steps of the code are those of the standard\<close>

definition rfc_op :: "nat \<Rightarrow> md5_op" where
  "rfc_op i = [F_op, G_op, H_op, I_op] ! (i div 16)"

lemma md5_steps_rfc: "md5_steps = map (\<lambda>i. (rfc_op i, rfc_index i, rfc_shift i, rfc_T ! i)) [0..<64]"
  by code_simp

lemma rotate_left_rotl: "0 < n \<Longrightarrow> n < 32 \<Longrightarrow> ROTATE_LEFT x n = word_rotl n x"
proof (rule bit_word_eqI)
  fix m assume n: "0 < n" "n < 32" and "m < LENGTH(32)"
  then have m: "m < 32" by simp
  show "bit (ROTATE_LEFT x n) m = bit (word_rotl n x) m"
  proof (cases "m < n")
    case True
    have "bit (word_rotl n x) m = bit x ((m + (32 - n)) mod 32)" using n m by (simp add: bit_word_rotl_iff)
    also have "(m + (32 - n)) mod 32 = 32 - n + m" using True n by simp
    finally show ?thesis using True by (simp only: ROTATE_LEFT_def bit_or_iff bit_push_bit_iff bit_drop_bit_eq comp_def) simp
  next
    case False
    have "bit (word_rotl n x) m = bit x ((m + (32 - n)) mod 32)" using n m by (simp add: bit_word_rotl_iff)
    also have "(m + (32 - n)) mod 32 = m - n" using False n m by (simp add: mod_if)
    finally have "bit (word_rotl n x) m = bit x (m - n)" .
    moreover have "\<not> bit x (32 - n + m)" using False bit_imp_le_length [of x "32 - n + m"] by auto
    ultimately show ?thesis using False m by (simp add: ROTATE_LEFT_def bit_simps)
  qed
qed

lemma or_shifted: "(ucast (b :: byte) :: md5_word) OR push_bit 8 y = ucast b + 256 * y"
proof -
  have "ucast b AND push_bit 8 y = (0 :: md5_word)"
    by (rule bit_word_eqI) (use bit_imp_le_length [of b] in \<open>force simp: bit_simps\<close>)
  then show ?thesis by (simp add: push_bit_eq_mult mult.commute flip: disjunctive_add_eq_or)
qed

lemma word_of_four:
  "ucast a OR push_bit 8 (ucast b) OR push_bit 16 (ucast c) OR push_bit 24 (ucast d) = rfc_word [a, b, c, d :: byte]"
proof -
  have "ucast a OR push_bit 8 (ucast b) OR push_bit 16 (ucast c) OR push_bit 24 (ucast d) =
    (ucast a OR push_bit 8 (ucast b OR push_bit 8 (ucast c OR push_bit 8 (ucast d))) :: md5_word)"
    by (simp add: push_bit_or or.assoc)
  also have "\<dots> = rfc_word [a, b, c, d]"
    unfolding or_shifted by (simp add: rfc_word_def)
  finally show ?thesis .
qed

lemma byte_of_count:
  "k \<le> 24 \<Longrightarrow> (ucast (drop_bit k (word_of_nat n :: md5_word) AND 0xff) :: byte) = word_of_nat (n div 2 ^ k)"
proof -
  assume k: "k \<le> 24"
  have m: "(w :: md5_word) AND 0xff = take_bit 8 w" for w by (simp add: take_bit_eq_mask mask_eq_decr_exp)
  have "unat (ucast (take_bit 8 (drop_bit k (word_of_nat n :: md5_word))) :: byte) = take_bit 8 (drop_bit k (take_bit 32 n))"
    by (simp add: unsigned_ucast_eq unsigned_take_bit_eq unsigned_drop_bit_eq unsigned_of_nat)
  also have "\<dots> = take_bit 8 (drop_bit k n)"
    using k by (simp add: drop_bit_take_bit)
  also have "\<dots> = unat (word_of_nat (drop_bit k n) :: byte)" by (simp add: unsigned_of_nat)
  finally show ?thesis unfolding m drop_bit_eq_div [symmetric] by (simp only: word_unat_eq_iff)
qed

lemma rfc_op_fun: "i < 64 \<Longrightarrow> md5_fun (rfc_op i) = rfc_fun i"
proof -
  assume "i < 64"
  then have "i div 16 \<in> {0, 1, 2, 3}" by auto
  then show ?thesis by (intro ext) (auto simp: rfc_op_def rfc_fun_def)
qed

lemma rfc_shift_bounds: "i < 64 \<Longrightarrow> 0 < rfc_shift i \<and> rfc_shift i < 32"
proof -
  assume "i < 64"
  then have "i div 16 \<in> {0, 1, 2, 3}" "i mod 4 \<in> {0, 1, 2, 3}" by auto
  then show ?thesis by (auto simp: rfc_shift_def)
qed

lemma md5_step_rfc:
  assumes "i < 64"
  shows "md5_step X (rfc_op i, rfc_index i, rfc_shift i, rfc_T ! i) s = rfc_step X i s"
  using rfc_shift_bounds [OF assms]
  by (cases s) (simp add: Let_def rfc_op_fun [OF assms] rotate_left_rotl ac_simps)

lemma take_four: "n + 3 < length xs \<Longrightarrow> take 4 (drop n xs) = [xs ! n, xs ! (n + 1), xs ! (n + 2), xs ! (n + 3)]"
  by (simp add: Cons_nth_drop_Suc [symmetric] numeral_eq_Suc)

lemma MD5_Decode_rfc:
  assumes "length block = 64"
  shows "MD5_Decode block 64 = map (\<lambda>j. rfc_word (take 4 (drop (4 * j) block))) [0..<16]"
proof -
  have "take 4 (drop (4 * j) block) = [block ! (4 * j), block ! (4 * j + 1), block ! (4 * j + 2), block ! (4 * j + 3)]" if "j < 16" for j
    using that assms by (intro take_four) simp
  then show ?thesis by (simp add: MD5_Decode_def word_of_four)
qed

lemma MD5_Transform_rfc: "length block = 64 \<Longrightarrow> MD5_Transform s block = rfc_compress block s"
proof -
  assume l: "length block = 64"
  have "fold (md5_step X) md5_steps s = fold (rfc_step X) [0..<64] s" for X
    unfolding md5_steps_rfc fold_map by (rule fold_cong) (simp_all add: md5_step_rfc comp_def fun_eq_iff del: md5_step.simps rfc_step.simps)
  then show ?thesis
    by (simp add: MD5_Transform_def rfc_compress_def MD5_Decode_rfc [OF l] Let_def split: prod.split)
qed

lemma MD5_Encode_rfc: "MD5_Encode (state_words s) = (case s of (A, B, C, D) \<Rightarrow> rfc_bytes A @ rfc_bytes B @ rfc_bytes C @ rfc_bytes D)"
proof -
  have "[ucast (w AND 0xff), ucast (drop_bit 8 w AND 0xff), ucast (drop_bit 16 w AND 0xff), ucast (drop_bit 24 w AND 0xff)] = rfc_bytes w" for w
    using byte_of_count [of 0 "unat w"] byte_of_count [of 8 "unat w"] byte_of_count [of 16 "unat w"] byte_of_count [of 24 "unat w"]
    by (simp add: rfc_bytes_def upt_rec)
  then show ?thesis by (cases s) (simp add: MD5_Encode_def state_words_def)
qed

section \<open>Blocks\<close>

text \<open>The message hashed block by block with the code's \<open>MD5_Transform\<close>, which is the standard's hash of the blocks.\<close>

function md5_blocks :: "md5_state \<Rightarrow> byte list \<Rightarrow> md5_state" where
  "md5_blocks s bs = (if length bs < 64 then s else md5_blocks (MD5_Transform s (take 64 bs)) (drop 64 bs))"
  by auto
termination by (relation "measure (\<lambda>(s, bs). length bs)") auto

declare md5_blocks.simps [simp del]

lemma md5_blocks_rfc: "md5_blocks s bs = rfc_blocks s bs"
  by (induction s bs rule: md5_blocks.induct) (simp add: md5_blocks.simps rfc_blocks.simps MD5_Transform_rfc)

lemma md5_blocks_short [simp]: "length bs < 64 \<Longrightarrow> md5_blocks s bs = s"
  by (simp add: md5_blocks.simps)

lemma md5_blocks_append: "64 dvd length a \<Longrightarrow> md5_blocks s (a @ b) = md5_blocks (md5_blocks s a) b"
proof (induction s a rule: md5_blocks.induct)
  case (1 s a)
  show ?case
  proof (cases "length a < 64")
    case True
    with "1.prems" have "a = []" by (auto dest: dvd_imp_le)
    then show ?thesis by simp
  next
    case False
    then have "64 dvd length (drop 64 a)" using "1.prems" by (simp add: dvd_diff_nat)
    with "1.IH" False have "md5_blocks (MD5_Transform s (take 64 a)) (drop 64 a @ b) = md5_blocks (md5_blocks (MD5_Transform s (take 64 a)) (drop 64 a)) b"
      by simp
    with False show ?thesis by (simp add: md5_blocks.simps [of s])
  qed
qed

text \<open>The bytes that do not fill a block yet.\<close>

definition pending :: "byte list \<Rightarrow> byte list" where
  "pending bs = drop (64 * (length bs div 64)) bs"

lemma length_pending [simp]: "length (pending bs) = length bs mod 64"
  by (simp add: pending_def minus_mult_div_eq_mod)

lemma whole_pending: "take (64 * (length bs div 64)) bs @ pending bs = bs"
  by (simp add: pending_def)

lemma whole_length: "length (take (64 * (length bs div 64)) bs) = 64 * (length bs div 64)"
  by simp

lemma md5_blocks_pending: "md5_blocks s (a @ b) = md5_blocks (md5_blocks s a) (pending a @ b)"
proof -
  let ?q = "take (64 * (length a div 64)) a"
  have d: "64 dvd length ?q" unfolding whole_length by simp
  have "md5_blocks s a = md5_blocks s (?q @ pending a)" by (simp only: whole_pending)
  also have "\<dots> = md5_blocks s ?q" by (simp add: md5_blocks_append [OF d])
  finally have "md5_blocks s ?q = md5_blocks s a" by simp
  moreover have "md5_blocks s (a @ b) = md5_blocks s (?q @ pending a @ b)"
    by (simp only: whole_pending append_assoc [symmetric])
  ultimately show ?thesis by (simp add: md5_blocks_append [OF d])
qed

lemma transform_loop_blocks:
  "i \<le> length buf \<Longrightarrow> transform_loop buf i s = (i + 64 * ((length buf - i) div 64), md5_blocks s (drop i buf))"
proof (induction buf i s rule: transform_loop.induct)
  case (1 buf i s)
  show ?case
  proof (cases "i + 63 < length buf")
    case True
    have "64 + 64 * ((length buf - (i + 64)) div 64) = 64 * ((length buf - i) div 64)"
      using True by (simp add: div_if [of "length buf - i"])
    moreover have "md5_blocks s (drop i buf) = md5_blocks (MD5_Transform s (take 64 (drop i buf))) (drop 64 (drop i buf))"
    proof -
      have "\<not> length (drop i buf) < 64" using True by simp
      then show ?thesis by (simp only: md5_blocks.simps [of s "drop i buf"] if_False)
    qed
    ultimately show ?thesis using "1.IH" True by (simp add: transform_loop.simps [of buf i] add.commute)
  next
    case False
    then show ?thesis using "1.prems" by (simp add: transform_loop.simps)
  qed
qed

section \<open>The context after some bytes\<close>

definition md5_init :: md5_state where
  "md5_init = (0x67452301, 0xefcdab89, 0x98badcfe, 0x10325476)"

definition md5_absorbed :: "byte list \<Rightarrow> MD5Context \<Rightarrow> bool" where
  "md5_absorbed bs ctx \<longleftrightarrow> md5_state ctx = md5_blocks md5_init bs \<and>
     length (md5_buffer ctx) = 64 \<and> take (length bs mod 64) (md5_buffer ctx) = pending bs \<and>
     md5_count ctx = (word_of_nat (8 * length bs), word_of_nat (8 * length bs div 2 ^ 32))"

lemma md5_init_rfc: "rfc_init = md5_init"
  by (simp add: rfc_init_def md5_init_def rfc_word_def)

lemma md5_reference_blocks: "md5_reference d = MD5_Encode (state_words (md5_blocks md5_init (md5_pad d)))"
  by (simp add: md5_reference_def md5_init_rfc md5_blocks_rfc MD5_Encode_rfc)

lemma absorbed_init: "md5_absorbed [] MD5_Init"
  by (simp add: md5_absorbed_def MD5_Init_def md5_init_def pending_def)

lemma count_index_length: "count_index (word_of_nat (8 * n)) = n mod 64"
proof -
  have "drop_bit 3 (w :: md5_word) AND 0x3f = take_bit 6 (drop_bit 3 w)" for w
    by (simp add: take_bit_eq_mask mask_eq_decr_exp)
  then have "count_index (word_of_nat (8 * n)) = take_bit 6 (drop_bit 3 (take_bit 32 (8 * n)))"
    by (simp add: count_index_def unsigned_take_bit_eq unsigned_drop_bit_eq unsigned_of_nat del: of_nat_mult)
  also have "\<dots> = (8 * n mod 2 ^ 32) div 8 mod 64" by (simp add: take_bit_eq_mod drop_bit_eq_div)
  also have "(8 * n mod 2 ^ 32) div 8 = n mod 2 ^ 29"
    using mult_mod_right [of 8 n "2 ^ 29"] by simp
  also have "n mod 2 ^ 29 mod 64 = n mod (64 :: nat)" by (simp add: mod_mod_cancel)
  finally show ?thesis .
qed

lemma carry:
  fixes a b c :: nat
  assumes "0 < c"
  shows "(a + b) div c = a div c + b div c + (if (a + b) mod c < b mod c then 1 else 0)"
proof (cases "a mod c + b mod c < c")
  case True
  then have "(a + b) mod c = a mod c + b mod c" by (metis mod_add_eq mod_less)
  with True show ?thesis unfolding div_add1_eq [of a b c] by simp
next
  case False
  have lt: "a mod c < c" "b mod c < c" using assms by simp_all
  have "(a + b) mod c = (a mod c + b mod c) mod c" by (simp add: mod_add_eq)
  also have "\<dots> = (a mod c + b mod c - c) mod c" using False by (metis le_mod_geq not_less)
  also have "\<dots> = a mod c + b mod c - c" by (rule mod_less) (use lt False in linarith)
  finally have "(a + b) mod c < b mod c" using lt False by linarith
  moreover have "(a mod c + b mod c) div c = 1" 
  proof -
    obtain r where r: "a mod c + b mod c = c + r" using False by (metis le_Suc_ex not_less)
    then have "r < c" using lt by linarith
    then show ?thesis using assms unfolding r by (subst div_add_self1) simp_all
  qed
  ultimately show ?thesis unfolding div_add1_eq [of a b c] by simp
qed

lemma count_add:
  fixes n m :: nat
  assumes "m < 2 ^ 32"
  defines "c0 \<equiv> word_of_nat (8 * n) + push_bit 3 (word_of_nat m) :: md5_word"
  shows "c0 = word_of_nat (8 * (n + m))"
    and "(if word_of_nat (8 * (n + m)) < push_bit 3 (word_of_nat m :: md5_word) then word_of_nat (8 * n div 2 ^ 32) + 1 else word_of_nat (8 * n div 2 ^ 32))
      + drop_bit 29 (word_of_nat m :: md5_word) = (word_of_nat (8 * (n + m) div 2 ^ 32) :: md5_word)"
proof -
  have l: "push_bit 3 (word_of_nat m :: md5_word) = word_of_nat (8 * m)"
    by (simp add: push_bit_eq_mult)
  then show c0: "c0 = word_of_nat (8 * (n + m))" by (simp add: c0_def algebra_simps)
  let ?W = "2 ^ 32 :: nat"
  have u: "unat (word_of_nat k :: md5_word) = k mod ?W" for k by (simp add: unat_of_nat)
  have lt: "(word_of_nat (8 * (n + m)) :: md5_word) < push_bit 3 (word_of_nat m) \<longleftrightarrow> 8 * (n + m) mod ?W < 8 * m mod ?W"
    unfolding l by (simp only: word_less_nat_alt u)
  have dr: "drop_bit 29 (word_of_nat m :: md5_word) = word_of_nat (8 * m div ?W)"
  proof -
    have "unat (drop_bit 29 (word_of_nat m :: md5_word)) = m div 2 ^ 29"
      using assms(1) by (simp add: drop_bit_eq_div unat_div u)
    also have "\<dots> = 8 * m div ?W" by simp
    finally have "unat (drop_bit 29 (word_of_nat m :: md5_word)) = 8 * m div ?W" .
    from arg_cong [OF this, of "word_of_nat :: nat \<Rightarrow> md5_word"] show ?thesis by simp
  qed
  have sum: "8 * (n + m) div ?W = 8 * n div ?W + 8 * m div ?W + (if 8 * (n + m) mod ?W < 8 * m mod ?W then 1 else 0)"
    using carry [of ?W "8 * n" "8 * m"] by (simp only: distrib_left) simp
  show "(if word_of_nat (8 * (n + m)) < push_bit 3 (word_of_nat m :: md5_word) then word_of_nat (8 * n div 2 ^ 32) + 1 else word_of_nat (8 * n div 2 ^ 32))
      + drop_bit 29 (word_of_nat m :: md5_word) = (word_of_nat (8 * (n + m) div 2 ^ 32) :: md5_word)"
    unfolding lt dr sum by simp
qed

lemma copy_at_facts:
  "i + length src \<le> length dst \<Longrightarrow> length (copy_at i src dst) = length dst"
  "i \<le> length dst \<Longrightarrow> take (i + length src) (copy_at i src dst) = take i dst @ src"
  by (simp_all add: copy_at_def)

lemma pending_append_short: "length bs mod 64 + length xs < 64 \<Longrightarrow> pending (bs @ xs) = pending bs @ xs"
proof -
  assume a: "length bs mod 64 + length xs < 64"
  then have "(length bs + length xs) div 64 = length bs div 64" by (simp add: div_add1_eq [of "length bs" "length xs"])
  moreover have "64 * (length bs div 64) \<le> length bs" by simp
  ultimately show ?thesis by (simp add: pending_def)
qed

lemma pending_append_long:
  assumes "64 - length bs mod 64 \<le> length xs"
  shows "pending (bs @ xs) = drop (64 - length bs mod 64 + 64 * ((length xs - (64 - length bs mod 64)) div 64)) xs"
proof -
  define q r where "q = length bs div 64" and "r = length bs mod 64"
  have n: "length bs = 64 * q + r" "r < 64" by (simp_all add: q_def r_def)
  define m where "m = length xs - (64 - r)"
  have xs: "length xs = 64 - r + m" using assms by (simp add: m_def r_def)
  have sum: "length bs + length xs = m + (q + 1) * 64" using n xs by simp
  have "64 * ((length bs + length xs) div 64) = length bs + (64 - r + 64 * (m div 64))"
  proof -
    have "(m + (q + 1) * 64) div 64 = q + 1 + m div 64" by (rule div_mult_self1) simp
    then show ?thesis unfolding sum using n by simp
  qed
  then have "drop (64 * ((length bs + length xs) div 64)) (bs @ xs) = drop (64 - r + 64 * (m div 64)) xs" by simp
  then show ?thesis by (simp add: pending_def flip: m_def r_def)
qed

text \<open>However a message is cut, the context after its pieces is the one after the whole: the blocks hashed so far, the
  bytes that fill no block yet and the 64-bit count of bits.\<close>

lemma update_absorbs:
  assumes abs: "md5_absorbed bs ctx" and len: "length xs \<le> 2 ^ 32 - 64"
  shows "md5_absorbed (bs @ xs) (MD5_Update xs ctx)"
proof -
  define r where "r = length bs mod 64"
  have r: "r < 64" by (simp add: r_def)
  have st: "md5_state ctx = md5_blocks md5_init bs" "length (md5_buffer ctx) = 64" "take r (md5_buffer ctx) = pending bs"
    and cnt: "md5_count ctx = (word_of_nat (8 * length bs), word_of_nat (8 * length bs div 2 ^ 32))"
    using abs by (simp_all add: md5_absorbed_def r_def)
  have lt: "length xs < 2 ^ 32" using len by simp
  note count = count_add [OF lt, of "length bs"]
  have idx: "count_index (word_of_nat (8 * length bs)) = r" by (simp only: count_index_length r_def)
  let ?c = "(word_of_nat (8 * length (bs @ xs)), word_of_nat (8 * length (bs @ xs) div 2 ^ 32)) :: md5_word \<times> md5_word"
  show ?thesis
  proof (cases "64 - r \<le> length xs")
    case True
    define i where "i = 64 - r + 64 * ((length xs - (64 - r)) div 64)"
    define buf where "buf = copy_at r (take (64 - r) xs) (md5_buffer ctx)"
    have buf: "buf = pending bs @ take (64 - r) xs" using st True r by (simp add: buf_def copy_at_def)
    have lb: "length buf = 64" using True r by (simp add: buf r_def [symmetric])
    let ?s = "md5_blocks (MD5_Transform (md5_state ctx) buf) (drop (64 - r) xs)"
    have upd: "MD5_Update xs ctx = \<lparr>md5_state = ?s, md5_count = ?c, md5_buffer = copy_at 0 (drop i xs) buf\<rparr>"
      by (simp only: MD5_Update_def cnt idx Let_def prod.case count length_append if_P [OF True] buf_def [symmetric]
          transform_loop_blocks [OF True] i_def [symmetric])
    have "md5_blocks md5_init (bs @ xs) = md5_blocks (md5_state ctx) (pending bs @ xs)"
      by (simp add: md5_blocks_pending [of _ bs] st(1))
    also have "pending bs @ xs = buf @ drop (64 - r) xs" by (simp add: buf)
    also have "md5_blocks (md5_state ctx) (buf @ drop (64 - r) xs) = ?s"
      using lb by (subst md5_blocks.simps) simp
    finally have s: "md5_blocks md5_init (bs @ xs) = ?s" .
    have p: "pending (bs @ xs) = drop i xs" unfolding i_def r_def by (rule pending_append_long) (use True in \<open>simp add: r_def\<close>)
    then have lp: "length (drop i xs) = length (bs @ xs) mod 64" by (metis length_pending)
    then have "length (drop i xs) < 64" by simp
    then have "length (copy_at 0 (drop i xs) buf) = 64" "take (length (bs @ xs) mod 64) (copy_at 0 (drop i xs) buf) = drop i xs"
      using lb copy_at_facts [where i = 0 and src = "drop i xs" and dst = buf] lp by simp_all
    then show ?thesis by (simp add: md5_absorbed_def upd s p del: length_append)
  next
    case False
    then have short: "r + length xs < 64" by simp
    have upd: "MD5_Update xs ctx = ctx\<lparr>md5_count := ?c, md5_buffer := copy_at r xs (md5_buffer ctx)\<rparr>"
      by (simp only: MD5_Update_def cnt idx Let_def prod.case count length_append if_not_P [OF False])
    have p: "pending (bs @ xs) = pending bs @ xs" using short by (simp add: pending_append_short r_def)
    have lm: "length (bs @ xs) mod 64 = r + length xs" using arg_cong [OF p, of length] by (simp add: r_def)
    have "md5_blocks md5_init (bs @ xs) = md5_state ctx"
      using short by (simp add: md5_blocks_pending [of _ bs] st(1) r_def)
    moreover have "length (copy_at r xs (md5_buffer ctx)) = 64" "take (r + length xs) (copy_at r xs (md5_buffer ctx)) = pending bs @ xs"
      using copy_at_facts [where i = r and src = xs and dst = "md5_buffer ctx"] short st(2,3) by simp_all
    ultimately show ?thesis by (simp add: md5_absorbed_def upd lm p del: length_append)
  qed
qed

section \<open>The digest\<close>

lemma encoded_number: "MD5_Encode [word_of_nat n, word_of_nat (n div 2 ^ 32)] = map (\<lambda>i. word_of_nat (n div 256 ^ i)) [0..<8]"
proof -
  have d: "n div 2 ^ 32 div 2 ^ k = n div 2 ^ (32 + k)" for k
    by (simp only: div_mult2_eq [symmetric] power_add)
  show ?thesis
    using byte_of_count [of 0 n] byte_of_count [of 8 n] byte_of_count [of 16 n] byte_of_count [of 24 n]
      byte_of_count [of 0 "n div 2 ^ 32"] byte_of_count [of 8 "n div 2 ^ 32"] byte_of_count [of 16 "n div 2 ^ 32"]
      byte_of_count [of 24 "n div 2 ^ 32"] d [of 8] d [of 16] d [of 24]
    by (simp add: MD5_Encode_def upt_rec)
qed

lemma encoded_count: "MD5_Encode [word_of_nat (8 * n), word_of_nat (8 * n div 2 ^ 32)] = length_64 n"
  unfolding length_64_def by (rule encoded_number)

lemma take_padding: "1 \<le> p \<Longrightarrow> p \<le> 64 \<Longrightarrow> take p PADDING = 0x80 # replicate (p - 1) 0"
  by (cases p) (simp_all add: PADDING_def)

lemma zeros_short: "r < 56 \<Longrightarrow> (119 - r) mod 64 = 55 - (r :: nat)"
proof -
  assume r: "r < 56"
  then have "119 - r = 55 - r + 64" by simp
  then have "(119 - r) mod 64 = (55 - r) mod 64" by (simp only: mod_add_self2)
  then show ?thesis by simp
qed

lemma md5_final_reference:
  assumes "md5_absorbed d ctx"
  shows "MD5_Final ctx = md5_reference d"
proof -
  let ?r = "length d mod 64"
  let ?pad = "if ?r < 56 then 56 - ?r else 120 - ?r"
  have cnt: "md5_count ctx = (word_of_nat (8 * length d), word_of_nat (8 * length d div 2 ^ 32))"
    using assms by (simp add: md5_absorbed_def)
  have bits: "MD5_Encode [fst (md5_count ctx), snd (md5_count ctx)] = length_64 (length d)"
    unfolding cnt fst_conv snd_conv by (rule encoded_count)
  have idx: "count_index (fst (md5_count ctx)) = ?r" unfolding cnt fst_conv by (rule count_index_length)
  have padding: "take ?pad PADDING = [0x80] @ replicate ((119 - ?r) mod 64) 0"
  proof (cases "?r < 56")
    case True
    with take_padding [of "56 - ?r"] zeros_short [of ?r] show ?thesis by simp
  next
    case False
    have "?r < 64" by simp
    with False have "(119 - ?r) mod 64 = 120 - ?r - 1" by (subst mod_less) linarith+
    with False take_padding [of "120 - ?r"] show ?thesis by simp
  qed
  have len: "length (take ?pad PADDING) \<le> 2 ^ 32 - 64" "length (length_64 (length d)) \<le> 2 ^ 32 - 64"
    by (simp_all add: PADDING_def length_64_def)
  have "md5_absorbed (d @ take ?pad PADDING @ length_64 (length d)) (MD5_Update (length_64 (length d)) (MD5_Update (take ?pad PADDING) ctx))"
    using update_absorbs [OF update_absorbs [OF assms len(1)] len(2)] by simp
  then have "md5_state (MD5_Update (length_64 (length d)) (MD5_Update (take ?pad PADDING) ctx)) = md5_blocks md5_init (md5_pad d)"
    by (simp add: md5_absorbed_def md5_pad_def padding)
  then show ?thesis 
    by (simp add: MD5_Final_def Let_def bits idx md5_reference_blocks)
qed

section \<open>Properties\<close>

lemma two_hex_digits: "[hex_digit (drop_bit 4 (b AND 0xF0)), hex_digit (b AND 0x0F)] = hex_of_byte b"
proof -
  have low: "x AND 0x0F = take_bit 4 x" for x :: byte
    by (simp add: take_bit_eq_mask mask_eq_decr_exp)
  have "drop_bit 4 (b AND 0xF0) = take_bit 4 (drop_bit 4 b)" by (simp add: low [symmetric])
  moreover have "take_bit 4 (drop_bit 4 b) = drop_bit 4 b"
    by (rule bit_word_eqI) (use bit_imp_le_length [of b] in \<open>fastforce simp: bit_simps\<close>)
  ultimately show ?thesis unfolding low
    by (simp add: hex_digit_def hex_of_byte_def unsigned_take_bit_eq unsigned_drop_bit_eq take_bit_eq_mod drop_bit_eq_div
        unat_div unat_mod)
qed

text \<open>C36: For every message of at most \<open>2 ^ 32 - 64\<close> bytes, \<open>MD5_Calculate\<close> computes the digest of RFC 1321, written as 32
  hexadecimal digits: the unrolled steps with their macros compress a block as the standard's formulas do with its own tables of constants,
  indices and rotations, and updating with a partly filled buffer, a split counter of bits and padding in two more updates hashes the
  message padded as the standard says. (At a greater length the C index \<open>i + 63\<close> or the length itself wraps around.)\<close>

theorem MD5_Calculate_reference:
  assumes "length d \<le> 2 ^ 32 - 64"
  shows "MD5_Calculate d = concat (map hex_of_byte (md5_reference d))"
proof -
  have "md5_absorbed d (MD5_Update d MD5_Init)" using update_absorbs [OF absorbed_init assms] by simp
  then have "MD5_Final (MD5_Update d MD5_Init) = md5_reference d" by (rule md5_final_reference)
  then show ?thesis by (simp only: MD5_Calculate_def Let_def two_hex_digits)
qed

theorem MD5_Calculate_reference_witness:
  "MD5_Calculate (map of_char ''abc'') = ''900150983cd24fb0d6963f7d28e17f72'' \<and>
   md5_reference (map of_char ''abc'') = [0x90, 0x01, 0x50, 0x98, 0x3c, 0xd2, 0x4f, 0xb0, 0xd6, 0x96, 0x3f, 0x7d, 0x28, 0xe1, 0x7f, 0x72]"
proof -
  have pad: "md5_pad (map of_char ''abc'') = [0x61, 0x62, 0x63, 0x80] @ replicate 52 0 @ [24, 0, 0, 0, 0, 0, 0, 0]"
    by (simp add: md5_pad_def length_64_def upt_rec)
  have block: "MD5_Decode (take 64 ([0x61, 0x62, 0x63, 0x80] @ replicate 52 0 @ [24, 0, 0, 0, 0, 0, 0, 0])) 64 =
      [0x80636261, 0, 0, 0, 0, 0, 0, 0, 0, 0, 0, 0, 0, 0, 24, 0]"
    by code_simp
  have steps: "fold (md5_step [0x80636261, 0, 0, 0, 0, 0, 0, 0, 0, 0, 0, 0, 0, 0, 24, 0]) md5_steps (0x67452301, 0xefcdab89, 0x98badcfe, 0x10325476)
      = (0x310ade8f, 0xc08226b3, 0xe484b9d8, 0x624d8cb2)"
    by code_simp
  have r: "md5_reference (map of_char ''abc'') = [0x90, 0x01, 0x50, 0x98, 0x3c, 0xd2, 0x4f, 0xb0, 0xd6, 0x96, 0x3f, 0x7d, 0x28, 0xe1, 0x7f, 0x72]"
  proof -
    have "md5_blocks (0x67452301, 0xefcdab89, 0x98badcfe, 0x10325476) (md5_pad (map of_char ''abc'')) = (0x98500190, 0xb04fd23c, 0x7d3f96d6, 0x727fe128)"
      unfolding pad by (subst md5_blocks.simps) (use block steps in \<open>simp add: MD5_Transform_def\<close>)
    then show ?thesis by (simp add: md5_reference_blocks md5_init_def state_words_def MD5_Encode_def)
  qed
  then show ?thesis using MD5_Calculate_reference [of "map of_char ''abc''"] by (simp add: hex_of_byte_def)
qed

end
