(* ===== verification/Base_Text.thy ===== *)
theory Base_Text
  imports Std_Text
begin

text \<open>
  Text functions of the servers: \<open>base/UtilPdu.cpp\<close> (numbers in addresses) and \<open>base/util.cpp\<close> (exploding,
  replacing, searching, percent encoding). A C string is the characters before its first NUL; a
  \<open>std::string\<close> may hold any character. A result \<open>None\<close> is a read outside of the string.
\<close>

unbundle bit_operations_syntax

type_synonym u32w = "32 word"

section \<open>Numbers in addresses\<close>

definition digits36 :: string where
  "digits36 = ''0123456789abcdefghijklmnopqrstuvwxyz''"

text \<open>The digits are written from the end of a buffer of 64 characters; a 32-bit number has at most seven.\<close>

function digits_loop :: "u32w \<Rightarrow> string \<Rightarrow> string" where
  "digits_loop value ptr =
     (let ptr = digits36 ! unat (value mod 36) # ptr; value = value div 36
      in if length ptr < 63 \<and> value \<noteq> 0 then digits_loop value ptr else ptr)"
  by auto
termination
  by (relation "measure (\<lambda>(value, ptr). 63 - length ptr)") auto

declare digits_loop.simps [simp del]

definition idtourl :: "u32w \<Rightarrow> string" where
  "idtourl i = CHR ''1'' # digits_loop (i * 2 + 56) []"

definition digit_of_char :: "char \<Rightarrow> u32w option" where
  "digit_of_char c =
     (let n = (of_char c :: nat)
      in if of_char CHR ''0'' \<le> n \<and> n \<le> of_char CHR ''9'' then Some (word_of_nat (n - of_char CHR ''0''))
         else if of_char CHR ''a'' \<le> n \<and> n \<le> of_char CHR ''z'' then Some (word_of_nat (n - (of_char CHR ''a'' - 10)))
         else if of_char CHR ''A'' \<le> n \<and> n \<le> of_char CHR ''Z'' then Some (word_of_nat (n - (of_char CHR ''A'' - 10)))
         else None)"

definition url_digit :: "u32w \<Rightarrow> char \<Rightarrow> u32w" where
  "url_digit number c = (case digit_of_char c of None \<Rightarrow> number | Some d \<Rightarrow> number * 36 + d)"

definition urltoid :: "string \<Rightarrow> u32w" where
  "urltoid url = drop_bit 1 (foldl url_digit 0 (drop 1 (c_str url)) - 56)"

section \<open>Exploding\<close>

text \<open>What the constructor of \<open>CStrExplode\<close> allocates entries for, and the entries it sets: a separator at the start of an entry does not
  end it, it becomes part of it.\<close>

definition item_cnt :: "string \<Rightarrow> char \<Rightarrow> nat" where
  "item_cnt str seperator = 1 + length (filter (\<lambda>c. c = seperator) (c_str str))"

fun explode_loop :: "char \<Rightarrow> string \<Rightarrow> string \<Rightarrow> string list" where
  "explode_loop sep start [] = (if start \<noteq> [] then [start] else [])"
| "explode_loop sep start (c # cs) =
     (if start \<noteq> [] \<and> c = sep then start # explode_loop sep [] cs else explode_loop sep (start @ [c]) cs)"

definition item_list :: "string \<Rightarrow> char \<Rightarrow> string list" where
  "item_list str seperator = explode_loop seperator [] (c_str str)"

section \<open>Replacing\<close>

definition replaceStr :: "string option \<Rightarrow> char \<Rightarrow> char \<Rightarrow> string option" where
  "replaceStr pSrc oldChar newChar =
     map_option (\<lambda>s. map (\<lambda>c. if c = oldChar then newChar else c) (c_str s) @ drop (length (c_str s)) s) pSrc"

text \<open>The first question mark from a position on.\<close>

fun find_mark :: "nat \<Rightarrow> string \<Rightarrow> nat option" where
  "find_mark i [] = None"
| "find_mark i (c # cs) = (if c = CHR ''?'' then Some i else find_mark (i + 1) cs)"

definition find_from :: "string \<Rightarrow> nat \<Rightarrow> nat option" where
  "find_from str begin_pos = (if begin_pos \<le> length str then find_mark begin_pos (drop begin_pos str) else None)"

definition replace_mark :: "string \<Rightarrow> string \<Rightarrow> nat \<Rightarrow> string \<times> nat" where
  "replace_mark str new_value begin_pos =
     (case find_from str begin_pos of
        None \<Rightarrow> (str, begin_pos)
      | Some pos \<Rightarrow>
          let prime_new_value = [CHR 0x27] @ new_value @ [CHR 0x27]
          in (take pos str @ prime_new_value @ drop (pos + 1) str, pos + length prime_new_value))"

text \<open>Positions are \<open>uint32_t\<close>: statements have less than 4 GiB.\<close>

definition replace_mark_int :: "string \<Rightarrow> u32w \<Rightarrow> nat \<Rightarrow> string \<times> nat" where
  "replace_mark_int str new_value begin_pos =
     (case find_from str begin_pos of
        None \<Rightarrow> (str, begin_pos)
      | Some pos \<Rightarrow>
          let str_value = int2string new_value
          in (take pos str @ str_value @ drop (pos + 1) str, pos + length str_value))"

section \<open>Percent encoding\<close>

definition toHex :: "byte \<Rightarrow> byte" where
  "toHex x = (if x > 9 then x - 10 + of_char CHR ''A'' else x + of_char CHR ''0'')"

definition fromHex :: "byte \<Rightarrow> byte" where
  "fromHex x = (if of_char CHR ''0'' \<le> x \<and> x \<le> of_char CHR ''9'' then x - of_char CHR ''0'' else x - of_char CHR ''A'' + 10)"

definition is_alnum :: "byte \<Rightarrow> bool" where
  "is_alnum c \<longleftrightarrow> of_char CHR ''0'' \<le> c \<and> c \<le> of_char CHR ''9'' \<or> of_char CHR ''A'' \<le> c \<and> c \<le> of_char CHR ''Z'' \<or>
     of_char CHR ''a'' \<le> c \<and> c \<le> of_char CHR ''z''"

definition encode_char :: "byte \<Rightarrow> byte list" where
  "encode_char c = (if is_alnum c then [c] else [of_char CHR ''%'', toHex (drop_bit 4 c), toHex (c mod 16)])"

definition URLEncode :: "byte list \<Rightarrow> byte list" where
  "URLEncode sIn = concat (map encode_char sIn)"

text \<open>\<open>sIn[i]\<close>: the character behind the last one is a NUL, the one after it is not there.\<close>

definition char_at :: "byte list \<Rightarrow> nat \<Rightarrow> byte option" where
  "char_at s i = (if i < length s then Some (s ! i) else if i = length s then Some 0 else None)"

fun URLDecode :: "byte list \<Rightarrow> byte list option" where
  "URLDecode [] = Some []"
| "URLDecode (c # cs) =
     (if c = of_char CHR ''%'' then
        case (char_at cs 0, char_at cs 1) of
          (Some x, Some y) \<Rightarrow> map_option (Cons (push_bit 4 (fromHex x) OR fromHex y)) (URLDecode (drop 2 cs))
        | _ \<Rightarrow> None
      else map_option (Cons (if c = of_char CHR ''+'' then of_char CHR '' '' else c)) (URLDecode cs))"

section \<open>Searching\<close>

definition at_pos :: "byte list \<Rightarrow> byte list \<Rightarrow> nat \<Rightarrow> bool" where
  "at_pos src sub i \<longleftrightarrow> take (length sub) (drop i src) = sub"

fun find_up :: "byte list \<Rightarrow> byte list \<Rightarrow> nat \<Rightarrow> nat \<Rightarrow> nat option" where
  "find_up src sub i 0 = None"
| "find_up src sub i (Suc n) = (if at_pos src sub i then Some i else find_up src sub (i + 1) n)"

fun find_down :: "byte list \<Rightarrow> byte list \<Rightarrow> nat \<Rightarrow> nat option" where
  "find_down src sub 0 = (if at_pos src sub 0 then Some 0 else None)"
| "find_down src sub (Suc i) = (if at_pos src sub (Suc i) then Some (Suc i) else find_down src sub i)"

text \<open>A position, or \<open>Some None\<close> for a null pointer. \<open>sub_str\<close> has \<open>sub_len\<close> bytes, or ends with a NUL if \<open>sub_len\<close>
  is 0; it may then be longer than \<open>src_str\<close>: the forward loop reads past the end, and the backward loop starts at a
  negative index and does nothing. Lengths are below \<open>2 ^ 31\<close>.\<close>

definition memfind :: "byte list option \<Rightarrow> byte list option \<Rightarrow> nat \<Rightarrow> bool \<Rightarrow> nat option option" where
  "memfind src_str sub_str sub_len flag =
     (case (src_str, sub_str) of
        (Some src, Some sub) \<Rightarrow>
          if length src = 0 \<or> length src < sub_len then Some None
          else
            let sub = (if sub_len = 0 then takeWhile (\<lambda>c. c \<noteq> 0) sub else take sub_len sub)
            in if length src = length sub then Some (if src = sub then Some 0 else None)
               else if length src < length sub then (if flag then None else Some None)
               else if flag then Some (find_up src sub 0 (length src - length sub))
               else Some (find_down src sub (length src - length sub))
      | _ \<Rightarrow> Some None)"

section \<open>Lemmas\<close>

lemma digits36_values: "map digit_of_char digits36 = map (\<lambda>n. Some (word_of_nat n)) [0..<36]"
  by (simp add: digits36_def digit_of_char_def upt_rec)

lemma digits36_digit: "n < 36 \<Longrightarrow> digit_of_char (digits36 ! n) = Some (word_of_nat n)"
proof -
  assume n: "n < 36"
  have "map digit_of_char digits36 ! n = map (\<lambda>n. Some (word_of_nat n)) [0..<36] ! n" by (simp only: digits36_values)
  moreover have "length digits36 = 36" by (simp add: digits36_def)
  ultimately show ?thesis using n by simp
qed

lemma mod_36: "unat ((v :: u32w) mod 36) < 36"
  by (simp add: unat_mod)

lemma url_digit_mod: "url_digit acc (digits36 ! unat (v mod 36)) = acc * 36 + v mod 36"
  using digits36_digit [OF mod_36, of v] by (simp add: url_digit_def)

lemma div_mod_36: "(v :: u32w) div 36 * 36 + v mod 36 = v"
  by (simp add: word_mod_div_equality)

lemma digits_loop_value:
  assumes "unat v < 36 ^ (63 - length ptr)" "length ptr < 63"
  shows "foldl url_digit 0 (digits_loop v ptr) = foldl url_digit v ptr"
  using assms
proof (induction v ptr rule: digits_loop.induct)
  case (1 v ptr)
  let ?d = "digits36 ! unat (v mod 36)"
  show ?case
  proof (cases "v div 36 = 0")
    case True
    then have "v mod 36 = v" using div_mod_36 [of v] by simp
    moreover have "digits_loop v ptr = ?d # ptr" using True by (simp add: digits_loop.simps [of v] Let_def)
    ultimately show ?thesis using url_digit_mod [of 0 v] by simp
  next
    case False
    define k where "k = 62 - length ptr"
    have k: "63 - length ptr = Suc k" using "1.prems"(2) by (simp add: k_def)
    have "unat v < 36 * 36 ^ k" using "1.prems"(1) by (simp add: k)
    then have lt: "unat (v div 36) < 36 ^ k" by (simp add: unat_div less_mult_imp_div_less mult.commute)
    have "k \<noteq> 0" using lt False by (cases k) (auto simp: unat_eq_zero)
    then have short: "Suc (length ptr) < 63" by (simp add: k_def)
    have "foldl url_digit 0 (digits_loop (v div 36) (?d # ptr)) = foldl url_digit (v div 36) (?d # ptr)"
      by (rule "1.IH" [OF refl refl]) (use short False lt in \<open>simp_all add: k_def\<close>)
    also have "\<dots> = foldl url_digit v ptr" by (simp add: url_digit_mod div_mod_36)
    also have "digits_loop (v div 36) (?d # ptr) = digits_loop v ptr"
      using short False by (simp add: digits_loop.simps [of v] Let_def)
    finally show ?thesis .
  qed
qed

lemma digits_loop_chars: "\<forall>c\<in>set ptr. c \<noteq> NUL \<Longrightarrow> \<forall>c\<in>set (digits_loop v ptr). c \<noteq> NUL"
proof (induction v ptr rule: digits_loop.induct)
  case (1 v ptr)
  have "\<forall>c\<in>set digits36. c \<noteq> NUL" by (simp add: digits36_def)
  moreover have "digits36 ! unat (v mod 36) \<in> set digits36"
    by (rule nth_mem) (use mod_36 [of v] in \<open>simp add: digits36_def\<close>)
  ultimately have "digits36 ! unat (v mod 36) \<noteq> NUL" by blast
  with 1 show ?case by (simp add: digits_loop.simps [of v] Let_def)
qed

lemma toHex_fromHex: "n < 16 \<Longrightarrow> fromHex (toHex n) = n"
proof -
  have all: "list_all (\<lambda>n. fromHex (toHex n) = n) (map word_of_nat [0..<16])"
    by (simp add: upt_rec fromHex_def toHex_def)
  assume "n < 16"
  then have u: "unat n < 16" by (simp add: word_less_nat_alt)
  with all have "fromHex (toHex (word_of_nat (unat n))) = word_of_nat (unat n)"
    unfolding list_all_length by (metis (no_types, lifting) length_map length_upt nth_map nth_upt add_0 diff_zero)
  then show ?thesis by simp
qed

lemma encode_char_decoded: "URLDecode (encode_char c @ rest) = map_option (Cons c) (URLDecode rest)"
proof (cases "is_alnum c")
  case True
  then have "c \<noteq> of_char CHR ''%''" "c \<noteq> of_char CHR ''+''" by (auto simp: is_alnum_def)
  with True show ?thesis by (simp add: encode_char_def)
next
  case False
  have h: "drop_bit 4 c < 16" "c mod 16 < 16"
    by (simp_all add: word_less_nat_alt unat_mod drop_bit_eq_div unat_div) (use unsigned_less [of c, where 'a = nat] in simp)
  have "push_bit 4 (drop_bit 4 c) OR (c mod 16) = c"
  proof -
    have "c mod 16 = take_bit 4 c" by (simp add: take_bit_eq_mod)
    then show ?thesis by (simp only:) (rule bit_word_eqI, auto simp: bit_simps)
  qed
  with False h show ?thesis by (simp add: encode_char_def char_at_def toHex_fromHex)
qed

text \<open>Entries that are not empty and have no separator.\<close>

fun join_with :: "'a \<Rightarrow> 'a list list \<Rightarrow> 'a list" where
  "join_with sep [] = []"
| "join_with sep [t] = t"
| "join_with sep (t # ts) = t @ sep # join_with sep ts"

lemma explode_entry: "sep \<notin> set t \<Longrightarrow> explode_loop sep start (t @ rest) = explode_loop sep (start @ t) rest"
  by (induction t arbitrary: start) auto

lemma explode_join:
  "ts \<noteq> [] \<Longrightarrow> \<forall>t\<in>set ts. t \<noteq> [] \<and> sep \<notin> set t \<Longrightarrow> explode_loop sep [] (join_with sep ts) = ts"
proof (induction ts rule: join_with.induct)
  case (2 sep t)
  then show ?case using explode_entry [of sep t "[]" "[]"] by simp
next
  case (3 sep t t' ts)
  have "sep \<notin> set t" "t \<noteq> []" using "3.prems" by simp_all
  then have "explode_loop sep [] (t @ sep # join_with sep (t' # ts)) = t # explode_loop sep [] (join_with sep (t' # ts))"
    by (simp add: explode_entry)
  with 3 show ?case by simp
qed simp

lemma count_join: "ts \<noteq> [] \<Longrightarrow> \<forall>t\<in>set ts. sep \<notin> set t \<Longrightarrow> 1 + length (filter (\<lambda>c. c = sep) (join_with sep ts)) = length ts"
proof (induction ts rule: join_with.induct)
  case (2 sep t)
  then have "filter (\<lambda>c. c = sep) t = []" by (auto simp: filter_empty_conv)
  then show ?case by simp
next
  case (3 sep t t' ts)
  then have "filter (\<lambda>c. c = sep) t = []" by (auto simp: filter_empty_conv)
  with 3 show ?case by simp
qed simp

lemma set_join: "set (join_with sep ts) \<subseteq> insert sep (\<Union>t\<in>set ts. set t)"
  by (induction sep ts rule: join_with.induct) auto

lemma c_str_all: "NUL \<notin> set s \<Longrightarrow> c_str s = s"
  by (auto simp: c_str_def takeWhile_eq_all_conv)

text \<open>What becomes of a statement: its parts with the quoted values between them.\<close>

fun fill :: "string list \<Rightarrow> string list \<Rightarrow> string" where
  "fill [] vs = []"
| "fill [p] vs = p"
| "fill (p # q # ps) [] = p @ CHR ''?'' # join_with CHR ''?'' (q # ps)"
| "fill (p # q # ps) (v # vs) = p @ [CHR 0x27] @ v @ [CHR 0x27] @ fill (q # ps) vs"

lemma find_mark_part: "CHR ''?'' \<notin> set p \<Longrightarrow> find_mark i (p @ rest) = find_mark (i + length p) rest"
  by (induction p arbitrary: i) auto

lemma fill_none: "fill ps [] = join_with CHR ''?'' ps"
  by (cases ps; cases "tl ps") (auto simp: neq_Nil_conv)

lemma marks_filled:
  assumes "\<forall>p\<in>set ps. CHR ''?'' \<notin> set p" "length vs < length ps"
  shows "fst (fold (\<lambda>v (s, pos). replace_mark s v pos) vs (done' @ join_with CHR ''?'' ps, length done')) = done' @ fill ps vs"
  using assms
proof (induction vs arbitrary: done' ps)
  case Nil
  then show ?case by (simp add: fill_none)
next
  case (Cons v vs)
  obtain p q qs where ps: "ps = p # q # qs" using Cons.prems(2) by (cases ps; cases "tl ps") auto
  let ?new = "[CHR 0x27] @ v @ [CHR 0x27]"
  have "find_from (done' @ join_with CHR ''?'' ps) (length done') = Some (length done' + length p)"
    using Cons.prems(1) by (simp add: find_from_def ps find_mark_part)
  then have "replace_mark (done' @ join_with CHR ''?'' ps) v (length done')
      = ((done' @ p @ ?new) @ join_with CHR ''?'' (q # qs), length (done' @ p @ ?new))"
    by (simp add: replace_mark_def ps)
  moreover have "fst (fold (\<lambda>v (s, pos). replace_mark s v pos) vs ((done' @ p @ ?new) @ join_with CHR ''?'' (q # qs), length (done' @ p @ ?new)))
      = (done' @ p @ ?new) @ fill (q # qs) vs"
    by (rule Cons.IH) (use Cons.prems ps in simp_all)
  ultimately show ?case by (simp add: ps)
qed

text \<open>Searching backwards finds the last place, searching forwards the first one before the end.\<close>

lemma find_down_last:
  "find_down src sub n = Some i \<longleftrightarrow> i \<le> n \<and> at_pos src sub i \<and> (\<forall>j. i < j \<and> j \<le> n \<longrightarrow> \<not> at_pos src sub j)"
  by (induction n) (auto simp: le_Suc_eq)

lemma find_up_first:
  "find_up src sub i n = Some k \<longleftrightarrow> i \<le> k \<and> k < i + n \<and> at_pos src sub k \<and> (\<forall>j. i \<le> j \<and> j < k \<longrightarrow> \<not> at_pos src sub j)"
proof (induction n arbitrary: i)
  case (Suc n)
  show ?case
  proof (cases "at_pos src sub i")
    case True
    then show ?thesis by (auto simp: not_less dest: spec [of _ i])
  next
    case False
    then show ?thesis by (auto simp: Suc.IH) (metis Suc_leI le_neq_implies_less, metis Suc_leD Suc_leI le_neq_implies_less)
  qed
qed simp

section \<open>Properties\<close>

text \<open>\<open>urltoid\<close> reads back from an address the lower 31 bits of the number that \<open>idtourl\<close> wrote into it: the
  top bit is lost when the number is doubled, every number below \<open>2 ^ 31\<close> survives.\<close>

theorem urltoid_idtourl: "urltoid (idtourl i) = i AND 0x7fffffff"
proof -
  let ?v = "i * 2 + 56"
  have b: "unat ?v < 36 ^ (63 - length [])"
    using unsigned_less [of ?v, where 'a = nat] by (simp add: order_less_le_trans [of _ "2 ^ 32"])
  have nul: "NUL \<notin> set (idtourl i)" using digits_loop_chars [of "[]" ?v] by (auto simp: idtourl_def)
  have "foldl url_digit 0 (digits_loop ?v []) = ?v" using digits_loop_value [OF b] by simp
  then have "urltoid (idtourl i) = drop_bit 1 (i * 2)"
    by (simp add: urltoid_def c_str_all [OF nul]) (simp add: idtourl_def)
  also have "i * 2 = push_bit 1 i" by (simp add: push_bit_eq_mult mult.commute)
  also have "drop_bit 1 (push_bit 1 i) = take_bit 31 i"
  proof (rule bit_word_eqI)
    fix n assume "n < LENGTH(32)"
    then show "bit (drop_bit 1 (push_bit 1 i)) n = bit (take_bit 31 i) n"
      by (simp only: bit_drop_bit_eq comp_def bit_push_bit_iff bit_take_bit_iff) auto
  qed
  also have "\<dots> = i AND 0x7fffffff" by (simp add: take_bit_eq_mask mask_eq_decr_exp)
  finally show ?thesis .
qed

text \<open>Percent decoding gives back every byte string that percent encoding made text of, and never reads past its end.\<close>

theorem URLDecode_URLEncode: "URLDecode (URLEncode s) = Some s"
  by (induction s) (simp_all add: URLEncode_def encode_char_decoded)

text \<open>Exploding a list of entries joined by a separator gives the entries, and sets every entry it allocated, provided that no
  entry is empty, holds the separator or a NUL.\<close>

theorem explode_gives_entries:
  assumes "ts \<noteq> []" "\<forall>t\<in>set ts. t \<noteq> [] \<and> sep \<notin> set t \<and> NUL \<notin> set t" "sep \<noteq> NUL"
  shows "item_list (join_with sep ts) sep = ts \<and> item_cnt (join_with sep ts) sep = length ts"
proof -
  have "NUL \<notin> set (join_with sep ts)" using set_join [of sep ts] assms(2,3) by auto
  then have "c_str (join_with sep ts) = join_with sep ts" by (rule c_str_all)
  with count_join [of ts sep] assms show ?thesis by (simp add: item_list_def item_cnt_def explode_join)
qed

theorem explode_gives_entries_witness:
  "item_list ''10.0.0.1;10.0.0.2'' CHR '';'' = [''10.0.0.1'', ''10.0.0.2''] \<and> item_cnt ''10.0.0.1;10.0.0.2'' CHR '';'' = 2"
  using explode_gives_entries [of "[''10.0.0.1'', ''10.0.0.2'']" "CHR '';''"] by simp

text \<open>An empty entry breaks it: with a separator at the start the number of entries allocated exceeds the ones that are set, and
  the destructor deletes pointers that were never set.\<close>

theorem empty_entry_leaves_pointers_unset:
  assumes "sep \<noteq> NUL"
  shows "length (item_list (sep # rest) sep) < item_cnt (sep # rest) sep"
proof -
  have len: "length (explode_loop sep start cs) \<le> length (filter (\<lambda>c. c = sep) cs) + (if start \<noteq> [] \<or> cs \<noteq> [] then 1 else 0)" for start cs
  proof (induction cs arbitrary: start)
    case (Cons c cs)
    from Cons.IH [of "[]"] Cons.IH [of "start @ [c]"] show ?case by (auto split: if_splits)
  qed simp
  have "length (explode_loop sep [sep] (c_str rest)) \<le> length (filter (\<lambda>c. c = sep) (c_str rest)) + 1"
    using len [of "[sep]" "c_str rest"] by simp
  with assms show ?thesis by (simp add: item_list_def item_cnt_def c_str_def)
qed

theorem empty_entry_leaves_pointers_unset_witness:
  "item_list '';10.0.0.1'' CHR '';'' = ['';10.0.0.1''] \<and> item_cnt '';10.0.0.1'' CHR '';'' = 2 \<and>
   length (item_list '';10.0.0.1'' CHR '';'') < item_cnt '';10.0.0.1'' CHR '';''"
  using empty_entry_leaves_pointers_unset [of "CHR '';''" "''10.0.0.1''"] by (simp add: item_list_def item_cnt_def c_str_def)

text \<open>C37: filling the marks of a statement one after the other puts each value, quoted, where its mark was, whatever marks the values
  themselves contain: a value is never searched.\<close>

theorem marks_are_filled_in_order:
  assumes "\<forall>p\<in>set ps. CHR ''?'' \<notin> set p" "length vs < length ps"
  shows "fst (fold (\<lambda>v (s, pos). replace_mark s v pos) vs (join_with CHR ''?'' ps, 0)) = fill ps vs"
  using marks_filled [OF assms, of "[]"] by simp

theorem marks_are_filled_in_order_witness:
  "fst (fold (\<lambda>v (s, pos). replace_mark s v pos) [''a?'', ''b''] (''set x=? where y=?'', 0))
   = ''set x='' @ [CHR 0x27] @ ''a?'' @ [CHR 0x27] @ '' where y='' @ [CHR 0x27] @ ''b'' @ [CHR 0x27]"
  using marks_are_filled_in_order [of "[''set x='', '' where y='', []]" "[''a?'', ''b'']"] by simp

end
