(* ===== verification/Spec2Isabelle.thy ===== *)
theory Spec2Isabelle
  imports Net_Buffer Protocol_Stream Hiredis_Sds_Text Hiredis_Dict Hiredis_Context Msg_Props Msg_Serv
    Login_Http Db_Groups Net_Timer Net_Server File_Props Sec_EncDec Sec_Md5 Base_Text
begin

text \<open>
  AChat, an instant-messaging server. This development models the message server
  (\<open>msgserver/\<close>), the login dispatch server (\<open>login_dispatch_server/\<close>), the data access of the
  database proxy (\<open>dbproxyserver/\<close>), the network layer (\<open>net/\<close>), the file server (\<open>fileserver/\<close>), the cryptography
  (\<open>libsecurity/\<close>), text functions (\<open>base/\<close>) and the Redis client the proxy talks through
  (\<open>hiredis/\<close>). Paths are below \<open>src/AChat\<close>.

  \<^bold>\<open>How the parts interact.\<close> A client asks the login dispatch server for a message server, over its
  binary protocol (\<open>LoginConn\<close>) or over HTTP (\<open>HttpConn\<close>), and connects to the one it is given
  (\<open>MsgConn\<close>). The message server asks a database proxy (\<open>DBServConn\<close>) to validate the login and
  registers the connection with its user (\<open>ImUser\<close>, \<open>ImUserManager\<close>). Requests of clients go to a
  database proxy with the handle of the connection attached, and its answers come back by user id and
  handle. Stored messages are delivered to all connections of sender and receiver, group messages
  (\<open>GroupChat\<close>) to those of all members; other message servers are reached through route
  servers. The login dispatch server is told how many users a message server has. The connections to
  other servers sit in reconnecting lists (\<open>base/ServInfo.h\<close>). The proxy keeps its data in MySQL
  (\<open>DBPool.cpp\<close>) and its counters in Redis (\<open>CachePool.cpp\<close>, through \<open>hiredis\<close>), behind
  pools of connections that its threads share. Below all servers is the network layer: loops that run
  timers and functors (\<open>EventLoop\<close>, \<open>TimerQueue\<close>), channels registered with a poller, connections
  with their buffers, and the packet streams.

  \<^bold>\<open>Theories of the library.\<close>
  \<^item> \<open>Achat_Prelude\<close>: lemmas on lists, words and big-endian numbers that the components share.
  \<^item> \<open>Std_Map\<close>: the part of \<open>std::map\<close> and \<open>std::set\<close> that the servers use, as sorted
    association lists, with the locale \<open>ordered_map\<close> and its interpretation. \<open>Std_Text\<close>: \<open>atoi\<close>,
    numbers as text, C strings.

  \<^bold>\<open>Message server.\<close>
  \<^item> \<open>Msg_Types\<close>: the numbers of \<open>base/public_define.h\<close>, the messages, the packets, the output
    log, and the environment of a handler.
  \<^item> \<open>Msg_Users\<close>: \<open>msgserver/ImUser.h\<close>, \<open>ImUser.cpp\<close> and the data of \<open>MsgConn.h\<close>. The record
    \<open>server\<close> is the whole state: connections, user objects by their address (freed ones map to
    nothing), the maps of \<open>ImUserManager\<close>, the connection map and what was sent.
  \<^item> \<open>Msg_Group\<close>: \<open>msgserver/GroupChat.cpp\<close>; \<open>Msg_Conn\<close>: \<open>msgserver/MsgConn.cpp\<close>, one definition
    per packet handler, the dispatch, the timer and \<open>Close\<close>, and the read loop of \<open>base/ImConn.cpp\<close>
    (\<open>on_read\<close>); \<open>Msg_Db\<close>: \<open>msgserver/DBServConn.cpp\<close>,
    the handlers of database answers.
  \<^item> \<open>Msg_Effects\<close>: which parts of the state each handler leaves alone, one lemma per handler;
    \<open>Msg_Server\<close>: the steps of the server. A read is one step that handles all packets that have come.
    The states of all runs are \<open>reachable\<close>; those of runs in which no read holds a packet behind one that closed its
    connection are \<open>orderly\<close>, and the theory has their invariant. \<open>Msg_Reads\<close>: the weaker invariant of all
    runs. \<open>Msg_Props\<close>: the properties.
  \<^item> \<open>Msg_Serv\<close>: \<open>base/ServInfo.h\<close>, \<open>msgserver/LoginServConn.cpp\<close> and the choice of a
    database connection, with their properties.

  \<^bold>\<open>Login dispatch server.\<close>
  \<^item> \<open>Login_Dispatch\<close>: \<open>LoginConn.cpp\<close>: the table of message servers, the choice of one, closing and
    the timer, and the composition with the message server's announcements.
  \<^item> \<open>Login_Http\<close>: \<open>HttpParserWrapper.cpp\<close>, \<open>HttpConn.cpp\<close>, \<open>ipparser.cpp\<close>.

  \<^bold>\<open>Database proxy.\<close>
  \<^item> \<open>Db_Pool\<close>: the pools, and threads as scripts of acquires and releases under any schedule.
  \<^item> \<open>Db_Cache\<close>: every operation of \<open>CacheConn\<close> as the words it sends; \<open>Db_Sql\<close>: statements and
    results. The record \<open>db\<close> is the state: pools, Redis and MySQL.
  \<^item> \<open>Db_Models\<close>: the functions of \<open>bussiness/DAO/\<close> on messages, sessions, relations, audio messages and
    counters, as texts of statements and commands.
  \<^item> \<open>Redis_Laws\<close>: the documented effect of the commands, as hypotheses on the server; \<open>Db_Unread\<close>,
    \<open>Db_Counters\<close>, \<open>Db_Groups\<close>: what the counters promise under these laws.

  \<^bold>\<open>Network layer.\<close>
  \<^item> \<open>Net_Buffer\<close>: \<open>net/Buffer.h\<close>, \<open>Buffer.cpp\<close>, \<open>Endian.h\<close>; \<open>Protocol_Stream\<close>:
    \<open>net/ProtocolStream.cpp\<close>.
  \<^item> \<open>Net_Timer\<close>: \<open>net/Timer.cpp\<close>, \<open>TimerQueue.cpp\<close>. A timer is an address in a heap, the queue the sorted
    list of the entries of the set.
  \<^item> \<open>Net_Conn\<close>: \<open>Channel.cpp\<close>, \<open>EpollPoller.cpp\<close>, \<open>TcpConnection.cpp\<close>, \<open>TcpServer.cpp\<close> and the functors of
    \<open>EventLoop.cpp\<close>. The record \<open>net\<close> holds channels, the table of the poller, connections, the
    queued functors and a log of what was written and called. \<open>Net_Server\<close>: its invariant and properties.

  \<^bold>\<open>Cryptography, text, Redis client.\<close>
  \<^item> \<open>Sec_Aes_Tables\<close>, \<open>Sec_Aes\<close>: \<open>aes_core.cpp\<close>; \<open>Sec_Aes_Inverse\<close>: decryption is the inverse of encryption.
    \<open>Sec_Base64\<close>: \<open>base64.cpp\<close>; \<open>Sec_Md5\<close>: \<open>md5.cpp\<close>; \<open>Sec_EncDec\<close>: \<open>security.cpp\<close> and \<open>base/EncDec.cpp\<close>.
  \<^item> \<open>Base_Text\<close>: \<open>base/util.cpp\<close>, \<open>base/UtilPdu.cpp\<close>.
  \<^item> \<open>Hiredis_Sds\<close>, \<open>Hiredis_Sds_Text\<close>: \<open>sds.c\<close>; \<open>Hiredis_Dict\<close>: \<open>dict.c\<close>;
    \<open>Hiredis_Reader\<close>: \<open>read.c\<close>; \<open>Hiredis_Format\<close>, \<open>Hiredis_Context\<close>: \<open>hiredis.c\<close>.

  \<^bold>\<open>File server.\<close>
  \<^item> \<open>File_Server\<close>: \<open>fileserver/FileManager.cpp\<close>, \<open>TcpSession.cpp\<close>, \<open>FileSession.cpp\<close>, \<open>FileServer.cpp\<close>. The record
    \<open>file_state\<close> is a session with the disk and the list of files, \<open>file_server\<close> the sessions of all
    connections; requests are parsed by the reader of \<open>Protocol_Stream\<close> out of a \<open>Net_Buffer\<close>.
  \<^item> \<open>File_Props\<close>: packages survive any cut of the stream, an uploaded file comes back, and three faults.

  \<^bold>\<open>What the lemmas show.\<close> For the message server: an invariant of the tables holds in every state
  that connects, reads of any packets, database answers, timer ticks and disconnects can reach. From
  it follow that no freed user object is used, that the tables are well typed, that clients act only
  under their own id and cannot exceed the message rate, and who gets a message. In orderly runs moreover the counts
  announced to the login servers are right, and a connection is found by its id and handle exactly while it is logged in
  and not closed. Both fail without the order, because \<open>ImConn::onRead\<close> goes on with the packets behind one that closed
  the connection: two logouts in one read are counted twice, a login behind a logout registers a closed connection. For the login dispatch
  server: its total is the sum of its table, clients get the least loaded server, and a response leaves
  once and in order. For the proxy: no connection of a pool is shared by two threads, threads that
  hold one at a time always finish, and the counters implement numbers per pair of users and per
  group. For the network layer: timers run in the order of the set, the bytes of a connection leave in order,
  and callbacks follow its state. For the cryptography: decryption takes back encryption, for
  blocks, texts and messages, decryption never leaves its block whatever text it is given, and MD5 is the digest of its
  standard, which \<open>Sec_Md5\<close> states apart from the code. For the buffer, the strings
  and the callback table: every run of operations acts like the same run on an abstract byte string
  or map. For streams, commands and replies: what is written is read back, and malformed input has
  the stated effect. Several theorems show faults of the code: the authorization check rejects nothing,
  closing a connection can lose the login of another, one packet ends the file server, a timer starves the ones behind it, a descriptor
  serves one connection only, and no event is ever asked of the kernel.

  \<^bold>\<open>Assumptions.\<close> The reachable states of the message server assume that a new connection has a handle
  that is valid and not in use, that the database answers a login name always with the same nonzero
  user id, and that clients log in with a nonempty name. The clock, the database and route
  connection at hand, the text cipher and the push texts are a parameter of every handler
  (\<open>env\<close>). A hash map is visited in an arbitrary order, a parameter of the timers. Numbers of
  \<open>rand\<close>, results of system and socket calls and the answers of the allocator are lists or functions
  given from outside. A message is modelled as its parsed content, protocol buffers as lossless. The
  Redis and MySQL servers are parameters; what the counters rely on are the laws of \<open>Redis_Laws\<close>, and
  each property that uses them is applied to a concrete server.

  \<^bold>\<open>Bounds and fuel.\<close> Words keep their width. The \<open>int\<close> fields of sds headers are naturals, exact as long as a string's
  block has less than 2 GiB; the property on the reply reader bounds its input so that this holds and concludes it, and the
  conversions of lengths and counts to \<open>int\<close> in the reader are written out (\<open>to_int32\<close>). The lengths of
  buffers are bounded by hypotheses where a property needs it. Loops that wait for a socket or for
  \<open>rand\<close> run on fuel or on a list of results; the properties about them show that enough of it gives a
  result. The reply reader's nesting is bounded by its nine-entry stack, as in the code.

  \<^bold>\<open>Not modelled.\<close> Configuration files, logs, start-up and the threads of the network layer, which are
  input and output; the packet classes \<open>base/ImPduBase.cpp\<close> and \<open>base/ImConn.cpp\<close> (but for its read loop), which write to
  buffers that nothing declares; the services of the proxy, which parse a packet, call one model
  function and send the answer; the functions of the proxy that only build statements on users and
  groups. Route, push and file connections of the message server are not in the repository. Protocol
  Buffers, zlib, the HTTP parser and the MySQL headers are third-party code.
\<close>

end
